(* ===== verification/Prelude.thy ===== *)
theory Prelude
  imports Main "HOL-Library.Word"
begin

unbundle bit_operations_syntax

text \<open>
  Shared ground of the development: the outcome of a Rust call, machine words and
  their checked arithmetic, byte slices and in-place slice writes, the little- and
  big-endian integer codecs of the on-disk formats, and the few vector operations of
  the Rust standard library that the planners use.

  Conventions of all theories that import this one:
  \<^item> a Rust \<open>Result<T>\<close> is \<open>('e, 't) outcome\<close>: \<open>Ok\<close>, \<open>Err\<close>, and \<open>Panic\<close> for a call
    that unwinds (an index or a slice out of range), or, in the planners of \<open>Alloc\<close>, whose search never returns;
  \<^item> \<open>u8\<close>, \<open>u16\<close>, \<open>u32\<close>, \<open>u64\<close> are words of that width, so \<open>+\<close>, \<open>-\<close>, \<open>*\<close> wrap as
    they do in the release profile of \<open>Cargo.toml\<close>, which has no overflow checks;
  \<^item> \<open>usize\<close> is \<open>nat\<close>: every such value in the modelled code is a buffer length or an
    offset into a buffer that exists, far below $2^{64}$;
  \<^item> a \<open>u64\<close> sum whose operands are widened \<open>u32\<close> or \<open>u16\<close> values cannot wrap and is
    computed on \<open>nat\<close>.
\<close>

section \<open>Types and fact collections\<close>

type_synonym u8 = "8 word"
type_synonym u16 = "16 word"
type_synonym u32 = "32 word"
type_synonym u64 = "64 word"
type_synonym bytes = "u8 list"

named_theorems outcome_simps \<open>rewrite rules for the outcome combinators\<close>
named_theorems slice_simps \<open>reading slices of a buffer that was written in place\<close>
named_theorems codec_simps \<open>lengths and round trips of the integer codecs\<close>

section \<open>Outcomes of Rust calls\<close>

datatype ('e, 'a) outcome = Ok 'a | Err 'e | Panic

text \<open>Sequencing through Rust's question-mark operator: the first failure is the result.\<close>

fun and_then :: "('e, 'a) outcome \<Rightarrow> ('a \<Rightarrow> ('e, 'b) outcome) \<Rightarrow> ('e, 'b) outcome" where
  "and_then (Ok x) f = f x"
| "and_then (Err e) f = Err e"
| "and_then Panic f = Panic"

definition ok_or :: "'a option \<Rightarrow> 'e \<Rightarrow> ('e, 'a) outcome" where
  "ok_or x e = (case x of None \<Rightarrow> Err e | Some v \<Rightarrow> Ok v)"

fun is_ok :: "('e, 'a) outcome \<Rightarrow> bool" where
  "is_ok (Ok _) = True"
| "is_ok _ = False"

fun map_ok :: "('a \<Rightarrow> 'b) \<Rightarrow> ('e, 'a) outcome \<Rightarrow> ('e, 'b) outcome" where
  "map_ok f (Ok x) = Ok (f x)"
| "map_ok f (Err e) = Err e"
| "map_ok f Panic = Panic"

lemma and_then_eq_Ok [outcome_simps]:
  "and_then m f = Ok y \<longleftrightarrow> (\<exists>x. m = Ok x \<and> f x = Ok y)"
  by (cases m) auto

lemma and_then_eq_Err [outcome_simps]:
  "and_then m f = Err e \<longleftrightarrow> m = Err e \<or> (\<exists>x. m = Ok x \<and> f x = Err e)"
  by (cases m) auto

lemma and_then_eq_Panic [outcome_simps]:
  "and_then m f = Panic \<longleftrightarrow> m = Panic \<or> (\<exists>x. m = Ok x \<and> f x = Panic)"
  by (cases m) auto

lemma and_then_assoc: "and_then (and_then m f) g = and_then m (\<lambda>x. and_then (f x) g)"
  by (cases m) auto

lemma ok_or_eq_Ok [outcome_simps]: "ok_or x e = Ok v \<longleftrightarrow> x = Some v"
  by (auto simp: ok_or_def split: option.splits)

lemma ok_or_eq_Err [outcome_simps]: "ok_or x e = Err e' \<longleftrightarrow> x = None \<and> e' = e"
  by (auto simp: ok_or_def split: option.splits)

lemma ok_or_not_Panic [simp]: "ok_or x e \<noteq> Panic"
  by (auto simp: ok_or_def split: option.splits)

lemma ok_or_simps [simp]: "ok_or None e = Err e" "ok_or (Some v) e = Ok v"
  by (simp_all add: ok_or_def)

section \<open>Checked and saturating word arithmetic\<close>

definition checked_add :: "'a::len word \<Rightarrow> 'a word \<Rightarrow> 'a word option" where
  "checked_add a b = (if unat a + unat b < 2 ^ LENGTH('a) then Some (a + b) else None)"

definition checked_sub :: "'a::len word \<Rightarrow> 'a word \<Rightarrow> 'a word option" where
  "checked_sub a b = (if b \<le> a then Some (a - b) else None)"

definition checked_mul :: "'a::len word \<Rightarrow> 'a word \<Rightarrow> 'a word option" where
  "checked_mul a b = (if unat a * unat b < 2 ^ LENGTH('a) then Some (a * b) else None)"

definition saturating_sub :: "'a::len word \<Rightarrow> 'a word \<Rightarrow> 'a word" where
  "saturating_sub a b = (if b \<le> a then a - b else 0)"

definition div_ceil :: "'a::len word \<Rightarrow> 'a word \<Rightarrow> 'a word" where
  "div_ceil a b = a div b + (if a mod b = 0 then 0 else 1)"

lemma checked_add_Some:
  "checked_add a b = Some c \<Longrightarrow> unat c = unat a + unat b"
  by (auto simp: checked_add_def unat_word_ariths split: if_splits)

lemma checked_sub_Some:
  "checked_sub a b = Some c \<Longrightarrow> unat b \<le> unat a \<and> unat c = unat a - unat b"
  by (auto simp: checked_sub_def word_le_nat_alt unat_sub split: if_splits)

lemma checked_mul_Some:
  "checked_mul a b = Some c \<Longrightarrow> unat c = unat a * unat b"
  by (auto simp: checked_mul_def unat_word_ariths split: if_splits)

lemma unat_add_no_wrap:
  "unat (a :: 'a::len word) + unat b < 2 ^ LENGTH('a) \<Longrightarrow> unat (a + b) = unat a + unat b"
  by (simp add: unat_word_ariths)

lemma unat_mult_no_wrap:
  "unat (a :: 'a::len word) * unat b < 2 ^ LENGTH('a) \<Longrightarrow> unat (a * b) = unat a * unat b"
  by (simp add: unat_word_ariths)

lemma unat_max: "unat (max a b) = max (unat a) (unat (b :: 'a::len word))"
  by (simp add: max_def word_le_nat_alt)

lemma unat_min: "unat (min a b) = min (unat a) (unat (b :: 'a::len word))"
  by (simp add: min_def word_le_nat_alt)

lemma unat_saturating_sub: "unat (saturating_sub a b) = unat a - unat b"
  by (auto simp: saturating_sub_def word_le_nat_alt unat_sub)

lemma unat_lt2p [simp]: "unat (w :: 'a::len word) < 2 ^ LENGTH('a)"
  using unsigned_less [of w] by simp

text \<open>Widening keeps the value; it is how every \<open>as u64\<close> on a smaller field is read.\<close>

lemma unat_ucast_up [simp]:
  assumes "LENGTH('a::len) \<le> LENGTH('b::len)"
  shows "unat (ucast (x :: 'a word) :: 'b word) = unat x"
proof -
  have "unat x < 2 ^ LENGTH('b)"
    using unat_lt2p [of x] power_increasing [OF assms, of "2 :: nat"] by linarith
  then show ?thesis by (simp add: unsigned_ucast_eq take_bit_nat_eq_self_iff)
qed


lemma unat_u8_bound: "unat (b :: u8) < 256"
  using unat_lt2p [of b] by simp

lemma unat_u16_bound: "unat (b :: u16) < 65536"
  using unat_lt2p [of b] by simp

lemma unat_u32_bound: "unat (b :: u32) < 4294967296"
  using unat_lt2p [of b] by simp

section \<open>Slices and in-place writes\<close>

definition slice :: "nat \<Rightarrow> nat \<Rightarrow> 'a list \<Rightarrow> 'a list" where
  "slice i j xs = take (j - i) (drop i xs)"

text \<open>The Rust slice expression: it unwinds unless the range lies inside the buffer.\<close>

definition get_slice :: "nat \<Rightarrow> nat \<Rightarrow> 'a list \<Rightarrow> ('e, 'a list) outcome" where
  "get_slice i j xs = (if i \<le> j \<and> j \<le> length xs then Ok (slice i j xs) else Panic)"

text \<open>\<open>buf[off..off + ys.len()].copy_from_slice(ys)\<close> where the range is known to fit.\<close>

definition put :: "nat \<Rightarrow> 'a list \<Rightarrow> 'a list \<Rightarrow> 'a list" where
  "put off ys xs = take off xs @ ys @ drop (off + length ys) xs"

definition put_checked :: "nat \<Rightarrow> 'a list \<Rightarrow> 'a list \<Rightarrow> ('e, 'a list) outcome" where
  "put_checked off ys xs = (if off + length ys \<le> length xs then Ok (put off ys xs) else Panic)"

lemma length_slice [simp]: "length (slice i j xs) = min (j - i) (length xs - i)"
  by (simp add: slice_def)

lemma nth_slice: "k < j - i \<Longrightarrow> j \<le> length xs \<Longrightarrow> slice i j xs ! k = xs ! (i + k)"
  by (simp add: slice_def)

lemma slice_all [simp]: "slice 0 (length xs) xs = xs"
  by (simp add: slice_def)

lemma slice_slice: "b \<le> j - i \<Longrightarrow> slice a b (slice i j xs) = slice (i + a) (i + b) xs"
  by (auto simp: slice_def take_drop min_def add.commute)

lemma slice_append_left [slice_simps]:
  "j \<le> length xs \<Longrightarrow> slice i j (xs @ ys) = slice i j xs"
  by (cases "i \<le> j") (auto simp: slice_def)

lemma slice_append_right [slice_simps]:
  "length xs \<le> i \<Longrightarrow> slice i j (xs @ ys) = slice (i - length xs) (j - length xs) ys"
  by (auto simp: slice_def)

lemma length_put [simp]:
  "off + length ys \<le> length xs \<Longrightarrow> length (put off ys xs) = length xs"
  by (simp add: put_def)

lemma nth_put:
  assumes "off + length ys \<le> length xs" "k < length xs"
  shows "put off ys xs ! k = (if off \<le> k \<and> k < off + length ys then ys ! (k - off) else xs ! k)"
  using assms by (auto simp: put_def nth_append)

lemma slice_put_same [slice_simps]:
  "off + length ys \<le> length xs \<Longrightarrow> j = off + length ys \<Longrightarrow> slice off j (put off ys xs) = ys"
  by (simp add: slice_def put_def)

lemma slice_put_before [slice_simps]:
  assumes "off + length ys \<le> length xs" "j \<le> off"
  shows "slice i j (put off ys xs) = slice i j xs"
  using assms by (cases "i \<le> j") (auto simp: slice_def put_def min_def take_drop)

lemma slice_put_after [slice_simps]:
  assumes "off + length ys \<le> length xs" "off + length ys \<le> i"
  shows "slice i j (put off ys xs) = slice i j xs"
  using assms by (auto simp: slice_def put_def)

lemma put_checked_eq_Ok [outcome_simps]:
  "put_checked off ys xs = Ok zs \<longleftrightarrow> off + length ys \<le> length xs \<and> zs = put off ys xs"
  by (auto simp: put_checked_def)

lemma get_slice_eq_Ok [outcome_simps]:
  "get_slice i j xs = Ok zs \<longleftrightarrow> i \<le> j \<and> j \<le> length xs \<and> zs = slice i j xs"
  by (auto simp: get_slice_def)

section \<open>Integer codecs\<close>

fun le_val :: "bytes \<Rightarrow> nat" where
  "le_val [] = 0"
| "le_val (b # bs) = unat b + 256 * le_val bs"

fun le_enc :: "nat \<Rightarrow> nat \<Rightarrow> bytes" where
  "le_enc 0 n = []"
| "le_enc (Suc k) n = word_of_nat (n mod 256) # le_enc k (n div 256)"

lemma length_le_enc [simp]: "length (le_enc k n) = k"
  by (induction k arbitrary: n) auto

lemma le_val_le_enc: "le_val (le_enc k n) = n mod 256 ^ k"
proof (induction k arbitrary: n)
  case 0
  then show ?case by simp
next
  case (Suc k)
  have "unat (word_of_nat (n mod 256) :: u8) = n mod 256"
    by (simp add: unat_of_nat)
  with Suc show ?case by (simp add: mod_mult2_eq)
qed

lemma le_val_bound: "le_val bs < 256 ^ length bs"
proof (induction bs)
  case Nil
  then show ?case by simp
next
  case (Cons b bs)
  have "unat b < 256" by (rule unat_u8_bound)
  with Cons show ?case by simp
qed

lemma le_enc_le_val: "length bs = k \<Longrightarrow> le_enc k (le_val bs) = bs"
proof (induction bs arbitrary: k)
  case Nil
  then show ?case by simp
next
  case (Cons b bs)
  have b: "unat b < 256" by (rule unat_u8_bound)
  then have "(unat b + 256 * le_val bs) mod 256 = unat b"
    "(unat b + 256 * le_val bs) div 256 = le_val bs" by simp_all
  with Cons show ?case by (cases k) auto
qed

definition u16_from_le :: "bytes \<Rightarrow> u16" where "u16_from_le bs = word_of_nat (le_val bs)"
definition u32_from_le :: "bytes \<Rightarrow> u32" where "u32_from_le bs = word_of_nat (le_val bs)"
definition u64_from_le :: "bytes \<Rightarrow> u64" where "u64_from_le bs = word_of_nat (le_val bs)"
definition u16_to_le :: "u16 \<Rightarrow> bytes" where "u16_to_le w = le_enc 2 (unat w)"
definition u32_to_le :: "u32 \<Rightarrow> bytes" where "u32_to_le w = le_enc 4 (unat w)"
definition u64_to_le :: "u64 \<Rightarrow> bytes" where "u64_to_le w = le_enc 8 (unat w)"

definition u16_from_be :: "bytes \<Rightarrow> u16" where "u16_from_be bs = u16_from_le (rev bs)"
definition u32_from_be :: "bytes \<Rightarrow> u32" where "u32_from_be bs = u32_from_le (rev bs)"
definition u64_from_be :: "bytes \<Rightarrow> u64" where "u64_from_be bs = u64_from_le (rev bs)"
definition u16_to_be :: "u16 \<Rightarrow> bytes" where "u16_to_be w = rev (u16_to_le w)"
definition u32_to_be :: "u32 \<Rightarrow> bytes" where "u32_to_be w = rev (u32_to_le w)"
definition u64_to_be :: "u64 \<Rightarrow> bytes" where "u64_to_be w = rev (u64_to_le w)"

text \<open>
  The contract every fixed-width field codec meets, and what a client of it may rely
  on: the value written at an offset is the value read there, and a write elsewhere
  in the buffer does not disturb it.
\<close>

locale fixed_codec =
  fixes enc :: "'v \<Rightarrow> bytes" and dec :: "bytes \<Rightarrow> 'v" and width :: nat
  assumes dec_enc: "dec (enc v) = v"
    and enc_dec: "length bs = width \<Longrightarrow> enc (dec bs) = bs"
    and enc_length: "length (enc v) = width"
begin

lemma read_back:
  "off + width \<le> length buf \<Longrightarrow> j = off + width \<Longrightarrow> dec (slice off j (put off (enc v) buf)) = v"
  using dec_enc enc_length by (simp add: slice_simps)

lemma read_other:
  assumes "off' + width \<le> length buf" "off + n \<le> off' \<or> off' + width \<le> off"
  shows "dec (slice off (off + n) (put off' (enc v) buf)) = dec (slice off (off + n) buf)"
  using assms enc_length by (auto simp: slice_simps)

lemma enc_inject: "enc v = enc w \<longleftrightarrow> v = w"
  by (metis dec_enc)

lemma dec_inject:
  "length bs = width \<Longrightarrow> length cs = width \<Longrightarrow> dec bs = dec cs \<longleftrightarrow> bs = cs"
  by (metis enc_dec)

end

lemma word_of_nat_le_enc:
  assumes "2 ^ LENGTH('a) = (256 :: nat) ^ k"
  shows "(word_of_nat (le_val (le_enc k (unat w))) :: 'a::len word) = w"
proof -
  have "unat w < 256 ^ k" using unat_lt2p [of w] assms by simp
  then show ?thesis by (simp add: le_val_le_enc)
qed

lemma le_enc_word_of_nat:
  assumes "2 ^ LENGTH('a) = (256 :: nat) ^ k" "length bs = k"
  shows "le_enc k (unat (word_of_nat (le_val bs) :: 'a::len word)) = bs"
proof -
  have "le_val bs < 2 ^ LENGTH('a)" using le_val_bound [of bs] assms by simp
  then have "unat (word_of_nat (le_val bs) :: 'a word) = le_val bs"
    by (simp add: unat_of_nat)
  then show ?thesis using assms(2) by (simp add: le_enc_le_val)
qed

interpretation le16: fixed_codec u16_to_le u16_from_le 2
  by unfold_locales
    (simp_all add: u16_to_le_def u16_from_le_def word_of_nat_le_enc le_enc_word_of_nat)

interpretation le32: fixed_codec u32_to_le u32_from_le 4
  by unfold_locales
    (simp_all add: u32_to_le_def u32_from_le_def word_of_nat_le_enc le_enc_word_of_nat)

interpretation le64: fixed_codec u64_to_le u64_from_le 8
  by unfold_locales
    (simp_all add: u64_to_le_def u64_from_le_def word_of_nat_le_enc le_enc_word_of_nat)

interpretation be16: fixed_codec u16_to_be u16_from_be 2
  by unfold_locales
    (simp_all add: u16_to_be_def u16_from_be_def le16.dec_enc le16.enc_length le16.enc_dec)

interpretation be32: fixed_codec u32_to_be u32_from_be 4
  by unfold_locales
    (simp_all add: u32_to_be_def u32_from_be_def le32.dec_enc le32.enc_length le32.enc_dec)

interpretation be64: fixed_codec u64_to_be u64_from_be 8
  by unfold_locales
    (simp_all add: u64_to_be_def u64_from_be_def le64.dec_enc le64.enc_length le64.enc_dec)

lemmas codec_lengths [simp, codec_simps] =
  le16.enc_length le32.enc_length le64.enc_length be16.enc_length be32.enc_length be64.enc_length

lemmas codec_roundtrips [simp, codec_simps] =
  le16.dec_enc le32.dec_enc le64.dec_enc be16.dec_enc be32.dec_enc be64.dec_enc

text \<open>Field reads at a byte offset, as the parsers write them.\<close>

definition get_le16 :: "nat \<Rightarrow> bytes \<Rightarrow> u16" where
  "get_le16 off buf = u16_from_le (slice off (off + 2) buf)"
definition get_le32 :: "nat \<Rightarrow> bytes \<Rightarrow> u32" where
  "get_le32 off buf = u32_from_le (slice off (off + 4) buf)"
definition get_be16 :: "nat \<Rightarrow> bytes \<Rightarrow> u16" where
  "get_be16 off buf = u16_from_be (slice off (off + 2) buf)"
definition get_be32 :: "nat \<Rightarrow> bytes \<Rightarrow> u32" where
  "get_be32 off buf = u32_from_be (slice off (off + 4) buf)"
definition get_be64 :: "nat \<Rightarrow> bytes \<Rightarrow> u64" where
  "get_be64 off buf = u64_from_be (slice off (off + 8) buf)"

lemmas get_field_defs = get_le16_def get_le32_def get_be16_def get_be32_def get_be64_def

lemma get_put_same [codec_simps]:
  "off + 2 \<le> length buf \<Longrightarrow> get_le16 off (put off (u16_to_le a) buf) = a"
  "off + 4 \<le> length buf \<Longrightarrow> get_le32 off (put off (u32_to_le b) buf) = b"
  "off + 2 \<le> length buf \<Longrightarrow> get_be16 off (put off (u16_to_be a) buf) = a"
  "off + 4 \<le> length buf \<Longrightarrow> get_be32 off (put off (u32_to_be b) buf) = b"
  "off + 8 \<le> length buf \<Longrightarrow> get_be64 off (put off (u64_to_be c) buf) = c"
  by (simp_all add: get_field_defs slice_simps)

lemma get_put_other [codec_simps]:
  assumes "p + length ys \<le> length buf"
  shows "off + 2 \<le> p \<or> p + length ys \<le> off \<Longrightarrow> get_le16 off (put p ys buf) = get_le16 off buf"
    and "off + 4 \<le> p \<or> p + length ys \<le> off \<Longrightarrow> get_le32 off (put p ys buf) = get_le32 off buf"
    and "off + 2 \<le> p \<or> p + length ys \<le> off \<Longrightarrow> get_be16 off (put p ys buf) = get_be16 off buf"
    and "off + 4 \<le> p \<or> p + length ys \<le> off \<Longrightarrow> get_be32 off (put p ys buf) = get_be32 off buf"
    and "off + 8 \<le> p \<or> p + length ys \<le> off \<Longrightarrow> get_be64 off (put p ys buf) = get_be64 off buf"
  using assms by (auto simp: get_field_defs slice_simps)

text \<open>What the simplifier needs to compute a codec on literal bytes.\<close>

lemmas codec_eval = get_field_defs slice_def u16_from_le_def u32_from_le_def u64_from_le_def
  u16_from_be_def u32_from_be_def u64_from_be_def u16_to_le_def u32_to_le_def u64_to_le_def
  u16_to_be_def u32_to_be_def u64_to_be_def numeral_eq_Suc put_def

section \<open>Vector operations of the Rust standard library\<close>

text \<open>\<open>iter().position(p)\<close>: the index of the first element that satisfies \<open>p\<close>.\<close>

fun position :: "('a \<Rightarrow> bool) \<Rightarrow> 'a list \<Rightarrow> nat option" where
  "position p [] = None"
| "position p (x # xs) = (if p x then Some 0 else map_option Suc (position p xs))"

definition vec_insert :: "nat \<Rightarrow> 'a \<Rightarrow> 'a list \<Rightarrow> 'a list" where
  "vec_insert i x xs = take i xs @ x # drop i xs"

definition vec_remove :: "nat \<Rightarrow> 'a list \<Rightarrow> 'a list" where
  "vec_remove i xs = take i xs @ drop (Suc i) xs"

text \<open>\<open>slice::chunks(n)\<close>, for a positive \<open>n\<close> (zero panics in Rust; no caller passes it).\<close>

function chunks :: "nat \<Rightarrow> 'a list \<Rightarrow> 'a list list" where
  "chunks n xs = (if xs = [] \<or> n = 0 then [] else take n xs # chunks n (drop n xs))"
  by pat_completeness auto
termination
  by (relation "measure (\<lambda>(n, xs). length xs)") auto

declare chunks.simps [simp del]

lemma position_Some:
  "position p xs = Some i \<Longrightarrow> i < length xs \<and> p (xs ! i) \<and> (\<forall>j < i. \<not> p (xs ! j))"
proof (induction xs arbitrary: i)
  case Nil
  then show ?case by simp
next
  case (Cons x xs)
  then show ?case by (auto split: if_splits simp: less_Suc_eq_0_disj)
qed

lemma position_None: "position p xs = None \<longleftrightarrow> (\<forall>x \<in> set xs. \<not> p x)"
  by (induction xs) auto

lemma length_vec_insert [simp]: "i \<le> length xs \<Longrightarrow> length (vec_insert i x xs) = Suc (length xs)"
  by (simp add: vec_insert_def)

lemma length_vec_remove [simp]: "i < length xs \<Longrightarrow> length (vec_remove i xs) = length xs - 1"
  by (simp add: vec_remove_def)

lemma set_vec_insert: "set (vec_insert i x xs) = insert x (set xs)"
  using set_append [of "take i xs" "drop i xs"] by (simp add: vec_insert_def)

lemma concat_chunks: "0 < n \<Longrightarrow> concat (chunks n xs) = xs"
proof (induction n xs rule: chunks.induct)
  case (1 n xs)
  then show ?case by (cases "xs = []") (simp_all add: chunks.simps [of n xs] chunks.simps [of n "[]"])
qed

lemma chunks_member:
  "c \<in> set (chunks n xs) \<Longrightarrow> c \<noteq> [] \<and> length c \<le> n"
proof (induction n xs rule: chunks.induct)
  case (1 n xs)
  show ?case
  proof (cases "xs = [] \<or> n = 0")
    case True
    with "1.prems" show ?thesis by (simp add: chunks.simps [of n xs])
  next
    case False
    with "1.prems" have "c = take n xs \<or> c \<in> set (chunks n (drop n xs))"
      by (simp add: chunks.simps [of n xs])
    with "1.IH" False show ?thesis by auto
  qed
qed

end
