(* ===== verification/Ext4_Error.thy ===== *)
theory Ext4_Error
  imports Prelude
begin

text \<open>
  The driver's error type (\<open>src/error.rs\<close>) and its mapping to errno values. An
  \<open>io::Error\<close> is represented by what the driver reads of it: the operating system's
  code, where it carries one.
\<close>

datatype io_error =
    OsError int
  | KindError string

datatype ext4_error =
    Io io_error
  | BadMagic u16 u16
  | BadChecksum string
  | UnsupportedIncompat u32
  | UnsupportedRoCompat u32
  | NotFound
  | NotADirectory
  | IsADirectory
  | AlreadyExists
  | DirectoryNotEmpty
  | ReadOnly
  | NameTooLong
  | NoSpaceLeftOnDevice
  | InvalidArgument string
  | InvalidInode u32
  | InvalidBlock u64
  | OutOfBounds
  | CorruptExtentTree string
  | CorruptDirEntry string
  | Corrupt string
  | TooManyLinks
  | Unsupported string
  | JournalNotReplayed
  | Stale

type_synonym 'a result = "(ext4_error, 'a) outcome"

definition ENOENT :: int where "ENOENT = 2"
definition EIO :: int where "EIO = 5"
definition EEXIST :: int where "EEXIST = 17"
definition ENOTDIR :: int where "ENOTDIR = 20"
definition EISDIR :: int where "EISDIR = 21"
definition EINVAL :: int where "EINVAL = 22"
definition EROFS :: int where "EROFS = 30"
definition EMLINK :: int where "EMLINK = 31"
definition ENOSPC :: int where "ENOSPC = 28"
definition ENAMETOOLONG :: int where "ENAMETOOLONG = 63"
definition ENOTSUP :: int where "ENOTSUP = 45"
definition ENOTEMPTY :: int where "ENOTEMPTY = 66"
definition ESTALE :: int where "ESTALE = 70"

lemmas errno_defs = ENOENT_def EIO_def EEXIST_def ENOTDIR_def EISDIR_def EINVAL_def EROFS_def
  EMLINK_def ENOSPC_def ENAMETOOLONG_def ENOTSUP_def ENOTEMPTY_def ESTALE_def

fun raw_os_error :: "io_error \<Rightarrow> int option" where
  "raw_os_error (OsError n) = Some n"
| "raw_os_error (KindError _) = None"

fun to_errno :: "ext4_error \<Rightarrow> int" where
  "to_errno (Io e) = (case raw_os_error e of Some n \<Rightarrow> n | None \<Rightarrow> EIO)"
| "to_errno NotFound = ENOENT"
| "to_errno NotADirectory = ENOTDIR"
| "to_errno IsADirectory = EISDIR"
| "to_errno AlreadyExists = EEXIST"
| "to_errno DirectoryNotEmpty = ENOTEMPTY"
| "to_errno ReadOnly = EROFS"
| "to_errno JournalNotReplayed = EROFS"
| "to_errno NameTooLong = ENAMETOOLONG"
| "to_errno NoSpaceLeftOnDevice = ENOSPC"
| "to_errno TooManyLinks = EMLINK"
| "to_errno (InvalidArgument _) = EINVAL"
| "to_errno (InvalidInode _) = EINVAL"
| "to_errno (InvalidBlock _) = EINVAL"
| "to_errno OutOfBounds = EINVAL"
| "to_errno (BadMagic _ _) = EIO"
| "to_errno (BadChecksum _) = EIO"
| "to_errno (CorruptExtentTree _) = EIO"
| "to_errno (CorruptDirEntry _) = EIO"
| "to_errno (Corrupt _) = EIO"
| "to_errno (UnsupportedIncompat _) = ENOTSUP"
| "to_errno (UnsupportedRoCompat _) = ENOTSUP"
| "to_errno (Unsupported _) = ENOTSUP"
| "to_errno Stale = ESTALE"

text \<open>
  No error is reported to the C caller as success: whatever the driver itself raises has
  a positive errno, and a device failure keeps the operating system's code.
\<close>

lemma to_errno_positive:
  assumes "\<And>n. e = Io (OsError n) \<Longrightarrow> 0 < n"
  shows "0 < to_errno e"
proof (cases e)
  case (Io x)
  with assms show ?thesis by (cases x) (auto simp: errno_defs)
qed (simp_all add: errno_defs)

end
