(* ===== verification/Checksum.thy ===== *)
theory Checksum
  imports Ext4_Error
begin

unbundle bit_operations_syntax

text \<open>
  Metadata checksums (\<open>src/checksum.rs\<close>). The \<open>crc32c\<close> crate is a third-party
  package: its \<open>crc32c_append\<close> is the parameter \<open>crc\<close> of every definition below, and no
  property depends on what it computes.
\<close>

type_synonym crc_fn = "u32 \<Rightarrow> bytes \<Rightarrow> u32"

definition linux_crc32c :: "crc_fn \<Rightarrow> u32 \<Rightarrow> bytes \<Rightarrow> u32" where
  "linux_crc32c crc seed data = NOT (crc (NOT seed) data)"

fun crc16_bits :: "nat \<Rightarrow> u16 \<Rightarrow> u16" where
  "crc16_bits 0 c = c"
| "crc16_bits (Suc n) c =
     crc16_bits n (if c AND 1 \<noteq> 0 then drop_bit 1 c XOR 0xA001 else drop_bit 1 c)"

fun crc16 :: "u16 \<Rightarrow> bytes \<Rightarrow> u16" where
  "crc16 c [] = c"
| "crc16 c (b # data) = crc16 (crc16_bits 8 (c XOR ucast b)) data"

record checksummer =
  seed :: u32
  enabled :: bool

definition crc_with_prefix :: "crc_fn \<Rightarrow> checksummer \<Rightarrow> u32 \<Rightarrow> bytes \<Rightarrow> u32" where
  "crc_with_prefix crc cs prefix data =
     (let mid = linux_crc32c crc (seed cs) (u32_to_le prefix)
      in linux_crc32c crc mid data)"

definition DIR_ENTRY_TAIL_FILE_TYPE :: u8 where "DIR_ENTRY_TAIL_FILE_TYPE = 0xDE"

text \<open>The chained prefix of every per-inode checksum: seed, inode number, generation.\<close>

definition inode_crc :: "crc_fn \<Rightarrow> checksummer \<Rightarrow> u32 \<Rightarrow> u32 \<Rightarrow> bytes \<Rightarrow> u32" where
  "inode_crc crc cs ino generation body =
     (let c = linux_crc32c crc (seed cs) (u32_to_le ino);
          c = linux_crc32c crc c (u32_to_le generation)
      in linux_crc32c crc c body)"

definition verify_superblock :: "crc_fn \<Rightarrow> checksummer \<Rightarrow> bytes \<Rightarrow> bool" where
  "verify_superblock crc cs sb_raw =
     (if \<not> enabled cs then True
      else if length sb_raw < 1024 then False
      else get_le32 0x3FC sb_raw = linux_crc32c crc (NOT 0) (take 0x3FC sb_raw))"

definition verify_bgd :: "crc_fn \<Rightarrow> checksummer \<Rightarrow> u32 \<Rightarrow> bytes \<Rightarrow> u16 \<Rightarrow> bool" where
  "verify_bgd crc cs group_no bgd_raw desc_size =
     (if \<not> enabled cs then True
      else let n = unat desc_size in
        if length bgd_raw < n \<or> n < 0x20 then False
        else let stored = get_le16 0x1E bgd_raw;
                 tmp = put 0x1E [0, 0] (take n bgd_raw)
             in ucast (crc_with_prefix crc cs group_no tmp) = stored)"

definition verify_dir_entry_tail :: "crc_fn \<Rightarrow> checksummer \<Rightarrow> u32 \<Rightarrow> u32 \<Rightarrow> bytes \<Rightarrow> bool" where
  "verify_dir_entry_tail crc cs ino generation block =
     (if \<not> enabled cs then True
      else if length block < 12 then False
      else let e = length block; stored = get_le32 (e - 4) block
           in inode_crc crc cs ino generation (take (e - 12) block) = stored)"

text \<open>The two patching functions return the block and whether it was patched.\<close>

definition patch_dir_entry_tail ::
    "crc_fn \<Rightarrow> checksummer \<Rightarrow> u32 \<Rightarrow> u32 \<Rightarrow> bytes \<Rightarrow> bytes \<times> bool" where
  "patch_dir_entry_tail crc cs ino generation block =
     (if \<not> enabled cs \<or> length block < 12 then (block, False)
      else let e = length block;
               block = put (e - 12) (u32_to_le 0) block;
               block = put (e - 8) (u16_to_le 12) block;
               block = put (e - 6) [0] block;
               block = put (e - 5) [DIR_ENTRY_TAIL_FILE_TYPE] block;
               c = inode_crc crc cs ino generation (take (e - 12) block)
           in (put (e - 4) (u32_to_le c) block, True))"

definition patch_dx_tail ::
    "crc_fn \<Rightarrow> checksummer \<Rightarrow> u32 \<Rightarrow> u32 \<Rightarrow> bytes \<Rightarrow> nat \<Rightarrow> bytes \<times> bool" where
  "patch_dx_tail crc cs ino generation block count_offset =
     (if \<not> enabled cs \<or> length block < count_offset + 4 then (block, False)
      else let limit = unat (get_le16 count_offset block);
               count = unat (get_le16 (count_offset + 2) block);
               tail = count_offset + limit * 8
           in if count > limit \<or> tail + 8 > length block then (block, False)
              else let c = inode_crc crc cs ino generation (take (count_offset + count * 8) block);
                       c = linux_crc32c crc c (slice tail (tail + 4) block);
                       c = linux_crc32c crc c [0, 0, 0, 0]
                   in (put (tail + 4) (u32_to_le c) block, True))"

definition verify_dx_tail ::
    "crc_fn \<Rightarrow> checksummer \<Rightarrow> u32 \<Rightarrow> u32 \<Rightarrow> bytes \<Rightarrow> nat \<Rightarrow> bool option" where
  "verify_dx_tail crc cs ino generation block count_offset =
     (case patch_dx_tail crc cs ino generation block count_offset of
        (copy, patched) \<Rightarrow> if \<not> patched then None else Some (copy = block))"

definition verify_extent_tail :: "crc_fn \<Rightarrow> checksummer \<Rightarrow> u32 \<Rightarrow> u32 \<Rightarrow> bytes \<Rightarrow> bool" where
  "verify_extent_tail crc cs ino generation block =
     (if \<not> enabled cs then True
      else if length block < 4 then False
      else let e = length block; stored = get_le32 (e - 4) block
           in inode_crc crc cs ino generation (take (e - 4) block) = stored)"

definition patch_extent_tail ::
    "crc_fn \<Rightarrow> checksummer \<Rightarrow> u32 \<Rightarrow> u32 \<Rightarrow> bytes \<Rightarrow> bytes \<times> bool" where
  "patch_extent_tail crc cs ino generation block =
     (if \<not> enabled cs \<or> length block < 4 then (block, False)
      else let e = length block;
               c = inode_crc crc cs ino generation (take (e - 4) block)
           in (put (e - 4) (u32_to_le c) block, True))"

definition compute_xattr_block_csum :: "crc_fn \<Rightarrow> checksummer \<Rightarrow> u64 \<Rightarrow> bytes \<Rightarrow> u32" where
  "compute_xattr_block_csum crc cs block_nr block =
     (let c = linux_crc32c crc (seed cs) (u64_to_le block_nr);
          c = linux_crc32c crc c (slice 0 0x10 block);
          c = linux_crc32c crc c (u32_to_le 0)
      in linux_crc32c crc c (drop 0x14 block))"

definition verify_xattr_block :: "crc_fn \<Rightarrow> checksummer \<Rightarrow> u64 \<Rightarrow> bytes \<Rightarrow> bool" where
  "verify_xattr_block crc cs block_nr block =
     (if \<not> enabled cs then True
      else if length block < 0x20 then False
      else get_le32 0x10 block = compute_xattr_block_csum crc cs block_nr block)"

definition patch_xattr_block :: "crc_fn \<Rightarrow> checksummer \<Rightarrow> u64 \<Rightarrow> bytes \<Rightarrow> bytes \<times> bool" where
  "patch_xattr_block crc cs block_nr block =
     (if \<not> enabled cs \<or> length block < 0x20 then (block, False)
      else (put 0x10 (u32_to_le (compute_xattr_block_csum crc cs block_nr block)) block, True))"

definition checksum_hi_fits :: "bytes \<Rightarrow> bool" where
  "checksum_hi_fits inode_raw \<longleftrightarrow> 0x84 \<le> length inode_raw \<and> 4 \<le> get_le16 0x80 inode_raw"

definition GOOD_OLD_INODE_SIZE :: nat where "GOOD_OLD_INODE_SIZE = 128"

definition compute_inode_checksum ::
    "crc_fn \<Rightarrow> checksummer \<Rightarrow> u32 \<Rightarrow> u32 \<Rightarrow> bytes \<Rightarrow> (u16 \<times> u16) option" where
  "compute_inode_checksum crc cs ino generation inode_raw =
     (if \<not> enabled cs \<or> length inode_raw < GOOD_OLD_INODE_SIZE then None
      else let fits_hi = checksum_hi_fits inode_raw;
               tmp = put 0x7C [0, 0] inode_raw;
               tmp = (if fits_hi then put 0x82 [0, 0] tmp else tmp);
               c = inode_crc crc cs ino generation tmp;
               lo = ucast (c AND 0xFFFF);
               hi = (if fits_hi then ucast (drop_bit 16 c AND 0xFFFF) else 0)
           in Some (lo, hi))"

definition verify_inode :: "crc_fn \<Rightarrow> checksummer \<Rightarrow> u32 \<Rightarrow> u32 \<Rightarrow> bytes \<Rightarrow> bool" where
  "verify_inode crc cs ino generation inode_raw =
     (if \<not> enabled cs then True
      else if length inode_raw < GOOD_OLD_INODE_SIZE then False
      else let stored_lo = (ucast (get_le16 0x7C inode_raw) :: u32);
               stored_hi = (if checksum_hi_fits inode_raw
                            then ucast (get_le16 0x82 inode_raw) else (0 :: u32));
               stored = push_bit 16 stored_hi OR stored_lo
           in case compute_inode_checksum crc cs ino generation inode_raw of
                Some (lo, hi) \<Rightarrow> (push_bit 16 (ucast hi) OR ucast lo) = stored
              | None \<Rightarrow> True)"

definition patch_inode_checksum :: "crc_fn \<Rightarrow> checksummer \<Rightarrow> u32 \<Rightarrow> u32 \<Rightarrow> bytes \<Rightarrow> bytes" where
  "patch_inode_checksum crc cs ino generation inode_raw =
     (case compute_inode_checksum crc cs ino generation inode_raw of
        None \<Rightarrow> inode_raw
      | Some (lo, hi) \<Rightarrow>
          let raw = put 0x7C (u16_to_le lo) inode_raw
          in if checksum_hi_fits raw then put 0x82 (u16_to_le hi) raw else raw)"

section \<open>A patched block verifies\<close>

lemma take_put_before [slice_simps]:
  "off + length ys \<le> length xs \<Longrightarrow> n \<le> off \<Longrightarrow> take n (put off ys xs) = take n xs"
  by (simp add: put_def min_def)

text \<open>
  The layout shared by the blocks that end in a checksum: the sum covers the bytes before a tail of fixed length, and is stored in the tail's last word. The patcher
  first lays out the rest of the tail. From the two functions being of that shape it follows, once for every such block, that patching keeps the length and the bytes
  before the tail, and that the verifier accepts the result.
\<close>

locale tail_checksum =
  fixes patch :: "u32 \<Rightarrow> u32 \<Rightarrow> bytes \<Rightarrow> bytes \<times> bool"
    and verify :: "u32 \<Rightarrow> u32 \<Rightarrow> bytes \<Rightarrow> bool"
    and tail_len :: nat
    and on :: bool
    and sum :: "u32 \<Rightarrow> u32 \<Rightarrow> bytes \<Rightarrow> u32"
    and lay_out :: "bytes \<Rightarrow> bytes"
  assumes word_fits: "4 \<le> tail_len"
    and patch_shape: "patch ino g block =
      (if \<not> on \<or> length block < tail_len then (block, False)
       else (put (length block - 4) (u32_to_le (sum ino g (take (length block - tail_len) (lay_out block)))) (lay_out block), True))"
    and verify_shape: "verify ino g block =
      (if \<not> on then True else if length block < tail_len then False
       else sum ino g (take (length block - tail_len) block) = get_le32 (length block - 4) block)"
    and lay_out_length: "tail_len \<le> length block \<Longrightarrow> length (lay_out block) = length block"
    and lay_out_body: "tail_len \<le> length block \<Longrightarrow> take (length block - tail_len) (lay_out block) = take (length block - tail_len) block"
begin

lemma patch_length: "length (fst (patch ino g block)) = length block"
  using word_fits by (simp add: patch_shape lay_out_length)

lemma patch_body: "take (length block - tail_len) (fst (patch ino g block)) = take (length block - tail_len) block"
  using word_fits by (simp add: patch_shape lay_out_length lay_out_body take_put_before)

lemma patch_verifies:
  assumes "tail_len \<le> length block"
  shows "verify ino g (fst (patch ino g block))"
proof (cases on)
  case True
  have p: "fst (patch ino g block) = put (length block - 4) (u32_to_le (sum ino g (take (length block - tail_len) block))) (lay_out block)"
    using True assms by (simp add: patch_shape lay_out_body)
  then have "get_le32 (length block - 4) (fst (patch ino g block)) = sum ino g (take (length block - tail_len) block)"
    using assms word_fits lay_out_length [OF assms] by (simp add: codec_simps)
  then show ?thesis using True assms patch_body [of block ino g] by (simp add: verify_shape patch_length)
qed (simp add: verify_shape)

text \<open>A block with any other word stored in its tail is rejected.\<close>

lemma verify_detects:
  assumes "on" "tail_len \<le> length block" "w \<noteq> sum ino g (take (length block - tail_len) block)"
  shows "\<not> verify ino g (put (length block - 4) (u32_to_le w) block)"
  using assms word_fits by (simp add: verify_shape take_put_before codec_simps)

end

interpretation extent_tail: tail_checksum
  "patch_extent_tail crc cs" "verify_extent_tail crc cs" 4 "enabled cs" "inode_crc crc cs" id for crc cs
  by unfold_locales (simp_all add: patch_extent_tail_def verify_extent_tail_def Let_def)

text \<open>The entry-shaped header of a directory block's tail.\<close>

definition dir_tail_header :: "bytes \<Rightarrow> bytes" where
  "dir_tail_header block =
     (let e = length block
      in put (e - 5) [DIR_ENTRY_TAIL_FILE_TYPE] (put (e - 6) [0] (put (e - 8) (u16_to_le 12) (put (e - 12) (u32_to_le 0) block))))"

lemma dir_tail_header_keeps:
  assumes "12 \<le> length block"
  shows "length (dir_tail_header block) = length block" "take (length block - 12) (dir_tail_header block) = take (length block - 12) block"
  using assms by (simp_all add: dir_tail_header_def Let_def take_put_before)

lemma patch_dir_entry_tail_eq:
  "patch_dir_entry_tail crc cs ino g block =
     (if \<not> enabled cs \<or> length block < 12 then (block, False)
      else (put (length block - 4) (u32_to_le (inode_crc crc cs ino g (take (length block - 12) (dir_tail_header block)))) (dir_tail_header block), True))"
  by (simp add: patch_dir_entry_tail_def dir_tail_header_def Let_def)

interpretation dir_tail: tail_checksum
  "patch_dir_entry_tail crc cs" "verify_dir_entry_tail crc cs" 12 "enabled cs" "inode_crc crc cs" dir_tail_header for crc cs
  by unfold_locales (simp_all add: patch_dir_entry_tail_eq verify_dir_entry_tail_def Let_def dir_tail_header_keeps)

section \<open>Checksums stored inside the structure\<close>

text \<open>
  The xattr-block and inode checksums live in the middle of what they cover, so the
  argument is that the covered bytes are the same before and after the field is stored.
\<close>

lemma drop_put_after [slice_simps]:
  "off + length ys \<le> length xs \<Longrightarrow> off + length ys \<le> n \<Longrightarrow> drop n (put off ys xs) = drop n xs"
  by (simp add: put_def)

lemma put_put_same [slice_simps]:
  "off + length ys \<le> length xs \<Longrightarrow> length zs = length ys \<Longrightarrow> put off ys (put off zs xs) = put off ys xs"
  by (simp add: put_def)

lemma put_put_commute:
  assumes "a + length xs \<le> b" "b + length ys \<le> length buf"
  shows "put b ys (put a xs buf) = put a xs (put b ys buf)"
  using assms by (auto intro!: nth_equalityI simp: nth_put)

lemma patch_xattr_block_verifies:
  assumes "0x20 \<le> length block"
  shows "verify_xattr_block crc cs nr (fst (patch_xattr_block crc cs nr block))"
  using assms
  by (simp add: verify_xattr_block_def patch_xattr_block_def compute_xattr_block_csum_def
      slice_simps codec_simps Let_def)

lemma checksum_hi_fits_put [simp]:
  "length inode_raw \<ge> 0x80 \<Longrightarrow> length v = 2 \<Longrightarrow>
   checksum_hi_fits (put 0x7C v inode_raw) = checksum_hi_fits inode_raw"
  by (simp add: checksum_hi_fits_def codec_simps)

lemma compute_inode_checksum_patch:
  "compute_inode_checksum crc cs ino g (patch_inode_checksum crc cs ino g raw)
   = compute_inode_checksum crc cs ino g raw"
proof (cases "compute_inode_checksum crc cs ino g raw")
  case None
  then show ?thesis by (simp add: patch_inode_checksum_def)
next
  case (Some lohi)
  then have en: "enabled cs" and len: "0x80 \<le> length raw"
    by (auto simp: compute_inode_checksum_def GOOD_OLD_INODE_SIZE_def split: if_splits)
  obtain lo hi where lohi: "lohi = (lo, hi)" by fastforce
  let ?raw = "put 0x7C (u16_to_le lo) raw"
  show ?thesis
  proof (cases "checksum_hi_fits raw")
    case False
    with Some lohi len en show ?thesis
      by (simp add: patch_inode_checksum_def compute_inode_checksum_def Let_def put_put_same
          GOOD_OLD_INODE_SIZE_def)
  next
    case True
    then have long: "0x84 \<le> length raw" by (simp add: checksum_hi_fits_def)
    have fits: "checksum_hi_fits (put 0x82 (u16_to_le hi) ?raw)"
      using True long by (simp add: checksum_hi_fits_def codec_simps)
    have "put 0x82 [0, 0] (put 0x7C [0, 0] (put 0x82 (u16_to_le hi) ?raw))
          = put 0x7C [0, 0] (put 0x82 [0, 0] (put 0x82 (u16_to_le hi) ?raw))"
      using long by (intro put_put_commute) simp_all
    also have "\<dots> = put 0x82 [0, 0] (put 0x7C [0, 0] raw)"
      using long by (simp add: put_put_same put_put_commute [of 124 _ 130])
    finally show ?thesis using True fits Some lohi len long en
      by (simp add: patch_inode_checksum_def compute_inode_checksum_def Let_def
          GOOD_OLD_INODE_SIZE_def)
  qed
qed

lemma patch_inode_checksum_verifies:
  assumes "GOOD_OLD_INODE_SIZE \<le> length raw"
  shows "verify_inode crc cs ino g (patch_inode_checksum crc cs ino g raw)"
proof (cases "enabled cs")
  case False
  then show ?thesis by (simp add: verify_inode_def)
next
  case True
  with assms obtain lo hi where c: "compute_inode_checksum crc cs ino g raw = Some (lo, hi)"
    by (simp add: compute_inode_checksum_def Let_def)
  have hi0: "\<not> checksum_hi_fits raw \<Longrightarrow> hi = 0"
    using c by (auto simp: compute_inode_checksum_def Let_def split: if_splits)
  have len: "128 \<le> length raw" using assms by (simp add: GOOD_OLD_INODE_SIZE_def)
  let ?p = "patch_inode_checksum crc cs ino g raw"
  have cp: "compute_inode_checksum crc cs ino g ?p = Some (lo, hi)"
    using c by (simp add: compute_inode_checksum_patch)
  have lo: "get_le16 0x7C ?p = lo" and l: "length ?p = length raw"
    and fits: "checksum_hi_fits ?p = checksum_hi_fits raw"
    and hi: "checksum_hi_fits raw \<Longrightarrow> get_le16 0x82 ?p = hi"
    using c len by (auto simp: patch_inode_checksum_def Let_def codec_simps checksum_hi_fits_def)
  from True len cp lo l fits hi hi0 show ?thesis
    by (auto simp: verify_inode_def GOOD_OLD_INODE_SIZE_def Let_def)
qed

lemma patch_dx_tail_verifies:
  assumes "snd (patch_dx_tail crc cs ino g block off)"
  shows "verify_dx_tail crc cs ino g (fst (patch_dx_tail crc cs ino g block off)) off = Some True"
proof -
  let ?limit = "unat (get_le16 off block)" and ?count = "unat (get_le16 (off + 2) block)"
  let ?tail = "off + ?limit * 8"
  have fits: "enabled cs" "off + 4 \<le> length block" "?count \<le> ?limit" "?tail + 8 \<le> length block"
    using assms by (auto simp: patch_dx_tail_def Let_def split: if_splits)
  obtain c where p: "fst (patch_dx_tail crc cs ino g block off) = put (?tail + 4) (u32_to_le c) block"
    and c: "c = linux_crc32c crc (linux_crc32c crc (inode_crc crc cs ino g
              (take (off + ?count * 8) block)) (slice ?tail (?tail + 4) block)) [0, 0, 0, 0]"
    using fits by (simp add: patch_dx_tail_def Let_def)
  have same: "get_le16 off (put (?tail + 4) (u32_to_le c) block) = get_le16 off block"
    "get_le16 (off + 2) (put (?tail + 4) (u32_to_le c) block) = get_le16 (off + 2) block"
    "take (off + ?count * 8) (put (?tail + 4) (u32_to_le c) block) = take (off + ?count * 8) block"
    "slice ?tail (?tail + 4) (put (?tail + 4) (u32_to_le c) block) = slice ?tail (?tail + 4) block"
    "length (put (?tail + 4) (u32_to_le c) block) = length block"
    using fits by (auto simp: codec_simps slice_simps)
  show ?thesis
    unfolding p verify_dx_tail_def using fits same
    by (simp add: patch_dx_tail_def Let_def put_put_same c)
qed

lemma patch_dx_tail_outcome:
  "case patch_dx_tail crc cs ino g block off of
     (copy, True) \<Rightarrow> verify_dx_tail crc cs ino g copy off = Some True \<and> length copy = length block \<and>
       (let t = off + unat (get_le16 off block) * 8 in take (t + 4) copy = take (t + 4) block \<and> drop (t + 8) copy = drop (t + 8) block)
   | (copy, False) \<Rightarrow> copy = block \<and> (\<not> enabled cs \<or> length block < off + 4 \<or> get_le16 off block < get_le16 (off + 2) block \<or>
       length block < off + unat (get_le16 off block) * 8 + 8)"
proof (cases "snd (patch_dx_tail crc cs ino g block off)")
  case True
  let ?t = "off + unat (get_le16 off block) * 8"
  obtain c where c: "patch_dx_tail crc cs ino g block off = (put (?t + 4) (u32_to_le c) block, True)" "?t + 8 \<le> length block"
    using True by (auto simp: patch_dx_tail_def Let_def split: if_splits)
  then show ?thesis using patch_dx_tail_verifies [OF True] by (simp add: Let_def take_put_before drop_put_after)
next
  case False
  then show ?thesis by (auto simp: patch_dx_tail_def Let_def word_less_nat_alt split: if_splits)
qed

section \<open>Properties\<close>


text \<open>A 128-byte block with room for three index entries, one used, after a head of eight bytes.\<close>

definition example_node :: bytes where
  "example_node = put 8 [3, 0, 1, 0] (replicate 128 5)"


end
