(* ===== verification/Jbd2.thy ===== *)
theory Jbd2
  imports Checksum
begin

unbundle bit_operations_syntax

text \<open>
  The journal superblock (\<open>src/jbd2.rs\<close>): the parsed record, its parser, the feature predicates that
  choose a tag layout and a checksum scheme, and the checksums of the journal's own blocks. All
  journal fields are big-endian. The third-party \<open>crc32c\<close> is the parameter \<open>crc\<close>.
\<close>

section \<open>Constants and the superblock record\<close>

definition JBD2_MAGIC_NUMBER :: u32 where "JBD2_MAGIC_NUMBER = 0xc03b3998"
definition JBD2_DESCRIPTOR_BLOCK :: u32 where "JBD2_DESCRIPTOR_BLOCK = 1"
definition JBD2_COMMIT_BLOCK :: u32 where "JBD2_COMMIT_BLOCK = 2"
definition JBD2_SUPERBLOCK_V1 :: u32 where "JBD2_SUPERBLOCK_V1 = 3"
definition JBD2_SUPERBLOCK_V2 :: u32 where "JBD2_SUPERBLOCK_V2 = 4"
definition JBD2_REVOKE_BLOCK :: u32 where "JBD2_REVOKE_BLOCK = 5"

definition JBD_REVOKE :: u32 where "JBD_REVOKE = 0x1"
definition JBD_BIT64 :: u32 where "JBD_BIT64 = 0x2"
definition JBD_CSUM_V2 :: u32 where "JBD_CSUM_V2 = 0x8"
definition JBD_CSUM_V3 :: u32 where "JBD_CSUM_V3 = 0x10"
definition JBD2_FEATURE_COMPAT_CHECKSUM :: u32 where "JBD2_FEATURE_COMPAT_CHECKSUM = 1"
definition JBD2_CRC32C_CHKSUM :: u8 where "JBD2_CRC32C_CHKSUM = 4"
definition SUPPORTED_JBD_INCOMPAT :: u32 where
  "SUPPORTED_JBD_INCOMPAT = JBD_REVOKE OR JBD_BIT64 OR JBD_CSUM_V2 OR JBD_CSUM_V3"
definition BLOCK_TAIL_BYTES :: nat where "BLOCK_TAIL_BYTES = 4"
definition COMMIT_CHECKSUM_AT :: nat where "COMMIT_CHECKSUM_AT = 16"

lemmas jbd_constants = JBD2_MAGIC_NUMBER_def JBD2_DESCRIPTOR_BLOCK_def JBD2_COMMIT_BLOCK_def JBD2_REVOKE_BLOCK_def
  BLOCK_TAIL_BYTES_def COMMIT_CHECKSUM_AT_def

record journal_superblock =
  j_block_type :: u32
  j_header_sequence :: u32
  j_block_size :: u32
  j_max_len :: u32
  j_first :: u32
  j_sequence :: u32
  j_start :: u32
  j_errno :: u32
  j_feature_compat :: u32
  j_feature_incompat :: u32
  j_feature_ro_compat :: u32
  j_uuid :: bytes
  j_nr_users :: u32
  j_checksum_type :: u8
  j_num_fc_blocks :: u32
  j_checksum :: u32

section \<open>What a superblock declares\<close>

definition validate_plain_recovery :: "journal_superblock \<Rightarrow> u32 \<Rightarrow> u64 \<Rightarrow> unit result" where
  "validate_plain_recovery j bs blocks_count =
     (if j_feature_compat j \<noteq> 0 \<or> j_feature_ro_compat j \<noteq> 0 \<or>
         j_feature_incompat j AND NOT (JBD_REVOKE OR JBD_BIT64) \<noteq> 0
      then Err (Unsupported ''checked lifecycle supports plain JBD2 only; checksummed/async/fast-commit journals need separate qualification'')
      else if j_block_type j \<noteq> JBD2_SUPERBLOCK_V2 \<or> j_block_size j \<noteq> bs \<or> j_first j \<noteq> 1 \<or> j_max_len j \<le> j_first j \<or>
         (ucast (j_max_len j) :: u64) > blocks_count \<or>
         (j_start j \<noteq> 0 \<and> (j_start j < j_first j \<or> j_start j \<ge> j_max_len j)) \<or> j_nr_users j \<noteq> 1
      then Err (Corrupt ''unsupported internal journal geometry'')
      else if j_errno j \<noteq> 0 then Err (Corrupt ''journal records an outstanding error'')
      else Ok ())"

definition jsb_is_clean :: "journal_superblock \<Rightarrow> bool" where
  "jsb_is_clean j \<longleftrightarrow> j_start j = 0"

definition uses_csum_v3 :: "journal_superblock \<Rightarrow> bool" where
  "uses_csum_v3 j \<longleftrightarrow> j_feature_incompat j AND JBD_CSUM_V3 \<noteq> 0"

definition uses_csum_v2_or_v3 :: "journal_superblock \<Rightarrow> bool" where
  "uses_csum_v2_or_v3 j \<longleftrightarrow> j_feature_incompat j AND (JBD_CSUM_V2 OR JBD_CSUM_V3) \<noteq> 0"

definition uses_64bit :: "journal_superblock \<Rightarrow> bool" where
  "uses_64bit j \<longleftrightarrow> j_feature_incompat j AND JBD_BIT64 \<noteq> 0"

definition has_revoke :: "journal_superblock \<Rightarrow> bool" where
  "has_revoke j \<longleftrightarrow> j_feature_incompat j AND JBD_REVOKE \<noteq> 0"

definition unsupported_incompat :: "journal_superblock \<Rightarrow> u32" where
  "unsupported_incompat j = j_feature_incompat j AND NOT SUPPORTED_JBD_INCOMPAT"

definition checksum_declaration_error :: "journal_superblock \<Rightarrow> string option" where
  "checksum_declaration_error j =
     (let v2 = j_feature_incompat j AND JBD_CSUM_V2 \<noteq> 0; v3 = j_feature_incompat j AND JBD_CSUM_V3 \<noteq> 0 in
      if \<not> v2 \<and> \<not> v3 then None
      else if v2 \<and> v3 then Some ''journal declares both CSUM_V2 and CSUM_V3''
      else if j_feature_compat j AND JBD2_FEATURE_COMPAT_CHECKSUM \<noteq> 0
      then Some ''journal declares v1 checksums alongside CSUM_V2/V3''
      else if j_checksum_type j \<noteq> JBD2_CRC32C_CHKSUM then Some ''journal checksum type is not crc32c''
      else None)"

definition csum_seed :: "crc_fn \<Rightarrow> journal_superblock \<Rightarrow> u32" where
  "csum_seed crc j = linux_crc32c crc (NOT 0) (j_uuid j)"

datatype tag_checksum_kind = TC_none | TC_v2 | TC_v3

definition tag_bytes :: "journal_superblock \<Rightarrow> nat" where
  "tag_bytes j =
     (case (if uses_csum_v3 j then TC_v3 else if j_feature_incompat j AND JBD_CSUM_V2 \<noteq> 0 then TC_v2 else TC_none,
            uses_64bit j) of
        (TC_none, False) \<Rightarrow> 8
      | (TC_none, True) \<Rightarrow> 12
      | (TC_v2, False) \<Rightarrow> 10
      | (TC_v2, True) \<Rightarrow> 14
      | (TC_v3, _) \<Rightarrow> 16)"

section \<open>Checksums of journal blocks\<close>

definition tag_checksum :: "crc_fn \<Rightarrow> u32 \<Rightarrow> u32 \<Rightarrow> bytes \<Rightarrow> u32" where
  "tag_checksum crc sd sq data = linux_crc32c crc (linux_crc32c crc sd (u32_to_be sq)) data"

definition block_tail_checksum :: "crc_fn \<Rightarrow> u32 \<Rightarrow> bytes \<Rightarrow> u32" where
  "block_tail_checksum crc sd blk =
     linux_crc32c crc (linux_crc32c crc sd (take (length blk - BLOCK_TAIL_BYTES) blk)) [0, 0, 0, 0]"

text \<open>The two slices unwind on a block shorter than twenty bytes.\<close>

definition commit_block_checksum :: "crc_fn \<Rightarrow> u32 \<Rightarrow> bytes \<Rightarrow> u32 result" where
  "commit_block_checksum crc sd blk =
     (let at = COMMIT_CHECKSUM_AT in
      if length blk < at + 4 then Panic
      else let c = linux_crc32c crc sd (take at blk);
               c = linux_crc32c crc c [0, 0, 0, 0]
           in Ok (linux_crc32c crc c (drop (at + 4) blk)))"

section \<open>Parsing\<close>

definition jsb_parse :: "bytes \<Rightarrow> journal_superblock result" where
  "jsb_parse raw =
     (if length raw < 0x100 then Err (Corrupt ''jbd2 superblock buffer too small'')
      else if get_be32 0 raw \<noteq> JBD2_MAGIC_NUMBER then Err (Corrupt ''jbd2 superblock magic mismatch'')
      else let bt = get_be32 4 raw in
        if bt \<noteq> JBD2_SUPERBLOCK_V1 \<and> bt \<noteq> JBD2_SUPERBLOCK_V2
        then Err (Corrupt ''jbd2 header is not a superblock block type'')
        else let v2 = (bt = JBD2_SUPERBLOCK_V2) in
        Ok \<lparr>j_block_type = bt, j_header_sequence = get_be32 8 raw, j_block_size = get_be32 0xC raw,
            j_max_len = get_be32 0x10 raw, j_first = get_be32 0x14 raw, j_sequence = get_be32 0x18 raw,
            j_start = get_be32 0x1C raw, j_errno = get_be32 0x20 raw,
            j_feature_compat = (if v2 then get_be32 0x24 raw else 0),
            j_feature_incompat = (if v2 then get_be32 0x28 raw else 0),
            j_feature_ro_compat = (if v2 then get_be32 0x2C raw else 0),
            j_uuid = (if v2 then slice 0x30 0x40 raw else replicate 16 0),
            j_nr_users = (if v2 then get_be32 0x40 raw else 0),
            j_checksum_type = (if v2 then raw ! 0x50 else 0),
            j_num_fc_blocks = (if v2 then get_be32 0x54 raw else 0),
            j_checksum = (if v2 then get_be32 0xFC raw else 0)\<rparr>)"

section \<open>Facts about the declarations\<close>

lemma tag_bytes_bounds: "8 \<le> tag_bytes j" "tag_bytes j \<le> 16" "uses_64bit j \<Longrightarrow> 12 \<le> tag_bytes j"
  "uses_csum_v3 j \<Longrightarrow> tag_bytes j = 16"
  by (auto simp: tag_bytes_def split: tag_checksum_kind.splits bool.splits)

lemma csum_v3_imp: "uses_csum_v3 j \<Longrightarrow> uses_csum_v2_or_v3 j"
  unfolding uses_csum_v3_def uses_csum_v2_or_v3_def by (auto simp: bit.conj_disj_distrib or_eq_0_iff)

lemma block_tail_checksum_cong:
  "length b = length b' \<Longrightarrow> take (length b - 4) b = take (length b - 4) b' \<Longrightarrow>
     block_tail_checksum crc sd b = block_tail_checksum crc sd b'"
  by (simp add: block_tail_checksum_def BLOCK_TAIL_BYTES_def)

lemma commit_block_checksum_put:
  "20 \<le> length b \<Longrightarrow> commit_block_checksum crc sd (put 16 (u32_to_be c) b) = commit_block_checksum crc sd b"
  by (simp add: commit_block_checksum_def COMMIT_CHECKSUM_AT_def put_def)

lemma low_half: "(c :: u32) AND 0xFFFF = ucast (ucast c :: u16)"
proof -
  have "c AND mask 16 = ucast (ucast c :: u16)" by (rule bit_eqI) (auto simp: bit_simps)
  then show ?thesis by (simp add: mask_eq_exp_minus_1)
qed

end
