(* ===== verification/Transaction.thy ===== *)
theory Transaction
  imports Jbd2
begin

unbundle bit_operations_syntax

text \<open>
  The transaction builder (\<open>src/transaction.rs\<close>): buffered writes and revokes, and their serialisation
  into descriptor, data, revoke and commit blocks in a journal's layout. The header's slices unwind
  on a block shorter than twelve bytes; the other slice writes lie inside the block by the
  overflow checks before them.
\<close>

section \<open>Data\<close>

record journaled_block =
  jb_fs_block :: u64
  jb_bytes :: bytes

record layout =
  l_tag_bytes :: nat
  l_uses_64bit :: bool
  l_tail_bytes :: nat
  l_seed :: "u32 option"
  l_csum_v3 :: bool

record transaction =
  tx_sequence :: u32
  tx_block_size :: u32
  tx_uses_64bit :: bool
  tx_uses_csum_v3 :: bool
  tx_writes :: "journaled_block list"
  tx_revokes :: "u64 list"

definition TAG_ESCAPED :: u32 where "TAG_ESCAPED = 1"
definition TAG_SAME_UUID :: u32 where "TAG_SAME_UUID = 2"
definition TAG_LAST :: u32 where "TAG_LAST = 8"

lemmas tag_flags = TAG_ESCAPED_def TAG_SAME_UUID_def TAG_LAST_def

section \<open>Building a transaction\<close>

definition tx_begin :: "u32 \<Rightarrow> u32 \<Rightarrow> bool \<Rightarrow> bool \<Rightarrow> transaction" where
  "tx_begin sq bs b64 v3 = \<lparr>tx_sequence = sq, tx_block_size = bs, tx_uses_64bit = b64, tx_uses_csum_v3 = v3,
     tx_writes = [], tx_revokes = []\<rparr>"

definition add_write :: "u64 \<Rightarrow> bytes \<Rightarrow> transaction \<Rightarrow> transaction result" where
  "add_write b bs tx = (if length bs \<noteq> unat (tx_block_size tx) then Err (Corrupt ''add_write: bytes size != block_size'')
     else Ok (tx\<lparr>tx_writes := tx_writes tx @ [\<lparr>jb_fs_block = b, jb_bytes = bs\<rparr>]\<rparr>))"

definition add_revoke :: "u64 \<Rightarrow> transaction \<Rightarrow> transaction" where
  "add_revoke b tx = tx\<lparr>tx_revokes := tx_revokes tx @ [b]\<rparr>"

section \<open>Serialisation\<close>

definition needs_escape :: "bytes \<Rightarrow> bool" where
  "needs_escape bs \<longleftrightarrow> 4 \<le> length bs \<and> slice 0 4 bs = u32_to_be JBD2_MAGIC_NUMBER"

definition logged_copy :: "bytes \<Rightarrow> bytes" where
  "logged_copy bs = (if needs_escape bs then put 0 [0, 0, 0, 0] bs else bs)"

definition write_header :: "u32 \<Rightarrow> u32 \<Rightarrow> bytes \<Rightarrow> bytes result" where
  "write_header sq bt blk =
     and_then (put_checked 0 (u32_to_be JBD2_MAGIC_NUMBER) blk) (\<lambda>blk.
     and_then (put_checked 4 (u32_to_be bt) blk) (\<lambda>blk.
     put_checked 8 (u32_to_be sq) blk))"

definition tags_per_descriptor :: "transaction \<Rightarrow> layout \<Rightarrow> nat" where
  "tags_per_descriptor tx l = max ((unat (tx_block_size tx) - 12 - l_tail_bytes l) div l_tag_bytes l) 1"

definition revoke_record_size :: "bool \<Rightarrow> nat" where
  "revoke_record_size b64 = (if b64 then 8 else 4)"

definition revokes_per_block :: "transaction \<Rightarrow> layout \<Rightarrow> nat" where
  "revokes_per_block tx l = max ((unat (tx_block_size tx) - 16 - l_tail_bytes l) div revoke_record_size (l_uses_64bit l)) 1"

definition write_flags :: "bytes \<Rightarrow> bool \<Rightarrow> u32" where
  "write_flags bs fin = (let flags = (if fin then TAG_LAST else 0) OR TAG_SAME_UUID
     in if needs_escape bs then flags OR TAG_ESCAPED else flags)"

text \<open>One tag of a descriptor block, field by field.\<close>

definition put_tag :: "crc_fn \<Rightarrow> u32 \<Rightarrow> layout \<Rightarrow> journaled_block \<Rightarrow> bool \<Rightarrow> nat \<Rightarrow> bytes \<Rightarrow> bytes" where
  "put_tag crc sq l w fin pos blk =
     (let flags = write_flags (jb_bytes w) fin;
          blocknr_lo = (ucast (jb_fs_block w AND 0xFFFFFFFF) :: u32);
          hi = (ucast (drop_bit 32 (jb_fs_block w)) :: u32);
          blk = put pos (u32_to_be blocknr_lo) blk;
          checksum = map_option (\<lambda>sd. tag_checksum crc sd sq (logged_copy (jb_bytes w))) (l_seed l)
      in if l_csum_v3 l
         then let blk = put (pos + 4) (u32_to_be flags) blk;
                  blk = (if l_uses_64bit l then put (pos + 8) (u32_to_be hi) blk else blk)
              in (case checksum of Some c \<Rightarrow> put (pos + 12) (u32_to_be c) blk | None \<Rightarrow> blk)
         else let c16 = (case checksum of None \<Rightarrow> 0 | Some c \<Rightarrow> (ucast c :: u16));
                  blk = put (pos + 4) (u16_to_be c16) blk;
                  blk = put (pos + 6) (u16_to_be (ucast flags)) blk
              in if l_uses_64bit l then put (pos + 8) (u32_to_be hi) blk else blk)"

fun put_tags :: "crc_fn \<Rightarrow> u32 \<Rightarrow> layout \<Rightarrow> journaled_block list \<Rightarrow> nat \<Rightarrow> bytes \<Rightarrow> bytes result" where
  "put_tags crc sq l [] pos blk = Ok blk"
| "put_tags crc sq l (w # ws) pos blk =
     (if pos + l_tag_bytes l > length blk - l_tail_bytes l
      then Err (Corrupt ''descriptor block overflow (too many tags)'')
      else put_tags crc sq l ws (pos + l_tag_bytes l) (put_tag crc sq l w (ws = []) pos blk))"

definition seal_tail :: "crc_fn \<Rightarrow> layout \<Rightarrow> bytes \<Rightarrow> bytes" where
  "seal_tail crc l blk = (case l_seed l of
     None \<Rightarrow> blk
   | Some sd \<Rightarrow> put (length blk - BLOCK_TAIL_BYTES) (u32_to_be (block_tail_checksum crc sd blk)) blk)"

definition build_descriptor_block :: "crc_fn \<Rightarrow> transaction \<Rightarrow> journaled_block list \<Rightarrow> layout \<Rightarrow> bytes result" where
  "build_descriptor_block crc tx ws l =
     and_then (write_header (tx_sequence tx) JBD2_DESCRIPTOR_BLOCK (replicate (unat (tx_block_size tx)) 0)) (\<lambda>blk.
     and_then (put_tags crc (tx_sequence tx) l ws 12 blk) (\<lambda>blk.
     Ok (seal_tail crc l blk)))"

fun put_records :: "bool \<Rightarrow> u64 list \<Rightarrow> nat \<Rightarrow> bytes \<Rightarrow> bytes" where
  "put_records b64 [] pos blk = blk"
| "put_records b64 (b # bs) pos blk =
     put_records b64 bs (pos + revoke_record_size b64)
       (if b64 then put pos (u64_to_be b) blk else put pos (u32_to_be (ucast b)) blk)"

definition build_revoke_block :: "crc_fn \<Rightarrow> transaction \<Rightarrow> u64 list \<Rightarrow> layout \<Rightarrow> bytes result" where
  "build_revoke_block crc tx revokes l =
     and_then (write_header (tx_sequence tx) JBD2_REVOKE_BLOCK (replicate (unat (tx_block_size tx)) 0)) (\<lambda>blk.
       let total_bytes = 16 + length revokes * revoke_record_size (l_uses_64bit l) in
       if total_bytes > length blk - l_tail_bytes l then Err (Corrupt ''revoke block overflow'')
       else let blk = put 12 (u32_to_be (word_of_nat total_bytes)) blk
            in Ok (seal_tail crc l (put_records (l_uses_64bit l) revokes 16 blk)))"

definition build_commit_block :: "crc_fn \<Rightarrow> transaction \<Rightarrow> layout \<Rightarrow> bytes result" where
  "build_commit_block crc tx l =
     and_then (write_header (tx_sequence tx) JBD2_COMMIT_BLOCK (replicate (unat (tx_block_size tx)) 0)) (\<lambda>blk.
     case l_seed l of
       None \<Rightarrow> Ok blk
     | Some sd \<Rightarrow> and_then (commit_block_checksum crc sd blk) (\<lambda>c. put_checked COMMIT_CHECKSUM_AT (u32_to_be c) blk))"

text \<open>Collecting the blocks of a list of chunks, stopping at the first error.\<close>

fun collect_blocks :: "('a \<Rightarrow> bytes list result) \<Rightarrow> 'a list \<Rightarrow> bytes list result" where
  "collect_blocks f [] = Ok []"
| "collect_blocks f (x # xs) = and_then (f x) (\<lambda>bs. and_then (collect_blocks f xs) (\<lambda>rest. Ok (bs @ rest)))"

definition descriptor_group :: "crc_fn \<Rightarrow> transaction \<Rightarrow> layout \<Rightarrow> journaled_block list \<Rightarrow> bytes list result" where
  "descriptor_group crc tx l ch = map_ok (\<lambda>d. d # map (\<lambda>w. logged_copy (jb_bytes w)) ch) (build_descriptor_block crc tx ch l)"

definition serialize :: "crc_fn \<Rightarrow> transaction \<Rightarrow> layout \<Rightarrow> bytes list result" where
  "serialize crc tx l =
     and_then (collect_blocks (descriptor_group crc tx l) (chunks (tags_per_descriptor tx l) (tx_writes tx))) (\<lambda>groups.
     and_then (collect_blocks (\<lambda>ch. map_ok (\<lambda>b. [b]) (build_revoke_block crc tx ch l))
        (chunks (revokes_per_block tx l) (tx_revokes tx))) (\<lambda>revs.
     and_then (build_commit_block crc tx l) (\<lambda>c. Ok (groups @ revs @ [c]))))"

definition tx_commit :: "crc_fn \<Rightarrow> transaction \<Rightarrow> bytes list result" where
  "tx_commit crc tx = serialize crc tx
     (if tx_uses_csum_v3 tx
      then \<lparr>l_tag_bytes = 16, l_uses_64bit = tx_uses_64bit tx, l_tail_bytes = BLOCK_TAIL_BYTES, l_seed = None, l_csum_v3 = True\<rparr>
      else \<lparr>l_tag_bytes = (if tx_uses_64bit tx then 12 else 8), l_uses_64bit = tx_uses_64bit tx, l_tail_bytes = 0,
            l_seed = None, l_csum_v3 = False\<rparr>)"

definition layout_of :: "crc_fn \<Rightarrow> journal_superblock \<Rightarrow> layout" where
  "layout_of crc j = \<lparr>l_tag_bytes = tag_bytes j, l_uses_64bit = uses_64bit j,
     l_tail_bytes = (if uses_csum_v2_or_v3 j then BLOCK_TAIL_BYTES else 0),
     l_seed = (if uses_csum_v2_or_v3 j then Some (csum_seed crc j) else None),
     l_csum_v3 = (j_feature_incompat j AND JBD_CSUM_V3 \<noteq> 0)\<rparr>"

definition commit_for :: "crc_fn \<Rightarrow> transaction \<Rightarrow> journal_superblock \<Rightarrow> bytes list result" where
  "commit_for crc tx j =
     (if unsupported_incompat j \<noteq> 0
      then Err (Unsupported ''journal declares an incompat feature this driver does not write'')
      else case checksum_declaration_error j of
        Some why \<Rightarrow> Err (Corrupt why)
      | None \<Rightarrow>
          if tx_block_size tx \<noteq> j_block_size j \<or> tx_uses_64bit tx \<noteq> uses_64bit j \<or> tx_uses_csum_v3 tx \<noteq> uses_csum_v3 j
          then Err (InvalidArgument ''transaction was begun for a different journal layout'')
          else serialize crc tx (layout_of crc j))"

end
