(* ===== verification/Journal.thy ===== *)
theory Journal
  imports Transaction "HOL-Library.AList"
begin

unbundle bit_operations_syntax

text \<open>
  The journal walker (\<open>src/journal.rs\<close>): from the log's start it decodes descriptor, commit and
  revoke blocks into a replay plan. The reader of journal blocks is a parameter: it resolves a block
  of the journal file through the journal's inode and reads it from the device. The main theorem is
  the round trip the module's documentation states in words: walking what a transaction serialised gives back
  the transaction.
\<close>

section \<open>The replay plan\<close>

record replay_entry =
  re_transaction :: u32
  re_fs_block :: u64
  re_journal_block :: u64
  re_flags :: u32

record revoke_entry =
  rv_transaction :: u32
  rv_fs_block :: u64

record replay_plan =
  rp_writes :: "replay_entry list"
  rp_revokes :: "revoke_entry list"
  rp_last_commit :: u32
  rp_next_sequence :: "u32 option"
  rp_blocks_walked :: nat

definition empty_plan :: replay_plan where
  "empty_plan = \<lparr>rp_writes = [], rp_revokes = [], rp_last_commit = 0, rp_next_sequence = None, rp_blocks_walked = 0\<rparr>"

definition sequence_after :: "u32 \<Rightarrow> u32 \<Rightarrow> bool" where
  "sequence_after a b \<longleftrightarrow> sint (a - b) > 0"

text \<open>The hash map from block to the highest transaction that revoked it.\<close>

fun highest_revoke :: "revoke_entry list \<Rightarrow> (u64 \<times> u32) list \<Rightarrow> (u64 \<times> u32) list" where
  "highest_revoke [] m = m"
| "highest_revoke (r # rs) m =
     (let e = (case map_of m (rv_fs_block r) of None \<Rightarrow> rv_transaction r | Some t \<Rightarrow> t);
          e = (if sequence_after (rv_transaction r) e then rv_transaction r else e)
      in highest_revoke rs (AList.update (rv_fs_block r) e m))"

definition filter_revoked :: "replay_plan \<Rightarrow> replay_plan" where
  "filter_revoked p =
     (if rp_revokes p = [] then p
      else let highest = highest_revoke (rp_revokes p) [] in
        p\<lparr>rp_writes := filter (\<lambda>w. case map_of highest (re_fs_block w) of
            Some t \<Rightarrow> sequence_after (re_transaction w) t | None \<Rightarrow> True) (rp_writes p)\<rparr>)"

section \<open>Decoding journal blocks\<close>

definition advance :: "u64 \<Rightarrow> u64 \<Rightarrow> journal_superblock \<Rightarrow> u64" where
  "advance cur n j =
     (let first = (ucast (j_first j) :: u64);
          capacity = saturating_sub (ucast (j_max_len j)) first
      in if capacity = 0 then cur
         else let offset = cur - first; new_off = (offset + n) mod capacity in first + new_off)"

record journal_header =
  h_block_type :: u32
  h_sequence :: u32

definition tail_checksum_matches :: "crc_fn \<Rightarrow> u32 \<Rightarrow> bytes \<Rightarrow> bool" where
  "tail_checksum_matches crc sd blk \<longleftrightarrow>
     block_tail_checksum crc sd blk = u32_from_be (drop (length blk - BLOCK_TAIL_BYTES) blk)"

definition try_parse_header :: "bytes \<Rightarrow> journal_header option" where
  "try_parse_header blk =
     (if length blk < 12 then None
      else if get_be32 0 blk \<noteq> JBD2_MAGIC_NUMBER then None
      else Some \<lparr>h_block_type = get_be32 4 blk, h_sequence = get_be32 8 blk\<rparr>)"

definition usable_bytes :: "journal_superblock \<Rightarrow> bytes \<Rightarrow> nat" where
  "usable_bytes j blk = (if uses_csum_v2_or_v3 j then length blk - BLOCK_TAIL_BYTES else length blk)"

text \<open>The tag at \<open>pos\<close>: its flags, its stored checksum and its block number.\<close>

definition read_tag :: "journal_superblock \<Rightarrow> bytes \<Rightarrow> nat \<Rightarrow> u32 \<times> u32 \<times> u64" where
  "read_tag j blk pos =
     (let lo = get_be32 pos blk;
          (flags, checksum) =
            (if uses_csum_v3 j then (get_be32 (pos + 4) blk, get_be32 (pos + 12) blk)
             else (ucast (get_be16 (pos + 6) blk), ucast (get_be16 (pos + 4) blk)));
          blocknr = (if uses_64bit j
             then push_bit 32 (ucast (get_be32 (pos + 8) blk) :: u64) OR ucast lo else ucast lo)
      in (flags, checksum, blocknr))"

function parse_tags :: "journal_superblock \<Rightarrow> u32 \<Rightarrow> bytes \<Rightarrow> nat \<Rightarrow> u64 \<Rightarrow> ((replay_entry \<times> u32) list \<times> u64) result" where
  "parse_tags j sq blk pos cur =
     (if pos + tag_bytes j > usable_bytes j blk then Err (Corrupt ''descriptor tag overruns block'')
      else let (flags, checksum, blocknr) = read_tag j blk pos;
               cur = advance cur 1 j;
               entry = \<lparr>re_transaction = sq, re_fs_block = blocknr, re_journal_block = cur, re_flags = flags\<rparr>;
               pos' = pos + tag_bytes j + (if flags AND TAG_SAME_UUID \<noteq> 0 then 0 else 16)
           in if flags AND TAG_LAST \<noteq> 0 then Ok ([(entry, checksum)], cur)
              else if pos' + tag_bytes j > usable_bytes j blk then Ok ([(entry, checksum)], cur)
              else and_then (parse_tags j sq blk pos' cur) (\<lambda>(es, c). Ok ((entry, checksum) # es, c)))"
  by pat_completeness auto
termination
proof (relation "measure (\<lambda>(j, sq, blk, pos, cur). usable_bytes j blk - pos)", goal_cases)
  case 1
  then show ?case by simp
next
  case (2 j sq blk pos cur)
  then show ?case using tag_bytes_bounds(1) [of j] by (auto split: if_splits)
qed

declare parse_tags.simps [simp del]

definition parse_descriptor_tags :: "bytes \<Rightarrow> u64 \<Rightarrow> journal_superblock \<Rightarrow> u32 \<Rightarrow> ((replay_entry \<times> u32) list \<times> u64) result" where
  "parse_descriptor_tags blk cur j sq = parse_tags j sq blk 12 cur"

function read_records :: "bool \<Rightarrow> u32 \<Rightarrow> bytes \<Rightarrow> nat \<Rightarrow> nat \<Rightarrow> revoke_entry list" where
  "read_records b64 sq blk pos fin =
     (if pos + revoke_record_size b64 \<le> fin
      then \<lparr>rv_transaction = sq, rv_fs_block = (if b64 then get_be64 pos blk else ucast (get_be32 pos blk))\<rparr>
           # read_records b64 sq blk (pos + revoke_record_size b64) fin
      else [])"
  by pat_completeness auto
termination
  by (relation "measure (\<lambda>(b64, sq, blk, pos, fin). fin - pos)") (auto simp: revoke_record_size_def)

declare read_records.simps [simp del]

definition parse_revoke_block :: "bytes \<Rightarrow> journal_superblock \<Rightarrow> u32 \<Rightarrow> revoke_entry list result" where
  "parse_revoke_block blk j sq =
     (if length blk < 16 then Err (Corrupt ''revoke block too small'')
      else let r_count = unat (get_be32 12 blk) in
        if r_count > usable_bytes j blk then Err (Corrupt ''journal revoke block count exceeds the block'')
        else Ok (read_records (uses_64bit j) sq blk 16 r_count))"

section \<open>The walk\<close>

record walk_state =
  ws_plan :: replay_plan
  ws_cur :: u64
  ws_expect :: u32
  ws_writes :: "replay_entry list"
  ws_revokes :: "revoke_entry list"
  ws_corrupt :: "string option"

datatype walk_step = Continue walk_state | Stop replay_plan

type_synonym journal_reader = "u64 \<Rightarrow> bytes result"

text \<open>The data blocks of a descriptor: each one's checksum is judged when the commit is read.\<close>

fun check_tags :: "crc_fn \<Rightarrow> journal_reader \<Rightarrow> journal_superblock \<Rightarrow> u32 option \<Rightarrow> u32 \<Rightarrow>
    (replay_entry \<times> u32) list \<Rightarrow> string option \<Rightarrow> string option result" where
  "check_tags crc rdj j sd sq [] bad = Ok bad"
| "check_tags crc rdj j sd sq ((entry, stored) # es) bad =
     (case sd of
        None \<Rightarrow> check_tags crc rdj j sd sq es bad
      | Some s \<Rightarrow> and_then (rdj (re_journal_block entry)) (\<lambda>data.
          let computed = tag_checksum crc s sq data;
              computed = (if uses_csum_v3 j then computed else computed AND 0xFFFF)
          in check_tags crc rdj j sd sq es
               (if computed \<noteq> stored then Some ''journal data block of a committed transaction'' else bad)))"

definition step_descriptor :: "crc_fn \<Rightarrow> journal_reader \<Rightarrow> journal_superblock \<Rightarrow> u32 option \<Rightarrow> nat \<Rightarrow> bytes \<Rightarrow> walk_state \<Rightarrow> walk_step result" where
  "step_descriptor crc rdj j sd limit blk s =
     (let torn = (case sd of None \<Rightarrow> False | Some k \<Rightarrow> \<not> tail_checksum_matches crc k blk) in
      case parse_descriptor_tags blk (ws_cur s) j (ws_expect s) of
        Panic \<Rightarrow> Panic
      | Err e \<Rightarrow> if torn then Ok (Stop (ws_plan s)) else Err e
      | Ok (tags, cur) \<Rightarrow>
          let bad = (if torn then Some ''journal descriptor block of a committed transaction'' else ws_corrupt s);
              plan = (ws_plan s)\<lparr>rp_blocks_walked := rp_blocks_walked (ws_plan s) + length tags\<rparr>
          in if rp_blocks_walked plan > limit then Err (Corrupt ''journal transaction exceeds ring'')
             else and_then (check_tags crc rdj j sd (ws_expect s) tags bad) (\<lambda>bad.
               Ok (Continue (s\<lparr>ws_plan := plan, ws_cur := cur, ws_writes := ws_writes s @ map fst tags, ws_corrupt := bad\<rparr>))))"

definition step_commit :: "crc_fn \<Rightarrow> u32 option \<Rightarrow> bytes \<Rightarrow> walk_state \<Rightarrow> walk_step result" where
  "step_commit crc sd blk s =
     and_then (case sd of
         None \<Rightarrow> Ok True
       | Some k \<Rightarrow> and_then (get_slice COMMIT_CHECKSUM_AT (COMMIT_CHECKSUM_AT + 4) blk) (\<lambda>st.
           and_then (commit_block_checksum crc k blk) (\<lambda>c. Ok (c = u32_from_be st)))) (\<lambda>sound.
     if \<not> sound then Ok (Stop (ws_plan s))
     else case ws_corrupt s of
       Some what \<Rightarrow> Err (BadChecksum what)
     | None \<Rightarrow>
         let sq = ws_expect s;
             plan = (ws_plan s)\<lparr>rp_writes := rp_writes (ws_plan s) @ ws_writes s,
               rp_revokes := rp_revokes (ws_plan s) @ ws_revokes s, rp_last_commit := sq, rp_next_sequence := Some (sq + 1)\<rparr>
         in Ok (Continue (s\<lparr>ws_plan := plan, ws_writes := [], ws_revokes := [], ws_expect := sq + 1\<rparr>)))"

definition step_revoke :: "crc_fn \<Rightarrow> journal_superblock \<Rightarrow> u32 option \<Rightarrow> bytes \<Rightarrow> walk_state \<Rightarrow> walk_step result" where
  "step_revoke crc j sd blk s =
     (let bad = (case sd of
          Some k \<Rightarrow> if tail_checksum_matches crc k blk then ws_corrupt s
                    else Some ''journal revoke block of a committed transaction''
        | None \<Rightarrow> ws_corrupt s)
      in and_then (parse_revoke_block blk j (ws_expect s)) (\<lambda>rs.
           Ok (Continue (s\<lparr>ws_revokes := ws_revokes s @ rs, ws_corrupt := bad\<rparr>))))"

definition walk_one :: "crc_fn \<Rightarrow> journal_reader \<Rightarrow> journal_superblock \<Rightarrow> u32 option \<Rightarrow> nat \<Rightarrow> walk_state \<Rightarrow> walk_step result" where
  "walk_one crc rdj j sd limit s =
     and_then (rdj (ws_cur s)) (\<lambda>blk.
       let s = s\<lparr>ws_plan := (ws_plan s)\<lparr>rp_blocks_walked := rp_blocks_walked (ws_plan s) + 1\<rparr>\<rparr> in
       case try_parse_header blk of
         None \<Rightarrow> Ok (Stop (ws_plan s))
       | Some hdr \<Rightarrow>
           if h_sequence hdr \<noteq> ws_expect s then Ok (Stop (ws_plan s))
           else and_then
             (if h_block_type hdr = JBD2_DESCRIPTOR_BLOCK then step_descriptor crc rdj j sd limit blk s
              else if h_block_type hdr = JBD2_COMMIT_BLOCK then step_commit crc sd blk s
              else if h_block_type hdr = JBD2_REVOKE_BLOCK then step_revoke crc j sd blk s
              else Ok (Stop (ws_plan s)))
             (\<lambda>r. case r of
                Continue s \<Rightarrow> Ok (Continue (s\<lparr>ws_cur := advance (ws_cur s) 1 j\<rparr>))
              | Stop p \<Rightarrow> Ok (Stop p)))"

lemma steps_monotone:
  "step_descriptor crc rdj j sd limit blk s = Ok (Continue u) \<Longrightarrow> rp_blocks_walked (ws_plan s) \<le> rp_blocks_walked (ws_plan u)"
  "step_commit crc sd blk s = Ok (Continue u) \<Longrightarrow> rp_blocks_walked (ws_plan s) \<le> rp_blocks_walked (ws_plan u)"
  "step_revoke crc j sd blk s = Ok (Continue u) \<Longrightarrow> rp_blocks_walked (ws_plan s) \<le> rp_blocks_walked (ws_plan u)"
proof -
  assume "step_descriptor crc rdj j sd limit blk s = Ok (Continue u)"
  then show "rp_blocks_walked (ws_plan s) \<le> rp_blocks_walked (ws_plan u)"
    unfolding step_descriptor_def Let_def by (auto simp: outcome_simps split: outcome.splits prod.splits if_splits)
next
  assume "step_commit crc sd blk s = Ok (Continue u)"
  then show "rp_blocks_walked (ws_plan s) \<le> rp_blocks_walked (ws_plan u)"
    unfolding step_commit_def Let_def by (auto simp: outcome_simps split: option.splits if_splits)
next
  assume "step_revoke crc j sd blk s = Ok (Continue u)"
  then show "rp_blocks_walked (ws_plan s) \<le> rp_blocks_walked (ws_plan u)"
    unfolding step_revoke_def Let_def by (auto simp: outcome_simps)
qed

lemma walk_one_progress:
  "walk_one crc rdj j sd limit s = Ok (Continue s') \<Longrightarrow> rp_blocks_walked (ws_plan s) < rp_blocks_walked (ws_plan s')"
proof -
  assume w: "walk_one crc rdj j sd limit s = Ok (Continue s')"
  let ?t = "s\<lparr>ws_plan := (ws_plan s)\<lparr>rp_blocks_walked := rp_blocks_walked (ws_plan s) + 1\<rparr>\<rparr>"
  obtain blk hdr where b: "rdj (ws_cur s) = Ok blk" "try_parse_header blk = Some hdr" "h_sequence hdr = ws_expect s"
    using w unfolding walk_one_def Let_def by (auto simp: outcome_simps split: option.splits if_splits)
  define R where "R = (if h_block_type hdr = JBD2_DESCRIPTOR_BLOCK then step_descriptor crc rdj j sd limit blk ?t
      else if h_block_type hdr = JBD2_COMMIT_BLOCK then step_commit crc sd blk ?t
      else if h_block_type hdr = JBD2_REVOKE_BLOCK then step_revoke crc j sd blk ?t else Ok (Stop (ws_plan ?t)))"
  have "and_then R (\<lambda>r. case r of Continue s \<Rightarrow> Ok (Continue (s\<lparr>ws_cur := advance (ws_cur s) 1 j\<rparr>)) | Stop p \<Rightarrow> Ok (Stop p))
      = Ok (Continue s')"
    using w b unfolding walk_one_def Let_def R_def by (simp split del: if_split)
  then obtain u where u: "R = Ok (Continue u)" and s': "s' = u\<lparr>ws_cur := advance (ws_cur u) 1 j\<rparr>"
    by (cases R) (auto split: walk_step.splits)
  from u have "step_descriptor crc rdj j sd limit blk ?t = Ok (Continue u) \<or> step_commit crc sd blk ?t = Ok (Continue u)
      \<or> step_revoke crc j sd blk ?t = Ok (Continue u)" by (simp add: R_def split: if_splits)
  then have "rp_blocks_walked (ws_plan ?t) \<le> rp_blocks_walked (ws_plan u)" using steps_monotone by metis
  then show ?thesis using s' by simp
qed

lemma and_then_cong [fundef_cong]:
  "m = m' \<Longrightarrow> (\<And>x. m' = Ok x \<Longrightarrow> f x = f' x) \<Longrightarrow> and_then m f = and_then m' f'"
  by (cases m) auto

function walk_loop :: "crc_fn \<Rightarrow> journal_reader \<Rightarrow> journal_superblock \<Rightarrow> u32 option \<Rightarrow> nat \<Rightarrow> walk_state \<Rightarrow> replay_plan result" where
  "walk_loop crc rdj j sd limit s =
     (if rp_blocks_walked (ws_plan s) < limit
      then and_then (walk_one crc rdj j sd limit s) (\<lambda>r. case r of
             Continue s' \<Rightarrow> walk_loop crc rdj j sd limit s' | Stop p \<Rightarrow> Ok p)
      else Ok (ws_plan s))"
  by pat_completeness auto
termination
  by (relation "measure (\<lambda>(crc, rdj, j, sd, limit, s). limit - rp_blocks_walked (ws_plan s))")
    (auto dest: walk_one_progress)

declare walk_loop.simps [simp del]

text \<open>
  \<open>fs_block_size\<close> is the filesystem's; \<open>jinode\<close> is the outcome of reading and parsing the journal's
  inode, and \<open>rdj\<close> reads a block of the file it describes.
\<close>

definition journal_walk :: "crc_fn \<Rightarrow> u32 \<Rightarrow> 'i result \<Rightarrow> ('i \<Rightarrow> journal_reader) \<Rightarrow> journal_superblock \<Rightarrow> replay_plan result" where
  "journal_walk crc fs_block_size jinode rdj j =
     (if jsb_is_clean j then Ok empty_plan
      else if unsupported_incompat j \<noteq> 0
      then Err (Unsupported ''journal declares an incompat feature this driver cannot replay'')
      else case checksum_declaration_error j of
        Some why \<Rightarrow> Err (Corrupt why)
      | None \<Rightarrow>
        if j_block_size j \<noteq> fs_block_size then Err (Corrupt ''journal block size differs from the filesystem's'')
        else if j_first j = 0 \<or> j_first j \<ge> j_max_len j \<or> j_start j < j_first j \<or> j_start j \<ge> j_max_len j
        then Err (Corrupt ''invalid journal geometry'')
        else and_then jinode (\<lambda>ino.
          let sd = (if uses_csum_v2_or_v3 j then Some (csum_seed crc j) else None);
              limit = unat (j_max_len j - j_first j)
          in and_then (walk_loop crc (rdj ino) j sd limit
               \<lparr>ws_plan = empty_plan, ws_cur = ucast (j_start j), ws_expect = j_sequence j,
                ws_writes = [], ws_revokes = [], ws_corrupt = None\<rparr>)
               (\<lambda>p. Ok (filter_revoked p))))"

section \<open>Tags read back\<close>

lemma slice_of_take: "j \<le> u \<Longrightarrow> slice i j (take u xs) = slice i j xs"
  by (cases "i \<le> j") (auto simp: slice_def take_drop min_def)

lemma take_eq_less: "take u a = take u b \<Longrightarrow> k \<le> u \<Longrightarrow> take k a = take k b"
  by (metis min.absorb1 take_take)

lemma read_tag_cong:
  assumes "take u b = take u b'" "pos + tag_bytes j \<le> u"
  shows "read_tag j b pos = read_tag j b' pos"
proof -
  have sl: "slice i k b = slice i k b'" if "k \<le> u" for i k using assms(1) slice_of_take [OF that] by metis
  note tb = tag_bytes_bounds [of j] assms(2)
  have "get_be32 pos b = get_be32 pos b'" "get_be16 (pos + 6) b = get_be16 (pos + 6) b'" "get_be16 (pos + 4) b = get_be16 (pos + 4) b'"
    using tb by (simp_all add: get_field_defs sl)
  moreover have "uses_csum_v3 j \<Longrightarrow> get_be32 (pos + 4) b = get_be32 (pos + 4) b' \<and> get_be32 (pos + 12) b = get_be32 (pos + 12) b'"
    "uses_64bit j \<Longrightarrow> get_be32 (pos + 8) b = get_be32 (pos + 8) b'"
    using tb by (simp_all add: get_field_defs sl)
  ultimately show ?thesis by (simp add: read_tag_def Let_def)
qed

lemma low_mask: "(b :: u64) AND 0xFFFFFFFF = take_bit 32 b"
  by (simp add: take_bit_eq_mask mask_eq_exp_minus_1)

lemma block_number_halves:
  fixes b :: u64
  shows "push_bit 32 (ucast (ucast (drop_bit 32 b) :: u32)) OR ucast (ucast (b AND 0xFFFFFFFF) :: u32) = b"
proof -
  have "ucast (ucast (b AND 0xFFFFFFFF) :: u32) = (take_bit 32 b :: u64)"
    unfolding low_mask by (rule bit_eqI) (auto simp: bit_simps)
  moreover have "push_bit 32 (ucast (ucast (drop_bit 32 b) :: u32)) = push_bit 32 (drop_bit 32 b)"
    by (rule bit_eqI) (auto simp: bit_simps dest: bit_imp_le_length)
  ultimately show ?thesis by (auto intro!: bit_eqI simp: bit_simps dest: bit_imp_le_length)
qed

definition fits_tag :: "journal_superblock \<Rightarrow> u64 \<Rightarrow> bool" where
  "fits_tag j b \<longleftrightarrow> uses_64bit j \<or> unat b < 2 ^ 32"

lemma low_word:
  fixes b :: u64 assumes "unat b < 2 ^ 32" shows "ucast (ucast b :: u32) = b" "ucast (ucast (b AND 0xFFFFFFFF) :: u32) = b"
proof -
  have "unat (take_bit 32 b) = unat b" using assms by (simp add: unsigned_take_bit_eq take_bit_nat_eq_self_iff)
  then have t: "take_bit 32 b = b" by (simp add: word_unat_eq_iff)
  then have "b AND 0xFFFFFFFF = b" by (simp only: low_mask)
  moreover have "ucast (ucast b :: u32) = take_bit 32 b" by (rule bit_eqI) (auto simp: bit_simps)
  ultimately show "ucast (ucast b :: u32) = b" "ucast (ucast (b AND 0xFFFFFFFF) :: u32) = b" using t by simp_all
qed

lemma put_tag_frame:
  assumes "pos + l_tag_bytes l \<le> length blk" "8 \<le> l_tag_bytes l" "l_uses_64bit l \<Longrightarrow> 12 \<le> l_tag_bytes l"
    "l_csum_v3 l \<Longrightarrow> l_tag_bytes l = 16"
  shows "length (put_tag crc sq l w fin pos blk) = length blk" "take pos (put_tag crc sq l w fin pos blk) = take pos blk"
proof -
  have tp: "take pos (put q ys b) = take pos b" if "pos \<le> q" "q + length ys \<le> length b" for q and ys b :: bytes
    using that by (simp add: put_def)
  show "length (put_tag crc sq l w fin pos blk) = length blk"
    using assms by (auto simp: put_tag_def Let_def split: option.splits)
  show "take pos (put_tag crc sq l w fin pos blk) = take pos blk"
    using assms by (auto simp: put_tag_def Let_def tp split: option.splits)
qed

text \<open>What a tag written for a journal reads back as: its flags, its checksum and its block.\<close>

definition stored_checksum :: "crc_fn \<Rightarrow> journal_superblock \<Rightarrow> u32 \<Rightarrow> bytes \<Rightarrow> u32" where
  "stored_checksum crc j sq data =
     (if uses_csum_v3 j then tag_checksum crc (csum_seed crc j) sq data
      else if uses_csum_v2_or_v3 j then tag_checksum crc (csum_seed crc j) sq data AND 0xFFFF else 0)"

lemma layout_of_simps [simp]:
  "l_tag_bytes (layout_of crc j) = tag_bytes j" "l_uses_64bit (layout_of crc j) = uses_64bit j"
  "l_csum_v3 (layout_of crc j) = uses_csum_v3 j"
  "l_tail_bytes (layout_of crc j) = (if uses_csum_v2_or_v3 j then 4 else 0)"
  "l_seed (layout_of crc j) = (if uses_csum_v2_or_v3 j then Some (csum_seed crc j) else None)"
  by (simp_all add: layout_of_def uses_csum_v3_def BLOCK_TAIL_BYTES_def)

lemma write_flags_small: "ucast (ucast (write_flags bs fin) :: u16) = write_flags bs fin"
  by (simp add: write_flags_def Let_def tag_flags)

lemma read_put_tag:
  assumes "pos + tag_bytes j \<le> length blk" "fits_tag j (jb_fs_block w)"
  shows "read_tag j (put_tag crc sq (layout_of crc j) w fin pos blk) pos =
    (write_flags (jb_bytes w) fin, stored_checksum crc j sq (logged_copy (jb_bytes w)), jb_fs_block w)"
proof -
  note tb = tag_bytes_bounds [of j] assms(1)
  have blocknr: "(if uses_64bit j then push_bit 32 (ucast (ucast (drop_bit 32 (jb_fs_block w)) :: u32) :: u64) OR
        ucast (ucast (jb_fs_block w AND 0xFFFFFFFF) :: u32) else ucast (ucast (jb_fs_block w AND 0xFFFFFFFF) :: u32)) = jb_fs_block w"
    using assms(2) block_number_halves [of "jb_fs_block w"] low_word(2) [of "jb_fs_block w"] by (auto simp: fits_tag_def)
  show ?thesis
  proof (cases "uses_csum_v3 j")
    case True
    then have "tag_bytes j = 16" "uses_csum_v2_or_v3 j" using tb(4) csum_v3_imp by auto
    then show ?thesis using True assms(1) blocknr
      by (auto simp: put_tag_def read_tag_def Let_def codec_simps stored_checksum_def)
  next
    case False
    then show ?thesis using tb blocknr
      by (auto simp: put_tag_def read_tag_def Let_def codec_simps stored_checksum_def write_flags_small low_half)
  qed
qed

lemma put_tags_ok:
  assumes "pos + length ws * l_tag_bytes l \<le> length blk - l_tail_bytes l"
    "8 \<le> l_tag_bytes l" "l_uses_64bit l \<Longrightarrow> 12 \<le> l_tag_bytes l" "l_csum_v3 l \<Longrightarrow> l_tag_bytes l = 16"
  shows "\<exists>fin. put_tags crc sq l ws pos blk = Ok fin \<and> length fin = length blk \<and> take pos fin = take pos blk"
  using assms(1)
proof (induction ws arbitrary: pos blk)
  case (Cons w ws)
  let ?b = "put_tag crc sq l w (ws = []) pos blk"
  have fit: "pos + l_tag_bytes l \<le> length blk" using Cons.prems by simp
  note fr = put_tag_frame [OF fit assms(2-4), of crc sq w "ws = []"]
  have "pos + l_tag_bytes l + length ws * l_tag_bytes l \<le> length ?b - l_tail_bytes l" using Cons.prems fr(1) by simp
  from Cons.IH [OF this] obtain fin where f: "put_tags crc sq l ws (pos + l_tag_bytes l) ?b = Ok fin" "length fin = length ?b"
    "take (pos + l_tag_bytes l) fin = take (pos + l_tag_bytes l) ?b" by blast
  have "take pos fin = take pos ?b" using f(3) by (metis le_add1 min.absorb1 take_take)
  then show ?case using f fr Cons.prems by simp
qed simp

text \<open>The entries of a descriptor's tags: each names the block after the previous one's.\<close>

fun chunk_entries :: "journal_superblock \<Rightarrow> u32 \<Rightarrow> journaled_block list \<Rightarrow> u64 \<Rightarrow> replay_entry list" where
  "chunk_entries j sq [] cur = []"
| "chunk_entries j sq (w # ws) cur =
     \<lparr>re_transaction = sq, re_fs_block = jb_fs_block w, re_journal_block = advance cur 1 j, re_flags = write_flags (jb_bytes w) (ws = [])\<rparr>
     # chunk_entries j sq ws (advance cur 1 j)"

fun nth_block :: "journal_superblock \<Rightarrow> u64 \<Rightarrow> nat \<Rightarrow> u64" where
  "nth_block j cur 0 = cur"
| "nth_block j cur (Suc k) = nth_block j (advance cur 1 j) k"

lemma flag_tests [simp]:
  "write_flags bs fin AND TAG_SAME_UUID \<noteq> 0" "write_flags bs fin AND TAG_LAST \<noteq> 0 \<longleftrightarrow> fin"
  "write_flags bs fin AND TAG_ESCAPED \<noteq> 0 \<longleftrightarrow> needs_escape bs"
  by (auto simp: write_flags_def Let_def tag_flags)

lemma parse_put_tags:
  assumes "put_tags crc sq (layout_of crc j) ws pos blk = Ok fin" "ws \<noteq> []"
    "pos + length ws * tag_bytes j \<le> usable_bytes j blk" "\<forall>w \<in> set ws. fits_tag j (jb_fs_block w)"
    "length blk' = length blk" "take (usable_bytes j blk) blk' = take (usable_bytes j blk) fin"
  shows "parse_tags j sq blk' pos cur = Ok (zip (chunk_entries j sq ws cur)
      (map (\<lambda>w. stored_checksum crc j sq (logged_copy (jb_bytes w))) ws), nth_block j cur (length ws))"
  using assms
proof (induction ws arbitrary: pos blk cur)
  case (Cons w ws)
  let ?l = "layout_of crc j" and ?b = "put_tag crc sq (layout_of crc j) w (ws = []) pos blk"
  have u: "usable_bytes j blk' = usable_bytes j blk" "usable_bytes j blk = length blk - l_tail_bytes ?l" "usable_bytes j blk \<le> length blk"
    using Cons.prems(5) by (auto simp: usable_bytes_def BLOCK_TAIL_BYTES_def)
  have fit: "pos + tag_bytes j \<le> usable_bytes j blk" "pos + tag_bytes j + length ws * tag_bytes j \<le> usable_bytes j blk"
    using Cons.prems(3) by simp_all
  then have fl: "pos + l_tag_bytes ?l \<le> length blk" using u(3) by simp
  note fr = put_tag_frame [OF fl, of crc sq w "ws = []"]
  have lb: "length ?b = length blk" using fr(1) tag_bytes_bounds by simp
  have rest: "put_tags crc sq ?l ws (pos + tag_bytes j) ?b = Ok fin" using Cons.prems(1) by (simp split: if_splits)
  have "\<exists>f. put_tags crc sq ?l ws (pos + tag_bytes j) ?b = Ok f \<and> length f = length ?b \<and> take (pos + tag_bytes j) f = take (pos + tag_bytes j) ?b"
    using fit(2) u(2) lb tag_bytes_bounds [of j] by (intro put_tags_ok) auto
  with rest have same: "take (pos + tag_bytes j) fin = take (pos + tag_bytes j) ?b" by auto
  have "take (pos + tag_bytes j) blk' = take (pos + tag_bytes j) fin"
    using Cons.prems(6) fit(1) by (metis min.absorb1 take_take)
  with same have "read_tag j blk' pos = read_tag j ?b pos" by (intro read_tag_cong [of "pos + tag_bytes j"]) simp_all
  then have rt: "read_tag j blk' pos = (write_flags (jb_bytes w) (ws = []), stored_checksum crc j sq (logged_copy (jb_bytes w)), jb_fs_block w)"
    using read_put_tag [of pos j blk w crc sq "ws = []"] fl Cons.prems(4) by simp
  show ?case
  proof (cases "ws = []")
    case True
    then show ?thesis using rt fit(1) u(1) by (simp add: parse_tags.simps [of j sq blk' pos] Let_def)
  next
    case False
    have "usable_bytes j ?b = usable_bytes j blk" using lb by (simp add: usable_bytes_def)
    with Cons.IH [OF rest False] fit(2) Cons.prems(4-6) lb
    have ih: "parse_tags j sq blk' (pos + tag_bytes j) (advance cur 1 j) = Ok (zip (chunk_entries j sq ws (advance cur 1 j))
        (map (\<lambda>w. stored_checksum crc j sq (logged_copy (jb_bytes w))) ws), nth_block j (advance cur 1 j) (length ws))" by simp
    have "pos + tag_bytes j + tag_bytes j \<le> usable_bytes j blk" using fit(2) False by (cases ws) auto
    then show ?thesis using rt fit(1) u(1) False ih by (simp add: parse_tags.simps [of j sq blk' pos] Let_def)
  qed
qed simp

section \<open>Blocks read back\<close>

lemma write_header_ok:
  assumes "12 \<le> length blk"
  obtains h where "write_header sq bt blk = Ok h" "length h = length blk"
    "get_be32 0 h = JBD2_MAGIC_NUMBER" "get_be32 4 h = bt" "get_be32 8 h = sq"
proof -
  let ?h = "put 8 (u32_to_be sq) (put 4 (u32_to_be bt) (put 0 (u32_to_be JBD2_MAGIC_NUMBER) blk))"
  have "write_header sq bt blk = Ok ?h" using assms by (simp add: write_header_def put_checked_def)
  then show thesis using that [of ?h] assms by (simp add: codec_simps)
qed

lemma get_be32_take: "take 12 b = take 12 b' \<Longrightarrow> off + 4 \<le> 12 \<Longrightarrow> get_be32 off b = get_be32 off b'"
  using slice_of_take [of "off + 4" 12 off b] slice_of_take [of "off + 4" 12 off b'] by (simp add: get_field_defs)

lemma try_parse_header_eq:
  assumes "take 12 b = take 12 h" "12 \<le> length b" "get_be32 0 h = JBD2_MAGIC_NUMBER" "get_be32 4 h = bt" "get_be32 8 h = sq"
  shows "try_parse_header b = Some \<lparr>h_block_type = bt, h_sequence = sq\<rparr>"
  using assms get_be32_take [OF assms(1), of 0] get_be32_take [OF assms(1), of 4] get_be32_take [OF assms(1), of 8]
  by (simp add: try_parse_header_def)

lemma seal_tail_facts:
  assumes "4 \<le> length b"
  shows "length (seal_tail crc l b) = length b" "take (length b - 4) (seal_tail crc l b) = take (length b - 4) b"
    "l_seed l = None \<Longrightarrow> seal_tail crc l b = b"
    "l_seed l = Some k \<Longrightarrow> tail_checksum_matches crc k (seal_tail crc l b)"
proof -
  let ?c = "\<lambda>k. put (length b - 4) (u32_to_be (block_tail_checksum crc k b)) b"
  have len: "length (?c k) = length b" for k using assms by simp
  have tk: "take (length b - 4) (?c k) = take (length b - 4) b" for k using assms by (simp add: put_def)
  show "length (seal_tail crc l b) = length b" "take (length b - 4) (seal_tail crc l b) = take (length b - 4) b"
    "l_seed l = None \<Longrightarrow> seal_tail crc l b = b"
    using len tk by (simp_all add: seal_tail_def BLOCK_TAIL_BYTES_def split: option.splits)
  have "drop (length b - 4) (?c k) = u32_to_be (block_tail_checksum crc k b)" using assms by (simp add: put_def)
  then show "l_seed l = Some k \<Longrightarrow> tail_checksum_matches crc k (seal_tail crc l b)"
    using len [of k] tk [of k] block_tail_checksum_cong [of "?c k" b crc k]
    by (simp add: seal_tail_def tail_checksum_matches_def BLOCK_TAIL_BYTES_def)
qed

definition seed_of :: "crc_fn \<Rightarrow> journal_superblock \<Rightarrow> u32 option" where
  "seed_of crc j = (if uses_csum_v2_or_v3 j then Some (csum_seed crc j) else None)"

definition torn :: "crc_fn \<Rightarrow> u32 option \<Rightarrow> bytes \<Rightarrow> bool" where
  "torn crc sd blk = (case sd of None \<Rightarrow> False | Some k \<Rightarrow> \<not> tail_checksum_matches crc k blk)"

text \<open>A sealed block keeps everything below its tail, header included, and its tail is right.\<close>

lemma sealed_block:
  fixes crc :: crc_fn and j :: journal_superblock
  assumes "16 \<le> length b" "take 12 b = take 12 h" "get_be32 0 h = JBD2_MAGIC_NUMBER" "get_be32 4 h = bt" "get_be32 8 h = sq"
  defines "d \<equiv> seal_tail crc (layout_of crc j) b"
  shows "length d = length b" "try_parse_header d = Some \<lparr>h_block_type = bt, h_sequence = sq\<rparr>"
    "take (usable_bytes j b) d = take (usable_bytes j b) b" "\<not> torn crc (seed_of crc j) d"
proof -
  note sf = seal_tail_facts [of b, where crc = crc and l = "layout_of crc j"]
  show len: "length d = length b" using sf(1) assms(1) by (simp add: d_def)
  show us: "take (usable_bytes j b) d = take (usable_bytes j b) b"
    using sf(2,3) assms(1) by (simp add: d_def usable_bytes_def BLOCK_TAIL_BYTES_def)
  have "12 \<le> usable_bytes j b" using assms(1) by (auto simp: usable_bytes_def BLOCK_TAIL_BYTES_def)
  with us have "take 12 d = take 12 b" by (rule take_eq_less)
  then have "take 12 d = take 12 h" using assms(2) by simp
  then show "try_parse_header d = Some \<lparr>h_block_type = bt, h_sequence = sq\<rparr>"
    using try_parse_header_eq [of d h bt sq] assms(1,3-5) len by simp
  show "\<not> torn crc (seed_of crc j) d"
    using sf(4) assms(1) by (auto simp: torn_def seed_of_def d_def)
qed

lemma descriptor_reads_back:
  assumes "ch \<noteq> []" "12 + length ch * tag_bytes j \<le> unat (tx_block_size tx) - (if uses_csum_v2_or_v3 j then 4 else 0)"
    "\<forall>w \<in> set ch. fits_tag j (jb_fs_block w)"
  obtains d where "build_descriptor_block crc tx ch (layout_of crc j) = Ok d" "length d = unat (tx_block_size tx)"
    "try_parse_header d = Some \<lparr>h_block_type = JBD2_DESCRIPTOR_BLOCK, h_sequence = tx_sequence tx\<rparr>"
    "\<not> torn crc (seed_of crc j) d"
    "\<And>cur. parse_descriptor_tags d cur j (tx_sequence tx) = Ok (zip (chunk_entries j (tx_sequence tx) ch cur)
        (map (\<lambda>w. stored_checksum crc j (tx_sequence tx) (logged_copy (jb_bytes w))) ch), nth_block j cur (length ch))"
proof -
  let ?n = "unat (tx_block_size tx)" and ?l = "layout_of crc j" and ?sq = "tx_sequence tx"
  have "1 \<le> length ch" using assms(1) by (cases ch) auto
  then have "tag_bytes j \<le> length ch * tag_bytes j" by simp
  then have n: "20 \<le> ?n" using assms(2) tag_bytes_bounds(1) [of j] by linarith
  have "12 \<le> length (replicate ?n (0 :: u8))" using n by simp
  from write_header_ok [OF this, of ?sq JBD2_DESCRIPTOR_BLOCK] obtain h where
    h: "write_header ?sq JBD2_DESCRIPTOR_BLOCK (replicate ?n 0) = Ok h" "length h = ?n"
    "get_be32 0 h = JBD2_MAGIC_NUMBER" "get_be32 4 h = JBD2_DESCRIPTOR_BLOCK" "get_be32 8 h = ?sq" by auto
  have "\<exists>f. put_tags crc ?sq ?l ch 12 h = Ok f \<and> length f = length h \<and> take 12 f = take 12 h"
    using assms(2) h(2) tag_bytes_bounds [of j] by (intro put_tags_ok) auto
  then obtain f where f: "put_tags crc ?sq ?l ch 12 h = Ok f" "length f = ?n" "take 12 f = take 12 h" using h(2) by auto
  let ?d = "seal_tail crc ?l f"
  have "16 \<le> length f" using f(2) n by simp
  note sb = sealed_block [OF this f(3) h(3-5), where crc = crc and j = j]
  have "parse_tags j ?sq ?d 12 cur = Ok (zip (chunk_entries j ?sq ch cur)
      (map (\<lambda>w. stored_checksum crc j ?sq (logged_copy (jb_bytes w))) ch), nth_block j cur (length ch))" for cur
  proof (rule parse_put_tags [OF f(1) assms(1) _ assms(3)])
    show "12 + length ch * tag_bytes j \<le> usable_bytes j h"
      using assms(2) h(2) by (cases "uses_csum_v2_or_v3 j") (simp_all add: usable_bytes_def BLOCK_TAIL_BYTES_def)
    show "length ?d = length h" using sb(1) f(2) h(2) by simp
    have "usable_bytes j h = usable_bytes j f" using f(2) h(2) by (simp add: usable_bytes_def)
    then show "take (usable_bytes j h) ?d = take (usable_bytes j h) f" using sb(3) by simp
  qed
  then show thesis using that [of ?d] h(1) f sb by (simp add: build_descriptor_block_def parse_descriptor_tags_def)
qed

text \<open>Revoke records.\<close>

lemma put_records_frame:
  "pos + length bs * revoke_record_size b64 \<le> length blk \<Longrightarrow>
     length (put_records b64 bs pos blk) = length blk \<and> take pos (put_records b64 bs pos blk) = take pos blk"
proof (induction bs arbitrary: pos blk)
  case (Cons b bs)
  let ?b = "if b64 then put pos (u64_to_be b) blk else put pos (u32_to_be (ucast b)) blk"
  have len: "length ?b = length blk" and tk: "take pos ?b = take pos blk"
    using Cons.prems by (auto simp: revoke_record_size_def put_def)
  have "pos + revoke_record_size b64 + length bs * revoke_record_size b64 \<le> length ?b" using Cons.prems len by simp
  from Cons.IH [OF this] have "length (put_records b64 (b # bs) pos blk) = length ?b"
    "take (pos + revoke_record_size b64) (put_records b64 (b # bs) pos blk) = take (pos + revoke_record_size b64) ?b" by simp_all
  moreover from this(2) have "take pos (put_records b64 (b # bs) pos blk) = take pos ?b" by (rule take_eq_less) simp
  ultimately show ?case using len tk by simp
qed simp

lemma read_put_records:
  assumes "pos + length bs * revoke_record_size b64 \<le> u" "u \<le> length blk"
    "\<forall>b \<in> set bs. b64 \<or> unat b < 2 ^ 32" "take u blk' = take u (put_records b64 bs pos blk)"
  shows "read_records b64 sq blk' pos (pos + length bs * revoke_record_size b64) =
    map (\<lambda>b. \<lparr>rv_transaction = sq, rv_fs_block = b\<rparr>) bs"
  using assms
proof (induction bs arbitrary: pos blk)
  case Nil
  show ?case by (subst read_records.simps) (simp add: revoke_record_size_def)
next
  case (Cons b bs)
  let ?r = "revoke_record_size b64"
  let ?b = "if b64 then put pos (u64_to_be b) blk else put pos (u32_to_be (ucast b)) blk"
  have len: "length ?b = length blk" using Cons.prems(1,2) by (auto simp: revoke_record_size_def)
  have fit: "pos + ?r + length bs * ?r \<le> u" "u \<le> length ?b" using Cons.prems(1,2) len by simp_all
  have fin: "put_records b64 (b # bs) pos blk = put_records b64 bs (pos + ?r) ?b" by simp
  have "take (pos + ?r) (put_records b64 bs (pos + ?r) ?b) = take (pos + ?r) ?b"
    using fit put_records_frame [of "pos + ?r" bs b64 ?b] by simp
  moreover have "take (pos + ?r) blk' = take (pos + ?r) (put_records b64 (b # bs) pos blk)"
    using Cons.prems(4) by (rule take_eq_less) (use fit(1) in simp)
  ultimately have tk: "take (pos + ?r) blk' = take (pos + ?r) ?b" by (simp only: fin)
  then have sl: "slice pos (pos + ?r) blk' = slice pos (pos + ?r) ?b" by (metis order_refl slice_of_take)
  have "b64 \<Longrightarrow> get_be64 pos blk' = b" "\<not> b64 \<Longrightarrow> ucast (get_be32 pos blk') = b"
    using sl Cons.prems(1-3) low_word(1) [of b] by (auto simp: revoke_record_size_def get_field_defs slice_simps)
  moreover have "read_records b64 sq blk' (pos + ?r) (pos + ?r + length bs * ?r) = map (\<lambda>b. \<lparr>rv_transaction = sq, rv_fs_block = b\<rparr>) bs"
    using Cons.IH [OF fit] Cons.prems(3,4) unfolding fin by auto
  ultimately show ?case by (subst read_records.simps) (simp add: add.assoc)
qed

lemma revoke_reads_back:
  assumes "ch \<noteq> []" "16 + length ch * revoke_record_size (uses_64bit j) \<le> unat (tx_block_size tx) - (if uses_csum_v2_or_v3 j then 4 else 0)"
    "\<forall>b \<in> set ch. fits_tag j b"
  obtains d where "build_revoke_block crc tx ch (layout_of crc j) = Ok d" "length d = unat (tx_block_size tx)"
    "try_parse_header d = Some \<lparr>h_block_type = JBD2_REVOKE_BLOCK, h_sequence = tx_sequence tx\<rparr>"
    "\<not> torn crc (seed_of crc j) d"
    "parse_revoke_block d j (tx_sequence tx) = Ok (map (\<lambda>b. \<lparr>rv_transaction = tx_sequence tx, rv_fs_block = b\<rparr>) ch)"
proof -
  let ?n = "unat (tx_block_size tx)" and ?l = "layout_of crc j" and ?sq = "tx_sequence tx"
  let ?r = "revoke_record_size (uses_64bit j)"
  define t where "t = 16 + length ch * ?r"
  have t: "t \<le> ?n - (if uses_csum_v2_or_v3 j then 4 else 0)" using assms(2) by (simp add: t_def)
  have n: "20 \<le> ?n" using assms(1,2) by (cases ch) (auto simp: revoke_record_size_def split: if_splits)
  have "12 \<le> length (replicate ?n (0 :: u8))" using n by simp
  from write_header_ok [OF this, of ?sq JBD2_REVOKE_BLOCK] obtain h where
    h: "write_header ?sq JBD2_REVOKE_BLOCK (replicate ?n 0) = Ok h" "length h = ?n"
    "get_be32 0 h = JBD2_MAGIC_NUMBER" "get_be32 4 h = JBD2_REVOKE_BLOCK" "get_be32 8 h = ?sq" by auto
  let ?h = "put 12 (u32_to_be (word_of_nat t)) h"
  let ?b = "put_records (uses_64bit j) ch 16 ?h"
  have lh: "length ?h = ?n" "take 12 ?h = take 12 h" using h(2) n by (auto simp: put_def)
  have rf: "length ?b = ?n" "take 16 ?b = take 16 ?h"
    using put_records_frame [of 16 ch "uses_64bit j" ?h] assms(2) lh by auto
  from rf(2) have "take 12 ?b = take 12 ?h" by (rule take_eq_less) simp
  then have t12: "take 12 ?b = take 12 h" using lh(2) by simp
  have "16 \<le> length ?b" using rf(1) n by simp
  note sb = sealed_block [OF this t12 h(3-5), where crc = crc and j = j]
  let ?d = "seal_tail crc ?l ?b"
  have us: "usable_bytes j ?b = ?n - (if uses_csum_v2_or_v3 j then 4 else 0)" "usable_bytes j ?d = usable_bytes j ?b"
    using rf(1) sb(1) by (simp_all add: usable_bytes_def BLOCK_TAIL_BYTES_def)
  have "16 \<le> usable_bytes j ?b" unfolding us(1) using assms(2) by linarith
  with sb(3) have "take 16 ?d = take 16 ?b" by (rule take_eq_less)
  then have t16: "take 16 ?d = take 16 ?h" using rf(2) by simp
  have "get_be32 12 ?d = get_be32 12 ?h"
    using t16 slice_of_take [of 16 16 12 ?d] slice_of_take [of 16 16 12 ?h] by (simp add: get_field_defs)
  also have "\<dots> = word_of_nat t" using h(2) n by (simp add: codec_simps)
  finally have "unat (get_be32 12 ?d) = unat (word_of_nat t :: u32)" by simp
  moreover have "t < 2 ^ 32" using t unat_lt2p [of "tx_block_size tx"] by (simp split: if_splits)
  ultimately have cnt: "unat (get_be32 12 ?d) = t" by (simp add: unat_of_nat)
  have "read_records (uses_64bit j) ?sq ?d 16 t = map (\<lambda>b. \<lparr>rv_transaction = ?sq, rv_fs_block = b\<rparr>) ch"
    
  proof -
    have "16 + length ch * ?r \<le> usable_bytes j ?b" using t us(1) by (simp add: t_def)
    moreover have "usable_bytes j ?b \<le> length ?h" using lh(1) us(1) by simp
    ultimately show ?thesis
      using read_put_records [where u = "usable_bytes j ?b" and blk = ?h and pos = 16 and bs = ch and ?b64.0 = "uses_64bit j" and sq = ?sq]
        sb(3) assms(3) by (simp add: t_def [symmetric] fits_tag_def)
  qed
  then have "parse_revoke_block ?d j ?sq = Ok (map (\<lambda>b. \<lparr>rv_transaction = ?sq, rv_fs_block = b\<rparr>) ch)"
    using cnt us t sb(1) rf(1) n by (simp add: parse_revoke_block_def)
  moreover have "build_revoke_block crc tx ch ?l = Ok ?d"
    using h(1,2) t unfolding build_revoke_block_def Let_def by (simp add: t_def [symmetric] split: if_splits)
  ultimately show thesis using that [of ?d] sb rf(1) by simp
qed

lemma commit_reads_back:
  assumes "20 \<le> unat (tx_block_size tx)"
  obtains d where "build_commit_block crc tx (layout_of crc j) = Ok d" "length d = unat (tx_block_size tx)"
    "try_parse_header d = Some \<lparr>h_block_type = JBD2_COMMIT_BLOCK, h_sequence = tx_sequence tx\<rparr>"
    "\<And>k. seed_of crc j = Some k \<Longrightarrow> commit_block_checksum crc k d = Ok (get_be32 16 d)"
proof -
  let ?n = "unat (tx_block_size tx)" and ?sq = "tx_sequence tx"
  have "12 \<le> length (replicate ?n (0 :: u8))" using assms by simp
  from write_header_ok [OF this, of ?sq JBD2_COMMIT_BLOCK] obtain h where
    h: "write_header ?sq JBD2_COMMIT_BLOCK (replicate ?n 0) = Ok h" "length h = ?n"
    "get_be32 0 h = JBD2_MAGIC_NUMBER" "get_be32 4 h = JBD2_COMMIT_BLOCK" "get_be32 8 h = ?sq" by auto
  show thesis
  proof (cases "seed_of crc j")
    case None
    then show thesis using that [of h] h assms try_parse_header_eq [of h h]
      by (simp add: build_commit_block_def seed_of_def split: if_splits)
  next
    case (Some k)
    obtain c where c: "commit_block_checksum crc k h = Ok c"
      using h(2) assms by (simp add: commit_block_checksum_def COMMIT_CHECKSUM_AT_def Let_def)
    let ?d = "put 16 (u32_to_be c) h"
    have "take 12 ?d = take 12 h" using h(2) assms by (simp add: put_def)
    then have "try_parse_header ?d = Some \<lparr>h_block_type = JBD2_COMMIT_BLOCK, h_sequence = ?sq\<rparr>"
      using try_parse_header_eq [of ?d h] h assms by simp
    moreover have "build_commit_block crc tx (layout_of crc j) = Ok ?d"
      using Some h assms c by (auto simp: build_commit_block_def seed_of_def put_checked_def COMMIT_CHECKSUM_AT_def split: if_splits)
    moreover have "commit_block_checksum crc k ?d = Ok (get_be32 16 ?d)"
      using c h(2) assms by (simp add: commit_block_checksum_put codec_simps)
    ultimately show thesis using that [of ?d] Some h(2) assms by simp
  qed
qed

section \<open>Walking a serialised transaction\<close>

definition log_at :: "journal_reader \<Rightarrow> journal_superblock \<Rightarrow> u64 \<Rightarrow> bytes list \<Rightarrow> bool" where
  "log_at rdj j cur bl \<longleftrightarrow> (\<forall>k < length bl. rdj (nth_block j cur k) = Ok (bl ! k))"

lemma nth_block_add: "nth_block j cur (m + n) = nth_block j (nth_block j cur m) n"
  by (induction m arbitrary: cur) auto

lemma nth_block_Suc': "nth_block j cur (Suc k) = advance (nth_block j cur k) 1 j"
  using nth_block_add [of j cur k 1] by simp

lemma advance_nth: "advance (nth_block j cur k) 1 j = nth_block j (advance cur 1 j) k"
  using nth_block_Suc' [of j cur k] by simp

lemma corrupt_kept: "ws_corrupt s = b \<Longrightarrow> s\<lparr>ws_plan := p, ws_writes := es, ws_corrupt := b, ws_cur := c\<rparr> = s\<lparr>ws_plan := p, ws_cur := c, ws_writes := es\<rparr>"
  by (cases s) simp

lemma log_at_Cons: "log_at rdj j cur (b # bl) \<longleftrightarrow> rdj cur = Ok b \<and> log_at rdj j (advance cur 1 j) bl"
  by (auto simp: log_at_def less_Suc_eq_0_disj)

lemma log_at_Nil [simp]: "log_at rdj j cur []"
  by (simp add: log_at_def)

lemma log_at_append: "log_at rdj j cur (xs @ ys) \<longleftrightarrow> log_at rdj j cur xs \<and> log_at rdj j (nth_block j cur (length xs)) ys"
  by (induction xs arbitrary: cur) (auto simp: log_at_Cons)

definition moved :: "journal_superblock \<Rightarrow> nat \<Rightarrow> replay_entry list \<Rightarrow> revoke_entry list \<Rightarrow> walk_state \<Rightarrow> walk_state" where
  "moved j n es rs s = s\<lparr>ws_plan := (ws_plan s)\<lparr>rp_blocks_walked := rp_blocks_walked (ws_plan s) + n\<rparr>,
     ws_cur := nth_block j (ws_cur s) n, ws_writes := ws_writes s @ es, ws_revokes := ws_revokes s @ rs\<rparr>"

lemma moved_moved: "moved j m es' rs' (moved j n es rs s) = moved j (n + m) (es @ es') (rs @ rs') s"
  by (simp add: moved_def nth_block_add)

lemma moved_simps [simp]:
  "ws_expect (moved j n es rs s) = ws_expect s" "ws_corrupt (moved j n es rs s) = ws_corrupt s"
  "ws_cur (moved j n es rs s) = nth_block j (ws_cur s) n"
  "rp_blocks_walked (ws_plan (moved j n es rs s)) = rp_blocks_walked (ws_plan s) + n"
  by (simp_all add: moved_def)

lemma check_tags_ok:
  assumes "log_at rdj j (advance cur 1 j) (map (\<lambda>w. logged_copy (jb_bytes w)) ch)"
  shows "check_tags crc rdj j (seed_of crc j) sq (zip (chunk_entries j sq ch cur)
    (map (\<lambda>w. stored_checksum crc j sq (logged_copy (jb_bytes w))) ch)) bad = Ok bad"
  using assms
proof (induction ch arbitrary: cur)
  case (Cons w ch)
  have r: "rdj (advance cur 1 j) = Ok (logged_copy (jb_bytes w))"
    "log_at rdj j (advance (advance cur 1 j) 1 j) (map (\<lambda>w. logged_copy (jb_bytes w)) ch)"
    using Cons.prems by (simp_all add: log_at_Cons)
  show ?case using Cons.IH [OF r(2)] r(1)
    by (cases "uses_csum_v2_or_v3 j") (simp_all add: seed_of_def Let_def stored_checksum_def)
qed simp

lemma walk_group:
  assumes d: "try_parse_header d = Some \<lparr>h_block_type = JBD2_DESCRIPTOR_BLOCK, h_sequence = ws_expect s\<rparr>"
    "\<not> torn crc (seed_of crc j) d"
    "parse_descriptor_tags d (ws_cur s) j (ws_expect s) = Ok (zip (chunk_entries j (ws_expect s) ch (ws_cur s))
        (map (\<lambda>w. stored_checksum crc j (ws_expect s) (logged_copy (jb_bytes w))) ch), nth_block j (ws_cur s) (length ch))"
    and log: "log_at rdj j (ws_cur s) (d # map (\<lambda>w. logged_copy (jb_bytes w)) ch)"
    and lim: "rp_blocks_walked (ws_plan s) + 1 + length ch \<le> limit" and clean: "ws_corrupt s = None"
  shows "walk_one crc rdj j (seed_of crc j) limit s = Ok (Continue (moved j (1 + length ch) (chunk_entries j (ws_expect s) ch (ws_cur s)) [] s))"
proof -
  have len: "length (chunk_entries j sq ch cur) = length ch" for sq cur by (induction ch arbitrary: cur) auto
  have nt: "(case seed_of crc j of None \<Rightarrow> False | Some k \<Rightarrow> \<not> tail_checksum_matches crc k d) = False"
    using d(2) by (simp add: torn_def)
  have rd: "rdj (ws_cur s) = Ok d" "log_at rdj j (advance (ws_cur s) 1 j) (map (\<lambda>w. logged_copy (jb_bytes w)) ch)"
    using log by (simp_all add: log_at_Cons)
  show ?thesis
    unfolding walk_one_def rd(1) and_then.simps Let_def d(1) option.case step_descriptor_def
    using d(3) lim clean nt len
    by (simp add: check_tags_ok [OF rd(2)] moved_def advance_nth JBD2_DESCRIPTOR_BLOCK_def corrupt_kept)
qed

lemma walk_revoke:
  assumes d: "try_parse_header d = Some \<lparr>h_block_type = JBD2_REVOKE_BLOCK, h_sequence = ws_expect s\<rparr>"
    "\<not> torn crc (seed_of crc j) d" "parse_revoke_block d j (ws_expect s) = Ok rs" "rdj (ws_cur s) = Ok d"
  shows "walk_one crc rdj j (seed_of crc j) limit s = Ok (Continue (moved j 1 [] rs s))"
proof -
  have nt: "(case seed_of crc j of Some k \<Rightarrow> if tail_checksum_matches crc k d then c
      else Some ''journal revoke block of a committed transaction'' | None \<Rightarrow> c) = c" for c
    using d(2) by (auto simp: torn_def split: option.splits)
  show ?thesis
    unfolding walk_one_def d(4) and_then.simps Let_def d(1) option.case step_revoke_def
    using d(3) by (cases s) (simp add: nt moved_def jbd_constants)
qed

lemma walk_commit:
  assumes d: "try_parse_header d = Some \<lparr>h_block_type = JBD2_COMMIT_BLOCK, h_sequence = ws_expect s\<rparr>" "20 \<le> length d"
    "\<And>k. seed_of crc j = Some k \<Longrightarrow> commit_block_checksum crc k d = Ok (get_be32 16 d)" "rdj (ws_cur s) = Ok d"
    and clean: "ws_corrupt s = None"
  shows "walk_one crc rdj j (seed_of crc j) limit s = Ok (Continue (s\<lparr>
     ws_plan := (ws_plan s)\<lparr>rp_blocks_walked := rp_blocks_walked (ws_plan s) + 1, rp_writes := rp_writes (ws_plan s) @ ws_writes s,
       rp_revokes := rp_revokes (ws_plan s) @ ws_revokes s, rp_last_commit := ws_expect s, rp_next_sequence := Some (ws_expect s + 1)\<rparr>,
     ws_writes := [], ws_revokes := [], ws_expect := ws_expect s + 1, ws_cur := advance (ws_cur s) 1 j\<rparr>))"
proof -
  have ok: "(case seed_of crc j of None \<Rightarrow> Ok True
       | Some k \<Rightarrow> and_then (get_slice COMMIT_CHECKSUM_AT (COMMIT_CHECKSUM_AT + 4) d) (\<lambda>st.
           and_then (commit_block_checksum crc k d) (\<lambda>c. Ok (c = u32_from_be st)))) = Ok True"
    using d(2,3) by (auto simp: get_slice_def COMMIT_CHECKSUM_AT_def get_field_defs split: option.splits)
  show ?thesis
    unfolding walk_one_def d(4) and_then.simps Let_def d(1) option.case step_commit_def
    using ok clean by (simp add: jbd_constants)
qed

text \<open>All the descriptor groups of a transaction, then all its revoke blocks.\<close>

fun group_entries :: "journal_superblock \<Rightarrow> u32 \<Rightarrow> journaled_block list list \<Rightarrow> u64 \<Rightarrow> replay_entry list" where
  "group_entries j sq [] cur = []"
| "group_entries j sq (ch # chs) cur = chunk_entries j sq ch cur @ group_entries j sq chs (nth_block j cur (1 + length ch))"

lemma walk_loop_step:
  "rp_blocks_walked (ws_plan s) < limit \<Longrightarrow> walk_one crc rdj j sd limit s = Ok (Continue s') \<Longrightarrow>
     walk_loop crc rdj j sd limit s = walk_loop crc rdj j sd limit s'"
  by (simp add: walk_loop.simps [of crc rdj j sd limit s])

lemma walk_groups:
  assumes "collect_blocks (descriptor_group crc tx (layout_of crc j)) chs = Ok bl"
    "\<forall>ch \<in> set chs. ch \<noteq> [] \<and> 12 + length ch * tag_bytes j \<le> unat (tx_block_size tx) - (if uses_csum_v2_or_v3 j then 4 else 0) \<and>
       (\<forall>w \<in> set ch. fits_tag j (jb_fs_block w))"
    "log_at rdj j (ws_cur s) bl" "rp_blocks_walked (ws_plan s) + length bl \<le> limit" "ws_corrupt s = None" "ws_expect s = tx_sequence tx"
  shows "walk_loop crc rdj j (seed_of crc j) limit s =
    walk_loop crc rdj j (seed_of crc j) limit (moved j (length bl) (group_entries j (tx_sequence tx) chs (ws_cur s)) [] s)"
  using assms
proof (induction chs arbitrary: s bl)
  case Nil
  then show ?case by (simp add: moved_def)
next
  case (Cons ch chs)
  obtain d rest where d: "build_descriptor_block crc tx ch (layout_of crc j) = Ok d"
    and rest: "collect_blocks (descriptor_group crc tx (layout_of crc j)) chs = Ok rest"
    and bl: "bl = (d # map (\<lambda>w. logged_copy (jb_bytes w)) ch) @ rest"
    using Cons.prems(1) unfolding descriptor_group_def
    by (cases "build_descriptor_block crc tx ch (layout_of crc j)") (auto simp: outcome_simps)
  have ch: "ch \<noteq> []" "12 + length ch * tag_bytes j \<le> unat (tx_block_size tx) - (if uses_csum_v2_or_v3 j then 4 else 0)"
    "\<forall>w \<in> set ch. fits_tag j (jb_fs_block w)" using Cons.prems(2) by auto
  obtain d' where d': "build_descriptor_block crc tx ch (layout_of crc j) = Ok d'"
    "try_parse_header d' = Some \<lparr>h_block_type = JBD2_DESCRIPTOR_BLOCK, h_sequence = tx_sequence tx\<rparr>" "\<not> torn crc (seed_of crc j) d'"
    "\<And>cur. parse_descriptor_tags d' cur j (tx_sequence tx) = Ok (zip (chunk_entries j (tx_sequence tx) ch cur)
        (map (\<lambda>w. stored_checksum crc j (tx_sequence tx) (logged_copy (jb_bytes w))) ch), nth_block j cur (length ch))"
    by (rule descriptor_reads_back [OF ch, where crc = crc]) blast
  have eq: "d' = d" using d d'(1) by simp
  let ?t = "moved j (1 + length ch) (chunk_entries j (tx_sequence tx) ch (ws_cur s)) [] s"
  have logs: "log_at rdj j (ws_cur s) (d # map (\<lambda>w. logged_copy (jb_bytes w)) ch)" "log_at rdj j (ws_cur ?t) rest"
    using Cons.prems(3) by (simp_all add: bl log_at_append log_at_Cons)
  have lens: "rp_blocks_walked (ws_plan s) + 1 + length ch \<le> limit" "rp_blocks_walked (ws_plan ?t) + length rest \<le> limit"
    using Cons.prems(4) by (simp_all add: bl)
  have "walk_one crc rdj j (seed_of crc j) limit s = Ok (Continue ?t)"
    using walk_group [of d s crc j ch rdj limit] d'(2-4) eq logs(1) lens(1) Cons.prems(5,6) by simp
  then have "walk_loop crc rdj j (seed_of crc j) limit s = walk_loop crc rdj j (seed_of crc j) limit ?t"
    using lens(1) by (intro walk_loop_step) simp_all
  also have "\<dots> = walk_loop crc rdj j (seed_of crc j) limit
      (moved j (length rest) (group_entries j (tx_sequence tx) chs (ws_cur ?t)) [] ?t)"
    using Cons.IH [OF rest _ logs(2) lens(2)] Cons.prems(2,5,6) by simp
  finally show ?case by (simp add: bl moved_moved)
qed

lemma walk_revokes:
  assumes "collect_blocks (\<lambda>ch. map_ok (\<lambda>b. [b]) (build_revoke_block crc tx ch (layout_of crc j))) chs = Ok bl"
    "\<forall>ch \<in> set chs. ch \<noteq> [] \<and> 16 + length ch * revoke_record_size (uses_64bit j) \<le> unat (tx_block_size tx) - (if uses_csum_v2_or_v3 j then 4 else 0) \<and>
       (\<forall>b \<in> set ch. fits_tag j b)"
    "log_at rdj j (ws_cur s) bl" "rp_blocks_walked (ws_plan s) + length bl \<le> limit" "ws_expect s = tx_sequence tx"
  shows "walk_loop crc rdj j (seed_of crc j) limit s = walk_loop crc rdj j (seed_of crc j) limit
    (moved j (length bl) [] (map (\<lambda>b. \<lparr>rv_transaction = tx_sequence tx, rv_fs_block = b\<rparr>) (concat chs)) s)"
  using assms
proof (induction chs arbitrary: s bl)
  case Nil
  then show ?case by (simp add: moved_def)
next
  case (Cons ch chs)
  have ch: "ch \<noteq> []" "16 + length ch * revoke_record_size (uses_64bit j) \<le> unat (tx_block_size tx) - (if uses_csum_v2_or_v3 j then 4 else 0)"
    "\<forall>b \<in> set ch. fits_tag j b" using Cons.prems(2) by auto
  obtain d where d: "build_revoke_block crc tx ch (layout_of crc j) = Ok d"
    "try_parse_header d = Some \<lparr>h_block_type = JBD2_REVOKE_BLOCK, h_sequence = tx_sequence tx\<rparr>" "\<not> torn crc (seed_of crc j) d"
    "parse_revoke_block d j (tx_sequence tx) = Ok (map (\<lambda>b. \<lparr>rv_transaction = tx_sequence tx, rv_fs_block = b\<rparr>) ch)"
    by (rule revoke_reads_back [OF ch, where crc = crc]) blast
  obtain rest where rest: "collect_blocks (\<lambda>ch. map_ok (\<lambda>b. [b]) (build_revoke_block crc tx ch (layout_of crc j))) chs = Ok rest" "bl = d # rest"
    using Cons.prems(1) d(1) by (auto simp: outcome_simps)
  let ?t = "moved j 1 [] (map (\<lambda>b. \<lparr>rv_transaction = tx_sequence tx, rv_fs_block = b\<rparr>) ch) s"
  have logs: "rdj (ws_cur s) = Ok d" "log_at rdj j (ws_cur ?t) rest" using Cons.prems(3) rest(2) by (simp_all add: log_at_Cons)
  have lens: "rp_blocks_walked (ws_plan s) < limit" "rp_blocks_walked (ws_plan ?t) + length rest \<le> limit"
    using Cons.prems(4) rest(2) by simp_all
  have "walk_one crc rdj j (seed_of crc j) limit s = Ok (Continue ?t)"
    using walk_revoke [of d s crc j _ rdj limit] d(2-4) logs(1) Cons.prems(5) by simp
  then have "walk_loop crc rdj j (seed_of crc j) limit s = walk_loop crc rdj j (seed_of crc j) limit ?t"
    using lens(1) by (intro walk_loop_step)
  also have "\<dots> = walk_loop crc rdj j (seed_of crc j) limit
      (moved j (length rest) [] (map (\<lambda>b. \<lparr>rv_transaction = tx_sequence tx, rv_fs_block = b\<rparr>) (concat chs)) ?t)"
    using Cons.IH [OF rest(1) _ logs(2) lens(2)] Cons.prems(2,5) by simp
  finally show ?case by (simp add: rest(2) moved_moved)
qed

section \<open>Revokes\<close>

text \<open>Within half the sequence space, serial-number order is the order of the offsets.\<close>

lemma sequence_after_window:
  assumes "k < 2 ^ 31" "l < 2 ^ 31"
  shows "sequence_after (b + word_of_nat k) (b + word_of_nat l) \<longleftrightarrow> l < k"
proof -
  have "b + word_of_nat k - (b + word_of_nat l) = (word_of_int (int k - int l) :: u32)" by simp
  moreover have "sint (word_of_int i :: u32) = i" if "- (2 ^ 31) \<le> i" "i < 2 ^ 31" for i
    using that by (simp add: signed_of_int signed_take_bit_int_eq_self_iff)
  from this [of "int k - int l"] have "sint (word_of_int (int k - int l) :: u32) = int k - int l" using assms by simp
  ultimately show ?thesis by (simp add: sequence_after_def)
qed

lemma sequence_after_irrefl [simp]: "\<not> sequence_after a a"
  by (simp add: sequence_after_def)

definition in_window :: "u32 \<Rightarrow> u32 \<Rightarrow> bool" where
  "in_window b t \<longleftrightarrow> unat (t - b) < 2 ^ 31"

lemma window_after: "in_window b s \<Longrightarrow> in_window b t \<Longrightarrow> sequence_after s t \<longleftrightarrow> unat (t - b) < unat (s - b)"
  using sequence_after_window [of "unat (s - b)" "unat (t - b)" b] by (simp add: in_window_def)

lemma highest_revoke_spec:
  assumes "\<forall>r \<in> set rs. in_window b (rv_transaction r)" "\<forall>k t. map_of m k = Some t \<longrightarrow> in_window b t"
  shows "(map_of (highest_revoke rs m) k = None \<longleftrightarrow> map_of m k = None \<and> (\<forall>r \<in> set rs. rv_fs_block r \<noteq> k)) \<and>
    (\<forall>t. map_of (highest_revoke rs m) k = Some t \<longrightarrow> in_window b t \<and>
      (\<forall>t'. map_of m k = Some t' \<or> (\<exists>r \<in> set rs. rv_fs_block r = k \<and> rv_transaction r = t') \<longrightarrow> unat (t' - b) \<le> unat (t - b)) \<and>
      (map_of m k = Some t \<or> (\<exists>r \<in> set rs. rv_fs_block r = k \<and> rv_transaction r = t)))"
  using assms
proof (induction rs arbitrary: m)
  case (Cons r rs)
  define e where "e = (case map_of m (rv_fs_block r) of None \<Rightarrow> rv_transaction r
     | Some t \<Rightarrow> if sequence_after (rv_transaction r) t then rv_transaction r else t)"
  let ?m = "AList.update (rv_fs_block r) e m"
  have hr: "highest_revoke (r # rs) m = highest_revoke rs ?m" by (simp add: e_def Let_def split: option.splits)
  have upd: "map_of ?m = (map_of m)(rv_fs_block r \<mapsto> e)" by (rule update_conv')
  have e: "in_window b e" "unat (rv_transaction r - b) \<le> unat (e - b)" "\<And>t. map_of m (rv_fs_block r) = Some t \<Longrightarrow> unat (t - b) \<le> unat (e - b)"
    "e = rv_transaction r \<or> map_of m (rv_fs_block r) = Some e"
    using Cons.prems window_after [of b "rv_transaction r"] by (auto simp: e_def split: option.splits)
  have "\<forall>k t. map_of ?m k = Some t \<longrightarrow> in_window b t" using Cons.prems(2) e(1) upd by auto
  from Cons.IH [OF _ this] Cons.prems(1)
  have ih: "(map_of (highest_revoke rs ?m) k = None \<longleftrightarrow> map_of ?m k = None \<and> (\<forall>r \<in> set rs. rv_fs_block r \<noteq> k)) \<and>
    (\<forall>t. map_of (highest_revoke rs ?m) k = Some t \<longrightarrow> in_window b t \<and>
      (\<forall>t'. map_of ?m k = Some t' \<or> (\<exists>r \<in> set rs. rv_fs_block r = k \<and> rv_transaction r = t') \<longrightarrow> unat (t' - b) \<le> unat (t - b)) \<and>
      (map_of ?m k = Some t \<or> (\<exists>r \<in> set rs. rv_fs_block r = k \<and> rv_transaction r = t)))" by simp
  show ?case
  proof (cases "rv_fs_block r = k")
    case True
    then have "map_of ?m k = Some e" using upd by simp
    then show ?thesis using ih True e unfolding hr by (auto intro: le_trans)
  next
    case False
    then have "map_of ?m k = map_of m k" using upd by simp
    then show ?thesis using ih False unfolding hr by auto
  qed
qed auto

lemma filter_revoked_eq:
  assumes "\<forall>r \<in> set (rp_revokes p). in_window b (rv_transaction r)" "\<forall>w \<in> set (rp_writes p). in_window b (re_transaction w)"
  shows "filter_revoked p = p\<lparr>rp_writes := filter (\<lambda>w. \<not> (\<exists>r \<in> set (rp_revokes p). rv_fs_block r = re_fs_block w \<and>
      unat (re_transaction w - b) \<le> unat (rv_transaction r - b))) (rp_writes p)\<rparr>"
proof (cases "rp_revokes p = []")
  case True
  then show ?thesis by (simp add: filter_revoked_def)
next
  case False
  let ?h = "highest_revoke (rp_revokes p) []"
  have "(case map_of ?h (re_fs_block w) of Some t \<Rightarrow> sequence_after (re_transaction w) t | None \<Rightarrow> True) =
      (\<not> (\<exists>r \<in> set (rp_revokes p). rv_fs_block r = re_fs_block w \<and> unat (re_transaction w - b) \<le> unat (rv_transaction r - b)))"
    if w: "w \<in> set (rp_writes p)" for w
  proof (cases "map_of ?h (re_fs_block w)")
    case None
    then show ?thesis using highest_revoke_spec [OF assms(1), of "[]" "re_fs_block w"] by auto
  next
    case (Some t)
    then have t: "in_window b t" "\<exists>r \<in> set (rp_revokes p). rv_fs_block r = re_fs_block w \<and> rv_transaction r = t"
      "\<forall>r \<in> set (rp_revokes p). rv_fs_block r = re_fs_block w \<longrightarrow> unat (rv_transaction r - b) \<le> unat (t - b)"
      using highest_revoke_spec [OF assms(1), of "[]" "re_fs_block w"] by auto
    then show ?thesis using Some window_after [of b "re_transaction w" t] assms(2) w by (auto simp: not_le)
  qed
  then show ?thesis using False by (simp add: filter_revoked_def cong: filter_cong)
qed

section \<open>The round trip\<close>

lemma tags_fit:
  assumes "32 \<le> unat (tx_block_size tx)" "length ch \<le> tags_per_descriptor tx (layout_of crc j)"
  shows "12 + length ch * tag_bytes j \<le> unat (tx_block_size tx) - (if uses_csum_v2_or_v3 j then 4 else 0)"
proof -
  define U where "U = unat (tx_block_size tx) - 12 - l_tail_bytes (layout_of crc j)"
  have U: "tag_bytes j \<le> U" using assms(1) tag_bytes_bounds(2) [of j] by (auto simp: U_def)
  have "length ch \<le> max (U div tag_bytes j) 1" using assms(2) by (simp add: tags_per_descriptor_def U_def)
  moreover have "1 \<le> U div tag_bytes j" using U tag_bytes_bounds(1) [of j] by (simp add: Suc_leI div_greater_zero_iff)
  ultimately have "length ch * tag_bytes j \<le> U div tag_bytes j * tag_bytes j" by (intro mult_le_mono1) simp
  also have "\<dots> \<le> U" by simp
  finally show ?thesis using assms(1) by (auto simp: U_def split: if_splits)
qed

lemma revokes_fit:
  assumes "32 \<le> unat (tx_block_size tx)" "length ch \<le> revokes_per_block tx (layout_of crc j)"
  shows "16 + length ch * revoke_record_size (uses_64bit j) \<le> unat (tx_block_size tx) - (if uses_csum_v2_or_v3 j then 4 else 0)"
proof -
  define U r where "U = unat (tx_block_size tx) - 16 - l_tail_bytes (layout_of crc j)" and "r = revoke_record_size (uses_64bit j)"
  have r: "4 \<le> r" "r \<le> 8" by (auto simp: r_def revoke_record_size_def)
  have U: "r \<le> U" using assms(1) r(2) by (auto simp: U_def)
  have "length ch \<le> max (U div r) 1" using assms(2) by (simp add: revokes_per_block_def U_def r_def)
  moreover have "1 \<le> U div r" using U r(1) by (simp add: Suc_leI div_greater_zero_iff)
  ultimately have "length ch * r \<le> U div r * r" by (intro mult_le_mono1) simp
  also have "\<dots> \<le> U" by simp
  finally show ?thesis using assms(1) by (auto simp: U_def r_def split: if_splits)
qed

text \<open>Where the log ends: a block that is not the next transaction's, or the ring is walked once.\<close>

lemma walk_end:
  assumes "rp_blocks_walked (ws_plan s) < limit \<Longrightarrow> \<exists>b. rdj (ws_cur s) = Ok b \<and> (\<forall>h. try_parse_header b = Some h \<longrightarrow> h_sequence h \<noteq> ws_expect s)"
  obtains n where "walk_loop crc rdj j sd limit s = Ok ((ws_plan s)\<lparr>rp_blocks_walked := n\<rparr>)"
proof (cases "rp_blocks_walked (ws_plan s) < limit")
  case True
  then obtain b where "rdj (ws_cur s) = Ok b" "\<forall>h. try_parse_header b = Some h \<longrightarrow> h_sequence h \<noteq> ws_expect s" using assms by blast
  then show thesis using that True by (cases "try_parse_header b") (simp_all add: walk_loop.simps [of crc rdj j sd limit s] walk_one_def Let_def)
next
  case False
  then show thesis using that [of "rp_blocks_walked (ws_plan s)"] by (simp add: walk_loop.simps [of crc rdj j sd limit s])
qed

text \<open>The entries a transaction leaves in a log that starts at \<open>cur\<close>, in order.\<close>

definition log_entries :: "crc_fn \<Rightarrow> journal_superblock \<Rightarrow> transaction \<Rightarrow> u64 \<Rightarrow> replay_entry list" where
  "log_entries crc j tx cur = group_entries j (tx_sequence tx) (chunks (tags_per_descriptor tx (layout_of crc j)) (tx_writes tx)) cur"

lemma entries_transaction: "e \<in> set (log_entries crc j tx cur) \<Longrightarrow> re_transaction e = tx_sequence tx"
proof -
  have chunk: "e \<in> set (chunk_entries j sq ch cur) \<Longrightarrow> re_transaction e = sq" for sq ch cur
    by (induction ch arbitrary: cur) auto
  have "e \<in> set (group_entries j sq chs cur) \<Longrightarrow> re_transaction e = sq" for sq chs cur
    by (induction chs arbitrary: cur) (auto dest: chunk)
  then show "e \<in> set (log_entries crc j tx cur) \<Longrightarrow> re_transaction e = tx_sequence tx" by (simp add: log_entries_def)
qed

text \<open>The log holds the transaction from its start on, and nothing of the next one follows it.\<close>

definition log_holds :: "crc_fn \<Rightarrow> journal_reader \<Rightarrow> journal_superblock \<Rightarrow> transaction \<Rightarrow> bool" where
  "log_holds crc rdj j tx \<longleftrightarrow> (\<exists>bl. commit_for crc tx j = Ok bl \<and> log_at rdj j (ucast (j_start j)) bl \<and>
     length bl \<le> unat (j_max_len j - j_first j) \<and>
     (length bl < unat (j_max_len j - j_first j) \<longrightarrow>
       (\<exists>b. rdj (nth_block j (ucast (j_start j)) (length bl)) = Ok b \<and>
          (\<forall>h. try_parse_header b = Some h \<longrightarrow> h_sequence h \<noteq> tx_sequence tx + 1))))"

definition log_geometry :: "journal_superblock \<Rightarrow> bool" where
  "log_geometry j \<longleftrightarrow> j_first j \<noteq> 0 \<and> j_first j < j_max_len j \<and> j_first j \<le> j_start j \<and> j_start j < j_max_len j \<and>
     32 \<le> unat (j_block_size j)"

definition tx_fits :: "journal_superblock \<Rightarrow> transaction \<Rightarrow> bool" where
  "tx_fits j tx \<longleftrightarrow> tx_sequence tx = j_sequence j \<and>
     (\<forall>w \<in> set (tx_writes tx). fits_tag j (jb_fs_block w)) \<and> (\<forall>b \<in> set (tx_revokes tx). fits_tag j b)"

lemma commit_for_layout:
  "commit_for crc tx j = Ok bl \<Longrightarrow> unsupported_incompat j = 0 \<and> checksum_declaration_error j = None \<and>
     tx_block_size tx = j_block_size j \<and> serialize crc tx (layout_of crc j) = Ok bl"
  by (auto simp: commit_for_def split: if_splits option.splits)

lemma walk_log:
  assumes log: "log_holds crc rdj j tx" and geo: "log_geometry j" and fit: "tx_fits j tx"
  obtains p where "journal_walk crc (j_block_size j) (Ok ino) (\<lambda>_. rdj) j = Ok p"
    "rp_writes p = filter (\<lambda>e. re_fs_block e \<notin> set (tx_revokes tx)) (log_entries crc j tx (ucast (j_start j)))"
    "rp_next_sequence p = Some (tx_sequence tx + 1)"
proof -
  let ?sq = "tx_sequence tx" and ?sd = "seed_of crc j" and ?lim = "unat (j_max_len j - j_first j)" and ?l = "layout_of crc j"
  obtain bl where bl: "commit_for crc tx j = Ok bl" "log_at rdj j (ucast (j_start j)) bl" "length bl \<le> ?lim"
    "length bl < ?lim \<longrightarrow> (\<exists>b. rdj (nth_block j (ucast (j_start j)) (length bl)) = Ok b \<and>
          (\<forall>h. try_parse_header b = Some h \<longrightarrow> h_sequence h \<noteq> ?sq + 1))"
    using log unfolding log_holds_def by blast
  note cf = commit_for_layout [OF bl(1)]
  have bs: "32 \<le> unat (tx_block_size tx)" using cf geo by (simp add: log_geometry_def)
  let ?wch = "chunks (tags_per_descriptor tx ?l) (tx_writes tx)" and ?rch = "chunks (revokes_per_block tx ?l) (tx_revokes tx)"
  obtain gs rs c where ser: "collect_blocks (descriptor_group crc tx ?l) ?wch = Ok gs"
    "collect_blocks (\<lambda>ch. map_ok (\<lambda>b. [b]) (build_revoke_block crc tx ch ?l)) ?rch = Ok rs"
    "build_commit_block crc tx ?l = Ok c" "bl = gs @ rs @ [c]"
    using cf unfolding serialize_def by (auto simp: outcome_simps)
  have sub: "0 < n \<Longrightarrow> ch \<in> set (chunks n xs) \<Longrightarrow> set ch \<subseteq> set xs" for n ch and xs :: "'z list"
    using concat_chunks [of n xs] by (metis UN_upper set_concat)
  have tp: "0 < tags_per_descriptor tx ?l" "0 < revokes_per_block tx ?l" by (simp_all add: tags_per_descriptor_def revokes_per_block_def)
  have wok: "\<forall>ch \<in> set ?wch. ch \<noteq> [] \<and> 12 + length ch * tag_bytes j \<le> unat (tx_block_size tx) - (if uses_csum_v2_or_v3 j then 4 else 0) \<and>
       (\<forall>w \<in> set ch. fits_tag j (jb_fs_block w))"
    using chunks_member tags_fit [OF bs] sub [OF tp(1)] fit unfolding tx_fits_def by blast
  have rok: "\<forall>ch \<in> set ?rch. ch \<noteq> [] \<and> 16 + length ch * revoke_record_size (uses_64bit j) \<le> unat (tx_block_size tx) - (if uses_csum_v2_or_v3 j then 4 else 0) \<and>
       (\<forall>b \<in> set ch. fits_tag j b)"
    using chunks_member revokes_fit [OF bs] sub [OF tp(2)] fit unfolding tx_fits_def by blast
  define s0 where "s0 = \<lparr>ws_plan = empty_plan, ws_cur = ucast (j_start j), ws_expect = j_sequence j, ws_writes = [], ws_revokes = [], ws_corrupt = None\<rparr>"
  have s0: "ws_cur s0 = ucast (j_start j)" "ws_expect s0 = ?sq" "rp_blocks_walked (ws_plan s0) = 0" "ws_corrupt s0 = None"
    using fit by (simp_all add: s0_def empty_plan_def tx_fits_def)
  let ?es = "log_entries crc j tx (ucast (j_start j))" and ?rv = "map (\<lambda>b. \<lparr>rv_transaction = ?sq, rv_fs_block = b\<rparr>) (tx_revokes tx)"
  have logs: "log_at rdj j (ws_cur s0) gs" "log_at rdj j (nth_block j (ws_cur s0) (length gs)) rs"
    "rdj (nth_block j (ws_cur s0) (length gs + length rs)) = Ok c"
    using bl(2) ser(4) by (simp_all add: s0(1) log_at_append log_at_Cons nth_block_add)
  have lens: "length gs + length rs + 1 \<le> ?lim" using bl(3) ser(4) by simp
  define s1 where "s1 = moved j (length gs) ?es [] s0"
  define s2 where "s2 = moved j (length rs) [] ?rv s1"
  have s2: "ws_cur s2 = nth_block j (ws_cur s0) (length gs + length rs)" "ws_expect s2 = ?sq" "ws_corrupt s2 = None"
    "rp_blocks_walked (ws_plan s2) = length gs + length rs" "ws_writes s2 = ?es" "ws_revokes s2 = ?rv" "rp_writes (ws_plan s2) = []" "rp_revokes (ws_plan s2) = []"
    using s0 by (simp_all add: s1_def s2_def nth_block_add) (simp_all add: moved_def s0_def empty_plan_def)
  have "walk_loop crc rdj j ?sd ?lim s0 = walk_loop crc rdj j ?sd ?lim s1"
    unfolding s1_def log_entries_def s0(1) [symmetric]
    using lens s0 by (intro walk_groups [OF ser(1) wok logs(1)]) simp_all
  also have "\<dots> = walk_loop crc rdj j ?sd ?lim s2"
    using walk_revokes [OF ser(2) rok, of rdj s1 ?lim] lens s0 logs(2) unfolding concat_chunks [OF tp(2)]
    by (simp add: s1_def s2_def)
  finally have l2: "walk_loop crc rdj j ?sd ?lim s0 = walk_loop crc rdj j ?sd ?lim s2" .
  obtain c' where c': "build_commit_block crc tx ?l = Ok c'" "length c' = unat (tx_block_size tx)"
    "try_parse_header c' = Some \<lparr>h_block_type = JBD2_COMMIT_BLOCK, h_sequence = ?sq\<rparr>"
    "\<And>k. ?sd = Some k \<Longrightarrow> commit_block_checksum crc k c' = Ok (get_be32 16 c')"
    using commit_reads_back [of tx crc j] bs by auto
  then have "c' = c" using ser(3) by simp
  define s3 where "s3 = s2\<lparr>ws_plan := (ws_plan s2)\<lparr>rp_blocks_walked := rp_blocks_walked (ws_plan s2) + 1, rp_writes := rp_writes (ws_plan s2) @ ws_writes s2,
       rp_revokes := rp_revokes (ws_plan s2) @ ws_revokes s2, rp_last_commit := ws_expect s2, rp_next_sequence := Some (ws_expect s2 + 1)\<rparr>,
     ws_writes := [], ws_revokes := [], ws_expect := ws_expect s2 + 1, ws_cur := advance (ws_cur s2) 1 j\<rparr>"
  have "walk_one crc rdj j ?sd ?lim s2 = Ok (Continue s3)" unfolding s3_def
    using c' \<open>c' = c\<close> bs s2 logs(3) by (intro walk_commit [of c]) simp_all
  then have l3: "walk_loop crc rdj j ?sd ?lim s2 = walk_loop crc rdj j ?sd ?lim s3" using lens s2(4) by (intro walk_loop_step) simp_all
  have "\<exists>b. rdj (ws_cur s3) = Ok b \<and> (\<forall>h. try_parse_header b = Some h \<longrightarrow> h_sequence h \<noteq> ws_expect s3)" if "rp_blocks_walked (ws_plan s3) < ?lim"
    using bl(4) that ser(4) s2 s0(1) by (simp add: s3_def advance_nth)
  then obtain n where le: "walk_loop crc rdj j ?sd ?lim s3 = Ok ((ws_plan s3)\<lparr>rp_blocks_walked := n\<rparr>)" by (rule walk_end)
  let ?p = "(ws_plan s3)\<lparr>rp_blocks_walked := n\<rparr>"
  have p: "rp_writes ?p = ?es" "rp_revokes ?p = ?rv" "rp_next_sequence ?p = Some (?sq + 1)" using s2 by (simp_all add: s3_def)
  have "journal_walk crc (j_block_size j) (Ok ino) (\<lambda>_. rdj) j = and_then (walk_loop crc rdj j ?sd ?lim s0) (\<lambda>p. Ok (filter_revoked p))"
    using cf geo unfolding journal_walk_def s0_def seed_of_def log_geometry_def jsb_is_clean_def Let_def by auto
  then have "journal_walk crc (j_block_size j) (Ok ino) (\<lambda>_. rdj) j = Ok (filter_revoked ?p)" using l2 l3 le by simp
  moreover have "re_transaction e = ?sq" if "e \<in> set ?es" for e using that by (rule entries_transaction)
  then have "filter_revoked ?p = ?p\<lparr>rp_writes := filter (\<lambda>e. re_fs_block e \<notin> set (tx_revokes tx)) ?es\<rparr>"
    using filter_revoked_eq [of ?p ?sq] p by (auto simp: in_window_def intro!: arg_cong [where f = "\<lambda>x. rp_writes_update (\<lambda>_. x) _"] filter_cong)
  ultimately show thesis using that p(3) by simp
qed

text \<open>Restoring the magic of an escaped block, as replay does before it writes the block.\<close>

definition unescape :: "u32 \<Rightarrow> bytes \<Rightarrow> bytes result" where
  "unescape flags buf = (if flags AND TAG_ESCAPED \<noteq> 0 then put_checked 0 (u32_to_be JBD2_MAGIC_NUMBER) buf else Ok buf)"

definition replayed :: "journal_reader \<Rightarrow> replay_entry \<Rightarrow> u64 \<times> bytes result" where
  "replayed rdj e = (re_fs_block e, and_then (rdj (re_journal_block e)) (unescape (re_flags e)))"

lemma unescape_logged: "4 \<le> length bs \<Longrightarrow> unescape (write_flags bs fin) (logged_copy bs) = Ok bs"
proof (cases "needs_escape bs")
  case True
  assume len: "4 \<le> length bs"
  have "put 0 (u32_to_be JBD2_MAGIC_NUMBER) (put 0 [0, 0, 0, 0] bs) = take 4 bs @ drop 4 bs"
    using True len by (simp add: put_def needs_escape_def slice_def eval_nat_numeral)
  then show ?thesis using True len by (simp add: unescape_def logged_copy_def put_checked_def)
next
  case False
  then show ?thesis by (simp add: unescape_def logged_copy_def)
qed

lemma chunk_replayed:
  assumes "log_at rdj j (advance cur 1 j) (map (\<lambda>w. logged_copy (jb_bytes w)) ch)" "\<forall>w \<in> set ch. 4 \<le> length (jb_bytes w)"
  shows "map (replayed rdj) (chunk_entries j sq ch cur) = map (\<lambda>w. (jb_fs_block w, Ok (jb_bytes w))) ch"
  using assms
  by (induction ch arbitrary: cur) (auto simp: log_at_Cons replayed_def unescape_logged)

lemma groups_replayed:
  assumes "collect_blocks (descriptor_group crc tx l) chs = Ok bl" "log_at rdj j cur bl" "\<forall>w \<in> set (concat chs). 4 \<le> length (jb_bytes w)"
  shows "map (replayed rdj) (group_entries j sq chs cur) = map (\<lambda>w. (jb_fs_block w, Ok (jb_bytes w))) (concat chs)"
  using assms
proof (induction chs arbitrary: cur bl)
  case (Cons ch chs)
  obtain d rest where rest: "collect_blocks (descriptor_group crc tx l) chs = Ok rest"
    and bl: "bl = (d # map (\<lambda>w. logged_copy (jb_bytes w)) ch) @ rest"
    using Cons.prems(1) unfolding descriptor_group_def
    by (cases "build_descriptor_block crc tx ch l") (auto simp: outcome_simps)
  have "log_at rdj j (advance cur 1 j) (map (\<lambda>w. logged_copy (jb_bytes w)) ch)" "log_at rdj j (nth_block j cur (1 + length ch)) rest"
    using Cons.prems(2) by (simp_all add: bl log_at_append log_at_Cons)
  then show ?case using Cons.IH [OF rest] chunk_replayed [of rdj j cur ch sq] Cons.prems(3) by simp
qed simp

lemma entries_replayed:
  assumes "log_holds crc rdj j tx" "\<forall>w \<in> set (tx_writes tx). 4 \<le> length (jb_bytes w)"
  shows "map (replayed rdj) (log_entries crc j tx (ucast (j_start j))) = map (\<lambda>w. (jb_fs_block w, Ok (jb_bytes w))) (tx_writes tx)"
proof -
  let ?l = "layout_of crc j"
  obtain bl where bl: "commit_for crc tx j = Ok bl" "log_at rdj j (ucast (j_start j)) bl" using assms(1) by (auto simp: log_holds_def)
  obtain gs where gs: "collect_blocks (descriptor_group crc tx ?l) (chunks (tags_per_descriptor tx ?l) (tx_writes tx)) = Ok gs"
    "log_at rdj j (ucast (j_start j)) gs"
    using commit_for_layout [OF bl(1)] bl(2) unfolding serialize_def by (auto simp: outcome_simps log_at_append)
  have cc: "concat (chunks (tags_per_descriptor tx ?l) (tx_writes tx)) = tx_writes tx" by (rule concat_chunks) (simp add: tags_per_descriptor_def)
  show ?thesis using groups_replayed [OF gs] assms(2) unfolding cc log_entries_def by simp
qed

section \<open>Properties\<close>

text \<open>
  C6. The walker is the dual of the transaction writer, for every journal layout (classical and CSUM_V3
  tags, 64-bit or not, with or without checksums) and for writes that spill over any number of descriptors:
  walking a log that holds one serialised transaction, wherever in the ring it starts and wraps, gives a plan
  whose entries, read from the journal and unescaped, are exactly the transaction's writes in their
  order with their original bytes, less the blocks the transaction revokes, and the next sequence is
  the transaction's plus one. Every checksum the journal declares is found right.
\<close>

theorem serialize_walk_roundtrip:
  assumes "log_holds crc rdj j tx" "log_geometry j" "tx_fits j tx" "\<forall>w \<in> set (tx_writes tx). length (jb_bytes w) = unat (j_block_size j)"
  shows "\<exists>p. journal_walk crc (j_block_size j) (Ok ino) (\<lambda>_. rdj) j = Ok p \<and>
    map (replayed rdj) (rp_writes p) = map (\<lambda>w. (jb_fs_block w, Ok (jb_bytes w)))
      (filter (\<lambda>w. jb_fs_block w \<notin> set (tx_revokes tx)) (tx_writes tx)) \<and>
    rp_next_sequence p = Some (tx_sequence tx + 1)"
proof -
  obtain p where p: "journal_walk crc (j_block_size j) (Ok ino) (\<lambda>_. rdj) j = Ok p"
    "rp_writes p = filter (\<lambda>e. re_fs_block e \<notin> set (tx_revokes tx)) (log_entries crc j tx (ucast (j_start j)))"
    "rp_next_sequence p = Some (tx_sequence tx + 1)"
    by (rule walk_log [OF assms(1-3)])
  have "\<forall>w \<in> set (tx_writes tx). 4 \<le> length (jb_bytes w)" using assms(2,4) by (auto simp: log_geometry_def)
  note er = entries_replayed [OF assms(1) this]
  let ?P = "\<lambda>x :: u64 \<times> bytes result. fst x \<notin> set (tx_revokes tx)"
  have "map (replayed rdj) (rp_writes p) = filter ?P (map (replayed rdj) (log_entries crc j tx (ucast (j_start j))))"
    by (simp add: p(2) filter_map o_def replayed_def)
  also have "\<dots> = filter ?P (map (\<lambda>w. (jb_fs_block w, Ok (jb_bytes w))) (tx_writes tx))" by (simp only: er)
  finally show ?thesis using p by (simp add: filter_map o_def)
qed

text \<open>
  Revocation: among transactions within half the sequence space (so that wrapping comparison orders
  them), a write survives the filter exactly when no revoke of its block belongs to the same or a
  later transaction; nothing else of the plan changes.
\<close>

theorem filter_revoked_correct:
  assumes "\<forall>r \<in> set (rp_revokes p). in_window b (rv_transaction r)" "\<forall>w \<in> set (rp_writes p). in_window b (re_transaction w)"
  shows "filter_revoked p = p\<lparr>rp_writes := filter (\<lambda>w. \<forall>r \<in> set (rp_revokes p). rv_fs_block r = re_fs_block w \<longrightarrow>
      unat (rv_transaction r - b) < unat (re_transaction w - b)) (rp_writes p)\<rparr>"
proof -
  have eq: "(\<lambda>w. \<not> (\<exists>r \<in> set (rp_revokes p). rv_fs_block r = re_fs_block w \<and> unat (re_transaction w - b) \<le> unat (rv_transaction r - b))) =
      (\<lambda>w. \<forall>r \<in> set (rp_revokes p). rv_fs_block r = re_fs_block w \<longrightarrow> unat (rv_transaction r - b) < unat (re_transaction w - b))"
    by (intro ext) (auto simp: not_le)
  show ?thesis unfolding filter_revoked_eq [OF assms] eq by (rule refl)
qed

theorem filter_revoked_correct_witness:
  "rp_writes (filter_revoked \<lparr>rp_writes = [\<lparr>re_transaction = 4294967295, re_fs_block = 5, re_journal_block = 2, re_flags = 2\<rparr>,
       \<lparr>re_transaction = 1, re_fs_block = 5, re_journal_block = 6, re_flags = 10\<rparr>],
     rp_revokes = [\<lparr>rv_transaction = 0, rv_fs_block = 5\<rparr>], rp_last_commit = 1, rp_next_sequence = Some 2, rp_blocks_walked = 9\<rparr>) =
   [\<lparr>re_transaction = 1, re_fs_block = 5, re_journal_block = 6, re_flags = 10\<rparr>]"
  by (subst filter_revoked_correct [where b = 4294967295]) (simp_all add: in_window_def)

definition example_jsb :: journal_superblock where
  "example_jsb = \<lparr>j_block_type = 4, j_header_sequence = 7, j_block_size = 32, j_max_len = 8, j_first = 1, j_sequence = 7,
     j_start = 6, j_errno = 0, j_feature_compat = 0, j_feature_incompat = 1, j_feature_ro_compat = 0, j_uuid = replicate 16 0,
     j_nr_users = 1, j_checksum_type = 0, j_num_fc_blocks = 0, j_checksum = 0\<rparr>"

lemma example_declares:
  "uses_64bit example_jsb = False" "uses_csum_v2_or_v3 example_jsb = False" "uses_csum_v3 example_jsb = False" "tag_bytes example_jsb = 8"
  "unsupported_incompat example_jsb = 0" "checksum_declaration_error example_jsb = None"
  by (simp_all add: example_jsb_def uses_64bit_def uses_csum_v2_or_v3_def uses_csum_v3_def tag_bytes_def JBD_BIT64_def JBD_CSUM_V2_def
      JBD_CSUM_V3_def unsupported_incompat_def SUPPORTED_JBD_INCOMPAT_def JBD_REVOKE_def checksum_declaration_error_def Let_def)

lemma example_advance:
  "advance 6 1 example_jsb = 7" "advance 7 1 example_jsb = 1" "advance 1 1 example_jsb = 2" "advance 2 1 example_jsb = 3" "advance 3 1 example_jsb = 4"
  by (simp_all add: advance_def example_jsb_def saturating_sub_def Let_def)

definition example_tx :: transaction where
  "example_tx = \<lparr>tx_sequence = 7, tx_block_size = 32, tx_uses_64bit = False, tx_uses_csum_v3 = False,
     tx_writes = [\<lparr>jb_fs_block = 5, jb_bytes = u32_to_be JBD2_MAGIC_NUMBER @ replicate 28 1\<rparr>, \<lparr>jb_fs_block = 9, jb_bytes = replicate 32 2\<rparr>],
     tx_revokes = [9]\<rparr>"

text \<open>A ring of seven blocks whose log starts at its sixth.\<close>

definition example_reader :: "bytes list \<Rightarrow> journal_reader" where
  "example_reader bl k = (let i = (unat k + 1) mod 7 in Ok (if i < length bl then bl ! i else replicate 32 0))"

lemma example_serializes: "\<exists>bl. commit_for crc example_tx example_jsb = Ok bl \<and> length bl = 5"
proof -
  let ?ws = "tx_writes example_tx" and ?l = "layout_of crc example_jsb"
  have ch: "chunks (tags_per_descriptor example_tx ?l) ?ws = [?ws]" "chunks (revokes_per_block example_tx ?l) (tx_revokes example_tx) = [[9]]"
    by (simp_all add: chunks.simps tags_per_descriptor_def revokes_per_block_def example_tx_def example_declares revoke_record_size_def)
  obtain d where d: "build_descriptor_block crc example_tx ?ws ?l = Ok d"
    by (rule descriptor_reads_back [of ?ws example_jsb example_tx crc]) (auto simp: example_tx_def example_declares fits_tag_def)
  obtain r where r: "build_revoke_block crc example_tx [9] ?l = Ok r"
    by (rule revoke_reads_back [of "[9]" example_jsb example_tx crc]) (auto simp: example_tx_def example_declares fits_tag_def revoke_record_size_def)
  obtain c where c: "build_commit_block crc example_tx ?l = Ok c"
    by (rule commit_reads_back [of example_tx crc example_jsb]) (auto simp: example_tx_def)
  have "serialize crc example_tx ?l = Ok ((d # map (\<lambda>w. logged_copy (jb_bytes w)) ?ws) @ [r] @ [c])"
    using d r c by (simp add: serialize_def ch descriptor_group_def)
  then show ?thesis by (simp add: commit_for_def example_declares) (simp add: example_tx_def example_jsb_def)
qed

lemma zero_block: "try_parse_header (replicate 32 0) = None"
proof -
  have "le_val (replicate n 0) = 0" for n by (induction n) auto
  then have "get_be32 0 (replicate 32 0) = 0" by (simp add: get_field_defs slice_def u32_from_be_def u32_from_le_def)
  then show ?thesis by (simp add: try_parse_header_def JBD2_MAGIC_NUMBER_def)
qed

theorem serialize_walk_roundtrip_witness:
  "\<exists>bl p. commit_for (\<lambda>s d. s) example_tx example_jsb = Ok bl \<and>
     journal_walk (\<lambda>s d. s) 32 (Ok ()) (\<lambda>_. example_reader bl) example_jsb = Ok p \<and>
     map (replayed (example_reader bl)) (rp_writes p) = [(5, Ok (u32_to_be JBD2_MAGIC_NUMBER @ replicate 28 1))]"
proof -
  obtain bl where bl: "commit_for (\<lambda>s d. s) example_tx example_jsb = Ok bl" "length bl = 5" using example_serializes by blast
  have pos: "nth_block example_jsb 6 1 = 7" "nth_block example_jsb 6 2 = 1" "nth_block example_jsb 6 3 = 2" "nth_block example_jsb 6 4 = 3"
    "nth_block example_jsb 6 5 = 4"
    using example_advance by (simp_all add: numeral_eq_Suc)
  have lim: "unat (j_max_len example_jsb - j_first example_jsb) = 7" by (simp add: example_jsb_def)
  have st: "(ucast (j_start example_jsb) :: u64) = 6" by (simp add: example_jsb_def)
  have "log_at (example_reader bl) example_jsb 6 bl"
    unfolding log_at_def bl(2)
  proof (intro allI impI)
    fix k :: nat assume "k < 5"
    then have "k = 0 \<or> k = 1 \<or> k = 2 \<or> k = 3 \<or> k = 4" by arith
    then show "example_reader bl (nth_block example_jsb 6 k) = Ok (bl ! k)"
      using pos example_advance(1) arg_cong [OF numeral_2_eq_2, of "\<lambda>i. bl ! i"] by (auto simp: example_reader_def Let_def bl(2))
  qed
  then have "log_holds (\<lambda>s d. s) (example_reader bl) example_jsb example_tx"
    unfolding log_holds_def st lim using bl pos(5) zero_block by (intro exI [of _ bl]) (simp add: example_reader_def)
  moreover have "log_geometry example_jsb" "tx_fits example_jsb example_tx"
    "\<forall>w \<in> set (tx_writes example_tx). length (jb_bytes w) = unat (j_block_size example_jsb)"
    by (simp_all add: log_geometry_def tx_fits_def fits_tag_def example_jsb_def example_tx_def)
  ultimately obtain p where "journal_walk (\<lambda>s d. s) (j_block_size example_jsb) (Ok ()) (\<lambda>_. example_reader bl) example_jsb = Ok p"
    "map (replayed (example_reader bl)) (rp_writes p) = map (\<lambda>w. (jb_fs_block w, Ok (jb_bytes w)))
      (filter (\<lambda>w. jb_fs_block w \<notin> set (tx_revokes example_tx)) (tx_writes example_tx))"
    using serialize_walk_roundtrip [of "\<lambda>s d. s" "example_reader bl" example_jsb example_tx "()"] by blast
  moreover have "j_block_size example_jsb = 32" by (simp add: example_jsb_def)
  ultimately show ?thesis using bl(1) by (simp add: example_tx_def)
qed

end
