(* ===== verification/Superblock.thy ===== *)
theory Superblock
  imports Checksum
begin

unbundle bit_operations_syntax

text \<open>
  The superblock and the group descriptors (\<open>src/superblock.rs\<close>, \<open>src/bgd.rs\<close>, \<open>src/features.rs\<close>):
  parsing with its geometry checks, where descriptors and inodes live, and which blocks at the
  head of a group are metadata. The device is a parameter \<open>rd\<close> with its size \<open>dev_size\<close>.
  Names are kept as the bytes before the first NUL; the lossy UTF-8 decoding is not modelled.
\<close>

section \<open>Feature bits\<close>

definition Compat_HAS_JOURNAL :: u32 where "Compat_HAS_JOURNAL = 0x0004"
definition Compat_SPARSE_SUPER2 :: u32 where "Compat_SPARSE_SUPER2 = 0x0200"
definition Incompat_FILETYPE :: u32 where "Incompat_FILETYPE = 0x00002"
definition Incompat_RECOVER :: u32 where "Incompat_RECOVER = 0x00004"
definition Incompat_META_BG :: u32 where "Incompat_META_BG = 0x00010"
definition Incompat_EXTENTS :: u32 where "Incompat_EXTENTS = 0x00040"
definition Incompat_BIT64 :: u32 where "Incompat_BIT64 = 0x00080"
definition Incompat_MMP :: u32 where "Incompat_MMP = 0x00100"
definition Incompat_FLEX_BG :: u32 where "Incompat_FLEX_BG = 0x00200"
definition Incompat_EA_INODE :: u32 where "Incompat_EA_INODE = 0x00400"
definition Incompat_CSUM_SEED :: u32 where "Incompat_CSUM_SEED = 0x02000"
definition Incompat_LARGEDIR :: u32 where "Incompat_LARGEDIR = 0x04000"
definition Incompat_INLINE_DATA :: u32 where "Incompat_INLINE_DATA = 0x08000"
definition Incompat_ENCRYPT :: u32 where "Incompat_ENCRYPT = 0x10000"
definition Incompat_CASEFOLD :: u32 where "Incompat_CASEFOLD = 0x20000"
definition RoCompat_SPARSE_SUPER :: u32 where "RoCompat_SPARSE_SUPER = 0x0001"
definition RoCompat_LARGE_FILE :: u32 where "RoCompat_LARGE_FILE = 0x0002"
definition RoCompat_HUGE_FILE :: u32 where "RoCompat_HUGE_FILE = 0x0008"
definition RoCompat_GDT_CSUM :: u32 where "RoCompat_GDT_CSUM = 0x0010"
definition RoCompat_DIR_NLINK :: u32 where "RoCompat_DIR_NLINK = 0x0020"
definition RoCompat_EXTRA_ISIZE :: u32 where "RoCompat_EXTRA_ISIZE = 0x0040"
definition RoCompat_BIGALLOC :: u32 where "RoCompat_BIGALLOC = 0x0200"
definition RoCompat_METADATA_CSUM :: u32 where "RoCompat_METADATA_CSUM = 0x0400"

definition has_bits :: "u32 \<Rightarrow> u32 \<Rightarrow> bool" where
  "has_bits field bits \<longleftrightarrow> field AND bits \<noteq> 0"

definition SUPPORTED_INCOMPAT :: u32 where
  "SUPPORTED_INCOMPAT = Incompat_FILETYPE OR Incompat_EXTENTS OR Incompat_BIT64 OR Incompat_FLEX_BG OR
     Incompat_CSUM_SEED OR Incompat_META_BG OR Incompat_ENCRYPT OR Incompat_RECOVER OR Incompat_MMP OR
     Incompat_INLINE_DATA OR Incompat_LARGEDIR OR Incompat_EA_INODE OR Incompat_CASEFOLD"

definition WRITE_BREAKING_INCOMPAT :: u32 where
  "WRITE_BREAKING_INCOMPAT = Incompat_MMP OR Incompat_CASEFOLD OR Incompat_ENCRYPT"

definition MAINTAINED_RO_COMPAT :: u32 where
  "MAINTAINED_RO_COMPAT = RoCompat_SPARSE_SUPER OR RoCompat_LARGE_FILE OR RoCompat_HUGE_FILE OR
     RoCompat_DIR_NLINK OR RoCompat_EXTRA_ISIZE OR RoCompat_GDT_CSUM OR RoCompat_METADATA_CSUM"

definition READ_BREAKING_RO_COMPAT :: u32 where "READ_BREAKING_RO_COMPAT = 0"

definition write_breaking_incompat :: "u32 \<Rightarrow> u32" where
  "write_breaking_incompat feature_incompat = feature_incompat AND WRITE_BREAKING_INCOMPAT"

definition unmaintained_ro_compat :: "u32 \<Rightarrow> u32" where
  "unmaintained_ro_compat feature_ro_compat = feature_ro_compat AND NOT MAINTAINED_RO_COMPAT"

definition check_mountable :: "u32 \<Rightarrow> u32 \<Rightarrow> unit result" where
  "check_mountable feature_incompat feature_ro_compat =
     (let unsupported_incompat = feature_incompat AND NOT SUPPORTED_INCOMPAT;
          breaking = feature_ro_compat AND READ_BREAKING_RO_COMPAT in
      if unsupported_incompat \<noteq> 0 then Err (UnsupportedIncompat unsupported_incompat)
      else if breaking \<noteq> 0 then Err (UnsupportedRoCompat breaking)
      else Ok ())"

datatype fs_flavor = Ext2 | Ext3 | Ext4

definition FsFlavor_detect :: "u32 \<Rightarrow> u32 \<Rightarrow> fs_flavor" where
  "FsFlavor_detect feature_compat feature_incompat =
     (if has_bits feature_incompat Incompat_EXTENTS then Ext4
      else if has_bits feature_compat Compat_HAS_JOURNAL then Ext3 else Ext2)"

section \<open>The superblock\<close>

definition SUPERBLOCK_OFFSET :: u64 where "SUPERBLOCK_OFFSET = 1024"
definition SUPERBLOCK_SIZE :: nat where [simp]: "SUPERBLOCK_SIZE = 1024"
definition EXT4_MAGIC :: u16 where "EXT4_MAGIC = 0xEF53"
definition EXT4_VALID_FS :: u16 where "EXT4_VALID_FS = 1"
definition MAX_LOG_BLOCK_SIZE :: u32 where "MAX_LOG_BLOCK_SIZE = 6"
definition MAX_LOG_CLUSTER_SIZE :: u32 where "MAX_LOG_CLUSTER_SIZE = 20"
definition GOOD_OLD_FIRST_INODE :: u32 where "GOOD_OLD_FIRST_INODE = 11"

record superblock =
  inodes_count :: u32
  blocks_count :: u64
  sb_free_blocks_count :: u64
  sb_free_inodes_count :: u32
  r_blocks_count :: u64
  first_data_block :: u32
  log_block_size :: u32
  blocks_per_group :: u32
  inodes_per_group :: u32
  sb_magic :: u16
  sb_state :: u16
  errors_behavior :: u16
  minor_rev_level :: u16
  rev_level :: u32
  inode_size :: u16
  first_inode :: u32
  feature_compat :: u32
  feature_incompat :: u32
  feature_ro_compat :: u32
  uuid :: bytes
  volume_name :: bytes
  last_mounted :: bytes
  desc_size :: u16
  reserved_gdt_blocks :: u16
  backup_bgs :: "u32 list"
  hash_seed :: "u32 list"
  default_hash_version :: u8
  checksum_seed :: u32
  journal_inode :: u32
  last_orphan :: u32
  sb_mtime :: u32
  sb_wtime :: u32
  mnt_count :: u16
  max_mnt_count :: u16
  lastcheck :: u32
  checkinterval :: u32
  creator_os :: u32
  def_resuid :: u16
  def_resgid :: u16
  sb_raw :: bytes

text \<open>\<open>check_group_fits_bitmap\<close>: one bitmap block has enough bits for a group.\<close>

definition check_group_fits_bitmap :: "bytes \<Rightarrow> u32 \<Rightarrow> u32 \<Rightarrow> bool \<Rightarrow> unit result" where
  "check_group_fits_bitmap raw lbs bpg bigalloc =
     (let bitmap_bits = (push_bit (10 + unat lbs) 8 :: u64) in
      if \<not> bigalloc
      then if (ucast bpg :: u64) > bitmap_bits
        then Err (Corrupt ''superblock: blocks_per_group exceeds the bits in one bitmap block'')
        else Ok ()
      else let log_cluster_size = get_le32 0x1C raw in
        if log_cluster_size < lbs \<or> log_cluster_size > MAX_LOG_CLUSTER_SIZE
        then Err (Corrupt ''superblock: bigalloc cluster is smaller than a block or larger than ext4 allows'')
        else let clusters_per_group = get_le32 0x24 raw in
          if clusters_per_group = 0 \<or> (ucast clusters_per_group :: u64) > bitmap_bits
          then Err (Corrupt ''superblock: clusters_per_group is zero or exceeds the bits in one bitmap block'')
          else if push_bit (unat (log_cluster_size - lbs)) (ucast clusters_per_group :: u64) \<noteq> ucast bpg
          then Err (Corrupt ''superblock: blocks_per_group is not clusters_per_group clusters'')
          else Ok ())"

definition until_nul :: "bytes \<Rightarrow> bytes" where
  "until_nul bs = takeWhile (\<lambda>b. b \<noteq> 0) bs"

definition join32 :: "u32 \<Rightarrow> u32 \<Rightarrow> u64" where
  "join32 hi lo = push_bit 32 (ucast hi) OR ucast lo"

definition is_power_of_two :: "u16 \<Rightarrow> bool" where
  "is_power_of_two w \<longleftrightarrow> w \<in> set (map (\<lambda>i. push_bit i 1) [0 ..< 16])"

text \<open>The field reads of \<open>Superblock::parse\<close>.\<close>

definition superblock_fields :: "bytes \<Rightarrow> superblock" where
  "superblock_fields raw =
     (let rl = get_le32 0x4C raw; ds = get_le16 0xFE raw in
      \<lparr>inodes_count = get_le32 0x00 raw,
       blocks_count = join32 (get_le32 0x150 raw) (get_le32 0x04 raw),
       sb_free_blocks_count = join32 (get_le32 0x158 raw) (get_le32 0x0C raw),
       sb_free_inodes_count = get_le32 0x10 raw,
       r_blocks_count = join32 (get_le32 0x154 raw) (get_le32 0x08 raw),
       first_data_block = get_le32 0x14 raw,
       log_block_size = get_le32 0x18 raw,
       blocks_per_group = get_le32 0x20 raw,
       inodes_per_group = get_le32 0x28 raw,
       sb_magic = get_le16 0x38 raw,
       sb_state = get_le16 0x3A raw,
       errors_behavior = get_le16 0x3C raw,
       minor_rev_level = get_le16 0x3E raw,
       rev_level = rl,
       inode_size = (if rl \<ge> 1 then get_le16 0x58 raw else 128),
       first_inode = (if rl \<ge> 1 then max (get_le32 0x54 raw) GOOD_OLD_FIRST_INODE else GOOD_OLD_FIRST_INODE),
       feature_compat = (if rl \<ge> 1 then get_le32 0x5C raw else 0),
       feature_incompat = (if rl \<ge> 1 then get_le32 0x60 raw else 0),
       feature_ro_compat = (if rl \<ge> 1 then get_le32 0x64 raw else 0),
       uuid = slice 0x68 0x78 raw,
       volume_name = until_nul (slice 0x78 0x88 raw),
       last_mounted = until_nul (slice 0x88 0xC8 raw),
       desc_size = (if ds = 0 then 32 else ds),
       reserved_gdt_blocks = (if rl \<ge> 1 then get_le16 0xCE raw else 0),
       backup_bgs = (if rl \<ge> 1 \<and> length raw \<ge> 0x254 then [get_le32 0x24C raw, get_le32 0x250 raw] else [0, 0]),
       hash_seed = map (\<lambda>i. get_le32 (0xEC + i * 4) raw) [0 ..< 4],
       default_hash_version = raw ! 0xFC,
       checksum_seed = get_le32 0x270 raw,
       journal_inode = get_le32 0xE0 raw,
       last_orphan = get_le32 0xE8 raw,
       sb_mtime = get_le32 0x2C raw,
       sb_wtime = get_le32 0x30 raw,
       mnt_count = get_le16 0x34 raw,
       max_mnt_count = get_le16 0x36 raw,
       lastcheck = get_le32 0x40 raw,
       checkinterval = get_le32 0x44 raw,
       creator_os = get_le32 0x48 raw,
       def_resuid = get_le16 0x50 raw,
       def_resgid = get_le16 0x52 raw,
       sb_raw = raw\<rparr>)"

text \<open>Its checks, in the order of the code; \<open>desc_size\<close> is fixed on the way.\<close>

definition Superblock_parse :: "bytes \<Rightarrow> superblock result" where
  "Superblock_parse raw =
     (if length raw < SUPERBLOCK_SIZE then Err (Corrupt ''superblock buffer too small'')
      else let sb = superblock_fields raw; bigalloc = has_bits (feature_ro_compat sb) RoCompat_BIGALLOC in
        if sb_magic sb \<noteq> EXT4_MAGIC then Err (BadMagic (sb_magic sb) EXT4_MAGIC)
        else if blocks_per_group sb = 0 then Err (Corrupt ''superblock: blocks_per_group == 0'')
        else if inodes_per_group sb = 0 then Err (Corrupt ''superblock: inodes_per_group == 0'')
        else if inode_size sb = 0 then Err (Corrupt ''superblock: inode_size == 0'')
        else if log_block_size sb > MAX_LOG_BLOCK_SIZE
        then Err (Corrupt ''superblock: log_block_size exceeds the largest ext4 block'')
        else and_then (check_group_fits_bitmap raw (log_block_size sb) (blocks_per_group sb) bigalloc) (\<lambda>_.
          let sixty_four_bit = has_bits (feature_incompat sb) Incompat_BIT64; ds = desc_size sb in
          if sixty_four_bit \<and> (\<not> (64 \<le> ds \<and> ds \<le> 1024) \<or> \<not> is_power_of_two ds)
          then Err (Corrupt ''superblock: desc_size is not a group descriptor size'')
          else let sb = sb\<lparr>desc_size := (if sixty_four_bit then ds else 32)\<rparr> in
            if blocks_count sb = 0 then Err (Corrupt ''superblock: blocks_count == 0'')
            else if (ucast (first_data_block sb) :: u64) \<ge> blocks_count sb
            then Err (Corrupt ''superblock: first_data_block is at or past the end of the filesystem'')
            else if first_data_block sb = 0 \<and> log_block_size sb = 0 \<and> \<not> bigalloc
            then Err (Corrupt ''superblock: a 1 KiB-block filesystem's first data block is 0, not 1'')
            else Ok sb))"

definition block_size :: "superblock \<Rightarrow> u32" where
  "block_size sb = push_bit (unat (log_block_size sb)) 1024"

definition is_clean :: "superblock \<Rightarrow> bool" where
  "is_clean sb \<longleftrightarrow> sb_state sb AND EXT4_VALID_FS \<noteq> 0"

definition group_count :: "u64 \<Rightarrow> u32 \<Rightarrow> u32 \<Rightarrow> u64" where
  "group_count bc fdb bpg = div_ceil (saturating_sub bc (ucast fdb)) (max (ucast bpg) 1)"

definition block_group_count :: "superblock \<Rightarrow> u64" where
  "block_group_count sb = group_count (blocks_count sb) (first_data_block sb) (blocks_per_group sb)"

definition filesystem_bytes :: "superblock \<Rightarrow> u64 option" where
  "filesystem_bytes sb = checked_mul (blocks_count sb) (ucast (block_size sb))"

definition check_fits_device :: "superblock \<Rightarrow> u64 \<Rightarrow> unit result" where
  "check_fits_device sb device_bytes = (case filesystem_bytes sb of
     Some b \<Rightarrow> if b \<le> device_bytes then Ok ()
       else Err (Corrupt ''superblock: blocks_count makes the filesystem larger than the device'')
   | None \<Rightarrow> Err (Corrupt ''superblock: blocks_count makes the filesystem larger than the device''))"

section \<open>Which groups carry copies\<close>

text \<open>The loop of \<open>is_power_of\<close>; the caller never passes zero, on which it would not end.\<close>

function strip_factor :: "nat \<Rightarrow> nat \<Rightarrow> nat" where
  "strip_factor base g = (if g = 0 \<or> base \<le> 1 \<or> g mod base \<noteq> 0 then g else strip_factor base (g div base))"
  by pat_completeness auto
termination
  by (relation "measure snd") auto

declare strip_factor.simps [simp del]

definition classic_sparse_super :: "u64 \<Rightarrow> bool" where
  "classic_sparse_super g \<longleftrightarrow> g \<le> 1 \<or> strip_factor 3 (unat g) = 1 \<or> strip_factor 5 (unat g) = 1 \<or>
     strip_factor 7 (unat g) = 1"

definition group_has_super :: "superblock \<Rightarrow> u64 \<Rightarrow> bool" where
  "group_has_super sb g =
     (if g = 0 then True
      else if has_bits (feature_compat sb) Compat_SPARSE_SUPER2
      then list_ex (\<lambda>b. ucast b = g) (backup_bgs sb)
      else if \<not> has_bits (feature_ro_compat sb) RoCompat_SPARSE_SUPER then True
      else classic_sparse_super g)"

definition descs_per_block :: "superblock \<Rightarrow> u64" where
  "descs_per_block sb = ucast (block_size sb) div ucast (max (desc_size sb) 1)"

definition first_meta_bg :: "superblock \<Rightarrow> u64" where
  "first_meta_bg sb =
     (if \<not> has_bits (feature_incompat sb) Incompat_META_BG then 0
      else if 0x108 \<le> length (sb_raw sb) then ucast (get_le32 0x104 (sb_raw sb)) else 0)"

definition primary_superblock_block :: "superblock \<Rightarrow> u64" where
  "primary_superblock_block sb = SUPERBLOCK_OFFSET div ucast (block_size sb)"

definition first_block_of_group :: "superblock \<Rightarrow> u64 \<Rightarrow> u64" where
  "first_block_of_group sb grp = ucast (first_data_block sb) + grp * ucast (blocks_per_group sb)"

definition meta_group_holding :: "superblock \<Rightarrow> u64 \<Rightarrow> u64 option" where
  "meta_group_holding sb grp =
     (if \<not> has_bits (feature_incompat sb) Incompat_META_BG then None
      else let meta_group = grp div descs_per_block sb
           in if meta_group \<ge> first_meta_bg sb then Some meta_group else None)"

definition shared_descriptor_run :: "superblock \<Rightarrow> u64" where
  "shared_descriptor_run sb =
     (if has_bits (feature_incompat sb) Incompat_META_BG then first_meta_bg sb
      else div_ceil (block_group_count sb) (descs_per_block sb))"

definition of_bool64 :: "bool \<Rightarrow> u64" where "of_bool64 b = (if b then 1 else 0)"

definition descriptor_location :: "superblock \<Rightarrow> u64 \<Rightarrow> u64 \<times> nat" where
  "descriptor_location sb grp =
     (let per_block = descs_per_block sb;
          off = unat ((grp mod per_block) * ucast (desc_size sb));
          block = (case meta_group_holding sb grp of
              None \<Rightarrow> primary_superblock_block sb + 1 + grp div per_block
            | Some meta_group \<Rightarrow>
                let head_group = meta_group * per_block in
                if head_group = 0 then primary_superblock_block sb + 1
                else first_block_of_group sb head_group + of_bool64 (group_has_super sb head_group))
      in (block, off))"

definition group_head_metadata_blocks :: "superblock \<Rightarrow> u64 \<Rightarrow> u64" where
  "group_head_metadata_blocks sb grp =
     (let sblock = of_bool64 (group_has_super sb grp) in
      case meta_group_holding sb grp of
        Some meta_group \<Rightarrow>
          (let per_block = descs_per_block sb; place = grp - meta_group * per_block
           in sblock + of_bool64 (place = 0 \<or> place = 1 \<or> place = per_block - 1))
      | None \<Rightarrow>
          if sblock = 1 then 1 + shared_descriptor_run sb + ucast (reserved_gdt_blocks sb) else 0)"

section \<open>What a parsed superblock guarantees\<close>

text \<open>Sizes as numbers; every bound below is stated on them.\<close>

abbreviation bs_nat :: "superblock \<Rightarrow> nat" where "bs_nat sb \<equiv> unat (block_size sb)"
abbreviation bpg_nat :: "superblock \<Rightarrow> nat" where "bpg_nat sb \<equiv> unat (blocks_per_group sb)"
abbreviation fdb_nat :: "superblock \<Rightarrow> nat" where "fdb_nat sb \<equiv> unat (first_data_block sb)"

definition bigalloc :: "superblock \<Rightarrow> bool" where
  "bigalloc sb \<longleftrightarrow> has_bits (feature_ro_compat sb) RoCompat_BIGALLOC"

definition geometry_ok :: "superblock \<Rightarrow> bool" where
  "geometry_ok sb \<longleftrightarrow>
     0 < bpg_nat sb \<and> bpg_nat sb < 2 ^ 32 - 64 \<and> 0 < unat (inodes_per_group sb) \<and> 0 < unat (inode_size sb) \<and>
     unat (log_block_size sb) \<le> 6 \<and> 11 \<le> unat (first_inode sb) \<and>
     fdb_nat sb < unat (blocks_count sb) \<and>
     unat (desc_size sb) \<in> {32, 64, 128, 256, 512, 1024} \<and>
     (\<not> bigalloc sb \<longrightarrow> bpg_nat sb \<le> 8 * bs_nat sb \<and> (bs_nat sb = 1024 \<longrightarrow> 1 \<le> fdb_nat sb))"

lemma block_size_nat:
  assumes "unat (log_block_size sb) \<le> 6"
  shows "bs_nat sb = 1024 * 2 ^ unat (log_block_size sb)"
proof -
  have "unat (log_block_size sb) \<in> {0, 1, 2, 3, 4, 5, 6}" using assms by auto
  then show ?thesis by (auto simp: block_size_def)
qed

lemma block_size_bounds:
  assumes "unat (log_block_size sb) \<le> 6"
  shows "1024 \<le> bs_nat sb \<and> bs_nat sb \<le> 65536 \<and> 1024 dvd bs_nat sb"
proof -
  have "(2::nat) ^ unat (log_block_size sb) \<le> 2 ^ 6" using assms by (intro power_increasing) auto
  then show ?thesis by (simp add: block_size_nat [OF assms])
qed

lemma is_power_of_two_bounded:
  "is_power_of_two w \<Longrightarrow> 64 \<le> w \<Longrightarrow> w \<le> 1024 \<Longrightarrow> unat w \<in> {64, 128, 256, 512, 1024}"
  by (auto simp: is_power_of_two_def upt_rec word_le_nat_alt)

lemma max_first_inode: "11 \<le> unat (max a GOOD_OLD_FIRST_INODE)"
  by (simp add: GOOD_OLD_FIRST_INODE_def max_def word_le_nat_alt)

lemma superblock_fields_first_inode: "11 \<le> unat (first_inode (superblock_fields raw))"
  using max_first_inode by (simp add: superblock_fields_def Let_def GOOD_OLD_FIRST_INODE_def)

lemma bitmap_bits:
  "unat lbs \<le> 6 \<Longrightarrow> unat (push_bit (10 + unat lbs) 8 :: u64) = 8 * (1024 * 2 ^ unat lbs)"
proof -
  assume "unat lbs \<le> 6"
  then have "unat lbs \<in> {0, 1, 2, 3, 4, 5, 6}" by auto
  then show ?thesis by auto
qed

lemma group_fits_bitmap:
  assumes "check_group_fits_bitmap raw lbs bpg False = Ok ()" "unat lbs \<le> 6"
  shows "unat bpg \<le> 8 * (1024 * 2 ^ unat lbs)"
  using assms bitmap_bits [OF assms(2)]
  by (auto simp: check_group_fits_bitmap_def Let_def word_less_nat_alt split: if_splits)

text \<open>With clusters a group is a number of them that one bitmap block covers, each a power of two of blocks: far fewer than \<open>u32\<close> counts, or a multiple of 128.\<close>

lemma group_below_wrap:
  assumes "check_group_fits_bitmap raw lbs bpg big = Ok ()" "unat lbs \<le> 6"
  shows "unat bpg < 2 ^ 32 - 64"
proof (cases big)
  case False
  have "(2 :: nat) ^ unat lbs \<le> 2 ^ 6" using assms(2) by (intro power_increasing) auto
  then show ?thesis using group_fits_bitmap [of raw lbs bpg] assms False by simp
next
  case True
  define s where "s = unat (get_le32 0x1C raw - lbs)"
  define c where "c = unat (get_le32 0x24 raw)"
  have lbs: "(2 :: nat) ^ unat lbs \<le> 2 ^ 6" using assms(2) by (intro power_increasing) auto
  have g: "\<not> get_le32 0x1C raw < lbs" "\<not> 20 < get_le32 0x1C raw" "\<not> (push_bit (10 + unat lbs) 8 :: u64) < ucast (get_le32 0x24 raw)"
    "push_bit s (ucast (get_le32 0x24 raw) :: u64) = ucast bpg"
    using assms(1) True by (auto simp: check_group_fits_bitmap_def Let_def MAX_LOG_CLUSTER_SIZE_def s_def split: if_splits)
  have c: "c \<le> 8 * (1024 * 2 ^ unat lbs)" using g(3) bitmap_bits [OF assms(2)] by (simp add: word_less_nat_alt c_def)
  have "s \<le> 20" using g(1,2) by (simp add: s_def word_less_nat_alt unat_sub not_less word_le_nat_alt)
  then have p: "(2 :: nat) ^ s \<le> 2 ^ 20" by (intro power_increasing) auto
  have "c * 2 ^ s \<le> (8 * (1024 * 2 ^ 6)) * 2 ^ 20" using c lbs p by (intro mult_le_mono) linarith+
  then have "unat (push_bit s (ucast (get_le32 0x24 raw) :: u64)) = c * 2 ^ s"
    by (simp add: c_def unsigned_push_bit_eq push_bit_nat_def take_bit_nat_eq_self)
  then have bpg: "unat bpg = c * 2 ^ s" using g(4) by simp
  show ?thesis
  proof (cases "s \<le> 7")
    case True
    then have "(2 :: nat) ^ s \<le> 2 ^ 7" by (intro power_increasing) auto
    then have "c * 2 ^ s \<le> (8 * (1024 * 2 ^ 6)) * 2 ^ 7" using c lbs by (intro mult_le_mono) linarith+
    then show ?thesis using bpg by simp
  next
    case False
    then have "(128 :: nat) dvd 2 ^ s" using le_imp_power_dvd [of 7 s "2 :: nat"] by simp
    then obtain k where "unat bpg = 128 * k" using bpg by (metis dvd_mult dvdE)
    then show ?thesis using unat_lt2p [of bpg] by simp
  qed
qed

text \<open>
  A superblock that parses has the geometry the rest of the driver divides by: no zero group
  or inode size, a block of 1 to 64 KiB, a descriptor size that is a power of two from 32 to 1024
  (32 exactly without the 64BIT feature), a first data block inside the filesystem, no reserved
  inode below 11 for the allocator, groups that a \<open>u32\<close> scan in steps of 64 passes without wrapping and,
  unless the volume has clusters, groups that one bitmap block covers. Apart from the descriptor size, the fields are those read from the buffer.
\<close>

theorem superblock_parse_geometry:
  assumes "Superblock_parse raw = Ok sb"
  shows "geometry_ok sb \<and> 1024 \<le> bs_nat sb \<and> bs_nat sb \<le> 65536 \<and> sb_magic sb = EXT4_MAGIC \<and>
    sb = (superblock_fields raw)\<lparr>desc_size := desc_size sb\<rparr> \<and>
    (\<not> has_bits (feature_incompat sb) Incompat_BIT64 \<longrightarrow> desc_size sb = 32)"
proof -
  let ?f = "superblock_fields raw"
  let ?big = "has_bits (feature_ro_compat ?f) RoCompat_BIGALLOC"
  have fits: "check_group_fits_bitmap raw (log_block_size ?f) (blocks_per_group ?f) ?big = Ok ()"
    and log: "unat (log_block_size ?f) \<le> 6"
    and nz: "0 < unat (blocks_per_group ?f)" "0 < unat (inodes_per_group ?f)" "0 < unat (inode_size ?f)"
    and fdb: "unat (first_data_block ?f) < unat (blocks_count ?f)"
    and one: "\<not> ?big \<Longrightarrow> log_block_size ?f = 0 \<Longrightarrow> 1 \<le> unat (first_data_block ?f)"
    and magic: "sb_magic ?f = EXT4_MAGIC"
    and ds: "unat (desc_size sb) \<in> {32, 64, 128, 256, 512, 1024}"
      "\<not> has_bits (feature_incompat ?f) Incompat_BIT64 \<Longrightarrow> desc_size sb = 32"
    and sb: "sb = ?f\<lparr>desc_size := desc_size sb\<rparr>"
    using assms is_power_of_two_bounded [of "desc_size ?f"]
    by (auto simp: Superblock_parse_def Let_def outcome_simps word_le_nat_alt word_less_nat_alt
        MAX_LOG_BLOCK_SIZE_def unat_gt_0 unat_eq_zero Suc_le_eq not_le not_less split: if_splits)
  obtain d where sb: "sb = ?f\<lparr>desc_size := d\<rparr>" using sb by blast
  note b = block_size_nat [OF log] block_size_bounds [OF log]
  have small: "unat (log_block_size ?f) = 0 \<longleftrightarrow> unat (block_size ?f) = 1024"
    using b(1) by (cases "unat (log_block_size ?f)") auto
  have bits: "\<not> ?big \<Longrightarrow> unat (blocks_per_group ?f) \<le> 8 * unat (block_size ?f)"
    using group_fits_bitmap [of raw, OF _ log] fits b(1) by auto
  have same: "block_size sb = block_size ?f" by (simp add: block_size_def sb)
  have "geometry_ok sb"
    using log nz fdb one ds(1) small bits group_below_wrap [OF fits log] superblock_fields_first_inode [of raw]
    unfolding geometry_ok_def same bigalloc_def by (auto simp: sb unat_eq_zero)
  then show ?thesis using b(2) magic ds(2) unfolding same by (auto simp: sb)
qed

text \<open>The parser reads the inode size and refuses only zero.\<close>

lemma superblock_fields_inode_size:
  assumes "1024 \<le> length raw" "1 \<le> get_le32 0x4C raw"
  shows "superblock_fields (put 0x58 (u16_to_le v) raw) = (superblock_fields raw)\<lparr>inode_size := v, sb_raw := put 0x58 (u16_to_le v) raw\<rparr>"
proof -
  have w: "get_le32 k (put 0x58 (u16_to_le v) raw) = get_le32 k raw" if "k + 4 \<le> 0x58 \<or> 0x5A \<le> k" "k + 4 \<le> 1024" for k
    using that assms(1) by (auto simp: codec_simps)
  have h: "get_le16 k (put 0x58 (u16_to_le v) raw) = get_le16 k raw" if "k + 2 \<le> 0x58 \<or> 0x5A \<le> k" "k + 2 \<le> 1024" for k
    using that assms(1) by (auto simp: codec_simps)
  have sl: "slice a b (put 0x58 (u16_to_le v) raw) = slice a b raw" if "0x5A \<le> a" for a b using that assms(1) by (simp add: slice_put_after)
  have "put 0x58 (u16_to_le v) raw ! 0xFC = raw ! 0xFC" using assms(1) by (simp add: nth_put)
  moreover have "get_le16 0x58 (put 0x58 (u16_to_le v) raw) = v" using assms(1) by (simp add: codec_simps)
  ultimately show ?thesis using assms by (simp add: superblock_fields_def Let_def w h sl)
qed

lemma parse_any_inode_size:
  assumes "Superblock_parse raw = Ok sb" "1 \<le> rev_level sb" "v \<noteq> 0"
  shows "Superblock_parse (put 0x58 (u16_to_le v) raw) = Ok (sb\<lparr>inode_size := v, sb_raw := put 0x58 (u16_to_le v) raw\<rparr>)"
proof -
  let ?raw = "put 0x58 (u16_to_le v) raw"
  have l: "1024 \<le> length raw" using assms(1) by (auto simp: Superblock_parse_def SUPERBLOCK_SIZE_def split: if_splits)
  have "rev_level sb = get_le32 0x4C raw"
    using assms(1) by (auto simp: Superblock_parse_def Let_def superblock_fields_def outcome_simps split: if_splits)
  then have f: "superblock_fields ?raw = (superblock_fields raw)\<lparr>inode_size := v, sb_raw := ?raw\<rparr>"
    using superblock_fields_inode_size [OF l] assms(2) by simp
  have c: "check_group_fits_bitmap ?raw = check_group_fits_bitmap raw"
  proof -
    have "get_le32 0x1C ?raw = get_le32 0x1C raw" "get_le32 0x24 ?raw = get_le32 0x24 raw"
      using l by (simp_all add: codec_simps)
    then show ?thesis by (intro ext) (simp only: check_group_fits_bitmap_def)
  qed
  show ?thesis
    using assms(1,3) l unfolding Superblock_parse_def f c Let_def by (auto simp: outcome_simps split: if_splits)
qed

text \<open>A small volume: 1 KiB blocks, 2048 of them in groups of 1024, 64 inodes of 256 bytes a group.\<close>

definition example_super :: bytes where
  "example_super =
     put 0x58 (u16_to_le 256) (put 0x4C (u32_to_le 1) (put 0x38 (u16_to_le 0xEF53)
     (put 0x28 (u32_to_le 64) (put 0x20 (u32_to_le 1024) (put 0x14 (u32_to_le 1)
     (put 0x04 (u32_to_le 2049) (put 0x00 (u32_to_le 128) (replicate 1024 0))))))))"

lemma get_zeros [simp]: "get_le32 off (replicate n 0) = 0" "get_le16 off (replicate n 0) = 0"
proof -
  have "le_val (replicate k 0) = 0" for k by (induction k) auto
  then show "get_le32 off (replicate n 0) = 0" "get_le16 off (replicate n 0) = 0"
    by (simp_all add: get_field_defs slice_def u32_from_le_def u16_from_le_def)
qed

lemma length_example_super [simp]: "length example_super = 1024"
  by (simp add: example_super_def)

lemma example_super_fields:
  "get_le16 0x58 example_super = 256" "get_le32 0x4C example_super = 1"
  "get_le16 0x38 example_super = 0xEF53" "get_le32 0x28 example_super = 64"
  "get_le32 0x20 example_super = 1024" "get_le32 0x14 example_super = 1"
  "get_le32 0x04 example_super = 2049" "get_le32 0x00 example_super = 128"
  "get_le32 0x150 example_super = 0" "get_le32 0x18 example_super = 0" "get_le32 0x5C example_super = 0"
  "get_le32 0x60 example_super = 0" "get_le32 0x64 example_super = 0" "get_le16 0xFE example_super = 0"
  "get_le32 0x54 example_super = 0" "get_le16 0xCE example_super = 0"
  by (simp_all add: example_super_def codec_simps)

definition example_sb :: superblock where
  "example_sb = superblock_fields example_super"

lemma example_sb_fields [simp]:
  "inodes_count example_sb = 128" "blocks_count example_sb = 2049" "first_data_block example_sb = 1"
  "log_block_size example_sb = 0" "blocks_per_group example_sb = 1024" "inodes_per_group example_sb = 64"
  "sb_magic example_sb = 0xEF53" "inode_size example_sb = 256" "first_inode example_sb = 11"
  "feature_compat example_sb = 0" "feature_incompat example_sb = 0" "feature_ro_compat example_sb = 0"
  "desc_size example_sb = 32" "reserved_gdt_blocks example_sb = 0" "block_size example_sb = 1024"
  by (simp_all add: example_sb_def superblock_fields_def Let_def example_super_fields join32_def
      GOOD_OLD_FIRST_INODE_def block_size_def)

lemma example_sb_parses: "Superblock_parse example_super = Ok example_sb"
  by (simp add: Superblock_parse_def example_sb_def [symmetric] Let_def EXT4_MAGIC_def MAX_LOG_BLOCK_SIZE_def
      check_group_fits_bitmap_def has_bits_def word_less_nat_alt word_le_nat_alt)

theorem superblock_parse_geometry_witness:
  "Superblock_parse example_super = Ok example_sb \<and> geometry_ok example_sb \<and> bs_nat example_sb = 1024"
  using superblock_parse_geometry [of example_super example_sb] example_sb_parses by simp

section \<open>Groups partition the blocks\<close>

lemma unat_div_ceil:
  assumes "0 < unat b" shows "unat (div_ceil a b) = (unat a + unat b - 1) div unat b"
proof -
  let ?q = "unat a div unat b" and ?r = "unat a mod unat b"
  have a: "unat a = ?q * unat b + ?r" by simp
  have r: "?r < unat b" using assms by simp
  have val: "(unat a + unat b - 1) div unat b = ?q + (if ?r = 0 then 0 else 1)"
  proof (cases "?r = 0")
    case True
    then have "unat a + unat b - 1 = (unat b - 1) + ?q * unat b" using a assms by linarith
    then show ?thesis using assms True by (simp only: div_mult_self1) simp
  next
    case False
    then have "0 < unat a" by (cases "unat a = 0") auto
    then have "unat a + unat b - 1 = (?r - 1) + (?q + 1) * unat b" using False assms by (simp add: algebra_simps)
    then show ?thesis using r False by (simp only: div_mult_self1) simp
  qed
  have q: "?q < 2 ^ LENGTH('a)" using div_le_dividend [of "unat a" "unat b"] unat_lt2p [of a] by linarith
  have "a mod b = 0 \<longleftrightarrow> ?r = 0" by (simp add: unat_mod_distrib [symmetric] unat_eq_zero)
  moreover have "?r \<noteq> 0 \<Longrightarrow> ?q + 1 < 2 ^ LENGTH('a)"
  proof -
    assume "?r \<noteq> 0"
    then have "?q + 1 \<le> unat a" using a mult_le_mono2 [of 1 "unat b" ?q] assms by linarith
    then show ?thesis using unat_lt2p [of a] by linarith
  qed
  ultimately show ?thesis
    unfolding div_ceil_def val using q by (simp add: unat_div_distrib unat_word_ariths)
qed

lemma unat_block_group_count:
  assumes "geometry_ok sb"
  shows "unat (block_group_count sb) =
    (unat (blocks_count sb) - fdb_nat sb + bpg_nat sb - 1) div bpg_nat sb"
proof -
  have p: "0 < bpg_nat sb" using assms by (simp add: geometry_ok_def)
  then have "unat (max (ucast (blocks_per_group sb)) 1 :: u64) = bpg_nat sb" by (simp add: max_def word_le_nat_alt)
  then show ?thesis
    using p by (simp add: block_group_count_def group_count_def unat_div_ceil unat_saturating_sub)
qed

lemma group_start:
  assumes "geometry_ok sb" "unat g < unat (block_group_count sb)"
  shows "unat (first_block_of_group sb g) = fdb_nat sb + unat g * bpg_nat sb \<and>
    fdb_nat sb + unat g * bpg_nat sb < unat (blocks_count sb)"
proof -
  let ?n = "unat (blocks_count sb) - fdb_nat sb" and ?p = "bpg_nat sb"
  have p: "0 < ?p" "fdb_nat sb < unat (blocks_count sb)" using assms by (auto simp: geometry_ok_def)
  have "Suc (unat g) \<le> (?n + ?p - 1) div ?p" using assms by (simp add: unat_block_group_count)
  then have "Suc (unat g) * ?p \<le> ?n + ?p - 1" using p by (simp add: less_eq_div_iff_mult_less_eq)
  then have "unat g * ?p < ?n" using p by simp
  then have lt: "fdb_nat sb + unat g * ?p < unat (blocks_count sb)" by linarith
  have "unat (blocks_count sb) < 2 ^ 64" using unat_lt2p [of "blocks_count sb"] by simp
  then show ?thesis using lt
    by (simp add: first_block_of_group_def unat_word_ariths)
qed

text \<open>
  The groups partition the filesystem: no group start wraps or lies past the end, and every
  block from the first data block to the end of the filesystem lies in exactly one group below
  the group count.
\<close>

theorem groups_partition_blocks:
  assumes "geometry_ok sb" "fdb_nat sb \<le> b" "b < unat (blocks_count sb)"
  shows "\<exists>!g. unat g < unat (block_group_count sb) \<and>
    unat (first_block_of_group sb g) \<le> b \<and> b < unat (first_block_of_group sb g) + bpg_nat sb"
proof -
  let ?n = "unat (blocks_count sb) - fdb_nat sb" and ?p = "bpg_nat sb" and ?k = "(b - fdb_nat sb) div bpg_nat sb"
  have p: "0 < ?p" using assms by (auto simp: geometry_ok_def)
  have k: "?k < unat (block_group_count sb)"
  proof -
    have "?k * ?p \<le> b - fdb_nat sb" by simp
    moreover have "Suc ?k * ?p = ?k * ?p + ?p" by simp
    ultimately have "Suc ?k * ?p \<le> ?n + ?p - 1" using assms p by linarith
    then show ?thesis using p assms(1) by (simp add: unat_block_group_count less_eq_div_iff_mult_less_eq Suc_le_eq [symmetric])
  qed
  let ?g = "word_of_nat ?k :: u64"
  have "?k < 2 ^ 64" using k unat_lt2p [of "block_group_count sb"] by simp
  then have g: "unat ?g = ?k" by (simp add: unat_of_nat)
  have inside: "?k * ?p \<le> b - fdb_nat sb \<and> b - fdb_nat sb < ?k * ?p + ?p"
    using div_mult_mod_eq [of "b - fdb_nat sb" ?p] mod_less_divisor [OF p, of "b - fdb_nat sb"] by linarith
  show ?thesis
  proof (rule ex1I [of _ ?g])
    show "unat ?g < unat (block_group_count sb) \<and>
      unat (first_block_of_group sb ?g) \<le> b \<and> b < unat (first_block_of_group sb ?g) + ?p"
      using group_start [OF assms(1), of ?g, unfolded g, OF k] inside k assms(2) unfolding g by linarith
    fix h
    assume h: "unat h < unat (block_group_count sb) \<and>
      unat (first_block_of_group sb h) \<le> b \<and> b < unat (first_block_of_group sb h) + ?p"
    then have "unat h * ?p \<le> b - fdb_nat sb" "b - fdb_nat sb < Suc (unat h) * ?p"
      using group_start [OF assms(1), of h] assms(2) by auto
    then have "?k = unat h" using p by (intro div_nat_eqI) (auto simp: mult.commute)
    then show "h = ?g" using g by (simp add: word_unat_eq_iff)
  qed
qed

lemma example_sb_geometry: "geometry_ok example_sb"
  by (simp add: geometry_ok_def bigalloc_def has_bits_def)

theorem groups_partition_blocks_witness:
  "\<exists>!g. unat g < unat (block_group_count example_sb) \<and>
    unat (first_block_of_group example_sb g) \<le> 1500 \<and> 1500 < unat (first_block_of_group example_sb g) + 1024"
  using groups_partition_blocks [of example_sb 1500] example_sb_geometry by simp

section \<open>Backup groups\<close>

lemma strip_factor_one:
  assumes "2 \<le> base" "0 < g"
  shows "strip_factor base g = 1 \<longleftrightarrow> (\<exists>k. g = base ^ k)"
  using assms
proof (induction base g rule: strip_factor.induct)
  case (1 base g)
  show ?case
  proof (cases "g mod base = 0")
    case True
    then obtain h where h: "g = h * base" by (metis dvd_def mod_0_imp_dvd mult.commute)
    with "1.prems" have pos: "0 < h" "g div base = h" by auto
    have "strip_factor base g = strip_factor base h"
      using True "1.prems" pos by (simp add: strip_factor.simps [of base g])
    moreover have "(\<exists>k. g = base ^ k) \<longleftrightarrow> (\<exists>k. h = base ^ k)"
    proof
      assume "\<exists>k. g = base ^ k"
      then obtain k where k: "g = base ^ k" by blast
      then show "\<exists>k. h = base ^ k" using h True "1.prems" by (cases k) auto
    next
      assume "\<exists>k. h = base ^ k"
      then show "\<exists>k. g = base ^ k" using h by (metis power_Suc2)
    qed
    ultimately show ?thesis using 1 True pos by simp
  next
    case False
    have "g = base ^ k \<Longrightarrow> k = 0" for k using False by (cases k) auto
    then have "(\<exists>k. g = base ^ k) \<longleftrightarrow> g = 1" by (metis power_0)
    then show ?thesis using False by (simp add: strip_factor.simps [of base g])
  qed
qed

text \<open>
  The sparse-superblock rule is the one of the format: exactly group 0 and the powers of 3, 5
  and 7 (group 1 among them) carry a superblock copy.
\<close>

theorem classic_sparse_super_iff:
  "classic_sparse_super g \<longleftrightarrow>
     g = 0 \<or> (\<exists>k. unat g = 3 ^ k \<or> unat g = 5 ^ k \<or> unat g = 7 ^ k)"
proof (cases "g = 0")
  case True
  then show ?thesis by (simp add: classic_sparse_super_def)
next
  case False
  then have "0 < unat g" by (simp add: unat_gt_0)
  then have "classic_sparse_super g \<longleftrightarrow>
      unat g = 1 \<or> (\<exists>k. unat g = 3 ^ k) \<or> (\<exists>k. unat g = 5 ^ k) \<or> (\<exists>k. unat g = 7 ^ k)"
    using strip_factor_one [of 3 "unat g"] strip_factor_one [of 5 "unat g"] strip_factor_one [of 7 "unat g"]
    by (auto simp: classic_sparse_super_def word_le_nat_alt le_Suc_eq)
  also have "\<dots> \<longleftrightarrow> (\<exists>k. unat g = 3 ^ k \<or> unat g = 5 ^ k \<or> unat g = 7 ^ k)"
    by (metis power_0)
  finally show ?thesis using False by simp
qed

section \<open>Where descriptors live\<close>

abbreviation ds_nat :: "superblock \<Rightarrow> nat" where "ds_nat sb \<equiv> unat (desc_size sb)"
abbreviation meta_bg :: "superblock \<Rightarrow> bool" where
  "meta_bg sb \<equiv> has_bits (feature_incompat sb) Incompat_META_BG"

lemma desc_size_divides:
  assumes "geometry_ok sb" shows "ds_nat sb dvd bs_nat sb \<and> 32 \<le> ds_nat sb \<and> ds_nat sb \<le> bs_nat sb"
proof -
  have b: "1024 \<le> bs_nat sb" "1024 dvd bs_nat sb"
    using block_size_bounds assms by (auto simp: geometry_ok_def)
  have "ds_nat sb \<in> {32, 64, 128, 256, 512, 1024}" using assms by (simp add: geometry_ok_def)
  moreover have "32 dvd (1024::nat)" "64 dvd (1024::nat)" "128 dvd (1024::nat)" "256 dvd (1024::nat)"
    "512 dvd (1024::nat)" by simp_all
  ultimately show ?thesis using b by (auto intro: dvd_trans [of _ "1024 :: nat"])
qed

lemma unat_descs_per_block:
  assumes "geometry_ok sb"
  shows "unat (descs_per_block sb) = bs_nat sb div ds_nat sb \<and> 0 < unat (descs_per_block sb) \<and>
    unat (descs_per_block sb) * ds_nat sb = bs_nat sb"
proof -
  note d = desc_size_divides [OF assms]
  have "unat (max (desc_size sb) 1) = ds_nat sb" using d by (simp add: max_def word_le_nat_alt)
  then have "unat (descs_per_block sb) = bs_nat sb div ds_nat sb"
    by (simp add: descs_per_block_def unat_div_distrib)
  moreover have "0 < bs_nat sb div ds_nat sb" using d by (simp add: div_greater_zero_iff)
  ultimately show ?thesis using d by simp
qed

lemma slot_fits:
  assumes "geometry_ok sb"
  shows "unat ((g mod descs_per_block sb) * ucast (desc_size sb) :: u64) =
      unat g mod unat (descs_per_block sb) * ds_nat sb \<and>
    unat g mod unat (descs_per_block sb) * ds_nat sb + ds_nat sb \<le> bs_nat sb"
proof -
  let ?n = "unat (descs_per_block sb)"
  note n = unat_descs_per_block [OF assms]
  have "unat g mod ?n < ?n" using n by simp
  then have "Suc (unat g mod ?n) * ds_nat sb \<le> ?n * ds_nat sb" by (intro mult_le_mono1) simp
  then have le: "unat g mod ?n * ds_nat sb + ds_nat sb \<le> bs_nat sb"
    unfolding conjunct2 [OF conjunct2 [OF n]] by (metis add.commute mult_Suc)
  moreover have "bs_nat sb < 2 ^ 64" using unat_lt2p [of "block_size sb"] by simp
  ultimately have "unat (g mod descs_per_block sb) * unat (ucast (desc_size sb) :: u64) < 2 ^ LENGTH(64)"
    by (simp add: unat_mod_distrib)
  from unat_mult_no_wrap [OF this] le show ?thesis by (simp add: unat_mod_distrib)
qed

lemma primary_superblock_block_nat:
  assumes "geometry_ok sb"
  shows "unat (primary_superblock_block sb) = 1024 div bs_nat sb \<and> unat (primary_superblock_block sb) \<le> 1"
proof -
  have "1024 \<le> bs_nat sb" using block_size_bounds assms by (auto simp: geometry_ok_def)
  then have "1024 div bs_nat sb \<le> 1" by (metis div_le_mono2 div_self le_trans order_refl zero_less_numeral zero_neq_numeral)
  then show ?thesis by (simp add: primary_superblock_block_def SUPERBLOCK_OFFSET_def unat_div_distrib)
qed

text \<open>The bound on the table that \<open>read_all\<close> checks before it reads a descriptor.\<close>

definition table_fits :: "superblock \<Rightarrow> bool" where
  "table_fits sb \<longleftrightarrow> unat (block_group_count sb) * ds_nat sb < 2 ^ 64"

lemma group_index_small:
  assumes "geometry_ok sb" "table_fits sb" "unat g < unat (block_group_count sb)"
  shows "unat g < 2 ^ 59"
proof -
  have "unat (block_group_count sb) * 32 \<le> unat (block_group_count sb) * ds_nat sb"
    using desc_size_divides [OF assms(1)] by (intro mult_le_mono) auto
  then have "unat (block_group_count sb) * 32 < 2 ^ 64"
    using assms(2) unfolding table_fits_def by (rule le_less_trans)
  then show ?thesis using assms(3) by simp
qed

lemma contiguous_table:
  assumes "geometry_ok sb" "table_fits sb" "unat g < unat (block_group_count sb)" "\<not> meta_bg sb"
  shows "unat (fst (descriptor_location sb g)) * bs_nat sb + snd (descriptor_location sb g) =
      (unat (primary_superblock_block sb) + 1) * bs_nat sb + unat g * ds_nat sb"
proof -
  let ?n = "unat (descs_per_block sb)" and ?p = "unat (primary_superblock_block sb)"
  note n = conjunct2 [OF unat_descs_per_block [OF assms(1)]] and p = primary_superblock_block_nat [OF assms(1)]
  have q: "unat g div ?n < 2 ^ 59"
    using group_index_small [OF assms(1-3)] div_le_dividend [of "unat g" ?n] by linarith
  have u: "unat (g div descs_per_block sb) = unat g div ?n" by (simp add: unat_div_distrib)
  have "unat (primary_superblock_block sb + 1 + g div descs_per_block sb) = ?p + 1 + unat g div ?n"
    using p q u by (subst unat_add_no_wrap; subst unat_add_no_wrap) auto
  then have loc: "unat (fst (descriptor_location sb g)) = ?p + 1 + unat g div ?n"
      "snd (descriptor_location sb g) = unat g mod ?n * ds_nat sb"
    using slot_fits [OF assms(1), of g] assms(4)
    by (simp_all add: descriptor_location_def meta_group_holding_def Let_def)
  have "unat g * ds_nat sb = (unat g div ?n * ?n + unat g mod ?n) * ds_nat sb" by simp
  also have "\<dots> = unat g div ?n * (?n * ds_nat sb) + unat g mod ?n * ds_nat sb"
    by (simp only: distrib_right mult.assoc)
  finally have "unat g * ds_nat sb = unat g div ?n * bs_nat sb + unat g mod ?n * ds_nat sb"
    using n by simp
  then show ?thesis using loc by (simp add: distrib_right)
qed

lemma meta_group_head:
  assumes "geometry_ok sb" "meta_group_holding sb g = Some m" "m \<noteq> 0"
  shows "let head = m * descs_per_block sb in
    unat head \<le> unat g \<and> head \<noteq> 0 \<and> meta_group_holding sb head = Some m \<and>
    fst (descriptor_location sb g) = first_block_of_group sb head + of_bool64 (group_has_super sb head) \<and>
    group_head_metadata_blocks sb head = of_bool64 (group_has_super sb head) + 1"
proof -
  let ?n = "unat (descs_per_block sb)" and ?h = "m * descs_per_block sb"
  note n = conjunct2 [OF unat_descs_per_block [OF assms(1)]]
  have m: "m = g div descs_per_block sb" "meta_bg sb" "first_meta_bg sb \<le> m"
    using assms(2) by (auto simp: meta_group_holding_def Let_def split: if_splits)
  then have um: "unat m = unat g div ?n" by (simp add: unat_div_distrib)
  then have le: "unat m * ?n \<le> unat g" by simp
  then have "unat m * ?n < 2 ^ LENGTH(64)" using unat_lt2p [of g] by linarith
  then have h: "unat ?h = unat m * ?n" by (rule unat_mult_no_wrap)
  moreover have "0 < unat m * ?n" using assms(3) n by (simp add: unat_gt_0)
  ultimately have nz: "?h \<noteq> 0" by (auto simp: unat_gt_0 [symmetric])
  have "unat (?h div descs_per_block sb) = unat m" using h n by (simp add: unat_div_distrib)
  then have "?h div descs_per_block sb = m" by (simp add: word_unat_eq_iff)
  then have hold: "meta_group_holding sb ?h = Some m"
    using m by (simp add: meta_group_holding_def Let_def)
  show ?thesis
    using h le nz hold assms(2)
    by (simp add: Let_def descriptor_location_def group_head_metadata_blocks_def of_bool64_def)
qed

text \<open>
  Group descriptors are where the format puts them. A descriptor never straddles its block.
  Without META_BG the descriptors form one contiguous array of \<open>desc_size\<close> records that starts in
  the block after the superblock; under META_BG the descriptor of a later meta group lies in the
  blocks at the head of that meta group's first group that \<open>group_head_metadata_blocks\<close> counts,
  so they are never taken for free space.
\<close>

theorem descriptor_location_correct:
  assumes "geometry_ok sb" "table_fits sb" "unat g < unat (block_group_count sb)"
    "descriptor_location sb g = (b, off)"
  shows "off + ds_nat sb \<le> bs_nat sb \<and>
    (\<not> meta_bg sb \<longrightarrow> unat b * bs_nat sb + off =
       (unat (primary_superblock_block sb) + 1) * bs_nat sb + unat g * ds_nat sb) \<and>
    (\<forall>m. meta_group_holding sb g = Some m \<and> m \<noteq> 0 \<longrightarrow>
       (let head = m * descs_per_block sb in
        unat head \<le> unat g \<and> (\<exists>i < group_head_metadata_blocks sb head. b = first_block_of_group sb head + i)))"
proof (intro conjI impI allI)
  have "off = unat ((g mod descs_per_block sb) * ucast (desc_size sb) :: u64)"
    using assms(4) by (simp add: descriptor_location_def Let_def)
  then show "off + ds_nat sb \<le> bs_nat sb" using slot_fits [OF assms(1), of g] by simp
  show "\<not> meta_bg sb \<Longrightarrow> unat b * bs_nat sb + off =
      (unat (primary_superblock_block sb) + 1) * bs_nat sb + unat g * ds_nat sb"
    using contiguous_table [OF assms(1-3)] assms(4) by simp
  fix m assume "meta_group_holding sb g = Some m \<and> m \<noteq> 0"
  then show "let head = m * descs_per_block sb in unat head \<le> unat g \<and>
      (\<exists>i < group_head_metadata_blocks sb head. b = first_block_of_group sb head + i)"
    using meta_group_head [OF assms(1), of g m] assms(4)
    by (auto simp: Let_def of_bool64_def word_less_nat_alt split: if_splits)
qed

lemma example_sb_groups: "block_group_count example_sb = 2"
  by (simp add: block_group_count_def group_count_def div_ceil_def saturating_sub_def max_def word_le_nat_alt
      word_eq_iff_unsigned unat_div_distrib)

theorem descriptor_location_correct_witness:
  "descriptor_location example_sb 1 = (2, 32) \<and> (2::nat) * 1024 + 32 = (1 + 1) * 1024 + 1 * 32"
proof -
  have loc: "descriptor_location example_sb 1 = (2, 32)"
    by (simp add: descriptor_location_def meta_group_holding_def has_bits_def Incompat_META_BG_def Let_def
        primary_superblock_block_def SUPERBLOCK_OFFSET_def descs_per_block_def word_eq_iff_unsigned)
  moreover have "table_fits example_sb" by (simp add: table_fits_def example_sb_groups)
  ultimately show ?thesis
    using descriptor_location_correct [OF example_sb_geometry, of 1 2 32]
    by (simp add: example_sb_groups primary_superblock_block_def SUPERBLOCK_OFFSET_def has_bits_def)
qed

end
