(* ===== verification/Block_IO.thy ===== *)
theory Block_IO
  imports Ext4_Error
begin

unbundle bit_operations_syntax

text \<open>
  Block devices (\<open>src/block_io.rs\<close>). An operation takes the device's state and returns an outcome
  with the state after it. The trait \<open>BlockDevice\<close> is the locale \<open>block_device\<close>: what its users may
  rely on, with the byte image of the device as abstraction. \<open>FileDevice\<close>, \<open>CallbackDevice\<close>
  and \<open>AlignedDevice\<close> are modelled below and shown to keep that contract. Locks are not
  modelled: every operation runs alone. Failures of the operating system other than reading past
  the end of the file are not modelled.
\<close>

section \<open>Operations with a state\<close>

type_synonym ('s, 'a) dev_result = "'a result \<times> 's"
type_synonym 's read_op = "'s \<Rightarrow> u64 \<Rightarrow> nat \<Rightarrow> bytes result \<times> 's"
type_synonym 's write_op = "'s \<Rightarrow> u64 \<Rightarrow> bytes \<Rightarrow> unit result \<times> 's"

fun st_bind :: "('s, 'a) dev_result \<Rightarrow> ('a \<Rightarrow> 's \<Rightarrow> ('s, 'b) dev_result) \<Rightarrow> ('s, 'b) dev_result" where
  "st_bind (Ok x, s) f = f x s"
| "st_bind (Err e, s) f = (Err e, s)"
| "st_bind (Panic, s) f = (Panic, s)"

section \<open>The file-backed device\<close>

record file_device =
  fd_bytes :: bytes
  fd_size :: u64
  fd_writable :: bool

text \<open>
  A file offset is a non-negative \<open>i64\<close>: seeking past it fails. \<open>read_exact\<close> on an empty buffer
  reads nothing. Writing past the end fills the gap with zeros.
\<close>

definition file_read_at :: "file_device read_op" where
  "file_read_at d off n =
     (if unat off \<ge> 2 ^ 63 then (Err (Io (OsError EINVAL)), d)
      else if n = 0 \<or> unat off + n \<le> length (fd_bytes d)
      then (Ok (slice (unat off) (unat off + n) (fd_bytes d)), d)
      else (Err (Io (KindError ''failed to fill whole buffer'')), d))"

definition grow :: "nat \<Rightarrow> bytes \<Rightarrow> bytes" where
  "grow n xs = xs @ replicate (n - length xs) 0"

definition file_write_at :: "file_device write_op" where
  "file_write_at d off buf =
     (if \<not> fd_writable d then (Err (Corrupt ''FileDevice opened read-only''), d)
      else if unat off + length buf > 2 ^ 63 then (Err (Io (OsError EINVAL)), d)
      else (Ok (), if buf = [] then d else d\<lparr>fd_bytes := put (unat off) buf (grow (unat off) (fd_bytes d))\<rparr>))"

definition file_open :: "bytes \<Rightarrow> bool \<Rightarrow> file_device" where
  "file_open img w = \<lparr>fd_bytes = img, fd_size = word_of_nat (length img), fd_writable = w\<rparr>"

section \<open>The callback device\<close>

text \<open>The host's callbacks are parameters; they act on the host's state.\<close>

record 's callback_device =
  cb_size :: u64
  cb_read :: "'s read_op"
  cb_write :: "'s write_op option"
  cb_flush :: "('s \<Rightarrow> unit result \<times> 's) option"

definition callback_read_at :: "'s callback_device \<Rightarrow> 's read_op" where
  "callback_read_at c = cb_read c"

definition callback_write_at :: "'s callback_device \<Rightarrow> 's write_op" where
  "callback_write_at c s off buf = (case cb_write c of
     Some f \<Rightarrow> f s off buf
   | None \<Rightarrow> (Err (Corrupt ''CallbackDevice has no write callback''), s))"

definition callback_flush :: "'s callback_device \<Rightarrow> 's \<Rightarrow> unit result \<times> 's" where
  "callback_flush c s = (case cb_flush c of Some f \<Rightarrow> f s | None \<Rightarrow> (Ok (), s))"

definition callback_is_writable :: "'s callback_device \<Rightarrow> bool" where
  "callback_is_writable c \<longleftrightarrow> cb_write c \<noteq> None"

section \<open>The sector-aligned adapter\<close>

definition is_aligned :: "u64 \<Rightarrow> u64 \<Rightarrow> nat \<Rightarrow> bool" where
  "is_aligned sector off n \<longleftrightarrow> off AND (sector - 1) = 0 \<and> (word_of_nat n :: u64) AND (sector - 1) = 0"

definition span :: "u64 \<Rightarrow> u64 \<Rightarrow> u64 \<Rightarrow> nat \<Rightarrow> (u64 \<times> u64) result" where
  "span sector sz off n =
     (let m = sector - 1 in
      case checked_add off (word_of_nat n) of
        None \<Rightarrow> Err (Corrupt ''device request overflows u64'')
      | Some e \<Rightarrow> (case checked_add e m of
          None \<Rightarrow> Err (Corrupt ''device request overflows u64'')
        | Some e \<Rightarrow> let fin = e AND NOT m in
            if fin > sz then Err (Corrupt ''device request past the end of the device'')
            else Ok (off AND NOT m, fin)))"

definition aligned_read_at :: "'s read_op \<Rightarrow> ('s \<Rightarrow> u64) \<Rightarrow> u64 \<Rightarrow> 's read_op" where
  "aligned_read_at rd sz sector s off n =
     (if is_aligned sector off n then rd s off n
      else st_bind (span sector (sz s) off n, s) (\<lambda>(start, fin) s.
        st_bind (rd s start (unat (fin - start))) (\<lambda>bounce s.
          let head = unat (off - start) in (get_slice head (head + n) bounce, s))))"

text \<open>The two partial sectors of an unaligned write, read into the bounce buffer.\<close>

definition fill_edges :: "'s read_op \<Rightarrow> nat \<Rightarrow> 's \<Rightarrow> u64 \<Rightarrow> nat \<Rightarrow> nat \<Rightarrow> bytes \<Rightarrow> ('s, bytes) dev_result" where
  "fill_edges rd sector s start head tail bounce =
     st_bind (if head \<noteq> 0
        then st_bind (rd s start sector) (\<lambda>bs s. (Ok (put 0 bs bounce), s)) else (Ok bounce, s)) (\<lambda>bounce s.
       let last = length bounce - sector in
       if tail mod sector \<noteq> 0 \<and> (last \<noteq> 0 \<or> head = 0)
       then st_bind (rd s (start + word_of_nat last) (length bounce - last)) (\<lambda>bs s. (Ok (put last bs bounce), s))
       else (Ok bounce, s))"

definition aligned_write_at :: "'s read_op \<Rightarrow> 's write_op \<Rightarrow> ('s \<Rightarrow> u64) \<Rightarrow> u64 \<Rightarrow> 's write_op" where
  "aligned_write_at rd wr sz sector s off buf =
     (if is_aligned sector off (length buf) then wr s off buf
      else st_bind (span sector (sz s) off (length buf), s) (\<lambda>(start, fin) s.
        let bounce = replicate (unat (fin - start)) 0;
            head = unat (off - start);
            tail = head + length buf
        in st_bind (fill_edges rd (unat sector) s start head tail bounce) (\<lambda>bounce s.
             wr s start (put head buf bounce))))"

section \<open>What users of a device rely on\<close>

text \<open>
  The contract of the trait on the device's byte image: a read inside the image returns its bytes
  and changes nothing, one that reaches past it fails, a write inside it replaces exactly its
  bytes, and a device that is not writable refuses writes.
\<close>

locale block_device =
  fixes read_at :: "'s read_op" and write_at :: "'s write_op"
    and inv :: "'s \<Rightarrow> bool" and contents :: "'s \<Rightarrow> bytes" and writable :: "'s \<Rightarrow> bool"
  assumes read_in: "\<lbrakk>inv s; 0 < n; unat off + n \<le> length (contents s)\<rbrakk> \<Longrightarrow>
      fst (read_at s off n) = Ok (slice (unat off) (unat off + n) (contents s))"
    and read_out: "\<lbrakk>inv s; 0 < n; n < 2 ^ 63; length (contents s) < unat off + n\<rbrakk> \<Longrightarrow> \<exists>e. fst (read_at s off n) = Err e"
    and read_state: "\<lbrakk>inv s; 0 < n; n < 2 ^ 63\<rbrakk> \<Longrightarrow> inv (snd (read_at s off n)) \<and>
      contents (snd (read_at s off n)) = contents s \<and> writable (snd (read_at s off n)) = writable s"
    and write_in: "\<lbrakk>inv s; writable s; unat off + length buf \<le> length (contents s)\<rbrakk> \<Longrightarrow>
      fst (write_at s off buf) = Ok () \<and> inv (snd (write_at s off buf)) \<and> writable (snd (write_at s off buf)) \<and>
      contents (snd (write_at s off buf)) = put (unat off) buf (contents s)"
    and write_ro: "\<lbrakk>inv s; \<not> writable s; unat off + length buf \<le> length (contents s)\<rbrakk> \<Longrightarrow>
      (\<exists>e. fst (write_at s off buf) = Err e) \<and> inv (snd (write_at s off buf)) \<and>
      contents (snd (write_at s off buf)) = contents s \<and> \<not> writable (snd (write_at s off buf))"
    and image_bound: "inv s \<Longrightarrow> length (contents s) < 2 ^ 63"
begin

lemma read_cases:
  assumes "inv s" "0 < n" "unat off + n \<le> length (contents s)"
  obtains s' where "read_at s off n = (Ok (slice (unat off) (unat off + n) (contents s)), s')"
    "inv s'" "contents s' = contents s" "writable s' = writable s"
  using read_in [OF assms] read_state [OF assms(1,2), of off] image_bound [OF assms(1)] assms(3)
  by (cases "read_at s off n") auto

lemma write_cases:
  assumes "inv s" "writable s" "unat off + length buf \<le> length (contents s)"
  obtains s' where "write_at s off buf = (Ok (), s')" "inv s'" "writable s'"
    "contents s' = put (unat off) buf (contents s)"
  using write_in [OF assms] by (cases "write_at s off buf") auto

lemma read_after_write:
  assumes "inv s" "writable s" "unat off + length buf \<le> length (contents s)" "buf \<noteq> []"
  shows "fst (read_at (snd (write_at s off buf)) off (length buf)) = Ok buf"
proof -
  obtain s' where w: "write_at s off buf = (Ok (), s')" "inv s'" "contents s' = put (unat off) buf (contents s)"
    by (rule write_cases [OF assms(1-3)])
  show ?thesis using read_in [OF w(2), of "length buf" off] w(1,3) assms(3,4) by (simp add: slice_simps)
qed

end

lemma put_in_grow: "off + length buf \<le> length xs \<Longrightarrow> put off buf (grow off xs) = put off buf xs"
  by (simp add: grow_def)

definition file_inv :: "file_device \<Rightarrow> bool" where
  "file_inv d \<longleftrightarrow> length (fd_bytes d) < 2 ^ 63"

interpretation file_dev: block_device file_read_at file_write_at file_inv fd_bytes fd_writable
proof
  fix s :: file_device and off :: u64 and n :: nat and buf :: bytes
  show "file_inv s \<Longrightarrow> 0 < n \<Longrightarrow> unat off + n \<le> length (fd_bytes s) \<Longrightarrow>
      fst (file_read_at s off n) = Ok (slice (unat off) (unat off + n) (fd_bytes s))"
    by (auto simp: file_read_at_def file_inv_def)
  show "file_inv s \<Longrightarrow> 0 < n \<Longrightarrow> n < 2 ^ 63 \<Longrightarrow> length (fd_bytes s) < unat off + n \<Longrightarrow> \<exists>e. fst (file_read_at s off n) = Err e"
    by (auto simp: file_read_at_def)
  show "file_inv s \<Longrightarrow> 0 < n \<Longrightarrow> n < 2 ^ 63 \<Longrightarrow> file_inv (snd (file_read_at s off n)) \<and>
      fd_bytes (snd (file_read_at s off n)) = fd_bytes s \<and> fd_writable (snd (file_read_at s off n)) = fd_writable s"
    by (auto simp: file_read_at_def)
  show "file_inv s \<Longrightarrow> fd_writable s \<Longrightarrow> unat off + length buf \<le> length (fd_bytes s) \<Longrightarrow>
      fst (file_write_at s off buf) = Ok () \<and> file_inv (snd (file_write_at s off buf)) \<and>
      fd_writable (snd (file_write_at s off buf)) \<and>
      fd_bytes (snd (file_write_at s off buf)) = put (unat off) buf (fd_bytes s)"
    by (auto simp: file_write_at_def file_inv_def put_in_grow) (simp add: put_def)
  show "file_inv s \<Longrightarrow> \<not> fd_writable s \<Longrightarrow> unat off + length buf \<le> length (fd_bytes s) \<Longrightarrow>
      (\<exists>e. fst (file_write_at s off buf) = Err e) \<and> file_inv (snd (file_write_at s off buf)) \<and>
      fd_bytes (snd (file_write_at s off buf)) = fd_bytes s \<and> \<not> fd_writable (snd (file_write_at s off buf))"
    by (auto simp: file_write_at_def)
  show "file_inv s \<Longrightarrow> length (fd_bytes s) < 2 ^ 63" by (simp add: file_inv_def)
qed

section \<open>Aligned spans\<close>

lemma and_low_bits:
  fixes x :: u64 shows "k < 64 \<Longrightarrow> unat (x AND (2 ^ k - 1)) = unat x mod 2 ^ k"
  by (simp add: take_bit_eq_mask [symmetric] mask_eq_exp_minus_1 [symmetric] unsigned_take_bit_eq take_bit_nat_def)

lemma and_not_low_bits:
  fixes x :: u64 assumes "k < 64" shows "unat (x AND NOT (2 ^ k - 1)) = unat x - unat x mod 2 ^ k"
proof -
  have eq: "x AND NOT (mask k) = push_bit k (drop_bit k x)"
    by (rule bit_eqI) (auto simp: bit_simps)
  have "push_bit k (drop_bit k x) + take_bit k x = x" by (rule bits_ident)
  then have sum: "(x AND NOT (mask k)) + (x AND mask k) = x" by (simp add: eq take_bit_eq_mask)
  have "x AND NOT (mask k) = x - (x AND mask k)" using sum by (simp add: eq_diff_eq)
  moreover have "x AND mask k \<le> x" by (simp add: word_and_le2)
  ultimately show ?thesis using assms and_low_bits [of k x]
    by (simp add: mask_eq_exp_minus_1 unat_sub)
qed

lemma word_dvd_pow: "k < 64 \<Longrightarrow> (x :: u64) AND (2 ^ k - 1) = 0 \<longleftrightarrow> 2 ^ k dvd unat x"
  using and_low_bits [of k x] by (metis dvd_eq_mod_eq_0 unat_eq_zero)

lemma round_up_nat:
  fixes x d :: nat assumes "0 < d"
  shows "x \<le> (x + (d - 1)) - (x + (d - 1)) mod d" "(x + (d - 1)) - (x + (d - 1)) mod d < x + d"
    "d dvd (x + (d - 1)) - (x + (d - 1)) mod d"
proof -
  have "(x + (d - 1)) mod d < d" using assms by simp
  with assms show "x \<le> (x + (d - 1)) - (x + (d - 1)) mod d" "(x + (d - 1)) - (x + (d - 1)) mod d < x + d"
    by linarith+
  show "d dvd (x + (d - 1)) - (x + (d - 1)) mod d" by (rule dvd_minus_mod)
qed

lemma unat_pow2: "k < 32 \<Longrightarrow> unat ((2 :: u64) ^ k) = 2 ^ k"
proof -
  assume "k < 32"
  then have "(2 :: nat) ^ k < 2 ^ 64" by (intro power_strict_increasing) auto
  then show ?thesis using unat_of_nat [of "2 ^ k", where 'a = 64] by simp
qed

lemma unat_pow_minus_1: "k < 32 \<Longrightarrow> unat ((2 :: u64) ^ k - 1) = 2 ^ k - 1"
  by (subst unat_sub) (simp_all add: word_le_nat_alt unat_pow2)

lemma dvd_le_round:
  fixes x y d :: nat assumes "d dvd y" "x \<le> y" "0 < d"
  shows "(x + (d - 1)) - (x + (d - 1)) mod d \<le> y"
proof (rule ccontr)
  assume "\<not> ?thesis"
  then have lt: "y < (x + (d - 1)) - (x + (d - 1)) mod d" by simp
  note r = round_up_nat [OF assms(3), of x]
  have "d dvd ((x + (d - 1)) - (x + (d - 1)) mod d) - y" using r(3) assms(1) by (rule dvd_diff_nat)
  with lt have "d \<le> ((x + (d - 1)) - (x + (d - 1)) mod d) - y" by (simp add: dvd_imp_le)
  with r(2) assms(2) lt show False by linarith
qed

text \<open>Requests inside a device of whole sectors have an enclosing span, and no other request does.\<close>

lemma span_in:
  assumes k: "k < 32" and L: "2 ^ k dvd L" "L < 2 ^ 63" and r: "unat off + n \<le> L"
  obtains start fin where "span (2 ^ k) (word_of_nat L) off n = Ok (start, fin)"
    "2 ^ k dvd unat start" "2 ^ k dvd unat fin" "unat start \<le> unat off" "unat off < unat start + 2 ^ k"
    "unat off + n \<le> unat fin" "unat fin < unat off + n + 2 ^ k" "unat fin \<le> L"
proof -
  define d :: nat where "d = 2 ^ k"
  have d: "0 < d" "d < 2 ^ 32" using k power_strict_increasing [of k 32 "2 :: nat"] by (simp_all add: d_def)
  have un: "unat (word_of_nat n :: u64) = n" using r L(2) by (simp add: unat_of_nat)
  obtain e1 where e1: "checked_add off (word_of_nat n) = Some e1" "unat e1 = unat off + n"
  proof -
    have "unat off + unat (word_of_nat n :: u64) < 2 ^ 64" unfolding un using r L(2) by simp
    then have "checked_add off (word_of_nat n) = Some (off + word_of_nat n)" unfolding checked_add_def by simp
    then show thesis using that checked_add_Some un by metis
  qed
  have m: "unat ((2 :: u64) ^ k - 1) = d - 1" by (simp only: unat_pow_minus_1 [OF k] d_def)
  have "unat e1 + unat ((2 :: u64) ^ k - 1) < 2 ^ 64" unfolding e1(2) m using r L(2) d by simp
  then have "checked_add e1 (2 ^ k - 1) = Some (e1 + (2 ^ k - 1))" unfolding checked_add_def by simp
  then obtain e2 where e2: "checked_add e1 (2 ^ k - 1) = Some e2" "unat e2 = unat off + n + (d - 1)"
    using checked_add_Some e1(2) m by metis
  define fin where "fin = e2 AND NOT (2 ^ k - 1)"
  have fin: "unat fin = (unat off + n + (d - 1)) - (unat off + n + (d - 1)) mod d"
    using and_not_low_bits [of k e2] k by (simp add: fin_def e2(2) d_def)
  note up = round_up_nat [OF d(1), of "unat off + n"]
  have le: "unat fin \<le> L" unfolding fin using L(1) r d(1) by (intro dvd_le_round) (auto simp: d_def)
  have down: "unat (off AND NOT (2 ^ k - 1)) = unat off - unat off mod d"
    using and_not_low_bits [of k off] k by (simp add: d_def)
  have "\<not> fin > word_of_nat L" using le L(2) by (simp add: word_less_nat_alt unat_of_nat)
  then have "span (2 ^ k) (word_of_nat L) off n = Ok (off AND NOT (2 ^ k - 1), fin)"
    by (simp add: span_def Let_def e1(1) e2(1) fin_def)
  moreover have "unat (off AND NOT (2 ^ k - 1)) \<le> unat off" "unat off < unat (off AND NOT (2 ^ k - 1)) + d"
    using mod_less_divisor [OF d(1), of "unat off"] unfolding down by linarith+
  moreover have "d dvd unat (off AND NOT (2 ^ k - 1))" unfolding down by (rule dvd_minus_mod)
  ultimately show thesis
    using that [of "off AND NOT (2 ^ k - 1)" fin] up le unfolding fin d_def by simp
qed

lemma span_out:
  assumes k: "k < 32" and L: "2 ^ k dvd L" "L < 2 ^ 63" and r: "L < unat off + n" and n: "n < 2 ^ 64"
  shows "\<exists>e. span (2 ^ k) (word_of_nat L) off n = Err e"
proof (cases "checked_add off (word_of_nat n :: u64)")
  case None
  then show ?thesis by (simp add: span_def)
next
  case (Some e1)
  have un: "unat (word_of_nat n :: u64) = n" using n by (simp add: unat_of_nat)
  show ?thesis
  proof (cases "checked_add e1 (2 ^ k - 1)")
    case None
    with Some show ?thesis by (simp add: span_def)
  next
    case s2: (Some e2)
    have "unat e2 = unat off + n + (2 ^ k - 1)"
      using checked_add_Some [OF Some] checked_add_Some [OF s2] un unat_pow_minus_1 [OF k] by simp
    then have "unat off + n \<le> unat (e2 AND NOT (2 ^ k - 1))"
      using and_not_low_bits [of k e2] k round_up_nat(1) [of "2 ^ k" "unat off + n"] by simp
    then have "e2 AND NOT (2 ^ k - 1) > word_of_nat L"
      using r L(2) by (simp add: word_less_nat_alt unat_of_nat)
    then show ?thesis using Some s2 by (simp add: span_def Let_def)
  qed
qed

section \<open>Sector devices\<close>

text \<open>
  A device that accepts requests of whole sectors of \<open>2 ^ k\<close> bytes only: nothing is known of what
  it does with any other request. Over every such device the adapter keeps the whole contract.
\<close>

locale sector_device =
  fixes rd :: "'s read_op" and wr :: "'s write_op" and sz :: "'s \<Rightarrow> u64"
    and inv :: "'s \<Rightarrow> bool" and contents :: "'s \<Rightarrow> bytes" and writable :: "'s \<Rightarrow> bool" and k :: nat
  assumes sector_bits: "k < 32"
    and geometry: "inv s \<Longrightarrow> 2 ^ k dvd length (contents s) \<and> length (contents s) < 2 ^ 63 \<and>
      sz s = word_of_nat (length (contents s))"
    and rd_in: "\<lbrakk>inv s; 2 ^ k dvd unat off; 2 ^ k dvd n; 0 < n; unat off + n \<le> length (contents s)\<rbrakk> \<Longrightarrow>
      fst (rd s off n) = Ok (slice (unat off) (unat off + n) (contents s))"
    and rd_out: "\<lbrakk>inv s; 2 ^ k dvd unat off; 2 ^ k dvd n; 0 < n; length (contents s) < unat off + n\<rbrakk> \<Longrightarrow>
      \<exists>e. fst (rd s off n) = Err e"
    and rd_state: "\<lbrakk>inv s; 2 ^ k dvd unat off; 2 ^ k dvd n\<rbrakk> \<Longrightarrow> inv (snd (rd s off n)) \<and>
      contents (snd (rd s off n)) = contents s \<and> writable (snd (rd s off n)) = writable s"
    and wr_in: "\<lbrakk>inv s; 2 ^ k dvd unat off; 2 ^ k dvd length buf; writable s;
        unat off + length buf \<le> length (contents s)\<rbrakk> \<Longrightarrow>
      fst (wr s off buf) = Ok () \<and> inv (snd (wr s off buf)) \<and> writable (snd (wr s off buf)) \<and>
      contents (snd (wr s off buf)) = put (unat off) buf (contents s)"
    and wr_ro: "\<lbrakk>inv s; 2 ^ k dvd unat off; 2 ^ k dvd length buf; \<not> writable s;
        unat off + length buf \<le> length (contents s)\<rbrakk> \<Longrightarrow>
      (\<exists>e. fst (wr s off buf) = Err e) \<and> inv (snd (wr s off buf)) \<and>
      contents (snd (wr s off buf)) = contents s \<and> \<not> writable (snd (wr s off buf))"
begin

lemma is_aligned_iff: "n < 2 ^ 64 \<Longrightarrow> is_aligned (2 ^ k) off n \<longleftrightarrow> 2 ^ k dvd unat off \<and> 2 ^ k dvd n"
  using sector_bits by (simp add: is_aligned_def word_dvd_pow unat_of_nat)

lemma sector_read:
  assumes "inv s" "2 ^ k dvd unat off" "2 ^ k dvd n" "0 < n" "unat off + n \<le> length (contents s)"
  obtains s' where "rd s off n = (Ok (slice (unat off) (unat off + n) (contents s)), s')"
    "inv s'" "contents s' = contents s" "writable s' = writable s"
  using rd_in [OF assms] rd_state [OF assms(1-3)] by (cases "rd s off n") auto

text \<open>After the edges are filled, every byte the caller does not replace is the device's.\<close>

lemma fill_edges_spec:
  assumes inv: "inv s" and al: "2 ^ k dvd unat start" "2 ^ k dvd N" and N: "0 < N" "unat start + N \<le> length (contents s)"
    and h: "head < 2 ^ k" "head + m \<le> N" "N < head + m + 2 ^ k"
  obtains b s' where "fill_edges rd (2 ^ k) s start head (head + m) (replicate N 0) = (Ok b, s')"
    "inv s'" "contents s' = contents s" "writable s' = writable s" "length b = N"
    "\<And>i. i < N \<Longrightarrow> i < head \<or> head + m \<le> i \<Longrightarrow> b ! i = contents s ! (unat start + i)"
proof -
  define S :: nat where "S = 2 ^ k"
  have S: "0 < S" "S \<le> N" using al(2) N(1) by (auto simp: S_def dvd_imp_le)
  let ?first = "if head \<noteq> 0 then st_bind (rd s start S) (\<lambda>bs s. (Ok (put 0 bs (replicate N 0)), s)) else (Ok (replicate N 0), s)"
  obtain b1 s1 where f: "?first = (Ok b1, s1)" "inv s1" "contents s1 = contents s" "writable s1 = writable s" "length b1 = N"
    "\<And>i. head \<noteq> 0 \<Longrightarrow> i < S \<Longrightarrow> b1 ! i = contents s ! (unat start + i)"
  proof (cases "head = 0")
    case True
    then show thesis using that [of "replicate N 0" s] inv by simp
  next
    case False
    have "unat start + S \<le> length (contents s)" using S N by simp
    then obtain s' where r: "rd s start S = (Ok (slice (unat start) (unat start + S) (contents s)), s')"
      "inv s'" "contents s' = contents s" "writable s' = writable s"
      using sector_read [OF inv al(1), of S] by (auto simp: S_def)
    show thesis using that [of "put 0 (slice (unat start) (unat start + S) (contents s)) (replicate N 0)" s'] r False S N
      by (auto simp: nth_put nth_slice)
  qed
  define last where "last = N - S"
  have lb: "unat start + last < 2 ^ 63" using geometry [OF inv] N S by (auto simp: last_def)
  then have "unat (word_of_nat last :: u64) = last" by (simp add: unat_of_nat)
  then have stl: "unat (start + word_of_nat last) = unat start + last"
    using lb unat_add_no_wrap [of start "word_of_nat last"] by simp
  have dl: "S dvd last" using al(2) by (simp add: last_def S_def)
  consider (skip_tail) "(head + m) mod S = 0" | (one) "last = 0" "head \<noteq> 0" | (both) "(head + m) mod S \<noteq> 0" "last \<noteq> 0 \<or> head = 0"
    by blast
  then show thesis
  proof cases
    case skip_tail
    then have "S dvd N - (head + m)" using al(2) by (simp add: S_def dvd_eq_mod_eq_0 [symmetric])
    then have "head + m = N" using h(2,3) by (auto simp: S_def dest: dvd_imp_le)
    moreover have "fill_edges rd S s start head (head + m) (replicate N 0) = (Ok b1, s1)"
      using f(1) skip_tail by (simp add: fill_edges_def split del: if_split)
    ultimately show thesis using that [of b1 s1] f h(1) by (auto simp: S_def)
  next
    case one
    then have "N = S" using S by (simp add: last_def)
    moreover have "fill_edges rd S s start head (head + m) (replicate N 0) = (Ok b1, s1)"
      using f(1,5) one by (simp add: fill_edges_def last_def Let_def split del: if_split)
    ultimately show thesis using that [of b1 s1] f one(2) by (auto simp: S_def)
  next
    case both
    have "unat (start + word_of_nat last) + S \<le> length (contents s)" "S dvd unat (start + word_of_nat last)"
      using N S dl al(1) dvd_add [of S "unat start" last] unfolding stl by (simp_all add: last_def S_def)
    then obtain s2 where r: "rd s1 (start + word_of_nat last) S = (Ok (slice (unat start + last) (unat start + last + S) (contents s)), s2)"
      "inv s2" "contents s2 = contents s" "writable s2 = writable s"
      using sector_read [OF f(2), of "start + word_of_nat last" S] f(3,4) unfolding stl by (auto simp: S_def)
    let ?b = "put last (slice (unat start + last) (unat start + last + S) (contents s)) b1"
    have "fill_edges rd S s start head (head + m) (replicate N 0) = (Ok ?b, s2)"
    proof -
      have "length b1 - S = last" "length b1 - last = S" using f(5) S by (simp_all add: last_def)
      then show ?thesis using f(1) both r(1) by (auto simp: fill_edges_def Let_def split del: if_split)
    qed
    moreover have "?b ! i = contents s ! (unat start + i)" if "i < N" "i < head \<or> head + m \<le> i" for i
      using that f(5,6) h S N both(2) by (auto simp: nth_put nth_slice last_def S_def)
    moreover have "length ?b = N" using f(5) S N by (simp add: last_def)
    ultimately show thesis using that [of ?b s2] r by (auto simp: S_def)
  qed
qed

lemma aligned_read_spec:
  assumes "inv s" "n < 2 ^ 63"
  shows "0 < n \<Longrightarrow> unat off + n \<le> length (contents s) \<Longrightarrow>
      fst (aligned_read_at rd sz (2 ^ k) s off n) = Ok (slice (unat off) (unat off + n) (contents s))"
    and "0 < n \<Longrightarrow> length (contents s) < unat off + n \<Longrightarrow> \<exists>e. fst (aligned_read_at rd sz (2 ^ k) s off n) = Err e"
    and "inv (snd (aligned_read_at rd sz (2 ^ k) s off n)) \<and>
      contents (snd (aligned_read_at rd sz (2 ^ k) s off n)) = contents s \<and>
      writable (snd (aligned_read_at rd sz (2 ^ k) s off n)) = writable s"
proof -
  note g = geometry [OF assms(1)]
  have al: "is_aligned (2 ^ k) off n \<longleftrightarrow> 2 ^ k dvd unat off \<and> 2 ^ k dvd n" using assms(2) by (simp add: is_aligned_iff)
  have inside: "\<exists>s'. aligned_read_at rd sz (2 ^ k) s off n = (Ok (slice (unat off) (unat off + n) (contents s)), s') \<and>
      inv s' \<and> contents s' = contents s \<and> writable s' = writable s"
    if r: "unat off + n \<le> length (contents s)" and na: "\<not> is_aligned (2 ^ k) off n"
  proof -
    obtain start fin where sp: "span (2 ^ k) (sz s) off n = Ok (start, fin)"
      "2 ^ k dvd unat start" "2 ^ k dvd unat fin" "unat start \<le> unat off"
      "unat off + n \<le> unat fin" "unat fin \<le> length (contents s)"
      using span_in [OF sector_bits] g r by metis
    have df: "unat (fin - start) = unat fin - unat start" "unat (off - start) = unat off - unat start"
      using sp(4,5) by (simp_all add: unat_sub word_le_nat_alt)
    have "unat start < unat fin"
    proof (rule ccontr)
      assume "\<not> unat start < unat fin"
      then have "unat off = unat start" "n = 0" using sp(4,5) by linarith+
      with na sp(2) show False by (simp add: is_aligned_iff)
    qed
    moreover have "2 ^ k dvd unat fin - unat start" using sp(2,3) by (rule dvd_diff_nat [rotated])
    ultimately obtain s' where rd: "rd s start (unat fin - unat start) = (Ok (slice (unat start) (unat fin) (contents s)), s')"
      "inv s'" "contents s' = contents s" "writable s' = writable s"
      using sector_read [OF assms(1) sp(2), of "unat fin - unat start"] sp(4-6) by auto
    have "aligned_read_at rd sz (2 ^ k) s off n = (get_slice (unat off - unat start) (unat off - unat start + n)
        (slice (unat start) (unat fin) (contents s)), s')"
      using na sp(1) df rd(1) by (simp add: aligned_read_at_def Let_def)
    also have "get_slice (unat off - unat start) (unat off - unat start + n) (slice (unat start) (unat fin) (contents s))
        = Ok (slice (unat off) (unat off + n) (contents s))"
      using sp(4-6) by (auto simp: get_slice_def slice_slice)
    finally show ?thesis using rd by simp
  qed
  have outside: "\<exists>e. aligned_read_at rd sz (2 ^ k) s off n = (Err e, s)"
    if "length (contents s) < unat off + n" "\<not> is_aligned (2 ^ k) off n"
    using span_out [OF sector_bits, of "length (contents s)" off n] g that assms(2)
    by (auto simp: aligned_read_at_def)
  show "fst (aligned_read_at rd sz (2 ^ k) s off n) = Ok (slice (unat off) (unat off + n) (contents s))"
    if "0 < n" "unat off + n \<le> length (contents s)"
    using inside [OF that(2)] rd_in [OF assms(1) _ _ that] al
    by (cases "is_aligned (2 ^ k) off n") (auto simp: aligned_read_at_def)
  show "\<exists>e. fst (aligned_read_at rd sz (2 ^ k) s off n) = Err e" if "0 < n" "length (contents s) < unat off + n"
    using outside [OF that(2)] rd_out [OF assms(1) _ _ that] al
    by (cases "is_aligned (2 ^ k) off n") (auto simp: aligned_read_at_def)
  show "inv (snd (aligned_read_at rd sz (2 ^ k) s off n)) \<and>
      contents (snd (aligned_read_at rd sz (2 ^ k) s off n)) = contents s \<and>
      writable (snd (aligned_read_at rd sz (2 ^ k) s off n)) = writable s"
    using inside outside rd_state [OF assms(1)] al assms(1)
    by (cases "is_aligned (2 ^ k) off n"; cases "unat off + n \<le> length (contents s)")
      (auto simp: aligned_read_at_def not_le)
qed

lemma put_via_span:
  assumes "length b = N" "start + N \<le> length xs" "start \<le> off" "off + length buf \<le> start + N"
    and "\<And>i. i < N \<Longrightarrow> i < off - start \<or> off - start + length buf \<le> i \<Longrightarrow> b ! i = xs ! (start + i)"
  shows "put start (put (off - start) buf b) xs = put off buf xs"
proof (rule nth_equalityI)
  show "length (put start (put (off - start) buf b) xs) = length (put off buf xs)" using assms by simp
  fix i assume "i < length (put start (put (off - start) buf b) xs)"
  then show "put start (put (off - start) buf b) xs ! i = put off buf xs ! i"
    using assms(1-4) assms(5) [of "i - start"]
    by (cases "i < off") (auto simp: nth_put diff_less_mono)
qed

lemma aligned_write_unaligned:
  assumes "inv s" "unat off + length buf \<le> length (contents s)" "\<not> is_aligned (2 ^ k) off (length buf)"
  obtains s' start b where "aligned_write_at rd wr sz (2 ^ k) s off buf = wr s' start b"
    "inv s'" "contents s' = contents s" "writable s' = writable s" "2 ^ k dvd unat start" "2 ^ k dvd length b"
    "unat start + length b \<le> length (contents s)" "put (unat start) b (contents s) = put (unat off) buf (contents s)"
proof -
  note g = geometry [OF assms(1)]
  let ?n = "length buf"
  obtain start fin where sp: "span (2 ^ k) (sz s) off ?n = Ok (start, fin)"
    "2 ^ k dvd unat start" "2 ^ k dvd unat fin" "unat start \<le> unat off" "unat off < unat start + 2 ^ k"
    "unat off + ?n \<le> unat fin" "unat fin < unat off + ?n + 2 ^ k" "unat fin \<le> length (contents s)"
    using span_in [OF sector_bits, of "length (contents s)" off ?n] g assms(2) by metis
  define N head where "N = unat fin - unat start" and "head = unat off - unat start"
  have df: "unat (fin - start) = N" "unat (off - start) = head"
    using sp(4,6) by (simp_all add: unat_sub word_le_nat_alt N_def head_def)
  have dN: "2 ^ k dvd N" using sp(2,3) unfolding N_def by (rule dvd_diff_nat [rotated])
  have "0 < N"
  proof (rule ccontr)
    assume "\<not> 0 < N"
    then have "unat off = unat start" "?n = 0" using sp(4,6) unfolding N_def by linarith+
    with assms(3) sp(2) show False by (simp add: is_aligned_iff)
  qed
  moreover have "unat start + N \<le> length (contents s)" "head < 2 ^ k" "head + ?n \<le> N" "N < head + ?n + 2 ^ k"
    using sp(4-8) by (auto simp: N_def head_def)
  ultimately obtain b s' where fe: "fill_edges rd (2 ^ k) s start head (head + ?n) (replicate N 0) = (Ok b, s')"
    "inv s'" "contents s' = contents s" "writable s' = writable s" "length b = N"
    "\<And>i. i < N \<Longrightarrow> i < head \<or> head + ?n \<le> i \<Longrightarrow> b ! i = contents s ! (unat start + i)"
    using fill_edges_spec [OF assms(1) sp(2) dN] by metis
  have "aligned_write_at rd wr sz (2 ^ k) s off buf = wr s' start (put head buf b)"
    using assms(3) sp(1) fe(1) df unat_pow2 [OF sector_bits] by (simp add: aligned_write_at_def Let_def)
  moreover have "length (put head buf b) = N" using fe(5) \<open>head + ?n \<le> N\<close> by simp
  moreover have "put (unat start) (put head buf b) (contents s) = put (unat off) buf (contents s)"
    using put_via_span [of b N "unat start" "contents s" "unat off" buf] fe(5,6) sp(4) \<open>unat start + N \<le> length (contents s)\<close>
      \<open>head + ?n \<le> N\<close> unfolding head_def by auto
  ultimately show thesis using that fe(2-4) sp(2) dN \<open>unat start + N \<le> length (contents s)\<close> by metis
qed

lemma aligned_write_spec:
  assumes "inv s" "unat off + length buf \<le> length (contents s)"
  shows "writable s \<Longrightarrow> fst (aligned_write_at rd wr sz (2 ^ k) s off buf) = Ok () \<and>
      inv (snd (aligned_write_at rd wr sz (2 ^ k) s off buf)) \<and> writable (snd (aligned_write_at rd wr sz (2 ^ k) s off buf)) \<and>
      contents (snd (aligned_write_at rd wr sz (2 ^ k) s off buf)) = put (unat off) buf (contents s)"
    and "\<not> writable s \<Longrightarrow> (\<exists>e. fst (aligned_write_at rd wr sz (2 ^ k) s off buf) = Err e) \<and>
      inv (snd (aligned_write_at rd wr sz (2 ^ k) s off buf)) \<and>
      contents (snd (aligned_write_at rd wr sz (2 ^ k) s off buf)) = contents s \<and>
      \<not> writable (snd (aligned_write_at rd wr sz (2 ^ k) s off buf))"
proof -
  obtain s' start b where w: "aligned_write_at rd wr sz (2 ^ k) s off buf = wr s' start b"
    "inv s'" "contents s' = contents s" "writable s' = writable s" "2 ^ k dvd unat start" "2 ^ k dvd length b"
    "unat start + length b \<le> length (contents s)" "put (unat start) b (contents s) = put (unat off) buf (contents s)"
  proof (cases "is_aligned (2 ^ k) off (length buf)")
    case True
    moreover have "length buf < 2 ^ 64" using geometry [OF assms(1)] assms(2) by auto
    ultimately show thesis using that [of s off buf] assms is_aligned_iff by (auto simp: aligned_write_at_def)
  next
    case False
    then show thesis using that aligned_write_unaligned [OF assms] by metis
  qed
  then show "writable s \<Longrightarrow> fst (aligned_write_at rd wr sz (2 ^ k) s off buf) = Ok () \<and>
      inv (snd (aligned_write_at rd wr sz (2 ^ k) s off buf)) \<and> writable (snd (aligned_write_at rd wr sz (2 ^ k) s off buf)) \<and>
      contents (snd (aligned_write_at rd wr sz (2 ^ k) s off buf)) = put (unat off) buf (contents s)"
    using wr_in [of s' start b] by simp
  show "\<not> writable s \<Longrightarrow> (\<exists>e. fst (aligned_write_at rd wr sz (2 ^ k) s off buf) = Err e) \<and>
      inv (snd (aligned_write_at rd wr sz (2 ^ k) s off buf)) \<and>
      contents (snd (aligned_write_at rd wr sz (2 ^ k) s off buf)) = contents s \<and>
      \<not> writable (snd (aligned_write_at rd wr sz (2 ^ k) s off buf))"
    using w wr_ro [of s' start b] by simp
qed

end

sublocale sector_device \<subseteq> aligned: block_device "aligned_read_at rd sz (2 ^ k)" "aligned_write_at rd wr sz (2 ^ k)" inv contents writable
proof
  fix s and off :: u64 and n :: nat and buf :: bytes
  show "inv s \<Longrightarrow> 0 < n \<Longrightarrow> unat off + n \<le> length (contents s) \<Longrightarrow>
      fst (aligned_read_at rd sz (2 ^ k) s off n) = Ok (slice (unat off) (unat off + n) (contents s))"
    using aligned_read_spec(1) [of s n off] geometry [of s] by auto
qed (use aligned_read_spec aligned_write_spec geometry in blast)+

context sector_device begin

lemma aligned_block_device:
  "block_device (aligned_read_at rd sz (2 ^ k)) (aligned_write_at rd wr sz (2 ^ k)) inv contents writable"
  by (rule aligned.block_device_axioms)

end

text \<open>
  The strict device of the source's tests: it refuses every request that is not whole sectors. The
  adapter over it is a block device.
\<close>

definition strict_read_at :: "nat \<Rightarrow> file_device read_op" where
  "strict_read_at S d off n = (if unat off mod S = 0 \<and> n mod S = 0 then file_read_at d off n
     else (Err (Corrupt ''unaligned request''), d))"

definition strict_write_at :: "nat \<Rightarrow> file_device write_op" where
  "strict_write_at S d off buf = (if unat off mod S = 0 \<and> length buf mod S = 0 then file_write_at d off buf
     else (Err (Corrupt ''unaligned request''), d))"

definition strict_inv :: "nat \<Rightarrow> file_device \<Rightarrow> bool" where
  "strict_inv S d \<longleftrightarrow> file_inv d \<and> length (fd_bytes d) mod S = 0 \<and> fd_size d = word_of_nat (length (fd_bytes d))"

interpretation strict: sector_device "strict_read_at (2 ^ 9)" "strict_write_at (2 ^ 9)" fd_size "strict_inv (2 ^ 9)" fd_bytes fd_writable 9
proof
  fix s :: file_device and off :: u64 and n :: nat and buf :: bytes
  note defs = strict_inv_def strict_read_at_def strict_write_at_def mod_0_imp_dvd
  show "strict_inv (2 ^ 9) s \<Longrightarrow> 2 ^ 9 dvd length (fd_bytes s) \<and> length (fd_bytes s) < 2 ^ 63 \<and> fd_size s = word_of_nat (length (fd_bytes s))"
    by (auto simp: defs file_inv_def)
  show "strict_inv (2 ^ 9) s \<Longrightarrow> 2 ^ 9 dvd unat off \<Longrightarrow> 2 ^ 9 dvd n \<Longrightarrow> 0 < n \<Longrightarrow> unat off + n \<le> length (fd_bytes s) \<Longrightarrow>
      fst (strict_read_at (2 ^ 9) s off n) = Ok (slice (unat off) (unat off + n) (fd_bytes s))"
    using file_dev.read_in [of s n off] by (simp add: defs)
  show "strict_inv (2 ^ 9) s \<Longrightarrow> 2 ^ 9 dvd unat off \<Longrightarrow> 2 ^ 9 dvd n \<Longrightarrow> 0 < n \<Longrightarrow> length (fd_bytes s) < unat off + n \<Longrightarrow>
      \<exists>e. fst (strict_read_at (2 ^ 9) s off n) = Err e"
    by (simp add: defs file_read_at_def)
  show "strict_inv (2 ^ 9) s \<Longrightarrow> 2 ^ 9 dvd unat off \<Longrightarrow> 2 ^ 9 dvd n \<Longrightarrow> strict_inv (2 ^ 9) (snd (strict_read_at (2 ^ 9) s off n)) \<and>
      fd_bytes (snd (strict_read_at (2 ^ 9) s off n)) = fd_bytes s \<and> fd_writable (snd (strict_read_at (2 ^ 9) s off n)) = fd_writable s"
    by (simp add: defs file_read_at_def)
  show "strict_inv (2 ^ 9) s \<Longrightarrow> 2 ^ 9 dvd unat off \<Longrightarrow> 2 ^ 9 dvd length buf \<Longrightarrow> fd_writable s \<Longrightarrow>
      unat off + length buf \<le> length (fd_bytes s) \<Longrightarrow> fst (strict_write_at (2 ^ 9) s off buf) = Ok () \<and>
      strict_inv (2 ^ 9) (snd (strict_write_at (2 ^ 9) s off buf)) \<and> fd_writable (snd (strict_write_at (2 ^ 9) s off buf)) \<and>
      fd_bytes (snd (strict_write_at (2 ^ 9) s off buf)) = put (unat off) buf (fd_bytes s)"
    using file_dev.write_in [of s off buf] by (auto simp: defs file_write_at_def)
  show "strict_inv (2 ^ 9) s \<Longrightarrow> 2 ^ 9 dvd unat off \<Longrightarrow> 2 ^ 9 dvd length buf \<Longrightarrow> \<not> fd_writable s \<Longrightarrow>
      unat off + length buf \<le> length (fd_bytes s) \<Longrightarrow> (\<exists>e. fst (strict_write_at (2 ^ 9) s off buf) = Err e) \<and>
      strict_inv (2 ^ 9) (snd (strict_write_at (2 ^ 9) s off buf)) \<and>
      fd_bytes (snd (strict_write_at (2 ^ 9) s off buf)) = fd_bytes s \<and> \<not> fd_writable (snd (strict_write_at (2 ^ 9) s off buf))"
    by (simp add: defs file_write_at_def)
qed simp

section \<open>Properties\<close>

text \<open>
  C18. \<open>AlignedDevice\<close> presents a byte-granular device over one that takes whole sectors only. Over every
  device that behaves on requests of whole sectors (nothing is assumed of what it does with others), a
  read of any offset and length inside the image returns exactly those bytes and changes nothing, one
  that reaches past the end fails, and a write of any offset and length on a writable device replaces
  exactly its bytes: the partial sectors at both ends keep theirs.
\<close>

theorem aligned_device_correct:
  assumes dev: "sector_device rd wr sz ok contents writable k" and s: "ok s"
    and n: "0 < n" "n < 2 ^ 63" and buf: "unat woff + length buf \<le> length (contents s)"
  shows "(case aligned_read_at rd sz (2 ^ k) s off n of (r, s') \<Rightarrow> ok s' \<and> contents s' = contents s \<and>
        (if unat off + n \<le> length (contents s) then r = Ok (slice (unat off) (unat off + n) (contents s))
         else \<exists>e. r = Err e)) \<and>
      (case aligned_write_at rd wr sz (2 ^ k) s woff buf of (r, s') \<Rightarrow> ok s' \<and>
        (if writable s then r = Ok () \<and> writable s' \<and> contents s' = put (unat woff) buf (contents s)
         else (\<exists>e. r = Err e) \<and> contents s' = contents s))"
proof
  have bd: "block_device (aligned_read_at rd sz (2 ^ k)) (aligned_write_at rd wr sz (2 ^ k)) ok contents writable"
    using dev by (rule sector_device.aligned_block_device)
  show "case aligned_read_at rd sz (2 ^ k) s off n of (r, s') \<Rightarrow> ok s' \<and> contents s' = contents s \<and>
        (if unat off + n \<le> length (contents s) then r = Ok (slice (unat off) (unat off + n) (contents s))
         else \<exists>e. r = Err e)"
    using block_device.read_in [OF bd s n(1), of off] block_device.read_out [OF bd s n, of off]
      block_device.read_state [OF bd s n, of off] by (auto simp: split_beta)
  show "case aligned_write_at rd wr sz (2 ^ k) s woff buf of (r, s') \<Rightarrow> ok s' \<and>
        (if writable s then r = Ok () \<and> writable s' \<and> contents s' = put (unat woff) buf (contents s)
         else (\<exists>e. r = Err e) \<and> contents s' = contents s)"
    using block_device.write_in [OF bd s _ buf] block_device.write_ro [OF bd s _ buf] by (auto simp: split_beta)
qed

theorem aligned_device_correct_witness:
  "\<exists>s'. aligned_write_at (strict_read_at 512) (strict_write_at 512) fd_size 512
       (file_open (replicate 1024 0) True) 510 [1, 2, 3, 4] = (Ok (), s') \<and>
     fd_bytes s' = put 510 [1, 2, 3, 4] (replicate 1024 0)"
proof -
  let ?d = "file_open (replicate 1024 0) True"
  have "strict_inv (2 ^ 9) ?d" by (simp add: strict_inv_def file_open_def file_inv_def)
  from aligned_device_correct [OF strict.sector_device_axioms this, where off = 510 and n = 4 and woff = 510 and buf = "[1, 2, 3, 4]"]
  show ?thesis by (auto simp: file_open_def split_beta intro!: prod_eqI)
qed

end
