(* ===== verification/Block_Cache.thy ===== *)
theory Block_Cache
  imports Block_IO "HOL-Library.AList"
begin

text \<open>
  The buffer cache (\<open>src/block_cache.rs\<close>). The two hash maps of \<open>CacheState\<close> are association lists
  with distinct keys; a Rust hash map has no order, and no theorem below depends on the order of the
  lists. The inner device is any device that keeps the contract of \<open>block_device\<close>; the cached
  device is shown to keep it too, on the image the cache presents: the inner image overlaid with the
  pinned blocks. The lock is not modelled: every operation runs alone.
\<close>

section \<open>The cache state\<close>

type_synonym entry_map = "(u64 \<times> bytes \<times> u64) list"

record cache_state =
  cs_capacity :: nat
  cs_entries :: entry_map
  cs_pinned :: "(u64 \<times> bytes) list"
  cs_next_seq :: u64
  cs_hits :: u64
  cs_misses :: u64

definition cs_new :: "nat \<Rightarrow> cache_state" where
  "cs_new n = \<lparr>cs_capacity = n, cs_entries = [], cs_pinned = [], cs_next_seq = 0, cs_hits = 0, cs_misses = 0\<rparr>"

definition next_seq :: "cache_state \<Rightarrow> u64 \<times> cache_state" where
  "next_seq c = (cs_next_seq c, c\<lparr>cs_next_seq := cs_next_seq c + 1\<rparr>)"

definition cs_get :: "u64 \<Rightarrow> cache_state \<Rightarrow> bytes option \<times> cache_state" where
  "cs_get block c = (case map_of (cs_pinned c) block of
     Some bs \<Rightarrow> (Some bs, c\<lparr>cs_hits := cs_hits c + 1\<rparr>)
   | None \<Rightarrow> (let (sq, c) = next_seq c in
       case map_of (cs_entries c) block of
         Some (bs, _) \<Rightarrow> (Some bs, c\<lparr>cs_entries := AList.update block (bs, sq) (cs_entries c), cs_hits := cs_hits c + 1\<rparr>)
       | None \<Rightarrow> (None, c\<lparr>cs_misses := cs_misses c + 1\<rparr>)))"

text \<open>\<open>entries.iter().min_by_key(|(_, (_, seq))| *seq)\<close>: the key of the entry used longest ago.\<close>

fun oldest :: "entry_map \<Rightarrow> (u64 \<times> u64) option" where
  "oldest [] = None"
| "oldest ((b, _, sq) # es) = (case oldest es of
     None \<Rightarrow> Some (b, sq)
   | Some (b', sq') \<Rightarrow> if sq \<le> sq' then Some (b, sq) else Some (b', sq'))"

text \<open>The insertion \<open>put\<close> and \<open>unpin_all\<close> share: nothing at capacity zero, else evict and insert.\<close>

definition insert_clean :: "u64 \<Rightarrow> bytes \<Rightarrow> cache_state \<Rightarrow> cache_state" where
  "insert_clean block bs c =
     (if cs_capacity c = 0 then c
      else let c = (if length (cs_entries c) \<ge> cs_capacity c
                    then (case oldest (cs_entries c) of
                            Some (victim, _) \<Rightarrow> c\<lparr>cs_entries := AList.delete victim (cs_entries c)\<rparr> | None \<Rightarrow> c)
                    else c);
               (sq, c) = next_seq c
           in c\<lparr>cs_entries := AList.update block (bs, sq) (cs_entries c)\<rparr>)"

definition cs_put :: "u64 \<Rightarrow> bytes \<Rightarrow> cache_state \<Rightarrow> cache_state" where
  "cs_put block bs c = (case map_of (cs_pinned c) block of
     Some _ \<Rightarrow> c\<lparr>cs_pinned := AList.update block bs (cs_pinned c)\<rparr>
   | None \<Rightarrow> insert_clean block bs c)"

definition cs_pin :: "u64 \<Rightarrow> bytes \<Rightarrow> cache_state \<Rightarrow> cache_state" where
  "cs_pin block bs c = c\<lparr>cs_entries := AList.delete block (cs_entries c),
     cs_pinned := AList.update block bs (cs_pinned c)\<rparr>"

definition cs_unpin_all :: "cache_state \<Rightarrow> cache_state" where
  "cs_unpin_all c = fold (\<lambda>(block, bs). insert_clean block bs) (cs_pinned c) (c\<lparr>cs_pinned := []\<rparr>)"

section \<open>The cached device\<close>

record 's cached_device =
  cd_inner :: 's
  cd_block_size :: u32
  cd_state :: cache_state

definition cached_new :: "'s \<Rightarrow> u32 \<Rightarrow> nat \<Rightarrow> 's cached_device" where
  "cached_new d bs n = \<lparr>cd_inner = d, cd_block_size = bs, cd_state = cs_new n\<rparr>"

definition stats :: "'s cached_device \<Rightarrow> u64 \<times> u64" where
  "stats c = (cs_hits (cd_state c), cs_misses (cd_state c))"

definition pinned_blocks :: "'s cached_device \<Rightarrow> nat" where
  "pinned_blocks c = length (cs_pinned (cd_state c))"

definition with_inner :: "('s \<Rightarrow> 'a result \<times> 's) \<Rightarrow> 's cached_device \<Rightarrow> ('s cached_device, 'a) dev_result" where
  "with_inner f c = (case f (cd_inner c) of (r, s) \<Rightarrow> (r, c\<lparr>cd_inner := s\<rparr>))"

text \<open>\<open>dst[i..j].copy_from_slice(src)\<close>: it unwinds unless the range fits and the lengths agree.\<close>

definition copy_into :: "nat \<Rightarrow> nat \<Rightarrow> bytes \<Rightarrow> bytes \<Rightarrow> bytes result" where
  "copy_into i j src dst = (if i \<le> j \<and> j \<le> length dst \<and> length src = j - i then Ok (put i src dst) else Panic)"

text \<open>The half-open range \<open>a..b\<close> of 64-bit integers.\<close>

definition word_range :: "u64 \<Rightarrow> u64 \<Rightarrow> u64 list" where
  "word_range a b = map word_of_nat [unat a ..< unat b]"

definition lay_pinned :: "u64 \<Rightarrow> u64 \<Rightarrow> nat \<Rightarrow> (u64 \<times> bytes) list \<Rightarrow> u64 \<Rightarrow> bytes \<Rightarrow> bytes result" where
  "lay_pinned bs off n pins block buf = (case map_of pins block of
     None \<Rightarrow> Ok buf
   | Some img \<Rightarrow>
       let fin = off + word_of_nat n;
           block_start = block * bs;
           from = max off block_start;
           upto = min fin (block_start + bs)
       in and_then (get_slice (unat (from - block_start)) (unat (upto - block_start)) img)
            (\<lambda>src. copy_into (unat (from - off)) (unat (upto - off)) src buf))"

fun lay_blocks :: "(u64 \<Rightarrow> 'a \<Rightarrow> 'a result) \<Rightarrow> u64 list \<Rightarrow> 'a \<Rightarrow> 'a result" where
  "lay_blocks f [] x = Ok x"
| "lay_blocks f (b # blks) x = and_then (f b x) (lay_blocks f blks)"

definition cached_read_at :: "'s read_op \<Rightarrow> 's cached_device read_op" where
  "cached_read_at rd c off n =
     (let bs = (ucast (cd_block_size c) :: u64);
          block = off div bs;
          o' = unat (off mod bs)
      in if bs = 0 then (Panic, c)
         else if o' + n \<le> unat bs
         then (case cs_get block (cd_state c) of
             (Some blk, st) \<Rightarrow> (get_slice o' (o' + n) blk, c\<lparr>cd_state := st\<rparr>)
           | (None, st) \<Rightarrow>
               st_bind (with_inner (\<lambda>s. rd s (block * bs) (unat bs)) (c\<lparr>cd_state := st\<rparr>)) (\<lambda>blk c.
                 (get_slice o' (o' + n) blk, c\<lparr>cd_state := cs_put block blk (cd_state c)\<rparr>)))
         else st_bind (with_inner (\<lambda>s. rd s off n) c) (\<lambda>buf c.
           if cs_pinned (cd_state c) = [] then (Ok buf, c)
           else (lay_blocks (lay_pinned bs off n (cs_pinned (cd_state c)))
                   (word_range (off div bs) (div_ceil (off + word_of_nat n) bs)) buf, c)))"

text \<open>One block of an unaligned or multi-block write: patch a pinned image, drop a clean entry.\<close>

definition write_block :: "u64 \<Rightarrow> u64 \<Rightarrow> bytes \<Rightarrow> u64 \<Rightarrow> cache_state \<Rightarrow> cache_state result" where
  "write_block bs off buf b c =
     (let block_start = b * bs;
          block_end = block_start + bs;
          buf_end_byte = off + word_of_nat (length buf);
          write_start = max off block_start;
          write_end = min buf_end_byte block_end
      in and_then (case map_of (cs_pinned c) b of
             None \<Rightarrow> Ok c
           | Some img \<Rightarrow>
               and_then (get_slice (unat (write_start - off)) (unat (write_end - off)) buf) (\<lambda>src.
               and_then (copy_into (unat (write_start - block_start)) (unat (write_end - block_start)) src img) (\<lambda>img.
               Ok (c\<lparr>cs_pinned := AList.update b img (cs_pinned c)\<rparr>))))
           (\<lambda>c. Ok (c\<lparr>cs_entries := AList.delete b (cs_entries c)\<rparr>)))"

fun keep_state :: "'s cached_device \<Rightarrow> cache_state result \<Rightarrow> ('s cached_device, unit) dev_result" where
  "keep_state c (Ok st) = (Ok (), c\<lparr>cd_state := st\<rparr>)"
| "keep_state c (Err e) = (Err e, c)"
| "keep_state c Panic = (Panic, c)"

definition cached_write_at :: "'s write_op \<Rightarrow> 's cached_device write_op" where
  "cached_write_at wr c off buf =
     st_bind (with_inner (\<lambda>s. wr s off buf) c) (\<lambda>_ c.
       let bs = (ucast (cd_block_size c) :: u64) in
       if bs = 0 then (Panic, c)
       else if off mod bs = 0 \<and> length buf = unat bs
       then (Ok (), c\<lparr>cd_state := cs_put (off div bs) buf (cd_state c)\<rparr>)
       else let first_block = off div bs;
                last_block = saturating_sub (off + word_of_nat (length buf)) 1 div bs
            in keep_state c (lay_blocks (write_block bs off buf)
                 (if first_block \<le> last_block then word_range first_block last_block @ [last_block] else [])
                 (cd_state c)))"

definition cached_populate_cache :: "u64 \<Rightarrow> bytes \<Rightarrow> 's cached_device \<Rightarrow> 's cached_device" where
  "cached_populate_cache block bs c = c\<lparr>cd_state := cs_pin block bs (cd_state c)\<rparr>"

definition cached_unpin_all :: "'s cached_device \<Rightarrow> 's cached_device" where
  "cached_unpin_all c = c\<lparr>cd_state := cs_unpin_all (cd_state c)\<rparr>"

definition cached_invalidate_cache :: "('s \<Rightarrow> unit result \<times> 's) \<Rightarrow> 's cached_device \<Rightarrow> ('s cached_device, unit) dev_result" where
  "cached_invalidate_cache inval c =
     (if cs_pinned (cd_state c) \<noteq> [] then (Err (Corrupt ''cache contains uncheckpointed journal metadata''), c)
      else st_bind (with_inner inval c) (\<lambda>_ c. (Ok (), c\<lparr>cd_state := (cd_state c)\<lparr>cs_entries := []\<rparr>\<rparr>)))"

definition cached_flush :: "('s \<Rightarrow> unit result \<times> 's) \<Rightarrow> 's cached_device \<Rightarrow> ('s cached_device, unit) dev_result" where
  "cached_flush fl c = with_inner fl c"

definition cached_is_writable :: "('s \<Rightarrow> bool) \<Rightarrow> 's cached_device \<Rightarrow> bool" where
  "cached_is_writable wr c = wr (cd_inner c)"

section \<open>What the cache presents\<close>

text \<open>
  The image a reader of the cached device sees: the inner image with every pinned block in place. The
  invariant: clean entries are the inner device's blocks and none of them is pinned, pinned images
  are whole blocks inside the image, and the clean entries respect the capacity.
\<close>

definition view :: "nat \<Rightarrow> (u64 \<times> bytes) list \<Rightarrow> bytes \<Rightarrow> bytes" where
  "view bs pins img = map (\<lambda>i. case map_of pins (word_of_nat (i div bs)) of
     Some x \<Rightarrow> x ! (i mod bs) | None \<Rightarrow> img ! i) [0 ..< length img]"

definition block_of :: "nat \<Rightarrow> u64 \<Rightarrow> bytes \<Rightarrow> bytes" where
  "block_of bs b img = slice (unat b * bs) (unat b * bs + bs) img"

definition cache_wf :: "nat \<Rightarrow> bytes \<Rightarrow> cache_state \<Rightarrow> bool" where
  "cache_wf bs img c \<longleftrightarrow> distinct (map fst (cs_entries c)) \<and> distinct (map fst (cs_pinned c)) \<and>
     length (cs_entries c) \<le> cs_capacity c \<and>
     (\<forall>b x sq. map_of (cs_entries c) b = Some (x, sq) \<longrightarrow> map_of (cs_pinned c) b = None \<and>
        unat b * bs + bs \<le> length img \<and> x = block_of bs b img) \<and>
     (\<forall>b x. map_of (cs_pinned c) b = Some x \<longrightarrow> unat b * bs + bs \<le> length img \<and> length x = bs)"

definition cached_inv :: "('s \<Rightarrow> bool) \<Rightarrow> ('s \<Rightarrow> bytes) \<Rightarrow> 's cached_device \<Rightarrow> bool" where
  "cached_inv ok img c \<longleftrightarrow> ok (cd_inner c) \<and> cd_block_size c \<noteq> 0 \<and>
     unat (cd_block_size c) dvd length (img (cd_inner c)) \<and>
     cache_wf (unat (cd_block_size c)) (img (cd_inner c)) (cd_state c)"

definition cached_view :: "('s \<Rightarrow> bytes) \<Rightarrow> 's cached_device \<Rightarrow> bytes" where
  "cached_view img c = view (unat (cd_block_size c)) (cs_pinned (cd_state c)) (img (cd_inner c))"

lemma length_view [simp]: "length (view bs pins img) = length img"
  by (simp add: view_def)

lemma nth_view: "i < length img \<Longrightarrow> view bs pins img ! i = (case map_of pins (word_of_nat (i div bs)) of
     Some x \<Rightarrow> x ! (i mod bs) | None \<Rightarrow> img ! i)"
  by (simp add: view_def split: option.splits)

lemma view_no_pins [simp]: "view bs [] img = img"
  by (auto intro: nth_equalityI simp: nth_view)

lemma in_block_div:
  fixes b bs :: nat shows "b * bs \<le> i \<Longrightarrow> i < b * bs + bs \<Longrightarrow> i div bs = b \<and> i mod bs = i - b * bs"
proof -
  assume a: "b * bs \<le> i" "i < b * bs + bs"
  then obtain j where j: "i = b * bs + j" "j < bs" by (metis le_Suc_ex nat_add_left_cancel_less)
  then show ?thesis by simp
qed

lemma div_block_iff:
  fixes bs :: nat assumes "0 < bs" shows "i div bs = b \<longleftrightarrow> b * bs \<le> i \<and> i < b * bs + bs"
  using in_block_div [of b bs i] dividend_less_div_times [OF assms, of i] by (auto simp: add.commute)

lemma length_block_of: "unat b * bs + bs \<le> length img \<Longrightarrow> length (block_of bs b img) = bs"
  by (simp add: block_of_def)

lemma block_of_view:
  assumes "unat b * bs + bs \<le> length img" "\<And>x. map_of pins b = Some x \<Longrightarrow> length x = bs"
  shows "block_of bs b (view bs pins img) = (case map_of pins b of Some x \<Rightarrow> x | None \<Rightarrow> block_of bs b img)"
proof (rule nth_equalityI)
  show "length (block_of bs b (view bs pins img)) = length (case map_of pins b of Some x \<Rightarrow> x | None \<Rightarrow> block_of bs b img)"
    using assms by (auto simp: block_of_def split: option.splits)
  fix j assume "j < length (block_of bs b (view bs pins img))"
  then have j: "j < bs" using assms(1) by (simp add: block_of_def)
  have "(unat b * bs + j) div bs = unat b" "(unat b * bs + j) mod bs = j" using j by auto
  then show "block_of bs b (view bs pins img) ! j = (case map_of pins b of Some x \<Rightarrow> x | None \<Rightarrow> block_of bs b img) ! j"
    using assms j by (auto simp: block_of_def nth_slice nth_view split: option.splits)
qed

lemma block_of_put_other:
  assumes "off + length ys \<le> length img" "unat b * bs + bs \<le> length img"
    "unat b * bs + bs \<le> off \<or> off + length ys \<le> unat b * bs"
  shows "block_of bs b (put off ys img) = block_of bs b img"
  using assms by (auto simp: block_of_def slice_simps)

lemma block_of_put_same:
  "unat b * bs + bs \<le> length img \<Longrightarrow> length x = bs \<Longrightarrow> block_of bs b (put (unat b * bs) x img) = x"
  by (simp add: block_of_def slice_simps)

lemma put_block_of: "unat b * bs + bs \<le> length img \<Longrightarrow> put (unat b * bs) (block_of bs b img) img = img"
  by (rule nth_equalityI) (auto simp: nth_put block_of_def nth_slice)

lemma blocks_disjoint: "b \<noteq> b' \<Longrightarrow> unat b * bs + bs \<le> unat b' * bs \<or> unat b' * bs + bs \<le> unat b * bs"
proof -
  assume "b \<noteq> b'"
  then have "unat b + 1 \<le> unat b' \<or> unat b' + 1 \<le> unat b" by (metis Suc_eq_plus1 Suc_leI linorder_neqE_nat word_unat_eq_iff)
  then have "(unat b + 1) * bs \<le> unat b' * bs \<or> (unat b' + 1) * bs \<le> unat b * bs" using mult_le_mono1 by blast
  then show ?thesis by (simp add: algebra_simps)
qed

section \<open>The cache keeps its invariant\<close>

declare map_of_eq_Some_iff [simp del]

lemma map_of_alist [simp]:
  "map_of (AList.update k v al) = (map_of al)(k \<mapsto> v)" "map_of (AList.delete k al) = (map_of al)(k := None)"
  by (rule update_conv', rule delete_conv')

lemma distinct_alist [simp]:
  "distinct (map fst al) \<Longrightarrow> distinct (map fst (AList.update k v al))"
  "distinct (map fst al) \<Longrightarrow> distinct (map fst (AList.delete k al))"
  by (rule distinct_update, assumption, rule distinct_delete)

lemma length_update: "length (AList.update k v al) = (if map_of al k = None then Suc (length al) else length al)"
  by (induction al) auto

lemma length_delete_member: "k \<in> fst ` set al \<Longrightarrow> length (AList.delete k al) < length al"
proof (induction al)
  case (Cons a al)
  have "length (AList.delete k al) \<le> length al" by (rule length_delete_le)
  with Cons show ?case by (cases "fst a = k") (simp_all add: less_Suc_eq_le)
qed simp

lemma oldest_member: "oldest es = Some (b, sq) \<Longrightarrow> b \<in> fst ` set es"
  by (induction es arbitrary: b sq rule: oldest.induct) (auto split: option.splits if_splits)

lemma oldest_None: "oldest es = None \<longleftrightarrow> es = []"
  by (cases es rule: oldest.cases) (auto split: option.splits)

lemma cs_get_wf:
  assumes "cache_wf bs img c" "cs_get b c = (r, c')"
  shows "cache_wf bs img c'" "cs_pinned c' = cs_pinned c"
    "\<And>x. r = Some x \<Longrightarrow> unat b * bs + bs \<le> length img \<and> x = block_of bs b (view bs (cs_pinned c) img)"
    "r = None \<Longrightarrow> map_of (cs_pinned c) b = None"
proof -
  show "cache_wf bs img c'" "cs_pinned c' = cs_pinned c"
    using assms by (auto simp: cache_wf_def cs_get_def next_seq_def length_update split: option.splits prod.splits if_splits)
  show "unat b * bs + bs \<le> length img \<and> x = block_of bs b (view bs (cs_pinned c) img)" if "r = Some x" for x
    using assms that by (auto simp: cache_wf_def cs_get_def next_seq_def block_of_view split: option.splits prod.splits)
  show "map_of (cs_pinned c) b = None" if "r = None"
    using assms that by (auto simp: cs_get_def split: option.splits)
qed

text \<open>Inserting a clean entry for a block whose new bytes the device holds already.\<close>

definition make_room :: "cache_state \<Rightarrow> cache_state" where
  "make_room c = (if length (cs_entries c) \<ge> cs_capacity c
     then (case oldest (cs_entries c) of
             Some (victim, _) \<Rightarrow> c\<lparr>cs_entries := AList.delete victim (cs_entries c)\<rparr> | None \<Rightarrow> c) else c)"

lemma insert_clean_eq: "insert_clean b x c = (if cs_capacity c = 0 then c else
    (make_room c)\<lparr>cs_next_seq := cs_next_seq (make_room c) + 1,
      cs_entries := AList.update b (x, cs_next_seq (make_room c)) (cs_entries (make_room c))\<rparr>)"
  by (simp add: insert_clean_def make_room_def next_seq_def Let_def)

lemma make_room_wf:
  assumes "cache_wf bs img c" "cs_capacity c \<noteq> 0"
  shows "length (cs_entries (make_room c)) < cs_capacity c" "cs_capacity (make_room c) = cs_capacity c"
    "cs_pinned (make_room c) = cs_pinned c" "distinct (map fst (cs_entries (make_room c)))"
    "map_of (cs_entries (make_room c)) b = Some v \<Longrightarrow> map_of (cs_entries c) b = Some v"
proof -
  have "length (cs_entries c) \<le> cs_capacity c" "distinct (map fst (cs_entries c))" using assms(1) by (auto simp: cache_wf_def)
  then show "length (cs_entries (make_room c)) < cs_capacity c" "cs_capacity (make_room c) = cs_capacity c"
    "cs_pinned (make_room c) = cs_pinned c" "distinct (map fst (cs_entries (make_room c)))"
    "map_of (cs_entries (make_room c)) b = Some v \<Longrightarrow> map_of (cs_entries c) b = Some v"
    using assms(2) length_delete_member [OF oldest_member] oldest_None [of "cs_entries c"]
    by (force simp: make_room_def split: option.splits if_splits)+
qed

lemma insert_clean_wf:
  assumes wf: "cache_wf bs img c" and b: "map_of (cs_pinned c) b = None" "unat b * bs + bs \<le> length img" "length x = bs"
  shows "cache_wf bs (put (unat b * bs) x img) (insert_clean b x c)" "cs_pinned (insert_clean b x c) = cs_pinned c"
proof -
  have other: "block_of bs b' (put (unat b * bs) x img) = block_of bs b' img"
    if "b' \<noteq> b" "unat b' * bs + bs \<le> length img" for b'
    using that b blocks_disjoint [of b' b bs] by (intro block_of_put_other) auto
  show "cs_pinned (insert_clean b x c) = cs_pinned c"
    using make_room_wf(3) [OF wf] by (simp add: insert_clean_eq)
  show "cache_wf bs (put (unat b * bs) x img) (insert_clean b x c)"
  proof (cases "cs_capacity c = 0")
    case True
    then show ?thesis using wf b by (simp add: cache_wf_def insert_clean_eq)
  next
    case False
    note mr = make_room_wf [OF wf False]
    have "map_of (cs_pinned c) b' = None \<and> unat b' * bs + bs \<le> length img \<and> y = block_of bs b' (put (unat b * bs) x img)"
      if "map_of (cs_entries (insert_clean b x c)) b' = Some (y, sq)" for b' y sq
    proof (cases "b' = b")
      case True
      then show ?thesis using that False b by (simp add: insert_clean_eq block_of_put_same)
    next
      case ne: False
      then have "map_of (cs_entries c) b' = Some (y, sq)" using that False mr(5) by (simp add: insert_clean_eq)
      then show ?thesis using wf other [OF ne] by (auto simp: cache_wf_def)
    qed
    moreover have "length (cs_entries (insert_clean b x c)) \<le> cs_capacity c" "cs_capacity (insert_clean b x c) = cs_capacity c"
      "distinct (map fst (cs_entries (insert_clean b x c)))" "cs_pinned (insert_clean b x c) = cs_pinned c"
      using mr(1-4) False by (auto simp: insert_clean_eq length_update)
    ultimately show ?thesis using wf b by (auto simp: cache_wf_def)
  qed
qed

lemma div_word_eq:
  fixes bs :: nat assumes "0 < bs" "(word_of_nat (i div bs) :: u64) = b" "i < 2 ^ 63"
  shows "unat b * bs \<le> i" "i < unat b * bs + bs" "i mod bs = i - unat b * bs"
proof -
  have "i div bs < 2 ^ 64" using le_less_trans [OF div_le_dividend [of i bs] assms(3)] by simp
  then have u: "unat b = i div bs" using assms(2) by (auto simp: unat_of_nat)
  show "unat b * bs \<le> i" "i mod bs = i - unat b * bs" unfolding u by (simp_all add: minus_div_mult_eq_mod [symmetric])
  show "i < unat b * bs + bs" unfolding u using assms(1) dividend_less_div_times [of bs i] by (simp add: add.commute)
qed

lemma view_update:
  assumes "map_of pins' = (map_of pins)(b \<mapsto> x)" "length x = bs" "0 < bs" "length img' = length img" "length img < 2 ^ 63"
    "unat b * bs + bs \<le> length img"
    "\<And>i. i < length img \<Longrightarrow> i < unat b * bs \<or> unat b * bs + bs \<le> i \<Longrightarrow> img' ! i = img ! i"
  shows "view bs pins' img' = put (unat b * bs) x (view bs pins img)"
proof (rule nth_equalityI)
  show "length (view bs pins' img') = length (put (unat b * bs) x (view bs pins img))" using assms by simp
  fix i assume "i < length (view bs pins' img')"
  then have i: "i < length img" "i < 2 ^ 63" using assms(4,5) by auto
  show "view bs pins' img' ! i = put (unat b * bs) x (view bs pins img) ! i"
  proof (cases "word_of_nat (i div bs) = b")
    case True
    note d = div_word_eq [OF assms(3) True i(2)]
    show ?thesis using i True d assms(1,2,4,6) by (simp add: nth_view nth_put)
  next
    case False
    then have out: "\<not> (unat b * bs \<le> i \<and> i < unat b * bs + bs)" using in_block_div [of "unat b" bs i] by auto
    then have "img' ! i = img ! i" using assms(7) i(1) by auto
    then show ?thesis using i False out assms by (auto simp: nth_view nth_put split: option.splits)
  qed
qed

lemma view_put_unpinned:
  assumes "map_of pins b = None" "length x = bs" "0 < bs" "length img < 2 ^ 63" "unat b * bs + bs \<le> length img"
  shows "view bs pins (put (unat b * bs) x img) = put (unat b * bs) x (view bs pins img)"
proof (rule nth_equalityI)
  show "length (view bs pins (put (unat b * bs) x img)) = length (put (unat b * bs) x (view bs pins img))" using assms by simp
  fix i assume "i < length (view bs pins (put (unat b * bs) x img))"
  then have i: "i < length img" "i < 2 ^ 63" using assms by auto
  show "view bs pins (put (unat b * bs) x img) ! i = put (unat b * bs) x (view bs pins img) ! i"
  proof (cases "word_of_nat (i div bs) = b")
    case True
    show ?thesis using i True div_word_eq [OF assms(3) True i(2)] assms by (simp add: nth_view nth_put)
  next
    case False
    then have "\<not> (unat b * bs \<le> i \<and> i < unat b * bs + bs)" using in_block_div [of "unat b" bs i] by auto
    then show ?thesis using i False assms by (auto simp: nth_view nth_put split: option.splits)
  qed
qed

lemma cs_put_spec:
  assumes wf: "cache_wf bs img c" and b: "unat b * bs + bs \<le> length img" "length x = bs" "0 < bs" "length img < 2 ^ 63"
  shows "cache_wf bs (put (unat b * bs) x img) (cs_put b x c)"
    "view bs (cs_pinned (cs_put b x c)) (put (unat b * bs) x img) = put (unat b * bs) x (view bs (cs_pinned c) img)"
proof -
  show "cache_wf bs (put (unat b * bs) x img) (cs_put b x c)"
  proof (cases "map_of (cs_pinned c) b")
    case None
    then show ?thesis using insert_clean_wf(1) [OF wf _ b(1,2)] by (simp add: cs_put_def)
  next
    case (Some y)
    have "block_of bs b' (put (unat b * bs) x img) = block_of bs b' img"
      if "b' \<noteq> b" "unat b' * bs + bs \<le> length img" for b'
      using that b blocks_disjoint [of b' b bs] by (intro block_of_put_other) auto
    then show ?thesis using wf Some b by (force simp: cache_wf_def cs_put_def)
  qed
  show "view bs (cs_pinned (cs_put b x c)) (put (unat b * bs) x img) = put (unat b * bs) x (view bs (cs_pinned c) img)"
  proof (cases "map_of (cs_pinned c) b")
    case None
    then show ?thesis using insert_clean_wf(2) [OF wf None b(1,2)] view_put_unpinned [OF None b(2-4,1)] by (simp add: cs_put_def)
  next
    case (Some y)
    then show ?thesis using b by (intro view_update) (auto simp: cs_put_def nth_put)
  qed
qed

lemma cs_pin_spec:
  assumes wf: "cache_wf bs img c" and b: "unat b * bs + bs \<le> length img" "length x = bs" "0 < bs" "length img < 2 ^ 63"
  shows "cache_wf bs img (cs_pin b x c)"
    "view bs (cs_pinned (cs_pin b x c)) img = put (unat b * bs) x (view bs (cs_pinned c) img)"
proof -
  have "length (AList.delete b (cs_entries c)) \<le> cs_capacity c"
    using wf length_delete_le [of b "cs_entries c"] by (auto simp: cache_wf_def)
  then show "cache_wf bs img (cs_pin b x c)" using wf b by (auto simp: cache_wf_def cs_pin_def)
  show "view bs (cs_pinned (cs_pin b x c)) img = put (unat b * bs) x (view bs (cs_pinned c) img)"
    using b by (intro view_update) (auto simp: cs_pin_def)
qed

lemma view_on_disk:
  assumes "cache_wf bs img c" "\<And>b x. map_of (cs_pinned c) b = Some x \<Longrightarrow> block_of bs b img = x" "0 < bs" "length img < 2 ^ 63"
  shows "view bs (cs_pinned c) img = img"
proof (rule nth_equalityI)
  fix i assume "i < length (view bs (cs_pinned c) img)"
  then have i: "i < length img" "i < 2 ^ 63" using assms(4) by auto
  define v :: u64 where "v = word_of_nat (i div bs)"
  note d = div_word_eq [OF assms(3) v_def [symmetric] i(2)]
  show "view bs (cs_pinned c) img ! i = img ! i"
  proof (cases "map_of (cs_pinned c) v")
    case (Some x)
    then have "unat v * bs + bs \<le> length img" "x = slice (unat v * bs) (unat v * bs + bs) img"
      using assms(1,2) unfolding cache_wf_def block_of_def by auto
    then show ?thesis using Some i d by (simp add: nth_view nth_slice v_def [symmetric])
  qed (use i in \<open>simp add: nth_view v_def [symmetric]\<close>)
qed simp

text \<open>Once the device holds the pinned images, unpinning changes nothing a reader can see.\<close>

lemma insert_all_wf:
  assumes "cache_wf bs img c" "cs_pinned c = []"
    "\<forall>(b, x) \<in> set pins. unat b * bs + bs \<le> length img \<and> x = block_of bs b img"
  shows "cache_wf bs img (fold (\<lambda>(b, x). insert_clean b x) pins c) \<and> cs_pinned (fold (\<lambda>(b, x). insert_clean b x) pins c) = []"
  using assms
proof (induction pins arbitrary: c)
  case (Cons p pins)
  obtain b x where p: "p = (b, x)" by (cases p)
  have r: "unat b * bs + bs \<le> length img" "x = block_of bs b img" using Cons.prems(3) p by auto
  then have "cache_wf bs img (insert_clean b x c)" "cs_pinned (insert_clean b x c) = []"
    using insert_clean_wf [OF Cons.prems(1), of b x] Cons.prems(2) by (simp_all add: length_block_of put_block_of)
  then show ?case using Cons.IH Cons.prems(3) p by simp
qed simp

lemma cs_unpin_all_spec:
  assumes wf: "cache_wf bs img c" and on_disk: "\<And>b x. map_of (cs_pinned c) b = Some x \<Longrightarrow> block_of bs b img = x"
  shows "cache_wf bs img (cs_unpin_all c)" "cs_pinned (cs_unpin_all c) = []"
proof -
  have "unat b * bs + bs \<le> length img \<and> x = block_of bs b img" if "(b, x) \<in> set (cs_pinned c)" for b x
  proof -
    have "map_of (cs_pinned c) b = Some x" using wf that by (simp add: cache_wf_def)
    then show ?thesis using wf on_disk by (auto simp: cache_wf_def)
  qed
  moreover have "cache_wf bs img (c\<lparr>cs_pinned := []\<rparr>)" using wf by (auto simp: cache_wf_def)
  ultimately show "cache_wf bs img (cs_unpin_all c)" "cs_pinned (cs_unpin_all c) = []"
    using insert_all_wf [of bs img "c\<lparr>cs_pinned := []\<rparr>" "cs_pinned c"] by (auto simp: cs_unpin_all_def)
qed

section \<open>Reads and writes across blocks\<close>

lemma lay_blocks_inv:
  assumes "\<And>k y. a \<le> k \<Longrightarrow> k < b \<Longrightarrow> I k y \<Longrightarrow> \<exists>z. f (word_of_nat k) y = Ok z \<and> I (Suc k) z" "I a x" "a \<le> b"
  shows "\<exists>z. lay_blocks f (map word_of_nat [a ..< b]) x = Ok z \<and> I b z"
proof -
  have "\<exists>z. lay_blocks f (map word_of_nat [b - n ..< b]) y = Ok z \<and> I b z" if "n \<le> b - a" "I (b - n) y" for n y
    using that
  proof (induction n arbitrary: y)
    case (Suc n)
    then have lt: "b - Suc n < b" "a \<le> b - Suc n" "n < b" by auto
    then obtain z where z: "f (word_of_nat (b - Suc n)) y = Ok z" "I (Suc (b - Suc n)) z" using assms(1) Suc.prems(2) by blast
    have eq: "[b - Suc n ..< b] = (b - Suc n) # [b - n ..< b]" "Suc (b - Suc n) = b - n"
      using lt upt_conv_Cons [of "b - Suc n" b] Suc_diff_Suc [of n b] by simp_all
    show ?case using Suc.IH [of z] Suc.prems(1) z eq by simp
  qed simp
  from this [of "b - a" x] assms(2,3) show ?thesis by simp
qed

text \<open>The arithmetic of one block of a request: no step of it wraps.\<close>

lemma block_words:
  fixes bsw off :: u64
  assumes "B * unat bsw \<le> unat off + n" "unat off < B * unat bsw + unat bsw" "unat off + n < 2 ^ 63" "unat bsw < 2 ^ 32"
  shows "unat (off + word_of_nat n) = unat off + n" "unat (word_of_nat B * bsw) = B * unat bsw"
    "unat (word_of_nat B * bsw + bsw) = B * unat bsw + unat bsw"
    "unat (max off (word_of_nat B * bsw)) = max (unat off) (B * unat bsw)"
    "unat (min (off + word_of_nat n) (word_of_nat B * bsw + bsw)) = min (unat off + n) (B * unat bsw + unat bsw)"
    "unat (max off (word_of_nat B * bsw) - off) = max (unat off) (B * unat bsw) - unat off"
    "unat (max off (word_of_nat B * bsw) - word_of_nat B * bsw) = max (unat off) (B * unat bsw) - B * unat bsw"
    "unat (min (off + word_of_nat n) (word_of_nat B * bsw + bsw) - off) = min (unat off + n) (B * unat bsw + unat bsw) - unat off"
    "unat (min (off + word_of_nat n) (word_of_nat B * bsw + bsw) - word_of_nat B * bsw)
      = min (unat off + n) (B * unat bsw + unat bsw) - B * unat bsw"
proof -
  have pos: "0 < unat bsw" using assms(1,2) by (cases "unat bsw") auto
  have "B \<le> B * unat bsw" using pos by simp
  then have "B < 2 ^ 63" using assms(1,3) by linarith
  then have uB: "unat (word_of_nat B :: u64) = B" by (simp add: unat_of_nat)
  have un: "unat (word_of_nat n :: u64) = n" using assms(3) by (simp add: unat_of_nat)
  show 1: "unat (off + word_of_nat n) = unat off + n"
    using unat_add_no_wrap [of off "word_of_nat n"] un assms(3) by simp
  have "unat (word_of_nat B :: u64) * unat bsw < 2 ^ LENGTH(64)" unfolding uB using assms(1,3) by simp
  from unat_mult_no_wrap [OF this] show 2: "unat (word_of_nat B * bsw) = B * unat bsw" by (simp only: uB)
  have "unat (word_of_nat B * bsw) + unat bsw < 2 ^ LENGTH(64)" unfolding 2 using assms(1,3,4) by simp
  from unat_add_no_wrap [OF this] show 3: "unat (word_of_nat B * bsw + bsw) = B * unat bsw + unat bsw" by (simp only: 2)
  show 4: "unat (max off (word_of_nat B * bsw)) = max (unat off) (B * unat bsw)" by (simp only: unat_max 2)
  show 5: "unat (min (off + word_of_nat n) (word_of_nat B * bsw + bsw)) = min (unat off + n) (B * unat bsw + unat bsw)"
    by (simp only: unat_min 1 3)
  have sub: "unat (x - y) = unat x - unat y" if "unat y \<le> unat x" for x y :: u64
    using that by (simp add: unat_sub word_le_nat_alt)
  show "unat (max off (word_of_nat B * bsw) - off) = max (unat off) (B * unat bsw) - unat off"
    by (subst sub) (simp_all only: 4 max.cobounded1)
  show "unat (max off (word_of_nat B * bsw) - word_of_nat B * bsw) = max (unat off) (B * unat bsw) - B * unat bsw"
    by (subst sub) (simp_all only: 2 4 max.cobounded2)
  have "unat off \<le> min (unat off + n) (B * unat bsw + unat bsw)" "B * unat bsw \<le> min (unat off + n) (B * unat bsw + unat bsw)"
    using assms(1,2) by auto
  then show "unat (min (off + word_of_nat n) (word_of_nat B * bsw + bsw) - off) = min (unat off + n) (B * unat bsw + unat bsw) - unat off"
    "unat (min (off + word_of_nat n) (word_of_nat B * bsw + bsw) - word_of_nat B * bsw)
      = min (unat off + n) (B * unat bsw + unat bsw) - B * unat bsw"
    by (subst sub; simp only: 2 5)+
qed

text \<open>A multi-block read: after the blocks up to \<open>B\<close> are laid over it, the buffer agrees with the view there.\<close>

lemma lay_pinned_step:
  assumes wf: "cache_wf (unat bsw) img c" and a: "B * unat bsw < unat off + n" "unat off < B * unat bsw + unat bsw"
    and r: "unat off + n \<le> length img" "length img < 2 ^ 63" "unat bsw < 2 ^ 32"
    and buf: "length buf = n" "\<And>i. i < n \<Longrightarrow> buf ! i = (if (unat off + i) div unat bsw < B then view (unat bsw) (cs_pinned c) img else img) ! (unat off + i)"
  shows "\<exists>buf'. lay_pinned bsw off n (cs_pinned c) (word_of_nat B) buf = Ok buf' \<and> length buf' = n \<and>
    (\<forall>i < n. buf' ! i = (if (unat off + i) div unat bsw < Suc B then view (unat bsw) (cs_pinned c) img else img) ! (unat off + i))"
proof -
  define bs where "bs = unat bsw"
  have n63: "unat off + n < 2 ^ 63" using r(1,2) by simp
  have pos: "0 < bs" using a unfolding bs_def by (cases "unat bsw") auto
  note w = block_words [OF less_imp_le [OF a(1)] a(2) n63 r(3), folded bs_def]
  have cls: "(unat off + i) div bs < Suc B \<longleftrightarrow> (unat off + i) div bs < B \<or> (B * bs \<le> unat off + i \<and> unat off + i < B * bs + bs)" for i
    using div_block_iff [OF pos, of "unat off + i" B] by (simp add: less_Suc_eq)
  show ?thesis
  proof (cases "map_of (cs_pinned c) (word_of_nat B :: u64)")
    case None
    have "view bs (cs_pinned c) img ! (unat off + i) = img ! (unat off + i)"
      if "i < n" "B * bs \<le> unat off + i" "unat off + i < B * bs + bs" for i
      using that None r(1) in_block_div [of B bs "unat off + i"] by (simp add: nth_view)
    then show ?thesis using None buf cls by (auto simp: lay_pinned_def bs_def)
  next
    case (Some x)
    have x: "length x = bs" using wf Some by (auto simp: cache_wf_def bs_def)
    define f t where "f = max (unat off) (B * bs)" and "t = min (unat off + n) (B * bs + bs)"
    have ft: "f \<le> t" "unat off \<le> f" "B * bs \<le> f" "t \<le> unat off + n" "t \<le> B * bs + bs"
      "f = unat off \<or> f = B * bs" "t = unat off + n \<or> t = B * bs + bs"
      using a by (auto simp: bs_def f_def t_def)
    note w = w(6-9) [folded f_def t_def]
    let ?src = "slice (f - B * bs) (t - B * bs) x"
    have src: "get_slice (f - B * bs) (t - B * bs) x = Ok ?src" using ft x by (auto simp: get_slice_def)
    have len: "length ?src = t - f" using ft x by simp
    then have cp: "copy_into (f - unat off) (t - unat off) ?src buf = Ok (put (f - unat off) ?src buf)"
      using ft x buf(1) by (auto simp: copy_into_def)
    have "lay_pinned bsw off n (cs_pinned c) (word_of_nat B) buf = Ok (put (f - unat off) ?src buf)"
      unfolding lay_pinned_def Some Let_def by (simp only: option.case w src and_then.simps cp)
    moreover have fits: "f - unat off + length ?src \<le> length buf" using len ft buf(1) by linarith
    moreover have "put (f - unat off) ?src buf ! i = (if (unat off + i) div bs < Suc B then view bs (cs_pinned c) img else img) ! (unat off + i)" if "i < n" for i
    proof (cases "B * bs \<le> unat off + i \<and> unat off + i < B * bs + bs")
      case True
      then have "f - unat off \<le> i" "i < t - unat off" "f \<le> unat off + i" "unat off + i < t" using ft that by auto
      then have "put (f - unat off) ?src buf ! i = ?src ! (i - (f - unat off))"
        using nth_put [OF fits] that buf(1) len ft by auto
      also have "\<dots> = x ! (unat off + i - B * bs)"
        using \<open>f \<le> unat off + i\<close> \<open>unat off + i < t\<close> ft x by (subst nth_slice) (auto simp: add.commute)
      also have "\<dots> = view bs (cs_pinned c) img ! (unat off + i)"
        using True that Some r(1) in_block_div [of B bs "unat off + i"] by (simp add: nth_view)
      finally show ?thesis using True cls [of i] by simp
    next
      case False
      then have "\<not> (f - unat off \<le> i \<and> i < f - unat off + length ?src)" using ft that len by auto
      then show ?thesis using False that buf cls [of i] nth_put [OF fits] by (auto simp: bs_def)
    qed
    ultimately show ?thesis using buf(1) by (auto simp: bs_def)
  qed
qed

lemma unat_div_word: "unat (a div b) = unat a div unat (b :: u64)" "unat (a mod b) = unat a mod unat b"
  by (simp_all add: unat_div_distrib unat_mod_distrib)

lemma div_bound: "0 < bs \<Longrightarrow> i div bs \<le> k \<Longrightarrow> i < k * bs + (bs :: nat)"
  using dividend_less_div_times [of bs i] mult_le_mono1 [of "i div bs" k bs] by linarith

lemma less_div_ceil:
  fixes a b :: u64 assumes "0 < unat b" "unat a < 2 ^ 63"
  shows "k < unat (div_ceil a b) \<longleftrightarrow> k * unat b < unat a"
proof -
  have lt: "unat a div unat b < 2 ^ 63" by (rule le_less_trans [OF div_le_dividend assms(2)])
  have "unat (a div b + 1) = unat a div unat b + 1"
    using unat_add_no_wrap [of "a div b" 1] lt by (simp add: unat_div_word)
  then have u: "unat (div_ceil a b) = (if unat a mod unat b = 0 then unat a div unat b else unat a div unat b + 1)"
    using unat_eq_zero [of "a mod b"] by (simp add: div_ceil_def unat_div_word)
  show ?thesis
  proof (cases "unat a mod unat b = 0")
    case True
    then have "unat a = unat a div unat b * unat b" by auto
    then have "k * unat b < unat a \<longleftrightarrow> k < unat a div unat b" using assms(1) by (metis mult_less_cancel2)
    then show ?thesis using u True by simp
  next
    case False
    have "k * unat b < unat a \<longleftrightarrow> k \<le> unat a div unat b"
      using False assms(1) by (metis div_times_less_eq_dividend div_le_mono div_mult_self_is_m less_eq_nat.simps
          less_imp_le_nat mod_mult_self2_is_0 mult.commute nat_less_le div_by_0 less_eq_div_iff_mult_less_eq)
    then show ?thesis using u False by auto
  qed
qed

lemma lay_pinned_read:
  assumes wf: "cache_wf (unat bsw) img c" and pos: "0 < unat bsw" "unat bsw < 2 ^ 32"
    and r: "0 < n" "unat off + n \<le> length img" "length img < 2 ^ 63"
  shows "lay_blocks (lay_pinned bsw off n (cs_pinned c)) (word_range (off div bsw) (div_ceil (off + word_of_nat n) bsw))
      (slice (unat off) (unat off + n) img) = Ok (slice (unat off) (unat off + n) (view (unat bsw) (cs_pinned c) img))"
proof -
  define bs where "bs = unat bsw"
  let ?V = "view bs (cs_pinned c) img"
  define E where "E = unat (div_ceil (off + word_of_nat n) bsw)"
  define I where "I = (\<lambda>k buf. length buf = n \<and> (\<forall>i < n. buf ! i = (if (unat off + i) div bs < k then ?V else img) ! (unat off + i)))"
  have "unat (word_of_nat n :: u64) = n" using r by (simp add: unat_of_nat)
  then have fin: "unat (off + word_of_nat n) = unat off + n" using r unat_add_no_wrap [of off "word_of_nat n"] by simp
  have E: "k < E \<longleftrightarrow> k * bs < unat off + n" for k
    using less_div_ceil [of bsw "off + word_of_nat n" k] pos r fin by (simp add: E_def bs_def)
  have "\<exists>z. lay_blocks (lay_pinned bsw off n (cs_pinned c)) (map word_of_nat [unat (off div bsw) ..< E])
      (slice (unat off) (unat off + n) img) = Ok z \<and> I E z"
  proof (rule lay_blocks_inv)
    fix k y assume k: "unat (off div bsw) \<le> k" "k < E" "I k y"
    have below: "unat off < k * unat bsw + unat bsw"
      using div_bound [of bs "unat off" k] k(1) pos by (simp add: unat_div_word bs_def)
    have above: "k * unat bsw < unat off + n" using E k(2) by (simp add: bs_def)
    have y: "length y = n" "\<And>i. i < n \<Longrightarrow> y ! i = (if (unat off + i) div unat bsw < k
        then view (unat bsw) (cs_pinned c) img else img) ! (unat off + i)"
      using k(3) unfolding I_def bs_def by blast+
    show "\<exists>z. lay_pinned bsw off n (cs_pinned c) (word_of_nat k) y = Ok z \<and> I (Suc k) z"
      using lay_pinned_step [OF wf above below r(2,3) pos(2) y] unfolding I_def bs_def .
  next
    have "\<not> (unat off + i) div bs < unat off div bs" for i by (simp add: div_le_mono not_less)
    then show "I (unat (off div bsw)) (slice (unat off) (unat off + n) img)"
      using r by (auto simp: I_def nth_slice unat_div_word bs_def)
    have "unat off div bs < E" using E r by (metis bs_def div_times_less_eq_dividend le_less_trans less_add_same_cancel1)
    then show "unat (off div bsw) \<le> E" by (simp add: unat_div_word bs_def)
  qed
  then obtain z where z: "lay_blocks (lay_pinned bsw off n (cs_pinned c)) (map word_of_nat [unat (off div bsw) ..< E])
      (slice (unat off) (unat off + n) img) = Ok z" "I E z" by blast
  have "(unat off + i) div bs < E" if "i < n" for i
    using E that by (metis div_times_less_eq_dividend le_less_trans nat_add_left_cancel_less)
  then have "z = slice (unat off) (unat off + n) ?V"
    using z(2) r by (intro nth_equalityI) (auto simp: I_def nth_slice)
  then show ?thesis using z(1) by (simp add: word_range_def E_def bs_def)
qed

text \<open>One block of a write: what \<open>write_block\<close> computes, and that it patches the block's image.\<close>

definition patch :: "nat \<Rightarrow> nat \<Rightarrow> bytes \<Rightarrow> nat \<Rightarrow> bytes \<Rightarrow> bytes" where
  "patch bs off buf B img = put (max off (B * bs) - B * bs)
     (slice (max off (B * bs) - off) (min (off + length buf) (B * bs + bs) - off) buf) img"

lemma write_block_eq:
  assumes a: "B * unat bsw \<le> unat off + length buf" "unat off < B * unat bsw + unat bsw"
    and r: "unat off + length buf < 2 ^ 63" "unat bsw < 2 ^ 32"
    and x: "\<And>x. map_of (cs_pinned c) (word_of_nat B) = Some x \<Longrightarrow> length x = unat bsw"
  shows "write_block bsw off buf (word_of_nat B) c = Ok (c\<lparr>
      cs_pinned := (case map_of (cs_pinned c) (word_of_nat B) of None \<Rightarrow> cs_pinned c
        | Some x \<Rightarrow> AList.update (word_of_nat B) (patch (unat bsw) (unat off) buf B x) (cs_pinned c)),
      cs_entries := AList.delete (word_of_nat B) (cs_entries c)\<rparr>)"
proof (cases "map_of (cs_pinned c) (word_of_nat B :: u64)")
  case None
  then show ?thesis by (simp add: write_block_def Let_def)
next
  case (Some img)
  define bs where "bs = unat bsw"
  define f t where "f = max (unat off) (B * bs)" and "t = min (unat off + length buf) (B * bs + bs)"
  note w = block_words [OF a r, folded bs_def]
  note w' = w(6-9) [folded f_def t_def]
  have ft: "f \<le> t" "unat off \<le> f" "B * bs \<le> f" "t \<le> unat off + length buf" "t \<le> B * bs + bs"
    using a by (auto simp: bs_def f_def t_def)
  let ?src = "slice (f - unat off) (t - unat off) buf"
  have src: "get_slice (f - unat off) (t - unat off) buf = Ok ?src" using ft by (auto simp: get_slice_def)
  have "length ?src = t - f" using ft by simp
  then have cp: "copy_into (f - B * bs) (t - B * bs) ?src img = Ok (put (f - B * bs) ?src img)"
    using ft x [OF Some] by (auto simp: copy_into_def bs_def)
  have p: "patch (unat bsw) (unat off) buf B img = put (f - B * bs) ?src img"
    by (simp only: patch_def f_def t_def bs_def)
  show ?thesis unfolding write_block_def Let_def Some p
    by (simp only: option.case w' src and_then.simps cp p) simp
qed

lemma patch_block:
  assumes "B * bs + bs \<le> length V" "off + length buf \<le> length V" "B * bs \<le> off + length buf" "off < B * bs + bs"
  shows "patch bs off buf B (slice (B * bs) (B * bs + bs) V) = slice (B * bs) (B * bs + bs) (put off buf V)"
proof -
  define f t where "f = max off (B * bs)" and "t = min (off + length buf) (B * bs + bs)"
  have ft: "f \<le> t" "off \<le> f" "B * bs \<le> f" "t \<le> off + length buf" "t \<le> B * bs + bs"
      "f = off \<or> f = B * bs" "t = off + length buf \<or> t = B * bs + bs"
    using assms by (auto simp: f_def t_def)
  let ?src = "slice (f - off) (t - off) buf" and ?x = "slice (B * bs) (B * bs + bs) V"
  have len: "length ?src = t - f" "length ?x = bs" using ft assms by auto
  have fits: "f - B * bs + length ?src \<le> length ?x" using len ft by linarith
  have "put (f - B * bs) ?src ?x = slice (B * bs) (B * bs + bs) (put off buf V)"
  proof (rule nth_equalityI)
    show "length (put (f - B * bs) ?src ?x) = length (slice (B * bs) (B * bs + bs) (put off buf V))"
      using length_put [OF fits] len assms by simp
    fix i assume "i < length (put (f - B * bs) ?src ?x)"
    then have i: "i < bs" using length_put [OF fits] len by simp
    have R: "slice (B * bs) (B * bs + bs) (put off buf V) ! i = put off buf V ! (B * bs + i)"
      using i assms by (simp add: nth_slice)
    show "put (f - B * bs) ?src ?x ! i = slice (B * bs) (B * bs + bs) (put off buf V) ! i"
    proof (cases "f \<le> B * bs + i \<and> B * bs + i < t")
      case True
      then have "put (f - B * bs) ?src ?x ! i = ?src ! (i - (f - B * bs))"
        using nth_put [OF fits, of i] i len ft by auto
      also have "\<dots> = buf ! (B * bs + i - off)" using True ft by (subst nth_slice) (auto simp: add.commute)
      finally show ?thesis using True R i ft assms by (simp add: nth_put)
    next
      case False
      then have "put (f - B * bs) ?src ?x ! i = ?x ! i" using nth_put [OF fits, of i] i len ft by auto
      then show ?thesis using False R i ft assms by (auto simp: nth_put nth_slice)
    qed
  qed
  then show ?thesis by (simp only: patch_def f_def t_def)
qed

text \<open>The whole loop over the blocks of a write.\<close>

definition written :: "nat \<Rightarrow> nat \<Rightarrow> bytes \<Rightarrow> nat \<Rightarrow> nat \<Rightarrow> cache_state \<Rightarrow> cache_state \<Rightarrow> bool" where
  "written bs off buf a b c c' \<longleftrightarrow>
     distinct (map fst (cs_entries c')) \<and> distinct (map fst (cs_pinned c')) \<and> cs_capacity c' = cs_capacity c \<and>
     length (cs_entries c') \<le> length (cs_entries c) \<and>
     (\<forall>w. map_of (cs_entries c') w = (if a \<le> unat w \<and> unat w < b then None else map_of (cs_entries c) w)) \<and>
     (\<forall>w. map_of (cs_pinned c') w = (if a \<le> unat w \<and> unat w < b
        then map_option (patch bs off buf (unat w)) (map_of (cs_pinned c) w) else map_of (cs_pinned c) w))"

lemma write_blocks_written:
  assumes wf: "cache_wf (unat bsw) img c" and pos: "0 < unat bsw" "unat bsw < 2 ^ 32"
    and r: "unat off + length buf \<le> length img" "length img < 2 ^ 63"
    and ab: "a = unat off div unat bsw" "a \<le> b" "\<And>k. k < b \<Longrightarrow> k * unat bsw \<le> unat off + length buf"
  shows "\<exists>c'. lay_blocks (write_block bsw off buf) (map word_of_nat [a ..< b]) c = Ok c' \<and>
    written (unat bsw) (unat off) buf a b c c'"
proof (rule lay_blocks_inv [OF _ _ ab(2)])
  show "written (unat bsw) (unat off) buf a a c c" using wf by (auto simp: written_def cache_wf_def)
  fix k y assume k: "a \<le> k" "k < b" "written (unat bsw) (unat off) buf a k c y"
  have below: "unat off < k * unat bsw + unat bsw" using div_bound [OF pos(1)] k(1) ab(1) by simp
  have n63: "unat off + length buf < 2 ^ 63" using r by simp
  have "k \<le> k * unat bsw" using pos(1) by simp
  then have "k < 2 ^ 63" using ab(3) [OF k(2)] n63 by linarith
  then have uk: "unat (word_of_nat k :: u64) = k" by (simp add: unat_of_nat)
  have x: "length x = unat bsw" if "map_of (cs_pinned y) (word_of_nat k) = Some x" for x
    using that k(3) wf uk by (auto simp: written_def cache_wf_def)
  let ?w = "word_of_nat k :: u64"
  let ?z = "y\<lparr>cs_pinned := (case map_of (cs_pinned y) ?w of None \<Rightarrow> cs_pinned y
        | Some x \<Rightarrow> AList.update ?w (patch (unat bsw) (unat off) buf k x) (cs_pinned y)),
      cs_entries := AList.delete ?w (cs_entries y)\<rparr>"
  have wk: "unat w = k \<longleftrightarrow> w = ?w" for w :: u64 using uk by auto
  have fresh: "map_of (cs_pinned y) ?w = map_of (cs_pinned c) ?w" using k(3) uk by (simp add: written_def)
  have "write_block bsw off buf ?w y = Ok ?z" by (rule write_block_eq [OF ab(3) [OF k(2)] below n63 pos(2) x])
  moreover have "map_of (cs_entries ?z) w = (if a \<le> unat w \<and> unat w < Suc k then None else map_of (cs_entries c) w)" for w
  proof (cases "w = ?w")
    case True
    then show ?thesis using k(1) by (simp add: uk)
  next
    case False
    then have "unat w \<noteq> k" using wk by blast
    then show ?thesis using False k(3) by (simp add: written_def less_Suc_eq)
  qed
  moreover have "map_of (cs_pinned ?z) w = (if a \<le> unat w \<and> unat w < Suc k
      then map_option (patch (unat bsw) (unat off) buf (unat w)) (map_of (cs_pinned c) w) else map_of (cs_pinned c) w)" for w
  proof (cases "w = ?w")
    case True
    then show ?thesis using k(1) fresh by (cases "map_of (cs_pinned c) ?w") (simp_all add: uk)
  next
    case False
    then have "unat w \<noteq> k" using wk by blast
    then show ?thesis using False k(3) by (cases "map_of (cs_pinned y) ?w") (simp_all add: written_def less_Suc_eq)
  qed
  moreover have "length (cs_entries ?z) \<le> length (cs_entries c)" "distinct (map fst (cs_entries ?z))"
    "distinct (map fst (cs_pinned ?z))" "cs_capacity ?z = cs_capacity c"
    using k(3) length_delete_le [of ?w "cs_entries y"] by (auto simp: written_def split: option.splits)
  ultimately show "\<exists>z. write_block bsw off buf ?w y = Ok z \<and> written (unat bsw) (unat off) buf a (Suc k) c z"
    unfolding written_def by blast
qed

lemma outside_blocks:
  fixes bs :: nat
  assumes "0 < bs" "a = off div bs" "n = 0 \<or> off + n \<le> b * bs" "\<not> (a \<le> k \<and> k < b)"
  shows "k * bs + bs \<le> off \<or> off + n \<le> k * bs \<or> n = 0"
proof (cases "k < a")
  case True
  then have "(k + 1) * bs \<le> a * bs" by (intro mult_le_mono1) simp
  moreover have "a * bs \<le> off" using assms(2) by (simp add: div_times_less_eq_dividend)
  ultimately show ?thesis by simp
next
  case False
  then have "b * bs \<le> k * bs" using assms(4) by (intro mult_le_mono1) simp
  then show ?thesis using assms(3) by linarith
qed

lemma written_spec:
  assumes wf: "cache_wf bs img c" and w: "written bs off buf a b c c'" and pos: "0 < bs"
    and r: "off + length buf \<le> length img" "length img < 2 ^ 63"
    and ab: "a = off div bs" "buf = [] \<or> off + length buf \<le> b * bs" "\<And>k. k < b \<Longrightarrow> k * bs \<le> off + length buf"
  shows "cache_wf bs (put off buf img) c'" "view bs (cs_pinned c') (put off buf img) = put off buf (view bs (cs_pinned c) img)"
proof -
  have out: "k * bs + bs \<le> off \<or> off + length buf \<le> k * bs \<or> buf = []" if "\<not> (a \<le> k \<and> k < b)" for k
    using outside_blocks [OF pos ab(1), of "length buf" b k] ab(2) that by auto
  have ent: "map_of (cs_pinned c') v = None \<and> unat v * bs + bs \<le> length img \<and> x = block_of bs v (put off buf img)"
    if e: "map_of (cs_entries c') v = Some (x, sq)" for v x sq
  proof -
    have nin: "\<not> (a \<le> unat v \<and> unat v < b)" and e': "map_of (cs_entries c) v = Some (x, sq)"
      using e w by (auto simp: written_def split: if_splits)
    then have "map_of (cs_pinned c') v = None" "unat v * bs + bs \<le> length img" "x = block_of bs v img"
      using wf w unfolding cache_wf_def written_def by auto
    then show ?thesis using out [OF nin] r block_of_put_other [of off buf img v bs] by (auto simp: put_def)
  qed
  have pin: "unat v * bs + bs \<le> length img \<and> length x = bs" if p: "map_of (cs_pinned c') v = Some x" for v x
  proof -
    obtain x0 where x0: "map_of (cs_pinned c) v = Some x0" using p w by (auto simp: written_def split: if_splits)
    then have wf0: "unat v * bs + bs \<le> length img" "length x0 = bs" using wf unfolding cache_wf_def by auto
    show ?thesis
    proof (cases "a \<le> unat v \<and> unat v < b")
      case True
      then have "x = patch bs off buf (unat v) x0" using p x0 w by (auto simp: written_def)
      moreover have "unat v * bs \<le> off + length buf" "off < unat v * bs + bs"
        using ab(3) div_bound [OF pos, of off "unat v"] True ab(1) by auto
      ultimately show ?thesis using wf0 by (auto simp: patch_def)
    next
      case False
      then show ?thesis using p x0 w wf0 by (auto simp: written_def)
    qed
  qed
  show "cache_wf bs (put off buf img) c'"
    using wf w ent pin r unfolding cache_wf_def written_def by auto
  show "view bs (cs_pinned c') (put off buf img) = put off buf (view bs (cs_pinned c) img)"
  proof (rule nth_equalityI)
    let ?V = "view bs (cs_pinned c) img"
    show "length (view bs (cs_pinned c') (put off buf img)) = length (put off buf ?V)" using r by simp
    fix i assume "i < length (view bs (cs_pinned c') (put off buf img))"
    then have i: "i < length img" using r by simp
    define v :: u64 where "v = word_of_nat (i div bs)"
    have "i div bs < 2 ^ 63" using i r(2) le_less_trans [OF div_le_dividend [of i bs]] by simp
    then have v: "unat v = i div bs" by (simp add: v_def unat_of_nat)
    have B: "i div bs * bs \<le> i" "i < i div bs * bs + bs" "i div bs * bs + i mod bs = i"
      using div_block_iff [OF pos, of i "i div bs"] by auto
    show "view bs (cs_pinned c') (put off buf img) ! i = put off buf ?V ! i"
    proof (cases "map_of (cs_pinned c) v")
      case None
      then have "map_of (cs_pinned c') v = None" using w by (simp add: written_def)
      then show ?thesis using None i r by (simp add: nth_view nth_put v_def [symmetric])
    next
      case (Some x)
      have x: "unat v * bs + bs \<le> length img" "length x = bs" using wf Some unfolding cache_wf_def by auto
      have xV: "x = slice (i div bs * bs) (i div bs * bs + bs) ?V"
        using block_of_view [OF x(1), of "cs_pinned c"] x(2) Some by (simp add: block_of_def v)
      show ?thesis
      proof (cases "a \<le> unat v \<and> unat v < b")
        case True
        then have "map_of (cs_pinned c') v = Some (patch bs off buf (i div bs) x)" using w Some v by (simp add: written_def)
        moreover have "patch bs off buf (i div bs) x = slice (i div bs * bs) (i div bs * bs + bs) (put off buf ?V)"
          unfolding xV using x(1) r(1) ab(3) [of "i div bs"] div_bound [OF pos, of off "i div bs"] True ab(1) v
          by (intro patch_block) auto
        ultimately show ?thesis using i r(1) x(1) v B mod_less_divisor [OF pos, of i]
          by (simp add: nth_view nth_slice v_def [symmetric])
      next
        case False
        have "i div bs * bs + bs \<le> off \<or> off + length buf \<le> i div bs * bs \<or> length buf = 0"
          using out [OF False] v by auto
        then have "\<not> (off \<le> i \<and> i < off + length buf)" using B(1,2) by linarith
        moreover have "map_of (cs_pinned c') v = Some x" using w Some False by (auto simp: written_def)
        ultimately show ?thesis using i r(1) Some by (auto simp: nth_view nth_put v_def [symmetric])
      qed
    qed
  qed
qed

section \<open>The cached device keeps the contract\<close>

context block_device
begin

lemma cached_read_hit_or_miss:
  assumes c: "cached_inv inv contents c" and pos: "0 < n" "n < 2 ^ 63"
    and one: "unat off mod unat (cd_block_size c) + n \<le> unat (cd_block_size c)"
  shows "case cached_read_at read_at c off n of (r, c') \<Rightarrow> cached_inv inv contents c' \<and>
      cached_view contents c' = cached_view contents c \<and> writable (cd_inner c') = writable (cd_inner c) \<and>
      (if unat off + n \<le> length (contents (cd_inner c)) then r = Ok (slice (unat off) (unat off + n) (cached_view contents c))
       else \<exists>e. r = Err e)"
proof -
  define bs where "bs = unat (cd_block_size c)"
  define bsw :: u64 where "bsw = ucast (cd_block_size c)"
  define b o' where "b = off div bsw" and "o' = unat off mod bs"
  let ?img = "contents (cd_inner c)"
  have ok: "inv (cd_inner c)" "bs dvd length ?img" "cache_wf bs ?img (cd_state c)" "0 < bs"
    using c by (auto simp: cached_inv_def bs_def word_less_nat_alt unat_gt_0)
  have bsw: "unat bsw = bs" by (simp add: bsw_def bs_def)
  then have bsw0: "bsw \<noteq> 0" using ok(4) by auto
  have ub: "unat b = unat off div bs" "unat (off mod bsw) = o'" "unat b * bs + o' = unat off"
    by (simp_all add: b_def o'_def unat_div_word bsw)
  have on: "o' + n \<le> bs" using one by (simp add: o'_def bs_def)
  have "unat b * unat bsw < 2 ^ LENGTH(64)" using ub(3) bsw unat_lt2p [of off] by (metis add_leE le_less_trans order_refl)
  then have start: "unat (b * bsw) = unat b * bs" using unat_mult_no_wrap [of b bsw] bsw by simp
  have len: "length ?img < 2 ^ 63" using image_bound [OF ok(1)] .
  have inside: "unat off + n \<le> length ?img \<longleftrightarrow> unat b * bs + bs \<le> length ?img"
  proof
    assume "unat off + n \<le> length ?img"
    then have "unat b * bs < length ?img" using ub(3) pos(1) by linarith
    moreover obtain q where "length ?img = bs * q" using ok(2) by (rule dvdE)
    ultimately have "unat b < q" "length ?img = q * bs" using ok(4) by (auto simp: mult.commute)
    then have "(unat b + 1) * bs \<le> q * bs" by (intro mult_le_mono1) simp
    then show "unat b * bs + bs \<le> length ?img" using \<open>length ?img = q * bs\<close> by simp
  next
    assume "unat b * bs + bs \<le> length ?img"
    then show "unat off + n \<le> length ?img" using ub(3) on by linarith
  qed
  have cut: "get_slice o' (o' + n) (block_of bs b X) = Ok (slice (unat off) (unat off + n) X)"
    if "unat b * bs + bs \<le> length X" for X :: bytes
    using that on ub(3) by (auto simp: get_slice_def block_of_def slice_slice add.assoc [symmetric])
  obtain r st where g: "cs_get b (cd_state c) = (r, st)" by (cases "cs_get b (cd_state c)")
  note gw = cs_get_wf [OF ok(3) g]
  have eq: "cached_read_at read_at c off n = (case r of
      Some blk \<Rightarrow> (get_slice o' (o' + n) blk, c\<lparr>cd_state := st\<rparr>)
    | None \<Rightarrow> st_bind (with_inner (\<lambda>s. read_at s (b * bsw) bs) (c\<lparr>cd_state := st\<rparr>)) (\<lambda>blk c.
                 (get_slice o' (o' + n) blk, c\<lparr>cd_state := cs_put b blk (cd_state c)\<rparr>)))"
    using g on bsw bsw0 ub(2) by (simp add: cached_read_at_def Let_def bsw_def [symmetric] b_def [symmetric] split: option.splits)
  show ?thesis
  proof (cases r)
    case (Some blk)
    then have "get_slice o' (o' + n) blk = Ok (slice (unat off) (unat off + n) (cached_view contents c))" "unat off + n \<le> length ?img"
      using gw(3) cut [of "view bs (cs_pinned (cd_state c)) ?img"] inside by (auto simp: cached_view_def bs_def)
    then show ?thesis using eq Some gw(1,2) c by (simp add: cached_inv_def cached_view_def bs_def)
  next
    case None
    note unp = gw(4) [OF None]
    show ?thesis
    proof (cases "unat b * bs + bs \<le> length ?img")
      case True
      then obtain s' where rd: "read_at (cd_inner c) (b * bsw) bs = (Ok (block_of bs b ?img), s')"
        "inv s'" "contents s' = ?img" "writable s' = writable (cd_inner c)"
        using read_cases [OF ok(1) ok(4), of "b * bsw"] start by (auto simp: block_of_def)
      have "length (block_of bs b ?img) = bs" using True by (rule length_block_of)
      note pw = cs_put_spec [OF gw(1) True this ok(4) len]
      have eq': "cached_read_at read_at c off n = (Ok (slice (unat off) (unat off + n) ?img),
          c\<lparr>cd_inner := s', cd_state := cs_put b (block_of bs b ?img) st\<rparr>)"
        using eq None rd(1) cut [OF True] by (simp add: with_inner_def)
      have bv: "block_of bs b (view bs (cs_pinned (cd_state c)) ?img) = block_of bs b ?img"
        using block_of_view [OF True, of "cs_pinned (cd_state c)"] unp by simp
      then have "put (unat b * bs) (block_of bs b ?img) (view bs (cs_pinned (cd_state c)) ?img) = view bs (cs_pinned (cd_state c)) ?img"
        using put_block_of [of b bs "view bs (cs_pinned (cd_state c)) ?img"] True by simp
      moreover have "slice (unat off) (unat off + n) ?img = slice (unat off) (unat off + n) (view bs (cs_pinned (cd_state c)) ?img)"
        using cut [OF True] cut [of "view bs (cs_pinned (cd_state c)) ?img"] True bv by (metis length_view outcome.inject(1))
      ultimately show ?thesis using eq' rd pw gw(2) ok True inside c
        by (simp add: put_block_of cached_inv_def cached_view_def bs_def [symmetric])
    next
      case False
      then obtain e s' where "read_at (cd_inner c) (b * bsw) bs = (Err e, s')" "inv s'" "contents s' = ?img" "writable s' = writable (cd_inner c)"
        using read_out [OF ok(1) ok(4), of "b * bsw"] read_state [OF ok(1,4), of "b * bsw"] start unat_lt2p [of "cd_block_size c"]
        by (cases "read_at (cd_inner c) (b * bsw) bs") (auto simp: bs_def)
      then show ?thesis using eq None False inside gw(1,2) c
        by (simp add: with_inner_def cached_inv_def cached_view_def bs_def [symmetric])
    qed
  qed
qed

lemma cached_read_spec:
  assumes c: "cached_inv inv contents c" and pos: "0 < n" "n < 2 ^ 63"
  shows "case cached_read_at read_at c off n of (r, c') \<Rightarrow> cached_inv inv contents c' \<and>
      cached_view contents c' = cached_view contents c \<and> writable (cd_inner c') = writable (cd_inner c) \<and>
      (if unat off + n \<le> length (contents (cd_inner c)) then r = Ok (slice (unat off) (unat off + n) (cached_view contents c))
       else \<exists>e. r = Err e)"
proof (cases "unat off mod unat (cd_block_size c) + n \<le> unat (cd_block_size c)")
  case True
  then show ?thesis by (rule cached_read_hit_or_miss [OF c pos])
next
  case False
  define bs where "bs = unat (cd_block_size c)"
  define bsw :: u64 where "bsw = ucast (cd_block_size c)"
  let ?img = "contents (cd_inner c)"
  have ok: "inv (cd_inner c)" "cache_wf bs ?img (cd_state c)" "0 < bs"
    using c by (auto simp: cached_inv_def bs_def word_less_nat_alt unat_gt_0)
  have bsw: "unat bsw = bs" by (simp add: bsw_def bs_def)
  then have bsw0: "bsw \<noteq> 0" using ok(3) by auto
  have b32: "unat bsw < 2 ^ 32" using unat_lt2p [of "cd_block_size c"] by (simp add: bsw bs_def)
  have eq: "cached_read_at read_at c off n = st_bind (with_inner (\<lambda>s. read_at s off n) c) (\<lambda>buf c.
      if cs_pinned (cd_state c) = [] then (Ok buf, c)
      else (lay_blocks (lay_pinned bsw off n (cs_pinned (cd_state c)))
             (word_range (off div bsw) (div_ceil (off + word_of_nat n) bsw)) buf, c))"
    using False bsw bsw0 by (simp add: cached_read_at_def Let_def bsw_def [symmetric] unat_div_word bs_def)
  show ?thesis
  proof (cases "unat off + n \<le> length ?img")
    case True
    obtain s' where rd: "read_at (cd_inner c) off n = (Ok (slice (unat off) (unat off + n) ?img), s')"
      "inv s'" "contents s' = ?img" "writable s' = writable (cd_inner c)"
      using read_cases [OF ok(1) pos(1) True] by metis
    have "lay_blocks (lay_pinned bsw off n (cs_pinned (cd_state c))) (word_range (off div bsw) (div_ceil (off + word_of_nat n) bsw))
        (slice (unat off) (unat off + n) ?img) = Ok (slice (unat off) (unat off + n) (cached_view contents c))"
      using lay_pinned_read [of bsw ?img "cd_state c" n off] ok bsw b32 pos True image_bound [OF ok(1)]
      by (simp add: cached_view_def bs_def)
    then show ?thesis using eq rd True c by (simp add: with_inner_def cached_inv_def cached_view_def)
  next
    case nin: False
    then obtain e s' where "read_at (cd_inner c) off n = (Err e, s')" "inv s'" "contents s' = ?img" "writable s' = writable (cd_inner c)"
      using read_out [OF ok(1) pos, of off] read_state [OF ok(1) pos, of off] by (cases "read_at (cd_inner c) off n") auto
    then show ?thesis using eq nin c by (simp add: with_inner_def cached_inv_def cached_view_def)
  qed
qed

lemma cached_write_spec:
  assumes c: "cached_inv inv contents c" and r: "unat off + length buf \<le> length (contents (cd_inner c))"
  shows "case cached_write_at write_at c off buf of (r, c') \<Rightarrow> cached_inv inv contents c' \<and>
      writable (cd_inner c') = writable (cd_inner c) \<and>
      (if writable (cd_inner c) then r = Ok () \<and> cached_view contents c' = put (unat off) buf (cached_view contents c)
       else (\<exists>e. r = Err e) \<and> cached_view contents c' = cached_view contents c)"
proof -
  define bs where "bs = unat (cd_block_size c)"
  define bsw :: u64 where "bsw = ucast (cd_block_size c)"
  let ?img = "contents (cd_inner c)"
  have ok: "inv (cd_inner c)" "bs dvd length ?img" "cache_wf bs ?img (cd_state c)" "0 < bs"
    using c by (auto simp: cached_inv_def bs_def word_less_nat_alt unat_gt_0)
  have len: "length ?img < 2 ^ 63" using image_bound [OF ok(1)] .
  have bsw: "unat bsw = bs" by (simp add: bsw_def bs_def)
  then have bsw0: "bsw \<noteq> 0" using ok(4) by auto
  have b32: "unat bsw < 2 ^ 32" using unat_lt2p [of "cd_block_size c"] by (simp add: bsw bs_def)
  show ?thesis
  proof (cases "writable (cd_inner c)")
    case False
    then obtain e s' where "write_at (cd_inner c) off buf = (Err e, s')" "inv s'" "contents s' = ?img" "\<not> writable s'"
      using write_ro [OF ok(1) False r] by (cases "write_at (cd_inner c) off buf") auto
    then show ?thesis using False c by (simp add: cached_write_at_def with_inner_def cached_inv_def cached_view_def)
  next
    case True
    then obtain s' where wr: "write_at (cd_inner c) off buf = (Ok (), s')" "inv s'" "writable s'" "contents s' = put (unat off) buf ?img"
      using write_cases [OF ok(1) True r] by metis
    obtain st where st: "cached_write_at write_at c off buf = (Ok (), c\<lparr>cd_inner := s', cd_state := st\<rparr>)"
      "cache_wf bs (put (unat off) buf ?img) st"
      "view bs (cs_pinned st) (put (unat off) buf ?img) = put (unat off) buf (view bs (cs_pinned (cd_state c)) ?img)"
    proof (cases "off mod bsw = 0 \<and> length buf = bs")
      case whole: True
      have "unat (off mod bsw) = 0" using whole by simp
      then have "unat off mod bs = 0" by (simp only: unat_div_word bsw)
      then have o: "unat (off div bsw) * bs = unat off" by (auto simp: unat_div_word bsw)
      show thesis
        using that [of "cs_put (off div bsw) buf (cd_state c)"] cs_put_spec [OF ok(3), of "off div bsw" buf] whole o r ok(4) len wr(1) bsw0 bsw
        by (simp add: cached_write_at_def with_inner_def Let_def bsw_def [symmetric])
    next
      case part: False
      define n a l where "n = length buf" and "a = unat off div bs" and "l = (unat off + n - 1) div bs"
      have "unat (off + word_of_nat n) = unat off + n"
        using unat_add_no_wrap [of off "word_of_nat n"] r len by (simp add: unat_of_nat n_def)
      then have last: "unat (saturating_sub (off + word_of_nat n) 1 div bsw) = l"
        by (simp add: unat_div_word unat_saturating_sub bsw l_def)
      have lw: "word_of_nat l = saturating_sub (off + word_of_nat n) 1 div bsw" unfolding last [symmetric] by simp
      define b where "b = (if a \<le> l then Suc l else a)"
      have rng: "(if off div bsw \<le> saturating_sub (off + word_of_nat n) 1 div bsw
          then word_range (off div bsw) (saturating_sub (off + word_of_nat n) 1 div bsw) @ [saturating_sub (off + word_of_nat n) 1 div bsw]
          else []) = map word_of_nat [a ..< b]"
        using last lw by (auto simp: word_le_nat_alt unat_div_word bsw a_def b_def word_range_def)
      have kb: "k * bs \<le> unat off + n" if "k < b" for k
      proof -
        have "k \<le> a \<or> k \<le> l" using that by (auto simp: b_def split: if_splits)
        then have "k * bs \<le> a * bs \<or> k * bs \<le> l * bs" using mult_le_mono1 by blast
        moreover have "a * bs \<le> unat off" "l * bs \<le> unat off + n - 1" by (simp_all add: a_def l_def)
        ultimately show ?thesis by linarith
      qed
      have hb: "buf = [] \<or> unat off + length buf \<le> b * bs"
      proof (cases "buf = []")
        case False
        then have "0 < n" by (simp add: n_def)
        then have "unat off \<le> unat off + n - 1" by linarith
        then have "a \<le> l" unfolding a_def l_def by (rule div_le_mono)
        then show ?thesis using dividend_less_div_times [OF ok(4), of "unat off + n - 1"] False
          by (simp add: b_def l_def n_def)
      qed simp
      obtain st where lay: "lay_blocks (write_block bsw off buf) (map word_of_nat [a ..< b]) (cd_state c) = Ok st"
        "written bs (unat off) buf a b (cd_state c) st"
      proof -
        have "a \<le> b" by (simp add: b_def)
        then show thesis
          using that write_blocks_written [of bsw ?img "cd_state c", unfolded bsw, OF ok(3,4) b32 [unfolded bsw] r len a_def _ kb [unfolded n_def]]
          by blast
      qed
      have np: "(off mod bsw = 0 \<and> n = bs) = False" using part by (simp add: n_def)
      have "cached_write_at write_at c off buf = (Ok (), c\<lparr>cd_inner := s', cd_state := st\<rparr>)"
        using wr(1) bsw bsw0 rng lay(1)
        by (simp add: np cached_write_at_def with_inner_def Let_def bsw_def [symmetric] n_def [symmetric] del: if_split)
      then show thesis
        using that written_spec [OF ok(3) lay(2) ok(4) r len a_def hb] kb by (simp add: n_def)
    qed
    show ?thesis using st wr True c r by (simp add: cached_inv_def cached_view_def bs_def)
  qed
qed

lemma cached_block_device:
  "block_device (cached_read_at read_at) (cached_write_at write_at) (cached_inv inv contents) (cached_view contents)
     (\<lambda>c. writable (cd_inner c))"
proof
  fix c :: "'s cached_device" and off :: u64 and n :: nat and buf :: bytes
  have len: "length (cached_view contents c) = length (contents (cd_inner c))" by (simp add: cached_view_def)
  have bound: "cached_inv inv contents c \<Longrightarrow> length (contents (cd_inner c)) < 2 ^ 63"
    using image_bound by (simp add: cached_inv_def)
  show "cached_inv inv contents c \<Longrightarrow> length (cached_view contents c) < 2 ^ 63" using bound len by simp
  show "cached_inv inv contents c \<Longrightarrow> 0 < n \<Longrightarrow> unat off + n \<le> length (cached_view contents c) \<Longrightarrow>
      fst (cached_read_at read_at c off n) = Ok (slice (unat off) (unat off + n) (cached_view contents c))"
    using cached_read_spec [of c n off] bound len by (simp add: split_beta)
  show "cached_inv inv contents c \<Longrightarrow> 0 < n \<Longrightarrow> n < 2 ^ 63 \<Longrightarrow> length (cached_view contents c) < unat off + n \<Longrightarrow>
      \<exists>e. fst (cached_read_at read_at c off n) = Err e"
    using cached_read_spec [of c n off] len by (simp add: split_beta)
  show "cached_inv inv contents c \<Longrightarrow> 0 < n \<Longrightarrow> n < 2 ^ 63 \<Longrightarrow> cached_inv inv contents (snd (cached_read_at read_at c off n)) \<and>
      cached_view contents (snd (cached_read_at read_at c off n)) = cached_view contents c \<and>
      writable (cd_inner (snd (cached_read_at read_at c off n))) = writable (cd_inner c)"
    using cached_read_spec [of c n off] by (simp add: split_beta)
  show "cached_inv inv contents c \<Longrightarrow> writable (cd_inner c) \<Longrightarrow> unat off + length buf \<le> length (cached_view contents c) \<Longrightarrow>
      fst (cached_write_at write_at c off buf) = Ok () \<and> cached_inv inv contents (snd (cached_write_at write_at c off buf)) \<and>
      writable (cd_inner (snd (cached_write_at write_at c off buf))) \<and>
      cached_view contents (snd (cached_write_at write_at c off buf)) = put (unat off) buf (cached_view contents c)"
    using cached_write_spec [of c off buf] len by (simp add: split_beta)
  show "cached_inv inv contents c \<Longrightarrow> \<not> writable (cd_inner c) \<Longrightarrow> unat off + length buf \<le> length (cached_view contents c) \<Longrightarrow>
      (\<exists>e. fst (cached_write_at write_at c off buf) = Err e) \<and> cached_inv inv contents (snd (cached_write_at write_at c off buf)) \<and>
      cached_view contents (snd (cached_write_at write_at c off buf)) = cached_view contents c \<and>
      \<not> writable (cd_inner (snd (cached_write_at write_at c off buf)))"
    using cached_write_spec [of c off buf] len by (simp add: split_beta)
qed

lemma cached_populate_spec:
  assumes "cached_inv inv contents c" "unat b * unat (cd_block_size c) + unat (cd_block_size c) \<le> length (contents (cd_inner c))"
    "length x = unat (cd_block_size c)"
  shows "cached_inv inv contents (cached_populate_cache b x c)"
    "cached_view contents (cached_populate_cache b x c) = put (unat b * unat (cd_block_size c)) x (cached_view contents c)"
proof -
  have "0 < unat (cd_block_size c)" "length (contents (cd_inner c)) < 2 ^ 63"
    using assms(1) image_bound by (auto simp: cached_inv_def unat_gt_0)
  then show "cached_inv inv contents (cached_populate_cache b x c)"
    "cached_view contents (cached_populate_cache b x c) = put (unat b * unat (cd_block_size c)) x (cached_view contents c)"
    using assms cs_pin_spec [of "unat (cd_block_size c)" "contents (cd_inner c)" "cd_state c" b x]
    by (simp_all add: cached_inv_def cached_view_def cached_populate_cache_def)
qed

end

section \<open>Runs of the cached device\<close>

text \<open>
  What the rest of the driver does with the cached device, as sequences of operations, and the same
  sequence on a plain byte image. The reference knows nothing of entries, pins or capacities.
\<close>

datatype cache_op = C_read u64 nat | C_write u64 bytes | C_populate u64 bytes
datatype cache_reply = R_data "bytes result" | R_done "unit result" | R_none

fun run_cached :: "'s read_op \<Rightarrow> 's write_op \<Rightarrow> cache_op list \<Rightarrow> 's cached_device \<Rightarrow> cache_reply list \<times> 's cached_device" where
  "run_cached rd wr [] c = ([], c)"
| "run_cached rd wr (C_read off n # ops) c =
     (let (r, c) = cached_read_at rd c off n; (rs, c) = run_cached rd wr ops c in (R_data r # rs, c))"
| "run_cached rd wr (C_write off buf # ops) c =
     (let (r, c) = cached_write_at wr c off buf; (rs, c) = run_cached rd wr ops c in (R_done r # rs, c))"
| "run_cached rd wr (C_populate b x # ops) c =
     (let (rs, c) = run_cached rd wr ops (cached_populate_cache b x c) in (R_none # rs, c))"

fun run_image :: "nat \<Rightarrow> cache_op list \<Rightarrow> bytes \<Rightarrow> cache_reply list \<times> bytes" where
  "run_image bs [] img = ([], img)"
| "run_image bs (C_read off n # ops) img =
     (let (rs, img') = run_image bs ops img in (R_data (Ok (slice (unat off) (unat off + n) img)) # rs, img'))"
| "run_image bs (C_write off buf # ops) img =
     (let (rs, img') = run_image bs ops (put (unat off) buf img) in (R_done (Ok ()) # rs, img'))"
| "run_image bs (C_populate b x # ops) img =
     (let (rs, img') = run_image bs ops (put (unat b * bs) x img) in (R_none # rs, img'))"

fun op_in_range :: "nat \<Rightarrow> nat \<Rightarrow> cache_op \<Rightarrow> bool" where
  "op_in_range bs n (C_read off k) \<longleftrightarrow> 0 < k \<and> unat off + k \<le> n"
| "op_in_range bs n (C_write off buf) \<longleftrightarrow> unat off + length buf \<le> n"
| "op_in_range bs n (C_populate b x) \<longleftrightarrow> unat b * bs + bs \<le> n \<and> length x = bs"

lemma cached_ops_block_size [simp]:
  "cd_block_size (snd (cached_read_at rd c off n)) = cd_block_size c"
  "cd_block_size (snd (cached_write_at wr c off buf)) = cd_block_size c"
  "cd_block_size (cached_populate_cache b x c) = cd_block_size c"
proof -
  have bind: "cd_block_size (snd (st_bind m f)) = k"
    if "cd_block_size (snd m) = k" "\<And>x c. cd_block_size c = k \<Longrightarrow> cd_block_size (snd (f x c)) = k"
    for m :: "('s cached_device, 'x) dev_result" and f :: "'x \<Rightarrow> 's cached_device \<Rightarrow> ('s cached_device, 'y) dev_result" and k
    using that by (cases "(m, f)" rule: st_bind.cases) auto
  have inner: "cd_block_size (snd (with_inner g c)) = cd_block_size c" for g :: "'s \<Rightarrow> 'y result \<times> 's" and c
    by (simp add: with_inner_def split: prod.splits)
  show "cd_block_size (snd (cached_read_at rd c off n)) = cd_block_size c"
    unfolding cached_read_at_def Let_def
    by (auto split: prod.splits option.splits simp: inner intro!: bind)
  have keep: "cd_block_size (snd (keep_state c r)) = cd_block_size c" for r and c :: "'s cached_device"
    by (cases r) auto
  show "cd_block_size (snd (cached_write_at wr c off buf)) = cd_block_size c"
    unfolding cached_write_at_def Let_def by (rule bind) (auto simp: inner keep)
  show "cd_block_size (cached_populate_cache b x c) = cd_block_size c" by (simp add: cached_populate_cache_def)
qed

context block_device
begin

lemma run_cached_refines:
  assumes "cached_inv inv contents c" "writable (cd_inner c)"
    "\<forall>op \<in> set ops. op_in_range (unat (cd_block_size c)) (length (contents (cd_inner c))) op"
    "run_cached read_at write_at ops c = (rs, c')"
  shows "run_image (unat (cd_block_size c)) ops (cached_view contents c) = (rs, cached_view contents c') \<and> cached_inv inv contents c'"
  using assms
proof (induction ops arbitrary: c rs)
  case (Cons op ops)
  let ?bs = "unat (cd_block_size c)"
  have len: "length (cached_view contents d) = length (contents (cd_inner d))" for d by (simp add: cached_view_def)
  have step: "\<exists>rs2. rs = rep # rs2 \<and> run_image ?bs ops (cached_view contents d) = (rs2, cached_view contents c') \<and> cached_inv inv contents c'"
    if d: "cached_inv inv contents d" "writable (cd_inner d)" "cd_block_size d = cd_block_size c"
      "length (cached_view contents d) = length (cached_view contents c)"
      and run: "run_cached read_at write_at (op # ops) c = (let (rs, e) = run_cached read_at write_at ops d in (rep # rs, e))"
    for d rep
  proof -
    obtain rs2 e where r: "run_cached read_at write_at ops d = (rs2, e)" by (cases "run_cached read_at write_at ops d")
    then have "rs = rep # rs2" "e = c'" using run Cons.prems(4) by auto
    then show ?thesis using Cons.IH [OF d(1,2), of rs2] Cons.prems(3) r d(3,4) len by auto
  qed
  show ?case
  proof (cases op)
    case (C_read off n)
    obtain r d where rd: "cached_read_at read_at c off n = (r, d)" by (cases "cached_read_at read_at c off n")
    have n: "0 < n" "unat off + n \<le> length (contents (cd_inner c))" using Cons.prems(3) C_read by auto
    moreover have "n < 2 ^ 63" using n Cons.prems(1) image_bound by (fastforce simp: cached_inv_def)
    ultimately have d: "cached_inv inv contents d" "cached_view contents d = cached_view contents c" "writable (cd_inner d)"
      "r = Ok (slice (unat off) (unat off + n) (cached_view contents c))"
      using cached_read_spec [OF Cons.prems(1), of n off] rd Cons.prems(2) by auto
    have "cd_block_size d = cd_block_size c" using cached_ops_block_size(1) [of read_at c off n] rd by simp
    then show ?thesis using step [OF d(1,3), of "R_data r"] d(2,4) rd C_read by auto
  next
    case (C_write off buf)
    obtain r d where wr: "cached_write_at write_at c off buf = (r, d)" by (cases "cached_write_at write_at c off buf")
    have rng: "unat off + length buf \<le> length (contents (cd_inner c))" using Cons.prems(3) C_write by auto
    then have d: "cached_inv inv contents d" "cached_view contents d = put (unat off) buf (cached_view contents c)" "writable (cd_inner d)"
      "r = Ok ()"
      using cached_write_spec [OF Cons.prems(1), of off buf] wr Cons.prems(2) by auto
    have "cd_block_size d = cd_block_size c" using cached_ops_block_size(2) [of write_at c off buf] wr by simp
    then show ?thesis using step [OF d(1,3), of "R_done r"] d(2,4) wr C_write rng len by auto
  next
    case (C_populate b x)
    have rng: "unat b * ?bs + ?bs \<le> length (contents (cd_inner c))" "length x = ?bs" using Cons.prems(3) C_populate by auto
    note d = cached_populate_spec [OF Cons.prems(1) rng]
    have "writable (cd_inner (cached_populate_cache b x c))" using Cons.prems(2) by (simp add: cached_populate_cache_def)
    then show ?thesis using step [OF d(1), of R_none] d(2) C_populate rng len by auto
  qed
qed simp

end

interpretation cached_file: block_device "cached_read_at file_read_at" "cached_write_at file_write_at"
  "cached_inv file_inv fd_bytes" "cached_view fd_bytes" "\<lambda>c. fd_writable (cd_inner c)"
  by (rule file_dev.cached_block_device)

interpretation cached_aligned: block_device
  "cached_read_at (aligned_read_at (strict_read_at (2 ^ 9)) fd_size (2 ^ 9))"
  "cached_write_at (aligned_write_at (strict_read_at (2 ^ 9)) (strict_write_at (2 ^ 9)) fd_size (2 ^ 9))"
  "cached_inv (strict_inv (2 ^ 9)) fd_bytes" "cached_view fd_bytes" "\<lambda>c. fd_writable (cd_inner c)"
  by (rule strict.aligned.cached_block_device)

section \<open>Properties\<close>

text \<open>
  C12. The buffer cache is invisible. Over any inner device that keeps the contract of a block device,
  for every capacity (zero included) and block size, a sequence of reads, writes and cache
  populations within the device, aligned or not, within a block or across several, returns exactly
  what the same sequence returns on a plain byte image in which a population overwrites its block,
  and leaves the cache presenting the image of the reference. Eviction never loses a pinned block and
  a stale clean entry is never served.
\<close>

theorem cached_runs_as_image:
  assumes "block_device rd wr ok contents writable" "cached_inv ok contents c" "writable (cd_inner c)"
    "\<forall>op \<in> set ops. op_in_range (unat (cd_block_size c)) (length (contents (cd_inner c))) op"
  shows "case run_cached rd wr ops c of (replies, c') \<Rightarrow>
    run_image (unat (cd_block_size c)) ops (cached_view contents c) = (replies, cached_view contents c') \<and>
    cached_inv ok contents c'"
  using block_device.run_cached_refines [OF assms(1-4)] by (auto split: prod.splits)

theorem cached_runs_as_image_witness:
  "fst (run_cached file_read_at file_write_at
     [C_populate 1 [9, 9, 9, 9], C_write 3 [1, 2, 3], C_read 0 8, C_write 4 [5, 5, 5, 5], C_read 5 2]
     (cached_new (file_open [0, 0, 0, 0, 0, 0, 0, 0] True) 4 1)) =
   [R_none, R_done (Ok ()), R_data (Ok [0, 0, 0, 1, 2, 3, 9, 9]), R_done (Ok ()), R_data (Ok [5, 5])]"
proof -
  let ?c = "cached_new (file_open [0, 0, 0, 0, 0, 0, 0, 0] True) 4 1"
  let ?ops = "[C_populate 1 [9, 9, 9, 9], C_write 3 [1, 2, 3], C_read 0 8, C_write 4 [5, 5, 5, 5], C_read 5 2]"
  have "cached_inv file_inv fd_bytes ?c"
    by (simp add: cached_inv_def cached_new_def cs_new_def file_open_def file_inv_def cache_wf_def) presburger
  moreover have "\<forall>op \<in> set ?ops. op_in_range (unat (cd_block_size ?c)) (length (fd_bytes (cd_inner ?c))) op"
    by (simp add: cached_new_def file_open_def)
  moreover have "run_image 4 ?ops [0, 0, 0, 0, 0, 0, 0, 0] =
     ([R_none, R_done (Ok ()), R_data (Ok [0, 0, 0, 1, 2, 3, 9, 9]), R_done (Ok ()), R_data (Ok [5, 5])], [0, 0, 0, 1, 5, 5, 5, 5])"
    by (simp add: put_def slice_def)
  ultimately show ?thesis
    using cached_runs_as_image [OF file_dev.block_device_axioms, of ?c ?ops]
    by (auto simp: cached_new_def cs_new_def file_open_def cached_view_def split: prod.splits)
qed

text \<open>
  Unpinning is safe once the journal's images are on the device, and only then is it used: nothing a
  reader sees changes, no block stays pinned, and the cache keeps its invariant (no more clean entries
  than its capacity, each equal to the device's block). Invalidation refuses while a block is
  pinned, changing nothing, and otherwise empties the cache without changing what a reader sees.
\<close>

theorem unpin_and_invalidate_correct:
  assumes "block_device rd wr ok contents writable" "cached_inv ok contents c"
    "\<forall>(b, x) \<in> set (cs_pinned (cd_state c)). block_of (unat (cd_block_size c)) b (contents (cd_inner c)) = x"
  shows "cached_inv ok contents (cached_unpin_all c) \<and> pinned_blocks (cached_unpin_all c) = 0 \<and>
      cached_view contents (cached_unpin_all c) = cached_view contents c \<and>
      (case cached_invalidate_cache (\<lambda>s. (Ok (), s)) c of
         (Ok _, c') \<Rightarrow> pinned_blocks c = 0 \<and> cs_entries (cd_state c') = [] \<and> cached_inv ok contents c' \<and>
           cached_view contents c' = cached_view contents c
       | (Err e, c') \<Rightarrow> pinned_blocks c \<noteq> 0 \<and> c' = c
       | (Panic, _) \<Rightarrow> False)"
proof -
  let ?bs = "unat (cd_block_size c)" and ?img = "contents (cd_inner c)"
  have wf: "cache_wf ?bs ?img (cd_state c)" "0 < ?bs" "length ?img < 2 ^ 63"
    using assms(2) block_device.image_bound [OF assms(1)] by (simp_all add: cached_inv_def unat_gt_0)
  have pins: "block_of ?bs b ?img = x" if "map_of (cs_pinned (cd_state c)) b = Some x" for b x
    using assms(3) map_of_SomeD [OF that] by auto
  note u = cs_unpin_all_spec [OF wf(1) pins]
  have "cached_inv ok contents (cached_unpin_all c)" "pinned_blocks (cached_unpin_all c) = 0"
    using u assms(2) by (simp_all add: cached_inv_def cached_unpin_all_def pinned_blocks_def)
  moreover have "cached_view contents (cached_unpin_all c) = cached_view contents c"
    using u(2) view_on_disk [OF wf(1) pins wf(2,3)] by (simp add: cached_view_def cached_unpin_all_def)
  moreover have "cache_wf ?bs ?img ((cd_state c)\<lparr>cs_entries := []\<rparr>)" using wf(1) by (simp add: cache_wf_def)
  ultimately show ?thesis using assms(2)
    by (cases "cs_pinned (cd_state c) = []")
      (simp_all add: cached_inv_def cached_view_def pinned_blocks_def cached_invalidate_cache_def with_inner_def)
qed

theorem unpin_and_invalidate_correct_witness:
  "let c = cached_populate_cache 1 [7, 7] (cached_new (file_open [0, 0, 7, 7] True) 2 1) in
     cached_view fd_bytes (cached_unpin_all c) = cached_view fd_bytes c \<and> pinned_blocks (cached_unpin_all c) = 0"
proof -
  let ?c = "cached_populate_cache 1 [7, 7] (cached_new (file_open [0, 0, 7, 7] True) 2 1)"
  have "cached_inv file_inv fd_bytes ?c"
    by (auto simp: cached_inv_def cached_populate_cache_def cs_pin_def cached_new_def cs_new_def file_open_def file_inv_def
        cache_wf_def split: if_splits)
  moreover have "\<forall>(b, x) \<in> set (cs_pinned (cd_state ?c)). block_of (unat (cd_block_size ?c)) b (fd_bytes (cd_inner ?c)) = x"
    by (simp add: cached_populate_cache_def cs_pin_def cached_new_def cs_new_def file_open_def block_of_def slice_def)
  ultimately show ?thesis
    using unpin_and_invalidate_correct [OF file_dev.block_device_axioms, of ?c] by (simp add: Let_def)
qed

end
