(* ===== verification/Journal_Apply.thy ===== *)
theory Journal_Apply
  imports Journal Superblock Block_Cache
begin

unbundle bit_operations_syntax

text \<open>
  Journal replay (\<open>src/journal_apply.rs\<close>, and \<open>read_superblock\<close> of \<open>src/jbd2.rs\<close>). A device is a record of
  the operations of the trait \<open>BlockDevice\<close>, acting on the device's state. The journal's inode and its
  block map are a record of two functions of that state (\<open>Fs_Journal\<close> gives those of a mounted volume); reading them may fill the buffer cache,
  which \<open>Block_Cache\<close> shows to be invisible, and is taken to leave the state as it is.
\<close>

section \<open>The device and the journal's file\<close>

record 's dev_ops =
  dv_read :: "'s read_op"
  dv_write :: "'s write_op"
  dv_flush :: "'s \<Rightarrow> unit result \<times> 's"
  dv_writable :: "'s \<Rightarrow> bool"
  dv_size :: "'s \<Rightarrow> u64"
  dv_populate :: "u64 \<Rightarrow> bytes \<Rightarrow> 's \<Rightarrow> 's"

record ('s, 'i) journal_file =
  jf_inode :: "'s \<Rightarrow> 'i result"
  jf_map :: "'s \<Rightarrow> 'i \<Rightarrow> u64 \<Rightarrow> u64 option result"

definition read_superblock :: "'s dev_ops \<Rightarrow> ('s, 'i) journal_file \<Rightarrow> superblock \<Rightarrow> 's \<Rightarrow> ('s, journal_superblock option) dev_result" where
  "read_superblock dv jf sb s =
     (if journal_inode sb = 0 then (Ok None, s)
      else st_bind (jf_inode jf s, s) (\<lambda>ino s.
        st_bind (and_then (jf_map jf s ino 0) (\<lambda>p. ok_or p (Corrupt ''journal block 0 unmapped (sparse journal?)'')), s) (\<lambda>phys s.
        st_bind (dv_read dv s (phys * ucast (block_size sb)) (unat (block_size sb))) (\<lambda>buf s.
        (map_ok Some (jsb_parse buf), s)))))"

definition read_journal_block :: "'s dev_ops \<Rightarrow> ('s, 'i) journal_file \<Rightarrow> u32 \<Rightarrow> 's \<Rightarrow> 'i \<Rightarrow> journal_reader" where
  "read_journal_block dv jf bs s ino jb =
     and_then (and_then (jf_map jf s ino jb) (\<lambda>p. ok_or p (Corrupt ''journal block unmapped''))) (\<lambda>phys.
       fst (dv_read dv s (phys * ucast bs) (unat bs)))"

section \<open>Recovery flags\<close>

definition set_needs_recovery_in :: "crc_fn \<Rightarrow> bool \<Rightarrow> bytes \<Rightarrow> bytes" where
  "set_needs_recovery_in crc on sb =
     (let incompat = get_le32 0x60 sb;
          incompat = (if on then incompat OR Incompat_RECOVER else incompat AND NOT Incompat_RECOVER);
          sb = put 0x60 (u32_to_le incompat) sb
      in if get_le32 0x64 sb AND RoCompat_METADATA_CSUM \<noteq> 0
         then put 0x3FC (u32_to_le (linux_crc32c crc (NOT 0) (take 0x3FC sb))) sb
         else sb)"

definition write_needs_recovery :: "crc_fn \<Rightarrow> 's dev_ops \<Rightarrow> bool \<Rightarrow> 's \<Rightarrow> ('s, unit) dev_result" where
  "write_needs_recovery crc dv on s =
     st_bind (dv_read dv s 1024 1024) (\<lambda>sb s. dv_write dv s 1024 (set_needs_recovery_in crc on sb))"

section \<open>Where a block lands\<close>

definition byte_offset_in :: "u64 \<Rightarrow> u64 \<Rightarrow> u32 \<Rightarrow> u64 \<Rightarrow> u64 result" where
  "byte_offset_in block bc bs device_bytes =
     (if block \<ge> bc then Err (Corrupt ''journal: names a block past the end of the filesystem'')
      else let bs = (ucast bs :: u64) in
        and_then (ok_or (checked_mul block bs) (Corrupt ''journal: block offset overflows'')) (\<lambda>offset.
        and_then (ok_or (checked_add offset bs) (Corrupt ''journal: block offset overflows'')) (\<lambda>fin.
        if fin > device_bytes then Err (Corrupt ''journal: names a block past the end of the device'')
        else Ok offset)))"

definition byte_offset_of :: "'s dev_ops \<Rightarrow> superblock \<Rightarrow> 's \<Rightarrow> u64 \<Rightarrow> u64 result" where
  "byte_offset_of dv sb s block = byte_offset_in block (blocks_count sb) (block_size sb) (dv_size dv s)"

definition mark_journal_clean :: "crc_fn \<Rightarrow> 's dev_ops \<Rightarrow> ('s, 'i) journal_file \<Rightarrow> superblock \<Rightarrow> journal_superblock \<Rightarrow> replay_plan \<Rightarrow>
    's \<Rightarrow> ('s, unit) dev_result" where
  "mark_journal_clean crc dv jf sb j plan s =
     st_bind (jf_inode jf s, s) (\<lambda>ino s.
     st_bind (and_then (jf_map jf s ino 0) (\<lambda>p. ok_or p (Corrupt ''journal_apply: journal superblock unmapped'')), s) (\<lambda>phys s.
     st_bind (byte_offset_of dv sb s phys, s) (\<lambda>at s.
     st_bind (dv_read dv s at 1024) (\<lambda>buf s.
       if get_be32 0 buf \<noteq> JBD2_MAGIC_NUMBER
       then (Err (Corrupt ''journal_apply: journal superblock lost its magic during replay''), s)
       else let sq = (case rp_next_sequence plan of Some n \<Rightarrow> n | None \<Rightarrow> j_sequence j) + 1;
                buf = put 0x18 (u32_to_be sq) buf;
                buf = put 0x1C (u32_to_be 0) buf;
                buf = (if uses_csum_v2_or_v3 j
                       then let buf = put 0xFC [0, 0, 0, 0] buf in put 0xFC (u32_to_be (linux_crc32c crc (NOT 0) buf)) buf
                       else buf)
            in st_bind (dv_write dv s at buf) (\<lambda>_ s. dv_flush dv s)))))"

section \<open>Applying a plan\<close>

fun resolve_all :: "(replay_entry \<Rightarrow> (u64 \<times> u64) result) \<Rightarrow> replay_entry list \<Rightarrow> (u64 \<times> u64) list result" where
  "resolve_all f [] = Ok []"
| "resolve_all f (w # ws) = and_then (f w) (\<lambda>r. and_then (resolve_all f ws) (\<lambda>rs. Ok (r # rs)))"

definition resolve :: "'s dev_ops \<Rightarrow> ('s, 'i) journal_file \<Rightarrow> superblock \<Rightarrow> replay_plan \<Rightarrow> 's \<Rightarrow> (u64 \<times> u64) list result" where
  "resolve dv jf sb plan s =
     and_then (jf_inode jf s) (\<lambda>ino.
       resolve_all (\<lambda>w.
         and_then (and_then (jf_map jf s ino (re_journal_block w)) (\<lambda>p. ok_or p (Corrupt ''journal_apply: journal block unmapped''))) (\<lambda>phys.
         and_then (byte_offset_of dv sb s phys) (\<lambda>source.
         and_then (byte_offset_of dv sb s (re_fs_block w)) (\<lambda>dest. Ok (source, dest)))))
         (rp_writes plan))"

fun apply_writes :: "'s dev_ops \<Rightarrow> nat \<Rightarrow> (replay_entry \<times> u64 \<times> u64) list \<Rightarrow> nat \<Rightarrow> 's \<Rightarrow> ('s, nat) dev_result" where
  "apply_writes dv bs [] applied s = (Ok applied, s)"
| "apply_writes dv bs ((w, source, dest) # ws) applied s =
     st_bind (dv_read dv s source bs) (\<lambda>buf s.
     st_bind (unescape (re_flags w) buf, s) (\<lambda>buf s.
     st_bind (dv_write dv s dest buf) (\<lambda>_ s. apply_writes dv bs ws (applied + 1) s)))"

definition apply_plan :: "'s dev_ops \<Rightarrow> ('s, 'i) journal_file \<Rightarrow> superblock \<Rightarrow> replay_plan \<Rightarrow> 's \<Rightarrow> ('s, nat) dev_result" where
  "apply_plan dv jf sb plan s =
     (if rp_writes plan = [] then (Ok 0, s)
      else if \<not> dv_writable dv s then (Err (Corrupt ''journal_apply: device is not writable; cannot replay''), s)
      else st_bind (resolve dv jf sb plan s, s) (\<lambda>resolved s.
        st_bind (apply_writes dv (unat (block_size sb)) (zip (rp_writes plan) resolved) 0 s) (\<lambda>applied s.
        st_bind (dv_flush dv s) (\<lambda>_ s. (Ok applied, s)))))"

fun read_sources :: "'s dev_ops \<Rightarrow> nat \<Rightarrow> (replay_entry \<times> u64 \<times> u64) list \<Rightarrow> 's \<Rightarrow> ('s, (u64 \<times> bytes) list) dev_result" where
  "read_sources dv bs [] s = (Ok [], s)"
| "read_sources dv bs ((w, source, dest) # ws) s =
     st_bind (dv_read dv s source bs) (\<lambda>buf s.
     st_bind (unescape (re_flags w) buf, s) (\<lambda>buf s.
     st_bind (read_sources dv bs ws s) (\<lambda>rest s. (Ok ((re_fs_block w, buf) # rest), s))))"

definition replay_into_cache :: "crc_fn \<Rightarrow> 's dev_ops \<Rightarrow> ('s, 'i) journal_file \<Rightarrow> superblock \<Rightarrow> 's \<Rightarrow> ('s, nat) dev_result" where
  "replay_into_cache crc dv jf sb s =
     st_bind (read_superblock dv jf sb s) (\<lambda>j s. case j of
       None \<Rightarrow> (Ok 0, s)
     | Some j \<Rightarrow>
         if jsb_is_clean j then (Ok 0, s)
         else st_bind (journal_walk crc (block_size sb) (jf_inode jf s) (read_journal_block dv jf (j_block_size j) s) j, s) (\<lambda>plan s.
           if rp_writes plan = [] then (Ok 0, s)
           else st_bind (resolve dv jf sb plan s, s) (\<lambda>resolved s.
             st_bind (read_sources dv (unat (block_size sb)) (zip (rp_writes plan) resolved) s) (\<lambda>blocks s.
             (Ok (length blocks), fold (\<lambda>(b, x). dv_populate dv b x) blocks s)))))"

definition replay_if_dirty :: "crc_fn \<Rightarrow> 's dev_ops \<Rightarrow> ('s, 'i) journal_file \<Rightarrow> superblock \<Rightarrow> 's \<Rightarrow> ('s, nat) dev_result" where
  "replay_if_dirty crc dv jf sb s =
     (if \<not> dv_writable dv s then (Ok 0, s)
      else st_bind (read_superblock dv jf sb s) (\<lambda>j s. case j of
        None \<Rightarrow> (Ok 0, s)
      | Some j \<Rightarrow>
          if jsb_is_clean j
          then (if feature_incompat sb AND Incompat_RECOVER \<noteq> 0
                then st_bind (write_needs_recovery crc dv False s) (\<lambda>_ s. st_bind (dv_flush dv s) (\<lambda>_ s. (Ok 0, s)))
                else (Ok 0, s))
          else let breaking = write_breaking_incompat (feature_incompat sb) in
            if breaking \<noteq> 0 then (Err (UnsupportedIncompat breaking), s)
            else st_bind (journal_walk crc (block_size sb) (jf_inode jf s) (read_journal_block dv jf (j_block_size j) s) j, s) (\<lambda>plan s.
              st_bind (apply_plan dv jf sb plan s) (\<lambda>applied s.
              st_bind (mark_journal_clean crc dv jf sb j plan s) (\<lambda>_ s.
              st_bind (write_needs_recovery crc dv False s) (\<lambda>_ s.
              st_bind (dv_flush dv s) (\<lambda>_ s. (Ok applied, s))))))))"

section \<open>The whole device contract\<close>

text \<open>A block device as the journal uses it: its size is its image's, and a flush changes nothing visible.\<close>

locale full_device = block_device "dv_read dv" "dv_write dv" inv contents "dv_writable dv"
  for dv :: "'s dev_ops" and inv :: "'s \<Rightarrow> bool" and contents :: "'s \<Rightarrow> bytes" +
  assumes size_is: "inv s \<Longrightarrow> dv_size dv s = word_of_nat (length (contents s))"
    and flush_ok: "inv s \<Longrightarrow> \<exists>s'. dv_flush dv s = (Ok (), s') \<and> inv s' \<and> contents s' = contents s \<and> dv_writable dv s' = dv_writable dv s"
begin

lemma unat_size: "inv s \<Longrightarrow> unat (dv_size dv s) = length (contents s)"
  using size_is [of s] image_bound [of s] by (simp add: unat_of_nat)

end

lemma byte_offset_in_Ok:
  "byte_offset_in b bc bs db = Ok off \<longleftrightarrow> b < bc \<and> unat b * unat bs + unat bs \<le> unat db \<and> off = b * ucast bs"
proof -
  let ?w = "ucast bs :: u64"
  have u: "unat ?w = unat bs" by simp
  have mul: "checked_mul b ?w = (if unat b * unat bs < 2 ^ 64 then Some (b * ?w) else None)" by (simp add: checked_mul_def)
  have um: "unat (b * ?w) = unat b * unat bs" if "unat b * unat bs < 2 ^ 64" using unat_mult_no_wrap [of b ?w] that by simp
  have add: "checked_add (b * ?w) ?w = (if unat b * unat bs + unat bs < 2 ^ 64 then Some (b * ?w + ?w) else None)"
    if "unat b * unat bs < 2 ^ 64" using um [OF that] by (simp add: checked_add_def)
  have ua: "unat (b * ?w + ?w) = unat b * unat bs + unat bs" if "unat b * unat bs + unat bs < 2 ^ 64"
    using unat_add_no_wrap [of "b * ?w" ?w] um that by simp
  have db: "unat db < 2 ^ 64" using unat_lt2p [of db] by simp
  show ?thesis
  proof (cases "unat b * unat bs + unat bs < 2 ^ 64")
    case True
    then show ?thesis using mul add ua by (auto simp: byte_offset_in_def Let_def word_less_nat_alt word_le_nat_alt)
  next
    case False
    then have "\<not> unat b * unat bs + unat bs \<le> unat db" using db by simp
    then show ?thesis using mul add False by (auto simp: byte_offset_in_def Let_def)
  qed
qed

lemma byte_offset_not_Panic: "byte_offset_in b bc bs db \<noteq> Panic"
  by (auto simp: byte_offset_in_def Let_def outcome_simps)

text \<open>The image a replayed entry leaves: its destination block gets its source block, the magic restored.\<close>

definition unescaped :: "u32 \<Rightarrow> bytes \<Rightarrow> bytes" where
  "unescaped flags x = (if flags AND TAG_ESCAPED \<noteq> 0 then put 0 (u32_to_be JBD2_MAGIC_NUMBER) x else x)"

definition replay_step :: "nat \<Rightarrow> replay_entry \<times> u64 \<times> u64 \<Rightarrow> bytes \<Rightarrow> bytes" where
  "replay_step bs r img = (case r of (w, source, dest) \<Rightarrow>
     put (unat dest) (unescaped (re_flags w) (slice (unat source) (unat source + bs) img)) img)"

lemma unescape_ok: "4 \<le> length x \<Longrightarrow> unescape flags x = Ok (unescaped flags x)"
  by (simp add: unescape_def unescaped_def put_checked_def)

lemma length_unescaped [simp]: "4 \<le> length x \<Longrightarrow> length (unescaped flags x) = length x"
  by (simp add: unescaped_def)

context full_device
begin

lemma apply_writes_ok:
  assumes "inv s" "dv_writable dv s" "4 \<le> bs"
    "\<forall>(w, source, dest) \<in> set rs. unat source + bs \<le> length (contents s) \<and> unat dest + bs \<le> length (contents s)"
  shows "\<exists>s'. apply_writes dv bs rs n s = (Ok (n + length rs), s') \<and> inv s' \<and> dv_writable dv s' \<and>
    contents s' = fold (replay_step bs) rs (contents s)"
  using assms
proof (induction rs arbitrary: n s)
  case (Cons r rs)
  obtain w source dest where r: "r = (w, source, dest)" by (cases r)
  have rng: "unat source + bs \<le> length (contents s)" "unat dest + bs \<le> length (contents s)" using Cons.prems(4) r by auto
  let ?x = "slice (unat source) (unat source + bs) (contents s)" and ?y = "unescaped (re_flags w) (slice (unat source) (unat source + bs) (contents s))"
  have len: "length ?x = bs" "length ?y = bs" using rng(1) Cons.prems(3) by simp_all
  have pos: "0 < bs" using Cons.prems(3) by simp
  obtain s1 where rd: "dv_read dv s source bs = (Ok ?x, s1)" "inv s1" "contents s1 = contents s" "dv_writable dv s1 = dv_writable dv s"
    by (rule read_cases [OF Cons.prems(1) pos rng(1)])
  have "unat dest + length ?y \<le> length (contents s1)" using rng(2) len rd(3) by simp
  then obtain s2 where wr: "dv_write dv s1 dest ?y = (Ok (), s2)" "inv s2" "dv_writable dv s2" "contents s2 = put (unat dest) ?y (contents s1)"
    using write_cases [OF rd(2)] rd(4) Cons.prems(2) by metis
  have eq: "contents s2 = replay_step bs r (contents s)" "length (contents s2) = length (contents s)"
    using wr(4) rd(3) rng(2) len by (simp_all add: replay_step_def r)
  have "apply_writes dv bs (r # rs) n s = apply_writes dv bs rs (n + 1) s2"
    using rd(1) wr(1) len(1) Cons.prems(3) by (simp add: r unescape_ok)
  then show ?case using Cons.IH [OF wr(2,3) Cons.prems(3), of "n + 1"] Cons.prems(4) eq by auto
qed simp

lemma resolve_in_range:
  assumes "inv s" "resolve dv jf sb plan s = Ok rs"
  shows "length rs = length (rp_writes plan)"
    "\<forall>(source, dest) \<in> set rs. unat source + unat (block_size sb) \<le> length (contents s) \<and> unat dest + unat (block_size sb) \<le> length (contents s)"
proof -
  have step: "unat off + unat (block_size sb) \<le> length (contents s)" if "byte_offset_of dv sb s b = Ok off" for b off
  proof -
    have o: "unat b * unat (block_size sb) + unat (block_size sb) \<le> length (contents s)" "off = b * ucast (block_size sb)"
      using that unat_size [OF assms(1)] by (simp_all add: byte_offset_of_def byte_offset_in_Ok)
    have "unat b * unat (block_size sb) < 2 ^ 63" using o(1) image_bound [OF assms(1)] by linarith
    then have "unat off = unat b * unat (block_size sb)" using unat_mult_no_wrap [of b "ucast (block_size sb)"] by (simp add: o(2))
    then show ?thesis using o(1) by simp
  qed
  have all: "length rs = length ws \<and> (\<forall>x \<in> set rs. P x)" if "resolve_all f ws = Ok rs" "\<And>w x. f w = Ok x \<Longrightarrow> P x" for f ws rs P
    using that by (induction ws arbitrary: rs) (auto simp: outcome_simps)
  obtain f where f: "resolve_all f (rp_writes plan) = Ok rs"
    "\<And>w x. f w = Ok x \<Longrightarrow> (case x of (source, dest) \<Rightarrow> unat source + unat (block_size sb) \<le> length (contents s) \<and> unat dest + unat (block_size sb) \<le> length (contents s))"
  proof -
    obtain ino where "jf_inode jf s = Ok ino" using assms(2) by (auto simp: resolve_def outcome_simps)
    then show thesis using assms(2) step by (intro that [of "\<lambda>w.
         and_then (and_then (jf_map jf s ino (re_journal_block w)) (\<lambda>p. ok_or p (Corrupt ''journal_apply: journal block unmapped''))) (\<lambda>phys.
         and_then (byte_offset_of dv sb s phys) (\<lambda>source.
         and_then (byte_offset_of dv sb s (re_fs_block w)) (\<lambda>dest. Ok (source, dest))))"]) (auto simp: resolve_def outcome_simps)
  qed
  show "length rs = length (rp_writes plan)"
    "\<forall>(source, dest) \<in> set rs. unat source + unat (block_size sb) \<le> length (contents s) \<and> unat dest + unat (block_size sb) \<le> length (contents s)"
    using all [OF f(1), of "\<lambda>(source, dest). unat source + unat (block_size sb) \<le> length (contents s) \<and> unat dest + unat (block_size sb) \<le> length (contents s)"] f(2)
    by auto
qed

lemma apply_plan_ok:
  assumes "inv s" "dv_writable dv s" "4 \<le> unat (block_size sb)" "resolve dv jf sb plan s = Ok rs"
  shows "\<exists>s'. apply_plan dv jf sb plan s = (Ok (length (rp_writes plan)), s') \<and> inv s' \<and> dv_writable dv s' \<and>
    contents s' = fold (replay_step (unat (block_size sb))) (zip (rp_writes plan) rs) (contents s)"
proof (cases "rp_writes plan = []")
  case True
  then show ?thesis using assms(1,2) by (simp add: apply_plan_def)
next
  case False
  note rr = resolve_in_range [OF assms(1,4)]
  have "\<forall>(w, source, dest) \<in> set (zip (rp_writes plan) rs). unat source + unat (block_size sb) \<le> length (contents s) \<and>
      unat dest + unat (block_size sb) \<le> length (contents s)"
    using rr(2) by (auto dest: set_zip_rightD)
  from apply_writes_ok [OF assms(1-3) this, of 0] obtain s1 where a: "apply_writes dv (unat (block_size sb)) (zip (rp_writes plan) rs) 0 s = (Ok (length (rp_writes plan)), s1)"
    "inv s1" "dv_writable dv s1" "contents s1 = fold (replay_step (unat (block_size sb))) (zip (rp_writes plan) rs) (contents s)"
    using rr(1) by auto
  obtain s2 where "dv_flush dv s1 = (Ok (), s2)" "inv s2" "contents s2 = contents s1" "dv_writable dv s2 = dv_writable dv s1"
    using flush_ok [OF a(2)] by blast
  then show ?thesis using False assms(2,4) a by (simp add: apply_plan_def)
qed

end

section \<open>The devices of the driver\<close>

definition file_ops :: "file_device dev_ops" where
  "file_ops = \<lparr>dv_read = file_read_at, dv_write = file_write_at, dv_flush = (\<lambda>s. (Ok (), s)), dv_writable = fd_writable,
     dv_size = fd_size, dv_populate = (\<lambda>_ _ s. s)\<rparr>"

definition cached_ops :: "'s dev_ops \<Rightarrow> 's cached_device dev_ops" where
  "cached_ops dv = \<lparr>dv_read = cached_read_at (dv_read dv), dv_write = cached_write_at (dv_write dv), dv_flush = cached_flush (dv_flush dv),
     dv_writable = cached_is_writable (dv_writable dv), dv_size = (\<lambda>c. dv_size dv (cd_inner c)),
     dv_populate = cached_populate_cache\<rparr>"

definition sized_file :: "file_device \<Rightarrow> bool" where
  "sized_file d \<longleftrightarrow> file_inv d \<and> fd_size d = word_of_nat (length (fd_bytes d))"

interpretation file_full: full_device file_ops sized_file fd_bytes
proof
  fix s :: file_device and off :: u64 and n :: nat and buf :: bytes
  note defs = file_ops_def sized_file_def
  show "sized_file s \<Longrightarrow> 0 < n \<Longrightarrow> unat off + n \<le> length (fd_bytes s) \<Longrightarrow>
      fst (dv_read file_ops s off n) = Ok (slice (unat off) (unat off + n) (fd_bytes s))"
    using file_dev.read_in [of s n off] by (simp add: defs)
  show "sized_file s \<Longrightarrow> 0 < n \<Longrightarrow> n < 2 ^ 63 \<Longrightarrow> length (fd_bytes s) < unat off + n \<Longrightarrow> \<exists>e. fst (dv_read file_ops s off n) = Err e"
    using file_dev.read_out [of s n off] by (simp add: defs)
  show "sized_file s \<Longrightarrow> 0 < n \<Longrightarrow> n < 2 ^ 63 \<Longrightarrow> sized_file (snd (dv_read file_ops s off n)) \<and>
      fd_bytes (snd (dv_read file_ops s off n)) = fd_bytes s \<and> dv_writable file_ops (snd (dv_read file_ops s off n)) = dv_writable file_ops s"
    by (auto simp: defs file_read_at_def)
  show "sized_file s \<Longrightarrow> dv_writable file_ops s \<Longrightarrow> unat off + length buf \<le> length (fd_bytes s) \<Longrightarrow>
      fst (dv_write file_ops s off buf) = Ok () \<and> sized_file (snd (dv_write file_ops s off buf)) \<and>
      dv_writable file_ops (snd (dv_write file_ops s off buf)) \<and> fd_bytes (snd (dv_write file_ops s off buf)) = put (unat off) buf (fd_bytes s)"
    using file_dev.write_in [of s off buf] by (auto simp: defs) (auto simp: file_write_at_def)
  show "sized_file s \<Longrightarrow> \<not> dv_writable file_ops s \<Longrightarrow> unat off + length buf \<le> length (fd_bytes s) \<Longrightarrow>
      (\<exists>e. fst (dv_write file_ops s off buf) = Err e) \<and> sized_file (snd (dv_write file_ops s off buf)) \<and>
      fd_bytes (snd (dv_write file_ops s off buf)) = fd_bytes s \<and> \<not> dv_writable file_ops (snd (dv_write file_ops s off buf))"
    by (auto simp: defs file_write_at_def)
  show "sized_file s \<Longrightarrow> length (fd_bytes s) < 2 ^ 63" by (simp add: defs file_inv_def)
  show "sized_file s \<Longrightarrow> dv_size file_ops s = word_of_nat (length (fd_bytes s))" by (simp add: defs)
  show "sized_file s \<Longrightarrow> \<exists>s'. dv_flush file_ops s = (Ok (), s') \<and> sized_file s' \<and> fd_bytes s' = fd_bytes s \<and>
      dv_writable file_ops s' = dv_writable file_ops s" by (simp add: defs)
qed

context full_device
begin

lemma cached_full_device: "full_device (cached_ops dv) (cached_inv inv contents) (cached_view contents)"
proof -
  have ops: "dv_read (cached_ops dv) = cached_read_at (dv_read dv)" "dv_write (cached_ops dv) = cached_write_at (dv_write dv)"
    "dv_writable (cached_ops dv) = (\<lambda>c. dv_writable dv (cd_inner c))" by (simp_all add: cached_ops_def cached_is_writable_def [abs_def])
  have bd: "block_device (dv_read (cached_ops dv)) (dv_write (cached_ops dv)) (cached_inv inv contents) (cached_view contents) (dv_writable (cached_ops dv))"
    unfolding ops by (rule cached_block_device)
  show ?thesis
  proof (intro full_device.intro bd full_device_axioms.intro)
    fix c assume c: "cached_inv inv contents c"
    then show "dv_size (cached_ops dv) c = word_of_nat (length (cached_view contents c))"
      using size_is [of "cd_inner c"] by (simp add: cached_ops_def cached_view_def cached_inv_def)
    obtain s' where "dv_flush dv (cd_inner c) = (Ok (), s')" "inv s'" "contents s' = contents (cd_inner c)" "dv_writable dv s' = dv_writable dv (cd_inner c)"
      using flush_ok [of "cd_inner c"] c by (auto simp: cached_inv_def)
    then show "\<exists>c'. dv_flush (cached_ops dv) c = (Ok (), c') \<and> cached_inv inv contents c' \<and> cached_view contents c' = cached_view contents c \<and>
        dv_writable (cached_ops dv) c' = dv_writable (cached_ops dv) c"
      using c by (simp add: cached_ops_def cached_flush_def cached_is_writable_def with_inner_def cached_inv_def cached_view_def)
  qed
qed

end

interpretation cached_full: full_device "cached_ops file_ops" "cached_inv sized_file fd_bytes" "cached_view fd_bytes"
  by (rule file_full.cached_full_device)

section \<open>Properties\<close>

text \<open>
  Where a journaled block lands: a block number is accepted exactly when it is below the filesystem's
  block count and its whole block lies on the device, and then its offset is the product without
  wrap-around. No block number, block size or device size makes it unwind, wrap or reach past the end.
\<close>

theorem byte_offset_in_bounds:
  "case byte_offset_in b bc bs db of
     Ok off \<Rightarrow> b < bc \<and> unat off = unat b * unat bs \<and> unat off + unat bs \<le> unat db
   | Err e \<Rightarrow> bc \<le> b \<or> unat db < unat b * unat bs + unat bs
   | Panic \<Rightarrow> False"
proof (cases "byte_offset_in b bc bs db")
  case (Ok off)
  then have o: "b < bc" "unat b * unat bs + unat bs \<le> unat db" "off = b * ucast bs" by (simp_all add: byte_offset_in_Ok)
  then have "unat b * unat bs < 2 ^ 64" using unat_lt2p [of db] by simp
  then have "unat off = unat b * unat bs" using unat_mult_no_wrap [of b "ucast bs"] by (simp add: o(3))
  then show ?thesis using Ok o by simp
next
  case (Err e)
  then have "\<not> (b < bc \<and> unat b * unat bs + unat bs \<le> unat db)" using byte_offset_in_Ok [of b bc bs db] by auto
  then show ?thesis using Err by (auto simp: not_less)
qed (use byte_offset_not_Panic in simp)

text \<open>
  C19. Replay refuses for free: over any device that keeps its contract, applying a plan either writes every
  entry, in order, each destination block receiving its source block with an escaped magic restored, and reports their
  number; or it fails (a read-only device, a journal block with no mapping, a source or a destination outside the filesystem or
  the device) with the device's image as it was. There is no partial replay and no unwinding.
\<close>

theorem apply_plan_all_or_nothing:
  assumes "full_device dv ok contents" "ok s" "4 \<le> unat (block_size sb)" "jf_inode jf s \<noteq> Panic" "\<forall>ino b. jf_map jf s ino b \<noteq> Panic"
  shows "case apply_plan dv jf sb plan s of
      (Ok n, s') \<Rightarrow> n = length (rp_writes plan) \<and> ok s' \<and>
        (if rp_writes plan = [] then contents s' = contents s
         else \<exists>rs. resolve dv jf sb plan s = Ok rs \<and> length rs = length (rp_writes plan) \<and>
           contents s' = fold (replay_step (unat (block_size sb))) (zip (rp_writes plan) rs) (contents s))
    | (Err e, s') \<Rightarrow> rp_writes plan \<noteq> [] \<and> s' = s \<and> (\<not> dv_writable dv s \<or> resolve dv jf sb plan s = Err e)
    | (Panic, s') \<Rightarrow> False"
proof -
  have np: "resolve_all f ws \<noteq> Panic" if "\<And>w. f w \<noteq> Panic" for f ws
    using that by (induction ws) (auto simp: outcome_simps)
  have nr: "resolve dv jf sb plan s \<noteq> Panic"
    using assms(4,5) byte_offset_not_Panic unfolding resolve_def byte_offset_of_def
    by (auto simp: outcome_simps intro!: np)
  show ?thesis
  proof (cases "rp_writes plan = [] \<or> \<not> dv_writable dv s")
    case True
    then show ?thesis using assms(2) by (auto simp: apply_plan_def)
  next
    case False
    show ?thesis
    proof (cases "resolve dv jf sb plan s")
      case (Ok rs)
      obtain s' where "apply_plan dv jf sb plan s = (Ok (length (rp_writes plan)), s')" "ok s'"
        "contents s' = fold (replay_step (unat (block_size sb))) (zip (rp_writes plan) rs) (contents s)"
        using full_device.apply_plan_ok [OF assms(1,2) _ assms(3) Ok] False by blast
      then show ?thesis using False Ok full_device.resolve_in_range(1) [OF assms(1,2) Ok] by simp
    next
      case (Err e)
      then show ?thesis using False by (simp add: apply_plan_def)
    next
      case Panic
      then show ?thesis using nr by simp
    qed
  qed
qed

definition example_plan :: replay_plan where
  "example_plan = empty_plan\<lparr>rp_writes := [\<lparr>re_transaction = 1, re_fs_block = 3, re_journal_block = 1, re_flags = 0\<rparr>]\<rparr>"

definition example_file :: "('s, unit) journal_file" where
  "example_file = \<lparr>jf_inode = (\<lambda>_. Ok ()), jf_map = (\<lambda>_ _ k. Ok (Some (k + 1)))\<rparr>"

definition example_device :: file_device where
  "example_device = \<lparr>fd_bytes = replicate 2048 0 @ replicate 1024 7 @ replicate 1024 0, fd_size = 4096, fd_writable = True\<rparr>"

theorem apply_plan_all_or_nothing_witness:
  "\<exists>s'. apply_plan file_ops example_file example_sb example_plan example_device = (Ok 1, s') \<and>
     fd_bytes s' = put 3072 (replicate 1024 7) (fd_bytes example_device)"
proof -
  have len: "length (fd_bytes example_device) = 4096" by (simp add: example_device_def)
  have inv: "sized_file example_device" by (simp add: sized_file_def file_inv_def example_device_def)
  have off: "byte_offset_of file_ops example_sb example_device b = Ok (b * 1024)" if "b < 4" for b
  proof -
    have "b < 2049" using that order.strict_trans [of b 4 2049] by simp
    moreover have "unat b < 4" using that by (simp add: word_less_nat_alt)
    ultimately show ?thesis by (simp add: byte_offset_of_def byte_offset_in_Ok file_ops_def example_device_def)
  qed
  have res: "resolve file_ops example_file example_sb example_plan example_device = Ok [(2048, 3072)]"
    using off [of 2] off [of 3] by (simp add: resolve_def example_plan_def example_file_def ok_or_def)
  have src: "slice 2048 3072 (fd_bytes example_device) = replicate 1024 7" by (simp add: example_device_def slice_def)
  have ws: "rp_writes example_plan = [\<lparr>re_transaction = 1, re_fs_block = 3, re_journal_block = 1, re_flags = 0\<rparr>]" by (simp add: example_plan_def)
  have "4 \<le> unat (block_size example_sb)" "jf_inode example_file example_device \<noteq> Panic" "\<forall>ino b. jf_map example_file example_device ino b \<noteq> Panic"
    by (simp_all add: example_file_def)
  from apply_plan_all_or_nothing [OF file_full.full_device_axioms inv this, of example_plan] show ?thesis
    using res src
    by (cases "apply_plan file_ops example_file example_sb example_plan example_device")
      (auto simp: ws replay_step_def unescaped_def file_ops_def example_device_def split: outcome.splits)
qed

end
