(* ===== verification/Journal_Writer.thy ===== *)
theory Journal_Writer
  imports Journal_Apply
begin

unbundle bit_operations_syntax

text \<open>
  The live side of the journal (\<open>src/journal_writer.rs\<close>): opening the writer, and the fenced commit that
  writes a transaction to the log, marks the journal dirty, checkpoints and marks it clean.
\<close>

section \<open>The writer\<close>

record journal_writer =
  jw_healthy :: bool
  jw_hold :: bool
  jw_map :: "u64 list"
  jw_block_size :: u32
  jw_jsb :: journal_superblock
  jw_blocks_count :: u64

definition journal_len_fits :: "u32 \<Rightarrow> u64 \<Rightarrow> u32 \<Rightarrow> u64 \<Rightarrow> unit result" where
  "journal_len_fits max_len isize bs device_bytes =
     (let bs = (ucast (max bs 1) :: u64) in
      if (ucast max_len :: u64) > isize div bs then Err (Corrupt ''journal declares more blocks than its inode holds'')
      else if (ucast max_len :: u64) > device_bytes div bs then Err (Corrupt ''journal declares more blocks than the device holds'')
      else Ok ())"

definition group0_metadata_end :: "superblock \<Rightarrow> u64" where
  "group0_metadata_end sb =
     (let descriptor_bytes = block_group_count sb * ucast (desc_size sb) in
      ucast (first_data_block sb) + 1 + div_ceil descriptor_bytes (ucast (block_size sb)) + ucast (reserved_gdt_blocks sb))"

fun map_journal :: "(u64 \<Rightarrow> u64 option result) \<Rightarrow> u64 \<Rightarrow> u64 \<Rightarrow> nat list \<Rightarrow> u64 list result" where
  "map_journal f lo hi [] = Ok []"
| "map_journal f lo hi (k # ks) =
     and_then (and_then (f (word_of_nat k)) (\<lambda>p. ok_or p (Corrupt ''journal_writer: journal inode has unmapped logical block''))) (\<lambda>phys.
       if phys < lo \<or> phys \<ge> hi
       then Err (Corrupt ''journal_writer: journal inode maps a block onto the superblock, group 0's descriptor table, or past the end of the filesystem'')
       else and_then (map_journal f lo hi ks) (\<lambda>ps. Ok (phys # ps)))"

text \<open>\<open>isize\<close> is the length the journal's inode records.\<close>

definition jw_open :: "'s dev_ops \<Rightarrow> ('s, 'i) journal_file \<Rightarrow> ('i \<Rightarrow> u64) \<Rightarrow> superblock \<Rightarrow> 's \<Rightarrow> ('s, journal_writer option) dev_result" where
  "jw_open dv jf isize sb s =
     st_bind (read_superblock dv jf sb s) (\<lambda>j s. case j of
       None \<Rightarrow> (Ok None, s)
     | Some j \<Rightarrow>
         st_bind (jf_inode jf s, s) (\<lambda>ino s.
           if (ucast (j_max_len j) :: u64) > blocks_count sb
           then (Err (Corrupt ''journal declares more blocks than the filesystem holds''), s)
           else st_bind (journal_len_fits (j_max_len j) (isize ino) (block_size sb) (dv_size dv s), s) (\<lambda>_ s.
             st_bind (map_journal (jf_map jf s ino) (group0_metadata_end sb) (blocks_count sb) [0 ..< unat (j_max_len j)], s) (\<lambda>pmap s.
             (Ok (Some \<lparr>jw_healthy = True, jw_hold = False, jw_map = pmap, jw_block_size = block_size sb, jw_jsb = j,
                jw_blocks_count = blocks_count sb\<rparr>), s)))))"

definition jw_begin :: "journal_writer \<Rightarrow> transaction" where
  "jw_begin w = tx_begin (j_sequence (jw_jsb w)) (jw_block_size w) (uses_64bit (jw_jsb w)) (uses_csum_v3 (jw_jsb w))"

definition max_blocks_per_transaction :: "journal_writer \<Rightarrow> nat" where
  "max_blocks_per_transaction w = unat (j_max_len (jw_jsb w)) - 1"

definition holding_needs_recovery :: "journal_writer \<Rightarrow> journal_writer" where
  "holding_needs_recovery w = w\<lparr>jw_hold := True\<rparr>"

definition sb_block :: "journal_writer \<Rightarrow> u64" where
  "sb_block w = 1024 div ucast (jw_block_size w)"

definition sb_offset_in_block :: "journal_writer \<Rightarrow> nat" where
  "sb_offset_in_block w = unat ((1024 :: u64) mod ucast (jw_block_size w))"

definition patch_jsb :: "crc_fn \<Rightarrow> journal_superblock \<Rightarrow> bytes \<Rightarrow> bytes" where
  "patch_jsb crc j buf =
     (let buf = put 0x08 (u32_to_be (j_sequence j)) buf;
          buf = put 0x18 (u32_to_be (j_sequence j)) buf;
          buf = put 0x1C (u32_to_be (j_start j)) buf
      in if uses_csum_v2_or_v3 j
         then let buf = put 0xFC (u32_to_be 0) buf
              in put 0xFC (u32_to_be (linux_crc32c crc (NOT 0) (take 1024 buf))) buf
         else buf)"

text \<open>The slices of the journal superblock unwind on a block shorter than 1024 bytes.\<close>

definition write_jsb :: "crc_fn \<Rightarrow> 's dev_ops \<Rightarrow> journal_writer \<Rightarrow> 's \<Rightarrow> ('s, unit) dev_result" where
  "write_jsb crc dv w s =
     (if jw_map w = [] then (Panic, s)
      else let at = jw_map w ! 0 * ucast (jw_block_size w) in
        st_bind (dv_read dv s at (unat (jw_block_size w))) (\<lambda>buf s.
          if length buf < 1024 then (Panic, s)
          else if get_be32 0 buf \<noteq> JBD2_MAGIC_NUMBER
          then (Err (Corrupt ''journal_writer: jsb block lost its magic between mount and commit''), s)
          else if get_be32 4 buf \<noteq> j_block_type (jw_jsb w)
          then (Err (Corrupt ''journal_writer: jsb block_type changed since mount''), s)
          else dv_write dv s at (patch_jsb crc (jw_jsb w) buf)))"

fun flag_superblocks :: "crc_fn \<Rightarrow> u64 \<Rightarrow> nat \<Rightarrow> journaled_block list \<Rightarrow> journaled_block list result" where
  "flag_superblocks crc sbb off [] = Ok []"
| "flag_superblocks crc sbb off (w # ws) =
     and_then (if jb_fs_block w = sbb
               then and_then (get_slice off (off + 1024) (jb_bytes w)) (\<lambda>x.
                      Ok (w\<lparr>jb_bytes := put off (set_needs_recovery_in crc True x) (jb_bytes w)\<rparr>))
               else Ok w) (\<lambda>w.
     and_then (flag_superblocks crc sbb off ws) (\<lambda>ws. Ok (w # ws)))"

fun write_log :: "'s dev_ops \<Rightarrow> journal_writer \<Rightarrow> nat \<Rightarrow> bytes list \<Rightarrow> 's \<Rightarrow> ('s, unit) dev_result" where
  "write_log dv w idx [] s = (Ok (), s)"
| "write_log dv w idx (b # bl) s =
     (if idx \<ge> length (jw_map w) then (Panic, s)
      else st_bind (byte_offset_in (jw_map w ! idx) (jw_blocks_count w) (jw_block_size w) (dv_size dv s), s) (\<lambda>at s.
        st_bind (dv_write dv s at b) (\<lambda>_ s. write_log dv w (idx + 1) bl s)))"

fun write_final :: "'s dev_ops \<Rightarrow> journal_writer \<Rightarrow> journaled_block list \<Rightarrow> 's \<Rightarrow> ('s, unit) dev_result" where
  "write_final dv w [] s = (Ok (), s)"
| "write_final dv w (b # ws) s =
     st_bind (byte_offset_in (jb_fs_block b) (jw_blocks_count w) (jw_block_size w) (dv_size dv s), s) (\<lambda>at s.
     st_bind (dv_write dv s at (jb_bytes b)) (\<lambda>_ s. write_final dv w ws s))"

fun with_writer :: "journal_writer \<Rightarrow> ('s, 'a) dev_result \<Rightarrow> ('a \<Rightarrow> 's \<Rightarrow> (journal_writer \<times> 's, 'b) dev_result) \<Rightarrow>
    (journal_writer \<times> 's, 'b) dev_result" where
  "with_writer w (Ok x, s) f = f x s"
| "with_writer w (Err e, s) f = (Err e, (w, s))"
| "with_writer w (Panic, s) f = (Panic, (w, s))"

text \<open>The four fences, from the first device write on.\<close>

definition commit_fenced :: "crc_fn \<Rightarrow> 's dev_ops \<Rightarrow> transaction \<Rightarrow> bytes list \<Rightarrow> journal_writer \<Rightarrow> 's \<Rightarrow> (journal_writer \<times> 's, unit) dev_result" where
  "commit_fenced crc dv tx blocks w s =
     (let w = w\<lparr>jw_healthy := False\<rparr> in
      with_writer w (write_log dv w 1 blocks s) (\<lambda>_ s.
      with_writer w (write_needs_recovery crc dv True s) (\<lambda>_ s.
      with_writer w (dv_flush dv s) (\<lambda>_ s.
      let w = w\<lparr>jw_jsb := (jw_jsb w)\<lparr>j_start := 1\<rparr>\<rparr> in
      with_writer w (write_jsb crc dv w s) (\<lambda>_ s.
      with_writer w (dv_flush dv s) (\<lambda>_ s.
      with_writer w (write_final dv w (tx_writes tx) s) (\<lambda>_ s.
      with_writer w (dv_flush dv s) (\<lambda>_ s.
      let w = w\<lparr>jw_jsb := (jw_jsb w)\<lparr>j_start := 0, j_sequence := j_sequence (jw_jsb w) + 1\<rparr>\<rparr> in
      with_writer w (write_jsb crc dv w s) (\<lambda>_ s.
      with_writer w (if jw_hold w then (Ok (), s) else write_needs_recovery crc dv False s) (\<lambda>_ s.
      with_writer w (dv_flush dv s) (\<lambda>_ s.
      (Ok (), (w\<lparr>jw_healthy := True\<rparr>, s)))))))))))))"

definition commit_inner :: "crc_fn \<Rightarrow> 's dev_ops \<Rightarrow> transaction \<Rightarrow> journal_writer \<Rightarrow> 's \<Rightarrow> (journal_writer \<times> 's, unit) dev_result" where
  "commit_inner crc dv tx w s =
     (if \<not> dv_writable dv s then (Err ReadOnly, (w, s))
      else if tx_sequence tx \<noteq> j_sequence (jw_jsb w)
      then (Err (Corrupt ''journal_writer: transaction sequence does not match writer state''), (w, s))
      else if tx_block_size tx \<noteq> jw_block_size w
      then (Err (InvalidArgument ''journal_writer: transaction block size does not match the volume''), (w, s))
      else if \<exists>x \<in> set (tx_writes tx). length (jb_bytes x) \<noteq> unat (jw_block_size w)
      then (Err (InvalidArgument ''journal_writer: a journaled write is not exactly one block''), (w, s))
      else with_writer w (flag_superblocks crc (sb_block w) (sb_offset_in_block w) (tx_writes tx), s) (\<lambda>ws s.
        let tx = tx\<lparr>tx_writes := ws\<rparr> in
        with_writer w (commit_for crc tx (jw_jsb w), s) (\<lambda>blocks s.
          if blocks = [] then (Ok (), (w, s))
          else if length blocks > max_blocks_per_transaction w
          then (Err (Corrupt ''journal_writer: transaction too large for journal''), (w, s))
          else commit_fenced crc dv tx blocks w s)))"

definition jw_commit :: "crc_fn \<Rightarrow> 's dev_ops \<Rightarrow> transaction \<Rightarrow> journal_writer \<Rightarrow> 's \<Rightarrow> (journal_writer \<times> 's, unit) dev_result" where
  "jw_commit crc dv tx w s =
     (if \<not> jw_healthy w then (Err (Corrupt ''journal writer failed; reopen for recovery''), (w, s))
      else commit_inner crc dv tx w s)"

end
