(* ===== verification/Journal_Crash.thy ===== *)
theory Journal_Crash
  imports Journal_Writer
begin

unbundle bit_operations_syntax

text \<open>
  A model of crashes: a device that records its writes and flushes, and the images a crash can leave, for the
  fenced commit of \<open>src/journal_writer.rs\<close> and the replay of \<open>src/journal_apply.rs\<close>.
  The main theorem is the crash analysis of the module's documentation, proved: whatever
  a crash leaves, recovery gives the filesystem before the transaction or after it.
\<close>

section \<open>Crashes\<close>

text \<open>
  A device that keeps the order of its writes and flushes. A crash keeps everything before the last flush and any
  subset of the writes after it; a write is one block and lands whole or not at all.
\<close>

datatype dev_event = EWrite u64 bytes | EFlush

record traced =
  tr_image :: bytes
  tr_events :: "dev_event list"

definition traced_read :: "traced read_op" where
  "traced_read t off n = (if unat off + n \<le> length (tr_image t) then (Ok (slice (unat off) (unat off + n) (tr_image t)), t)
     else (Err (Io (KindError ''failed to fill whole buffer'')), t))"

definition traced_write :: "traced write_op" where
  "traced_write t off buf = (if unat off + length buf \<le> length (tr_image t)
     then (Ok (), t\<lparr>tr_image := put (unat off) buf (tr_image t), tr_events := tr_events t @ [EWrite off buf]\<rparr>)
     else (Err (Io (OsError EINVAL)), t))"

definition traced_ops :: "traced dev_ops" where
  "traced_ops = \<lparr>dv_read = traced_read, dv_write = traced_write, dv_flush = (\<lambda>t. (Ok (), t\<lparr>tr_events := tr_events t @ [EFlush]\<rparr>)),
     dv_writable = (\<lambda>_. True), dv_size = (\<lambda>t. word_of_nat (length (tr_image t))), dv_populate = (\<lambda>_ _ t. t)\<rparr>"

definition apply_all :: "(u64 \<times> bytes) list \<Rightarrow> bytes \<Rightarrow> bytes" where
  "apply_all ws img = fold (\<lambda>(off, x). put (unat off) x) ws img"

lemma apply_all_append: "apply_all (a @ b) img = apply_all b (apply_all a img)"
  by (simp add: apply_all_def)

inductive crashed :: "bytes \<Rightarrow> (u64 \<times> bytes) list \<Rightarrow> dev_event list \<Rightarrow> bytes \<Rightarrow> bool" where
  crash_now: "pick \<in> set (subseqs pend) \<Longrightarrow> crashed img pend evs (apply_all pick img)"
| crash_later_write: "crashed img (pend @ [(off, x)]) evs img' \<Longrightarrow> crashed img pend (EWrite off x # evs) img'"
| crash_later_flush: "crashed (apply_all pend img) [] evs img' \<Longrightarrow> crashed img pend (EFlush # evs) img'"

inductive_cases crashed_NilE: "crashed img pend [] img'"
inductive_cases crashed_ConsE: "crashed img pend (e # evs) img'"

section \<open>What a crash can leave\<close>

lemma subseqs_append: "ys \<in> set (subseqs xs) \<Longrightarrow> ys \<in> set (subseqs (xs @ zs))"
proof (induction xs arbitrary: ys)
  case Nil
  then show ?case by (induction zs) (auto simp: Let_def)
qed (auto simp: Let_def)

lemma subseqs_subset: "ys \<in> set (subseqs xs) \<Longrightarrow> set ys \<subseteq> set xs"
  using subseqs_powset [of xs] by blast

lemma subseqs_refl: "xs \<in> set (subseqs xs)"
  by (induction xs) (auto simp: Let_def)

lemma crashed_phase:
  assumes "crashed img pend (map (\<lambda>(off, x). EWrite off x) ws @ EFlush # evs) img'"
  shows "(\<exists>pick \<in> set (subseqs (pend @ ws)). img' = apply_all pick img) \<or> crashed (apply_all (pend @ ws) img) [] evs img'"
  using assms
proof (induction ws arbitrary: pend)
  case Nil
  then show ?case by (auto elim!: crashed_ConsE)
next
  case (Cons w ws)
  obtain off x where w: "w = (off, x)" by (cases w)
  from Cons.prems have "crashed img pend (EWrite off x # map (\<lambda>(off, x). EWrite off x) ws @ EFlush # evs) img'" by (simp add: w)
  then show ?case
  proof (rule crashed_ConsE)
    fix pick assume p: "img' = apply_all pick img" "pick \<in> set (subseqs pend)"
    from p(2) have "pick \<in> set (subseqs (pend @ w # ws))" by (rule subseqs_append)
    then show ?thesis using p by blast
  next
    fix off' x' assume "EWrite off x = EWrite off' x'" "crashed img (pend @ [(off', x')]) (map (\<lambda>(off, x). EWrite off x) ws @ EFlush # evs) img'"
    then show ?thesis using Cons.IH [of "pend @ [(off, x)]"] by (simp add: w)
  qed simp
qed

text \<open>Images that agree on every block outside a set.\<close>

definition agrees :: "nat \<Rightarrow> u64 set \<Rightarrow> bytes \<Rightarrow> bytes \<Rightarrow> bool" where
  "agrees bs S img img' \<longleftrightarrow> length img' = length img \<and>
     (\<forall>b. b \<notin> S \<longrightarrow> unat b * bs + bs \<le> length img \<longrightarrow> block_of bs b img' = block_of bs b img)"

lemma agrees_refl [simp]: "agrees bs S img img"
  by (simp add: agrees_def)

lemma agrees_trans: "agrees bs S a b \<Longrightarrow> agrees bs T b c \<Longrightarrow> agrees bs (S \<union> T) a c"
  by (simp add: agrees_def)

lemma agrees_mono: "agrees bs S a b \<Longrightarrow> S \<subseteq> T \<Longrightarrow> agrees bs T a b"
  by (auto simp: agrees_def)

lemma agrees_put:
  assumes "unat b * bs \<le> off" "off + length x \<le> unat b * bs + bs" "off + length x \<le> length img"
  shows "agrees bs {b} img (put off x img)"
  unfolding agrees_def
proof (intro conjI allI impI)
  show "length (put off x img) = length img" using assms(3) by simp
  fix c assume "c \<notin> {b}" "unat c * bs + bs \<le> length img"
  then show "block_of bs c (put off x img) = block_of bs c img"
    using assms blocks_disjoint [of c b bs] by (intro block_of_put_other) auto
qed

text \<open>Writes of whole blocks, given by block number.\<close>

definition block_writes :: "nat \<Rightarrow> (u64 \<times> bytes) list \<Rightarrow> bytes \<Rightarrow> bytes" where
  "block_writes bs ws img = fold (\<lambda>(b, x). put (unat b * bs) x) ws img"

definition whole_blocks :: "nat \<Rightarrow> nat \<Rightarrow> (u64 \<times> bytes) list \<Rightarrow> bool" where
  "whole_blocks bs n ws \<longleftrightarrow> (\<forall>(b, x) \<in> set ws. unat b * bs + bs \<le> n \<and> length x = bs)"

lemma length_block_writes [simp]: "whole_blocks bs (length img) ws \<Longrightarrow> length (block_writes bs ws img) = length img"
proof (induction ws arbitrary: img)
  case (Cons w ws)
  then have "length (put (unat (fst w) * bs) (snd w) img) = length img" by (auto simp: whole_blocks_def)
  then show ?case using Cons.IH [of "put (unat (fst w) * bs) (snd w) img"] Cons.prems by (simp add: whole_blocks_def block_writes_def split_beta)
qed (simp add: block_writes_def)

lemma block_of_block_writes:
  assumes "whole_blocks bs (length img) ws" "unat b * bs + bs \<le> length img"
  shows "block_of bs b (block_writes bs ws img) = (case map_of (rev ws) b of Some x \<Rightarrow> x | None \<Rightarrow> block_of bs b img)"
  using assms
proof (induction ws rule: rev_induct)
  case (snoc w ws)
  obtain c x where w: "w = (c, x)" by (cases w)
  have wb: "whole_blocks bs (length img) ws" "unat c * bs + bs \<le> length img" "length x = bs" using snoc.prems(1) by (auto simp: whole_blocks_def w)
  have len: "length (block_writes bs ws img) = length img" using wb(1) by simp
  have step: "block_writes bs (ws @ [w]) img = put (unat c * bs) x (block_writes bs ws img)" by (simp add: block_writes_def w)
  show ?case
  proof (cases "b = c")
    case True
    then show ?thesis unfolding step using wb len by (simp add: w block_of_put_same)
  next
    case False
    then have "block_of bs b (put (unat c * bs) x (block_writes bs ws img)) = block_of bs b (block_writes bs ws img)"
      using agrees_put [of c bs "unat c * bs" x "block_writes bs ws img"] wb len snoc.prems(2) by (simp add: agrees_def)
    then show ?thesis unfolding step using snoc.IH [OF wb(1) snoc.prems(2)] False by (simp add: w)
  qed
qed (simp add: block_writes_def)

lemma agrees_block_writes:
  assumes "whole_blocks bs (length img) ws"
  shows "agrees bs (fst ` set ws) img (block_writes bs ws img)"
proof -
  have "map_of (rev ws) b = None" if "b \<notin> fst ` set ws" for b using that by (simp add: map_of_eq_None_iff)
  then show ?thesis using assms by (simp add: agrees_def block_of_block_writes)
qed

text \<open>Device offsets of blocks inside the image do not wrap.\<close>

lemma block_offset:
  fixes bsw :: u32
  assumes "unat b * unat bsw + unat bsw \<le> n" "n < 2 ^ 63"
  shows "unat (b * ucast bsw :: u64) = unat b * unat bsw"
proof -
  have "unat b * unat bsw < 2 ^ 63" using assms by linarith
  then show ?thesis using unat_mult_no_wrap [of b "ucast bsw"] by simp
qed

lemma apply_all_blocks:
  fixes bsw :: u32 assumes "whole_blocks (unat bsw) n ws" "n < 2 ^ 63"
  shows "apply_all (map (\<lambda>(b, x). (b * ucast bsw, x)) ws) img = block_writes (unat bsw) ws img"
  using assms
proof (induction ws arbitrary: img)
  case (Cons w ws)
  obtain b x where w: "w = (b, x)" by (cases w)
  have "unat (b * ucast bsw :: u64) = unat b * unat bsw" "whole_blocks (unat bsw) n ws"
    using Cons.prems block_offset [of b bsw n] by (auto simp: whole_blocks_def w)
  then show ?case using Cons.IH [of "put (unat b * unat bsw) x img"] Cons.prems(2) by (simp add: apply_all_def block_writes_def w)
qed (simp add: apply_all_def block_writes_def)

lemma crash_picks:
  assumes "pick \<in> set (subseqs (map (\<lambda>(b, x). (b * ucast bsw, x)) ws))"
  obtains ws' where "pick = map (\<lambda>(b, x). (b * ucast bsw, x)) ws'" "set ws' \<subseteq> set ws"
proof -
  have "\<exists>ws'. pick = map f ws' \<and> set ws' \<subseteq> set xs" if "pick \<in> set (subseqs (map f xs))" for f :: "'x \<Rightarrow> 'y" and xs pick
    using that
  proof (induction xs arbitrary: pick)
    case (Cons x xs)
    show ?case
    proof (cases "pick \<in> set (subseqs (map f xs))")
      case True
      then show ?thesis using Cons.IH by fastforce
    next
      case False
      then obtain p where "pick = f x # p" "p \<in> set (subseqs (map f xs))" using Cons.prems by (auto simp: Let_def)
      moreover obtain ws' where "p = map f ws'" "set ws' \<subseteq> set xs" using Cons.IH calculation(2) by blast
      ultimately show ?thesis by (intro exI [of _ "x # ws'"]) auto
    qed
  qed auto
  then show thesis using assms that by blast
qed

section \<open>The commit on the recording device\<close>

definition recorded :: "(u64 \<times> bytes) list \<Rightarrow> traced \<Rightarrow> traced" where
  "recorded ws t = t\<lparr>tr_image := apply_all ws (tr_image t), tr_events := tr_events t @ map (\<lambda>(off, x). EWrite off x) ws\<rparr>"

definition fenced :: "traced \<Rightarrow> traced" where
  "fenced t = t\<lparr>tr_events := tr_events t @ [EFlush]\<rparr>"

lemma recorded_simps:
  "recorded [] t = t" "recorded (ws @ ws') t = recorded ws' (recorded ws t)" "tr_image (recorded ws t) = apply_all ws (tr_image t)"
  "tr_events (recorded ws t) = tr_events t @ map (\<lambda>(off, x). EWrite off x) ws"
  "tr_image (fenced t) = tr_image t" "tr_events (fenced t) = tr_events t @ [EFlush]"
  by (simp_all add: recorded_def fenced_def apply_all_def)

lemma recorded_Cons: "recorded (e # es) t = recorded es (recorded [e] t)"
  by (simp add: recorded_def apply_all_def)

definition block_events :: "u32 \<Rightarrow> (u64 \<times> bytes) list \<Rightarrow> (u64 \<times> bytes) list" where
  "block_events bsw ws = map (\<lambda>(b, x). (b * ucast bsw, x)) ws"

lemma traced_write_ok: "unat off + length x \<le> length (tr_image t) \<Longrightarrow> traced_write t off x = (Ok (), recorded [(off, x)] t)"
  by (simp add: traced_write_def recorded_def apply_all_def)

lemma write_log_traced:
  assumes "\<forall>k < length bl. idx + k < length (jw_map w) \<and> jw_map w ! (idx + k) < jw_blocks_count w \<and> length (bl ! k) = unat (jw_block_size w)"
    "unat (jw_blocks_count w) * unat (jw_block_size w) \<le> length (tr_image t)" "length (tr_image t) < 2 ^ 63"
  shows "write_log traced_ops w idx bl t = (Ok (), recorded (block_events (jw_block_size w) (zip (drop idx (jw_map w)) bl)) t)"
  using assms
proof (induction bl arbitrary: idx t)
  case Nil
  then show ?case by (simp add: recorded_simps block_events_def)
next
  case (Cons b bl)
  let ?bs = "unat (jw_block_size w)" and ?p = "jw_map w ! idx"
  have p: "idx < length (jw_map w)" "?p < jw_blocks_count w" "length b = ?bs" using Cons.prems(1) by auto
  have "unat ?p + 1 \<le> unat (jw_blocks_count w)" using p(2) by (simp add: word_less_nat_alt)
  then have "(unat ?p + 1) * ?bs \<le> unat (jw_blocks_count w) * ?bs" by (rule mult_le_mono1)
  then have rng: "unat ?p * ?bs + ?bs \<le> length (tr_image t)" using Cons.prems(2) by simp
  have off: "unat (?p * ucast (jw_block_size w) :: u64) = unat ?p * ?bs" by (rule block_offset [OF rng Cons.prems(3)])
  have "unat (word_of_nat (length (tr_image t)) :: u64) = length (tr_image t)" using Cons.prems(3) by (simp add: unat_of_nat)
  then have at: "byte_offset_in ?p (jw_blocks_count w) (jw_block_size w) (dv_size traced_ops t) = Ok (?p * ucast (jw_block_size w))"
    using p(2) rng by (simp add: byte_offset_in_Ok traced_ops_def)
  let ?t = "recorded [(?p * ucast (jw_block_size w), b)] t"
  have wr: "dv_write traced_ops t (?p * ucast (jw_block_size w)) b = (Ok (), ?t)"
    using rng off p(3) by (simp add: traced_ops_def traced_write_ok)
  have len: "length (tr_image ?t) = length (tr_image t)" using rng off p(3) by (simp add: recorded_simps apply_all_def)
  have "\<forall>k < length bl. (idx + 1) + k < length (jw_map w) \<and> jw_map w ! ((idx + 1) + k) < jw_blocks_count w \<and> length (bl ! k) = ?bs"
  proof (intro allI impI)
    fix k assume "k < length bl"
    then show "(idx + 1) + k < length (jw_map w) \<and> jw_map w ! ((idx + 1) + k) < jw_blocks_count w \<and> length (bl ! k) = ?bs"
      using Cons.prems(1) [rule_format, of "Suc k"] by simp
  qed
  from Cons.IH [OF this, of ?t] have "write_log traced_ops w (idx + 1) bl ?t =
      (Ok (), recorded (block_events (jw_block_size w) (zip (drop (idx + 1) (jw_map w)) bl)) ?t)" using Cons.prems(2,3) len by simp
  moreover have "block_events (jw_block_size w) (zip (drop idx (jw_map w)) (b # bl)) =
      (?p * ucast (jw_block_size w), b) # block_events (jw_block_size w) (zip (drop (idx + 1) (jw_map w)) bl)"
    using p(1) by (simp add: block_events_def Cons_nth_drop_Suc [symmetric])
  ultimately show ?case using p(1) at wr recorded_Cons [of "(?p * ucast (jw_block_size w), b)" "block_events (jw_block_size w) (zip (drop (idx + 1) (jw_map w)) bl)" t] by simp
qed

lemma write_final_traced:
  assumes "\<forall>x \<in> set ws. jb_fs_block x < jw_blocks_count w \<and> length (jb_bytes x) = unat (jw_block_size w)"
    "unat (jw_blocks_count w) * unat (jw_block_size w) \<le> length (tr_image t)" "length (tr_image t) < 2 ^ 63"
  shows "write_final traced_ops w ws t = (Ok (), recorded (block_events (jw_block_size w) (map (\<lambda>x. (jb_fs_block x, jb_bytes x)) ws)) t)"
  using assms
proof (induction ws arbitrary: t)
  case Nil
  then show ?case by (simp add: recorded_simps block_events_def)
next
  case (Cons x ws)
  let ?bs = "unat (jw_block_size w)" and ?p = "jb_fs_block x"
  have p: "?p < jw_blocks_count w" "length (jb_bytes x) = ?bs" using Cons.prems(1) by auto
  have "unat ?p + 1 \<le> unat (jw_blocks_count w)" using p(1) by (simp add: word_less_nat_alt)
  then have "(unat ?p + 1) * ?bs \<le> unat (jw_blocks_count w) * ?bs" by (rule mult_le_mono1)
  then have rng: "unat ?p * ?bs + ?bs \<le> length (tr_image t)" using Cons.prems(2) by simp
  have off: "unat (?p * ucast (jw_block_size w) :: u64) = unat ?p * ?bs" by (rule block_offset [OF rng Cons.prems(3)])
  have "unat (word_of_nat (length (tr_image t)) :: u64) = length (tr_image t)" using Cons.prems(3) by (simp add: unat_of_nat)
  then have at: "byte_offset_in ?p (jw_blocks_count w) (jw_block_size w) (dv_size traced_ops t) = Ok (?p * ucast (jw_block_size w))"
    using p(1) rng by (simp add: byte_offset_in_Ok traced_ops_def)
  let ?t = "recorded [(?p * ucast (jw_block_size w), jb_bytes x)] t"
  have wr: "dv_write traced_ops t (?p * ucast (jw_block_size w)) (jb_bytes x) = (Ok (), ?t)"
    using rng off p(2) by (simp add: traced_ops_def traced_write_ok)
  have len: "length (tr_image ?t) = length (tr_image t)" using rng off p(2) by (simp add: recorded_simps apply_all_def)
  have "write_final traced_ops w ws ?t = (Ok (), recorded (block_events (jw_block_size w) (map (\<lambda>x. (jb_fs_block x, jb_bytes x)) ws)) ?t)"
    using Cons.IH [of ?t] Cons.prems len by simp
  moreover have "block_events (jw_block_size w) (map (\<lambda>x. (jb_fs_block x, jb_bytes x)) (x # ws)) =
      (?p * ucast (jw_block_size w), jb_bytes x) # block_events (jw_block_size w) (map (\<lambda>x. (jb_fs_block x, jb_bytes x)) ws)"
    by (simp add: block_events_def)
  ultimately show ?case
    using at wr recorded_Cons [of "(?p * ucast (jw_block_size w), jb_bytes x)" "block_events (jw_block_size w) (map (\<lambda>x. (jb_fs_block x, jb_bytes x)) ws)" t]
    by simp
qed

section \<open>The journal superblock on disk\<close>

definition jsb_same :: "journal_superblock \<Rightarrow> journal_superblock \<Rightarrow> bool" where
  "jsb_same a b \<longleftrightarrow> a\<lparr>j_header_sequence := 0, j_checksum := 0\<rparr> = b\<lparr>j_header_sequence := 0, j_checksum := 0\<rparr>"

lemma get_be32_put:
  assumes "p + length ys \<le> length buf" "off + 4 \<le> p \<or> p + length ys \<le> off"
  shows "get_be32 off (put p ys buf) = get_be32 off buf"
  using assms by (simp add: get_put_other)

text \<open>The fields the parser reads, and when it accepts.\<close>

definition jsb_fields :: "bytes \<Rightarrow> journal_superblock" where
  "jsb_fields raw = (let v2 = (get_be32 4 raw = JBD2_SUPERBLOCK_V2) in
     \<lparr>j_block_type = get_be32 4 raw, j_header_sequence = get_be32 8 raw, j_block_size = get_be32 0xC raw,
      j_max_len = get_be32 0x10 raw, j_first = get_be32 0x14 raw, j_sequence = get_be32 0x18 raw,
      j_start = get_be32 0x1C raw, j_errno = get_be32 0x20 raw,
      j_feature_compat = (if v2 then get_be32 0x24 raw else 0), j_feature_incompat = (if v2 then get_be32 0x28 raw else 0),
      j_feature_ro_compat = (if v2 then get_be32 0x2C raw else 0), j_uuid = (if v2 then slice 0x30 0x40 raw else replicate 16 0),
      j_nr_users = (if v2 then get_be32 0x40 raw else 0), j_checksum_type = (if v2 then raw ! 0x50 else 0),
      j_num_fc_blocks = (if v2 then get_be32 0x54 raw else 0), j_checksum = (if v2 then get_be32 0xFC raw else 0)\<rparr>)"

definition jsb_accepts :: "bytes \<Rightarrow> bool" where
  "jsb_accepts raw \<longleftrightarrow> 0x100 \<le> length raw \<and> get_be32 0 raw = JBD2_MAGIC_NUMBER \<and>
     (get_be32 4 raw = JBD2_SUPERBLOCK_V1 \<or> get_be32 4 raw = JBD2_SUPERBLOCK_V2)"

lemma jsb_parse_iff: "jsb_parse raw = Ok j \<longleftrightarrow> jsb_accepts raw \<and> j = jsb_fields raw"
proof (cases "jsb_accepts raw")
  case True
  then have "jsb_parse raw = Ok (jsb_fields raw)" unfolding jsb_parse_def jsb_accepts_def jsb_fields_def Let_def by (simp cong: if_cong)
  then show ?thesis using True by auto
next
  case False
  then have "jsb_parse raw \<noteq> Ok j" unfolding jsb_parse_def jsb_accepts_def Let_def by (simp cong: if_cong)
  then show ?thesis using False by simp
qed

lemma put_frame:
  assumes "p + 4 \<le> length buf"
  shows "k + 4 \<le> p \<or> p + 4 \<le> k \<Longrightarrow> get_be32 k (put p (u32_to_be v) buf) = get_be32 k buf"
    "get_be32 p (put p (u32_to_be v) buf) = v" "length (put p (u32_to_be v) buf) = length buf"
    "0x40 \<le> p \<or> p + 4 \<le> 0x30 \<Longrightarrow> slice 0x30 0x40 (put p (u32_to_be v) buf) = slice 0x30 0x40 buf"
    "0x50 < p \<or> p + 4 \<le> 0x50 \<Longrightarrow> 0x50 < length buf \<Longrightarrow> put p (u32_to_be v) buf ! 0x50 = buf ! 0x50"
  using assms by (auto simp: get_be32_put codec_simps slice_put_before slice_put_after nth_put)

lemma jsb_parse_put:
  assumes "jsb_parse buf = Ok j0" "1024 \<le> length buf"
  shows "jsb_parse (put 0x08 (u32_to_be v) buf) = Ok (j0\<lparr>j_header_sequence := v\<rparr>)"
    "jsb_parse (put 0x18 (u32_to_be v) buf) = Ok (j0\<lparr>j_sequence := v\<rparr>)"
    "jsb_parse (put 0x1C (u32_to_be v) buf) = Ok (j0\<lparr>j_start := v\<rparr>)"
    "jsb_parse (put 0xFC (u32_to_be v) buf) = Ok (j0\<lparr>j_checksum := if j_block_type j0 = JBD2_SUPERBLOCK_V2 then v else 0\<rparr>)"
proof -
  have a: "jsb_accepts buf" "j0 = jsb_fields buf" using assms(1) by (simp_all add: jsb_parse_iff)
  have fit: "0x08 + 4 \<le> length buf" "0x18 + 4 \<le> length buf" "0x1C + 4 \<le> length buf" "0xFC + 4 \<le> length buf" "0x50 < length buf"
    using assms(2) by simp_all
  show "jsb_parse (put 0x08 (u32_to_be v) buf) = Ok (j0\<lparr>j_header_sequence := v\<rparr>)"
    using a fit(5) unfolding jsb_parse_iff jsb_accepts_def jsb_fields_def Let_def by (simp add: put_frame [OF fit(1)])
  show "jsb_parse (put 0x18 (u32_to_be v) buf) = Ok (j0\<lparr>j_sequence := v\<rparr>)"
    using a fit(5) unfolding jsb_parse_iff jsb_accepts_def jsb_fields_def Let_def by (simp add: put_frame [OF fit(2)])
  show "jsb_parse (put 0x1C (u32_to_be v) buf) = Ok (j0\<lparr>j_start := v\<rparr>)"
    using a fit(5) unfolding jsb_parse_iff jsb_accepts_def jsb_fields_def Let_def by (simp add: put_frame [OF fit(3)])
  show "jsb_parse (put 0xFC (u32_to_be v) buf) = Ok (j0\<lparr>j_checksum := if j_block_type j0 = JBD2_SUPERBLOCK_V2 then v else 0\<rparr>)"
    using a fit(5) unfolding jsb_parse_iff jsb_accepts_def jsb_fields_def Let_def by (simp add: put_frame [OF fit(4)])
qed

lemma patch_jsb_parse:
  assumes "jsb_parse buf = Ok j0" "1024 \<le> length buf"
  shows "length (patch_jsb crc j buf) = length buf"
    "\<exists>c. jsb_parse (patch_jsb crc j buf) = Ok (j0\<lparr>j_header_sequence := j_sequence j, j_sequence := j_sequence j, j_start := j_start j, j_checksum := c\<rparr>)"
proof -
  let ?b3 = "put 0x1C (u32_to_be (j_start j)) (put 0x18 (u32_to_be (j_sequence j)) (put 0x08 (u32_to_be (j_sequence j)) buf))"
  have l3: "length ?b3 = length buf" using assms(2) by simp
  let ?q = "\<lambda>c b. put 0xFC (u32_to_be c) b"
  have p3: "jsb_parse ?b3 = Ok (j0\<lparr>j_header_sequence := j_sequence j, j_sequence := j_sequence j, j_start := j_start j\<rparr>)"
  proof -
    let ?b1 = "put 0x08 (u32_to_be (j_sequence j)) buf"
    let ?b2 = "put 0x18 (u32_to_be (j_sequence j)) ?b1"
    have 1: "jsb_parse ?b1 = Ok (j0\<lparr>j_header_sequence := j_sequence j\<rparr>)" by (rule jsb_parse_put(1) [OF assms])
    have "1024 \<le> length ?b1" using assms(2) by simp
    from jsb_parse_put(2) [OF 1 this] have 2: "jsb_parse ?b2 = Ok (j0\<lparr>j_header_sequence := j_sequence j, j_sequence := j_sequence j\<rparr>)" .
    have "1024 \<le> length ?b2" using assms(2) by simp
    from jsb_parse_put(3) [OF 2 this] show ?thesis .
  qed
  have pq: "\<exists>c'. jsb_parse (?q c b) = Ok (j1\<lparr>j_checksum := c'\<rparr>)" if "jsb_parse b = Ok j1" "1024 \<le> length b" for c b j1
    using jsb_parse_put(4) [OF that] by blast
  show "length (patch_jsb crc j buf) = length buf" using assms(2) l3 by (simp add: patch_jsb_def Let_def)
  show "\<exists>c. jsb_parse (patch_jsb crc j buf) = Ok (j0\<lparr>j_header_sequence := j_sequence j, j_sequence := j_sequence j, j_start := j_start j, j_checksum := c\<rparr>)"
  proof (cases "uses_csum_v2_or_v3 j")
    case True
    obtain c1 where c1: "jsb_parse (?q 0 ?b3) = Ok (j0\<lparr>j_header_sequence := j_sequence j, j_sequence := j_sequence j, j_start := j_start j, j_checksum := c1\<rparr>)"
      using pq [OF p3, of 0] l3 assms(2) by auto
    have "1024 \<le> length (?q 0 ?b3)" using l3 assms(2) by simp
    from pq [OF c1 this] show ?thesis using True by (simp add: patch_jsb_def Let_def)
  next
    case False
    have "jsb_parse ?b3 = Ok (j0\<lparr>j_header_sequence := j_sequence j, j_sequence := j_sequence j, j_start := j_start j, j_checksum := j_checksum j0\<rparr>)"
      unfolding p3 by (cases j0) simp
    then show ?thesis using False by (intro exI [of _ "j_checksum j0"]) (simp add: patch_jsb_def Let_def)
  qed
qed

lemma write_jsb_traced:
  assumes "jsb_parse (block_of bs (jw_map w ! 0) (tr_image t)) = Ok j0" "bs = unat (jw_block_size w)" "1024 \<le> bs" "jw_map w \<noteq> []"
    "unat (jw_map w ! 0) * bs + bs \<le> length (tr_image t)" "length (tr_image t) < 2 ^ 63" "j_block_type (jw_jsb w) = j_block_type j0"
  obtains J c where "write_jsb crc traced_ops w t = (Ok (), recorded (block_events (jw_block_size w) [(jw_map w ! 0, J)]) t)" "length J = bs"
    "jsb_parse J = Ok (j0\<lparr>j_header_sequence := j_sequence (jw_jsb w), j_sequence := j_sequence (jw_jsb w), j_start := j_start (jw_jsb w), j_checksum := c\<rparr>)"
proof -
  let ?p = "jw_map w ! 0" and ?b = "block_of bs (jw_map w ! 0) (tr_image t)"
  have lb: "length ?b = bs" using assms(5) by (rule length_block_of)
  have off: "unat (?p * ucast (jw_block_size w) :: u64) = unat ?p * bs" using block_offset assms(2,5,6) by simp
  have rd: "dv_read traced_ops t (?p * ucast (jw_block_size w)) (unat (jw_block_size w)) = (Ok ?b, t)"
    using off assms(2,5) by (simp add: traced_ops_def traced_read_def block_of_def)
  have hd: "get_be32 0 ?b = JBD2_MAGIC_NUMBER" "get_be32 4 ?b = j_block_type (jw_jsb w)"
    using assms(1,7) by (auto simp: jsb_parse_def Let_def split: if_splits)
  let ?J = "patch_jsb crc (jw_jsb w) ?b"
  have lJ: "length ?J = bs" using patch_jsb_parse(1) [OF assms(1)] lb assms(3) by simp
  have "dv_write traced_ops t (?p * ucast (jw_block_size w)) ?J = (Ok (), recorded [(?p * ucast (jw_block_size w), ?J)] t)"
    using off lJ assms(5) by (simp add: traced_ops_def traced_write_ok)
  then have "write_jsb crc traced_ops w t = (Ok (), recorded (block_events (jw_block_size w) [(?p, ?J)]) t)"
    using rd hd lb assms(3,4) by (simp add: write_jsb_def Let_def block_events_def)
  moreover obtain c where "jsb_parse ?J = Ok (j0\<lparr>j_header_sequence := j_sequence (jw_jsb w), j_sequence := j_sequence (jw_jsb w), j_start := j_start (jw_jsb w), j_checksum := c\<rparr>)"
    using patch_jsb_parse(2) [OF assms(1), of crc "jw_jsb w"] lb assms(3) by auto
  ultimately show thesis using that lJ by blast
qed

lemma length_set_needs_recovery: "length sb = 1024 \<Longrightarrow> length (set_needs_recovery_in crc on sb) = 1024"
  by (simp add: set_needs_recovery_in_def Let_def)

lemma write_needs_recovery_traced:
  assumes "2048 \<le> length (tr_image t)"
  obtains x where "write_needs_recovery crc traced_ops on t = (Ok (), recorded [(1024, x)] t)" "length x = 1024"
proof -
  let ?sb = "slice 1024 2048 (tr_image t)"
  have len: "length ?sb = 1024" using assms by simp
  have "dv_read traced_ops t 1024 1024 = (Ok ?sb, t)" using assms by (simp add: traced_ops_def traced_read_def)
  moreover have "dv_write traced_ops t 1024 (set_needs_recovery_in crc on ?sb) = (Ok (), recorded [(1024, set_needs_recovery_in crc on ?sb)] t)"
    using assms length_set_needs_recovery [OF len] by (simp add: traced_ops_def traced_write_ok)
  ultimately show thesis using that length_set_needs_recovery [OF len] by (simp add: write_needs_recovery_def)
qed

section \<open>The trace of a commit\<close>

text \<open>
  When a commit may run: an internal journal at rest on an image that holds the filesystem, whose blocks are
  distinct, inside it and not the superblock's; its superblock on disk is the one in memory; the transaction's targets
  are blocks of the filesystem outside the journal whose numbers its tags can hold.
\<close>

definition commit_ready :: "journal_writer \<Rightarrow> transaction \<Rightarrow> bytes \<Rightarrow> bool" where
  "commit_ready w tx img \<longleftrightarrow>
     (unat (jw_block_size w) = 1024 \<or> 2048 \<le> unat (jw_block_size w)) \<and> length img < 2 ^ 63 \<and> 2048 \<le> length img \<and>
     unat (jw_blocks_count w) * unat (jw_block_size w) \<le> length img \<and>
     j_block_size (jw_jsb w) = jw_block_size w \<and> j_first (jw_jsb w) = 1 \<and> j_start (jw_jsb w) = 0 \<and> 1 < j_max_len (jw_jsb w) \<and>
     length (jw_map w) = unat (j_max_len (jw_jsb w)) \<and> distinct (jw_map w) \<and>
     (\<forall>p \<in> set (jw_map w). p \<noteq> sb_block w \<and> p < jw_blocks_count w) \<and>
     (\<exists>j0. jsb_parse (block_of (unat (jw_block_size w)) (jw_map w ! 0) img) = Ok j0 \<and> jsb_same j0 (jw_jsb w)) \<and>
     (\<forall>x \<in> set (tx_writes tx). jb_fs_block x \<notin> set (jw_map w) \<and> jb_fs_block x < jw_blocks_count w \<and> fits_tag (jw_jsb w) (jb_fs_block x))"

lemma block_in_range:
  "b < c \<Longrightarrow> unat c * bs \<le> n \<Longrightarrow> unat b * bs + bs \<le> n"
proof -
  assume "b < c" "unat c * bs \<le> n"
  then have "(unat b + 1) * bs \<le> unat c * bs" by (intro mult_le_mono1) (simp add: word_less_nat_alt)
  then show ?thesis using \<open>unat c * bs \<le> n\<close> by simp
qed

lemma agrees_sb_write:
  assumes "unat (jw_block_size w) = 1024 \<or> 2048 \<le> unat (jw_block_size w)" "length x = 1024" "2048 \<le> length img"
  shows "agrees (unat (jw_block_size w)) {sb_block w} img (put 1024 x img)"
proof -
  have "unat (sb_block w) = 1024 div unat (jw_block_size w)" by (simp add: sb_block_def unat_div_word)
  then show ?thesis using assms by (intro agrees_put) auto
qed

abbreviation write_events :: "(u64 \<times> bytes) list \<Rightarrow> dev_event list" where
  "write_events \<equiv> map (\<lambda>(off, x). EWrite off x)"

lemma commit_fenced_trace:
  assumes ready: "commit_ready w tx img" and wb: "\<forall>x \<in> set (tx_writes tx). length (jb_bytes x) = unat (jw_block_size w)"
    and bl: "\<forall>b \<in> set blocks. length b = unat (jw_block_size w)" "length blocks \<le> max_blocks_per_transaction w"
  obtains x1 J1 J2 sbx j1 j2 w' t' where
    "commit_fenced crc traced_ops tx blocks w \<lparr>tr_image = img, tr_events = []\<rparr> = (Ok (), (w', t'))"
    "tr_events t' = write_events (block_events (jw_block_size w) (zip (drop 1 (jw_map w)) blocks) @ [(1024, x1)]) @ EFlush #
       write_events (block_events (jw_block_size w) [(jw_map w ! 0, J1)]) @ EFlush #
       write_events (block_events (jw_block_size w) (map (\<lambda>x. (jb_fs_block x, jb_bytes x)) (tx_writes tx))) @ EFlush #
       write_events (block_events (jw_block_size w) [(jw_map w ! 0, J2)] @ sbx) @ EFlush # []"
    "tr_image t' = apply_all (block_events (jw_block_size w) [(jw_map w ! 0, J2)] @ sbx) (apply_all (block_events (jw_block_size w) (map (\<lambda>x. (jb_fs_block x, jb_bytes x)) (tx_writes tx)))
       (apply_all (block_events (jw_block_size w) [(jw_map w ! 0, J1)]) (apply_all (block_events (jw_block_size w) (zip (drop 1 (jw_map w)) blocks) @ [(1024, x1)]) img)))"
    "length x1 = 1024" "sbx = [] \<or> (\<exists>x2. sbx = [(1024, x2)] \<and> length x2 = 1024)"
    "length J1 = unat (jw_block_size w)" "jsb_parse J1 = Ok j1" "jsb_same j1 ((jw_jsb w)\<lparr>j_start := 1\<rparr>)"
    "length J2 = unat (jw_block_size w)" "jsb_parse J2 = Ok j2" "jsb_same j2 ((jw_jsb w)\<lparr>j_start := 0, j_sequence := j_sequence (jw_jsb w) + 1\<rparr>)"
proof -
  let ?bsw = "jw_block_size w" and ?m = "jw_map w"
  define bs where "bs = unat ?bsw"
  note rd = ready [unfolded commit_ready_def, folded bs_def]
  have g: "bs = 1024 \<or> 2048 \<le> bs" "length img < 2 ^ 63" "2048 \<le> length img" "unat (jw_blocks_count w) * bs \<le> length img" using rd by auto
  have "1 < unat (j_max_len (jw_jsb w))" using rd by (simp add: word_less_nat_alt)
  then have ne: "?m \<noteq> []" using rd by auto
  have m0: "?m ! 0 \<in> set ?m" using ne by simp
  obtain j0 where j0: "jsb_parse (block_of bs (?m ! 0) img) = Ok j0" "jsb_same j0 (jw_jsb w)" using rd by blast
  have r0: "unat (?m ! 0) * bs + bs \<le> length img" using rd m0 g(4) block_in_range by blast
  define L where "L = zip (drop 1 ?m) blocks"
  have mr: "unat p * bs + bs \<le> length img" if "p \<in> set ?m" for p using rd that g(4) block_in_range by blast
  have wL: "whole_blocks bs (length img) L"
    unfolding whole_blocks_def L_def
  proof (intro ballI case_prodI2 impI conjI)
    fix e p b assume e: "e \<in> set (zip (drop 1 ?m) blocks)" "e = (p, b)"
    then have "p \<in> set ?m" "b \<in> set blocks" by (auto dest: set_zip_leftD set_zip_rightD in_set_dropD)
    then show "unat p * bs + bs \<le> length img" "length b = bs" using mr bl(1) by (auto simp: bs_def)
  qed
  have nL: "?m ! 0 \<notin> fst ` set L"
  proof -
    have "?m = ?m ! 0 # drop 1 ?m" using ne by (simp add: Cons_nth_drop_Suc)
    moreover have "distinct ?m" using rd by blast
    ultimately have "?m ! 0 \<notin> set (drop 1 ?m)" by (metis distinct.simps(2))
    then show ?thesis by (auto simp: L_def dest: set_zip_leftD)
  qed
  define w1 where "w1 = w\<lparr>jw_healthy := False\<rparr>"
  define t0 where "t0 = \<lparr>tr_image = img, tr_events = []\<rparr>"
  define t1 where "t1 = recorded (block_events ?bsw L) t0"
  have i1: "tr_image t1 = block_writes bs L img"
    using apply_all_blocks [of ?bsw "length img" L img] wL g(2) by (simp add: t1_def t0_def recorded_simps block_events_def bs_def)
  have "length blocks < unat (j_max_len (jw_jsb w))"
    using bl(2) \<open>1 < unat (j_max_len (jw_jsb w))\<close> by (simp add: max_blocks_per_transaction_def)
  then have l1: "write_log traced_ops w1 1 blocks t0 = (Ok (), t1)"
    using write_log_traced [of blocks 1 w1 t0] bl rd g
    by (simp add: w1_def t0_def t1_def L_def bs_def max_blocks_per_transaction_def)
  have len1: "length (tr_image t1) = length img" using i1 wL by simp
  obtain x1 where x1: "write_needs_recovery crc traced_ops True t1 = (Ok (), recorded [(1024, x1)] t1)" "length x1 = 1024"
    using write_needs_recovery_traced [of t1 crc True] len1 g(3) by metis
  define t3 where "t3 = fenced (recorded [(1024, x1)] t1)"
  have i3: "tr_image t3 = put 1024 x1 (block_writes bs L img)" by (simp add: t3_def recorded_simps i1 apply_all_def)
  have len3: "length (tr_image t3) = length img" using i3 wL x1(2) g(3) by simp
  have "agrees bs (fst ` set L \<union> {sb_block w}) img (tr_image t3)"
    using agrees_trans [OF agrees_block_writes [OF wL] agrees_sb_write [of w x1 "block_writes bs L img", folded bs_def]] g x1(2) wL i3 by simp
  moreover have "?m ! 0 \<noteq> sb_block w" using rd m0 by blast
  ultimately have b3: "block_of bs (?m ! 0) (tr_image t3) = block_of bs (?m ! 0) img" using nL r0 by (simp add: agrees_def)
  define w2 where "w2 = w1\<lparr>jw_jsb := (jw_jsb w)\<lparr>j_start := 1\<rparr>\<rparr>"
  have w2: "jw_map w2 = ?m" "jw_block_size w2 = ?bsw" "jw_blocks_count w2 = jw_blocks_count w" "jw_hold w2 = jw_hold w" by (simp_all add: w2_def w1_def)
  have bt: "j_block_type (jw_jsb w) = j_block_type j0" using j0(2) by (cases j0, cases "jw_jsb w") (simp add: jsb_same_def)
  have "1024 \<le> bs" using g(1) by auto
  obtain J1 c1 where J1: "write_jsb crc traced_ops w2 t3 = (Ok (), recorded (block_events ?bsw [(?m ! 0, J1)]) t3)" "length J1 = bs"
    "jsb_parse J1 = Ok (j0\<lparr>j_header_sequence := j_sequence (jw_jsb w2), j_sequence := j_sequence (jw_jsb w2), j_start := j_start (jw_jsb w2), j_checksum := c1\<rparr>)"
    by (rule write_jsb_traced [of bs w2 t3 j0 crc]) (use w2 b3 j0(1) bs_def \<open>1024 \<le> bs\<close> ne r0 len3 g(2) bt in \<open>simp_all add: w2_def w1_def\<close>)
  define t5 where "t5 = fenced (recorded (block_events ?bsw [(?m ! 0, J1)]) t3)"
  have wJ: "whole_blocks bs (length img) [(?m ! 0, J)]" if "length J = bs" for J using that r0 by (simp add: whole_blocks_def)
  have i5: "tr_image t5 = block_writes bs [(?m ! 0, J1)] (tr_image t3)"
    using apply_all_blocks [of ?bsw "length img" "[(?m ! 0, J1)]"] wJ [OF J1(2)] g(2) by (simp add: t5_def recorded_simps block_events_def bs_def)
  have len5: "length (tr_image t5) = length img" using i5 wJ [OF J1(2)] len3 by simp
  have b5: "block_of bs (?m ! 0) (tr_image t5) = J1" using i5 wJ [OF J1(2)] len3 r0 by (simp add: block_of_block_writes)
  define F where "F = map (\<lambda>x. (jb_fs_block x, jb_bytes x)) (tx_writes tx)"
  have "unat (jb_fs_block x) * bs + bs \<le> length img" "jb_fs_block x \<notin> set ?m" if "x \<in> set (tx_writes tx)" for x
    using rd that g(4) block_in_range by blast+
  then have wF: "whole_blocks bs (length img) F" and nF: "?m ! 0 \<notin> fst ` set F"
    using wb m0 by (auto simp: whole_blocks_def F_def bs_def)
  define t7 where "t7 = fenced (recorded (block_events ?bsw F) t5)"
  have f: "write_final traced_ops w2 (tx_writes tx) t5 = (Ok (), recorded (block_events ?bsw F) t5)"
    using write_final_traced [of "tx_writes tx" w2 t5] w2 rd wb g len5 by (simp add: F_def bs_def)
  have i7: "tr_image t7 = block_writes bs F (tr_image t5)"
    using apply_all_blocks [of ?bsw "length img" F] wF g(2) by (simp add: t7_def recorded_simps block_events_def bs_def)
  have len7: "length (tr_image t7) = length img" using i7 wF len5 by simp
  have b7: "block_of bs (?m ! 0) (tr_image t7) = J1"
    using agrees_block_writes [of bs "tr_image t5" F] wF len5 nF r0 b5 i7 by (simp add: agrees_def)
  define w3 where "w3 = w2\<lparr>jw_jsb := (jw_jsb w2)\<lparr>j_start := 0, j_sequence := j_sequence (jw_jsb w2) + 1\<rparr>\<rparr>"
  have w3: "jw_map w3 = ?m" "jw_block_size w3 = ?bsw" "jw_hold w3 = jw_hold w" by (simp_all add: w3_def w2)
  define j1 where "j1 = j0\<lparr>j_header_sequence := j_sequence (jw_jsb w2), j_sequence := j_sequence (jw_jsb w2), j_start := j_start (jw_jsb w2), j_checksum := c1\<rparr>"
  have j1: "jsb_parse (block_of bs (jw_map w3 ! 0) (tr_image t7)) = Ok j1" "j_block_type (jw_jsb w3) = j_block_type j1"
    using w3 b7 J1(3) bt by (simp_all add: j1_def w3_def w2_def)
  obtain J2 c2 where J2: "write_jsb crc traced_ops w3 t7 = (Ok (), recorded (block_events ?bsw [(?m ! 0, J2)]) t7)" "length J2 = bs"
    "jsb_parse J2 = Ok (j1\<lparr>j_header_sequence := j_sequence (jw_jsb w3), j_sequence := j_sequence (jw_jsb w3), j_start := j_start (jw_jsb w3), j_checksum := c2\<rparr>)"
    using write_jsb_traced [OF j1(1) _ \<open>1024 \<le> bs\<close> _ _ _ j1(2), of crc] w3 bs_def ne r0 len7 g(2) by metis
  define t8 where "t8 = recorded (block_events ?bsw [(?m ! 0, J2)]) t7"
  have i8: "tr_image t8 = block_writes bs [(?m ! 0, J2)] (tr_image t7)"
    using apply_all_blocks [of ?bsw "length img" "[(?m ! 0, J2)]"] wJ [OF J2(2)] g(2) by (simp add: t8_def recorded_simps block_events_def bs_def)
  then have len8: "length (tr_image t8) = length img" using wJ [OF J2(2)] len7 by simp
  obtain sbx where sbx: "(if jw_hold w3 then (Ok (), t8) else write_needs_recovery crc traced_ops False t8) = (Ok (), recorded sbx t8)"
    "sbx = [] \<or> (\<exists>x2. sbx = [(1024, x2)] \<and> length x2 = 1024)"
  proof (cases "jw_hold w3")
    case True
    then show thesis using that [of "[]"] by (simp add: recorded_simps)
  next
    case False
    then show thesis using that write_needs_recovery_traced [of t8 crc False] len8 g(3) by metis
  qed
  have flush: "dv_flush traced_ops t = (Ok (), fenced t)" for t by (simp add: traced_ops_def fenced_def)
  have e: "w1\<lparr>jw_jsb := (jw_jsb w1)\<lparr>j_start := 1\<rparr>\<rparr> = w2" "w2\<lparr>jw_jsb := (jw_jsb w2)\<lparr>j_start := 0, j_sequence := j_sequence (jw_jsb w2) + 1\<rparr>\<rparr> = w3"
    "w2\<lparr>jw_jsb := (jw_jsb w2)\<lparr>j_start := 0, j_sequence := j_sequence (jw_jsb w2) + 1\<rparr>, jw_healthy := True\<rparr> = w3\<lparr>jw_healthy := True\<rparr>"
    by (simp_all add: w3_def w2_def w1_def)
  have run: "commit_fenced crc traced_ops tx blocks w t0 = (Ok (), (w3\<lparr>jw_healthy := True\<rparr>, fenced (recorded sbx t8)))"
    unfolding commit_fenced_def Let_def w1_def [symmetric]
    using l1 x1(1) J1(1) f J2(1) sbx(1)
    by (simp del: if_split add: flush e t3_def [symmetric] t5_def [symmetric] t7_def [symmetric] t8_def [symmetric])
  have same: "jsb_same (j0\<lparr>j_header_sequence := a, j_sequence := b, j_start := c, j_checksum := d\<rparr>) ((jw_jsb w)\<lparr>j_start := c, j_sequence := b\<rparr>)" for a b c d
    using j0(2) by (cases j0, cases "jw_jsb w") (simp add: jsb_same_def)
  show thesis
  proof (rule that)
    show "commit_fenced crc traced_ops tx blocks w \<lparr>tr_image = img, tr_events = []\<rparr> = (Ok (), (w3\<lparr>jw_healthy := True\<rparr>, fenced (recorded sbx t8)))"
      using run by (simp add: t0_def)
    show "length x1 = 1024" by (rule x1(2))
    show "length J1 = unat ?bsw" "length J2 = unat ?bsw" using J1(2) J2(2) by (simp_all add: bs_def)
    show "jsb_parse J1 = Ok j1" using J1(3) by (simp add: j1_def)
    show "jsb_same j1 ((jw_jsb w)\<lparr>j_start := 1\<rparr>)" using same [of _ 1 "j_sequence (jw_jsb w)"] by (simp add: j1_def w2_def)
    show "jsb_parse J2 = Ok (j1\<lparr>j_header_sequence := j_sequence (jw_jsb w3), j_sequence := j_sequence (jw_jsb w3), j_start := j_start (jw_jsb w3), j_checksum := c2\<rparr>)" by (rule J2(3))
    show "jsb_same (j1\<lparr>j_header_sequence := j_sequence (jw_jsb w3), j_sequence := j_sequence (jw_jsb w3), j_start := j_start (jw_jsb w3), j_checksum := c2\<rparr>)
       ((jw_jsb w)\<lparr>j_start := 0, j_sequence := j_sequence (jw_jsb w) + 1\<rparr>)"
      using same [of _ 0 "j_sequence (jw_jsb w) + 1"] by (simp add: j1_def w3_def w2_def)
    show "sbx = [] \<or> (\<exists>x2. sbx = [(1024, x2)] \<and> length x2 = 1024)" by (rule sbx(2))
    show "tr_events (fenced (recorded sbx t8)) = write_events (block_events ?bsw (zip (drop 1 ?m) blocks) @ [(1024, x1)]) @ EFlush #
       write_events (block_events ?bsw [(?m ! 0, J1)]) @ EFlush # write_events (block_events ?bsw (map (\<lambda>x. (jb_fs_block x, jb_bytes x)) (tx_writes tx))) @ EFlush #
       write_events (block_events ?bsw [(?m ! 0, J2)] @ sbx) @ EFlush # []"
      by (simp add: recorded_simps t8_def t7_def t5_def t3_def t1_def t0_def L_def F_def)
    show "tr_image (fenced (recorded sbx t8)) = apply_all (block_events ?bsw [(?m ! 0, J2)] @ sbx) (apply_all (block_events ?bsw (map (\<lambda>x. (jb_fs_block x, jb_bytes x)) (tx_writes tx)))
       (apply_all (block_events ?bsw [(?m ! 0, J1)]) (apply_all (block_events ?bsw (zip (drop 1 ?m) blocks) @ [(1024, x1)]) img)))"
      by (simp add: recorded_simps t8_def t7_def t5_def t3_def t1_def t0_def L_def F_def apply_all_append)
  qed
qed

section \<open>Recovery\<close>

text \<open>The journal's file as recovery finds it: on the blocks the writer mapped.\<close>

definition journal_at :: "'i \<Rightarrow> u64 list \<Rightarrow> ('s, 'i) journal_file" where
  "journal_at ino m = \<lparr>jf_inode = (\<lambda>_. Ok ino), jf_map = (\<lambda>_ _ k. Ok (if unat k < length m then Some (m ! unat k) else None))\<rparr>"

definition same_volume :: "superblock \<Rightarrow> journal_writer \<Rightarrow> bool" where
  "same_volume sb w \<longleftrightarrow> block_size sb = jw_block_size w \<and> blocks_count sb = jw_blocks_count w \<and> journal_inode sb \<noteq> 0 \<and>
     write_breaking_incompat (feature_incompat sb) = 0"

text \<open>What recovery needs of the journal's file in a state: its inode and the map of its blocks.\<close>

definition journal_reads :: "('s, 'i) journal_file \<Rightarrow> 'i \<Rightarrow> u64 list \<Rightarrow> 's \<Rightarrow> bool" where
  "journal_reads jf ino m s \<longleftrightarrow> jf_inode jf s = Ok ino \<and> (\<forall>k. unat k < length m \<longrightarrow> jf_map jf s ino k = Ok (Some (m ! unat k)))"

lemma journal_at_simps [simp]:
  "jf_inode (journal_at ino m) s = Ok ino"
  "jf_map (journal_at ino m) s i k = Ok (if unat k < length m then Some (m ! unat k) else None)"
  by (simp_all add: journal_at_def)

lemma journal_at_reads [simp]: "journal_reads (journal_at ino m) ino m s"
  by (simp add: journal_reads_def)

lemma journal_reads_first: "journal_reads jf ino m s \<Longrightarrow> m \<noteq> [] \<Longrightarrow> jf_map jf s ino 0 = Ok (Some (m ! 0))"
  by (simp add: journal_reads_def)

context full_device
begin

lemma read_block:
  assumes "inv s" "0 < unat bsw" "unat b * unat bsw + unat bsw \<le> length (contents s)"
  obtains s' where "dv_read dv s (b * ucast (bsw :: u32)) (unat bsw) = (Ok (block_of (unat bsw) b (contents s)), s')" "inv s'"
    "contents s' = contents s" "dv_writable dv s' = dv_writable dv s"
proof -
  have "unat (b * ucast bsw :: u64) = unat b * unat bsw" by (rule block_offset [OF assms(3) image_bound [OF assms(1)]])
  then show thesis using read_cases [OF assms(1,2), of "b * ucast bsw"] assms(3) that by (metis block_of_def)
qed

lemma needs_recovery_ok:
  assumes "inv s" "dv_writable dv s" "2048 \<le> length (contents s)"
  obtains x s' where "write_needs_recovery crc dv on s = (Ok (), s')" "length x = 1024" "inv s'" "dv_writable dv s'"
    "contents s' = put 1024 x (contents s)"
proof -
  let ?sb = "slice 1024 2048 (contents s)"
  obtain s1 where s1: "dv_read dv s 1024 1024 = (Ok ?sb, s1)" "inv s1" "contents s1 = contents s" "dv_writable dv s1"
    using read_cases [OF assms(1), of 1024 1024] assms(2,3) by auto
  have len: "length (set_needs_recovery_in crc on ?sb) = 1024" using assms(3) by (intro length_set_needs_recovery) simp
  obtain s2 where "dv_write dv s1 1024 (set_needs_recovery_in crc on ?sb) = (Ok (), s2)" "inv s2" "dv_writable dv s2"
    "contents s2 = put 1024 (set_needs_recovery_in crc on ?sb) (contents s)"
    using write_cases [OF s1(2,4), of 1024 "set_needs_recovery_in crc on ?sb"] len s1(3) assms(3) by auto
  then show thesis using that len s1(1) by (simp add: write_needs_recovery_def)
qed

lemma read_superblock_ok:
  assumes "inv s" "m \<noteq> []" "0 < unat (block_size sb)" "journal_inode sb \<noteq> 0"
    "unat (m ! 0) * unat (block_size sb) + unat (block_size sb) \<le> length (contents s)"
    "jsb_parse (block_of (unat (block_size sb)) (m ! 0) (contents s)) = Ok j" "journal_reads jf ino m s"
  obtains s' where "read_superblock dv jf sb s = (Ok (Some j), s')" "inv s'" "contents s' = contents s" "dv_writable dv s' = dv_writable dv s"
proof -
  obtain s' where "dv_read dv s (m ! 0 * ucast (block_size sb)) (unat (block_size sb)) = (Ok (block_of (unat (block_size sb)) (m ! 0) (contents s)), s')" "inv s'"
    "contents s' = contents s" "dv_writable dv s' = dv_writable dv s" by (rule read_block [OF assms(1,3,5)])
  then show thesis using that assms(2,4,6) journal_reads_first [OF assms(7,2)] assms(7) by (simp add: read_superblock_def ok_or_def journal_reads_def)
qed

lemma recover_clean:
  assumes "inv s" "dv_writable dv s" "same_volume sb w" "jw_map w \<noteq> []" "unat (jw_block_size w) = 1024 \<or> 2048 \<le> unat (jw_block_size w)"
    "2048 \<le> length (contents s)" "unat (jw_map w ! 0) * unat (jw_block_size w) + unat (jw_block_size w) \<le> length (contents s)"
    "jsb_parse (block_of (unat (jw_block_size w)) (jw_map w ! 0) (contents s)) = Ok j" "j_start j = 0" "journal_reads jf ino (jw_map w) s"
  obtains s' where "replay_if_dirty crc dv jf sb s = (Ok 0, s')" "inv s'"
    "agrees (unat (jw_block_size w)) {sb_block w} (contents s) (contents s')"
proof -
  have v: "block_size sb = jw_block_size w" "journal_inode sb \<noteq> 0" using assms(3) by (simp_all add: same_volume_def)
  have pos: "0 < unat (block_size sb)" using v(1) assms(5) by auto
  obtain s1 where s1: "read_superblock dv jf sb s = (Ok (Some j), s1)" "inv s1" "contents s1 = contents s" "dv_writable dv s1"
    using read_superblock_ok [OF assms(1,4) pos v(2) _ _ assms(10)] assms(2,7,8) v(1) by metis
  have cl: "jsb_is_clean j" using assms(9) by (simp add: jsb_is_clean_def)
  show thesis
  proof (cases "feature_incompat sb AND Incompat_RECOVER \<noteq> 0")
    case True
    obtain x s2 where s2: "write_needs_recovery crc dv False s1 = (Ok (), s2)" "length x = 1024" "inv s2" "dv_writable dv s2" "contents s2 = put 1024 x (contents s1)"
      using needs_recovery_ok [OF s1(2,4), of crc False] s1(3) assms(6) by metis
    obtain s3 where s3: "dv_flush dv s2 = (Ok (), s3)" "inv s3" "contents s3 = contents s2" using flush_ok [OF s2(3)] by blast
    have "agrees (unat (jw_block_size w)) {sb_block w} (contents s) (contents s3)"
      using agrees_sb_write [of w x "contents s"] assms(5,6) s2 s3 s1(3) by simp
    then show thesis using that s1 s2 s3 cl True assms(2) by (simp add: replay_if_dirty_def)
  next
    case False
    then show thesis using that s1 cl assms(2) by (simp add: replay_if_dirty_def)
  qed
qed

lemma mark_clean_ok:
  assumes "inv s" "dv_writable dv s" "same_volume sb w" "jw_map w \<noteq> []" "1024 \<le> unat (jw_block_size w)" "jw_map w ! 0 < jw_blocks_count w"
    "unat (jw_map w ! 0) * unat (jw_block_size w) + unat (jw_block_size w) \<le> length (contents s)"
    "jsb_parse (block_of (unat (jw_block_size w)) (jw_map w ! 0) (contents s)) = Ok j0" "journal_reads jf ino (jw_map w) s"
  obtains s' where "mark_journal_clean crc dv jf sb j plan s = (Ok (), s')" "inv s'" "dv_writable dv s'"
    "agrees (unat (jw_block_size w)) {jw_map w ! 0} (contents s) (contents s')"
proof -
  let ?bs = "unat (jw_block_size w)" and ?p = "jw_map w ! 0"
  let ?at = "?p * ucast (jw_block_size w) :: u64"
  have v: "block_size sb = jw_block_size w" "blocks_count sb = jw_blocks_count w" using assms(3) by (simp_all add: same_volume_def)
  have at: "byte_offset_of dv sb s ?p = Ok ?at" using assms(6,7) unat_size [OF assms(1)] by (simp add: byte_offset_of_def byte_offset_in_Ok v)
  have u: "unat ?at = unat ?p * ?bs" by (rule block_offset [OF assms(7) image_bound [OF assms(1)]])
  let ?b = "slice (unat ?p * ?bs) (unat ?p * ?bs + 1024) (contents s)"
  have fit: "unat ?at + 1024 \<le> length (contents s)" using u assms(5,7) by simp
  obtain s1 where s1: "dv_read dv s ?at 1024 = (Ok ?b, s1)" "inv s1" "contents s1 = contents s" "dv_writable dv s1"
    using read_cases [OF assms(1) _ fit] u assms(2) by auto
  have "get_be32 0 ?b = get_be32 0 (block_of ?bs ?p (contents s))" using assms(5) by (simp add: get_be32_def block_of_def slice_def min_def)
  then have mg: "get_be32 0 ?b = JBD2_MAGIC_NUMBER" using assms(8) by (simp add: jsb_parse_iff jsb_accepts_def)
  have lb: "length ?b = 1024" using fit u by simp
  define b' where "b' = (let sq = (case rp_next_sequence plan of Some n \<Rightarrow> n | None \<Rightarrow> j_sequence j) + 1;
                buf = put 0x18 (u32_to_be sq) ?b;
                buf = put 0x1C (u32_to_be 0) buf
            in if uses_csum_v2_or_v3 j
                       then let buf = put 0xFC [0, 0, 0, 0] buf in put 0xFC (u32_to_be (linux_crc32c crc (NOT 0) buf)) buf
                       else buf)"
  have lb': "length b' = 1024" using lb by (simp add: b'_def Let_def)
  obtain s2 where s2: "dv_write dv s1 ?at b' = (Ok (), s2)" "inv s2" "dv_writable dv s2" "contents s2 = put (unat ?at) b' (contents s)"
    using write_cases [OF s1(2,4), of ?at b'] lb' fit s1(3) by auto
  obtain s3 where s3: "dv_flush dv s2 = (Ok (), s3)" "inv s3" "contents s3 = contents s2" "dv_writable dv s3" using flush_ok [OF s2(2)] s2(3) by auto
  have "mark_journal_clean crc dv jf sb j plan s = (Ok (), s3)"
    using assms(9) journal_reads_first [OF assms(9,4)] at s1(1) mg s2(1) s3(1) by (simp add: mark_journal_clean_def journal_reads_def ok_or_def Let_def b'_def)
  moreover have "agrees ?bs {?p} (contents s) (contents s3)" using agrees_put [of ?p ?bs "unat ?at" b' "contents s"] u lb' assms(5,7) s2(4) s3(3) by simp
  ultimately show thesis using that s3 by blast
qed

end

text \<open>Replaying entries whose sources are journal blocks and whose targets are not.\<close>

definition replays :: "u32 \<Rightarrow> nat \<Rightarrow> u64 list \<Rightarrow> bytes \<Rightarrow> replay_entry \<times> u64 \<times> u64 \<Rightarrow> u64 \<times> bytes \<Rightarrow> bool" where
  "replays bsw n m img r f \<longleftrightarrow> (\<exists>p \<in> set m. fst (snd r) = p * ucast bsw \<and> snd (snd r) = fst f * ucast bsw \<and> unat p * unat bsw + unat bsw \<le> n \<and>
     unat (fst f) * unat bsw + unat bsw \<le> n \<and> fst f \<notin> set m \<and> length (snd f) = unat bsw \<and> unescaped (re_flags (fst r)) (block_of (unat bsw) p img) = snd f)"

lemma fold_replay:
  assumes "list_all2 (replays bsw n m img0) rs F" "length img = n" "n < 2 ^ 63"
    "\<forall>p \<in> set m. unat p * unat bsw + unat bsw \<le> n \<longrightarrow> block_of (unat bsw) p img = block_of (unat bsw) p img0"
  shows "fold (replay_step (unat bsw)) rs img = block_writes (unat bsw) F img"
  using assms
proof (induction rs F arbitrary: img rule: list_all2_induct)
  case (Cons r rs f F)
  let ?bs = "unat bsw"
  obtain p where p: "p \<in> set m" "fst (snd r) = p * ucast bsw" "snd (snd r) = fst f * ucast bsw" "unat p * ?bs + ?bs \<le> n"
    "unat (fst f) * ?bs + ?bs \<le> n" "fst f \<notin> set m" "length (snd f) = ?bs" "unescaped (re_flags (fst r)) (block_of ?bs p img0) = snd f"
    using Cons.hyps(1) unfolding replays_def by blast
  have u: "unat (p * ucast bsw :: u64) = unat p * ?bs" "unat (fst f * ucast bsw :: u64) = unat (fst f) * ?bs"
    using block_offset [OF p(4) Cons.prems(2)] block_offset [OF p(5) Cons.prems(2)] by simp_all
  have "block_of ?bs p img = block_of ?bs p img0" using Cons.prems(3) p(1,4) by blast
  then have step: "replay_step ?bs r img = put (unat (fst f) * ?bs) (snd f) img"
    using p(2,3,8) u by (simp add: replay_step_def split_beta block_of_def)
  have ag: "agrees ?bs {fst f} img (put (unat (fst f) * ?bs) (snd f) img)" using p(5,7) Cons.prems(1) by (intro agrees_put) simp_all
  have "\<forall>q \<in> set m. unat q * ?bs + ?bs \<le> n \<longrightarrow> block_of ?bs q (put (unat (fst f) * ?bs) (snd f) img) = block_of ?bs q img0"
  proof (intro ballI impI)
    fix q assume q: "q \<in> set m" "unat q * ?bs + ?bs \<le> n"
    have "q \<notin> {fst f}" using q(1) p(6) by auto
    then have "block_of ?bs q (put (unat (fst f) * ?bs) (snd f) img) = block_of ?bs q img" using ag q(2) Cons.prems(1) unfolding agrees_def by blast
    then show "block_of ?bs q (put (unat (fst f) * ?bs) (snd f) img) = block_of ?bs q img0" using Cons.prems(3) q by simp
  qed
  moreover have "length (put (unat (fst f) * ?bs) (snd f) img) = n" using ag Cons.prems(1) by (simp add: agrees_def)
  ultimately show ?case using Cons.IH [of "put (unat (fst f) * ?bs) (snd f) img"] Cons.prems(2) step by (simp add: block_writes_def split_beta)
qed (simp add: block_writes_def)

lemma nth_block_first:
  assumes "j_first j = 1" "k + 1 < unat (j_max_len j)"
  shows "nth_block j 1 k = word_of_nat (k + 1)"
  using assms(2)
proof (induction k)
  case (Suc k)
  let ?cap = "ucast (j_max_len j) - 1 :: u64"
  have ml: "unat (j_max_len j) < 2 ^ 32" using unat_lt2p [of "j_max_len j"] by simp
  have le: "(1 :: u64) \<le> ucast (j_max_len j)" using Suc.prems by (simp add: word_le_nat_alt)
  have cap: "unat ?cap = unat (j_max_len j) - 1" using unat_sub [OF le] by simp
  have k1: "unat (word_of_nat (k + 1) :: u64) = k + 1" using Suc.prems ml by (simp add: unat_of_nat del: of_nat_add of_nat_Suc)
  have "(word_of_nat (k + 1) :: u64) < ?cap" using k1 cap Suc.prems by (simp add: word_less_nat_alt)
  then have md: "(word_of_nat (k + 1) :: u64) mod ?cap = word_of_nat (k + 1)" by (simp only: word_unat_eq_iff unat_mod_distrib word_less_nat_alt mod_less)
  have ne: "?cap \<noteq> 0" using cap Suc.prems by auto
  have "nth_block j 1 (Suc k) = advance (word_of_nat (k + 1)) 1 j" unfolding nth_block_Suc' using Suc by simp
  also have "\<dots> = 1 + word_of_nat (k + 1)" using md ne le by (simp add: advance_def assms(1) Let_def saturating_sub_def add.commute)
  finally show ?case by simp
qed simp

text \<open>The log of a transaction as recovery meets it, under a journal superblock that starts at block 1.\<close>

definition log_ready :: "crc_fn \<Rightarrow> journal_writer \<Rightarrow> transaction \<Rightarrow> bytes list \<Rightarrow> journal_superblock \<Rightarrow> bytes \<Rightarrow> bool" where
  "log_ready crc w tx blocks j img \<longleftrightarrow> (let bs = unat (jw_block_size w); m = jw_map w in
     (bs = 1024 \<or> 2048 \<le> bs) \<and> length img < 2 ^ 63 \<and> 2048 \<le> length img \<and> unat (jw_blocks_count w) * bs \<le> length img \<and>
     (\<forall>p \<in> set m. p \<noteq> sb_block w \<and> p < jw_blocks_count w) \<and> length m = unat (j_max_len j) \<and> j_first j = 1 \<and> j_start j = 1 \<and>
     j_block_size j = jw_block_size w \<and> 1 < j_max_len j \<and> jsb_parse (block_of bs (m ! 0) img) = Ok j \<and>
     commit_for crc tx j = Ok blocks \<and> length blocks < length m \<and> tx_sequence tx = j_sequence j \<and>
     (\<forall>k < length blocks. block_of bs (m ! (k + 1)) img = blocks ! k) \<and>
     (\<forall>k. length blocks < k \<longrightarrow> k < length m \<longrightarrow> (\<forall>h. try_parse_header (block_of bs (m ! k) img) = Some h \<longrightarrow> h_sequence h \<noteq> tx_sequence tx + 1)) \<and>
     (\<forall>x \<in> set (tx_writes tx). jb_fs_block x \<notin> set m \<and> jb_fs_block x < jw_blocks_count w \<and> fits_tag j (jb_fs_block x) \<and>
        length (jb_bytes x) = bs \<and> jb_fs_block x \<notin> set (tx_revokes tx)) \<and>
     (\<forall>b \<in> set (tx_revokes tx). fits_tag j b))"

definition final_writes :: "transaction \<Rightarrow> (u64 \<times> bytes) list" where
  "final_writes tx = map (\<lambda>x. (jb_fs_block x, jb_bytes x)) (tx_writes tx)"

lemma walk_reader: "journal_walk crc bs (Ok ino) rdj j = journal_walk crc bs (Ok ino) (\<lambda>_. rdj ino) j"
  unfolding journal_walk_def by (simp only: and_then.simps)

context full_device
begin

lemma journal_reader_ok:
  assumes "inv s" "\<forall>p \<in> set m. unat p * unat bsw + unat bsw \<le> length (contents s)" "0 < unat bsw" "k < length m" "k < 2 ^ 64" "journal_reads jf ino m s"
  shows "read_journal_block dv jf bsw s ino (word_of_nat k) = Ok (block_of (unat bsw) (m ! k) (contents s))"
proof -
  have k: "unat (word_of_nat k :: u64) = k" using assms(5) by (simp add: unat_of_nat)
  have "unat (m ! k) * unat bsw + unat bsw \<le> length (contents s)" using assms(2,4) by simp
  then obtain s' where "dv_read dv s (m ! k * ucast bsw) (unat bsw) = (Ok (block_of (unat bsw) (m ! k) (contents s)), s')"
    using read_block [OF assms(1,3)] by blast
  then show ?thesis using assms(4,6) k by (simp add: read_journal_block_def journal_reads_def ok_or_def)
qed

lemma log_ready_holds:
  assumes "log_ready crc w tx blocks j (contents s)" "inv s" "journal_reads jf ino (jw_map w) s"
  shows "log_holds crc (read_journal_block dv jf (j_block_size j) s ino) j tx" "log_geometry j" "tx_fits j tx"
proof -
  let ?m = "jw_map w" and ?bs = "unat (jw_block_size w)"
  let ?rd = "read_journal_block dv jf (j_block_size j) s ino"
  note lr = assms(1) [unfolded log_ready_def Let_def]
  have ml1: "length ?m = unat (j_max_len j)" "1 < j_max_len j" using lr by blast+
  have ml: "length ?m = unat (j_max_len j)" "unat (j_max_len j) < 2 ^ 32" "1 < unat (j_max_len j)"
    using ml1 unat_lt2p [of "j_max_len j"] by (simp_all add: word_less_nat_alt)
  have mp: "\<forall>p \<in> set ?m. p \<noteq> sb_block w \<and> p < jw_blocks_count w" "unat (jw_blocks_count w) * ?bs \<le> length (contents s)" using lr by blast+
  then have rng: "\<forall>p \<in> set ?m. unat p * ?bs + ?bs \<le> length (contents s)" using block_in_range by blast
  have "?bs = 1024 \<or> 2048 \<le> ?bs" using lr by blast
  then have pos: "0 < ?bs" "32 \<le> ?bs" by auto
  have bsz: "j_block_size j = jw_block_size w" and first: "j_first j = 1" "j_start j = 1" using lr by blast+
  have rd: "?rd (nth_block j 1 k) = Ok (block_of ?bs (?m ! (k + 1)) (contents s))" if "k + 1 < length ?m" for k
  proof -
    have k: "k + 1 < unat (j_max_len j)" "k + 1 < 2 ^ 64" using that ml by simp_all
    show ?thesis unfolding nth_block_first [OF first(1) k(1)] bsz
      by (rule journal_reader_ok [OF assms(2) rng pos(1) that k(2) assms(3)])
  qed
  have lb: "length blocks < length ?m" "\<forall>k < length blocks. block_of ?bs (?m ! (k + 1)) (contents s) = blocks ! k" using lr by blast+
  have cf: "commit_for crc tx j = Ok blocks" using lr by blast
  have lim: "unat (j_max_len j - j_first j) = length ?m - 1"
    using ml first(1) unat_sub [of 1 "j_max_len j"] by (simp add: word_le_nat_alt)
  have "log_at ?rd j 1 blocks" unfolding log_at_def using rd lb by auto
  moreover have "\<exists>b. ?rd (nth_block j 1 (length blocks)) = Ok b \<and> (\<forall>h. try_parse_header b = Some h \<longrightarrow> h_sequence h \<noteq> tx_sequence tx + 1)"
    if "length blocks < length ?m - 1"
  proof -
    have l1: "length blocks < length blocks + 1" "length blocks + 1 < length ?m" using that by simp_all
    then have "\<forall>h. try_parse_header (block_of ?bs (?m ! (length blocks + 1)) (contents s)) = Some h \<longrightarrow> h_sequence h \<noteq> tx_sequence tx + 1" using lr by blast
    then show ?thesis using rd [OF l1(2)] by blast
  qed
  ultimately show "log_holds crc ?rd j tx" unfolding log_holds_def first(2) lim using cf lb(1) by (intro exI [of _ blocks]) auto
  show "log_geometry j" using first bsz pos(2) ml1(2) by (simp add: log_geometry_def)
  show "tx_fits j tx" unfolding tx_fits_def using lr by blast
qed

lemma resolve_ready:
  assumes "log_ready crc w tx blocks j (contents s)" "inv s" "same_volume sb w"
    "map (replayed (read_journal_block dv (journal_at ino (jw_map w)) (j_block_size j) s ino)) (rp_writes plan) =
       map (\<lambda>x. (jb_fs_block x, Ok (jb_bytes x))) (tx_writes tx)" "journal_reads jf ino (jw_map w) s"
  obtains rs where "resolve dv jf sb plan s = Ok rs"
    "list_all2 (replays (jw_block_size w) (length (contents s)) (jw_map w) (contents s)) (zip (rp_writes plan) rs) (final_writes tx)"
proof -
  let ?m = "jw_map w" and ?bsw = "jw_block_size w" and ?bs = "unat (jw_block_size w)" and ?c = "contents s"
  let ?rd = "read_journal_block dv (journal_at ino ?m) (j_block_size j) s ino"
  note lr = assms(1) [unfolded log_ready_def Let_def]
  have v: "block_size sb = ?bsw" "blocks_count sb = jw_blocks_count w" using assms(3) by (simp_all add: same_volume_def)
  have mp: "\<forall>p \<in> set ?m. p \<noteq> sb_block w \<and> p < jw_blocks_count w" and bc: "unat (jw_blocks_count w) * ?bs \<le> length ?c"
    and bsz: "j_block_size j = ?bsw" and sz: "?bs = 1024 \<or> 2048 \<le> ?bs" using lr by blast+
  have wr: "\<forall>x \<in> set (tx_writes tx). jb_fs_block x \<notin> set ?m \<and> jb_fs_block x < jw_blocks_count w \<and> length (jb_bytes x) = ?bs" using lr by blast
  have pos: "0 < ?bs" "4 \<le> ?bs" using sz by auto
  have off: "byte_offset_of dv sb s b = Ok (b * ucast ?bsw)" if "b < jw_blocks_count w" for b
    using that block_in_range [OF that bc] unat_size [OF assms(2)] by (simp add: byte_offset_of_def byte_offset_in_Ok v)
  define f :: "replay_entry \<Rightarrow> (u64 \<times> u64) result" where "f = (\<lambda>w. and_then (and_then (jf_map jf s ino (re_journal_block w)) (\<lambda>p. ok_or p (Corrupt ''journal_apply: journal block unmapped''))) (\<lambda>phys.
         and_then (byte_offset_of dv sb s phys) (\<lambda>source.
         and_then (byte_offset_of dv sb s (re_fs_block w)) (\<lambda>dest. Ok (source, dest)))))"
  have step: "\<exists>r. f e = Ok r \<and> replays ?bsw (length ?c) ?m ?c (e, r) (jb_fs_block x, jb_bytes x)"
    if e: "replayed ?rd e = (jb_fs_block x, Ok (jb_bytes x))" and x: "jb_fs_block x \<notin> set ?m" "jb_fs_block x < jw_blocks_count w" "length (jb_bytes x) = ?bs" for e x
  proof -
    obtain y where y: "?rd (re_journal_block e) = Ok y" "unescape (re_flags e) y = Ok (jb_bytes x)" "re_fs_block e = jb_fs_block x"
      using e by (auto simp: replayed_def outcome_simps)
    have k: "unat (re_journal_block e) < length ?m" using y(1) by (auto simp: read_journal_block_def ok_or_def split: if_splits)
    let ?p = "?m ! unat (re_journal_block e)"
    have pm: "?p \<in> set ?m" "?p < jw_blocks_count w" using k mp by auto
    have pr: "unat ?p * ?bs + ?bs \<le> length ?c" by (rule block_in_range [OF pm(2) bc])
    obtain s' where "dv_read dv s (?p * ucast ?bsw) ?bs = (Ok (block_of ?bs ?p ?c), s')" using read_block [OF assms(2) pos(1) pr] by blast
    then have yb: "y = block_of ?bs ?p ?c" using y(1) k by (simp add: read_journal_block_def ok_or_def bsz)
    have "length y = ?bs" using yb pr by (simp add: length_block_of)
    then have "unescaped (re_flags e) y = jb_bytes x" using unescape_ok [of y "re_flags e"] y(2) pos(2) by simp
    moreover have "f e = Ok (?p * ucast ?bsw, jb_fs_block x * ucast ?bsw)" using k off [OF pm(2)] off [OF x(2)] y(3) assms(5) by (simp add: f_def journal_reads_def ok_or_def)
    ultimately show ?thesis using pm(1) pr x block_in_range [OF x(2) bc] yb by (auto simp: replays_def)
  qed
  have "\<exists>rs. resolve_all f es = Ok rs \<and> list_all2 (replays ?bsw (length ?c) ?m ?c) (zip es rs) (map (\<lambda>x. (jb_fs_block x, jb_bytes x)) xs)"
    if "map (replayed ?rd) es = map (\<lambda>x. (jb_fs_block x, Ok (jb_bytes x))) xs" "set xs \<subseteq> set (tx_writes tx)" for es xs
    using that
  proof (induction es arbitrary: xs)
    case (Cons e es)
    then obtain x xs' where xs: "xs = x # xs'" by (cases xs) auto
    have "x \<in> set (tx_writes tx)" using Cons.prems(2) xs by simp
    then obtain r where r: "f e = Ok r" "replays ?bsw (length ?c) ?m ?c (e, r) (jb_fs_block x, jb_bytes x)"
      using step [of e x] Cons.prems(1) wr xs by auto
    obtain rs where "resolve_all f es = Ok rs" "list_all2 (replays ?bsw (length ?c) ?m ?c) (zip es rs) (map (\<lambda>x. (jb_fs_block x, jb_bytes x)) xs')"
      using Cons.IH [of xs'] Cons.prems xs by auto
    then show ?case using r xs by (intro exI [of _ "r # rs"]) simp
  qed simp
  from this [OF assms(4)] show thesis using that assms(5) by (auto simp: resolve_def journal_reads_def final_writes_def f_def)
qed

lemma walk_ready:
  assumes "log_ready crc w tx blocks j (contents s)" "inv s" "same_volume sb w" "journal_reads jf ino (jw_map w) s"
  obtains plan where "journal_walk crc (block_size sb) (Ok ino) (read_journal_block dv jf (j_block_size j) s) j = Ok plan"
    "map (replayed (read_journal_block dv (journal_at ino (jw_map w)) (j_block_size j) s ino)) (rp_writes plan) =
       map (\<lambda>x. (jb_fs_block x, Ok (jb_bytes x))) (tx_writes tx)"
proof -
  let ?rd = "read_journal_block dv jf (j_block_size j) s" and ?at = "read_journal_block dv (journal_at ino (jw_map w)) (j_block_size j) s ino"
  note lr = assms(1) [unfolded log_ready_def Let_def]
  note lh = log_ready_holds [OF assms(1,2,4)]
  obtain plan where plan: "journal_walk crc (j_block_size j) (Ok ino) (\<lambda>_. ?rd ino) j = Ok plan"
    "rp_writes plan = filter (\<lambda>e. re_fs_block e \<notin> set (tx_revokes tx)) (log_entries crc j tx (ucast (j_start j)))"
    by (rule walk_log [OF lh])
  have "j_block_size j = jw_block_size w" and sz: "unat (jw_block_size w) = 1024 \<or> 2048 \<le> unat (jw_block_size w)" using lr by blast+
  then have "block_size sb = j_block_size j" using assms(3) by (simp add: same_volume_def)
  then have wk: "journal_walk crc (block_size sb) (Ok ino) ?rd j = Ok plan" using plan(1) walk_reader [of crc "j_block_size j" ino ?rd j] by simp
  have wr: "\<forall>x \<in> set (tx_writes tx). length (jb_bytes x) = unat (jw_block_size w) \<and> jb_fs_block x \<notin> set (tx_revokes tx)" using lr by blast
  have "\<forall>x \<in> set (tx_writes tx). 4 \<le> length (jb_bytes x)" using wr sz by auto
  note er = entries_replayed [OF log_ready_holds(1) [OF assms(1,2) journal_at_reads] this, of ino]
  have "re_fs_block e \<notin> set (tx_revokes tx)" if e: "e \<in> set (log_entries crc j tx (ucast (j_start j)))" for e
  proof -
    have "replayed ?at e \<in> set (map (\<lambda>x. (jb_fs_block x, Ok (jb_bytes x))) (tx_writes tx))" unfolding er [symmetric] using e by simp
    then show ?thesis using wr by (auto simp: replayed_def)
  qed
  then have "filter (\<lambda>e. re_fs_block e \<notin> set (tx_revokes tx)) (log_entries crc j tx (ucast (j_start j))) = log_entries crc j tx (ucast (j_start j))"
    by (simp add: filter_id_conv)
  then show thesis using that [OF wk] plan(2) er by simp
qed

lemma recover_dirty:
  assumes lr: "log_ready crc w tx blocks j (contents s)" and "inv s" "dv_writable dv s" and vol: "same_volume sb w"
    and jr: "\<And>s'. inv s' \<Longrightarrow> contents s' = contents s \<or> contents s' = block_writes (unat (jw_block_size w)) (final_writes tx) (contents s) \<Longrightarrow> journal_reads jf ino (jw_map w) s'"
  obtains n s' where "replay_if_dirty crc dv jf sb s = (Ok n, s')" "inv s'"
    "agrees (unat (jw_block_size w)) (set (jw_map w) \<union> {sb_block w}) (block_writes (unat (jw_block_size w)) (final_writes tx) (contents s)) (contents s')"
proof -
  let ?m = "jw_map w" and ?bsw = "jw_block_size w" and ?bs = "unat (jw_block_size w)" and ?c = "contents s"
  note l = lr [unfolded log_ready_def Let_def]
  have v: "block_size sb = ?bsw" "journal_inode sb \<noteq> 0" "write_breaking_incompat (feature_incompat sb) = 0" using vol by (simp_all add: same_volume_def)
  have sz: "?bs = 1024 \<or> 2048 \<le> ?bs" and big: "2048 \<le> length ?c" and bc: "unat (jw_blocks_count w) * ?bs \<le> length ?c"
    and mp: "\<forall>p \<in> set ?m. p \<noteq> sb_block w \<and> p < jw_blocks_count w" and ml: "length ?m = unat (j_max_len j)" "1 < j_max_len j"
    and st: "j_start j = 1" and j: "jsb_parse (block_of ?bs (?m ! 0) ?c) = Ok j" using l by blast+
  have wr: "\<forall>x \<in> set (tx_writes tx). jb_fs_block x \<notin> set ?m \<and> jb_fs_block x < jw_blocks_count w \<and> length (jb_bytes x) = ?bs" using l by blast
  have ne: "?m \<noteq> []" using ml by (auto simp: word_less_nat_alt)
  have p0: "?m ! 0 \<in> set ?m" "?m ! 0 < jw_blocks_count w" using ne mp by auto
  have r0: "unat (?m ! 0) * ?bs + ?bs \<le> length ?c" by (rule block_in_range [OF p0(2) bc])
  have pos: "0 < unat (block_size sb)" "1024 \<le> ?bs" "4 \<le> unat (block_size sb)" using v(1) sz by auto
  obtain s1 where s1: "read_superblock dv jf sb s = (Ok (Some j), s1)" "inv s1" "contents s1 = ?c" "dv_writable dv s1"
    using read_superblock_ok [OF assms(2) ne pos(1) v(2) _ _ jr [OF assms(2)]] r0 j assms(3) v(1) by metis
  note jr1 = jr [OF s1(2) disjI1 [OF s1(3)]]
  have lr1: "log_ready crc w tx blocks j (contents s1)" using lr s1(3) by simp
  obtain plan where plan: "journal_walk crc (block_size sb) (Ok ino) (read_journal_block dv jf (j_block_size j) s1) j = Ok plan"
    "map (replayed (read_journal_block dv (journal_at ino ?m) (j_block_size j) s1 ino)) (rp_writes plan) = map (\<lambda>x. (jb_fs_block x, Ok (jb_bytes x))) (tx_writes tx)"
    by (rule walk_ready [OF lr1 s1(2) vol jr1])
  obtain rs where rs: "resolve dv jf sb plan s1 = Ok rs" "list_all2 (replays ?bsw (length ?c) ?m ?c) (zip (rp_writes plan) rs) (final_writes tx)"
    using resolve_ready [OF lr1 s1(2) vol plan(2) jr1] s1(3) by metis
  obtain s2 where s2: "apply_plan dv jf sb plan s1 = (Ok (length (rp_writes plan)), s2)" "inv s2" "dv_writable dv s2"
    "contents s2 = fold (replay_step ?bs) (zip (rp_writes plan) rs) ?c"
    using apply_plan_ok [OF s1(2,4) pos(3) rs(1)] s1(3) v(1) by auto
  have c2: "contents s2 = block_writes ?bs (final_writes tx) ?c"
    unfolding s2(4) using fold_replay [OF rs(2) refl image_bound [OF assms(2)]] by simp
  have "unat (jb_fs_block x) * ?bs + ?bs \<le> length ?c" if "x \<in> set (tx_writes tx)" for x using wr that bc block_in_range by blast
  then have wF: "whole_blocks ?bs (length ?c) (final_writes tx)" using wr by (auto simp: whole_blocks_def final_writes_def)
  have len2: "length (contents s2) = length ?c" using c2 wF by simp
  have nF: "?m ! 0 \<notin> fst ` set (final_writes tx)" using wr p0(1) by (auto simp: final_writes_def)
  have b2: "jsb_parse (block_of ?bs (?m ! 0) (contents s2)) = Ok j"
    using agrees_block_writes [OF wF] nF r0 j c2 by (simp add: agrees_def)
  obtain s3 where s3: "mark_journal_clean crc dv jf sb j plan s2 = (Ok (), s3)" "inv s3" "dv_writable dv s3" "agrees ?bs {?m ! 0} (contents s2) (contents s3)"
    using mark_clean_ok [OF s2(2,3) vol ne pos(2) p0(2) _ b2 jr [OF s2(2) disjI2 [OF c2]], of crc j plan] r0 len2 by metis
  have len3: "length (contents s3) = length ?c" using s3(4) len2 by (simp add: agrees_def)
  obtain x s4 where s4: "write_needs_recovery crc dv False s3 = (Ok (), s4)" "length x = 1024" "inv s4" "contents s4 = put 1024 x (contents s3)"
    using needs_recovery_ok [OF s3(2,3), of crc False] len3 big by metis
  obtain s5 where s5: "dv_flush dv s4 = (Ok (), s5)" "inv s5" "contents s5 = contents s4" using flush_ok [OF s4(3)] by blast
  have "replay_if_dirty crc dv jf sb s = (Ok (length (rp_writes plan)), s5)"
    using assms(3) s1(1) st v(3) plan(1) s2(1) s3(1) s4(1) s5(1) jr1 by (simp add: replay_if_dirty_def jsb_is_clean_def journal_reads_def)
  moreover have "agrees ?bs {sb_block w} (contents s3) (contents s5)"
    using agrees_sb_write [OF sz s4(2), of "contents s3"] len3 big s4(4) s5(3) by simp
  then have "agrees ?bs ({?m ! 0} \<union> {sb_block w}) (contents s2) (contents s5)" by (rule agrees_trans [OF s3(4)])
  then have "agrees ?bs (set ?m \<union> {sb_block w}) (contents s2) (contents s5)" using p0(1) by (auto intro: agrees_mono)
  ultimately show thesis using that s5(2) c2 by simp
qed

end

section \<open>The states a crash can leave\<close>

lemma agrees_shrink:
  "agrees bs S a b \<Longrightarrow> p \<notin> S \<Longrightarrow> unat p * bs + bs \<le> length a \<Longrightarrow> block_of bs p b = block_of bs p a"
  by (simp add: agrees_def)

lemma agrees_both_writes:
  assumes "agrees bs S a b" "whole_blocks bs (length a) F" "S \<subseteq> T \<union> fst ` set F"
  shows "agrees bs T (block_writes bs F a) (block_writes bs F b)"
proof -
  have len: "length b = length a" using assms(1) by (simp add: agrees_def)
  have "block_of bs p (block_writes bs F b) = block_of bs p (block_writes bs F a)" if p: "p \<notin> T" "unat p * bs + bs \<le> length a" for p
  proof (cases "map_of (rev F) p")
    case None
    then have "p \<notin> fst ` set F" by (simp add: map_of_eq_None_iff)
    then have "block_of bs p b = block_of bs p a" using assms(1,3) p by (intro agrees_shrink [of bs S]) auto
    then show ?thesis using p(2) assms(2) len by (simp add: block_of_block_writes None)
  qed (use p(2) assms(2) len in \<open>simp add: block_of_block_writes\<close>)
  then show ?thesis using assms(2) len by (simp add: agrees_def)
qed

text \<open>Whole blocks of a set, and the superblock.\<close>

definition events_in :: "journal_writer \<Rightarrow> nat \<Rightarrow> u64 set \<Rightarrow> (u64 \<times> bytes) list \<Rightarrow> bool" where
  "events_in w n S evs \<longleftrightarrow> (\<forall>e \<in> set evs.
     (\<exists>b \<in> S. fst e = b * ucast (jw_block_size w) \<and> length (snd e) = unat (jw_block_size w) \<and> unat b * unat (jw_block_size w) + unat (jw_block_size w) \<le> n) \<or>
     (fst e = 1024 \<and> length (snd e) = 1024))"

lemma agrees_events:
  assumes "unat (jw_block_size w) = 1024 \<or> 2048 \<le> unat (jw_block_size w)" "2048 \<le> n" "n < 2 ^ 63" "events_in w n S evs" "length img = n"
  shows "agrees (unat (jw_block_size w)) (S \<union> {sb_block w}) img (apply_all evs img)"
  using assms(4,5)
proof (induction evs arbitrary: img)
  case (Cons e evs)
  let ?bs = "unat (jw_block_size w)"
  have 1: "agrees ?bs (S \<union> {sb_block w}) img (put (unat (fst e)) (snd e) img)"
  proof (cases "fst e = 1024 \<and> length (snd e) = 1024")
    case True
    then show ?thesis using agrees_sb_write [OF assms(1), of "snd e" img] assms(2) Cons.prems(2) by (auto intro: agrees_mono)
  next
    case False
    then obtain b where b: "b \<in> S" "fst e = b * ucast (jw_block_size w)" "length (snd e) = ?bs" "unat b * ?bs + ?bs \<le> n"
      using Cons.prems(1) by (auto simp: events_in_def)
    have "unat (fst e) = unat b * ?bs" unfolding b(2) by (rule block_offset [OF b(4) assms(3)])
    then have "agrees ?bs {b} img (put (unat (fst e)) (snd e) img)" using b(3,4) Cons.prems(2) by (intro agrees_put) simp_all
    then show ?thesis using b(1) by (auto intro: agrees_mono)
  qed
  have "events_in w n S evs" using Cons.prems(1) by (simp add: events_in_def)
  moreover have "length (put (unat (fst e)) (snd e) img) = n" using 1 Cons.prems(2) by (simp add: agrees_def)
  ultimately have 2: "agrees ?bs (S \<union> {sb_block w}) (put (unat (fst e)) (snd e) img) (apply_all (e # evs) img)"
    using Cons.IH [of "put (unat (fst e)) (snd e) img"] by (simp add: apply_all_def split_beta)
  show ?case using agrees_trans [OF 1 2] by simp
qed (simp add: apply_all_def)

lemma events_in_subset: "events_in w n S evs \<Longrightarrow> set pick \<subseteq> set evs \<Longrightarrow> events_in w n S pick"
  by (auto simp: events_in_def)

lemma events_in_append [simp]: "events_in w n S (a @ b) \<longleftrightarrow> events_in w n S a \<and> events_in w n S b"
  by (auto simp: events_in_def)

lemma events_in_blocks:
  assumes "whole_blocks (unat (jw_block_size w)) n ws" "fst ` set ws \<subseteq> S"
  shows "events_in w n S (block_events (jw_block_size w) ws)"
  using assms by (force simp: events_in_def block_events_def whole_blocks_def)

lemma events_in_sb: "sbx = [] \<or> (\<exists>x. sbx = [(1024, x)] \<and> length x = 1024) \<Longrightarrow> events_in w n S sbx"
  by (auto simp: events_in_def)

text \<open>An image between two others: every block outside a set holds what it held, or one of the blocks written to it.\<close>

definition half_written :: "nat \<Rightarrow> u64 set \<Rightarrow> (u64 \<times> bytes) list \<Rightarrow> bytes \<Rightarrow> bytes \<Rightarrow> bool" where
  "half_written bs S F img img' \<longleftrightarrow> length img' = length img \<and>
     (\<forall>b. b \<notin> S \<longrightarrow> unat b * bs + bs \<le> length img \<longrightarrow> block_of bs b img' = block_of bs b img \<or> (b, block_of bs b img') \<in> set F)"

definition block_event :: "nat \<Rightarrow> u64 set \<Rightarrow> (u64 \<times> bytes) list \<Rightarrow> nat \<Rightarrow> u64 \<times> bytes \<Rightarrow> bool" where
  "block_event bs S F n e \<longleftrightarrow> unat (fst e) + length (snd e) \<le> n \<and> (\<exists>b. unat b * bs \<le> unat (fst e) \<and> unat (fst e) + length (snd e) \<le> unat b * bs + bs \<and>
     (b \<in> S \<or> (b, snd e) \<in> set F \<and> unat (fst e) = unat b * bs \<and> length (snd e) = bs))"

lemma half_written_refl [simp]: "half_written bs S F img img"
  by (simp add: half_written_def)

lemma half_written_put:
  assumes "half_written bs S F img i" "block_event bs S F (length img) e"
  shows "half_written bs S F img (put (unat (fst e)) (snd e) i)"
proof -
  obtain b where b: "unat (fst e) + length (snd e) \<le> length img" "unat b * bs \<le> unat (fst e)" "unat (fst e) + length (snd e) \<le> unat b * bs + bs"
    "b \<in> S \<or> (b, snd e) \<in> set F \<and> unat (fst e) = unat b * bs \<and> length (snd e) = bs" using assms(2) by (auto simp: block_event_def)
  have len: "length i = length img" using assms(1) by (simp add: half_written_def)
  have ag: "agrees bs {b} i (put (unat (fst e)) (snd e) i)" using b len by (intro agrees_put) auto
  let ?i = "put (unat (fst e)) (snd e) i"
  have "block_of bs c ?i = block_of bs c img \<or> (c, block_of bs c ?i) \<in> set F" if c: "c \<notin> S" "unat c * bs + bs \<le> length img" for c
    using ag assms(1) b c len by (cases "c = b") (auto simp: agrees_def half_written_def block_of_put_same)
  then show ?thesis using ag len by (simp add: half_written_def agrees_def)
qed

lemma half_written_apply_all: "half_written bs S F img i \<Longrightarrow> \<forall>e \<in> set evs. block_event bs S F (length img) e \<Longrightarrow> half_written bs S F img (apply_all evs i)"
proof (induction evs arbitrary: i)
  case (Cons e evs)
  then have "half_written bs S F img (put (unat (fst e)) (snd e) i)" by (intro half_written_put) simp_all
  then show ?case using Cons.IH Cons.prems(2) by (simp add: apply_all_def split_beta)
qed (simp add: apply_all_def)

lemma crashed_half_written:
  assumes "crashed i pend evs img'" "half_written bs S F img i" "\<forall>e \<in> set pend. block_event bs S F (length img) e"
    "\<forall>off x. EWrite off x \<in> set evs \<longrightarrow> block_event bs S F (length img) (off, x)"
  shows "half_written bs S F img img'"
  using assms
proof (induction rule: crashed.induct)
  case (crash_now pick pend i evs)
  then show ?case using subseqs_subset [of pick pend] by (intro half_written_apply_all) auto
next
  case (crash_later_flush pend i evs img')
  then show ?case using half_written_apply_all [of bs S F img i pend] by simp
qed simp

lemma events_in_block_event:
  assumes "events_in w n S evs" "unat (jw_block_size w) = 1024 \<or> 2048 \<le> unat (jw_block_size w)" "2048 \<le> n" "n < 2 ^ 63" "e \<in> set evs"
  shows "block_event (unat (jw_block_size w)) (S \<union> {sb_block w}) F n e"
proof (cases "fst e = 1024 \<and> length (snd e) = 1024")
  case True
  moreover have "unat (sb_block w) = 1024 div unat (jw_block_size w)" by (simp add: sb_block_def unat_div_word)
  ultimately show ?thesis using assms(2,3) unfolding block_event_def by (intro conjI exI [of _ "sb_block w"]) auto
next
  case False
  then obtain b where b: "b \<in> S" "fst e = b * ucast (jw_block_size w)" "length (snd e) = unat (jw_block_size w)" "unat b * unat (jw_block_size w) + unat (jw_block_size w) \<le> n"
    using assms(1,5) by (auto simp: events_in_def)
  then show ?thesis using block_offset [OF b(4) assms(4)] unfolding block_event_def by (intro conjI exI [of _ b]) simp_all
qed

lemma block_events_block_event:
  assumes "whole_blocks (unat bsw) n F" "n < 2 ^ 63" "e \<in> set (block_events bsw F)"
  shows "block_event (unat bsw) S F n e"
proof -
  obtain b x where e: "e = (b * ucast bsw, x)" "(b, x) \<in> set F" using assms(3) by (auto simp: block_events_def)
  then have b: "unat b * unat bsw + unat bsw \<le> n" "length x = unat bsw" using assms(1) by (auto simp: whole_blocks_def)
  then show ?thesis using e block_offset [OF b(1) assms(2)] unfolding block_event_def by (intro conjI exI [of _ b]) simp_all
qed

text \<open>
  The extra conditions under which a replay restores the whole transaction: it does not revoke what it writes, and no
  stale block of the log passes for the first block of the next transaction.
\<close>

definition commit_replayable :: "journal_writer \<Rightarrow> transaction \<Rightarrow> bytes \<Rightarrow> bool" where
  "commit_replayable w tx img \<longleftrightarrow>
     (\<forall>x \<in> set (tx_writes tx). jb_fs_block x \<notin> set (tx_revokes tx)) \<and> (\<forall>b \<in> set (tx_revokes tx). fits_tag (jw_jsb w) b) \<and>
     (\<forall>k < length (jw_map w). \<forall>h. try_parse_header (block_of (unat (jw_block_size w)) (jw_map w ! k) img) = Some h \<longrightarrow> h_sequence h \<noteq> tx_sequence tx + 1)"

text \<open>The journal's blocks as a commit leaves them: the given superblock, the log, and the old blocks after it.\<close>

definition journal_holds :: "journal_writer \<Rightarrow> bytes list \<Rightarrow> bytes \<Rightarrow> bytes \<Rightarrow> bytes \<Rightarrow> bool" where
  "journal_holds w blocks img J img' \<longleftrightarrow> (let bs = unat (jw_block_size w); m = jw_map w in length img' = length img \<and> block_of bs (m ! 0) img' = J \<and>
     (\<forall>k < length blocks. block_of bs (m ! (k + 1)) img' = blocks ! k) \<and>
     (\<forall>k. length blocks < k \<longrightarrow> k < length m \<longrightarrow> block_of bs (m ! k) img' = block_of bs (m ! k) img))"

lemma jsb_same_commit:
  assumes "jsb_same j (j'\<lparr>j_start := s\<rparr>)"
  shows "commit_for crc tx j = commit_for crc tx j'" "fits_tag j b = fits_tag j' b" "j_start j = s" "j_first j = j_first j'" "j_max_len j = j_max_len j'"
    "j_sequence j = j_sequence j'" "j_block_size j = j_block_size j'"
proof -
  have f: "j_block_type j = j_block_type j' \<and> j_feature_incompat j = j_feature_incompat j' \<and> j_feature_compat j = j_feature_compat j' \<and> j_uuid j = j_uuid j' \<and>
      j_block_size j = j_block_size j' \<and> j_first j = j_first j' \<and> j_max_len j = j_max_len j' \<and> j_sequence j = j_sequence j' \<and> j_start j = s \<and>
      j_checksum_type j = j_checksum_type j'"
    using assms by (cases j, cases j') (simp add: jsb_same_def)
  show "commit_for crc tx j = commit_for crc tx j'"
    using f by (simp add: commit_for_def layout_of_def unsupported_incompat_def checksum_declaration_error_def uses_64bit_def uses_csum_v3_def
        uses_csum_v2_or_v3_def tag_bytes_def csum_seed_def)
  show "fits_tag j b = fits_tag j' b" using f by (simp add: fits_tag_def uses_64bit_def)
  show "j_start j = s" "j_first j = j_first j'" "j_max_len j = j_max_len j'" "j_sequence j = j_sequence j'" "j_block_size j = j_block_size j'" using f by simp_all
qed

lemma log_ready_intro:
  assumes "commit_ready w tx img" "commit_replayable w tx img" "\<forall>x \<in> set (tx_writes tx). length (jb_bytes x) = unat (jw_block_size w)"
    "commit_for crc tx (jw_jsb w) = Ok blocks" "length blocks \<le> max_blocks_per_transaction w" "tx_sequence tx = j_sequence (jw_jsb w)"
    "journal_holds w blocks img J img'" "jsb_parse J = Ok j" "jsb_same j ((jw_jsb w)\<lparr>j_start := 1\<rparr>)"
  shows "log_ready crc w tx blocks j img'"
proof -
  note js = jsb_same_commit [OF assms(9)]
  note cr = assms(1) [unfolded commit_ready_def] and cp = assms(2) [unfolded commit_replayable_def] and jh = assms(7) [unfolded journal_holds_def Let_def]
  have ml: "1 < j_max_len (jw_jsb w)" "length (jw_map w) = unat (j_max_len (jw_jsb w))" using cr by blast+
  then have "length blocks < length (jw_map w)" using assms(5) by (simp add: max_blocks_per_transaction_def word_less_nat_alt)
  moreover have "\<forall>k. length blocks < k \<longrightarrow> k < length (jw_map w) \<longrightarrow> (\<forall>h. try_parse_header (block_of (unat (jw_block_size w)) (jw_map w ! k) img') = Some h \<longrightarrow> h_sequence h \<noteq> tx_sequence tx + 1)"
    using jh cp by simp
  moreover have "j_block_size (jw_jsb w) = jw_block_size w" "j_first (jw_jsb w) = 1" using cr by blast+
  moreover have "\<forall>p \<in> set (jw_map w). p \<noteq> sb_block w \<and> p < jw_blocks_count w" using cr by blast
  moreover have "\<forall>x \<in> set (tx_writes tx). jb_fs_block x \<notin> set (jw_map w) \<and> jb_fs_block x < jw_blocks_count w \<and> fits_tag (jw_jsb w) (jb_fs_block x)" using cr by blast
  moreover have "unat (jw_block_size w) = 1024 \<or> 2048 \<le> unat (jw_block_size w)" "length img < 2 ^ 63" "2048 \<le> length img" "unat (jw_blocks_count w) * unat (jw_block_size w) \<le> length img"
    using cr by blast+
  ultimately show ?thesis unfolding log_ready_def Let_def using jh cp assms(3,4,6,8) ml by (simp add: js)
qed

lemma journal_holds_agrees:
  assumes "journal_holds w blocks img J i" "agrees (unat (jw_block_size w)) S i i'" "S \<inter> set (jw_map w) = {}" "length blocks < length (jw_map w)"
    "\<forall>p \<in> set (jw_map w). unat p * unat (jw_block_size w) + unat (jw_block_size w) \<le> length img"
  shows "journal_holds w blocks img J i'"
proof -
  have len: "length i = length img" "length i' = length img" using assms(1,2) by (simp_all add: journal_holds_def agrees_def Let_def)
  have eq: "block_of (unat (jw_block_size w)) (jw_map w ! k) i' = block_of (unat (jw_block_size w)) (jw_map w ! k) i" if "k < length (jw_map w)" for k
    using that assms(3,5) len by (intro agrees_shrink [OF assms(2)]) auto
  have "0 < length (jw_map w)" using assms(4) by linarith
  from eq [OF this] show ?thesis using eq assms(1,4) len unfolding journal_holds_def Let_def by auto
qed

lemma log_written:
  assumes "whole_blocks (unat (jw_block_size w)) (length img) (zip (drop 1 (jw_map w)) blocks)" "distinct (jw_map w)" "length blocks < length (jw_map w)"
    "\<forall>p \<in> set (jw_map w). p \<noteq> sb_block w \<and> unat p * unat (jw_block_size w) + unat (jw_block_size w) \<le> length img" "length img < 2 ^ 63" "2048 \<le> length img"
    "unat (jw_block_size w) = 1024 \<or> 2048 \<le> unat (jw_block_size w)" "length x1 = 1024"
  shows "journal_holds w blocks img (block_of (unat (jw_block_size w)) (jw_map w ! 0) img)
    (apply_all (block_events (jw_block_size w) (zip (drop 1 (jw_map w)) blocks) @ [(1024, x1)]) img)"
proof -
  let ?m = "jw_map w" and ?bs = "unat (jw_block_size w)" and ?L = "zip (drop 1 (jw_map w)) blocks"
  let ?i = "block_writes ?bs ?L img"
  have dL: "distinct (map fst ?L)" using assms(2) by (simp add: map_fst_zip_take)
  then have mo: "map_of (rev ?L) = map_of ?L" by (metis distinct_rev map_of_inject_set rev_map set_rev)
  have l: "length ?L = length blocks" using assms(3) by simp
  have nth: "?L ! k = (?m ! (k + 1), blocks ! k)" if "k < length blocks" for k using that assms(3) by (simp add: add.commute)
  have log: "map_of ?L (?m ! (k + 1)) = Some (blocks ! k)" if "k < length blocks" for k
    using dL that l nth [OF that] by (metis map_of_is_SomeI nth_mem)
  have off: "map_of ?L (?m ! k) = None" if "k = 0 \<or> length blocks < k" "k < length ?m" for k
  proof -
    have "?m ! k \<noteq> fst (?L ! i)" if "i < length ?L" for i
      using that nth [of i] l \<open>k = 0 \<or> length blocks < k\<close> \<open>k < length ?m\<close> assms(2,3) by (auto simp: nth_eq_iff_index_eq)
    then have "?m ! k \<notin> fst ` set ?L" by (metis (no_types, lifting) imageE in_set_conv_nth)
    then show ?thesis by (simp add: map_of_eq_None_iff)
  qed
  have bo: "block_of ?bs (?m ! k) ?i = (case map_of ?L (?m ! k) of Some x \<Rightarrow> x | None \<Rightarrow> block_of ?bs (?m ! k) img)" if "k < length ?m" for k
    using block_of_block_writes [OF assms(1)] assms(4) that mo by simp
  have z: "0 < length ?m" using assms(3) by linarith
  have "block_of ?bs (?m ! 0) ?i = block_of ?bs (?m ! 0) img" using bo [OF z] off [OF _ z] by simp
  then have "journal_holds w blocks img (block_of ?bs (?m ! 0) img) ?i"
    unfolding journal_holds_def Let_def using assms(1,3) bo log off by (auto simp del: map_of_eq_Some_iff)
  moreover have "agrees ?bs {sb_block w} ?i (put 1024 x1 ?i)" using agrees_sb_write [OF assms(7,8), of ?i] assms(1,6) by simp
  ultimately have "journal_holds w blocks img (block_of ?bs (?m ! 0) img) (put 1024 x1 ?i)"
    by (rule journal_holds_agrees) (use assms(3,4) in auto)
  moreover have "apply_all (block_events (jw_block_size w) ?L @ [(1024, x1)]) img = put 1024 x1 ?i"
    using apply_all_blocks [OF assms(1,5)] by (simp add: apply_all_append block_events_def) (simp add: apply_all_def)
  ultimately show ?thesis by simp
qed

lemma journal_holds_put:
  assumes "journal_holds w blocks img J i" "block_of (unat (jw_block_size w)) (jw_map w ! 0) i' = J'" "agrees (unat (jw_block_size w)) {jw_map w ! 0} i i'"
    "distinct (jw_map w)" "length blocks < length (jw_map w)"
    "\<forall>p \<in> set (jw_map w). unat p * unat (jw_block_size w) + unat (jw_block_size w) \<le> length img"
  shows "journal_holds w blocks img J' i'"
proof -
  have len: "length i = length img" "length i' = length img" using assms(1,3) by (simp_all add: journal_holds_def agrees_def Let_def)
  have "block_of (unat (jw_block_size w)) (jw_map w ! k) i' = block_of (unat (jw_block_size w)) (jw_map w ! k) i" if k: "0 < k" "k < length (jw_map w)" for k
  proof -
    have "jw_map w ! k \<noteq> jw_map w ! 0" using k assms(4) by (subst nth_eq_iff_index_eq) auto
    then show ?thesis using k assms(6) len by (intro agrees_shrink [OF assms(3)]) auto
  qed
  then show ?thesis using assms(1,2,5) len unfolding journal_holds_def Let_def by auto
qed

text \<open>
  What a crash during a commit leaves: the old image under a clean journal, a dirty journal that holds the
  transaction, or the new image under a clean journal.
\<close>

definition clean_at :: "journal_writer \<Rightarrow> bytes \<Rightarrow> bool" where
  "clean_at w img \<longleftrightarrow> (\<exists>j. jsb_parse (block_of (unat (jw_block_size w)) (jw_map w ! 0) img) = Ok j \<and> j_start j = 0)"

lemma block_event_put:
  assumes "unat p * unat (jw_block_size w) + unat (jw_block_size w) \<le> length img" "length img < 2 ^ 63" "length J = unat (jw_block_size w)"
  shows "block_of (unat (jw_block_size w)) p (apply_all (block_events (jw_block_size w) [(p, J)]) img) = J"
    "agrees (unat (jw_block_size w)) {p} img (apply_all (block_events (jw_block_size w) [(p, J)]) img)"
proof -
  have "unat (p * ucast (jw_block_size w) :: u64) = unat p * unat (jw_block_size w)" by (rule block_offset [OF assms(1,2)])
  then have e: "apply_all (block_events (jw_block_size w) [(p, J)]) img = put (unat p * unat (jw_block_size w)) J img" by (simp add: apply_all_def block_events_def)
  show "block_of (unat (jw_block_size w)) p (apply_all (block_events (jw_block_size w) [(p, J)]) img) = J"
    unfolding e by (rule block_of_put_same [OF assms(1,3)])
  show "agrees (unat (jw_block_size w)) {p} img (apply_all (block_events (jw_block_size w) [(p, J)]) img)"
    unfolding e using assms(1,3) by (intro agrees_put) simp_all
qed

lemma crash_states:
  assumes ready: "commit_ready w tx img" and wb: "\<forall>x \<in> set (tx_writes tx). length (jb_bytes x) = unat (jw_block_size w)"
    and bl: "\<forall>b \<in> set blocks. length b = unat (jw_block_size w)" "length blocks \<le> max_blocks_per_transaction w"
    and x1: "length x1 = 1024" and sbx: "sbx = [] \<or> (\<exists>x2. sbx = [(1024, x2)] \<and> length x2 = 1024)"
    and J: "length J1 = unat (jw_block_size w)" "length J2 = unat (jw_block_size w)" "jsb_parse J2 = Ok j2" "j_start j2 = 0"
    and cr: "crashed img [] (write_events (block_events (jw_block_size w) (zip (drop 1 (jw_map w)) blocks) @ [(1024, x1)]) @ EFlush #
       write_events (block_events (jw_block_size w) [(jw_map w ! 0, J1)]) @ EFlush #
       write_events (block_events (jw_block_size w) (final_writes tx)) @ EFlush #
       write_events (block_events (jw_block_size w) [(jw_map w ! 0, J2)] @ sbx) @ EFlush # []) img'"
  shows "length img' = length img \<and>
    (clean_at w img' \<and> agrees (unat (jw_block_size w)) (set (jw_map w) \<union> {sb_block w}) img img' \<or>
     journal_holds w blocks img J1 img' \<and> agrees (unat (jw_block_size w)) (set (jw_map w) \<union> {sb_block w} \<union> fst ` set (final_writes tx)) img img' \<or>
     clean_at w img' \<and> agrees (unat (jw_block_size w)) (set (jw_map w) \<union> {sb_block w}) (block_writes (unat (jw_block_size w)) (final_writes tx) img) img')"
    and "agrees (unat (jw_block_size w)) (set (jw_map w) \<union> {sb_block w}) (block_writes (unat (jw_block_size w)) (final_writes tx) img)
      (apply_all (block_events (jw_block_size w) [(jw_map w ! 0, J2)] @ sbx) (apply_all (block_events (jw_block_size w) (final_writes tx))
       (apply_all (block_events (jw_block_size w) [(jw_map w ! 0, J1)]) (apply_all (block_events (jw_block_size w) (zip (drop 1 (jw_map w)) blocks) @ [(1024, x1)]) img))))"
proof -
  let ?bsw = "jw_block_size w" and ?m = "jw_map w" and ?n = "length img"
  define bs where "bs = unat ?bsw"
  define S where "S = set ?m \<union> {sb_block w}"
  define F where "F = final_writes tx"
  note rd = ready [unfolded commit_ready_def, folded bs_def]
  have g: "bs = 1024 \<or> 2048 \<le> bs" "?n < 2 ^ 63" "2048 \<le> ?n" "unat (jw_blocks_count w) * bs \<le> ?n" using rd by blast+
  have mp: "\<forall>p \<in> set ?m. p \<noteq> sb_block w \<and> p < jw_blocks_count w" and ml: "1 < j_max_len (jw_jsb w)" "length ?m = unat (j_max_len (jw_jsb w))"
    and dm: "distinct ?m" using rd by blast+
  have mr: "\<forall>p \<in> set ?m. p \<noteq> sb_block w \<and> unat p * bs + bs \<le> ?n" using mp g(4) block_in_range by blast
  have lbm: "length blocks < length ?m" using bl(2) ml by (simp add: max_blocks_per_transaction_def word_less_nat_alt)
  then have ne: "?m \<noteq> []" by auto
  then have m0: "?m ! 0 \<in> set ?m" by simp
  have r0: "unat (?m ! 0) * bs + bs \<le> ?n" using mr m0 by blast
  obtain j0 where j0: "jsb_parse (block_of bs (?m ! 0) img) = Ok j0" "jsb_same j0 (jw_jsb w)" using rd by blast
  have st0: "j_start j0 = 0" using j0(2) rd by (cases j0, cases "jw_jsb w") (simp add: jsb_same_def)
  have wr: "\<forall>x \<in> set (tx_writes tx). jb_fs_block x \<notin> set ?m \<and> jb_fs_block x < jw_blocks_count w" using rd by blast
  have wF: "whole_blocks bs ?n F" using wr wb g(4) block_in_range unfolding whole_blocks_def F_def final_writes_def bs_def by fastforce
  have nF: "fst ` set F \<inter> set ?m = {}" using wr by (auto simp: F_def final_writes_def)
  have wL: "whole_blocks bs ?n (zip (drop 1 ?m) blocks)" unfolding whole_blocks_def
  proof (intro ballI case_prodI2 impI conjI)
    fix e p b assume "e \<in> set (zip (drop 1 ?m) blocks)" "e = (p, b)"
    then have "p \<in> set ?m" "b \<in> set blocks" by (auto dest: set_zip_leftD set_zip_rightD in_set_dropD)
    then show "unat p * bs + bs \<le> ?n" "length b = bs" using mr bl(1) by (auto simp: bs_def)
  qed
  let ?A0 = "block_events ?bsw (zip (drop 1 ?m) blocks) @ [(1024, x1)]" and ?A1 = "block_events ?bsw [(?m ! 0, J1)]" and ?A2 = "block_events ?bsw F"
    and ?A3 = "block_events ?bsw [(?m ! 0, J2)] @ sbx"
  define i1 where "i1 = apply_all ?A0 img"
  define i2 where "i2 = apply_all ?A1 i1"
  define i3 where "i3 = apply_all ?A2 i2"
  have ag: "agrees bs (T \<union> {sb_block w}) i (apply_all evs i)" if "events_in w ?n T evs" "length i = ?n" for T evs i
    using agrees_events [OF g(1) [unfolded bs_def] g(3,2) that(1,2)] by (simp add: bs_def)
  have zs: "fst ` set (zip (drop 1 ?m) blocks) \<subseteq> set (drop 1 ?m)" by (auto dest: set_zip_leftD)
  have e0: "events_in w ?n (set (drop 1 ?m)) ?A0"
    using events_in_blocks [OF wL [unfolded bs_def] zs] events_in_sb [of "[(1024, x1)]"] x1 by simp
  have eF: "events_in w ?n (fst ` set F) ?A2" using events_in_blocks [OF wF [unfolded bs_def]] by simp
  have m0d: "?m ! 0 \<notin> set (drop 1 ?m)" using dm ne by (metis Cons_nth_drop_Suc One_nat_def distinct.simps(2) drop_0 length_greater_0_conv)
  have clean: "clean_at w i \<and> agrees bs S img i \<and> length i = ?n" if "agrees bs (set (drop 1 ?m) \<union> {sb_block w}) img i" for i
  proof -
    have "block_of bs (?m ! 0) i = block_of bs (?m ! 0) img" using mr m0 m0d by (intro agrees_shrink [OF that] r0) auto
    then have "clean_at w i" using j0(1) st0 by (simp add: clean_at_def bs_def)
    moreover have "agrees bs S img i" by (rule agrees_mono [OF that]) (auto simp: S_def dest: in_set_dropD)
    ultimately show ?thesis by (simp add: agrees_def)
  qed
  have a1: "agrees bs (set (drop 1 ?m) \<union> {sb_block w}) img i1" unfolding i1_def by (rule ag [OF e0 refl])
  have n1: "length i1 = ?n" using a1 by (simp add: agrees_def)
  have h1: "journal_holds w blocks img (block_of bs (?m ! 0) img) i1"
    unfolding i1_def bs_def using wL mr g x1 dm lbm by (intro log_written) (simp_all add: bs_def)
  have p1: "block_of bs (?m ! 0) i2 = J1" "agrees bs {?m ! 0} i1 i2"
    unfolding i2_def using block_event_put [of "?m ! 0" w i1 J1] r0 n1 g(2) J(1) by (simp_all add: bs_def)
  have h2: "journal_holds w blocks img J1 i2" using journal_holds_put [OF h1 p1 [unfolded bs_def] dm lbm] mr by (simp add: bs_def)
  have a2: "agrees bs S img i2"
    using agrees_trans [OF a1 p1(2)] by (rule agrees_mono) (use m0 in \<open>auto simp: S_def dest: in_set_dropD\<close>)
  have n2: "length i2 = ?n" using a2 by (simp add: agrees_def)
  have dirty: "journal_holds w blocks img J1 i \<and> agrees bs (S \<union> fst ` set F) img i \<and> length i = ?n"
    if "agrees bs (fst ` set F \<union> {sb_block w}) i2 i" for i
  proof -
    have "journal_holds w blocks img J1 i"
      by (rule journal_holds_agrees [OF h2 that [unfolded bs_def]]) (use nF mr lbm in \<open>auto simp: bs_def\<close>)
    moreover have "agrees bs (S \<union> fst ` set F) img i" by (rule agrees_mono [OF agrees_trans [OF a2 that]]) (auto simp: S_def)
    ultimately show ?thesis by (simp add: agrees_def)
  qed
  have i3: "i3 = block_writes bs F i2" unfolding i3_def block_events_def bs_def using apply_all_blocks wF g(2) by (simp add: bs_def)
  have a3: "agrees bs (fst ` set F \<union> {sb_block w}) i2 i3" unfolding i3_def by (rule ag [OF eF n2])
  have n3: "length i3 = ?n" using a3 n2 by (simp add: agrees_def)
  have fin: "clean_at w i \<and> agrees bs S (block_writes bs F img) i \<and> length i = ?n"
    if i: "i = apply_all (block_events ?bsw [(?m ! 0, J2)] @ more) i3" and more: "set more \<subseteq> set sbx" for i more
  proof -
    define i4 where "i4 = apply_all (block_events ?bsw [(?m ! 0, J2)]) i3"
    have p4: "block_of bs (?m ! 0) i4 = J2" "agrees bs {?m ! 0} i3 i4"
      unfolding i4_def using block_event_put [of "?m ! 0" w i3 J2] r0 n3 g(2) J(2) by (simp_all add: bs_def)
    have n4: "length i4 = ?n" using p4(2) n3 by (simp add: agrees_def)
    have "events_in w ?n {} more" using events_in_sb [OF sbx] more by (rule events_in_subset)
    from ag [OF this n4] have a5: "agrees bs {sb_block w} i4 i" by (simp add: i apply_all_append i4_def)
    have "block_of bs (?m ! 0) i = J2" unfolding p4(1) [symmetric] using mr m0 n4 r0 by (intro agrees_shrink [OF a5]) auto
    then have "clean_at w i" using J(3,4) by (simp add: clean_at_def bs_def)
    moreover have "agrees bs S (block_writes bs F img) i3" unfolding i3 by (rule agrees_both_writes [OF a2 wF]) simp
    from agrees_trans [OF this agrees_trans [OF p4(2) a5]] have "agrees bs S (block_writes bs F img) i"
      by (rule agrees_mono) (use m0 in \<open>auto simp: S_def\<close>)
    ultimately show ?thesis using wF by (simp add: agrees_def)
  qed
  let ?R = "\<lambda>i. length i = ?n \<and> (clean_at w i \<and> agrees bs S img i \<or> journal_holds w blocks img J1 i \<and> agrees bs (S \<union> fst ` set F) img i \<or>
      clean_at w i \<and> agrees bs S (block_writes bs F img) i)"
  have last: "?R (apply_all pick i3)" if "pick \<in> set (subseqs ?A3)" for pick
  proof -
    have pk: "(\<exists>more. pick = block_events ?bsw [(?m ! 0, J2)] @ more \<and> set more \<subseteq> set sbx) \<or> set pick \<subseteq> set sbx"
      using that by (auto simp: block_events_def Let_def dest!: subseqs_subset)
    show ?thesis
    proof (cases "set pick \<subseteq> set sbx")
      case True
      have "events_in w ?n {} pick" using events_in_sb [OF sbx] True by (rule events_in_subset)
      from agrees_trans [OF a3 ag [OF this n3]] have "agrees bs (fst ` set F \<union> {sb_block w}) i2 (apply_all pick i3)" by simp
      then show ?thesis using dirty by blast
    next
      case False
      then show ?thesis using pk fin by blast
    qed
  qed
  have "?R img'"
  proof -
    consider (one) pick where "pick \<in> set (subseqs ?A0)" "img' = apply_all pick img"
      | (two) pick where "pick \<in> set (subseqs ?A1)" "img' = apply_all pick i1"
      | (three) pick where "pick \<in> set (subseqs ?A2)" "img' = apply_all pick i2"
      | (four) pick where "pick \<in> set (subseqs ?A3)" "img' = apply_all pick i3"
    proof -
      let ?e4 = "write_events ?A3 @ EFlush # []"
      let ?e3 = "write_events ?A2 @ EFlush # ?e4"
      let ?e2 = "write_events ?A1 @ EFlush # ?e3"
      have "crashed img [] (write_events ?A0 @ EFlush # ?e2) img'" using cr by (simp add: F_def)
      from crashed_phase [OF this] have c1: "(\<exists>pick \<in> set (subseqs ?A0). img' = apply_all pick img) \<or> crashed i1 [] ?e2 img'" by (simp only: i1_def append_Nil)
      have c2: "crashed i1 [] ?e2 img' \<Longrightarrow> (\<exists>pick \<in> set (subseqs ?A1). img' = apply_all pick i1) \<or> crashed i2 [] ?e3 img'"
        using crashed_phase [of i1 "[]" ?A1 ?e3 img'] by (simp only: i2_def append_Nil)
      have c3: "crashed i2 [] ?e3 img' \<Longrightarrow> (\<exists>pick \<in> set (subseqs ?A2). img' = apply_all pick i2) \<or> crashed i3 [] ?e4 img'"
        using crashed_phase [of i2 "[]" ?A2 ?e4 img'] by (simp only: i3_def append_Nil)
      have c4: "\<exists>pick \<in> set (subseqs ?A3). img' = apply_all pick i3" if "crashed i3 [] ?e4 img'"
      proof -
        have "?A3 \<in> set (subseqs ?A3)" by (rule subseqs_refl)
        moreover have "img' = apply_all ?A3 i3" if "crashed (apply_all ?A3 i3) [] [] img'"
          using that by (auto elim!: crashed_NilE simp: apply_all_def)
        ultimately show ?thesis using crashed_phase [OF that] by (auto simp only: append_Nil)
      qed
      show thesis using c1 c2 c3 c4 that by blast
    qed
    then show ?thesis
    proof cases
      case one
      have "events_in w ?n (set (drop 1 ?m)) pick" using events_in_subset [OF e0 subseqs_subset [OF one(1)]] .
      from clean [OF ag [OF this refl]] show ?thesis using one(2) by blast
    next
      case two
      then have "img' = i1 \<or> img' = i2" by (auto simp: block_events_def Let_def i2_def apply_all_def)
      then show ?thesis using clean [OF a1] dirty [OF agrees_refl] by blast
    next
      case three
      have "events_in w ?n (fst ` set F) pick" using events_in_subset [OF eF subseqs_subset [OF three(1)]] .
      from dirty [OF ag [OF this n2]] show ?thesis using three(2) by blast
    next
      case four
      then show ?thesis using last by blast
    qed
  qed
  then show "length img' = length img \<and>
    (clean_at w img' \<and> agrees (unat ?bsw) (set ?m \<union> {sb_block w}) img img' \<or>
     journal_holds w blocks img J1 img' \<and> agrees (unat ?bsw) (set ?m \<union> {sb_block w} \<union> fst ` set (final_writes tx)) img img' \<or>
     clean_at w img' \<and> agrees (unat ?bsw) (set ?m \<union> {sb_block w}) (block_writes (unat ?bsw) (final_writes tx) img) img')"
    by (simp only: S_def F_def bs_def)
  show "agrees (unat ?bsw) (set ?m \<union> {sb_block w}) (block_writes (unat ?bsw) (final_writes tx) img)
      (apply_all ?A3 (apply_all (block_events ?bsw (final_writes tx)) (apply_all ?A1 (apply_all ?A0 img))))"
    using fin [of _ sbx] by (simp only: S_def F_def bs_def i3_def i2_def i1_def)
qed

section \<open>From the commit to its trace\<close>

lemma collect_blocks_all:
  "collect_blocks f xs = Ok bs \<Longrightarrow> \<forall>x \<in> set xs. \<forall>y. f x = Ok y \<longrightarrow> (\<forall>b \<in> set y. P b) \<Longrightarrow> \<forall>b \<in> set bs. P b"
  by (induction xs arbitrary: bs) (auto simp: outcome_simps)

lemma commit_block_lengths:
  assumes "commit_for crc tx j = Ok bl" "32 \<le> unat (tx_block_size tx)" "tx_fits j tx" "\<forall>x \<in> set (tx_writes tx). length (jb_bytes x) = unat (tx_block_size tx)"
  shows "bl \<noteq> []" "\<forall>b \<in> set bl. length b = unat (tx_block_size tx)"
proof -
  let ?l = "layout_of crc j" and ?n = "unat (tx_block_size tx)"
  let ?wch = "chunks (tags_per_descriptor tx ?l) (tx_writes tx)" and ?rch = "chunks (revokes_per_block tx ?l) (tx_revokes tx)"
  obtain gs rs c where ser: "collect_blocks (descriptor_group crc tx ?l) ?wch = Ok gs"
    "collect_blocks (\<lambda>ch. map_ok (\<lambda>b. [b]) (build_revoke_block crc tx ch ?l)) ?rch = Ok rs"
    "build_commit_block crc tx ?l = Ok c" "bl = gs @ rs @ [c]"
    using commit_for_layout [OF assms(1)] unfolding serialize_def by (auto simp: outcome_simps)
  have sub: "0 < n \<Longrightarrow> ch \<in> set (chunks n xs) \<Longrightarrow> set ch \<subseteq> set xs" for n ch and xs :: "'z list"
    using concat_chunks [of n xs] by (metis UN_upper set_concat)
  have tp: "0 < tags_per_descriptor tx ?l" "0 < revokes_per_block tx ?l" by (simp_all add: tags_per_descriptor_def revokes_per_block_def)
  have "\<forall>b \<in> set gs. length b = ?n"
  proof (rule collect_blocks_all [OF ser(1)], intro ballI allI impI)
    fix ch y b assume ch: "ch \<in> set ?wch" "descriptor_group crc tx ?l ch = Ok y" "b \<in> set y"
    have "ch \<noteq> []" "length ch \<le> tags_per_descriptor tx ?l" using chunks_member [OF ch(1)] by auto
    moreover have xs: "\<forall>x \<in> set ch. fits_tag j (jb_fs_block x) \<and> length (jb_bytes x) = ?n" using sub [OF tp(1) ch(1)] assms(3,4) unfolding tx_fits_def by blast
    ultimately obtain d where "build_descriptor_block crc tx ch ?l = Ok d" "length d = ?n"
      using descriptor_reads_back [of ch j tx crc] tags_fit [OF assms(2), of ch crc j] by metis
    then show "length b = ?n" using ch(2,3) assms(2) xs by (auto simp: descriptor_group_def logged_copy_def)
  qed
  moreover have "\<forall>b \<in> set rs. length b = ?n"
  proof (rule collect_blocks_all [OF ser(2)], intro ballI allI impI)
    fix ch y b assume ch: "ch \<in> set ?rch" "map_ok (\<lambda>b. [b]) (build_revoke_block crc tx ch ?l) = Ok y" "b \<in> set y"
    have "ch \<noteq> []" "length ch \<le> revokes_per_block tx ?l" using chunks_member [OF ch(1)] by auto
    moreover have "\<forall>b \<in> set ch. fits_tag j b" using sub [OF tp(2) ch(1)] assms(3) unfolding tx_fits_def by blast
    ultimately obtain d where "build_revoke_block crc tx ch ?l = Ok d" "length d = ?n"
      using revoke_reads_back [of ch j tx crc] revokes_fit [OF assms(2), of ch crc j] by metis
    then show "length b = ?n" using ch(2,3) by auto
  qed
  moreover have "20 \<le> ?n" using assms(2) by simp
  then have "length c = ?n" using commit_reads_back [of tx crc j] ser(3) by (metis outcome.inject(1))
  ultimately show "bl \<noteq> []" "\<forall>b \<in> set bl. length b = ?n" using ser(4) by auto
qed

text \<open>Flagging a journaled superblock touches no other write.\<close>

definition flagged :: "u64 \<Rightarrow> journaled_block \<Rightarrow> journaled_block \<Rightarrow> bool" where
  "flagged sbb x y \<longleftrightarrow> jb_fs_block y = jb_fs_block x \<and> length (jb_bytes y) = length (jb_bytes x) \<and> (jb_fs_block x \<noteq> sbb \<longrightarrow> jb_bytes y = jb_bytes x)"

lemma flag_superblocks_flagged: "flag_superblocks crc sbb off ws = Ok ws' \<Longrightarrow> list_all2 (flagged sbb) ws ws'"
proof (induction ws arbitrary: ws')
  case (Cons x ws)
  obtain y ys where y: "ws' = y # ys" "flag_superblocks crc sbb off ws = Ok ys"
    "(if jb_fs_block x = sbb then and_then (get_slice off (off + 1024) (jb_bytes x)) (\<lambda>z. Ok (x\<lparr>jb_bytes := put off (set_needs_recovery_in crc True z) (jb_bytes x)\<rparr>)) else Ok x) = (Ok y :: journaled_block result)"
    using Cons.prems by (auto simp: outcome_simps)
  have "flagged sbb x y"
  proof (cases "jb_fs_block x = sbb")
    case True
    then have "off + 1024 \<le> length (jb_bytes x)" "y = x\<lparr>jb_bytes := put off (set_needs_recovery_in crc True (slice off (off + 1024) (jb_bytes x))) (jb_bytes x)\<rparr>"
      using y(3) by (auto simp: get_slice_def split: if_splits)
    then show ?thesis using True length_set_needs_recovery [of "slice off (off + 1024) (jb_bytes x)" crc True] by (simp add: flagged_def)
  qed (use y(3) in \<open>simp add: flagged_def\<close>)
  then show ?case using Cons.IH [OF y(2)] y(1) by simp
qed simp

lemma agrees_flagged:
  assumes "list_all2 (flagged sbb) ws ws'" "\<forall>x \<in> set ws. length (jb_bytes x) = bs \<and> unat (jb_fs_block x) * bs + bs \<le> length a" "agrees bs {sbb} a b"
  shows "agrees bs {sbb} (block_writes bs (map (\<lambda>x. (jb_fs_block x, jb_bytes x)) ws) a) (block_writes bs (map (\<lambda>x. (jb_fs_block x, jb_bytes x)) ws') b)"
  using assms
proof (induction ws ws' arbitrary: a b rule: list_all2_induct)
  case (Cons x ws y ws')
  let ?c = "jb_fs_block x"
  let ?a = "put (unat ?c * bs) (jb_bytes x) a" and ?b = "put (unat ?c * bs) (jb_bytes y) b"
  have f: "jb_fs_block y = ?c" "length (jb_bytes y) = bs" "?c \<noteq> sbb \<Longrightarrow> jb_bytes y = jb_bytes x" "length (jb_bytes x) = bs" "unat ?c * bs + bs \<le> length a"
    using Cons.hyps(1) Cons.prems(1) by (auto simp: flagged_def)
  have len: "length b = length a" "length ?a = length a" "length ?b = length a" using Cons.prems(2) f by (simp_all add: agrees_def)
  have "block_of bs p ?b = block_of bs p ?a" if p: "p \<noteq> sbb" "unat p * bs + bs \<le> length a" for p
  proof (cases "p = ?c")
    case True
    then show ?thesis using f p len(1) by (simp add: block_of_put_same)
  next
    case False
    have "block_of bs p ?a = block_of bs p a" "block_of bs p ?b = block_of bs p b"
      using agrees_put [of ?c bs "unat ?c * bs" "jb_bytes x" a] agrees_put [of ?c bs "unat ?c * bs" "jb_bytes y" b] f len(1) p(2) False
      by (auto simp: agrees_def)
    then show ?thesis using Cons.prems(2) p by (simp add: agrees_def)
  qed
  then have "agrees bs {sbb} ?a ?b" using len by (simp add: agrees_def)
  then show ?case using Cons.IH [of ?a ?b] Cons.prems(1) f(1) len by (simp add: block_writes_def)
qed (simp add: block_writes_def)

abbreviation recording :: "bytes \<Rightarrow> traced" where
  "recording img \<equiv> \<lparr>tr_image = img, tr_events = []\<rparr>"

lemma commit_cases:
  obtains (refused) r where "jw_commit crc dv tx w s = (r, (w, s))" "r \<noteq> Ok ()"
  | (fences) ws blocks where "flag_superblocks crc (sb_block w) (sb_offset_in_block w) (tx_writes tx) = Ok ws"
    "commit_for crc (tx\<lparr>tx_writes := ws\<rparr>) (jw_jsb w) = Ok blocks" "blocks \<noteq> []" "length blocks \<le> max_blocks_per_transaction w"
    "tx_sequence tx = j_sequence (jw_jsb w)" "tx_block_size tx = jw_block_size w" "\<forall>x \<in> set (tx_writes tx). length (jb_bytes x) = unat (jw_block_size w)"
    "jw_commit crc dv tx w s = commit_fenced crc dv (tx\<lparr>tx_writes := ws\<rparr>) blocks w s"
proof -
  consider (no) "\<not> (jw_healthy w \<and> dv_writable dv s \<and> tx_sequence tx = j_sequence (jw_jsb w) \<and> tx_block_size tx = jw_block_size w \<and>
      (\<forall>x \<in> set (tx_writes tx). length (jb_bytes x) = unat (jw_block_size w)))"
    | (yes) "jw_healthy w" "dv_writable dv s" "tx_sequence tx = j_sequence (jw_jsb w)" "tx_block_size tx = jw_block_size w"
      "\<forall>x \<in> set (tx_writes tx). length (jb_bytes x) = unat (jw_block_size w)" by blast
  then show thesis
  proof cases
    case no
    then have "\<exists>e. jw_commit crc dv tx w s = (Err e, (w, s))" by (auto simp: jw_commit_def commit_inner_def)
    then show thesis using refused by auto
  next
    case yes
    then have step: "jw_commit crc dv tx w s = with_writer w (flag_superblocks crc (sb_block w) (sb_offset_in_block w) (tx_writes tx), s) (\<lambda>ws s.
        with_writer w (commit_for crc (tx\<lparr>tx_writes := ws\<rparr>) (jw_jsb w), s) (\<lambda>blocks s.
          if blocks = [] then (Ok (), (w, s))
          else if length blocks > max_blocks_per_transaction w then (Err (Corrupt ''journal_writer: transaction too large for journal''), (w, s))
          else commit_fenced crc dv (tx\<lparr>tx_writes := ws\<rparr>) blocks w s))"
      by (simp add: jw_commit_def commit_inner_def Let_def)
    show thesis
    proof (cases "flag_superblocks crc (sb_block w) (sb_offset_in_block w) (tx_writes tx)")
      case (Ok ws)
      show thesis
      proof (cases "commit_for crc (tx\<lparr>tx_writes := ws\<rparr>) (jw_jsb w)")
        case bl: (Ok blocks)
        have ne: "blocks \<noteq> []" using commit_for_layout [OF bl] by (auto simp: serialize_def outcome_simps)
        show thesis
        proof (cases "length blocks \<le> max_blocks_per_transaction w")
          case True
          then have "jw_commit crc dv tx w s = commit_fenced crc dv (tx\<lparr>tx_writes := ws\<rparr>) blocks w s" using step Ok bl ne by simp
          then show thesis using fences [OF Ok bl ne True] yes by blast
        next
          case False
          then have "jw_commit crc dv tx w s = (Err (Corrupt ''journal_writer: transaction too large for journal''), (w, s))" using step Ok bl ne by simp
          then show thesis using refused by auto
        qed
      qed (use refused step Ok in auto)
    qed (use refused step in auto)
  qed
qed

lemma commit_ready_flagged:
  assumes "list_all2 (flagged (sb_block w)) (tx_writes tx) ws"
  shows "commit_ready w tx img \<Longrightarrow> commit_ready w (tx\<lparr>tx_writes := ws\<rparr>) img" "commit_replayable w tx img \<Longrightarrow> commit_replayable w (tx\<lparr>tx_writes := ws\<rparr>) img"
    "\<forall>x \<in> set (tx_writes tx). length (jb_bytes x) = n \<Longrightarrow> \<forall>y \<in> set ws. length (jb_bytes y) = n"
proof -
  have ex: "\<exists>x \<in> set (tx_writes tx). jb_fs_block x = jb_fs_block y \<and> length (jb_bytes y) = length (jb_bytes x)" if "y \<in> set ws" for y
    using assms that by (induction rule: list_all2_induct) (auto simp: flagged_def)
  then show "\<forall>x \<in> set (tx_writes tx). length (jb_bytes x) = n \<Longrightarrow> \<forall>y \<in> set ws. length (jb_bytes y) = n" by metis
  have fs: "\<forall>y \<in> set ws. P (jb_fs_block y)" if "\<forall>x \<in> set (tx_writes tx). P (jb_fs_block x)" for P
  proof
    fix y assume "y \<in> set ws"
    from ex [OF this] obtain x where "x \<in> set (tx_writes tx)" "jb_fs_block x = jb_fs_block y" by blast
    then show "P (jb_fs_block y)" using that by metis
  qed
  show "commit_ready w (tx\<lparr>tx_writes := ws\<rparr>) img" if h: "commit_ready w tx img"
  proof -
    have "\<forall>x \<in> set (tx_writes tx). jb_fs_block x \<notin> set (jw_map w) \<and> jb_fs_block x < jw_blocks_count w \<and> fits_tag (jw_jsb w) (jb_fs_block x)"
      using h unfolding commit_ready_def by blast
    from fs [OF this] have "\<forall>y \<in> set (tx_writes (tx\<lparr>tx_writes := ws\<rparr>)). jb_fs_block y \<notin> set (jw_map w) \<and> jb_fs_block y < jw_blocks_count w \<and> fits_tag (jw_jsb w) (jb_fs_block y)"
      by simp
    then show ?thesis using h unfolding commit_ready_def by blast
  qed
  show "commit_replayable w tx img \<Longrightarrow> commit_replayable w (tx\<lparr>tx_writes := ws\<rparr>) img"
    unfolding commit_replayable_def using fs [of "\<lambda>b. b \<notin> set (tx_revokes tx)"] by simp
qed

lemma commit_ready_clean: "commit_ready w tx img \<Longrightarrow> clean_at w img"
proof -
  assume cr: "commit_ready w tx img"
  then obtain j where "jsb_parse (block_of (unat (jw_block_size w)) (jw_map w ! 0) img) = Ok j" "jsb_same j (jw_jsb w)" "j_start (jw_jsb w) = 0"
    unfolding commit_ready_def by blast
  moreover have "j_start j = j_start (jw_jsb w)" using calculation(2) by (cases j, cases "jw_jsb w") (simp add: jsb_same_def)
  ultimately show "clean_at w img" by (auto simp: clean_at_def)
qed

text \<open>Recovery from each of the states a crash can leave.\<close>

lemma commit_half_written:
  assumes ready: "commit_ready w tx img" and wb: "\<forall>x \<in> set (tx_writes tx). length (jb_bytes x) = unat (jw_block_size w)"
    and bl: "\<forall>b \<in> set blocks. length b = unat (jw_block_size w)" "length blocks \<le> max_blocks_per_transaction w"
    and x1: "length x1 = 1024" and sbx: "sbx = [] \<or> (\<exists>x2. sbx = [(1024, x2)] \<and> length x2 = 1024)"
    and J: "length J1 = unat (jw_block_size w)" "length J2 = unat (jw_block_size w)"
    and cr: "crashed img [] (write_events (block_events (jw_block_size w) (zip (drop 1 (jw_map w)) blocks) @ [(1024, x1)]) @ EFlush #
       write_events (block_events (jw_block_size w) [(jw_map w ! 0, J1)]) @ EFlush #
       write_events (block_events (jw_block_size w) (final_writes tx)) @ EFlush #
       write_events (block_events (jw_block_size w) [(jw_map w ! 0, J2)] @ sbx) @ EFlush # []) img'"
  shows "half_written (unat (jw_block_size w)) (set (jw_map w) \<union> {sb_block w}) (final_writes tx) img img'"
proof -
  let ?bsw = "jw_block_size w" and ?bs = "unat (jw_block_size w)" and ?m = "jw_map w" and ?n = "length img" and ?F = "final_writes tx" and ?S = "set (jw_map w) \<union> {sb_block w}"
  note rd = ready [unfolded commit_ready_def]
  have g: "?bs = 1024 \<or> 2048 \<le> ?bs" "?n < 2 ^ 63" "2048 \<le> ?n" "unat (jw_blocks_count w) * ?bs \<le> ?n" using rd by blast+
  have mp: "\<forall>p \<in> set ?m. p \<noteq> sb_block w \<and> p < jw_blocks_count w" and ml: "1 < j_max_len (jw_jsb w)" "length ?m = unat (j_max_len (jw_jsb w))" using rd by blast+
  then have mr: "\<forall>p \<in> set ?m. unat p * ?bs + ?bs \<le> ?n" using g(4) block_in_range by blast
  have m0: "?m ! 0 \<in> set ?m" using ml by (auto simp: word_less_nat_alt)
  have wr: "\<forall>x \<in> set (tx_writes tx). jb_fs_block x < jw_blocks_count w" using rd by blast
  have wF: "whole_blocks ?bs ?n ?F" using wr wb g(4) block_in_range unfolding whole_blocks_def final_writes_def by fastforce
  have z: "p \<in> set ?m \<and> b \<in> set blocks" if "(p, b) \<in> set (zip (drop 1 ?m) blocks)" for p b
    using that by (meson in_set_dropD set_zip_leftD set_zip_rightD)
  have "whole_blocks ?bs ?n (zip (drop 1 ?m) blocks @ [(?m ! 0, J1), (?m ! 0, J2)])" "fst ` set (zip (drop 1 ?m) blocks @ [(?m ! 0, J1), (?m ! 0, J2)]) \<subseteq> set ?m"
    using mr m0 J bl(1) z by (fastforce simp: whole_blocks_def)+
  from events_in_blocks [OF this] have "events_in w ?n (set ?m) (block_events ?bsw (zip (drop 1 ?m) blocks) @ [(1024, x1)] @ block_events ?bsw [(?m ! 0, J1)] @ block_events ?bsw [(?m ! 0, J2)] @ sbx)"
    using events_in_sb [OF sbx] x1 by (auto simp: events_in_def block_events_def)
  note ev = events_in_block_event [OF this g(1,3,2), where F = ?F] block_events_block_event [OF wF g(2)]
  show ?thesis by (rule crashed_half_written [OF cr]) (use ev in \<open>auto simp: image_iff\<close>)
qed

context full_device
begin

lemma recover_clean_at:
  assumes "commit_ready w tx img" "clean_at w (contents s)" "length (contents s) = length img" "inv s" "dv_writable dv s" "same_volume sb w" "journal_reads jf ino (jw_map w) s"
  obtains s' where "replay_if_dirty crc dv jf sb s = (Ok 0, s')" "agrees (unat (jw_block_size w)) {sb_block w} (contents s) (contents s')"
proof -
  note cr = assms(1) [unfolded commit_ready_def]
  have g: "unat (jw_block_size w) = 1024 \<or> 2048 \<le> unat (jw_block_size w)" "2048 \<le> length (contents s)" "unat (jw_blocks_count w) * unat (jw_block_size w) \<le> length (contents s)"
    "1 < j_max_len (jw_jsb w)" "length (jw_map w) = unat (j_max_len (jw_jsb w))" "\<forall>p \<in> set (jw_map w). p \<noteq> sb_block w \<and> p < jw_blocks_count w"
    using cr unfolding assms(3) by blast+
  have ne: "jw_map w \<noteq> []" using g(4,5) by (auto simp: word_less_nat_alt)
  then have "jw_map w ! 0 < jw_blocks_count w" using g(6) by simp
  then have r0: "unat (jw_map w ! 0) * unat (jw_block_size w) + unat (jw_block_size w) \<le> length (contents s)" using g(3) block_in_range by blast
  obtain j where "jsb_parse (block_of (unat (jw_block_size w)) (jw_map w ! 0) (contents s)) = Ok j" "j_start j = 0" using assms(2) by (auto simp: clean_at_def)
  from recover_clean [OF assms(4-6) ne g(1,2) r0 this assms(7), of crc] show thesis using that by blast
qed

lemma recover_crashed:
  assumes "commit_ready w tx img" "commit_replayable w tx img" "\<forall>x \<in> set (tx_writes tx). length (jb_bytes x) = unat (jw_block_size w)"
    "commit_for crc tx (jw_jsb w) = Ok blocks" "length blocks \<le> max_blocks_per_transaction w" "tx_sequence tx = j_sequence (jw_jsb w)"
    "tx_block_size tx = jw_block_size w" "crashed img [] (tr_events (snd (snd (commit_fenced crc traced_ops tx blocks w (recording img))))) (contents s)"
    "inv s" "dv_writable dv s" "same_volume sb w"
    and jr: "\<And>s'. inv s' \<Longrightarrow> half_written (unat (jw_block_size w)) (set (jw_map w) \<union> {sb_block w}) (final_writes tx) img (contents s') \<Longrightarrow> journal_reads jf ino (jw_map w) s'"
  shows "\<exists>n s'. replay_if_dirty crc dv jf sb s = (Ok n, s') \<and>
      (agrees (unat (jw_block_size w)) (set (jw_map w) \<union> {sb_block w}) img (contents s') \<or>
       agrees (unat (jw_block_size w)) (set (jw_map w) \<union> {sb_block w}) (block_writes (unat (jw_block_size w)) (final_writes tx) img) (contents s'))" (is ?rec)
    "agrees (unat (jw_block_size w)) (set (jw_map w) \<union> {sb_block w}) (block_writes (unat (jw_block_size w)) (final_writes tx) img)
        (tr_image (snd (snd (commit_fenced crc traced_ops tx blocks w (recording img)))))" (is ?done)
proof -
  let ?bs = "unat (jw_block_size w)" and ?S = "set (jw_map w) \<union> {sb_block w}" and ?F = "final_writes tx"
  note cr = assms(1) [unfolded commit_ready_def]
  have sz: "?bs = 1024 \<or> 2048 \<le> ?bs" and n63: "length img < 2 ^ 63" and bc: "unat (jw_blocks_count w) * ?bs \<le> length img" using cr by blast+
  have wr: "\<forall>x \<in> set (tx_writes tx). jb_fs_block x < jw_blocks_count w \<and> fits_tag (jw_jsb w) (jb_fs_block x)" using cr by blast
  have "tx_fits (jw_jsb w) tx" using wr assms(2,6) by (simp add: tx_fits_def commit_replayable_def)
  moreover have "32 \<le> unat (tx_block_size tx)" using sz assms(7) by auto
  ultimately have bl: "\<forall>b \<in> set blocks. length b = ?bs" using commit_block_lengths(2) [OF assms(4)] assms(3,7) by simp
  obtain x1 J1 J2 sbx j1 j2 w' t' where t: "commit_fenced crc traced_ops tx blocks w (recording img) = (Ok (), (w', t'))"
    "tr_events t' = write_events (block_events (jw_block_size w) (zip (drop 1 (jw_map w)) blocks) @ [(1024, x1)]) @ EFlush #
       write_events (block_events (jw_block_size w) [(jw_map w ! 0, J1)]) @ EFlush #
       write_events (block_events (jw_block_size w) ?F) @ EFlush # write_events (block_events (jw_block_size w) [(jw_map w ! 0, J2)] @ sbx) @ EFlush # []"
    "tr_image t' = apply_all (block_events (jw_block_size w) [(jw_map w ! 0, J2)] @ sbx) (apply_all (block_events (jw_block_size w) ?F)
       (apply_all (block_events (jw_block_size w) [(jw_map w ! 0, J1)]) (apply_all (block_events (jw_block_size w) (zip (drop 1 (jw_map w)) blocks) @ [(1024, x1)]) img)))"
    "length x1 = 1024" "sbx = [] \<or> (\<exists>x2. sbx = [(1024, x2)] \<and> length x2 = 1024)"
    "length J1 = ?bs" "jsb_parse J1 = Ok j1" "jsb_same j1 ((jw_jsb w)\<lparr>j_start := 1\<rparr>)"
    "length J2 = ?bs" "jsb_parse J2 = Ok j2" "jsb_same j2 ((jw_jsb w)\<lparr>j_start := 0, j_sequence := j_sequence (jw_jsb w) + 1\<rparr>)"
    unfolding final_writes_def by (rule commit_fenced_trace [OF assms(1,3) bl assms(5), of crc])
  have st2: "j_start j2 = 0" using t(11) by (cases j2, cases "jw_jsb w") (simp add: jsb_same_def)
  have crs: "crashed img [] (tr_events t') (contents s)" using assms(8) t(1) by simp
  note cs = crash_states [OF assms(1,3) bl assms(5) t(4,5,6,9,10) st2 crs [unfolded t(2)]]
  show ?done using cs(2) t(1,3) by simp
  have wF: "whole_blocks ?bs (length img) ?F" using wr assms(3) bc block_in_range unfolding whole_blocks_def final_writes_def by fastforce
  have len: "length (contents s) = length img" using cs(1) by blast
  have tc: "half_written ?bs ?S ?F img (contents s)" by (rule commit_half_written [OF assms(1,3) bl assms(5) t(4,5,6,9) crs [unfolded t(2)]])
  have tn: "half_written ?bs ?S ?F img (block_writes ?bs ?F (contents s))"
    using half_written_apply_all [OF tc, of "block_events (jw_block_size w) ?F"] block_events_block_event [OF wF n63] apply_all_blocks [OF wF n63] by (simp add: block_events_def)
  note js = jr [OF assms(9) tc]
  consider (old) "clean_at w (contents s)" "agrees ?bs ?S img (contents s)"
    | (dirty) "journal_holds w blocks img J1 (contents s)" "agrees ?bs (?S \<union> fst ` set ?F) img (contents s)"
    | (new) "clean_at w (contents s)" "agrees ?bs ?S (block_writes ?bs ?F img) (contents s)" using cs(1) by blast
  then show ?rec
  proof cases
    case old
    obtain s' where "replay_if_dirty crc dv jf sb s = (Ok 0, s')" "agrees ?bs {sb_block w} (contents s) (contents s')"
      by (rule recover_clean_at [OF assms(1) old(1) len assms(9-11) js])
    moreover have "agrees ?bs ?S img (contents s')" using agrees_trans [OF old(2) calculation(2)] by simp
    ultimately show ?thesis by blast
  next
    case dirty
    have "log_ready crc w tx blocks j1 (contents s)" by (rule log_ready_intro [OF assms(1-6) dirty(1) t(7,8)])
    then obtain n s' where r: "replay_if_dirty crc dv jf sb s = (Ok n, s')" "agrees ?bs ?S (block_writes ?bs ?F (contents s)) (contents s')"
      using recover_dirty [OF _ assms(9-11) jr] tc tn by metis
    have "agrees ?bs ?S (block_writes ?bs ?F img) (block_writes ?bs ?F (contents s))" by (rule agrees_both_writes [OF dirty(2) wF]) simp
    from agrees_trans [OF this r(2)] show ?thesis using r(1) by simp
  next
    case new
    obtain s' where "replay_if_dirty crc dv jf sb s = (Ok 0, s')" "agrees ?bs {sb_block w} (contents s) (contents s')"
      by (rule recover_clean_at [OF assms(1) new(1) len assms(9-11) js])
    moreover have "agrees ?bs ?S (block_writes ?bs ?F img) (contents s')" using agrees_trans [OF new(2) calculation(2)] by simp
    ultimately show ?thesis by blast
  qed
qed

end

lemma half_written_flagged:
  assumes "list_all2 (flagged sbb) ws ws'" "half_written bs (S \<union> {sbb}) (map (\<lambda>x. (jb_fs_block x, jb_bytes x)) ws') img i"
  shows "half_written bs (S \<union> {sbb}) (map (\<lambda>x. (jb_fs_block x, jb_bytes x)) ws) img i"
proof -
  have "(b, x) \<in> set (map (\<lambda>x. (jb_fs_block x, jb_bytes x)) ws)" if "b \<noteq> sbb" "(b, x) \<in> set (map (\<lambda>x. (jb_fs_block x, jb_bytes x)) ws')" for b x
    using assms(1) that by (induction rule: list_all2_induct) (auto simp: flagged_def)
  then show ?thesis using assms(2) unfolding half_written_def by blast
qed

text \<open>The same for any journal file that recovery reads alike on every image between the old and the new one.\<close>

lemma commit_crash_recovers:
  assumes "commit_ready w tx img" "commit_replayable w tx img"
    "crashed img [] (tr_events (snd (snd (jw_commit crc traced_ops tx w (recording img))))) img'"
    "full_device dv ok contents" "ok s" "dv_writable dv s" "contents s = img'" "same_volume sb w"
    "\<And>s'. ok s' \<Longrightarrow> half_written (unat (jw_block_size w)) (set (jw_map w) \<union> {sb_block w}) (final_writes tx) img (contents s') \<Longrightarrow> journal_reads jf ino (jw_map w) s'"
  shows "(\<exists>n s'. replay_if_dirty crc dv jf sb s = (Ok n, s') \<and>
      (agrees (unat (jw_block_size w)) (set (jw_map w) \<union> {sb_block w}) img (contents s') \<or>
       agrees (unat (jw_block_size w)) (set (jw_map w) \<union> {sb_block w}) (block_writes (unat (jw_block_size w)) (final_writes tx) img) (contents s'))) \<and>
    (fst (jw_commit crc traced_ops tx w (recording img)) = Ok () \<longrightarrow>
      agrees (unat (jw_block_size w)) (set (jw_map w) \<union> {sb_block w}) (block_writes (unat (jw_block_size w)) (final_writes tx) img)
        (tr_image (snd (snd (jw_commit crc traced_ops tx w (recording img))))))"
proof -
  let ?bs = "unat (jw_block_size w)" and ?S = "set (jw_map w) \<union> {sb_block w}"
  show ?thesis
  proof (cases rule: commit_cases [of crc traced_ops tx w "recording img"])
    case (refused r)
    then have "contents s = img" using assms(3,7) by (auto elim!: crashed_NilE simp: apply_all_def)
    moreover have "clean_at w img" by (rule commit_ready_clean [OF assms(1)])
    ultimately obtain s' where "replay_if_dirty crc dv jf sb s = (Ok 0, s')" "agrees ?bs {sb_block w} img (contents s')"
      using full_device.recover_clean_at [OF assms(4,1) _ _ assms(5,6,8) assms(9) [OF assms(5)]] by (metis half_written_refl)
    then show ?thesis using agrees_mono [of ?bs "{sb_block w}" img "contents s'" ?S] refused by auto
  next
    case (fences ws blocks)
    let ?tx = "tx\<lparr>tx_writes := ws\<rparr>"
    have fl: "list_all2 (flagged (sb_block w)) (tx_writes tx) ws" by (rule flag_superblocks_flagged [OF fences(1)])
    note fr = commit_ready_flagged [OF fl]
    have "\<forall>x \<in> set (tx_writes tx). jb_fs_block x < jw_blocks_count w" "unat (jw_blocks_count w) * ?bs \<le> length img" using assms(1) unfolding commit_ready_def by blast+
    then have "\<forall>x \<in> set (tx_writes tx). length (jb_bytes x) = ?bs \<and> unat (jb_fs_block x) * ?bs + ?bs \<le> length img" using fences(7) block_in_range by blast
    from agrees_flagged [OF fl this agrees_refl] have new: "agrees ?bs {sb_block w} (block_writes ?bs (final_writes tx) img) (block_writes ?bs (final_writes ?tx) img)"
      by (simp add: final_writes_def)
    have S: "agrees ?bs ?S (block_writes ?bs (final_writes tx) img) c" if "agrees ?bs ?S (block_writes ?bs (final_writes ?tx) img) c" for c
      using agrees_trans [OF new that] by simp
    have crs: "crashed img [] (tr_events (snd (snd (commit_fenced crc traced_ops ?tx blocks w (recording img))))) (contents s)"
      using assms(3,7) fences(8) by simp
    have "journal_reads jf ino (jw_map w) s'" if "ok s'" "half_written ?bs ?S (final_writes ?tx) img (contents s')" for s'
      using assms(9) [OF that(1)] half_written_flagged [OF fl, of ?bs "set (jw_map w)" img "contents s'"] that(2) by (simp add: final_writes_def)
    note rc = full_device.recover_crashed [OF assms(4) fr(1) [OF assms(1)] fr(2) [OF assms(2)] _ fences(2,4) _ _ crs assms(5,6,8) this]
    have "\<forall>x \<in> set (tx_writes ?tx). length (jb_bytes x) = ?bs" "tx_sequence ?tx = j_sequence (jw_jsb w)" "tx_block_size ?tx = jw_block_size w"
      using fr(3) [OF fences(7)] fences(5,6) by simp_all
    from rc [OF this] have r: "\<exists>n s'. replay_if_dirty crc dv jf sb s = (Ok n, s') \<and>
        (agrees ?bs ?S img (contents s') \<or> agrees ?bs ?S (block_writes ?bs (final_writes ?tx) img) (contents s'))"
      "agrees ?bs ?S (block_writes ?bs (final_writes ?tx) img) (tr_image (snd (snd (commit_fenced crc traced_ops ?tx blocks w (recording img)))))" by blast+
    show ?thesis unfolding fences(8) using r(1) S S [OF r(2)] by metis
  qed
qed

section \<open>Properties\<close>

text \<open>
  C1. The journal's crash guarantee. A transaction is committed through the four fences of \<open>JournalWriter::commit\<close>
  on a device that records its writes and flushes, and the machine stops anywhere: what is before the
  last flush is on disk, and of the writes after it any subset, in their order. Opening the image that is left, on any device
  that keeps its contract, recovery succeeds and gives the image before the transaction or
  the image with all of its writes, on every block but the journal's own and the superblock's (whose recovery flag
  moves); and a commit that reports success has all its writes in place already. A commit that
  refuses counts as well: it writes nothing.
\<close>

theorem commit_crash_atomic:
  assumes "commit_ready w tx img" "commit_replayable w tx img"
    "crashed img [] (tr_events (snd (snd (jw_commit crc traced_ops tx w (recording img))))) img'"
    "full_device dv ok contents" "ok s" "dv_writable dv s" "contents s = img'" "same_volume sb w"
  shows "(\<exists>n s'. replay_if_dirty crc dv (journal_at ino (jw_map w)) sb s = (Ok n, s') \<and>
      (agrees (unat (jw_block_size w)) (set (jw_map w) \<union> {sb_block w}) img (contents s') \<or>
       agrees (unat (jw_block_size w)) (set (jw_map w) \<union> {sb_block w}) (block_writes (unat (jw_block_size w)) (final_writes tx) img) (contents s'))) \<and>
    (fst (jw_commit crc traced_ops tx w (recording img)) = Ok () \<longrightarrow>
      agrees (unat (jw_block_size w)) (set (jw_map w) \<union> {sb_block w}) (block_writes (unat (jw_block_size w)) (final_writes tx) img)
        (tr_image (snd (snd (jw_commit crc traced_ops tx w (recording img))))))"
  using commit_crash_recovers [OF assms journal_at_reads] .

text \<open>A volume of eight 1 KiB blocks whose journal is blocks 2 to 6, and a transaction that writes block 7.\<close>

definition example_journal :: bytes where
  "example_journal = put 0x18 (u32_to_be 7) (put 0x14 (u32_to_be 1) (put 0x10 (u32_to_be 5) (put 0xC (u32_to_be 1024)
     (put 4 (u32_to_be 4) (put 0 (u32_to_be JBD2_MAGIC_NUMBER) (replicate 1024 0))))))"

definition example_image :: bytes where
  "example_image = replicate 2048 0 @ example_journal @ replicate 5120 0"

definition example_writer :: journal_writer where
  "example_writer = \<lparr>jw_healthy = True, jw_hold = False, jw_map = [2, 3, 4, 5, 6], jw_block_size = 1024, jw_jsb = jsb_fields example_journal, jw_blocks_count = 8\<rparr>"

definition example_commit :: transaction where
  "example_commit = (jw_begin example_writer)\<lparr>tx_writes := [\<lparr>jb_fs_block = 7, jb_bytes = replicate 1024 9\<rparr>]\<rparr>"

definition example_volume :: superblock where
  "example_volume = example_sb\<lparr>blocks_count := 8, journal_inode := 8\<rparr>"

lemma get_be_zeros [simp]: "get_be32 off (replicate n 0) = 0"
proof -
  have "le_val (replicate k 0) = 0" for k by (induction k) auto
  then show ?thesis by (simp add: get_field_defs slice_def u32_from_be_def u32_from_le_def)
qed

lemma example_journal_fields:
  "get_be32 0 example_journal = JBD2_MAGIC_NUMBER" "get_be32 4 example_journal = 4" "get_be32 0xC example_journal = 1024" "get_be32 0x10 example_journal = 5"
  "get_be32 0x14 example_journal = 1" "get_be32 0x18 example_journal = 7" "get_be32 0x1C example_journal = 0" "length example_journal = 1024"
  by (simp_all add: example_journal_def codec_simps)

lemma example_blocks:
  "length example_image = 8192" "block_of 1024 2 example_image = example_journal"
  "b \<in> {3, 4, 5, 6} \<Longrightarrow> block_of 1024 b example_image = replicate 1024 0"
  by (auto simp: example_image_def block_of_def slice_def example_journal_fields(8))

lemma example_ready: "commit_ready example_writer example_commit example_image" "commit_replayable example_writer example_commit example_image"
proof -
  have acc: "jsb_accepts example_journal" by (simp add: jsb_accepts_def example_journal_fields JBD2_SUPERBLOCK_V1_def JBD2_SUPERBLOCK_V2_def)
  have fields: "j_block_size (jsb_fields example_journal) = 1024" "j_first (jsb_fields example_journal) = 1" "j_start (jsb_fields example_journal) = 0"
    "j_max_len (jsb_fields example_journal) = 5" "j_sequence (jsb_fields example_journal) = 7"
    by (simp_all add: jsb_fields_def example_journal_fields Let_def)
  have w: "jw_block_size example_writer = 1024" "jw_map example_writer = [2, 3, 4, 5, 6]" "jw_jsb example_writer = jsb_fields example_journal" "jw_blocks_count example_writer = 8"
    "sb_block example_writer = 1" by (simp_all add: example_writer_def sb_block_def)
  have tx: "tx_writes example_commit = [\<lparr>jb_fs_block = 7, jb_bytes = replicate 1024 9\<rparr>]" "tx_revokes example_commit = []" "tx_sequence example_commit = 7"
    by (simp_all add: example_commit_def jw_begin_def tx_begin_def w fields)
  have "jsb_parse (block_of 1024 2 example_image) = Ok (jsb_fields example_journal)" using acc by (simp add: example_blocks jsb_parse_iff)
  then show "commit_ready example_writer example_commit example_image"
    unfolding commit_ready_def w tx fields by (simp add: jsb_same_def fits_tag_def example_blocks(1))
  have z: "try_parse_header (replicate 1024 0) = None" by (simp add: try_parse_header_def JBD2_MAGIC_NUMBER_def)
  have "\<forall>h. try_parse_header example_journal = Some h \<longrightarrow> h_sequence h \<noteq> 8"
  proof -
    have "get_be32 8 example_journal = 0" by (simp add: example_journal_def codec_simps)
    then show ?thesis by (auto simp: try_parse_header_def split: if_splits)
  qed
  then have "\<forall>p \<in> set [2, 3, 4, 5, 6 :: u64]. \<forall>h. try_parse_header (block_of 1024 p example_image) = Some h \<longrightarrow> h_sequence h \<noteq> 7 + 1"
    by (simp add: example_blocks z)
  then show "commit_replayable example_writer example_commit example_image"
    unfolding commit_replayable_def w tx all_set_conv_all_nth by simp
qed

theorem commit_crash_atomic_witness:
  "\<exists>n s'. replay_if_dirty (\<lambda>_ _. 0) file_ops (journal_at () [2, 3, 4, 5, 6]) example_volume \<lparr>fd_bytes = example_image, fd_size = 8192, fd_writable = True\<rparr> = (Ok n, s') \<and>
     (agrees 1024 ({2, 3, 4, 5, 6} \<union> {1}) example_image (fd_bytes s') \<or>
      agrees 1024 ({2, 3, 4, 5, 6} \<union> {1}) (block_writes 1024 [(7, replicate 1024 9)] example_image) (fd_bytes s'))"
proof -
  let ?d = "\<lparr>fd_bytes = example_image, fd_size = 8192, fd_writable = True\<rparr>"
  have cr: "crashed example_image [] evs example_image" for evs using crash_now [of "[]" "[]" example_image evs] by (simp add: apply_all_def)
  have d: "sized_file ?d" "dv_writable file_ops ?d" "fd_bytes ?d = example_image"
    by (simp_all add: sized_file_def file_inv_def file_ops_def example_blocks(1))
  have sb: "block_size example_volume = block_size example_sb" by (simp add: example_volume_def block_size_def)
  have v: "same_volume example_volume example_writer"
    by (simp add: same_volume_def sb) (simp add: example_volume_def example_writer_def write_breaking_incompat_def)
  have e: "unat (jw_block_size example_writer) = 1024" "jw_map example_writer = [2, 3, 4, 5, 6]" "sb_block example_writer = 1"
    "final_writes example_commit = [(7, replicate 1024 9)]"
    by (simp_all add: example_writer_def sb_block_def final_writes_def example_commit_def)
  from commit_crash_atomic [OF example_ready cr file_full.full_device_axioms d v, of "\<lambda>_ _. 0" "()"] show ?thesis
    unfolding e by simp
qed

end
