(* ===== verification/Extent.thy ===== *)
theory Extent
  imports Checksum
begin

unbundle bit_operations_syntax

text \<open>
  Extent trees: the read side (\<open>src/extent.rs\<close>). A node is a 12-byte header followed by
  12-byte entries; the inode's 60-byte \<open>i_block\<close> holds the root and index entries name
  the blocks that hold further nodes. The device is the parameter \<open>rd\<close>: \<open>rd off n\<close> is
  what \<open>BlockDevice::read_at\<close> gives for \<open>n\<close> bytes at byte offset \<open>off\<close>.
\<close>

type_synonym reader = "u64 \<Rightarrow> nat \<Rightarrow> bytes result"

definition EXT4_EXT_MAGIC :: u16 where "EXT4_EXT_MAGIC = 0xF30A"
definition EXT_INIT_MAX_LEN :: u16 where "EXT_INIT_MAX_LEN = 32768"
definition EXT4_EXT_NODE_SIZE :: nat where [simp]: "EXT4_EXT_NODE_SIZE = 12"
definition EXT4_EXT_MAX_DEPTH :: u16 where "EXT4_EXT_MAX_DEPTH = 5"

section \<open>Node records\<close>

record extent_header =
  eh_magic :: u16
  eh_entries :: u16
  eh_max :: u16
  eh_depth :: u16
  eh_generation :: u32

record extent =
  logical_block :: u32
  len :: u16
  physical_block :: u64
  uninitialized :: bool

record extent_idx =
  ei_block :: u32
  leaf_block :: u64

definition ExtentHeader_parse :: "bytes \<Rightarrow> extent_header result" where
  "ExtentHeader_parse raw =
     (if length raw < EXT4_EXT_NODE_SIZE then Err (CorruptExtentTree ''header buffer too small'')
      else let magic = get_le16 0x00 raw; entries = get_le16 0x02 raw; mx = get_le16 0x04 raw;
               depth = get_le16 0x06 raw; generation = get_le32 0x08 raw
           in if magic \<noteq> EXT4_EXT_MAGIC
              then Err (CorruptExtentTree ''bad extent header magic'')
              else if entries > mx then Err (CorruptExtentTree ''entries > max'')
              else Ok \<lparr>eh_magic = magic, eh_entries = entries, eh_max = mx, eh_depth = depth,
                       eh_generation = generation\<rparr>)"

definition is_leaf :: "extent_header \<Rightarrow> bool" where
  "is_leaf h \<longleftrightarrow> eh_depth h = 0"

definition Extent_parse :: "bytes \<Rightarrow> extent result" where
  "Extent_parse raw =
     (if length raw < EXT4_EXT_NODE_SIZE
      then Err (CorruptExtentTree ''leaf extent buffer too small'')
      else let lb = get_le32 0x00 raw; ee_len = get_le16 0x04 raw;
               start_hi = get_le16 0x06 raw; start_lo = get_le32 0x08 raw;
               (l, u) = (if ee_len > EXT_INIT_MAX_LEN then (ee_len - EXT_INIT_MAX_LEN, True)
                         else (ee_len, False))
           in Ok \<lparr>logical_block = lb, len = l,
                  physical_block = push_bit 32 (ucast start_hi) OR ucast start_lo,
                  uninitialized = u\<rparr>)"

definition ExtentIdx_parse :: "bytes \<Rightarrow> extent_idx result" where
  "ExtentIdx_parse raw =
     (if length raw < EXT4_EXT_NODE_SIZE
      then Err (CorruptExtentTree ''index entry buffer too small'')
      else let lb = get_le32 0x00 raw; leaf_lo = get_le32 0x04 raw; leaf_hi = get_le16 0x08 raw
           in Ok \<lparr>ei_block = lb, leaf_block = push_bit 32 (ucast leaf_hi) OR ucast leaf_lo\<rparr>)"

text \<open>First block past the extent; the sum of a widened \<open>u32\<close> and \<open>u16\<close> does not wrap.\<close>

definition ext_start :: "extent \<Rightarrow> nat" where "ext_start e = unat (logical_block e)"
definition ext_end :: "extent \<Rightarrow> nat" where "ext_end e = unat (logical_block e) + unat (len e)"

definition contains :: "extent \<Rightarrow> u64 \<Rightarrow> bool" where
  "contains e logical \<longleftrightarrow> ext_start e \<le> unat logical \<and> unat logical < ext_end e"

definition map_block :: "extent \<Rightarrow> u64 \<Rightarrow> u64" where
  "map_block e logical = physical_block e + (logical - ucast (logical_block e))"

section \<open>Reading the entries of a node\<close>

text \<open>
  The entry loops of the readers run over \<open>0..header.entries\<close> and check each entry's
  range before parsing it. \<open>parse_entries\<close> is that loop for a given entry parser; \<open>i\<close> is
  the loop counter and \<open>n\<close> the entries still to read.
\<close>

definition entry_off :: "nat \<Rightarrow> nat" where
  "entry_off i = EXT4_EXT_NODE_SIZE * (1 + i)"

fun parse_entries ::
    "(bytes \<Rightarrow> 'e result) \<Rightarrow> string \<Rightarrow> bytes \<Rightarrow> nat \<Rightarrow> nat \<Rightarrow> 'e list result" where
  "parse_entries p msg node i 0 = Ok []"
| "parse_entries p msg node i (Suc n) =
     (let off = entry_off i in
      if off + EXT4_EXT_NODE_SIZE > length node then Err (CorruptExtentTree msg)
      else and_then (and_then (get_slice off (off + EXT4_EXT_NODE_SIZE) node) p) (\<lambda>e.
             and_then (parse_entries p msg node (Suc i) n) (\<lambda>es. Ok (e # es))))"

text \<open>
  The leaf scan of \<open>lookup_verified\<close>: it stops at the first extent that contains the
  block and at the first that starts past it.
\<close>

fun leaf_scan :: "bytes \<Rightarrow> u64 \<Rightarrow> nat \<Rightarrow> nat \<Rightarrow> extent option result" where
  "leaf_scan node logical i 0 = Ok None"
| "leaf_scan node logical i (Suc n) =
     (let off = entry_off i in
      if off + EXT4_EXT_NODE_SIZE > length node
      then Err (CorruptExtentTree ''leaf entry out of range'')
      else and_then (and_then (get_slice off (off + EXT4_EXT_NODE_SIZE) node) Extent_parse) (\<lambda>e.
             if contains e logical then Ok (Some e)
             else if ext_start e > unat logical then Ok None
             else leaf_scan node logical (Suc i) n))"

text \<open>
  The index scan: the last entry at or below the block, remembering the first entry for a
  block below all of them. The pair is \<open>(chosen_idx, first_idx)\<close>.
\<close>

fun index_scan :: "bytes \<Rightarrow> u64 \<Rightarrow> nat \<Rightarrow> nat \<Rightarrow> extent_idx option \<times> extent_idx option
    \<Rightarrow> (extent_idx option \<times> extent_idx option) result" where
  "index_scan node logical i 0 acc = Ok acc"
| "index_scan node logical i (Suc n) (chosen, first) =
     (let off = entry_off i in
      if off + EXT4_EXT_NODE_SIZE > length node
      then Err (CorruptExtentTree ''index entry out of range'')
      else and_then (and_then (get_slice off (off + EXT4_EXT_NODE_SIZE) node) ExtentIdx_parse) (\<lambda>idx.
             let first = (if first = None then Some idx else first) in
             if unat (ei_block idx) \<le> unat logical
             then index_scan node logical (Suc i) n (Some idx, first)
             else Ok (chosen, first)))"

section \<open>Lookup\<close>

record verify_ctx =
  ctx_ino :: u32
  ctx_generation :: u32
  ctx_csum :: checksummer

text \<open>
  The loop of \<open>lookup_verified\<close>. The last argument is \<open>descents_remaining\<close>: the loop body
  either returns or descends one level, so the recursion is on that counter.
\<close>

definition child_offset :: "u64 \<Rightarrow> u32 \<Rightarrow> u64 option" where
  "child_offset block block_size = checked_mul block (ucast block_size)"

definition read_child ::
    "crc_fn \<Rightarrow> reader \<Rightarrow> u32 \<Rightarrow> verify_ctx option \<Rightarrow> string \<Rightarrow> u64 \<Rightarrow> bytes result" where
  "read_child crc rd block_size ctx msg block =
     and_then (ok_or (child_offset block block_size) (CorruptExtentTree msg)) (\<lambda>off.
       and_then (rd off (unat block_size)) (\<lambda>buf.
         case ctx of
           None \<Rightarrow> Ok buf
         | Some c \<Rightarrow>
             if enabled (ctx_csum c) \<and>
                \<not> verify_extent_tail crc (ctx_csum c) (ctx_ino c) (ctx_generation c) buf
             then Err (BadChecksum ''extent block'')
             else Ok buf))"

fun lookup_loop :: "crc_fn \<Rightarrow> reader \<Rightarrow> u32 \<Rightarrow> u64 \<Rightarrow> verify_ctx option \<Rightarrow> bytes
    \<Rightarrow> extent_header \<Rightarrow> nat \<Rightarrow> extent option result" where
  "lookup_loop crc rd block_size logical ctx cursor header descents =
     (if is_leaf header then leaf_scan cursor logical 0 (unat (eh_entries header))
      else and_then (index_scan cursor logical 0 (unat (eh_entries header)) (None, None))
        (\<lambda>(chosen, first).
          and_then (ok_or (case chosen of Some c \<Rightarrow> Some c | None \<Rightarrow> first)
                      (CorruptExtentTree ''index node holds no entries'')) (\<lambda>idx.
            and_then (read_child crc rd block_size ctx
                        ''extent index: child block offset overflow'' (leaf_block idx)) (\<lambda>buf.
              and_then (ExtentHeader_parse buf) (\<lambda>header'.
                case descents of
                  0 \<Rightarrow> Err (CorruptExtentTree ''extent tree descended past claimed depth'')
                | Suc d \<Rightarrow> lookup_loop crc rd block_size logical ctx buf header' d)))))"

definition lookup_verified :: "crc_fn \<Rightarrow> bytes \<Rightarrow> reader \<Rightarrow> u32 \<Rightarrow> u64 \<Rightarrow> verify_ctx option
    \<Rightarrow> extent option result" where
  "lookup_verified crc root rd block_size logical ctx =
     and_then (ExtentHeader_parse root) (\<lambda>header.
       if eh_depth header > EXT4_EXT_MAX_DEPTH
       then Err (CorruptExtentTree ''extent tree depth exceeds spec maximum'')
       else lookup_loop crc rd block_size logical ctx root header (unat (eh_depth header)))"

definition lookup :: "crc_fn \<Rightarrow> bytes \<Rightarrow> reader \<Rightarrow> u32 \<Rightarrow> u64 \<Rightarrow> extent option result" where
  "lookup crc root rd block_size logical = lookup_verified crc root rd block_size logical None"

definition map_logical_verified :: "crc_fn \<Rightarrow> bytes \<Rightarrow> reader \<Rightarrow> u32 \<Rightarrow> u64 \<Rightarrow> verify_ctx option
    \<Rightarrow> u64 option result" where
  "map_logical_verified crc root rd block_size logical ctx =
     and_then (lookup_verified crc root rd block_size logical ctx) (\<lambda>r.
       case r of
         Some e \<Rightarrow> Ok (if \<not> uninitialized e then Some (map_block e logical) else None)
       | None \<Rightarrow> Ok None)"

definition map_logical :: "crc_fn \<Rightarrow> bytes \<Rightarrow> reader \<Rightarrow> u32 \<Rightarrow> u64 \<Rightarrow> u64 option result" where
  "map_logical crc root rd block_size logical =
     map_logical_verified crc root rd block_size logical None"

section \<open>Walking the whole tree\<close>

text \<open>
  \<open>walk\<close> and its loop over the index entries. The result is the pair of vectors the code
  pushes to: the leaf extents and the node blocks, in visiting order. The counter
  \<open>descents_remaining\<close> bounds the recursion whatever the image says.
\<close>

fun walk :: "reader \<Rightarrow> u32 \<Rightarrow> nat \<Rightarrow> bytes \<Rightarrow> extent_header \<Rightarrow> (extent list \<times> u64 list) result"
and walk_children :: "reader \<Rightarrow> u32 \<Rightarrow> nat \<Rightarrow> bytes \<Rightarrow> nat \<Rightarrow> nat
    \<Rightarrow> (extent list \<times> u64 list) result" where
  "walk rd block_size descents node header =
     (if is_leaf header
      then and_then (parse_entries Extent_parse ''leaf entry out of range'' node 0
                       (unat (eh_entries header))) (\<lambda>es. Ok (es, []))
      else case descents of
        0 \<Rightarrow> Err (CorruptExtentTree ''extent tree descended past claimed depth'')
      | Suc d \<Rightarrow> walk_children rd block_size d node 0 (unat (eh_entries header)))"
| "walk_children rd block_size d node i 0 = Ok ([], [])"
| "walk_children rd block_size d node i (Suc n) =
     (let off = entry_off i in
      if off + EXT4_EXT_NODE_SIZE > length node
      then Err (CorruptExtentTree ''index entry out of range'')
      else and_then (and_then (get_slice off (off + EXT4_EXT_NODE_SIZE) node) ExtentIdx_parse) (\<lambda>idx.
        and_then (ok_or (child_offset (leaf_block idx) block_size)
                    (CorruptExtentTree ''extent walk: child block offset overflow'')) (\<lambda>coff.
          and_then (rd coff (unat block_size)) (\<lambda>buf.
            and_then (ExtentHeader_parse buf) (\<lambda>h.
              and_then (walk rd block_size d buf h) (\<lambda>(es, ns).
                and_then (walk_children rd block_size d node (Suc i) n) (\<lambda>(es', ns').
                  Ok (es @ es', leaf_block idx # ns @ ns'))))))))"

definition collect_all_with_nodes ::
    "bytes \<Rightarrow> reader \<Rightarrow> u32 \<Rightarrow> (extent list \<times> u64 list) result" where
  "collect_all_with_nodes root rd block_size =
     and_then (ExtentHeader_parse root) (\<lambda>header.
       if eh_depth header > EXT4_EXT_MAX_DEPTH
       then Err (CorruptExtentTree ''extent tree depth exceeds spec maximum'')
       else walk rd block_size (unat (eh_depth header)) root header)"

definition collect_all :: "bytes \<Rightarrow> reader \<Rightarrow> u32 \<Rightarrow> extent list result" where
  "collect_all root rd block_size = map_ok fst (collect_all_with_nodes root rd block_size)"

declare lookup_loop.simps [simp del] walk.simps [simp del]

section \<open>What a list of extents maps\<close>

text \<open>
  The specification the tree implements: a finite map from logical blocks to a physical
  block and its initialization state, given by the first extent that holds the block.
  A leaf is well formed when its extents are sorted and disjoint.
\<close>

definition find_extent :: "extent list \<Rightarrow> u64 \<Rightarrow> extent option" where
  "find_extent es logical = find (\<lambda>e. contains e logical) es"

definition extents_in :: "nat \<Rightarrow> nat \<Rightarrow> extent list \<Rightarrow> bool" where
  "extents_in lo hi es \<longleftrightarrow> sorted_wrt (\<lambda>a b. ext_end a \<le> ext_start b) es \<and>
     (\<forall>e \<in> set es. lo \<le> ext_start e \<and> ext_end e \<le> hi)"

lemma ext_start_le_end [simp]: "ext_start e \<le> ext_end e"
  by (simp add: ext_start_def ext_end_def)

lemma contains_iff: "contains e l \<longleftrightarrow> ext_start e \<le> unat l \<and> unat l < ext_end e"
  by (simp add: contains_def)

lemma find_extent_None:
  "find_extent es l = None \<longleftrightarrow> (\<forall>e \<in> set es. \<not> contains e l)"
  by (auto simp: find_extent_def find_None_iff)

lemma find_extent_append:
  "find_extent (es @ fs) l = (case find_extent es l of None \<Rightarrow> find_extent fs l | Some e \<Rightarrow> Some e)"
  by (induction es) (simp_all add: find_extent_def)

lemma find_extent_simps [simp]:
  "find_extent [] l = None"
  "find_extent (e # es) l = (if contains e l then Some e else find_extent es l)"
  by (simp_all add: find_extent_def)

lemma extents_in_Nil [simp]: "extents_in lo hi []"
  by (simp add: extents_in_def)

lemma extents_in_append:
  "extents_in lo mid es \<Longrightarrow> extents_in mid hi fs \<Longrightarrow> lo \<le> mid \<Longrightarrow> mid \<le> hi \<Longrightarrow> extents_in lo hi (es @ fs)"
  by (fastforce simp: extents_in_def sorted_wrt_append)

lemma extents_in_mono:
  "extents_in lo hi es \<Longrightarrow> lo' \<le> lo \<Longrightarrow> hi \<le> hi' \<Longrightarrow> extents_in lo' hi' es"
  by (fastforce simp: extents_in_def)

lemma find_extent_outside:
  "extents_in lo hi es \<Longrightarrow> unat l < lo \<or> hi \<le> unat l \<Longrightarrow> find_extent es l = None"
  by (fastforce simp: find_extent_None extents_in_def contains_iff)

section \<open>Entry loops and lists\<close>

lemma length_parse_entries: "parse_entries p msg node i n = Ok es \<Longrightarrow> length es = n"
  by (induction n arbitrary: i es) (auto simp: Let_def outcome_simps split: if_splits)

lemma Extent_parse_Ok: "12 \<le> length raw \<Longrightarrow> \<exists>e. Extent_parse raw = Ok e"
  by (simp add: Extent_parse_def Let_def split: prod.split)

lemma ExtentIdx_parse_Ok: "12 \<le> length raw \<Longrightarrow> \<exists>e. ExtentIdx_parse raw = Ok e"
  by (simp add: ExtentIdx_parse_def Let_def)

text \<open>The early exits of the leaf scan lose nothing on a sorted leaf.\<close>

lemma leaf_scan_find:
  assumes "parse_entries Extent_parse msg node i n = Ok es"
    and "sorted_wrt (\<lambda>a b. ext_end a \<le> ext_start b) es"
  shows "leaf_scan node logical i n = Ok (find_extent es logical)"
  using assms
proof (induction n arbitrary: i es)
  case 0
  then show ?case by simp
next
  case (Suc n)
  from Suc.prems(1) obtain e es' where e: "Extent_parse (slice (entry_off i) (entry_off i + 12) node) = Ok e"
    and es': "parse_entries Extent_parse msg node (Suc i) n = Ok es'" and es: "es = e # es'"
    and range: "entry_off i + 12 \<le> length node"
    by (auto simp: Let_def outcome_simps split: if_splits)
  have IH: "leaf_scan node logical (Suc i) n = Ok (find_extent es' logical)"
    using Suc.IH [OF es'] Suc.prems(2) es by simp
  have past: "find_extent es' logical = None" if "unat logical < ext_start e"
  proof -
    have "unat logical < ext_start x" if "x \<in> set es'" for x
    proof -
      have "ext_end e \<le> ext_start x" using Suc.prems(2) es that by auto
      with \<open>unat logical < ext_start e\<close> ext_start_le_end [of e] show ?thesis by linarith
    qed
    then show ?thesis by (force simp: find_extent_None contains_iff)
  qed
  show ?case using e es range IH past by (auto simp: Let_def get_slice_def)
qed

text \<open>The child that a sorted index selects, as a function of the parsed entries.\<close>

fun select_idx :: "extent_idx list \<Rightarrow> u64 \<Rightarrow> extent_idx option \<Rightarrow> extent_idx option" where
  "select_idx [] logical chosen = chosen"
| "select_idx (x # xs) logical chosen =
     (if unat (ei_block x) \<le> unat logical then select_idx xs logical (Some x) else chosen)"

lemma index_scan_select:
  assumes "parse_entries ExtentIdx_parse msg node i n = Ok xs"
  shows "\<exists>first'. index_scan node logical i n (chosen, first) = Ok (select_idx xs logical chosen, first')
          \<and> first' = (if first = None then (case xs of [] \<Rightarrow> None | x # _ \<Rightarrow> Some x) else first)"
  using assms
proof (induction n arbitrary: i xs chosen first)
  case 0
  then show ?case by simp
next
  case (Suc n)
  from Suc.prems obtain x xs' where
      x: "ExtentIdx_parse (slice (entry_off i) (entry_off i + 12) node) = Ok x"
    and xs': "parse_entries ExtentIdx_parse msg node (Suc i) n = Ok xs'" and xs: "xs = x # xs'"
    and range: "entry_off i + 12 \<le> length node"
    by (auto simp: Let_def outcome_simps split: if_splits)
  let ?first = "if first = None then Some x else first"
  show ?case
    using x xs range Suc.IH [OF xs', of "Some x" ?first] by (auto simp: Let_def get_slice_def)
qed

section \<open>Well-formed trees\<close>

text \<open>
  \<open>node_ok rd bs d node h lo hi\<close>: the subtree at \<open>node\<close> has at most \<open>d\<close> levels below it,
  every node reads, verifies and parses, and its extents are sorted, disjoint and inside
  \<open>[lo, hi)\<close>, each child between its own key and the next one.
\<close>

fun node_ok :: "crc_fn \<Rightarrow> reader \<Rightarrow> u32 \<Rightarrow> verify_ctx option \<Rightarrow> nat \<Rightarrow> bytes \<Rightarrow> extent_header
    \<Rightarrow> nat \<Rightarrow> nat \<Rightarrow> bool"
and children_ok :: "crc_fn \<Rightarrow> reader \<Rightarrow> u32 \<Rightarrow> verify_ctx option \<Rightarrow> nat \<Rightarrow> extent_idx list
    \<Rightarrow> nat \<Rightarrow> nat \<Rightarrow> bool" where
  "node_ok crc rd bs ctx d node h lo hi =
     (if is_leaf h
      then case parse_entries Extent_parse ''leaf entry out of range'' node 0 (unat (eh_entries h)) of
             Ok es \<Rightarrow> extents_in lo hi es | _ \<Rightarrow> False
      else case d of
        0 \<Rightarrow> False
      | Suc d' \<Rightarrow>
          (case parse_entries ExtentIdx_parse ''index entry out of range'' node 0
                  (unat (eh_entries h)) of
             Ok xs \<Rightarrow> xs \<noteq> [] \<and> children_ok crc rd bs ctx d' xs lo hi | _ \<Rightarrow> False))"
| "children_ok crc rd bs ctx d [] lo hi = (lo \<le> hi)"
| "children_ok crc rd bs ctx d (x # xs) lo hi =
     (let k = unat (ei_block x); hi' = (case xs of [] \<Rightarrow> hi | y # _ \<Rightarrow> unat (ei_block y)) in
      lo \<le> k \<and> k \<le> hi' \<and>
      (case read_child crc rd bs ctx ''extent index: child block offset overflow'' (leaf_block x) of
         Ok buf \<Rightarrow>
           (case ExtentHeader_parse buf of
              Ok h \<Rightarrow> node_ok crc rd bs ctx d buf h k hi' | _ \<Rightarrow> False)
       | _ \<Rightarrow> False) \<and>
      children_ok crc rd bs ctx d xs hi' hi)"

declare node_ok.simps [simp del]

text \<open>What both readers return for a well-formed subtree.\<close>

definition node_spec :: "crc_fn \<Rightarrow> reader \<Rightarrow> u32 \<Rightarrow> verify_ctx option \<Rightarrow> nat \<Rightarrow> bytes
    \<Rightarrow> extent_header \<Rightarrow> nat \<Rightarrow> nat \<Rightarrow> bool" where
  "node_spec crc rd bs ctx d node h lo hi \<longleftrightarrow>
     (\<exists>es ns. walk rd bs d node h = Ok (es, ns) \<and> extents_in lo hi es \<and>
       (\<forall>l. lookup_loop crc rd bs l ctx node h d = Ok (find_extent es l)))"

definition child_lookup :: "crc_fn \<Rightarrow> reader \<Rightarrow> u32 \<Rightarrow> verify_ctx option \<Rightarrow> nat \<Rightarrow> u64
    \<Rightarrow> extent_idx \<Rightarrow> extent option result" where
  "child_lookup crc rd bs ctx d l x =
     and_then (read_child crc rd bs ctx ''extent index: child block offset overflow'' (leaf_block x))
       (\<lambda>buf. and_then (ExtentHeader_parse buf) (\<lambda>h. lookup_loop crc rd bs l ctx buf h d))"

lemma children_ok_le: "children_ok crc rd bs ctx d xs lo hi \<Longrightarrow> lo \<le> hi"
  by (induction xs arbitrary: lo) (auto simp: Let_def, fastforce)

lemma read_child_reads:
  "read_child crc rd bs ctx msg b = Ok buf \<Longrightarrow>
   \<exists>off. child_offset b bs = Some off \<and> rd off (unat bs) = Ok buf"
  by (auto simp: read_child_def outcome_simps split: option.splits if_splits)

lemma select_idx_Some: "\<exists>c. select_idx xs l (Some y) = Some c"
  by (induction xs arbitrary: y) auto

lemma children_ok_spec:
  assumes IH: "\<And>node h lo hi. node_ok crc rd bs ctx d node h lo hi \<Longrightarrow> node_spec crc rd bs ctx d node h lo hi"
    and "children_ok crc rd bs ctx d xs lo hi"
    and "parse_entries ExtentIdx_parse msg node i n = Ok xs"
  shows "\<exists>es ns. walk_children rd bs d node i n = Ok (es, ns) \<and> extents_in lo hi es \<and>
    (\<forall>x xs' l. xs = x # xs' \<longrightarrow>
       child_lookup crc rd bs ctx d l (case select_idx xs l None of Some c \<Rightarrow> c | None \<Rightarrow> x)
       = Ok (find_extent es l) \<and> (unat l < unat (ei_block x) \<longrightarrow> find_extent es l = None))"
  using assms(2,3)
proof (induction xs arbitrary: lo i n)
  case Nil
  then have "n = 0" by (auto dest: length_parse_entries)
  then show ?case by simp
next
  case (Cons x xs)
  define hi' where "hi' = (case xs of [] \<Rightarrow> hi | y # _ \<Rightarrow> unat (ei_block y))"
  let ?k = "unat (ei_block x)"
  from Cons.prems(1) obtain buf h where
      bounds: "lo \<le> ?k" "?k \<le> hi'" and
      buf: "read_child crc rd bs ctx ''extent index: child block offset overflow'' (leaf_block x) = Ok buf"
      and h: "ExtentHeader_parse buf = Ok h" and ok: "node_ok crc rd bs ctx d buf h ?k hi'"
      and rest: "children_ok crc rd bs ctx d xs hi' hi"
    by (auto simp: Let_def hi'_def split: outcome.splits)
  from IH [OF ok] obtain es1 ns1 where w1: "walk rd bs d buf h = Ok (es1, ns1)"
    and in1: "extents_in ?k hi' es1"
    and l1: "\<And>l. lookup_loop crc rd bs l ctx buf h d = Ok (find_extent es1 l)"
    by (auto simp: node_spec_def)
  from Cons.prems(2) obtain m where n: "n = Suc m"
    and x: "ExtentIdx_parse (slice (entry_off i) (entry_off i + 12) node) = Ok x"
    and range: "entry_off i + 12 \<le> length node"
    and pe: "parse_entries ExtentIdx_parse msg node (Suc i) m = Ok xs"
    by (cases n) (auto simp: Let_def outcome_simps split: if_splits)
  from Cons.IH [OF rest pe] obtain es2 ns2 where
      w2: "walk_children rd bs d node (Suc i) m = Ok (es2, ns2)" and in2: "extents_in hi' hi es2"
      and l2: "\<And>y ys l. xs = y # ys \<Longrightarrow>
        child_lookup crc rd bs ctx d l (case select_idx xs l None of Some c \<Rightarrow> c | None \<Rightarrow> y)
        = Ok (find_extent es2 l) \<and> (unat l < unat (ei_block y) \<longrightarrow> find_extent es2 l = None)"
    by blast
  have hihi: "hi' \<le> hi" using rest by (rule children_ok_le)
  have whole: "extents_in ?k hi (es1 @ es2)"
    using extents_in_append [OF in1 in2] bounds hihi by simp
  have here: "child_lookup crc rd bs ctx d l x = Ok (find_extent es1 l)" for l
    using buf h l1 by (simp add: child_lookup_def)
  have below: "find_extent (es1 @ es2) l = None" if "unat l < ?k" for l
    using find_extent_outside [OF whole] that by blast
  have found: "child_lookup crc rd bs ctx d l
      (case select_idx (x # xs) l None of Some c \<Rightarrow> c | None \<Rightarrow> x) = Ok (find_extent (es1 @ es2) l)" for l
  proof (cases "?k \<le> unat l")
    case False
    then have "find_extent es1 l = None" using find_extent_outside [OF in1] by simp
    with False below here show ?thesis by simp
  next
    case le: True
    show ?thesis
    proof (cases xs)
      case Nil
      then have "es2 = []" using w2 pe by (auto dest: length_parse_entries)
      with le Nil here show ?thesis by simp
    next
      case (Cons y ys)
      show ?thesis
      proof (cases "unat (ei_block y) \<le> unat l")
        case True
        then have "find_extent es1 l = None"
          using find_extent_outside [OF in1] Cons by (simp add: hi'_def)
        with True le Cons l2 [OF Cons, of l] select_idx_Some [of ys l y] show ?thesis
          by (auto simp: find_extent_append)
      next
        case False
        with l2 [OF Cons, of l] have "find_extent es2 l = None" by simp
        with False le Cons here show ?thesis
          by (simp add: find_extent_append split: option.split)
      qed
    qed
  qed
  obtain off where "child_offset (leaf_block x) bs = Some off" "rd off (unat bs) = Ok buf"
    using read_child_reads [OF buf] by blast
  then have walk: "walk_children rd bs d node i n = Ok (es1 @ es2, leaf_block x # ns1 @ ns2)"
    using n x range h w1 w2 by (simp add: Let_def get_slice_def)
  have "extents_in lo hi (es1 @ es2)" using whole bounds extents_in_mono by blast
  then show ?case
    using walk found below by blast
qed

lemma node_ok_spec: "node_ok crc rd bs ctx d node h lo hi \<Longrightarrow> node_spec crc rd bs ctx d node h lo hi"
proof (induction d arbitrary: node h lo hi)
  case 0
  then have "is_leaf h" by (auto simp: node_ok.simps split: if_splits)
  with 0 show ?case
    by (auto simp: node_ok.simps node_spec_def walk.simps lookup_loop.simps extents_in_def
        leaf_scan_find split: outcome.splits)
next
  case (Suc d)
  show ?case
  proof (cases "is_leaf h")
    case True
    with Suc.prems show ?thesis
      by (auto simp: node_ok.simps node_spec_def walk.simps lookup_loop.simps extents_in_def
          leaf_scan_find split: outcome.splits)
  next
    case False
    let ?n = "unat (eh_entries h)"
    from Suc.prems False obtain xs where
        xs: "parse_entries ExtentIdx_parse ''index entry out of range'' node 0 ?n = Ok xs"
      and ne: "xs \<noteq> []" and ch: "children_ok crc rd bs ctx d xs lo hi"
      by (auto simp: node_ok.simps split: outcome.splits)
    obtain x xs' where cons: "xs = x # xs'" using ne by (cases xs) auto
    from children_ok_spec [OF Suc.IH ch xs] obtain es ns where
        w: "walk_children rd bs d node 0 ?n = Ok (es, ns)" and inn: "extents_in lo hi es"
      and lk: "\<And>l. child_lookup crc rd bs ctx d l
          (case select_idx xs l None of Some c \<Rightarrow> c | None \<Rightarrow> x) = Ok (find_extent es l)"
      using cons by blast
    have scan: "index_scan node l 0 ?n (None, None) = Ok (select_idx xs l None, Some x)" for l
      using index_scan_select [OF xs, of l None None] by (auto simp: cons)
    have "lookup_loop crc rd bs l ctx node h (Suc d) = Ok (find_extent es l)" for l
      using lk [of l] scan [of l] False
      by (cases "select_idx xs l None")
        (simp_all add: lookup_loop.simps [of _ _ _ _ _ node] child_lookup_def)
    with w inn False show ?thesis by (auto simp: node_spec_def walk.simps)
  qed
qed

section \<open>No image makes the readers unwind\<close>

lemma Extent_parse_total [simp]: "Extent_parse raw \<noteq> Panic"
  by (simp add: Extent_parse_def Let_def split: prod.split)

lemma ExtentIdx_parse_total [simp]: "ExtentIdx_parse raw \<noteq> Panic"
  by (simp add: ExtentIdx_parse_def Let_def)

lemma ExtentHeader_parse_total [simp]: "ExtentHeader_parse raw \<noteq> Panic"
  by (simp add: ExtentHeader_parse_def Let_def)

lemma leaf_scan_total: "leaf_scan node l i n \<noteq> Panic"
  by (induction n arbitrary: i) (auto simp: Let_def outcome_simps get_slice_def)

lemma index_scan_total: "index_scan node l i n acc \<noteq> Panic"
proof (induction n arbitrary: i acc)
  case (Suc n)
  then show ?case by (cases acc) (auto simp: Let_def outcome_simps get_slice_def)
qed simp

lemma parse_entries_total:
  "(\<And>raw. p raw \<noteq> Panic) \<Longrightarrow> parse_entries p msg node i n \<noteq> Panic"
  by (induction n arbitrary: i) (auto simp: Let_def outcome_simps get_slice_def)

lemma read_child_total:
  "(\<And>off n. rd off n \<noteq> Panic) \<Longrightarrow> read_child crc rd bs ctx msg b \<noteq> Panic"
  by (auto simp: read_child_def outcome_simps split: option.splits if_splits)

lemma lookup_loop_total:
  assumes "\<And>off n. rd off n \<noteq> Panic"
  shows "lookup_loop crc rd bs l ctx node h d \<noteq> Panic"
proof (induction d arbitrary: node h)
  case 0
  show ?case using read_child_total [OF assms]
    by (auto simp: lookup_loop.simps outcome_simps leaf_scan_total index_scan_total split: option.splits)
next
  case (Suc d)
  then show ?case using read_child_total [OF assms]
    by (auto simp: lookup_loop.simps [of _ _ _ _ _ node] outcome_simps leaf_scan_total
        index_scan_total split: option.splits)
qed

lemma walk_children_total:
  assumes "\<And>off n. rd off n \<noteq> Panic" and "\<And>node h. walk rd bs d node h \<noteq> Panic"
  shows "walk_children rd bs d node i n \<noteq> Panic"
  using assms
  by (induction n arbitrary: i)
    (auto simp: Let_def outcome_simps get_slice_def split: prod.splits)

lemma walk_total:
  assumes "\<And>off n. rd off n \<noteq> Panic"
  shows "walk rd bs d node h \<noteq> Panic"
proof (induction d arbitrary: node h)
  case 0
  show ?case by (auto simp: walk.simps outcome_simps parse_entries_total)
next
  case (Suc d)
  show ?case
    using walk_children_total [OF assms Suc]
    by (auto simp: walk.simps outcome_simps parse_entries_total)
qed

section \<open>Properties\<close>

text \<open>
  Whatever bytes an image holds, and whatever pointers (cycles included) its extent
  nodes make, looking a block up and walking the whole tree terminate with a value or an
  error: they never index out of range, provided the device's reads do not unwind. The
  recursion is bounded by the depth the root claims, which is at most five.
\<close>

theorem readers_never_panic:
  assumes "\<forall>off n. rd off n \<noteq> Panic"
  shows "lookup_verified crc root rd bs l ctx \<noteq> Panic \<and>
    map_logical_verified crc root rd bs l ctx \<noteq> Panic \<and>
    collect_all_with_nodes root rd bs \<noteq> Panic"
  using assms lookup_loop_total [of rd] walk_total [of rd]
  by (auto simp: lookup_verified_def map_logical_verified_def collect_all_with_nodes_def
      outcome_simps split: option.splits)

theorem readers_never_panic_witness:
  "let rd = (\<lambda>off n. Ok (replicate n 0)) :: reader;
       root = u16_to_le 0xF30A @ [1, 0, 4, 0, 1, 0, 0, 0, 0, 0] @ replicate 48 (255 :: u8)
   in lookup_verified (\<lambda>s d. s) root rd 1024 7 None \<noteq> Panic \<and>
      map_logical_verified (\<lambda>s d. s) root rd 1024 7 None \<noteq> Panic \<and>
      collect_all_with_nodes root rd 1024 \<noteq> Panic"
  using readers_never_panic [of "\<lambda>off n. Ok (replicate n 0)"] by (simp add: Let_def)

text \<open>
  C32. On a well-formed tree of any depth the block-by-block lookup and the full walk agree:
  \<open>collect_all\<close> returns the extents in order, sorted and disjoint, and \<open>lookup_verified\<close>
  returns, for every logical block, exactly the extent of that list which contains it, or
  none where the block is in a hole (a hole before the first extent included).
\<close>

theorem lookup_agrees_with_collect:
  assumes "ExtentHeader_parse root = Ok h" and "eh_depth h \<le> EXT4_EXT_MAX_DEPTH"
    and "node_ok crc rd bs ctx (unat (eh_depth h)) root h lo hi"
  shows "\<exists>es. collect_all root rd bs = Ok es \<and> extents_in lo hi es \<and>
    (\<forall>l. lookup_verified crc root rd bs l ctx = Ok (find_extent es l))"
proof -
  from node_ok_spec [OF assms(3)] obtain es ns where
    "walk rd bs (unat (eh_depth h)) root h = Ok (es, ns)" "extents_in lo hi es"
    "\<And>l. lookup_loop crc rd bs l ctx root h (unat (eh_depth h)) = Ok (find_extent es l)"
    by (auto simp: node_spec_def)
  with assms(1,2) show ?thesis
    by (auto simp: collect_all_def collect_all_with_nodes_def lookup_verified_def
        not_less)
qed

text \<open>A depth-1 tree over two leaf blocks of 24 bytes, used by the witnesses.\<close>

definition example_root :: bytes where
  "example_root = [0x0A, 0xF3, 2, 0, 4, 0, 1, 0, 0, 0, 0, 0,
     2, 0, 0, 0, 10, 0, 0, 0, 0, 0, 0, 0,  9, 0, 0, 0, 11, 0, 0, 0, 0, 0, 0, 0]"

definition example_leaf :: "u8 \<Rightarrow> u8 \<Rightarrow> bytes" where
  "example_leaf start phys = [0x0A, 0xF3, 1, 0, 4, 0, 0, 0, 0, 0, 0, 0,
     start, 0, 0, 0, 4, 0, 0, 0, phys, 0, 0, 0]"

definition example_dev :: reader where
  "example_dev off n = (if off = 240 \<and> n = 24 then Ok (example_leaf 2 100)
     else if off = 264 \<and> n = 24 then Ok (example_leaf 9 200) else Err OutOfBounds)"

definition example_header :: extent_header where
  "example_header = \<lparr>eh_magic = 0xF30A, eh_entries = 2, eh_max = 4, eh_depth = 1, eh_generation = 0\<rparr>"

lemma example_parses: "ExtentHeader_parse example_root = Ok example_header"
  by (simp add: ExtentHeader_parse_def example_root_def example_header_def EXT4_EXT_MAGIC_def
      get_field_defs slice_def u16_from_le_def u32_from_le_def)

lemma example_leaf_parses:
  "ExtentHeader_parse (example_leaf a b) =
     Ok \<lparr>eh_magic = 0xF30A, eh_entries = 1, eh_max = 4, eh_depth = 0, eh_generation = 0\<rparr>"
  by (simp add: ExtentHeader_parse_def example_leaf_def EXT4_EXT_MAGIC_def
      get_field_defs slice_def u16_from_le_def u32_from_le_def)

lemma example_root_entries:
  "parse_entries ExtentIdx_parse msg example_root 0 (Suc (Suc 0)) =
     Ok [\<lparr>ei_block = 2, leaf_block = 10\<rparr>, \<lparr>ei_block = 9, leaf_block = 11\<rparr>]"
  by (simp add: entry_off_def example_root_def ExtentIdx_parse_def
      get_slice_def get_field_defs slice_def u16_from_le_def u32_from_le_def)

lemma example_leaf_entries:
  "parse_entries Extent_parse msg (example_leaf 2 100) 0 (Suc 0) =
     Ok [\<lparr>logical_block = 2, len = 4, physical_block = 100, uninitialized = False\<rparr>]"
  "parse_entries Extent_parse msg (example_leaf 9 200) 0 (Suc 0) =
     Ok [\<lparr>logical_block = 9, len = 4, physical_block = 200, uninitialized = False\<rparr>]"
  by (simp_all add: entry_off_def example_leaf_def Extent_parse_def EXT_INIT_MAX_LEN_def
      get_slice_def get_field_defs slice_def u16_from_le_def u32_from_le_def)

lemma example_reads:
  "read_child crc example_dev 24 None msg 10 = Ok (example_leaf 2 100)"
  "read_child crc example_dev 24 None msg 11 = Ok (example_leaf 9 200)"
  by (simp_all add: read_child_def child_offset_def checked_mul_def example_dev_def)

lemma example_ok: "node_ok (\<lambda>s d. s) example_dev 24 None 1 example_root example_header 0 100"
  using example_root_entries [of "''index entry out of range''"]
    example_leaf_entries [of "''leaf entry out of range''"]
  by (simp add: node_ok.simps example_header_def is_leaf_def example_reads numeral_2_eq_2 [symmetric]
      example_leaf_parses extents_in_def ext_start_def ext_end_def del: parse_entries.simps)

theorem lookup_agrees_with_collect_witness:
  "\<exists>es. collect_all example_root example_dev 24 = Ok es \<and> extents_in 0 100 es \<and>
     (\<forall>l. lookup_verified (\<lambda>s d. s) example_root example_dev 24 l None = Ok (find_extent es l))"
  using lookup_agrees_with_collect [OF example_parses, of "\<lambda>s d. s" example_dev 24 None 0 100] example_ok
  by (simp add: example_header_def EXT4_EXT_MAX_DEPTH_def)

end
