(* ===== verification/Bgd.thy ===== *)
theory Bgd
  imports Superblock Extent
begin

unbundle bit_operations_syntax

text \<open>
  Block group descriptors (\<open>src/bgd.rs\<close>, with \<open>group_desc_csum\<close> of \<open>src/checksum.rs\<close>): the
  parser, the mount-time loop that reads and checks every descriptor, and the arithmetic that
  finds an inode's record. The device is the parameter \<open>rd\<close> with its size in bytes.
\<close>

section \<open>Descriptors\<close>

record bgd =
  block_bitmap :: u64
  inode_bitmap :: u64
  inode_table :: u64
  free_blocks_count :: u32
  free_inodes_count :: u32
  used_dirs_count :: u32
  bgd_flags :: u16
  itable_unused :: u32
  block_bitmap_csum :: u32
  inode_bitmap_csum :: u32
  bgd_checksum :: u16

definition INODE_UNINIT :: u16 where "INODE_UNINIT = 0x0001"
definition BLOCK_UNINIT :: u16 where "BLOCK_UNINIT = 0x0002"
definition ITABLE_ZEROED :: u16 where "ITABLE_ZEROED = 0x0004"

definition bgd_has_flag :: "bgd \<Rightarrow> u16 \<Rightarrow> bool" where
  "bgd_has_flag g f \<longleftrightarrow> bgd_flags g AND f \<noteq> 0"

definition join16 :: "u16 \<Rightarrow> u16 \<Rightarrow> u32" where
  "join16 hi lo = push_bit 16 (ucast hi) OR ucast lo"

text \<open>The halves of a field: the high one is read only from a descriptor of 64 bytes or more.\<close>

definition split32 :: "bytes \<Rightarrow> bool \<Rightarrow> nat \<Rightarrow> nat \<Rightarrow> u64" where
  "split32 buf wide hi lo = join32 (if wide then get_le32 hi buf else 0) (get_le32 lo buf)"

definition split16 :: "bytes \<Rightarrow> bool \<Rightarrow> nat \<Rightarrow> nat \<Rightarrow> u32" where
  "split16 buf wide hi lo = join16 (if wide then get_le16 hi buf else 0) (get_le16 lo buf)"

definition bgd_parse :: "bytes \<Rightarrow> u16 \<Rightarrow> bgd result" where
  "bgd_parse buf dsize =
     (if length buf < unat dsize then Err (Corrupt ''bgd buffer too small'')
      else if length buf < 0x20 then Panic
      else let wide = (dsize \<ge> 64) in Ok
        \<lparr>block_bitmap = split32 buf wide 0x20 0x00,
         inode_bitmap = split32 buf wide 0x24 0x04,
         inode_table = split32 buf wide 0x28 0x08,
         free_blocks_count = split16 buf wide 0x2C 0x0C,
         free_inodes_count = split16 buf wide 0x2E 0x0E,
         used_dirs_count = split16 buf wide 0x30 0x10,
         bgd_flags = get_le16 0x12 buf,
         itable_unused = split16 buf wide 0x32 0x1C,
         block_bitmap_csum = split16 buf wide 0x38 0x18,
         inode_bitmap_csum = split16 buf wide 0x3A 0x1A,
         bgd_checksum = get_le16 0x1E buf\<rparr>)"

definition from_superblock :: "crc_fn \<Rightarrow> superblock \<Rightarrow> checksummer" where
  "from_superblock crc sb =
     \<lparr>seed = (if has_bits (feature_incompat sb) Incompat_CSUM_SEED then checksum_seed sb
              else linux_crc32c crc (NOT 0) (uuid sb)),
      enabled = has_bits (feature_ro_compat sb) RoCompat_METADATA_CSUM\<rparr>"

definition group_desc_csum :: "crc_fn \<Rightarrow> superblock \<Rightarrow> checksummer \<Rightarrow> u32 \<Rightarrow> bytes \<Rightarrow> u16 option" where
  "group_desc_csum crc sb cs grp desc =
     (let n = unat (desc_size sb); le_group = u32_to_le grp in
      if length desc < n \<or> n < 0x20 then None
      else if has_bits (feature_ro_compat sb) RoCompat_METADATA_CSUM
      then let c = linux_crc32c crc (seed cs) le_group;
               c = linux_crc32c crc c (take 0x1E desc);
               c = linux_crc32c crc c [0, 0];
               c = linux_crc32c crc c (slice 0x20 n desc)
           in Some (ucast c)
      else if \<not> has_bits (feature_ro_compat sb) RoCompat_GDT_CSUM then None
      else let c = crc16 (NOT 0) (uuid sb);
               c = crc16 c le_group;
               c = crc16 c (take 0x1E desc)
           in Some (if has_bits (feature_incompat sb) Incompat_BIT64 then crc16 c (slice 0x20 n desc) else c))"

section \<open>Reading the table\<close>

definition table_blocks :: "superblock \<Rightarrow> u64" where
  "table_blocks sb = div_ceil (ucast (inodes_per_group sb) * ucast (inode_size sb)) (ucast (block_size sb))"

definition past_the_end :: "superblock \<Rightarrow> bgd \<Rightarrow> bool" where
  "past_the_end sb g \<longleftrightarrow>
     block_bitmap g \<ge> blocks_count sb \<or> inode_bitmap g \<ge> blocks_count sb \<or>
     (case checked_add (inode_table g) (table_blocks sb) of None \<Rightarrow> True | Some e \<Rightarrow> e > blocks_count sb)"

definition saturating_add :: "'a::len word \<Rightarrow> 'a word \<Rightarrow> 'a word" where
  "saturating_add a b = (case checked_add a b of None \<Rightarrow> NOT 0 | Some c \<Rightarrow> c)"

definition check_pointers_within :: "superblock \<Rightarrow> u64 \<Rightarrow> bgd \<Rightarrow> u64 \<Rightarrow> unit result" where
  "check_pointers_within sb grp g tblocks =
     (let superblock_block = SUPERBLOCK_OFFSET div ucast (block_size sb);
          group0_metadata_end = superblock_block + group_head_metadata_blocks sb 0;
          table_last = inode_table g + max tblocks 1 - 1 in
      if block_bitmap g < group0_metadata_end \<or> inode_bitmap g < group0_metadata_end \<or>
         inode_table g < group0_metadata_end
      then Err (Corrupt ''a block group descriptor points into group 0's superblock or descriptor table'')
      else if has_bits (feature_incompat sb) Incompat_FLEX_BG then Ok ()
      else let first = ucast (first_data_block sb) + grp * ucast (blocks_per_group sb);
               last = min (saturating_add first (ucast (blocks_per_group sb))) (blocks_count sb) - 1;
               within = (\<lambda>b. first \<le> b \<and> b \<le> last) in
        if \<not> (within (block_bitmap g) \<and> within (inode_bitmap g) \<and> within (inode_table g)) \<or> table_last > last
        then Err (Corrupt ''a block group descriptor points outside its own group, without flex_bg'')
        else Ok ())"

text \<open>The table block of one iteration: the one kept from the last, or a fresh read.\<close>

definition load_table_block :: "reader \<Rightarrow> u64 \<Rightarrow> superblock \<Rightarrow> (u64 \<times> bytes) option \<Rightarrow> u64 \<Rightarrow> bytes result" where
  "load_table_block rd dev_bytes sb kept block =
     (if map_option fst kept = Some block then Ok (snd (the kept))
      else case checked_add block 1 of
          None \<Rightarrow> Err (Corrupt ''superblock: the group descriptor table's extent overflows'')
        | Some b \<Rightarrow> (case checked_mul b (ucast (block_size sb)) of
            None \<Rightarrow> Err (Corrupt ''superblock: the group descriptor table's extent overflows'')
          | Some e \<Rightarrow> if e > dev_bytes
              then Err (Corrupt ''superblock: the group descriptor table reaches past the end of the device'')
              else rd (block * ucast (block_size sb)) (unat (block_size sb))))"

text \<open>One descriptor: slice, checksum, parse, bounds.\<close>

definition read_one :: "crc_fn \<Rightarrow> superblock \<Rightarrow> checksummer \<Rightarrow> u64 \<Rightarrow> nat \<Rightarrow> bytes \<Rightarrow> bgd result" where
  "read_one crc sb cs i off tbl =
     and_then (get_slice off (off + unat (desc_size sb)) tbl) (\<lambda>raw.
       if length raw < 0x20 then Panic
       else let stored = get_le16 0x1E raw in
         if (case group_desc_csum crc sb cs (ucast i) raw of None \<Rightarrow> False | Some want \<Rightarrow> want \<noteq> stored)
         then Err (BadChecksum ''block group descriptor'')
         else and_then (bgd_parse raw (desc_size sb)) (\<lambda>g.
           if past_the_end sb g then Err (Corrupt ''a block group descriptor points outside the filesystem'')
           else and_then (check_pointers_within sb i g (table_blocks sb)) (\<lambda>_. Ok g)))"

fun read_groups :: "crc_fn \<Rightarrow> reader \<Rightarrow> u64 \<Rightarrow> superblock \<Rightarrow> checksummer \<Rightarrow> nat \<Rightarrow> u64
    \<Rightarrow> (u64 \<times> bytes) option \<Rightarrow> bgd list result" where
  "read_groups crc rd dev_bytes sb cs 0 i kept = Ok []"
| "read_groups crc rd dev_bytes sb cs (Suc n) i kept =
     (case descriptor_location sb i of (block, off) \<Rightarrow>
        and_then (load_table_block rd dev_bytes sb kept block) (\<lambda>tbl.
        and_then (read_one crc sb cs i off tbl) (\<lambda>g.
        and_then (read_groups crc rd dev_bytes sb cs n (i + 1) (Some (block, tbl))) (\<lambda>gs.
          Ok (g # gs)))))"

text \<open>\<open>usize\<close> has 64 bits on the modelled targets, so \<open>table_len\<close> always succeeds.\<close>

definition read_all :: "crc_fn \<Rightarrow> reader \<Rightarrow> u64 \<Rightarrow> superblock \<Rightarrow> checksummer \<Rightarrow> bgd list result" where
  "read_all crc rd dev_bytes sb cs =
     (case checked_mul (block_group_count sb) (ucast (desc_size sb)) of
        None \<Rightarrow> Err (Corrupt ''superblock: the group descriptor table's size overflows'')
      | Some total_bytes \<Rightarrow> if total_bytes > dev_bytes
          then Err (Corrupt ''superblock: the group descriptor table reaches past the end of the device'')
          else read_groups crc rd dev_bytes sb cs (unat (block_group_count sb)) 0 None)"

section \<open>Locating an inode\<close>

definition locate_inode :: "superblock \<Rightarrow> bgd list \<Rightarrow> u32 \<Rightarrow> (u64 \<times> u32) result" where
  "locate_inode sb groups ino =
     (if ino = 0 \<or> ino > inodes_count sb then Err (InvalidInode ino)
      else if inodes_per_group sb = 0 \<or> inode_size sb = 0
      then Err (Corrupt ''superblock: zero inodes_per_group or inode_size'')
      else let group_idx = unat ((ino - 1) div inodes_per_group sb);
               local_idx = (ucast ((ino - 1) mod inodes_per_group sb) :: u64) in
        if group_idx \<ge> length groups then Err (InvalidInode ino)
        else let g = groups ! group_idx; bs = (ucast (block_size sb) :: u64); isize = (ucast (inode_size sb) :: u64) in
          if isize > bs then Err (Corrupt ''superblock: inode_size larger than block_size'')
          else let inodes_per_block = bs div isize in
            if inodes_per_block = 0 then Err (Corrupt ''superblock: inode_size exceeds block_size'')
            else case checked_add (inode_table g) (local_idx div inodes_per_block) of
                None \<Rightarrow> Err (Corrupt ''inode table block number overflow'')
              | Some block \<Rightarrow>
                  let off_bytes = (local_idx mod inodes_per_block) * isize in
                  if off_bytes \<ge> 2 ^ 32 then Err (Corrupt ''inode offset exceeds u32'')
                  else Ok (block, ucast off_bytes))"

section \<open>What \<open>read_all\<close> guarantees\<close>

lemma unat_saturating_add:
  "unat (saturating_add a b) = min (unat a + unat b) (2 ^ LENGTH('a) - 1)" for a b :: "'a::len word"
proof (cases "unat a + unat b < 2 ^ LENGTH('a)")
  case True
  then have "min (unat a + unat b) (2 ^ LENGTH('a) - 1) = unat a + unat b" by linarith
  then show ?thesis using True by (simp add: saturating_add_def checked_add_def unat_add_no_wrap)
next
  case False
  then show ?thesis by (auto simp: saturating_add_def checked_add_def min_def unsigned_minus_1_eq_mask mask_eq_exp_minus_1)
qed

lemma unat_table_blocks:
  assumes "geometry_ok sb"
  shows "unat (table_blocks sb) =
      (unat (inodes_per_group sb) * unat (inode_size sb) + bs_nat sb - 1) div bs_nat sb \<and>
    0 < unat (table_blocks sb)"
proof -
  let ?a = "unat (inodes_per_group sb)" and ?b = "unat (inode_size sb)"
  have bs: "1024 \<le> bs_nat sb" using block_size_bounds assms by (auto simp: geometry_ok_def)
  have "?a \<le> 2 ^ 32" "?b \<le> 2 ^ 16"
    using unat_lt2p [of "inodes_per_group sb"] unat_lt2p [of "inode_size sb"] by simp_all
  then have "?a * ?b \<le> 2 ^ 32 * 2 ^ 16" by (intro mult_le_mono)
  then have "unat (ucast (inodes_per_group sb) * ucast (inode_size sb) :: u64) = ?a * ?b"
    by (subst unat_mult_no_wrap) auto
  then have e: "unat (table_blocks sb) = (?a * ?b + bs_nat sb - 1) div bs_nat sb"
    using bs by (simp add: table_blocks_def unat_div_ceil)
  have "0 < ?a * ?b" using assms by (simp add: geometry_ok_def)
  then have "bs_nat sb \<le> ?a * ?b + bs_nat sb - 1" by linarith
  then have "0 < (?a * ?b + bs_nat sb - 1) div bs_nat sb" using bs by (simp add: div_greater_zero_iff)
  then show ?thesis using e by simp
qed

definition head_end :: "superblock \<Rightarrow> nat" where
  "head_end sb = unat (primary_superblock_block sb + group_head_metadata_blocks sb 0)"

text \<open>The bounds of one descriptor's pointers, without wrap-around.\<close>

definition bgd_bounded :: "superblock \<Rightarrow> nat \<Rightarrow> bgd \<Rightarrow> bool" where
  "bgd_bounded sb i g \<longleftrightarrow>
     (let lo = fdb_nat sb + i * bpg_nat sb; hi = min (lo + bpg_nat sb) (unat (blocks_count sb));
          tb = unat (table_blocks sb); n = unat (blocks_count sb) in
      head_end sb \<le> unat (block_bitmap g) \<and> unat (block_bitmap g) < n \<and>
      head_end sb \<le> unat (inode_bitmap g) \<and> unat (inode_bitmap g) < n \<and>
      head_end sb \<le> unat (inode_table g) \<and> unat (inode_table g) + tb \<le> n \<and>
      (\<not> has_bits (feature_incompat sb) Incompat_FLEX_BG \<longrightarrow>
         lo \<le> unat (block_bitmap g) \<and> unat (block_bitmap g) < hi \<and>
         lo \<le> unat (inode_bitmap g) \<and> unat (inode_bitmap g) < hi \<and>
         lo \<le> unat (inode_table g) \<and> unat (inode_table g) + tb \<le> hi))"

lemma past_the_end_bounds:
  assumes "\<not> past_the_end sb g"
  shows "unat (block_bitmap g) < unat (blocks_count sb)" "unat (inode_bitmap g) < unat (blocks_count sb)"
    "unat (inode_table g) + unat (table_blocks sb) \<le> unat (blocks_count sb)"
  using assms checked_add_Some [of "inode_table g" "table_blocks sb"]
  by (auto simp: past_the_end_def word_less_nat_alt word_le_nat_alt not_le not_less split: option.splits)

lemma unat_last_of_group:
  assumes "geometry_ok sb" "unat i < unat (block_group_count sb)"
  shows "unat (min (saturating_add (first_block_of_group sb i) (ucast (blocks_per_group sb))) (blocks_count sb) - 1) =
    min (fdb_nat sb + unat i * bpg_nat sb + bpg_nat sb) (unat (blocks_count sb)) - 1"
    and "0 < min (fdb_nat sb + unat i * bpg_nat sb + bpg_nat sb) (unat (blocks_count sb))"
proof -
  let ?w = "min (saturating_add (first_block_of_group sb i) (ucast (blocks_per_group sb))) (blocks_count sb)"
  have "unat (blocks_count sb) \<le> 2 ^ 64 - 1" using unat_lt2p [of "blocks_count sb"] by simp
  then have w: "unat ?w = min (fdb_nat sb + unat i * bpg_nat sb + bpg_nat sb) (unat (blocks_count sb))"
    using group_start [OF assms] unfolding unat_min unat_saturating_add by simp
  show pos: "0 < min (fdb_nat sb + unat i * bpg_nat sb + bpg_nat sb) (unat (blocks_count sb))"
    using assms(1) by (simp add: geometry_ok_def)
  then have "(1 :: u64) \<le> ?w" using w by (simp only: word_le_nat_alt unat_1)
  then show "unat (?w - 1) = min (fdb_nat sb + unat i * bpg_nat sb + bpg_nat sb) (unat (blocks_count sb)) - 1"
    using w by (simp add: unat_sub)
qed

lemma check_pointers_within_sound:
  assumes "geometry_ok sb" "unat i < unat (block_group_count sb)" "\<not> past_the_end sb g"
    "check_pointers_within sb i g (table_blocks sb) = Ok ()"
  shows "bgd_bounded sb (unat i) g"
proof -
  let ?tb = "unat (table_blocks sb)" and ?n = "unat (blocks_count sb)"
  note past = past_the_end_bounds [OF assms(3)] and tb = conjunct2 [OF unat_table_blocks [OF assms(1)]]
  have n: "?n < 2 ^ 64" using unat_lt2p [of "blocks_count sb"] by simp
  have mx: "max (table_blocks sb) 1 = table_blocks sb" using tb by (simp add: word_unat_eq_iff unat_max)
  have "unat (inode_table g + table_blocks sb) = unat (inode_table g) + ?tb"
    using past(3) n by (intro unat_add_no_wrap) simp
  moreover have "(1 :: u64) \<le> inode_table g + table_blocks sb" using calculation tb by (simp add: word_le_nat_alt)
  ultimately have tl: "unat (inode_table g + max (table_blocks sb) 1 - 1) = unat (inode_table g) + ?tb - 1"
    unfolding mx by (simp add: unat_sub)
  have heads: "head_end sb \<le> unat (block_bitmap g)" "head_end sb \<le> unat (inode_bitmap g)"
      "head_end sb \<le> unat (inode_table g)"
    using assms(4) unfolding check_pointers_within_def head_end_def primary_superblock_block_def [symmetric] Let_def
    by (auto simp: word_less_nat_alt not_less split: if_splits)
  have own: "\<not> has_bits (feature_incompat sb) Incompat_FLEX_BG \<Longrightarrow>
      fdb_nat sb + unat i * bpg_nat sb \<le> unat b \<and>
      unat b \<le> min (fdb_nat sb + unat i * bpg_nat sb + bpg_nat sb) ?n - 1"
    if "b \<in> {block_bitmap g, inode_bitmap g, inode_table g}" for b
    using assms(4) that group_start [OF assms(1,2)] unat_last_of_group(1) [OF assms(1,2)]
    unfolding check_pointers_within_def first_block_of_group_def [symmetric] Let_def
    by (auto simp: word_le_nat_alt split: if_splits)
  have last: "\<not> has_bits (feature_incompat sb) Incompat_FLEX_BG \<Longrightarrow>
      unat (inode_table g) + ?tb - 1 \<le> min (fdb_nat sb + unat i * bpg_nat sb + bpg_nat sb) ?n - 1"
    using assms(4) unat_last_of_group(1) [OF assms(1,2)] tl
    unfolding check_pointers_within_def first_block_of_group_def [symmetric] Let_def
    by (auto simp: word_less_nat_alt not_less split: if_splits)
  define hi where "hi = min (fdb_nat sb + unat i * bpg_nat sb + bpg_nat sb) ?n"
  have hi: "0 < hi" using unat_last_of_group(2) [OF assms(1,2)] by (simp only: hi_def)
  have close: "x \<le> hi - 1 \<Longrightarrow> x < hi" "x - 1 \<le> hi - 1 \<Longrightarrow> x \<le> hi" for x using hi by linarith+
  show ?thesis
    using past heads own [folded hi_def] last [folded hi_def] close
    unfolding bgd_bounded_def Let_def hi_def [symmetric] by simp
qed

text \<open>A device read fills the whole buffer or fails; it does not unwind.\<close>

definition reads_full :: "reader \<Rightarrow> bool" where
  "reads_full rd \<longleftrightarrow> (\<forall>off n. rd off n \<noteq> Panic \<and> (\<forall>bs. rd off n = Ok bs \<longrightarrow> length bs = n))"

text \<open>What the device holds for descriptor \<open>i\<close>: the record at its location.\<close>

definition device_descriptor :: "reader \<Rightarrow> superblock \<Rightarrow> u64 \<Rightarrow> bgd result" where
  "device_descriptor rd sb i =
     and_then (rd (fst (descriptor_location sb i) * ucast (block_size sb)) (bs_nat sb)) (\<lambda>tbl.
       bgd_parse (slice (snd (descriptor_location sb i)) (snd (descriptor_location sb i) + ds_nat sb) tbl)
         (desc_size sb))"

text \<open>The block kept between two iterations is the one the device holds.\<close>

definition kept_ok :: "reader \<Rightarrow> superblock \<Rightarrow> (u64 \<times> bytes) option \<Rightarrow> bool" where
  "kept_ok rd sb kept \<longleftrightarrow>
     (\<forall>b tbl. kept = Some (b, tbl) \<longrightarrow> rd (b * ucast (block_size sb)) (bs_nat sb) = Ok tbl)"

lemma load_table_block_sound:
  assumes "reads_full rd" "kept_ok rd sb kept"
  shows "load_table_block rd n sb kept b \<noteq> Panic"
    and "load_table_block rd n sb kept b = Ok tbl \<Longrightarrow> rd (b * ucast (block_size sb)) (bs_nat sb) = Ok tbl"
    and "load_table_block rd n sb kept b = Ok tbl \<Longrightarrow> length tbl = bs_nat sb"
proof -
  show "load_table_block rd n sb kept b \<noteq> Panic"
    using assms by (auto simp: load_table_block_def reads_full_def split: option.splits)
  show held: "load_table_block rd n sb kept b = Ok tbl \<Longrightarrow> rd (b * ucast (block_size sb)) (bs_nat sb) = Ok tbl"
    using assms(2) by (auto simp: load_table_block_def kept_ok_def split: option.splits if_splits)
  show "load_table_block rd n sb kept b = Ok tbl \<Longrightarrow> length tbl = bs_nat sb"
    using held assms(1) by (auto simp: reads_full_def)
qed

lemma read_one_sound:
  assumes "geometry_ok sb" "off + ds_nat sb \<le> length tbl"
  shows "read_one crc sb cs i off tbl \<noteq> Panic"
    and "read_one crc sb cs i off tbl = Ok g \<Longrightarrow>
      bgd_parse (slice off (off + ds_nat sb) tbl) (desc_size sb) = Ok g \<and> \<not> past_the_end sb g \<and>
      check_pointers_within sb i g (table_blocks sb) = Ok ()"
proof -
  have ds: "32 \<le> ds_nat sb" using desc_size_divides [OF assms(1)] by simp
  show "read_one crc sb cs i off tbl \<noteq> Panic"
    using ds assms(2)
    by (auto simp: read_one_def get_slice_def bgd_parse_def Let_def check_pointers_within_def outcome_simps
        split: if_splits option.splits)
  show "read_one crc sb cs i off tbl = Ok g \<Longrightarrow>
      bgd_parse (slice off (off + ds_nat sb) tbl) (desc_size sb) = Ok g \<and> \<not> past_the_end sb g \<and>
      check_pointers_within sb i g (table_blocks sb) = Ok ()"
    by (auto simp: read_one_def Let_def outcome_simps split: if_splits)
qed

lemma slot_in_block:
  assumes "geometry_ok sb"
  shows "snd (descriptor_location sb i) + ds_nat sb \<le> bs_nat sb"
  using slot_fits [OF assms, of i] by (simp add: descriptor_location_def Let_def)

lemma read_groups_no_panic:
  assumes "geometry_ok sb" "reads_full rd" "kept_ok rd sb kept"
  shows "read_groups crc rd d sb cs n i kept \<noteq> Panic"
  using assms(3)
proof (induction n arbitrary: i kept)
  case 0
  then show ?case by simp
next
  case (Suc n)
  obtain b off where loc: "descriptor_location sb i = (b, off)" by fastforce
  note load = load_table_block_sound [OF assms(2) Suc.prems, of d b]
  have "read_one crc sb cs i off tbl \<noteq> Panic" "kept_ok rd sb (Some (b, tbl))"
    if "load_table_block rd d sb kept b = Ok tbl" for tbl
    using load(2,3) [OF that] read_one_sound(1) [OF assms(1)] slot_in_block [OF assms(1), of i] loc
    by (auto simp: kept_ok_def)
  then show ?case using load(1) Suc.IH loc by (auto simp: outcome_simps)
qed

lemma read_groups_sound:
  assumes "geometry_ok sb" "reads_full rd" "kept_ok rd sb kept"
    "read_groups crc rd d sb cs n i kept = Ok gs" "unat i + n = unat (block_group_count sb)"
  shows "length gs = n \<and> (\<forall>k < n. device_descriptor rd sb (i + word_of_nat k) = Ok (gs ! k) \<and>
    bgd_bounded sb (unat i + k) (gs ! k))"
  using assms(3-5)
proof (induction n arbitrary: i kept gs)
  case 0
  then show ?case by simp
next
  case (Suc n)
  obtain b off where loc: "descriptor_location sb i = (b, off)" by fastforce
  obtain tbl g hs where step: "load_table_block rd d sb kept b = Ok tbl" "read_one crc sb cs i off tbl = Ok g"
      "read_groups crc rd d sb cs n (i + 1) (Some (b, tbl)) = Ok hs" "gs = g # hs"
    using Suc.prems(2) loc by (auto simp: outcome_simps)
  note load = load_table_block_sound(2,3) [OF assms(2) Suc.prems(1) step(1)]
  have "off + ds_nat sb \<le> length tbl" using slot_in_block [OF assms(1), of i] loc load(2) by simp
  note one = read_one_sound(2) [OF assms(1) this step(2)]
  have i: "unat i < unat (block_group_count sb)" using Suc.prems(3) by simp
  then have "unat i + 1 < 2 ^ 64" using unat_lt2p [of "block_group_count sb"] by simp
  then have i1: "unat (i + 1) = unat i + 1" by (subst unat_add_no_wrap) auto
  have "kept_ok rd sb (Some (b, tbl))" using load(1) by (simp add: kept_ok_def)
  from Suc.IH [OF this step(3)] Suc.prems(3) i1
  have IH: "length hs = n \<and> (\<forall>k < n. device_descriptor rd sb (i + 1 + word_of_nat k) = Ok (hs ! k) \<and>
      bgd_bounded sb (Suc (unat i) + k) (hs ! k))" by simp
  have "device_descriptor rd sb i = Ok g" "bgd_bounded sb (unat i) g"
    using load(1) one loc check_pointers_within_sound [OF assms(1) i] by (auto simp: device_descriptor_def)
  then show ?case using IH step(4) by (auto simp: nth_Cons add.assoc split: nat.splits)
qed

text \<open>
  C29. Reading the descriptor table never unwinds, whatever the device holds. When it succeeds there
  is one descriptor per group, each the record the device holds at that group's location, and
  every pointer in it is safe to write through: the bitmaps and the whole inode table lie inside
  the filesystem and past the superblock and descriptor blocks of group 0, and without FLEX_BG
  inside the descriptor's own group.
\<close>

theorem read_all_correct:
  assumes "geometry_ok sb" "reads_full rd"
  shows "read_all crc rd d sb cs \<noteq> Panic \<and>
    (\<forall>gs. read_all crc rd d sb cs = Ok gs \<longrightarrow> length gs = unat (block_group_count sb) \<and>
      (\<forall>k < length gs. device_descriptor rd sb (word_of_nat k) = Ok (gs ! k) \<and> bgd_bounded sb k (gs ! k)))"
proof -
  have kept: "kept_ok rd sb None" by (simp add: kept_ok_def)
  show ?thesis
    using read_groups_no_panic [OF assms kept, of crc d cs "unat (block_group_count sb)" 0]
      read_groups_sound [OF assms kept, of crc d cs "unat (block_group_count sb)" 0]
    by (auto simp: read_all_def split: option.splits if_splits)
qed

text \<open>A device with two descriptors in its third block, and the example volume with a chosen inode size.\<close>

definition example_gdt :: bytes where
  "example_gdt = put 0 (u32_to_le 10) (put 4 (u32_to_le 11) (put 8 (u32_to_le 12)
     (put 32 (u32_to_le 1030) (put 36 (u32_to_le 1031) (put 40 (u32_to_le 2011) (replicate 1024 0))))))"

definition example_disk :: reader where
  "example_disk off n = Ok (if off = 2048 \<and> n = 1024 then example_gdt else replicate n 0)"

definition sized :: "u16 \<Rightarrow> superblock" where
  "sized v = example_sb\<lparr>inode_size := v, sb_raw := put 0x58 (u16_to_le v) example_super\<rparr>"

definition example_bgd :: "u64 \<Rightarrow> u64 \<Rightarrow> u64 \<Rightarrow> bgd" where
  "example_bgd bb ib it = \<lparr>block_bitmap = bb, inode_bitmap = ib, inode_table = it, free_blocks_count = 0,
     free_inodes_count = 0, used_dirs_count = 0, bgd_flags = 0, itable_unused = 0, block_bitmap_csum = 0,
     inode_bitmap_csum = 0, bgd_checksum = 0\<rparr>"

definition example_groups :: "bgd list" where
  "example_groups = [example_bgd 10 11 12, example_bgd 1030 1031 2011]"

lemma length_example_gdt [simp]: "length example_gdt = 1024"
  by (simp add: example_gdt_def)

lemma example_gdt_slots:
  "bgd_parse (slice 0 32 example_gdt) 32 = Ok (example_bgd 10 11 12)"
  "bgd_parse (slice 32 64 example_gdt) 32 = Ok (example_bgd 1030 1031 2011)"
proof -
  have get: "get_le32 o1 (slice a (a + 32) example_gdt) = get_le32 (a + o1) example_gdt" if "o1 + 4 \<le> 32" for a o1
    using that by (simp add: get_field_defs slice_slice add.assoc)
  have get16: "get_le16 o1 (slice a (a + 32) example_gdt) = get_le16 (a + o1) example_gdt" if "o1 + 2 \<le> 32" for a o1
    using that by (simp add: get_field_defs slice_slice add.assoc)
  have vals: "get_le32 0 example_gdt = 10" "get_le32 4 example_gdt = 11" "get_le32 8 example_gdt = 12"
    "get_le32 32 example_gdt = 1030" "get_le32 36 example_gdt = 1031" "get_le32 40 example_gdt = 2011"
    by (simp_all add: example_gdt_def codec_simps)
  have zeros: "off \<in> {12, 14, 16, 18, 24, 26, 28, 30, 44, 46, 48, 50, 56, 58, 60, 62} \<Longrightarrow> get_le16 off example_gdt = 0" for off
    by (auto simp: example_gdt_def codec_simps)
  show "bgd_parse (slice 0 32 example_gdt) 32 = Ok (example_bgd 10 11 12)"
    using get [of _ 0] get16 [of _ 0]
    by (simp add: bgd_parse_def split32_def split16_def join32_def join16_def vals zeros example_bgd_def Let_def word_le_nat_alt)
  show "bgd_parse (slice 32 64 example_gdt) 32 = Ok (example_bgd 1030 1031 2011)"
    using get [of _ 32] get16 [of _ 32]
    by (simp add: bgd_parse_def split32_def split16_def join32_def join16_def vals zeros example_bgd_def Let_def word_le_nat_alt)
qed

lemma sized_fields [simp]:
  "inodes_count (sized v) = 128" "blocks_count (sized v) = 2049" "first_data_block (sized v) = 1"
  "log_block_size (sized v) = 0" "blocks_per_group (sized v) = 1024" "inodes_per_group (sized v) = 64"
  "inode_size (sized v) = v" "first_inode (sized v) = 11" "feature_compat (sized v) = 0"
  "feature_incompat (sized v) = 0" "feature_ro_compat (sized v) = 0" "desc_size (sized v) = 32"
  "reserved_gdt_blocks (sized v) = 0" "block_size (sized v) = 1024"
  by (simp_all add: sized_def block_size_def)

lemma sized_parses: "v \<noteq> 0 \<Longrightarrow> Superblock_parse (put 0x58 (u16_to_le v) example_super) = Ok (sized v)"
  unfolding sized_def by (rule parse_any_inode_size [OF example_sb_parses])
    (simp_all add: example_sb_def superblock_fields_def Let_def example_super_fields)

lemma sized_geometry: "v \<noteq> 0 \<Longrightarrow> geometry_ok (sized v)"
  by (simp add: geometry_ok_def bigalloc_def has_bits_def unat_gt_0)

lemma sized_derived [simp]:
  "block_group_count (sized v) = 2" "descs_per_block (sized v) = 32" "primary_superblock_block (sized v) = 1"
  "meta_group_holding (sized v) g = None" "group_head_metadata_blocks (sized v) 0 = 2"
proof -
  show n: "block_group_count (sized v) = 2"
    by (simp add: block_group_count_def group_count_def div_ceil_def saturating_sub_def max_def word_le_nat_alt
        word_eq_iff_unsigned)
  show d: "descs_per_block (sized v) = 32" by (simp add: descs_per_block_def word_eq_iff_unsigned)
  show "primary_superblock_block (sized v) = 1"
    by (simp add: primary_superblock_block_def SUPERBLOCK_OFFSET_def word_eq_iff_unsigned)
  show m: "meta_group_holding (sized v) g = None" for g by (simp add: meta_group_holding_def has_bits_def)
  show "group_head_metadata_blocks (sized v) 0 = 2"
    by (simp add: group_head_metadata_blocks_def m group_has_super_def of_bool64_def shared_descriptor_run_def
        has_bits_def n d div_ceil_def word_eq_iff_unsigned)
qed

lemma sized_locations:
  "descriptor_location (sized v) 0 = (2, 0)" "descriptor_location (sized v) 1 = (2, 32)"
  by (simp_all add: descriptor_location_def Let_def word_eq_iff_unsigned)

lemma example_read_one:
  assumes "table_blocks (sized v) \<in> {16, 38}"
  shows "read_one crc (sized v) cs 0 0 example_gdt = Ok (example_bgd 10 11 12)"
    and "read_one crc (sized v) cs 1 32 example_gdt = Ok (example_bgd 1030 1031 2011)"
  using assms example_gdt_slots
  by (auto simp: read_one_def get_slice_def group_desc_csum_def has_bits_def Let_def past_the_end_def
      checked_add_def check_pointers_within_def saturating_add_def example_bgd_def SUPERBLOCK_OFFSET_def
      word_less_nat_alt word_le_nat_alt min_def max_def)

lemma example_load:
  "load_table_block example_disk 4096000 (sized v) None 2 = Ok example_gdt"
  "load_table_block example_disk 4096000 (sized v) (Some (2, tbl)) 2 = Ok tbl"
  by (simp_all add: load_table_block_def checked_add_def checked_mul_def example_disk_def word_less_nat_alt)

lemma example_read_all:
  assumes "table_blocks (sized v) \<in> {16, 38}"
  shows "read_all crc example_disk 4096000 (sized v) cs = Ok example_groups"
proof -
  have "read_groups crc example_disk 4096000 (sized v) cs 2 0 None = Ok example_groups"
    using example_read_one [OF assms, of crc cs] unfolding numeral_2_eq_2
    by (simp add: sized_locations example_load example_groups_def)
  then show ?thesis by (simp add: read_all_def checked_mul_def word_less_nat_alt)
qed

lemma sized_table_blocks: "table_blocks (sized 256) = 16" "table_blocks (sized 600) = 38"
  by (simp_all add: table_blocks_def div_ceil_def word_eq_iff_unsigned)

lemma example_disk_full: "reads_full example_disk"
  by (simp add: reads_full_def example_disk_def)

theorem read_all_correct_witness:
  "let sb = sized 256; crc = (\<lambda>s bs. s); cs = from_superblock crc sb in
   read_all crc example_disk 4096000 sb cs = Ok example_groups \<and>
   length example_groups = unat (block_group_count sb) \<and> bgd_bounded sb 1 (example_bgd 1030 1031 2011)"
proof -
  let ?cs = "from_superblock (\<lambda>s bs. s) (sized 256)"
  have "read_all (\<lambda>s bs. s) example_disk 4096000 (sized 256) ?cs = Ok example_groups"
    by (rule example_read_all) (simp add: sized_table_blocks)
  with read_all_correct [OF sized_geometry [of 256] example_disk_full, of "\<lambda>s bs. s" 4096000 ?cs]
  show ?thesis by (simp add: example_groups_def Let_def All_less_Suc)
qed

section \<open>Where an inode's record is\<close>

lemma record_arith:
  fixes l p z B :: nat
  assumes "z dvd B" "0 < z" "z \<le> B" "l < p"
  shows "l div (B div z) < (p * z + B - 1) div B" "l mod (B div z) * z + z \<le> B"
    "l * z = l div (B div z) * B + l mod (B div z) * z"
proof -
  let ?m = "B div z"
  have m: "0 < ?m" "?m * z = B" using assms by (simp_all add: div_greater_zero_iff)
  have "l * z = (l div ?m * ?m + l mod ?m) * z" by (simp only: div_mult_mod_eq)
  also have "\<dots> = l div ?m * (?m * z) + l mod ?m * z" by (simp only: distrib_right mult.assoc)
  finally show split: "l * z = l div ?m * B + l mod ?m * z" unfolding m(2) .
  have "Suc l * z \<le> p * z" using assms by (intro mult_le_mono1) simp
  then have "l div ?m * B + 1 \<le> p * z" using split assms(2) by simp
  then have "Suc (l div ?m) * B \<le> p * z + B - 1" by simp
  then show "l div ?m < (p * z + B - 1) div B"
    using assms by (simp add: Suc_le_eq [symmetric] less_eq_div_iff_mult_less_eq)
  have "Suc (l mod ?m) * z \<le> ?m * z" using m(1) by (intro mult_le_mono1) (simp add: Suc_le_eq)
  then show "l mod ?m * z + z \<le> B" using m(2) by simp
qed

text \<open>Where \<open>locate_inode\<close> puts the record of an inode of group \<open>i\<close>: a whole number of records to a block.\<close>

lemma locate_inode_places:
  fixes sb :: superblock and ino :: u32
  defines "p \<equiv> unat (inodes_per_group sb)" and "z \<equiv> unat (inode_size sb)" and "m \<equiv> bs_nat sb div unat (inode_size sb)"
  assumes "geometry_ok sb" "z \<le> bs_nat sb" "0 < ino" "ino \<le> inodes_count sb" "(unat ino - 1) div p = i" "i < length gs"
  defines "l \<equiv> (unat ino - 1) mod p"
  shows "if unat (inode_table (gs ! i)) + l div m < 2 ^ 64
    then \<exists>b off. locate_inode sb gs ino = Ok (b, off) \<and> unat b = unat (inode_table (gs ! i)) + l div m \<and> unat off = l mod m * z \<and> l mod m * z + z \<le> bs_nat sb
    else locate_inode sb gs ino = Err (Corrupt ''inode table block number overflow'')"
proof -
  let ?B = "bs_nat sb" and ?g = "gs ! i"
  let ?w = "(ucast ((ino - 1) mod inodes_per_group sb) :: u64)" and ?n = "(ucast (block_size sb) :: u64) div ucast (inode_size sb)"
  have nz: "0 < p" "0 < z" using assms(4) by (auto simp: geometry_ok_def p_def z_def)
  have B: "1024 \<le> ?B" "?B \<le> 65536" using block_size_bounds assms(4) by (auto simp: geometry_ok_def)
  have n: "unat ?n = m" "0 < m" "m * z \<le> ?B" using nz assms(5) by (simp_all add: unat_div_distrib div_greater_zero_iff m_def z_def)
  have pred: "unat (ino - 1) = unat ino - 1" using assms(6) by (metis unat_minus_one word_neq_0_conv)
  have idx: "unat ((ino - 1) div inodes_per_group sb) = i" "unat ?w = l"
    using assms(8) pred by (simp_all add: unat_div_distrib unat_mod_distrib p_def l_def)
  have wq: "unat (?w div ?n) = l div m" "unat (?w mod ?n) = l mod m" using idx n(1) by (simp_all add: unat_div_distrib unat_mod_distrib)
  have "Suc (l mod m) * z \<le> m * z" using n(2) by (intro mult_le_mono1) (simp add: Suc_le_eq)
  then have r: "l mod m * z + z \<le> ?B" using n(3) by simp
  have off: "unat (?w mod ?n * ucast (inode_size sb)) = l mod m * z"
    using r B wq by (subst unat_mult_no_wrap) (auto simp: z_def)
  then have small: "unat (?w mod ?n * ucast (inode_size sb)) < 65536" using r B nz by linarith
  have guards: "\<not> (ino = 0 \<or> ino > inodes_count sb)" "\<not> (inodes_per_group sb = 0 \<or> inode_size sb = 0)"
    "\<not> length gs \<le> i" "\<not> (ucast (block_size sb) :: u64) < ucast (inode_size sb)" "?n \<noteq> 0"
    "\<not> 2 ^ 32 \<le> ?w mod ?n * ucast (inode_size sb)"
    using assms(5-7,9) nz n(1,2) small by (auto simp: word_less_nat_alt word_le_nat_alt p_def z_def)
  show ?thesis
  proof (cases "unat (inode_table ?g) + l div m < 2 ^ 64")
    case True
    let ?b = "inode_table ?g + ?w div ?n" and ?o = "ucast (?w mod ?n * ucast (inode_size sb)) :: u32"
    have "checked_add (inode_table ?g) (?w div ?n) = Some ?b" using True wq by (simp add: checked_add_def)
    then have "locate_inode sb gs ino = Ok (?b, ?o)"
      unfolding locate_inode_def Let_def idx(1) by (simp only: guards if_False option.case)
    moreover have "unat ?b = unat (inode_table ?g) + l div m" using True wq by (subst unat_add_no_wrap) auto
    moreover have "unat ?o = l mod m * z" using small off by (simp add: unsigned_ucast_eq take_bit_nat_eq_self)
    ultimately show ?thesis using True r by simp
  next
    case False
    then have "checked_add (inode_table ?g) (?w div ?n) = None" using wq by (simp add: checked_add_def)
    then have "locate_inode sb gs ino = Err (Corrupt ''inode table block number overflow'')"
      unfolding locate_inode_def Let_def idx(1) by (simp only: guards if_False option.case)
    then show ?thesis using False by simp
  qed
qed

text \<open>
  Where the inode size divides the block size, the records of a group form one array that
  starts at its inode table: the record of every inode of an existing group lies in one block,
  inside the part of the table that \<open>read_all\<close> bounds by the filesystem. A number outside the
  filesystem's inodes, or in a group without descriptor, is refused as such.
\<close>

theorem locate_inode_correct:
  assumes "geometry_ok sb" "unat (inode_size sb) dvd bs_nat sb" "i = (unat ino - 1) div unat (inodes_per_group sb)"
    "\<forall>k < length gs. bgd_bounded sb k (gs ! k)"
  shows "if ino = 0 \<or> ino > inodes_count sb \<or> length gs \<le> i then locate_inode sb gs ino = Err (InvalidInode ino)
    else \<exists>b off. locate_inode sb gs ino = Ok (b, off) \<and>
      unat b * bs_nat sb + unat off = unat (inode_table (gs ! i)) * bs_nat sb +
        (unat ino - 1) mod unat (inodes_per_group sb) * unat (inode_size sb) \<and>
      unat off + unat (inode_size sb) \<le> bs_nat sb \<and> unat (inode_table (gs ! i)) \<le> unat b \<and>
      unat b < unat (inode_table (gs ! i)) + unat (table_blocks sb) \<and> unat b < unat (blocks_count sb)"
proof -
  let ?p = "unat (inodes_per_group sb)" and ?z = "unat (inode_size sb)" and ?B = "bs_nat sb" and ?l = "(unat ino - 1) mod unat (inodes_per_group sb)"
  have nz: "0 < ?p" "0 < ?z" using assms(1) by (auto simp: geometry_ok_def)
  have "1024 \<le> ?B" using block_size_bounds assms(1) by (auto simp: geometry_ok_def)
  then have z: "?z \<le> ?B" using assms(2) dvd_imp_le by force
  show ?thesis
  proof (cases "ino = 0 \<or> ino > inodes_count sb \<or> length gs \<le> i")
    case True
    have "0 < ino \<Longrightarrow> unat (ino - 1) = unat ino - 1" by (metis unat_minus_one word_neq_0_conv)
    then show ?thesis using True nz assms(3)
      by (auto simp: locate_inode_def Let_def unat_div_distrib unat_gt_0 word_gt_0)
  next
    case False
    have bound: "unat (inode_table (gs ! i)) + unat (table_blocks sb) \<le> unat (blocks_count sb)"
      using assms(4) False by (auto simp: bgd_bounded_def Let_def)
    note arith = record_arith [OF assms(2) nz(2) z, of ?l ?p]
    have q: "?l div (?B div ?z) < unat (table_blocks sb)" using arith(1) nz(1) by (simp add: unat_table_blocks [OF assms(1)])
    then have "unat (inode_table (gs ! i)) + ?l div (?B div ?z) < 2 ^ 64" using bound unat_lt2p [of "blocks_count sb"] by simp
    then obtain b off where b: "locate_inode sb gs ino = Ok (b, off)" "unat b = unat (inode_table (gs ! i)) + ?l div (?B div ?z)"
      "unat off = ?l mod (?B div ?z) * ?z" "?l mod (?B div ?z) * ?z + ?z \<le> ?B"
      using locate_inode_places [OF assms(1) z, of ino i gs] False assms(3) by (auto simp: word_gt_0 not_less)
    have "unat b * ?B + unat off = unat (inode_table (gs ! i)) * ?B + ?l * ?z"
      unfolding b(2,3) distrib_right using arith(3) nz(1) by simp
    then show ?thesis unfolding if_not_P [OF False] using b q bound by auto
  qed
qed

lemma example_groups_bounded:
  assumes "k < length example_groups" shows "bgd_bounded (sized 256) k (example_groups ! k)"
proof -
  have "k = 0 \<or> k = 1" using assms by (auto simp: example_groups_def)
  then show ?thesis
    by (auto simp: bgd_bounded_def head_end_def sized_table_blocks example_groups_def example_bgd_def)
qed

theorem locate_inode_correct_witness:
  "\<exists>b off. locate_inode (sized 256) example_groups 70 = Ok (b, off) \<and>
     unat b * 1024 + unat off = 2011 * 1024 + 5 * 256 \<and> unat b < 2049"
  using locate_inode_correct [OF sized_geometry, of 256 1 70 example_groups] example_groups_bounded
  by (auto simp: word_less_nat_alt example_groups_def example_bgd_def)

lemma last_record_escapes:
  fixes p z B :: nat
  assumes "0 < z" "z \<le> B" "\<not> z dvd B" "B * (B div z) \<le> p"
  shows "(p * z + B - 1) div B \<le> (p - 1) div (B div z)"
proof -
  let ?m = "B div z" and ?k = "(p - 1) div (B div z)"
  have m: "0 < ?m" "?m * z < B" using assms by (auto simp: div_greater_zero_iff) (metis div_times_less_eq_dividend dvd_triv_right le_neq_implies_less)
  have "?m \<le> B * ?m" using assms m by simp
  then have p: "0 < p" using m(1) assms(4) by linarith
  have "p - 1 < ?k * ?m + ?m" using m(1) div_mult_mod_eq [of "p - 1" ?m] mod_less_divisor [OF m(1), of "p - 1"] by linarith
  then have k: "p \<le> ?k * ?m + ?m" using p by linarith
  have "p * z * ?m = p * (?m * z)" by simp
  also have "\<dots> \<le> p * (B - 1)" using m(2) by (intro mult_le_mono2) simp
  also have "\<dots> = p * B - p" by (simp add: right_diff_distrib')
  also have "\<dots> \<le> p * B - ?m * B" using assms(4) by (simp add: mult.commute diff_le_mono2)
  also have "\<dots> \<le> (?k * ?m + ?m) * B - ?m * B" using k by (intro diff_le_mono mult_le_mono1)
  also have "\<dots> = ?k * B * ?m" by (simp only: distrib_right add_diff_cancel_right') simp
  finally have "p * z \<le> ?k * B" using m(1) by simp
  then have "p * z + B - 1 < Suc ?k * B" using assms(1,2) by simp
  then show ?thesis using assms(1,2) by (simp add: less_Suc_eq_le [symmetric] div_less_iff_less_mult)
qed

text \<open>The last inode number of a group.\<close>

lemma last_inode_of_group:
  assumes "0 < p" "(i + 1) * p \<le> unat (n :: u32)"
  shows "\<exists>ino :: u32. 0 < ino \<and> (unat ino - 1) div p = i \<and> (unat ino - 1) mod p = p - 1"
proof -
  let ?ino = "word_of_nat ((i + 1) * p) :: u32"
  obtain r where r: "p = Suc r" using assms(1) gr0_implies_Suc by blast
  have u: "unat ?ino = (i + 1) * p"
    using assms(2) unat_lt2p [of n] by (simp add: unsigned_of_nat take_bit_nat_eq_self del: of_nat_mult of_nat_add of_nat_Suc add_mult_distrib add_mult_distrib2)
  then have idx: "unat ?ino - 1 = r + i * p" by (simp add: r)
  have "0 < ?ino" unfolding word_less_nat_alt u using assms(1) by simp
  moreover have "(unat ?ino - 1) div p = i" "(unat ?ino - 1) mod p = p - 1"
    unfolding idx by (simp_all add: r del: mult_Suc_right)
  ultimately show ?thesis by blast
qed

text \<open>
  C38. The bound that \<open>read_all\<close> puts on a group's inode table is the right one exactly when the group's last record, placed a whole number to a block as \<open>locate_inode\<close> places them, falls inside it: then, and
  only then, is every inode of the group located inside the bounded table. An inode size that divides the block size always satisfies this. One that does not fails it as soon as the group has a block's bytes times
  a block's records of inodes: some inode of the group is then located past the table whose bound was checked. No inode size but zero is refused by the parser of the superblock.
\<close>

theorem inode_table_bound_exact:
  fixes sb :: superblock and gs :: "bgd list"
  defines "p \<equiv> unat (inodes_per_group sb)" and "z \<equiv> unat (inode_size sb)" and "tb \<equiv> unat (table_blocks sb)"
  assumes "geometry_ok sb" "z \<le> bs_nat sb" "i < length gs" "bgd_bounded sb i (gs ! i)" "(i + 1) * p \<le> unat (inodes_count sb)"
  shows "((\<forall>ino. 0 < ino \<and> (unat ino - 1) div p = i \<longrightarrow> (\<exists>b off. locate_inode sb gs ino = Ok (b, off) \<and>
       unat (inode_table (gs ! i)) \<le> unat b \<and> unat b < unat (inode_table (gs ! i)) + tb)) \<longleftrightarrow> (p - 1) div (bs_nat sb div z) < tb) \<and>
    (z dvd bs_nat sb \<longrightarrow> (p - 1) div (bs_nat sb div z) < tb) \<and>
    (\<not> z dvd bs_nat sb \<and> bs_nat sb * (bs_nat sb div z) \<le> p \<and> unat (inode_table (gs ! i)) + p < 2 ^ 64 \<longrightarrow>
       (\<exists>ino b off. (unat ino - 1) div p = i \<and> locate_inode sb gs ino = Ok (b, off) \<and> unat (inode_table (gs ! i)) + tb \<le> unat b)) \<and>
    (\<forall>raw sb' v. Superblock_parse raw = Ok sb' \<and> 1 \<le> rev_level sb' \<and> v \<noteq> 0 \<longrightarrow>
       Superblock_parse (put 0x58 (u16_to_le v) raw) = Ok (sb'\<lparr>inode_size := v, sb_raw := put 0x58 (u16_to_le v) raw\<rparr>))"
proof -
  let ?B = "bs_nat sb" and ?t = "unat (inode_table (gs ! i))" and ?m = "bs_nat sb div z"
  have nz: "0 < p" "0 < z" using assms(4) by (auto simp: geometry_ok_def p_def z_def)
  have bound: "?t + tb < 2 ^ 64" using assms(7) unat_lt2p [of "blocks_count sb"] by (auto simp: bgd_bounded_def Let_def tb_def)
  have tb: "tb = (p * z + ?B - 1) div ?B" using unat_table_blocks [OF assms(4)] by (simp add: tb_def p_def z_def)
  have member: "0 < ino \<and> ino \<le> inodes_count sb" if "0 < ino" "(unat ino - 1) div p = i" for ino
  proof -
    have "unat ino - 1 < (i + 1) * p" using that(2) nz(1) by (metis Suc_eq_plus1 div_less_iff_less_mult lessI)
    then show ?thesis using that(1) assms(8) by (auto simp: word_le_nat_alt word_less_nat_alt)
  qed
  note places = locate_inode_places [OF assms(4), of _ i gs, folded p_def z_def, OF assms(5) _ _ _ assms(6)]
  have inside: "(\<exists>b off. locate_inode sb gs ino = Ok (b, off) \<and> ?t \<le> unat b \<and> unat b < ?t + tb) \<longleftrightarrow> (unat ino - 1) mod p div ?m < tb"
    if "0 < ino" "(unat ino - 1) div p = i" for ino
    using places [of ino] member [OF that] that(2) bound by (auto split: if_splits)
  obtain last :: u32 where l: "0 < last" "(unat last - 1) div p = i" "(unat last - 1) mod p = p - 1"
    using last_inode_of_group [OF nz(1) assms(8)] by blast
  have all: "(unat ino - 1) mod p div ?m \<le> (p - 1) div ?m" for ino :: u32
    using mod_less_divisor [OF nz(1), of "unat ino - 1"] by (intro div_le_mono) linarith
  have "(\<forall>ino. 0 < ino \<and> (unat ino - 1) div p = i \<longrightarrow> (\<exists>b off. locate_inode sb gs ino = Ok (b, off) \<and> ?t \<le> unat b \<and> unat b < ?t + tb)) \<longleftrightarrow>
      (p - 1) div ?m < tb"
  proof (intro iffI allI impI)
    assume "\<forall>ino. 0 < ino \<and> (unat ino - 1) div p = i \<longrightarrow> (\<exists>b off. locate_inode sb gs ino = Ok (b, off) \<and> ?t \<le> unat b \<and> unat b < ?t + tb)"
    then have "(unat last - 1) mod p div ?m < tb" using inside [OF l(1,2)] l(1,2) by blast
    then show "(p - 1) div ?m < tb" by (simp only: l(3))
  next
    fix ino :: u32 assume "(p - 1) div ?m < tb" "0 < ino \<and> (unat ino - 1) div p = i"
    then show "\<exists>b off. locate_inode sb gs ino = Ok (b, off) \<and> ?t \<le> unat b \<and> unat b < ?t + tb"
      using inside [of ino] all [of ino] by simp
  qed
  moreover have "(p - 1) div ?m < tb" if "z dvd ?B" using record_arith(1) [OF that nz(2) assms(5), of "p - 1" p] nz(1) tb by simp
  moreover have "\<exists>ino b off. (unat ino - 1) div p = i \<and> locate_inode sb gs ino = Ok (b, off) \<and> ?t + tb \<le> unat b"
    if odd: "\<not> z dvd ?B" "?B * ?m \<le> p" "?t + p < 2 ^ 64"
  proof -
    have "tb \<le> (p - 1) div ?m" unfolding tb by (rule last_record_escapes [OF nz(2) assms(5) odd(1,2)])
    moreover have "(p - 1) div ?m \<le> p" by (meson diff_le_self div_le_dividend order_trans)
    ultimately show ?thesis using places [of last] member [OF l(1,2)] l odd(3) by (auto split: if_splits)
  qed
  ultimately show ?thesis using parse_any_inode_size by blast
qed

text \<open>
  The example volume with inodes of 600 bytes: the parser accepts it, its descriptors pass every check of \<open>read_all\<close>, the bound fails for group 1, and inode 128 is located in a block past the end of the filesystem.
\<close>

theorem inode_table_bound_exact_witness:
  "Superblock_parse (put 0x58 (u16_to_le 600) example_super) = Ok (sized 600) \<and>
   read_all (\<lambda>s bs. s) example_disk 4096000 (sized 600) \<lparr>seed = 0, enabled = False\<rparr> = Ok example_groups \<and>
   \<not> (\<forall>ino. 0 < ino \<and> (unat ino - 1) div 64 = 1 \<longrightarrow> (\<exists>b off. locate_inode (sized 600) example_groups ino = Ok (b, off) \<and>
       2011 \<le> unat b \<and> unat b < 2011 + 38)) \<and>
   (\<exists>b off. locate_inode (sized 600) example_groups 128 = Ok (b, off) \<and> b > blocks_count (sized 600))"
proof (intro conjI)
  show "Superblock_parse (put 0x58 (u16_to_le 600) example_super) = Ok (sized 600)" by (rule sized_parses) simp
  show "read_all (\<lambda>s bs. s) example_disk 4096000 (sized 600) \<lparr>seed = 0, enabled = False\<rparr> = Ok example_groups" by (rule example_read_all) (simp add: sized_table_blocks)
  have g: "example_groups ! 1 = example_bgd 1030 1031 2011" by (simp add: example_groups_def)
  have "bgd_bounded (sized 600) 1 (example_groups ! 1)"
    unfolding g by (auto simp: bgd_bounded_def head_end_def sized_table_blocks example_bgd_def)
  note exact = inode_table_bound_exact [of "sized 600" 1 example_groups, OF sized_geometry _ _ this]
  show "\<not> (\<forall>ino. 0 < ino \<and> (unat ino - 1) div 64 = 1 \<longrightarrow> (\<exists>b off. locate_inode (sized 600) example_groups ino = Ok (b, off) \<and>
       2011 \<le> unat b \<and> unat b < 2011 + 38))"
    using exact unfolding g by (simp add: sized_table_blocks example_groups_def example_bgd_def)
  have div: "(1024 :: u64) div 600 = 1" "(127 :: u32) div 64 = 1" "(127 :: u32) mod 64 = 63"
    by (simp_all add: word_eq_iff_unsigned)
  have "locate_inode (sized 600) example_groups 128 = Ok (2074, 0)"
    by (simp add: locate_inode_def Let_def checked_add_def div word_less_nat_alt word_le_nat_alt
        example_groups_def example_bgd_def)
  then show "\<exists>b off. locate_inode (sized 600) example_groups 128 = Ok (b, off) \<and> b > blocks_count (sized 600)"
    by (simp add: word_less_nat_alt)
qed

section \<open>The two descriptor checksums\<close>

text \<open>\<open>crc32c_append\<close> continues a checksum: feeding two pieces is feeding their concatenation.\<close>

definition crc_continues :: "crc_fn \<Rightarrow> bool" where
  "crc_continues crc \<longleftrightarrow> (\<forall>s a b. crc (crc s a) b = crc s (a @ b))"

lemma linux_crc32c_continues:
  "crc_continues crc \<Longrightarrow> linux_crc32c crc (linux_crc32c crc s a) b = linux_crc32c crc s (a @ b)"
  by (simp add: crc_continues_def linux_crc32c_def)

text \<open>
  Under METADATA_CSUM the checksum the mount path expects of a descriptor, computed in four
  pieces around the checksum field, is the one the stand-alone verifier accepts, computed over a
  copy with that field zeroed: the two agree on every descriptor and every group number.
\<close>

theorem descriptor_checksums_agree:
  assumes "crc_continues crc" "enabled cs" "has_bits (feature_ro_compat sb) RoCompat_METADATA_CSUM"
    "32 \<le> ds_nat sb" "ds_nat sb \<le> length raw"
  shows "verify_bgd crc cs grp raw (desc_size sb) \<longleftrightarrow> group_desc_csum crc sb cs grp raw = Some (get_le16 0x1E raw)"
proof -
  let ?n = "ds_nat sb"
  have "put 0x1E [0, 0] (take ?n raw) = take 0x1E raw @ [0, 0] @ slice 0x20 ?n raw"
    using assms(4,5) by (simp add: put_def slice_def drop_take)
  then show ?thesis
    using assms by (auto simp: verify_bgd_def group_desc_csum_def crc_with_prefix_def linux_crc32c_continues Let_def)
qed

theorem descriptor_checksums_agree_witness:
  "let crc = (\<lambda>s bs. foldl (\<lambda>c b. c + ucast b) s bs); sb = (sized 256)\<lparr>feature_ro_compat := 0x400\<rparr>;
       cs = \<lparr>seed = 0, enabled = True\<rparr> in
   verify_bgd crc cs 0 example_gdt 32 \<longleftrightarrow> group_desc_csum crc sb cs 0 example_gdt = Some (get_le16 0x1E example_gdt)"
proof -
  have "crc_continues (\<lambda>s bs. foldl (\<lambda>c b. c + ucast b) s bs)" by (simp add: crc_continues_def)
  from descriptor_checksums_agree [OF this, of "\<lparr>seed = 0, enabled = True\<rparr>"
      "(sized 256)\<lparr>feature_ro_compat := 0x400\<rparr>" example_gdt 0]
  show ?thesis by (simp add: has_bits_def RoCompat_METADATA_CSUM_def)
qed

end
