(* ===== verification/Bitmap.thy ===== *)
theory Bitmap
  imports Ext4_Error
begin

unbundle bit_operations_syntax

text \<open>
  The bit-level half of the allocator (\<open>src/alloc.rs\<close>): testing a bit of a bitmap, the three-phase
  scan for a free bit, the scan for a free run, and the in-place application of a planned change.
  Bit indices are \<open>u32\<close>, and the word scan adds to them unchecked. On a bitmap of 512 MiB that sum wraps and the
  loop can go round for ever; the scan is therefore a partial function, with \<open>None\<close> for not returning. No
  bitmap the driver reads is longer than a block of 64 KiB, and there it returns.
\<close>

section \<open>Bits of a bitmap\<close>

definition bit_is_set :: "bytes \<Rightarrow> nat \<Rightarrow> bool" where
  "bit_is_set bitmap idx \<longleftrightarrow>
     idx div 8 < length bitmap \<and> bitmap ! (idx div 8) AND push_bit (idx mod 8) 1 \<noteq> 0"

text \<open>\<open>u64::trailing_ones\<close>.\<close>

definition trailing_ones :: "u64 \<Rightarrow> nat" where
  "trailing_ones w = length (takeWhile (\<lambda>k. bit w k) [0 ..< 64])"

definition clamp_bits :: "bytes \<Rightarrow> nat \<Rightarrow> nat" where
  "clamp_bits bitmap max_bits = min max_bits (min (length bitmap * 8) (2 ^ 32 - 1))"

definition clamp_word :: "bytes \<Rightarrow> u32 \<Rightarrow> u32" where
  "clamp_word bitmap max_bits = min max_bits (word_of_nat (min (length bitmap * 8) (2 ^ 32 - 1)))"

text \<open>The three loops of \<open>find_first_free\<close>: each ends with an answer or with the index it reached.\<close>

lemma unat_next: "(i :: u32) < m \<Longrightarrow> unat (i + 1) = Suc (unat i)"
  using unat_lt2p [of m] by (subst unat_add_no_wrap) (auto simp: word_less_nat_alt)

function align_scan :: "bytes \<Rightarrow> u32 \<Rightarrow> u32 \<Rightarrow> u32 option + u32" where
  "align_scan bitmap max_bits i =
     (if i < max_bits \<and> i mod 64 \<noteq> 0
      then if \<not> bit_is_set bitmap (unat i) then Inl (Some i) else align_scan bitmap max_bits (i + 1)
      else Inr i)"
  by pat_completeness auto
termination
  by (relation "measure (\<lambda>(_, m, i). unat m - unat i)") (auto simp: unat_next word_less_nat_alt)

partial_function (option) word_scan :: "bytes \<Rightarrow> u32 \<Rightarrow> u32 \<Rightarrow> (u32 option + u32) option" where
  "word_scan bitmap max_bits i =
     (if i + 64 \<le> max_bits \<and> \<not> unat i div 8 + 8 > length bitmap
      then let w = u64_from_le (slice (unat i div 8) (unat i div 8 + 8) bitmap) in
        if w \<noteq> NOT 0
        then let cand = i + word_of_nat (trailing_ones w) in Some (Inl (if cand < max_bits then Some cand else None))
        else word_scan bitmap max_bits (i + 64)
      else Some (Inr i))"

declare word_scan.simps [code]

function tail_scan :: "bytes \<Rightarrow> u32 \<Rightarrow> u32 \<Rightarrow> u32 option" where
  "tail_scan bitmap max_bits i =
     (if i < max_bits
      then if \<not> bit_is_set bitmap (unat i) then Some i else tail_scan bitmap max_bits (i + 1)
      else None)"
  by pat_completeness auto
termination
  by (relation "measure (\<lambda>(_, m, i). unat m - unat i)") (auto simp: unat_next word_less_nat_alt)

declare align_scan.simps [simp del] tail_scan.simps [simp del]

definition find_first_free :: "bytes \<Rightarrow> u32 \<Rightarrow> u32 \<Rightarrow> u32 option option" where
  "find_first_free bitmap start max_bits =
     (let max_bits = clamp_word bitmap max_bits in
      if start \<ge> max_bits then Some None
      else case align_scan bitmap max_bits start of
          Inl r \<Rightarrow> Some r
        | Inr i \<Rightarrow> Option.bind (word_scan bitmap max_bits i) (\<lambda>s. case s of
            Inl r \<Rightarrow> Some r
          | Inr i \<Rightarrow> Some (tail_scan bitmap max_bits i)))"

text \<open>The verification walk inside \<open>find_free_run\<close>: where it stops.\<close>

function run_stop :: "bytes \<Rightarrow> u32 \<Rightarrow> u32 \<Rightarrow> u32" where
  "run_stop bitmap run_end j =
     (if j < run_end \<and> \<not> bit_is_set bitmap (unat j) then run_stop bitmap run_end (j + 1) else j)"
  by pat_completeness auto
termination
  by (relation "measure (\<lambda>(_, e, j). unat e - unat j)") (auto simp: unat_next word_less_nat_alt)

declare run_stop.simps [simp del]

text \<open>The loop of \<open>find_free_run\<close>; \<open>max_bits\<close> is already clamped.\<close>

partial_function (option) free_run_loop :: "bytes \<Rightarrow> u32 \<Rightarrow> u32 \<Rightarrow> u32 \<Rightarrow> u32 option option" where
  "free_run_loop bitmap max_bits count i =
     (case checked_add i count of None \<Rightarrow> Some None
      | Some e \<Rightarrow> if \<not> e \<le> max_bits then Some None
          else Option.bind (find_first_free bitmap i max_bits) (\<lambda>found. case found of
            None \<Rightarrow> Some None
          | Some run_start \<Rightarrow> (case checked_add run_start count of None \<Rightarrow> Some None
              | Some run_end \<Rightarrow> if \<not> run_end \<le> max_bits then Some None
                  else let j = run_stop bitmap run_end (run_start + 1) in
                    if j = run_end then Some (Some run_start)
                    else (case checked_add j 1 of None \<Rightarrow> Some None
                      | Some i \<Rightarrow> free_run_loop bitmap max_bits count i))))"

declare free_run_loop.simps [code]

definition find_free_run :: "bytes \<Rightarrow> u32 \<Rightarrow> u32 \<Rightarrow> u32 \<Rightarrow> u32 option option" where
  "find_free_run bitmap start max_bits count =
     (if count = 0 then Some None else free_run_loop bitmap (clamp_word bitmap max_bits) count start)"

section \<open>Reading bits\<close>

lemma bit_is_set_iff: "bit_is_set bitmap i \<longleftrightarrow> i div 8 < length bitmap \<and> bit (bitmap ! (i div 8)) (i mod 8)"
  by (simp add: bit_is_set_def push_bit_of_1 and_exp_eq_0_iff_not_bit)

lemma bit_shift_add:
  fixes a b :: nat assumes "a < 256"
  shows "bit (a + 256 * b) k \<longleftrightarrow> (if k < 8 then bit a k else bit b (k - 8))"
proof (cases "k < 8")
  case True
  then have e: "(256 :: nat) = 2 ^ k * 2 ^ (8 - k)" by (simp flip: power_add)
  have "(a + 256 * b) div 2 ^ k = a div 2 ^ k + 2 ^ (8 - k) * b"
    unfolding e mult.assoc by (subst div_mult_self2) simp_all
  then show ?thesis using True by (simp add: bit_iff_odd)
next
  case False
  then obtain j where "k = 8 + j" using le_Suc_ex not_less by blast
  then have e: "(2 :: nat) ^ k = 256 * 2 ^ (k - 8)" by (simp add: power_add)
  have "(a + 256 * b) div 2 ^ k = (a + 256 * b) div 256 div 2 ^ (k - 8)"
    unfolding e by (rule div_mult2_eq)
  then show ?thesis using False assms by (simp add: bit_iff_odd)
qed

lemma bit_le_val: "bit (le_val bs) k \<longleftrightarrow> k div 8 < length bs \<and> bit (bs ! (k div 8)) (k mod 8)"
proof (induction bs arbitrary: k)
  case Nil
  then show ?case by simp
next
  case (Cons b bs)
  have "bit (unat b) k = bit b k" for k by (simp add: bit_unsigned_iff)
  then show ?case
    using Cons [of "k - 8"] unat_u8_bound [of b]
    by (auto simp: bit_shift_add le_div_geq le_mod_geq nth_Cons' not_less)
qed

lemma word_bits:
  assumes "byte + 8 \<le> length bitmap" "k < 64"
  shows "bit (u64_from_le (slice byte (byte + 8) bitmap)) k \<longleftrightarrow> bit_is_set bitmap (8 * byte + k)"
proof -
  have "k div 8 < 8" using assms by simp
  then show ?thesis
    using assms by (auto simp: u64_from_le_def bit_of_nat_iff bit_le_val bit_is_set_iff nth_slice)
qed

section \<open>The scans against a linear search\<close>

definition first_free :: "bytes \<Rightarrow> nat \<Rightarrow> nat \<Rightarrow> nat option" where
  "first_free bitmap i m = find (\<lambda>k. \<not> bit_is_set bitmap k) [i ..< m]"

lemma first_free_step:
  "first_free bitmap i m =
     (if i < m then if \<not> bit_is_set bitmap i then Some i else first_free bitmap (i + 1) m else None)"
  by (simp add: first_free_def upt_conv_Cons)

lemma first_free_skip:
  assumes "i \<le> j" "j \<le> m" "\<And>k. i \<le> k \<Longrightarrow> k < j \<Longrightarrow> bit_is_set bitmap k"
  shows "first_free bitmap i m = first_free bitmap j m"
  using assms
proof (induction "j - i" arbitrary: i)
  case 0
  then show ?case by simp
next
  case (Suc n)
  have lt: "i < j" using Suc.hyps(2) by linarith
  then have "bit_is_set bitmap i" using Suc.prems(3) by blast
  then have "first_free bitmap i m = first_free bitmap (i + 1) m"
    using lt Suc.prems(2) by (subst first_free_step) simp
  also have "\<dots> = first_free bitmap j m"
    using lt Suc.hyps(2) Suc.prems by (intro Suc.hyps(1)) auto
  finally show ?case .
qed

lemma first_free_Some:
  "first_free bitmap i m = Some c \<longleftrightarrow>
     i \<le> c \<and> c < m \<and> \<not> bit_is_set bitmap c \<and> (\<forall>k. i \<le> k \<and> k < c \<longrightarrow> bit_is_set bitmap k)"
proof
  assume "first_free bitmap i m = Some c"
  then obtain n where n: "n < m - i" "c = i + n" "\<not> bit_is_set bitmap c"
      "\<forall>j < n. bit_is_set bitmap (i + j)"
    by (auto simp: first_free_def find_Some_iff)
  have "bit_is_set bitmap k" if "i \<le> k" "k < c" for k
    using n(4) [rule_format, of "k - i"] that n(2) by simp
  then show "i \<le> c \<and> c < m \<and> \<not> bit_is_set bitmap c \<and> (\<forall>k. i \<le> k \<and> k < c \<longrightarrow> bit_is_set bitmap k)"
    using n by simp
next
  assume c: "i \<le> c \<and> c < m \<and> \<not> bit_is_set bitmap c \<and> (\<forall>k. i \<le> k \<and> k < c \<longrightarrow> bit_is_set bitmap k)"
  then have "first_free bitmap i m = first_free bitmap c m" by (intro first_free_skip) auto
  then show "first_free bitmap i m = Some c" using c by (simp add: first_free_step [of bitmap c m])
qed

lemma first_free_None: "first_free bitmap i m = None \<longleftrightarrow> (\<forall>k. i \<le> k \<and> k < m \<longrightarrow> bit_is_set bitmap k)"
  by (auto simp: first_free_def find_None_iff)

text \<open>What keeps the word scan's sum inside \<open>u32\<close>: a bitmap below 512 MiB, or a bound that leaves room for one more word.\<close>

definition scan_fits :: "bytes \<Rightarrow> u32 \<Rightarrow> bool" where
  "scan_fits bitmap m \<longleftrightarrow> length bitmap < 2 ^ 29 \<or> unat m < 2 ^ 32 - 64"

abbreviation as_words :: "nat option \<Rightarrow> u32 option" where
  "as_words r \<equiv> map_option word_of_nat r"

lemma unat_clamp_word: "unat (clamp_word bitmap m) = clamp_bits bitmap (unat m)"
proof -
  have "unat (word_of_nat (min (length bitmap * 8) (2 ^ 32 - 1)) :: u32) = min (length bitmap * 8) (2 ^ 32 - 1)"
    by (simp add: unsigned_of_nat take_bit_nat_eq_self)
  then show ?thesis by (simp add: clamp_word_def clamp_bits_def unat_min)
qed

lemma clamp_clamp [simp]: "clamp_bits bitmap (clamp_bits bitmap m) = clamp_bits bitmap m"
  by (simp add: clamp_bits_def)

lemma clamp_word_clamp [simp]: "clamp_word bitmap (clamp_word bitmap m) = clamp_word bitmap m"
  by (simp add: clamp_word_def)

lemma scan_fits_clamp: "scan_fits bitmap m \<Longrightarrow> scan_fits bitmap (clamp_word bitmap m)"
  by (auto simp: scan_fits_def unat_clamp_word clamp_bits_def)

lemma tail_scan_eq: "tail_scan bitmap m i = as_words (first_free bitmap (unat i) (unat m))"
proof (induction bitmap m i rule: tail_scan.induct)
  case (1 bitmap m i)
  then show ?case
    by (auto simp: tail_scan.simps [of bitmap m i] first_free_step [of bitmap "unat i"] word_less_nat_alt unat_next [unfolded word_less_nat_alt])
qed

lemma align_scan_cases:
  "i \<le> m \<Longrightarrow> (case align_scan bitmap m i of Inl r \<Rightarrow> r = as_words (first_free bitmap (unat i) (unat m))
   | Inr j \<Rightarrow> j \<le> m \<and> first_free bitmap (unat i) (unat m) = first_free bitmap (unat j) (unat m) \<and> (unat j mod 64 = 0 \<or> j = m))"
proof (induction bitmap m i rule: align_scan.induct)
  case (1 bitmap m i)
  have m64: "i mod 64 = 0 \<longleftrightarrow> unat i mod 64 = 0" by (simp add: word_unat_eq_iff unat_mod_distrib)
  show ?case
  proof (cases "i < m \<and> i mod 64 \<noteq> 0")
    case False
    then have "align_scan bitmap m i = Inr i" by (subst align_scan.simps) (rule if_not_P)
    then show ?thesis using False 1(2) m64 by auto
  next
    case True
    then have n: "unat (i + 1) = Suc (unat i)" "i + 1 \<le> m" "unat i < unat m" using unat_next [of i m] by (auto simp: word_less_nat_alt word_le_nat_alt)
    show ?thesis
      using True n 1(1) by (auto simp: align_scan.simps [of bitmap m i] first_free_step [of bitmap "unat i"] split: sum.splits)
  qed
qed

lemma trailing_ones_spec:
  assumes "w \<noteq> NOT 0"
  shows "trailing_ones w < 64 \<and> \<not> bit w (trailing_ones w) \<and> (\<forall>k < trailing_ones w. bit w k)"
proof -
  let ?t = "takeWhile (\<lambda>k. bit w k) [0 ..< 64]"
  have "\<exists>k < 64. \<not> bit w k"
    using assms by (auto intro: bit_eqI simp: bit_not_iff)
  then have "?t \<noteq> [0 ..< 64]" by (auto simp: takeWhile_eq_all_conv)
  then have lt: "length ?t < 64"
    by (metis length_takeWhile_le length_upt diff_zero le_neq_implies_less takeWhile_eq_take take_all_iff order_refl)
  then have "\<not> bit w ([0 ..< 64] ! length ?t)" by (intro nth_length_takeWhile [where xs = "[0 ..< 64]"]) simp
  moreover have "bit w k" if "k < length ?t" for k
    using that lt takeWhile_nth [OF that] set_takeWhileD [of k "\<lambda>k. bit w k" "[0 ..< 64]"] nth_mem [OF that] by simp
  ultimately show ?thesis using lt by (simp add: trailing_ones_def)
qed

lemma word_scan_cases:
  assumes "scan_fits bitmap m" "unat i mod 8 = 0 \<or> unat m < unat i + 64" "i \<le> m"
  shows "\<exists>s. word_scan bitmap m i = Some s \<and> (case s of Inl r \<Rightarrow> r = as_words (first_free bitmap (unat i) (unat m))
   | Inr j \<Rightarrow> j \<le> m \<and> first_free bitmap (unat i) (unat m) = first_free bitmap (unat j) (unat m))"
  using assms(2,3)
proof (induction "unat m - unat i" arbitrary: i rule: less_induct)
  case less
  let ?b = "unat i div 8" and ?w = "u64_from_le (slice (unat i div 8) (unat i div 8 + 8) bitmap)"
  show ?case
  proof (cases "i + 64 \<le> m \<and> \<not> ?b + 8 > length bitmap")
    case False
    then have "word_scan bitmap m i = Some (Inr i)" by (subst word_scan.simps) (rule if_not_P)
    then show ?thesis using less.prems by simp
  next
    case True
    have "unat i + 64 < 2 ^ 32" using assms(1) True less.prems(2) by (auto simp: scan_fits_def word_le_nat_alt)
    then have next64: "unat (i + 64) = unat i + 64" by (subst unat_add_no_wrap) simp_all
    then have in_m: "unat i + 64 \<le> unat m" using True by (simp add: word_le_nat_alt)
    then have i8: "8 * ?b = unat i" using less.prems(1) by auto
    have bits: "bit ?w k \<longleftrightarrow> bit_is_set bitmap (unat i + k)" if "k < 64" for k
      using word_bits [of ?b bitmap k] True that unfolding i8 by simp
    show ?thesis
    proof (cases "?w = NOT 0")
      case all: True
      have "bit_is_set bitmap k" if "unat i \<le> k" "k < unat i + 64" for k
        using bits [of "k - unat i"] that all by (simp add: bit_not_iff)
      then have skip: "first_free bitmap (unat i) (unat m) = first_free bitmap (unat (i + 64)) (unat m)"
        unfolding next64 using in_m by (intro first_free_skip) auto
      have "(unat i + 64) mod 8 = 0" using i8 by presburger
      then have "unat (i + 64) mod 8 = 0" unfolding next64 .
      moreover have "unat m - unat (i + 64) < unat m - unat i" using next64 in_m by simp
      ultimately show ?thesis
        using less.hyps [of "i + 64"] True all unfolding skip by (simp add: word_scan.simps [of bitmap m i] Let_def)
    next
      case part: False
      note t = trailing_ones_spec [OF part]
      have cand: "unat (i + word_of_nat (trailing_ones ?w)) = unat i + trailing_ones ?w"
        using t \<open>unat i + 64 < 2 ^ 32\<close> by (subst unat_add_no_wrap) (simp_all add: unsigned_of_nat take_bit_nat_eq_self)
      have "bit_is_set bitmap k" if "unat i \<le> k" "k < unat i + trailing_ones ?w" for k
        using bits [of "k - unat i"] that t by auto
      then have "first_free bitmap (unat i) (unat m) = Some (unat i + trailing_ones ?w)"
        using t bits [of "trailing_ones ?w"] in_m by (auto simp: first_free_Some)
      then show ?thesis
        using True part t cand in_m by (simp add: word_scan.simps [of bitmap m i] Let_def word_less_nat_alt)
    qed
  qed
qed

lemma find_first_free_eq:
  assumes "scan_fits bitmap max_bits"
  shows "find_first_free bitmap start max_bits = Some (as_words (first_free bitmap (unat start) (clamp_bits bitmap (unat max_bits))))"
proof -
  let ?m = "clamp_word bitmap max_bits"
  have "find_first_free bitmap start max_bits = Some (as_words (first_free bitmap (unat start) (unat ?m)))"
  proof (cases "start \<ge> ?m")
    case True
    then show ?thesis by (simp add: find_first_free_def Let_def first_free_step [of _ "unat start"] word_le_nat_alt)
  next
    case False
    have after: "unat j mod 64 = 0 \<or> j = ?m \<Longrightarrow> unat j mod 8 = 0 \<or> unat ?m < unat j + 64" for j by (elim disjE; presburger)
    note scan = align_scan_cases [of start ?m bitmap]
    show ?thesis
    proof (cases "align_scan bitmap ?m start")
      case (Inl r)
      then show ?thesis using False scan by (simp add: find_first_free_def Let_def)
    next
      case (Inr j)
      then have j: "j \<le> ?m" "first_free bitmap (unat start) (unat ?m) = first_free bitmap (unat j) (unat ?m)" "unat j mod 64 = 0 \<or> j = ?m"
        using False scan by simp_all
      obtain s where s: "word_scan bitmap ?m j = Some s" "case s of Inl r \<Rightarrow> r = as_words (first_free bitmap (unat j) (unat ?m))
          | Inr k \<Rightarrow> k \<le> ?m \<and> first_free bitmap (unat j) (unat ?m) = first_free bitmap (unat k) (unat ?m)"
        using word_scan_cases [OF scan_fits_clamp [OF assms] after [OF j(3)] j(1)] by blast
      show ?thesis
        using False Inr j(2) s by (cases s) (simp_all add: find_first_free_def Let_def tail_scan_eq)
    qed
  qed
  then show ?thesis by (simp add: unat_clamp_word)
qed

lemma first_free_word: "first_free bitmap i (clamp_bits bitmap m) = Some c \<Longrightarrow> unat (word_of_nat c :: u32) = c"
  by (auto simp: first_free_Some clamp_bits_def unsigned_of_nat take_bit_nat_eq_self)

lemma find_first_free_Some:
  assumes "scan_fits bitmap m" "find_first_free bitmap i m = Some (Some c)"
  shows "unat i \<le> unat c \<and> unat c < clamp_bits bitmap (unat m) \<and> \<not> bit_is_set bitmap (unat c) \<and>
    (\<forall>k. unat i \<le> k \<and> k < unat c \<longrightarrow> bit_is_set bitmap k)"
proof -
  obtain n where n: "first_free bitmap (unat i) (clamp_bits bitmap (unat m)) = Some n" "c = word_of_nat n"
    using assms(2) unfolding find_first_free_eq [OF assms(1)] by auto
  then show ?thesis using first_free_word [OF n(1)] by (simp add: first_free_Some)
qed

lemma run_stop_spec:
  assumes "j \<le> e"
  shows "j \<le> run_stop bitmap e j \<and> run_stop bitmap e j \<le> e \<and>
    (\<forall>k. unat j \<le> k \<and> k < unat (run_stop bitmap e j) \<longrightarrow> \<not> bit_is_set bitmap k) \<and>
    (run_stop bitmap e j < e \<longrightarrow> bit_is_set bitmap (unat (run_stop bitmap e j)))"
  using assms
proof (induction bitmap e j rule: run_stop.induct)
  case (1 bitmap e j)
  show ?case
  proof (cases "j < e \<and> \<not> bit_is_set bitmap (unat j)")
    case True
    then have step: "run_stop bitmap e j = run_stop bitmap e (j + 1)" by (simp add: run_stop.simps [of bitmap e j])
    have n: "unat (j + 1) = Suc (unat j)" using True unat_next by blast
    then have le: "j + 1 \<le> e" "j \<le> j + 1" using True by (auto simp: word_less_nat_alt word_le_nat_alt)
    let ?s = "run_stop bitmap e (j + 1)"
    have ih: "j + 1 \<le> ?s" "?s \<le> e" "\<forall>k. Suc (unat j) \<le> k \<and> k < unat ?s \<longrightarrow> \<not> bit_is_set bitmap k" "?s < e \<longrightarrow> bit_is_set bitmap (unat ?s)"
      using "1.IH" [OF True le(1)] n by simp_all
    have "\<not> bit_is_set bitmap k" if "unat j \<le> k" "k < unat ?s" for k using that ih(3) True by (cases "k = unat j") auto
    then show ?thesis unfolding step using ih order_trans [OF le(2) ih(1)] by blast
  next
    case False
    then have "run_stop bitmap e j = j" by (subst run_stop.simps) (rule if_not_P)
    with False "1.prems" show ?thesis by auto
  qed
qed

section \<open>The run search\<close>

definition free_run :: "bytes \<Rightarrow> nat \<Rightarrow> nat \<Rightarrow> bool" where
  "free_run bitmap s count \<longleftrightarrow> (\<forall>k \<in> {s ..< s + count}. \<not> bit_is_set bitmap k)"

text \<open>The reference: the least start at or after \<open>i\<close> of a free run that ends within \<open>m\<close> bits.\<close>

definition first_run :: "bytes \<Rightarrow> nat \<Rightarrow> nat \<Rightarrow> nat \<Rightarrow> nat option" where
  "first_run bitmap m count i = find (\<lambda>s. free_run bitmap s count) [i ..< Suc m - count]"

lemma first_run_Some:
  assumes "i \<le> s" "s + count \<le> m" "free_run bitmap s count"
    "\<And>t. i \<le> t \<Longrightarrow> t < s \<Longrightarrow> \<not> free_run bitmap t count"
  shows "first_run bitmap m count i = Some s"
proof -
  have "[i ..< Suc m - count] ! (s - i) = s" using assms by simp
  then show ?thesis
    using assms by (auto simp: first_run_def find_Some_iff intro!: exI [of _ "s - i"])
qed

lemma first_run_None:
  "(\<And>s. i \<le> s \<Longrightarrow> s + count \<le> m \<Longrightarrow> \<not> free_run bitmap s count) \<Longrightarrow> first_run bitmap m count i = None"
  by (auto simp: first_run_def find_None_iff)

lemma find_skip: "find P xs = None \<Longrightarrow> find P (xs @ ys) = find P ys"
  by (induction xs) (auto split: if_splits)

lemma first_run_skip:
  assumes "i \<le> j" "\<And>s. i \<le> s \<Longrightarrow> s < j \<Longrightarrow> \<not> free_run bitmap s count"
  shows "first_run bitmap m count i = first_run bitmap m count j"
proof (cases "j \<le> Suc m - count")
  case True
  then obtain k where "Suc m - count = j + k" using le_Suc_ex by blast
  then have "[i ..< Suc m - count] = [i ..< j] @ [j ..< Suc m - count]"
    using upt_add_eq_append [OF assms(1), of k] by metis
  moreover have "find (\<lambda>s. free_run bitmap s count) [i ..< j] = None"
    using assms(2) by (auto simp: find_None_iff)
  ultimately show ?thesis by (simp add: first_run_def find_skip)
next
  case False
  then have "first_run bitmap m count j = None" by (simp add: first_run_def)
  then show ?thesis using False assms by (auto simp: first_run_def find_None_iff)
qed

lemma free_run_loop_eq:
  assumes "0 < unat count" "scan_fits bitmap m" "clamp_word bitmap m = m"
  shows "free_run_loop bitmap m count i = Some (as_words (first_run bitmap (unat m) (unat count) (unat i)))"
proof (induction "Suc (unat m) - unat i" arbitrary: i rule: less_induct)
  case less
  note step = free_run_loop.simps [of bitmap m count i]
  let ?c = "unat count" and ?first = "first_run bitmap (unat m) (unat count)"
  have blocked: "\<not> free_run bitmap s ?c" if "bit_is_set bitmap k" "s \<le> k" "k < s + ?c" for s k
    using that by (auto simp: free_run_def)
  have cm: "clamp_bits bitmap (unat m) = unat m" using unat_clamp_word [of bitmap m] assms(3) by simp
  show ?case
  proof (cases "unat i + ?c \<le> unat m")
    case False
    have "(case checked_add i count of None \<Rightarrow> True | Some e \<Rightarrow> \<not> e \<le> m)"
      using False checked_add_Some [of i count] by (auto simp: word_le_nat_alt split: option.split)
    then show ?thesis using step False by (auto simp: first_run_def split: option.splits)
  next
    case fits: True
    then have add: "checked_add i count = Some (i + count)" "i + count \<le> m"
      using unat_lt2p [of m] by (auto simp: checked_add_def word_le_nat_alt unat_add_no_wrap)
    show ?thesis
    proof (cases "first_free bitmap (unat i) (unat m)")
      case None
      then have "\<forall>k. unat i \<le> k \<and> k < unat m \<longrightarrow> bit_is_set bitmap k" by (simp add: first_free_None)
      then have "?first (unat i) = None" using assms(1) by (intro first_run_None blocked) auto
      then show ?thesis using step add None by (simp add: find_first_free_eq [OF assms(2)] cm)
    next
      case (Some n)
      define c where "c = (word_of_nat n :: u32)"
      have cn: "unat c = n" unfolding c_def by (rule first_free_word [where m = "unat m" and bitmap = bitmap and i = "unat i"]) (simp add: cm Some)
      have c: "unat i \<le> unat c" "unat c < unat m" "\<not> bit_is_set bitmap (unat c)" "\<And>k. unat i \<le> k \<Longrightarrow> k < unat c \<Longrightarrow> bit_is_set bitmap k"
        using Some cn by (auto simp: first_free_Some)
      have found: "find_first_free bitmap i m = Some (Some c)" using Some by (simp add: find_first_free_eq [OF assms(2)] cm c_def)
      have "\<not> free_run bitmap s ?c" if "unat i \<le> s" "s < unat c" for s
        using blocked [OF c(4) [OF that], of s] assms(1) by simp
      then have skip: "?first (unat i) = ?first (unat c)" using c(1) by (intro first_run_skip)
      show ?thesis
      proof (cases "unat c + ?c \<le> unat m")
        case False
        have "(case checked_add c count of None \<Rightarrow> True | Some e \<Rightarrow> \<not> e \<le> m)"
          using False checked_add_Some [of c count] by (auto simp: word_le_nat_alt split: option.split)
        then show ?thesis using step add found skip False by (auto simp: first_run_def split: option.splits)
      next
        case True
        then have e: "checked_add c count = Some (c + count)" "c + count \<le> m" "unat (c + count) = unat c + ?c"
          using unat_lt2p [of m] by (auto simp: checked_add_def word_le_nat_alt unat_add_no_wrap)
        have c1: "unat (c + 1) = Suc (unat c)" using c(2) unat_next [of c m] by (simp add: word_less_nat_alt)
        let ?j = "run_stop bitmap (c + count) (c + 1)"
        have j: "unat c < unat ?j" "unat ?j \<le> unat c + ?c" "\<forall>k. Suc (unat c) \<le> k \<and> k < unat ?j \<longrightarrow> \<not> bit_is_set bitmap k"
          "unat ?j < unat c + ?c \<Longrightarrow> bit_is_set bitmap (unat ?j)"
          using run_stop_spec [of "c + 1" "c + count" bitmap] e(3) c1 assms(1) by (auto simp: word_le_nat_alt word_less_nat_alt)
        show ?thesis
        proof (cases "?j = c + count")
          case full: True
          have "free_run bitmap (unat c) ?c"
            unfolding free_run_def
          proof
            fix k assume "k \<in> {unat c ..< unat c + ?c}"
            then show "\<not> bit_is_set bitmap k" using c(3) j(3) full e(3) by (cases "k = unat c") auto
          qed
          then have "?first (unat c) = Some (unat c)" using True by (intro first_run_Some) auto
          then show ?thesis using step add found e full skip by (simp add: Let_def)
        next
          case False
          then have lt: "unat ?j < unat c + ?c" using j(2) e(3) by (metis le_neq_implies_less word_unat_eq_iff)
          have "checked_add ?j 1 = Some (?j + 1)" and j1: "unat (?j + 1) = Suc (unat ?j)"
            using lt True unat_lt2p [of m] by (auto simp: checked_add_def unat_add_no_wrap)
          then have loop: "free_run_loop bitmap m count i = free_run_loop bitmap m count (?j + 1)"
            using step add found e False by (simp add: Let_def)
          have "\<not> free_run bitmap s ?c" if "unat c \<le> s" "s < Suc (unat ?j)" for s
            using blocked [OF j(4) [OF lt], of s] lt that by simp
          then have "?first (unat c) = ?first (Suc (unat ?j))" using j(1) by (intro first_run_skip) auto
          then show ?thesis unfolding loop skip using less.hyps [of "?j + 1"] j1 j(1) c(1) lt True by simp
        qed
      qed
    qed
  qed
qed

lemma find_free_run_eq:
  assumes "scan_fits bitmap m"
  shows "find_free_run bitmap i m count =
    Some (if count = 0 then None else as_words (first_run bitmap (clamp_bits bitmap (unat m)) (unat count) (unat i)))"
  using free_run_loop_eq [OF _ scan_fits_clamp [OF assms] clamp_word_clamp, of count i]
  by (simp add: find_free_run_def unat_clamp_word unat_gt_0)

lemma find_free_run_Some:
  assumes "scan_fits bitmap m" "find_free_run bitmap i m count = Some (Some b)"
  shows "0 < unat count \<and> unat i \<le> unat b \<and> unat b + unat count \<le> clamp_bits bitmap (unat m) \<and> free_run bitmap (unat b) (unat count)"
proof -
  obtain n where n: "count \<noteq> 0" "first_run bitmap (clamp_bits bitmap (unat m)) (unat count) (unat i) = Some n" "b = word_of_nat n"
    using assms(2) unfolding find_free_run_eq [OF assms(1)] by (auto split: if_splits)
  then have r: "0 < unat count" "unat i \<le> n" "n + unat count \<le> clamp_bits bitmap (unat m)" "free_run bitmap n (unat count)"
    by (auto simp: first_run_def find_Some_iff unat_gt_0)
  moreover have "unat b = n" unfolding n(3) using r(3) by (simp add: clamp_bits_def unsigned_of_nat take_bit_nat_eq_self)
  ultimately show ?thesis by simp
qed

lemma find_free_run_None:
  assumes "scan_fits bitmap m" "find_free_run bitmap i m count = Some None" "count \<noteq> 0" "unat i \<le> b" "b + unat count \<le> clamp_bits bitmap (unat m)"
  shows "\<not> free_run bitmap b (unat count)"
  using assms unfolding find_free_run_eq [OF assms(1)] by (auto simp: first_run_def find_None_iff)

text \<open>
  C16. The bitmap searches agree with their reference, on every bitmap below 512 MiB (a bitmap of the driver is one block) and on any bitmap under a bound that leaves room
  for one more word: they return; \<open>find_first_free\<close>, with its bit-by-bit alignment, its 64-bit words and its tail, returns the first clear bit of a linear search, and \<open>find_free_run\<close> the
  least start of a run of clear bits that ends inside the bitmap; a bit past the bitmap is never free.
\<close>

theorem bitmap_search_correct:
  assumes "length bitmap < 2 ^ 29 \<or> unat max_bits < 2 ^ 32 - 64"
  shows "find_first_free bitmap start max_bits =
     Some (map_option word_of_nat (find (\<lambda>k. \<not> bit_is_set bitmap k) [unat start ..< clamp_bits bitmap (unat max_bits)])) \<and>
   find_free_run bitmap start max_bits count =
     Some (if count = 0 then None
      else map_option word_of_nat (find (\<lambda>s. free_run bitmap s (unat count)) [unat start ..< Suc (clamp_bits bitmap (unat max_bits)) - unat count]))"
  using find_first_free_eq [of bitmap max_bits start] find_free_run_eq [of bitmap max_bits start count] assms
  by (simp add: scan_fits_def first_free_def first_run_def)

theorem bitmap_search_correct_witness:
  "find_first_free [0x0B] 1 100 = Some (Some 2) \<and> find_free_run [0x0B] 1 100 2 = Some (Some 4)"
proof -
  have b: "\<not> bit_is_set [0x0B] 2" "bit_is_set [0x0B] 1" "bit_is_set [0x0B] 3" "\<not> bit_is_set [0x0B] 4" "\<not> bit_is_set [0x0B] 5" by code_simp+
  have l: "[1 ..< 8] = [1, 2, 3, 4, 5, 6, 7]" "[1 ..< 7] = [1, 2, 3, 4, 5, 6]" by code_simp+
  have run: "free_run [0x0B] k 2 \<longleftrightarrow> \<not> bit_is_set [0x0B] k \<and> \<not> bit_is_set [0x0B] (k + 1)" for k
    unfolding free_run_def by (auto simp: less_Suc_eq)
  have "find (\<lambda>k. \<not> bit_is_set [0x0B] k) [1 ..< 8] = Some 2" unfolding l using b by simp
  moreover have "find (\<lambda>s. free_run [0x0B] s 2) [1 ..< 7] = Some 4" unfolding l run using b by simp
  ultimately show ?thesis
    using bitmap_search_correct [of "[0x0B]" 100 1 2] by (simp add: clamp_bits_def del: upt_rec_numeral)
qed

text \<open>Past that bound the sum wraps: on a bitmap of ones of 512 MiB or more the word scan starts over for ever.\<close>

lemma word_scan_full:
  assumes "word_scan bitmap m i = Some s" "2 ^ 29 \<le> length bitmap" "\<forall>x \<in> set bitmap. x = NOT 0" "2 ^ 32 - 64 \<le> unat m" "unat i mod 64 = 0"
  shows False
  using assms
proof (induction rule: word_scan.raw_induct [rotated, consumes 1])
  case (1 scan bitmap m i s)
  have len: "2 ^ 29 \<le> length bitmap" and ones: "\<forall>x \<in> set bitmap. x = NOT 0" and m: "2 ^ 32 - 64 \<le> unat m" and i64: "unat i mod 64 = 0"
    using "1.prems" by simp_all
  have i: "unat i \<le> 2 ^ 32 - 64" using i64 unat_lt2p [of i] by (simp; presburger)
  then have b: "unat i div 8 + 8 \<le> length bitmap" using len i64 by simp
  have n: "unat (i + 64) = (unat i + 64) mod 2 ^ 32" by (simp add: unat_word_ariths)
  have "(unat i + 64) mod 2 ^ 32 mod 64 = (unat i + 64) mod 64" by (rule mod_mod_cancel) simp
  then have n64: "unat (i + 64) mod 64 = 0" using n i64 by simp
  then have "unat (i + 64) \<le> 2 ^ 32 - 64" using unat_lt2p [of "i + 64"] by (simp; presburger)
  then have le: "i + 64 \<le> m" using m by (simp add: word_le_nat_alt)
  have bits: "bit_is_set bitmap k" if "k < 2 ^ 32" for k
  proof -
    have k: "k div 8 < length bitmap" using that len by simp
    then have "bitmap ! (k div 8) = NOT 0" using ones nth_mem by blast
    then show ?thesis using k by (simp add: bit_is_set_iff)
  qed
  have "u64_from_le (slice (unat i div 8) (unat i div 8 + 8) bitmap) = NOT 0"
  proof (rule bit_word_eqI)
    fix k assume "k < LENGTH(64)"
    then show "bit (u64_from_le (slice (unat i div 8) (unat i div 8 + 8) bitmap)) k = bit (NOT 0 :: u64) k"
      using word_bits [OF b, of k] bits [of "8 * (unat i div 8) + k"] i i64 by (simp add: bit_not_iff)
  qed
  then have "scan bitmap m (i + 64) = Some s" using 1 le b by (simp add: Let_def)
  then show False by (rule 1(1) [OF _ len ones m n64])
qed

lemma full_bitmap_never_returns:
  assumes "2 ^ 29 \<le> length bitmap" "\<forall>x \<in> set bitmap. x = NOT 0" "2 ^ 32 - 64 \<le> unat max_bits"
  shows "find_first_free bitmap 0 max_bits = None"
proof -
  let ?m = "clamp_word bitmap max_bits"
  have m: "2 ^ 32 - 64 \<le> unat ?m" using assms(1,3) by (simp add: unat_clamp_word clamp_bits_def)
  have "align_scan bitmap ?m 0 = Inr 0" by (subst align_scan.simps) simp
  moreover have "word_scan bitmap ?m 0 = None" using word_scan_full [OF _ assms(1,2) m, of 0] by (cases "word_scan bitmap ?m 0") auto
  moreover have "\<not> ?m \<le> 0" using m by (auto simp: word_le_nat_alt)
  ultimately show ?thesis by (simp add: find_first_free_def Let_def)
qed

section \<open>Changing bits\<close>

text \<open>The in-place \<open>bitmap[byte] |= mask\<close> and \<open>bitmap[byte] &= !mask\<close> at a bit index.\<close>

definition or_bit :: "bytes \<Rightarrow> nat \<Rightarrow> bytes" where
  "or_bit bitmap i = bitmap[i div 8 := bitmap ! (i div 8) OR push_bit (i mod 8) 1]"

definition clear_bit :: "bytes \<Rightarrow> nat \<Rightarrow> bytes" where
  "clear_bit bitmap i = bitmap[i div 8 := bitmap ! (i div 8) AND NOT (push_bit (i mod 8) 1)]"

record bitmap_write =
  bitmap_block :: u64
  bit_start :: u32
  bw_count :: u32
  bw_set :: bool

fun apply_bits :: "bytes \<Rightarrow> u32 \<Rightarrow> bool \<Rightarrow> u32 list \<Rightarrow> bytes" where
  "apply_bits buf start on [] = buf"
| "apply_bits buf start on (b # bs) =
     (let idx = unat (start + b) in
      if idx div 8 \<ge> length buf then buf
      else apply_bits (if on then or_bit buf idx else clear_bit buf idx) start on bs)"

definition apply_bitmap_write :: "bytes \<Rightarrow> bitmap_write \<Rightarrow> bytes" where
  "apply_bitmap_write buf w =
     apply_bits buf (bit_start w) (bw_set w) (map word_of_nat [0 ..< unat (bw_count w)])"

lemma length_or_bit [simp]: "length (or_bit bitmap i) = length bitmap"
  by (simp add: or_bit_def)

lemma length_clear_bit [simp]: "length (clear_bit bitmap i) = length bitmap"
  by (simp add: clear_bit_def)

lemma same_bit: "k div 8 = i div 8 \<Longrightarrow> k mod 8 = i mod 8 \<Longrightarrow> k = (i :: nat)"
  by (metis div_mult_mod_eq)

lemma or_bit_iff:
  "i div 8 < length bitmap \<Longrightarrow> bit_is_set (or_bit bitmap i) k \<longleftrightarrow> k = i \<or> bit_is_set bitmap k"
  by (cases "k div 8 = i div 8")
    (auto simp: bit_is_set_iff or_bit_def bit_or_iff push_bit_of_1 bit_exp_iff nth_list_update dest: same_bit)

lemma clear_bit_iff:
  "i div 8 < length bitmap \<Longrightarrow> bit_is_set (clear_bit bitmap i) k \<longleftrightarrow> k \<noteq> i \<and> bit_is_set bitmap k"
  by (cases "k div 8 = i div 8")
    (auto simp: bit_is_set_iff clear_bit_def bit_and_iff bit_not_iff push_bit_of_1 bit_exp_iff nth_list_update
      dest: same_bit)

lemma bit_is_set_bound: "bit_is_set bitmap k \<Longrightarrow> k < 8 * length bitmap"
  by (auto simp: bit_is_set_def)

lemma apply_bits_iff:
  assumes "unat start + m \<le> 2 ^ 32"
  shows "length (apply_bits buf start on (map word_of_nat [n ..< m])) = length buf \<and>
    (bit_is_set (apply_bits buf start on (map word_of_nat [n ..< m])) k \<longleftrightarrow>
      (if unat start + n \<le> k \<and> k < unat start + m \<and> k < 8 * length buf then on else bit_is_set buf k))"
  using assms
proof (induction "m - n" arbitrary: n buf)
  case 0
  then show ?case by auto
next
  case (Suc d)
  have list: "map word_of_nat [n ..< m] = (word_of_nat n :: u32) # map word_of_nat [Suc n ..< m]"
    using Suc.hyps(2) by (simp add: upt_conv_Cons)
  have "unat (word_of_nat n :: u32) = n" using Suc.hyps(2) Suc.prems by (simp add: unat_of_nat)
  then have idx: "unat (start + word_of_nat n) = unat start + n"
    using Suc.hyps(2) Suc.prems by (subst unat_add_no_wrap) auto
  show ?case
  proof (cases "(unat start + n) div 8 < length buf")
    case False
    then have "8 * length buf \<le> unat start + n" by simp
    then show ?thesis unfolding list using False idx by (auto simp: Let_def)
  next
    case True
    let ?b = "if on then or_bit buf (unat start + n) else clear_bit buf (unat start + n)"
    have IH: "length (apply_bits ?b start on (map word_of_nat [Suc n ..< m])) = length ?b \<and>
        (bit_is_set (apply_bits ?b start on (map word_of_nat [Suc n ..< m])) k \<longleftrightarrow>
          (if unat start + Suc n \<le> k \<and> k < unat start + m \<and> k < 8 * length ?b then on else bit_is_set ?b k))"
      using Suc by (intro Suc.hyps(1)) auto
    have "unat start + n < 8 * length buf" using True by simp
    then show ?thesis
      unfolding list using IH True idx Suc.hyps(2) by (auto simp: Let_def or_bit_iff clear_bit_iff)
  qed
qed

lemma apply_bitmap_write_iff:
  assumes "unat (bit_start w) + unat (bw_count w) \<le> 2 ^ 32"
  shows "length (apply_bitmap_write buf w) = length buf \<and>
    (bit_is_set (apply_bitmap_write buf w) k \<longleftrightarrow>
      (if unat (bit_start w) \<le> k \<and> k < unat (bit_start w) + unat (bw_count w) \<and> k < 8 * length buf
       then bw_set w else bit_is_set buf k))"
  using apply_bits_iff [OF assms, of buf "bw_set w" 0 k] by (simp add: apply_bitmap_write_def)

end
