(* ===== verification/Alloc.thy ===== *)
theory Alloc
  imports Bgd Bitmap
begin

unbundle bit_operations_syntax

text \<open>
  The allocation planners (\<open>src/alloc.rs\<close>): block runs and inodes are chosen on bitmaps and returned
  as plans, nothing is written. The caller's closure that reads a bitmap block is the parameter
  \<open>reader\<close>. Signed counter deltas are words of their width, so that \<open>-(count as i32)\<close> is the
  word negation. The bit searches and the application of a plan are in \<open>Bitmap\<close>.
\<close>

section \<open>Plans\<close>

record bgd_counter_update =
  group_idx :: u32
  free_blocks_delta :: "32 word"
  free_inodes_delta :: "32 word"
  used_dirs_delta :: "32 word"

record superblock_counter_update =
  sb_free_blocks_delta :: "64 word"
  sb_free_inodes_delta :: "32 word"

record block_allocation_plan =
  first_block :: u64
  plan_count :: u32
  plan_bitmap :: bitmap_write
  plan_bgd :: bgd_counter_update
  plan_sb :: superblock_counter_update

record inode_allocation_plan =
  plan_inode :: u32
  is_dir :: bool
  iplan_bitmap :: bitmap_write
  iplan_bgd :: bgd_counter_update
  iplan_sb :: superblock_counter_update

section \<open>Blocks\<close>

definition blocks_in_group :: "superblock \<Rightarrow> u32 \<Rightarrow> u32" where
  "blocks_in_group sb gi =
     (let ngroups = (ucast (block_group_count sb) :: u32) in
      if gi + 1 < ngroups then blocks_per_group sb
      else let remainder = saturating_sub (blocks_count sb) (ucast (first_data_block sb)) mod ucast (blocks_per_group sb)
           in if remainder = 0 then blocks_per_group sb else ucast remainder)"

definition group_first_block :: "superblock \<Rightarrow> u32 \<Rightarrow> u64" where
  "group_first_block sb gi = ucast gi * ucast (blocks_per_group sb) + ucast (first_data_block sb)"

fun mark_reserved :: "u64 \<Rightarrow> u32 \<Rightarrow> u64 list \<Rightarrow> bytes \<Rightarrow> bytes" where
  "mark_reserved first max_bits [] bitmap = bitmap"
| "mark_reserved first max_bits (block # reserved) bitmap =
     mark_reserved first max_bits reserved
       (case checked_sub block first of
          None \<Rightarrow> bitmap
        | Some off \<Rightarrow>
            if off \<ge> ucast max_bits then bitmap
            else if unat off div 8 < length bitmap then or_bit bitmap (unat off) else bitmap)"

definition mark_reserved_in_group :: "superblock \<Rightarrow> u32 \<Rightarrow> u32 \<Rightarrow> u64 list \<Rightarrow> bytes \<Rightarrow> bytes" where
  "mark_reserved_in_group sb gi max_bits reserved bitmap =
     (if reserved = [] then bitmap else mark_reserved (group_first_block sb gi) max_bits reserved bitmap)"

definition reserved_blocks :: "block_allocation_plan \<Rightarrow> block_allocation_plan list \<Rightarrow> u64 list" where
  "reserved_blocks data handed_out =
     concat (map (\<lambda>p. map (\<lambda>i. first_block p + word_of_nat i) [0 ..< unat (plan_count p)]) (data # handed_out))"

text \<open>The used ranges of a BLOCK\_UNINIT group, as pairs of start and end.\<close>

definition uninit_group_used_ranges :: "superblock \<Rightarrow> bgd list \<Rightarrow> nat \<Rightarrow> (u64 \<times> u64) list" where
  "uninit_group_used_ranges sb groups gi =
     (let group_first = ucast (first_data_block sb) + word_of_nat gi * ucast (blocks_per_group sb);
          group_len = (ucast (blocks_in_group sb (word_of_nat gi)) :: u64);
          head = group_head_metadata_blocks sb (word_of_nat gi);
          own = (\<lambda>(start, len). case checked_sub start group_first of
                   None \<Rightarrow> []
                 | Some relative \<Rightarrow> if relative < group_len then [(relative, min (relative + len) group_len)] else [])
      in (if head > 0 then [(0, min head group_len)] else []) @
         (if gi < length groups
          then let desc = groups ! gi
               in own (block_bitmap desc, 1) @ own (inode_bitmap desc, 1) @ own (inode_table desc, table_blocks sb)
          else []))"

definition set_range :: "nat \<Rightarrow> u64 \<times> u64 \<Rightarrow> bytes \<Rightarrow> bytes" where
  "set_range capacity r bitmap =
     foldl or_bit bitmap [min (unat (fst r)) capacity ..< min (unat (snd r)) capacity]"

definition uninit_block_bitmap :: "superblock \<Rightarrow> bgd list \<Rightarrow> u32 \<Rightarrow> bytes" where
  "uninit_block_bitmap sb groups gi =
     (let bitmap = replicate (bs_nat sb) 0;
          capacity = length bitmap * 8;
          padding = (word_of_nat (min (unat (blocks_in_group sb gi)) capacity), word_of_nat capacity)
      in foldl (\<lambda>bm r. set_range capacity r bm) bitmap (uninit_group_used_ranges sb groups (unat gi) @ [padding]))"

definition block_plan :: "superblock \<Rightarrow> bgd \<Rightarrow> u32 \<Rightarrow> u32 \<Rightarrow> u32 \<Rightarrow> block_allocation_plan" where
  "block_plan sb g gi count bstart =
     \<lparr>first_block = group_first_block sb gi + ucast bstart,
      plan_count = count,
      plan_bitmap = \<lparr>bitmap_block = block_bitmap g, bit_start = bstart, bw_count = count, bw_set = True\<rparr>,
      plan_bgd = \<lparr>group_idx = gi, free_blocks_delta = - count, free_inodes_delta = 0, used_dirs_delta = 0\<rparr>,
      plan_sb = \<lparr>sb_free_blocks_delta = - ucast count, sb_free_inodes_delta = 0\<rparr>\<rparr>"

text \<open>The bitmap one iteration scans: computed or read, then overlaid with the reservations.\<close>

definition group_bitmap :: "superblock \<Rightarrow> bgd list \<Rightarrow> (u64 \<Rightarrow> bytes result) \<Rightarrow> u32 \<Rightarrow> bytes result" where
  "group_bitmap sb groups reader gi =
     (let g = groups ! unat gi in
      if bgd_has_flag g BLOCK_UNINIT then Ok (uninit_block_bitmap sb groups gi) else reader (block_bitmap g))"

text \<open>
  In both planners a search that does not return is \<open>Panic\<close>, as no result reaches the caller either way.
\<close>

fun block_loop :: "superblock \<Rightarrow> bgd list \<Rightarrow> u32 \<Rightarrow> u64 list \<Rightarrow> (u64 \<Rightarrow> bytes result) \<Rightarrow> u32 list
    \<Rightarrow> block_allocation_plan result" where
  "block_loop sb groups count reserved reader [] =
     Err (Corrupt ''no group has a contiguous free run of this size'')"
| "block_loop sb groups count reserved reader (gi # gis) =
     (let g = groups ! unat gi; max_bits = blocks_in_group sb gi in
      if free_blocks_count g < count then block_loop sb groups count reserved reader gis
      else and_then (group_bitmap sb groups reader gi) (\<lambda>bitmap.
        case find_free_run (mark_reserved_in_group sb gi max_bits reserved bitmap) 0 max_bits count of
          None \<Rightarrow> Panic
        | Some None \<Rightarrow> block_loop sb groups count reserved reader gis
        | Some (Some b) \<Rightarrow> Ok (block_plan sb g gi count b)))"

text \<open>The groups in the order both planners try them: from the start group, wrapping.\<close>

definition group_order :: "u32 \<Rightarrow> u32 \<Rightarrow> u32 list" where
  "group_order ngroups start = map (\<lambda>step. (start + word_of_nat step) mod ngroups) [0 ..< unat ngroups]"

definition plan_block_allocation_excluding :: "superblock \<Rightarrow> bgd list \<Rightarrow> u32 \<Rightarrow> u32 \<Rightarrow> u64 list
    \<Rightarrow> (u64 \<Rightarrow> bytes result) \<Rightarrow> block_allocation_plan result" where
  "plan_block_allocation_excluding sb groups count hint_group reserved reader =
     (let ngroups = (word_of_nat (length groups) :: u32) in
      if count = 0 then Err (Corrupt ''plan_block_allocation: count == 0'')
      else if ngroups = 0 then Err (Corrupt ''no block groups'')
      else let hint = min hint_group (saturating_sub ngroups 1)
           in block_loop sb groups count reserved reader (group_order ngroups hint))"

definition plan_block_allocation :: "superblock \<Rightarrow> bgd list \<Rightarrow> u32 \<Rightarrow> u32 \<Rightarrow> (u64 \<Rightarrow> bytes result)
    \<Rightarrow> block_allocation_plan result" where
  "plan_block_allocation sb groups count hint_group reader =
     plan_block_allocation_excluding sb groups count hint_group [] reader"

section \<open>Inodes\<close>

definition orlov_score :: "u64 \<Rightarrow> u64 \<Rightarrow> bgd \<Rightarrow> int" where
  "orlov_score avg_free_inodes avg_used_dirs g =
     (let fi = uint (free_inodes_count g); ud = uint (used_dirs_count g)
      in fi - ud + (if fi \<ge> uint avg_free_inodes then 1000 else 0) + (if ud \<le> uint avg_used_dirs then 500 else 0))"

fun orlov_loop :: "(bgd \<Rightarrow> int) \<Rightarrow> bgd list \<Rightarrow> u32 list \<Rightarrow> u32 option \<Rightarrow> int \<Rightarrow> u32 option" where
  "orlov_loop score groups [] best best_score = best"
| "orlov_loop score groups (gi # gis) best best_score =
     (let g = groups ! unat gi in
      if score g > best_score \<and> free_inodes_count g > 0 then orlov_loop score groups gis (Some gi) (score g)
      else orlov_loop score groups gis best best_score)"

definition orlov_select_group :: "bgd list \<Rightarrow> u32 \<Rightarrow> u32" where
  "orlov_select_group groups hint =
     (let ngroups = (word_of_nat (length groups) :: u32) in
      if ngroups = 0 then 0
      else let hint = min hint (saturating_sub ngroups 1);
               total_free_inodes = sum_list (map (\<lambda>g. ucast (free_inodes_count g)) groups);
               total_used_dirs = sum_list (map (\<lambda>g. ucast (used_dirs_count g)) groups);
               score = orlov_score (total_free_inodes div ucast ngroups) (total_used_dirs div ucast ngroups)
           in case orlov_loop score groups (group_order ngroups hint) None (- (2 ^ 63)) of
                None \<Rightarrow> hint | Some gi \<Rightarrow> gi)"

definition inode_plan :: "bgd \<Rightarrow> u32 \<Rightarrow> bool \<Rightarrow> u32 \<Rightarrow> u32 \<Rightarrow> inode_allocation_plan" where
  "inode_plan g gi dir bstart ino =
     \<lparr>plan_inode = ino,
      is_dir = dir,
      iplan_bitmap = \<lparr>bitmap_block = inode_bitmap g, bit_start = bstart, bw_count = 1, bw_set = True\<rparr>,
      iplan_bgd = \<lparr>group_idx = gi, free_blocks_delta = 0, free_inodes_delta = - 1,
        used_dirs_delta = (if dir then 1 else 0)\<rparr>,
      iplan_sb = \<lparr>sb_free_blocks_delta = 0, sb_free_inodes_delta = - 1\<rparr>\<rparr>"

text \<open>The inode number of a bit: a checked product and sum in \<open>u64\<close>, filtered by the inode count.\<close>

definition inode_number :: "superblock \<Rightarrow> u32 \<Rightarrow> u32 \<Rightarrow> u32 option" where
  "inode_number sb gi bstart =
     (let n = unat gi * unat (inodes_per_group sb) + (unat bstart + 1)
      in if n \<le> unat (inodes_count sb) then Some (word_of_nat n) else None)"

fun inode_loop :: "superblock \<Rightarrow> bgd list \<Rightarrow> bool \<Rightarrow> (u64 \<Rightarrow> bytes result) \<Rightarrow> u32 list
    \<Rightarrow> inode_allocation_plan result" where
  "inode_loop sb groups dir reader [] = Err (Corrupt ''no group has a free inode'')"
| "inode_loop sb groups dir reader (gi # gis) =
     (let g = groups ! unat gi in
      if free_inodes_count g = 0 then inode_loop sb groups dir reader gis
      else and_then (if bgd_has_flag g INODE_UNINIT then Ok (replicate (bs_nat sb) 0) else reader (inode_bitmap g))
        (\<lambda>bitmap.
          let before_group = unat gi * unat (inodes_per_group sb);
              floor = min ((unat (first_inode sb) - 1) - before_group) (2 ^ 32 - 1) in
          case find_first_free bitmap (word_of_nat floor) (inodes_per_group sb) of
            None \<Rightarrow> Panic
          | Some None \<Rightarrow> inode_loop sb groups dir reader gis
          | Some (Some b) \<Rightarrow> and_then
              (ok_or (inode_number sb gi b)
                (Corrupt ''the group's inode range does not fit in the filesystem''))
              (\<lambda>ino. Ok (inode_plan g gi dir b ino))))"

definition plan_inode_allocation :: "superblock \<Rightarrow> bgd list \<Rightarrow> bool \<Rightarrow> u32 \<Rightarrow> (u64 \<Rightarrow> bytes result)
    \<Rightarrow> inode_allocation_plan result" where
  "plan_inode_allocation sb groups dir hint_group reader =
     (let ngroups = (word_of_nat (length groups) :: u32) in
      if ngroups = 0 then Err (Corrupt ''no block groups'')
      else let start_group = (if dir then orlov_select_group groups hint_group
                              else min hint_group (saturating_sub ngroups 1))
           in inode_loop sb groups dir reader (group_order ngroups start_group))"

section \<open>Groups and their blocks\<close>

text \<open>The blocks of a group, as numbers.\<close>

definition group_blocks :: "superblock \<Rightarrow> nat \<Rightarrow> nat set" where
  "group_blocks sb gi =
     {fdb_nat sb + gi * bpg_nat sb ..< min (fdb_nat sb + gi * bpg_nat sb + bpg_nat sb) (unat (blocks_count sb))}"

lemma unat_group_first_block:
  "unat (group_first_block sb gi) = fdb_nat sb + unat gi * bpg_nat sb"
proof -
  have lt: "unat gi < 2 ^ 32" "bpg_nat sb < 2 ^ 32" "fdb_nat sb < 2 ^ 32"
    using unat_lt2p [of gi] unat_lt2p [of "blocks_per_group sb"] unat_lt2p [of "first_data_block sb"] by simp_all
  then have "unat gi * bpg_nat sb \<le> (2 ^ 32 - 1) * (2 ^ 32 - 1)" by (intro mult_le_mono) auto
  then have "unat gi * bpg_nat sb + fdb_nat sb < 2 ^ 64" using lt by simp
  then show ?thesis
    unfolding group_first_block_def by (simp add: unat_add_no_wrap unat_mult_no_wrap)
qed

lemma unat_blocks_in_group:
  assumes "geometry_ok sb" "unat (block_group_count sb) < 2 ^ 32" "unat gi < unat (block_group_count sb)"
  shows "unat (blocks_in_group sb gi) = min (bpg_nat sb) (unat (blocks_count sb) - (fdb_nat sb + unat gi * bpg_nat sb))"
proof -
  let ?N = "unat (blocks_count sb) - fdb_nat sb" and ?p = "bpg_nat sb" and ?n = "unat (block_group_count sb)"
  have p: "0 < ?p" using assms(1) by (simp add: geometry_ok_def)
  have n: "?n = (?N + ?p - 1) div ?p" using assms(1) by (simp add: unat_block_group_count)
  have cast: "unat (ucast (block_group_count sb) :: u32) = ?n"
    using assms(2) by (simp add: unsigned_ucast_eq take_bit_nat_eq_self)
  have next_gi: "unat (gi + 1) = unat gi + 1"
    using assms(2,3) by (subst unat_add_no_wrap) auto
  have start: "unat gi * ?p < ?N" using group_start [OF assms(1), of "ucast gi"] assms(3) by (simp; linarith)
  let ?rem = "saturating_sub (blocks_count sb) (ucast (first_data_block sb)) mod ucast (blocks_per_group sb) :: u64"
  have rem: "unat ?rem = ?N mod ?p" by (simp add: unat_mod_distrib unat_saturating_sub)
  show ?thesis
  proof (cases "unat gi + 1 < ?n")
    case True
    then have "Suc (unat gi + 1) * ?p \<le> ?N + ?p - 1" using p unfolding n by (simp add: Suc_le_eq [symmetric] less_eq_div_iff_mult_less_eq)
    then have "unat gi * ?p + ?p < ?N" using p by simp
    then have "min ?p (unat (blocks_count sb) - (fdb_nat sb + unat gi * ?p)) = ?p" by linarith
    then show ?thesis using True cast next_gi by (simp add: blocks_in_group_def Let_def word_less_nat_alt)
  next
    case False
    then have "?n < unat gi + 2" by simp
    then have "?N + ?p - 1 < (unat gi + 2) * ?p" unfolding n div_less_iff_less_mult [OF p] .
    then have le: "?N \<le> unat gi * ?p + ?p" using p by simp
    have val: "unat (blocks_in_group sb gi) = (if ?N mod ?p = 0 then ?p else ?N mod ?p)"
    proof (cases "?N mod ?p = 0")
      case True
      then have "?rem = 0" using rem by (simp add: unat_eq_zero)
      then show ?thesis using False cast next_gi True by (simp add: blocks_in_group_def Let_def word_less_nat_alt)
    next
      case nz: False
      then have "?rem \<noteq> 0" using rem by (metis unat_0)
      moreover have "?N mod ?p < 2 ^ 32"
        using mod_less_divisor [OF p, of ?N] unat_lt2p [of "blocks_per_group sb"] by simp
      ultimately show ?thesis using False cast next_gi nz rem
        by (simp add: blocks_in_group_def Let_def word_less_nat_alt unsigned_ucast_eq take_bit_nat_eq_self)
    qed
    have "?N - unat gi * ?p = (if ?N mod ?p = 0 then ?p else ?N mod ?p)"
    proof -
      define d where "d = ?N - unat gi * ?p"
      have d: "?N = unat gi * ?p + d" using start unfolding d_def by linarith
      have "0 < d" "d \<le> ?p" using start le d by linarith+
      moreover have "?N mod ?p = d mod ?p" by (simp only: d mod_mult_self3)
      ultimately show ?thesis unfolding d_def [symmetric] by (cases "d = ?p") auto
    qed
    moreover have "(if ?N mod ?p = 0 then ?p else ?N mod ?p) \<le> ?p" using mod_less_divisor [OF p, of ?N] by simp
    ultimately show ?thesis unfolding val by simp
  qed
qed

lemma group_order_set:
  assumes "unat n < 2 ^ 31" "unat h < unat n"
  shows "unat ` set (group_order n h) = {0 ..< unat n}" "gi \<in> set (group_order n h) \<Longrightarrow> unat gi < unat n"
proof -
  have step: "unat ((h + word_of_nat s) mod n) = (unat h + s) mod unat n" if "s < unat n" for s
  proof -
    have "unat (word_of_nat s :: u32) = s" using that assms(1) by (simp add: unat_of_nat)
    then have "unat (h + word_of_nat s) = unat h + s" using that assms by (subst unat_add_no_wrap) auto
    then show ?thesis by (simp add: unat_mod_distrib)
  qed
  then have im: "unat ` set (group_order n h) = (\<lambda>s. (unat h + s) mod unat n) ` {0 ..< unat n}"
    by (force simp: group_order_def image_iff)
  have "k \<in> (\<lambda>s. (unat h + s) mod unat n) ` {0 ..< unat n}" if "k < unat n" for k
  proof (cases "unat h \<le> k")
    case True
    then show ?thesis using that by (intro image_eqI [of _ _ "k - unat h"]) auto
  next
    case False
    then have "(unat h + (unat n - unat h + k)) mod unat n = k" using that assms by simp
    then show ?thesis using False that assms by (intro image_eqI [of _ _ "unat n - unat h + k"]) auto
  qed
  then show "unat ` set (group_order n h) = {0 ..< unat n}" unfolding im using assms by auto
  then show "gi \<in> set (group_order n h) \<Longrightarrow> unat gi < unat n" by (metis atLeastLessThan_iff image_eqI)
qed

lemma mark_reserved_iff:
  "length (mark_reserved first m reserved bitmap) = length bitmap \<and>
   (bit_is_set (mark_reserved first m reserved bitmap) k \<longleftrightarrow> bit_is_set bitmap k \<or>
      k < unat m \<and> k < 8 * length bitmap \<and> (\<exists>r \<in> set reserved. unat r = unat first + k))"
proof (induction first m reserved bitmap rule: mark_reserved.induct)
  case (1 first m bitmap)
  then show ?case by simp
next
  case (2 first m block reserved bitmap)
  show ?case
  proof (cases "checked_sub block first")
    case None
    then have "unat block < unat first" by (simp add: checked_sub_def word_le_nat_alt not_le split: if_splits)
    then show ?thesis using 2 None by auto
  next
    case (Some off)
    note off = checked_sub_Some [OF Some]
    have byte: "unat off div 8 < length bitmap \<longleftrightarrow> unat off < 8 * length bitmap" by linarith
    show ?thesis
      using 2 Some off byte by (auto simp: or_bit_iff word_le_nat_alt not_le split: if_splits)
  qed
qed

lemma mark_reserved_in_group_iff:
  "length (mark_reserved_in_group sb gi m reserved bitmap) = length bitmap \<and>
   (bit_is_set (mark_reserved_in_group sb gi m reserved bitmap) k \<longleftrightarrow> bit_is_set bitmap k \<or>
      k < unat m \<and> k < 8 * length bitmap \<and>
      (\<exists>r \<in> set reserved. unat r = fdb_nat sb + unat gi * bpg_nat sb + k))"
  using mark_reserved_iff [of "group_first_block sb gi" m reserved bitmap k]
  by (auto simp: mark_reserved_in_group_def unat_group_first_block)

section \<open>Block plans\<close>

definition plan_blocks :: "block_allocation_plan \<Rightarrow> nat set" where
  "plan_blocks p = {unat (first_block p) ..< unat (first_block p) + unat (plan_count p)}"

abbreviation group_base :: "superblock \<Rightarrow> u32 \<Rightarrow> nat" where
  "group_base sb gi \<equiv> fdb_nat sb + unat gi * bpg_nat sb"

text \<open>
  A sound plan in group \<open>gi\<close> with bitmap \<open>bm\<close>: the run lies in that group's blocks, is free in the
  bitmap and avoids the reservations; applying its bitmap write sets exactly its bits.
\<close>

definition block_plan_sound :: "superblock \<Rightarrow> bgd list \<Rightarrow> u32 \<Rightarrow> u64 list \<Rightarrow> u32 \<Rightarrow> bytes \<Rightarrow> block_allocation_plan \<Rightarrow> bool" where
  "block_plan_sound sb groups count reserved gi bm p \<longleftrightarrow>
     plan_count p = count \<and> group_idx (plan_bgd p) = gi \<and> free_blocks_delta (plan_bgd p) = - count \<and>
     sb_free_blocks_delta (plan_sb p) = - ucast count \<and>
     bitmap_block (plan_bitmap p) = block_bitmap (groups ! unat gi) \<and>
     plan_blocks p \<subseteq> group_blocks sb (unat gi) \<and>
     (\<forall>b \<in> plan_blocks p. \<not> bit_is_set bm (b - group_base sb gi) \<and> b \<notin> unat ` set reserved) \<and>
     (\<forall>k. bit_is_set (apply_bitmap_write bm (plan_bitmap p)) k \<longleftrightarrow>
        bit_is_set bm k \<or> group_base sb gi + k \<in> plan_blocks p)"

lemma block_plan_is_sound:
  assumes "geometry_ok sb" "unat (block_group_count sb) < 2 ^ 32" "unat gi < unat (block_group_count sb)"
    "scan_fits bm (blocks_in_group sb gi)"
    "find_free_run (mark_reserved_in_group sb gi (blocks_in_group sb gi) reserved bm) 0 (blocks_in_group sb gi) count = Some (Some bw)"
  shows "block_plan_sound sb groups count reserved gi bm (block_plan sb (groups ! unat gi) gi count bw)"
proof -
  let ?m = "unat (blocks_in_group sb gi)" and ?base = "group_base sb gi"
  let ?bm = "mark_reserved_in_group sb gi (blocks_in_group sb gi) reserved bm"
  let ?p = "block_plan sb (groups ! unat gi) gi count bw"
  define b where "b = unat bw"
  note marks = mark_reserved_in_group_iff [of sb gi "blocks_in_group sb gi" reserved bm]
  have run: "b + unat count \<le> ?m" "b + unat count \<le> 8 * length bm"
      "\<And>k. b \<le> k \<Longrightarrow> k < b + unat count \<Longrightarrow> \<not> bit_is_set ?bm k"
    using find_free_run_Some [OF _ assms(5)] assms(4) marks by (auto simp: clamp_bits_def free_run_def scan_fits_def b_def)
  have size: "?m = min (bpg_nat sb) (unat (blocks_count sb) - ?base)"
    by (rule unat_blocks_in_group [OF assms(1-3)])
  have m: "?m < 2 ^ 32" using unat_lt2p [of "blocks_in_group sb gi"] by simp
  have b: "unat bw = b" by (simp add: b_def)
  have "?base + b < 2 ^ 64"
    using run(1) size group_start [OF assms(1), of "ucast gi"] assms(3) unat_lt2p [of "blocks_count sb"] by (simp; linarith)
  then have first: "unat (first_block ?p) = ?base + b"
    using b by (simp add: block_plan_def unat_add_no_wrap unat_group_first_block)
  then have blocks: "plan_blocks ?p = {?base + b ..< ?base + b + unat count}"
    by (simp add: plan_blocks_def block_plan_def)
  have inside: "plan_blocks ?p \<subseteq> group_blocks sb (unat gi)"
    unfolding blocks group_blocks_def using run(1) size by auto
  have free: "\<not> bit_is_set bm (x - ?base) \<and> x \<notin> unat ` set reserved" if "x \<in> plan_blocks ?p" for x
  proof -
    have x: "b \<le> x - ?base" "x - ?base < b + unat count" "x = ?base + (x - ?base)" using that blocks by auto
    then have "\<not> bit_is_set ?bm (x - ?base)" by (intro run(3))
    then show ?thesis using marks [of "x - ?base"] run(1,2) x by (auto simp: image_iff)
  qed
  have applied: "bit_is_set (apply_bitmap_write bm (plan_bitmap ?p)) k \<longleftrightarrow>
      bit_is_set bm k \<or> ?base + k \<in> plan_blocks ?p" for k
    using apply_bitmap_write_iff [of "plan_bitmap ?p" bm k] run(1,2) m b blocks
    by (auto simp: block_plan_def)
  show ?thesis
    unfolding block_plan_sound_def using inside free applied by (simp add: block_plan_def)
qed

text \<open>A run the planner could still place in group \<open>gi\<close>.\<close>

definition has_room :: "superblock \<Rightarrow> u32 \<Rightarrow> u64 list \<Rightarrow> u32 \<Rightarrow> bytes \<Rightarrow> bool" where
  "has_room sb count reserved gi bm \<longleftrightarrow>
     (\<exists>s. s + unat count \<le> min (unat (blocks_in_group sb gi)) (8 * length bm) \<and>
        (\<forall>k \<in> {s ..< s + unat count}. \<not> bit_is_set bm k \<and> group_base sb gi + k \<notin> unat ` set reserved))"

lemma no_run_no_room:
  assumes "scan_fits bm (blocks_in_group sb gi)" "count \<noteq> 0"
    "find_free_run (mark_reserved_in_group sb gi (blocks_in_group sb gi) reserved bm) 0 (blocks_in_group sb gi) count = Some None"
  shows "\<not> has_room sb count reserved gi bm"
proof
  let ?bm = "mark_reserved_in_group sb gi (blocks_in_group sb gi) reserved bm"
  note marks = mark_reserved_in_group_iff [of sb gi "blocks_in_group sb gi" reserved bm]
  assume "has_room sb count reserved gi bm"
  then obtain s where s: "s + unat count \<le> min (unat (blocks_in_group sb gi)) (8 * length bm)"
      "\<forall>k \<in> {s ..< s + unat count}. \<not> bit_is_set bm k \<and> group_base sb gi + k \<notin> unat ` set reserved"
    by (auto simp: has_room_def)
  have "unat (blocks_in_group sb gi) \<le> 2 ^ 32 - 1" using unat_lt2p [of "blocks_in_group sb gi"] by simp
  then have "s + unat count \<le> clamp_bits ?bm (unat (blocks_in_group sb gi))"
    using s(1) marks by (simp add: clamp_bits_def)
  moreover have "free_run ?bm s (unat count)"
    unfolding free_run_def using s(2) by (auto simp: marks image_iff) (metis atLeastLessThan_iff)
  moreover have "scan_fits ?bm (blocks_in_group sb gi)" using assms(1) marks by (simp add: scan_fits_def)
  ultimately show False using find_free_run_None [OF _ assms(3,2)] by simp
qed

lemma block_loop_cases:
  assumes "geometry_ok sb" "unat (block_group_count sb) < 2 ^ 32" "count \<noteq> 0" "\<And>b. reader b \<noteq> Panic"
    "\<forall>gi \<in> set gis. unat gi < unat (block_group_count sb)"
    "\<And>gi bm. group_bitmap sb groups reader gi = Ok bm \<Longrightarrow> scan_fits bm (blocks_in_group sb gi)"
  shows "case block_loop sb groups count reserved reader gis of
      Ok p \<Rightarrow> \<exists>gi \<in> set gis. \<exists>bm. group_bitmap sb groups reader gi = Ok bm \<and>
        block_plan_sound sb groups count reserved gi bm p
    | Err e \<Rightarrow> (\<exists>gi \<in> set gis. group_bitmap sb groups reader gi = Err e) \<or>
        e = Corrupt ''no group has a contiguous free run of this size'' \<and>
        (\<forall>gi \<in> set gis. count \<le> free_blocks_count (groups ! unat gi) \<longrightarrow>
           (\<exists>bm. group_bitmap sb groups reader gi = Ok bm \<and> \<not> has_room sb count reserved gi bm))
    | Panic \<Rightarrow> False"
  using assms(5)
proof (induction gis)
  case Nil
  then show ?case by simp
next
  case (Cons gi gis)
  let ?rest = "block_loop sb groups count reserved reader gis"
  let ?run = "\<lambda>bm. find_free_run (mark_reserved_in_group sb gi (blocks_in_group sb gi) reserved bm) 0 (blocks_in_group sb gi) count"
  have np: "group_bitmap sb groups reader gi \<noteq> Panic"
    using assms(4) by (auto simp: group_bitmap_def Let_def)
  show ?case
  proof (cases "free_blocks_count (groups ! unat gi) < count")
    case True
    then show ?thesis using Cons by (cases ?rest) auto
  next
    case False
    show ?thesis
    proof (cases "group_bitmap sb groups reader gi")
      case (Ok bm)
      note fit = assms(6) [OF Ok]
      have "length (mark_reserved_in_group sb gi (blocks_in_group sb gi) reserved bm) = length bm"
        using mark_reserved_in_group_iff by blast
      then have fit': "scan_fits (mark_reserved_in_group sb gi (blocks_in_group sb gi) reserved bm) (blocks_in_group sb gi)"
        using fit by (simp add: scan_fits_def)
      show ?thesis
      proof (cases "?run bm")
        case None
        then show ?thesis using find_free_run_eq [OF fit'] by simp
      next
        case (Some r)
        show ?thesis
        proof (cases r)
          case None
          then show ?thesis
            using Cons Ok False Some no_run_no_room [OF fit assms(3)] by (cases ?rest) (auto simp: Let_def)
        next
          case (Some b)
          then show ?thesis
            using Cons.prems Ok False \<open>?run bm = Some r\<close> block_plan_is_sound [OF assms(1,2) _ fit] by (auto simp: Let_def)
        qed
      qed
    qed (use False np in \<open>auto simp: Let_def\<close>)
  qed
qed

lemma groups_nonempty:
  assumes "geometry_ok sb" shows "0 < unat (block_group_count sb)"
proof -
  have "fdb_nat sb < unat (blocks_count sb)" "0 < bpg_nat sb" using assms by (auto simp: geometry_ok_def)
  then show ?thesis unfolding unat_block_group_count [OF assms] by (simp add: div_greater_zero_iff)
qed

lemma ngroups_word:
  assumes "0 < length groups" "length groups < 2 ^ 31"
  shows "unat (word_of_nat (length groups) :: u32) = length groups" "(word_of_nat (length groups) :: u32) \<noteq> 0"
proof -
  show n: "unat (word_of_nat (length groups) :: u32) = length groups" using assms(2) by (simp add: unat_of_nat)
  then show "(word_of_nat (length groups) :: u32) \<noteq> 0" using assms(1) by auto
qed

lemma hint_in_range:
  assumes "0 < length groups" "length groups < 2 ^ 31"
  shows "unat (min hint (saturating_sub (word_of_nat (length groups)) 1) :: u32) < length groups"
  unfolding unat_min unat_saturating_sub ngroups_word(1) [OF assms] using assms(1) by (simp add: min_less_iff_disj)

lemma all_groups_tried:
  assumes "unat start < length groups" "length groups < 2 ^ 31"
  shows "gi \<in> set (group_order (word_of_nat (length groups)) start) \<longleftrightarrow> unat gi < length groups"
proof
  have "0 < length groups" using assms(1) by linarith
  note n = ngroups_word(1) [OF this assms(2)]
  note order = group_order_set [of "word_of_nat (length groups)" start, unfolded n, OF assms(2,1)]
  show "gi \<in> set (group_order (word_of_nat (length groups)) start) \<Longrightarrow> unat gi < length groups"
    by (rule order(2))
  assume "unat gi < length groups"
  then have "unat gi \<in> unat ` set (group_order (word_of_nat (length groups)) start)" using order(1) by simp
  then show "gi \<in> set (group_order (word_of_nat (length groups)) start)" by (auto simp: word_unat_eq_iff [symmetric])
qed

lemma foldl_or_bit_iff:
  assumes "\<forall>i \<in> set xs. i < 8 * length bm"
  shows "length (foldl or_bit bm xs) = length bm \<and> (bit_is_set (foldl or_bit bm xs) k \<longleftrightarrow> k \<in> set xs \<or> bit_is_set bm k)"
  using assms
proof (induction xs arbitrary: bm)
  case Nil
  then show ?case by simp
next
  case (Cons x xs)
  have "x div 8 < length bm" using Cons.prems by (simp add: less_mult_imp_div_less mult.commute)
  then show ?case using Cons.IH [of "or_bit bm x"] Cons.prems by (auto simp: or_bit_iff)
qed

lemma set_range_iff:
  assumes "c = 8 * length bm"
  shows "length (set_range c r bm) = length bm \<and>
    (bit_is_set (set_range c r bm) k \<longleftrightarrow> (unat (fst r) \<le> k \<and> k < unat (snd r) \<and> k < c) \<or> bit_is_set bm k)"
proof -
  have "\<forall>i \<in> set [min (unat (fst r)) c ..< min (unat (snd r)) c]. i < 8 * length bm" using assms by auto
  note foldl_or_bit_iff [OF this, of k]
  then show ?thesis using assms by (auto simp: set_range_def)
qed

lemma set_ranges_iff:
  assumes "c = 8 * length bm"
  shows "length (foldl (\<lambda>bm r. set_range c r bm) bm rs) = length bm \<and>
    (bit_is_set (foldl (\<lambda>bm r. set_range c r bm) bm rs) k \<longleftrightarrow>
      (\<exists>r \<in> set rs. unat (fst r) \<le> k \<and> k < unat (snd r) \<and> k < c) \<or> bit_is_set bm k)"
  using assms
proof (induction rs arbitrary: bm)
  case Nil
  then show ?case by simp
next
  case (Cons r rs)
  then show ?case using Cons.IH [of "set_range c r bm"] set_range_iff [OF Cons.prems, of r] by auto
qed

lemma length_uninit_bitmap [simp]: "length (uninit_block_bitmap sb gs gi) = bs_nat sb"
  unfolding uninit_block_bitmap_def Let_def by (subst conjunct1 [OF set_ranges_iff]) simp_all

lemma blocks_in_group_le:
  assumes "0 < bpg_nat sb"
  shows "unat (blocks_in_group sb gi) \<le> bpg_nat sb"
proof -
  let ?r = "saturating_sub (blocks_count sb) (ucast (first_data_block sb)) mod ucast (blocks_per_group sb) :: u64"
  have "unat ?r < bpg_nat sb" using assms by (simp add: unat_mod_distrib)
  moreover have "unat (ucast ?r :: u32) \<le> unat ?r" by (simp add: unsigned_ucast_eq take_bit_nat_less_eq_self)
  ultimately have "unat (ucast ?r :: u32) \<le> bpg_nat sb" by linarith
  then show ?thesis by (simp add: blocks_in_group_def Let_def)
qed

text \<open>The geometry keeps a group's blocks below the wrap of the search, whatever bitmap the reader returns.\<close>

lemma group_scan_fits:
  assumes "geometry_ok sb"
  shows "scan_fits bm (blocks_in_group sb gi)"
proof -
  have "0 < bpg_nat sb" "bpg_nat sb < 2 ^ 32 - 64" using assms by (simp_all add: geometry_ok_def)
  then show ?thesis using blocks_in_group_le [of sb gi] by (simp add: scan_fits_def)
qed

lemma plan_excluding_sound:
  assumes "geometry_ok sb" "length groups = unat (block_group_count sb)" "length groups < 2 ^ 31"
    "\<forall>b. reader b \<noteq> Panic" "count \<noteq> 0"
  shows "case plan_block_allocation_excluding sb groups count hint reserved reader of
      Ok p \<Rightarrow> \<exists>gi bm. unat gi < length groups \<and> group_bitmap sb groups reader gi = Ok bm \<and>
        block_plan_sound sb groups count reserved gi bm p
    | Err e \<Rightarrow> (\<exists>gi. group_bitmap sb groups reader gi = Err e) \<or>
        (\<forall>gi. unat gi < length groups \<and> count \<le> free_blocks_count (groups ! unat gi) \<longrightarrow>
           (\<exists>bm. group_bitmap sb groups reader gi = Ok bm \<and> \<not> has_room sb count reserved gi bm))
    | Panic \<Rightarrow> False"
proof -
  let ?n = "word_of_nat (length groups) :: u32" and ?h = "min hint (saturating_sub (word_of_nat (length groups)) 1) :: u32"
  have pos: "0 < length groups" using groups_nonempty [OF assms(1)] assms(2) by simp
  note n = ngroups_word [OF pos assms(3)] and all = all_groups_tried [OF hint_in_range [OF pos assms(3)] assms(3)]
  have "plan_block_allocation_excluding sb groups count hint reserved reader =
      block_loop sb groups count reserved reader (group_order ?n ?h)"
    using assms(5) n by (simp add: plan_block_allocation_excluding_def Let_def)
  then show ?thesis
    using block_loop_cases [OF assms(1) _ assms(5), of reader "group_order ?n ?h" groups reserved] group_scan_fits [OF assms(1)] assms(2,3,4) all
    by (auto split: outcome.splits)
qed

text \<open>
  C13. Planning a block run never unwinds. A plan it returns names \<open>count\<close> blocks of one group, all
  inside the filesystem, free in that group's bitmap (the one on disk, or the one a BLOCK\_UNINIT
  group stands for), and disjoint from the blocks the caller has reserved; its bitmap write sets
  exactly those bits. It reports that no group has room only when no group whose free count
  suffices has such a run, so a hint never hides free space.
\<close>

theorem plan_block_allocation_correct:
  assumes "geometry_ok sb" "length groups = unat (block_group_count sb)" "length groups < 2 ^ 31"
    "\<forall>b. reader b \<noteq> Panic" "count \<noteq> 0"
  shows "case plan_block_allocation_excluding sb groups count hint reserved reader of
      Ok p \<Rightarrow> \<exists>gi bm. unat gi < length groups \<and> group_bitmap sb groups reader gi = Ok bm \<and>
        block_plan_sound sb groups count reserved gi bm p
    | Err e \<Rightarrow> (\<exists>gi. group_bitmap sb groups reader gi = Err e) \<or>
        (\<forall>gi. unat gi < length groups \<and> count \<le> free_blocks_count (groups ! unat gi) \<longrightarrow>
           (\<exists>bm. group_bitmap sb groups reader gi = Ok bm \<and> \<not> has_room sb count reserved gi bm))
    | Panic \<Rightarrow> False"
  using plan_excluding_sound [OF assms] .

text \<open>Two groups with free blocks and inodes, all bitmaps clear, and one block reserved.\<close>

definition roomy_groups :: "bgd list" where
  "roomy_groups = map (\<lambda>g. g\<lparr>free_blocks_count := 50, free_inodes_count := 50\<rparr>) example_groups"

definition clear_reader :: "u64 \<Rightarrow> bytes result" where
  "clear_reader b = Ok (replicate 1024 0)"

lemma clear_bitmap [simp]: "\<not> bit_is_set (replicate n 0) k"
  by (simp add: bit_is_set_iff)

lemma roomy_groups_nth:
  "length roomy_groups = 2"
  "roomy_groups ! 0 = (example_bgd 10 11 12)\<lparr>free_blocks_count := 50, free_inodes_count := 50\<rparr>"
  "roomy_groups ! Suc 0 = (example_bgd 1030 1031 2011)\<lparr>free_blocks_count := 50, free_inodes_count := 50\<rparr>"
  by (simp_all add: roomy_groups_def example_groups_def)

lemma roomy_group_bitmap:
  "gi \<in> {0, 1} \<Longrightarrow> group_bitmap sb roomy_groups clear_reader gi = Ok (replicate 1024 0)"
  by (auto simp: group_bitmap_def Let_def bgd_has_flag_def roomy_groups_nth example_bgd_def clear_reader_def)

lemma blocks_in_group_sized: "blocks_in_group (sized v) 1 = 1024"
  by (simp add: blocks_in_group_def Let_def saturating_sub_def word_eq_iff_unsigned word_le_nat_alt word_less_nat_alt)

lemma roomy_run:
  "find_free_run (mark_reserved_in_group (sized v) 1 1024 [1025] (replicate 1024 0)) 0 1024 2 = Some (Some 1)"
proof -
  let ?bm = "mark_reserved_in_group (sized v) 1 1024 [1025] (replicate 1024 0)"
  have bits: "length ?bm = 1024" "bit_is_set ?bm k \<longleftrightarrow> k = 0" for k
    using mark_reserved_in_group_iff [of "sized v" 1 1024 "[1025]" "replicate 1024 0" k] by auto
  have "first_run ?bm 1024 2 0 = Some 1"
    by (rule first_run_Some) (auto simp: free_run_def bits)
  then show ?thesis by (simp add: find_free_run_eq scan_fits_def clamp_bits_def bits)
qed

lemma two_groups_order: "group_order 2 1 = [1, 0]"
proof -
  have two: "unat (2 :: u32) = Suc (Suc 0)" by simp
  show ?thesis unfolding group_order_def two by (simp add: word_eq_iff_unsigned)
qed

lemma roomy_plan:
  "plan_block_allocation_excluding (sized 256) roomy_groups 2 1 [1025] clear_reader =
     Ok (block_plan (sized 256) (roomy_groups ! 1) 1 2 1)"
  using roomy_run [of 256] roomy_group_bitmap [of 1 "sized 256"]
    by (simp add: plan_block_allocation_excluding_def Let_def roomy_groups_nth(1) two_groups_order blocks_in_group_sized
        saturating_sub_def roomy_groups_nth(3) example_bgd_def word_le_nat_alt word_less_nat_alt min_def)

theorem plan_block_allocation_correct_witness:
  "\<exists>p. plan_block_allocation_excluding (sized 256) roomy_groups 2 1 [1025] clear_reader = Ok p \<and>
     plan_blocks p \<subseteq> group_blocks (sized 256) 1 \<and> 1025 \<notin> plan_blocks p \<and> unat (first_block p) = 1026"
proof -
  let ?p = "block_plan (sized 256) (roomy_groups ! 1) 1 2 1"
  have "plan_block_allocation_excluding (sized 256) roomy_groups 2 1 [1025] clear_reader = Ok ?p" by (rule roomy_plan)
  moreover have "unat (first_block ?p) = 1026" "group_idx (plan_bgd ?p) = 1"
    by (simp_all add: block_plan_def group_first_block_def)
  ultimately show ?thesis
    using plan_block_allocation_correct [where sb = "sized 256" and groups = roomy_groups and reader = clear_reader
        and count = 2 and hint = 1 and reserved = "[1025]"] sized_geometry [of 256]
    by (auto simp: roomy_groups_nth(1) clear_reader_def block_plan_sound_def)
qed

section \<open>The Orlov choice\<close>

lemma orlov_loop_spec:
  assumes "best = None \<longrightarrow> (\<forall>g. best_score < score g)"
    "\<forall>gi. best = Some gi \<longrightarrow> best_score = score (groups ! unat gi) \<and> 0 < free_inodes_count (groups ! unat gi)"
  shows "case orlov_loop score groups gis best best_score of
      None \<Rightarrow> best = None \<and> (\<forall>gi \<in> set gis. free_inodes_count (groups ! unat gi) = 0)
    | Some r \<Rightarrow> (r \<in> set gis \<or> best = Some r) \<and> 0 < free_inodes_count (groups ! unat r) \<and>
        (best \<noteq> None \<longrightarrow> best_score \<le> score (groups ! unat r)) \<and>
        (\<forall>gi \<in> set gis. 0 < free_inodes_count (groups ! unat gi) \<longrightarrow> score (groups ! unat gi) \<le> score (groups ! unat r))"
  using assms
proof (induction gis arbitrary: best best_score)
  case Nil
  then show ?case by (cases best) auto
next
  case (Cons gi gis)
  let ?g = "groups ! unat gi"
  show ?case
  proof (cases "score ?g > best_score \<and> free_inodes_count ?g > 0")
    case True
    then have same: "orlov_loop score groups (gi # gis) best best_score = orlov_loop score groups gis (Some gi) (score ?g)"
      by (simp add: Let_def)
    have "Some gi = None \<longrightarrow> (\<forall>g. score ?g < score g)"
      "\<forall>i. Some gi = Some i \<longrightarrow> score ?g = score (groups ! unat i) \<and> 0 < free_inodes_count (groups ! unat i)"
      using True by simp_all
    from Cons.IH [OF this] True show ?thesis unfolding same
      by (cases "orlov_loop score groups gis (Some gi) (score ?g)") auto
  next
    case False
    then have same: "orlov_loop score groups (gi # gis) best best_score = orlov_loop score groups gis best best_score"
      by auto
    have "best = None \<longrightarrow> free_inodes_count ?g = 0" using False Cons.prems(1) by (auto simp: word_gt_0)
    moreover have "0 < free_inodes_count ?g \<longrightarrow> best \<noteq> None \<and> score ?g \<le> best_score"
      using False Cons.prems(1) by auto
    ultimately show ?thesis
      using Cons.IH [OF Cons.prems] unfolding same
      by (cases "orlov_loop score groups gis best best_score") auto
  qed
qed

text \<open>The averages of \<open>orlov_select_group\<close>, and the score it ranks groups by.\<close>

definition orlov_rank :: "bgd list \<Rightarrow> bgd \<Rightarrow> int" where
  "orlov_rank groups =
     orlov_score (sum_list (map (\<lambda>g. ucast (free_inodes_count g)) groups) div ucast (word_of_nat (length groups) :: u32))
       (sum_list (map (\<lambda>g. ucast (used_dirs_count g)) groups) div ucast (word_of_nat (length groups) :: u32))"

lemma orlov_score_lower: "- (2 ^ 63) < orlov_score a b g"
proof -
  have bound: "- (2 ^ 63) < f - u + x + y" if "0 \<le> f" "u < 2 ^ 32" "0 \<le> x" "0 \<le> y" for f u x y :: int
    using that by simp
  show ?thesis unfolding orlov_score_def Let_def
    by (rule bound) (use uint_lt2p [of "used_dirs_count g"] in simp_all)
qed

lemma orlov_in_range:
  assumes "0 < length groups" "length groups < 2 ^ 31"
  shows "unat (orlov_select_group groups hint) < length groups"
proof -
  let ?n = "word_of_nat (length groups) :: u32" and ?h = "min hint (saturating_sub (word_of_nat (length groups)) 1) :: u32"
  let ?loop = "orlov_loop (orlov_rank groups) groups (group_order ?n ?h) None (- (2 ^ 63))"
  note h = hint_in_range [OF assms, of hint]
  have "\<forall>r. ?loop = Some r \<longrightarrow> unat r < length groups"
    using orlov_loop_spec [of None "- (2 ^ 63)" "orlov_rank groups" groups "group_order ?n ?h"] orlov_score_lower
      all_groups_tried [OF h assms(2)]
    by (auto simp: orlov_rank_def split: option.splits)
  then show ?thesis
    using h ngroups_word(2) [OF assms]
    by (auto simp: orlov_select_group_def orlov_rank_def Let_def split: option.splits)
qed

text \<open>
  The directory heuristic always names an existing group. When some group has a free inode, it
  names one that has, and no group with a free inode scores higher.
\<close>

theorem orlov_select_group_correct:
  assumes "0 < length groups" "length groups < 2 ^ 31"
  shows "let r = unat (orlov_select_group groups hint) in r < length groups \<and>
    ((\<exists>g \<in> set groups. 0 < free_inodes_count g) \<longrightarrow> 0 < free_inodes_count (groups ! r) \<and>
       (\<forall>g \<in> set groups. 0 < free_inodes_count g \<longrightarrow> orlov_rank groups g \<le> orlov_rank groups (groups ! r)))"
proof -
  let ?n = "word_of_nat (length groups) :: u32" and ?h = "min hint (saturating_sub (word_of_nat (length groups)) 1) :: u32"
  let ?loop = "orlov_loop (orlov_rank groups) groups (group_order ?n ?h) None (- (2 ^ 63))"
  note n = ngroups_word [OF assms] and h = hint_in_range [OF assms, of hint]
  note all = all_groups_tried [OF h assms(2)]
  have r: "orlov_select_group groups hint = (case ?loop of None \<Rightarrow> ?h | Some gi \<Rightarrow> gi)"
    using n(2) by (simp add: orlov_select_group_def orlov_rank_def Let_def)
  have member: "\<exists>gi. gi \<in> set (group_order ?n ?h) \<and> g = groups ! unat gi" if "g \<in> set groups" for g
  proof -
    from that obtain i where i: "i < length groups" "g = groups ! i" by (auto simp: in_set_conv_nth)
    have u: "unat (word_of_nat i :: u32) = i" using i(1) assms(2) by (simp add: unat_of_nat)
    have "word_of_nat i \<in> set (group_order ?n ?h)" unfolding all u by (rule i(1))
    moreover have "g = groups ! unat (word_of_nat i :: u32)" unfolding u by (rule i(2))
    ultimately show ?thesis by blast
  qed
  have spec: "case ?loop of
      None \<Rightarrow> \<forall>gi \<in> set (group_order ?n ?h). free_inodes_count (groups ! unat gi) = 0
    | Some r \<Rightarrow> r \<in> set (group_order ?n ?h) \<and> 0 < free_inodes_count (groups ! unat r) \<and>
        (\<forall>gi \<in> set (group_order ?n ?h). 0 < free_inodes_count (groups ! unat gi) \<longrightarrow>
           orlov_rank groups (groups ! unat gi) \<le> orlov_rank groups (groups ! unat r))"
    using orlov_loop_spec [of None "- (2 ^ 63)" "orlov_rank groups" groups "group_order ?n ?h"] orlov_score_lower
    by (auto simp: orlov_rank_def split: option.splits)
  show ?thesis
  proof (cases ?loop)
    case None
    then show ?thesis using spec r h member by (fastforce simp: Let_def)
  next
    case (Some g)
    then show ?thesis using spec r member all by (fastforce simp: Let_def)
  qed
qed

theorem orlov_select_group_correct_witness:
  "unat (orlov_select_group roomy_groups 5) < 2 \<and>
   0 < free_inodes_count (roomy_groups ! unat (orlov_select_group roomy_groups 5))"
proof -
  have "\<exists>g \<in> set roomy_groups. 0 < free_inodes_count g"
    by (simp add: roomy_groups_def example_groups_def word_gt_0)
  then show ?thesis
    using orlov_select_group_correct [of roomy_groups 5] by (simp add: roomy_groups_nth(1) Let_def)
qed

section \<open>Inode plans\<close>

definition inode_bitmap_of :: "superblock \<Rightarrow> bgd list \<Rightarrow> (u64 \<Rightarrow> bytes result) \<Rightarrow> u32 \<Rightarrow> bytes result" where
  "inode_bitmap_of sb groups reader gi =
     (let g = groups ! unat gi
      in if bgd_has_flag g INODE_UNINIT then Ok (replicate (bs_nat sb) 0) else reader (inode_bitmap g))"

text \<open>
  A sound plan in group \<open>gi\<close> with bitmap \<open>bm\<close>: the inode is an allocatable one of that group, its
  bit is the first clear one, and the bitmap write sets just that bit.
\<close>

definition inode_plan_sound :: "superblock \<Rightarrow> bgd list \<Rightarrow> bool \<Rightarrow> u32 \<Rightarrow> bytes \<Rightarrow> inode_allocation_plan \<Rightarrow> bool" where
  "inode_plan_sound sb groups dir gi bm p \<longleftrightarrow>
     (let ino = unat (plan_inode p); k = (ino - 1) mod unat (inodes_per_group sb) in
      unat (first_inode sb) \<le> ino \<and> ino \<le> unat (inodes_count sb) \<and>
      (ino - 1) div unat (inodes_per_group sb) = unat gi \<and> \<not> bit_is_set bm k \<and>
      (\<forall>j < k. unat (first_inode sb) \<le> unat gi * unat (inodes_per_group sb) + j + 1 \<longrightarrow> bit_is_set bm j) \<and>
      bitmap_block (iplan_bitmap p) = inode_bitmap (groups ! unat gi) \<and>
      (\<forall>j. bit_is_set (apply_bitmap_write bm (iplan_bitmap p)) j \<longleftrightarrow> bit_is_set bm j \<or> j = k) \<and>
      is_dir p = dir \<and> group_idx (iplan_bgd p) = gi \<and> free_inodes_delta (iplan_bgd p) = - 1 \<and>
      used_dirs_delta (iplan_bgd p) = (if dir then 1 else 0))"

abbreviation inode_floor :: "superblock \<Rightarrow> u32 \<Rightarrow> nat" where
  "inode_floor sb gi \<equiv> min ((unat (first_inode sb) - 1) - unat gi * unat (inodes_per_group sb)) (2 ^ 32 - 1)"

lemma unat_word_of_nat: "x < 2 ^ LENGTH('a) \<Longrightarrow> unat (word_of_nat x :: 'a::len word) = x"
  by (simp add: unsigned_of_nat take_bit_nat_eq_self)

lemma inode_plan_is_sound:
  assumes "geometry_ok sb" "scan_fits bm (inodes_per_group sb)" "find_first_free bm (word_of_nat (inode_floor sb gi)) (inodes_per_group sb) = Some (Some bw)"
    "inode_number sb gi bw = Some ino"
  shows "inode_plan_sound sb groups dir gi bm (inode_plan (groups ! unat gi) gi dir bw ino)"
proof -
  let ?ipg = "unat (inodes_per_group sb)"
  define b where "b = unat bw"
  have fl: "unat (word_of_nat (inode_floor sb gi) :: u32) = inode_floor sb gi" by (rule unat_word_of_nat) simp
  have first: "11 \<le> unat (first_inode sb)" using assms(1) by (simp add: geometry_ok_def)
  have b: "inode_floor sb gi \<le> b" "b < ?ipg" "b < 8 * length bm" "b < 2 ^ 32 - 1" "\<not> bit_is_set bm b"
      "\<And>k. inode_floor sb gi \<le> k \<Longrightarrow> k < b \<Longrightarrow> bit_is_set bm k"
    using find_first_free_Some [OF assms(2,3)] unfolding fl b_def by (auto simp: clamp_bits_def)
  have n: "unat gi * ?ipg + b + 1 \<le> unat (inodes_count sb)" "ino = word_of_nat (unat gi * ?ipg + b + 1)"
    using assms(4) by (auto simp: inode_number_def Let_def b_def split: if_splits)
  have "unat gi * ?ipg + b + 1 < 2 ^ LENGTH(32)" using n(1) unat_lt2p [of "inodes_count sb"] by linarith
  then have ino: "unat ino = unat gi * ?ipg + b + 1" unfolding n(2) by (rule unat_word_of_nat)
  then have idx: "(unat ino - 1) mod ?ipg = b" "(unat ino - 1) div ?ipg = unat gi" using b(2) by simp_all
  have low: "unat (first_inode sb) \<le> unat gi * ?ipg + b + 1" using b(1,4) by linarith
  have bu: "unat bw = b" by (simp add: b_def)
  have earlier: "bit_is_set bm j" if "j < b" "unat (first_inode sb) \<le> unat gi * ?ipg + j + 1" for j
    by (rule b(6)) (use that in linarith)+
  have applied: "bit_is_set (apply_bitmap_write bm (iplan_bitmap (inode_plan (groups ! unat gi) gi dir bw ino))) j
      \<longleftrightarrow> bit_is_set bm j \<or> j = b" for j
    using apply_bitmap_write_iff [of "iplan_bitmap (inode_plan (groups ! unat gi) gi dir bw ino)" bm j]
      b(3,4) bu by (auto simp: inode_plan_def)
  have low': "unat (first_inode sb) \<le> unat ino" "unat ino \<le> unat (inodes_count sb)" using low n(1) ino by simp_all
  have plan: "plan_inode (inode_plan (groups ! unat gi) gi dir bw ino) = ino" by (simp add: inode_plan_def)
  show ?thesis
    unfolding inode_plan_sound_def Let_def plan idx applied using low' b(5) earlier by (simp add: inode_plan_def)
qed

lemma inode_loop_cases:
  assumes "geometry_ok sb" "\<And>b. reader b \<noteq> Panic" "\<And>gi bm. inode_bitmap_of sb groups reader gi = Ok bm \<Longrightarrow> scan_fits bm (inodes_per_group sb)"
  shows "case inode_loop sb groups dir reader gis of
      Ok p \<Rightarrow> \<exists>gi \<in> set gis. \<exists>bm. inode_bitmap_of sb groups reader gi = Ok bm \<and> inode_plan_sound sb groups dir gi bm p
    | Err e \<Rightarrow> (\<exists>gi \<in> set gis. inode_bitmap_of sb groups reader gi = Err e) \<or>
        e = Corrupt ''the group's inode range does not fit in the filesystem'' \<or>
        (\<forall>gi \<in> set gis. free_inodes_count (groups ! unat gi) \<noteq> 0 \<longrightarrow>
           (\<exists>bm. inode_bitmap_of sb groups reader gi = Ok bm \<and>
              first_free bm (inode_floor sb gi) (clamp_bits bm (unat (inodes_per_group sb))) = None))
    | Panic \<Rightarrow> False"
proof (induction gis)
  case Nil
  then show ?case by simp
next
  case (Cons gi gis)
  let ?rest = "inode_loop sb groups dir reader gis"
  let ?bitmap = "inode_bitmap_of sb groups reader gi"
  let ?free = "\<lambda>bm. find_first_free bm (word_of_nat (inode_floor sb gi)) (inodes_per_group sb)"
  have fl: "unat (word_of_nat (inode_floor sb gi) :: u32) = inode_floor sb gi" by (rule unat_word_of_nat) simp
  have np: "?bitmap \<noteq> Panic" using assms(2) by (auto simp: inode_bitmap_of_def Let_def)
  have step: "inode_loop sb groups dir reader (gi # gis) =
      (if free_inodes_count (groups ! unat gi) = 0 then ?rest
       else and_then ?bitmap (\<lambda>bm. case ?free bm of None \<Rightarrow> Panic | Some None \<Rightarrow> ?rest
         | Some (Some b) \<Rightarrow> and_then (ok_or (inode_number sb gi b)
              (Corrupt ''the group's inode range does not fit in the filesystem''))
              (\<lambda>ino. Ok (inode_plan (groups ! unat gi) gi dir b ino))))"
    by (simp add: inode_bitmap_of_def Let_def)
  show ?case
  proof (cases "free_inodes_count (groups ! unat gi) = 0")
    case True
    then show ?thesis unfolding step using Cons by (cases ?rest) auto
  next
    case False
    show ?thesis
    proof (cases ?bitmap)
      case (Ok bm)
      note fit = assms(3) [OF Ok]
      note eq = find_first_free_eq [OF fit, of "word_of_nat (inode_floor sb gi)", unfolded fl]
      show ?thesis
      proof (cases "first_free bm (inode_floor sb gi) (clamp_bits bm (unat (inodes_per_group sb)))")
        case None
        then have "inode_loop sb groups dir reader (gi # gis) = ?rest" unfolding step using eq False Ok by simp
        then show ?thesis using Cons Ok None by (cases ?rest) auto
      next
        case (Some n)
        then have f: "?free bm = Some (Some (word_of_nat n))" using eq by simp
        then have "inode_loop sb groups dir reader (gi # gis) = and_then (ok_or (inode_number sb gi (word_of_nat n))
            (Corrupt ''the group's inode range does not fit in the filesystem'')) (\<lambda>ino. Ok (inode_plan (groups ! unat gi) gi dir (word_of_nat n) ino))"
          unfolding step using False Ok by simp
        then show ?thesis using Ok inode_plan_is_sound [OF assms(1) fit f] by (cases "inode_number sb gi (word_of_nat n)") auto
      qed
    qed (unfold step, use False np in auto)
  qed
qed



section \<open>The bitmap of an uninitialised group\<close>

text \<open>One of the descriptor's own ranges, and what it covers.\<close>

lemma own_range_iff:
  fixes start ln first n :: u64
  assumes "unat start + unat ln < 2 ^ 64"
  shows "(\<exists>r \<in> set (case checked_sub start first of None \<Rightarrow> []
        | Some rel \<Rightarrow> if rel < n then [(rel, min (rel + ln) n)] else []).
      unat (fst r) \<le> k \<and> k < unat (snd r) \<and> k < c) \<longleftrightarrow>
    k < unat n \<and> k < c \<and> unat start \<le> unat first + k \<and> unat first + k < unat start + unat ln \<and> unat first \<le> unat start"
proof (cases "checked_sub start first")
  case None
  then have "unat start < unat first" by (simp add: checked_sub_def word_le_nat_alt not_le split: if_splits)
  then show ?thesis using None by simp
next
  case (Some rel)
  note rel = checked_sub_Some [OF Some]
  have "unat (rel + ln) = unat rel + unat ln" using rel assms by (intro unat_add_no_wrap) simp
  then show ?thesis using Some rel by (auto simp: word_less_nat_alt unat_min)
qed

text \<open>Whether block \<open>b\<close> belongs to a run of the descriptor that starts inside the group.\<close>

definition owns :: "superblock \<Rightarrow> u32 \<Rightarrow> u64 \<Rightarrow> nat \<Rightarrow> nat \<Rightarrow> bool" where
  "owns sb gi start n b \<longleftrightarrow> group_base sb gi \<le> unat start \<and> unat start \<le> b \<and> b < unat start + n"

text \<open>
  The bitmap a BLOCK\_UNINIT group stands for: set are exactly the bits past the group's last
  block, the group's head metadata (superblock copy, descriptors and their reserved growth), and
  the descriptor's own bitmaps and inode table where they start inside the group. So an allocation
  in such a group never overwrites them.
\<close>

theorem uninit_block_bitmap_correct:
  assumes "geometry_ok sb" "unat (block_group_count sb) < 2 ^ 31" "length groups = unat (block_group_count sb)"
    "unat gi < length groups" "bgd_bounded sb (unat gi) (groups ! unat gi)" "k < 8 * bs_nat sb"
  shows "bit_is_set (uninit_block_bitmap sb groups gi) k \<longleftrightarrow>
    unat (blocks_in_group sb gi) \<le> k \<or> k < unat (group_head_metadata_blocks sb (ucast gi)) \<or>
    (let g = groups ! unat gi; b = group_base sb gi + k in
     owns sb gi (block_bitmap g) 1 b \<or> owns sb gi (inode_bitmap g) 1 b \<or>
     owns sb gi (inode_table g) (unat (table_blocks sb)) b)"
proof -
  let ?g = "groups ! unat gi" and ?n = "unat (blocks_in_group sb gi)" and ?c = "8 * bs_nat sb"
  let ?head = "group_head_metadata_blocks sb (ucast gi)" and ?w = "ucast (blocks_in_group sb gi) :: u64"
  let ?first = "ucast (first_data_block sb) + ucast gi * ucast (blocks_per_group sb) :: u64"
  let ?own = "\<lambda>start ln. case checked_sub start ?first of None \<Rightarrow> []
    | Some rel \<Rightarrow> if rel < ?w then [(rel, min (rel + ln) ?w)] else []"
  have cast: "word_of_nat (unat gi) = (ucast gi :: u64)" 
    using unat_lt2p [of gi] by (simp add: word_unat_eq_iff unat_word_of_nat)
  have bs: "bs_nat sb \<le> 65536" using block_size_bounds assms(1) by (auto simp: geometry_ok_def)
  have first: "unat (ucast (first_data_block sb) + ucast gi * ucast (blocks_per_group sb) :: u64) = group_base sb gi"
    using group_start [OF assms(1), of "ucast gi"] assms(3,4) by (simp add: first_block_of_group_def)
  have lens: "unat (block_bitmap ?g) + unat (1 :: u64) < 2 ^ 64" "unat (inode_bitmap ?g) + unat (1 :: u64) < 2 ^ 64"
      "unat (inode_table ?g) + unat (table_blocks sb) < 2 ^ 64"
    using assms(5) unat_lt2p [of "blocks_count sb"] by (auto simp: bgd_bounded_def Let_def)
  have pad: "unat (word_of_nat (min ?n ?c) :: u64) = min ?n ?c" "unat (word_of_nat ?c :: u64) = ?c"
    by (rule unat_word_of_nat; use bs in simp)+
  have minn: "min ?n ?c \<le> k \<longleftrightarrow> ?n \<le> k" using assms(6) by linarith
  have head: "?head \<noteq> 0 \<and> k < unat ?head \<longleftrightarrow> k < unat ?head" by auto
  have ranges: "uninit_group_used_ranges sb groups (unat gi) =
      (if ?head > 0 then [(0, min ?head ?w)] else []) @ ?own (block_bitmap ?g) 1 @ ?own (inode_bitmap ?g) 1 @
      ?own (inode_table ?g) (table_blocks sb)"
    using assms(4) by (simp add: uninit_group_used_ranges_def Let_def cast)
  have bm: "uninit_block_bitmap sb groups gi = foldl (\<lambda>bm r. set_range ?c r bm) (replicate (bs_nat sb) 0)
      (uninit_group_used_ranges sb groups (unat gi) @ [(word_of_nat (min ?n ?c), word_of_nat ?c)])"
    by (simp only: uninit_block_bitmap_def Let_def length_replicate mult.commute [of "bs_nat sb" 8])
  have "bit_is_set (uninit_block_bitmap sb groups gi) k \<longleftrightarrow>
      (\<exists>r \<in> set (uninit_group_used_ranges sb groups (unat gi) @ [(word_of_nat (min ?n ?c), word_of_nat ?c)]).
         unat (fst r) \<le> k \<and> k < unat (snd r) \<and> k < ?c)"
    unfolding bm using set_ranges_iff [of ?c "replicate (bs_nat sb) 0"] clear_bitmap
    by (simp only: length_replicate simp_thms)
  also have "\<dots> \<longleftrightarrow> (?n \<le> k \<or> k < ?n \<and> k < unat ?head \<or> k < ?n \<and>
      (owns sb gi (block_bitmap ?g) 1 (group_base sb gi + k) \<or> owns sb gi (inode_bitmap ?g) 1 (group_base sb gi + k) \<or>
       owns sb gi (inode_table ?g) (unat (table_blocks sb)) (group_base sb gi + k)))"
    unfolding ranges set_append bex_Un own_range_iff [OF lens(1)] own_range_iff [OF lens(2)] own_range_iff [OF lens(3)]
    using assms(6) pad minn head by (simp add: first owns_def unat_min word_gt_0 unat_gt_0) blast
  also have "\<dots> \<longleftrightarrow> ?n \<le> k \<or> k < unat ?head \<or>
      (owns sb gi (block_bitmap ?g) 1 (group_base sb gi + k) \<or> owns sb gi (inode_bitmap ?g) 1 (group_base sb gi + k) \<or>
       owns sb gi (inode_table ?g) (unat (table_blocks sb)) (group_base sb gi + k))" by linarith
  finally show ?thesis by (simp add: Let_def)
qed

theorem uninit_block_bitmap_correct_witness:
  "bit_is_set (uninit_block_bitmap (sized 256) example_groups 1) 5"
  using uninit_block_bitmap_correct [where sb = "sized 256" and groups = example_groups and gi = 1 and k = 5]
    sized_geometry [of 256] example_groups_bounded [of 1]
  by (simp add: example_groups_def example_bgd_def owns_def)

section \<open>Several plans before a commit\<close>

lemma reserved_blocks_set:
  assumes "\<forall>q \<in> set (data # handed_out). unat (first_block q) + unat (plan_count q) < 2 ^ 64"
  shows "unat ` set (reserved_blocks data handed_out) = (\<Union>q \<in> set (data # handed_out). plan_blocks q)"
proof -
  have run: "unat ` (\<lambda>i. first_block q + word_of_nat i) ` {0 ..< unat (plan_count q)} = plan_blocks q"
    if "q \<in> set (data # handed_out)" for q
  proof -
    have "unat (first_block q + word_of_nat i) = unat (first_block q) + i" if i: "i < unat (plan_count q)" for i
    proof -
      have lt: "unat (first_block q) + i < 2 ^ LENGTH(64)"
        using bspec [OF assms \<open>q \<in> set (data # handed_out)\<close>] i by simp
      then have "unat (word_of_nat i :: u64) = i" by (intro unat_word_of_nat) linarith
      then show ?thesis using lt by (simp add: unat_add_no_wrap)
    qed
    then have "unat ` (\<lambda>i. first_block q + word_of_nat i) ` {0 ..< unat (plan_count q)} =
        (\<lambda>i. unat (first_block q) + i) ` {0 ..< unat (plan_count q)}" by (simp add: image_image)
    also have "\<dots> = plan_blocks q" by (simp add: plan_blocks_def image_add_atLeastLessThan' add.commute)
    finally show ?thesis .
  qed
  have "set (reserved_blocks data handed_out) =
      (\<Union>q \<in> set (data # handed_out). (\<lambda>i. first_block q + word_of_nat i) ` {0 ..< unat (plan_count q)})"
    by (auto simp: reserved_blocks_def)
  then have "unat ` set (reserved_blocks data handed_out) =
      (\<Union>q \<in> set (data # handed_out). unat ` (\<lambda>i. first_block q + word_of_nat i) ` {0 ..< unat (plan_count q)})"
    by (simp only: image_UN)
  also have "\<dots> = (\<Union>q \<in> set (data # handed_out). plan_blocks q)" by (rule SUP_cong [OF refl run])
  finally show ?thesis .
qed

text \<open>
  A transaction that plans several runs before committing any of them, excluding the runs it
  has already been given, never gets a block twice: the new run is disjoint from every earlier one.
\<close>

theorem excluded_plans_disjoint:
  assumes "geometry_ok sb" "length groups = unat (block_group_count sb)" "length groups < 2 ^ 31"
    "\<forall>b. reader b \<noteq> Panic" "\<forall>q \<in> set (data # handed_out). unat (first_block q) + unat (plan_count q) < 2 ^ 64"
    "plan_block_allocation_excluding sb groups count hint (reserved_blocks data handed_out) reader = Ok p"
  shows "\<forall>q \<in> set (data # handed_out). plan_blocks p \<inter> plan_blocks q = {}"
proof -
  have "count \<noteq> 0" using assms(6) by (auto simp: plan_block_allocation_excluding_def)
  then obtain gi bm where "block_plan_sound sb groups count (reserved_blocks data handed_out) gi bm p"
    using plan_excluding_sound [OF assms(1-4), where count = count and hint = hint
        and reserved = "reserved_blocks data handed_out"] assms(6) by auto
  then show ?thesis
    unfolding block_plan_sound_def reserved_blocks_set [OF assms(5)] by blast
qed

theorem excluded_plans_disjoint_witness:
  "let d = block_plan (sized 256) (roomy_groups ! 1) 1 1 0 in
   \<exists>p. plan_block_allocation_excluding (sized 256) roomy_groups 2 1 (reserved_blocks d []) clear_reader = Ok p \<and>
     plan_blocks p \<inter> plan_blocks d = {}"
proof -
  let ?d = "block_plan (sized 256) (roomy_groups ! 1) 1 1 0" and ?p = "block_plan (sized 256) (roomy_groups ! 1) 1 2 1"
  have d: "reserved_blocks ?d [] = [1025]" "unat (first_block ?d) = 1025" "plan_count ?d = 1"
    by (simp_all add: reserved_blocks_def block_plan_def group_first_block_def)
  have "plan_block_allocation_excluding (sized 256) roomy_groups 2 1 (reserved_blocks ?d []) clear_reader = Ok ?p"
    unfolding d(1) by (rule roomy_plan)
  then show ?thesis
    using excluded_plans_disjoint [where sb = "sized 256" and groups = roomy_groups and reader = clear_reader
        and data = ?d and handed_out = "[]" and count = 2 and hint = 1 and p = ?p] sized_geometry [of 256] d
    by (simp add: roomy_groups_nth(1) clear_reader_def Let_def)
qed

end
