(* ===== verification/Inode.thy ===== *)
theory Inode
  imports Ext4_Error
begin

unbundle bit_operations_syntax

text \<open>
  Inodes (\<open>src/inode.rs\<close>): the parser of the on-disk record, the encoding of timestamps as a signed base word and a
  companion word with an era count, and the in-place update of one timestamp. Seconds are integers: every \<open>i64\<close> the source
  computes here is far inside its range.
\<close>

section \<open>Constants\<close>

definition INODE_BASE_SIZE :: nat where "INODE_BASE_SIZE = 128"
definition INODE_EXTRA_OFFSET :: nat where "INODE_EXTRA_OFFSET = 128"
definition OFF_EXTRA_ISIZE :: nat where "OFF_EXTRA_ISIZE = 0x80"

definition S_IFMT :: u16 where "S_IFMT = 0xF000"
definition S_IFREG :: u16 where "S_IFREG = 0x8000"
definition S_IFDIR :: u16 where "S_IFDIR = 0x4000"
definition S_IFLNK :: u16 where "S_IFLNK = 0xA000"

definition ENCRYPT_FL :: u32 where "ENCRYPT_FL = 0x800"
definition INDEX_FL :: u32 where "INDEX_FL = 0x1000"
definition EXTENTS_FL :: u32 where "EXTENTS_FL = 0x80000"
definition INLINE_DATA_FL :: u32 where "INLINE_DATA_FL = 0x10000000"

lemmas inode_consts = INODE_BASE_SIZE_def INODE_EXTRA_OFFSET_def OFF_EXTRA_ISIZE_def

record inode =
  i_mode :: u16
  i_uid :: u32
  i_gid :: u32
  i_size :: u64
  i_atime :: int
  i_mtime :: int
  i_ctime :: int
  i_dtime :: int
  i_crtime :: int
  i_atime_nsec :: u32
  i_mtime_nsec :: u32
  i_ctime_nsec :: u32
  i_crtime_nsec :: u32
  i_links_count :: u16
  i_blocks :: u64
  i_flags :: u32
  i_block_area :: bytes
  i_generation :: u32
  i_file_acl :: u64
  i_checksum :: u32

section \<open>Timestamps\<close>

definition ERA_SECONDS :: int where "ERA_SECONDS = 2 ^ 32"
definition ERA_FIELD :: u32 where "ERA_FIELD = 3"

definition unpack_seconds :: "u32 \<Rightarrow> u32 \<Rightarrow> int" where
  "unpack_seconds base extra = sint base + uint (extra AND ERA_FIELD) * ERA_SECONDS"

definition pack_seconds :: "int \<Rightarrow> u32 \<times> u32" where
  "pack_seconds secs =
     (let half_windows = drop_bit 31 secs; era = word_of_int (drop_bit 1 (half_windows + 1)) AND ERA_FIELD
      in (word_of_int secs, era))"

definition I32_MIN :: int where "I32_MIN = - (2 ^ 31)"
definition I32_MAX :: int where "I32_MAX = 2 ^ 31 - 1"
definition MIN_ENCODABLE_TIME :: int where "MIN_ENCODABLE_TIME = I32_MIN"
definition MAX_ENCODABLE_TIME :: int where "MAX_ENCODABLE_TIME = I32_MAX + 3 * ERA_SECONDS"

definition clamp :: "int \<Rightarrow> int \<Rightarrow> int \<Rightarrow> int" where
  "clamp lo hi x = (if x < lo then lo else if x > hi then hi else x)"

datatype inode_time = Atime | Ctime | Mtime | Crtime

fun base_offset :: "inode_time \<Rightarrow> nat" where
  "base_offset Atime = 0x08"
| "base_offset Ctime = 0x0C"
| "base_offset Mtime = 0x10"
| "base_offset Crtime = 0x90"

fun extra_offset :: "inode_time \<Rightarrow> nat" where
  "extra_offset Ctime = 0x84"
| "extra_offset Mtime = 0x88"
| "extra_offset Atime = 0x8C"
| "extra_offset Crtime = 0x94"

definition extra_field_fits :: "bytes \<Rightarrow> nat \<Rightarrow> bool" where
  "extra_field_fits raw offset \<longleftrightarrow>
     OFF_EXTRA_ISIZE + 2 \<le> length raw \<and>
     (let declared_end = INODE_EXTRA_OFFSET + unat (get_le16 OFF_EXTRA_ISIZE raw); field_end = offset + 4
      in field_end \<le> length raw \<and> field_end \<le> declared_end)"

definition set_inode_time :: "bytes \<Rightarrow> inode_time \<Rightarrow> int \<Rightarrow> bytes result" where
  "set_inode_time raw field secs =
     (let base_at = base_offset field; extra_at = extra_offset field;
          store = (\<lambda>base extra. and_then (put_checked base_at (u32_to_le base) raw) (\<lambda>raw.
            case extra of None \<Rightarrow> Ok raw | Some era \<Rightarrow> put_checked extra_at (u32_to_le era) raw))
      in if extra_field_fits raw extra_at
         then let (base, era) = pack_seconds (clamp MIN_ENCODABLE_TIME MAX_ENCODABLE_TIME secs) in store base (Some era)
         else if field \<noteq> Crtime \<or> extra_field_fits raw base_at
         then store (word_of_int (clamp I32_MIN I32_MAX secs)) None
         else Ok raw)"

section \<open>Parsing\<close>

definition join16 :: "u16 \<Rightarrow> u16 \<Rightarrow> u32" where
  "join16 hi lo = push_bit 16 (ucast hi) OR ucast lo"

definition join32 :: "u64 \<Rightarrow> u32 \<Rightarrow> u64" where
  "join32 hi lo = push_bit 32 hi OR ucast lo"

text \<open>
  The extra fields: each is read only where \<open>i_extra_isize\<close> covers it, and is zero otherwise; an inode without room for the
  size field has none.
\<close>

definition declared_extra :: "bytes \<Rightarrow> nat" where
  "declared_extra raw = (if length raw \<ge> INODE_EXTRA_OFFSET + 4 then unat (get_le16 OFF_EXTRA_ISIZE raw) else 0)"

definition extra32 :: "bytes \<Rightarrow> nat \<Rightarrow> nat \<Rightarrow> u32" where
  "extra32 raw need off = (if declared_extra raw \<ge> need then get_le32 off raw else 0)"

definition Inode_parse :: "bytes \<Rightarrow> inode result" where
  "Inode_parse raw =
     (if length raw < INODE_BASE_SIZE then Err (Corrupt ''inode buffer too small'')
      else if length raw \<ge> INODE_EXTRA_OFFSET + 4 \<and> INODE_EXTRA_OFFSET + unat (get_le16 OFF_EXTRA_ISIZE raw) > length raw
      then Err (Corrupt ''i_extra_isize exceeds inode size'')
      else let checksum_hi = (if declared_extra raw \<ge> 4 then get_le16 0x82 raw else 0);
               ctime_extra = extra32 raw 8 0x84; mtime_extra = extra32 raw 12 0x88; atime_extra = extra32 raw 16 0x8C;
               crtime_base = extra32 raw 20 0x90; crtime_extra = extra32 raw 24 0x94
           in Ok \<lparr>i_mode = get_le16 0x00 raw,
                  i_uid = join16 (get_le16 0x78 raw) (get_le16 0x02 raw),
                  i_gid = join16 (get_le16 0x7A raw) (get_le16 0x18 raw),
                  i_size = join32 (ucast (get_le32 0x6C raw)) (get_le32 0x04 raw),
                  i_atime = unpack_seconds (get_le32 0x08 raw) atime_extra,
                  i_mtime = unpack_seconds (get_le32 0x10 raw) mtime_extra,
                  i_ctime = unpack_seconds (get_le32 0x0C raw) ctime_extra,
                  i_dtime = sint (get_le32 0x14 raw),
                  i_crtime = unpack_seconds crtime_base crtime_extra,
                  i_atime_nsec = drop_bit 2 atime_extra, i_mtime_nsec = drop_bit 2 mtime_extra,
                  i_ctime_nsec = drop_bit 2 ctime_extra, i_crtime_nsec = drop_bit 2 crtime_extra,
                  i_links_count = get_le16 0x1A raw,
                  i_blocks = join32 (ucast (get_le16 0x74 raw)) (get_le32 0x1C raw),
                  i_flags = get_le32 0x20 raw,
                  i_block_area = slice 0x28 (0x28 + 60) raw,
                  i_generation = get_le32 0x64 raw,
                  i_file_acl = join32 (ucast (get_le16 0x76 raw)) (get_le32 0x68 raw),
                  i_checksum = join16 checksum_hi (get_le16 0x7C raw)\<rparr>)"

definition inode_file_type :: "inode \<Rightarrow> u16" where "inode_file_type ino = i_mode ino AND S_IFMT"
definition is_dir :: "inode \<Rightarrow> bool" where "is_dir ino \<longleftrightarrow> inode_file_type ino = S_IFDIR"
definition is_file :: "inode \<Rightarrow> bool" where "is_file ino \<longleftrightarrow> inode_file_type ino = S_IFREG"
definition is_symlink :: "inode \<Rightarrow> bool" where "is_symlink ino \<longleftrightarrow> inode_file_type ino = S_IFLNK"
definition has_extents :: "inode \<Rightarrow> bool" where "has_extents ino \<longleftrightarrow> i_flags ino AND EXTENTS_FL \<noteq> 0"
definition has_inline_data :: "inode \<Rightarrow> bool" where "has_inline_data ino \<longleftrightarrow> i_flags ino AND INLINE_DATA_FL \<noteq> 0"

section \<open>Seconds survive their encoding\<close>

lemma sint_of_int32: "sint (word_of_int s :: u32) = (s + 2 ^ 31) mod 2 ^ 32 - 2 ^ 31"
  by (simp add: signed_of_int signed_take_bit_eq_take_bit_shift take_bit_eq_mod)

lemma pack_unpack:
  assumes "MIN_ENCODABLE_TIME \<le> s" "s \<le> MAX_ENCODABLE_TIME"
  shows "unpack_seconds (fst (pack_seconds s)) (snd (pack_seconds s)) = s"
proof -
  have b: "0 \<le> s + 2 ^ 31" "s + 2 ^ 31 < 4 * 2 ^ 32"
    using assms by (simp_all add: MIN_ENCODABLE_TIME_def MAX_ENCODABLE_TIME_def I32_MIN_def I32_MAX_def ERA_SECONDS_def)
  have era: "drop_bit 1 (drop_bit 31 s + 1) = (s + 2 ^ 31) div 2 ^ 32"
    by (simp add: drop_bit_eq_div)
  have r: "0 \<le> (s + 2 ^ 31) div 2 ^ 32" "(s + 2 ^ 31) div 2 ^ 32 < 4" using b by auto
  have "uint (word_of_int e AND 3 :: u32) = e" if "0 \<le> e" "e < 4" for e
  proof -
    have "e \<in> {0, 1, 2, 3}" using that by auto
    then show ?thesis by auto
  qed
  then have "uint (word_of_int ((s + 2 ^ 31) div 2 ^ 32) AND 3 :: u32) = (s + 2 ^ 31) div 2 ^ 32" using r by blast
  then have "unpack_seconds (fst (pack_seconds s)) (snd (pack_seconds s)) = (s + 2 ^ 31) mod 2 ^ 32 - 2 ^ 31 + (s + 2 ^ 31) div 2 ^ 32 * 2 ^ 32"
    unfolding pack_seconds_def unpack_seconds_def Let_def fst_conv snd_conv era ERA_FIELD_def ERA_SECONDS_def sint_of_int32 by (simp add: and.assoc)
  then show ?thesis using div_mult_mod_eq [of "s + 2 ^ 31" "2 ^ 32"] by linarith
qed

lemma clamp_bounds: "lo \<le> hi \<Longrightarrow> lo \<le> clamp lo hi s \<and> clamp lo hi s \<le> hi"
  by (simp add: clamp_def)

lemma unpack_clamp32: "unpack_seconds (word_of_int (clamp I32_MIN I32_MAX s)) 0 = clamp I32_MIN I32_MAX s"
proof -
  have "I32_MIN \<le> clamp I32_MIN I32_MAX s" "clamp I32_MIN I32_MAX s \<le> I32_MAX"
    using clamp_bounds [of I32_MIN I32_MAX s] by (simp_all add: I32_MIN_def I32_MAX_def)
  then show ?thesis by (simp add: unpack_seconds_def sint_of_int32 I32_MIN_def I32_MAX_def)
qed

section \<open>Setting one timestamp\<close>

text \<open>What an inode reads as after one of its timestamps was set.\<close>

fun with_time :: "inode_time \<Rightarrow> int \<Rightarrow> inode \<Rightarrow> inode" where
  "with_time Atime t ino = ino\<lparr>i_atime := t\<rparr>"
| "with_time Ctime t ino = ino\<lparr>i_ctime := t\<rparr>"
| "with_time Mtime t ino = ino\<lparr>i_mtime := t\<rparr>"
| "with_time Crtime t ino = ino\<lparr>i_crtime := t\<rparr>"

fun without_nsec :: "inode_time \<Rightarrow> inode \<Rightarrow> inode" where
  "without_nsec Atime ino = ino\<lparr>i_atime_nsec := 0\<rparr>"
| "without_nsec Ctime ino = ino\<lparr>i_ctime_nsec := 0\<rparr>"
| "without_nsec Mtime ino = ino\<lparr>i_mtime_nsec := 0\<rparr>"
| "without_nsec Crtime ino = ino\<lparr>i_crtime_nsec := 0\<rparr>"

definition stamped :: "bytes \<Rightarrow> inode_time \<Rightarrow> int \<Rightarrow> inode \<Rightarrow> inode" where
  "stamped raw f secs ino =
     (if extra_field_fits raw (extra_offset f) then without_nsec f (with_time f (clamp MIN_ENCODABLE_TIME MAX_ENCODABLE_TIME secs) ino)
      else if f \<noteq> Crtime \<or> extra_field_fits raw (base_offset f) then with_time f (clamp I32_MIN I32_MAX secs) ino
      else ino)"

text \<open>The parser sees a companion word exactly where the setter does.\<close>

lemma fits_declared:
  assumes "Inode_parse raw = Ok ino"
  shows "0x84 \<le> off \<Longrightarrow> extra_field_fits raw off \<longleftrightarrow> off + 4 \<le> 128 + declared_extra raw"
  using assms by (auto simp: Inode_parse_def extra_field_fits_def declared_extra_def inode_consts split: if_splits)

lemma parse_len: "Inode_parse raw = Ok ino \<Longrightarrow> 128 \<le> length raw"
  by (auto simp: Inode_parse_def inode_consts split: if_splits)

lemma era_small: "drop_bit 2 (snd (pack_seconds s)) = 0"
proof -
  have "drop_bit 2 (w AND 3 :: u32) = 0" for w
    by (rule bit_eqI) (auto simp: bit_drop_bit_eq bit_and_iff bit_numeral_rec)
  then show ?thesis by (simp add: pack_seconds_def ERA_FIELD_def)
qed

lemma parse_put_time:
  assumes "Inode_parse raw = Ok ino" "extra_field_fits raw (extra_offset f)"
    "raw' = put (extra_offset f) (u32_to_le e) (put (base_offset f) (u32_to_le b) raw)" "drop_bit 2 e = 0"
  shows "Inode_parse raw' = Ok (without_nsec f (with_time f (unpack_seconds b e) ino))"
proof -
  have fit: "extra_offset f + 4 \<le> 128 + declared_extra raw" using fits_declared [OF assms(1), of "extra_offset f"] assms(2) by (cases f) auto
  have l: "extra_offset f + 4 \<le> length raw" "136 \<le> length raw"
    using assms(2) by (cases f; simp add: extra_field_fits_def Let_def)+
  have ino: "ino = the (case Inode_parse raw of Ok x \<Rightarrow> Some x | _ \<Rightarrow> None)" using assms(1) by simp
  show ?thesis
    using assms(1,4) fit l unfolding assms(3)
    by (cases f) (auto simp: Inode_parse_def Let_def extra32_def declared_extra_def inode_consts codec_simps slice_simps split: if_splits)
qed

lemma parse_put_base:
  assumes "Inode_parse raw = Ok ino" "\<not> extra_field_fits raw (extra_offset f)" "f \<noteq> Crtime \<or> extra_field_fits raw (base_offset f)"
    "raw' = put (base_offset f) (u32_to_le b) raw"
  shows "Inode_parse raw' = Ok (with_time f (unpack_seconds b 0) ino)"
proof -
  have nofit: "\<not> extra_offset f + 4 \<le> 128 + declared_extra raw" using fits_declared [OF assms(1), of "extra_offset f"] assms(2) by (cases f) auto
  have fit: "f = Crtime \<Longrightarrow> 148 \<le> 128 + declared_extra raw \<and> 148 \<le> length raw" using assms(3) fits_declared [OF assms(1), of "0x90"]
    by (auto simp: extra_field_fits_def Let_def)
  have l: "128 \<le> length raw" by (rule parse_len [OF assms(1)])
  show ?thesis
    using assms(1) fit nofit l unfolding assms(4)
    by (cases f) (auto simp: Inode_parse_def Let_def extra32_def declared_extra_def inode_consts codec_simps slice_simps split: if_splits)
qed

lemma set_inode_time_ok:
  assumes "Inode_parse raw = Ok ino"
  shows "\<exists>raw'. set_inode_time raw f secs = Ok raw' \<and> length raw' = length raw \<and> Inode_parse raw' = Ok (stamped raw f secs ino)"
proof -
  have l: "128 \<le> length raw" by (rule parse_len [OF assms])
  consider (era) "extra_field_fits raw (extra_offset f)"
    | (base) "\<not> extra_field_fits raw (extra_offset f)" "f \<noteq> Crtime \<or> extra_field_fits raw (base_offset f)"
    | (none) "\<not> extra_field_fits raw (extra_offset f)" "f = Crtime" "\<not> extra_field_fits raw (base_offset f)" by blast
  then show ?thesis
  proof cases
    case era
    let ?c = "clamp MIN_ENCODABLE_TIME MAX_ENCODABLE_TIME secs"
    let ?raw = "put (extra_offset f) (u32_to_le (snd (pack_seconds ?c))) (put (base_offset f) (u32_to_le (fst (pack_seconds ?c))) raw)"
    have fit: "extra_offset f + 4 \<le> length raw" "base_offset f + 4 \<le> length raw" using era l by (cases f; simp add: extra_field_fits_def Let_def)+
    have "MIN_ENCODABLE_TIME \<le> ?c" "?c \<le> MAX_ENCODABLE_TIME"
      using clamp_bounds [of MIN_ENCODABLE_TIME MAX_ENCODABLE_TIME secs]
      by (simp_all add: MIN_ENCODABLE_TIME_def MAX_ENCODABLE_TIME_def I32_MIN_def I32_MAX_def ERA_SECONDS_def)
    then have "Inode_parse ?raw = Ok (stamped raw f secs ino)"
      using parse_put_time [OF assms era refl era_small] pack_unpack era by (simp add: stamped_def)
    moreover have "set_inode_time raw f secs = Ok ?raw" using era fit by (simp add: set_inode_time_def put_checked_def split: prod.split)
    ultimately show ?thesis using fit by simp
  next
    case base
    let ?raw = "put (base_offset f) (u32_to_le (word_of_int (clamp I32_MIN I32_MAX secs))) raw"
    have fit: "base_offset f + 4 \<le> length raw" using base(2) l by (cases f) (auto simp: extra_field_fits_def Let_def)
    have "Inode_parse ?raw = Ok (stamped raw f secs ino)"
      using parse_put_base [OF assms base refl, of "word_of_int (clamp I32_MIN I32_MAX secs)"] base unpack_clamp32 by (simp add: stamped_def)
    moreover have "set_inode_time raw f secs = Ok ?raw" using base fit by (simp add: set_inode_time_def put_checked_def)
    ultimately show ?thesis using fit by simp
  next
    case none
    then show ?thesis using assms by (simp add: set_inode_time_def stamped_def)
  qed
qed

text \<open>
  Setting one of an inode's timestamps and parsing the record again gives the same inode with exactly that timestamp
  changed: to the given second, clamped to 1901 to 2446 and with its nanoseconds cleared where the companion word exists, clamped to
  2038 where it does not, and unchanged where the field itself does not exist; setting never unwinds on a record that parses.
\<close>

theorem inode_time_roundtrip:
  assumes "Inode_parse raw = Ok ino"
  shows "\<exists>raw'. set_inode_time raw f secs = Ok raw' \<and> length raw' = length raw \<and> Inode_parse raw' = Ok (stamped raw f secs ino)"
  by (rule set_inode_time_ok [OF assms])

text \<open>A 256-byte inode with its extra fields, set to a second of the year 2100, which needs an era.\<close>

definition sample_inode :: bytes where
  "sample_inode = put 0x80 [32, 0] (replicate 256 0)"

theorem inode_time_roundtrip_witness:
  "\<exists>ino raw. Inode_parse sample_inode = Ok ino \<and> i_mtime ino = 0 \<and> set_inode_time sample_inode Mtime 4102444800 = Ok raw \<and>
     Inode_parse raw = Ok (ino\<lparr>i_mtime := 4102444800, i_mtime_nsec := 0\<rparr>)"
proof -
  have "get_le16 0x80 sample_inode = 32" by code_simp
  then have g: "get_le16 128 sample_inode = 32" by simp
  have l: "length sample_inode = 256" by (simp add: sample_inode_def)
  have "get_le32 0x10 sample_inode = 0" "get_le32 0x88 sample_inode = 0" by code_simp+
  then have "\<exists>ino. Inode_parse sample_inode = Ok ino \<and> i_mtime ino = 0"
    using g l by (simp add: Inode_parse_def Let_def extra32_def declared_extra_def inode_consts unpack_seconds_def)
  then obtain ino where ino: "Inode_parse sample_inode = Ok ino" "i_mtime ino = 0" by blast
  have "extra_field_fits sample_inode 0x88" using g l by (simp add: extra_field_fits_def inode_consts)
  then have "stamped sample_inode Mtime 4102444800 ino = ino\<lparr>i_mtime := 4102444800, i_mtime_nsec := 0\<rparr>"
    by (simp add: stamped_def clamp_def MIN_ENCODABLE_TIME_def MAX_ENCODABLE_TIME_def I32_MIN_def I32_MAX_def ERA_SECONDS_def)
  then show ?thesis using inode_time_roundtrip [OF ino(1), of Mtime 4102444800] ino by metis
qed

end
