(* ===== verification/Indirect.thy ===== *)
theory Indirect
  imports Extent Block_IO Inode
begin

unbundle bit_operations_syntax

text \<open>
  The direct and indirect block pointers of ext2 and ext3 files: lookups with their one-block cache
  (\<open>src/indirect.rs\<close>), laying out the pointer tree of a contiguous file, and collecting the blocks a truncation frees
  (\<open>src/indirect_mut.rs\<close>). Block counts and loop counters, which the source keeps in \<open>u32\<close> and never lets pass the file's
  block count, are natural numbers; pointers and block numbers are words. The source spells its loops out level by level;
  the loop over the children of one block is the same code at each, and is one function here.
\<close>

section \<open>Lookups\<close>

definition DIRECT_COUNT :: nat where "DIRECT_COUNT = 12"

definition power_of_two32 :: "u32 \<Rightarrow> bool" where
  "power_of_two32 w \<longleftrightarrow> w \<in> set (map (\<lambda>i. push_bit i 1) [0 ..< 32])"

definition ppb :: "u32 \<Rightarrow> u64" where
  "ppb bs = ucast (bs div 4)"

definition ptr_at :: "bytes \<Rightarrow> nat \<Rightarrow> u64 result" where
  "ptr_at buf i = map_ok (\<lambda>x. ucast (u32_from_le x)) (get_slice (i * 4) (i * 4 + 4) buf)"

type_synonym indirect_cache = "(u64 \<times> bytes) option"

definition ic_new :: indirect_cache where "ic_new = None"

definition ic_get :: "reader \<Rightarrow> u64 \<Rightarrow> u32 \<Rightarrow> indirect_cache \<Rightarrow> (indirect_cache, bytes) dev_result" where
  "ic_get rd block_no bs c =
     (if (case c of Some (b, _) \<Rightarrow> b = block_no | None \<Rightarrow> False)
      then (Ok (snd (the c)), c)
      else case and_then (ok_or (checked_mul block_no (ucast bs)) (Corrupt ''indirect: block byte offset overflow'')) (\<lambda>off. rd off (unat bs)) of
        Ok buf \<Rightarrow> (Ok buf, Some (block_no, buf))
      | Err e \<Rightarrow> (Err e, c)
      | Panic \<Rightarrow> (Panic, c))"

definition hole :: "u64 \<Rightarrow> u64 option" where
  "hole p = (if p = 0 then None else Some p)"

definition ind_lookup :: "bytes \<Rightarrow> reader \<Rightarrow> u32 \<Rightarrow> u64 \<Rightarrow> indirect_cache \<Rightarrow> (indirect_cache, u64 option) dev_result" where
  "ind_lookup i_block rd bs logical c =
     (if bs < 1024 \<or> \<not> power_of_two32 bs then (Err (Corrupt ''indirect: block_size out of range''), c)
      else let p = ppb bs; single_base = word_of_nat DIRECT_COUNT; single_end = single_base + p;
               double_base = single_end; double_end = double_base + p * p;
               triple_base = double_end; triple_end = triple_base + p * p * p in
        if logical < word_of_nat DIRECT_COUNT
        then st_bind (ptr_at i_block (unat logical), c) (\<lambda>phys c. (Ok (hole phys), c))
        else if logical < single_end
        then st_bind (ptr_at i_block 12, c) (\<lambda>single_blk c.
          if single_blk = 0 then (Ok None, c)
          else st_bind (ic_get rd single_blk bs c) (\<lambda>buf c.
               st_bind (ptr_at buf (unat (logical - single_base)), c) (\<lambda>phys c. (Ok (hole phys), c))))
        else if logical < double_end
        then st_bind (ptr_at i_block 13, c) (\<lambda>double_blk c.
          if double_blk = 0 then (Ok None, c)
          else let off = logical - double_base; outer_idx = unat (off div p); inner_idx = unat (off mod p) in
            st_bind (ic_get rd double_blk bs c) (\<lambda>outer c.
            st_bind (ptr_at outer outer_idx, c) (\<lambda>inner_blk c.
              if inner_blk = 0 then (Ok None, c)
              else st_bind (ic_get rd inner_blk bs c) (\<lambda>inner c.
                   st_bind (ptr_at inner inner_idx, c) (\<lambda>phys c. (Ok (hole phys), c))))))
        else if logical < triple_end
        then st_bind (ptr_at i_block 14, c) (\<lambda>triple_blk c.
          if triple_blk = 0 then (Ok None, c)
          else let off = logical - triple_base; l1_idx = unat (off div (p * p)); rem = off mod (p * p);
                   l2_idx = unat (rem div p); l3_idx = unat (rem mod p) in
            st_bind (ic_get rd triple_blk bs c) (\<lambda>l1 c.
            st_bind (ptr_at l1 l1_idx, c) (\<lambda>l2_blk c.
              if l2_blk = 0 then (Ok None, c)
              else st_bind (ic_get rd l2_blk bs c) (\<lambda>l2 c.
                   st_bind (ptr_at l2 l2_idx, c) (\<lambda>l3_blk c.
                     if l3_blk = 0 then (Ok None, c)
                     else st_bind (ic_get rd l3_blk bs c) (\<lambda>l3 c.
                          st_bind (ptr_at l3 l3_idx, c) (\<lambda>phys c. (Ok (hole phys), c))))))))
        else (Err (Corrupt ''indirect: logical block exceeds triple-indirect address space''), c))"

definition map_logical_any :: "crc_fn \<Rightarrow> bytes \<Rightarrow> u32 \<Rightarrow> reader \<Rightarrow> u32 \<Rightarrow> u64 \<Rightarrow> u64 option result" where
  "map_logical_any crc i_block flags rd bs logical =
     (if flags AND EXTENTS_FL \<noteq> 0 then map_logical crc i_block rd bs logical
      else fst (ind_lookup i_block rd bs logical ic_new))"

section \<open>Laying out a contiguous file\<close>

record indirect_plan =
  ip_i_block :: bytes
  ip_writes :: "(u64 \<times> bytes) list"
  ip_allocated :: "u64 list"

definition write_u32_le :: "bytes \<Rightarrow> nat \<Rightarrow> u32 \<Rightarrow> bytes" where
  "write_u32_le buf idx v = put (idx * 4) (u32_to_le v) buf"

definition nat_ppb :: "u32 \<Rightarrow> nat" where
  "nat_ppb bs = unat (bs div 4)"

definition nat_div_ceil :: "nat \<Rightarrow> nat \<Rightarrow> nat" where
  "nat_div_ceil a b = a div b + (if a mod b = 0 then 0 else 1)"

definition count_indirect_blocks :: "nat \<Rightarrow> u32 \<Rightarrow> nat" where
  "count_indirect_blocks data_blocks bs =
     (let p = nat_ppb bs in
      if p = 0 then 0
      else if data_blocks \<le> DIRECT_COUNT then 0
      else let rem = data_blocks - DIRECT_COUNT in
        if rem \<le> p then 1
        else let rem = rem - p; cnt = 2 + nat_div_ceil (min rem (p * p)) p in
          if rem \<le> p * p then cnt
          else let rem = rem - p * p; in_triple = min rem (p * p * p) in
            cnt + 1 + (nat_div_ceil in_triple (p * p) + nat_div_ceil in_triple p))"

text \<open>What the planner carries: the allocator's state, the plan, and the two counters.\<close>

record 's layout_state =
  ly_alloc :: 's
  ly_writes :: "(u64 \<times> bytes) list"
  ly_allocated :: "u64 list"
  ly_remaining :: nat
  ly_offset :: nat

type_synonym 's allocator = "'s \<Rightarrow> (u64 \<times> 's) result"

definition emit_data_ptrs :: "bytes \<Rightarrow> nat \<Rightarrow> nat \<Rightarrow> u32 \<Rightarrow> bytes" where
  "emit_data_ptrs buf idx n base = fold (\<lambda>i buf. write_u32_le buf (idx + i) (base + word_of_nat i)) [0 ..< n] buf"

definition check_u32 :: "u64 \<Rightarrow> unit result" where
  "check_u32 v = (if v > 0xFFFFFFFF then Err (Corrupt ''indirect_mut: indirect block address exceeds u32 (ext2/3 cap)'') else Ok ())"

definition alloc_node :: "'s allocator \<Rightarrow> 's layout_state \<Rightarrow> (u64 \<times> 's layout_state) result" where
  "alloc_node alloc st =
     and_then (alloc (ly_alloc st)) (\<lambda>(b, s).
     and_then (check_u32 b) (\<lambda>_. Ok (b, st\<lparr>ly_alloc := s, ly_allocated := ly_allocated st @ [b]\<rparr>)))"

text \<open>A block of data pointers, and the loop over the children of a block of pointers.\<close>

definition build_ptrs :: "u64 \<Rightarrow> u32 \<Rightarrow> u64 \<Rightarrow> 's layout_state \<Rightarrow> 's layout_state result" where
  "build_ptrs first bs blk st =
     (let n = min (ly_remaining st) (nat_ppb bs);
          base = ucast (first + word_of_nat (ly_offset st));
          buf = emit_data_ptrs (replicate (unat bs) 0) 0 n base
      in Ok (st\<lparr>ly_writes := ly_writes st @ [(blk, buf)], ly_remaining := ly_remaining st - n, ly_offset := ly_offset st + n\<rparr>))"

fun build_nodes :: "'s allocator \<Rightarrow> (u64 \<Rightarrow> 's layout_state \<Rightarrow> 's layout_state result) \<Rightarrow> nat \<Rightarrow> nat \<Rightarrow> bytes \<Rightarrow> 's layout_state \<Rightarrow>
    (bytes \<times> 's layout_state) result" where
  "build_nodes alloc build idx 0 buf st = Ok (buf, st)"
| "build_nodes alloc build idx (Suc k) buf st =
     and_then (alloc_node alloc st) (\<lambda>(b, st).
     and_then (build b st) (\<lambda>st.
     build_nodes alloc build (idx + 1) k (write_u32_le buf idx (ucast b)) st))"

definition build_outer :: "'s allocator \<Rightarrow> u64 \<Rightarrow> u32 \<Rightarrow> u64 \<Rightarrow> 's layout_state \<Rightarrow> 's layout_state result" where
  "build_outer alloc first bs blk st =
     (let p = nat_ppb bs; tier_count = min (ly_remaining st) (p * p) in
      and_then (build_nodes alloc (build_ptrs first bs) 0 (nat_div_ceil tier_count p) (replicate (unat bs) 0) st) (\<lambda>(buf, st).
      Ok (st\<lparr>ly_writes := ly_writes st @ [(blk, buf)]\<rparr>)))"

text \<open>The product of the two \<open>u32\<close> factors wraps, and dividing by zero unwinds.\<close>

definition build_l1 :: "'s allocator \<Rightarrow> u64 \<Rightarrow> u32 \<Rightarrow> u64 \<Rightarrow> 's layout_state \<Rightarrow> 's layout_state result" where
  "build_l1 alloc first bs blk st =
     (let p = nat_ppb bs; tier_count = min (ly_remaining st) (p * p * p); pp = (p * p) mod 2 ^ 32 in
      if pp = 0 then Panic
      else and_then (build_nodes alloc (build_outer alloc first bs) 0 (nat_div_ceil tier_count pp) (replicate (unat bs) 0) st) (\<lambda>(buf, st).
      Ok (st\<lparr>ly_writes := ly_writes st @ [(blk, buf)]\<rparr>)))"

definition plan_contiguous :: "nat \<Rightarrow> u64 \<Rightarrow> u32 \<Rightarrow> 's allocator \<Rightarrow> 's \<Rightarrow> (indirect_plan \<times> 's) result" where
  "plan_contiguous data_block_count first bs alloc s =
     (if \<not> power_of_two32 bs \<or> bs < 1024 then Err (InvalidArgument ''indirect_mut: block_size out of range'')
      else if nat_ppb bs = 0 then Err (InvalidArgument ''indirect_mut: block_size too small for any pointers'')
      else and_then (ok_or (checked_add first (word_of_nat (data_block_count - 1))) (InvalidArgument ''indirect_mut: physical address overflow'')) (\<lambda>last_data_phys.
        if last_data_phys > 0xFFFFFFFF then Err (InvalidArgument ''indirect_mut: data physical block exceeds u32 (ext2/3 cap)'')
        else let direct_count = min data_block_count DIRECT_COUNT;
                 ib = emit_data_ptrs (replicate 60 0) 0 direct_count (ucast first);
                 st = \<lparr>ly_alloc = s, ly_writes = [], ly_allocated = [], ly_remaining = data_block_count - direct_count, ly_offset = direct_count\<rparr>;
                 finish = (\<lambda>ib st. Ok (\<lparr>ip_i_block = ib, ip_writes = ly_writes st, ip_allocated = ly_allocated st\<rparr>, ly_alloc st))
             in if ly_remaining st = 0 then finish ib st
                else and_then (alloc_node alloc st) (\<lambda>(b, st).
                     and_then (build_ptrs first bs b st) (\<lambda>st.
                     let ib = write_u32_le ib 12 (ucast b) in
                     if ly_remaining st = 0 then finish ib st
                     else and_then (alloc_node alloc st) (\<lambda>(b, st).
                          and_then (build_outer alloc first bs b st) (\<lambda>st.
                          let ib = write_u32_le ib 13 (ucast b) in
                          if ly_remaining st = 0 then finish ib st
                          else and_then (alloc_node alloc st) (\<lambda>(b, st).
                               and_then (build_l1 alloc first bs b st) (\<lambda>st.
                               let ib = write_u32_le ib 14 (ucast b) in
                               if ly_remaining st > 0
                               then Err (InvalidArgument ''indirect_mut: data block count exceeds triple-indirect address space'')
                               else finish ib st))))))))"

section \<open>Pointer blocks\<close>

lemma ptr_at_get: "i * 4 + 4 \<le> length buf \<Longrightarrow> ptr_at buf i = Ok (ucast (get_le32 (i * 4) buf))"
  by (simp add: ptr_at_def get_slice_def get_le32_def)

lemma length_write_u32_le [simp]: "idx * 4 + 4 \<le> length buf \<Longrightarrow> length (write_u32_le buf idx v) = length buf"
  by (simp add: write_u32_le_def)

lemma ptr_at_write:
  assumes "idx * 4 + 4 \<le> length buf" "i * 4 + 4 \<le> length buf"
  shows "ptr_at (write_u32_le buf idx v) i = (if i = idx then Ok (ucast v) else ptr_at buf i)"
proof (cases "i = idx")
  case True
  then show ?thesis using assms by (simp add: ptr_at_get) (simp add: write_u32_le_def codec_simps)
next
  case False
  then have "i * 4 + 4 \<le> idx * 4 \<or> idx * 4 + 4 \<le> i * 4" by linarith
  then show ?thesis using assms False by (simp add: ptr_at_get) (simp add: write_u32_le_def codec_simps)
qed

lemma ptr_at_zeros: "i * 4 + 4 \<le> n \<Longrightarrow> ptr_at (replicate n 0) i = Ok 0"
proof -
  assume i: "i * 4 + 4 \<le> n"
  have "le_val (replicate k 0) = 0" for k by (induction k) auto
  then have "get_le32 (i * 4) (replicate n 0) = 0" by (simp add: get_field_defs slice_def u32_from_le_def)
  then show ?thesis using i by (simp add: ptr_at_get)
qed

lemma emit_Suc: "emit_data_ptrs buf idx (Suc n) base = write_u32_le (emit_data_ptrs buf idx n base) (idx + n) (base + word_of_nat n)"
  by (simp add: emit_data_ptrs_def)

lemma emit_data_ptrs_spec:
  assumes "(idx + n) * 4 \<le> length buf"
  shows "length (emit_data_ptrs buf idx n base) = length buf \<and> (\<forall>i. i * 4 + 4 \<le> length buf \<longrightarrow>
    ptr_at (emit_data_ptrs buf idx n base) i = (if idx \<le> i \<and> i < idx + n then Ok (ucast (base + word_of_nat (i - idx))) else ptr_at buf i))"
  using assms
proof (induction n)
  case 0
  then show ?case by (auto simp: emit_data_ptrs_def)
next
  case (Suc n)
  then show ?case by (auto simp: emit_Suc ptr_at_write simp del: of_nat_Suc)
qed

section \<open>What a pointer tree maps\<close>

text \<open>Reading a block of pointers, following a path of slots from a pointer, and the path of a logical block.\<close>

definition read_node :: "reader \<Rightarrow> u32 \<Rightarrow> u64 \<Rightarrow> bytes result" where
  "read_node rd bs b = and_then (ok_or (checked_mul b (ucast bs)) (Corrupt ''indirect: block byte offset overflow'')) (\<lambda>off. rd off (unat bs))"

fun follow :: "reader \<Rightarrow> u32 \<Rightarrow> u64 \<Rightarrow> nat list \<Rightarrow> u64 option result" where
  "follow rd bs b [] = Ok (hole b)"
| "follow rd bs b (i # is) = (if b = 0 then Ok None
     else and_then (read_node rd bs b) (\<lambda>buf. and_then (ptr_at buf i) (\<lambda>p. follow rd bs p is)))"

fun digits :: "nat \<Rightarrow> nat \<Rightarrow> nat \<Rightarrow> nat list" where
  "digits p 0 j = []"
| "digits p (Suc d) j = (j div p ^ d) # digits p d (j mod p ^ d)"

definition tier :: "nat \<Rightarrow> nat \<Rightarrow> (nat \<times> nat \<times> nat) option" where
  "tier p l =
     (if l < 12 then Some (l, 0, 0)
      else if l < 12 + p then Some (12, 1, l - 12)
      else if l < 12 + p + p * p then Some (13, 2, l - (12 + p))
      else if l < 12 + p + p * p + p * p * p then Some (14, 3, l - (12 + p + p * p))
      else None)"

definition tree_lookup :: "bytes \<Rightarrow> reader \<Rightarrow> u32 \<Rightarrow> nat \<Rightarrow> u64 option result" where
  "tree_lookup i_block rd bs l = (case tier (nat_ppb bs) l of
     None \<Rightarrow> Err (Corrupt ''indirect: logical block exceeds triple-indirect address space'')
   | Some (slot, d, j) \<Rightarrow> and_then (ptr_at i_block slot) (\<lambda>b. follow rd bs b (digits (nat_ppb bs) d j)))"

text \<open>The block sizes of the format.\<close>

definition block_size_ok :: "u32 \<Rightarrow> bool" where
  "block_size_ok bs \<longleftrightarrow> power_of_two32 bs \<and> 1024 \<le> bs \<and> bs \<le> 65536"

lemma block_size_okD:
  assumes "block_size_ok bs"
  shows "unat bs = 4 * nat_ppb bs" "256 \<le> nat_ppb bs" "nat_ppb bs \<le> 16384" "unat (ppb bs) = nat_ppb bs" "0 < nat_ppb bs"
proof -
  obtain i where i: "i < 32" "bs = push_bit i 1" using assms by (auto simp: block_size_ok_def power_of_two32_def)
  have b: "1024 \<le> unat bs" "unat bs \<le> 65536" using assms by (simp_all add: block_size_ok_def word_le_nat_alt)
  have "unat bs = take_bit 32 (2 ^ i)" unfolding i(2) unsigned_push_bit_eq by simp
  then have u: "unat bs = 2 ^ i" using i(1) by (simp add: take_bit_nat_eq_self_iff)
  moreover have "2 \<le> i"
  proof (rule ccontr)
    assume "\<not> 2 \<le> i"
    then have "(2 :: nat) ^ i \<le> 2 ^ 2" by (intro power_increasing) auto
    then show False using b u by simp
  qed
  ultimately have "2 ^ 2 dvd unat bs" by (simp only: le_imp_power_dvd)
  then have "4 dvd unat bs" by simp
  then show d: "unat bs = 4 * nat_ppb bs" by (simp add: nat_ppb_def unat_div_distrib)
  then show "256 \<le> nat_ppb bs" "nat_ppb bs \<le> 16384" "0 < nat_ppb bs" using b by simp_all
  show "unat (ppb bs) = nat_ppb bs" by (simp add: ppb_def nat_ppb_def)
qed

lemma space_small:
  assumes "block_size_ok bs"
  shows "12 + nat_ppb bs + nat_ppb bs * nat_ppb bs + nat_ppb bs * nat_ppb bs * nat_ppb bs < 2 ^ 63"
proof -
  note u = block_size_okD(3) [OF assms]
  have "nat_ppb bs * nat_ppb bs \<le> 16384 * 16384" "nat_ppb bs * nat_ppb bs * nat_ppb bs \<le> 16384 * 16384 * 16384" by (intro mult_le_mono u)+
  then show ?thesis using u by simp
qed

section \<open>A lookup follows the tree\<close>

definition cache_ok :: "reader \<Rightarrow> u32 \<Rightarrow> indirect_cache \<Rightarrow> bool" where
  "cache_ok rd bs c \<longleftrightarrow> (case c of None \<Rightarrow> True | Some (b, buf) \<Rightarrow> read_node rd bs b = Ok buf)"

definition yields :: "reader \<Rightarrow> u32 \<Rightarrow> (indirect_cache, 'a) dev_result \<Rightarrow> 'a result \<Rightarrow> bool" where
  "yields rd bs m r \<longleftrightarrow> fst m = r \<and> cache_ok rd bs (snd m)"

lemma yields_pure: "cache_ok rd bs c \<Longrightarrow> yields rd bs (r, c) r"
  by (simp add: yields_def)

lemma yields_bind:
  "cache_ok rd bs c \<Longrightarrow> (\<And>x. yields rd bs (f x c) (g x)) \<Longrightarrow> yields rd bs (st_bind (m, c) f) (and_then m g)"
  by (cases m) (auto simp: yields_def)

lemma yields_get:
  assumes "cache_ok rd bs c" "\<And>buf c. cache_ok rd bs c \<Longrightarrow> yields rd bs (f buf c) (g buf)"
  shows "yields rd bs (st_bind (ic_get rd b bs c) f) (and_then (read_node rd bs b) g)"
proof -
  have "ic_get rd b bs c = (case read_node rd bs b of Ok buf \<Rightarrow> (Ok buf, Some (b, buf)) | Err e \<Rightarrow> (Err e, c) | Panic \<Rightarrow> (Panic, c))"
    using assms(1) by (auto simp: ic_get_def cache_ok_def read_node_def split: option.splits prod.splits)
  then show ?thesis using assms by (cases "read_node rd bs b") (auto simp: yields_def cache_ok_def)
qed

lemma tier_bounds:
  assumes "block_size_ok bs"
  defines "p \<equiv> ppb bs" and "P \<equiv> nat_ppb bs"
  shows "unat (12 + p) = 12 + P" "unat (p * p) = P * P" "unat (12 + p + p * p) = 12 + P + P * P"
    "unat (12 + p + p * p + p * p * p) = 12 + P + P * P + P * P * P"
proof -
  note d = block_size_okD [OF assms(1)]
  have u: "unat p = P" "P \<le> 16384" using d by (simp_all add: p_def P_def)
  have s: "P * P \<le> 16384 * 16384" by (intro mult_le_mono u(2))
  have t: "P * P * P \<le> 16384 * 16384 * 16384" by (intro mult_le_mono u(2))
  show 1: "unat (12 + p) = 12 + P" using unat_add_no_wrap [of 12 p] u by simp
  show 2: "unat (p * p) = P * P" using unat_mult_no_wrap [of p p] u s by simp
  have 3: "unat (p * p * p) = P * P * P" using unat_mult_no_wrap [of "p * p" p] 2 u t by simp
  show 4: "unat (12 + p + p * p) = 12 + P + P * P" using unat_add_no_wrap [of "12 + p" "p * p"] 1 2 u s by simp
  show "unat (12 + p + p * p + p * p * p) = 12 + P + P * P + P * P * P"
    using unat_add_no_wrap [of "12 + p + p * p" "p * p * p"] 4 3 u s t by simp
qed

lemma ind_lookup_tree:
  assumes "block_size_ok bs" "cache_ok rd bs c"
  shows "yields rd bs (ind_lookup i_block rd bs l c) (tree_lookup i_block rd bs (unat l))"
proof -
  define p P where "p = ppb bs" and "P = nat_ppb bs"
  note d = block_size_okD [OF assms(1), folded p_def P_def] and tb = tier_bounds [OF assms(1), folded p_def P_def]
  have ok: "\<not> (bs < 1024 \<or> \<not> power_of_two32 bs)" using assms(1) by (auto simp: block_size_ok_def)
  let ?L = "unat l"
  have lt: "l < 12 \<longleftrightarrow> ?L < 12" "l < 12 + p \<longleftrightarrow> ?L < 12 + P" "l < 12 + p + p * p \<longleftrightarrow> ?L < 12 + P + P * P"
    "l < 12 + p + p * p + p * p * p \<longleftrightarrow> ?L < 12 + P + P * P + P * P * P"
    using tb by (simp_all add: word_less_nat_alt)
  have body: "ind_lookup i_block rd bs l c = (if ?L < 12 then st_bind (ptr_at i_block ?L, c) (\<lambda>phys c. (Ok (hole phys), c)) else
      if ?L < 12 + P then st_bind (ptr_at i_block 12, c) (\<lambda>single_blk c.
          if single_blk = 0 then (Ok None, c)
          else st_bind (ic_get rd single_blk bs c) (\<lambda>buf c.
               st_bind (ptr_at buf (unat (l - 12)), c) (\<lambda>phys c. (Ok (hole phys), c))))
      else if ?L < 12 + P + P * P then st_bind (ptr_at i_block 13, c) (\<lambda>double_blk c.
          if double_blk = 0 then (Ok None, c)
          else st_bind (ic_get rd double_blk bs c) (\<lambda>outer c.
            st_bind (ptr_at outer (unat ((l - (12 + p)) div p)), c) (\<lambda>inner_blk c.
              if inner_blk = 0 then (Ok None, c)
              else st_bind (ic_get rd inner_blk bs c) (\<lambda>inner c.
                   st_bind (ptr_at inner (unat ((l - (12 + p)) mod p)), c) (\<lambda>phys c. (Ok (hole phys), c))))))
      else if ?L < 12 + P + P * P + P * P * P then st_bind (ptr_at i_block 14, c) (\<lambda>triple_blk c.
          if triple_blk = 0 then (Ok None, c)
          else st_bind (ic_get rd triple_blk bs c) (\<lambda>l1 c.
            st_bind (ptr_at l1 (unat ((l - (12 + p + p * p)) div (p * p))), c) (\<lambda>l2_blk c.
              if l2_blk = 0 then (Ok None, c)
              else st_bind (ic_get rd l2_blk bs c) (\<lambda>l2 c.
                   st_bind (ptr_at l2 (unat ((l - (12 + p + p * p)) mod (p * p) div p)), c) (\<lambda>l3_blk c.
                     if l3_blk = 0 then (Ok None, c)
                     else st_bind (ic_get rd l3_blk bs c) (\<lambda>l3 c.
                          st_bind (ptr_at l3 (unat ((l - (12 + p + p * p)) mod (p * p) mod p)), c) (\<lambda>phys c. (Ok (hole phys), c))))))))
      else (Err (Corrupt ''indirect: logical block exceeds triple-indirect address space''), c))"
    using ok unfolding ind_lookup_def Let_def DIRECT_COUNT_def p_def [symmetric] by (simp add: lt cong: if_cong)
  have dg: "digits P 1 j = [j]" "digits P 2 j = [j div P, j mod P]" "digits P 3 j = [j div (P * P), j mod (P * P) div P, j mod (P * P) mod P]" for j
    by (simp_all add: numeral_2_eq_2 numeral_3_eq_3)
  note steps = yields_pure yields_bind yields_get
  consider (a) "?L < 12" | (b) "\<not> ?L < 12" "?L < 12 + P" | (c) "\<not> ?L < 12 + P" "?L < 12 + P + P * P"
    | (d) "\<not> ?L < 12 + P + P * P" "?L < 12 + P + P * P + P * P * P" | (e) "\<not> ?L < 12 + P + P * P + P * P * P" by linarith
  then show ?thesis
  proof cases
    case a
    then show ?thesis unfolding body tree_lookup_def tier_def P_def [symmetric] by (auto intro!: steps assms(2))
  next
    case b
    have "unat (l - 12) = ?L - 12" using b(1) by (subst unat_sub) (simp_all add: word_le_nat_alt)
    then show ?thesis using b unfolding body tree_lookup_def tier_def P_def [symmetric] by (auto simp: dg [unfolded One_nat_def] intro!: steps assms(2))
  next
    case c
    have "unat (l - (12 + p)) = ?L - (12 + P)" using c(1) tb by (subst unat_sub) (simp_all add: word_le_nat_alt)
    then show ?thesis using c unfolding body tree_lookup_def tier_def P_def [symmetric]
      by (auto simp: dg unat_div_distrib unat_mod_distrib d intro!: steps assms(2))
  next
    case d: d
    have "unat (l - (12 + p + p * p)) = ?L - (12 + P + P * P)" using d(1) tb by (subst unat_sub) (simp_all add: word_le_nat_alt)
    then show ?thesis using d unfolding body tree_lookup_def tier_def P_def [symmetric]
      by (auto simp: dg unat_div_distrib unat_mod_distrib block_size_okD(4) [OF assms(1), folded p_def P_def] tb intro!: steps assms(2))
  next
    case e
    then show ?thesis unfolding body tree_lookup_def tier_def P_def [symmetric] by (auto intro!: steps assms(2))
  qed
qed

section \<open>What the planner builds\<close>

definition holds_writes :: "reader \<Rightarrow> u32 \<Rightarrow> (u64 \<times> bytes) list \<Rightarrow> bool" where
  "holds_writes rd bs ws \<longleftrightarrow> (\<forall>(b, buf) \<in> set ws. read_node rd bs b = Ok buf)"

definition block_val :: "u64 \<Rightarrow> nat \<Rightarrow> nat \<Rightarrow> u64 option" where
  "block_val first cnt j = (if j < cnt then Some (first + word_of_nat j) else None)"

definition covers :: "reader \<Rightarrow> u32 \<Rightarrow> u64 \<Rightarrow> nat \<Rightarrow> nat \<Rightarrow> u64 \<Rightarrow> nat \<Rightarrow> bool" where
  "covers rd bs first cnt d b off \<longleftrightarrow>
     (\<forall>j < nat_ppb bs ^ d. follow rd bs b (digits (nat_ppb bs) d j) = Ok (block_val first cnt (off + j)))"

definition state_ok :: "nat \<Rightarrow> 's layout_state \<Rightarrow> bool" where
  "state_ok cnt st \<longleftrightarrow> ly_offset st \<le> cnt \<and> ly_remaining st = cnt - ly_offset st"

definition extends :: "'s layout_state \<Rightarrow> 's layout_state \<Rightarrow> bool" where
  "extends st st' \<longleftrightarrow> (\<exists>ws. ly_writes st' = ly_writes st @ ws) \<and> (\<exists>as. ly_allocated st' = ly_allocated st @ as)"

lemma extends_refl [simp]: "extends st st"
  by (simp add: extends_def)

lemma extends_trans: "extends a b \<Longrightarrow> extends b c \<Longrightarrow> extends a c"
  by (auto simp: extends_def)

lemma extends_holds: "extends a b \<Longrightarrow> holds_writes rd bs (ly_writes b) \<Longrightarrow> holds_writes rd bs (ly_writes a)"
  by (auto simp: extends_def holds_writes_def)

lemma extends_nonzero: "extends a b \<Longrightarrow> 0 \<notin> set (ly_allocated b) \<Longrightarrow> 0 \<notin> set (ly_allocated a)"
  by (auto simp: extends_def)

text \<open>The contract of a builder of subtrees of a given height.\<close>

definition builds :: "u64 \<Rightarrow> u32 \<Rightarrow> nat \<Rightarrow> nat \<Rightarrow> (u64 \<Rightarrow> 's layout_state \<Rightarrow> 's layout_state result) \<Rightarrow> bool" where
  "builds first bs cnt d build \<longleftrightarrow> (\<forall>blk st st'. build blk st = Ok st' \<longrightarrow> extends st st' \<and>
     (state_ok cnt st \<longrightarrow> blk \<noteq> 0 \<longrightarrow> 0 \<notin> set (ly_allocated st') \<longrightarrow> state_ok cnt st' \<and> ly_offset st' = min cnt (ly_offset st + nat_ppb bs ^ d) \<and>
     (\<forall>rd. holds_writes rd bs (ly_writes st') \<longrightarrow> covers rd bs first cnt d blk (ly_offset st))))"

lemma builds_extends: "builds first bs cnt d build \<Longrightarrow> build blk st = Ok st' \<Longrightarrow> extends st st'"
  by (auto simp: builds_def)

lemma buildsD:
  assumes "builds first bs cnt d build" "state_ok cnt st" "blk \<noteq> 0" "build blk st = Ok st'" "0 \<notin> set (ly_allocated st')"
  shows "state_ok cnt st'" "ly_offset st' = min cnt (ly_offset st + nat_ppb bs ^ d)"
    "holds_writes rd bs (ly_writes st') \<Longrightarrow> covers rd bs first cnt d blk (ly_offset st)"
  using assms unfolding builds_def by blast+

lemma state_okD: "state_ok cnt st \<Longrightarrow> ly_offset st \<le> cnt" "state_ok cnt st \<Longrightarrow> ly_remaining st = cnt - ly_offset st"
  by (simp_all add: state_ok_def)

lemma alloc_node_Ok:
  assumes "alloc_node alloc st = Ok (b, st')"
  shows "ly_allocated st' = ly_allocated st @ [b]" "ly_writes st' = ly_writes st" "ly_offset st' = ly_offset st" "ly_remaining st' = ly_remaining st"
    "ucast (ucast b :: u32) = b" "extends st st'" "state_ok cnt st' = state_ok cnt st"
proof -
  obtain s where s: "b \<le> 0xFFFFFFFF" "st' = st\<lparr>ly_alloc := s, ly_allocated := ly_allocated st @ [b]\<rparr>"
    using assms by (auto simp: alloc_node_def check_u32_def outcome_simps split: if_splits)
  then show "ly_allocated st' = ly_allocated st @ [b]" "ly_writes st' = ly_writes st" "ly_offset st' = ly_offset st" "ly_remaining st' = ly_remaining st"
    "extends st st'" "state_ok cnt st' = state_ok cnt st" by (simp_all add: extends_def state_ok_def)
  have "unat b < 2 ^ 32" using s(1) by (simp add: word_le_nat_alt)
  then show "ucast (ucast b :: u32) = b" by (simp add: word_unat_eq_iff unsigned_ucast_eq unsigned_take_bit_eq take_bit_nat_eq_self_iff)
qed

lemma data_pointer:
  assumes "unat first + j < 2 ^ 32" "j = off + i"
  shows "ucast (ucast (first + word_of_nat off) + word_of_nat i :: u32) = (first + word_of_nat j :: u64)"
proof -
  have off: "unat (word_of_nat off :: u64) = off" "unat (word_of_nat j :: u64) = j" using assms by (simp_all add: unat_of_nat del: of_nat_add)
  have a: "unat (first + word_of_nat off) = unat first + off" "unat (first + word_of_nat j) = unat first + j"
    using assms off by (simp_all add: unat_word_ariths(1) del: of_nat_add)
  have "unat (ucast (first + word_of_nat off) :: u32) = unat first + off"
    using a(1) assms by (simp add: unsigned_ucast_eq take_bit_nat_eq_self_iff)
  moreover have "unat (word_of_nat i :: u32) = i" using assms by (simp add: unat_of_nat)
  ultimately have "unat (ucast (first + word_of_nat off) + word_of_nat i :: u32) = unat first + j"
    using assms by (simp add: unat_word_ariths(1))
  then show ?thesis using a(2) by (simp add: word_unat_eq_iff)
qed

lemma first_add_nonzero:
  assumes "first \<noteq> 0" "unat first + cnt \<le> 2 ^ 32" "j < cnt"
  shows "first + word_of_nat j \<noteq> (0 :: u64)"
proof -
  have "unat (word_of_nat j :: u64) = j" using assms by (simp add: unat_of_nat)
  then have "unat (first + word_of_nat j) = unat first + j" using assms by (simp add: unat_word_ariths(1))
  then show ?thesis using assms(1) by (metis add_is_0 unat_0 unat_eq_zero)
qed

lemma builds_ptrs:
  assumes "block_size_ok bs" "first \<noteq> 0" "unat first + cnt \<le> 2 ^ 32"
  shows "builds first bs cnt 1 (build_ptrs first bs)"
  unfolding builds_def
proof (intro allI impI conjI)
  fix blk and st st' :: "'s layout_state"
  assume bu: "build_ptrs first bs blk st = Ok st'"
  then show "extends st st'" by (auto simp: build_ptrs_def Let_def extends_def)
  assume st: "state_ok cnt st" "blk \<noteq> 0"
  let ?P = "nat_ppb bs" and ?o = "ly_offset st"
  define n where "n = min (ly_remaining st) ?P"
  define buf where "buf = emit_data_ptrs (replicate (unat bs) 0) 0 n (ucast (first + word_of_nat ?o))"
  note d = block_size_okD [OF assms(1)]
  have st': "st' = st\<lparr>ly_writes := ly_writes st @ [(blk, buf)], ly_remaining := ly_remaining st - n, ly_offset := ?o + n\<rparr>"
    using bu by (simp add: build_ptrs_def Let_def n_def buf_def)
  have o: "?o \<le> cnt" "ly_remaining st = cnt - ?o" using st(1) by (simp_all add: state_ok_def)
  have ptr: "ptr_at buf j = Ok (if j < n then first + word_of_nat (?o + j) else 0)" if "j < ?P" for j
  proof -
    have fit: "(0 + n) * 4 \<le> length (replicate (unat bs) (0 :: u8))" "j * 4 + 4 \<le> unat bs" using that d(1) by (simp_all add: n_def)
    have "ptr_at buf j = (if j < n then Ok (ucast (ucast (first + word_of_nat ?o) + word_of_nat j :: u32)) else ptr_at (replicate (unat bs) 0) j)"
      unfolding buf_def using emit_data_ptrs_spec [OF fit(1)] fit(2) by auto
    moreover have "j < n \<Longrightarrow> ucast (ucast (first + word_of_nat ?o) + word_of_nat j :: u32) = (first + word_of_nat (?o + j) :: u64)"
      using assms(3) o by (intro data_pointer) (auto simp: n_def)
    ultimately show ?thesis using ptr_at_zeros [OF fit(2)] by auto
  qed
  have "covers rd bs first cnt 1 blk ?o" if h: "holds_writes rd bs (ly_writes st')" for rd
    unfolding covers_def
  proof (intro allI impI)
    fix j assume "j < ?P ^ 1"
    then have j: "j < ?P" by simp
    have "read_node rd bs blk = Ok buf" using h by (simp add: holds_writes_def st')
    then have "follow rd bs blk (digits ?P 1 j) = Ok (hole (if j < n then first + word_of_nat (?o + j) else 0))"
      using st(2) ptr [OF j] by simp
    moreover have "j < n \<longleftrightarrow> ?o + j < cnt" using j o by (auto simp: n_def)
    moreover have "first + word_of_nat (?o + j) \<noteq> 0" if "?o + j < cnt" by (rule first_add_nonzero [OF assms(2,3) that])
    ultimately show "follow rd bs blk (digits ?P 1 j) = Ok (block_val first cnt (?o + j))" by (auto simp: hole_def block_val_def)
  qed
  then show "holds_writes rd bs (ly_writes st') \<Longrightarrow> covers rd bs first cnt 1 blk ?o" for rd .
  show "state_ok cnt st'" "ly_offset st' = min cnt (?o + ?P ^ 1)" using o by (auto simp: st' state_ok_def n_def)
qed

lemma build_nodes_extends:
  "\<forall>blk st st'. build blk st = Ok st' \<longrightarrow> extends st st' \<Longrightarrow> build_nodes alloc build idx k buf st = Ok (buf', st') \<Longrightarrow> extends st st'"
proof (induction k arbitrary: idx buf st)
  case (Suc k)
  then show ?case by (auto simp: outcome_simps split_beta) (metis alloc_node_Ok(6) extends_trans prod.collapse)
qed simp

lemma build_nodes_spec:
  assumes "builds first bs cnt d build" "state_ok cnt st" "(idx + k) * 4 \<le> length buf" "build_nodes alloc build idx k buf st = Ok (buf', st')"
    "0 \<notin> set (ly_allocated st')"
  shows "state_ok cnt st' \<and> ly_offset st' = min cnt (ly_offset st + k * nat_ppb bs ^ d) \<and> length buf' = length buf \<and>
    (\<forall>i. i * 4 + 4 \<le> length buf \<longrightarrow> i < idx \<or> idx + k \<le> i \<longrightarrow> ptr_at buf' i = ptr_at buf i) \<and>
    (\<forall>rd. holds_writes rd bs (ly_writes st') \<longrightarrow> (\<forall>j < k. \<exists>b. ptr_at buf' (idx + j) = Ok b \<and> b \<noteq> 0 \<and>
       covers rd bs first cnt d b (min cnt (ly_offset st + j * nat_ppb bs ^ d))))"
  using assms(2-5)
proof (induction k arbitrary: idx buf st)
  case 0
  then show ?case by (auto simp: state_ok_def)
next
  case (Suc k)
  let ?S = "nat_ppb bs ^ d" and ?o = "ly_offset st"
  obtain b st1 st2 where a: "alloc_node alloc st = Ok (b, st1)" and bu: "build b st1 = Ok st2"
    and rest: "build_nodes alloc build (idx + 1) k (write_u32_le buf idx (ucast b)) st2 = Ok (buf', st')"
    using Suc.prems(3) by (auto simp: outcome_simps split_beta)
  note al = alloc_node_Ok [OF a]
  let ?buf = "write_u32_le buf idx (ucast b)"
  have fit: "idx * 4 + 4 \<le> length buf" using Suc.prems(2) by simp
  then have len: "length ?buf = length buf" by simp
  have ok1: "state_ok cnt st1" using al(7) Suc.prems(1) by simp
  have "\<forall>blk st st'. build blk st = Ok st' \<longrightarrow> extends st st'" using builds_extends [OF assms(1)] by blast
  then have e2: "extends st2 st'" using rest by (rule build_nodes_extends)
  have z2: "0 \<notin> set (ly_allocated st2)" by (rule extends_nonzero [OF e2 Suc.prems(4)])
  then have "0 \<notin> set (ly_allocated st1)" using extends_nonzero [OF builds_extends [OF assms(1) bu]] by blast
  then have b: "b \<noteq> 0" using al(1) by auto
  note bd = buildsD [OF assms(1) ok1 b bu z2]
  have o2: "ly_offset st2 = min cnt (?o + ?S)" using bd(2) al(3) by simp
  have oc: "?o \<le> cnt" using Suc.prems(1) by (simp add: state_ok_def)
  have IH: "state_ok cnt st'" "ly_offset st' = min cnt (ly_offset st2 + k * ?S)" "length buf' = length buf"
    "\<And>i. i * 4 + 4 \<le> length buf \<Longrightarrow> i < idx + 1 \<or> idx + 1 + k \<le> i \<Longrightarrow> ptr_at buf' i = ptr_at ?buf i"
    "\<And>rd j. holds_writes rd bs (ly_writes st') \<Longrightarrow> j < k \<Longrightarrow> \<exists>b. ptr_at buf' (idx + 1 + j) = Ok b \<and> b \<noteq> 0 \<and>
       covers rd bs first cnt d b (min cnt (ly_offset st2 + j * ?S))"
    using Suc.IH [OF bd(1) _ rest Suc.prems(4)] Suc.prems(2) len by auto
  show ?case
  proof (intro conjI allI impI)
    show "state_ok cnt st'" by (rule IH(1))
    show "ly_offset st' = min cnt (?o + Suc k * ?S)" using IH(2) o2 by (simp add: min_def)
    show "length buf' = length buf" by (rule IH(3))
    fix i assume "i * 4 + 4 \<le> length buf" "i < idx \<or> idx + Suc k \<le> i"
    then show "ptr_at buf' i = ptr_at buf i" using IH(4) [of i] ptr_at_write [OF fit, of i] by auto
  next
    fix rd j assume h: "holds_writes rd bs (ly_writes st')" and j: "j < Suc k"
    show "\<exists>b. ptr_at buf' (idx + j) = Ok b \<and> b \<noteq> 0 \<and> covers rd bs first cnt d b (min cnt (?o + j * ?S))"
    proof (cases j)
      case 0
      have "ptr_at buf' idx = Ok b" using IH(4) [OF fit] ptr_at_write [OF fit fit] al(5) by simp
      moreover have "covers rd bs first cnt d b ?o" using bd(3) [OF extends_holds [OF e2 h]] al(3) by simp
      ultimately show ?thesis using b oc 0 by (simp add: min_absorb2)
    next
      case (Suc i)
      have "min cnt (ly_offset st2 + i * ?S) = min cnt (?o + j * ?S)" using o2 Suc by (simp add: min_def)
      then show ?thesis using IH(5) [OF h, of i] j Suc by simp
    qed
  qed
qed

text \<open>One more level: a block whose slots lead to the subtrees in order.\<close>

lemma node_covers:
  assumes "builds first bs cnt d build" "state_ok cnt st" "block_size_ok bs" "k \<le> nat_ppb bs" "cnt \<le> ly_offset st + k * nat_ppb bs ^ d \<or> k = nat_ppb bs"
    "build_nodes alloc build 0 k (replicate (unat bs) 0) st = Ok (buf, st1)" "st' = st1\<lparr>ly_writes := ly_writes st1 @ [(blk, buf)]\<rparr>" "blk \<noteq> 0"
    "0 \<notin> set (ly_allocated st')"
  shows "state_ok cnt st' \<and> ly_offset st' = min cnt (ly_offset st + nat_ppb bs ^ Suc d) \<and>
    (\<forall>rd. holds_writes rd bs (ly_writes st') \<longrightarrow> covers rd bs first cnt (Suc d) blk (ly_offset st))"
proof -
  let ?P = "nat_ppb bs" and ?S = "nat_ppb bs ^ d" and ?o = "ly_offset st"
  note sz = block_size_okD [OF assms(3)]
  have fit: "(0 + k) * 4 \<le> length (replicate (unat bs) (0 :: u8))" using assms(4) sz(1) by simp
  have "0 \<notin> set (ly_allocated st1)" using assms(7,9) by simp
  note bn = build_nodes_spec [OF assms(1,2) fit assms(6) this]
  have Spos: "0 < ?S" using sz(5) by simp
  have oc: "?o \<le> cnt" using assms(2) by (simp add: state_ok_def)
  have "min cnt (?o + k * ?S) = min cnt (?o + ?P * ?S)"
  proof (cases "k = ?P")
    case False
    then have "cnt \<le> ?o + k * ?S" "k * ?S \<le> ?P * ?S" using assms(4,5) by auto
    then have "cnt \<le> ?o + k * ?S" "cnt \<le> ?o + ?P * ?S" by linarith+
    then show ?thesis by (simp only: min_absorb1)
  qed simp
  moreover have "covers rd bs first cnt (Suc d) blk ?o" if h: "holds_writes rd bs (ly_writes st')" for rd
    unfolding covers_def
  proof (intro allI impI)
    fix j assume j: "j < ?P ^ Suc d"
    define a r where "a = j div ?S" and "r = j mod ?S"
    have a: "a < ?P" using j by (simp add: a_def less_mult_imp_div_less mult.commute)
    have r: "r < ?S" "j = a * ?S + r" using mod_less_divisor [OF Spos, of j] div_mult_mod_eq [of j ?S] unfolding a_def r_def by simp_all
    have "holds_writes rd bs (ly_writes st1)" "read_node rd bs blk = Ok buf" using h assms(7) by (auto simp: holds_writes_def)
    then have step: "follow rd bs blk (digits ?P (Suc d) j) = and_then (ptr_at buf a) (\<lambda>p. follow rd bs p (digits ?P d r))"
      using assms(8) by (simp add: a_def r_def)
    show "follow rd bs blk (digits ?P (Suc d) j) = Ok (block_val first cnt (?o + j))"
    proof (cases "a < k")
      case True
      then obtain b where b: "ptr_at buf a = Ok b" "covers rd bs first cnt d b (min cnt (?o + a * ?S))"
        using bn \<open>holds_writes rd bs (ly_writes st1)\<close> by force
      have "follow rd bs b (digits ?P d r) = Ok (block_val first cnt (min cnt (?o + a * ?S) + r))" using b(2) r(1) by (simp add: covers_def)
      moreover have "block_val first cnt (min cnt (?o + a * ?S) + r) = block_val first cnt (?o + j)"
        using r(2) by (cases "?o + a * ?S \<le> cnt") (simp_all add: block_val_def min_def add.assoc)
      ultimately show ?thesis using step b(1) by simp
    next
      case False
      have "a * 4 + 4 \<le> unat bs" using a sz(1) by simp
      then have "ptr_at buf a = Ok 0" using bn False ptr_at_zeros by simp
      moreover have "follow rd bs 0 ps = Ok None" for ps by (cases ps) (simp_all add: hole_def)
      moreover have "k * ?S \<le> a * ?S" using False by (intro mult_le_mono1) simp
      moreover have "cnt \<le> ?o + k * ?S" using assms(5) a False by blast
      ultimately have "\<not> ?o + j < cnt" "ptr_at buf a = Ok 0" "\<And>ps. follow rd bs 0 ps = Ok None" using r(2) by (linarith, simp_all)
      then show ?thesis using step by (simp add: block_val_def)
    qed
  qed
  ultimately show ?thesis using bn assms(7) by (simp add: state_ok_def)
qed

lemma div_ceil_covers:
  assumes "0 < b"
  shows "a \<le> nat_div_ceil a b * b"
proof (cases "a mod b = 0")
  case True
  then show ?thesis using div_mult_mod_eq [of a b] by (simp add: nat_div_ceil_def)
next
  case False
  have "a \<le> a div b * b + b" using div_mult_mod_eq [of a b] mod_less_divisor [OF assms, of a] by linarith
  then show ?thesis using False by (simp add: nat_div_ceil_def)
qed

lemma div_ceil_le:
  assumes "a \<le> c * b" "0 < b"
  shows "nat_div_ceil a b \<le> c"
proof (cases "a mod b = 0")
  case True
  then show ?thesis using assms div_le_mono [OF assms(1), of b] by (simp add: nat_div_ceil_def)
next
  case False
  then have "a \<noteq> c * b" by auto
  then have "a < c * b" using assms(1) by simp
  then have "a div b < c" by (rule less_mult_imp_div_less)
  then show ?thesis by (simp add: nat_div_ceil_def)
qed

lemma builds_outer:
  assumes "block_size_ok bs" "first \<noteq> 0" "unat first + cnt \<le> 2 ^ 32"
  shows "builds first bs cnt 2 (build_outer alloc first bs)"
  unfolding builds_def
proof (intro allI impI)
  fix blk and st st' :: "'a layout_state"
  let ?P = "nat_ppb bs" and ?k = "nat_div_ceil (min (ly_remaining st) (nat_ppb bs * nat_ppb bs)) (nat_ppb bs)"
  note sz = block_size_okD [OF assms(1)] and bp = builds_ptrs [OF assms]
  assume "build_outer alloc first bs blk st = Ok st'"
  then obtain buf st1 where bn: "build_nodes alloc (build_ptrs first bs) 0 ?k (replicate (unat bs) 0) st = Ok (buf, st1)"
    "st' = st1\<lparr>ly_writes := ly_writes st1 @ [(blk, buf)]\<rparr>"
    by (auto simp: build_outer_def Let_def outcome_simps)
  have "extends st st1" by (rule build_nodes_extends [OF _ bn(1)]) (use builds_extends [OF bp] in blast)
  then have ext: "extends st st'" using bn(2) by (auto simp: extends_def)
  have k: "?k \<le> ?P" by (rule div_ceil_le) (use sz(5) in auto)
  have cov: "cnt \<le> ly_offset st + ?k * ?P ^ 1 \<or> ?k = ?P" if "state_ok cnt st"
  proof (cases "ly_remaining st \<le> ?P * ?P")
    case True
    then have "ly_remaining st \<le> ?k * ?P ^ 1" using div_ceil_covers [OF sz(5), of "ly_remaining st"] by simp
    then show ?thesis using state_okD [OF that] by linarith
  next
    case False
    then have "?k = ?P" using sz(5) by (simp add: nat_div_ceil_def)
    then show ?thesis by simp
  qed
  show "extends st st' \<and> (state_ok cnt st \<longrightarrow> blk \<noteq> 0 \<longrightarrow> 0 \<notin> set (ly_allocated st') \<longrightarrow>
      state_ok cnt st' \<and> ly_offset st' = min cnt (ly_offset st + ?P ^ 2) \<and> (\<forall>rd. holds_writes rd bs (ly_writes st') \<longrightarrow> covers rd bs first cnt 2 blk (ly_offset st)))"
    using ext node_covers [OF bp _ assms(1) k cov bn] by (simp add: numeral_2_eq_2)
qed

lemma builds_l1:
  assumes "block_size_ok bs" "first \<noteq> 0" "unat first + cnt \<le> 2 ^ 32"
  shows "builds first bs cnt 3 (build_l1 alloc first bs)"
  unfolding builds_def
proof (intro allI impI)
  fix blk and st st' :: "'a layout_state"
  let ?P = "nat_ppb bs" and ?k = "nat_div_ceil (min (ly_remaining st) (nat_ppb bs * nat_ppb bs * nat_ppb bs)) (nat_ppb bs * nat_ppb bs)"
  note sz = block_size_okD [OF assms(1)] and bo = builds_outer [OF assms, of alloc]
  have "?P * ?P \<le> 16384 * 16384" by (intro mult_le_mono sz(3))
  then have pp: "(?P * ?P) mod 4294967296 = ?P * ?P" by simp
  have ppos: "0 < ?P * ?P" using sz(5) by simp
  assume "build_l1 alloc first bs blk st = Ok st'"
  then obtain buf st1 where bn: "build_nodes alloc (build_outer alloc first bs) 0 ?k (replicate (unat bs) 0) st = Ok (buf, st1)"
    "st' = st1\<lparr>ly_writes := ly_writes st1 @ [(blk, buf)]\<rparr>"
    unfolding build_l1_def Let_def using ppos by (auto simp: pp outcome_simps)
  have "extends st st1" by (rule build_nodes_extends [OF _ bn(1)]) (use builds_extends [OF bo] in blast)
  then have ext: "extends st st'" using bn(2) by (auto simp: extends_def)
  have k: "?k \<le> ?P" by (rule div_ceil_le) (use ppos in \<open>auto simp: mult.assoc\<close>)
  have cov: "cnt \<le> ly_offset st + ?k * ?P ^ 2 \<or> ?k = ?P" if "state_ok cnt st"
  proof (cases "ly_remaining st \<le> ?P * ?P * ?P")
    case True
    then have "ly_remaining st \<le> ?k * ?P ^ 2" using div_ceil_covers [OF ppos, of "ly_remaining st"] by (simp add: power2_eq_square)
    then show ?thesis using state_okD [OF that] by linarith
  next
    case False
    then have "?k = ?P" using sz(5) by (simp add: nat_div_ceil_def mult.assoc)
    then show ?thesis by simp
  qed
  show "extends st st' \<and> (state_ok cnt st \<longrightarrow> blk \<noteq> 0 \<longrightarrow> 0 \<notin> set (ly_allocated st') \<longrightarrow>
      state_ok cnt st' \<and> ly_offset st' = min cnt (ly_offset st + ?P ^ 3) \<and> (\<forall>rd. holds_writes rd bs (ly_writes st') \<longrightarrow> covers rd bs first cnt 3 blk (ly_offset st)))"
    using ext node_covers [OF bo _ assms(1) k cov bn] by (simp add: numeral_3_eq_3 numeral_2_eq_2)
qed


text \<open>The inode's slots: each leads to the part of the file that starts at its base.\<close>

definition slot_ok :: "reader \<Rightarrow> u32 \<Rightarrow> u64 \<Rightarrow> nat \<Rightarrow> bytes \<Rightarrow> nat \<Rightarrow> nat \<Rightarrow> nat \<Rightarrow> bool" where
  "slot_ok rd bs first cnt ib slot d base \<longleftrightarrow> (\<exists>b. ptr_at ib slot = Ok b \<and> covers rd bs first cnt d b base)"

definition slots_ok :: "reader \<Rightarrow> u32 \<Rightarrow> u64 \<Rightarrow> nat \<Rightarrow> bytes \<Rightarrow> bool" where
  "slots_ok rd bs first cnt ib \<longleftrightarrow> (let p = nat_ppb bs in (\<forall>i < 12. slot_ok rd bs first cnt ib i 0 i) \<and>
     slot_ok rd bs first cnt ib 12 1 12 \<and> slot_ok rd bs first cnt ib 13 2 (12 + p) \<and> slot_ok rd bs first cnt ib 14 3 (12 + p + p * p))"

lemma slot_ok_follow:
  "slot_ok rd bs first cnt ib slot d base \<Longrightarrow> j < nat_ppb bs ^ d \<Longrightarrow>
     and_then (ptr_at ib slot) (\<lambda>b. follow rd bs b (digits (nat_ppb bs) d j)) = Ok (block_val first cnt (base + j))"
  by (auto simp: slot_ok_def covers_def)

lemma slots_ok_lookup:
  assumes "slots_ok rd bs first cnt ib" "l < 12 + nat_ppb bs + nat_ppb bs * nat_ppb bs + nat_ppb bs * nat_ppb bs * nat_ppb bs"
  shows "tree_lookup ib rd bs l = Ok (block_val first cnt l)"
proof -
  let ?p = "nat_ppb bs"
  note s = assms(1) [unfolded slots_ok_def Let_def]
  consider "l < 12" | "12 \<le> l" "l < 12 + ?p" | "12 + ?p \<le> l" "l < 12 + ?p + ?p * ?p" | "12 + ?p + ?p * ?p \<le> l" using assms(2) by linarith
  then show ?thesis
  proof cases
    case 1
    then show ?thesis using slot_ok_follow [of rd bs first cnt ib l 0 l 0] s by (simp add: tree_lookup_def tier_def)
  next
    case 2
    then have "l - 12 < ?p ^ 1" "12 + (l - 12) = l" by simp_all
    then show ?thesis using 2 slot_ok_follow [of rd bs first cnt ib 12 1 12 "l - 12"] s by (simp add: tree_lookup_def tier_def)
  next
    case 3
    then have "l - (12 + ?p) < ?p ^ 2" "12 + ?p + (l - (12 + ?p)) = l" by (simp_all add: power2_eq_square)
    then show ?thesis using 3 slot_ok_follow [of rd bs first cnt ib 13 2 "12 + ?p" "l - (12 + ?p)"] s by (simp add: tree_lookup_def tier_def)
  next
    case 4
    then have "l - (12 + ?p + ?p * ?p) < ?p ^ 3" "12 + ?p + ?p * ?p + (l - (12 + ?p + ?p * ?p)) = l" using assms(2) by (simp_all add: power3_eq_cube)
    then show ?thesis using 4 assms(2) slot_ok_follow [of rd bs first cnt ib 14 3 "12 + ?p + ?p * ?p" "l - (12 + ?p + ?p * ?p)"] s
      by (simp add: tree_lookup_def tier_def)
  qed
qed

lemma covers_hole: "cnt \<le> off \<Longrightarrow> covers rd bs first cnt d 0 off"
proof -
  have "follow rd bs 0 ps = Ok None" for ps by (cases ps) (simp_all add: hole_def)
  then show "cnt \<le> off \<Longrightarrow> ?thesis" by (simp add: covers_def block_val_def)
qed

lemma covers_min [simp]: "covers rd bs first cnt d b (min cnt off) = covers rd bs first cnt d b off"
  by (cases "cnt \<le> off") (simp_all add: covers_def block_val_def min_def)

lemma slot_ok_write:
  assumes "length ib = 60" "slot < 15"
  shows "s < 15 \<Longrightarrow> s \<noteq> slot \<Longrightarrow> slot_ok rd bs first cnt (write_u32_le ib slot v) s d base = slot_ok rd bs first cnt ib s d base"
    "slot_ok rd bs first cnt (write_u32_le ib slot v) slot d base = covers rd bs first cnt d (ucast v) base"
  using assms by (simp_all add: slot_ok_def ptr_at_write)

lemma direct_slots:
  assumes "first \<noteq> 0" "unat first + cnt \<le> 2 ^ 32"
  defines "ib \<equiv> emit_data_ptrs (replicate 60 0) 0 (min cnt 12) (ucast first)"
  shows "length ib = 60" "i < 12 \<Longrightarrow> slot_ok rd bs first cnt ib i 0 i" "12 \<le> i \<Longrightarrow> i < 15 \<Longrightarrow> ptr_at ib i = Ok 0"
proof -
  have fit: "(0 + min cnt 12) * 4 \<le> length (replicate 60 (0 :: u8))" by simp
  note e = emit_data_ptrs_spec [OF fit, of "ucast first", folded ib_def]
  show "length ib = 60" using e by simp
  have p: "ptr_at ib i = (if i < min cnt 12 then Ok (ucast (ucast first + word_of_nat i :: u32)) else Ok 0)" if "i < 15" for i
    using e that ptr_at_zeros [of i 60] by auto
  show "12 \<le> i \<Longrightarrow> i < 15 \<Longrightarrow> ptr_at ib i = Ok 0" using p [of i] by simp
  show "slot_ok rd bs first cnt ib i 0 i" if "i < 12"
  proof (cases "i < cnt")
    case True
    have "ucast (ucast first + word_of_nat i :: u32) = (first + word_of_nat i :: u64)"
      using data_pointer [of first i 0 i] True assms(2) by simp
    moreover have "first + word_of_nat i \<noteq> 0" by (rule first_add_nonzero [OF assms(1,2) True])
    ultimately show ?thesis using True that p [of i] by (simp add: slot_ok_def covers_def hole_def block_val_def)
  next
    case False
    then show ?thesis using that p [of i] covers_hole [of cnt i] by (simp add: slot_ok_def)
  qed
qed

lemma tier_step:
  assumes "builds first bs cnt d build" "state_ok cnt st" "alloc_node alloc st = Ok (b, st1)" "build b st1 = Ok st2" "0 \<notin> set (ly_allocated st2)"
  shows "state_ok cnt st2" "ly_offset st2 = min cnt (ly_offset st + nat_ppb bs ^ d)" "extends st st2"
    "holds_writes rd bs (ly_writes st2) \<Longrightarrow> covers rd bs first cnt d (ucast (ucast b :: u32)) (ly_offset st)"
proof -
  note al = alloc_node_Ok [OF assms(3)] and e = builds_extends [OF assms(1,4)]
  have "0 \<notin> set (ly_allocated st1)" by (rule extends_nonzero [OF e assms(5)])
  then have "b \<noteq> 0" using al(1) by auto
  note bd = buildsD [OF assms(1) _ this assms(4,5)]
  show "state_ok cnt st2" "ly_offset st2 = min cnt (ly_offset st + nat_ppb bs ^ d)" "extends st st2"
    "holds_writes rd bs (ly_writes st2) \<Longrightarrow> covers rd bs first cnt d (ucast (ucast b :: u32)) (ly_offset st)"
    using bd al assms(2) extends_trans [OF al(6) e] by simp_all
qed

text \<open>The planner's four ways to finish, one per tier.\<close>

definition finished :: "bytes \<Rightarrow> 's layout_state \<Rightarrow> indirect_plan \<Rightarrow> 's \<Rightarrow> bool" where
  "finished ib st plan s' \<longleftrightarrow> plan = \<lparr>ip_i_block = ib, ip_writes = ly_writes st, ip_allocated = ly_allocated st\<rparr> \<and> s' = ly_alloc st \<and> ly_remaining st = 0"

lemma plan_contiguous_cases:
  assumes "plan_contiguous cnt first bs alloc s = Ok (plan, s')" "cnt < 2 ^ 32"
  obtains ib st where "power_of_two32 bs" "1024 \<le> bs" "unat first + cnt \<le> 2 ^ 32"
    "ib = emit_data_ptrs (replicate 60 0) 0 (min cnt 12) (ucast first)"
    "st = \<lparr>ly_alloc = s, ly_writes = [], ly_allocated = [], ly_remaining = cnt - min cnt 12, ly_offset = min cnt 12\<rparr>"
    "finished ib st plan s' \<or> (\<exists>b1 s1 s2. alloc_node alloc st = Ok (b1, s1) \<and> build_ptrs first bs b1 s1 = Ok s2 \<and>
       (finished (write_u32_le ib 12 (ucast b1)) s2 plan s' \<or> (\<exists>b2 s3 s4. alloc_node alloc s2 = Ok (b2, s3) \<and> build_outer alloc first bs b2 s3 = Ok s4 \<and>
          (finished (write_u32_le (write_u32_le ib 12 (ucast b1)) 13 (ucast b2)) s4 plan s' \<or>
           (\<exists>b3 s5 s6. alloc_node alloc s4 = Ok (b3, s5) \<and> build_l1 alloc first bs b3 s5 = Ok s6 \<and>
             finished (write_u32_le (write_u32_le (write_u32_le ib 12 (ucast b1)) 13 (ucast b2)) 14 (ucast b3)) s6 plan s')))))"
proof -
  define ib where "ib = emit_data_ptrs (replicate 60 0) 0 (min cnt 12) (ucast first)"
  define st where "st = \<lparr>ly_alloc = s, ly_writes = [], ly_allocated = [], ly_remaining = cnt - min cnt 12, ly_offset = min cnt 12\<rparr>"
  have p: "power_of_two32 bs" "1024 \<le> bs" using assms(1) by (auto simp: plan_contiguous_def split: if_splits)
  obtain last where l: "checked_add first (word_of_nat (cnt - 1)) = Some last" "last \<le> 0xFFFFFFFF"
    using assms(1) by (auto simp: plan_contiguous_def outcome_simps split: if_splits)
  have "unat (word_of_nat (cnt - 1) :: u64) = cnt - 1" using assms(2) by (simp add: unat_of_nat)
  then have "unat last = unat first + (cnt - 1)" using checked_add_Some [OF l(1)] by simp
  moreover have "unat last \<le> 4294967295" using l(2) by (simp add: word_le_nat_alt)
  ultimately have b: "unat first + cnt \<le> 2 ^ 32" by simp
  show ?thesis
    by (rule that [OF p b ib_def st_def])
       (use assms(1) in \<open>auto simp: plan_contiguous_def outcome_simps DIRECT_COUNT_def Let_def finished_def ib_def st_def split: if_splits\<close>)
qed

lemma plan_slots:
  assumes "plan_contiguous cnt first bs alloc s = Ok (plan, s')" "cnt < 2 ^ 32" "first \<noteq> 0" "bs \<le> 65536"
    "0 \<notin> set (ip_allocated plan)" "holds_writes rd bs (ip_writes plan)"
  shows "block_size_ok bs" "length (ip_i_block plan) = 60" "slots_ok rd bs first cnt (ip_i_block plan)"
    "cnt \<le> 12 + nat_ppb bs + nat_ppb bs * nat_ppb bs + nat_ppb bs * nat_ppb bs * nat_ppb bs"
proof -
  let ?P = "nat_ppb bs"
  let ?goal = "length (ip_i_block plan) = 60 \<and> slots_ok rd bs first cnt (ip_i_block plan) \<and> cnt \<le> 12 + ?P + ?P * ?P + ?P * ?P * ?P"
  obtain ib st where p: "power_of_two32 bs" "1024 \<le> bs" and b: "unat first + cnt \<le> 2 ^ 32"
    and ib: "ib = emit_data_ptrs (replicate 60 0) 0 (min cnt 12) (ucast first)"
    and st: "st = \<lparr>ly_alloc = s, ly_writes = [], ly_allocated = [], ly_remaining = cnt - min cnt 12, ly_offset = min cnt 12\<rparr>"
    and cases: "finished ib st plan s' \<or> (\<exists>b1 s1 s2. alloc_node alloc st = Ok (b1, s1) \<and> build_ptrs first bs b1 s1 = Ok s2 \<and>
       (finished (write_u32_le ib 12 (ucast b1)) s2 plan s' \<or> (\<exists>b2 s3 s4. alloc_node alloc s2 = Ok (b2, s3) \<and> build_outer alloc first bs b2 s3 = Ok s4 \<and>
          (finished (write_u32_le (write_u32_le ib 12 (ucast b1)) 13 (ucast b2)) s4 plan s' \<or>
           (\<exists>b3 s5 s6. alloc_node alloc s4 = Ok (b3, s5) \<and> build_l1 alloc first bs b3 s5 = Ok s6 \<and>
             finished (write_u32_le (write_u32_le (write_u32_le ib 12 (ucast b1)) 13 (ucast b2)) 14 (ucast b3)) s6 plan s')))))"
    by (rule plan_contiguous_cases [OF assms(1,2)])
  show bs: "block_size_ok bs" using p assms(4) by (simp add: block_size_ok_def)
  note ds = direct_slots [OF assms(3) b, folded ib] and bld = builds_ptrs [OF bs assms(3) b] builds_outer [OF bs assms(3) b, of alloc] builds_l1 [OF bs assms(3) b, of alloc]
  have sok: "state_ok cnt st" "ly_offset st = min cnt 12" by (simp_all add: st state_ok_def)
  have empty: "slot_ok rd bs first cnt ib i d base" if "12 \<le> i" "i < 15" "cnt \<le> base" for i d base
    using ds(3) [OF that(1,2)] covers_hole [OF that(3)] by (simp add: slot_ok_def)
  have fin: "0 \<notin> set (ly_allocated z) \<and> holds_writes rd bs (ly_writes z) \<and> ly_remaining z = 0 \<and> ip_i_block plan = y" if "finished y z plan s'" for y z
    using that assms(5,6) by (simp add: finished_def)
  have all: "cnt \<le> ly_offset z" if "state_ok cnt z" "ly_remaining z = 0" for z :: "'a layout_state" using state_okD [OF that(1)] that(2) by simp
  have "?goal" if "finished ib st plan s'"
    using fin [OF that] all [OF sok(1)] sok(2) ds(1,2) empty by (simp add: slots_ok_def Let_def)
  moreover have "?goal" if t: "alloc_node alloc st = Ok (b1, s1)" "build_ptrs first bs b1 s1 = Ok s2"
    and f: "finished (write_u32_le ib 12 (ucast b1)) s2 plan s'" for b1 s1 s2
  proof -
    note h = fin [OF f]
    note t1 = tier_step [OF bld(1) sok(1) t h [THEN conjunct1]]
    have "cnt \<le> 12 + ?P" using all [OF t1(1)] t1(2) h sok(2) by simp
    then show ?thesis using h ds(1,2) empty t1(4) sok(2) by (auto simp: slots_ok_def Let_def slot_ok_write)
  qed
  moreover have "?goal" if t: "alloc_node alloc st = Ok (b1, s1)" "build_ptrs first bs b1 s1 = Ok s2"
      "alloc_node alloc s2 = Ok (b2, s3)" "build_outer alloc first bs b2 s3 = Ok s4"
    and f: "finished (write_u32_le (write_u32_le ib 12 (ucast b1)) 13 (ucast b2)) s4 plan s'" for b1 s1 s2 b2 s3 s4
  proof -
    note h = fin [OF f] and e2 = extends_trans [OF alloc_node_Ok(6) builds_extends [OF bld(2)], OF t(3,4)]
    note t1 = tier_step [OF bld(1) sok(1) t(1,2) extends_nonzero [OF e2 h [THEN conjunct1]]]
    note t2 = tier_step [OF bld(2) t1(1) t(3,4) h [THEN conjunct1]]
    have o: "ly_offset s2 = min cnt (12 + ?P)" using t1(2) sok(2) by simp
    have "cnt \<le> 12 + ?P + ?P * ?P" using all [OF t2(1)] t2(2) h o by (simp add: power2_eq_square)
    then show ?thesis using h ds(1,2) empty t1(4) [OF extends_holds [OF e2]] t2(4) sok(2) o by (auto simp: slots_ok_def Let_def slot_ok_write)
  qed
  moreover have "?goal" if t: "alloc_node alloc st = Ok (b1, s1)" "build_ptrs first bs b1 s1 = Ok s2"
      "alloc_node alloc s2 = Ok (b2, s3)" "build_outer alloc first bs b2 s3 = Ok s4" "alloc_node alloc s4 = Ok (b3, s5)" "build_l1 alloc first bs b3 s5 = Ok s6"
    and f: "finished (write_u32_le (write_u32_le (write_u32_le ib 12 (ucast b1)) 13 (ucast b2)) 14 (ucast b3)) s6 plan s'" for b1 s1 s2 b2 s3 s4 b3 s5 s6
  proof -
    note h = fin [OF f] and e3 = extends_trans [OF alloc_node_Ok(6) builds_extends [OF bld(3)], OF t(5,6)]
    note e2 = extends_trans [OF alloc_node_Ok(6) builds_extends [OF bld(2)], OF t(3,4)]
    note z = extends_nonzero [OF e3 h [THEN conjunct1]]
    note t1 = tier_step [OF bld(1) sok(1) t(1,2) extends_nonzero [OF e2 z]]
    note t2 = tier_step [OF bld(2) t1(1) t(3,4) z]
    note t3 = tier_step [OF bld(3) t2(1) t(5,6) h [THEN conjunct1]]
    have o: "ly_offset s2 = min cnt (12 + ?P)" using t1(2) sok(2) by simp
    have o': "ly_offset s4 = min cnt (12 + ?P + ?P * ?P)" using t2(2) o by (simp add: power2_eq_square)
    have c: "cnt \<le> 12 + ?P + ?P * ?P + ?P * ?P * ?P" using all [OF t3(1)] t3(2) h o' by (simp add: power3_eq_cube)
    note cov = t1(4) [OF extends_holds [OF extends_trans [OF e2 e3]]] t2(4) [OF extends_holds [OF e3]] t3(4)
    show ?thesis using c h ds(1,2) cov sok(2) o o' by (auto simp: slots_ok_def Let_def slot_ok_write)
  qed
  ultimately show "length (ip_i_block plan) = 60" "slots_ok rd bs first cnt (ip_i_block plan)"
    "cnt \<le> 12 + nat_ppb bs + nat_ppb bs * nat_ppb bs + nat_ppb bs * nat_ppb bs * nat_ppb bs"
    using cases by blast+
qed

text \<open>
  C25. A file laid out contiguously reads back as laid out: once the planned pointer blocks are on the device, looking up any
  logical block below the file's block count gives the block at that distance from its first block, looking up any later one
  that the format can address gives a hole, and the count fits the format's address space.
\<close>

theorem plan_contiguous_correct:
  assumes "plan_contiguous cnt first bs alloc s = Ok (plan, s')" "cnt < 2 ^ 32" "first \<noteq> 0" "bs \<le> 65536"
    "0 \<notin> set (ip_allocated plan)" "holds_writes rd bs (ip_writes plan)"
  shows "length (ip_i_block plan) = 60 \<and> cnt \<le> 12 + nat_ppb bs + nat_ppb bs * nat_ppb bs + nat_ppb bs * nat_ppb bs * nat_ppb bs \<and>
    (\<forall>l. unat l < 12 + nat_ppb bs + nat_ppb bs * nat_ppb bs + nat_ppb bs * nat_ppb bs * nat_ppb bs \<longrightarrow>
       fst (ind_lookup (ip_i_block plan) rd bs l ic_new) = Ok (if unat l < cnt then Some (first + l) else None))"
proof (intro conjI allI impI)
  note ps = plan_slots [OF assms]
  show "length (ip_i_block plan) = 60" by (rule ps(2))
  show "cnt \<le> 12 + nat_ppb bs + nat_ppb bs * nat_ppb bs + nat_ppb bs * nat_ppb bs * nat_ppb bs" by (rule ps(4))
  fix l :: u64 assume l: "unat l < 12 + nat_ppb bs + nat_ppb bs * nat_ppb bs + nat_ppb bs * nat_ppb bs * nat_ppb bs"
  have "cache_ok rd bs ic_new" by (simp add: cache_ok_def ic_new_def)
  then have "fst (ind_lookup (ip_i_block plan) rd bs l ic_new) = tree_lookup (ip_i_block plan) rd bs (unat l)"
    using ind_lookup_tree [OF ps(1)] by (simp add: yields_def)
  then show "fst (ind_lookup (ip_i_block plan) rd bs l ic_new) = Ok (if unat l < cnt then Some (first + l) else None)"
    using slots_ok_lookup [OF ps(3) l] by (simp add: block_val_def)
qed

text \<open>Thirteen blocks from block 100: one pointer block, at block 50.\<close>

definition sample_layout :: "(indirect_plan \<times> u64) result" where
  "sample_layout = plan_contiguous 13 100 1024 (\<lambda>b. Ok (b, b + 1)) 50"

definition sample_pointers :: bytes where
  "sample_pointers = emit_data_ptrs (replicate 1024 0) 0 1 112"

definition sample_layout_reader :: reader where
  "sample_layout_reader off n = (if off = 51200 then Ok sample_pointers else Err (Corrupt ''no such block''))"

lemma sample_layout_eq:
  "sample_layout = Ok (\<lparr>ip_i_block = write_u32_le (emit_data_ptrs (replicate 60 0) 0 12 100) 12 50, ip_writes = [(50, sample_pointers)], ip_allocated = [50]\<rparr>, 51)"
proof -
  have "power_of_two32 1024" by code_simp
  moreover have "nat_ppb 1024 = 256" by (simp add: nat_ppb_def)
  ultimately show ?thesis
    by (simp add: sample_layout_def plan_contiguous_def alloc_node_def build_ptrs_def checked_add_def check_u32_def sample_pointers_def DIRECT_COUNT_def)
qed

theorem plan_contiguous_correct_witness:
  "\<exists>plan. sample_layout = Ok (plan, 51) \<and> fst (ind_lookup (ip_i_block plan) sample_layout_reader 1024 12 ic_new) = Ok (Some 112) \<and>
     fst (ind_lookup (ip_i_block plan) sample_layout_reader 1024 13 ic_new) = Ok None"
proof -
  obtain plan where p: "sample_layout = Ok (plan, 51)" "ip_allocated plan = [50]" "ip_writes plan = [(50, sample_pointers)]"
    using sample_layout_eq by simp
  have "holds_writes sample_layout_reader 1024 (ip_writes plan)"
    by (simp add: p(3) holds_writes_def read_node_def sample_layout_reader_def checked_mul_def)
  moreover have "nat_ppb 1024 = 256" by (simp add: nat_ppb_def)
  ultimately show ?thesis
    using p(1) plan_contiguous_correct [OF p(1) [unfolded sample_layout_def], of sample_layout_reader] p(2) by auto
qed

section \<open>Collecting the blocks a truncation frees\<close>

record free_run =
  fr_start :: u64
  fr_len :: u32

record freed_blocks =
  fb_data_runs :: "free_run list"
  fb_indirect_blocks :: "u64 list"

record collect_state =
  cs_data :: "u64 list"
  cs_indirect :: "u64 list"
  cs_remaining :: nat

definition im_read_block :: "reader \<Rightarrow> u64 \<Rightarrow> u32 \<Rightarrow> bytes result" where
  "im_read_block rd block_no bs =
     and_then (ok_or (checked_mul block_no (ucast bs)) (Corrupt ''indirect_mut: block byte offset overflow'')) (\<lambda>off. rd off (unat bs))"

fun collect_ptrs :: "bytes \<Rightarrow> nat list \<Rightarrow> collect_state \<Rightarrow> collect_state result" where
  "collect_ptrs buf [] st = Ok st"
| "collect_ptrs buf (i # is) st =
     and_then (ptr_at buf i) (\<lambda>p. collect_ptrs buf is (if p \<noteq> 0 then st\<lparr>cs_data := cs_data st @ [p]\<rparr> else st))"

text \<open>
  Visiting a block: it is recorded, read, and then walked. The loop over the children of a block of pointers skips the span of
  a hole.
\<close>

definition collect_leaf :: "reader \<Rightarrow> u32 \<Rightarrow> u64 \<Rightarrow> collect_state \<Rightarrow> collect_state result" where
  "collect_leaf rd bs blk st =
     (let st = st\<lparr>cs_indirect := cs_indirect st @ [blk]\<rparr> in
      and_then (im_read_block rd blk bs) (\<lambda>buf.
      let take_n = min (cs_remaining st) (nat_ppb bs) in
      and_then (collect_ptrs buf [0 ..< take_n] st) (\<lambda>st. Ok (st\<lparr>cs_remaining := cs_remaining st - take_n\<rparr>))))"

fun collect_children :: "nat \<Rightarrow> (u64 \<Rightarrow> collect_state \<Rightarrow> collect_state result) \<Rightarrow> bytes \<Rightarrow> nat \<Rightarrow> nat \<Rightarrow> collect_state \<Rightarrow> collect_state result" where
  "collect_children width visit buf idx 0 st = Ok st"
| "collect_children width visit buf idx (Suc k) st =
     and_then (ptr_at buf idx) (\<lambda>p.
     and_then (if p = 0 then Ok (st\<lparr>cs_remaining := cs_remaining st - width\<rparr>) else visit p st) (\<lambda>st.
     collect_children width visit buf (idx + 1) k st))"

definition collect_outer :: "reader \<Rightarrow> u32 \<Rightarrow> u64 \<Rightarrow> collect_state \<Rightarrow> collect_state result" where
  "collect_outer rd bs blk st =
     (let p = nat_ppb bs; st = st\<lparr>cs_indirect := cs_indirect st @ [blk]\<rparr> in
      and_then (im_read_block rd blk bs) (\<lambda>buf.
      collect_children p (collect_leaf rd bs) buf 0 (nat_div_ceil (min (cs_remaining st) (p * p)) p) st))"

definition collect_l1 :: "reader \<Rightarrow> u32 \<Rightarrow> u64 \<Rightarrow> collect_state \<Rightarrow> collect_state result" where
  "collect_l1 rd bs blk st =
     (let p = nat_ppb bs; st = st\<lparr>cs_indirect := cs_indirect st @ [blk]\<rparr> in
      and_then (im_read_block rd blk bs) (\<lambda>buf.
      collect_children (p * p) (collect_outer rd bs) buf 0 (nat_div_ceil (min (cs_remaining st) (p * p * p)) (p * p)) st))"

definition collect_tier :: "nat \<Rightarrow> (u64 \<Rightarrow> collect_state \<Rightarrow> collect_state result) \<Rightarrow> bytes \<Rightarrow> nat \<Rightarrow> collect_state \<Rightarrow> collect_state result" where
  "collect_tier width visit i_block slot st =
     and_then (ptr_at i_block slot) (\<lambda>blk.
     if cs_remaining st > 0 \<and> blk \<noteq> 0 then visit blk st
     else Ok (st\<lparr>cs_remaining := cs_remaining st - width\<rparr>))"

definition coalesce_step :: "u64 \<Rightarrow> free_run list \<Rightarrow> free_run list" where
  "coalesce_step b out =
     (if out \<noteq> [] \<and> fr_start (last out) + ucast (fr_len (last out)) = b
      then butlast out @ [(last out)\<lparr>fr_len := fr_len (last out) + 1\<rparr>]
      else out @ [\<lparr>fr_start = b, fr_len = 1\<rparr>])"

definition coalesce_runs :: "u64 list \<Rightarrow> free_run list" where
  "coalesce_runs sorted_blocks = fold coalesce_step sorted_blocks []"

text \<open>The last tier's counter is not read again, so its span does not matter.\<close>

definition collect_for_free :: "bytes \<Rightarrow> u32 \<Rightarrow> nat \<Rightarrow> reader \<Rightarrow> freed_blocks result" where
  "collect_for_free i_block bs expected_data_blocks rd =
     (if \<not> power_of_two32 bs \<or> bs < 1024 then Err (InvalidArgument ''indirect_mut: block_size out of range'')
      else let p = nat_ppb bs; direct_count = min expected_data_blocks DIRECT_COUNT in
        and_then (collect_ptrs i_block [0 ..< direct_count] \<lparr>cs_data = [], cs_indirect = [], cs_remaining = expected_data_blocks\<rparr>) (\<lambda>st.
        let st = st\<lparr>cs_remaining := cs_remaining st - direct_count\<rparr> in
        and_then (collect_tier p (collect_leaf rd bs) i_block 12 st) (\<lambda>st.
        and_then (collect_tier (p * p) (collect_outer rd bs) i_block 13 st) (\<lambda>st.
        and_then (collect_tier 0 (collect_l1 rd bs) i_block 14 st) (\<lambda>st.
        Ok \<lparr>fb_data_runs = coalesce_runs (remdups_adj (sort (cs_data st))),
            fb_indirect_blocks = remdups_adj (sort (cs_indirect st))\<rparr>)))))"

section \<open>The collected blocks are the mapped ones\<close>

text \<open>What following the tree finds at a position, and the contract of a visit to a subtree of a given height.\<close>

definition found :: "u64 option result \<Rightarrow> u64 list" where
  "found r = (case r of Ok (Some p) \<Rightarrow> [p] | _ \<Rightarrow> [])"

definition reads :: "u64 option result \<Rightarrow> bool" where
  "reads r \<longleftrightarrow> (\<exists>v. r = Ok v)"

definition at :: "reader \<Rightarrow> u32 \<Rightarrow> nat \<Rightarrow> u64 \<Rightarrow> nat \<Rightarrow> u64 option result" where
  "at rd bs d b j = follow rd bs b (digits (nat_ppb bs) d j)"

definition collected :: "(nat \<Rightarrow> u64 option result) \<Rightarrow> nat \<Rightarrow> nat \<Rightarrow> nat \<Rightarrow> collect_state \<Rightarrow> collect_state \<Rightarrow> bool" where
  "collected look from n width st st' \<longleftrightarrow>
     cs_remaining st' = cs_remaining st - width \<and> (\<forall>j < n. reads (look (from + j))) \<and>
     cs_data st' = cs_data st @ concat (map (\<lambda>j. found (look (from + j))) [0 ..< n])"

definition visits :: "reader \<Rightarrow> u32 \<Rightarrow> nat \<Rightarrow> (u64 \<Rightarrow> collect_state \<Rightarrow> collect_state result) \<Rightarrow> bool" where
  "visits rd bs d visit \<longleftrightarrow> (\<forall>blk st st'. blk \<noteq> 0 \<longrightarrow> visit blk st = Ok st' \<longrightarrow>
     collected (at rd bs d blk) 0 (min (cs_remaining st) (nat_ppb bs ^ d)) (nat_ppb bs ^ d) st st')"

lemma collected_cong:
  assumes "\<And>j. j < n \<Longrightarrow> look (a + j) = look' (b + j)"
  shows "collected look a n w st st' = collected look' b n w st st'"
proof -
  have "map (\<lambda>j. found (look (a + j))) [0 ..< n] = map (\<lambda>j. found (look' (b + j))) [0 ..< n]" using assms by simp
  moreover have "(\<forall>j < n. reads (look (a + j))) = (\<forall>j < n. reads (look' (b + j)))" using assms by auto
  ultimately show ?thesis by (simp only: collected_def)
qed

lemma collected_append:
  assumes "collected look a n1 s1 st st1" "collected look (a + n1) n2 s2 st1 st2"
  shows "collected look a (n1 + n2) (s1 + s2) st st2"
proof -
  have "[0 ..< n1 + n2] = [0 ..< n1] @ map (\<lambda>j. j + n1) [0 ..< n2]" by (metis add.commute le0 map_add_upt upt_add_eq_append)
  moreover have "reads (look (a + j))" if "j < n1 + n2" for j
  proof (cases "j < n1")
    case False
    then have "j - n1 < n2" "a + n1 + (j - n1) = a + j" using that by simp_all
    then show ?thesis using assms(2) unfolding collected_def by metis
  qed (use assms(1) in \<open>simp add: collected_def\<close>)
  ultimately show ?thesis using assms by (simp add: collected_def comp_def add.assoc add.commute [of n1])
qed

lemma collected_next:
  assumes "collected look 0 (min e a) w1 st st1" "collected look a (min (e - a) b) w2 st1 st2"
  shows "collected look 0 (min e (a + b)) (w1 + w2) st st2"
proof (cases "a \<le> e")
  case True
  then have "min e a = a" "min e (a + b) = a + min (e - a) b" by linarith+
  then show ?thesis using collected_append [of look 0 a w1 st st1] assms by simp
next
  case False
  then have "min e (a + b) = min e a + 0" "min (e - a) b = 0" by linarith+
  then show ?thesis using assms by (simp add: collected_def)
qed

lemma collect_ptrs_Ok:
  "collect_ptrs buf is st = Ok st' \<Longrightarrow> (\<forall>i \<in> set is. \<exists>p. ptr_at buf i = Ok p) \<and> cs_remaining st' = cs_remaining st \<and> cs_indirect st' = cs_indirect st \<and>
     cs_data st' = cs_data st @ concat (map (\<lambda>i. found (map_ok hole (ptr_at buf i))) is)"
proof (induction "is" arbitrary: st)
  case (Cons i "is")
  then obtain p where p: "ptr_at buf i = Ok p" "collect_ptrs buf is (if p \<noteq> 0 then st\<lparr>cs_data := cs_data st @ [p]\<rparr> else st) = Ok st'"
    by (auto simp: outcome_simps)
  then show ?case using Cons.IH [OF p(2)] by (auto simp: found_def hole_def)
qed simp

lemma im_read_block_node: "im_read_block rd b bs = Ok buf \<longleftrightarrow> read_node rd bs b = Ok buf"
  by (cases "checked_mul b (ucast bs)") (simp_all add: im_read_block_def read_node_def)

lemma visits_leaf: "visits rd bs 1 (collect_leaf rd bs)"
  unfolding visits_def
proof (intro allI impI)
  fix blk st st' assume b: "blk \<noteq> 0" and "collect_leaf rd bs blk st = Ok st'"
  then obtain buf st1 where r: "read_node rd bs blk = Ok buf" and
    c: "collect_ptrs buf [0 ..< min (cs_remaining st) (nat_ppb bs)] (st\<lparr>cs_indirect := cs_indirect st @ [blk]\<rparr>) = Ok st1"
    "st' = st1\<lparr>cs_remaining := cs_remaining st1 - min (cs_remaining st) (nat_ppb bs)\<rparr>"
    by (auto simp: collect_leaf_def Let_def outcome_simps im_read_block_node)
  have "at rd bs 1 blk j = map_ok hole (ptr_at buf j)" for j using b r by (cases "ptr_at buf j") (simp_all add: at_def)
  then show "collected (at rd bs 1 blk) 0 (min (cs_remaining st) (nat_ppb bs ^ 1)) (nat_ppb bs ^ 1) st st'"
    using collect_ptrs_Ok [OF c(1)] c(2) by (force simp: collected_def reads_def)
qed

text \<open>The children of a block, each a subtree of the height below.\<close>

lemma collect_children_Ok:
  assumes v: "visits rd bs d visit" and step: "\<And>i r. r < nat_ppb bs ^ d \<Longrightarrow>
    look (i * nat_ppb bs ^ d + r) = and_then (ptr_at buf i) (\<lambda>p. at rd bs d p r)"
  shows "collect_children (nat_ppb bs ^ d) visit buf idx k st = Ok st' \<Longrightarrow>
    collected look (idx * nat_ppb bs ^ d) (min (cs_remaining st) (k * nat_ppb bs ^ d)) (k * nat_ppb bs ^ d) st st'"
proof (induction k arbitrary: idx st)
  case 0
  then show ?case by (simp add: collected_def)
next
  case (Suc k)
  let ?S = "nat_ppb bs ^ d" and ?m = "min (cs_remaining st) (nat_ppb bs ^ d)"
  obtain p st1 where p: "ptr_at buf idx = Ok p" and s1: "(if p = 0 then Ok (st\<lparr>cs_remaining := cs_remaining st - ?S\<rparr>) else visit p st) = Ok st1"
    and rest: "collect_children ?S visit buf (idx + 1) k st1 = Ok st'"
    using Suc.prems by (auto simp: outcome_simps)
  have look: "look (idx * ?S + j) = at rd bs d p j" if "j < ?S" for j using step [OF that] p by simp
  have one: "collected look (idx * ?S) ?m ?S st st1"
  proof (cases "p = 0")
    case True
    have "at rd bs d 0 j = Ok None" for j by (cases "digits (nat_ppb bs) d j") (simp_all add: at_def hole_def)
    then have "look (idx * ?S + j) = Ok None" if "j < ?m" for j using look that True by simp
    then show ?thesis using s1 True by (auto simp: collected_def reads_def found_def)
  next
    case False
    then have "visit p st = Ok st1" using s1 by simp
    then have "collected (at rd bs d p) 0 ?m ?S st st1" using v False by (auto simp: visits_def)
    moreover have "collected look (idx * ?S) ?m ?S st st1 = collected (at rd bs d p) 0 ?m ?S st st1" by (rule collected_cong) (simp add: look)
    ultimately show ?thesis by simp
  qed
  then have r1: "cs_remaining st1 = cs_remaining st - ?S" by (simp add: collected_def)
  show ?case
  proof (cases "?S \<le> cs_remaining st")
    case True
    have IH: "collected look (idx * ?S + ?S) (min (cs_remaining st1) (k * ?S)) (k * ?S) st1 st'" using Suc.IH [OF rest] by (simp add: add.commute)
    have "collected look (idx * ?S) ?S ?S st st1" using one True by (simp only: min_absorb2)
    then have "collected look (idx * ?S) (?S + min (cs_remaining st1) (k * ?S)) (?S + k * ?S) st st'" by (rule collected_append [OF _ IH])
    moreover have "?S + min (cs_remaining st1) (k * ?S) = min (cs_remaining st) (Suc k * ?S)" unfolding mult_Suc r1 using True by linarith
    ultimately show ?thesis by simp
  next
    case False
    then have "min (cs_remaining st1) (k * ?S) = 0" "?m = min (cs_remaining st) (Suc k * ?S)" using r1 by (simp_all add: min_def)
    then show ?thesis using one Suc.IH [OF rest] False by (simp add: collected_def)
  qed
qed

lemma ceil_children:
  assumes "0 < (s :: nat)" "0 < p" "k = nat_div_ceil (min n (p * s)) s"
  shows "min n (k * s) = min n (p * s)" "n - k * s = n - p * s"
proof -
  have "n \<le> p * s \<Longrightarrow> n \<le> k * s" using div_ceil_covers [OF assms(1), of n] assms(3) by simp
  moreover have "k \<le> p" unfolding assms(3) by (rule div_ceil_le) (use assms in auto)
  then have "k * s \<le> p * s" by (rule mult_le_mono1)
  moreover have "\<not> n \<le> p * s \<Longrightarrow> k = p" using assms by (simp add: nat_div_ceil_def)
  ultimately show "min n (k * s) = min n (p * s)" "n - k * s = n - p * s" by (cases "n \<le> p * s"; simp add: min_def)+
qed

lemma visits_node:
  assumes "block_size_ok bs" "visits rd bs d visit" "blk \<noteq> 0" "read_node rd bs blk = Ok buf"
    "k = nat_div_ceil (min (cs_remaining st) (nat_ppb bs * nat_ppb bs ^ d)) (nat_ppb bs ^ d)"
    "collect_children (nat_ppb bs ^ d) visit buf 0 k (st\<lparr>cs_indirect := cs_indirect st @ [blk]\<rparr>) = Ok st'"
  shows "collected (at rd bs (Suc d) blk) 0 (min (cs_remaining st) (nat_ppb bs ^ Suc d)) (nat_ppb bs ^ Suc d) st st'"
proof -
  have S: "0 < nat_ppb bs ^ d" using block_size_okD(5) [OF assms(1)] by simp
  have "at rd bs (Suc d) blk (i * nat_ppb bs ^ d + r) = and_then (ptr_at buf i) (\<lambda>p. at rd bs d p r)" if "r < nat_ppb bs ^ d" for i r
    using that assms(3,4) S by (simp add: at_def)
  then have "collected (at rd bs (Suc d) blk) 0 (min (cs_remaining st) (k * nat_ppb bs ^ d)) (k * nat_ppb bs ^ d) st st'"
    using collect_children_Ok [OF assms(2) _ assms(6), of "at rd bs (Suc d) blk"] by (simp add: collected_def)
  then show ?thesis using ceil_children [OF S block_size_okD(5) [OF assms(1)] assms(5)] by (simp add: collected_def)
qed

lemma visits_outer:
  assumes "block_size_ok bs"
  shows "visits rd bs 2 (collect_outer rd bs)"
  unfolding visits_def
proof (intro allI impI)
  fix blk st st' assume b: "blk \<noteq> 0" and "collect_outer rd bs blk st = Ok st'"
  then obtain buf where r: "read_node rd bs blk = Ok buf" and
    c: "collect_children (nat_ppb bs ^ 1) (collect_leaf rd bs) buf 0 (nat_div_ceil (min (cs_remaining st) (nat_ppb bs * nat_ppb bs ^ 1)) (nat_ppb bs ^ 1)) (st\<lparr>cs_indirect := cs_indirect st @ [blk]\<rparr>) = Ok st'"
    by (auto simp: collect_outer_def Let_def outcome_simps im_read_block_node)
  show "collected (at rd bs 2 blk) 0 (min (cs_remaining st) (nat_ppb bs ^ 2)) (nat_ppb bs ^ 2) st st'"
    using visits_node [OF assms visits_leaf b r refl c] by (simp add: numeral_2_eq_2)
qed

lemma visits_l1:
  assumes "block_size_ok bs"
  shows "visits rd bs 3 (collect_l1 rd bs)"
  unfolding visits_def
proof (intro allI impI)
  fix blk st st' assume b: "blk \<noteq> 0" and "collect_l1 rd bs blk st = Ok st'"
  then obtain buf where r: "read_node rd bs blk = Ok buf" and
    c: "collect_children (nat_ppb bs ^ 2) (collect_outer rd bs) buf 0 (nat_div_ceil (min (cs_remaining st) (nat_ppb bs * nat_ppb bs ^ 2)) (nat_ppb bs ^ 2)) (st\<lparr>cs_indirect := cs_indirect st @ [blk]\<rparr>) = Ok st'"
    by (auto simp: collect_l1_def Let_def outcome_simps im_read_block_node power2_eq_square mult.assoc)
  show "collected (at rd bs 3 blk) 0 (min (cs_remaining st) (nat_ppb bs ^ 3)) (nat_ppb bs ^ 3) st st'"
    using visits_node [OF assms visits_outer [OF assms] b r refl c] by (simp add: numeral_3_eq_3 numeral_2_eq_2)
qed

text \<open>A whole tier, whether its root is a hole or not, and past the end of the file.\<close>

lemma collect_tier_Ok:
  assumes "visits rd bs d visit" "collect_tier (nat_ppb bs ^ d) visit ib slot st = Ok st'"
    "\<And>j. j < nat_ppb bs ^ d \<Longrightarrow> look (base + j) = and_then (ptr_at ib slot) (\<lambda>b. at rd bs d b j)"
  shows "collected look base (min (cs_remaining st) (nat_ppb bs ^ d)) (nat_ppb bs ^ d) st st'"
proof -
  let ?S = "nat_ppb bs ^ d"
  obtain b where b: "ptr_at ib slot = Ok b" and
    c: "(if cs_remaining st > 0 \<and> b \<noteq> 0 then visit b st else Ok (st\<lparr>cs_remaining := cs_remaining st - ?S\<rparr>)) = Ok st'"
    using assms(2) by (auto simp: collect_tier_def outcome_simps)
  show ?thesis
  proof (cases "cs_remaining st > 0 \<and> b \<noteq> 0")
    case True
    then have "collected (at rd bs d b) 0 (min (cs_remaining st) ?S) ?S st st'" using c assms(1) by (simp add: visits_def)
    moreover have "collected look base (min (cs_remaining st) ?S) ?S st st' = collected (at rd bs d b) 0 (min (cs_remaining st) ?S) ?S st st'"
      by (rule collected_cong) (use assms(3) b in simp)
    ultimately show ?thesis by simp
  next
    case False
    have "at rd bs d 0 j = Ok None" for j by (cases "digits (nat_ppb bs) d j") (simp_all add: at_def hole_def)
    then have "look (base + j) = Ok None" if "j < min (cs_remaining st) ?S" for j using that assms(3) [of j] b False by auto
    then show ?thesis using c False by (auto simp: collected_def reads_def found_def)
  qed
qed

text \<open>Runs: the blocks of a list of runs, in order.\<close>

definition run_blocks :: "free_run \<Rightarrow> u64 list" where
  "run_blocks r = map (\<lambda>i. fr_start r + word_of_nat i) [0 ..< unat (fr_len r)]"

definition runs_blocks :: "free_run list \<Rightarrow> u64 list" where
  "runs_blocks rs = concat (map run_blocks rs)"

definition good_run :: "free_run \<Rightarrow> bool" where
  "good_run r \<longleftrightarrow> 0 < fr_len r \<and> 0 < fr_start r \<and> unat (fr_start r) + unat (fr_len r) \<le> 2 ^ 32"

lemma coalesce_step_blocks:
  assumes "\<forall>r \<in> set out. good_run r" "0 < b" "unat b < 2 ^ 32"
  shows "runs_blocks (coalesce_step b out) = runs_blocks out @ [b] \<and> (\<forall>r \<in> set (coalesce_step b out). good_run r)"
proof (cases "out \<noteq> [] \<and> fr_start (last out) + ucast (fr_len (last out)) = b")
  case True
  define r where "r = last out"
  have out: "out = butlast out @ [r]" using True by (simp add: r_def)
  have r: "good_run r" using assms(1) True by (simp add: r_def)
  then have s: "unat (fr_start r) + unat (fr_len r) \<le> 4294967296" "0 < fr_start r" "0 < fr_len r" by (simp_all add: good_run_def)
  have "fr_start r + ucast (fr_len r) = b" using True by (simp add: r_def)
  then have "unat b = (unat (fr_start r) + unat (ucast (fr_len r) :: u64)) mod 2 ^ 64" by (auto simp: unat_word_ariths(1))
  then have ub: "unat b = unat (fr_start r) + unat (fr_len r)" using s(1) by simp
  have pos: "0 < unat (fr_start r)" using s(2) by (simp add: unat_gt_0)
  have len: "unat (fr_len r + 1) = unat (fr_len r) + 1" using pos ub assms(3) by (simp add: unat_word_ariths(1))
  have b: "fr_start r + word_of_nat (unat (fr_len r)) = b" using \<open>fr_start r + ucast (fr_len r) = b\<close> by simp
  have "run_blocks (r\<lparr>fr_len := fr_len r + 1\<rparr>) = run_blocks r @ [b]" using len b by (simp add: run_blocks_def)
  moreover have "good_run (r\<lparr>fr_len := fr_len r + 1\<rparr>)" using len ub assms(3) s(2) by (simp add: good_run_def word_less_nat_alt)
  ultimately show ?thesis using True assms(1) out by (auto simp: coalesce_step_def runs_blocks_def r_def [symmetric] dest: in_set_butlastD) (metis append.assoc concat.simps concat_append list.simps(8,9) map_append append_Nil2)
next
  case False
  have "run_blocks \<lparr>fr_start = b, fr_len = 1\<rparr> = [b]" by (simp add: run_blocks_def)
  moreover have "good_run \<lparr>fr_start = b, fr_len = 1\<rparr>" using assms(2,3) by (simp add: good_run_def)
  ultimately show ?thesis using False assms(1) by (auto simp: coalesce_step_def runs_blocks_def)
qed

lemma coalesce_runs_blocks:
  assumes "\<forall>b \<in> set bs. 0 < b \<and> unat b < 2 ^ 32"
  shows "runs_blocks (coalesce_runs bs) = bs"
proof -
  have "\<forall>r \<in> set out. good_run r \<Longrightarrow> runs_blocks (fold coalesce_step bs out) = runs_blocks out @ bs" for out
    using assms
  proof (induction bs arbitrary: out)
    case (Cons b bs)
    then show ?case using coalesce_step_blocks [of out b] by simp
  qed simp
  from this [of "[]"] show ?thesis by (simp add: coalesce_runs_def runs_blocks_def)
qed

text \<open>A pointer read from a block is a 32-bit one.\<close>

lemma ptr_at_bound: "ptr_at buf i = Ok p \<Longrightarrow> unat p < 2 ^ 32"
proof -
  assume "ptr_at buf i = Ok p"
  then have "\<exists>x. p = ucast (u32_from_le x)" unfolding ptr_at_def by (cases "get_slice (i * 4) (i * 4 + 4) buf :: bytes result") auto
  then obtain x where "p = ucast (u32_from_le x)" ..
  then show ?thesis using unsigned_less [of "u32_from_le x"] by simp
qed

lemma follow_bound: "follow rd bs b is = Ok (Some p) \<Longrightarrow> unat b < 2 ^ 32 \<Longrightarrow> p \<noteq> 0 \<and> unat p < 2 ^ 32"
proof (induction rd bs b "is" rule: follow.induct)
  case (2 rd bs b i "is")
  then show ?case by (auto simp: outcome_simps split: if_splits dest!: ptr_at_bound)
qed (auto simp: hole_def split: if_splits)

lemma tree_lookup_bound: "tree_lookup ib rd bs l = Ok (Some p) \<Longrightarrow> p \<noteq> 0 \<and> unat p < 2 ^ 32"
  by (auto simp: tree_lookup_def outcome_simps split: option.splits dest!: ptr_at_bound follow_bound)

lemma collect_tier_data:
  assumes "collect_tier w visit ib slot st = Ok st'"
  shows "\<exists>st2. collect_tier w' visit ib slot st = Ok st2 \<and> cs_data st2 = cs_data st'"
proof (cases "ptr_at ib slot")
  case (Ok b)
  then show ?thesis using assms by (cases "cs_remaining st > 0 \<and> b \<noteq> 0") (auto simp: collect_tier_def)
qed (use assms in \<open>simp_all add: collect_tier_def\<close>)

lemma collected_lookups:
  assumes "collect_for_free ib bs expected rd = Ok fb" "block_size_ok bs"
  defines "n \<equiv> min expected (12 + nat_ppb bs + nat_ppb bs * nat_ppb bs + nat_ppb bs * nat_ppb bs * nat_ppb bs)"
  obtains ds where "fb_data_runs fb = coalesce_runs (remdups_adj (sort ds))" "\<forall>l < n. reads (tree_lookup ib rd bs l)"
    "ds = concat (map (\<lambda>l. found (tree_lookup ib rd bs l)) [0 ..< n])"
    "\<exists>is. fb_indirect_blocks fb = remdups_adj (sort is)"
proof -
  let ?P = "nat_ppb bs" and ?look = "tree_lookup ib rd bs"
  let ?st0 = "\<lparr>cs_data = [], cs_indirect = [], cs_remaining = expected\<rparr> :: collect_state"
  obtain st0 st1 st2 st3 where c: "collect_ptrs ib [0 ..< min expected 12] ?st0 = Ok st0"
    and t1: "collect_tier (?P ^ 1) (collect_leaf rd bs) ib 12 (st0\<lparr>cs_remaining := cs_remaining st0 - min expected 12\<rparr>) = Ok st1"
    and t2: "collect_tier (?P ^ 2) (collect_outer rd bs) ib 13 st1 = Ok st2" and t3: "collect_tier 0 (collect_l1 rd bs) ib 14 st2 = Ok st3"
    and fb: "fb = \<lparr>fb_data_runs = coalesce_runs (remdups_adj (sort (cs_data st3))), fb_indirect_blocks = remdups_adj (sort (cs_indirect st3))\<rparr>"
    using assms(1) by (auto simp: collect_for_free_def Let_def outcome_simps DIRECT_COUNT_def power2_eq_square split: if_splits)
  have "\<exists>st3'. collect_tier (?P ^ 3) (collect_l1 rd bs) ib 14 st2 = Ok st3' \<and> cs_data st3' = cs_data st3"
    by (rule collect_tier_data [OF t3])
  then obtain st3' where t3': "collect_tier (?P ^ 3) (collect_l1 rd bs) ib 14 st2 = Ok st3'" "cs_data st3' = cs_data st3" by blast
  have d: "collected ?look 0 (min expected 12) (min expected 12) ?st0 (st0\<lparr>cs_remaining := cs_remaining st0 - min expected 12\<rparr>)"
  proof -
    have "?look i = map_ok hole (ptr_at ib i)" if "i < 12" for i using that by (cases "ptr_at ib i") (simp_all add: tree_lookup_def tier_def)
    then have l: "?look j = map_ok hole (ptr_at ib j)" if "j < min expected 12" for j using that by simp
    note p = collect_ptrs_Ok [OF c]
    have "reads (?look j)" if j: "j < min expected 12" for j
    proof -
      obtain q where "ptr_at ib j = Ok q" using p j by fastforce
      then show ?thesis using l [OF j] by (simp add: reads_def)
    qed
    moreover have "map (\<lambda>j. found (?look (0 + j))) [0 ..< min expected 12] = map (\<lambda>i. found (map_ok hole (ptr_at ib i))) [0 ..< min expected 12]"
      using l by simp
    ultimately show ?thesis using p by (simp only: collected_def) simp
  qed
  note u = power2_eq_square power3_eq_cube mult.assoc
  have look: "?look (12 + j) = and_then (ptr_at ib 12) (\<lambda>b. at rd bs 1 b j)" if "j < ?P ^ 1" for j
    using that by (simp add: tree_lookup_def tier_def at_def)
  have look2: "?look (12 + ?P + j) = and_then (ptr_at ib 13) (\<lambda>b. at rd bs 2 b j)" if "j < ?P ^ 2" for j
    using that by (simp add: tree_lookup_def tier_def at_def u)
  have look3: "?look (12 + ?P + ?P * ?P + j) = and_then (ptr_at ib 14) (\<lambda>b. at rd bs 3 b j)" if "j < ?P ^ 3" for j
    using that by (simp add: tree_lookup_def tier_def at_def u)
  note v = collect_tier_Ok [OF visits_leaf t1 look] collect_tier_Ok [OF visits_outer [OF assms(2)] t2 look2] collect_tier_Ok [OF visits_l1 [OF assms(2)] t3'(1) look3]
  have r0: "cs_remaining (st0\<lparr>cs_remaining := cs_remaining st0 - min expected 12\<rparr>) = expected - 12" using d by (simp add: collected_def)
  have r1: "cs_remaining st1 = expected - 12 - ?P" using v(1) r0 by (simp add: collected_def)
  have r2: "cs_remaining st2 = expected - 12 - ?P - ?P * ?P" using v(2) r1 by (simp add: collected_def u)
  have a1: "collected ?look 0 (min expected (12 + ?P)) (min expected 12 + ?P) ?st0 st1"
    using collected_next [OF d, of ?P ?P st1] v(1) [unfolded r0] by simp
  have a2: "collected ?look 0 (min expected (12 + ?P + ?P * ?P)) (min expected 12 + ?P + ?P * ?P) ?st0 st2"
    using collected_next [OF a1, of "?P * ?P" "?P * ?P" st2] v(2) [unfolded r1] by (simp add: u)
  have a3: "collected ?look 0 n (min expected 12 + ?P + ?P * ?P + ?P * ?P * ?P) ?st0 st3'"
    using collected_next [OF a2, of "?P * ?P * ?P" "?P * ?P * ?P" st3'] v(3) [unfolded r2] unfolding n_def by (simp add: u)
  show ?thesis by (rule that [of "cs_data st3"]) (use a3 t3'(2) in \<open>auto simp: fb collected_def\<close>)
qed

lemma strict_sorted_sort: "sorted_wrt (<) (remdups_adj (sort xs))" for xs :: "'a :: linorder list"
proof -
  have "sorted ys \<Longrightarrow> sorted_wrt (<) (remdups_adj ys)" for ys :: "'a list"
  proof (induction ys rule: remdups_adj.induct)
    case (3 x y xs)
    then show ?case by (cases "x = y") (auto simp: order.order_iff_strict intro: order.strict_trans1)
  qed simp_all
  then show ?thesis by simp
qed

text \<open>
  C26. The blocks a truncation frees are exactly the ones the file maps: when the walk succeeds, looking up every logical block
  below the cap succeeds, the data runs list, each once and in increasing order, precisely the blocks those lookups find, and
  the list of pointer blocks is free of duplicates.
\<close>

theorem collect_for_free_correct:
  assumes "collect_for_free ib bs expected rd = Ok fb" "bs \<le> 65536"
  defines "space \<equiv> 12 + nat_ppb bs + nat_ppb bs * nat_ppb bs + nat_ppb bs * nat_ppb bs * nat_ppb bs"
  shows "(\<forall>l. unat l < min expected space \<longrightarrow> (\<exists>v. fst (ind_lookup ib rd bs l ic_new) = Ok v)) \<and>
    set (runs_blocks (fb_data_runs fb)) = {p. \<exists>l. unat l < min expected space \<and> fst (ind_lookup ib rd bs l ic_new) = Ok (Some p)} \<and>
    sorted_wrt (<) (runs_blocks (fb_data_runs fb)) \<and> sorted_wrt (<) (fb_indirect_blocks fb)"
proof -
  let ?n = "min expected space"
  have bs: "block_size_ok bs" using assms(1,2) by (auto simp: collect_for_free_def block_size_ok_def split: if_splits)
  obtain ds where ds: "fb_data_runs fb = coalesce_runs (remdups_adj (sort ds))" "\<forall>l < ?n. reads (tree_lookup ib rd bs l)"
    "ds = concat (map (\<lambda>l. found (tree_lookup ib rd bs l)) [0 ..< ?n])" "\<exists>is. fb_indirect_blocks fb = remdups_adj (sort is)"
    unfolding space_def by (rule collected_lookups [OF assms(1) bs])
  have lk: "fst (ind_lookup ib rd bs l ic_new) = tree_lookup ib rd bs (unat l)" for l
    using ind_lookup_tree [OF bs, of rd ic_new] by (simp add: yields_def cache_ok_def ic_new_def)
  have "p \<in> set (found r) \<longleftrightarrow> r = Ok (Some p)" for r p by (auto simp: found_def split: outcome.splits option.splits)
  then have mem: "p \<in> set ds \<longleftrightarrow> (\<exists>l < ?n. tree_lookup ib rd bs l = Ok (Some p))" for p unfolding ds(3) by auto
  then have "\<forall>b \<in> set (remdups_adj (sort ds)). 0 < b \<and> unat b < 2 ^ 32" using tree_lookup_bound by (fastforce simp: word_gt_0)
  then have runs: "runs_blocks (fb_data_runs fb) = remdups_adj (sort ds)" unfolding ds(1) by (rule coalesce_runs_blocks)
  have words: "(\<exists>l < ?n. Q l) \<longleftrightarrow> (\<exists>l :: u64. unat l < ?n \<and> Q (unat l))" for Q
  proof
    assume "\<exists>l < ?n. Q l"
    then obtain l where l: "l < ?n" "Q l" by blast
    then have "unat (word_of_nat l :: u64) = l" using space_small [OF bs] by (simp add: space_def unat_of_nat)
    then show "\<exists>l :: u64. unat l < ?n \<and> Q (unat l)" using l by metis
  qed blast
  show ?thesis
    unfolding runs lk using ds(2,4) mem words strict_sorted_sort by (auto simp: reads_def)
qed

text \<open>A file of two direct blocks that happen to be neighbours, and a third elsewhere.\<close>

definition sample_i_block :: bytes where
  "sample_i_block = [8, 0, 0, 0, 7, 0, 0, 0, 0, 0, 0, 0, 20, 0, 0, 0] @ replicate 44 0"

lemma sample_collect:
  "collect_for_free sample_i_block 1024 5 sample_layout_reader =
     Ok \<lparr>fb_data_runs = [\<lparr>fr_start = 7, fr_len = 2\<rparr>, \<lparr>fr_start = 20, fr_len = 1\<rparr>], fb_indirect_blocks = []\<rparr>"
proof -
  have p: "power_of_two32 1024" "nat_ppb 1024 = 256" by (code_simp, simp add: nat_ppb_def)
  have slots: "ptr_at sample_i_block 0 = Ok 8" "ptr_at sample_i_block (Suc 0) = Ok 7" "ptr_at sample_i_block 2 = Ok 0" "ptr_at sample_i_block 3 = Ok 20"
    "ptr_at sample_i_block 4 = Ok 0" "ptr_at sample_i_block 12 = Ok 0" "ptr_at sample_i_block 13 = Ok 0" "ptr_at sample_i_block 14 = Ok 0"
    by code_simp+
  have "[0 ..< 5] = [0, 1, 2, 3, 4 :: nat]" by (simp add: upt_rec)
  then show ?thesis
    by (simp add: collect_for_free_def p DIRECT_COUNT_def collect_tier_def slots coalesce_runs_def coalesce_step_def)
qed

theorem collect_for_free_correct_witness:
  "{p. \<exists>l :: u64. unat l < 5 \<and> fst (ind_lookup sample_i_block sample_layout_reader 1024 l ic_new) = Ok (Some p)} = {7, 8, 20}"
proof -
  have "nat_ppb 1024 = 256" by (simp add: nat_ppb_def)
  then show ?thesis using collect_for_free_correct [OF sample_collect]
    by (auto simp: runs_blocks_def run_blocks_def upt_rec)
qed

end
