(* ===== verification/Xattr.thy ===== *)
theory Xattr
  imports Inode Extent "HOL-Library.List_Lexorder" "HOL-Library.Product_Lexorder" "HOL-Library.Multiset"
begin

unbundle bit_operations_syntax

text \<open>
  Extended attributes (\<open>src/xattr.rs\<close>): the two places they are stored in, the readers, and the planners that set and remove an
  attribute by decoding an area, changing the list and encoding it anew. A Rust string is the list of its UTF-8 bytes. The
  area inside the inode and the external block share their entry format, so the loops over entries are written once, with
  the position of the first entry and the error texts as arguments.
\<close>

definition EXT4_XATTR_MAGIC :: u32 where "EXT4_XATTR_MAGIC = 0xEA020000"

definition bstr :: "string \<Rightarrow> bytes" where "bstr s = map of_char s"

definition NAME_PREFIXES :: "(u8 \<times> bytes) list" where
  "NAME_PREFIXES = [(1, bstr ''user.''), (2, bstr ''system.posix_acl_access''), (3, bstr ''system.posix_acl_default''),
     (4, bstr ''trusted.''), (5, bstr ''lustre.''), (6, bstr ''security.''), (7, bstr ''system.''), (8, bstr ''system.richacl'')]"

definition prefix_for_index :: "u8 \<Rightarrow> bytes option" where
  "prefix_for_index idx = map_option snd (find (\<lambda>(i, _). i = idx) NAME_PREFIXES)"

record xattr_entry =
  xe_name :: bytes
  xe_value :: bytes
  xe_value_inum :: u32
  xe_value_size :: u32

section \<open>UTF-8 validity\<close>

text \<open>What \<open>str::from_utf8\<close> accepts: the well-formed byte sequences of the Unicode standard.\<close>

definition cont :: "u8 \<Rightarrow> bool" where "cont b \<longleftrightarrow> 0x80 \<le> b \<and> b \<le> 0xBF"

fun utf8_valid :: "bytes \<Rightarrow> bool" where
  "utf8_valid [] \<longleftrightarrow> True"
| "utf8_valid (a # rest) \<longleftrightarrow>
     (if a \<le> 0x7F then utf8_valid rest
      else if 0xC2 \<le> a \<and> a \<le> 0xDF
      then (case rest of b # rest' \<Rightarrow> cont b \<and> utf8_valid rest' | _ \<Rightarrow> False)
      else if 0xE0 \<le> a \<and> a \<le> 0xEF
      then (case rest of b # c # rest' \<Rightarrow>
              (if a = 0xE0 then 0xA0 \<le> b \<and> b \<le> 0xBF else if a = 0xED then 0x80 \<le> b \<and> b \<le> 0x9F else cont b) \<and>
              cont c \<and> utf8_valid rest' | _ \<Rightarrow> False)
      else if 0xF0 \<le> a \<and> a \<le> 0xF4
      then (case rest of b # c # d # rest' \<Rightarrow>
              (if a = 0xF0 then 0x90 \<le> b \<and> b \<le> 0xBF else if a = 0xF4 then 0x80 \<le> b \<and> b \<le> 0x8F else cont b) \<and>
              cont c \<and> cont d \<and> utf8_valid rest' | _ \<Rightarrow> False)
      else False)"

section \<open>The entry format\<close>

text \<open>\<open>(n + 3) & !3\<close>.\<close>

definition pad4 :: "nat \<Rightarrow> nat" where "pad4 n = (n + 3) div 4 * 4"

text \<open>The fields of the entry at a position; the loops check that all sixteen bytes are in the buffer.\<close>

definition e_name_len :: "bytes \<Rightarrow> nat \<Rightarrow> nat" where "e_name_len buf pos = unat (buf ! pos)"
definition e_name_index :: "bytes \<Rightarrow> nat \<Rightarrow> u8" where "e_name_index buf pos = buf ! (pos + 1)"
definition e_value_offs :: "bytes \<Rightarrow> nat \<Rightarrow> nat" where "e_value_offs buf pos = unat (get_le16 (pos + 2) buf)"
definition e_value_inum :: "bytes \<Rightarrow> nat \<Rightarrow> u32" where "e_value_inum buf pos = get_le32 (pos + 4) buf"
definition e_value_size :: "bytes \<Rightarrow> nat \<Rightarrow> nat" where "e_value_size buf pos = unat (get_le32 (pos + 8) buf)"

definition e_value :: "string \<Rightarrow> bytes \<Rightarrow> nat \<Rightarrow> bytes result" where
  "e_value msg buf pos =
     (if e_value_inum buf pos \<noteq> 0 \<or> e_value_size buf pos = 0 then Ok []
      else if e_value_offs buf pos + e_value_size buf pos > length buf then Err (Corrupt msg)
      else Ok (slice (e_value_offs buf pos) (e_value_offs buf pos + e_value_size buf pos) buf))"

definition qualified_name :: "u8 \<Rightarrow> bytes \<Rightarrow> bytes" where
  "qualified_name idx suffix = (case prefix_for_index idx of Some p \<Rightarrow> p | None \<Rightarrow> []) @ suffix"

function parse_loop :: "string \<Rightarrow> string \<Rightarrow> bytes \<Rightarrow> nat \<Rightarrow> xattr_entry list result" where
  "parse_loop name_msg value_msg buf pos =
     (if pos + 16 > length buf \<or> get_le32 pos buf = 0 then Ok []
      else let name_len = e_name_len buf pos in
        if pos + 16 + name_len > length buf then Err (Corrupt name_msg)
        else let name_bytes = slice (pos + 16) (pos + 16 + name_len) buf in
          if \<not> utf8_valid name_bytes then Err (Corrupt ''xattr name not utf-8'')
          else and_then (e_value value_msg buf pos) (\<lambda>value.
            and_then (parse_loop name_msg value_msg buf (pos + pad4 (16 + name_len))) (\<lambda>rest.
            Ok (\<lparr>xe_name = qualified_name (e_name_index buf pos) name_bytes, xe_value = value,
                 xe_value_inum = e_value_inum buf pos, xe_value_size = get_le32 (pos + 8) buf\<rparr> # rest))))"
  by pat_completeness auto
termination
  by (relation "measure (\<lambda>(_, _, buf, pos). length buf - pos)") (auto simp: pad4_def)

declare parse_loop.simps [simp del]

definition xattr_parse_entries :: "bytes \<Rightarrow> xattr_entry list result" where
  "xattr_parse_entries entries_buf = parse_loop ''xattr entry name overruns region'' ''xattr value out of range'' entries_buf 0"

definition parse_entries_block :: "bytes \<Rightarrow> xattr_entry list result" where
  "parse_entries_block block =
     (if length block < 32 then Err (Corrupt ''xattr block too small'')
      else parse_loop ''xattr entry name overruns block'' ''xattr block value out of range'' block 32)"

definition read_in_inode :: "bytes \<Rightarrow> u16 \<Rightarrow> xattr_entry list result" where
  "read_in_inode inode_raw inode_size =
     (if length inode_raw < 128 + 4 then Ok []
      else let extra_isize = unat (get_le16 128 inode_raw); start = 128 + extra_isize in
        if extra_isize \<noteq> 0 \<and> start + 4 \<le> unat inode_size \<and> start + 4 \<le> length inode_raw
        then let region = slice start (min (unat inode_size) (length inode_raw)) inode_raw in
          if get_le32 0 region = EXT4_XATTR_MAGIC then xattr_parse_entries (drop 4 region) else Ok []
        else Ok [])"

definition xattr_read_all :: "reader \<Rightarrow> inode \<Rightarrow> bytes \<Rightarrow> u16 \<Rightarrow> u32 \<Rightarrow> xattr_entry list result" where
  "xattr_read_all rd ino inode_raw inode_size block_size =
     and_then (read_in_inode inode_raw inode_size) (\<lambda>out.
     if i_file_acl ino = 0 then Ok out
     else and_then (rd (i_file_acl ino * ucast block_size) (unat block_size)) (\<lambda>buf.
          and_then (get_slice 0 4 buf) (\<lambda>m.
          if u32_from_le m \<noteq> EXT4_XATTR_MAGIC then Err (Corrupt ''xattr block magic mismatch'')
          else and_then (parse_entries_block buf) (\<lambda>more. Ok (out @ more)))))"

definition xattr_get :: "reader \<Rightarrow> inode \<Rightarrow> bytes \<Rightarrow> u16 \<Rightarrow> u32 \<Rightarrow> bytes \<Rightarrow> bytes option result" where
  "xattr_get rd ino inode_raw inode_size block_size name =
     and_then (xattr_read_all rd ino inode_raw inode_size block_size) (\<lambda>all.
     Ok (map_option xe_value (find (\<lambda>e. xe_name e = name) all)))"

section \<open>Names\<close>

definition strip_prefix :: "bytes \<Rightarrow> bytes \<Rightarrow> bytes option" where
  "strip_prefix p name = (if take (length p) name = p then Some (drop (length p) name) else None)"

fun split_with :: "(u8 \<times> bytes) list \<Rightarrow> bytes \<Rightarrow> (u8 \<times> bytes) option" where
  "split_with [] name = None"
| "split_with ((idx, p) # ps) name = (case strip_prefix p name of Some rest \<Rightarrow> Some (idx, rest) | None \<Rightarrow> split_with ps name)"

definition split_qualified_name :: "bytes \<Rightarrow> (u8 \<times> bytes) option" where
  "split_qualified_name name = split_with NAME_PREFIXES name"

section \<open>Decoding and encoding an area\<close>

record decoded_entry =
  de_name_index :: u8
  de_name_bytes :: bytes
  de_value :: bytes
  de_value_inum :: u32

function decode_loop :: "string \<Rightarrow> string \<Rightarrow> bytes \<Rightarrow> nat \<Rightarrow> decoded_entry list result" where
  "decode_loop name_msg value_msg buf pos =
     (if pos + 16 > length buf \<or> get_le32 pos buf = 0 then Ok []
      else let name_len = e_name_len buf pos in
        if pos + 16 + name_len > length buf then Err (Corrupt name_msg)
        else and_then (e_value value_msg buf pos) (\<lambda>value.
          and_then (decode_loop name_msg value_msg buf (pos + pad4 (16 + name_len))) (\<lambda>rest.
          Ok (\<lparr>de_name_index = e_name_index buf pos, de_name_bytes = slice (pos + 16) (pos + 16 + name_len) buf,
               de_value = value, de_value_inum = e_value_inum buf pos\<rparr> # rest))))"
  by pat_completeness auto
termination
  by (relation "measure (\<lambda>(_, _, buf, pos). length buf - pos)") (auto simp: pad4_def)

declare decode_loop.simps [simp del]

definition decode_in_inode_entries :: "bytes \<Rightarrow> decoded_entry list result" where
  "decode_in_inode_entries entries_buf = decode_loop ''xattr entry name overruns region'' ''xattr value out of range'' entries_buf 0"

definition decode_external_block_entries :: "bytes \<Rightarrow> decoded_entry list result" where
  "decode_external_block_entries block =
     (if length block < 32 then Err (Corrupt ''xattr block too small'')
      else decode_loop ''xattr entry name overruns block'' ''xattr block value out of range'' block 32)"

definition refuse_if_any_ea_inode_backed :: "decoded_entry list \<Rightarrow> unit result" where
  "refuse_if_any_ea_inode_backed es =
     (if \<exists>e \<in> set es. de_value_inum e \<noteq> 0
      then Err (Unsupported ''this inode has an extended attribute whose value lives in an EA inode; rewriting the attribute area would orphan it'')
      else Ok ())"

definition rotate_left :: "nat \<Rightarrow> u32 \<Rightarrow> u32" where "rotate_left n w = word_rotl n w"

definition pad_word :: "bytes \<Rightarrow> bytes" where "pad_word piece = piece @ replicate (4 - length piece) 0"

definition entry_hash :: "bytes \<Rightarrow> bytes \<Rightarrow> u32" where
  "entry_hash name v =
     (let after_name = fold (\<lambda>byte acc. rotate_left 5 acc XOR ucast byte) name 0
      in fold (\<lambda>piece acc. rotate_left 16 acc XOR u32_from_le (pad_word piece)) (chunks 4 v) after_name)"

definition block_hash :: "u32 list \<Rightarrow> u32" where
  "block_hash hashes = (if 0 \<in> set hashes then 0 else fold (\<lambda>h acc. rotate_left 16 acc XOR h) hashes 0)"

text \<open>
  Emitting one entry: its value from the back, then its header and name from the front. A value that does not fit below the
  cursor unwinds, and so does a header or a name past the end of the buffer. \<open>hash\<close> is the entry's hash field.
\<close>

definition place_value :: "bytes \<Rightarrow> nat \<Rightarrow> bytes \<Rightarrow> (bytes \<times> nat \<times> nat) result" where
  "place_value buf vc v =
     (if v = [] then Ok (buf, vc, 0)
      else if pad4 (length v) > vc then Panic
      else let vc = vc - pad4 (length v) in and_then (put_checked vc v buf) (\<lambda>buf. Ok (buf, vc, vc)))"

definition emit_entry :: "u32 option \<Rightarrow> decoded_entry \<Rightarrow> bytes \<times> nat \<times> nat \<Rightarrow> (bytes \<times> nat \<times> nat) result" where
  "emit_entry hash e = (\<lambda>(buf, ec, vc).
     and_then (place_value buf vc (de_value e)) (\<lambda>(buf, vc, offs).
     and_then (put_checked ec ([word_of_nat (length (de_name_bytes e)), de_name_index e] @ u16_to_le (word_of_nat offs)) buf) (\<lambda>buf.
     and_then (put_checked (ec + 8) (u32_to_le (word_of_nat (length (de_value e)))) buf) (\<lambda>buf.
     and_then (case hash of None \<Rightarrow> Ok buf | Some h \<Rightarrow> put_checked (ec + 12) (u32_to_le h) buf) (\<lambda>buf.
     and_then (put_checked (ec + 16) (de_name_bytes e) buf) (\<lambda>buf.
     Ok (buf, ec + pad4 (16 + length (de_name_bytes e)), vc)))))))"

fun emit_entries :: "(decoded_entry \<Rightarrow> u32 option) \<Rightarrow> decoded_entry list \<Rightarrow> bytes \<times> nat \<times> nat \<Rightarrow> bytes result" where
  "emit_entries hash [] s = Ok (fst s)"
| "emit_entries hash (e # es) s = and_then (emit_entry (hash e) e s) (emit_entries hash es)"

definition encode_in_inode_entries :: "nat \<Rightarrow> decoded_entry list \<Rightarrow> bytes result" where
  "encode_in_inode_entries region_len es =
     (if region_len < 4 then Panic
      else let area_len = region_len - 4;
               sorted_es = sort_key (\<lambda>e. (de_name_index e, de_name_bytes e)) es
           in map_ok (\<lambda>area. u32_to_le EXT4_XATTR_MAGIC @ area)
                (emit_entries (\<lambda>_. None) sorted_es (replicate area_len 0, 0, area_len)))"

definition block_header :: "u32 \<Rightarrow> bytes" where
  "block_header refcount = u32_to_le EXT4_XATTR_MAGIC @ u32_to_le refcount @ u32_to_le 1"

definition encode_external_block :: "nat \<Rightarrow> decoded_entry list \<Rightarrow> u32 \<Rightarrow> bytes result" where
  "encode_external_block block_len es refcount =
     and_then (put_checked 0 (block_header refcount) (replicate block_len 0)) (\<lambda>block.
     let sorted_es = sort_key (\<lambda>e. (de_name_index e, length (de_name_bytes e), de_name_bytes e)) es;
         hash = (\<lambda>e. entry_hash (de_name_bytes e) (de_value e))
     in and_then (emit_entries (\<lambda>e. Some (hash e)) sorted_es (block, 0x20, block_len)) (\<lambda>block.
        put_checked 0x0C (u32_to_le (block_hash (map hash sorted_es))) block))"

section \<open>Setting and removing\<close>

datatype set_outcome = Inserted | Replaced
datatype remove_outcome = Removed | RNotFound
datatype block_remove_outcome = BRemoved | RemovedNowEmpty | BNotFound

definition matches_key :: "u8 \<Rightarrow> bytes \<Rightarrow> decoded_entry \<Rightarrow> bool" where
  "matches_key idx suffix e \<longleftrightarrow> de_name_index e = idx \<and> de_name_bytes e = suffix"

fun replace_first :: "u8 \<Rightarrow> bytes \<Rightarrow> bytes \<Rightarrow> decoded_entry list \<Rightarrow> decoded_entry list option" where
  "replace_first idx suffix v [] = None"
| "replace_first idx suffix v (e # es) =
     (if matches_key idx suffix e then Some (e\<lparr>de_value := v\<rparr> # es)
      else map_option (\<lambda>es. e # es) (replace_first idx suffix v es))"

definition set_entry :: "u8 \<Rightarrow> bytes \<Rightarrow> bytes \<Rightarrow> decoded_entry list \<Rightarrow> decoded_entry list \<times> set_outcome" where
  "set_entry idx suffix v es = (case replace_first idx suffix v es of
     Some es' \<Rightarrow> (es', Replaced)
   | None \<Rightarrow> (es @ [\<lparr>de_name_index = idx, de_name_bytes = suffix, de_value = v, de_value_inum = 0\<rparr>], Inserted))"

definition needed_entries :: "decoded_entry list \<Rightarrow> nat" where
  "needed_entries es = sum_list (map (\<lambda>e. pad4 (16 + length (de_name_bytes e))) es)"

definition needed_values :: "decoded_entry list \<Rightarrow> nat" where
  "needed_values es = sum_list (map (\<lambda>e. pad4 (length (de_value e))) (filter (\<lambda>e. de_value e \<noteq> []) es))"

definition check_set_name :: "bytes \<Rightarrow> (u8 \<times> bytes) result" where
  "check_set_name name = (case split_qualified_name name of
     None \<Rightarrow> Err (InvalidArgument ''xattr name missing known namespace prefix'')
   | Some (idx, suffix) \<Rightarrow>
       if suffix = [] \<and> idx \<noteq> 2 \<and> idx \<noteq> 3 then Err (InvalidArgument ''xattr name suffix is empty'')
       else if length suffix > 255 then Err NameTooLong
       else Ok (idx, suffix))"

definition plan_set_in_inode_region :: "bytes \<Rightarrow> bytes \<Rightarrow> bytes \<Rightarrow> (bytes \<times> set_outcome) result" where
  "plan_set_in_inode_region region name v =
     and_then (check_set_name name) (\<lambda>(idx, suffix).
     if length region < 8 then Err NoSpaceLeftOnDevice
     else and_then (if get_le32 0 region = EXT4_XATTR_MAGIC then decode_in_inode_entries (drop 4 region) else Ok []) (\<lambda>es.
          and_then (refuse_if_any_ea_inode_backed es) (\<lambda>_.
          let (es, outc) = set_entry idx suffix v es in
          if needed_entries es + 4 + needed_values es > length region - 4 then Err NoSpaceLeftOnDevice
          else map_ok (\<lambda>r. (r, outc)) (encode_in_inode_entries (length region) es))))"

definition plan_remove_in_inode_region :: "bytes \<Rightarrow> bytes \<Rightarrow> (bytes \<times> remove_outcome) result" where
  "plan_remove_in_inode_region region name = (case split_qualified_name name of
     None \<Rightarrow> Err (InvalidArgument ''xattr name missing known namespace prefix'')
   | Some (idx, suffix) \<Rightarrow>
       if length region < 4 then Ok (region, RNotFound)
       else if get_le32 0 region \<noteq> EXT4_XATTR_MAGIC then Ok (region, RNotFound)
       else and_then (decode_in_inode_entries (drop 4 region)) (\<lambda>es.
            and_then (refuse_if_any_ea_inode_backed es) (\<lambda>_.
            let kept = filter (\<lambda>e. \<not> matches_key idx suffix e) es in
            if length kept = length es then Ok (region, RNotFound)
            else map_ok (\<lambda>r. (r, Removed)) (encode_in_inode_entries (length region) kept))))"

definition plan_set_in_external_block :: "bytes \<Rightarrow> bytes \<Rightarrow> bytes \<Rightarrow> u32 \<Rightarrow> (bytes \<times> set_outcome) result" where
  "plan_set_in_external_block block name v refcount =
     and_then (check_set_name name) (\<lambda>(idx, suffix).
     if length block < 0x40 then Err NoSpaceLeftOnDevice
     else and_then (if get_le32 0 block = EXT4_XATTR_MAGIC then decode_external_block_entries block else Ok []) (\<lambda>es.
          and_then (refuse_if_any_ea_inode_backed es) (\<lambda>_.
          let (es, outc) = set_entry idx suffix v es in
          if needed_entries es + 4 + needed_values es > length block - 0x20 then Err NoSpaceLeftOnDevice
          else map_ok (\<lambda>b. (b, outc)) (encode_external_block (length block) es refcount))))"

definition plan_remove_from_external_block :: "bytes \<Rightarrow> bytes \<Rightarrow> u32 \<Rightarrow> (bytes \<times> block_remove_outcome) result" where
  "plan_remove_from_external_block block name refcount = (case split_qualified_name name of
     None \<Rightarrow> Err (InvalidArgument ''xattr name missing known namespace prefix'')
   | Some (idx, suffix) \<Rightarrow>
       if length block < 0x20 then Ok (block, BNotFound)
       else if get_le32 0 block \<noteq> EXT4_XATTR_MAGIC then Ok (block, BNotFound)
       else and_then (decode_external_block_entries block) (\<lambda>es.
            and_then (refuse_if_any_ea_inode_backed es) (\<lambda>_.
            let kept = filter (\<lambda>e. \<not> matches_key idx suffix e) es in
            if length kept = length es then Ok (block, BNotFound)
            else if kept = [] then Ok (block, RemovedNowEmpty)
            else map_ok (\<lambda>b. (b, BRemoved)) (encode_external_block (length block) kept refcount))))"

definition check_external_block :: "crc_fn \<Rightarrow> checksummer \<Rightarrow> u64 \<Rightarrow> bytes \<Rightarrow> unit result" where
  "check_external_block crc cs block_nr block =
     (if length block < 0x20 \<or> get_le32 0 block \<noteq> EXT4_XATTR_MAGIC
      then Err (Corrupt ''i_file_acl names a block without the xattr magic'')
      else if get_le32 8 block \<noteq> 1 then Err (Corrupt ''xattr block h_blocks is not 1'')
      else if \<not> verify_xattr_block crc cs block_nr block then Err (BadChecksum ''xattr block'')
      else Ok ())"

section \<open>An encoded area decodes to its entries\<close>

definition entry_ok :: "decoded_entry \<Rightarrow> bool" where
  "entry_ok e \<longleftrightarrow> length (de_name_bytes e) \<le> 255 \<and> de_value_inum e = 0 \<and>
     \<not> (de_name_index e = 0 \<and> de_name_bytes e = [] \<and> de_value e = [])"

lemma pad4_ge: "n \<le> pad4 n" "pad4 n \<le> n + 3"
  unfolding pad4_def by presburger+

lemma slice_zeros: "j \<le> n \<Longrightarrow> slice i j (replicate n x) = replicate (j - i) x"
  by (simp add: slice_def min_def)

text \<open>Two buffers that agree on a range agree on every part of it.\<close>

lemma slice_sub:
  assumes "a \<le> i" "j \<le> b"
  shows "slice i j xs = slice (i - a) (j - a) (slice a b xs)"
proof (cases "a \<le> j")
  case True
  then show ?thesis using assms slice_slice [of "j - a" b a "i - a" xs] by simp
next
  case False
  then show ?thesis using assms by (simp add: slice_def)
qed

lemma slice_part: "slice a b xs = slice a b ys \<Longrightarrow> a \<le> i \<Longrightarrow> j \<le> b \<Longrightarrow> slice i j xs = slice i j ys"
  by (metis slice_sub)

lemma zeros_part: "slice a b xs = replicate (b - a) 0 \<Longrightarrow> a \<le> i \<Longrightarrow> j \<le> b \<Longrightarrow> slice i j xs = replicate (j - i) 0"
  using slice_sub [of a i j b xs] by (simp add: slice_zeros)

definition head4 :: "decoded_entry \<Rightarrow> nat \<Rightarrow> bytes" where
  "head4 e offs = [word_of_nat (length (de_name_bytes e)), de_name_index e] @ u16_to_le (word_of_nat offs)"

lemma length_head4 [simp]: "length (head4 e offs) = 4"
  by (simp add: head4_def)

text \<open>One entry: where its parts are, and that nothing else changed.\<close>

definition value_end :: "decoded_entry \<Rightarrow> nat \<Rightarrow> nat" where
  "value_end e vc = (if de_value e = [] then vc else vc - pad4 (length (de_value e)))"

definition offs_of :: "decoded_entry \<Rightarrow> nat \<Rightarrow> nat" where
  "offs_of e vc = (if de_value e = [] then 0 else value_end e vc)"

lemma emit_entry_Ok:
  assumes "slice ec vc buf = replicate (vc - ec) 0" "vc \<le> length buf"
    "ec + pad4 (16 + length (de_name_bytes e)) + (if de_value e = [] then 0 else pad4 (length (de_value e))) \<le> vc"
  defines "ec' \<equiv> ec + pad4 (16 + length (de_name_bytes e))" and "vc' \<equiv> value_end e vc"
  obtains buf' where "emit_entry h e (buf, ec, vc) = Ok (buf', ec', vc')" "length buf' = length buf"
    "slice 0 ec buf' = slice 0 ec buf" "slice vc (length buf) buf' = slice vc (length buf) buf"
    "slice ec' vc' buf' = replicate (vc' - ec') 0" "slice ec (ec + 4) buf' = head4 e (offs_of e vc)" "slice (ec + 4) (ec + 8) buf' = [0, 0, 0, 0]"
    "slice (ec + 8) (ec + 12) buf' = u32_to_le (word_of_nat (length (de_value e)))"
    "slice (ec + 16) (ec + 16 + length (de_name_bytes e)) buf' = de_name_bytes e"
    "de_value e \<noteq> [] \<longrightarrow> slice vc' (vc' + length (de_value e)) buf' = de_value e"
proof -
  let ?n = "de_name_bytes e" and ?v = "de_value e"
  define b1 where "b1 = (if ?v = [] then buf else put vc' ?v buf)"
  define b2 where "b2 = put ec (head4 e (offs_of e vc)) b1"
  define b3 where "b3 = put (ec + 8) (u32_to_le (word_of_nat (length ?v))) b2"
  define b4 where "b4 = (case h of None \<Rightarrow> b3 | Some h \<Rightarrow> put (ec + 12) (u32_to_le h) b3)"
  define b5 where "b5 = put (ec + 16) ?n b4"
  have e1: "ec + 16 + length ?n \<le> ec'" using pad4_ge(1) [of "16 + length ?n"] by (simp add: ec'_def)
  have v1: "ec' \<le> vc'" "?v \<noteq> [] \<Longrightarrow> vc' + length ?v \<le> vc" "vc' \<le> vc"
    using assms(3) pad4_ge(1) [of "length ?v"] by (auto simp: ec'_def vc'_def value_end_def)
  have l1: "length b1 = length buf" using v1 assms(2) by (cases "?v = []") (simp_all add: b1_def)
  have l2: "length b2 = length buf" using l1 v1 e1 assms(2) by (simp add: b2_def)
  have l3: "length b3 = length buf" using l2 v1 e1 assms(2) by (simp add: b3_def)
  have l4: "length b4 = length buf" using l3 v1 e1 assms(2) by (simp add: b4_def split: option.split)
  have l5: "length b5 = length buf" using l4 v1 e1 assms(2) by (simp add: b5_def)
  have p1: "place_value buf vc ?v = Ok (b1, vc', offs_of e vc)"
    using v1 assms(2,3) by (cases "?v = []") (simp_all add: place_value_def Let_def put_checked_def b1_def vc'_def value_end_def offs_of_def)
  have p2: "put_checked ec (head4 e (offs_of e vc)) b1 = Ok b2" using l1 v1 e1 assms(2) by (simp add: put_checked_def b2_def)
  have p3: "put_checked (ec + 8) (u32_to_le (word_of_nat (length ?v))) b2 = Ok b3" using l2 v1 e1 assms(2) by (simp add: put_checked_def b3_def)
  have p4: "(case h of None \<Rightarrow> Ok b3 | Some h \<Rightarrow> put_checked (ec + 12) (u32_to_le h) b3) = Ok b4"
    using l3 v1 e1 assms(2) by (simp add: put_checked_def b4_def split: option.split)
  have p5: "put_checked (ec + 16) ?n b4 = Ok b5" using l4 v1 e1 assms(2) by (simp add: put_checked_def b5_def)
  have emit: "emit_entry h e (buf, ec, vc) = Ok (b5, ec', vc')"
    unfolding emit_entry_def prod.case p1 and_then.simps head4_def [symmetric] p2 p3 p4 p5 ec'_def ..
  have s5: "j \<le> ec + 16 \<or> ec' \<le> i \<Longrightarrow> slice i j b5 = slice i j b4" for i j unfolding b5_def using l4 e1 v1 assms(2) by (auto simp: slice_simps)
  have s4: "j \<le> ec + 12 \<or> ec' \<le> i \<Longrightarrow> slice i j b4 = slice i j b3" for i j unfolding b4_def using l3 e1 v1 assms(2) by (auto simp: slice_simps split: option.split)
  have s3: "j \<le> ec + 8 \<or> ec' \<le> i \<Longrightarrow> slice i j b3 = slice i j b2" for i j unfolding b3_def using l2 e1 v1 assms(2) by (auto simp: slice_simps)
  have s2: "j \<le> ec \<or> ec + 4 \<le> i \<Longrightarrow> slice i j b2 = slice i j b1" for i j unfolding b2_def using l1 e1 v1 assms(2) by (auto simp: slice_simps)
  have s1: "j \<le> vc' \<or> vc \<le> i \<Longrightarrow> slice i j b1 = slice i j buf" for i j unfolding b1_def using v1 assms(2) by (auto simp: slice_simps)
  show ?thesis
  proof (rule that [OF emit l5])
    show "slice 0 ec b5 = slice 0 ec buf" using v1 e1 by (simp add: s5 s4 s3 s2 s1)
    show "slice vc (length buf) b5 = slice vc (length buf) buf" using v1 e1 by (simp add: s5 s4 s3 s2 s1)
    have "slice ec' vc' b5 = slice ec' vc' buf" using v1 e1 by (simp add: s5 s4 s3 s2 s1)
    then show "slice ec' vc' b5 = replicate (vc' - ec') 0" using zeros_part [OF assms(1), of ec' vc'] v1 e1 by simp
    have "slice ec (ec + 4) b5 = slice ec (ec + 4) b2" using v1 e1 by (simp add: s5 s4 s3)
    then show "slice ec (ec + 4) b5 = head4 e (offs_of e vc)" unfolding b2_def using l1 v1 e1 assms(2) by (simp add: slice_simps)
    have "slice (ec + 4) (ec + 8) b5 = slice (ec + 4) (ec + 8) buf" using v1 e1 by (simp add: s5 s4 s3 s2 s1)
    then show "slice (ec + 4) (ec + 8) b5 = [0, 0, 0, 0]" using zeros_part [OF assms(1), of "ec + 4" "ec + 8"] v1 e1 by (simp add: numeral_eq_Suc)
    have "slice (ec + 8) (ec + 12) b5 = slice (ec + 8) (ec + 12) b3" using v1 e1 by (simp add: s5 s4)
    then show "slice (ec + 8) (ec + 12) b5 = u32_to_le (word_of_nat (length ?v))" unfolding b3_def using l2 v1 e1 assms(2) by (simp add: slice_simps)
    show "slice (ec + 16) (ec + 16 + length ?n) b5 = ?n" unfolding b5_def using l4 v1 e1 assms(2) by (simp add: slice_simps)
    show "?v \<noteq> [] \<longrightarrow> slice vc' (vc' + length ?v) b5 = ?v"
    proof
      assume that: "?v \<noteq> []"
      have "slice vc' (vc' + length ?v) b5 = slice vc' (vc' + length ?v) b1" using v1 e1 by (simp add: s5 s4 s3 s2)
      then show "slice vc' (vc' + length ?v) b5 = ?v" using that v1 assms(2) by (simp add: b1_def slice_simps)
    qed
  qed
qed

lemma head4_nonzero:
  assumes "entry_ok e" "de_value e \<noteq> [] \<Longrightarrow> 0 < offs \<and> offs < 65536"
  shows "head4 e offs \<noteq> [0, 0, 0, 0]"
proof
  assume h: "head4 e offs = [0, 0, 0, 0]"
  then have l: "(word_of_nat (length (de_name_bytes e)) :: u8) = 0" and i: "de_name_index e = 0" and o: "u16_to_le (word_of_nat offs) = [0, 0]"
    by (simp_all add: head4_def)
  have "length (de_name_bytes e) < 256" using assms(1) by (simp add: entry_ok_def)
  then have n: "de_name_bytes e = []" using arg_cong [OF l, of unat] by (simp add: unat_of_nat)
  have "u16_to_le 0 = [0, 0]" by code_simp
  then have "(word_of_nat offs :: u16) = 0" using o le16.enc_inject by metis
  then have "offs mod 65536 = 0" using unat_of_nat [of offs, where ?'a = 16] by simp
  then have "de_value e = []" using assms(2) mod_less [of offs 65536] by fastforce
  then show False using assms(1) i n by (simp add: entry_ok_def)
qed

lemma decode_entry:
  assumes "entry_ok e" "length buf \<le> 65536" "ec + 16 + length (de_name_bytes e) \<le> length buf" "slice ec (ec + 4) buf = head4 e offs"
    "slice (ec + 4) (ec + 8) buf = [0, 0, 0, 0]" "slice (ec + 8) (ec + 12) buf = u32_to_le (word_of_nat (length (de_value e)))"
    "slice (ec + 16) (ec + 16 + length (de_name_bytes e)) buf = de_name_bytes e"
    "de_value e \<noteq> [] \<Longrightarrow> 0 < offs \<and> offs + length (de_value e) \<le> length buf \<and> slice offs (offs + length (de_value e)) buf = de_value e"
  shows "decode_loop m1 m2 buf ec = and_then (decode_loop m1 m2 buf (ec + pad4 (16 + length (de_name_bytes e)))) (\<lambda>rest. Ok (e # rest))"
proof -
  have offs: "de_value e \<noteq> [] \<Longrightarrow> 0 < offs \<and> offs < 65536" using assms(2,8) by (cases "de_value e") auto
  have "u32_from_le (head4 e offs) \<noteq> u32_from_le [0, 0, 0, 0]"
    using le32.dec_inject [of "head4 e offs" "[0, 0, 0, 0]"] head4_nonzero [OF assms(1) offs] by simp
  moreover have z: "u32_from_le [0, 0, 0, 0] = 0" by (simp add: u32_from_le_def)
  ultimately have nz: "get_le32 ec buf \<noteq> 0" using assms(4) by (simp add: get_le32_def)
  have nth: "buf ! (ec + k) = head4 e offs ! k" if "k < 4" for k using nth_slice [of k "ec + 4" ec buf] that assms(3,4) by simp
  have nl: "e_name_len buf ec = length (de_name_bytes e)"
    using nth [of 0] assms(1) by (simp add: e_name_len_def head4_def unat_of_nat entry_ok_def)
  have ni: "e_name_index buf ec = de_name_index e" using nth [of 1] by (simp add: e_name_index_def head4_def)
  have "slice (ec + 2) (ec + 4) buf = slice 2 4 (head4 e offs)" using slice_slice [of 4 "ec + 4" ec 2 buf] assms(4) by simp
  also have "slice 2 4 (head4 e offs) = u16_to_le (word_of_nat offs)" by (simp add: head4_def slice_def)
  finally have "slice (ec + 2) (ec + 2 + 2) buf = u16_to_le (word_of_nat offs)" by (simp only: add.assoc numeral_plus_numeral semiring_norm)
  then have vo: "e_value_offs buf ec = unat (word_of_nat offs :: u16)" by (simp only: e_value_offs_def get_le16_def le16.dec_enc)
  have vi: "e_value_inum buf ec = 0" using assms(5) z by (simp add: e_value_inum_def get_le32_def add.assoc)
  have "de_value e \<noteq> [] \<Longrightarrow> length (de_value e) \<le> 65536" using assms(2,8) by fastforce
  then have "length (de_value e) < 2 ^ 32" by (cases "de_value e = []") auto
  then have vs: "e_value_size buf ec = length (de_value e)" using assms(6) by (simp add: e_value_size_def get_le32_def add.assoc unat_of_nat)
  have val: "e_value m2 buf ec = Ok (de_value e)"
    using assms(8) offs by (cases "de_value e = []") (simp_all add: e_value_def vi vs vo unat_of_nat)
  have e: "\<lparr>de_name_index = de_name_index e, de_name_bytes = de_name_bytes e, de_value = de_value e, de_value_inum = 0\<rparr> = e"
    using assms(1) by (intro decoded_entry.equality) (simp_all add: entry_ok_def)
  show ?thesis
    using nz assms(3,7) by (simp add: decode_loop.simps [of m1 m2 buf ec] nl ni vi val e)
qed

lemma decode_end:
  assumes "ec + 4 \<le> vc" "slice ec vc buf = replicate (vc - ec) 0"
  shows "decode_loop m1 m2 buf ec = Ok []"
proof -
  have "slice ec (ec + 4) buf = replicate 4 0" using zeros_part [OF assms(2), of ec "ec + 4"] assms(1) by simp
  then have "get_le32 ec buf = 0" by (simp add: get_le32_def u32_from_le_def numeral_eq_Suc)
  then show ?thesis by (simp add: decode_loop.simps)
qed

lemma needed_simps [simp]:
  "needed_entries [] = 0" "needed_entries (e # es) = pad4 (16 + length (de_name_bytes e)) + needed_entries es"
  "needed_values [] = 0" "needed_values (e # es) = (if de_value e = [] then 0 else pad4 (length (de_value e))) + needed_values es"
  by (simp_all add: needed_entries_def needed_values_def)

text \<open>
  The decoder reads nothing below its first position, so the result also holds of a buffer that differs there.
\<close>

lemma needed_sort:
  "sum_list (map g (sort_key f es)) = sum_list (map g es)" "sum_list (map g (filter P (sort_key f es))) = sum_list (map g (filter P es))"
  for g :: "decoded_entry \<Rightarrow> nat"
proof -
  have "mset (sort_key f es) = mset es" by simp
  then show "sum_list (map g (sort_key f es)) = sum_list (map g es)" "sum_list (map g (filter P (sort_key f es))) = sum_list (map g (filter P es))"
    by (metis mset_map sum_mset_sum_list, metis mset_filter mset_map sum_mset_sum_list)
qed

lemma emit_entries_decode:
  assumes "\<forall>e \<in> set es. entry_ok e" "length buf \<le> 65536" "vc \<le> length buf" "slice ec vc buf = replicate (vc - ec) 0"
    "ec + needed_entries es + 4 + needed_values es \<le> vc"
  shows "\<exists>b. emit_entries hash es (buf, ec, vc) = Ok b \<and> length b = length buf \<and> slice 0 ec b = slice 0 ec buf \<and>
    slice vc (length buf) b = slice vc (length buf) buf \<and>
    (\<forall>c. length c = length buf \<longrightarrow> slice ec (length buf) c = slice ec (length buf) b \<longrightarrow> decode_loop m1 m2 c ec = Ok es)"
  using assms
proof (induction es arbitrary: buf ec vc)
  case Nil
  have "decode_loop m1 m2 c ec = Ok []" if "slice ec (length buf) c = slice ec (length buf) buf" for c
    by (rule decode_end [of ec vc]) (use slice_part [OF that, of ec vc] Nil in auto)
  then show ?case by simp
next
  case (Cons e es)
  let ?ec = "ec + pad4 (16 + length (de_name_bytes e))" and ?vc = "value_end e vc"
  have fits: "ec + pad4 (16 + length (de_name_bytes e)) + (if de_value e = [] then 0 else pad4 (length (de_value e))) \<le> vc" using Cons.prems(5) by simp
  obtain b1 where b1: "emit_entry (hash e) e (buf, ec, vc) = Ok (b1, ?ec, ?vc)" "length b1 = length buf"
    "slice 0 ec b1 = slice 0 ec buf" "slice vc (length buf) b1 = slice vc (length buf) buf"
    "slice ?ec ?vc b1 = replicate (?vc - ?ec) 0" "slice ec (ec + 4) b1 = head4 e (offs_of e vc)" "slice (ec + 4) (ec + 8) b1 = [0, 0, 0, 0]"
    "slice (ec + 8) (ec + 12) b1 = u32_to_le (word_of_nat (length (de_value e)))"
    "slice (ec + 16) (ec + 16 + length (de_name_bytes e)) b1 = de_name_bytes e"
    "de_value e \<noteq> [] \<longrightarrow> slice ?vc (?vc + length (de_value e)) b1 = de_value e"
    by (rule emit_entry_Ok [OF Cons.prems(4,3) fits])
  have cur: "?ec + needed_entries es + 4 + needed_values es \<le> ?vc" "?vc \<le> vc" "de_value e \<noteq> [] \<Longrightarrow> ?vc + length (de_value e) \<le> vc"
    using Cons.prems(5) pad4_ge(1) [of "length (de_value e)"] by (auto simp: value_end_def split: if_splits)
  have "\<exists>b. emit_entries hash es (b1, ?ec, ?vc) = Ok b \<and> length b = length b1 \<and> slice 0 ?ec b = slice 0 ?ec b1 \<and>
    slice ?vc (length b1) b = slice ?vc (length b1) b1 \<and>
    (\<forall>c. length c = length b1 \<longrightarrow> slice ?ec (length b1) c = slice ?ec (length b1) b \<longrightarrow> decode_loop m1 m2 c ?ec = Ok es)"
    by (rule Cons.IH) (use Cons.prems b1(2,5) cur in auto)
  then obtain b where b: "emit_entries hash es (b1, ?ec, ?vc) = Ok b" "length b = length buf" "slice 0 ?ec b = slice 0 ?ec b1"
    "slice ?vc (length buf) b = slice ?vc (length buf) b1"
    "\<And>c. length c = length buf \<Longrightarrow> slice ?ec (length buf) c = slice ?ec (length buf) b \<Longrightarrow> decode_loop m1 m2 c ?ec = Ok es"
    unfolding b1(2) by blast
  have le: "ec + 16 + length (de_name_bytes e) \<le> ?ec" "?ec \<le> ?vc" "?vc \<le> length buf"
    using pad4_ge(1) [of "16 + length (de_name_bytes e)"] cur Cons.prems(3) by simp_all
  have low: "slice i j b = slice i j b1" if "j \<le> ?ec" for i j using slice_part [OF b(3), of i j] that by simp
  have high: "slice i j b = slice i j b1" if "?vc \<le> i" "j \<le> length buf" for i j by (rule slice_part [OF b(4) that])
  have dec: "decode_loop m1 m2 c ec = Ok (e # es)" if c: "length c = length buf" "slice ec (length buf) c = slice ec (length buf) b" for c
  proof -
    have sub: "slice i j c = slice i j b" if "ec \<le> i" "j \<le> length buf" for i j by (rule slice_part [OF c(2) that])
    have sl: "slice i j c = slice i j b1" if "ec \<le> i" "j \<le> ?ec" for i j using sub [of i j] low [of j i] that le by simp
    have "decode_loop m1 m2 c ec = and_then (decode_loop m1 m2 c ?ec) (\<lambda>rest. Ok (e # rest))"
    proof (rule decode_entry)
      show "entry_ok e" "length c \<le> 65536" using Cons.prems c(1) by simp_all
      show "ec + 16 + length (de_name_bytes e) \<le> length c" using le c(1) by linarith
      show "slice ec (ec + 4) c = head4 e (offs_of e vc)" using b1(6) sl le by simp
      show "slice (ec + 4) (ec + 8) c = [0, 0, 0, 0]" using b1(7) sl le by simp
      show "slice (ec + 8) (ec + 12) c = u32_to_le (word_of_nat (length (de_value e)))" using b1(8) sl le by simp
      show "slice (ec + 16) (ec + 16 + length (de_name_bytes e)) c = de_name_bytes e" using b1(9) sl [OF _ le(1), of "ec + 16"] by simp
      assume v: "de_value e \<noteq> []"
      have "slice ?vc (?vc + length (de_value e)) c = slice ?vc (?vc + length (de_value e)) b1"
        using sub [of ?vc "?vc + length (de_value e)"] high [of ?vc "?vc + length (de_value e)"] v cur(3) Cons.prems(3) le by simp
      then show "0 < offs_of e vc \<and> offs_of e vc + length (de_value e) \<le> length c \<and> slice (offs_of e vc) (offs_of e vc + length (de_value e)) c = de_value e"
        using v cur le Cons.prems(3) c(1) b1(10) by (simp add: offs_of_def)
    qed
    moreover have "decode_loop m1 m2 c ?ec = Ok es" by (rule b(5) [OF c(1)]) (use sub [of ?ec "length buf"] in simp)
    ultimately show ?thesis by simp
  qed
  have "slice 0 ec b = slice 0 ec buf" using low [of ec 0] b1(3) by simp
  moreover have "slice vc (length buf) b = slice vc (length buf) buf" using high [OF cur(2), of "length buf"] b1(4) by simp
  moreover have "emit_entries hash (e # es) (buf, ec, vc) = Ok b" using b1(1) b(1) by simp
  ultimately show ?case using b(2) dec by blast
qed

section \<open>An area as a map\<close>

text \<open>The attributes an area holds: the value of the first entry with a given namespace and name.\<close>

definition key :: "decoded_entry \<Rightarrow> u8 \<times> bytes" where "key e = (de_name_index e, de_name_bytes e)"

definition attrs :: "decoded_entry list \<Rightarrow> u8 \<times> bytes \<Rightarrow> bytes option" where
  "attrs es = map_of (map (\<lambda>e. (key e, de_value e)) es)"

lemma attrs_find: "attrs es k = map_option de_value (find (\<lambda>e. key e = k) es)"
  by (induction es) (auto simp: attrs_def)

lemma matches_key_key: "matches_key idx suffix e \<longleftrightarrow> key e = (idx, suffix)"
  by (auto simp: matches_key_def key_def)

lemma find_filter: "find P xs = (case filter P xs of [] \<Rightarrow> None | x # _ \<Rightarrow> Some x)"
  by (induction xs) auto

lemma attrs_sort:
  assumes "\<And>e e'. f e = f e' \<longleftrightarrow> key e = key e'"
  shows "attrs (sort_key f es) = attrs es"
proof
  fix k
  have "filter (\<lambda>e. key e = k) (sort_key f es) = filter (\<lambda>e. key e = k) es"
  proof (cases "\<exists>e. key e = k")
    case True
    then obtain e0 where "key e0 = k" by blast
    then have "(\<lambda>e. key e = k) = (\<lambda>e. f e = f e0)" using assms by auto
    then show ?thesis using sort_key_stable [of f "f e0" es] by simp
  qed simp
  then show "attrs (sort_key f es) k = attrs es k" by (simp add: attrs_find find_filter)
qed

lemma replace_first_attrs:
  "replace_first idx suffix v es = Some es' \<Longrightarrow> attrs es' = (attrs es)((idx, suffix) \<mapsto> v) \<and> (idx, suffix) \<in> dom (attrs es)"
proof (induction es arbitrary: es')
  case (Cons e es)
  show ?case
  proof (cases "key e = (idx, suffix)")
    case True
    then have "es' = e\<lparr>de_value := v\<rparr> # es" using Cons.prems by (simp add: matches_key_key)
    then show ?thesis using True by (auto simp: attrs_def key_def)
  next
    case False
    then obtain es1 where "replace_first idx suffix v es = Some es1" "es' = e # es1" using Cons.prems by (auto simp: matches_key_key)
    then show ?thesis using Cons.IH [of es1] False by (auto simp: attrs_def fun_upd_twist)
  qed
qed simp

lemma replace_first_None: "replace_first idx suffix v es = None \<longleftrightarrow> (idx, suffix) \<notin> dom (attrs es)"
  by (induction es) (auto simp: attrs_def matches_key_key)

lemma attrs_append: "attrs (es @ [e]) = (if key e \<in> dom (attrs es) then attrs es else (attrs es)(key e \<mapsto> de_value e))"
  by (auto simp: attrs_def map_add_def fun_eq_iff split: option.splits)

lemma set_entry_attrs:
  "attrs (fst (set_entry idx suffix v es)) = (attrs es)((idx, suffix) \<mapsto> v)"
  "snd (set_entry idx suffix v es) = (if (idx, suffix) \<in> dom (attrs es) then Replaced else Inserted)"
  using replace_first_attrs [of idx suffix v es] replace_first_None [of idx suffix v es]
  by (auto simp: set_entry_def attrs_append key_def split: option.split)

lemma replace_first_ok: "replace_first idx suffix v es = Some es' \<Longrightarrow> \<forall>e \<in> set es. entry_ok e \<Longrightarrow> idx \<noteq> 0 \<Longrightarrow> \<forall>e \<in> set es'. entry_ok e"
  by (induction es arbitrary: es') (auto simp: entry_ok_def matches_key_def split: if_splits)

lemma set_entry_ok:
  assumes "\<forall>e \<in> set es. entry_ok e" "idx \<noteq> 0" "length suffix \<le> 255"
  shows "\<forall>e \<in> set (fst (set_entry idx suffix v es)). entry_ok e"
  using assms replace_first_ok [OF _ assms(1,2)] by (auto simp: set_entry_def entry_ok_def split: option.split)

lemma attrs_remove: "attrs (filter (\<lambda>e. \<not> matches_key idx suffix e) es) = (attrs es)((idx, suffix) := None)"
  by (induction es) (auto simp: attrs_def matches_key_key)

lemma remove_length: "length (filter (\<lambda>e. \<not> matches_key idx suffix e) es) = length es \<longleftrightarrow> (idx, suffix) \<notin> dom (attrs es)"
proof (induction es)
  case (Cons e es)
  have "length (filter (\<lambda>e. \<not> matches_key idx suffix e) es) \<le> length es" by (rule length_filter_le)
  then show ?case using Cons by (auto simp: attrs_def matches_key_key simp del: length_filter_le)
qed (simp add: attrs_def)

lemma prefix_index_nonzero: "split_qualified_name name = Some (idx, suffix) \<Longrightarrow> idx \<noteq> 0"
  by (auto simp: split_qualified_name_def NAME_PREFIXES_def split: option.splits)

text \<open>
  What the planners rely on of an area: encoding a list that fits gives an area of the same length that decodes to the same
  attributes. Setting and removing follow for any such area.
\<close>

definition fits :: "nat \<Rightarrow> decoded_entry list \<Rightarrow> bool" where
  "fits capacity es \<longleftrightarrow> needed_entries es + 4 + needed_values es \<le> capacity"

locale xattr_area =
  fixes area_entries :: "bytes \<Rightarrow> decoded_entry list result"
    and encode :: "nat \<Rightarrow> decoded_entry list \<Rightarrow> bytes result"
    and capacity :: "nat \<Rightarrow> nat"
  assumes encode_Ok: "\<forall>e \<in> set es. entry_ok e \<Longrightarrow> n \<le> 65536 \<Longrightarrow> fits (capacity n) es \<Longrightarrow>
    \<exists>b es'. encode n es = Ok b \<and> length b = n \<and> area_entries b = Ok es' \<and> mset es' = mset es \<and> attrs es' = attrs es"
begin

lemma set_stored:
  assumes "\<forall>e \<in> set es. entry_ok e" "n \<le> 65536" "split_qualified_name name = Some (idx, suffix)" "length suffix \<le> 255"
    "fits (capacity n) (fst (set_entry idx suffix v es))"
  shows "\<exists>b es'. encode n (fst (set_entry idx suffix v es)) = Ok b \<and> length b = n \<and> area_entries b = Ok es' \<and>
    mset es' = mset (fst (set_entry idx suffix v es)) \<and> attrs es' = (attrs es)((idx, suffix) \<mapsto> v)"
  using encode_Ok [OF set_entry_ok [OF assms(1) prefix_index_nonzero [OF assms(3)] assms(4)] assms(2,5)] by (simp add: set_entry_attrs)

lemma remove_stored:
  assumes "\<forall>e \<in> set es. entry_ok e" "n \<le> 65536" "fits (capacity n) es"
  shows "\<exists>b es'. encode n (filter (\<lambda>e. \<not> matches_key idx suffix e) es) = Ok b \<and> length b = n \<and> area_entries b = Ok es' \<and>
    attrs es' = (attrs es)((idx, suffix) := None)"
proof -
  have "needed_entries (filter P es) \<le> needed_entries es" "needed_values (filter P es) \<le> needed_values es" for P
    by (induction es) auto
  then have "fits (capacity n) (filter P es)" for P using assms(3) unfolding fits_def by (meson add_le_mono le_trans order_refl)
  then show ?thesis using encode_Ok [of "filter (\<lambda>e. \<not> matches_key idx suffix e) es" n] assms(1,2) by (auto simp: attrs_remove)
qed

end

text \<open>The two areas the format has.\<close>

definition region_entries :: "bytes \<Rightarrow> decoded_entry list result" where
  "region_entries region = (if get_le32 0 region = EXT4_XATTR_MAGIC then decode_in_inode_entries (drop 4 region) else Ok [])"

definition block_entries :: "bytes \<Rightarrow> decoded_entry list result" where
  "block_entries block = (if get_le32 0 block = EXT4_XATTR_MAGIC then decode_external_block_entries block else Ok [])"

lemma sorted_entries:
  assumes "\<forall>e \<in> set es. entry_ok e" "fits c es"
  shows "\<forall>e \<in> set (sort_key f es). entry_ok e" "needed_entries (sort_key f es) + 4 + needed_values (sort_key f es) \<le> c"
  using assms by (simp_all add: needed_entries_def needed_values_def needed_sort fits_def)

interpretation in_inode: xattr_area region_entries encode_in_inode_entries "\<lambda>n. n - 4"
proof
  fix es :: "decoded_entry list" and n
  assume ok: "\<forall>e \<in> set es. entry_ok e" and n': "n \<le> 65536" and f: "fits (n - 4) es"
  then have n: "n \<le> 65536" "4 \<le> n" by (simp_all add: fits_def)
  define ses where "ses = sort_key (\<lambda>e. (de_name_index e, de_name_bytes e)) es"
  note so = sorted_entries [OF ok f, of "\<lambda>e. (de_name_index e, de_name_bytes e)", folded ses_def]
  let ?z = "replicate (n - 4) 0 :: bytes"
  have pre: "length ?z \<le> 65536" "n - 4 \<le> length ?z" "slice 0 (n - 4) ?z = replicate (n - 4 - 0) 0" "0 + needed_entries ses + 4 + needed_values ses \<le> n - 4"
    using n so(2) by (simp_all add: slice_zeros)
  obtain b where b: "emit_entries (\<lambda>_. None) ses (?z, 0, n - 4) = Ok b" "length b = n - 4"
    "\<forall>c. length c = n - 4 \<longrightarrow> slice 0 (n - 4) c = slice 0 (n - 4) b \<longrightarrow> decode_loop ''xattr entry name overruns region'' ''xattr value out of range'' c 0 = Ok ses"
    using emit_entries_decode [OF so(1) pre] unfolding length_replicate by blast
  then have d: "decode_in_inode_entries b = Ok ses" by (simp add: decode_in_inode_entries_def)
  have "encode_in_inode_entries n es = Ok (u32_to_le EXT4_XATTR_MAGIC @ b)" using b(1) n by (simp add: encode_in_inode_entries_def ses_def)
  moreover have "region_entries (u32_to_le EXT4_XATTR_MAGIC @ b) = Ok ses"
    using d by (simp add: region_entries_def get_le32_def slice_def)
  moreover have "attrs ses = attrs es" unfolding ses_def by (rule attrs_sort) (auto simp: key_def)
  ultimately show "\<exists>b es'. encode_in_inode_entries n es = Ok b \<and> length b = n \<and> region_entries b = Ok es' \<and> mset es' = mset es \<and> attrs es' = attrs es"
    using b(2) n by (auto simp: ses_def)
qed

interpretation external: xattr_area block_entries "\<lambda>n es. encode_external_block n es refcount" "\<lambda>n. n - 32" for refcount
proof
  fix es :: "decoded_entry list" and n
  assume ok: "\<forall>e \<in> set es. entry_ok e" and n': "n \<le> 65536" and f: "fits (n - 32) es"
  then have n: "n \<le> 65536" "32 \<le> n" by (simp_all add: fits_def)
  define ses where "ses = sort_key (\<lambda>e. (de_name_index e, length (de_name_bytes e), de_name_bytes e)) es"
  note so = sorted_entries [OF ok f, of "\<lambda>e. (de_name_index e, length (de_name_bytes e), de_name_bytes e)", folded ses_def]
  define z where "z = put 0 (block_header refcount) (replicate n 0)"
  have hl: "length (block_header refcount) = 12" by (simp add: block_header_def)
  have z: "length z = n" "put_checked 0 (block_header refcount) (replicate n 0) = Ok z" using n hl by (simp_all add: z_def put_checked_def)
  have pre: "length z \<le> 65536" "n \<le> length z" "slice 32 n z = replicate (n - 32) 0" "32 + needed_entries ses + 4 + needed_values ses \<le> n"
    using n so(2) z hl by (simp_all add: z_def slice_simps slice_zeros)
  let ?h = "\<lambda>e. entry_hash (de_name_bytes e) (de_value e)"
  obtain b where b: "emit_entries (\<lambda>e. Some (?h e)) ses (z, 32, n) = Ok b" "length b = n" "slice 0 32 b = slice 0 32 z"
    "\<forall>c. length c = n \<longrightarrow> slice 32 n c = slice 32 n b \<longrightarrow> decode_loop ''xattr entry name overruns block'' ''xattr block value out of range'' c 32 = Ok ses"
    using emit_entries_decode [OF so(1) pre] unfolding z(1) by blast
  let ?b = "put 12 (u32_to_le (block_hash (map ?h ses))) b"
  have "encode_external_block n es refcount = Ok ?b"
    unfolding encode_external_block_def z(2) and_then.simps Let_def ses_def [symmetric] b(1) using b(2) n by (simp add: put_checked_def)
  moreover have "block_entries ?b = Ok ses"
  proof -
    have "slice 0 4 b = slice 0 4 z" by (rule slice_part [OF b(3)]) simp_all
    also have "slice 0 4 z = u32_to_le EXT4_XATTR_MAGIC" by (simp add: z_def put_def block_header_def slice_def)
    finally have "get_le32 0 ?b = EXT4_XATTR_MAGIC" using b(2) n by (simp add: get_le32_def slice_simps)
    moreover have "slice 32 n ?b = slice 32 n b" "length ?b = n" using b(2) n by (simp_all add: slice_simps)
    ultimately show ?thesis using b(4) n by (simp add: block_entries_def decode_external_block_entries_def)
  qed
  moreover have "attrs ses = attrs es" unfolding ses_def by (rule attrs_sort) (auto simp: key_def)
  ultimately show "\<exists>b es'. encode_external_block n es refcount = Ok b \<and> length b = n \<and> block_entries b = Ok es' \<and> mset es' = mset es \<and> attrs es' = attrs es"
    using b(2) n by (auto simp: ses_def)
qed

section \<open>The planners\<close>

lemma check_set_name_Ok:
  "split_qualified_name name = Some (idx, suffix) \<Longrightarrow> suffix \<noteq> [] \<or> idx = 2 \<or> idx = 3 \<Longrightarrow> length suffix \<le> 255 \<Longrightarrow> check_set_name name = Ok (idx, suffix)"
  by (auto simp: check_set_name_def)

lemma refuse_ok: "\<forall>e \<in> set es. entry_ok e \<Longrightarrow> refuse_if_any_ea_inode_backed es = Ok ()"
  by (auto simp: refuse_if_any_ea_inode_backed_def entry_ok_def)

lemma stored_plan:
  assumes "m = (if f then map_ok (\<lambda>r. (r, oc)) enc else e)" "f \<Longrightarrow> \<exists>b es'. enc = Ok b \<and> Q b es'"
  shows "if f then \<exists>b es'. m = Ok (b, oc) \<and> Q b es' else m = e"
proof (cases f)
  case True
  then obtain b es' where "enc = Ok b" "Q b es'" using assms(2) by blast
  then show ?thesis using assms(1) True by auto
qed (use assms(1) in simp)

lemma plan_set_inode:
  assumes "split_qualified_name name = Some (idx, suffix)" "suffix \<noteq> [] \<or> idx = 2 \<or> idx = 3" "length suffix \<le> 255"
    "8 \<le> length area" "region_entries area = Ok es" "\<forall>e \<in> set es. entry_ok e" "set_entry idx suffix v es = (ses, outc)"
  shows "plan_set_in_inode_region area name v =
    (if fits (length area - 4) ses then map_ok (\<lambda>r. (r, outc)) (encode_in_inode_entries (length area) ses) else Err NoSpaceLeftOnDevice)"
proof -
  have l: "\<not> length area < 8" using assms(4) by simp
  show ?thesis
    unfolding plan_set_in_inode_region_def check_set_name_Ok [OF assms(1,2,3)] and_then.simps prod.case region_entries_def [symmetric] assms(5)
    using l by (simp add: refuse_ok [OF assms(6)] assms(7) fits_def)
qed

text \<open>
  C15. Setting an attribute, in the inode or in the external block: with a name the format can hold, the planner succeeds exactly
  when the entries and values fit, and then the rewritten area, of the same length, holds the new value under that name and every
  other attribute unchanged; it reports a replacement exactly when the name was there, and otherwise that there is no space.
\<close>

theorem xattr_set_correct:
  assumes "split_qualified_name name = Some (idx, suffix)" "suffix \<noteq> [] \<or> idx = 2 \<or> idx = 3" "length suffix \<le> 255"
    "64 \<le> length area" "length area \<le> 65536" "\<forall>e \<in> set es. entry_ok e"
  shows "(region_entries area = Ok es \<longrightarrow>
      (if fits (length area - 4) (fst (set_entry idx suffix v es))
       then \<exists>area' es'. plan_set_in_inode_region area name v = Ok (area', if (idx, suffix) \<in> dom (attrs es) then Replaced else Inserted) \<and>
         length area' = length area \<and> region_entries area' = Ok es' \<and> attrs es' = (attrs es)((idx, suffix) \<mapsto> v)
       else plan_set_in_inode_region area name v = Err NoSpaceLeftOnDevice)) \<and>
    (block_entries area = Ok es \<longrightarrow>
      (if fits (length area - 32) (fst (set_entry idx suffix v es))
       then \<exists>area' es'. plan_set_in_external_block area name v refcount = Ok (area', if (idx, suffix) \<in> dom (attrs es) then Replaced else Inserted) \<and>
         length area' = length area \<and> block_entries area' = Ok es' \<and> attrs es' = (attrs es)((idx, suffix) \<mapsto> v)
       else plan_set_in_external_block area name v refcount = Err NoSpaceLeftOnDevice))"
proof -
  note name = check_set_name_Ok [OF assms(1,2,3)] and ok = refuse_ok [OF assms(6)]
  obtain ses outc where se: "set_entry idx suffix v es = (ses, outc)" by force
  have o: "outc = (if (idx, suffix) \<in> dom (attrs es) then Replaced else Inserted)" using set_entry_attrs(2) [of idx suffix v es] se by simp
  have l: "\<not> length area < 8" "\<not> length area < 64" "32 \<le> length area" using assms(4) by simp_all
  have inode: "plan_set_in_inode_region area name v =
      (if fits (length area - 4) ses then map_ok (\<lambda>r. (r, outc)) (encode_in_inode_entries (length area) ses) else Err NoSpaceLeftOnDevice)"
    if "region_entries area = Ok es" by (rule plan_set_inode [OF assms(1,2,3) _ that assms(6) se]) (use assms(4) in simp)
  have blk: "plan_set_in_external_block area name v refcount =
      (if fits (length area - 32) ses then map_ok (\<lambda>r. (r, outc)) (encode_external_block (length area) ses refcount) else Err NoSpaceLeftOnDevice)"
    if "block_entries area = Ok es" unfolding plan_set_in_external_block_def name and_then.simps prod.case
    using that l unfolding block_entries_def [symmetric] that by (simp add: ok se fits_def)
  have st1: "\<exists>b es'. encode_in_inode_entries (length area) ses = Ok b \<and> length b = length area \<and> region_entries b = Ok es' \<and> attrs es' = (attrs es)((idx, suffix) \<mapsto> v)"
    if "fits (length area - 4) ses"
    using in_inode.set_stored [OF assms(6,5) assms(1,3), of v, unfolded se fst_conv, OF that] by blast
  have st2: "\<exists>b es'. encode_external_block (length area) ses refcount = Ok b \<and> length b = length area \<and> block_entries b = Ok es' \<and> attrs es' = (attrs es)((idx, suffix) \<mapsto> v)"
    if "fits (length area - 32) ses"
    using external.set_stored [OF assms(6,5) assms(1,3), of v refcount, unfolded se fst_conv, OF that] by blast
  show ?thesis unfolding se fst_conv o [symmetric]
  proof (intro conjI impI)
    assume r: "region_entries area = Ok es"
    show "if fits (length area - 4) ses
       then \<exists>area' es'. plan_set_in_inode_region area name v = Ok (area', outc) \<and> length area' = length area \<and> region_entries area' = Ok es' \<and> attrs es' = (attrs es)((idx, suffix) \<mapsto> v)
       else plan_set_in_inode_region area name v = Err NoSpaceLeftOnDevice"
      by (rule stored_plan [OF inode [OF r] st1])
  next
    assume r: "block_entries area = Ok es"
    show "if fits (length area - 32) ses
       then \<exists>area' es'. plan_set_in_external_block area name v refcount = Ok (area', outc) \<and> length area' = length area \<and> block_entries area' = Ok es' \<and> attrs es' = (attrs es)((idx, suffix) \<mapsto> v)
       else plan_set_in_external_block area name v refcount = Err NoSpaceLeftOnDevice"
      by (rule stored_plan [OF blk [OF r] st2])
  qed
qed

text \<open>A fresh area of 64 bytes and the attribute \<open>user.a\<close>.\<close>

lemma sample_name: "split_qualified_name (bstr ''user.a'') = Some (1, [0x61])"
  by code_simp

theorem xattr_set_correct_witness:
  "\<exists>area' es'. plan_set_in_inode_region (replicate 64 0) (bstr ''user.a'') [7, 8] = Ok (area', Inserted) \<and> length area' = 64 \<and>
     region_entries area' = Ok es' \<and> attrs es' = [(1, [0x61]) \<mapsto> [7, 8]]"
proof -
  have "get_le32 0 (replicate 64 0) = 0" by code_simp
  then have e: "region_entries (replicate 64 0) = Ok []" by (simp add: region_entries_def EXT4_XATTR_MAGIC_def)
  have f: "fits (64 - 4) (fst (set_entry 1 [0x61] [7, 8] []))" by (simp add: fits_def set_entry_def pad4_def)
  have a: "attrs [] = Map.empty" by (simp add: attrs_def)
  show ?thesis using xattr_set_correct [OF sample_name, of "replicate 64 0" "[]" "[7, 8]" 1] e f a by simp
qed

text \<open>
  Removing an attribute: from an area whose entries fit it, the planner takes out exactly the named attribute and keeps
  every other, or reports that there is none and leaves the bytes alone; an external block left empty is reported for freeing.
\<close>

theorem xattr_remove_correct:
  assumes "split_qualified_name name = Some (idx, suffix)" "32 \<le> length area" "length area \<le> 65536" "\<forall>e \<in> set es. entry_ok e"
  shows "(region_entries area = Ok es \<and> fits (length area - 4) es \<longrightarrow>
      (if (idx, suffix) \<in> dom (attrs es)
       then \<exists>area' es'. plan_remove_in_inode_region area name = Ok (area', Removed) \<and>
         length area' = length area \<and> region_entries area' = Ok es' \<and> attrs es' = (attrs es)((idx, suffix) := None)
       else plan_remove_in_inode_region area name = Ok (area, RNotFound))) \<and>
    (block_entries area = Ok es \<and> fits (length area - 32) es \<longrightarrow>
      (if (idx, suffix) \<notin> dom (attrs es) then plan_remove_from_external_block area name refcount = Ok (area, BNotFound)
       else if dom (attrs es) = {(idx, suffix)} then plan_remove_from_external_block area name refcount = Ok (area, RemovedNowEmpty)
       else \<exists>area' es'. plan_remove_from_external_block area name refcount = Ok (area', BRemoved) \<and>
         length area' = length area \<and> block_entries area' = Ok es' \<and> attrs es' = (attrs es)((idx, suffix) := None)))"
proof -
  let ?kept = "filter (\<lambda>e. \<not> matches_key idx suffix e) es"
  note ok = refuse_ok [OF assms(4)] and len_kept = remove_length [of idx suffix es]
  have l: "\<not> length area < 4" "\<not> length area < 32" using assms(2) by simp_all
  have dom: "dom (attrs xs) = key ` set xs" for xs by (simp add: attrs_def dom_map_of_conv_image_fst image_image)
  have nokey: "es = []" if "region_entries area = Ok es \<or> block_entries area = Ok es" "get_le32 0 area \<noteq> EXT4_XATTR_MAGIC"
    using that by (auto simp: region_entries_def block_entries_def)
  have inode: "plan_remove_in_inode_region area name =
      (if (idx, suffix) \<notin> dom (attrs es) then Ok (area, RNotFound) else map_ok (\<lambda>r. (r, Removed)) (encode_in_inode_entries (length area) ?kept))"
    if "region_entries area = Ok es"
  proof (cases "get_le32 0 area = EXT4_XATTR_MAGIC")
    case True
    then show ?thesis using that l assms(1) by (simp add: plan_remove_in_inode_region_def region_entries_def ok len_kept)
  next
    case False
    then show ?thesis using nokey that l assms(1) by (simp add: plan_remove_in_inode_region_def attrs_def)
  qed
  have empty: "?kept = [] \<longleftrightarrow> dom (attrs es) \<subseteq> {(idx, suffix)}" by (auto simp: dom matches_key_key filter_empty_conv)
  have blk: "plan_remove_from_external_block area name refcount =
      (if (idx, suffix) \<notin> dom (attrs es) then Ok (area, BNotFound) else if ?kept = [] then Ok (area, RemovedNowEmpty)
       else map_ok (\<lambda>r. (r, BRemoved)) (encode_external_block (length area) ?kept refcount))"
    if "block_entries area = Ok es"
  proof (cases "get_le32 0 area = EXT4_XATTR_MAGIC")
    case True
    then show ?thesis using that l assms(1) by (simp add: plan_remove_from_external_block_def block_entries_def ok len_kept)
  next
    case False
    then show ?thesis using nokey that l assms(1) by (simp add: plan_remove_from_external_block_def attrs_def)
  qed
  note st1 = in_inode.remove_stored [OF assms(4,3), of idx suffix] and st2 = external.remove_stored [OF assms(4,3), of idx suffix refcount]
  show ?thesis
  proof (intro conjI impI; elim conjE)
    assume r: "region_entries area = Ok es" "fits (length area - 4) es"
    show "if (idx, suffix) \<in> dom (attrs es)
       then \<exists>area' es'. plan_remove_in_inode_region area name = Ok (area', Removed) \<and> length area' = length area \<and> region_entries area' = Ok es' \<and> attrs es' = (attrs es)((idx, suffix) := None)
       else plan_remove_in_inode_region area name = Ok (area, RNotFound)"
      by (rule stored_plan [OF _ st1 [OF r(2)]]) (use inode [OF r(1)] in simp)
  next
    assume r: "block_entries area = Ok es" "fits (length area - 32) es"
    have "if (idx, suffix) \<in> dom (attrs es) \<and> ?kept \<noteq> []
       then \<exists>area' es'. plan_remove_from_external_block area name refcount = Ok (area', BRemoved) \<and> length area' = length area \<and> block_entries area' = Ok es' \<and> attrs es' = (attrs es)((idx, suffix) := None)
       else plan_remove_from_external_block area name refcount = (if (idx, suffix) \<notin> dom (attrs es) then Ok (area, BNotFound) else Ok (area, RemovedNowEmpty))"
      by (rule stored_plan [OF _ st2 [OF r(2)]]) (use blk [OF r(1)] in simp)
    moreover have "(idx, suffix) \<in> dom (attrs es) \<Longrightarrow> ?kept = [] \<longleftrightarrow> dom (attrs es) = {(idx, suffix)}" using empty by blast
    ultimately show "if (idx, suffix) \<notin> dom (attrs es) then plan_remove_from_external_block area name refcount = Ok (area, BNotFound)
       else if dom (attrs es) = {(idx, suffix)} then plan_remove_from_external_block area name refcount = Ok (area, RemovedNowEmpty)
       else \<exists>area' es'. plan_remove_from_external_block area name refcount = Ok (area', BRemoved) \<and>
         length area' = length area \<and> block_entries area' = Ok es' \<and> attrs es' = (attrs es)((idx, suffix) := None)"
      by (cases "(idx, suffix) \<in> dom (attrs es)"; cases "?kept = []") simp_all
  qed
qed

lemma sample_codecs:
  "u32_from_le [0, 0, 2, 0xEA] = EXT4_XATTR_MAGIC" "u16_to_le 0 = [0, 0]" "u16_to_le 4 = [4, 0]" "u32_to_le 0 = [0, 0, 0, 0]" "u32_to_le 80 = [80, 0, 0, 0]"
    "replicate 2 (0 :: u8) = [0, 0]" "replicate 4 (0 :: u8) = [0, 0, 0, 0]"
  by (simp add: u32_from_le_def EXT4_XATTR_MAGIC_def, code_simp+)

text \<open>An area whose only entry is \<open>user.a\<close> with an empty value.\<close>

definition sample_area :: bytes where
  "sample_area = [0, 0, 2, 0xEA, 1, 1] @ replicate 14 0 @ [0x61] @ replicate 43 0"

lemma sample_area_entries:
  "region_entries sample_area = Ok [\<lparr>de_name_index = 1, de_name_bytes = [0x61], de_value = [], de_value_inum = 0\<rparr>]"
proof -
  let ?e = "\<lparr>de_name_index = 1, de_name_bytes = [0x61], de_value = [], de_value_inum = 0\<rparr> :: decoded_entry"
  let ?buf = "drop 4 sample_area"
  have m: "get_le32 0 sample_area = EXT4_XATTR_MAGIC" by (simp add: sample_area_def get_le32_def slice_def sample_codecs)
  have buf: "?buf = [1, 1] @ replicate 14 0 @ [0x61] @ replicate 43 0" by (simp add: sample_area_def)
  have "decode_loop m1 m2 ?buf 0 = and_then (decode_loop m1 m2 ?buf (0 + pad4 (16 + length (de_name_bytes ?e)))) (\<lambda>rest. Ok (?e # rest))" for m1 m2
    unfolding buf by (rule decode_entry [where offs = 0]) (simp_all add: entry_ok_def head4_def slice_def sample_codecs)
  moreover have "decode_loop m1 m2 ?buf 20 = Ok []" for m1 m2 unfolding buf by (rule decode_end [where vc = 24]) (simp_all add: slice_def)
  ultimately show ?thesis using m by (simp add: region_entries_def decode_in_inode_entries_def pad4_def)
qed

theorem xattr_remove_correct_witness:
  "\<exists>area' es'. plan_remove_in_inode_region sample_area (bstr ''user.a'') = Ok (area', Removed) \<and> length area' = 64 \<and>
     region_entries area' = Ok es' \<and> attrs es' = Map.empty"
proof -
  let ?e = "\<lparr>de_name_index = 1, de_name_bytes = [0x61], de_value = [], de_value_inum = 0\<rparr> :: decoded_entry"
  have l: "length sample_area = 64" by (simp add: sample_area_def)
  have a: "attrs [?e] = [(1, [0x61]) \<mapsto> []]" by (simp add: attrs_def key_def)
  have "fits 60 [?e]" "entry_ok ?e" by (simp_all add: fits_def pad4_def entry_ok_def)
  then show ?thesis using xattr_remove_correct [OF sample_name, of sample_area "[?e]" 1] sample_area_entries l a by simp
qed

section \<open>Two limits of the writers\<close>

text \<open>
  The removal of an attribute re-encodes the others without checking that they fit. Values of a damaged area may overlap, so
  that they no longer fit side by side: here \<open>user.b\<close> and \<open>user.c\<close> both claim eighty bytes of an area of ninety-two, and
  removing \<open>user.a\<close> unwinds.
\<close>

definition overlapping_entry :: "u8 \<Rightarrow> u8 \<Rightarrow> u8 \<Rightarrow> bytes" where
  "overlapping_entry c offs n = [1, 1, offs, 0, 0, 0, 0, 0, n, 0, 0, 0, 0, 0, 0, 0, c, 0, 0, 0]"

definition overlapping_region :: bytes where
  "overlapping_region = [0, 0, 2, 0xEA] @ overlapping_entry 0x61 0 0 @ overlapping_entry 0x62 4 80 @ overlapping_entry 0x63 4 80 @ replicate 32 0"

definition user_entry :: "u8 \<Rightarrow> bytes \<Rightarrow> decoded_entry" where
  "user_entry c v = \<lparr>de_name_index = 1, de_name_bytes = [c], de_value = v, de_value_inum = 0\<rparr>"

lemma overlapping_entries:
  "region_entries overlapping_region =
     Ok [user_entry 0x61 [], user_entry 0x62 (slice 8 88 overlapping_region), user_entry 0x63 (slice 8 88 overlapping_region)]"
proof -
  define buf where "buf = overlapping_entry 0x61 0 0 @ overlapping_entry 0x62 4 80 @ overlapping_entry 0x63 4 80 @ replicate 32 0"
  define v where "v = slice 4 84 buf"
  have m: "get_le32 0 overlapping_region = EXT4_XATTR_MAGIC" by (simp add: overlapping_region_def get_le32_def slice_def sample_codecs)
  have b: "drop 4 overlapping_region = buf" "slice 8 88 overlapping_region = v" by (simp_all add: overlapping_region_def buf_def v_def slice_def)
  have l: "length buf = 92" "length v = 80" by (simp_all add: v_def buf_def overlapping_entry_def)
  have d: "decode_loop m1 m2 buf p = and_then (decode_loop m1 m2 buf (p + 20)) (\<lambda>rest. Ok (user_entry c w # rest))"
    if "p + 17 \<le> 92" "slice p (p + 4) buf = [1, 1, word_of_nat offs, 0]" "slice (p + 4) (p + 8) buf = [0, 0, 0, 0]"
      "slice (p + 8) (p + 12) buf = u32_to_le (word_of_nat (length w))" "slice (p + 16) (17 + p) buf = [c]"
      "w = [] \<and> offs = 0 \<or> w = v \<and> offs = 4" for m1 m2 p c w offs
    using that l decode_entry [of "user_entry c w" buf p offs m1 m2] v_def
    by (auto simp: user_entry_def entry_ok_def head4_def pad4_def sample_codecs)
  note ev = buf_def overlapping_entry_def slice_def sample_codecs
  have "decode_loop m1 m2 buf 0 = and_then (decode_loop m1 m2 buf 20) (\<lambda>rest. Ok (user_entry 0x61 [] # rest))" for m1 m2
    using d [where p = 0 and offs = 0 and w = "[]" and c = "0x61" and ?m1.0 = m1 and ?m2.0 = m2] by (simp add: ev)
  moreover have "decode_loop m1 m2 buf 20 = and_then (decode_loop m1 m2 buf 40) (\<lambda>rest. Ok (user_entry 0x62 v # rest))" for m1 m2
    using d [where p = 20 and offs = 4 and w = v and c = "0x62" and ?m1.0 = m1 and ?m2.0 = m2] l(2) by (simp add: ev)
  moreover have "decode_loop m1 m2 buf 40 = and_then (decode_loop m1 m2 buf 60) (\<lambda>rest. Ok (user_entry 0x63 v # rest))" for m1 m2
    using d [where p = 40 and offs = 4 and w = v and c = "0x63" and ?m1.0 = m1 and ?m2.0 = m2] l(2) by (simp add: ev)
  moreover have "decode_loop m1 m2 buf 60 = Ok []" for m1 m2 by (rule decode_end [where vc = 64]) (simp_all add: ev)
  ultimately show ?thesis unfolding b using m by (simp add: region_entries_def decode_in_inode_entries_def b)
qed

theorem remove_overlapping_values_unwinds:
  "is_ok (region_entries overlapping_region) \<and> plan_remove_in_inode_region overlapping_region (bstr ''user.a'') = Panic"
proof -
  let ?v = "slice 8 88 overlapping_region"
  have l: "length overlapping_region = 96" "length ?v = 80" by (simp_all add: overlapping_region_def overlapping_entry_def)
  have v: "?v \<noteq> []" using l(2) by (metis length_greater_0_conv zero_less_numeral)
  have m: "get_le32 0 overlapping_region = EXT4_XATTR_MAGIC" by (simp add: overlapping_region_def get_le32_def slice_def sample_codecs)
  have "encode_in_inode_entries 96 [user_entry 0x62 ?v, user_entry 0x63 ?v] = Panic"
    using l(2) v by (simp add: encode_in_inode_entries_def user_entry_def emit_entry_def place_value_def put_checked_def pad4_def Let_def)
  then show ?thesis
    using overlapping_entries m sample_name l
    by (simp add: plan_remove_in_inode_region_def region_entries_def refuse_if_any_ea_inode_backed_def matches_key_def user_entry_def)
qed

text \<open>
  The namespace of rich ACLs is read under its own index but never written: its name also starts with the earlier prefix
  \<open>system.\<close>, which wins when a name is split.
\<close>

theorem richacl_index_not_written:
  "qualified_name 8 [] = bstr ''system.richacl'' \<and> split_qualified_name (bstr ''system.richacl'') = Some (7, bstr ''richacl'')"
  by (intro conjI; code_simp)

section \<open>The reader sees what the writers decode\<close>

definition readable :: "decoded_entry list \<Rightarrow> bool" where
  "readable es \<longleftrightarrow> (\<forall>e \<in> set es. utf8_valid (de_name_bytes e))"

definition shown :: "decoded_entry \<Rightarrow> bytes \<times> bytes \<times> u32" where
  "shown e = (qualified_name (de_name_index e) (de_name_bytes e), de_value e, de_value_inum e)"

lemma parse_decode:
  "decode_loop m1 m2 buf pos = Ok es \<Longrightarrow> readable es \<Longrightarrow>
     \<exists>xs. parse_loop m1 m2 buf pos = Ok xs \<and> map (\<lambda>x. (xe_name x, xe_value x, xe_value_inum x)) xs = map shown es"
proof (induction m1 m2 buf pos arbitrary: es rule: decode_loop.induct)
  case (1 m1 m2 buf pos)
  show ?case
  proof (cases "pos + 16 > length buf \<or> get_le32 pos buf = 0")
    case True
    then show ?thesis using "1.prems" by (simp add: decode_loop.simps [of m1 m2 buf pos] parse_loop.simps [of m1 m2 buf pos])
  next
    case False
    let ?n = "e_name_len buf pos"
    obtain v rest where v: "pos + 16 + ?n \<le> length buf" "e_value m2 buf pos = Ok v" "decode_loop m1 m2 buf (pos + pad4 (16 + ?n)) = Ok rest"
      and es: "es = \<lparr>de_name_index = e_name_index buf pos, de_name_bytes = slice (pos + 16) (pos + 16 + ?n) buf, de_value = v, de_value_inum = e_value_inum buf pos\<rparr> # rest"
      using "1.prems"(1) False by (auto simp: decode_loop.simps [of m1 m2 buf pos] Let_def outcome_simps split: if_splits)
    have r: "readable rest" "utf8_valid (slice (pos + 16) (pos + 16 + ?n) buf)" using "1.prems"(2) es by (simp_all add: readable_def)
    obtain xs where "parse_loop m1 m2 buf (pos + pad4 (16 + ?n)) = Ok xs" "map (\<lambda>x. (xe_name x, xe_value x, xe_value_inum x)) xs = map shown rest"
      using "1.IH" [OF False refl _ v(3) r(1)] v(1) by auto
    then show ?thesis using False v r(2) es by (auto simp: parse_loop.simps [of m1 m2 buf pos] shown_def)
  qed
qed

end
