(* ===== verification/Dir.thy ===== *)
theory Dir
  imports Checksum Inode
begin

unbundle bit_operations_syntax

text \<open>
  Linear directory blocks (\<open>src/dir.rs\<close>): a block is a chain of variable-length records, each
  naming the distance to the next one. Reading walks the chain; adding an entry reuses a
  tombstone or splits a record with free space at its end; removing one lets the record
  before it absorb its space.
\<close>

section \<open>Entries and their types\<close>

datatype dir_entry_type = Unknown | RegFile | Directory | CharDev | BlockDev | Fifo | Socket | Symlink

definition from_mode :: "u16 \<Rightarrow> dir_entry_type" where
  "from_mode mode = (let t = mode AND S_IFMT in
     if t = 0x8000 then RegFile else if t = 0x4000 then Directory else if t = 0x2000 then CharDev
     else if t = 0x6000 then BlockDev else if t = 0x1000 then Fifo else if t = 0xC000 then Socket
     else if t = 0xA000 then Symlink else Unknown)"

definition from_u8 :: "u8 \<Rightarrow> dir_entry_type" where
  "from_u8 b = (if b = 1 then RegFile else if b = 2 then Directory else if b = 3 then CharDev
     else if b = 4 then BlockDev else if b = 5 then Fifo else if b = 6 then Socket
     else if b = 7 then Symlink else Unknown)"

text \<open>\<open>file_type as u8\<close>: the discriminants of the enum.\<close>

fun type_byte :: "dir_entry_type \<Rightarrow> u8" where
  "type_byte Unknown = 0"
| "type_byte RegFile = 1"
| "type_byte Directory = 2"
| "type_byte CharDev = 3"
| "type_byte BlockDev = 4"
| "type_byte Fifo = 5"
| "type_byte Socket = 6"
| "type_byte Symlink = 7"

record dir_entry =
  de_inode :: u32
  de_name :: bytes
  de_type :: dir_entry_type

section \<open>Reading a block\<close>

text \<open>The name length field: one byte with \<open>FILETYPE\<close>, else two with the type byte on top.\<close>

definition name_len_field :: "bool \<Rightarrow> u8 \<Rightarrow> u8 \<Rightarrow> nat" where
  "name_len_field has_file_type lo hi =
     (if has_file_type then unat lo else unat (push_bit 8 (ucast hi :: u64) OR ucast lo))"

text \<open>
  \<open>DirBlockIter::next\<close> run to the end by \<open>parse_block\<close>: the loop from \<open>offset\<close> on, collecting
  entries and stopping at the first error.
\<close>

function dir_iter :: "bytes \<Rightarrow> bool \<Rightarrow> nat \<Rightarrow> dir_entry list result" where
  "dir_iter buf has_file_type offset =
     (if offset + 8 > length buf then Ok []
      else let inode = get_le32 offset buf; rec_len = unat (get_le16 (offset + 4) buf) in
        if rec_len < 8 \<or> rec_len > length buf - offset \<or> rec_len mod 4 \<noteq> 0
        then Err (CorruptDirEntry ''bad rec_len'')
        else let name_len_lo = buf ! (offset + 6); type_or_namehi = buf ! (offset + 7);
                 is_csum_tail = (inode = 0 \<and> rec_len = 12 \<and> name_len_lo = 0 \<and> type_or_namehi = 0xDE);
                 entry_end = offset + rec_len in
          if is_csum_tail then Ok []
          else if inode = 0 then dir_iter buf has_file_type entry_end
          else let name_len = name_len_field has_file_type name_len_lo type_or_namehi in
            if 8 + name_len > rec_len then Err (CorruptDirEntry ''name overflows rec_len'')
            else let e = \<lparr>de_inode = inode, de_name = slice (offset + 8) (offset + 8 + name_len) buf,
                          de_type = (if has_file_type then from_u8 type_or_namehi else Unknown)\<rparr>
                 in and_then (dir_iter buf has_file_type entry_end) (\<lambda>es. Ok (e # es)))"
  by pat_completeness auto
termination
  by (relation "measure (\<lambda>(buf, has_file_type, offset). length buf - offset)") auto

declare dir_iter.simps [simp del]

definition parse_block :: "bytes \<Rightarrow> bool \<Rightarrow> dir_entry list result" where
  "parse_block buf has_file_type = dir_iter buf has_file_type 0"

definition has_csum_tail :: "bytes \<Rightarrow> bool" where
  "has_csum_tail buf =
     (if length buf < 12 then False
      else let off = length buf - 12; inode = get_le32 off buf; rec_len = get_le16 (off + 4) buf
           in inode = 0 \<and> rec_len = 12 \<and> buf ! (off + 6) = 0 \<and> buf ! (off + 7) = 0xDE)"

definition parse_block_verified ::
    "crc_fn \<Rightarrow> bytes \<Rightarrow> bool \<Rightarrow> u32 \<Rightarrow> u32 \<Rightarrow> checksummer \<Rightarrow> dir_entry list result" where
  "parse_block_verified crc buf has_file_type ino generation csum =
     (if enabled csum \<and> has_csum_tail buf \<and> \<not> verify_dir_entry_tail crc csum ino generation buf
      then Err (BadChecksum ''directory block'')
      else parse_block buf has_file_type)"

section \<open>Changing a block\<close>

definition entry_rec_len :: "nat \<Rightarrow> nat" where
  "entry_rec_len name_len = 8 + 4 * ((name_len + 3) div 4)"

definition write_entry ::
    "bytes \<Rightarrow> nat \<Rightarrow> u32 \<Rightarrow> u16 \<Rightarrow> bytes \<Rightarrow> dir_entry_type \<Rightarrow> bool \<Rightarrow> bytes result" where
  "write_entry buf off inode rec_len name file_type has_file_type =
     (let name_len = length name;
          b6 = (word_of_nat name_len :: u8);
          b7 = (if has_file_type then type_byte file_type else word_of_nat (name_len div 256));
          pad_start = off + 8 + name_len; pad_end = off + unat rec_len in
      and_then (put_checked off (u32_to_le inode) buf) (\<lambda>buf.
      and_then (put_checked (off + 4) (u16_to_le rec_len) buf) (\<lambda>buf.
      and_then (put_checked (off + 6) [b6] buf) (\<lambda>buf.
      and_then (put_checked (off + 7) [b7] buf) (\<lambda>buf.
      and_then (put_checked (off + 8) name buf) (\<lambda>buf.
        if pad_end > pad_start then put_checked pad_start (replicate (pad_end - pad_start) 0) buf
        else Ok buf))))))"

text \<open>The loop of \<open>add_entry_to_block\<close> from \<open>off\<close> on.\<close>

function add_loop :: "bytes \<Rightarrow> u32 \<Rightarrow> bytes \<Rightarrow> dir_entry_type \<Rightarrow> bool \<Rightarrow> nat \<Rightarrow> nat \<Rightarrow> nat \<Rightarrow> bytes result" where
  "add_loop buf inode name file_type has_file_type usable needed off =
     (if \<not> off + 8 \<le> usable then Err OutOfBounds
      else let cur_inode = get_le32 off buf; rec_len = unat (get_le16 (off + 4) buf) in
        if rec_len < 8 \<or> rec_len mod 4 \<noteq> 0 \<or> off + rec_len > usable
        then Err (CorruptDirEntry ''bad rec_len during add'')
        else if cur_inode = 0
        then if rec_len \<ge> needed
          then write_entry buf off inode (word_of_nat rec_len) name file_type has_file_type
          else add_loop buf inode name file_type has_file_type usable needed (off + rec_len)
        else let cur_name_len = name_len_field has_file_type (buf ! (off + 6)) (buf ! (off + 7));
                 cur_actual = entry_rec_len cur_name_len in
          if rec_len \<ge> cur_actual + needed
          then write_entry (put (off + 4) (u16_to_le (word_of_nat cur_actual)) buf) (off + cur_actual)
                 inode (word_of_nat (rec_len - cur_actual)) name file_type has_file_type
          else add_loop buf inode name file_type has_file_type usable needed (off + rec_len))"
  by pat_completeness auto
termination
  by (relation "measure (\<lambda>(buf, inode, name, file_type, has_file_type, usable, needed, off). usable - off)") auto

declare add_loop.simps [simp del]

definition add_entry_to_block ::
    "bytes \<Rightarrow> u32 \<Rightarrow> bytes \<Rightarrow> dir_entry_type \<Rightarrow> bool \<Rightarrow> nat \<Rightarrow> bytes result" where
  "add_entry_to_block buf inode name file_type has_file_type reserved_tail =
     (if inode = 0 then Err (CorruptDirEntry ''refuse to insert entry with inode 0'')
      else if name = [] \<or> length name > 255 then Err (CorruptDirEntry ''name length out of range'')
      else if length buf < reserved_tail then Err OutOfBounds
      else let usable = length buf - reserved_tail; needed = entry_rec_len (length name) in
        if needed > usable then Err OutOfBounds
        else add_loop buf inode name file_type has_file_type usable needed 0)"

text \<open>
  The loop of \<open>remove_entry_from_block\<close>; the block is returned with the flag, unchanged when
  nothing was removed.
\<close>

function remove_loop :: "bytes \<Rightarrow> bytes \<Rightarrow> bool \<Rightarrow> nat \<Rightarrow> nat option \<Rightarrow> nat \<Rightarrow> (bytes \<times> bool) result" where
  "remove_loop buf name has_file_type usable prev_off off =
     (if \<not> off + 8 \<le> usable then Ok (buf, False)
      else let cur_inode = get_le32 off buf; rec_len = unat (get_le16 (off + 4) buf) in
        if rec_len < 8 \<or> rec_len mod 4 \<noteq> 0 \<or> off + rec_len > usable
        then Err (CorruptDirEntry ''bad rec_len during remove'')
        else let cur_name_len = name_len_field has_file_type (buf ! (off + 6)) (buf ! (off + 7)) in
          if cur_inode \<noteq> 0 \<and> 8 + cur_name_len \<le> rec_len \<and>
             slice (off + 8) (off + 8 + cur_name_len) buf = name
          then case prev_off of
              Some prev \<Rightarrow>
                (let merged = unat (get_le16 (prev + 4) buf) + rec_len in
                 if merged > 0xFFFF then Err (CorruptDirEntry ''merged rec_len overflows u16'')
                 else Ok (put off (replicate 8 0) (put (prev + 4) (u16_to_le (word_of_nat merged)) buf), True))
            | None \<Rightarrow> Ok (put off (u32_to_le 0) buf, True)
          else remove_loop buf name has_file_type usable (Some off) (off + rec_len))"
  by pat_completeness auto
termination
  by (relation "measure (\<lambda>(buf, name, has_file_type, usable, prev_off, off). usable - off)") auto

declare remove_loop.simps [simp del]

definition remove_entry_from_block :: "bytes \<Rightarrow> bytes \<Rightarrow> bool \<Rightarrow> nat \<Rightarrow> (bytes \<times> bool) result" where
  "remove_entry_from_block buf name has_file_type reserved_tail =
     (if length buf < reserved_tail then Err OutOfBounds
      else remove_loop buf name has_file_type (length buf - reserved_tail) None 0)"

section \<open>A block as a chain of slots\<close>

text \<open>
  The specification side: the record at an offset, and the chain of records from an offset to
  the end of the usable area. A record is a tombstone (no entry) or holds an entry whose name fits.
\<close>

record slot =
  sl_off :: nat
  sl_len :: nat
  sl_entry :: "dir_entry option"

definition slot_at :: "bool \<Rightarrow> bytes \<Rightarrow> nat \<Rightarrow> nat \<Rightarrow> slot option" where
  "slot_at hft buf usable off =
     (let inode = get_le32 off buf; rec_len = unat (get_le16 (off + 4) buf);
          lo = buf ! (off + 6); hi = buf ! (off + 7); n = name_len_field hft lo hi in
      if off + 8 > usable \<or> usable > length buf \<or> rec_len < 8 \<or> rec_len mod 4 \<noteq> 0 \<or> off + rec_len > usable
      then None
      else if inode = 0
      then if rec_len = 12 \<and> lo = 0 \<and> hi = 0xDE then None
           else Some \<lparr>sl_off = off, sl_len = rec_len, sl_entry = None\<rparr>
      else if 8 + n > rec_len then None
      else Some \<lparr>sl_off = off, sl_len = rec_len, sl_entry = Some
        \<lparr>de_inode = inode, de_name = slice (off + 8) (off + 8 + n) buf,
         de_type = (if hft then from_u8 hi else Unknown)\<rparr>\<rparr>)"

lemma slot_at_bounds:
  "slot_at hft buf usable off = Some sl \<Longrightarrow>
   sl_off sl = off \<and> 8 \<le> sl_len sl \<and> sl_len sl mod 4 = 0 \<and> off + sl_len sl \<le> usable \<and> usable \<le> length buf"
  by (auto simp: slot_at_def Let_def split: if_splits)

lemma slot_at_len: "slot_at hft buf usable off = Some sl \<Longrightarrow> unat (get_le16 (off + 4) buf) = sl_len sl"
  by (auto simp: slot_at_def Let_def split: if_splits)

lemma slot_at_tombstone:
  "slot_at hft buf usable off = Some sl \<Longrightarrow> sl_entry sl = None \<Longrightarrow>
   get_le32 off buf = 0 \<and> \<not> (sl_len sl = 12 \<and> buf ! (off + 6) = 0 \<and> buf ! (off + 7) = 0xDE)"
  by (auto simp: slot_at_def Let_def split: if_splits)

lemma slot_at_live:
  "slot_at hft buf usable off = Some sl \<Longrightarrow> sl_entry sl = Some e \<Longrightarrow>
   get_le32 off buf \<noteq> 0 \<and> 8 + name_len_field hft (buf ! (off + 6)) (buf ! (off + 7)) \<le> sl_len sl \<and>
   e = \<lparr>de_inode = get_le32 off buf,
        de_name = slice (off + 8) (off + 8 + name_len_field hft (buf ! (off + 6)) (buf ! (off + 7))) buf,
        de_type = (if hft then from_u8 (buf ! (off + 7)) else Unknown)\<rparr>"
  by (auto simp: slot_at_def Let_def split: if_splits)

lemma slot_at_name_length:
  assumes "slot_at hft buf usable off = Some sl" "sl_entry sl = Some e"
  shows "length (de_name e) = name_len_field hft (buf ! (off + 6)) (buf ! (off + 7))"
proof -
  have "name_len_field hft (buf ! (off + 6)) (buf ! (off + 7)) \<le> length buf - (off + 8)"
    using slot_at_live [OF assms] slot_at_bounds [OF assms(1)] by linarith
  with slot_at_live [OF assms] show ?thesis by simp
qed

function scan :: "bool \<Rightarrow> bytes \<Rightarrow> nat \<Rightarrow> nat \<Rightarrow> slot list option" where
  "scan hft buf usable off =
     (if off = usable then Some []
      else case slot_at hft buf usable off of
        None \<Rightarrow> None
      | Some sl \<Rightarrow> map_option (Cons sl) (scan hft buf usable (off + sl_len sl)))"
  by pat_completeness auto
termination
  by (relation "measure (\<lambda>(hft, buf, usable, off). usable - off)") (auto dest: slot_at_bounds)

declare scan.simps [simp del]

definition live :: "slot list \<Rightarrow> dir_entry list" where
  "live slots = List.map_filter sl_entry slots"

lemma live_simps [simp]:
  "live [] = []" "live (sl # slots) = (case sl_entry sl of None \<Rightarrow> [] | Some e \<Rightarrow> [e]) @ live slots"
  by (auto simp: live_def map_filter_simps split: option.split)

text \<open>What follows the usable area: nothing, or the checksum tail.\<close>

definition tail_ok :: "bytes \<Rightarrow> nat \<Rightarrow> bool" where
  "tail_ok buf tail \<longleftrightarrow> tail = 0 \<or> tail = 12 \<and> has_csum_tail buf"

lemma scan_step:
  "scan hft buf usable off = Some slots \<Longrightarrow> off \<noteq> usable \<Longrightarrow>
   \<exists>sl rest. slots = sl # rest \<and> slot_at hft buf usable off = Some sl \<and>
     scan hft buf usable (off + sl_len sl) = Some rest"
  by (subst (asm) scan.simps) (auto split: option.splits)

lemma scan_Cons:
  "slot_at hft buf usable off = Some sl \<Longrightarrow> scan hft buf usable (off + sl_len sl) = Some rest \<Longrightarrow>
   scan hft buf usable off = Some (sl # rest)"
  by (subst scan.simps) (auto dest: slot_at_bounds)

lemma scan_end [simp]: "scan hft buf usable usable = Some []"
  by (simp add: scan.simps)

lemma scan_ne: "scan hft buf usable off = Some (sl # slots) \<Longrightarrow> off \<noteq> usable"
  by auto

lemma scan_iter:
  assumes "scan hft buf (length buf - tail) off = Some slots" "tail_ok buf tail" "off \<le> length buf - tail"
  shows "dir_iter buf hft off = Ok (live slots)"
  using assms
proof (induction slots arbitrary: off)
  case Nil
  then have off: "off = length buf - tail"
    by (subst (asm) scan.simps) (auto split: option.splits if_splits)
  show ?case
  proof (cases "tail = 0")
    case True
    with off show ?thesis by (simp add: dir_iter.simps)
  next
    case False
    with Nil(2) have "tail = 12" "has_csum_tail buf" by (auto simp: tail_ok_def)
    then have t: "length buf = off + 12" "get_le32 off buf = 0"
      "get_le16 (off + 4) buf = 12" "buf ! (off + 6) = 0" "buf ! (off + 7) = 0xDE"
      using off by (auto simp: has_csum_tail_def Let_def split: if_splits)
    then show ?thesis by (subst dir_iter.simps) simp
  qed
next
  case (Cons sl slots)
  let ?u = "length buf - tail"
  have "off \<noteq> ?u" by (rule scan_ne [OF Cons.prems(1)])
  then have sl: "slot_at hft buf ?u off = Some sl" "scan hft buf ?u (off + sl_len sl) = Some slots"
    using scan_step [OF Cons.prems(1)] by auto
  note b = slot_at_bounds [OF sl(1)]
  have IH: "dir_iter buf hft (off + sl_len sl) = Ok (live slots)"
    using Cons.IH [OF sl(2) Cons.prems(2)] b by simp
  have fit: "off + 8 \<le> length buf" "sl_len sl \<le> length buf - off" using b by auto
  note rl = slot_at_len [OF sl(1)]
  show ?case
  proof (cases "sl_entry sl")
    case None
    with slot_at_tombstone [OF sl(1)] b fit show ?thesis
      by (subst dir_iter.simps) (auto simp: Let_def rl IH)
  next
    case (Some e)
    with slot_at_live [OF sl(1)] b fit show ?thesis
      by (subst dir_iter.simps) (simp add: Let_def rl IH not_less)
  qed
qed

section \<open>Framing\<close>

lemma slice_take_cong: "take n xs = take n ys \<Longrightarrow> j \<le> n \<Longrightarrow> slice i j xs = slice i j ys"
proof -
  assume a: "take n xs = take n ys" "j \<le> n"
  then have "take j xs = take j ys" by (metis min.absorb1 take_take)
  then show ?thesis by (cases "i \<le> j") (auto simp: slice_def take_drop)
qed

lemma slice_drop_cong: "drop n xs = drop n ys \<Longrightarrow> n \<le> i \<Longrightarrow> slice i j xs = slice i j ys"
  by (metis slice_def drop_drop le_add_diff_inverse2)

text \<open>A record depends on its own bytes only, and the chain on the bytes from its start on.\<close>

lemma slot_at_below:
  assumes "slot_at hft buf usable off = Some sl" "take n buf' = take n buf" "length buf' = length buf"
    "off + sl_len sl \<le> n"
  shows "slot_at hft buf' usable off = Some sl"
proof -
  note b = slot_at_bounds [OF assms(1)]
  have sl: "slice i j buf' = slice i j buf" if "j \<le> n" for i j
    using slice_take_cong [OF assms(2) that] .
  have nth: "buf' ! k = buf ! k" if "k < n" for k
    using assms(2) that by (metis nth_take)
  have "get_le32 off buf' = get_le32 off buf" "get_le16 (off + 4) buf' = get_le16 (off + 4) buf"
    "buf' ! (off + 6) = buf ! (off + 6)" "buf' ! (off + 7) = buf ! (off + 7)"
    using b assms(4) by (auto simp: get_field_defs intro!: sl nth arg_cong [where f = u32_from_le]
        arg_cong [where f = u16_from_le])
  moreover have "slice (off + 8) (off + 8 + m) buf' = slice (off + 8) (off + 8 + m) buf"
    if "8 + m \<le> sl_len sl" for m
    using that assms(4) by (intro sl) simp
  ultimately show ?thesis
    using assms(1,3) by (auto simp: slot_at_def Let_def split: if_splits)
qed

lemma slot_at_above:
  assumes "drop n buf' = drop n buf" "length buf' = length buf" "n \<le> off" "usable \<le> length buf"
  shows "slot_at hft buf' usable off = slot_at hft buf usable off"
proof -
  have sl: "slice i j buf' = slice i j buf" if "off \<le> i" for i j
    using slice_drop_cong [OF assms(1)] that assms(3) by simp
  have nth: "buf' ! k = buf ! k" if "off \<le> k" "k < usable" for k
    using assms that by (metis nth_drop le_trans le_add_diff_inverse less_or_eq_imp_le)
  have "get_le32 off buf' = get_le32 off buf" "get_le16 (off + 4) buf' = get_le16 (off + 4) buf"
    by (simp_all add: get_field_defs sl)
  moreover have "buf' ! (off + 6) = buf ! (off + 6)" "buf' ! (off + 7) = buf ! (off + 7)" if "off + 8 \<le> usable"
    using that nth by simp_all
  ultimately show ?thesis using assms(2) sl [of "off + 8"] by (auto simp: slot_at_def Let_def)
qed

lemma scan_above:
  assumes "drop n buf' = drop n buf" "length buf' = length buf" "n \<le> off" "usable \<le> length buf"
  shows "scan hft buf' usable off = scan hft buf usable off"
  using assms(3)
proof (induction "usable - off" arbitrary: off rule: less_induct)
  case less
  note eq = slot_at_above [OF assms(1,2) less.prems assms(4)]
  show ?case
  proof (cases "slot_at hft buf usable off")
    case None
    with eq show ?thesis by (simp add: scan.simps [of _ _ _ off])
  next
    case (Some sl)
    have "scan hft buf' usable (off + sl_len sl) = scan hft buf usable (off + sl_len sl)" if "off \<noteq> usable"
      using slot_at_bounds [OF Some] less.prems that by (intro less.hyps) auto
    with eq Some show ?thesis by (simp add: scan.simps [of _ _ _ off])
  qed
qed

section \<open>Writing a record\<close>

definition record_bytes :: "u32 \<Rightarrow> nat \<Rightarrow> bytes \<Rightarrow> dir_entry_type \<Rightarrow> bool \<Rightarrow> bytes" where
  "record_bytes inode n name ft hft =
     u32_to_le inode @ u16_to_le (word_of_nat n) @
     [word_of_nat (length name), if hft then type_byte ft else word_of_nat (length name div 256)] @
     name @ replicate (n - 8 - length name) 0"

lemma put_append:
  "off + length ys + length zs \<le> length xs \<Longrightarrow> k = off + length ys \<Longrightarrow>
   put k zs (put off ys xs) = put off (ys @ zs) xs"
  by (auto simp: put_def ac_simps)

lemma put_Nil [simp]: "put off [] xs = xs"
  by (simp add: put_def)

lemma length_record_bytes: "8 + length name \<le> n \<Longrightarrow> length (record_bytes inode n name ft hft) = n"
  by (simp add: record_bytes_def)

lemma write_entry_put:
  assumes "off + n \<le> length buf" "8 + length name \<le> n" "n < 0x10000"
  shows "write_entry buf off inode (word_of_nat n) name ft hft = Ok (put off (record_bytes inode n name ft hft) buf)"
proof -
  have n: "unat (word_of_nat n :: u16) = n" using assms(3) by (simp add: unat_of_nat)
  have fit: "off + 8 + length name \<le> length buf" using assms(1,2) by simp
  have pad: "(if off + n > off + 8 + length name
      then put_checked (off + 8 + length name) (replicate (off + n - (off + 8 + length name)) 0) b else Ok b)
     = (Ok (put (off + 8 + length name) (replicate (n - 8 - length name) 0) b) :: bytes result)"
    if "length b = length buf" for b
    using assms(1,2) that by (auto simp: put_checked_def)
  show ?thesis
    using fit assms(1,2)
    by (simp add: write_entry_def Let_def n put_checked_def pad put_append record_bytes_def)
qed

lemma from_u8_type_byte [simp]: "from_u8 (type_byte ft) = ft"
  by (cases ft) (simp_all add: from_u8_def)

lemma slice_put_inside:
  "off + length ys \<le> length xs \<Longrightarrow> j \<le> length ys \<Longrightarrow> slice (off + i) (off + j) (put off ys xs) = slice i j ys"
  by (cases "i \<le> j") (auto simp: slice_def put_def)

lemma name_len_field_written:
  "n \<le> 255 \<Longrightarrow> name_len_field hft (word_of_nat n) (if hft then b else word_of_nat (n div 256)) = n"
  by (simp add: name_len_field_def unat_of_nat)

lemma slot_at_record:
  assumes "off + n \<le> usable" "usable \<le> length buf" "8 + length name \<le> n" "n mod 4 = 0" "n < 0x10000"
    "inode \<noteq> 0" "length name \<le> 255"
  shows "slot_at hft (put off (record_bytes inode n name ft hft) buf) usable off =
    Some \<lparr>sl_off = off, sl_len = n, sl_entry = Some \<lparr>de_inode = inode, de_name = name,
      de_type = (if hft then ft else Unknown)\<rparr>\<rparr>"
proof -
  let ?r = "record_bytes inode n name ft hft" and ?b = "put off (record_bytes inode n name ft hft) buf"
  let ?b7 = "if hft then type_byte ft else word_of_nat (length name div 256)"
  have len: "length ?r = n" by (rule length_record_bytes [OF assms(3)])
  have in_put: "slice (off + i) (off + j) ?b = slice i j ?r" if "j \<le> n" for i j
    using slice_put_inside [of off ?r buf j i] len assms(1,2) that by simp
  have "get_le32 off ?b = inode"
    using in_put [of 4 0] assms(3) by (simp add: get_field_defs record_bytes_def slice_def)
  moreover have "unat (get_le16 (off + 4) ?b) = n"
    using in_put [of 6 4] assms(3,5)
    by (simp add: get_field_defs record_bytes_def slice_def unat_of_nat)
  moreover have "?b ! (off + 6) = word_of_nat (length name)" "?b ! (off + 7) = ?b7"
    using len assms(1-3) by (simp_all add: nth_put, simp_all add: record_bytes_def nth_append)
  moreover have "slice (off + 8) (off + 8 + length name) ?b = name"
    using in_put [of "8 + length name" 8] assms(3) by (simp add: record_bytes_def slice_def ac_simps)
  ultimately show ?thesis
    using assms len name_len_field_written [OF assms(7), of hft] by (simp add: slot_at_def Let_def)
qed

text \<open>Shrinking the record at \<open>off\<close> keeps its entry.\<close>

lemma slot_at_resize:
  assumes "slot_at hft buf usable off = Some sl" "off + m \<le> usable" "8 \<le> m" "m mod 4 = 0" "m < 0x10000"
    and "\<And>e. sl_entry sl = Some e \<Longrightarrow> 8 + length (de_name e) \<le> m" "sl_entry sl = None \<Longrightarrow> m \<noteq> 12"
  shows "slot_at hft (put (off + 4) (u16_to_le (word_of_nat m)) buf) usable off = Some (sl\<lparr>sl_len := m\<rparr>)"
proof -
  let ?b = "put (off + 4) (u16_to_le (word_of_nat m)) buf"
  note b = slot_at_bounds [OF assms(1)]
  have fit: "off + 4 + 2 \<le> length buf" using b by simp
  have f: "get_le32 off ?b = get_le32 off buf" "unat (get_le16 (off + 4) ?b) = m"
    "?b ! (off + 6) = buf ! (off + 6)" "?b ! (off + 7) = buf ! (off + 7)"
    using fit b assms(5) by (simp_all add: codec_simps nth_put unat_of_nat)
  have s: "slice (off + 8) j ?b = slice (off + 8) j buf" for j
    using fit by (simp add: slice_simps)
  show ?thesis
  proof (cases "sl_entry sl")
    case None
    with slot_at_tombstone [OF assms(1)] f b fit assms(2-7) show ?thesis
      by (cases sl) (simp add: slot_at_def Let_def)
  next
    case (Some x)
    let ?n = "name_len_field hft (buf ! (off + 6)) (buf ! (off + 7))"
    note lv = slot_at_live [OF assms(1) Some]
    have "8 + ?n \<le> m" using assms(6) [OF Some] slot_at_name_length [OF assms(1) Some] by simp
    with Some lv f s b fit assms(2-5) show ?thesis by (cases sl) (simp add: slot_at_def Let_def)
  qed
qed

section \<open>Adding an entry\<close>

definition free_space :: "slot \<Rightarrow> nat" where
  "free_space sl = (case sl_entry sl of None \<Rightarrow> sl_len sl
     | Some e \<Rightarrow> sl_len sl - entry_rec_len (length (de_name e)))"

lemma entry_rec_len_bounds: "8 + n \<le> entry_rec_len n" "entry_rec_len n mod 4 = 0" "entry_rec_len n \<le> 8 + n + 3"
  unfolding entry_rec_len_def by presburger+

lemma entry_rec_len_le: "8 + n \<le> m \<Longrightarrow> m mod 4 = 0 \<Longrightarrow> entry_rec_len n \<le> m"
  unfolding entry_rec_len_def by presburger

lemma drop_put_below [simp]: "off + length ys \<le> length xs \<Longrightarrow> off + length ys \<le> n \<Longrightarrow> drop n (put off ys xs) = drop n xs"
  by (simp add: put_def)

text \<open>The two ways \<open>add_loop\<close> places the new record at \<open>off\<close>.\<close>

lemma place_record:
  assumes sc: "scan hft buf usable (off + n) = Some rest" and u: "off + n \<le> usable" "usable \<le> length buf"
    and n: "entry_rec_len (length name) \<le> n" "n mod 4 = 0" "n < 0x10000"
    and new: "inode \<noteq> 0" "length name \<le> 255"
  shows "\<exists>buf'. write_entry buf off inode (word_of_nat n) name ft hft = Ok buf' \<and> length buf' = length buf \<and>
    take off buf' = take off buf \<and> drop usable buf' = drop usable buf \<and>
    scan hft buf' usable off = Some (\<lparr>sl_off = off, sl_len = n, sl_entry = Some
      \<lparr>de_inode = inode, de_name = name, de_type = (if hft then ft else Unknown)\<rparr>\<rparr> # rest)"
proof -
  let ?r = "record_bytes inode n name ft hft"
  have nm: "8 + length name \<le> n" using n(1) entry_rec_len_bounds(1) [of "length name"] by linarith
  have len: "length ?r = n" by (rule length_record_bytes [OF nm])
  have fit: "off + length ?r \<le> length buf" using u len by simp
  have "scan hft (put off ?r buf) usable (off + n) = Some rest"
    using scan_above [of "off + n" "put off ?r buf" buf "off + n" usable hft] sc fit u len by simp
  then have "scan hft (put off ?r buf) usable off = Some (\<lparr>sl_off = off, sl_len = n, sl_entry = Some
      \<lparr>de_inode = inode, de_name = name, de_type = (if hft then ft else Unknown)\<rparr>\<rparr> # rest)"
    using slot_at_record [OF u nm n(2,3) new] by (intro scan_Cons) simp_all
  with write_entry_put [OF _ nm n(3)] u fit len show ?thesis by (simp add: slice_simps)
qed

lemma take_eq_le: "take n xs = take n ys \<Longrightarrow> m \<le> n \<Longrightarrow> take m xs = take m ys"
  by (metis min.absorb1 take_take)

definition added :: "bool \<Rightarrow> bytes \<Rightarrow> nat \<Rightarrow> nat \<Rightarrow> slot list \<Rightarrow> dir_entry \<Rightarrow> bytes \<Rightarrow> bool" where
  "added hft buf usable off slots e buf' \<longleftrightarrow> length buf' = length buf \<and> take off buf' = take off buf \<and>
     drop usable buf' = drop usable buf \<and>
     (\<exists>slots' pre post. scan hft buf' usable off = Some slots' \<and> live slots = pre @ post \<and>
        live slots' = pre @ e # post)"

lemma added_later:
  assumes "added hft buf usable (off + sl_len sl) slots e buf'" "slot_at hft buf usable off = Some sl"
  shows "added hft buf usable off (sl # slots) e buf'"
proof -
  from assms(1) obtain slots' pre post where a: "length buf' = length buf"
      "take (off + sl_len sl) buf' = take (off + sl_len sl) buf" "drop usable buf' = drop usable buf"
      "scan hft buf' usable (off + sl_len sl) = Some slots'" "live slots = pre @ post" "live slots' = pre @ e # post"
    by (auto simp: added_def)
  have "slot_at hft buf' usable off = Some sl" by (rule slot_at_below [OF assms(2) a(2,1)]) simp
  from scan_Cons [OF this a(4)] have "scan hft buf' usable off = Some (sl # slots')" .
  moreover have "take off buf' = take off buf" by (rule take_eq_le [OF a(2)]) simp
  moreover define hd where "hd = (case sl_entry sl of None \<Rightarrow> [] | Some e \<Rightarrow> [e])"
  have "live (sl # slots) = (hd @ pre) @ post" "live (sl # slots') = (hd @ pre) @ e # post"
    using a(5,6) by (auto simp: hd_def split: option.split)
  ultimately show ?thesis unfolding added_def using a(1,3) by blast
qed

lemma added_tombstone:
  assumes sl: "slot_at hft buf usable off = Some sl" "sl_entry sl = None"
      "scan hft buf usable (off + sl_len sl) = Some slots"
    and room: "entry_rec_len (length name) \<le> sl_len sl" and new: "inode \<noteq> 0" "length name \<le> 255"
  shows "\<exists>buf'. write_entry buf off inode (word_of_nat (sl_len sl)) name ft hft = Ok buf' \<and>
    added hft buf usable off (sl # slots)
      \<lparr>de_inode = inode, de_name = name, de_type = (if hft then ft else Unknown)\<rparr> buf'"
proof -
  have b: "off + sl_len sl \<le> usable" "usable \<le> length buf" "sl_len sl mod 4 = 0"
    using slot_at_bounds [OF sl(1)] by simp_all
  have big: "sl_len sl < 0x10000"
    using slot_at_len [OF sl(1)] unat_u16_bound [of "get_le16 (off + 4) buf"] by simp
  from place_record [OF sl(3) b(1,2) room b(3) big new, of ft] obtain buf' where
    w: "write_entry buf off inode (word_of_nat (sl_len sl)) name ft hft = Ok buf'" "length buf' = length buf"
      "take off buf' = take off buf" "drop usable buf' = drop usable buf"
    and sc: "scan hft buf' usable off = Some (\<lparr>sl_off = off, sl_len = sl_len sl, sl_entry = Some
      \<lparr>de_inode = inode, de_name = name, de_type = (if hft then ft else Unknown)\<rparr>\<rparr> # slots)" by blast
  then show ?thesis
    using sl(2) unfolding added_def by (intro exI [of _ buf'] conjI exI [of _ "[]"] exI [of _ "live slots"] exI) auto
qed

lemma added_split:
  assumes sl: "slot_at hft buf usable off = Some sl" "sl_entry sl = Some e"
      "scan hft buf usable (off + sl_len sl) = Some slots"
    and room: "cur + entry_rec_len (length name) \<le> sl_len sl" and cur: "cur = entry_rec_len (length (de_name e))"
    and new: "inode \<noteq> 0" "length name \<le> 255"
  shows "\<exists>buf'. write_entry (put (off + 4) (u16_to_le (word_of_nat cur)) buf) (off + cur) inode
      (word_of_nat (sl_len sl - cur)) name ft hft = Ok buf' \<and>
    added hft buf usable off (sl # slots)
      \<lparr>de_inode = inode, de_name = name, de_type = (if hft then ft else Unknown)\<rparr> buf'"
proof -
  let ?b = "put (off + 4) (u16_to_le (word_of_nat cur)) buf"
  note b = slot_at_bounds [OF sl(1)]
  have big: "sl_len sl < 0x10000"
    using slot_at_len [OF sl(1)] unat_u16_bound [of "get_le16 (off + 4) buf"] by simp
  have cb: "8 \<le> cur" "cur mod 4 = 0" "8 + length (de_name e) \<le> cur" "cur \<le> sl_len sl"
    using entry_rec_len_bounds [of "length (de_name e)"] room cur by auto
  then have sm: "(sl_len sl - cur) mod 4 = 0" "entry_rec_len (length name) \<le> sl_len sl - cur"
    "sl_len sl - cur < 0x10000" "off + cur + (sl_len sl - cur) \<le> usable" "usable \<le> length ?b"
    using b room big by (presburger, auto)
  have here: "slot_at hft ?b usable off = Some (sl\<lparr>sl_len := cur\<rparr>)"
    using sl(1,2) cb b big by (intro slot_at_resize) auto
  have after: "scan hft ?b usable (off + cur + (sl_len sl - cur)) = Some slots"
    using scan_above [of "off + sl_len sl" ?b buf "off + sl_len sl" usable hft] sl(3) b cb by simp
  from place_record [OF after sm(4,5,2,1,3) new, of ft]
  obtain buf' where w: "write_entry ?b (off + cur) inode (word_of_nat (sl_len sl - cur)) name ft hft = Ok buf'"
      "length buf' = length ?b" "take (off + cur) buf' = take (off + cur) ?b" "drop usable buf' = drop usable ?b"
    and sc: "scan hft buf' usable (off + cur) = Some (\<lparr>sl_off = off + cur, sl_len = sl_len sl - cur, sl_entry = Some
      \<lparr>de_inode = inode, de_name = name, de_type = (if hft then ft else Unknown)\<rparr>\<rparr> # slots)" by blast
  have "slot_at hft buf' usable off = Some (sl\<lparr>sl_len := cur\<rparr>)"
    using slot_at_below [OF here w(3,2)] by simp
  from scan_Cons [OF this] sc have "scan hft buf' usable off = Some (sl\<lparr>sl_len := cur\<rparr> #
      \<lparr>sl_off = off + cur, sl_len = sl_len sl - cur, sl_entry = Some
      \<lparr>de_inode = inode, de_name = name, de_type = (if hft then ft else Unknown)\<rparr>\<rparr> # slots)" by simp
  moreover have "take off buf' = take off buf"
    using take_eq_le [OF w(3), of off] b by (simp add: slice_simps)
  ultimately show ?thesis
    using w b sl(2) unfolding added_def
    by (intro exI [of _ buf'] conjI exI [of _ "[e]"] exI [of _ "live slots"] exI) auto
qed

lemma add_loop_correct:
  assumes "scan hft buf usable off = Some slots" "off \<le> usable" and new: "inode \<noteq> 0" "length name \<le> 255"
  shows "case add_loop buf inode name ft hft usable (entry_rec_len (length name)) off of
     Ok buf' \<Rightarrow> added hft buf usable off slots
       \<lparr>de_inode = inode, de_name = name, de_type = (if hft then ft else Unknown)\<rparr> buf'
   | Err e \<Rightarrow> e = OutOfBounds \<and> (\<forall>sl \<in> set slots. free_space sl < entry_rec_len (length name))
   | Panic \<Rightarrow> False"
  using assms(1,2)
proof (induction slots arbitrary: off)
  case Nil
  then have "off = usable" by (subst (asm) scan.simps) (auto split: option.splits if_splits)
  then show ?case by (simp add: add_loop.simps)
next
  case (Cons sl slots)
  let ?needed = "entry_rec_len (length name)"
  have "off \<noteq> usable" by (rule scan_ne [OF Cons.prems(1)])
  then have sl: "slot_at hft buf usable off = Some sl" "scan hft buf usable (off + sl_len sl) = Some slots"
    using scan_step [OF Cons.prems(1)] by auto
  note b = slot_at_bounds [OF sl(1)] and rl = slot_at_len [OF sl(1)]
  have IH: "off + sl_len sl \<le> usable" using b by simp
  note IH = Cons.IH [OF sl(2) IH]
  have skip: ?case if "add_loop buf inode name ft hft usable ?needed off =
      add_loop buf inode name ft hft usable ?needed (off + sl_len sl)" "free_space sl < ?needed"
    using IH that added_later [OF _ sl(1)]
    by (cases "add_loop buf inode name ft hft usable ?needed (off + sl_len sl)") simp_all
  show ?case
  proof (cases "sl_entry sl")
    case None
    note t = slot_at_tombstone [OF sl(1) None]
    show ?thesis
    proof (cases "?needed \<le> sl_len sl")
      case True
      with t b added_tombstone [OF sl(1) None sl(2) True new, of ft] show ?thesis
        by (subst add_loop.simps) (auto simp: Let_def rl)
    next
      case False
      then have "free_space sl < ?needed" using None by (simp add: free_space_def)
      moreover have "add_loop buf inode name ft hft usable ?needed off =
          add_loop buf inode name ft hft usable ?needed (off + sl_len sl)"
        using False t b by (subst add_loop.simps) (simp add: Let_def rl)
      ultimately show ?thesis by (intro skip)
    qed
  next
    case (Some e)
    define cur where "cur = entry_rec_len (length (de_name e))"
    have t: "get_le32 off buf \<noteq> 0" using slot_at_live [OF sl(1) Some] by blast
    note nl = slot_at_name_length [OF sl(1) Some, symmetric]
    show ?thesis
    proof (cases "cur + ?needed \<le> sl_len sl")
      case True
      with t b added_split [OF sl(1) Some sl(2) True cur_def new, of ft] show ?thesis
        by (subst add_loop.simps) (auto simp: Let_def rl nl cur_def)
    next
      case False
      then have "free_space sl < ?needed"
        using Some entry_rec_len_bounds(1) [of "length name"] by (simp add: free_space_def cur_def)
      moreover have "add_loop buf inode name ft hft usable ?needed off =
          add_loop buf inode name ft hft usable ?needed (off + sl_len sl)"
        using False t b by (subst add_loop.simps) (simp add: Let_def rl nl cur_def)
      ultimately show ?thesis by (intro skip)
    qed
  qed
qed

section \<open>Removing an entry\<close>

text \<open>
  \<open>removed\<close>: from \<open>off\<close> on the first live entry with the name is gone, and no other.
\<close>

definition removed :: "bool \<Rightarrow> bytes \<Rightarrow> nat \<Rightarrow> nat \<Rightarrow> slot list \<Rightarrow> bytes \<Rightarrow> bytes \<Rightarrow> bool" where
  "removed hft buf usable off slots name buf' \<longleftrightarrow> length buf' = length buf \<and> take off buf' = take off buf \<and>
     drop usable buf' = drop usable buf \<and>
     (\<exists>slots' pre e post. scan hft buf' usable off = Some slots' \<and> live slots = pre @ e # post \<and>
        de_name e = name \<and> (\<forall>x \<in> set pre. de_name x \<noteq> name) \<and> live slots' = pre @ post)"

lemma removed_later:
  assumes "removed hft buf usable (off + sl_len sl) slots name buf'" "slot_at hft buf usable off = Some sl"
    and "\<And>e. sl_entry sl = Some e \<Longrightarrow> de_name e \<noteq> name"
  shows "removed hft buf usable off (sl # slots) name buf'"
proof -
  from assms(1) obtain slots' pre e post where a: "length buf' = length buf"
      "take (off + sl_len sl) buf' = take (off + sl_len sl) buf" "drop usable buf' = drop usable buf"
      "scan hft buf' usable (off + sl_len sl) = Some slots'" "live slots = pre @ e # post"
      "de_name e = name" "\<forall>x \<in> set pre. de_name x \<noteq> name" "live slots' = pre @ post"
    by (auto simp: removed_def)
  have "slot_at hft buf' usable off = Some sl" by (rule slot_at_below [OF assms(2) a(2,1)]) simp
  from scan_Cons [OF this a(4)] have "scan hft buf' usable off = Some (sl # slots')" .
  moreover have "take off buf' = take off buf" by (rule take_eq_le [OF a(2)]) simp
  moreover define hd where "hd = (case sl_entry sl of None \<Rightarrow> [] | Some e \<Rightarrow> [e])"
  have "live (sl # slots) = (hd @ pre) @ e # post" "live (sl # slots') = (hd @ pre) @ post"
    "\<forall>x \<in> set (hd @ pre). de_name x \<noteq> name"
    using a(5,7,8) assms(3) by (cases "sl_entry sl"; auto simp: hd_def)+
  ultimately show ?thesis unfolding removed_def using a(1,3,6) by blast
qed

lemma removed_first:
  assumes sl: "slot_at hft buf usable off = Some sl" "sl_entry sl = Some e"
      "scan hft buf usable (off + sl_len sl) = Some slots" and e: "de_name e \<noteq> []"
  shows "removed hft buf usable off (sl # slots) (de_name e) (put off (u32_to_le 0) buf)"
proof -
  let ?b = "put off (u32_to_le 0) buf"
  note b = slot_at_bounds [OF sl(1)]
  have fit: "off + 4 \<le> length buf" using b by simp
  have f: "get_le32 off ?b = 0" "get_le16 (off + 4) ?b = get_le16 (off + 4) buf"
    "?b ! (off + 6) = buf ! (off + 6)" "?b ! (off + 7) = buf ! (off + 7)"
    using fit b by (simp_all add: codec_simps nth_put)
  have "0 < name_len_field hft (buf ! (off + 6)) (buf ! (off + 7))"
    using slot_at_name_length [OF sl(1,2)] e by (metis length_greater_0_conv)
  then have "\<not> (sl_len sl = 12 \<and> buf ! (off + 6) = 0 \<and> buf ! (off + 7) = 0xDE)"
    using slot_at_live [OF sl(1,2)] by (auto simp: name_len_field_def split: if_splits)
  then have "slot_at hft ?b usable off = Some (sl\<lparr>sl_entry := None\<rparr>)"
    using f b fit slot_at_len [OF sl(1)] by (cases sl) (auto simp: slot_at_def Let_def)
  moreover have "scan hft ?b usable (off + sl_len sl) = Some slots"
    using scan_above [of "off + sl_len sl" ?b buf "off + sl_len sl" usable hft] sl(3) b by simp
  ultimately have "scan hft ?b usable off = Some (sl\<lparr>sl_entry := None\<rparr> # slots)"
    by (intro scan_Cons) simp_all
  then show ?thesis
    using sl(2) b fit unfolding removed_def
    by (intro conjI exI [of _ "[]"] exI [of _ e] exI [of _ "live slots"] exI) (auto simp: slice_simps)
qed

lemma removed_absorbed:
  assumes p: "slot_at hft buf usable prev = Some psl" "off = prev + sl_len psl"
    and sl: "slot_at hft buf usable off = Some sl" "sl_entry sl = Some e"
      "scan hft buf usable (off + sl_len sl) = Some slots"
    and fits: "sl_len psl + sl_len sl \<le> 0xFFFF" and other: "\<And>x. sl_entry psl = Some x \<Longrightarrow> de_name x \<noteq> de_name e"
  shows "removed hft buf usable prev (psl # sl # slots) (de_name e)
    (put off (replicate 8 0) (put (prev + 4) (u16_to_le (word_of_nat (sl_len psl + sl_len sl))) buf))"
proof -
  let ?m = "sl_len psl + sl_len sl"
  let ?w = "u16_to_le (word_of_nat ?m)" and ?z = "replicate 8 (0 :: u8)"
  let ?b = "put off ?z (put (prev + 4) ?w buf)"
  note pb = slot_at_bounds [OF p(1)] and b = slot_at_bounds [OF sl(1)]
  have comm: "?b = put (prev + 4) ?w (put off ?z buf)"
    using pb b p(2) by (intro put_put_commute) simp_all
  have len: "length ?b = length buf" using b pb by simp
  have "8 + length (de_name x) \<le> sl_len psl" if "sl_entry psl = Some x" for x
    using slot_at_live [OF p(1) that] slot_at_name_length [OF p(1) that] by simp
  moreover have "slot_at hft (put off ?z buf) usable prev = Some psl"
    using b p(2) by (intro slot_at_below [OF p(1), of off]) (simp_all add: slice_simps)
  moreover have "?m mod 4 = 0" using pb b by presburger
  ultimately have here: "slot_at hft ?b usable prev = Some (psl\<lparr>sl_len := ?m\<rparr>)"
    unfolding comm using p(2) pb b fits by (intro slot_at_resize) (auto simp: trans_le_add1)
  have "scan hft ?b usable (off + sl_len sl) = Some slots"
    using scan_above [of "off + sl_len sl" ?b buf "off + sl_len sl" usable hft] sl(3) b pb p(2) len by simp
  with here have sc: "scan hft ?b usable prev = Some (psl\<lparr>sl_len := ?m\<rparr> # slots)"
    using p(2) by (intro scan_Cons) (simp_all add: add.assoc)
  define hd where "hd = (case sl_entry psl of None \<Rightarrow> [] | Some x \<Rightarrow> [x])"
  have "live (psl # sl # slots) = hd @ e # live slots" "live (psl\<lparr>sl_len := ?m\<rparr> # slots) = hd @ live slots"
    "\<forall>x \<in> set hd. de_name x \<noteq> de_name e"
    using sl(2) other by (cases "sl_entry psl"; auto simp: hd_def)+
  moreover have "take prev ?b = take prev buf" "drop usable ?b = drop usable buf"
    using pb b p(2) by (simp_all add: slice_simps)
  ultimately show ?thesis unfolding removed_def using sc len by blast
qed

text \<open>
  The loop after its first turn, \<open>prev_off\<close> being the record \<open>psl\<close> just before \<open>off\<close>.
\<close>

lemma remove_loop_correct:
  assumes "slot_at hft buf usable prev = Some psl" "scan hft buf usable (prev + sl_len psl) = Some slots"
    and "\<And>x. sl_entry psl = Some x \<Longrightarrow> de_name x \<noteq> name" and u: "usable \<le> 0xFFFF"
  shows "case remove_loop buf name hft usable (Some prev) (prev + sl_len psl) of
     Ok (buf', flag) \<Rightarrow> if flag then removed hft buf usable prev (psl # slots) name buf'
       else buf' = buf \<and> (\<forall>e \<in> set (live slots). de_name e \<noteq> name)
   | _ \<Rightarrow> False"
  using assms(1-3)
proof (induction slots arbitrary: prev psl)
  case Nil
  then have "prev + sl_len psl = usable" by (subst (asm) scan.simps) (auto split: option.splits if_splits)
  then show ?case by (simp add: remove_loop.simps)
next
  case (Cons sl slots)
  let ?off = "prev + sl_len psl"
  have "?off \<noteq> usable" by (rule scan_ne [OF Cons.prems(2)])
  then have sl: "slot_at hft buf usable ?off = Some sl" "scan hft buf usable (?off + sl_len sl) = Some slots"
    using scan_step [OF Cons.prems(2)] by auto
  note b = slot_at_bounds [OF sl(1)] and rl = slot_at_len [OF sl(1)] and prl = slot_at_len [OF Cons.prems(1)]
  show ?case
  proof (cases "\<exists>e. sl_entry sl = Some e \<and> de_name e = name")
    case True
    then obtain e where e: "sl_entry sl = Some e" "de_name e = name" by blast
    have m: "sl_len psl + sl_len sl \<le> 0xFFFF" using b u by linarith
    have "removed hft buf usable prev (psl # sl # slots) name
        (put ?off (replicate 8 0) (put (prev + 4) (u16_to_le (word_of_nat (sl_len psl + sl_len sl))) buf))"
      using removed_absorbed [OF Cons.prems(1) refl sl(1) e(1) sl(2) m] Cons.prems(3) e(2) by simp
    moreover have "remove_loop buf name hft usable (Some prev) ?off =
        Ok (put ?off (replicate 8 0) (put (prev + 4) (u16_to_le (word_of_nat (sl_len psl + sl_len sl))) buf), True)"
      using slot_at_live [OF sl(1) e(1)] b e(2) m by (subst remove_loop.simps) (auto simp: Let_def rl prl)
    ultimately show ?thesis by simp
  next
    case False
    then have ne: "\<And>x. sl_entry sl = Some x \<Longrightarrow> de_name x \<noteq> name" by blast
    have "remove_loop buf name hft usable (Some prev) ?off =
        remove_loop buf name hft usable (Some ?off) (?off + sl_len sl)"
    proof (cases "sl_entry sl")
      case None
      with slot_at_tombstone [OF sl(1)] b show ?thesis by (subst remove_loop.simps) (simp add: Let_def rl)
    next
      case (Some e)
      with slot_at_live [OF sl(1)] b ne show ?thesis by (subst remove_loop.simps) (auto simp: Let_def rl)
    qed
    moreover have "\<forall>x \<in> set (case sl_entry sl of None \<Rightarrow> [] | Some e \<Rightarrow> [e]). de_name x \<noteq> name"
      using ne by (cases "sl_entry sl") auto
    ultimately show ?thesis
      using Cons.IH [OF sl ne] removed_later [OF _ Cons.prems(1)] Cons.prems(3)
      by (cases "remove_loop buf name hft usable (Some ?off) (?off + sl_len sl)")
        (auto split: if_splits)
  qed
qed

section \<open>Whole blocks\<close>

lemma has_csum_tail_cong:
  assumes "drop (length buf - 12) buf' = drop (length buf - 12) buf" "length buf' = length buf"
  shows "has_csum_tail buf' = has_csum_tail buf"
proof -
  let ?o = "length buf - 12"
  have s: "slice i j buf' = slice i j buf" if "?o \<le> i" for i j by (rule slice_drop_cong [OF assms(1) that])
  have n: "buf' ! (?o + k) = buf ! (?o + k)" if "12 \<le> length buf" "k < 12" for k
  proof -
    have "drop ?o buf' ! k = drop ?o buf ! k" by (simp only: assms(1))
    with that assms(2) show ?thesis by simp
  qed
  show ?thesis
    using assms(2) s n [of 6] n [of 7] by (simp add: has_csum_tail_def get_field_defs Let_def)
qed

lemma tail_ok_cong:
  "drop (length buf - tail) buf' = drop (length buf - tail) buf \<Longrightarrow> length buf' = length buf \<Longrightarrow>
   tail_ok buf tail \<Longrightarrow> tail_ok buf' tail"
  using has_csum_tail_cong [of buf buf'] by (auto simp: tail_ok_def)

lemma scan_slot_bounds: "scan hft buf usable off = Some slots \<Longrightarrow> sl \<in> set slots \<Longrightarrow> sl_len sl \<le> usable"
proof (induction slots arbitrary: off)
  case (Cons x xs)
  have "off \<noteq> usable" by (rule scan_ne [OF Cons.prems(1)])
  then have x: "slot_at hft buf usable off = Some x" "scan hft buf usable (off + sl_len x) = Some xs"
    using scan_step [OF Cons.prems(1)] by auto
  show ?case
    using Cons.IH [OF x(2)] Cons.prems(2) slot_at_bounds [OF x(1)] by auto
qed simp

definition block_ok :: "bool \<Rightarrow> bytes \<Rightarrow> nat \<Rightarrow> bool" where
  "block_ok hft buf tail \<longleftrightarrow> tail \<le> length buf \<and> tail_ok buf tail \<and> scan hft buf (length buf - tail) 0 \<noteq> None"

lemma block_okE:
  assumes "block_ok hft buf tail"
  obtains slots where "scan hft buf (length buf - tail) 0 = Some slots" "parse_block buf hft = Ok (live slots)"
    "tail_ok buf tail" "tail \<le> length buf"
  using assms scan_iter [of hft buf tail 0] by (auto simp: block_ok_def parse_block_def)

text \<open>How the two results of a loop over the whole block are read back.\<close>

lemma added_parses:
  assumes "added hft buf (length buf - tail) 0 slots e buf'" "tail_ok buf tail" "tail \<le> length buf"
  shows "\<exists>pre post. live slots = pre @ post \<and> parse_block buf' hft = Ok (pre @ e # post) \<and> block_ok hft buf' tail"
proof -
  from assms(1) obtain slots' pre post where a: "length buf' = length buf"
      "drop (length buf - tail) buf' = drop (length buf - tail) buf"
      "scan hft buf' (length buf' - tail) 0 = Some slots'" "live slots = pre @ post" "live slots' = pre @ e # post"
    by (auto simp: added_def)
  with tail_ok_cong [OF a(2,1) assms(2)] scan_iter [OF a(3)] assms(3) show ?thesis
    by (auto simp: parse_block_def block_ok_def)
qed

lemma removed_parses:
  assumes "removed hft buf (length buf - tail) 0 slots name buf'" "tail_ok buf tail" "tail \<le> length buf"
  shows "\<exists>pre e post. live slots = pre @ e # post \<and> de_name e = name \<and> (\<forall>x \<in> set pre. de_name x \<noteq> name) \<and>
    parse_block buf' hft = Ok (pre @ post) \<and> block_ok hft buf' tail"
proof -
  from assms(1) obtain slots' pre e post where a: "length buf' = length buf"
      "drop (length buf - tail) buf' = drop (length buf - tail) buf"
      "scan hft buf' (length buf' - tail) 0 = Some slots'" "live slots = pre @ e # post" "live slots' = pre @ post"
      "de_name e = name" "\<forall>x \<in> set pre. de_name x \<noteq> name"
    by (auto simp: removed_def)
  with tail_ok_cong [OF a(2,1) assms(2)] scan_iter [OF a(3)] assms(3) show ?thesis
    by (auto simp: parse_block_def block_ok_def)
qed

lemma add_entry_cases:
  assumes "scan hft buf (length buf - tail) 0 = Some slots" "tail \<le> length buf" "inode \<noteq> 0"
    "name \<noteq> []" "length name \<le> 255"
  shows "case add_entry_to_block buf inode name ft hft tail of
     Ok buf' \<Rightarrow> added hft buf (length buf - tail) 0 slots
       \<lparr>de_inode = inode, de_name = name, de_type = (if hft then ft else Unknown)\<rparr> buf'
   | Err e \<Rightarrow> e = OutOfBounds \<and> (\<forall>sl \<in> set slots. free_space sl < entry_rec_len (length name))
   | Panic \<Rightarrow> False"
proof (cases "entry_rec_len (length name) > length buf - tail")
  case True
  have "free_space sl \<le> sl_len sl" for sl by (auto simp: free_space_def split: option.split)
  with True scan_slot_bounds [OF assms(1)] have "\<forall>sl \<in> set slots. free_space sl < entry_rec_len (length name)"
    by (meson le_less_trans)
  with True assms show ?thesis by (simp add: add_entry_to_block_def Let_def)
next
  case False
  with assms add_loop_correct [OF assms(1) _ assms(3,5)] show ?thesis
    by (simp add: add_entry_to_block_def Let_def)
qed

lemma remove_entry_cases:
  assumes sc: "scan hft buf (length buf - tail) 0 = Some slots" and t: "tail \<le> length buf" and n: "name \<noteq> []"
    and u: "length buf - tail \<le> 0xFFFF"
  shows "case remove_entry_from_block buf name hft tail of
     Ok (buf', flag) \<Rightarrow> if flag then removed hft buf (length buf - tail) 0 slots name buf'
       else buf' = buf \<and> (\<forall>e \<in> set (live slots). de_name e \<noteq> name)
   | _ \<Rightarrow> False"
proof (cases slots)
  case Nil
  with sc have "length buf - tail = 0" by (subst (asm) scan.simps) (auto split: option.splits if_splits)
  with t Nil show ?thesis by (simp add: remove_entry_from_block_def remove_loop.simps)
next
  case (Cons sl rest)
  let ?u = "length buf - tail"
  have "0 \<noteq> ?u" using scan_ne [OF sc [unfolded Cons]] .
  then have sl: "slot_at hft buf ?u 0 = Some sl" "scan hft buf ?u (0 + sl_len sl) = Some rest"
    using scan_step [OF sc] Cons by auto
  note b = slot_at_bounds [OF sl(1)] and rl = slot_at_len [OF sl(1)]
  show ?thesis
  proof (cases "\<exists>e. sl_entry sl = Some e \<and> de_name e = name")
    case True
    then obtain e where e: "sl_entry sl = Some e" "de_name e = name" by blast
    have "remove_loop buf name hft ?u None 0 = Ok (put 0 (u32_to_le 0) buf, True)"
      using slot_at_live [OF sl(1) e(1)] b e(2) rl by (subst remove_loop.simps) (auto simp: Let_def)
    with removed_first [OF sl(1) e(1) sl(2)] e(2) n t Cons show ?thesis
      by (simp add: remove_entry_from_block_def)
  next
    case False
    then have ne: "\<And>x. sl_entry sl = Some x \<Longrightarrow> de_name x \<noteq> name" by blast
    have "remove_loop buf name hft ?u None 0 = remove_loop buf name hft ?u (Some 0) (0 + sl_len sl)"
    proof (cases "sl_entry sl")
      case None
      with slot_at_tombstone [OF sl(1)] b rl show ?thesis by (subst remove_loop.simps) (simp add: Let_def)
    next
      case (Some e)
      with slot_at_live [OF sl(1)] b ne rl show ?thesis by (subst remove_loop.simps) (auto simp: Let_def)
    qed
    moreover have "\<forall>x \<in> set (case sl_entry sl of None \<Rightarrow> [] | Some e \<Rightarrow> [e]). de_name x \<noteq> name"
      using ne by (cases "sl_entry sl") auto
    ultimately show ?thesis
      using remove_loop_correct [OF sl ne u] t Cons
      by (cases "remove_loop buf name hft ?u (Some 0) (0 + sl_len sl)")
        (auto simp: remove_entry_from_block_def split: if_splits)
  qed
qed

lemma split_unique:
  assumes "xs @ a # ys = us @ b # vs" "P a" "P b" "\<forall>x \<in> set xs. \<not> P x" "\<forall>x \<in> set us. \<not> P x"
  shows "xs = us \<and> a = b \<and> ys = vs"
  using assms
proof (induction xs arbitrary: us)
  case Nil
  then show ?case by (cases us) auto
next
  case (Cons x xs)
  then show ?case by (cases us) auto
qed

lemma scan_below:
  "scan hft buf usable off = Some slots \<Longrightarrow> off \<le> usable \<Longrightarrow> take usable buf' = take usable buf \<Longrightarrow>
   length buf' = length buf \<Longrightarrow> scan hft buf' usable off = Some slots"
proof (induction slots arbitrary: off)
  case Nil
  then have "off = usable" by (subst (asm) scan.simps) (auto split: option.splits if_splits)
  then show ?case by simp
next
  case (Cons sl slots)
  have "off \<noteq> usable" by (rule scan_ne [OF Cons.prems(1)])
  then have sl: "slot_at hft buf usable off = Some sl" "scan hft buf usable (off + sl_len sl) = Some slots"
    using scan_step [OF Cons.prems(1)] by auto
  have "off + sl_len sl \<le> usable" using slot_at_bounds [OF sl(1)] by simp
  with slot_at_below [OF sl(1) Cons.prems(3,4)] Cons.IH [OF sl(2)] Cons.prems(3,4) show ?case
    by (intro scan_Cons) simp_all
qed

lemma patched_has_tail:
  assumes "enabled cs" "12 \<le> length buf"
  shows "has_csum_tail (fst (patch_dir_entry_tail crc cs ino g buf))"
proof -
  obtain o' where o: "length buf = o' + 12" using assms(2) by (metis add.commute le_Suc_ex)
  show ?thesis
    using assms(1)
    by (simp add: patch_dir_entry_tail_def has_csum_tail_def Let_def o codec_simps nth_put
        DIR_ENTRY_TAIL_FILE_TYPE_def add.commute [of 4 o'])
qed

section \<open>Properties\<close>

text \<open>
  C17. Adding an entry to a well-formed directory block: the block stays well formed, its
  reserved tail keeps its bytes, and a reader sees exactly the entries it saw before plus the
  new one at one place among them. The only failure is that no record has room: every
  tombstone is shorter than the new record and every entry has less than that free after it.
\<close>

theorem add_entry_correct:
  assumes "block_ok hft buf tail" "inode \<noteq> 0" "name \<noteq> []" "length name \<le> 255"
  shows "case add_entry_to_block buf inode name ft hft tail of
     Ok buf' \<Rightarrow> block_ok hft buf' tail \<and> length buf' = length buf \<and>
       drop (length buf - tail) buf' = drop (length buf - tail) buf \<and>
       (\<exists>pre post. parse_block buf hft = Ok (pre @ post) \<and>
          parse_block buf' hft = Ok (pre @ \<lparr>de_inode = inode, de_name = name,
            de_type = (if hft then ft else Unknown)\<rparr> # post))
   | Err e \<Rightarrow> e = OutOfBounds \<and> (\<exists>slots. scan hft buf (length buf - tail) 0 = Some slots \<and>
       (\<forall>sl \<in> set slots. free_space sl < entry_rec_len (length name)))
   | Panic \<Rightarrow> False"
proof -
  from assms(1) obtain slots where sc: "scan hft buf (length buf - tail) 0 = Some slots"
    and p: "parse_block buf hft = Ok (live slots)" and t: "tail_ok buf tail" "tail \<le> length buf"
    by (rule block_okE)
  let ?e = "\<lparr>de_inode = inode, de_name = name, de_type = (if hft then ft else Unknown)\<rparr>"
  note c = add_entry_cases [OF sc t(2) assms(2-4), of ft]
  show ?thesis
  proof (cases "add_entry_to_block buf inode name ft hft tail")
    case (Ok buf')
    with c have a: "added hft buf (length buf - tail) 0 slots ?e buf'" by simp
    have same: "length buf' = length buf \<and> drop (length buf - tail) buf' = drop (length buf - tail) buf"
      using a by (simp add: added_def)
    from added_parses [OF a t] obtain pre post where "live slots = pre @ post"
      "parse_block buf' hft = Ok (pre @ ?e # post)" "block_ok hft buf' tail" by blast
    with same Ok p show ?thesis by simp blast
  qed (use c sc in auto)
qed

text \<open>
  C31. Removing a name from a well-formed directory block takes out exactly the first entry of
  that name, keeps every other entry in order and leaves the block well formed; it
  reports that nothing was removed, and leaves the block untouched, exactly when no entry has the
  name. It neither fails nor panics.
\<close>

theorem remove_entry_correct:
  assumes "block_ok hft buf tail" "name \<noteq> []" "length buf - tail \<le> 0xFFFF"
  shows "case remove_entry_from_block buf name hft tail of
     Ok (buf', True) \<Rightarrow> block_ok hft buf' tail \<and> length buf' = length buf \<and>
       (\<exists>pre e post. parse_block buf hft = Ok (pre @ e # post) \<and> de_name e = name \<and>
          (\<forall>x \<in> set pre. de_name x \<noteq> name) \<and> parse_block buf' hft = Ok (pre @ post))
   | Ok (buf', False) \<Rightarrow> buf' = buf \<and>
       (\<exists>es. parse_block buf hft = Ok es \<and> (\<forall>e \<in> set es. de_name e \<noteq> name))
   | _ \<Rightarrow> False"
proof -
  from assms(1) obtain slots where sc: "scan hft buf (length buf - tail) 0 = Some slots"
    and p: "parse_block buf hft = Ok (live slots)" and t: "tail_ok buf tail" "tail \<le> length buf"
    by (rule block_okE)
  note c = remove_entry_cases [OF sc t(2) assms(2,3)]
  show ?thesis
  proof (cases "remove_entry_from_block buf name hft tail")
    case (Ok r)
    obtain buf' flag where r: "r = (buf', flag)" by (cases r)
    show ?thesis
    proof (cases flag)
      case True
      with c Ok r have d: "removed hft buf (length buf - tail) 0 slots name buf'" by simp
      have "length buf' = length buf" using d by (simp add: removed_def)
      moreover from removed_parses [OF d t] obtain pre e post where "live slots = pre @ e # post" "de_name e = name"
        "\<forall>x \<in> set pre. de_name x \<noteq> name" "parse_block buf' hft = Ok (pre @ post)" "block_ok hft buf' tail" by blast
      ultimately show ?thesis using Ok r True p by simp blast
    next
      case False
      with c Ok r p show ?thesis by auto
    qed
  qed (use c in auto)
qed

text \<open>
  Adding an entry under a name the block does not hold and then removing that name gives
  back a block that reads as the original one.
\<close>

theorem add_remove_roundtrip:
  assumes "block_ok hft buf tail" "inode \<noteq> 0" "name \<noteq> []" "length name \<le> 255" "length buf - tail \<le> 0xFFFF"
    and "parse_block buf hft = Ok es" "name \<notin> de_name ` set es"
    and "add_entry_to_block buf inode name ft hft tail = Ok buf'"
  shows "\<exists>buf''. remove_entry_from_block buf' name hft tail = Ok (buf'', True) \<and>
    parse_block buf'' hft = parse_block buf hft"
proof -
  from assms(1) obtain slots where sc: "scan hft buf (length buf - tail) 0 = Some slots"
    and p: "parse_block buf hft = Ok (live slots)" and t: "tail_ok buf tail" "tail \<le> length buf"
    by (rule block_okE)
  let ?e = "\<lparr>de_inode = inode, de_name = name, de_type = (if hft then ft else Unknown)\<rparr>"
  have a: "added hft buf (length buf - tail) 0 slots ?e buf'"
    using add_entry_cases [OF sc t(2) assms(2-4), of ft] assms(8) by simp
  from added_parses [OF a t] obtain pre post where pp: "live slots = pre @ post"
    "parse_block buf' hft = Ok (pre @ ?e # post)" "block_ok hft buf' tail" by blast
  from pp(3) obtain slots' where sc': "scan hft buf' (length buf' - tail) 0 = Some slots'"
    and p': "parse_block buf' hft = Ok (live slots')" and t': "tail_ok buf' tail" "tail \<le> length buf'"
    by (rule block_okE)
  have len: "length buf' = length buf" using a by (simp add: added_def)
  have lv: "live slots' = pre @ ?e # post" using p' pp(2) by simp
  have fresh: "\<forall>x \<in> set pre \<union> set post. de_name x \<noteq> name" using assms(6,7) p pp(1) by auto
  note c = remove_entry_cases [OF sc' t'(2) assms(3)]
  from c assms(5) len lv obtain buf'' where rm: "remove_entry_from_block buf' name hft tail = Ok (buf'', True)"
    and d: "removed hft buf' (length buf' - tail) 0 slots' name buf''"
    by (auto split: outcome.splits if_splits)
  from removed_parses [OF d t'] obtain pre' x post' where q: "live slots' = pre' @ x # post'" "de_name x = name"
    "\<forall>y \<in> set pre'. de_name y \<noteq> name" "parse_block buf'' hft = Ok (pre' @ post')" by blast
  have "pre' @ post' = pre @ post"
    using split_unique [where P = "\<lambda>y. de_name y = name" and xs = pre and a = ?e and ys = post
        and us = pre' and b = x and vs = post'] q lv fresh by auto
  with q(4) rm p pp(1) show ?thesis by auto
qed

text \<open>
  A directory block stamped with its checksum tail reads back, through the verifying reader,
  as exactly the entries of its records: the stamp makes the tail recognisable, its checksum
  is accepted, and the records before it are untouched.
\<close>

theorem stamped_block_reads_back:
  assumes "enabled cs" "12 \<le> length buf" "scan hft buf (length buf - 12) 0 = Some slots"
  shows "parse_block_verified crc (fst (patch_dir_entry_tail crc cs ino g buf)) hft ino g cs = Ok (live slots) \<and>
    block_ok hft (fst (patch_dir_entry_tail crc cs ino g buf)) 12"
proof -
  let ?b = "fst (patch_dir_entry_tail crc cs ino g buf)"
  have len: "length ?b = length buf" by (rule dir_tail.patch_length)
  have sc: "scan hft ?b (length ?b - 12) 0 = Some slots"
    using scan_below [OF assms(3) _ dir_tail.patch_body len] len by simp
  have t: "tail_ok ?b 12" using patched_has_tail [OF assms(1,2)] by (simp add: tail_ok_def)
  have "verify_dir_entry_tail crc cs ino g ?b" by (rule dir_tail.patch_verifies [OF assms(2)])
  moreover have "dir_iter ?b hft 0 = Ok (live slots)" by (rule scan_iter [OF sc t]) simp
  ultimately show ?thesis
    using sc t len assms(2) by (simp add: parse_block_verified_def parse_block_def block_ok_def)
qed

section \<open>A concrete block for the witnesses\<close>

definition example_block :: bytes where
  "example_block = [11, 0, 0, 0, 36, 0, 1, 1, 97, 0, 0, 0] @ replicate 24 0 @
     [0, 0, 0, 0, 12, 0, 0, 0xDE, 0, 0, 0, 0]"

definition example_dirent :: dir_entry where
  "example_dirent = \<lparr>de_inode = 11, de_name = [97], de_type = RegFile\<rparr>"

lemma example_scan:
  "scan True example_block 36 0 = Some [\<lparr>sl_off = 0, sl_len = 36, sl_entry = Some example_dirent\<rparr>]"
proof -
  have "slot_at True example_block 36 0 = Some \<lparr>sl_off = 0, sl_len = 36, sl_entry = Some example_dirent\<rparr>"
    by (simp add: slot_at_def example_block_def example_dirent_def get_field_defs slice_def u32_from_le_def
        u16_from_le_def name_len_field_def from_u8_def)
  then show ?thesis by (intro scan_Cons) simp_all
qed

lemma example_block_length [simp]: "length example_block = 48"
  by (simp add: example_block_def)

lemma example_block_ok: "block_ok True example_block 12"
proof -
  have "has_csum_tail example_block"
    by (simp add: has_csum_tail_def example_block_def get_field_defs slice_def u32_from_le_def u16_from_le_def nth_append)
  then show ?thesis using example_scan by (simp add: block_ok_def tail_ok_def)
qed

lemma example_parse: "parse_block example_block True = Ok [example_dirent]"
proof -
  obtain slots where "scan True example_block (length example_block - 12) 0 = Some slots"
    "parse_block example_block True = Ok (live slots)" using example_block_ok by (rule block_okE)
  then show ?thesis using example_scan by auto
qed

lemma example_add:
  "\<exists>buf'. add_entry_to_block example_block 12 [98, 99] Directory True 12 = Ok buf'"
proof -
  have "\<not> (\<forall>sl \<in> set [\<lparr>sl_off = 0, sl_len = 36, sl_entry = Some example_dirent\<rparr>].
      free_space sl < entry_rec_len (length [98 :: u8, 99]))"
    by (simp add: free_space_def entry_rec_len_def example_dirent_def)
  with add_entry_cases [of True example_block 12 _ 12 "[98, 99]" Directory] example_scan show ?thesis
    by (cases "add_entry_to_block example_block 12 [98, 99] Directory True 12") auto
qed

theorem add_entry_correct_witness:
  "block_ok True example_block 12 \<and> (\<exists>buf' pre post.
     add_entry_to_block example_block 12 [98, 99] Directory True 12 = Ok buf' \<and> block_ok True buf' 12 \<and>
     [example_dirent] = pre @ post \<and>
     parse_block buf' True = Ok (pre @ \<lparr>de_inode = 12, de_name = [98, 99], de_type = Directory\<rparr> # post))"
  using add_entry_correct [OF example_block_ok, of 12 "[98, 99]" Directory] example_add example_block_ok example_parse
  by (auto split: outcome.splits)

theorem remove_entry_correct_witness:
  "block_ok True example_block 12 \<and>
   (\<exists>buf'. remove_entry_from_block example_block [97] True 12 = Ok (buf', True) \<and> parse_block buf' True = Ok [])"
proof -
  note th = remove_entry_correct [OF example_block_ok, of "[97]"]
  have one: "pre = [] \<and> post = []" if "[example_dirent] = pre @ e # post" for pre e post
    using that by (auto simp: Cons_eq_append_conv)
  show ?thesis
  proof (cases "remove_entry_from_block example_block [97] True 12")
    case (Ok r)
    obtain buf' flag where r: "r = (buf', flag)" by (cases r)
    show ?thesis
    proof (cases flag)
      case True
      with th Ok r obtain pre e post where "parse_block example_block True = Ok (pre @ e # post)"
        "parse_block buf' True = Ok (pre @ post)" by auto
      with one [of pre e post] Ok r True example_block_ok show ?thesis by (simp add: example_parse)
    next
      case False
      with th Ok r show ?thesis by (simp add: example_parse, simp add: example_dirent_def)
    qed
  qed (use th in auto)
qed

theorem add_remove_roundtrip_witness:
  "\<exists>buf' buf''. add_entry_to_block example_block 12 [98, 99] Directory True 12 = Ok buf' \<and>
     remove_entry_from_block buf' [98, 99] True 12 = Ok (buf'', True) \<and>
     parse_block buf'' True = parse_block example_block True"
proof -
  obtain buf' where a: "add_entry_to_block example_block 12 [98, 99] Directory True 12 = Ok buf'"
    using example_add by blast
  from add_remove_roundtrip [OF example_block_ok _ _ _ _ example_parse _ a] a show ?thesis
    by (simp add: example_dirent_def)
qed

theorem stamped_block_reads_back_witness:
  "parse_block_verified (\<lambda>s d. s + of_nat (length d))
     (fst (patch_dir_entry_tail (\<lambda>s d. s + of_nat (length d)) \<lparr>seed = 7, enabled = True\<rparr> 2 0 example_block))
     True 2 0 \<lparr>seed = 7, enabled = True\<rparr> = Ok [example_dirent]"
  using stamped_block_reads_back [where cs = "\<lparr>seed = 7, enabled = True\<rparr>" and buf = example_block and hft = True
      and crc = "\<lambda>s d. s + of_nat (length d)" and ino = 2 and g = 0] example_scan
  by simp

end
