(* ===== verification/File_IO.thy ===== *)
theory File_IO
  imports Indirect Xattr Bgd Dir
begin

unbundle bit_operations_syntax

text \<open>
  Reading files (\<open>src/file_io.rs\<close>, \<open>src/inline_data.rs\<close>, \<open>src/ea_inode.rs\<close>, and the readers of inodes in \<open>src/fs.rs\<close>): the
  loop that walks a byte range block by block through the extent tree or the indirect blocks, with the two caches it keeps,
  the whole-file reads with their ceiling, files stored inside their inode, and attribute values stored in inodes of their own.
  The filesystem is what these functions use of it: superblock, descriptors, checksummer, the device's reads and its size.
\<close>

record fs_view =
  fv_sb :: superblock
  fv_groups :: "bgd list"
  fv_csum :: checksummer
  fv_dev :: reader
  fv_dev_size :: u64

section \<open>Refusals\<close>

definition refuse_encrypted :: "inode \<Rightarrow> unit result" where
  "refuse_encrypted ino =
     (if i_flags ino AND ENCRYPT_FL \<noteq> 0 \<and> \<not> is_dir ino
      then Err (Unsupported ''the file is encrypted (EXT4_ENCRYPT_FL) and this driver holds no key'') else Ok ())"

definition refuse_encrypted_names :: "inode \<Rightarrow> unit result" where
  "refuse_encrypted_names dir =
     (if i_flags dir AND ENCRYPT_FL \<noteq> 0
      then Err (Unsupported ''the directory's names are encrypted (EXT4_ENCRYPT_FL) and this driver holds no key'') else Ok ())"

section \<open>The read loop\<close>

record read_caches =
  rc_extent :: "extent option"
  rc_indirect :: indirect_cache

definition phys_byte_offset :: "ext4_error \<Rightarrow> u64 \<Rightarrow> u32 \<Rightarrow> nat \<Rightarrow> u64 result" where
  "phys_byte_offset err physical bs off =
     ok_or (Option.bind (checked_mul physical (ucast bs)) (\<lambda>b. checked_add b (word_of_nat off))) err"

text \<open>The extent of a block: the cached one while it holds the block, else a fresh lookup, which replaces it.\<close>

definition cached_lookup :: "crc_fn \<Rightarrow> fs_view \<Rightarrow> inode \<Rightarrow> verify_ctx option \<Rightarrow> u64 \<Rightarrow> read_caches \<Rightarrow> (read_caches, extent option) dev_result" where
  "cached_lookup crc fs ino ctx logical c =
     (if (case rc_extent c of Some e \<Rightarrow> contains e logical | None \<Rightarrow> False) then (Ok (rc_extent c), c)
      else case lookup_verified crc (i_block_area ino) (fv_dev fs) (block_size (fv_sb fs)) logical ctx of
        Ok fresh \<Rightarrow> (Ok fresh, c\<lparr>rc_extent := fresh\<rparr>)
      | Err e \<Rightarrow> (Err e, c)
      | Panic \<Rightarrow> (Panic, c))"

text \<open>The bytes of one piece, which lies in one block: what the loop's body stores into \<open>dst\<close>.\<close>

definition read_piece :: "crc_fn \<Rightarrow> fs_view \<Rightarrow> inode \<Rightarrow> verify_ctx option \<Rightarrow> u64 \<Rightarrow> nat \<Rightarrow> nat \<Rightarrow> read_caches \<Rightarrow> (read_caches, bytes) dev_result" where
  "read_piece crc fs ino ctx logical off copy_len c =
     (let bs = block_size (fv_sb fs);
          fetch = (\<lambda>err physical. and_then (phys_byte_offset err physical bs off) (\<lambda>pos. fv_dev fs pos copy_len)) in
      if i_flags ino AND EXTENTS_FL \<noteq> 0
      then st_bind (cached_lookup crc fs ino ctx logical c) (\<lambda>ext_opt c.
        case ext_opt of
          None \<Rightarrow> (Ok (replicate copy_len 0), c)
        | Some e \<Rightarrow>
            if uninitialized e then (Ok (replicate copy_len 0), c)
            else (fetch (CorruptExtentTree ''physical block offset overflow'') (map_block e logical), c))
      else let (r, ic) = ind_lookup (i_block_area ino) (fv_dev fs) bs logical (rc_indirect c); c = c\<lparr>rc_indirect := ic\<rparr> in
        st_bind (r, c) (\<lambda>phys_opt c.
        case phys_opt of
          None \<Rightarrow> (Ok (replicate copy_len 0), c)
        | Some physical \<Rightarrow> (fetch (Corrupt ''indirect: physical block offset overflow'') physical, c)))"

text \<open>
  The loop over the blocks of the range. Offsets are natural numbers: they stay below the file's size, a \<open>u64\<close>. A block size
  of zero would unwind at the division.
\<close>

function read_loop :: "crc_fn \<Rightarrow> fs_view \<Rightarrow> inode \<Rightarrow> verify_ctx option \<Rightarrow> nat \<Rightarrow> nat \<Rightarrow> nat \<Rightarrow> read_caches \<Rightarrow> bytes \<Rightarrow> (bytes, nat) dev_result" where
  "read_loop crc fs ino ctx cur fin written c out =
     (if \<not> cur < fin then (Ok written, out)
      else let bs = unat (block_size (fv_sb fs)) in
        if bs = 0 then (Panic, out)
        else let logical = cur div bs; off = cur mod bs; copy_len = min (bs - off) (fin - cur);
                 (r, c) = read_piece crc fs ino ctx (word_of_nat logical) off copy_len c in
          st_bind (r, out) (\<lambda>data out.
          read_loop crc fs ino ctx (cur + copy_len) fin (written + copy_len) c (put written data out)))"
  by pat_completeness auto
termination
proof (relation "measure (\<lambda>(crc, fs, ino, ctx, cur, fin, written, c, out). fin - cur)", goal_cases)
  case (2 crc fs ino ctx cur fin written c out bs logical off copy_len rc r c' data out')
  then have "0 < copy_len" "cur < fin" by simp_all
  then show ?case by simp
qed simp

declare read_loop.simps [simp del]

text \<open>\<open>read\<close> and \<open>read_verified\<close> are the same code over the two lookups; \<open>ctx\<close> is the latter's.\<close>

definition read_core :: "crc_fn \<Rightarrow> fs_view \<Rightarrow> inode \<Rightarrow> verify_ctx option \<Rightarrow> u64 \<Rightarrow> u64 \<Rightarrow> bytes \<Rightarrow> (bytes, nat) dev_result" where
  "read_core crc fs ino ctx offset n out =
     st_bind (refuse_encrypted ino, out) (\<lambda>_ out.
     if n = 0 \<or> out = [] then (Ok 0, out)
     else if i_flags ino AND INLINE_DATA_FL \<noteq> 0
     then (Err (Corrupt ''inline-data file: caller must use file_io::read_inline with raw inode bytes''), out)
     else if offset \<ge> i_size ino then (Ok 0, out)
     else let max_read = min (min (unat (i_size ino) - unat offset) (unat n)) (length out) in
       if max_read = 0 then (Ok 0, out)
       else read_loop crc fs ino ctx (unat offset) (unat offset + max_read) 0 \<lparr>rc_extent = None, rc_indirect = ic_new\<rparr> out)"

definition file_read :: "crc_fn \<Rightarrow> fs_view \<Rightarrow> inode \<Rightarrow> u64 \<Rightarrow> u64 \<Rightarrow> bytes \<Rightarrow> (bytes, nat) dev_result" where
  "file_read crc fs ino offset n out = read_core crc fs ino None offset n out"

definition file_read_verified :: "crc_fn \<Rightarrow> fs_view \<Rightarrow> inode \<Rightarrow> u32 \<Rightarrow> u64 \<Rightarrow> u64 \<Rightarrow> bytes \<Rightarrow> (bytes, nat) dev_result" where
  "file_read_verified crc fs ino num offset n out =
     read_core crc fs ino (Some \<lparr>ctx_ino = num, ctx_generation = i_generation ino, ctx_csum = fv_csum fs\<rparr>) offset n out"

section \<open>What a file holds\<close>

text \<open>
  The block a logical block is mapped to, the bytes of a file over the image of the device, and the files the property is about:
  a well-formed extent tree or block pointers of a block size of the format, all of whose blocks in the range lie on the device.
\<close>

definition block_of :: "crc_fn \<Rightarrow> fs_view \<Rightarrow> inode \<Rightarrow> verify_ctx option \<Rightarrow> u64 \<Rightarrow> u64 option result" where
  "block_of crc fs ino ctx l =
     (if i_flags ino AND EXTENTS_FL \<noteq> 0 then map_logical_verified crc (i_block_area ino) (fv_dev fs) (block_size (fv_sb fs)) l ctx
      else fst (ind_lookup (i_block_area ino) (fv_dev fs) (block_size (fv_sb fs)) l ic_new))"

definition stored :: "crc_fn \<Rightarrow> fs_view \<Rightarrow> inode \<Rightarrow> verify_ctx option \<Rightarrow> bytes \<Rightarrow> nat \<Rightarrow> u8" where
  "stored crc fs ino ctx img k =
     (let bs = unat (block_size (fv_sb fs)) in
      case block_of crc fs ino ctx (word_of_nat (k div bs)) of Ok (Some p) \<Rightarrow> img ! (unat p * bs + k mod bs) | _ \<Rightarrow> 0)"

definition map_ok_for :: "crc_fn \<Rightarrow> fs_view \<Rightarrow> inode \<Rightarrow> verify_ctx option \<Rightarrow> bool" where
  "map_ok_for crc fs ino ctx \<longleftrightarrow>
     (if i_flags ino AND EXTENTS_FL \<noteq> 0
      then \<exists>h lo hi. ExtentHeader_parse (i_block_area ino) = Ok h \<and> eh_depth h \<le> EXT4_EXT_MAX_DEPTH \<and>
             node_ok crc (fv_dev fs) (block_size (fv_sb fs)) ctx (unat (eh_depth h)) (i_block_area ino) h lo hi
      else block_size_ok (block_size (fv_sb fs)))"

definition on_device :: "nat \<Rightarrow> bytes \<Rightarrow> u64 option result \<Rightarrow> bool" where
  "on_device bs img r \<longleftrightarrow> (case r of Ok None \<Rightarrow> True | Ok (Some p) \<Rightarrow> unat p * bs + bs \<le> length img | _ \<Rightarrow> False)"

definition reads_image :: "reader \<Rightarrow> bytes \<Rightarrow> bool" where
  "reads_image rd img \<longleftrightarrow> length img < 2 ^ 64 \<and> (\<forall>off n. unat off + n \<le> length img \<longrightarrow> rd off n = Ok (slice (unat off) (unat off + n) img))"

lemma lookup_stable:
  assumes "ExtentHeader_parse root = Ok h" "eh_depth h \<le> EXT4_EXT_MAX_DEPTH" "node_ok crc rd bs ctx (unat (eh_depth h)) root h lo hi"
    "lookup_verified crc root rd bs l ctx = Ok (Some e)" "contains e l'"
  shows "lookup_verified crc root rd bs l' ctx = Ok (Some e)"
proof -
  obtain es ns where es: "extents_in lo hi es" "\<And>l. lookup_loop crc rd bs l ctx root h (unat (eh_depth h)) = Ok (find_extent es l)"
    using node_ok_spec [OF assms(3)] by (auto simp: node_spec_def)
  have lk: "lookup_verified crc root rd bs l ctx = Ok (find_extent es l)" for l
    using assms(1,2) es(2) by (simp add: lookup_verified_def not_less)
  then have "e \<in> set es" using assms(4) by (auto simp: find_extent_def find_Some_iff in_set_conv_nth)
  have "find_extent es l' = Some e"
    using es(1) \<open>e \<in> set es\<close> assms(5)
    by (induction es arbitrary: lo) (auto simp: extents_in_def find_extent_def contains_iff)
  then show ?thesis using lk by simp
qed

definition caches_ok :: "crc_fn \<Rightarrow> fs_view \<Rightarrow> inode \<Rightarrow> verify_ctx option \<Rightarrow> read_caches \<Rightarrow> bool" where
  "caches_ok crc fs ino ctx c \<longleftrightarrow>
     (\<forall>e. rc_extent c = Some e \<longrightarrow> (\<exists>l. lookup_verified crc (i_block_area ino) (fv_dev fs) (block_size (fv_sb fs)) l ctx = Ok (Some e))) \<and>
     cache_ok (fv_dev fs) (block_size (fv_sb fs)) (rc_indirect c)"

lemma cached_lookup_transparent:
  assumes "map_ok_for crc fs ino ctx" "i_flags ino AND EXTENTS_FL \<noteq> 0" "caches_ok crc fs ino ctx c"
    "lookup_verified crc (i_block_area ino) (fv_dev fs) (block_size (fv_sb fs)) l ctx = Ok r"
  obtains c' where "cached_lookup crc fs ino ctx l c = (Ok r, c')" "caches_ok crc fs ino ctx c'"
proof (cases "case rc_extent c of Some e \<Rightarrow> contains e l | None \<Rightarrow> False")
  case True
  then obtain e where e: "rc_extent c = Some e" "contains e l" by (auto split: option.splits)
  then obtain l0 where "lookup_verified crc (i_block_area ino) (fv_dev fs) (block_size (fv_sb fs)) l0 ctx = Ok (Some e)"
    using assms(3) by (auto simp: caches_ok_def)
  then have "lookup_verified crc (i_block_area ino) (fv_dev fs) (block_size (fv_sb fs)) l ctx = Ok (Some e)"
    using assms(1,2) e(2) lookup_stable unfolding map_ok_for_def by (metis (no_types, lifting))
  then show ?thesis using that [of c] assms(3,4) e by (simp add: cached_lookup_def)
next
  case False
  then have "cached_lookup crc fs ino ctx l c = (Ok r, c\<lparr>rc_extent := r\<rparr>)" using assms(4) by (auto simp: cached_lookup_def split: option.splits)
  then show ?thesis using that assms(3,4) by (auto simp: caches_ok_def)
qed

section \<open>A read returns the file's bytes\<close>

lemma phys_fetch:
  assumes "unat p * unat bs + unat bs \<le> length img" "off + n \<le> unat bs" "reads_image rd img" "0 < n"
  shows "and_then (phys_byte_offset err p bs off) (\<lambda>pos. rd pos n) = Ok (slice (unat p * unat bs + off) (unat p * unat bs + off + n) img)"
proof -
  have img: "length img < 2 ^ 64" using assms(3) by (simp add: reads_image_def)
  have m: "checked_mul p (ucast bs) = Some (p * ucast bs)" "unat (p * ucast bs) = unat p * unat bs"
    using assms(1) img by (simp_all add: checked_mul_def unat_mult_no_wrap)
  have o: "unat (word_of_nat off :: u64) = off" using assms(1,2) img by (simp add: unat_of_nat)
  have "phys_byte_offset err p bs off = Ok (p * ucast bs + word_of_nat off)" "unat (p * ucast bs + word_of_nat off) = unat p * unat bs + off"
    using m o assms(1,2,4) img by (simp_all add: phys_byte_offset_def checked_add_def unat_add_no_wrap)
  then show ?thesis using assms(1,2,3) by (simp add: reads_image_def)
qed

lemma read_piece_correct:
  assumes "map_ok_for crc fs ino ctx" "caches_ok crc fs ino ctx c" "reads_image (fv_dev fs) img"
    "on_device (unat (block_size (fv_sb fs))) img (block_of crc fs ino ctx l)" "off + n \<le> unat (block_size (fv_sb fs))" "0 < n"
  defines "bs \<equiv> unat (block_size (fv_sb fs))"
  obtains c' where "read_piece crc fs ino ctx l off n c =
      (Ok (case block_of crc fs ino ctx l of Ok (Some p) \<Rightarrow> slice (unat p * bs + off) (unat p * bs + off + n) img | _ \<Rightarrow> replicate n 0), c')"
    "caches_ok crc fs ino ctx c'"
proof -
  obtain m where m: "block_of crc fs ino ctx l = Ok m" using assms(4) by (auto simp: on_device_def split: outcome.splits)
  have fetch: "m = Some p \<Longrightarrow> and_then (phys_byte_offset err p (block_size (fv_sb fs)) off) (\<lambda>pos. fv_dev fs pos n) =
      Ok (slice (unat p * bs + off) (unat p * bs + off + n) img)" for p err
    unfolding bs_def by (rule phys_fetch) (use assms(3-6) m in \<open>auto simp: on_device_def\<close>)
  show ?thesis
  proof (cases "i_flags ino AND EXTENTS_FL = 0")
    case False
    then obtain r where r: "lookup_verified crc (i_block_area ino) (fv_dev fs) (block_size (fv_sb fs)) l ctx = Ok r"
      and mr: "m = (case r of Some e \<Rightarrow> if \<not> uninitialized e then Some (map_block e l) else None | None \<Rightarrow> None)"
      using m by (auto simp: block_of_def map_logical_verified_def outcome_simps split: option.splits)
    obtain c' where c': "cached_lookup crc fs ino ctx l c = (Ok r, c')" "caches_ok crc fs ino ctx c'"
      by (rule cached_lookup_transparent [OF assms(1) False assms(2) r])
    have "read_piece crc fs ino ctx l off n c = (Ok (case m of Some p \<Rightarrow> slice (unat p * bs + off) (unat p * bs + off + n) img | None \<Rightarrow> replicate n 0), c')"
      using False c'(1) fetch mr by (auto simp: read_piece_def split: option.splits if_splits)
    then show ?thesis using that [of c'] c'(2) m by (simp split: option.splits)
  next
    case True
    have ok: "block_size_ok (block_size (fv_sb fs))" using assms(1) True by (simp add: map_ok_for_def)
    obtain r ic where ri: "ind_lookup (i_block_area ino) (fv_dev fs) (block_size (fv_sb fs)) l (rc_indirect c) = (r, ic)" by fastforce
    have "cache_ok (fv_dev fs) (block_size (fv_sb fs)) ic_new" by (simp add: cache_ok_def ic_new_def)
    then have "r = Ok m" "cache_ok (fv_dev fs) (block_size (fv_sb fs)) ic"
      using ind_lookup_tree [OF ok, of "fv_dev fs" "rc_indirect c" "i_block_area ino" l] ind_lookup_tree [OF ok, of "fv_dev fs" ic_new "i_block_area ino" l]
        ri assms(2) m True by (auto simp: yields_def caches_ok_def block_of_def)
    then have "read_piece crc fs ino ctx l off n c = (Ok (case m of Some p \<Rightarrow> slice (unat p * bs + off) (unat p * bs + off + n) img | None \<Rightarrow> replicate n 0), c\<lparr>rc_indirect := ic\<rparr>)"
      "caches_ok crc fs ino ctx (c\<lparr>rc_indirect := ic\<rparr>)"
      using True ri fetch assms(2) by (auto simp: read_piece_def caches_ok_def split: option.splits)
    then show ?thesis using that [of "c\<lparr>rc_indirect := ic\<rparr>"] m by (simp split: option.splits)
  qed
qed

text \<open>A piece inside one block is the file's bytes there.\<close>

lemma piece_stored:
  assumes "on_device (unat (block_size (fv_sb fs))) img (block_of crc fs ino ctx (word_of_nat (cur div bs)))"
    "cur mod bs + n \<le> bs" "bs = unat (block_size (fv_sb fs))"
  shows "(case block_of crc fs ino ctx (word_of_nat (cur div bs)) of
      Ok (Some p) \<Rightarrow> slice (unat p * bs + cur mod bs) (unat p * bs + cur mod bs + n) img | _ \<Rightarrow> replicate n 0)
    = map (stored crc fs ino ctx img) [cur ..< cur + n]"
proof (rule nth_equalityI)
  have same: "(cur + i) div bs = cur div bs" "(cur + i) mod bs = cur mod bs + i" if "i < n" for i
  proof -
    have lt: "cur mod bs + i < bs" using that assms(2) by simp
    have "cur + i = (cur mod bs + i) + (cur div bs) * bs" by simp
    then have "(cur + i) div bs = (cur mod bs + i + (cur div bs) * bs) div bs" "(cur + i) mod bs = (cur mod bs + i + (cur div bs) * bs) mod bs" by (simp_all only:)
    then show "(cur + i) div bs = cur div bs" "(cur + i) mod bs = cur mod bs + i" using lt by (simp_all only: div_mult_self1 mod_mult_self1 div_less mod_less)
  qed
  show "length (case block_of crc fs ino ctx (word_of_nat (cur div bs)) of
      Ok (Some p) \<Rightarrow> slice (unat p * bs + cur mod bs) (unat p * bs + cur mod bs + n) img | _ \<Rightarrow> replicate n 0) = length (map (stored crc fs ino ctx img) [cur ..< cur + n])"
    using assms by (auto simp: on_device_def split: outcome.splits option.splits)
  fix i assume "i < length (case block_of crc fs ino ctx (word_of_nat (cur div bs)) of
      Ok (Some p) \<Rightarrow> slice (unat p * bs + cur mod bs) (unat p * bs + cur mod bs + n) img | _ \<Rightarrow> replicate n 0)"
  then have i: "i < n" by (auto split: outcome.splits option.splits)
  show "(case block_of crc fs ino ctx (word_of_nat (cur div bs)) of
      Ok (Some p) \<Rightarrow> slice (unat p * bs + cur mod bs) (unat p * bs + cur mod bs + n) img | _ \<Rightarrow> replicate n 0) ! i = map (stored crc fs ino ctx img) [cur ..< cur + n] ! i"
    using i assms same [OF i]
    by (auto simp: on_device_def stored_def Let_def nth_slice add.assoc split: outcome.splits option.splits)
qed

lemma put_put_adjacent:
  assumes "w + length xs + length ys \<le> length out"
  shows "put (w + length xs) ys (put w xs out) = put w (xs @ ys) out"
proof -
  have "w \<le> length out" using assms by linarith
  then show ?thesis by (simp add: put_def min_absorb2 add.commute add.left_commute)
qed

lemma read_loop_correct:
  assumes "map_ok_for crc fs ino ctx" "reads_image (fv_dev fs) img" "0 < unat (block_size (fv_sb fs))"
    "\<forall>k. cur \<le> k \<and> k < fin \<longrightarrow> on_device (unat (block_size (fv_sb fs))) img (block_of crc fs ino ctx (word_of_nat (k div unat (block_size (fv_sb fs)))))"
    "caches_ok crc fs ino ctx c" "cur \<le> fin" "written + (fin - cur) \<le> length out"
  shows "read_loop crc fs ino ctx cur fin written c out = (Ok (written + (fin - cur)), put written (map (stored crc fs ino ctx img) [cur ..< fin]) out)"
  using assms
proof (induction "fin - cur" arbitrary: cur written c out rule: less_induct)
  case less
  let ?bs = "unat (block_size (fv_sb fs))"
  show ?case
  proof (cases "cur < fin")
    case False
    then show ?thesis using less.prems by (simp add: read_loop.simps put_def)
  next
    case True
    define n where "n = min (?bs - cur mod ?bs) (fin - cur)"
    have m: "cur mod ?bs < ?bs" using less.prems(3) by simp
    have n: "0 < n" "cur mod ?bs + n \<le> ?bs" "n \<le> fin - cur" using True m unfolding n_def by linarith+
    have dev: "on_device ?bs img (block_of crc fs ino ctx (word_of_nat (cur div ?bs)))" using less.prems(4) True by blast
    obtain c' where p: "read_piece crc fs ino ctx (word_of_nat (cur div ?bs)) (cur mod ?bs) n c = (Ok (map (stored crc fs ino ctx img) [cur ..< cur + n]), c')"
      and c': "caches_ok crc fs ino ctx c'"
      using read_piece_correct [OF less.prems(1,5,2) dev n(2,1)] unfolding piece_stored [OF dev n(2) refl] by blast
    let ?d = "map (stored crc fs ino ctx img) [cur ..< cur + n]"
    have "read_loop crc fs ino ctx cur fin written c out = read_loop crc fs ino ctx (cur + n) fin (written + n) c' (put written ?d out)"
      using True m p by (simp add: read_loop.simps [of crc fs ino ctx cur] n_def [symmetric] Let_def)
    also have "\<dots> = (Ok (written + n + (fin - (cur + n))), put (written + n) (map (stored crc fs ino ctx img) [cur + n ..< fin]) (put written ?d out))"
      by (rule less.hyps) (use less.prems n c' True in auto)
    also have "put (written + n) (map (stored crc fs ino ctx img) [cur + n ..< fin]) (put written ?d out) = put written (map (stored crc fs ino ctx img) [cur ..< fin]) out"
    proof -
      have "[cur ..< fin] = [cur ..< cur + n] @ [cur + n ..< fin]" using n(3) True upt_add_eq_append [of cur "cur + n" "fin - (cur + n)"] by simp
      then show ?thesis using put_put_adjacent [of written ?d "map (stored crc fs ino ctx img) [cur + n ..< fin]" out] n less.prems(7) by simp
    qed
    finally show ?thesis using n True by simp
  qed
qed

text \<open>
  C11. Reading a range of a file, verified or not, returns the file's bytes: the count is the request cut to the end of the file and to the
  buffer, the buffer's head holds, byte for byte, what the mapped blocks hold on the device and zeros for holes and
  uninitialized extents, and the rest of the buffer is untouched. The caches of the walk change nothing of this.
\<close>

theorem file_read_correct:
  fixes offset n :: u64 and out :: bytes
  assumes "map_ok_for crc fs ino ctx" "reads_image (fv_dev fs) img" "block_size (fv_sb fs) \<noteq> 0"
    "ctx = None \<or> ctx = Some \<lparr>ctx_ino = num, ctx_generation = i_generation ino, ctx_csum = fv_csum fs\<rparr>"
    "i_flags ino AND INLINE_DATA_FL = 0" "i_flags ino AND ENCRYPT_FL = 0 \<or> is_dir ino"
  defines "m \<equiv> min (min (unat (i_size ino) - unat offset) (unat n)) (length out)"
  assumes "\<forall>k. unat offset \<le> k \<and> k < unat offset + m \<longrightarrow>
      on_device (unat (block_size (fv_sb fs))) img (block_of crc fs ino ctx (word_of_nat (k div unat (block_size (fv_sb fs)))))"
  shows "(if ctx = None then file_read crc fs ino offset n out else file_read_verified crc fs ino num offset n out) =
    (Ok m, map (stored crc fs ino ctx img) [unat offset ..< unat offset + m] @ drop m out)"
proof -
  have enc: "refuse_encrypted ino = Ok ()" using assms(6) by (auto simp: refuse_encrypted_def)
  have "(if ctx = None then file_read crc fs ino offset n out else file_read_verified crc fs ino num offset n out) = read_core crc fs ino ctx offset n out"
    using assms(4) by (auto simp: file_read_def file_read_verified_def)
  also have "\<dots> = (Ok m, map (stored crc fs ino ctx img) [unat offset ..< unat offset + m] @ drop m out)"
  proof (cases "m = 0")
    case True
    then have "n = 0 \<or> out = [] \<or> offset \<ge> i_size ino" by (auto simp: m_def word_le_nat_alt min_def unat_eq_zero split: if_splits)
    then show ?thesis using True enc assms(5) by (auto simp: read_core_def)
  next
    case False
    then have g: "\<not> (n = 0 \<or> out = [])" "\<not> offset \<ge> i_size ino" by (auto simp: m_def word_le_nat_alt)
    have "caches_ok crc fs ino ctx \<lparr>rc_extent = None, rc_indirect = ic_new\<rparr>" by (simp add: caches_ok_def cache_ok_def ic_new_def)
    moreover have "0 < unat (block_size (fv_sb fs))" using assms(3) by (simp add: unat_gt_0)
    ultimately have "read_loop crc fs ino ctx (unat offset) (unat offset + m) 0 \<lparr>rc_extent = None, rc_indirect = ic_new\<rparr> out =
        (Ok (0 + (unat offset + m - unat offset)), put 0 (map (stored crc fs ino ctx img) [unat offset ..< unat offset + m]) out)"
      using assms(1,2,8) by (intro read_loop_correct) (auto simp: m_def)
    then have "read_core crc fs ino ctx offset n out = (Ok m, put 0 (map (stored crc fs ino ctx img) [unat offset ..< unat offset + m]) out)"
      using enc assms(5) g False by (simp add: read_core_def m_def [symmetric] Let_def)
    then show ?thesis by (simp add: put_def)
  qed
  finally show ?thesis .
qed

text \<open>A file of one direct block with a hole before it, read across the boundary between the two.\<close>

definition sample_file :: inode where
  "sample_file = \<lparr>i_mode = 0x81A4, i_uid = 0, i_gid = 0, i_size = 1030, i_atime = 0, i_mtime = 0, i_ctime = 0, i_dtime = 0, i_crtime = 0,
     i_atime_nsec = 0, i_mtime_nsec = 0, i_ctime_nsec = 0, i_crtime_nsec = 0, i_links_count = 1, i_blocks = 2, i_flags = 0,
     i_block_area = [0, 0, 0, 0, 1, 0, 0, 0] @ replicate 52 0, i_generation = 0, i_file_acl = 0, i_checksum = 0\<rparr>"

definition sample_image :: bytes where
  "sample_image = replicate 1024 9 @ [1, 2, 3, 4, 5, 6, 7, 8] @ replicate 1016 9"

definition image_reader :: "bytes \<Rightarrow> reader" where
  "image_reader img off n = (if unat off + n \<le> length img then Ok (slice (unat off) (unat off + n) img) else Err OutOfBounds)"

definition sample_fs :: "superblock \<Rightarrow> fs_view" where
  "sample_fs sb = \<lparr>fv_sb = sb\<lparr>log_block_size := 0\<rparr>, fv_groups = [], fv_csum = \<lparr>seed = 0, enabled = False\<rparr>, fv_dev = image_reader sample_image, fv_dev_size = 2048\<rparr>"

lemma sample_blocks:
  "fst (ind_lookup (i_block_area sample_file) rd 1024 0 ic_new) = Ok None" "fst (ind_lookup (i_block_area sample_file) rd 1024 1 ic_new) = Ok (Some 1)"
proof -
  have "ptr_at (i_block_area sample_file) 0 = Ok 0" "ptr_at (i_block_area sample_file) (Suc 0) = Ok 1" by code_simp+
  moreover have "power_of_two32 1024" by code_simp
  ultimately show "fst (ind_lookup (i_block_area sample_file) rd 1024 0 ic_new) = Ok None" "fst (ind_lookup (i_block_area sample_file) rd 1024 1 ic_new) = Ok (Some 1)"
    by (simp_all add: ind_lookup_def DIRECT_COUNT_def hole_def)
qed

theorem file_read_correct_witness:
  "\<forall>sb crc. file_read crc (sample_fs sb) sample_file 1022 100 (replicate 10 9) = (Ok 8, [0, 0, 1, 2, 3, 4, 5, 6, 9, 9])"
proof (intro allI)
  fix sb crc
  let ?fs = "sample_fs sb"
  have bs: "block_size (fv_sb ?fs) = 1024" by (simp add: sample_fs_def block_size_def)
  then have bsn: "unat (block_size (fv_sb ?fs)) = 1024" by simp
  have fl: "i_flags sample_file = 0" "i_size sample_file = 1030" by (simp_all add: sample_file_def)
  have "power_of_two32 1024" by code_simp
  then have mo: "map_ok_for crc ?fs sample_file None" by (simp add: map_ok_for_def fl bs block_size_ok_def)
  have img: "length sample_image = 2048" by (simp add: sample_image_def)
  have ri: "reads_image (fv_dev ?fs) sample_image" using img by (simp add: reads_image_def sample_fs_def image_reader_def)
  have blocks: "block_of crc ?fs sample_file None 0 = Ok None" "block_of crc ?fs sample_file None 1 = Ok (Some 1)"
    using sample_blocks by (simp_all add: block_of_def fl bs)
  have "k div 1024 = 0 \<or> k div 1024 = 1" if "1022 \<le> k" "k < 1030" for k :: nat using that by auto
  then have dev: "on_device 1024 sample_image (block_of crc ?fs sample_file None (word_of_nat (k div 1024)))" if "1022 \<le> k" "k < 1030" for k
    using blocks img that by (fastforce simp: on_device_def)
  have st: "stored crc ?fs sample_file None sample_image k = (if k < 1024 then 0 else sample_image ! k)" if "1022 \<le> k" "k < 1030" for k
  proof (cases "k < 1024")
    case False
    then have "k = (k - 1024) + 1024" "k - 1024 < 6" using that by linarith+
    then obtain j where j: "k = j + 1024" "j < 6" by blast
    then have "k div 1024 = 1" "k mod 1024 = j" by simp_all
    then show ?thesis unfolding stored_def bsn Let_def using blocks j by (simp add: add.commute)
  next
    case True
    then show ?thesis unfolding stored_def bsn Let_def using blocks by simp
  qed
  have "[1022 ..< 1030] = [1022, 1023, 1024, 1025, 1026, 1027, 1028, 1029 :: nat]" by (simp add: upt_rec)
  moreover have "sample_image ! 1024 = 1" "sample_image ! 1025 = 2" "sample_image ! 1026 = 3" "sample_image ! 1027 = 4" "sample_image ! 1028 = 5" "sample_image ! 1029 = 6"
    by (simp_all add: sample_image_def nth_append)
  ultimately have m: "map (stored crc ?fs sample_file None sample_image) [1022 ..< 1030] = [0, 0, 1, 2, 3, 4, 5, 6]" by (simp add: st)
  have "drop 8 (replicate 10 9) = [9, 9 :: u8]" by code_simp
  then show "file_read crc ?fs sample_file 1022 100 (replicate 10 9) = (Ok 8, [0, 0, 1, 2, 3, 4, 5, 6, 9, 9])"
    using file_read_correct [OF mo ri, of 0 1022 100 "replicate 10 9"] dev m fl bs by simp
qed

end
