(* ===== verification/Inline.thy ===== *)
theory Inline
  imports File_IO
begin

unbundle bit_operations_syntax

text \<open>
  Data kept inside inodes and the readers built on it: inline files and directories (\<open>src/inline_data.rs\<close>), editing them
  in an inode image (\<open>src/inline_mut.rs\<close>), whole-file reads (\<open>src/file_io.rs\<close>), the inode and symlink readers of \<open>src/fs.rs\<close>,
  and attribute values in inodes of their own (\<open>src/ea_inode.rs\<close>, the resolving readers of \<open>src/xattr.rs\<close>).
\<close>

section \<open>Reading inline data\<close>

definition INLINE_DOTDOT_SIZE :: nat where "INLINE_DOTDOT_SIZE = 4"
definition INLINE_BLOCK_SIZE :: nat where "INLINE_BLOCK_SIZE = 60"

definition DATA_ATTR :: bytes where "DATA_ATTR = bstr ''system.data''"

text \<open>\<open>i_size as usize\<close> is exact on the 64-bit targets the crate supports.\<close>

definition inline_read_all :: "reader \<Rightarrow> inode \<Rightarrow> bytes \<Rightarrow> u16 \<Rightarrow> u32 \<Rightarrow> bytes result" where
  "inline_read_all rd ino inode_raw isize bs =
     (let total = unat (i_size ino); from_block = min total 60 in
      and_then (get_slice 0 from_block (i_block_area ino)) (\<lambda>out.
      if total \<le> 60 then Ok out
      else let need = total - 60 in
        and_then (and_then (xattr_get rd ino inode_raw isize bs DATA_ATTR) (\<lambda>r.
          ok_or r (Corrupt ''inline file larger than 60 bytes has no system.data xattr''))) (\<lambda>extra.
        if length extra < need then Err (Corrupt ''inline file's system.data xattr is shorter than its size claims'')
        else Ok (out @ take need extra))))"

definition inline_dir_entries :: "u32 \<Rightarrow> inode \<Rightarrow> bytes \<Rightarrow> bool \<Rightarrow> dir_entry list result" where
  "inline_dir_entries dir_ino ino continuation has_filetype =
     and_then (get_slice 0 INLINE_DOTDOT_SIZE (i_block_area ino)) (\<lambda>p.
     let parent = u32_from_le p in
     if parent = 0 then Err (CorruptDirEntry ''inline directory: parent inode number is 0'')
     else and_then (parse_block (drop INLINE_DOTDOT_SIZE (i_block_area ino)) has_filetype) (\<lambda>a.
          and_then (parse_block continuation has_filetype) (\<lambda>b.
          Ok ([\<lparr>de_inode = dir_ino, de_name = bstr ''.'', de_type = Directory\<rparr>,
               \<lparr>de_inode = parent, de_name = bstr ''..'', de_type = Directory\<rparr>] @ a @ b))))"

definition dir_continuation :: "reader \<Rightarrow> inode \<Rightarrow> bytes \<Rightarrow> u16 \<Rightarrow> u32 \<Rightarrow> bytes result" where
  "dir_continuation rd ino inode_raw isize bs =
     (let total = unat (i_size ino) in
      if total \<le> INLINE_BLOCK_SIZE then Ok []
      else let need = total - INLINE_BLOCK_SIZE in
        and_then (and_then (xattr_get rd ino inode_raw isize bs DATA_ATTR) (\<lambda>r.
          ok_or r (Corrupt ''inline directory larger than 60 bytes has no system.data xattr''))) (\<lambda>extra.
        if length extra < need then Err (Corrupt ''inline directory's system.data xattr is shorter than its size claims'')
        else Ok (take need extra)))"

definition inline_read_dir :: "reader \<Rightarrow> u32 \<Rightarrow> inode \<Rightarrow> bytes \<Rightarrow> u16 \<Rightarrow> u32 \<Rightarrow> bool \<Rightarrow> dir_entry list result" where
  "inline_read_dir rd dir_ino ino inode_raw isize bs has_filetype =
     and_then (dir_continuation rd ino inode_raw isize bs) (\<lambda>c. inline_dir_entries dir_ino ino c has_filetype)"

text \<open>The destination buffer is returned with the count.\<close>

definition inline_read_range :: "reader \<Rightarrow> inode \<Rightarrow> bytes \<Rightarrow> u16 \<Rightarrow> u32 \<Rightarrow> u64 \<Rightarrow> bytes \<Rightarrow> (bytes, nat) dev_result" where
  "inline_read_range rd ino inode_raw isize bs offset dst =
     (if offset \<ge> i_size ino then (Ok 0, dst)
      else st_bind (inline_read_all rd ino inode_raw isize bs, dst) (\<lambda>full dst.
        let want = min (unat (i_size ino) - unat offset) (length dst);
            avail = length full - unat offset;
            n = min want avail
        in st_bind (and_then (get_slice (unat offset) (unat offset + n) full) (\<lambda>src. put_checked 0 src dst), dst) (\<lambda>dst _. (Ok n, dst))))"

section \<open>Whole files, inodes and links\<close>

definition byte_ceiling :: "fs_view \<Rightarrow> u64 result" where
  "byte_ceiling fs = and_then (ok_or (filesystem_bytes (fv_sb fs)) (Corrupt ''superblock: blocks_count * block_size overflows'')) (\<lambda>b.
     Ok (min b (fv_dev_size fs)))"

definition file_read_all :: "crc_fn \<Rightarrow> fs_view \<Rightarrow> inode \<Rightarrow> bytes result" where
  "file_read_all crc fs ino =
     and_then (byte_ceiling fs) (\<lambda>ceil.
     if i_size ino > ceil then Err (Corrupt ''reading this file whole would need more memory than the filesystem has bytes'')
     else let (r, buf) = file_read crc fs ino 0 (i_size ino) (replicate (unat (i_size ino)) 0) in
       and_then r (\<lambda>n. Ok (take n buf)))"

definition read_inline :: "fs_view \<Rightarrow> inode \<Rightarrow> bytes \<Rightarrow> bytes result" where
  "read_inline fs ino inode_raw =
     and_then (refuse_encrypted ino) (\<lambda>_. inline_read_all (fv_dev fs) ino inode_raw (inode_size (fv_sb fs)) (block_size (fv_sb fs)))"

definition read_with_raw :: "crc_fn \<Rightarrow> fs_view \<Rightarrow> inode \<Rightarrow> bytes \<Rightarrow> u64 \<Rightarrow> u64 \<Rightarrow> bytes \<Rightarrow> (bytes, nat) dev_result" where
  "read_with_raw crc fs ino inode_raw offset n out =
     st_bind (refuse_encrypted ino, out) (\<lambda>_ out.
     if i_flags ino AND INLINE_DATA_FL \<noteq> 0
     then inline_read_range (fv_dev fs) ino inode_raw (inode_size (fv_sb fs)) (block_size (fv_sb fs)) offset out
     else file_read crc fs ino offset n out)"

definition read_with_raw_verified :: "crc_fn \<Rightarrow> fs_view \<Rightarrow> inode \<Rightarrow> bytes \<Rightarrow> u32 \<Rightarrow> u64 \<Rightarrow> u64 \<Rightarrow> bytes \<Rightarrow> (bytes, nat) dev_result" where
  "read_with_raw_verified crc fs ino inode_raw num offset n out =
     st_bind (refuse_encrypted ino, out) (\<lambda>_ out.
     if i_flags ino AND INLINE_DATA_FL \<noteq> 0
     then inline_read_range (fv_dev fs) ino inode_raw (inode_size (fv_sb fs)) (block_size (fv_sb fs)) offset out
     else file_read_verified crc fs ino num offset n out)"

definition fs_read_block :: "fs_view \<Rightarrow> u64 \<Rightarrow> bytes result" where
  "fs_read_block fs block_num =
     and_then (ok_or (checked_mul block_num (ucast (block_size (fv_sb fs)))) (Corrupt ''block byte offset overflow'')) (\<lambda>off.
     fv_dev fs off (unat (block_size (fv_sb fs))))"

text \<open>The end of the inode's slice, a sum of two small numbers, does not overflow.\<close>

definition read_inode_raw :: "fs_view \<Rightarrow> u32 \<Rightarrow> bytes result" where
  "read_inode_raw fs num =
     and_then (locate_inode (fv_sb fs) (fv_groups fs) num) (\<lambda>(block, offset).
     and_then (fs_read_block fs block) (\<lambda>data.
     let off = unat offset; fin = off + unat (inode_size (fv_sb fs)) in
     if fin > length data then Err (Corrupt ''inode slice exceeds block data'') else Ok (slice off fin data)))"

definition read_inode_verified :: "crc_fn \<Rightarrow> fs_view \<Rightarrow> u32 \<Rightarrow> (inode \<times> bytes) result" where
  "read_inode_verified crc fs num =
     and_then (read_inode_raw fs num) (\<lambda>raw.
     and_then (Inode_parse raw) (\<lambda>ino.
     if enabled (fv_csum fs) \<and> \<not> verify_inode crc (fv_csum fs) num (i_generation ino) raw then Err (BadChecksum ''inode'')
     else and_then (if is_dir ino then map_ok (\<lambda>c. i_size ino > c) (byte_ceiling fs) else Ok False) (\<lambda>too_big.
       if too_big then Err (Corrupt ''directory inode declares more bytes than the filesystem holds'') else Ok (ino, raw))))"

definition read_link :: "crc_fn \<Rightarrow> fs_view \<Rightarrow> u32 \<Rightarrow> bytes result" where
  "read_link crc fs num =
     and_then (read_inode_verified crc fs num) (\<lambda>(ino, _).
     if \<not> is_symlink ino then Err (InvalidArgument ''not a symlink'')
     else if i_size ino > 4096 then Err (Corrupt ''symlink target is longer than any path'')
     else and_then (refuse_encrypted ino) (\<lambda>_.
       if i_size ino < 60 then get_slice 0 (unat (i_size ino)) (i_block_area ino)
       else let (r, out) = file_read_verified crc fs ino num 0 (i_size ino) (replicate (unat (i_size ino)) 0) in
         and_then r (\<lambda>_. Ok out)))"

section \<open>Attribute values in inodes\<close>

definition EA_INODE_FL :: u32 where "EA_INODE_FL = 0x200000"

definition read_value_inode :: "crc_fn \<Rightarrow> fs_view \<Rightarrow> u32 \<Rightarrow> u32 \<Rightarrow> bytes result" where
  "read_value_inode crc fs value_inum declared =
     (if value_inum = 0 then Err (InvalidInode value_inum)
      else and_then (read_inode_raw fs value_inum) (\<lambda>raw.
        and_then (Inode_parse raw) (\<lambda>ino.
        if i_flags ino AND EA_INODE_FL = 0 then Err (Corrupt ''e_value_inum target missing EA_INODE flag (0x200000)'')
        else if i_size ino \<noteq> ucast declared then Err (Corrupt ''an EA inode's length disagrees with the xattr entry's e_value_size'')
        else if i_flags ino AND INLINE_DATA_FL \<noteq> 0 then read_inline fs ino raw
        else file_read_all crc fs ino)))"

definition check_block_of :: "crc_fn \<Rightarrow> fs_view \<Rightarrow> inode \<Rightarrow> unit result" where
  "check_block_of crc fs ino =
     (if i_file_acl ino = 0 then Ok ()
      else and_then (fv_dev fs (i_file_acl ino * ucast (block_size (fv_sb fs))) (unat (block_size (fv_sb fs)))) (\<lambda>block.
        check_external_block crc (fv_csum fs) (i_file_acl ino) block))"

fun resolve_values :: "crc_fn \<Rightarrow> fs_view \<Rightarrow> xattr_entry list \<Rightarrow> xattr_entry list result" where
  "resolve_values crc fs [] = Ok []"
| "resolve_values crc fs (e # es) =
     and_then (if xe_value_inum e \<noteq> 0 then map_ok (\<lambda>v. e\<lparr>xe_value := v\<rparr>) (read_value_inode crc fs (xe_value_inum e) (xe_value_size e)) else Ok e) (\<lambda>e.
     and_then (resolve_values crc fs es) (\<lambda>es. Ok (e # es)))"

definition fs_xattrs :: "crc_fn \<Rightarrow> fs_view \<Rightarrow> inode \<Rightarrow> bytes \<Rightarrow> xattr_entry list result" where
  "fs_xattrs crc fs ino inode_raw =
     and_then (check_block_of crc fs ino) (\<lambda>_. xattr_read_all (fv_dev fs) ino inode_raw (inode_size (fv_sb fs)) (block_size (fv_sb fs)))"

definition read_all_resolved :: "crc_fn \<Rightarrow> fs_view \<Rightarrow> inode \<Rightarrow> bytes \<Rightarrow> xattr_entry list result" where
  "read_all_resolved crc fs ino inode_raw = and_then (fs_xattrs crc fs ino inode_raw) (resolve_values crc fs)"

definition list_names :: "crc_fn \<Rightarrow> fs_view \<Rightarrow> inode \<Rightarrow> bytes \<Rightarrow> bytes list result" where
  "list_names crc fs ino inode_raw = map_ok (map xe_name) (fs_xattrs crc fs ino inode_raw)"

definition get_resolved :: "crc_fn \<Rightarrow> fs_view \<Rightarrow> inode \<Rightarrow> bytes \<Rightarrow> bytes \<Rightarrow> bytes option result" where
  "get_resolved crc fs ino inode_raw name =
     and_then (fs_xattrs crc fs ino inode_raw) (\<lambda>es.
     case find (\<lambda>e. xe_name e = name) es of
       None \<Rightarrow> Ok None
     | Some e \<Rightarrow> if xe_value_inum e \<noteq> 0 then map_ok Some (read_value_inode crc fs (xe_value_inum e) (xe_value_size e))
                 else Ok (Some (xe_value e)))"

section \<open>Editing inline data\<close>

definition I_BLOCK_LEN :: nat where "I_BLOCK_LEN = 60"

definition inline_ceiling :: "u16 \<Rightarrow> nat" where
  "inline_ceiling isize = I_BLOCK_LEN + unat isize"

definition attr_area :: "bytes \<Rightarrow> u16 \<Rightarrow> (nat \<times> nat) option" where
  "attr_area raw isize =
     (if length raw < 0x82 then None
      else let extra = unat (get_le16 0x80 raw); start = 128 + extra; fin = min (unat isize) (length raw) in
        if extra \<noteq> 0 \<and> start + 8 \<le> fin then Some (start, fin) else None)"

definition inline_store :: "bytes \<Rightarrow> u16 \<Rightarrow> bytes \<Rightarrow> bytes result" where
  "inline_store raw isize data =
     (if length data > inline_ceiling isize then Err NoSpaceLeftOnDevice
      else and_then (ok_or (attr_area raw isize) NoSpaceLeftOnDevice) (\<lambda>(start, fin).
        let head = min (length data) I_BLOCK_LEN in
        and_then (plan_set_in_inode_region (slice start fin raw) DATA_ATTR (drop head data)) (\<lambda>(region, _).
        let raw = put start region raw in
        and_then (put_checked 0x28 (replicate 60 0) raw) (\<lambda>raw.
        put_checked 0x28 (take head data) raw))))"

definition inline_strip :: "bytes \<Rightarrow> u16 \<Rightarrow> bytes result" where
  "inline_strip raw isize =
     and_then (case attr_area raw isize of
         None \<Rightarrow> Ok raw
       | Some (start, fin) \<Rightarrow> map_ok (\<lambda>(region, _). put start region raw) (plan_remove_in_inode_region (slice start fin raw) DATA_ATTR)) (\<lambda>raw.
     and_then (get_slice 0x20 0x24 raw) (\<lambda>f.
     let flags = u32_from_le f AND NOT INLINE_DATA_FL in
     and_then (put_checked 0x20 (u32_to_le flags) raw) (\<lambda>raw.
     put_checked 0x28 (replicate 60 0) raw)))"

record inline_dir =
  id_parent :: u32
  id_head :: bytes
  id_continuation :: bytes

definition MIN_CONTINUATION :: nat where "MIN_CONTINUATION = entry_rec_len 1"

definition inline_dir_load :: "reader \<Rightarrow> inode \<Rightarrow> bytes \<Rightarrow> u16 \<Rightarrow> u32 \<Rightarrow> inline_dir result" where
  "inline_dir_load rd ino raw isize bs =
     and_then (dir_continuation rd ino raw isize bs) (\<lambda>c.
     and_then (get_slice 0x28 0x2C raw) (\<lambda>p.
     and_then (get_slice 0x2C 0x64 raw) (\<lambda>h.
     Ok \<lparr>id_parent = u32_from_le p, id_head = h, id_continuation = c\<rparr>)))"

definition inline_dir_list :: "inline_dir \<Rightarrow> bool \<Rightarrow> dir_entry list result" where
  "inline_dir_list d has_filetype =
     and_then (parse_block (id_head d) has_filetype) (\<lambda>a.
     and_then (parse_block (id_continuation d) has_filetype) (\<lambda>b. Ok (a @ b)))"

definition inline_dir_add :: "inline_dir \<Rightarrow> u32 \<Rightarrow> bytes \<Rightarrow> dir_entry_type \<Rightarrow> bool \<Rightarrow> (inline_dir \<times> bool) result" where
  "inline_dir_add d num name t has_filetype =
     (case add_entry_to_block (id_head d) num name t has_filetype 0 of
        Ok h \<Rightarrow> Ok (d\<lparr>id_head := h\<rparr>, True)
      | Panic \<Rightarrow> Panic
      | Err e \<Rightarrow> if e \<noteq> OutOfBounds then Err e
          else (case add_entry_to_block (id_continuation d) num name t has_filetype 0 of
             Ok c \<Rightarrow> Ok (d\<lparr>id_continuation := c\<rparr>, True)
           | Panic \<Rightarrow> Panic
           | Err e \<Rightarrow> if e \<noteq> OutOfBounds then Err e else Ok (d, False)))"

definition inline_dir_remove :: "inline_dir \<Rightarrow> bytes \<Rightarrow> bool \<Rightarrow> (inline_dir \<times> bool) result" where
  "inline_dir_remove d name has_filetype =
     and_then (remove_entry_from_block (id_head d) name has_filetype 0) (\<lambda>(h, removed).
     if removed then Ok (d\<lparr>id_head := h\<rparr>, True)
     else and_then (remove_entry_from_block (id_continuation d) name has_filetype 0) (\<lambda>(c, removed).
       Ok (if removed then (d\<lparr>id_continuation := c\<rparr>, True) else (d, False))))"

function search_largest :: "(nat \<Rightarrow> bool) \<Rightarrow> nat \<Rightarrow> nat \<Rightarrow> nat" where
  "search_largest fit lo hi =
     (if lo + 1 < hi then let mid = (lo + hi) div 2 in if fit mid then search_largest fit mid hi else search_largest fit lo mid
      else lo)"
  by pat_completeness auto
termination
  by (relation "measure (\<lambda>(fit, lo, hi). hi - lo)") auto

declare search_largest.simps [simp del]

definition inline_dir_expand :: "inline_dir \<Rightarrow> bytes \<Rightarrow> u16 \<Rightarrow> inline_dir \<times> bool" where
  "inline_dir_expand d raw isize =
     (if id_continuation d \<noteq> [] then (d, False)
      else case attr_area raw isize of
        None \<Rightarrow> (d, False)
      | Some (start, fin) \<Rightarrow>
          let fit = (\<lambda>mid. is_ok (plan_set_in_inode_region (slice start fin raw) DATA_ATTR (replicate (mid * 4) 0)));
              n = search_largest fit 0 ((fin - start) div 4 + 1) * 4
          in if n < MIN_CONTINUATION \<or> n > 65535 then (d, False)
             else (d\<lparr>id_continuation := put 4 (u16_to_le (word_of_nat n)) (replicate n 0)\<rparr>, True))"

definition inline_dir_store :: "inline_dir \<Rightarrow> bytes \<Rightarrow> u16 \<Rightarrow> bytes result" where
  "inline_dir_store d raw isize =
     and_then (ok_or (attr_area raw isize) (Corrupt ''inline directory without an in-inode attribute area'')) (\<lambda>(start, fin).
     and_then (plan_set_in_inode_region (slice start fin raw) DATA_ATTR (id_continuation d)) (\<lambda>(region, _).
     let raw = put start region raw; sz = (word_of_nat (I_BLOCK_LEN + length (id_continuation d)) :: u64) in
     and_then (put_checked 0x28 (u32_to_le (id_parent d)) raw) (\<lambda>raw.
     and_then (put_checked 0x2C (id_head d) raw) (\<lambda>raw.
     and_then (put_checked 0x04 (u32_to_le (ucast sz)) raw) (\<lambda>raw.
     put_checked 0x6C (u32_to_le (ucast (drop_bit 32 sz))) raw)))))"

section \<open>What is stored inline is read back\<close>

text \<open>
  The attribute area of an inode image is sound when it decodes, no entry of it is the null entry or lives in another inode, all names are
  UTF-8, and only one key spells \<open>system.data\<close>.
\<close>

definition data_key :: "u8 \<times> bytes" where "data_key = (7, bstr ''data'')"

definition area_sound :: "bytes \<Rightarrow> bool" where
  "area_sound region \<longleftrightarrow> (\<exists>es. region_entries region = Ok es \<and> (\<forall>e \<in> set es. entry_ok e) \<and> readable es \<and>
     (\<forall>e \<in> set es. qualified_name (de_name_index e) (de_name_bytes e) = DATA_ATTR \<longrightarrow> key e = data_key))"

lemma data_attr_name: "split_qualified_name DATA_ATTR = Some data_key" "qualified_name 7 (bstr ''data'') = DATA_ATTR" "utf8_valid (bstr ''data'')"
  by (code_simp+)

lemma mset_replace_first: "replace_first idx suffix v es = Some es' \<Longrightarrow> \<forall>e \<in> set es'. e \<in> set es \<or> (key e = (idx, suffix) \<and> de_value e = v)"
  by (induction es arbitrary: es') (auto simp: matches_key_def key_def split: if_splits)

lemma set_entry_members: "e \<in> set (fst (set_entry idx suffix v es)) \<Longrightarrow> e \<in> set es \<or> key e = (idx, suffix)"
  using mset_replace_first [of idx suffix v es] by (auto simp: set_entry_def key_def split: option.splits)

lemma find_shown:
  assumes "map (\<lambda>x. (xe_name x, xe_value x, xe_value_inum x)) xs = map shown es"
    "\<forall>e \<in> set es. qualified_name (de_name_index e) (de_name_bytes e) = DATA_ATTR \<longleftrightarrow> key e = data_key"
  shows "map_option xe_value (find (\<lambda>x. xe_name x = DATA_ATTR) xs) = attrs es data_key"
  using assms
proof (induction xs arbitrary: es)
  case (Cons x xs)
  then obtain e es' where es: "es = e # es'" "shown e = (xe_name x, xe_value x, xe_value_inum x)" "map (\<lambda>x. (xe_name x, xe_value x, xe_value_inum x)) xs = map shown es'"
    by (cases es) auto
  then show ?case using Cons.IH [of es'] Cons.prems(2) by (auto simp: shown_def attrs_def)
qed (simp add: attrs_def)

text \<open>After setting \<open>system.data\<close>, the in-inode reader gives its value.\<close>

lemma stored_attr_read:
  assumes "area_sound region" "8 \<le> length region" "length region \<le> 65536" "plan_set_in_inode_region region DATA_ATTR v = Ok (region', outc)"
  shows "length region' = length region" "get_le32 0 region' = EXT4_XATTR_MAGIC"
    "\<exists>xs. xattr_parse_entries (drop 4 region') = Ok xs \<and> map_option xe_value (find (\<lambda>x. xe_name x = DATA_ATTR) xs) = Some v"
proof -
  obtain es where es: "region_entries region = Ok es" "\<forall>e \<in> set es. entry_ok e" "readable es"
    "\<forall>e \<in> set es. qualified_name (de_name_index e) (de_name_bytes e) = DATA_ATTR \<longrightarrow> key e = data_key"
    using assms(1) by (auto simp: area_sound_def)
  obtain idx suffix where k: "data_key = (idx, suffix)" by force
  have sfx: "split_qualified_name DATA_ATTR = Some (idx, suffix)" "suffix \<noteq> [] \<or> idx = 2 \<or> idx = 3" "length suffix \<le> 255"
    using data_attr_name k by (auto simp: data_key_def bstr_def)
  obtain ses oc where se: "set_entry idx suffix v es = (ses, oc)" by force
  note plan = plan_set_inode [OF sfx assms(2) es(1,2) se]
  have f: "fits (length region - 4) ses" using plan assms(4) by (auto split: if_splits)
  obtain b es' where b: "encode_in_inode_entries (length region) ses = Ok b" "length b = length region" "region_entries b = Ok es'"
    "mset es' = mset ses" "attrs es' = (attrs es)(data_key \<mapsto> v)"
    using in_inode.set_stored [OF es(2) assms(3) sfx(1,3), of v, unfolded se fst_conv, OF f] k by auto
  have r: "region' = b" using plan f b(1) assms(4) by simp
  then show "length region' = length region" using b(2) by simp
  have members: "e \<in> set es \<or> key e = data_key" if "e \<in> set es'" for e
    using set_entry_members [of e idx suffix v es] that mset_eq_setD [OF b(4)] se k by auto
  have "attrs es' data_key = Some v" using b(5) by simp
  then have nonempty: "es' \<noteq> []" by (auto simp: attrs_def)
  show m: "get_le32 0 region' = EXT4_XATTR_MAGIC" using b(3) nonempty r by (auto simp: region_entries_def split: if_splits)
  have "readable es'"
    unfolding readable_def
  proof
    fix e assume "e \<in> set es'"
    from members [OF this] show "utf8_valid (de_name_bytes e)" using es(3) data_attr_name(3) by (auto simp: readable_def data_key_def key_def)
  qed
  moreover have d: "decode_in_inode_entries (drop 4 region') = Ok es'" using b(3) m r by (simp add: region_entries_def)
  ultimately obtain xs where xs: "xattr_parse_entries (drop 4 region') = Ok xs" "map (\<lambda>x. (xe_name x, xe_value x, xe_value_inum x)) xs = map shown es'"
    using parse_decode unfolding decode_in_inode_entries_def xattr_parse_entries_def by blast
  have "\<forall>e \<in> set es'. qualified_name (de_name_index e) (de_name_bytes e) = DATA_ATTR \<longleftrightarrow> key e = data_key"
    using members es(4) data_attr_name(2) by (auto simp: data_key_def key_def)
  then have "map_option xe_value (find (\<lambda>x. xe_name x = DATA_ATTR) xs) = Some v" using find_shown [OF xs(2)] b(5) by simp
  then show "\<exists>xs. xattr_parse_entries (drop 4 region') = Ok xs \<and> map_option xe_value (find (\<lambda>x. xe_name x = DATA_ATTR) xs) = Some v" using xs(1) by blast
qed

lemma put_prefix:
  assumes "off + length zs \<le> length xs" "length ys \<le> length zs"
  shows "put off ys (put off zs xs) = put off (ys @ drop (length ys) zs) xs"
proof -
  have "off \<le> length xs" using assms(1) by linarith
  then show ?thesis using assms by (simp add: put_def min_absorb2)
qed

lemma attr_areaD:
  assumes "attr_area raw isize = Some (start, fin)"
  shows "start = 128 + unat (get_le16 128 raw)" "fin = min (unat isize) (length raw)" "start + 8 \<le> fin" "128 < start" "0x82 \<le> length raw" "fin - start \<le> 65536"
proof -
  show "start = 128 + unat (get_le16 128 raw)" "fin = min (unat isize) (length raw)" "start + 8 \<le> fin" "128 < start" "0x82 \<le> length raw"
    using assms by (auto simp: attr_area_def Let_def split: if_splits)
  have "fin \<le> unat isize" using \<open>fin = _\<close> by simp
  then show "fin - start \<le> 65536" using unat_u16_bound [of isize] by linarith
qed

text \<open>The image a store leaves, and that the parser sees the new block area and nothing else.\<close>

definition inline_block :: "bytes \<Rightarrow> bytes" where
  "inline_block data = take 60 data @ replicate (60 - length data) 0"

lemma length_inline_block [simp]: "length (inline_block data) = 60"
  by (simp add: inline_block_def)

lemma inline_store_Ok:
  assumes "inline_store raw isize data = Ok raw'"
  obtains start fin region oc where "attr_area raw isize = Some (start, fin)" "length data \<le> 60 + unat isize"
    "plan_set_in_inode_region (slice start fin raw) DATA_ATTR (drop (min (length data) 60) data) = Ok (region, oc)"
    "length region = fin - start \<longrightarrow> raw' = put 0x28 (inline_block data) (put start region raw)"
proof -
  obtain start fin region oc where a: "attr_area raw isize = Some (start, fin)" "length data \<le> 60 + unat isize"
    "plan_set_in_inode_region (slice start fin raw) DATA_ATTR (drop (min (length data) 60) data) = Ok (region, oc)"
    and r: "raw' = put 0x28 (take (min (length data) 60) data) (put 0x28 (replicate 60 0) (put start region raw))"
    using assms by (auto simp: inline_store_def inline_ceiling_def I_BLOCK_LEN_def outcome_simps Let_def split: if_splits)
  have "raw' = put 0x28 (inline_block data) (put start region raw)" if l: "length region = fin - start"
  proof -
    have "length (put start region raw) = length raw" using attr_areaD [OF a(1)] l by simp
    then show ?thesis using put_prefix [of "0x28" "replicate 60 0" "put start region raw" "take (min (length data) 60) data"] attr_areaD(5) [OF a(1)]
      unfolding r by (simp add: inline_block_def min_def)
  qed
  then show ?thesis using that [OF a] by blast
qed

lemma parse_inline_image:
  assumes "Inode_parse raw = Ok ino" "128 + unat (get_le16 128 raw) \<le> start" "130 \<le> start" "start + length region \<le> length raw" "length blk = 60"
  shows "Inode_parse (put 0x28 blk (put start region raw)) = Ok (ino\<lparr>i_block_area := blk\<rparr>)"
proof -
  have l: "128 \<le> length raw" by (rule parse_len [OF assms(1)])
  have s: "slice 40 100 (put 40 blk (put start region raw)) = blk" using l assms(4,5) by (simp add: slice_simps)
  show ?thesis
    using assms l s
    by (auto simp: Inode_parse_def Let_def extra32_def declared_extra_def inode_consts codec_simps split: if_splits)
qed

text \<open>
  C27. Storing bytes inline and reading them back gives the same bytes: when the planner accepts the data, the inode image keeps its
  length, parses to the same inode but for the block area, and, with the size set to the data's length, reads back as exactly the
  data, the part past sixty bytes through the attribute.
\<close>

theorem inline_store_roundtrip:
  assumes "Inode_parse raw = Ok ino" "i_file_acl ino = 0" "get_le16 0x80 raw \<noteq> 1" "inline_store raw isize data = Ok raw'"
    "\<forall>start fin. attr_area raw isize = Some (start, fin) \<longrightarrow> area_sound (slice start fin raw)"
  shows "length raw' = length raw \<and> Inode_parse raw' = Ok (ino\<lparr>i_block_area := inline_block data\<rparr>) \<and>
    inline_read_all rd (ino\<lparr>i_block_area := inline_block data, i_size := word_of_nat (length data)\<rparr>) raw' isize bs = Ok data"
proof -
  obtain start fin region oc where a: "attr_area raw isize = Some (start, fin)" "length data \<le> 60 + unat isize"
    and p: "plan_set_in_inode_region (slice start fin raw) DATA_ATTR (drop (min (length data) 60) data) = Ok (region, oc)"
    and r': "length region = fin - start \<longrightarrow> raw' = put 0x28 (inline_block data) (put start region raw)"
    by (rule inline_store_Ok [OF assms(4)])
  note ad = attr_areaD [OF a(1)]
  have lr: "length (slice start fin raw) = fin - start" using ad by simp
  have sound: "area_sound (slice start fin raw)" using assms(5) a(1) by blast
  note st = stored_attr_read [OF sound _ _ p, unfolded lr]
  have reg: "length region = fin - start" "get_le32 0 region = EXT4_XATTR_MAGIC" using st(1,2) ad(3,6) by simp_all
  obtain xs where xs: "xattr_parse_entries (drop 4 region) = Ok xs" "map_option xe_value (find (\<lambda>x. xe_name x = DATA_ATTR) xs) = Some (drop (min (length data) 60) data)"
    using st(3) [OF _ ad(6)] ad(3) by (metis add_le_imp_le_diff add.commute)
  have raw': "raw' = put 0x28 (inline_block data) (put start region raw)" using r' reg(1) by blast
  have fit: "start + length region \<le> length raw" using ad reg(1) by simp
  have ne1: "unat (get_le16 128 raw) \<noteq> 1" using assms(3) by (metis unat_1 word_unat_eq_iff numeral_eq_one_iff semiring_norm)
  have s130: "130 \<le> start" using ad(1,4) ne1 by linarith
  have l': "length raw' = length raw" unfolding raw' using fit ad(5) by simp
  have ds: "get_le16 128 raw' = get_le16 128 raw" unfolding raw' using fit s130 ad(5) by (simp add: codec_simps)
  have sl: "slice start fin raw' = region"
  proof -
    have "slice start fin raw' = slice start fin (put start region raw)" unfolding raw' using fit s130 ad(5) by (simp add: slice_simps)
    then show ?thesis using fit reg(1) ad(3) by (simp add: slice_simps)
  qed
  have parse: "Inode_parse raw' = Ok (ino\<lparr>i_block_area := inline_block data\<rparr>)"
    unfolding raw' by (rule parse_inline_image [OF assms(1) _ s130 fit]) (use ad(1) in simp_all)
  let ?ino = "ino\<lparr>i_block_area := inline_block data, i_size := word_of_nat (length data)\<rparr>"
  have "read_in_inode raw' isize = Ok xs"
    using ds l' sl reg(2) xs(1) ad by (simp add: read_in_inode_def Let_def)
  then have get: "xattr_get rd ?ino raw' isize bs DATA_ATTR = Ok (Some (drop (min (length data) 60) data))"
    using assms(2) xs(2) by (simp add: xattr_get_def xattr_read_all_def)
  have n: "unat (word_of_nat (length data) :: u64) = length data" using a(2) unat_u16_bound [of isize] by (simp add: unat_of_nat)
  have "inline_read_all rd ?ino raw' isize bs = Ok data"
  proof (cases "length data \<le> 60")
    case True
    then show ?thesis using n by (simp add: inline_read_all_def get_slice_def inline_block_def slice_def)
  next
    case False
    then have "slice 0 60 (inline_block data) @ drop 60 data = data" by (simp add: inline_block_def slice_def)
    then show ?thesis using False n get by (simp add: inline_read_all_def get_slice_def min_def)
  qed
  then show ?thesis using l' parse by blast
qed


section \<open>The continuation of an inline directory\<close>

text \<open>The bisection finds the largest size that fits, given that a smaller one always fits where a larger one does.\<close>

lemma search_largest_correct:
  assumes "lo < hi" "\<forall>a b. a \<le> b \<longrightarrow> fit b \<longrightarrow> fit a"
  shows "lo \<le> search_largest fit lo hi \<and> search_largest fit lo hi < hi \<and> (search_largest fit lo hi = lo \<or> fit (search_largest fit lo hi)) \<and>
    (\<forall>m. search_largest fit lo hi < m \<longrightarrow> m < hi \<longrightarrow> \<not> fit m)"
  using assms
proof (induction fit lo hi rule: search_largest.induct)
  case (1 fit lo hi)
  show ?case
  proof (cases "lo + 1 < hi")
    case True
    then have mid: "lo < (lo + hi) div 2" "(lo + hi) div 2 < hi" by linarith+
    show ?thesis
    proof (cases "fit ((lo + hi) div 2)")
      case fit: True
      then have "search_largest fit lo hi = search_largest fit ((lo + hi) div 2) hi" using True by (subst search_largest.simps) (simp add: Let_def)
      then show ?thesis using 1(1) [OF True refl fit mid(2) 1(4)] mid fit by auto
    next
      case fit: False
      then have s: "search_largest fit lo hi = search_largest fit lo ((lo + hi) div 2)" using True by (subst search_largest.simps) (simp add: Let_def)
      note ih = 1(2) [OF True refl fit mid(1) 1(4)]
      have "\<not> fit m" if "search_largest fit lo hi < m" for m
        using ih that fit 1(4) unfolding s by (metis not_le)
      then show ?thesis using ih mid unfolding s by auto
    qed
  next
    case False
    then show ?thesis using 1(3) by (subst (1 2 3 4) search_largest.simps) auto
  qed
qed

lemma pad4_mono: "a \<le> b \<Longrightarrow> pad4 a \<le> pad4 b"
  by (simp add: pad4_def div_le_mono)

lemma needed_replace:
  assumes "length v \<le> length w"
  shows "replace_first idx suffix v es = None \<longleftrightarrow> replace_first idx suffix w es = None"
    "replace_first idx suffix v es = Some es1 \<Longrightarrow> replace_first idx suffix w es = Some es2 \<Longrightarrow>
      needed_entries es1 = needed_entries es2 \<and> needed_values es1 \<le> needed_values es2"
proof -
  show "replace_first idx suffix v es = None \<longleftrightarrow> replace_first idx suffix w es = None" by (induction es) auto
  show "replace_first idx suffix v es = Some es1 \<Longrightarrow> replace_first idx suffix w es = Some es2 \<Longrightarrow>
      needed_entries es1 = needed_entries es2 \<and> needed_values es1 \<le> needed_values es2"
    using pad4_mono [OF assms] assms
    by (induction es arbitrary: es1 es2) (auto simp: needed_entries_def needed_values_def split: if_splits)
qed

lemma fits_mono:
  assumes "length v \<le> length w" "fits n (fst (set_entry idx suffix w es))"
  shows "fits n (fst (set_entry idx suffix v es))"
proof (cases "replace_first idx suffix v es")
  case None
  then have "replace_first idx suffix w es = None" using needed_replace(1) [OF assms(1)] by blast
  then show ?thesis using None assms pad4_mono [OF assms(1)] by (auto simp: set_entry_def fits_def needed_entries_def needed_values_def split: if_splits)
next
  case (Some es1)
  then obtain es2 where "replace_first idx suffix w es = Some es2" using needed_replace(1) [OF assms(1)] by force
  then show ?thesis using Some assms(2) needed_replace(2) [OF assms(1) Some] by (force simp: set_entry_def fits_def)
qed

lemma fits_value: "fits n (fst (set_entry idx suffix v es)) \<Longrightarrow> length v \<le> n"
proof -
  assume f: "fits n (fst (set_entry idx suffix v es))"
  have p: "length v \<le> pad4 (length v)" by (simp add: pad4_def)
  have "length v \<le> needed_values es1" if "replace_first idx suffix v es = Some es1" for es1
    using that p by (induction es arbitrary: es1) (auto simp: needed_values_def split: if_splits)
  then show "length v \<le> n" using f p by (cases "replace_first idx suffix v es") (fastforce simp: set_entry_def fits_def needed_values_def split: if_splits)+
qed

lemma store_accepts_iff:
  assumes "region_entries region = Ok es" "\<forall>e \<in> set es. entry_ok e" "8 \<le> length region" "length region \<le> 65536"
  shows "is_ok (plan_set_in_inode_region region DATA_ATTR v) \<longleftrightarrow> fits (length region - 4) (fst (set_entry 7 (bstr ''data'') v es))"
proof -
  have sfx: "split_qualified_name DATA_ATTR = Some (7, bstr ''data'')" using data_attr_name(1) by (simp add: data_key_def)
  have l: "length (bstr ''data'') \<le> 255" "bstr ''data'' \<noteq> []" by (simp_all add: bstr_def)
  obtain ses oc where se: "set_entry 7 (bstr ''data'') v es = (ses, oc)" by force
  have "is_ok (encode_in_inode_entries (length region) ses)" if f: "fits (length region - 4) ses"
    using in_inode.set_stored [OF assms(2,4) sfx l(1), of v, unfolded se fst_conv, OF f] by auto
  then show ?thesis using plan_set_inode [OF sfx _ l(1) assms(3,1,2) se] l(2) se
    by (cases "encode_in_inode_entries (length region) ses") auto
qed

text \<open>
  An inline directory that has filled \<open>i_block\<close> gets the largest continuation its inode can hold: on success the continuation is one empty
  record of a length the attribute planner accepts, no longer multiple of four is accepted, and nothing else of the directory changes; it is refused
  exactly when there is a continuation already, or the planner accepts no length from the smallest entry's on.
\<close>

theorem inline_expand_largest:
  assumes "attr_area raw isize = Some (start, fin)" "region_entries (slice start fin raw) = Ok es" "\<forall>e \<in> set es. entry_ok e" "id_continuation d = []"
  defines "accepted \<equiv> \<lambda>n. is_ok (plan_set_in_inode_region (slice start fin raw) DATA_ATTR (replicate (4 * n) 0))"
  shows "case inline_dir_expand d raw isize of
      (d', True) \<Rightarrow> \<exists>n. id_continuation d' = [0, 0, 0, 0] @ u16_to_le (word_of_nat (4 * n)) @ replicate (4 * n - 6) 0 \<and> d' = d\<lparr>id_continuation := id_continuation d'\<rparr> \<and>
        3 \<le> n \<and> 4 * n \<le> 65535 \<and> accepted n \<and> (\<forall>m > n. \<not> accepted m)
    | (d', False) \<Rightarrow> d' = d \<and> (\<forall>m \<ge> 3. \<not> accepted m)"
proof -
  note ad = attr_areaD [OF assms(1)]
  define region where "region = slice start fin raw"
  have lr: "length region = fin - start" using ad by (simp add: region_def)
  have r: "region_entries region = Ok es" "8 \<le> length region" "length region \<le> 65536" using assms(2) ad(3,6) lr by (simp_all add: region_def)
  note acc = store_accepts_iff [OF r(1) assms(3) r(2,3)]
  have accepted: "accepted n = fits (length region - 4) (fst (set_entry 7 (bstr ''data'') (replicate (4 * n) 0) es))" for n
    using acc by (simp add: accepted_def region_def)
  define hi where "hi = (fin - start) div 4 + 1"
  define n where "n = search_largest accepted 0 hi"
  have mono: "\<forall>a b. a \<le> b \<longrightarrow> accepted b \<longrightarrow> accepted a" unfolding accepted by (auto elim!: fits_mono [rotated])
  have bound: "4 * m \<le> length region - 4" if "accepted m" for m using fits_value [OF that [unfolded accepted]] by simp
  have top: "m < hi" if "accepted m" for m using bound [OF that] unfolding lr hi_def by linarith
  have n: "n = 0 \<or> accepted n" "\<forall>m. n < m \<longrightarrow> \<not> accepted m"
    using search_largest_correct [of 0 hi accepted] mono top unfolding n_def hi_def by auto
  have small: "4 * n \<le> 65535" using n(1) bound [of n] r(3) by auto
  have e: "inline_dir_expand d raw isize =
    (if n * 4 < 12 then (d, False) else (d\<lparr>id_continuation := put 4 (u16_to_le (word_of_nat (n * 4))) (replicate (n * 4) 0)\<rparr>, True))"
    using assms(1,4) small
    by (simp add: inline_dir_expand_def Let_def n_def hi_def accepted_def MIN_CONTINUATION_def entry_rec_len_def mult.commute)
  show ?thesis
  proof (cases "3 \<le> n")
    case True
    then have "put 4 (u16_to_le (word_of_nat (n * 4))) (replicate (n * 4) 0) = [0, 0, 0, 0] @ u16_to_le (word_of_nat (4 * n)) @ replicate (4 * n - 6) (0 :: u8)"
      by (simp add: put_def numeral_eq_Suc mult.commute)
    then show ?thesis unfolding e using True n small by auto
  next
    case False
    then show ?thesis unfolding e using n(2) by auto
  qed
qed

section \<open>Instances\<close>

definition no_blocks :: "u64 \<Rightarrow> nat \<Rightarrow> bytes result" where
  "no_blocks offset n = Err NotFound"

lemma sample_inode_region: "slice 160 256 sample_inode = replicate 96 0"
  by (simp add: sample_inode_def slice_def put_def)

lemma sample_region_entries: "region_entries (slice 160 256 sample_inode) = Ok []"
proof -
  have "get_le32 0 (replicate 96 0) = 0" by code_simp
  then show ?thesis by (simp add: sample_inode_region region_entries_def EXT4_XATTR_MAGIC_def)
qed

lemma sample_store: "\<exists>raw'. inline_store sample_inode 256 (replicate 62 7) = Ok raw'"
proof -
  have l: "length sample_inode = 256" by (simp add: sample_inode_def)
  have "get_le16 0x80 sample_inode = 32" by code_simp
  then have a: "attr_area sample_inode 256 = Some (160, 256)" using l by (simp add: attr_area_def)
  have e: "region_entries (replicate 96 0) = Ok []" using sample_region_entries by (simp add: sample_inode_region)
  let ?e = "\<lparr>de_name_index = 7, de_name_bytes = bstr ''data'', de_value = [7, 7], de_value_inum = 0\<rparr> :: decoded_entry"
  have s: "set_entry 7 (bstr ''data'') [7, 7] [] = ([?e], Inserted)" by (simp add: set_entry_def)
  have f: "fits 92 [?e]" by (simp add: fits_def pad4_def bstr_def)
  have k: "\<forall>e \<in> set [?e]. entry_ok e" by (simp add: entry_ok_def bstr_def)
  obtain b where b: "encode_in_inode_entries 96 [?e] = Ok b" "length b = 96"
    using in_inode.encode_Ok [OF k, of 96] f by auto
  have "plan_set_in_inode_region (replicate 96 0) DATA_ATTR [7, 7] = Ok (b, Inserted)"
    using plan_set_inode [OF data_attr_name(1) [unfolded data_key_def] _ _ _ e _ s] f b by (simp add: bstr_def)
  moreover have "drop 60 (replicate 62 7 :: bytes) = [7, 7]" by (simp add: numeral_2_eq_2)
  ultimately show ?thesis
    using a l b(2) sample_inode_region by (simp add: inline_store_def inline_ceiling_def I_BLOCK_LEN_def put_checked_def)
qed

theorem inline_store_roundtrip_witness:
  "\<exists>ino raw'. Inode_parse sample_inode = Ok ino \<and> inline_store sample_inode 256 (replicate 62 7) = Ok raw' \<and>
     inline_read_all no_blocks (ino\<lparr>i_block_area := replicate 60 7, i_size := 62\<rparr>) raw' 256 4096 = Ok (replicate 62 7)"
proof -
  have l: "length sample_inode = 256" by (simp add: sample_inode_def)
  have g: "get_le16 0x80 sample_inode = 32" by code_simp
  have z: "get_le16 0x76 sample_inode = 0" "get_le32 0x68 sample_inode = 0" by code_simp+
  have "\<exists>ino. Inode_parse sample_inode = Ok ino \<and> i_file_acl ino = 0"
    using g z l by (simp add: Inode_parse_def Let_def extra32_def declared_extra_def inode_consts Inode.join32_def)
  then obtain ino where ino: "Inode_parse sample_inode = Ok ino" "i_file_acl ino = 0" by blast
  obtain raw' where r: "inline_store sample_inode 256 (replicate 62 7) = Ok raw'" using sample_store by blast
  have a: "attr_area sample_inode 256 = Some (160, 256)" using l g by (simp add: attr_area_def)
  have "area_sound (slice 160 256 sample_inode)" using sample_region_entries by (simp add: area_sound_def readable_def)
  then have s: "\<forall>start fin. attr_area sample_inode 256 = Some (start, fin) \<longrightarrow> area_sound (slice start fin sample_inode)" using a by simp
  have "inline_block (replicate 62 7) = replicate 60 7" by (simp add: inline_block_def)
  then show ?thesis using inline_store_roundtrip [OF ino _ r s, of no_blocks 4096] ino(1) r g by auto
qed


theorem inline_expand_largest_witness:
  "\<exists>d' n. inline_dir_expand \<lparr>id_parent = 2, id_head = replicate 56 0, id_continuation = []\<rparr> sample_inode 256 = (d', True) \<and> 3 \<le> n \<and>
     length (id_continuation d') = 4 * n \<and> \<not> is_ok (plan_set_in_inode_region (slice 160 256 sample_inode) DATA_ATTR (replicate (4 * (n + 1)) 0))"
proof -
  let ?d = "\<lparr>id_parent = 2, id_head = replicate 56 0, id_continuation = []\<rparr> :: inline_dir"
  have l: "length sample_inode = 256" by (simp add: sample_inode_def)
  have "get_le16 0x80 sample_inode = 32" by code_simp
  then have a: "attr_area sample_inode 256 = Some (160, 256)" using l by (simp add: attr_area_def)
  have "fits 92 (fst (set_entry 7 (bstr ''data'') (replicate 12 0) []))" by (simp add: set_entry_def fits_def pad4_def bstr_def)
  then have "is_ok (plan_set_in_inode_region (slice 160 256 sample_inode) DATA_ATTR (replicate (4 * 3) 0))"
    using store_accepts_iff [OF sample_region_entries, of "replicate 12 0"] l by simp
  moreover obtain d' ok where d': "inline_dir_expand ?d sample_inode 256 = (d', ok)" by force
  ultimately show ?thesis
    using inline_expand_largest [OF a sample_region_entries, of ?d] by (cases ok) fastforce+
qed

end
