(* ===== verification/Fs_Buffer.thy ===== *)
theory Fs_Buffer
  imports Journal_Crash Alloc Inline
begin

unbundle bit_operations_syntax

text \<open>
  The transaction buffer of \<open>src/fs.rs\<close>: the blocks a mutating operation stages, the helpers that keep bitmaps, group descriptors and the
  superblock's counters in step inside it, planning against what is staged, and the commit of the buffer, through the journal or directly.
\<close>

section \<open>The buffer\<close>

text \<open>A \<open>BTreeMap\<close>: an association list in the order of its keys, which is the order of iteration.\<close>

fun bt_insert :: "'k::linorder \<Rightarrow> 'v \<Rightarrow> ('k \<times> 'v) list \<Rightarrow> ('k \<times> 'v) list" where
  "bt_insert k v [] = [(k, v)]"
| "bt_insert k v ((k', v') # xs) =
     (if k < k' then (k, v) # (k', v') # xs else if k = k' then (k, v) # xs else (k', v') # bt_insert k v xs)"

record block_buffer =
  dirty :: "(u64 \<times> bytes) list"
  uninit_cleared :: "(nat \<times> u16) list"

definition BlockBuffer_new :: block_buffer where
  "BlockBuffer_new = \<lparr>dirty = [], uninit_cleared = []\<rparr>"

definition buffer_put :: "u64 \<Rightarrow> bytes \<Rightarrow> block_buffer \<Rightarrow> block_buffer" where
  "buffer_put block bs buf = buf\<lparr>dirty := bt_insert block bs (dirty buf)\<rparr>"

text \<open>\<open>get_mut\<close> loads the block on first touch; the bytes it hands out are put back when they have been changed. An error drops the buffer.\<close>

definition buffer_get :: "fs_view \<Rightarrow> u64 \<Rightarrow> block_buffer \<Rightarrow> (bytes \<times> block_buffer) result" where
  "buffer_get fs block buf =
     (case map_of (dirty buf) block of
        Some bs \<Rightarrow> Ok (bs, buf)
      | None \<Rightarrow> and_then (fs_read_block fs block) (\<lambda>bs. Ok (bs, buffer_put block bs buf)))"

definition buffer_edit :: "fs_view \<Rightarrow> u64 \<Rightarrow> (bytes \<Rightarrow> bytes result) \<Rightarrow> block_buffer \<Rightarrow> block_buffer result" where
  "buffer_edit fs block f buf =
     and_then (buffer_get fs block buf) (\<lambda>(bs, buf). and_then (f bs) (\<lambda>bs'. Ok (buffer_put block bs' buf)))"

section \<open>Group descriptors\<close>

definition OFF_FREE_BLOCKS_LO :: nat where "OFF_FREE_BLOCKS_LO = 0x0C"
definition OFF_FREE_BLOCKS_HI :: nat where "OFF_FREE_BLOCKS_HI = 0x2C"
definition OFF_FREE_INODES_LO :: nat where "OFF_FREE_INODES_LO = 0x0E"
definition OFF_FREE_INODES_HI :: nat where "OFF_FREE_INODES_HI = 0x2E"
definition OFF_USED_DIRS_LO :: nat where "OFF_USED_DIRS_LO = 0x10"
definition OFF_USED_DIRS_HI :: nat where "OFF_USED_DIRS_HI = 0x30"

text \<open>The counter arithmetic is done in 64 bits and clamped to 32; a delta is an \<open>i32\<close>.\<close>

definition patch_counter_u32 :: "bytes \<Rightarrow> nat \<Rightarrow> nat option \<Rightarrow> int \<Rightarrow> bytes result" where
  "patch_counter_u32 buf lo_off hi_off delta =
     and_then (get_slice lo_off (lo_off + 2) buf) (\<lambda>lo.
     and_then (case hi_off of None \<Rightarrow> Ok 0 | Some h \<Rightarrow> and_then (get_slice h (h + 2) buf) (\<lambda>b. Ok (u16_from_le b))) (\<lambda>cur_hi.
     let cur = push_bit 16 (ucast cur_hi) OR ucast (u16_from_le lo) :: u32;
         new = word_of_int (min (max (uint cur + delta) 0) 0xFFFFFFFF) :: u32 in
     and_then (put_checked lo_off (u16_to_le (ucast new)) buf) (\<lambda>buf.
     case hi_off of None \<Rightarrow> Ok buf | Some h \<Rightarrow> put_checked h (u16_to_le (ucast (drop_bit 16 new))) buf)))"

definition patch_bgd_counter_fields :: "bytes \<Rightarrow> nat \<Rightarrow> u16 \<Rightarrow> int \<Rightarrow> int \<Rightarrow> int \<Rightarrow> bytes result" where
  "patch_bgd_counter_fields block off dsize fb_delta fi_delta ud_delta =
     (let hi = (\<lambda>h. if dsize \<ge> 64 then Some (off + h) else None) in
      and_then (patch_counter_u32 block (off + OFF_FREE_BLOCKS_LO) (hi OFF_FREE_BLOCKS_HI) fb_delta) (\<lambda>block.
      and_then (patch_counter_u32 block (off + OFF_FREE_INODES_LO) (hi OFF_FREE_INODES_HI) fi_delta) (\<lambda>block.
      patch_counter_u32 block (off + OFF_USED_DIRS_LO) (hi OFF_USED_DIRS_HI) ud_delta)))"

definition restamp_group_desc_csum :: "crc_fn \<Rightarrow> fs_view \<Rightarrow> bytes \<Rightarrow> nat \<Rightarrow> nat \<Rightarrow> bytes result" where
  "restamp_group_desc_csum crc fs block off gi =
     and_then (get_slice off (off + unat (desc_size (fv_sb fs))) block) (\<lambda>desc.
     case group_desc_csum crc (fv_sb fs) (fv_csum fs) (word_of_nat gi) desc of
       None \<Rightarrow> Ok block
     | Some c \<Rightarrow> put_checked (off + 0x1E) (u16_to_le c) block)"

text \<open>Editing the descriptor of a group, and stamping its checksum.\<close>

definition edit_descriptor :: "fs_view \<Rightarrow> nat \<Rightarrow> (bytes \<Rightarrow> nat \<Rightarrow> bytes result) \<Rightarrow> block_buffer \<Rightarrow> block_buffer result" where
  "edit_descriptor fs gi f buf =
     (let (bgt_block, off) = descriptor_location (fv_sb fs) (word_of_nat gi) in buffer_edit fs bgt_block (\<lambda>block. f block off) buf)"

definition buffer_patch_bgd_counters :: "crc_fn \<Rightarrow> fs_view \<Rightarrow> nat \<Rightarrow> int \<Rightarrow> int \<Rightarrow> int \<Rightarrow> block_buffer \<Rightarrow> block_buffer result" where
  "buffer_patch_bgd_counters crc fs gi fb_delta fi_delta ud_delta =
     edit_descriptor fs gi (\<lambda>block off.
       and_then (patch_bgd_counter_fields block off (desc_size (fv_sb fs)) fb_delta fi_delta ud_delta) (\<lambda>block.
       restamp_group_desc_csum crc fs block off gi))"

definition buffer_refresh_bitmap_csum :: "crc_fn \<Rightarrow> fs_view \<Rightarrow> nat \<Rightarrow> bool \<Rightarrow> block_buffer \<Rightarrow> block_buffer result" where
  "buffer_refresh_bitmap_csum crc fs gi inode_bmp buf =
     (if \<not> enabled (fv_csum fs) then Ok buf
      else if gi \<ge> length (fv_groups fs) then Panic
      else let sb = fv_sb fs; g = fv_groups fs ! gi;
               bitmap_block = (if inode_bmp then inode_bitmap g else block_bitmap g);
               coverage = (unat (if inode_bmp then inodes_per_group sb else blocks_per_group sb) + 7) div 8;
               lo_off = (if inode_bmp then 0x1A else 0x18); hi_off = (if inode_bmp then 0x3A else 0x38) in
        and_then (buffer_get fs bitmap_block buf) (\<lambda>(bm, buf).
        let csum = linux_crc32c crc (seed (fv_csum fs)) (take (min coverage (length bm)) bm) in
        edit_descriptor fs gi (\<lambda>block off.
          and_then (put_checked (off + lo_off) (u16_to_le (ucast csum)) block) (\<lambda>block.
          and_then (if desc_size sb \<ge> 0x40 then put_checked (off + hi_off) (u16_to_le (ucast (drop_bit 16 csum))) block else Ok block) (\<lambda>block.
          restamp_group_desc_csum crc fs block off gi))) buf))"

datatype uninit_flag = UninitInode | UninitBlock

fun uninit_bit :: "uninit_flag \<Rightarrow> u16" where
  "uninit_bit UninitInode = INODE_UNINIT"
| "uninit_bit UninitBlock = BLOCK_UNINIT"

definition clear_bgd_uninit_flag_if_set :: "fs_view \<Rightarrow> nat \<Rightarrow> uninit_flag \<Rightarrow> block_buffer \<Rightarrow> (bool \<times> block_buffer) result" where
  "clear_bgd_uninit_flag_if_set fs gi which buf =
     (let flag = uninit_bit which; (bgt_block, off) = descriptor_location (fv_sb fs) (word_of_nat gi); flags_off = off + 0x12 in
      and_then (buffer_get fs bgt_block buf) (\<lambda>(block, buf).
      and_then (get_slice flags_off (flags_off + 2) block) (\<lambda>b.
      let flags = u16_from_le b in
      if flags AND flag = 0 then Ok (False, buf)
      else let new_flags = flags AND NOT flag;
               left = (case map_of (uninit_cleared buf) gi of Some f \<Rightarrow> f AND NOT flag | None \<Rightarrow> new_flags);
               buf = buffer_put bgt_block (put flags_off (u16_to_le new_flags) block) buf
           in Ok (True, buf\<lparr>uninit_cleared := bt_insert gi left (uninit_cleared buf)\<rparr>))))"

section \<open>Blocks\<close>

text \<open>Setting or clearing a run of bits, leaving out those past the bitmap's end.\<close>

definition set_bits :: "nat \<Rightarrow> nat \<Rightarrow> bytes \<Rightarrow> bytes" where
  "set_bits start n bm = foldl (\<lambda>bm i. if i div 8 < length bm then or_bit bm i else bm) bm [start ..< start + n]"

definition clear_bits :: "nat \<Rightarrow> nat \<Rightarrow> bytes \<Rightarrow> bytes" where
  "clear_bits start n bm = foldl (\<lambda>bm i. if i div 8 < length bm then clear_bit bm i else bm) bm [start ..< start + n]"

text \<open>
  A run cut at the boundaries of groups. Block numbers are natural numbers: the end of a group does not overflow, since a mounted volume's
  bytes fit 64 bits.
\<close>

function chunk_loop :: "nat \<Rightarrow> nat \<Rightarrow> nat \<Rightarrow> nat \<Rightarrow> nat \<Rightarrow> (nat \<times> nat \<times> nat) list result" where
  "chunk_loop first_data bpg n_groups fin pos =
     (if pos < fin \<and> 0 < bpg then
        let gi = (pos - first_data) div bpg in
        if gi \<ge> n_groups then Err (InvalidBlock (word_of_nat pos))
        else let group_start = first_data + gi * bpg; chunk = min fin (group_start + bpg) - pos in
          and_then (chunk_loop first_data bpg n_groups fin (pos + chunk)) (\<lambda>cs. Ok ((gi, pos - group_start, chunk) # cs))
      else Ok [])"
  by pat_completeness auto
termination
proof (relation "measure (\<lambda>(first_data, bpg, n_groups, fin, pos). fin - pos)", goal_cases)
  case (2 first_data bpg n_groups fin pos gi group_start chunk)
  have "pos < first_data + (pos - first_data) div bpg * bpg + bpg"
  proof -
    have "pos - first_data < (pos - first_data) div bpg * bpg + bpg" using 2(1) by (metis div_mult_mod_eq mod_less_divisor nat_add_left_cancel_less)
    then show ?thesis by linarith
  qed
  then have "0 < chunk" using 2 by simp
  moreover have "pos < fin" using 2(1) by blast
  ultimately show ?case by simp
qed simp

declare chunk_loop.simps [simp del]

definition group_chunks :: "fs_view \<Rightarrow> u64 \<Rightarrow> u64 \<Rightarrow> (nat \<times> nat \<times> nat) list result" where
  "group_chunks fs start n_blocks =
     (let sb = fv_sb fs in
      and_then (ok_or (checked_add start n_blocks) (InvalidBlock start)) (\<lambda>fin.
      if start < ucast (first_data_block sb) \<or> blocks_per_group sb = 0 then Err (InvalidBlock start)
      else if fin > blocks_count sb then Err (InvalidBlock (blocks_count sb))
      else chunk_loop (unat (first_data_block sb)) (unat (blocks_per_group sb)) (length (fv_groups fs)) (unat fin) (unat start)))"

definition free_chunk :: "crc_fn \<Rightarrow> fs_view \<Rightarrow> nat \<times> nat \<times> nat \<Rightarrow> block_buffer \<Rightarrow> block_buffer result" where
  "free_chunk crc fs = (\<lambda>(gi, bit_start, chunk) buf.
     and_then (buffer_edit fs (block_bitmap (fv_groups fs ! gi)) (\<lambda>bm. Ok (clear_bits bit_start chunk bm)) buf) (\<lambda>buf.
     and_then (buffer_refresh_bitmap_csum crc fs gi False buf) (\<lambda>buf.
     buffer_patch_bgd_counters crc fs gi (sint (word_of_nat chunk :: 32 word)) 0 0 buf)))"

fun free_chunks :: "crc_fn \<Rightarrow> fs_view \<Rightarrow> (nat \<times> nat \<times> nat) list \<Rightarrow> block_buffer \<Rightarrow> block_buffer result" where
  "free_chunks crc fs [] buf = Ok buf"
| "free_chunks crc fs (c # cs) buf = and_then (free_chunk crc fs c buf) (free_chunks crc fs cs)"

definition buffer_free_block_run_and_bgd :: "crc_fn \<Rightarrow> fs_view \<Rightarrow> u64 \<Rightarrow> u64 \<Rightarrow> block_buffer \<Rightarrow> (u64 \<times> block_buffer) result" where
  "buffer_free_block_run_and_bgd crc fs start n_blocks buf =
     and_then (group_chunks fs start n_blocks) (\<lambda>cs. and_then (free_chunks crc fs cs buf) (\<lambda>buf. Ok (n_blocks, buf)))"

fun buffer_free_runs :: "crc_fn \<Rightarrow> fs_view \<Rightarrow> (u64 \<times> u64) list \<Rightarrow> u64 \<Rightarrow> block_buffer \<Rightarrow> (u64 \<times> block_buffer) result" where
  "buffer_free_runs crc fs [] freed buf = Ok (freed, buf)"
| "buffer_free_runs crc fs ((start, n_blocks) # runs) freed buf =
     and_then (buffer_free_block_run_and_bgd crc fs start n_blocks buf) (\<lambda>(n, buf). buffer_free_runs crc fs runs (freed + n) buf)"

definition buffer_mark_block_run_used :: "crc_fn \<Rightarrow> fs_view \<Rightarrow> u64 \<Rightarrow> u64 \<Rightarrow> block_buffer \<Rightarrow> block_buffer result" where
  "buffer_mark_block_run_used crc fs start n_blocks buf =
     (let sb = fv_sb fs; bpg = ucast (blocks_per_group sb) :: u64; first_data = ucast (first_data_block sb) :: u64 in
      if bpg = 0 then Panic
      else let gi = unat ((start - first_data) div bpg) in
        if gi \<ge> length (fv_groups fs) then Err (InvalidBlock start)
        else let group_start = first_data + word_of_nat gi * bpg; bit_start = ucast (start - group_start) :: u32 in
          and_then (clear_bgd_uninit_flag_if_set fs gi UninitBlock buf) (\<lambda>(was_uninit, buf).
          and_then (buffer_edit fs (block_bitmap (fv_groups fs ! gi)) (\<lambda>bm.
            let bm = (if was_uninit
                      then let implied = uninit_block_bitmap sb (fv_groups fs) (word_of_nat gi); n = min (length implied) (length bm)
                           in put 0 (take n implied) bm
                      else bm)
            in Ok (set_bits (unat bit_start) (unat n_blocks) bm)) buf) (\<lambda>buf.
          buffer_refresh_bitmap_csum crc fs gi False buf)))"

section \<open>Inodes\<close>

definition buffer_free_inode_slot :: "crc_fn \<Rightarrow> fs_view \<Rightarrow> u32 \<Rightarrow> block_buffer \<Rightarrow> block_buffer result" where
  "buffer_free_inode_slot crc fs ino buf =
     (let ipg = inodes_per_group (fv_sb fs) in
      if ipg = 0 then Panic
      else let gi = unat ((ino - 1) div ipg); bit = unat ((ino - 1) mod ipg) in
        if gi \<ge> length (fv_groups fs) then Err (InvalidInode ino)
        else and_then (buffer_edit fs (inode_bitmap (fv_groups fs ! gi)) (\<lambda>bm. Ok (clear_bits bit 1 bm)) buf) (\<lambda>buf.
          and_then (buffer_refresh_bitmap_csum crc fs gi True buf) (\<lambda>buf.
          buffer_patch_bgd_counters crc fs gi 0 1 0 buf)))"

text \<open>The bitmap an uninitialized inode group starts from: clear, with the bits past the group's inodes set.\<close>

definition fresh_inode_bitmap :: "nat \<Rightarrow> nat \<Rightarrow> bytes" where
  "fresh_inode_bitmap ipg n = set_bits ipg (n * 8 - ipg) (replicate n 0)"

definition lower_itable_unused :: "crc_fn \<Rightarrow> fs_view \<Rightarrow> nat \<Rightarrow> u32 \<Rightarrow> bytes \<Rightarrow> nat \<Rightarrow> bytes result" where
  "lower_itable_unused crc fs gi floor block off =
     (let has_hi = (desc_size (fv_sb fs) \<ge> 0x40) in
      and_then (get_slice (off + 0x1C) (off + 0x1E) block) (\<lambda>lo.
      and_then (if has_hi then and_then (get_slice (off + 0x32) (off + 0x34) block) (\<lambda>b. Ok (u16_from_le b)) else Ok 0) (\<lambda>cur_hi.
      let cur = push_bit 16 (ucast cur_hi) OR ucast (u16_from_le lo) :: u32 in
      if floor < cur
      then and_then (put_checked (off + 0x1C) (u16_to_le (ucast floor)) block) (\<lambda>block.
        and_then (if has_hi then put_checked (off + 0x32) (u16_to_le (ucast (drop_bit 16 floor))) block else Ok block) (\<lambda>block.
        restamp_group_desc_csum crc fs block off gi))
      else Ok block)))"

definition buffer_mark_inode_used :: "crc_fn \<Rightarrow> fs_view \<Rightarrow> u32 \<Rightarrow> block_buffer \<Rightarrow> block_buffer result" where
  "buffer_mark_inode_used crc fs ino buf =
     (let ipg = inodes_per_group (fv_sb fs) in
      if ipg = 0 then Panic
      else let gi = unat ((ino - 1) div ipg); bit = unat ((ino - 1) mod ipg) in
        if gi \<ge> length (fv_groups fs) then Err (InvalidInode ino)
        else and_then (clear_bgd_uninit_flag_if_set fs gi UninitInode buf) (\<lambda>(was_uninit, buf).
          and_then (buffer_edit fs (inode_bitmap (fv_groups fs ! gi)) (\<lambda>bm.
            Ok (set_bits bit 1 (if was_uninit then fresh_inode_bitmap (unat ipg) (length bm) else bm))) buf) (\<lambda>buf.
          and_then (buffer_refresh_bitmap_csum crc fs gi True buf) (\<lambda>buf.
          edit_descriptor fs gi (lower_itable_unused crc fs gi (saturating_sub ipg (word_of_nat bit + 1))) buf))))"

section \<open>The superblock\<close>

text \<open>The superblock's 1024 bytes inside their block, edited and stamped.\<close>

definition edit_superblock :: "crc_fn \<Rightarrow> fs_view \<Rightarrow> (bytes \<Rightarrow> bytes) \<Rightarrow> block_buffer \<Rightarrow> block_buffer result" where
  "edit_superblock crc fs f buf =
     (let bs = ucast (block_size (fv_sb fs)) :: u64 in
      if bs = 0 then Panic
      else let off = unat (SUPERBLOCK_OFFSET mod bs) in
        buffer_edit fs (SUPERBLOCK_OFFSET div bs) (\<lambda>block.
          and_then (get_slice off (off + 1024) block) (\<lambda>sb.
          let sb = f sb;
              sb = (if enabled (fv_csum fs) then put 0x3FC (u32_to_le (linux_crc32c crc (NOT 0) (take 0x3FC sb))) sb else sb)
          in Ok (put off sb block))) buf)"

text \<open>The sum of the free blocks is signed 64-bit arithmetic, cut off below zero; that of the free inodes is cut off below zero and stored in 32 bits.\<close>

definition patched_sb_counters :: "int \<Rightarrow> int \<Rightarrow> bytes \<Rightarrow> bytes" where
  "patched_sb_counters fb_delta fi_delta sb =
     (let fi_new = word_of_int (max (uint (get_le32 0x10 sb) + fi_delta) 0) :: u32;
          sum_blocks = (push_bit 32 (ucast (get_le32 0x158 sb)) OR ucast (get_le32 0x0C sb)) + word_of_int fb_delta :: u64;
          new = (if sint sum_blocks < 0 then 0 else sum_blocks)
      in put 0x158 (u32_to_le (ucast (drop_bit 32 new))) (put 0x0C (u32_to_le (ucast new)) (put 0x10 (u32_to_le fi_new) sb)))"

definition buffer_patch_sb_counters :: "crc_fn \<Rightarrow> fs_view \<Rightarrow> int \<Rightarrow> int \<Rightarrow> block_buffer \<Rightarrow> block_buffer result" where
  "buffer_patch_sb_counters crc fs fb_delta fi_delta = edit_superblock crc fs (patched_sb_counters fb_delta fi_delta)"

definition buffer_patch_sb_compat :: "crc_fn \<Rightarrow> fs_view \<Rightarrow> u32 \<Rightarrow> block_buffer \<Rightarrow> block_buffer result" where
  "buffer_patch_sb_compat crc fs bits = edit_superblock crc fs (\<lambda>sb. put 0x5C (u32_to_le (get_le32 0x5C sb OR bits)) sb)"

definition buffer_patch_sb_last_orphan :: "crc_fn \<Rightarrow> fs_view \<Rightarrow> u32 \<Rightarrow> block_buffer \<Rightarrow> block_buffer result" where
  "buffer_patch_sb_last_orphan crc fs v = edit_superblock crc fs (put 0xE8 (u32_to_le v))"

section \<open>Planning against the buffer\<close>

text \<open>
  The uninit flags this mount has taken down, and the cached descriptors with those flags applied. \<open>allocation_groups\<close> returns the descriptors to
  plan against with the state, which keeps the copy it builds.
\<close>

record allocation_state =
  cleared :: "(nat \<times> u16) list"
  overridden :: "bgd list option"

definition allocation_publish :: "(nat \<times> u16) list \<Rightarrow> allocation_state \<Rightarrow> allocation_state" where
  "allocation_publish cl st =
     (if cl = [] then st
      else st\<lparr>cleared := foldl (\<lambda>m (gi, flags). bt_insert gi (case map_of m gi of Some f \<Rightarrow> f AND flags | None \<Rightarrow> flags) m) (cleared st) cl,
              overridden := None\<rparr>)"

definition allocation_reset :: "allocation_state \<Rightarrow> allocation_state" where
  "allocation_reset st = \<lparr>cleared = [], overridden = None\<rparr>"

definition with_flags :: "(nat \<times> u16) list \<Rightarrow> bgd list \<Rightarrow> bgd list" where
  "with_flags cl groups = foldl (\<lambda>gs (gi, flags). if gi < length gs then gs[gi := (gs ! gi)\<lparr>bgd_flags := flags\<rparr>] else gs) groups cl"

text \<open>An index past the descriptors unwinds in \<open>allocation_groups\<close> and is left out in \<open>plan_buffered_block_allocation_excluding\<close>.\<close>

definition allocation_groups :: "bgd list \<Rightarrow> allocation_state \<Rightarrow> bgd list result \<times> allocation_state" where
  "allocation_groups groups st =
     (if cleared st = [] then (Ok groups, st)
      else case overridden st of
        Some gs \<Rightarrow> (Ok gs, st)
      | None \<Rightarrow>
          if \<exists>(gi, flags) \<in> set (cleared st). gi \<ge> length groups then (Panic, st)
          else let gs = with_flags (cleared st) groups in (Ok gs, st\<lparr>overridden := Some gs\<rparr>))"

definition buffer_reader :: "fs_view \<Rightarrow> block_buffer \<Rightarrow> u64 \<Rightarrow> bytes result" where
  "buffer_reader fs buf block = (case map_of (dirty buf) block of Some bs \<Rightarrow> Ok bs | None \<Rightarrow> fs_read_block fs block)"

definition plan_buffered_block_allocation_excluding :: "fs_view \<Rightarrow> block_buffer \<Rightarrow> u32 \<Rightarrow> u32 \<Rightarrow> u64 list \<Rightarrow> allocation_state
    \<Rightarrow> block_allocation_plan result \<times> allocation_state" where
  "plan_buffered_block_allocation_excluding fs buf n hint reserved st =
     (let (base, st) = allocation_groups (fv_groups fs) st in
      (and_then base (\<lambda>base. plan_block_allocation_excluding (fv_sb fs) (with_flags (uninit_cleared buf) base) n hint reserved (buffer_reader fs buf)), st))"

definition plan_buffered_block_allocation :: "fs_view \<Rightarrow> block_buffer \<Rightarrow> u32 \<Rightarrow> u32 \<Rightarrow> allocation_state \<Rightarrow> block_allocation_plan result \<times> allocation_state" where
  "plan_buffered_block_allocation fs buf n hint st = plan_buffered_block_allocation_excluding fs buf n hint [] st"

section \<open>The commit\<close>

text \<open>The blocks of a stage, written in order, then a flush; an empty stage is skipped.\<close>

fun write_blocks :: "'s dev_ops \<Rightarrow> u64 \<Rightarrow> (u64 \<times> bytes) list \<Rightarrow> 's \<Rightarrow> ('s, unit) dev_result" where
  "write_blocks dev bs [] s = (Ok (), s)"
| "write_blocks dev bs ((block, x) # ws) s = st_bind (dv_write dev s (block * bs) x) (\<lambda>_ s. write_blocks dev bs ws s)"

fun write_stages :: "'s dev_ops \<Rightarrow> u64 \<Rightarrow> (u64 \<times> bytes) list list \<Rightarrow> 's \<Rightarrow> ('s, unit) dev_result" where
  "write_stages dev bs [] s = (Ok (), s)"
| "write_stages dev bs (stage # stages) s =
     (if stage = [] then write_stages dev bs stages s
      else st_bind (write_blocks dev bs stage s) (\<lambda>_ s. st_bind (dv_flush dev s) (\<lambda>_ s. write_stages dev bs stages s)))"

definition direct_stages :: "superblock \<Rightarrow> (u64 \<times> bytes) list \<Rightarrow> u64 set \<Rightarrow> (u64 \<times> bytes) list list" where
  "direct_stages sb dirty_blocks descriptors =
     (let sb_blk = SUPERBLOCK_OFFSET div ucast (block_size sb); rest = filter (\<lambda>(b, _). b \<noteq> sb_blk) dirty_blocks
      in [filter (\<lambda>(b, _). b \<notin> descriptors) rest, filter (\<lambda>(b, _). b \<in> descriptors) rest, filter (\<lambda>(b, _). b = sb_blk) dirty_blocks])"

definition write_direct :: "'s dev_ops \<Rightarrow> superblock \<Rightarrow> (u64 \<times> bytes) list \<Rightarrow> u64 set \<Rightarrow> 's \<Rightarrow> ('s, unit) dev_result" where
  "write_direct dev sb dirty_blocks descriptors s =
     (if block_size sb = 0 then (Panic, s) else write_stages dev (ucast (block_size sb)) (direct_stages sb dirty_blocks descriptors) s)"

record live_state =
  ls_journal :: "journal_writer option"
  ls_alloc :: allocation_state
  direct_commit_failed :: bool

fun add_writes :: "(u64 \<times> bytes) list \<Rightarrow> transaction \<Rightarrow> transaction result" where
  "add_writes [] tx = Ok tx"
| "add_writes ((block, x) # ws) tx = and_then (add_write block x tx) (add_writes ws)"

definition commit_block_buffer :: "crc_fn \<Rightarrow> 's dev_ops \<Rightarrow> superblock \<Rightarrow> block_buffer \<Rightarrow> live_state \<Rightarrow> 's \<Rightarrow> (live_state \<times> 's, unit) dev_result" where
  "commit_block_buffer crc dev sb buf ls s =
     (if dirty buf = [] then (Ok (), (ls, s))
      else case ls_journal ls of
        Some w \<Rightarrow>
          (case add_writes (dirty buf) (jw_begin w) of
             Ok tx \<Rightarrow>
               (let (r, (w, s)) = jw_commit crc dev tx w s; ls = ls\<lparr>ls_journal := Some w\<rparr> in
                case r of
                  Ok _ \<Rightarrow> (Ok (), (ls\<lparr>ls_alloc := allocation_publish (uninit_cleared buf) (ls_alloc ls)\<rparr>, s))
                | Err e \<Rightarrow> (Err e, (ls, s))
                | Panic \<Rightarrow> (Panic, (ls, s)))
           | Err e \<Rightarrow> (Err e, (ls, s))
           | Panic \<Rightarrow> (Panic, (ls, s)))
      | None \<Rightarrow>
          (let descriptors = set (map (\<lambda>(gi, _). fst (descriptor_location sb (word_of_nat gi))) (uninit_cleared buf));
               (r, s) = write_direct dev sb (dirty buf) descriptors s in
           case r of
             Ok _ \<Rightarrow> (Ok (), (ls\<lparr>ls_alloc := allocation_publish (uninit_cleared buf) (ls_alloc ls)\<rparr>, s))
           | Err e \<Rightarrow> (Err e, (ls\<lparr>direct_commit_failed := True\<rparr>, s))
           | Panic \<Rightarrow> (Panic, (ls, s))))"

section \<open>Crashes during a direct commit\<close>

lemma write_blocks_traced:
  fixes bsw :: u32
  assumes "whole_blocks (unat bsw) (length (tr_image t)) ws" "length (tr_image t) < 2 ^ 63"
  shows "write_blocks traced_ops (ucast bsw) ws t = (Ok (), recorded (block_events bsw ws) t)"
  using assms
proof (induction ws arbitrary: t)
  case Nil
  then show ?case by (simp add: recorded_simps block_events_def)
next
  case (Cons w ws)
  obtain b x where w: "w = (b, x)" by (cases w)
  have rng: "unat b * unat bsw + unat bsw \<le> length (tr_image t)" "length x = unat bsw" using Cons.prems(1) by (auto simp: whole_blocks_def w)
  have off: "unat (b * ucast bsw :: u64) = unat b * unat bsw" by (rule block_offset [OF rng(1) Cons.prems(2)])
  let ?t = "recorded [(b * ucast bsw, x)] t"
  have wr: "dv_write traced_ops t (b * ucast bsw) x = (Ok (), ?t)" using rng off by (simp add: traced_ops_def traced_write_ok)
  have "length (tr_image ?t) = length (tr_image t)" using rng off by (simp add: recorded_simps apply_all_def)
  moreover have "whole_blocks (unat bsw) (length (tr_image t)) ws" using Cons.prems(1) by (simp add: whole_blocks_def)
  ultimately have "write_blocks traced_ops (ucast bsw) ws ?t = (Ok (), recorded (block_events bsw ws) ?t)" using Cons.IH [of ?t] Cons.prems(2) by simp
  then show ?case using wr by (simp add: w block_events_def recorded_Cons [of "(b * ucast bsw, x)" "map (\<lambda>(b, x). (b * ucast bsw, x)) ws"])
qed

definition stage_events :: "u32 \<Rightarrow> (u64 \<times> bytes) list list \<Rightarrow> dev_event list" where
  "stage_events bsw stages = concat (map (\<lambda>st. if st = [] then [] else map (\<lambda>(off, x). EWrite off x) (block_events bsw st) @ [EFlush]) stages)"

lemma write_stages_traced:
  fixes bsw :: u32
  assumes "whole_blocks (unat bsw) (length (tr_image t)) (concat stages)" "length (tr_image t) < 2 ^ 63"
  shows "\<exists>t'. write_stages traced_ops (ucast bsw) stages t = (Ok (), t') \<and> tr_image t' = block_writes (unat bsw) (concat stages) (tr_image t) \<and>
    tr_events t' = tr_events t @ stage_events bsw stages"
  using assms
proof (induction stages arbitrary: t)
  case Nil
  then show ?case by (simp add: block_writes_def stage_events_def)
next
  case (Cons st stages)
  show ?case
  proof (cases "st = []")
    case True
    then show ?thesis using Cons.IH [of t] Cons.prems by (simp add: stage_events_def)
  next
    case False
    have wb: "whole_blocks (unat bsw) (length (tr_image t)) st" "whole_blocks (unat bsw) (length (tr_image t)) (concat stages)"
      using Cons.prems(1) by (auto simp: whole_blocks_def)
    let ?t = "fenced (recorded (block_events bsw st) t)"
    have img: "tr_image ?t = block_writes (unat bsw) st (tr_image t)"
      using apply_all_blocks [OF wb(1) Cons.prems(2)] by (simp add: recorded_simps block_events_def)
    have len: "length (tr_image ?t) = length (tr_image t)" using wb(1) img by simp
    obtain t' where t': "write_stages traced_ops (ucast bsw) stages ?t = (Ok (), t')" "tr_image t' = block_writes (unat bsw) (concat stages) (tr_image ?t)"
      "tr_events t' = tr_events ?t @ stage_events bsw stages"
      using Cons.IH [of ?t] wb(2) Cons.prems(2) len by auto
    have "dv_flush traced_ops (recorded (block_events bsw st) t) = (Ok (), ?t)" by (simp add: traced_ops_def fenced_def)
    then have "write_stages traced_ops (ucast bsw) (st # stages) t = (Ok (), t')"
      using False write_blocks_traced [OF wb(1) Cons.prems(2)] t'(1) by simp
    moreover have "tr_image t' = block_writes (unat bsw) (concat (st # stages)) (tr_image t)" using t'(2) img by (simp add: block_writes_def)
    moreover have "tr_events t' = tr_events t @ stage_events bsw (st # stages)" using t'(3) False by (simp add: recorded_simps stage_events_def)
    ultimately show ?thesis by blast
  qed
qed

text \<open>What a crash leaves of a staged write: some stages whole, some writes of the next one, nothing of the later ones.\<close>

lemma crashed_stages:
  fixes bsw :: u32
  assumes "whole_blocks (unat bsw) (length img) (concat stages)" "length img < 2 ^ 63" "crashed img [] (stage_events bsw stages) img'"
  obtains pre st post part where "stages @ [[]] = pre @ st # post" "set part \<subseteq> set st" "img' = block_writes (unat bsw) (concat pre @ part) img"
proof -
  have "\<exists>pre st post part. stages @ [[]] = pre @ st # post \<and> set part \<subseteq> set st \<and> img' = block_writes (unat bsw) (concat pre @ part) img"
    using assms
  proof (induction stages arbitrary: img)
    case Nil
    then have "img' = img" by (auto simp: stage_events_def apply_all_def elim!: crashed_NilE)
    then show ?case by (intro exI [of _ "[]"] exI [of _ "[]"]) (simp add: block_writes_def)
  next
    case (Cons st stages)
    have wb: "whole_blocks (unat bsw) (length img) st" "whole_blocks (unat bsw) (length img) (concat stages)" using Cons.prems(1) by (auto simp: whole_blocks_def)
    show ?case
    proof (cases "st = []")
      case True
      then have "crashed img [] (stage_events bsw stages) img'" using Cons.prems(3) by (simp add: stage_events_def)
      then obtain pre st' post part where "stages @ [[]] = pre @ st' # post" "set part \<subseteq> set st'" "img' = block_writes (unat bsw) (concat pre @ part) img"
        using Cons.IH [OF wb(2) Cons.prems(2)] by blast
      then show ?thesis using True by (intro exI [of _ "[] # pre"] exI [of _ st'] exI [of _ post] exI [of _ part]) simp
    next
      case False
      then have "crashed img [] (map (\<lambda>(off, x). EWrite off x) (block_events bsw st) @ EFlush # stage_events bsw stages) img'"
        using Cons.prems(3) by (simp add: stage_events_def)
      then consider (part) pick where "pick \<in> set (subseqs (block_events bsw st))" "img' = apply_all pick img"
        | (later) "crashed (apply_all (block_events bsw st) img) [] (stage_events bsw stages) img'"
        using crashed_phase [of img "[]" "block_events bsw st" "stage_events bsw stages" img'] by auto
      then show ?thesis
      proof cases
        case part
        obtain ws' where ws': "pick = map (\<lambda>(b, x). (b * ucast bsw, x)) ws'" "set ws' \<subseteq> set st"
          using crash_picks part(1) unfolding block_events_def by blast
        have "whole_blocks (unat bsw) (length img) ws'" using wb(1) ws'(2) by (auto simp: whole_blocks_def)
        then have "img' = block_writes (unat bsw) ws' img" using apply_all_blocks [OF _ Cons.prems(2)] part(2) ws'(1) by simp
        then show ?thesis using ws'(2) by (intro exI [of _ "[]"] exI [of _ st] exI [of _ "stages @ [[]]"] exI [of _ ws']) auto
      next
        case later
        let ?img = "block_writes (unat bsw) st img"
        have "crashed ?img [] (stage_events bsw stages) img'" using later apply_all_blocks [OF wb(1) Cons.prems(2)] by (simp add: block_events_def)
        moreover have "length ?img = length img" using wb(1) by simp
        ultimately obtain pre st' post part where "stages @ [[]] = pre @ st' # post" "set part \<subseteq> set st'" "img' = block_writes (unat bsw) (concat pre @ part) ?img"
          using Cons.IH [of ?img] wb(2) Cons.prems(2) by auto
        then show ?thesis by (intro exI [of _ "st # pre"] exI [of _ st'] exI [of _ post] exI [of _ part]) (simp add: block_writes_def)
      qed
    qed
  qed
  then show thesis using that by blast
qed

text \<open>The stages of a buffer: every write is in one of them, once.\<close>

lemma direct_stages_writes:
  assumes "distinct (map fst ws)"
  shows "set (concat (direct_stages sb ws ds)) = set ws" "distinct (map fst (concat (direct_stages sb ws ds)))"
proof -
  let ?s = "SUPERBLOCK_OFFSET div ucast (block_size sb) :: u64"
  have "distinct (map fst (filter P ws))" for P using assms by (rule distinct_map_filter)
  then show "distinct (map fst (concat (direct_stages sb ws ds)))"
    using distinct_map_filter [OF assms] by (auto simp: direct_stages_def Let_def)
  show "set (concat (direct_stages sb ws ds)) = set ws" by (auto simp: direct_stages_def Let_def)
qed

lemma map_of_subset:
  assumes "distinct (map fst ws)" "set ws' \<subseteq> set ws"
  shows "map_of (rev ws') b = Some x \<Longrightarrow> map_of ws b = Some x" "b \<in> fst ` set ws' \<Longrightarrow> map_of (rev ws') b = map_of ws b"
proof -
  have a: "map_of ws b = Some x" if "map_of (rev ws') b = Some x" for x using map_of_SomeD [OF that] assms by (simp add: subset_iff)
  then show "map_of (rev ws') b = Some x \<Longrightarrow> map_of ws b = Some x" .
  assume "b \<in> fst ` set ws'"
  then have "map_of (rev ws') b \<noteq> None" by (simp add: map_of_eq_None_iff)
  then show "map_of (rev ws') b = map_of ws b" using a by fastforce
qed

text \<open>What a block holds when a buffer has been written whole.\<close>

definition staged_block :: "nat \<Rightarrow> (u64 \<times> bytes) list \<Rightarrow> bytes \<Rightarrow> u64 \<Rightarrow> bytes" where
  "staged_block bs ws img b = (case map_of ws b of Some x \<Rightarrow> x | None \<Rightarrow> Block_Cache.block_of bs b img)"

lemma partial_writes:
  assumes "whole_blocks bs (length img) ws" "distinct (map fst ws)" "set ws' \<subseteq> set ws" "unat b * bs + bs \<le> length img"
  shows "b \<in> fst ` set ws' \<Longrightarrow> Block_Cache.block_of bs b (block_writes bs ws' img) = staged_block bs ws img b"
    "b \<notin> fst ` set ws' \<Longrightarrow> Block_Cache.block_of bs b (block_writes bs ws' img) = Block_Cache.block_of bs b img"
proof -
  have wb: "whole_blocks bs (length img) ws'" using assms(1,3) by (auto simp: whole_blocks_def)
  show "b \<in> fst ` set ws' \<Longrightarrow> Block_Cache.block_of bs b (block_writes bs ws' img) = staged_block bs ws img b"
    using map_of_subset(2) [OF assms(2,3)] by (simp add: block_of_block_writes [OF wb assms(4)] staged_block_def)
  assume "b \<notin> fst ` set ws'"
  then have "map_of (rev ws') b = None" by (simp add: map_of_eq_None_iff)
  then show "Block_Cache.block_of bs b (block_writes bs ws' img) = Block_Cache.block_of bs b img" by (simp add: block_of_block_writes [OF wb assms(4)])
qed

lemma staged_untouched: "b \<notin> fst ` set ws \<Longrightarrow> staged_block bs ws img b = Block_Cache.block_of bs b img"
  by (simp add: staged_block_def map_of_eq_None_iff [THEN iffD2])

lemma direct_commit_crash:
  fixes sb :: superblock
  defines "bs \<equiv> unat (block_size sb)" and "sbb \<equiv> SUPERBLOCK_OFFSET div ucast (block_size sb)"
  assumes "whole_blocks bs (length img) ws" "distinct (map fst ws)" "length img < 2 ^ 63" "crashed img [] (stage_events (block_size sb) (direct_stages sb ws ds)) img'"
  shows "\<forall>b. unat b * bs + bs \<le> length img \<longrightarrow> Block_Cache.block_of bs b img' = Block_Cache.block_of bs b img \<or> Block_Cache.block_of bs b img' = staged_block bs ws img b"
    "sbb \<in> fst ` set ws \<Longrightarrow> Block_Cache.block_of bs sbb img' = Block_Cache.block_of bs sbb img \<or> (\<forall>b. unat b * bs + bs \<le> length img \<longrightarrow> Block_Cache.block_of bs b img' = staged_block bs ws img b)"
    "\<forall>d \<in> ds. d \<noteq> sbb \<longrightarrow> unat d * bs + bs \<le> length img \<longrightarrow> Block_Cache.block_of bs d img' = Block_Cache.block_of bs d img \<or>
       (\<forall>b. unat b * bs + bs \<le> length img \<longrightarrow> b \<notin> ds \<longrightarrow> b \<noteq> sbb \<longrightarrow> Block_Cache.block_of bs b img' = staged_block bs ws img b)"
proof -
  let ?st = "direct_stages sb ws ds"
  have wb: "whole_blocks bs (length img) (concat ?st)" using assms(3) direct_stages_writes(1) [OF assms(4), of sb ds] by (simp add: whole_blocks_def)
  obtain pre st post part where c: "?st @ [[]] = pre @ st # post" "set part \<subseteq> set st" "img' = block_writes bs (concat pre @ part) img"
    using crashed_stages [OF wb [unfolded bs_def] assms(5,6)] unfolding bs_def by blast
  let ?ws = "concat pre @ part"
  have "set (concat (?st @ [[]])) = set ws" using direct_stages_writes(1) [OF assms(4), of sb ds] by simp
  then have sub: "set ?ws \<subseteq> set ws" using c(1,2) by auto
  note pw = partial_writes [OF assms(3,4) sub]
  show "\<forall>b. unat b * bs + bs \<le> length img \<longrightarrow> Block_Cache.block_of bs b img' = Block_Cache.block_of bs b img \<or> Block_Cache.block_of bs b img' = staged_block bs ws img b"
    using pw unfolding c(3) by blast
  obtain early late sup where st3: "?st = [early, late, sup]" "set early = {(b, x) \<in> set ws. b \<noteq> sbb \<and> b \<notin> ds}" "set late = {(b, x) \<in> set ws. b \<noteq> sbb \<and> b \<in> ds}"
    "set sup = {(b, x) \<in> set ws. b = sbb}"
    unfolding direct_stages_def Let_def sbb_def by auto
  have cases: "pre = [] \<and> st = early \<or> pre = [early] \<and> st = late \<or> pre = [early, late] \<and> st = sup \<or> pre = [early, late, sup] \<and> st = []"
    using c(1) unfolding st3(1) by (auto simp: Cons_eq_append_conv)
  have new: "Block_Cache.block_of bs b img' = staged_block bs ws img b" if "unat b * bs + bs \<le> length img" "b \<in> fst ` set ws \<Longrightarrow> b \<in> fst ` set ?ws" for b
    using pw [OF that(1)] that(2) staged_untouched [of b ws bs img] unfolding c(3) by metis
  show "sbb \<in> fst ` set ws \<Longrightarrow> Block_Cache.block_of bs sbb img' = Block_Cache.block_of bs sbb img \<or> (\<forall>b. unat b * bs + bs \<le> length img \<longrightarrow> Block_Cache.block_of bs b img' = staged_block bs ws img b)"
  proof -
    assume "sbb \<in> fst ` set ws"
    then have fits: "unat sbb * bs + bs \<le> length img" using assms(3) by (auto simp: whole_blocks_def)
    show ?thesis
    proof (cases "sbb \<in> fst ` set ?ws")
      case False
      then show ?thesis using pw(2) [OF fits] unfolding c(3) by blast
    next
      case True
      then have "set early \<union> set late \<subseteq> set ?ws" "sbb \<in> fst ` set ?ws" using cases c(2) st3 by auto
      then have "b \<in> fst ` set ?ws" if b: "b \<in> fst ` set ws" for b
      proof (cases "b = sbb")
        case False
        obtain x where "(b, x) \<in> set ws" using b by force
        then have "(b, x) \<in> set early \<union> set late" using False st3(2,3) by blast
        then have "(b, x) \<in> set ?ws" using \<open>set early \<union> set late \<subseteq> set ?ws\<close> by blast
        then show ?thesis by (metis fst_conv image_eqI)
      qed (use True in simp)
      then show ?thesis using new by blast
    qed
  qed
  show "\<forall>d \<in> ds. d \<noteq> sbb \<longrightarrow> unat d * bs + bs \<le> length img \<longrightarrow> Block_Cache.block_of bs d img' = Block_Cache.block_of bs d img \<or>
       (\<forall>b. unat b * bs + bs \<le> length img \<longrightarrow> b \<notin> ds \<longrightarrow> b \<noteq> sbb \<longrightarrow> Block_Cache.block_of bs b img' = staged_block bs ws img b)"
  proof (intro ballI impI)
    fix d assume d: "d \<in> ds" "d \<noteq> sbb" "unat d * bs + bs \<le> length img"
    show "Block_Cache.block_of bs d img' = Block_Cache.block_of bs d img \<or> (\<forall>b. unat b * bs + bs \<le> length img \<longrightarrow> b \<notin> ds \<longrightarrow> b \<noteq> sbb \<longrightarrow> Block_Cache.block_of bs b img' = staged_block bs ws img b)"
    proof (cases "d \<in> fst ` set ?ws")
      case False
      then show ?thesis using pw(2) [OF d(3)] unfolding c(3) by blast
    next
      case True
      then have "set early \<subseteq> set ?ws" using cases c(2) st3 d by auto
      then have "b \<in> fst ` set ?ws" if b: "b \<in> fst ` set ws" "b \<notin> ds" "b \<noteq> sbb" for b
      proof -
        obtain x where "(b, x) \<in> set ws" using b(1) by force
        then have "(b, x) \<in> set early" using b(2,3) st3(2) by blast
        then have "(b, x) \<in> set ?ws" using \<open>set early \<subseteq> set ?ws\<close> by blast
        then show ?thesis by (metis fst_conv image_eqI)
      qed
      then show ?thesis using new by blast
    qed
  qed
qed

text \<open>
  C3. Committing a buffer on a volume with no journal (\<open>commit_block_buffer\<close>, \<open>write_direct\<close>) and a crash at any moment of it, with any subset of the
  writes since the last flush lost: every block holds its old or its new contents; the superblock, where free counts are credited and the orphan
  list advances, is new only if everything is; and a descriptor block that takes an uninit flag down is new only if every bitmap, inode table and data block
  of the commit is. Without a crash the commit succeeds and every block is new, and the flags are published.
\<close>

theorem direct_commit_crash_ordered:
  fixes sb :: superblock
  defines "bs \<equiv> unat (block_size sb)" and "sbb \<equiv> SUPERBLOCK_OFFSET div ucast (block_size sb)"
  assumes "whole_blocks bs (length img) (dirty buf)" "distinct (map fst (dirty buf))" "dirty buf \<noteq> []" "length img < 2 ^ 63" "block_size sb \<noteq> 0" "ls_journal ls = None"
  shows "\<exists>t'. commit_block_buffer crc traced_ops sb buf ls \<lparr>tr_image = img, tr_events = []\<rparr> =
        (Ok (), (ls\<lparr>ls_alloc := allocation_publish (uninit_cleared buf) (ls_alloc ls)\<rparr>, t')) \<and>
      (\<forall>b. unat b * bs + bs \<le> length img \<longrightarrow> Block_Cache.block_of bs b (tr_image t') = staged_block bs (dirty buf) img b) \<and>
      (\<forall>img'. crashed img [] (tr_events t') img' \<longrightarrow>
         (\<forall>b. unat b * bs + bs \<le> length img \<longrightarrow> Block_Cache.block_of bs b img' = Block_Cache.block_of bs b img \<or> Block_Cache.block_of bs b img' = staged_block bs (dirty buf) img b) \<and>
         (sbb \<in> fst ` set (dirty buf) \<longrightarrow> Block_Cache.block_of bs sbb img' = Block_Cache.block_of bs sbb img \<or>
            (\<forall>b. unat b * bs + bs \<le> length img \<longrightarrow> Block_Cache.block_of bs b img' = staged_block bs (dirty buf) img b)) \<and>
         (\<forall>gi flags. (gi, flags) \<in> set (uninit_cleared buf) \<longrightarrow> (let d = fst (descriptor_location sb (word_of_nat gi)) in
            d \<noteq> sbb \<and> unat d * bs + bs \<le> length img \<longrightarrow> Block_Cache.block_of bs d img' = Block_Cache.block_of bs d img \<or>
              (\<forall>b. unat b * bs + bs \<le> length img \<longrightarrow> b \<noteq> sbb \<longrightarrow> b \<notin> (\<lambda>(gi, _). fst (descriptor_location sb (word_of_nat gi))) ` set (uninit_cleared buf) \<longrightarrow>
                 Block_Cache.block_of bs b img' = staged_block bs (dirty buf) img b))))"
proof -
  let ?ds = "set (map (\<lambda>(gi, _). fst (descriptor_location sb (word_of_nat gi))) (uninit_cleared buf))"
  let ?st = "direct_stages sb (dirty buf) ?ds" and ?t = "\<lparr>tr_image = img, tr_events = []\<rparr>"
  note ds = direct_stages_writes [OF assms(4), of sb ?ds]
  have wb: "whole_blocks bs (length img) (concat ?st)" using assms(3) ds(1) by (simp add: whole_blocks_def)
  obtain t' where t': "write_stages traced_ops (ucast (block_size sb)) ?st ?t = (Ok (), t')" "tr_image t' = block_writes bs (concat ?st) img" "tr_events t' = stage_events (block_size sb) ?st"
    using write_stages_traced [of "block_size sb" ?t ?st] wb assms(6) by (auto simp: bs_def)
  have run: "commit_block_buffer crc traced_ops sb buf ls ?t = (Ok (), (ls\<lparr>ls_alloc := allocation_publish (uninit_cleared buf) (ls_alloc ls)\<rparr>, t'))"
    using t'(1) assms(5,7,8) by (simp add: commit_block_buffer_def write_direct_def Let_def)
  have fin: "Block_Cache.block_of bs b (tr_image t') = staged_block bs (dirty buf) img b" if "unat b * bs + bs \<le> length img" for b
  proof (cases "b \<in> fst ` set (concat ?st)")
    case True
    then show ?thesis using partial_writes(1) [OF assms(3,4) equalityD1 [OF ds(1)] that] unfolding t'(2) by blast
  next
    case False
    then have "staged_block bs (dirty buf) img b = Block_Cache.block_of bs b img" using staged_untouched [of b "dirty buf" bs img] unfolding ds(1) by blast
    then show ?thesis using partial_writes(2) [OF assms(3,4) equalityD1 [OF ds(1)] that False] unfolding t'(2) by simp
  qed
  note dc = direct_commit_crash [OF assms(3) [unfolded bs_def] assms(4,6), of ?ds, folded bs_def sbb_def t'(3)]
  show ?thesis
  proof (intro exI [of _ t'] conjI allI impI)
    show "commit_block_buffer crc traced_ops sb buf ls ?t = (Ok (), (ls\<lparr>ls_alloc := allocation_publish (uninit_cleared buf) (ls_alloc ls)\<rparr>, t'))" by (rule run)
  next
    fix img' and b :: u64 assume c: "crashed img [] (tr_events t') img'" "unat b * bs + bs \<le> length img"
    show "Block_Cache.block_of bs b img' = Block_Cache.block_of bs b img \<or> Block_Cache.block_of bs b img' = staged_block bs (dirty buf) img b"
      using dc(1) [OF c(1)] c(2) by blast
  next
    fix img' assume "crashed img [] (tr_events t') img'" "sbb \<in> fst ` set (dirty buf)"
    then show "Block_Cache.block_of bs sbb img' = Block_Cache.block_of bs sbb img \<or>
        (\<forall>b. unat b * bs + bs \<le> length img \<longrightarrow> Block_Cache.block_of bs b img' = staged_block bs (dirty buf) img b)" by (rule dc(2))
  next
    fix img' gi flags assume c: "crashed img [] (tr_events t') img'" "(gi, flags) \<in> set (uninit_cleared buf)"
    then have "fst (descriptor_location sb (word_of_nat gi)) \<in> ?ds" by force
    then show "let d = fst (descriptor_location sb (word_of_nat gi)) in
            d \<noteq> sbb \<and> unat d * bs + bs \<le> length img \<longrightarrow> Block_Cache.block_of bs d img' = Block_Cache.block_of bs d img \<or>
              (\<forall>b. unat b * bs + bs \<le> length img \<longrightarrow> b \<noteq> sbb \<longrightarrow> b \<notin> (\<lambda>(gi, _). fst (descriptor_location sb (word_of_nat gi))) ` set (uninit_cleared buf) \<longrightarrow>
                 Block_Cache.block_of bs b img' = staged_block bs (dirty buf) img b)"
      using dc(3) [OF c(1)] unfolding Let_def set_map by blast
  qed (rule fin)
qed

text \<open>A superblock, the descriptor block that takes a flag down, and a bitmap, committed together.\<close>

definition sample_buffer :: block_buffer where
  "sample_buffer = \<lparr>dirty = [(1, replicate 1024 1), (2, replicate 1024 2), (3, replicate 1024 3)], uninit_cleared = [(0, 0)]\<rparr>"

theorem direct_commit_crash_ordered_witness:
  "\<forall>crc. \<exists>t'. commit_block_buffer crc traced_ops (sized 256) sample_buffer \<lparr>ls_journal = None, ls_alloc = \<lparr>cleared = [], overridden = None\<rparr>, direct_commit_failed = False\<rparr>
        \<lparr>tr_image = replicate 4096 0, tr_events = []\<rparr> =
      (Ok (), (\<lparr>ls_journal = None, ls_alloc = \<lparr>cleared = [(0, 0)], overridden = None\<rparr>, direct_commit_failed = False\<rparr>, t')) \<and>
    (\<forall>img'. crashed (replicate 4096 0) [] (tr_events t') img' \<longrightarrow>
       (Block_Cache.block_of 1024 1 img' = replicate 1024 0 \<or> Block_Cache.block_of 1024 2 img' = replicate 1024 2 \<and> Block_Cache.block_of 1024 3 img' = replicate 1024 3) \<and>
       (Block_Cache.block_of 1024 2 img' = replicate 1024 0 \<or> Block_Cache.block_of 1024 3 img' = replicate 1024 3))"
proof
  fix crc
  let ?ls = "\<lparr>ls_journal = None, ls_alloc = \<lparr>cleared = [], overridden = None\<rparr>, direct_commit_failed = False\<rparr>"
  let ?img = "replicate 4096 0 :: bytes"
  have bs: "unat (block_size (sized 256)) = 1024" "SUPERBLOCK_OFFSET div ucast (block_size (sized 256)) = 1"
    by (simp_all add: SUPERBLOCK_OFFSET_def word_eq_iff_unsigned)
  have wb: "whole_blocks (unat (block_size (sized 256))) (length ?img) (dirty sample_buffer)" by (simp add: whole_blocks_def sample_buffer_def)
  have d: "distinct (map fst (dirty sample_buffer))" "dirty sample_buffer \<noteq> []" by (simp_all add: sample_buffer_def)
  have pub: "allocation_publish (uninit_cleared sample_buffer) (ls_alloc ?ls) = \<lparr>cleared = [(0, 0)], overridden = None\<rparr>"
    by (simp add: allocation_publish_def sample_buffer_def)
  obtain t' where t': "commit_block_buffer crc traced_ops (sized 256) sample_buffer ?ls \<lparr>tr_image = ?img, tr_events = []\<rparr> =
      (Ok (), (?ls\<lparr>ls_alloc := allocation_publish (uninit_cleared sample_buffer) (ls_alloc ?ls)\<rparr>, t'))"
    "\<forall>img'. crashed ?img [] (tr_events t') img' \<longrightarrow>
       (1 \<in> fst ` set (dirty sample_buffer) \<longrightarrow> Block_Cache.block_of 1024 1 img' = Block_Cache.block_of 1024 1 ?img \<or>
            (\<forall>b. unat b * 1024 + 1024 \<le> length ?img \<longrightarrow> Block_Cache.block_of 1024 b img' = staged_block 1024 (dirty sample_buffer) ?img b)) \<and>
       (\<forall>gi flags. (gi, flags) \<in> set (uninit_cleared sample_buffer) \<longrightarrow> (let d = fst (descriptor_location (sized 256) (word_of_nat gi)) in
            d \<noteq> 1 \<and> unat d * 1024 + 1024 \<le> length ?img \<longrightarrow> Block_Cache.block_of 1024 d img' = Block_Cache.block_of 1024 d ?img \<or>
              (\<forall>b. unat b * 1024 + 1024 \<le> length ?img \<longrightarrow> b \<noteq> 1 \<longrightarrow> b \<notin> (\<lambda>(gi, _). fst (descriptor_location (sized 256) (word_of_nat gi))) ` set (uninit_cleared sample_buffer) \<longrightarrow>
                 Block_Cache.block_of 1024 b img' = staged_block 1024 (dirty sample_buffer) ?img b)))"
    using direct_commit_crash_ordered [OF wb d, where ls = ?ls and crc = crc, unfolded bs] by auto
  have zero: "Block_Cache.block_of 1024 b ?img = replicate 1024 0" if "unat b * 1024 + 1024 \<le> 4096" for b :: u64
    using that by (simp add: Block_Cache.block_of_def slice_def min_def)
  have st: "staged_block 1024 (dirty sample_buffer) ?img 2 = replicate 1024 2" "staged_block 1024 (dirty sample_buffer) ?img 3 = replicate 1024 3"
    by (simp_all add: staged_block_def sample_buffer_def)
  have loc: "fst (descriptor_location (sized 256) (word_of_nat 0)) = 2" using sized_locations(1) [of 256] by simp
  have u: "uninit_cleared sample_buffer = [(0, 0)]" "1 \<in> fst ` set (dirty sample_buffer)" by (simp_all add: sample_buffer_def)
  have "(Block_Cache.block_of 1024 1 img' = replicate 1024 0 \<or> Block_Cache.block_of 1024 2 img' = replicate 1024 2 \<and> Block_Cache.block_of 1024 3 img' = replicate 1024 3) \<and>
       (Block_Cache.block_of 1024 2 img' = replicate 1024 0 \<or> Block_Cache.block_of 1024 3 img' = replicate 1024 3)"
    if c: "crashed ?img [] (tr_events t') img'" for img'
  proof
    from t'(2) c u(2) have s: "Block_Cache.block_of 1024 1 img' = Block_Cache.block_of 1024 1 ?img \<or>
            (\<forall>b. unat b * 1024 + 1024 \<le> length ?img \<longrightarrow> Block_Cache.block_of 1024 b img' = staged_block 1024 (dirty sample_buffer) ?img b)" by blast
    then show "Block_Cache.block_of 1024 1 img' = replicate 1024 0 \<or> Block_Cache.block_of 1024 2 img' = replicate 1024 2 \<and> Block_Cache.block_of 1024 3 img' = replicate 1024 3"
      using zero [of 1] st by auto
    from t'(2) c have "let d = fst (descriptor_location (sized 256) (word_of_nat 0)) in
            d \<noteq> 1 \<and> unat d * 1024 + 1024 \<le> length ?img \<longrightarrow> Block_Cache.block_of 1024 d img' = Block_Cache.block_of 1024 d ?img \<or>
              (\<forall>b. unat b * 1024 + 1024 \<le> length ?img \<longrightarrow> b \<noteq> 1 \<longrightarrow> b \<notin> (\<lambda>(gi, _). fst (descriptor_location (sized 256) (word_of_nat gi))) ` set (uninit_cleared sample_buffer) \<longrightarrow>
                 Block_Cache.block_of 1024 b img' = staged_block 1024 (dirty sample_buffer) ?img b)" unfolding u(1) by (auto simp del: of_nat_0)
    then show "Block_Cache.block_of 1024 2 img' = replicate 1024 0 \<or> Block_Cache.block_of 1024 3 img' = replicate 1024 3"
      unfolding Let_def loc u(1) using zero [of 2] st(2) by (auto simp: sized_locations)
  qed
  then show "\<exists>t'. commit_block_buffer crc traced_ops (sized 256) sample_buffer ?ls \<lparr>tr_image = ?img, tr_events = []\<rparr> =
      (Ok (), (\<lparr>ls_journal = None, ls_alloc = \<lparr>cleared = [(0, 0)], overridden = None\<rparr>, direct_commit_failed = False\<rparr>, t')) \<and>
    (\<forall>img'. crashed ?img [] (tr_events t') img' \<longrightarrow>
       (Block_Cache.block_of 1024 1 img' = replicate 1024 0 \<or> Block_Cache.block_of 1024 2 img' = replicate 1024 2 \<and> Block_Cache.block_of 1024 3 img' = replicate 1024 3) \<and>
       (Block_Cache.block_of 1024 2 img' = replicate 1024 0 \<or> Block_Cache.block_of 1024 3 img' = replicate 1024 3))"
    using t'(1) pub by (intro exI [of _ t']) simp
qed

end
