(* ===== verification/Fs_Space.thy ===== *)
theory Fs_Space
  imports Fs_Buffer
begin

unbundle bit_operations_syntax

text \<open>
  What the helpers of the transaction buffer keep true: a run is cut at group boundaries into exactly its blocks, freeing it clears exactly its bits and
  credits each group's descriptor with exactly the blocks of that group, and a run marked used is not planned again inside the same transaction.
\<close>

section \<open>Runs and groups\<close>

definition chunk_blocks :: "nat \<Rightarrow> nat \<Rightarrow> nat \<times> nat \<times> nat \<Rightarrow> nat list" where
  "chunk_blocks first_data bpg = (\<lambda>(gi, bit, n). [first_data + gi * bpg + bit ..< first_data + gi * bpg + bit + n])"

lemma div_bounds: "0 < (b :: nat) \<Longrightarrow> a div b * b \<le> a \<and> a < a div b * b + b"
  by (metis div_mult_mod_eq le_add1 mod_less_divisor nat_add_left_cancel_less)

lemma chunk_loop_Ok:
  "chunk_loop fd bpg n fin pos = Ok cs \<Longrightarrow> fd \<le> pos \<Longrightarrow> 0 < bpg \<Longrightarrow>
   concat (map (chunk_blocks fd bpg) cs) = [pos ..< fin] \<and> (\<forall>(gi, bit, k) \<in> set cs. gi < n \<and> 0 < k \<and> bit + k \<le> bpg) \<and>
   sorted_wrt (<) (map fst cs) \<and> (\<forall>gi \<in> fst ` set cs. (pos - fd) div bpg \<le> gi)"
proof (induction fd bpg n fin pos arbitrary: cs rule: chunk_loop.induct)
  case (1 fd bpg n fin pos)
  show ?case
  proof (cases "pos < fin")
    case False
    then show ?thesis using 1(2) by (subst (asm) chunk_loop.simps) auto
  next
    case True
    define gi where "gi = (pos - fd) div bpg"
    define chunk where "chunk = min fin (fd + gi * bpg + bpg) - pos"
    obtain cs' where c: "gi < n" "chunk_loop fd bpg n fin (pos + chunk) = Ok cs'" "cs = (gi, pos - (fd + gi * bpg), chunk) # cs'"
      using 1(2,4) True by (subst (asm) chunk_loop.simps) (auto simp: Let_def outcome_simps gi_def chunk_def not_le split: if_splits)
    have b: "fd + gi * bpg \<le> pos" "pos < fd + gi * bpg + bpg" using div_bounds [OF 1(4), of "pos - fd"] 1(3) unfolding gi_def by linarith+
    then have k: "0 < chunk" "pos + chunk \<le> fin" "pos - (fd + gi * bpg) + chunk \<le> bpg" using True by (auto simp: chunk_def)
    have ih: "concat (map (chunk_blocks fd bpg) cs') = [pos + chunk ..< fin]" "\<forall>(gi, bit, k) \<in> set cs'. gi < n \<and> 0 < k \<and> bit + k \<le> bpg"
      "sorted_wrt (<) (map fst cs')" "\<forall>g \<in> fst ` set cs'. (pos + chunk - fd) div bpg \<le> g"
      using 1(1) [OF _ gi_def _ refl chunk_def c(2)] True 1(3,4) c(1) by auto
    have later: "gi < g" if "g \<in> fst ` set cs'" for g
    proof -
      have "pos + chunk \<noteq> fin"
      proof
        assume "pos + chunk = fin"
        then have "cs' = []" using c(2) by (subst (asm) chunk_loop.simps) simp
        then show False using that by simp
      qed
      then have "pos + chunk = fd + (gi + 1) * bpg" using k(2) b by (auto simp: chunk_def min_def split: if_splits)
      then have "(pos + chunk - fd) div bpg = gi + 1" using 1(4) by simp
      then show ?thesis using ih(4) that by fastforce
    qed
    have "chunk_blocks fd bpg (gi, pos - (fd + gi * bpg), chunk) = [pos ..< pos + chunk]" using b(1) by (simp add: chunk_blocks_def)
    moreover have "[pos ..< pos + chunk] @ [pos + chunk ..< fin] = [pos ..< fin]" using k(2) upt_add_eq_append [of pos "pos + chunk" "fin - (pos + chunk)"] by simp
    ultimately have "concat (map (chunk_blocks fd bpg) cs) = [pos ..< fin]" using ih(1) c(3) by simp
    moreover have "\<forall>g \<in> fst ` set cs. (pos - fd) div bpg \<le> g" using later c(3) by (auto simp: gi_def less_imp_le)
    ultimately show ?thesis using ih(2,3) later c k(1,3) by auto
  qed
qed

lemma chunk_loop_total:
  "fd \<le> pos \<Longrightarrow> 0 < bpg \<Longrightarrow> (\<forall>b. pos \<le> b \<and> b < fin \<longrightarrow> (b - fd) div bpg < n) \<Longrightarrow> \<exists>cs. chunk_loop fd bpg n fin pos = Ok cs"
proof (induction fd bpg n fin pos rule: chunk_loop.induct)
  case (1 fd bpg n fin pos)
  show ?case
  proof (cases "pos < fin")
    case False
    then show ?thesis by (subst chunk_loop.simps) simp
  next
    case True
    define gi where "gi = (pos - fd) div bpg"
    define chunk where "chunk = min fin (fd + gi * bpg + bpg) - pos"
    have gn: "gi < n" using 1(4) True by (simp add: gi_def)
    then obtain cs where "chunk_loop fd bpg n fin (pos + chunk) = Ok cs"
      using 1(1) [OF _ gi_def _ refl chunk_def] True 1(2-4) by auto
    then show ?thesis using True 1(3) gn by (subst chunk_loop.simps) (simp add: Let_def gi_def [symmetric] chunk_def [symmetric])
  qed
qed

lemma chunk_loop_no_panic: "chunk_loop fd bpg n fin pos \<noteq> Panic"
proof (induction fd bpg n fin pos rule: chunk_loop.induct)
  case (1 fd bpg n fin pos)
  then show ?case by (subst chunk_loop.simps) (auto simp: Let_def outcome_simps)
qed

text \<open>
  C20. Cutting a run of blocks at group boundaries (\<open>group_chunks\<close>): it never unwinds; the chunks it returns are, put together in order, exactly the blocks of the
  run, each chunk lies inside one group that has a descriptor, no group comes twice, and none is empty. A run inside the filesystem whose
  groups all have descriptors is never refused; a run that starts before the first data block or ends past the last is.
\<close>

theorem group_chunks_correct:
  fixes fs :: fs_view
  defines "fd \<equiv> unat (first_data_block (fv_sb fs))" and "bpg \<equiv> unat (blocks_per_group (fv_sb fs))" and "blocks \<equiv> unat (blocks_count (fv_sb fs))"
  shows "case group_chunks fs start n of
      Ok cs \<Rightarrow> fd \<le> unat start \<and> unat start + unat n \<le> blocks \<and> concat (map (chunk_blocks fd bpg) cs) = [unat start ..< unat start + unat n] \<and>
        (\<forall>(gi, bit, k) \<in> set cs. gi < length (fv_groups fs) \<and> 0 < k \<and> bit + k \<le> bpg) \<and> distinct (map fst cs)
    | Err _ \<Rightarrow> unat start < fd \<or> blocks < unat start + unat n \<or> bpg = 0 \<or> (\<exists>b. unat start \<le> b \<and> b < unat start + unat n \<and> length (fv_groups fs) \<le> (b - fd) div bpg)
    | Panic \<Rightarrow> False"
proof -
  let ?sb = "fv_sb fs" and ?ng = "length (fv_groups fs)"
  show ?thesis
  proof (cases "blocks < unat start + unat n \<or> unat start < fd \<or> bpg = 0")
    case True
    have "\<exists>e. group_chunks fs start n = Err e"
    proof (cases "checked_add start n")
      case (Some fin)
      then have "unat fin = unat start + unat n" by (rule checked_add_Some)
      then show ?thesis
        using True Some by (auto simp: group_chunks_def Let_def fd_def bpg_def blocks_def word_less_nat_alt unat_eq_zero)
    qed (simp add: group_chunks_def Let_def)
    then show ?thesis using True by auto
  next
    case False
    have "unat start + unat n < 2 ^ 64" using False unat_lt2p [of "blocks_count ?sb"] by (simp add: blocks_def)
    then have ca: "checked_add start n = Some (start + n)" by (simp add: checked_add_def)
    have u: "unat (start + n) = unat start + unat n" using checked_add_Some [OF ca] .
    have run: "group_chunks fs start n = chunk_loop fd bpg ?ng (unat start + unat n) (unat start)"
      using False ca u by (auto simp: group_chunks_def Let_def fd_def bpg_def blocks_def word_less_nat_alt unat_eq_zero)
    have pre: "fd \<le> unat start" "0 < bpg" using False by auto
    show ?thesis
    proof (cases "group_chunks fs start n")
      case (Ok cs)
      then show ?thesis using chunk_loop_Ok [OF _ pre, of ?ng "unat start + unat n" cs] run False
        by (auto simp: strict_sorted_iff)
    next
      case (Err e)
      then have "\<not> (\<forall>b. unat start \<le> b \<and> b < unat start + unat n \<longrightarrow> (b - fd) div bpg < ?ng)"
        using chunk_loop_total [OF pre, of "unat start + unat n" ?ng] run by auto
      then show ?thesis using Err by (auto simp: not_less)
    qed (use chunk_loop_no_panic run in auto)
  qed
qed

section \<open>The buffer as a view of the volume\<close>

lemma map_of_bt_insert [simp]: "map_of (bt_insert k v xs) = (map_of xs)(k \<mapsto> v)"
  by (induction k v xs rule: bt_insert.induct) auto

lemma reader_put [simp]: "buffer_reader fs (buffer_put b x buf) = (buffer_reader fs buf)(b := Ok x)"
  by (auto simp: buffer_reader_def buffer_put_def fun_eq_iff)

lemma reader_uninit [simp]: "buffer_reader fs (buf\<lparr>uninit_cleared := u\<rparr>) = buffer_reader fs buf"
  by (simp add: buffer_reader_def fun_eq_iff)

lemma uninit_put [simp]: "uninit_cleared (buffer_put b x buf) = uninit_cleared buf"
  by (simp add: buffer_put_def)

lemma buffer_get_ok:
  assumes "buffer_reader fs buf b = Ok x"
  obtains buf' where "buffer_get fs b buf = Ok (x, buf')" "buffer_reader fs buf' = buffer_reader fs buf" "uninit_cleared buf' = uninit_cleared buf"
proof (cases "map_of (dirty buf) b")
  case None
  then have r: "fs_read_block fs b = Ok x" using assms by (simp add: buffer_reader_def)
  have "(buffer_reader fs buf)(b := Ok x) = buffer_reader fs buf" using assms by auto
  then show ?thesis using None r by (intro that [of "buffer_put b x buf"]) (simp_all add: buffer_get_def)
next
  case (Some y)
  then show ?thesis using assms by (intro that [of buf]) (simp_all add: buffer_get_def buffer_reader_def)
qed

lemma buffer_edit_ok:
  assumes "buffer_reader fs buf b = Ok x" "f x = Ok y"
  obtains buf' where "buffer_edit fs b f buf = Ok buf'" "buffer_reader fs buf' = (buffer_reader fs buf)(b := Ok y)" "uninit_cleared buf' = uninit_cleared buf"
proof -
  obtain buf1 where "buffer_get fs b buf = Ok (x, buf1)" "buffer_reader fs buf1 = buffer_reader fs buf" "uninit_cleared buf1 = uninit_cleared buf"
    by (rule buffer_get_ok [OF assms(1)])
  then show ?thesis using assms(2) by (intro that [of "buffer_put b y buf1"]) (simp_all add: buffer_edit_def)
qed

section \<open>Descriptors in their block\<close>

text \<open>Two blocks that differ at most in the slot of one descriptor.\<close>

definition slot_frame :: "nat \<Rightarrow> nat \<Rightarrow> bytes \<Rightarrow> bytes \<Rightarrow> bool" where
  "slot_frame off n block block' \<longleftrightarrow> length block' = length block \<and> take off block' = take off block \<and> drop (off + n) block' = drop (off + n) block"

lemma slot_frame_refl [simp]: "slot_frame off n block block"
  by (simp add: slot_frame_def)

lemma slot_frame_trans: "slot_frame off n a b \<Longrightarrow> slot_frame off n b c \<Longrightarrow> slot_frame off n a c"
  by (simp add: slot_frame_def)

lemma slot_frame_put:
  "off \<le> k \<Longrightarrow> k + length x \<le> off + n \<Longrightarrow> off + n \<le> length block \<Longrightarrow> slot_frame off n block (put k x block)"
  by (auto simp: slot_frame_def put_def)

text \<open>The free-blocks field of the descriptor at an offset.\<close>

definition fb_field :: "bool \<Rightarrow> nat \<Rightarrow> bytes \<Rightarrow> u32" where
  "fb_field wide off block = Bgd.join16 (if wide then get_le16 (off + 0x2C) block else 0) (get_le16 (off + 0x0C) block)"

definition slot_fits :: "u16 \<Rightarrow> nat \<Rightarrow> bytes \<Rightarrow> bool" where
  "slot_fits ds off block \<longleftrightarrow> 32 \<le> unat ds \<and> off + unat ds \<le> length block"

lemma slot_fits_frame: "slot_fits ds off block \<Longrightarrow> slot_frame off' n block block' \<Longrightarrow> slot_fits ds off block'"
  by (simp add: slot_fits_def slot_frame_def)

lemma wide_fits: "slot_fits ds off block \<Longrightarrow> 64 \<le> ds \<Longrightarrow> off + 64 \<le> length block"
  by (simp add: slot_fits_def word_le_nat_alt)

lemma fb_field_put:
  assumes "slot_fits ds off block" "k + length x \<le> length block" "off \<le> k" "k + length x \<le> off + 0x0C \<or> off + 0x0E \<le> k"
    "64 \<le> ds \<Longrightarrow> k + length x \<le> off + 0x2C \<or> off + 0x2E \<le> k"
  shows "fb_field (64 \<le> ds) off (put k x block) = fb_field (64 \<le> ds) off block"
  using assms by (auto simp: fb_field_def codec_simps)

lemma restamp_ok:
  assumes "slot_fits (desc_size (fv_sb fs)) off block"
  obtains block' where "restamp_group_desc_csum crc fs block off gi = Ok block'" "slot_frame off (unat (desc_size (fv_sb fs))) block block'"
    "fb_field (64 \<le> desc_size (fv_sb fs)) off block' = fb_field (64 \<le> desc_size (fv_sb fs)) off block" "get_le16 (off + 0x12) block' = get_le16 (off + 0x12) block"
proof (cases "group_desc_csum crc (fv_sb fs) (fv_csum fs) (word_of_nat gi) (slice off (off + unat (desc_size (fv_sb fs))) block)")
  case None
  then show ?thesis using assms by (intro that [of block]) (simp_all add: restamp_group_desc_csum_def get_slice_def slot_fits_def)
next
  case (Some c)
  have "restamp_group_desc_csum crc fs block off gi = Ok (put (off + 0x1E) (u16_to_le c) block)"
    using assms Some by (simp add: restamp_group_desc_csum_def get_slice_def slot_fits_def put_checked_def)
  then show ?thesis
    by (rule that) (use assms in \<open>auto simp: slot_fits_def codec_simps intro!: slot_frame_put fb_field_put [of "desc_size (fv_sb fs)"]\<close>)
qed

lemma join_halves: "Bgd.join16 (ucast (drop_bit 16 w)) (ucast w) = w"
  by (rule bit_word_eqI) (auto simp: Bgd.join16_def bit_simps)

lemma join_low: "unat w < 65536 \<Longrightarrow> Bgd.join16 0 (ucast w) = w"
proof -
  assume "unat w < 65536"
  then have "unat (ucast w :: u16) = unat w" by (simp add: unsigned_ucast_eq take_bit_nat_eq_self_iff)
  then have "unat (Bgd.join16 0 (ucast w)) = unat w" by (simp add: Bgd.join16_def)
  then show ?thesis by (rule unsigned_word_eqI)
qed

text \<open>A counter after its patch, where the sum fits the field.\<close>

definition sum_fits :: "bool \<Rightarrow> u32 \<Rightarrow> int \<Rightarrow> bool" where
  "sum_fits wide w delta \<longleftrightarrow> 0 \<le> uint w + delta \<and> uint w + delta < (if wide then 2 ^ 32 else 2 ^ 16)"

lemma patch_counter_ok:
  assumes "off + lo + 2 \<le> length block" "wide \<longrightarrow> off + hi + 2 \<le> length block"
  obtains new :: u32 where
    "patch_counter_u32 block (off + lo) (if wide then Some (off + hi) else None) delta =
       Ok (let b = put (off + lo) (u16_to_le (ucast new)) block in if wide then put (off + hi) (u16_to_le (ucast (drop_bit 16 new))) b else b)"
    "sum_fits wide (Bgd.join16 (if wide then get_le16 (off + hi) block else 0) (get_le16 (off + lo) block)) delta \<Longrightarrow>
       uint new = uint (Bgd.join16 (if wide then get_le16 (off + hi) block else 0) (get_le16 (off + lo) block)) + delta \<and> (wide \<or> unat new < 65536)"
proof -
  let ?cur = "Bgd.join16 (if wide then get_le16 (off + hi) block else 0) (get_le16 (off + lo) block)"
  define new where "new = (word_of_int (min (max (uint ?cur + delta) 0) 0xFFFFFFFF) :: u32)"
  have r: "patch_counter_u32 block (off + lo) (if wide then Some (off + hi) else None) delta =
       Ok (let b = put (off + lo) (u16_to_le (ucast new)) block in if wide then put (off + hi) (u16_to_le (ucast (drop_bit 16 new))) b else b)"
    using assms by (simp add: patch_counter_u32_def get_slice_def get_le16_def Bgd.join16_def new_def Let_def put_checked_def)
  have "uint new = uint ?cur + delta \<and> (wide \<or> unat new < 65536)" if "sum_fits wide ?cur delta"
  proof -
    define s where "s = uint ?cur + delta"
    have b: "0 \<le> s" "s < 2 ^ 32" "wide \<or> s < 65536" using that by (auto simp: sum_fits_def s_def split: if_splits)
    then have "new = word_of_int s" unfolding new_def s_def [symmetric] by (simp add: min_def max_def)
    then have u: "uint new = s" using b(1,2) by (simp add: uint_word_of_int)
    then have "uint new = uint ?cur + delta" by (simp add: s_def)
    moreover from u b(3) have "wide \<or> unat new < 65536" by (cases wide) (simp_all add: unat_eq_nat_uint nat_less_iff)
    ultimately show ?thesis by blast
  qed
  then show thesis using r that by blast
qed

lemma fb_field_stored:
  assumes "slot_fits ds off block" "64 \<le> ds \<or> unat new < 65536"
  defines "b \<equiv> put (off + 0x0C) (u16_to_le (ucast new)) block"
  shows "fb_field (64 \<le> ds) off (if 64 \<le> ds then put (off + 0x2C) (u16_to_le (ucast (drop_bit 16 new))) b else b) = new"
proof (cases "64 \<le> ds")
  case True
  then have "off + 64 \<le> length block" by (rule wide_fits [OF assms(1)])
  then show ?thesis using True by (simp add: fb_field_def b_def codec_simps join_halves)
next
  case False
  then show ?thesis using assms(1,2) join_low [of new] by (simp add: fb_field_def b_def codec_simps slot_fits_def)
qed

lemma patch_fields_ok:
  assumes "slot_fits ds off block" "sum_fits (64 \<le> ds) (fb_field (64 \<le> ds) off block) delta"
  obtains block' where "patch_bgd_counter_fields block off ds delta fi ud = Ok block'" "slot_frame off (unat ds) block block'"
    "uint (fb_field (64 \<le> ds) off block') = uint (fb_field (64 \<le> ds) off block) + delta"
proof -
  let ?w = "64 \<le> ds"
  have n: "32 \<le> unat ds" "off + unat ds \<le> length block" "?w \<Longrightarrow> 64 \<le> unat ds" using assms(1) by (auto simp: slot_fits_def word_le_nat_alt)
  have fr: "slot_frame off (unat ds) b (let b' = put (off + lo) (u16_to_le x) b in if ?w then put (off + hi) (u16_to_le y) b' else b')"
    if "lo + 2 \<le> 32" "hi + 2 \<le> 64" "slot_fits ds off b" for b lo hi x y
  proof -
    have m: "off + unat ds \<le> length b" using that(3) by (simp add: slot_fits_def)
    have a: "slot_frame off (unat ds) b (put (off + lo) (u16_to_le x) b)" using that n m by (intro slot_frame_put) auto
    have "slot_frame off (unat ds) (put (off + lo) (u16_to_le x) b) (put (off + hi) (u16_to_le y) (put (off + lo) (u16_to_le x) b))" if ?w
      using \<open>hi + 2 \<le> 64\<close> \<open>lo + 2 \<le> 32\<close> n(3) [OF that] m n(1) by (intro slot_frame_put) auto
    then show ?thesis using a by (auto simp: Let_def intro: slot_frame_trans)
  qed
  have rng: "off + lo + 2 \<le> length b" "?w \<longrightarrow> off + hi + 2 \<le> length b" if "lo + 2 \<le> 32" "hi + 2 \<le> 64" "slot_fits ds off b" for b lo hi
    using that n(1,3) by (auto simp: slot_fits_def)
  obtain n1 :: u32 where n1: "patch_counter_u32 block (off + 0x0C) (if ?w then Some (off + 0x2C) else None) delta =
       Ok (let b = put (off + 0x0C) (u16_to_le (ucast n1)) block in if ?w then put (off + 0x2C) (u16_to_le (ucast (drop_bit 16 n1))) b else b)"
    "uint n1 = uint (fb_field ?w off block) + delta" "?w \<or> unat n1 < 65536"
    using patch_counter_ok [OF rng [OF _ _ assms(1), of 12 44], of delta] assms(2) by (auto simp: fb_field_def)
  define b1 where "b1 = (let b = put (off + 0x0C) (u16_to_le (ucast n1)) block in if ?w then put (off + 0x2C) (u16_to_le (ucast (drop_bit 16 n1))) b else b)"
  have f1: "slot_frame off (unat ds) block b1" unfolding b1_def by (rule fr [OF _ _ assms(1)]) simp_all
  have s1: "slot_fits ds off b1" by (rule slot_fits_frame [OF assms(1) f1])
  have fb1: "fb_field ?w off b1 = n1" unfolding b1_def Let_def by (rule fb_field_stored [OF assms(1) n1(3)])
  have step: "\<exists>b'. patch_counter_u32 b (off + lo) (if ?w then Some (off + hi) else None) d = Ok b' \<and> slot_frame off (unat ds) b b' \<and> fb_field ?w off b' = fb_field ?w off b"
    if t: "slot_fits ds off b" "0x0E \<le> lo" "lo + 2 \<le> 32" "0x2E \<le> hi" "hi + 2 \<le> 64" for b lo hi d
  proof -
    obtain nw :: u32 where r: "patch_counter_u32 b (off + lo) (if ?w then Some (off + hi) else None) d =
       Ok (let b = put (off + lo) (u16_to_le (ucast nw)) b in if ?w then put (off + hi) (u16_to_le (ucast (drop_bit 16 nw))) b else b)"
      using patch_counter_ok [OF rng [OF t(3,5,1)], of d] by blast
    let ?b1 = "put (off + lo) (u16_to_le (ucast nw)) b"
    have "off + unat ds \<le> length b" using t(1) by (simp add: slot_fits_def)
    then have a: "slot_fits ds off ?b1" "fb_field ?w off ?b1 = fb_field ?w off b"
      using t n(1) by (auto simp: slot_fits_def intro!: fb_field_put [of ds])
    have "fb_field ?w off (put (off + hi) (u16_to_le (ucast (drop_bit 16 nw))) ?b1) = fb_field ?w off ?b1" if ?w
      using a(1) \<open>0x2E \<le> hi\<close> \<open>hi + 2 \<le> 64\<close> \<open>lo + 2 \<le> 32\<close> n(1) n(3) [OF that] by (intro fb_field_put) (auto simp: slot_fits_def)
    then show ?thesis using r fr [OF t(3,5,1)] a(2) by (auto simp: Let_def)
  qed
  obtain b2 where b2: "patch_counter_u32 b1 (off + 0x0E) (if ?w then Some (off + 0x2E) else None) fi = Ok b2" "slot_frame off (unat ds) b1 b2" "fb_field ?w off b2 = fb_field ?w off b1"
    using step [OF s1, of "0x0E" "0x2E"] by auto
  obtain b3 where b3: "patch_counter_u32 b2 (off + 0x10) (if ?w then Some (off + 0x30) else None) ud = Ok b3" "slot_frame off (unat ds) b2 b3" "fb_field ?w off b3 = fb_field ?w off b2"
    using step [OF slot_fits_frame [OF s1 b2(2)], of "0x10" "0x30"] by auto
  have "patch_bgd_counter_fields block off ds delta fi ud = Ok b3"
    using n1(1) b2(1) b3(1) unfolding patch_bgd_counter_fields_def Let_def OFF_FREE_BLOCKS_LO_def OFF_FREE_BLOCKS_HI_def OFF_FREE_INODES_LO_def OFF_FREE_INODES_HI_def OFF_USED_DIRS_LO_def OFF_USED_DIRS_HI_def
    by (simp add: b1_def [unfolded Let_def, symmetric])
  then show ?thesis
    using that f1 b2(2,3) b3(2,3) fb1 n1(2) by (metis slot_frame_trans)
qed

section \<open>Bits\<close>

lemma clear_bits_iff:
  "length (clear_bits s n bm) = length bm \<and> (bit_is_set (clear_bits s n bm) i \<longleftrightarrow> bit_is_set bm i \<and> \<not> (s \<le> i \<and> i < s + n))"
proof (induction n)
  case (Suc n)
  have "clear_bits s (Suc n) bm = (let b = clear_bits s n bm in if (s + n) div 8 < length b then clear_bit b (s + n) else b)"
    by (simp add: clear_bits_def)
  then show ?case using Suc.IH clear_bit_iff [of "s + n" "clear_bits s n bm" i] bit_is_set_bound [of bm i] by (auto simp: Let_def bit_is_set_def)
qed (simp add: clear_bits_def)

lemma set_bits_iff:
  "length (set_bits s n bm) = length bm \<and> (bit_is_set (set_bits s n bm) i \<longleftrightarrow> bit_is_set bm i \<or> (s \<le> i \<and> i < s + n \<and> i div 8 < length bm))"
proof (induction n)
  case (Suc n)
  have "set_bits s (Suc n) bm = (let b = set_bits s n bm in if (s + n) div 8 < length b then or_bit b (s + n) else b)"
    by (simp add: set_bits_def)
  then show ?case using Suc.IH or_bit_iff [of "s + n" "set_bits s n bm" i] by (auto simp: Let_def less_Suc_eq)
qed (auto simp: set_bits_def)

section \<open>Bitmaps and counters through the buffer\<close>

definition desc_at :: "fs_view \<Rightarrow> nat \<Rightarrow> u64 \<times> nat" where
  "desc_at fs gi = descriptor_location (fv_sb fs) (word_of_nat gi)"

text \<open>The metadata the helpers touch lies apart: no two bitmaps share a block, none lies in the descriptor table, descriptors do not overlap.\<close>

definition layout_apart :: "fs_view \<Rightarrow> bool" where
  "layout_apart fs \<longleftrightarrow>
     (\<forall>gi < length (fv_groups fs). \<forall>gj < length (fv_groups fs).
        block_bitmap (fv_groups fs ! gi) \<noteq> fst (desc_at fs gj) \<and>
        (gi \<noteq> gj \<longrightarrow> block_bitmap (fv_groups fs ! gi) \<noteq> block_bitmap (fv_groups fs ! gj) \<and>
           (fst (desc_at fs gi) \<noteq> fst (desc_at fs gj) \<or> snd (desc_at fs gi) + unat (desc_size (fv_sb fs)) \<le> snd (desc_at fs gj) \<or>
            snd (desc_at fs gj) + unat (desc_size (fv_sb fs)) \<le> snd (desc_at fs gi))))"

lemma layout_apartD:
  assumes "layout_apart fs" "gi < length (fv_groups fs)" "gj < length (fv_groups fs)"
  shows "fst (desc_at fs gj) \<noteq> block_bitmap (fv_groups fs ! gi)" "gi \<noteq> gj \<Longrightarrow> block_bitmap (fv_groups fs ! gi) \<noteq> block_bitmap (fv_groups fs ! gj)"
  using assms unfolding layout_apart_def by metis+

definition space_readable :: "fs_view \<Rightarrow> block_buffer \<Rightarrow> bool" where
  "space_readable fs buf \<longleftrightarrow>
     (\<forall>gi < length (fv_groups fs).
        (\<exists>block. buffer_reader fs buf (fst (desc_at fs gi)) = Ok block \<and> slot_fits (desc_size (fv_sb fs)) (snd (desc_at fs gi)) block) \<and>
        (\<exists>bm. buffer_reader fs buf (block_bitmap (fv_groups fs ! gi)) = Ok bm \<and> unat (blocks_per_group (fv_sb fs)) \<le> 8 * length bm))"

definition free_count :: "fs_view \<Rightarrow> block_buffer \<Rightarrow> nat \<Rightarrow> nat" where
  "free_count fs buf gi =
     (case buffer_reader fs buf (fst (desc_at fs gi)) of
        Ok block \<Rightarrow>
          (case bgd_parse (slice (snd (desc_at fs gi)) (snd (desc_at fs gi) + unat (desc_size (fv_sb fs))) block) (desc_size (fv_sb fs)) of
             Ok g \<Rightarrow> unat (free_blocks_count g) | _ \<Rightarrow> 0)
      | _ \<Rightarrow> 0)"

definition desc_flags :: "fs_view \<Rightarrow> block_buffer \<Rightarrow> nat \<Rightarrow> u16" where
  "desc_flags fs buf gi = (case buffer_reader fs buf (fst (desc_at fs gi)) of Ok block \<Rightarrow> get_le16 (snd (desc_at fs gi) + 0x12) block | _ \<Rightarrow> 0)"

definition block_bit :: "fs_view \<Rightarrow> block_buffer \<Rightarrow> nat \<Rightarrow> nat \<Rightarrow> bool" where
  "block_bit fs buf gi k \<longleftrightarrow> (case buffer_reader fs buf (block_bitmap (fv_groups fs ! gi)) of Ok bm \<Rightarrow> bit_is_set bm k | _ \<Rightarrow> False)"

lemma free_count_field:
  assumes "buffer_reader fs buf (fst (desc_at fs gi)) = Ok block" "slot_fits (desc_size (fv_sb fs)) (snd (desc_at fs gi)) block"
  shows "free_count fs buf gi = unat (fb_field (64 \<le> desc_size (fv_sb fs)) (snd (desc_at fs gi)) block)"
proof -
  let ?ds = "desc_size (fv_sb fs)" and ?off = "snd (desc_at fs gi)"
  let ?s = "slice ?off (?off + unat ?ds) block"
  have n: "32 \<le> unat ?ds" "?off + unat ?ds \<le> length block" "64 \<le> ?ds \<Longrightarrow> 64 \<le> unat ?ds" using assms(2) by (auto simp: slot_fits_def word_le_nat_alt)
  have g: "get_le16 j ?s = get_le16 (?off + j) block" if "j + 2 \<le> unat ?ds" for j
    using that by (simp add: get_le16_def slice_slice add.assoc)
  have "split16 ?s (64 \<le> ?ds) 0x2C 0x0C = fb_field (64 \<le> ?ds) ?off block"
    using n g [of "0x0C"] g [of "0x2C"] by (cases "64 \<le> ?ds") (simp_all add: split16_def fb_field_def)
  then show ?thesis using assms(1) n by (simp add: free_count_def bgd_parse_def Let_def)
qed

lemma fb_field_frame:
  assumes "slot_frame off n block block'" "slot_fits ds off' block" "off' + unat ds \<le> off \<or> off + n \<le> off'"
  shows "fb_field (64 \<le> ds) off' block' = fb_field (64 \<le> ds) off' block"
proof -
  have n: "32 \<le> unat ds" "64 \<le> ds \<Longrightarrow> 64 \<le> unat ds" using assms(2) by (auto simp: slot_fits_def word_le_nat_alt)
  have f: "take off block' = take off block" "drop (off + n) block' = drop (off + n) block" using assms(1) by (auto simp: slot_frame_def)
  have g: "get_le16 (off' + j) block' = get_le16 (off' + j) block" if "j + 2 \<le> unat ds" for j
    using assms(3)
  proof
    assume "off' + unat ds \<le> off"
    then show ?thesis unfolding get_le16_def using slice_take_cong [OF f(1), of "off' + j + 2" "off' + j"] that by simp
  next
    assume "off + n \<le> off'"
    then show ?thesis unfolding get_le16_def using slice_drop_cong [OF f(2), of "off' + j" "off' + j + 2"] by simp
  qed
  show ?thesis using n g [of "0x0C"] g [of "0x2C"] by (cases "64 \<le> ds") (simp_all add: fb_field_def)
qed

lemma desc_flags_edit:
  assumes "layout_apart fs" "space_readable fs buf" "gi < length (fv_groups fs)" "gj < length (fv_groups fs)"
    "buffer_reader fs buf (fst (desc_at fs gi)) = Ok block" "slot_frame (snd (desc_at fs gi)) (unat (desc_size (fv_sb fs))) block block'"
    "buffer_reader fs buf' = (buffer_reader fs buf)(fst (desc_at fs gi) := Ok block')"
  shows "desc_flags fs buf' gj = (if gj = gi then get_le16 (snd (desc_at fs gi) + 0x12) block' else desc_flags fs buf gj)"
proof (cases "gj = gi \<or> fst (desc_at fs gj) \<noteq> fst (desc_at fs gi)")
  case False
  let ?ds = "unat (desc_size (fv_sb fs))" and ?o = "\<lambda>g. snd (desc_at fs g)"
  obtain bl where "buffer_reader fs buf (fst (desc_at fs gj)) = Ok bl" "slot_fits (desc_size (fv_sb fs)) (?o gj) bl" using assms(2,4) by (auto simp: space_readable_def)
  then have n: "32 \<le> ?ds" by (simp add: slot_fits_def)
  have "?o gj + ?ds \<le> ?o gi \<or> ?o gi + ?ds \<le> ?o gj" using assms(1,3,4) False by (auto simp: layout_apart_def)
  then have "get_le16 (?o gj + 0x12) block' = get_le16 (?o gj + 0x12) block"
    unfolding get_le16_def using slice_take_cong [of "?o gi" block' block "?o gj + 0x12 + 2" "?o gj + 0x12"]
      slice_drop_cong [of "?o gi + ?ds" block' block "?o gj + 0x12" "?o gj + 0x12 + 2"] assms(6) n by (auto simp: slot_frame_def)
  then show ?thesis using False assms(5,7) by (simp add: desc_flags_def)
qed (use assms(7) in \<open>auto simp: desc_flags_def\<close>)

lemma descriptor_update_view:
  assumes "layout_apart fs" "space_readable fs buf" "gi < length (fv_groups fs)" "buffer_reader fs buf (fst (desc_at fs gi)) = Ok block"
    "slot_frame (snd (desc_at fs gi)) (unat (desc_size (fv_sb fs))) block block'" "buffer_reader fs buf' = (buffer_reader fs buf)(fst (desc_at fs gi) := Ok block')"
  shows "space_readable fs buf'" "gj < length (fv_groups fs) \<Longrightarrow> block_bit fs buf' gj k = block_bit fs buf gj k"
    "gj < length (fv_groups fs) \<Longrightarrow> gj \<noteq> gi \<Longrightarrow> free_count fs buf' gj = free_count fs buf gj"
    "free_count fs buf' gi = unat (fb_field (64 \<le> desc_size (fv_sb fs)) (snd (desc_at fs gi)) block')"
proof -
  let ?ds = "desc_size (fv_sb fs)" and ?n = "length (fv_groups fs)"
  let ?d = "\<lambda>g. fst (desc_at fs g)" and ?o = "\<lambda>g. snd (desc_at fs g)"
  have bitmap: "buffer_reader fs buf' (block_bitmap (fv_groups fs ! gj)) = buffer_reader fs buf (block_bitmap (fv_groups fs ! gj))" if "gj < ?n" for gj
    using layout_apartD(1) [OF assms(1) that assms(3)] assms(6) by simp
  have slot: "\<exists>bl bl'. buffer_reader fs buf (?d gj) = Ok bl \<and> slot_fits ?ds (?o gj) bl \<and> buffer_reader fs buf' (?d gj) = Ok bl' \<and> slot_fits ?ds (?o gj) bl' \<and>
      (gj \<noteq> gi \<longrightarrow> fb_field (64 \<le> ?ds) (?o gj) bl' = fb_field (64 \<le> ?ds) (?o gj) bl)" if g: "gj < ?n" for gj
  proof -
    obtain bl where bl: "buffer_reader fs buf (?d gj) = Ok bl" "slot_fits ?ds (?o gj) bl" using assms(2) g by (auto simp: space_readable_def)
    show ?thesis
    proof (cases "?d gj = ?d gi")
      case False
      then show ?thesis using bl assms(6) by auto
    next
      case True
      then have "bl = block" using bl(1) assms(4) by simp
      moreover have "gj \<noteq> gi \<Longrightarrow> ?o gj + unat ?ds \<le> ?o gi \<or> ?o gi + unat ?ds \<le> ?o gj" using assms(1,3) g True by (auto simp: layout_apart_def)
      ultimately show ?thesis using bl assms(6) True slot_fits_frame [OF _ assms(5)] fb_field_frame [OF assms(5), of ?ds "?o gj"] by auto
    qed
  qed
  show "space_readable fs buf'" unfolding space_readable_def using slot bitmap assms(2) by (metis space_readable_def)
  show "gj < ?n \<Longrightarrow> block_bit fs buf' gj k = block_bit fs buf gj k" using bitmap by (simp add: block_bit_def)
  show "gj < ?n \<Longrightarrow> gj \<noteq> gi \<Longrightarrow> free_count fs buf' gj = free_count fs buf gj" using slot [of gj] by (auto simp: free_count_field)
  show "free_count fs buf' gi = unat (fb_field (64 \<le> ?ds) (?o gi) block')" using slot [OF assms(3)] assms(6) by (auto intro: free_count_field)
qed

lemma edit_descriptor_view:
  assumes "layout_apart fs" "space_readable fs buf" "gi < length (fv_groups fs)"
    "buffer_reader fs buf (fst (desc_at fs gi)) = Ok block" "f block (snd (desc_at fs gi)) = Ok block'"
    "slot_frame (snd (desc_at fs gi)) (unat (desc_size (fv_sb fs))) block block'"
  obtains buf' where "edit_descriptor fs gi f buf = Ok buf'" "space_readable fs buf'" "uninit_cleared buf' = uninit_cleared buf"
    "buffer_reader fs buf' = (buffer_reader fs buf)(fst (desc_at fs gi) := Ok block')"
    "\<And>gj k. gj < length (fv_groups fs) \<Longrightarrow> block_bit fs buf' gj k = block_bit fs buf gj k"
    "\<And>gj. gj < length (fv_groups fs) \<Longrightarrow> gj \<noteq> gi \<Longrightarrow> free_count fs buf' gj = free_count fs buf gj"
    "free_count fs buf' gi = unat (fb_field (64 \<le> desc_size (fv_sb fs)) (snd (desc_at fs gi)) block')"
proof -
  let ?d = "fst (desc_at fs gi)" and ?o = "snd (desc_at fs gi)"
  obtain buf' where b: "buffer_edit fs ?d (\<lambda>b. f b ?o) buf = Ok buf'" "buffer_reader fs buf' = (buffer_reader fs buf)(?d := Ok block')" "uninit_cleared buf' = uninit_cleared buf"
    by (rule buffer_edit_ok [OF assms(4), of "\<lambda>b. f b ?o"]) (use assms(5) in auto)
  have e: "edit_descriptor fs gi f buf = Ok buf'" using b(1) by (simp add: edit_descriptor_def desc_at_def split_beta Let_def)
  note v = descriptor_update_view [OF assms(1-4,6) b(2)]
  show ?thesis by (rule that [OF e v(1) b(3,2) v(2-4)])
qed

lemma and_not_idle:
  fixes w m :: "'a::len word"
  assumes "w AND m = 0"
  shows "w AND NOT m = w"
proof (rule bit_word_eqI)
  fix i assume "i < LENGTH('a)"
  then show "bit (w AND NOT m) i = bit w i" using assms bit_and_iff [of w m i] by (simp add: bit_simps) blast
qed

text \<open>Taking a group's BLOCK\_UNINIT flag down.\<close>

lemma clear_flag_run:
  assumes "descriptor_location (fv_sb fs) (word_of_nat gi) = (d, off)" "buffer_get fs d buf = Ok (block, buf1)" "off + 20 \<le> length block"
  defines "flags \<equiv> get_le16 (off + 0x12) block"
  shows "clear_bgd_uninit_flag_if_set fs gi UninitBlock buf =
    (if flags AND BLOCK_UNINIT = 0 then Ok (False, buf1)
     else Ok (True, (buffer_put d (put (off + 0x12) (u16_to_le (flags AND NOT BLOCK_UNINIT)) block) buf1)
       \<lparr>uninit_cleared := bt_insert gi (case map_of (uninit_cleared buf1) gi of Some f \<Rightarrow> f AND NOT BLOCK_UNINIT | None \<Rightarrow> flags AND NOT BLOCK_UNINIT) (uninit_cleared buf1)\<rparr>))"
proof -
  have rd: "get_slice (off + 0x12) (off + 0x12 + 2) block = Ok (slice (off + 0x12) (off + 0x12 + 2) block)" using assms(3) by (simp add: get_slice_def)
  show ?thesis
    unfolding clear_bgd_uninit_flag_if_set_def Let_def assms(1) prod.case assms(2) and_then.simps rd uninit_bit.simps flags_def get_le16_def by simp
qed

lemma clear_flag_view:
  assumes "layout_apart fs" "space_readable fs buf" "gi < length (fv_groups fs)"
  obtains buf' left where "clear_bgd_uninit_flag_if_set fs gi UninitBlock buf = Ok (desc_flags fs buf gi AND BLOCK_UNINIT \<noteq> 0, buf')" "space_readable fs buf'"
    "\<And>gj k. gj < length (fv_groups fs) \<Longrightarrow> block_bit fs buf' gj k = block_bit fs buf gj k"
    "\<And>gj. gj < length (fv_groups fs) \<Longrightarrow> free_count fs buf' gj = free_count fs buf gj"
    "\<And>gj. gj < length (fv_groups fs) \<Longrightarrow> desc_flags fs buf' gj = (if gj = gi then desc_flags fs buf gj AND NOT BLOCK_UNINIT else desc_flags fs buf gj)"
    "uninit_cleared buf' = (if desc_flags fs buf gi AND BLOCK_UNINIT \<noteq> 0 then bt_insert gi left (uninit_cleared buf) else uninit_cleared buf)" "left AND BLOCK_UNINIT = 0"
proof -
  let ?d = "fst (desc_at fs gi)" and ?o = "snd (desc_at fs gi)" and ?ds = "desc_size (fv_sb fs)"
  obtain block where bl: "buffer_reader fs buf ?d = Ok block" "slot_fits ?ds ?o block" using assms(2,3) by (auto simp: space_readable_def)
  then have n: "32 \<le> unat ?ds" "?o + unat ?ds \<le> length block" by (auto simp: slot_fits_def)
  obtain buf1 where b1: "buffer_get fs ?d buf = Ok (block, buf1)" "buffer_reader fs buf1 = buffer_reader fs buf" "uninit_cleared buf1 = uninit_cleared buf"
    by (rule buffer_get_ok [OF bl(1)])
  define flags where "flags = get_le16 (?o + 0x12) block"
  have fl: "desc_flags fs buf gi = flags" using bl(1) by (simp add: desc_flags_def flags_def)
  define left where "left = (case map_of (uninit_cleared buf) gi of Some f \<Rightarrow> f AND NOT BLOCK_UNINIT | None \<Rightarrow> flags AND NOT BLOCK_UNINIT)"
  have l: "left AND BLOCK_UNINIT = 0" unfolding left_def by (auto split: option.split intro!: bit_word_eqI simp: bit_simps)
  have loc: "descriptor_location (fv_sb fs) (word_of_nat gi) = (?d, ?o)" by (simp add: desc_at_def)
  have run: "clear_bgd_uninit_flag_if_set fs gi UninitBlock buf =
    (if flags AND BLOCK_UNINIT = 0 then Ok (False, buf1)
     else Ok (True, (buffer_put ?d (put (?o + 0x12) (u16_to_le (flags AND NOT BLOCK_UNINIT)) block) buf1)\<lparr>uninit_cleared := bt_insert gi left (uninit_cleared buf)\<rparr>))"
    using clear_flag_run [OF loc b1(1)] n unfolding b1(3) left_def flags_def by simp
  show ?thesis
  proof (cases "flags AND BLOCK_UNINIT = 0")
    case True
    then have nf: "flags AND NOT BLOCK_UNINIT = flags" by (rule and_not_idle)
    have "clear_bgd_uninit_flag_if_set fs gi UninitBlock buf = Ok (False, buf1)"
      using run True by simp
    then show ?thesis using assms(2) True nf b1 fl l
      by (intro that [of buf1 left]) (auto simp: space_readable_def block_bit_def free_count_def desc_flags_def)
  next
    case False
    let ?b' = "put (?o + 0x12) (u16_to_le (flags AND NOT BLOCK_UNINIT)) block"
    let ?buf = "(buffer_put ?d ?b' buf1)\<lparr>uninit_cleared := bt_insert gi left (uninit_cleared buf)\<rparr>"
    have r: "clear_bgd_uninit_flag_if_set fs gi UninitBlock buf = Ok (True, ?buf)"
      using run False by simp
    have rdr: "buffer_reader fs ?buf = (buffer_reader fs buf)(?d := Ok ?b')" using b1(2) by simp
    have frame: "slot_frame ?o (unat ?ds) block ?b'" using n by (intro slot_frame_put) auto
    note v = descriptor_update_view [OF assms bl(1) frame rdr]
    have same: "fb_field (64 \<le> ?ds) ?o ?b' = fb_field (64 \<le> ?ds) ?o block" using bl(2) n by (intro fb_field_put) auto
    have fc: "free_count fs ?buf gj = free_count fs buf gj" if "gj < length (fv_groups fs)" for gj
      using v(3) [OF that] v(4) same free_count_field [OF bl] by (cases "gj = gi") auto
    have df: "desc_flags fs ?buf gj = (if gj = gi then flags AND NOT BLOCK_UNINIT else desc_flags fs buf gj)" if "gj < length (fv_groups fs)" for gj
      using desc_flags_edit [OF assms that bl(1) frame rdr] n by (simp add: codec_simps)
    show ?thesis using r v(1,2) fc df False fl l by (intro that [of ?buf left]) auto
  qed
qed

lemma refresh_block_csum_view:
  assumes "layout_apart fs" "space_readable fs buf" "gi < length (fv_groups fs)"
  obtains buf' where "buffer_refresh_bitmap_csum crc fs gi False buf = Ok buf'" "space_readable fs buf'" "uninit_cleared buf' = uninit_cleared buf"
    "\<And>gj k. gj < length (fv_groups fs) \<Longrightarrow> block_bit fs buf' gj k = block_bit fs buf gj k"
    "\<And>gj. gj < length (fv_groups fs) \<Longrightarrow> free_count fs buf' gj = free_count fs buf gj"
    "\<And>gj. gj < length (fv_groups fs) \<Longrightarrow> desc_flags fs buf' gj = desc_flags fs buf gj"
proof (cases "enabled (fv_csum fs)")
  case False
  then show ?thesis using assms(2) by (intro that [of buf]) (simp_all add: buffer_refresh_bitmap_csum_def)
next
  case True
  let ?ds = "desc_size (fv_sb fs)" and ?off = "snd (desc_at fs gi)"
  obtain bm where bm: "buffer_reader fs buf (block_bitmap (fv_groups fs ! gi)) = Ok bm" using assms(2,3) by (auto simp: space_readable_def)
  obtain block where bl: "buffer_reader fs buf (fst (desc_at fs gi)) = Ok block" "slot_fits ?ds ?off block" using assms(2,3) by (auto simp: space_readable_def)
  obtain buf1 where b1: "buffer_get fs (block_bitmap (fv_groups fs ! gi)) buf = Ok (bm, buf1)" "buffer_reader fs buf1 = buffer_reader fs buf" "uninit_cleared buf1 = uninit_cleared buf"
    by (rule buffer_get_ok [OF bm])
  define csum where "csum = linux_crc32c crc (seed (fv_csum fs)) (take (min ((unat (blocks_per_group (fv_sb fs)) + 7) div 8) (length bm)) bm)"
  have n: "32 \<le> unat ?ds" "?off + unat ?ds \<le> length block" "64 \<le> ?ds \<Longrightarrow> 64 \<le> unat ?ds" using bl(2) by (auto simp: slot_fits_def word_le_nat_alt)
  let ?p1 = "put (?off + 0x18) (u16_to_le (ucast csum)) block"
  let ?p2 = "if 64 \<le> ?ds then put (?off + 0x38) (u16_to_le (ucast (drop_bit 16 csum))) ?p1 else ?p1"
  have f1: "slot_frame ?off (unat ?ds) block ?p1" "fb_field (64 \<le> ?ds) ?off ?p1 = fb_field (64 \<le> ?ds) ?off block"
    using n bl(2) by (auto intro!: slot_frame_put fb_field_put)
  have s1: "slot_fits ?ds ?off ?p1" by (rule slot_fits_frame [OF bl(2) f1(1)])
  have f2: "slot_frame ?off (unat ?ds) ?p1 ?p2" using n by (auto intro!: slot_frame_put)
  have g2: "fb_field (64 \<le> ?ds) ?off ?p2 = fb_field (64 \<le> ?ds) ?off ?p1"
    using fb_field_put [OF s1, of "?off + 0x38" "u16_to_le (ucast (drop_bit 16 csum))"] n by (cases "64 \<le> ?ds") simp_all
  have s2: "slot_fits ?ds ?off ?p2" by (rule slot_fits_frame [OF s1 f2])
  obtain block' where r: "restamp_group_desc_csum crc fs ?p2 ?off gi = Ok block'" "slot_frame ?off (unat ?ds) ?p2 block'" "fb_field (64 \<le> ?ds) ?off block' = fb_field (64 \<le> ?ds) ?off ?p2"
    "get_le16 (?off + 0x12) block' = get_le16 (?off + 0x12) ?p2"
    by (rule restamp_ok [OF s2])
  let ?f = "\<lambda>block off.
          and_then (put_checked (off + 0x18) (u16_to_le (ucast csum)) block) (\<lambda>block.
          and_then (if desc_size (fv_sb fs) \<ge> 0x40 then put_checked (off + 0x38) (u16_to_le (ucast (drop_bit 16 csum))) block else Ok block) (\<lambda>block.
          restamp_group_desc_csum crc fs block off gi))"
  have f: "?f block ?off = Ok block'" using n r(1) by (auto simp: put_checked_def)
  have frame: "slot_frame ?off (unat ?ds) block block'" using f1(1) f2 r(2) by (blast intro: slot_frame_trans)
  have sr1: "space_readable fs buf1" using assms(2) b1(2) by (simp add: space_readable_def)
  have bl1: "buffer_reader fs buf1 (fst (desc_at fs gi)) = Ok block" using bl(1) b1(2) by simp
  obtain buf' where v: "edit_descriptor fs gi ?f buf1 = Ok buf'" "space_readable fs buf'" "uninit_cleared buf' = uninit_cleared buf1"
    "buffer_reader fs buf' = (buffer_reader fs buf1)(fst (desc_at fs gi) := Ok block')"
    "\<And>gj k. gj < length (fv_groups fs) \<Longrightarrow> block_bit fs buf' gj k = block_bit fs buf1 gj k"
    "\<And>gj. gj < length (fv_groups fs) \<Longrightarrow> gj \<noteq> gi \<Longrightarrow> free_count fs buf' gj = free_count fs buf1 gj"
    "free_count fs buf' gi = unat (fb_field (64 \<le> ?ds) ?off block')"
    by (rule edit_descriptor_view [OF assms(1) sr1 assms(3) bl1, of ?f, OF f frame]) blast
  have "buffer_refresh_bitmap_csum crc fs gi False buf = Ok buf'"
    using True assms(3) b1(1) v(1) by (simp add: buffer_refresh_bitmap_csum_def Let_def flip: csum_def cong: if_cong)
  moreover have "free_count fs buf' gj = free_count fs buf gj" if "gj < length (fv_groups fs)" for gj
  proof -
    have "free_count fs buf1 gj = free_count fs buf gj" by (simp add: free_count_def b1(2))
    moreover have "free_count fs buf gi = unat (fb_field (64 \<le> ?ds) ?off block)" by (rule free_count_field [OF bl])
    ultimately show ?thesis using v(6,7) that r(3) g2 f1(2) by (cases "gj = gi") simp_all
  qed
  moreover have "desc_flags fs buf' gj = desc_flags fs buf gj" if "gj < length (fv_groups fs)" for gj
  proof -
    have "get_le16 (?off + 0x12) block' = get_le16 (?off + 0x12) block" using r(4) n by (auto simp: codec_simps)
    then show ?thesis using desc_flags_edit [OF assms(1) sr1 assms(3) that bl1 frame v(4)] bl1 b1(2) by (simp add: desc_flags_def)
  qed
  ultimately show ?thesis using that v(2,3,5) b1 by (simp add: block_bit_def)
qed

lemma patch_counters_view:
  assumes "layout_apart fs" "space_readable fs buf" "gi < length (fv_groups fs)"
    "0 \<le> int (free_count fs buf gi) + delta" "int (free_count fs buf gi) + delta < (if 64 \<le> desc_size (fv_sb fs) then 2 ^ 32 else 2 ^ 16)"
  obtains buf' where "buffer_patch_bgd_counters crc fs gi delta fi ud buf = Ok buf'" "space_readable fs buf'" "uninit_cleared buf' = uninit_cleared buf"
    "\<And>gj k. gj < length (fv_groups fs) \<Longrightarrow> block_bit fs buf' gj k = block_bit fs buf gj k"
    "\<And>gj. gj < length (fv_groups fs) \<Longrightarrow> gj \<noteq> gi \<Longrightarrow> free_count fs buf' gj = free_count fs buf gj"
    "int (free_count fs buf' gi) = int (free_count fs buf gi) + delta"
proof -
  let ?ds = "desc_size (fv_sb fs)" and ?off = "snd (desc_at fs gi)"
  obtain block where bl: "buffer_reader fs buf (fst (desc_at fs gi)) = Ok block" "slot_fits ?ds ?off block" using assms(2,3) by (auto simp: space_readable_def)
  have fc: "free_count fs buf gi = unat (fb_field (64 \<le> ?ds) ?off block)" by (rule free_count_field [OF bl])
  have "sum_fits (64 \<le> ?ds) (fb_field (64 \<le> ?ds) ?off block) delta" using assms(4,5) unfolding fc sum_fits_def by simp
  then obtain b1 where b1: "patch_bgd_counter_fields block ?off ?ds delta fi ud = Ok b1" "slot_frame ?off (unat ?ds) block b1"
    "uint (fb_field (64 \<le> ?ds) ?off b1) = uint (fb_field (64 \<le> ?ds) ?off block) + delta"
    by (rule patch_fields_ok [OF bl(2)])
  obtain block' where r: "restamp_group_desc_csum crc fs b1 ?off gi = Ok block'" "slot_frame ?off (unat ?ds) b1 block'" "fb_field (64 \<le> ?ds) ?off block' = fb_field (64 \<le> ?ds) ?off b1"
    by (rule restamp_ok [OF slot_fits_frame [OF bl(2) b1(2)]])
  let ?f = "\<lambda>block off. and_then (patch_bgd_counter_fields block off ?ds delta fi ud) (\<lambda>block. restamp_group_desc_csum crc fs block off gi)"
  have f: "?f block ?off = Ok block'" using b1(1) r(1) by simp
  obtain buf' where v: "edit_descriptor fs gi ?f buf = Ok buf'" "space_readable fs buf'" "uninit_cleared buf' = uninit_cleared buf"
    "\<And>gj k. gj < length (fv_groups fs) \<Longrightarrow> block_bit fs buf' gj k = block_bit fs buf gj k"
    "\<And>gj. gj < length (fv_groups fs) \<Longrightarrow> gj \<noteq> gi \<Longrightarrow> free_count fs buf' gj = free_count fs buf gj"
    "free_count fs buf' gi = unat (fb_field (64 \<le> ?ds) ?off block')"
    by (rule edit_descriptor_view [OF assms(1-3) bl(1), of ?f, OF f slot_frame_trans [OF b1(2) r(2)]]) blast
  have "int (free_count fs buf' gi) = int (free_count fs buf gi) + delta" using v(6) r(3) b1(3) fc by simp
  then show ?thesis using that v by (simp add: buffer_patch_bgd_counters_def)
qed

lemma bitmap_edit_view:
  assumes "layout_apart fs" "space_readable fs buf" "gi < length (fv_groups fs)"
    "buffer_reader fs buf (block_bitmap (fv_groups fs ! gi)) = Ok bm" "f bm = Ok bm'" "length bm' = length bm"
  obtains buf' where "buffer_edit fs (block_bitmap (fv_groups fs ! gi)) f buf = Ok buf'" "space_readable fs buf'" "uninit_cleared buf' = uninit_cleared buf"
    "\<And>gj k. gj < length (fv_groups fs) \<Longrightarrow> block_bit fs buf' gj k = (if gj = gi then bit_is_set bm' k else block_bit fs buf gj k)"
    "\<And>gj. gj < length (fv_groups fs) \<Longrightarrow> free_count fs buf' gj = free_count fs buf gj"
proof -
  let ?b = "\<lambda>g. block_bitmap (fv_groups fs ! g)"
  obtain buf' where b: "buffer_edit fs (?b gi) f buf = Ok buf'" "buffer_reader fs buf' = (buffer_reader fs buf)(?b gi := Ok bm')" "uninit_cleared buf' = uninit_cleared buf"
    by (rule buffer_edit_ok [OF assms(4), of f]) (use assms(5) in auto)
  have d: "buffer_reader fs buf' (fst (desc_at fs gj)) = buffer_reader fs buf (fst (desc_at fs gj))" if "gj < length (fv_groups fs)" for gj
    using layout_apartD(1) [OF assms(1,3) that] b(2) by simp
  have o: "?b gj \<noteq> ?b gi" if "gj < length (fv_groups fs)" "gj \<noteq> gi" for gj using layout_apartD(2) [OF assms(1) that(1) assms(3) that(2)] .
  have sr: "space_readable fs buf'"
    unfolding space_readable_def
  proof (intro allI impI conjI)
    fix g assume g: "g < length (fv_groups fs)"
    then show "\<exists>block. buffer_reader fs buf' (fst (desc_at fs g)) = Ok block \<and> slot_fits (desc_size (fv_sb fs)) (snd (desc_at fs g)) block"
      using d assms(2) by (simp add: space_readable_def)
    show "\<exists>bm. buffer_reader fs buf' (?b g) = Ok bm \<and> unat (blocks_per_group (fv_sb fs)) \<le> 8 * length bm"
      using g o [of g] assms(2,3,4,6) b(2) by (cases "g = gi") (auto simp: space_readable_def)
  qed
  show ?thesis
    by (rule that [OF b(1) sr b(3)]) (use b(2) o d in \<open>auto simp: block_bit_def free_count_def\<close>)
qed

section \<open>Freeing a run\<close>

text \<open>Every group's descriptor counts the clear bits of its bitmap.\<close>

definition accounted :: "fs_view \<Rightarrow> block_buffer \<Rightarrow> bool" where
  "accounted fs buf \<longleftrightarrow>
     (\<forall>gi < length (fv_groups fs). free_count fs buf gi + card {k. k < unat (blocks_per_group (fv_sb fs)) \<and> block_bit fs buf gi k} = unat (blocks_per_group (fv_sb fs)))"

text \<open>A group's blocks can be counted by its descriptor: 16 bits in the narrow format, and the delta is an \<open>i32\<close>.\<close>

definition countable_groups :: "fs_view \<Rightarrow> bool" where
  "countable_groups fs \<longleftrightarrow> unat (blocks_per_group (fv_sb fs)) < (if 64 \<le> desc_size (fv_sb fs) then 2 ^ 31 else 2 ^ 16)"

lemma delta_i32: "k < 2 ^ 31 \<Longrightarrow> sint (word_of_nat k :: 32 word) = int k"
  using sint_of_int32 [of "int k"] by simp

lemma card_remove_run:
  assumes "\<forall>i. s \<le> i \<and> i < s + n \<longrightarrow> P i" "s + n \<le> (m :: nat)"
  shows "card {k. k < m \<and> P k \<and> \<not> (s \<le> k \<and> k < s + n)} + n = card {k. k < m \<and> P k}"
proof -
  have "{k. k < m \<and> P k} = {k. k < m \<and> P k \<and> \<not> (s \<le> k \<and> k < s + n)} \<union> {s ..< s + n}" using assms by auto
  moreover have "card \<dots> = card {k. k < m \<and> P k \<and> \<not> (s \<le> k \<and> k < s + n)} + card {s ..< s + n}" by (rule card_Un_disjoint) auto
  ultimately show ?thesis by simp
qed

lemma free_chunk_view:
  assumes "layout_apart fs" "countable_groups fs" "space_readable fs buf" "accounted fs buf" "gi < length (fv_groups fs)" "s + n \<le> unat (blocks_per_group (fv_sb fs))"
    "\<forall>i. s \<le> i \<and> i < s + n \<longrightarrow> block_bit fs buf gi i"
  obtains buf' where "free_chunk crc fs (gi, s, n) buf = Ok buf'" "space_readable fs buf'" "accounted fs buf'" "uninit_cleared buf' = uninit_cleared buf"
    "\<And>gj k. gj < length (fv_groups fs) \<Longrightarrow> block_bit fs buf' gj k \<longleftrightarrow> block_bit fs buf gj k \<and> \<not> (gj = gi \<and> s \<le> k \<and> k < s + n)"
proof -
  let ?n = "length (fv_groups fs)" and ?bpg = "unat (blocks_per_group (fv_sb fs))" and ?bb = "block_bitmap (fv_groups fs ! gi)"
  obtain bm where bm: "buffer_reader fs buf ?bb = Ok bm" using assms(3,5) by (auto simp: space_readable_def)
  let ?f = "\<lambda>bm. Ok (clear_bits s n bm) :: bytes result"
  obtain buf1 where b1: "buffer_edit fs ?bb ?f buf = Ok buf1" "space_readable fs buf1" "uninit_cleared buf1 = uninit_cleared buf"
    "\<And>gj k. gj < ?n \<Longrightarrow> block_bit fs buf1 gj k = (if gj = gi then bit_is_set (clear_bits s n bm) k else block_bit fs buf gj k)"
    "\<And>gj. gj < ?n \<Longrightarrow> free_count fs buf1 gj = free_count fs buf gj"
    by (rule bitmap_edit_view [OF assms(1,3,5) bm, of ?f "clear_bits s n bm"]) (use clear_bits_iff in auto)
  obtain buf2 where b2: "buffer_refresh_bitmap_csum crc fs gi False buf1 = Ok buf2" "space_readable fs buf2" "uninit_cleared buf2 = uninit_cleared buf1"
    "\<And>gj k. gj < ?n \<Longrightarrow> block_bit fs buf2 gj k = block_bit fs buf1 gj k" "\<And>gj. gj < ?n \<Longrightarrow> free_count fs buf2 gj = free_count fs buf1 gj"
    by (rule refresh_block_csum_view [OF assms(1) b1(2) assms(5)]) blast
  have fc: "free_count fs buf2 gi = free_count fs buf gi" using b1(5) b2(5) assms(5) by simp
  have acc: "free_count fs buf gi + card {k. k < ?bpg \<and> block_bit fs buf gi k} = ?bpg" using assms(4,5) by (simp add: accounted_def)
  note rem = card_remove_run [OF assms(7,6)]
  have le: "free_count fs buf gi + n \<le> ?bpg" using acc rem by linarith
  have cap: "n < 2 ^ 31" "int (free_count fs buf gi) + int n < (if 64 \<le> desc_size (fv_sb fs) then 2 ^ 32 else 2 ^ 16)"
    using assms(2) le by (auto simp: countable_groups_def split: if_splits)
  obtain buf' where b3: "buffer_patch_bgd_counters crc fs gi (int n) 0 0 buf2 = Ok buf'" "space_readable fs buf'" "uninit_cleared buf' = uninit_cleared buf2"
    "\<And>gj k. gj < ?n \<Longrightarrow> block_bit fs buf' gj k = block_bit fs buf2 gj k"
    "\<And>gj. gj < ?n \<Longrightarrow> gj \<noteq> gi \<Longrightarrow> free_count fs buf' gj = free_count fs buf2 gj"
    "int (free_count fs buf' gi) = int (free_count fs buf2 gi) + int n"
    by (rule patch_counters_view [OF assms(1) b2(2) assms(5), of "int n"]) (use cap(2) fc in auto)
  have bit: "block_bit fs buf' gj k \<longleftrightarrow> block_bit fs buf gj k \<and> \<not> (gj = gi \<and> s \<le> k \<and> k < s + n)" if "gj < ?n" for gj k
    using that b3(4) b2(4) b1(4) bm clear_bits_iff [of s n bm k] by (auto simp: block_bit_def)
  have "accounted fs buf'"
    unfolding accounted_def
  proof (intro allI impI)
    fix g assume g: "g < ?n"
    show "free_count fs buf' g + card {k. k < ?bpg \<and> block_bit fs buf' g k} = ?bpg"
    proof (cases "g = gi")
      case True
      then have "free_count fs buf' g = free_count fs buf gi + n" using b3(6) fc by simp
      then show ?thesis using True bit [OF g] acc rem by simp
    next
      case False
      then show ?thesis using g bit [OF g] b3(5) b2(5) b1(5) assms(4) by (simp add: accounted_def)
    qed
  qed
  moreover have "free_chunk crc fs (gi, s, n) buf = Ok buf'" using b1(1) b2(1) b3(1) delta_i32 [OF cap(1)] by (simp add: free_chunk_def)
  ultimately show ?thesis using that b3(2,3) b2(3) b1(3) bit by simp
qed

lemma free_chunks_view:
  "layout_apart fs \<Longrightarrow> countable_groups fs \<Longrightarrow> space_readable fs buf \<Longrightarrow> accounted fs buf \<Longrightarrow> distinct (map fst cs) \<Longrightarrow>
   \<forall>(gi, s, n) \<in> set cs. gi < length (fv_groups fs) \<and> s + n \<le> unat (blocks_per_group (fv_sb fs)) \<and> (\<forall>i. s \<le> i \<and> i < s + n \<longrightarrow> block_bit fs buf gi i) \<Longrightarrow>
   \<exists>buf'. free_chunks crc fs cs buf = Ok buf' \<and> space_readable fs buf' \<and> accounted fs buf' \<and> uninit_cleared buf' = uninit_cleared buf \<and>
     (\<forall>gj < length (fv_groups fs). \<forall>k. block_bit fs buf' gj k \<longleftrightarrow> block_bit fs buf gj k \<and> \<not> (\<exists>(gi, s, n) \<in> set cs. gj = gi \<and> s \<le> k \<and> k < s + n))"
proof (induction cs arbitrary: buf)
  case (Cons c cs)
  obtain gi s n where c: "c = (gi, s, n)" by (cases c)
  have p: "gi < length (fv_groups fs)" "s + n \<le> unat (blocks_per_group (fv_sb fs))" "\<forall>i. s \<le> i \<and> i < s + n \<longrightarrow> block_bit fs buf gi i"
    using Cons.prems(6) c by auto
  obtain buf1 where b1: "free_chunk crc fs (gi, s, n) buf = Ok buf1" "space_readable fs buf1" "accounted fs buf1" "uninit_cleared buf1 = uninit_cleared buf"
    "\<And>gj k. gj < length (fv_groups fs) \<Longrightarrow> block_bit fs buf1 gj k \<longleftrightarrow> block_bit fs buf gj k \<and> \<not> (gj = gi \<and> s \<le> k \<and> k < s + n)"
    by (rule free_chunk_view [OF Cons.prems(1-4) p]) blast
  have rest: "\<forall>(gi, s, n) \<in> set cs. gi < length (fv_groups fs) \<and> s + n \<le> unat (blocks_per_group (fv_sb fs)) \<and> (\<forall>i. s \<le> i \<and> i < s + n \<longrightarrow> block_bit fs buf1 gi i)"
  proof (clarify, intro conjI allI impI)
    fix g s' n' assume m: "(g, s', n') \<in> set cs"
    then have q: "g < length (fv_groups fs)" "s' + n' \<le> unat (blocks_per_group (fv_sb fs))" "\<forall>i. s' \<le> i \<and> i < s' + n' \<longrightarrow> block_bit fs buf g i" using Cons.prems(6) by auto
    have "g \<noteq> gi" using Cons.prems(5) m c by force
    show "g < length (fv_groups fs)" "s' + n' \<le> unat (blocks_per_group (fv_sb fs))" by (fact q)+
    fix i assume "s' \<le> i \<and> i < s' + n'"
    then show "block_bit fs buf1 g i" using b1(5) [OF q(1)] q(3) \<open>g \<noteq> gi\<close> by simp
  qed
  obtain buf' where b2: "free_chunks crc fs cs buf1 = Ok buf'" "space_readable fs buf'" "accounted fs buf'" "uninit_cleared buf' = uninit_cleared buf1"
    "\<forall>gj < length (fv_groups fs). \<forall>k. block_bit fs buf' gj k \<longleftrightarrow> block_bit fs buf1 gj k \<and> \<not> (\<exists>(gi, s, n) \<in> set cs. gj = gi \<and> s \<le> k \<and> k < s + n)"
    using Cons.IH [OF Cons.prems(1,2) b1(2,3) _ rest] Cons.prems(5) by auto
  then show ?case using b1 c by (intro exI [of _ buf']) (auto split: prod.splits)
qed simp

text \<open>Whether a block of the volume is marked used, as the buffer shows its group's bitmap.\<close>

definition in_use :: "fs_view \<Rightarrow> block_buffer \<Rightarrow> nat \<Rightarrow> bool" where
  "in_use fs buf b \<longleftrightarrow> (let fd = unat (first_data_block (fv_sb fs)); bpg = unat (blocks_per_group (fv_sb fs)) in block_bit fs buf ((b - fd) div bpg) ((b - fd) mod bpg))"

definition in_run :: "u64 \<times> u64 \<Rightarrow> nat \<Rightarrow> bool" where
  "in_run r b \<longleftrightarrow> unat (fst r) \<le> b \<and> b < unat (fst r) + unat (snd r)"

text \<open>A block the bitmaps of the volume describe.\<close>

definition data_block :: "fs_view \<Rightarrow> nat \<Rightarrow> bool" where
  "data_block fs b \<longleftrightarrow> (let fd = unat (first_data_block (fv_sb fs)); bpg = unat (blocks_per_group (fv_sb fs)) in
     fd \<le> b \<and> b < unat (blocks_count (fv_sb fs)) \<and> 0 < bpg \<and> (b - fd) div bpg < length (fv_groups fs))"

lemma chunk_blocks_iff:
  "s + n \<le> bpg \<Longrightarrow> fd \<le> b \<Longrightarrow> b \<in> set (chunk_blocks fd bpg (gi, s, n)) \<longleftrightarrow> (b - fd) div bpg = gi \<and> s \<le> (b - fd) mod bpg \<and> (b - fd) mod bpg < s + n"
proof -
  assume a: "s + n \<le> bpg" "fd \<le> b"
  show ?thesis
  proof
    assume "b \<in> set (chunk_blocks fd bpg (gi, s, n))"
    then have r: "fd + gi * bpg + s \<le> b" "b < fd + gi * bpg + s + n" by (auto simp: chunk_blocks_def)
    define i where "i = b - fd - gi * bpg"
    have "b - fd = i + gi * bpg" "i < bpg" "s \<le> i" "i < s + n" using r a by (auto simp: i_def)
    then show "(b - fd) div bpg = gi \<and> s \<le> (b - fd) mod bpg \<and> (b - fd) mod bpg < s + n" by simp
  next
    assume r: "(b - fd) div bpg = gi \<and> s \<le> (b - fd) mod bpg \<and> (b - fd) mod bpg < s + n"
    have "b - fd = gi * bpg + (b - fd) mod bpg" using r by (metis div_mult_mod_eq)
    then have "b = fd + gi * bpg + (b - fd) mod bpg" using a(2) by linarith
    then show "b \<in> set (chunk_blocks fd bpg (gi, s, n))" using r by (simp add: chunk_blocks_def)
  qed
qed

lemma free_run_view:
  assumes "layout_apart fs" "countable_groups fs" "space_readable fs buf" "accounted fs buf"
    "unat start + unat n < 2 ^ 64" "unat start \<ge> unat (first_data_block (fv_sb fs))" "unat start + unat n \<le> unat (blocks_count (fv_sb fs))" "blocks_per_group (fv_sb fs) \<noteq> 0"
    "\<forall>b. in_run (start, n) b \<longrightarrow> data_block fs b \<and> in_use fs buf b"
  shows "\<exists>buf'. buffer_free_block_run_and_bgd crc fs start n buf = Ok (n, buf') \<and> space_readable fs buf' \<and> accounted fs buf' \<and> uninit_cleared buf' = uninit_cleared buf \<and>
    (\<forall>b. data_block fs b \<longrightarrow> in_use fs buf' b = (in_use fs buf b \<and> \<not> in_run (start, n) b))"
proof -
  let ?fd = "unat (first_data_block (fv_sb fs))" and ?bpg = "unat (blocks_per_group (fv_sb fs))" and ?ng = "length (fv_groups fs)"
  let ?fin = "unat start + unat n"
  have bpg: "0 < ?bpg" using assms(8) by (simp add: unat_gt_0)
  have ca: "checked_add start n = Some (start + n)" using assms(5) by (simp add: checked_add_def)
  have u: "unat (start + n) = ?fin" using checked_add_Some [OF ca] .
  have run: "group_chunks fs start n = chunk_loop ?fd ?bpg ?ng ?fin (unat start)"
    using assms(6-8) ca u by (auto simp: group_chunks_def Let_def word_less_nat_alt)
  have "\<forall>b. unat start \<le> b \<and> b < ?fin \<longrightarrow> (b - ?fd) div ?bpg < ?ng" using assms(9) by (auto simp: in_run_def data_block_def Let_def)
  then obtain cs where cs: "chunk_loop ?fd ?bpg ?ng ?fin (unat start) = Ok cs" using chunk_loop_total [OF assms(6) bpg] by blast
  have ok: "concat (map (chunk_blocks ?fd ?bpg) cs) = [unat start ..< ?fin]" "\<forall>(gi, s, k) \<in> set cs. gi < ?ng \<and> 0 < k \<and> s + k \<le> ?bpg" "distinct (map fst cs)"
    using chunk_loop_Ok [OF cs assms(6) bpg] by (auto simp: strict_sorted_iff)
  have cover: "in_run (start, n) b \<longleftrightarrow> (\<exists>(gi, s, k) \<in> set cs. (b - ?fd) div ?bpg = gi \<and> s \<le> (b - ?fd) mod ?bpg \<and> (b - ?fd) mod ?bpg < s + k)" if "?fd \<le> b" for b
  proof -
    have "in_run (start, n) b \<longleftrightarrow> b \<in> set (concat (map (chunk_blocks ?fd ?bpg) cs))" unfolding ok(1) by (auto simp: in_run_def)
    also have "\<dots> \<longleftrightarrow> (\<exists>c \<in> set cs. b \<in> set (chunk_blocks ?fd ?bpg c))" by auto
    also have "\<dots> \<longleftrightarrow> (\<exists>(gi, s, k) \<in> set cs. (b - ?fd) div ?bpg = gi \<and> s \<le> (b - ?fd) mod ?bpg \<and> (b - ?fd) mod ?bpg < s + k)"
      using ok(2) chunk_blocks_iff [OF _ that, of _ _ ?bpg] by (intro bex_cong refl) (auto split: prod.splits)
    finally show ?thesis .
  qed
  have used: "\<forall>(gi, s, k) \<in> set cs. gi < ?ng \<and> s + k \<le> ?bpg \<and> (\<forall>i. s \<le> i \<and> i < s + k \<longrightarrow> block_bit fs buf gi i)"
  proof (clarify, intro conjI allI impI)
    fix gi s k assume m: "(gi, s, k) \<in> set cs"
    then show "gi < ?ng" "s + k \<le> ?bpg" using ok(2) by auto
    fix i assume i: "s \<le> i \<and> i < s + k"
    let ?b = "?fd + gi * ?bpg + i"
    have "i < ?bpg" using ok(2) m i by fastforce
    then have q: "(?b - ?fd) div ?bpg = gi" "(?b - ?fd) mod ?bpg = i" by simp_all
    then have "in_run (start, n) ?b" using cover [of ?b] m i by fastforce
    then show "block_bit fs buf gi i" using assms(9) q by (auto simp: in_use_def Let_def)
  qed
  obtain buf' where b: "free_chunks crc fs cs buf = Ok buf'" "space_readable fs buf'" "accounted fs buf'" "uninit_cleared buf' = uninit_cleared buf"
    "\<forall>gj < ?ng. \<forall>k. block_bit fs buf' gj k \<longleftrightarrow> block_bit fs buf gj k \<and> \<not> (\<exists>(gi, s, n) \<in> set cs. gj = gi \<and> s \<le> k \<and> k < s + n)"
    using free_chunks_view [OF assms(1-4) ok(3) used] by blast
  have "in_use fs buf' b = (in_use fs buf b \<and> \<not> in_run (start, n) b)" if "data_block fs b" for b
    using that b(5) cover [of b] by (simp add: data_block_def in_use_def Let_def)
  then show ?thesis using b(1-4) run cs by (auto simp: buffer_free_block_run_and_bgd_def)
qed

definition valid_run :: "fs_view \<Rightarrow> u64 \<times> u64 \<Rightarrow> bool" where
  "valid_run fs r \<longleftrightarrow> unat (first_data_block (fv_sb fs)) \<le> unat (fst r) \<and> unat (fst r) + unat (snd r) \<le> unat (blocks_count (fv_sb fs)) \<and> (\<forall>b. in_run r b \<longrightarrow> data_block fs b)"

definition runs_disjoint :: "(u64 \<times> u64) list \<Rightarrow> bool" where
  "runs_disjoint = sorted_wrt (\<lambda>r r'. \<forall>b. \<not> (in_run r b \<and> in_run r' b))"

text \<open>
  C7. Freeing runs inside a transaction (\<open>buffer_free_runs\<close>): where the runs are disjoint, inside the volume and in use, and every group's descriptor counts the
  clear bits of its bitmap, the helper succeeds and reports the number of blocks of the runs; afterwards a block is in use exactly if it was and lies in no run,
  and every descriptor still counts the clear bits of its bitmap, in spite of checksum stamps, shared descriptor blocks and runs that cross groups.
\<close>

theorem buffer_free_runs_correct:
  assumes "layout_apart fs" "countable_groups fs" "blocks_per_group (fv_sb fs) \<noteq> 0" "space_readable fs buf" "accounted fs buf"
    "runs_disjoint runs" "\<forall>r \<in> set runs. valid_run fs r \<and> (\<forall>b. in_run r b \<longrightarrow> in_use fs buf b)"
  shows "\<exists>buf'. buffer_free_runs crc fs runs freed buf = Ok (freed + sum_list (map snd runs), buf') \<and> space_readable fs buf' \<and> accounted fs buf' \<and>
    (\<forall>b. data_block fs b \<longrightarrow> in_use fs buf' b = (in_use fs buf b \<and> \<not> (\<exists>r \<in> set runs. in_run r b)))"
  using assms(4-7)
proof (induction runs arbitrary: buf freed)
  case (Cons r runs)
  obtain start n where r: "r = (start, n)" by (cases r)
  have v: "unat (first_data_block (fv_sb fs)) \<le> unat start" "unat start + unat n \<le> unat (blocks_count (fv_sb fs))" "\<forall>b. in_run (start, n) b \<longrightarrow> data_block fs b \<and> in_use fs buf b"
    using Cons.prems(4) r by (auto simp: valid_run_def)
  have "unat start + unat n < 2 ^ 64" using v(2) unat_lt2p [of "blocks_count (fv_sb fs)"] by simp
  then obtain buf1 where b1: "buffer_free_block_run_and_bgd crc fs start n buf = Ok (n, buf1)" "space_readable fs buf1" "accounted fs buf1"
    "\<forall>b. data_block fs b \<longrightarrow> in_use fs buf1 b = (in_use fs buf b \<and> \<not> in_run (start, n) b)"
    using free_run_view [OF assms(1,2) Cons.prems(1,2) _ v(1,2) assms(3) v(3)] by blast
  have rest: "\<forall>r \<in> set runs. valid_run fs r \<and> (\<forall>b. in_run r b \<longrightarrow> in_use fs buf1 b)"
    using Cons.prems(3,4) b1(4) r by (auto simp: runs_disjoint_def valid_run_def)
  have dis: "runs_disjoint runs" using Cons.prems(3) by (simp add: runs_disjoint_def)
  obtain buf' where b2: "buffer_free_runs crc fs runs (freed + n) buf1 = Ok (freed + n + sum_list (map snd runs), buf')" "space_readable fs buf'" "accounted fs buf'"
    "\<forall>b. data_block fs b \<longrightarrow> in_use fs buf' b = (in_use fs buf1 b \<and> \<not> (\<exists>r \<in> set runs. in_run r b))"
    using Cons.IH [OF b1(2,3) dis rest, of "freed + n"] by blast
  show ?case using b1(1,4) b2 r by (intro exI [of _ buf']) (simp add: add.assoc)
qed simp

section \<open>A volume whose blocks are all in use\<close>

definition full_volume :: fs_view where
  "full_volume = \<lparr>fv_sb = sized 256, fv_groups = example_groups, fv_csum = \<lparr>seed = 0, enabled = False\<rparr>,
     fv_dev = (\<lambda>off n. Ok (replicate n (if off = 2048 then 0 else 255))), fv_dev_size = 2098176\<rparr>"

lemma full_volume_simps [simp]:
  "fv_sb full_volume = sized 256" "length (fv_groups full_volume) = 2" "fv_groups full_volume ! 0 = example_bgd 10 11 12" "fv_groups full_volume ! Suc 0 = example_bgd 1030 1031 2011"
  by (simp_all add: full_volume_def example_groups_def)

lemma full_volume_reads:
  "buffer_reader full_volume BlockBuffer_new 2 = Ok (replicate 1024 0)" "buffer_reader full_volume BlockBuffer_new 10 = Ok (replicate 1024 255)"
  "buffer_reader full_volume BlockBuffer_new 1030 = Ok (replicate 1024 255)"
  by (simp_all add: buffer_reader_def BlockBuffer_new_def fs_read_block_def full_volume_def checked_mul_def)

lemma full_volume_desc: "desc_at full_volume 0 = (2, 0)" "desc_at full_volume (Suc 0) = (2, 32)"
  using sized_locations [of 256] by (simp_all add: desc_at_def)

lemma less_two: "(\<forall>g < 2. P g) \<longleftrightarrow> P 0 \<and> P (Suc 0)"
  by (auto simp: numeral_2_eq_2 less_Suc_eq)

lemma full_bits: "bit_is_set (replicate 1024 255) k \<longleftrightarrow> k < 8192"
proof -
  have "k mod 8 \<in> {0, 1, 2, 3, 4, 5, 6, 7}" by auto
  then have "bit (255 :: u8) (k mod 8)" by auto
  then show ?thesis by (auto simp: bit_is_set_iff)
qed

lemma full_block_bit: "g < 2 \<Longrightarrow> k < 1024 \<Longrightarrow> block_bit full_volume BlockBuffer_new g k"
  using full_bits [of k] full_volume_reads by (auto simp: block_bit_def numeral_2_eq_2 less_Suc_eq example_bgd_def)

lemma full_volume_ok: "layout_apart full_volume" "countable_groups full_volume" "space_readable full_volume BlockBuffer_new" "accounted full_volume BlockBuffer_new"
proof -
  show "layout_apart full_volume" using full_volume_desc by (simp add: layout_apart_def less_two example_bgd_def)
  show "countable_groups full_volume" by (simp add: countable_groups_def)
  show sr: "space_readable full_volume BlockBuffer_new"
    using full_volume_desc full_volume_reads by (simp add: space_readable_def slot_fits_def less_two example_bgd_def)
  have z: "get_le16 k (replicate 1024 0) = 0" if "k + 2 \<le> 1024" for k using that by (simp add: get_le16_def slice_def u16_from_le_def numeral_2_eq_2)
  have "free_count full_volume BlockBuffer_new g = 0" if "g < 2" for g
  proof -
    have d: "fst (desc_at full_volume g) = 2" "snd (desc_at full_volume g) \<le> 32" using that full_volume_desc by (auto simp: numeral_2_eq_2 less_Suc_eq)
    then have "free_count full_volume BlockBuffer_new g = unat (fb_field (64 \<le> desc_size (fv_sb full_volume)) (snd (desc_at full_volume g)) (replicate 1024 0))"
      using full_volume_reads by (intro free_count_field) (auto simp: slot_fits_def)
    then show ?thesis using d z by (simp add: fb_field_def Bgd.join16_def)
  qed
  moreover have "{k. k < 1024 \<and> block_bit full_volume BlockBuffer_new g k} = {..< 1024}" if "g < 2" for g using full_block_bit [OF that] by auto
  ultimately show "accounted full_volume BlockBuffer_new" by (simp add: accounted_def)
qed

theorem group_chunks_correct_witness:
  "\<exists>cs. group_chunks full_volume 1020 10 = Ok cs \<and> concat (map (chunk_blocks 1 1024) cs) = [1020 ..< 1030] \<and> distinct (map fst cs)"
proof -
  have "\<not> (\<exists>b :: nat. 1020 \<le> b \<and> b < 1030 \<and> 2 \<le> (b - 1) div 1024)" by (auto simp: le_div_geq div_le_mono)
  then show ?thesis using group_chunks_correct [of full_volume 1020 10] by (cases "group_chunks full_volume 1020 10") auto
qed

theorem buffer_free_runs_correct_witness:
  "\<forall>crc. \<exists>buf'. buffer_free_runs crc full_volume [(1020, 10), (5, 1)] 0 BlockBuffer_new = Ok (11, buf') \<and> accounted full_volume buf' \<and>
     \<not> in_use full_volume buf' 1025 \<and> \<not> in_use full_volume buf' 5 \<and> in_use full_volume buf' 1030"
proof
  fix crc
  let ?runs = "[(1020, 10), (5, 1)] :: (u64 \<times> u64) list"
  have data: "data_block full_volume b" if "1 \<le> b" "b < 2049" for b
  proof -
    have "(b - 1) div 1024 < 2" using that by (intro div_less_iff_less_mult [THEN iffD2]) auto
    then show ?thesis using that by (simp add: data_block_def)
  qed
  have used: "in_use full_volume BlockBuffer_new b" if "1 \<le> b" "b < 2049" for b
    using data [OF that] by (auto simp: data_block_def in_use_def Let_def intro!: full_block_bit)
  have runs: "runs_disjoint ?runs" "\<forall>r \<in> set ?runs. valid_run full_volume r \<and> (\<forall>b. in_run r b \<longrightarrow> in_use full_volume BlockBuffer_new b)"
    using data used by (auto simp: runs_disjoint_def valid_run_def in_run_def)
  have "blocks_per_group (fv_sb full_volume) \<noteq> 0" by simp
  from buffer_free_runs_correct [OF full_volume_ok(1,2) this full_volume_ok(3,4) runs, of crc 0]
  obtain buf' where "buffer_free_runs crc full_volume ?runs 0 BlockBuffer_new = Ok (11, buf')" "accounted full_volume buf'"
    "\<forall>b. data_block full_volume b \<longrightarrow> in_use full_volume buf' b = (in_use full_volume BlockBuffer_new b \<and> \<not> (\<exists>r \<in> set ?runs. in_run r b))" by auto
  then show "\<exists>buf'. buffer_free_runs crc full_volume ?runs 0 BlockBuffer_new = Ok (11, buf') \<and> accounted full_volume buf' \<and>
     \<not> in_use full_volume buf' 1025 \<and> \<not> in_use full_volume buf' 5 \<and> in_use full_volume buf' 1030"
    using data [of 1025] data [of 5] data [of 1030] used [of 1030] by (auto simp: in_run_def)
qed

end
