(* ===== verification/Fs_Alloc.thy ===== *)
theory Fs_Alloc
  imports Fs_Space
begin

unbundle bit_operations_syntax

text \<open>
  Allocation inside a transaction of \<open>src/fs.rs\<close>: what the planner sees of a buffer, that staging a run adds exactly its blocks to that view also in a group whose bitmap was never
  written, and that the runs a transaction is given are therefore disjoint.
\<close>

section \<open>Overridden flags\<close>

lemma bt_insert_keys: "set (map fst (bt_insert k v xs)) = insert k (set (map fst xs))"
  by (induction k v xs rule: bt_insert.induct) auto

lemma bt_insert_sorted: "sorted_wrt (<) (map fst xs) \<Longrightarrow> sorted_wrt (<) (map fst (bt_insert k v xs))"
proof (induction k v xs rule: bt_insert.induct)
  case (2 k v k' v' xs)
  show ?case
  proof (cases "k \<le> k'")
    case True
    then show ?thesis using 2(2) by (auto simp: le_less)
  next
    case False
    then show ?thesis using 2 bt_insert_keys [of k v xs] by (auto simp del: set_map)
  qed
qed simp

lemma with_flags_snoc: "with_flags ((gi, f) # cl) gs = with_flags cl (if gi < length gs then gs[gi := (gs ! gi)\<lparr>bgd_flags := f\<rparr>] else gs)"
  by (simp add: with_flags_def)

lemma with_flags_layout:
  "length (with_flags cl gs) = length gs \<and> (\<forall>g < length gs. \<exists>f. with_flags cl gs ! g = (gs ! g)\<lparr>bgd_flags := f\<rparr>)"
proof (induction cl arbitrary: gs)
  case Nil
  have "\<exists>f. gs ! g = (gs ! g)\<lparr>bgd_flags := f\<rparr>" for g by (rule exI [of _ "bgd_flags (gs ! g)"]) simp
  then show ?case by (simp add: with_flags_def)
next
  case (Cons c cl)
  obtain gi f where c: "c = (gi, f)" by (cases c)
  let ?gs = "if gi < length gs then gs[gi := (gs ! gi)\<lparr>bgd_flags := f\<rparr>] else gs"
  show ?case
    unfolding c with_flags_snoc
  proof (intro conjI allI impI)
    show "length (with_flags cl ?gs) = length gs" using Cons.IH [of ?gs] by simp
    fix g assume g: "g < length gs"
    then obtain h where "with_flags cl ?gs ! g = (?gs ! g)\<lparr>bgd_flags := h\<rparr>" using Cons.IH [of ?gs] by (auto split: if_splits)
    then show "\<exists>f. with_flags cl ?gs ! g = (gs ! g)\<lparr>bgd_flags := f\<rparr>" by (auto simp: nth_list_update)
  qed
qed

lemma length_with_flags [simp]: "length (with_flags cl gs) = length gs"
  using with_flags_layout by blast

lemma with_flags_fields [simp]:
  "g < length gs \<Longrightarrow> block_bitmap (with_flags cl gs ! g) = block_bitmap (gs ! g)"
  "g < length gs \<Longrightarrow> inode_bitmap (with_flags cl gs ! g) = inode_bitmap (gs ! g)"
  "g < length gs \<Longrightarrow> inode_table (with_flags cl gs ! g) = inode_table (gs ! g)"
  using with_flags_layout [of cl gs] by fastforce+

lemma with_flags_flags:
  "distinct (map fst cl) \<Longrightarrow> g < length gs \<Longrightarrow> bgd_flags (with_flags cl gs ! g) = (case map_of cl g of Some f \<Rightarrow> f | None \<Rightarrow> bgd_flags (gs ! g))"
proof (induction cl arbitrary: gs)
  case (Cons c cl)
  obtain gi f where c: "c = (gi, f)" by (cases c)
  have none: "map_of cl gi = None" using Cons.prems(1) c by (auto simp: map_of_eq_None_iff)
  show ?case unfolding c with_flags_snoc using Cons none c by (auto simp: nth_list_update split: option.split)
qed (simp add: with_flags_def)

lemma uninit_bitmap_with_flags [simp]: "uninit_block_bitmap sb (with_flags cl gs) gi = uninit_block_bitmap sb gs gi"
  by (simp add: uninit_block_bitmap_def uninit_group_used_ranges_def Let_def)

section \<open>The planner's view\<close>

text \<open>The cached copy of the descriptors is absent or up to date.\<close>

definition alloc_state_ok :: "bgd list \<Rightarrow> allocation_state \<Rightarrow> bool" where
  "alloc_state_ok groups st \<longleftrightarrow>
     (\<forall>(gi, f) \<in> set (cleared st). gi < length groups) \<and> (overridden st = None \<or> overridden st = Some (with_flags (cleared st) groups))"

definition planner_groups :: "fs_view \<Rightarrow> allocation_state \<Rightarrow> block_buffer \<Rightarrow> bgd list" where
  "planner_groups fs st buf = with_flags (uninit_cleared buf) (with_flags (cleared st) (fv_groups fs))"

text \<open>A bit of the bitmap the planner would search.\<close>

definition planned_bit :: "fs_view \<Rightarrow> allocation_state \<Rightarrow> block_buffer \<Rightarrow> nat \<Rightarrow> nat \<Rightarrow> bool" where
  "planned_bit fs st buf gi k \<longleftrightarrow>
     (case group_bitmap (fv_sb fs) (planner_groups fs st buf) (buffer_reader fs buf) (word_of_nat gi) of Ok bm \<Rightarrow> bit_is_set bm k | _ \<Rightarrow> False)"

definition planner_used :: "fs_view \<Rightarrow> allocation_state \<Rightarrow> block_buffer \<Rightarrow> nat \<Rightarrow> bool" where
  "planner_used fs st buf b \<longleftrightarrow> (let o1 = b - fdb_nat (fv_sb fs); bpg = bpg_nat (fv_sb fs) in planned_bit fs st buf (o1 div bpg) (o1 mod bpg))"

text \<open>The planner's flags are those the buffer's descriptors hold.\<close>

definition flags_staged :: "fs_view \<Rightarrow> allocation_state \<Rightarrow> block_buffer \<Rightarrow> bool" where
  "flags_staged fs st buf \<longleftrightarrow>
     (\<forall>gi < length (fv_groups fs). bgd_has_flag (planner_groups fs st buf ! gi) BLOCK_UNINIT \<longleftrightarrow> desc_flags fs buf gi AND BLOCK_UNINIT \<noteq> 0)"

definition volume_ok :: "fs_view \<Rightarrow> bool" where
  "volume_ok fs \<longleftrightarrow> geometry_ok (fv_sb fs) \<and> \<not> bigalloc (fv_sb fs) \<and> length (fv_groups fs) = unat (block_group_count (fv_sb fs)) \<and>
     length (fv_groups fs) < 2 ^ 31 \<and> layout_apart fs \<and> (\<forall>b. fs_read_block fs b \<noteq> Panic)"

definition alloc_inv :: "fs_view \<Rightarrow> allocation_state \<Rightarrow> block_buffer \<Rightarrow> bool" where
  "alloc_inv fs st buf \<longleftrightarrow> space_readable fs buf \<and> alloc_state_ok (fv_groups fs) st \<and> sorted_wrt (<) (map fst (uninit_cleared buf)) \<and> flags_staged fs st buf"

lemma length_planner_groups [simp]: "length (planner_groups fs st buf) = length (fv_groups fs)"
  by (simp add: planner_groups_def)

lemma allocation_groups_ok:
  assumes "alloc_state_ok groups st"
  obtains st' where "allocation_groups groups st = (Ok (with_flags (cleared st) groups), st')" "cleared st' = cleared st" "alloc_state_ok groups st'"
proof -
  let ?gs = "with_flags (cleared st) groups"
  consider "cleared st = []" | "cleared st \<noteq> []" "overridden st = Some ?gs" | "cleared st \<noteq> []" "overridden st = None" using assms by (auto simp: alloc_state_ok_def)
  then show ?thesis
  proof cases
    case 1
    then show ?thesis using assms by (intro that [of st]) (simp_all add: allocation_groups_def with_flags_def)
  next
    case 2
    then show ?thesis using assms by (intro that [of st]) (simp_all add: allocation_groups_def)
  next
    case 3
    then show ?thesis using assms by (intro that [of "st\<lparr>overridden := Some ?gs\<rparr>"]) (auto simp: allocation_groups_def alloc_state_ok_def Let_def)
  qed
qed

lemma planned_bit_eq:
  assumes "gi < length (fv_groups fs)" "length (fv_groups fs) < 2 ^ 31" "flags_staged fs st buf"
  shows "planned_bit fs st buf gi k =
    (if desc_flags fs buf gi AND BLOCK_UNINIT \<noteq> 0 then bit_is_set (uninit_block_bitmap (fv_sb fs) (fv_groups fs) (word_of_nat gi)) k else block_bit fs buf gi k)"
proof -
  have u: "unat (word_of_nat gi :: u32) = gi" using assms(1,2) by (simp add: unsigned_of_nat take_bit_nat_eq_self)
  have f: "bgd_has_flag (planner_groups fs st buf ! gi) BLOCK_UNINIT \<longleftrightarrow> desc_flags fs buf gi AND BLOCK_UNINIT \<noteq> 0" using assms(1,3) by (simp add: flags_staged_def)
  have "block_bitmap (planner_groups fs st buf ! gi) = block_bitmap (fv_groups fs ! gi)" using assms(1) by (simp add: planner_groups_def)
  moreover have "uninit_block_bitmap (fv_sb fs) (planner_groups fs st buf) (word_of_nat gi) = uninit_block_bitmap (fv_sb fs) (fv_groups fs) (word_of_nat gi)"
    by (simp add: planner_groups_def)
  ultimately show ?thesis using f by (simp add: planned_bit_def group_bitmap_def Let_def u block_bit_def)
qed

section \<open>Staging a run\<close>

text \<open>A run inside one group.\<close>

definition one_group_run :: "fs_view \<Rightarrow> u64 \<Rightarrow> u64 \<Rightarrow> nat \<Rightarrow> bool" where
  "one_group_run fs start n gi \<longleftrightarrow> gi < length (fv_groups fs) \<and> fdb_nat (fv_sb fs) + gi * bpg_nat (fv_sb fs) \<le> unat start \<and>
     unat start + unat n \<le> fdb_nat (fv_sb fs) + gi * bpg_nat (fv_sb fs) + bpg_nat (fv_sb fs) \<and> 0 < unat n"

lemma run_location:
  fixes fs :: fs_view
  defines "bpg \<equiv> ucast (blocks_per_group (fv_sb fs)) :: u64" and "fd \<equiv> ucast (first_data_block (fv_sb fs)) :: u64"
  assumes "one_group_run fs start n gi"
  shows "unat ((start - fd) div bpg) = gi" "unat (ucast (start - (fd + word_of_nat gi * bpg)) :: u32) = unat start - (fdb_nat (fv_sb fs) + gi * bpg_nat (fv_sb fs))"
proof -
  let ?b = "bpg_nat (fv_sb fs)" and ?f = "fdb_nat (fv_sb fs)"
  have r: "?f + gi * ?b \<le> unat start" "unat start < ?f + gi * ?b + ?b" using assms(3) by (auto simp: one_group_run_def)
  then have b: "0 < ?b" by linarith
  have "unat (start - fd) = unat start - ?f" using r by (subst unat_sub) (auto simp: fd_def word_le_nat_alt)
  moreover have "(unat start - ?f) div ?b = gi"
  proof -
    have "unat start - ?f = gi * ?b + (unat start - ?f - gi * ?b)" "unat start - ?f - gi * ?b < ?b" using r by linarith+
    then show ?thesis by (metis add.commute b div_mult_self3 div_less add_0 less_not_refl2)
  qed
  ultimately show "unat ((start - fd) div bpg) = gi" by (simp add: unat_div bpg_def)
  have "gi * ?b < 2 ^ 64" "?f + gi * ?b < 2 ^ 64" using r unat_lt2p [of start] by simp_all
  moreover have "gi \<le> gi * ?b" using b by simp
  ultimately have "gi < 2 ^ 64" by linarith
  then have g: "unat (word_of_nat gi :: u64) = gi" by (simp add: unat_of_nat)
  have "unat (word_of_nat gi * bpg) = gi * ?b" using g \<open>gi * ?b < 2 ^ 64\<close> by (subst unat_mult_no_wrap) (simp_all add: bpg_def)
  then have gs: "unat (fd + word_of_nat gi * bpg) = ?f + gi * ?b" using \<open>?f + gi * ?b < 2 ^ 64\<close> by (subst unat_add_no_wrap) (simp_all add: fd_def)
  then have d: "unat (start - (fd + word_of_nat gi * bpg)) = unat start - (?f + gi * ?b)" using r by (subst unat_sub) (auto simp: word_le_nat_alt)
  have "unat start - (?f + gi * ?b) < 2 ^ 32" using r unat_lt2p [of "blocks_per_group (fv_sb fs)"] by simp
  then show "unat (ucast (start - (fd + word_of_nat gi * bpg)) :: u32) = unat start - (?f + gi * ?b)" using d by (simp add: unsigned_ucast_eq take_bit_nat_eq_self)
qed

lemma bitmap_edit_flags:
  assumes "layout_apart fs" "gi < length (fv_groups fs)" "gj < length (fv_groups fs)"
    "buffer_edit fs (block_bitmap (fv_groups fs ! gi)) f buf = Ok buf'"
  shows "desc_flags fs buf' gj = desc_flags fs buf gj"
proof -
  obtain bs buf1 bs' where g: "buffer_get fs (block_bitmap (fv_groups fs ! gi)) buf = Ok (bs, buf1)" "buf' = buffer_put (block_bitmap (fv_groups fs ! gi)) bs' buf1"
    using assms(4) by (auto simp: buffer_edit_def outcome_simps)
  have "buffer_reader fs buf' d = buffer_reader fs buf d" if "d \<noteq> block_bitmap (fv_groups fs ! gi)" for d
    using g that by (auto simp: buffer_get_def outcome_simps split: option.splits)
  then show ?thesis using layout_apartD(1) [OF assms(1-3)] by (simp add: desc_flags_def)
qed

lemma put_prefix_bits:
  assumes "k < 8 * length a" "k < 8 * length bm"
  shows "bit_is_set (put 0 (take (min (length a) (length bm)) a) bm) k = bit_is_set a k"
proof -
  have "k div 8 < length a" "k div 8 < length bm" using assms by auto
  then show ?thesis by (simp add: bit_is_set_def put_def nth_append)
qed

text \<open>The flags after one group's override changes.\<close>

lemma planner_groups_insert:
  assumes "sorted_wrt (<) (map fst (uninit_cleared buf))" "uninit_cleared buf' = bt_insert gi left (uninit_cleared buf)" "gj < length (fv_groups fs)"
  shows "bgd_flags (planner_groups fs st buf' ! gj) = (if gj = gi then left else bgd_flags (planner_groups fs st buf ! gj))"
proof -
  have d: "distinct (map fst (uninit_cleared buf))" "distinct (map fst (bt_insert gi left (uninit_cleared buf)))"
    using assms(1) bt_insert_sorted [OF assms(1)] strict_sorted_iff by blast+
  then show ?thesis unfolding planner_groups_def assms(2) using assms(3) by (subst (1 2) with_flags_flags) auto
qed

lemma mark_run_view:
  assumes "volume_ok fs" "alloc_inv fs st buf" "one_group_run fs start n gi"
  shows "\<exists>buf'. buffer_mark_block_run_used crc fs start n buf = Ok buf' \<and> alloc_inv fs st buf' \<and>
    (\<forall>gj < length (fv_groups fs). \<forall>k < bpg_nat (fv_sb fs). planned_bit fs st buf' gj k \<longleftrightarrow>
       planned_bit fs st buf gj k \<or> gj = gi \<and> in_run (start, n) (fdb_nat (fv_sb fs) + gi * bpg_nat (fv_sb fs) + k))"
proof -
  let ?sb = "fv_sb fs" and ?ng = "length (fv_groups fs)"
  let ?b = "bpg_nat ?sb" and ?base = "fdb_nat ?sb + gi * bpg_nat ?sb"
  let ?s = "unat start - ?base" and ?bb = "block_bitmap (fv_groups fs ! gi)" and ?was = "desc_flags fs buf gi AND BLOCK_UNINIT \<noteq> 0"
  let ?impl = "uninit_block_bitmap ?sb (fv_groups fs) (word_of_nat gi)"
  have lay: "layout_apart fs" and few: "?ng < 2 ^ 31" and cap: "?b \<le> 8 * bs_nat ?sb" and bpos: "0 < ?b" using assms(1) by (auto simp: volume_ok_def geometry_ok_def)
  have inv: "space_readable fs buf" "alloc_state_ok (fv_groups fs) st" "sorted_wrt (<) (map fst (uninit_cleared buf))" "flags_staged fs st buf"
    using assms(2) by (auto simp: alloc_inv_def)
  have run: "gi < ?ng" "?base \<le> unat start" "unat start + unat n \<le> ?base + ?b" using assms(3) by (auto simp: one_group_run_def)
  obtain buf1 left where c: "clear_bgd_uninit_flag_if_set fs gi UninitBlock buf = Ok (?was, buf1)" "space_readable fs buf1"
    "\<And>gj k. gj < ?ng \<Longrightarrow> block_bit fs buf1 gj k = block_bit fs buf gj k"
    "\<And>gj. gj < ?ng \<Longrightarrow> desc_flags fs buf1 gj = (if gj = gi then desc_flags fs buf gj AND NOT BLOCK_UNINIT else desc_flags fs buf gj)"
    "uninit_cleared buf1 = (if ?was then bt_insert gi left (uninit_cleared buf) else uninit_cleared buf)" "left AND BLOCK_UNINIT = 0"
    by (rule clear_flag_view [OF lay inv(1) run(1)]) blast
  obtain bm where bm: "buffer_reader fs buf1 ?bb = Ok bm" "?b \<le> 8 * length bm" using c(2) run(1) by (auto simp: space_readable_def)
  define start_bm where "start_bm = (\<lambda>bm. if ?was then put 0 (take (min (length ?impl) (length bm)) ?impl) bm else bm)"
  define f where "f = (\<lambda>bm. Ok (set_bits ?s (unat n) (start_bm bm)) :: bytes result)"
  have len: "length (start_bm bm) = length bm" by (simp add: start_bm_def put_def)
  obtain buf2 where e: "buffer_edit fs ?bb f buf1 = Ok buf2" "space_readable fs buf2" "uninit_cleared buf2 = uninit_cleared buf1"
    "\<And>gj k. gj < ?ng \<Longrightarrow> block_bit fs buf2 gj k = (if gj = gi then bit_is_set (set_bits ?s (unat n) (start_bm bm)) k else block_bit fs buf1 gj k)"
    by (rule bitmap_edit_view [OF lay c(2) run(1) bm(1), of f "set_bits ?s (unat n) (start_bm bm)"]) (use set_bits_iff len f_def in auto)
  obtain buf' where r: "buffer_refresh_bitmap_csum crc fs gi False buf2 = Ok buf'" "space_readable fs buf'" "uninit_cleared buf' = uninit_cleared buf2"
    "\<And>gj k. gj < ?ng \<Longrightarrow> block_bit fs buf' gj k = block_bit fs buf2 gj k" "\<And>gj. gj < ?ng \<Longrightarrow> desc_flags fs buf' gj = desc_flags fs buf2 gj"
    by (rule refresh_block_csum_view [OF lay e(2) run(1)]) blast
  have ok: "buffer_mark_block_run_used crc fs start n buf = Ok buf'"
  proof -
    have "unat (ucast (blocks_per_group ?sb) :: u64) = ?b" by simp
    then have z: "ucast (blocks_per_group ?sb) \<noteq> (0 :: u64)" using bpos by (metis unat_0 less_irrefl)
    show ?thesis
      using z run(1) c(1) e(1) r(1) unfolding buffer_mark_block_run_used_def Let_def run_location [OF assms(3)] f_def start_bm_def by simp
  qed
  have fl: "desc_flags fs buf' gj = (if gj = gi then desc_flags fs buf gj AND NOT BLOCK_UNINIT else desc_flags fs buf gj)" if "gj < ?ng" for gj
    using r(5) [OF that] bitmap_edit_flags [OF lay run(1) that e(1)] c(4) [OF that] by simp
  have u': "uninit_cleared buf' = uninit_cleared buf1" using r(3) e(3) by simp
  have staged: "flags_staged fs st buf'"
    unfolding flags_staged_def
  proof (intro allI impI)
    fix gj assume g: "gj < ?ng"
    have old: "bgd_has_flag (planner_groups fs st buf ! gj) BLOCK_UNINIT \<longleftrightarrow> desc_flags fs buf gj AND BLOCK_UNINIT \<noteq> 0" using inv(4) g by (simp add: flags_staged_def)
    have "(w AND NOT BLOCK_UNINIT) AND BLOCK_UNINIT = 0" for w by (rule bit_word_eqI) (auto simp: bit_simps)
    then show "bgd_has_flag (planner_groups fs st buf' ! gj) BLOCK_UNINIT \<longleftrightarrow> desc_flags fs buf' gj AND BLOCK_UNINIT \<noteq> 0"
      using planner_groups_insert [OF inv(3), of buf' gi left gj fs st] old fl [OF g] c(5,6) u' g
      by (cases ?was) (auto simp: bgd_has_flag_def planner_groups_def)
  qed
  have inv': "alloc_inv fs st buf'"
    unfolding alloc_inv_def using r(2) inv(2,3) staged u' c(5) bt_insert_sorted [OF inv(3)] by simp
  have "planned_bit fs st buf' gj k \<longleftrightarrow> planned_bit fs st buf gj k \<or> gj = gi \<and> in_run (start, n) (?base + k)" if g: "gj < ?ng" "k < ?b" for gj k
  proof (cases "gj = gi")
    case False
    then show ?thesis using g fl c(3) e(4) r(4) by (simp add: planned_bit_eq [OF g(1) few staged] planned_bit_eq [OF g(1) few inv(4)])
  next
    case True
    have k: "k < 8 * length bm" "k < 8 * length ?impl" "k div 8 < length bm" using g(2) bm(2) cap by auto
    have "desc_flags fs buf' gi AND BLOCK_UNINIT = 0" using fl [OF run(1)] by (auto simp: and.assoc)
    then have "planned_bit fs st buf' gi k \<longleftrightarrow> bit_is_set (set_bits ?s (unat n) (start_bm bm)) k"
      using planned_bit_eq [OF run(1) few staged] e(4) r(4) run(1) by simp
    also have "\<dots> \<longleftrightarrow> bit_is_set (start_bm bm) k \<or> in_run (start, n) (?base + k)"
      using set_bits_iff [of ?s "unat n" "start_bm bm" k] len k(3) run(2) by (auto simp: in_run_def)
    also have "bit_is_set (start_bm bm) k \<longleftrightarrow> planned_bit fs st buf gi k"
      using put_prefix_bits [OF k(2,1)] c(3) [OF run(1), of k] bm(1) by (auto simp: planned_bit_eq [OF run(1) few inv(4)] start_bm_def block_bit_def)
    finally show ?thesis using True by simp
  qed
  then show ?thesis using ok inv' by blast
qed

lemma mark_run_used_view:
  assumes "volume_ok fs" "alloc_inv fs st buf" "one_group_run fs start n gi"
  obtains buf' where "buffer_mark_block_run_used crc fs start n buf = Ok buf'" "alloc_inv fs st buf'"
    "\<And>b. data_block fs b \<Longrightarrow> planner_used fs st buf' b \<longleftrightarrow> planner_used fs st buf b \<or> in_run (start, n) b"
proof -
  let ?sb = "fv_sb fs"
  let ?base = "fdb_nat ?sb + gi * bpg_nat ?sb"
  obtain buf' where m: "buffer_mark_block_run_used crc fs start n buf = Ok buf'" "alloc_inv fs st buf'"
    "\<forall>gj < length (fv_groups fs). \<forall>k < bpg_nat ?sb. planned_bit fs st buf' gj k \<longleftrightarrow> planned_bit fs st buf gj k \<or> gj = gi \<and> in_run (start, n) (?base + k)"
    using mark_run_view [OF assms] by blast
  have "planner_used fs st buf' b \<longleftrightarrow> planner_used fs st buf b \<or> in_run (start, n) b" if b: "data_block fs b" for b
  proof -
    define gj k where "gj = (b - fdb_nat ?sb) div bpg_nat ?sb" and "k = (b - fdb_nat ?sb) mod bpg_nat ?sb"
    have g: "gj < length (fv_groups fs)" "k < bpg_nat ?sb" "b = fdb_nat ?sb + gj * bpg_nat ?sb + k"
      using b by (auto simp: data_block_def Let_def gj_def k_def)
    have "gj = gi" if "in_run (start, n) b"
    proof -
      have i: "b - fdb_nat ?sb - gi * bpg_nat ?sb < bpg_nat ?sb" "b - fdb_nat ?sb = (b - fdb_nat ?sb - gi * bpg_nat ?sb) + gi * bpg_nat ?sb"
        using that assms(3) by (auto simp: in_run_def one_group_run_def)
      then have "((b - fdb_nat ?sb - gi * bpg_nat ?sb) + gi * bpg_nat ?sb) div bpg_nat ?sb = gi" by simp
      then show ?thesis using i(2) unfolding gj_def by metis
    qed
    then show ?thesis using m(3) g by (auto simp: planner_used_def Let_def simp flip: gj_def k_def)
  qed
  then show ?thesis using that m(1,2) by blast
qed

lemma buffer_reader_no_panic: "volume_ok fs \<Longrightarrow> buffer_reader fs buf b \<noteq> Panic"
  by (simp add: buffer_reader_def volume_ok_def split: option.split)

lemma buffered_plan_sound:
  assumes "volume_ok fs" "alloc_inv fs st buf" "plan_buffered_block_allocation_excluding fs buf n hint reserved st = (Ok p, st')"
  obtains gi where "one_group_run fs (first_block p) (ucast (plan_count p)) gi" "alloc_inv fs st' buf" "\<And>buf. planner_used fs st' buf = planner_used fs st buf"
    "\<And>b. b \<in> plan_blocks p \<Longrightarrow> data_block fs b \<and> \<not> planner_used fs st buf b \<and> b \<notin> unat ` set reserved" "plan_count p = n"
proof -
  let ?sb = "fv_sb fs" and ?gs = "planner_groups fs st buf" and ?r = "buffer_reader fs buf"
  have geo: "geometry_ok ?sb" "length ?gs = unat (block_group_count ?sb)" "length ?gs < 2 ^ 31" using assms(1) by (auto simp: volume_ok_def)
  have "alloc_state_ok (fv_groups fs) st" using assms(2) by (simp add: alloc_inv_def)
  then obtain st1 where a: "allocation_groups (fv_groups fs) st = (Ok (with_flags (cleared st) (fv_groups fs)), st1)" "cleared st1 = cleared st" "alloc_state_ok (fv_groups fs) st1"
    by (rule allocation_groups_ok)
  have p: "plan_block_allocation_excluding ?sb ?gs n hint reserved ?r = Ok p" and st': "st' = st1"
    using assms(3) a(1) by (auto simp: plan_buffered_block_allocation_excluding_def planner_groups_def)
  have pg: "planner_groups fs st' = planner_groups fs st" using a(2) st' by (simp add: planner_groups_def fun_eq_iff)
  have view: "planner_used fs st' buf = planner_used fs st buf" for buf using pg by (simp add: planner_used_def planned_bit_def Let_def fun_eq_iff)
  have inv: "alloc_inv fs st' buf" using assms(2) a(3) st' pg by (simp add: alloc_inv_def flags_staged_def)
  have n: "n \<noteq> 0" using p by (auto simp: plan_block_allocation_excluding_def Let_def)
  have "\<forall>b. ?r b \<noteq> Panic" using buffer_reader_no_panic [OF assms(1)] by blast
  from plan_excluding_sound [OF geo this n, where hint = hint and reserved = reserved] obtain gi bm where s: "unat gi < length ?gs" "group_bitmap ?sb ?gs ?r gi = Ok bm" "block_plan_sound ?sb ?gs n reserved gi bm p"
    unfolding p by auto
  let ?base = "group_base ?sb gi"
  have sub: "plan_blocks p \<subseteq> group_blocks ?sb (unat gi)" "plan_count p = n" using s(3) by (auto simp: block_plan_sound_def)
  have pos: "0 < unat n" using n by (simp add: unat_gt_0)
  have bpg: "0 < bpg_nat ?sb" using geo(1) by (simp add: geometry_ok_def)
  have one: "one_group_run fs (first_block p) (ucast (plan_count p)) (unat gi)"
  proof -
    let ?f = "unat (first_block p)"
    have "?f \<in> plan_blocks p" "?f + unat n - 1 \<in> plan_blocks p" using pos sub(2) by (auto simp: plan_blocks_def)
    then have "?base \<le> ?f" "?f + unat n - 1 < ?base + bpg_nat ?sb" using sub(1) by (auto simp: group_blocks_def)
    then show ?thesis using s(1) pos sub(2) by (simp add: one_group_run_def)
  qed
  have "data_block fs b \<and> \<not> planner_used fs st buf b \<and> b \<notin> unat ` set reserved" if b: "b \<in> plan_blocks p" for b
  proof -
    have r: "?base \<le> b" "b < ?base + bpg_nat ?sb" "b < unat (blocks_count ?sb)" using sub(1) b by (auto simp: group_blocks_def)
    have "b - fdb_nat ?sb = (b - ?base) + unat gi * bpg_nat ?sb" "b - ?base < bpg_nat ?sb" using r by auto
    then have d: "(b - fdb_nat ?sb) div bpg_nat ?sb = unat gi" "(b - fdb_nat ?sb) mod bpg_nat ?sb = b - ?base" by simp_all
    have "\<not> bit_is_set bm (b - ?base)" "b \<notin> unat ` set reserved" using s(3) b by (auto simp: block_plan_sound_def)
    then show ?thesis using d s(1,2) r bpg by (simp add: data_block_def planner_used_def planned_bit_def Let_def)
  qed
  then show ?thesis using that [OF one inv view] sub(2) by blast
qed

section \<open>The allocations of one transaction\<close>

text \<open>
  What the operations of \<open>fs.rs\<close> do in their loops: plan a run against the buffer, with any hint and any reservations, and stage it as used.
\<close>

inductive allocates :: "crc_fn \<Rightarrow> fs_view \<Rightarrow> allocation_state \<times> block_buffer \<Rightarrow> block_allocation_plan list \<Rightarrow> allocation_state \<times> block_buffer \<Rightarrow> bool"
  for crc fs s0 where
  none: "allocates crc fs s0 [] s0"
| plan: "allocates crc fs s0 ps (st, buf) \<Longrightarrow> plan_buffered_block_allocation_excluding fs buf n hint reserved st = (Ok p, st') \<Longrightarrow>
    buffer_mark_block_run_used crc fs (first_block p) (ucast (plan_count p)) buf = Ok buf' \<Longrightarrow> allocates crc fs s0 (p # ps) (st', buf')"

lemma in_run_plan: "in_run (first_block p, ucast (plan_count p)) b \<longleftrightarrow> b \<in> plan_blocks p"
  by (simp add: in_run_def plan_blocks_def)

lemma stage_plan:
  assumes "volume_ok fs" "alloc_inv fs st buf" "plan_buffered_block_allocation_excluding fs buf n hint reserved st = (Ok p, st')"
  shows "\<exists>buf'. buffer_mark_block_run_used crc fs (first_block p) (ucast (plan_count p)) buf = Ok buf' \<and> alloc_inv fs st' buf' \<and>
    (\<forall>b. data_block fs b \<longrightarrow> planner_used fs st' buf' b = (planner_used fs st buf b \<or> b \<in> plan_blocks p)) \<and>
    (\<forall>b \<in> plan_blocks p. data_block fs b \<and> \<not> planner_used fs st buf b)"
proof -
  obtain gi where g: "one_group_run fs (first_block p) (ucast (plan_count p)) gi" "alloc_inv fs st' buf" "\<And>buf. planner_used fs st' buf = planner_used fs st buf"
    "\<And>b. b \<in> plan_blocks p \<Longrightarrow> data_block fs b \<and> \<not> planner_used fs st buf b \<and> b \<notin> unat ` set reserved"
    by (rule buffered_plan_sound [OF assms]) blast
  obtain buf' where "buffer_mark_block_run_used crc fs (first_block p) (ucast (plan_count p)) buf = Ok buf'" "alloc_inv fs st' buf'"
    "\<And>b. data_block fs b \<Longrightarrow> planner_used fs st' buf' b \<longleftrightarrow> planner_used fs st' buf b \<or> in_run (first_block p, ucast (plan_count p)) b"
    by (rule mark_run_used_view [OF assms(1) g(2,1)]) blast
  then show ?thesis using g(3,4) by (auto simp: in_run_plan)
qed

lemma allocates_inv:
  assumes "allocates crc fs (st, buf) ps s" "volume_ok fs" "alloc_inv fs st buf"
  shows "alloc_inv fs (fst s) (snd s) \<and> sorted_wrt (\<lambda>p q. plan_blocks p \<inter> plan_blocks q = {}) ps \<and>
    (\<forall>b \<in> \<Union> (plan_blocks ` set ps). data_block fs b \<and> \<not> planner_used fs st buf b) \<and>
    (\<forall>b. data_block fs b \<longrightarrow> planner_used fs (fst s) (snd s) b = (planner_used fs st buf b \<or> b \<in> \<Union> (plan_blocks ` set ps)))"
  using assms
proof (induction rule: allocates.induct)
  case (plan ps st1 buf1 n hint reserved p st' buf')
  then have ih: "alloc_inv fs st1 buf1" "sorted_wrt (\<lambda>p q. plan_blocks p \<inter> plan_blocks q = {}) ps"
    "\<forall>b \<in> \<Union> (plan_blocks ` set ps). data_block fs b \<and> \<not> planner_used fs st buf b"
    "\<forall>b. data_block fs b \<longrightarrow> planner_used fs st1 buf1 b = (planner_used fs st buf b \<or> b \<in> \<Union> (plan_blocks ` set ps))" by simp_all
  have new: "alloc_inv fs st' buf'" "\<forall>b. data_block fs b \<longrightarrow> planner_used fs st' buf' b = (planner_used fs st1 buf1 b \<or> b \<in> plan_blocks p)"
    "\<forall>b \<in> plan_blocks p. data_block fs b \<and> \<not> planner_used fs st1 buf1 b"
    using stage_plan [OF plan.prems(1) ih(1) plan.hyps(2), of crc] plan.hyps(3) by auto
  have "plan_blocks p \<inter> plan_blocks q = {}" if "q \<in> set ps" for q using new(3) ih(4) that by blast
  then show ?case using ih new by auto
qed auto

text \<open>
  C2. The allocations of a transaction (\<open>plan_buffered_block_allocation_excluding\<close>, \<open>buffer_mark_block_run_used\<close>, any number of them in turn, with any hints and reservations): the runs they are
  given are pairwise disjoint and were all free when the transaction began, also in groups whose BLOCK\_UNINIT flag the transaction itself takes down, so that
  no block is handed out twice; the planner's view of the volume afterwards is the one before with exactly those runs added; and a plan can always be staged.
\<close>

theorem transaction_allocations_disjoint:
  assumes "volume_ok fs" "alloc_inv fs st buf" "allocates crc fs (st, buf) ps (st', buf')"
  shows "sorted_wrt (\<lambda>p q. plan_blocks p \<inter> plan_blocks q = {}) ps \<and>
    (\<forall>p \<in> set ps. \<forall>b \<in> plan_blocks p. data_block fs b \<and> \<not> planner_used fs st buf b) \<and>
    (\<forall>b. data_block fs b \<longrightarrow> planner_used fs st' buf' b = (planner_used fs st buf b \<or> (\<exists>p \<in> set ps. b \<in> plan_blocks p))) \<and>
    (\<forall>n hint reserved p st''. plan_buffered_block_allocation_excluding fs buf' n hint reserved st' = (Ok p, st'') \<longrightarrow>
       (\<exists>buf''. allocates crc fs (st, buf) (p # ps) (st'', buf'')))"
proof (intro conjI allI impI)
  note inv = allocates_inv [OF assms(3,1,2), unfolded fst_conv snd_conv]
  show "sorted_wrt (\<lambda>p q. plan_blocks p \<inter> plan_blocks q = {}) ps" using inv by blast
  show "\<forall>p \<in> set ps. \<forall>b \<in> plan_blocks p. data_block fs b \<and> \<not> planner_used fs st buf b" using inv by blast
  fix b assume "data_block fs b"
  then show "planner_used fs st' buf' b = (planner_used fs st buf b \<or> (\<exists>p \<in> set ps. b \<in> plan_blocks p))" using inv by blast
next
  fix n hint reserved p st''
  assume p: "plan_buffered_block_allocation_excluding fs buf' n hint reserved st' = (Ok p, st'')"
  have "alloc_inv fs st' buf'" using allocates_inv [OF assms(3,1,2)] by simp
  then obtain buf'' where "buffer_mark_block_run_used crc fs (first_block p) (ucast (plan_count p)) buf' = Ok buf''" using stage_plan [OF assms(1) _ p] by blast
  then show "\<exists>buf''. allocates crc fs (st, buf) (p # ps) (st'', buf'')" using allocates.plan [OF assms(3) p] by blast
qed

text \<open>A volume of two empty groups on a device of zeros: a first run of two blocks is planned and staged.\<close>

definition empty_volume :: fs_view where
  "empty_volume = \<lparr>fv_sb = sized 256, fv_groups = roomy_groups, fv_csum = \<lparr>seed = 0, enabled = False\<rparr>, fv_dev = (\<lambda>off n. Ok (replicate n 0)), fv_dev_size = 2098176\<rparr>"

definition no_overrides :: allocation_state where
  "no_overrides = \<lparr>cleared = [], overridden = None\<rparr>"

lemma empty_volume_reads: "unat b < 4096 \<Longrightarrow> buffer_reader empty_volume BlockBuffer_new b = Ok (replicate 1024 0)"
  by (simp add: buffer_reader_def BlockBuffer_new_def fs_read_block_def empty_volume_def checked_mul_def)

lemma empty_volume_desc: "desc_at empty_volume 0 = (2, 0)" "desc_at empty_volume (Suc 0) = (2, 32)"
  using sized_locations [of 256] by (simp_all add: desc_at_def empty_volume_def)

lemma empty_volume_ok: "volume_ok empty_volume"
proof -
  have "layout_apart empty_volume"
    using empty_volume_desc by (simp add: layout_apart_def empty_volume_def roomy_groups_nth less_two example_bgd_def)
  then show ?thesis using sized_geometry [of 256] by (simp add: volume_ok_def empty_volume_def roomy_groups_nth fs_read_block_def bigalloc_def has_bits_def outcome_simps ok_or_def split: option.split)
qed

lemma empty_volume_inv: "alloc_inv empty_volume no_overrides BlockBuffer_new"
proof -
  have z: "get_le16 k (replicate 1024 0) AND BLOCK_UNINIT = 0" if "k + 2 \<le> 1024" for k using that by (simp add: get_le16_def slice_def u16_from_le_def numeral_2_eq_2)
  have "space_readable empty_volume BlockBuffer_new"
    using empty_volume_desc empty_volume_reads by (simp add: space_readable_def slot_fits_def empty_volume_def roomy_groups_nth less_two example_bgd_def)
  moreover have "flags_staged empty_volume no_overrides BlockBuffer_new"
    using empty_volume_desc empty_volume_reads z by (simp add: flags_staged_def planner_groups_def with_flags_def no_overrides_def BlockBuffer_new_def desc_flags_def bgd_has_flag_def empty_volume_def roomy_groups_nth less_two example_bgd_def)
  ultimately show ?thesis by (simp add: alloc_inv_def alloc_state_ok_def no_overrides_def BlockBuffer_new_def)
qed

lemma empty_volume_plan:
  "plan_buffered_block_allocation_excluding empty_volume BlockBuffer_new 2 1 [1025] no_overrides = (Ok (block_plan (sized 256) (roomy_groups ! 1) 1 2 1), no_overrides)"
proof -
  have "group_bitmap (sized 256) roomy_groups (buffer_reader empty_volume BlockBuffer_new) 1 = Ok (replicate 1024 0)"
    using empty_volume_reads [of 1030] by (simp add: group_bitmap_def Let_def bgd_has_flag_def roomy_groups_nth example_bgd_def)
  then have "plan_block_allocation_excluding (sized 256) roomy_groups 2 1 [1025] (buffer_reader empty_volume BlockBuffer_new) = Ok (block_plan (sized 256) (roomy_groups ! 1) 1 2 1)"
    using roomy_run [of 256]
    by (simp add: plan_block_allocation_excluding_def Let_def roomy_groups_nth(1) two_groups_order blocks_in_group_sized
        saturating_sub_def roomy_groups_nth(3) example_bgd_def word_le_nat_alt word_less_nat_alt min_def)
  then show ?thesis
    by (simp add: plan_buffered_block_allocation_excluding_def allocation_groups_def no_overrides_def BlockBuffer_new_def with_flags_def empty_volume_def)
qed

theorem transaction_allocations_disjoint_witness:
  "\<forall>crc. \<exists>p buf'. allocates crc empty_volume (no_overrides, BlockBuffer_new) [p] (no_overrides, buf') \<and> plan_blocks p = {1026, 1027} \<and>
     \<not> planner_used empty_volume no_overrides BlockBuffer_new 1026 \<and> planner_used empty_volume no_overrides buf' 1026 \<and> planner_used empty_volume no_overrides buf' 1027"
proof
  fix crc
  let ?p = "block_plan (sized 256) (roomy_groups ! 1) 1 2 1"
  note hyp = empty_volume_ok empty_volume_inv
  have "unat (first_block ?p) = 1026" "plan_count ?p = 2" by (simp_all add: block_plan_def group_first_block_def)
  then have bl: "plan_blocks ?p = {1026, 1027}" by (auto simp: plan_blocks_def)
  obtain buf' where a: "allocates crc empty_volume (no_overrides, BlockBuffer_new) [?p] (no_overrides, buf')"
    using transaction_allocations_disjoint [OF hyp allocates.none, of crc] empty_volume_plan by blast
  note t = transaction_allocations_disjoint [OF hyp a]
  have d: "data_block empty_volume 1026 \<and> \<not> planner_used empty_volume no_overrides BlockBuffer_new 1026" "data_block empty_volume 1027" using t bl by auto
  then have "planner_used empty_volume no_overrides buf' 1026" "planner_used empty_volume no_overrides buf' 1027" using t bl by auto
  then show "\<exists>p buf'. allocates crc empty_volume (no_overrides, BlockBuffer_new) [p] (no_overrides, buf') \<and> plan_blocks p = {1026, 1027} \<and>
     \<not> planner_used empty_volume no_overrides BlockBuffer_new 1026 \<and> planner_used empty_volume no_overrides buf' 1026 \<and> planner_used empty_volume no_overrides buf' 1027"
    using a bl d(1) by blast
qed

end
