(* ===== verification/Hash.thy ===== *)
theory Hash
  imports Prelude
begin

unbundle bit_operations_syntax

text \<open>
  The name hashes of indexed directories (\<open>src/hash.rs\<close>): the legacy recurrence, half MD4 and TEA, each over sign- or zero-extended
  bytes. Fixed arrays of words are lists; every index the code uses is below their length.
\<close>

section \<open>Versions and byte widening\<close>

datatype hash_version = Legacy | HalfMd4 | Tea | LegacyUnsigned | HalfMd4Unsigned | TeaUnsigned

definition HashVersion_from_u8 :: "u8 \<Rightarrow> hash_version option" where
  "HashVersion_from_u8 v = (if v = 0 then Some Legacy else if v = 1 then Some HalfMd4 else if v = 2 then Some Tea
     else if v = 3 then Some LegacyUnsigned else if v = 4 then Some HalfMd4Unsigned else if v = 5 then Some TeaUnsigned else None)"

fun is_unsigned :: "hash_version \<Rightarrow> bool" where
  "is_unsigned LegacyUnsigned = True"
| "is_unsigned HalfMd4Unsigned = True"
| "is_unsigned TeaUnsigned = True"
| "is_unsigned _ = False"

datatype widening = SignExtend | ZeroExtend

definition byte_widening :: "hash_version \<Rightarrow> widening" where
  "byte_widening v = (if is_unsigned v then ZeroExtend else SignExtend)"

fun widen :: "widening \<Rightarrow> u8 \<Rightarrow> u32" where
  "widen SignExtend b = scast b"
| "widen ZeroExtend b = ucast b"

record name_hash =
  major :: u32
  minor :: u32

section \<open>Feeding a name in blocks of words\<close>

definition fill_word :: "nat \<Rightarrow> u32" where
  "fill_word remaining = (let r = word_of_nat remaining in r OR push_bit 8 r OR push_bit 16 r OR push_bit 24 r)"

definition pack :: "widening \<Rightarrow> bytes \<Rightarrow> u32 \<Rightarrow> u32" where
  "pack wd bs fill = foldl (\<lambda>word b. push_bit 8 word + widen wd b) fill bs"

text \<open>The blocks of \<open>n\<close> words the iterator yields; \<open>n\<close> is 8 for half MD4 and 4 for TEA.\<close>

function feed :: "nat \<Rightarrow> widening \<Rightarrow> bytes \<Rightarrow> u32 list list" where
  "feed n wd rest =
     (if rest = [] \<or> n = 0 then []
      else let fill = fill_word (length rest); k = min (length rest) (4 * n);
               ws = map (\<lambda>bs. pack wd bs fill) (chunks 4 (take k rest))
           in (ws @ replicate (n - length ws) fill) # feed n wd (drop k rest))"
  by pat_completeness auto
termination
  by (relation "measure (\<lambda>(n, wd, rest). length rest)") auto

declare feed.simps [simp del]

section \<open>Mixers\<close>

definition RFC1320_INITIAL_STATE :: "u32 list" where
  "RFC1320_INITIAL_STATE = [0x67452301, 0xEFCDAB89, 0x98BADCFE, 0x10325476]"

definition starting_state :: "u32 list \<Rightarrow> u32 list" where
  "starting_state seed = (if \<forall>w \<in> set seed. w = 0 then RFC1320_INITIAL_STATE else seed)"

definition rfc1320_f :: "u32 \<Rightarrow> u32 \<Rightarrow> u32 \<Rightarrow> u32" where "rfc1320_f x y z = (x AND y) OR (NOT x AND z)"
definition rfc1320_g :: "u32 \<Rightarrow> u32 \<Rightarrow> u32 \<Rightarrow> u32" where "rfc1320_g x y z = (x AND y) OR (x AND z) OR (y AND z)"
definition rfc1320_h :: "u32 \<Rightarrow> u32 \<Rightarrow> u32 \<Rightarrow> u32" where "rfc1320_h x y z = x XOR y XOR z"

record md4_round =
  mix :: "u32 \<Rightarrow> u32 \<Rightarrow> u32 \<Rightarrow> u32"
  round_constant :: u32
  words :: "nat list"
  rotations :: "nat list"

definition HALF_MD4_ROUNDS :: "md4_round list" where
  "HALF_MD4_ROUNDS =
     [\<lparr>mix = rfc1320_f, round_constant = 0, words = [0, 1, 2, 3, 4, 5, 6, 7], rotations = [3, 7, 11, 19]\<rparr>,
      \<lparr>mix = rfc1320_g, round_constant = 0x5A827999, words = [1, 3, 5, 7, 0, 2, 4, 6], rotations = [3, 5, 9, 13]\<rparr>,
      \<lparr>mix = rfc1320_h, round_constant = 0x6ED9EBA1, words = [3, 7, 2, 6, 1, 5, 0, 4], rotations = [3, 9, 11, 15]\<rparr>]"

definition md4_step :: "u32 list \<Rightarrow> md4_round \<Rightarrow> u32 list \<Rightarrow> nat \<times> nat \<Rightarrow> u32 list" where
  "md4_step block round reg sw =
     (let (step, word) = sw; target = (4 - step mod 4) mod 4;
          x = reg ! ((target + 1) mod 4); y = reg ! ((target + 2) mod 4); z = reg ! ((target + 3) mod 4)
      in reg[target := word_rotl (rotations round ! (step mod 4)) (reg ! target + mix round x y z + block ! word + round_constant round)])"

definition md4_round_steps :: "u32 list \<Rightarrow> u32 list \<Rightarrow> md4_round \<Rightarrow> u32 list" where
  "md4_round_steps block reg round = foldl (md4_step block round) reg (enumerate 0 (words round))"

definition md4_absorb :: "u32 list \<Rightarrow> u32 list \<Rightarrow> u32 list" where
  "md4_absorb state block = map2 (+) state (foldl (md4_round_steps block) state HALF_MD4_ROUNDS)"

definition md4_report :: "u32 list \<Rightarrow> u32 \<times> u32" where "md4_report state = (state ! 1, state ! 2)"

definition TEA_DELTA :: u32 where "TEA_DELTA = 0x9E3779B9"
definition TEA_CYCLES :: nat where "TEA_CYCLES = 16"

fun tea_loop :: "u32 list \<Rightarrow> nat \<Rightarrow> u32 \<Rightarrow> u32 \<Rightarrow> u32 \<Rightarrow> u32 \<times> u32" where
  "tea_loop key 0 acc y z = (y, z)"
| "tea_loop key (Suc n) acc y z =
     (let acc = acc + TEA_DELTA;
          y = y + ((push_bit 4 z + key ! 0) XOR (z + acc) XOR (drop_bit 5 z + key ! 1));
          z = z + ((push_bit 4 y + key ! 2) XOR (y + acc) XOR (drop_bit 5 y + key ! 3))
      in tea_loop key n acc y z)"

definition tea_encipher :: "u32 \<times> u32 \<Rightarrow> u32 list \<Rightarrow> nat \<Rightarrow> u32 \<times> u32" where
  "tea_encipher plain key cycles = tea_loop key cycles 0 (fst plain) (snd plain)"

definition tea_absorb :: "u32 list \<Rightarrow> u32 list \<Rightarrow> u32 list" where
  "tea_absorb state block =
     (let (y, z) = tea_encipher (state ! 0, state ! 1) block TEA_CYCLES in state[0 := state ! 0 + y, 1 := state ! 1 + z])"

definition tea_report :: "u32 list \<Rightarrow> u32 \<times> u32" where "tea_report state = (state ! 0, state ! 1)"

definition chain_blocks :: "nat \<Rightarrow> (u32 list \<Rightarrow> u32 list \<Rightarrow> u32 list) \<Rightarrow> (u32 list \<Rightarrow> u32 \<times> u32) \<Rightarrow> bytes \<Rightarrow> widening \<Rightarrow> u32 list \<Rightarrow> u32 \<times> u32" where
  "chain_blocks n absorb report name wd seed = report (foldl absorb (starting_state seed) (feed n wd name))"

section \<open>The legacy recurrence and the name hash\<close>

definition legacy_step :: "widening \<Rightarrow> u32 \<times> u32 \<Rightarrow> u8 \<Rightarrow> u32 \<times> u32" where
  "legacy_step wd = (\<lambda>(older, newer) b.
     let scaled = widen wd b * 0x006D22F5; next = older + (newer XOR scaled);
         next = (if next AND 0x80000000 \<noteq> 0 then next - 0x7FFFFFFF else next)
     in (newer, next))"

definition legacy_digest :: "bytes \<Rightarrow> widening \<Rightarrow> u32" where
  "legacy_digest name wd = push_bit 1 (snd (foldl (legacy_step wd) (0x37ABE8F9, 0x12A3FE2D) name))"

definition END_OF_DIRECTORY_MAJOR :: u32 where "END_OF_DIRECTORY_MAJOR = 0xFFFFFFFE"

definition hash_words :: "bytes \<Rightarrow> hash_version \<Rightarrow> u32 list \<Rightarrow> u32 \<times> u32" where
  "hash_words name version seed =
     (let wd = byte_widening version in
      case version of
        Legacy \<Rightarrow> (legacy_digest name wd, 0)
      | LegacyUnsigned \<Rightarrow> (legacy_digest name wd, 0)
      | HalfMd4 \<Rightarrow> chain_blocks 8 md4_absorb md4_report name wd seed
      | HalfMd4Unsigned \<Rightarrow> chain_blocks 8 md4_absorb md4_report name wd seed
      | Tea \<Rightarrow> chain_blocks 4 tea_absorb tea_report name wd seed
      | TeaUnsigned \<Rightarrow> chain_blocks 4 tea_absorb tea_report name wd seed)"

definition name_hash :: "bytes \<Rightarrow> hash_version \<Rightarrow> u32 list \<Rightarrow> name_hash" where
  "name_hash name version seed =
     (let (ma, mi) = hash_words name version seed; ma = ma AND NOT 1;
          ma = (if ma = END_OF_DIRECTORY_MAJOR then END_OF_DIRECTORY_MAJOR - 2 else ma)
      in \<lparr>major = ma, minor = mi\<rparr>)"

fun effective_version :: "hash_version \<Rightarrow> bool \<Rightarrow> hash_version" where
  "effective_version v False = v"
| "effective_version Legacy True = LegacyUnsigned"
| "effective_version HalfMd4 True = HalfMd4Unsigned"
| "effective_version Tea True = TeaUnsigned"
| "effective_version v True = v"

section \<open>Agreement with the published vectors\<close>

text \<open>The values \<open>debugfs dx_hash\<close> gives for the name \<open>a\<close>, from \<open>tests/htree_hash_vectors.rs\<close>.\<close>

lemma hash_vectors:
  "name_hash [0x61] Legacy [0, 0, 0, 0] = \<lparr>major = 0xE74B53E2, minor = 0\<rparr>"
  "name_hash [0x61] HalfMd4 [0, 0, 0, 0] = \<lparr>major = 0xD5FA7D7A, minor = 0xACB48187\<rparr>"
  "name_hash [0x61] Tea [0, 0, 0, 0] = \<lparr>major = 0x6D0EA4C0, minor = 0xC18922DF\<rparr>"
  by code_simp+

section \<open>Properties\<close>

lemma widen_ascii: "b < 0x80 \<Longrightarrow> widen SignExtend b = widen ZeroExtend b"
proof -
  assume "b < 0x80"
  then have "unat (drop_bit 7 b) = 0" by (simp add: word_less_nat_alt drop_bit_eq_div unat_div)
  then have "drop_bit 7 b = 0" by (simp add: unat_eq_zero)
  then have "\<not> bit b 7" using bit_drop_bit_eq [of 7 b] by (simp add: fun_eq_iff) (metis add.right_neutral)
  then have "\<not> bit b n" if "7 \<le> n" for n using that bit_imp_le_length [of b n] by (cases "n = 7") auto
  then show ?thesis by (intro bit_word_eqI) (auto simp: bit_simps min_def)
qed

text \<open>
  What every directory index relies on: for all versions, names and seeds the major hash is even and never the value reserved
  for the end of the directory, so it orders entries and leaves the lowest bit free.
\<close>

theorem name_hash_in_range:
  "even (major (name_hash name version seed)) \<and> major (name_hash name version seed) \<noteq> END_OF_DIRECTORY_MAJOR"
proof -
  have "\<not> bit (w AND NOT 1) 0" for w :: u32 by (simp add: bit_simps)
  then have "even (w AND NOT 1)" for w :: u32 by (simp add: bit_0)
  then show ?thesis by (auto simp: name_hash_def Let_def END_OF_DIRECTORY_MAJOR_def split: prod.split)
qed

lemma pack_ascii: "\<forall>b \<in> set bs. b < 0x80 \<Longrightarrow> pack SignExtend bs fill = pack ZeroExtend bs fill"
  unfolding pack_def by (rule foldl_cong) (simp_all add: widen_ascii del: widen.simps)

lemma feed_ascii: "\<forall>b \<in> set rest. b < 0x80 \<Longrightarrow> feed n SignExtend rest = feed n ZeroExtend rest"
proof (induction n SignExtend rest rule: feed.induct)
  case (1 n rest)
  show ?case
  proof (cases "rest = [] \<or> n = 0")
    case False
    let ?k = "min (length rest) (4 * n)"
    have "pack SignExtend bs f = pack ZeroExtend bs f" if "bs \<in> set (chunks 4 (take ?k rest))" for bs f
    proof (rule pack_ascii)
      have "set bs \<subseteq> set rest" using that concat_chunks [of 4 "take ?k rest"] set_take_subset [of ?k rest] by (metis (no_types) UN_upper order_trans set_concat zero_less_numeral)
      then show "\<forall>b \<in> set bs. b < 0x80" using 1(2) by blast
    qed
    moreover have "feed n SignExtend (drop ?k rest) = feed n ZeroExtend (drop ?k rest)"
      using 1(1) [OF False refl refl refl] 1(2) by (meson in_set_dropD)
    ultimately show ?thesis using False by (subst (1 2) feed.simps) (simp add: Let_def cong: map_cong)
  qed (simp add: feed.simps)
qed

text \<open>
  The signed and unsigned versions of each hash agree on names of ASCII bytes: applying the superblock's unsigned-hash flag
  changes no such hash.
\<close>

theorem ascii_hash_unsigned:
  assumes "\<forall>b \<in> set name. b < 0x80"
  shows "name_hash name (effective_version version flag) seed = name_hash name version seed"
proof -
  have l: "legacy_digest name SignExtend = legacy_digest name ZeroExtend"
    unfolding legacy_digest_def using assms
    by (intro arg_cong [of _ _ "\<lambda>p. push_bit 1 (snd p)"] foldl_cong) (simp_all add: legacy_step_def case_prod_beta widen_ascii del: widen.simps)
  have "hash_words name (effective_version version flag) seed = hash_words name version seed"
    using l feed_ascii [OF assms] by (cases version; cases flag) (simp_all add: hash_words_def byte_widening_def chain_blocks_def)
  then show ?thesis by (simp add: name_hash_def)
qed

theorem ascii_hash_unsigned_witness:
  "name_hash [0x61] HalfMd4Unsigned [0, 0, 0, 0] = \<lparr>major = 0xD5FA7D7A, minor = 0xACB48187\<rparr>"
  using ascii_hash_unsigned [of "[0x61]" HalfMd4 True "[0, 0, 0, 0]"] hash_vectors(2) by simp

end
