(* ===== verification/Htree.thy ===== *)
theory Htree
  imports Hash Dir "HOL-Library.Multiset"
begin

unbundle bit_operations_syntax

text \<open>
  Indexed directories: reading the index and descending to a leaf (\<open>src/htree.rs\<close>), splitting a full leaf and inserting the routing
  entry for its new half (\<open>src/htree_mut.rs\<close>). The closure that reads a block of the directory is the parameter \<open>read_dx_block\<close>.
\<close>

section \<open>Reading the index\<close>

record dx_root_info =
  reserved_zero :: u32
  hash_version :: hash_version
  info_length :: u8
  indirect_levels :: u8
  unused_flags :: u8

record dx_count_limit =
  cl_limit :: u16
  cl_count :: u16

record dx_entry =
  dx_hash :: u32
  dx_block :: u32

definition DX_ENTRY_SIZE :: nat where [simp]: "DX_ENTRY_SIZE = 8"

definition DxCountLimit_parse :: "bytes \<Rightarrow> dx_count_limit result" where
  "DxCountLimit_parse buf =
     (if length buf < 4 then Err (Corrupt ''dx count_limit buffer too small'')
      else Ok \<lparr>cl_limit = get_le16 0 buf, cl_count = get_le16 2 buf\<rparr>)"

definition DxEntry_parse :: "bytes \<Rightarrow> dx_entry result" where
  "DxEntry_parse buf =
     (if length buf < DX_ENTRY_SIZE then Err (Corrupt ''dx entry buffer too small'')
      else Ok \<lparr>dx_hash = get_le32 0 buf, dx_block = get_le32 4 buf\<rparr>)"

definition parse_root_info :: "bytes \<Rightarrow> dx_root_info result" where
  "parse_root_info block =
     (if length block < 32 then Err (Corrupt ''dx root block too small'')
      else let reserved = get_le32 24 block in
        if reserved \<noteq> 0 then Err (Corrupt ''dx root reserved must be 0'')
        else and_then (ok_or (HashVersion_from_u8 (block ! 28)) (Corrupt ''unknown htree hash version'')) (\<lambda>v.
          Ok \<lparr>reserved_zero = reserved, hash_version = v, info_length = block ! 29, indirect_levels = block ! 30, unused_flags = block ! 31\<rparr>))"

fun dx_entries_at :: "bytes \<Rightarrow> nat \<Rightarrow> nat \<Rightarrow> dx_entry list result" where
  "dx_entries_at block off 0 = Ok []"
| "dx_entries_at block off (Suc n) =
     and_then (and_then (get_slice off (off + DX_ENTRY_SIZE) block) DxEntry_parse) (\<lambda>e.
     and_then (dx_entries_at block (off + DX_ENTRY_SIZE) n) (\<lambda>es. Ok (e # es)))"

definition parse_entries_from :: "bytes \<Rightarrow> nat \<Rightarrow> dx_count_limit \<Rightarrow> (dx_count_limit \<times> dx_entry list) result" where
  "parse_entries_from block start cl =
     (if cl_count cl = 0 then Err (Corrupt ''dx node has zero entries'')
      else if cl_count cl > cl_limit cl then Err (Corrupt ''dx count > limit'')
      else if start + unat (cl_count cl) * DX_ENTRY_SIZE > length block then Err (Corrupt ''dx entries overflow block'')
      else and_then (dx_entries_at block start (unat (cl_count cl))) (\<lambda>es. Ok (cl, es)))"

definition first_hash_zero :: "dx_entry list \<Rightarrow> dx_entry list" where
  "first_hash_zero es = (case es of [] \<Rightarrow> [] | e # es' \<Rightarrow> e\<lparr>dx_hash := 0\<rparr> # es')"

definition parse_root_entries :: "bytes \<Rightarrow> (dx_count_limit \<times> dx_entry list) result" where
  "parse_root_entries block =
     and_then (parse_root_info block) (\<lambda>info.
     let cl_offset = 24 + unat (info_length info) in
     if cl_offset + 4 > length block then Err (Corrupt ''dx root count_limit out of range'')
     else and_then (and_then (get_slice cl_offset (cl_offset + 4) block) DxCountLimit_parse) (\<lambda>cl.
       and_then (parse_entries_from block cl_offset cl) (\<lambda>(cl, es). Ok (cl, first_hash_zero es))))"

definition parse_node_entries :: "bytes \<Rightarrow> (dx_count_limit \<times> dx_entry list) result" where
  "parse_node_entries block =
     (if length block < 8 + 4 then Err (Corrupt ''dx node block too small'')
      else and_then (and_then (get_slice 8 12 block) DxCountLimit_parse) (\<lambda>cl.
        and_then (parse_entries_from block 8 cl) (\<lambda>(cl, es). Ok (cl, first_hash_zero es))))"

fun find_entry_loop :: "dx_entry \<Rightarrow> dx_entry list \<Rightarrow> u32 \<Rightarrow> dx_entry" where
  "find_entry_loop chosen [] target = chosen"
| "find_entry_loop chosen (e # es) target = (if dx_hash e \<le> target then find_entry_loop e es target else chosen)"

definition find_entry_for_hash :: "dx_entry list \<Rightarrow> u32 \<Rightarrow> dx_entry result" where
  "find_entry_for_hash es target = (case es of [] \<Rightarrow> Panic | e # es' \<Rightarrow> Ok (find_entry_loop e es' target))"

definition target_hash :: "bytes \<Rightarrow> bytes \<Rightarrow> u32 list \<Rightarrow> name_hash result" where
  "target_hash name root_block hseed = and_then (parse_root_info root_block) (\<lambda>info. Ok (name_hash name (hash_version info) hseed))"

text \<open>The descent through the \<open>indirect_levels\<close> nodes of the index; the recursion is on the levels left.\<close>

fun descend :: "(u32 \<Rightarrow> bytes result) \<Rightarrow> u32 \<Rightarrow> nat \<Rightarrow> u32 \<Rightarrow> u32 option result" where
  "descend read_dx_block h 0 target = Ok (Some target)"
| "descend read_dx_block h (Suc n) target =
     and_then (read_dx_block target) (\<lambda>block.
     and_then (parse_node_entries block) (\<lambda>(cl, es).
     if es = [] then Ok None
     else and_then (find_entry_for_hash es h) (\<lambda>e. descend read_dx_block h n (dx_block e))))"

definition lookup_leaf_with :: "bytes \<Rightarrow> bytes \<Rightarrow> u32 list \<Rightarrow> bool \<Rightarrow> (u32 \<Rightarrow> bytes result) \<Rightarrow> u32 option result" where
  "lookup_leaf_with name root_block hseed unsigned_hash read_dx_block =
     and_then (parse_root_info root_block) (\<lambda>info.
     let version = effective_version (hash_version info) unsigned_hash; h = name_hash name version hseed in
     and_then (parse_root_entries root_block) (\<lambda>(cl, es).
     if es = [] then Ok None
     else and_then (find_entry_for_hash es (major h)) (\<lambda>e. descend read_dx_block (major h) (unat (indirect_levels info)) (dx_block e))))"

definition lookup_leaf :: "bytes \<Rightarrow> bytes \<Rightarrow> u32 list \<Rightarrow> (u32 \<Rightarrow> bytes result) \<Rightarrow> u32 option result" where
  "lookup_leaf name root_block hseed read_dx_block = lookup_leaf_with name root_block hseed False read_dx_block"

section \<open>Splitting a leaf\<close>

record leaf_split =
  left_bytes :: bytes
  right_bytes :: bytes
  split_out_hash :: u32

function leaf_entries_loop :: "bytes \<Rightarrow> bool \<Rightarrow> hash_version \<Rightarrow> u32 list \<Rightarrow> nat \<Rightarrow> nat \<Rightarrow> (name_hash \<times> bytes) list result" where
  "leaf_entries_loop leaf has_file_type version hseed usable off =
     (if off + 8 \<le> usable then
        and_then (get_slice off (off + 8) leaf) (\<lambda>hdr.
        let cur_inode = get_le32 0 hdr; rec_len = unat (get_le16 4 hdr) in
        if rec_len < 8 \<or> rec_len mod 4 \<noteq> 0 \<or> off + rec_len > usable
        then Err (CorruptDirEntry ''bad rec_len during htree leaf split'')
        else if cur_inode = 0 then leaf_entries_loop leaf has_file_type version hseed usable (off + rec_len)
        else let name_len = name_len_field has_file_type (hdr ! 6) (hdr ! 7) in
          if 8 + name_len > rec_len then Err (CorruptDirEntry ''name overflows rec_len in htree split'')
          else and_then (get_slice (off + 8) (off + 8 + name_len) leaf) (\<lambda>name.
            let h = name_hash name version hseed; padded = 8 + (name_len + 3) div 4 * 4;
                entry_bytes = put 8 name (put 0 hdr (replicate padded 0))
            in and_then (leaf_entries_loop leaf has_file_type version hseed usable (off + rec_len)) (\<lambda>es. Ok ((h, entry_bytes) # es))))
      else Ok [])"
  by pat_completeness auto
termination
  by (relation "measure (\<lambda>(leaf, f, v, s, usable, off). usable - off)") auto

declare leaf_entries_loop.simps [simp del]

definition htree_leaf_entries :: "bytes \<Rightarrow> bool \<Rightarrow> hash_version \<Rightarrow> u32 list \<Rightarrow> nat \<Rightarrow> (name_hash \<times> bytes) list result" where
  "htree_leaf_entries leaf has_file_type version hseed reserved_tail =
     (if reserved_tail > length leaf then Err OutOfBounds
      else leaf_entries_loop leaf has_file_type version hseed (length leaf - reserved_tail) 0)"

fun pack_loop :: "nat \<Rightarrow> bytes list \<Rightarrow> nat \<Rightarrow> bytes \<Rightarrow> bytes result" where
  "pack_loop usable [] off out = Ok out"
| "pack_loop usable (raw # rest) off out =
     (if off + length raw > usable then Err OutOfBounds
      else let rec_len = (if rest = [] then usable - off else length raw) in
        and_then (put_checked off raw out) (\<lambda>out.
        and_then (put_checked (off + 4) (u16_to_le (word_of_nat rec_len)) out) (\<lambda>out.
        pack_loop usable rest (off + rec_len) out)))"

definition write_packed_leaf :: "bytes list \<Rightarrow> nat \<Rightarrow> nat \<Rightarrow> bytes result" where
  "write_packed_leaf entries block_size reserved_tail =
     (if reserved_tail > block_size then Err OutOfBounds
      else pack_loop (block_size - reserved_tail) entries 0 (replicate block_size 0))"

definition wrapping_sub_usize :: "nat \<Rightarrow> nat \<Rightarrow> nat" where
  "wrapping_sub_usize a b = (if b \<le> a then a - b else a + 2 ^ 64 - b)"

definition split_point :: "(name_hash \<times> bytes) list \<Rightarrow> nat option" where
  "split_point es =
     (let n = length es; half = n div 2 in
      find (\<lambda>m. 0 < m \<and> m < n \<and> major (fst (es ! (m - 1))) \<noteq> major (fst (es ! m)))
        (concat (map (\<lambda>d. [half + d, wrapping_sub_usize half d]) [0 ..< n])))"

definition plan_leaf_split :: "bytes \<Rightarrow> hash_version \<Rightarrow> u32 list \<Rightarrow> bool \<Rightarrow> nat \<Rightarrow> nat \<Rightarrow> leaf_split result" where
  "plan_leaf_split leaf version hseed has_file_type block_size reserved_tail =
     and_then (htree_leaf_entries leaf has_file_type version hseed reserved_tail) (\<lambda>es.
     if length es < 2 then Err (Corrupt ''htree leaf split needs >=2 entries; caller's overflow may be spurious'')
     else let es = sort_key (\<lambda>p. major (fst p)) es in
       and_then (ok_or (split_point es) (Corrupt ''htree leaf split: every name in the leaf has the same hash'')) (\<lambda>mid.
       and_then (write_packed_leaf (map snd (take mid es)) block_size reserved_tail) (\<lambda>l.
       and_then (write_packed_leaf (map snd (drop mid es)) block_size reserved_tail) (\<lambda>r.
       Ok \<lparr>left_bytes = l, right_bytes = r, split_out_hash = major (fst (es ! mid))\<rparr>))))"

section \<open>Inserting a routing entry\<close>

text \<open>The serializing loop leaves slot 0's hash field, which holds the count and limit, alone.\<close>

fun put_dx_entries :: "nat \<Rightarrow> nat \<Rightarrow> dx_entry list \<Rightarrow> bytes \<Rightarrow> bytes result" where
  "put_dx_entries off i [] out = Ok out"
| "put_dx_entries off i (e # es) out =
     and_then (if i > 0 then put_checked off (u32_to_le (dx_hash e)) out else Ok out) (\<lambda>out.
     and_then (put_checked (off + 4) (u32_to_le (dx_block e)) out) (\<lambda>out.
     put_dx_entries (off + DX_ENTRY_SIZE) (Suc i) es out))"

fun dx_entries_checked :: "bytes \<Rightarrow> nat \<Rightarrow> nat \<Rightarrow> dx_entry list result" where
  "dx_entries_checked block off 0 = Ok []"
| "dx_entries_checked block off (Suc n) =
     (if off + DX_ENTRY_SIZE > length block then Err (Corrupt ''dx entries overrun block'')
      else and_then (and_then (get_slice off (off + DX_ENTRY_SIZE) block) DxEntry_parse) (\<lambda>e.
        and_then (dx_entries_checked block (off + DX_ENTRY_SIZE) n) (\<lambda>es. Ok (e # es))))"

definition insert_dx :: "u32 \<Rightarrow> u32 \<Rightarrow> dx_entry list \<Rightarrow> dx_entry list" where
  "insert_dx new_hash new_block es =
     (let pos = (case position (\<lambda>e. dx_hash e > new_hash) (drop 1 es) of Some p \<Rightarrow> p + 1 | None \<Rightarrow> length es)
      in vec_insert pos \<lparr>dx_hash = new_hash, dx_block = new_block\<rparr> es)"

definition plan_insert_dx_entry_generic :: "bytes \<Rightarrow> nat \<Rightarrow> u32 \<Rightarrow> u32 \<Rightarrow> bytes result" where
  "plan_insert_dx_entry_generic block cl_offset new_hash new_block =
     (if cl_offset + DX_ENTRY_SIZE > length block then Err (Corrupt ''dx cl_offset out of range'')
      else and_then (and_then (get_slice cl_offset (cl_offset + 4) block) DxCountLimit_parse) (\<lambda>cl.
        if cl_count cl \<ge> cl_limit cl then Err (CorruptExtentTree ''NEEDS_PARENT_SPLIT: dx node full'')
        else if cl_count cl = 0 then Err (Corrupt ''dx node has zero entries'')
        else and_then (dx_entries_checked block cl_offset (unat (cl_count cl))) (\<lambda>es.
          let es = first_hash_zero es in
          if \<exists>e \<in> set (drop 1 es). dx_hash e = new_hash then Err (CorruptExtentTree ''duplicate dx hash insert'')
          else let es = insert_dx new_hash new_block es in
            if cl_offset + length es * DX_ENTRY_SIZE > length block then Err (Corrupt ''dx serialized entries exceed block'')
            else and_then (put_dx_entries cl_offset 0 es block) (\<lambda>out.
              put_checked (cl_offset + 2) (u16_to_le (cl_count cl + 1)) out))))"

definition plan_insert_dx_entry_root :: "bytes \<Rightarrow> nat \<Rightarrow> u32 \<Rightarrow> u32 \<Rightarrow> bytes result" where
  "plan_insert_dx_entry_root root cl_offset new_hash new_block = plan_insert_dx_entry_generic root cl_offset new_hash new_block"

definition plan_insert_dx_entry_node :: "bytes \<Rightarrow> u32 \<Rightarrow> u32 \<Rightarrow> bytes result" where
  "plan_insert_dx_entry_node node new_hash new_block = plan_insert_dx_entry_generic node 8 new_hash new_block"


section \<open>Routing\<close>

text \<open>The entry a hash is routed to, over the parsed entries: the last with a hash not above it, slot 0 for the rest.\<close>

definition route :: "dx_entry list \<Rightarrow> u32 \<Rightarrow> dx_entry" where
  "route es h = last (hd es # filter (\<lambda>e. dx_hash e \<le> h) (tl es))"

definition dx_sorted :: "dx_entry list \<Rightarrow> bool" where
  "dx_sorted es \<longleftrightarrow> es \<noteq> [] \<and> sorted_wrt (\<lambda>a b. dx_hash a < dx_hash b) (tl es)"

lemma find_entry_loop_filter:
  "sorted_wrt (\<lambda>a b. dx_hash a < dx_hash b) es \<Longrightarrow> find_entry_loop c es h = last (c # filter (\<lambda>e. dx_hash e \<le> h) es)"
proof (induction es arbitrary: c)
  case (Cons e es)
  show ?case
  proof (cases "dx_hash e \<le> h")
    case False
    then have "\<not> dx_hash x \<le> h" if "x \<in> set es" for x using that Cons.prems by (auto simp: not_le intro: less_trans)
    then show ?thesis using False by (simp add: filter_empty_conv)
  qed (use Cons in simp)
qed simp

lemma find_entry_route: "dx_sorted es \<Longrightarrow> find_entry_for_hash es h = Ok (route es h)"
  by (cases es) (simp_all add: dx_sorted_def find_entry_for_hash_def route_def find_entry_loop_filter)

lemma insert_dx_split:
  assumes "dx_sorted es" "\<forall>e \<in> set (tl es). dx_hash e \<noteq> nh"
  obtains pre post where "tl es = pre @ post" "insert_dx nh nb es = hd es # pre @ \<lparr>dx_hash = nh, dx_block = nb\<rparr> # post"
    "\<forall>e \<in> set pre. dx_hash e < nh" "\<forall>e \<in> set post. nh < dx_hash e"
proof -
  obtain e0 es0 where es: "es = e0 # es0" using assms(1) by (cases es) (auto simp: dx_sorted_def)
  have srt: "sorted_wrt (\<lambda>a b. dx_hash a < dx_hash b) es0" using assms(1) by (simp add: dx_sorted_def es)
  define p where "p = (case position (\<lambda>e. dx_hash e > nh) es0 of Some p \<Rightarrow> p | None \<Rightarrow> length es0)"
  have le: "p \<le> length es0" by (auto simp: p_def dest: position_Some split: option.split)
  have pre: "dx_hash e < nh" if "e \<in> set (take p es0)" for e
  proof -
    have "\<not> nh < dx_hash e"
    proof (cases "position (\<lambda>e. dx_hash e > nh) es0")
      case None
      then show ?thesis using that by (auto simp: position_None p_def dest: in_set_takeD)
    next
      case (Some q)
      then show ?thesis using that position_Some [OF Some] by (auto simp: p_def in_set_conv_nth)
    qed
    moreover have "dx_hash e \<noteq> nh" using assms(2) that by (auto simp: es dest: in_set_takeD)
    ultimately show ?thesis by (simp add: not_less order.strict_iff_order)
  qed
  have post: "nh < dx_hash e" if "e \<in> set (drop p es0)" for e
  proof (cases "position (\<lambda>e. dx_hash e > nh) es0")
    case None
    then show ?thesis using that by (simp add: p_def)
  next
    case (Some q)
    then have q: "q < length es0" "nh < dx_hash (es0 ! q)" "p = q" using position_Some [OF Some] by (auto simp: p_def)
    have "\<exists>i < length (drop p es0). drop p es0 ! i = e" using that unfolding in_set_conv_nth .
    then obtain i where i: "i < length (drop p es0)" "e = drop p es0 ! i" by blast
    show ?thesis
    proof (cases "i = 0")
      case False
      then have "dx_hash (es0 ! q) < dx_hash (es0 ! (q + i))" using srt i(1) q(3) by (auto simp: sorted_wrt_iff_nth_less)
      then show ?thesis using q i by auto
    qed (use q i in auto)
  qed
  have pos: "(case position (\<lambda>e. dx_hash e > nh) es0 of Some p \<Rightarrow> p + 1 | None \<Rightarrow> length es) = Suc p"
    by (simp add: p_def es split: option.split)
  have "insert_dx nh nb es = e0 # take p es0 @ \<lparr>dx_hash = nh, dx_block = nb\<rparr> # drop p es0"
    using pos unfolding insert_dx_def es by (simp add: Let_def vec_insert_def)
  then show ?thesis using pre post by (intro that [of "take p es0" "drop p es0"]) (simp_all add: es)
qed

lemma route_insert:
  assumes "dx_sorted es" "\<forall>e \<in> set (tl es). dx_hash e \<noteq> nh"
  shows "dx_sorted (insert_dx nh nb es)"
    "route (insert_dx nh nb es) h = (if nh \<le> h \<and> (\<forall>e \<in> set (tl es). nh < dx_hash e \<longrightarrow> h < dx_hash e) then \<lparr>dx_hash = nh, dx_block = nb\<rparr> else route es h)"
proof -
  obtain pre post where sp: "tl es = pre @ post" "insert_dx nh nb es = hd es # pre @ \<lparr>dx_hash = nh, dx_block = nb\<rparr> # post"
    "\<forall>e \<in> set pre. dx_hash e < nh" "\<forall>e \<in> set post. nh < dx_hash e"
    by (rule insert_dx_split [OF assms])
  show "dx_sorted (insert_dx nh nb es)"
    using assms(1) sp by (auto simp: dx_sorted_def sorted_wrt_append)
  have a: "filter (\<lambda>e. dx_hash e \<le> h) post = [] \<longleftrightarrow> (\<forall>e \<in> set (tl es). nh < dx_hash e \<longrightarrow> h < dx_hash e)"
    using sp(1,3,4) by (auto simp: filter_empty_conv not_le dest: less_asym)
  have b: "filter (\<lambda>e. dx_hash e \<le> h) post = []" if "\<not> nh \<le> h" using that sp(4) by (auto simp: filter_empty_conv not_le intro: less_trans)
  show "route (insert_dx nh nb es) h = (if nh \<le> h \<and> (\<forall>e \<in> set (tl es). nh < dx_hash e \<longrightarrow> h < dx_hash e) then \<lparr>dx_hash = nh, dx_block = nb\<rparr> else route es h)"
    unfolding a [symmetric] using b sp(1,2) by (auto simp: route_def)
qed

section \<open>The index entries of a block\<close>

definition index_at :: "bytes \<Rightarrow> nat \<Rightarrow> (dx_count_limit \<times> dx_entry list) result" where
  "index_at block off =
     and_then (and_then (get_slice off (off + 4) block) DxCountLimit_parse) (\<lambda>cl.
     and_then (parse_entries_from block off cl) (\<lambda>(cl, es). Ok (cl, first_hash_zero es)))"

lemma parse_node_index: "12 \<le> length block \<Longrightarrow> parse_node_entries block = index_at block 8"
  by (simp add: parse_node_entries_def index_at_def)

lemma parse_root_index:
  "parse_root_info block = Ok info \<Longrightarrow> 24 + unat (info_length info) + 4 \<le> length block \<Longrightarrow>
   parse_root_entries block = index_at block (24 + unat (info_length info))"
  by (simp add: parse_root_entries_def index_at_def Let_def)

definition entry_at :: "bytes \<Rightarrow> nat \<Rightarrow> dx_entry" where
  "entry_at block off = \<lparr>dx_hash = get_le32 off block, dx_block = get_le32 (off + 4) block\<rparr>"

lemma field_of_slice: "j + 2 \<le> k \<Longrightarrow> get_le16 j (slice off (off + k) block) = get_le16 (off + j) block"
  by (simp add: get_le16_def slice_slice add.assoc)

lemma dx_entry_slice:
  assumes "off + 8 \<le> length block"
  shows "DxEntry_parse (slice off (off + 8) block) = Ok (entry_at block off)"
proof -
  have "slice (0 + 0) (0 + 4) (slice off (off + 8) block) = slice off (off + 4) block" "slice 4 8 (slice off (off + 8) block) = slice (off + 4) (off + 8) block"
    by (simp_all add: slice_slice)
  then show ?thesis using assms by (simp add: DxEntry_parse_def entry_at_def get_field_defs add.commute [of off])
qed

lemma dx_entries_at_map:
  "off + 8 * n \<le> length block \<Longrightarrow> dx_entries_at block off n = Ok (map (\<lambda>i. entry_at block (off + 8 * i)) [0 ..< n])"
proof (induction n arbitrary: off)
  case (Suc n)
  then have "dx_entries_at block (off + 8) n = Ok (map (\<lambda>i. entry_at block (off + 8 + 8 * i)) [0 ..< n])" by simp
  moreover have "map (\<lambda>i. entry_at block (off + 8 * i)) [0 ..< Suc n] = entry_at block off # map (\<lambda>i. entry_at block (off + 8 + 8 * i)) [0 ..< n]"
    by (simp add: upt_conv_Cons map_Suc_upt [symmetric] add_ac del: upt_Suc)
  ultimately show ?case using Suc.prems by (simp add: get_slice_def dx_entry_slice del: upt_Suc)
qed simp

lemma dx_entries_checked_at: "off + 8 * n \<le> length block \<Longrightarrow> dx_entries_checked block off n = dx_entries_at block off n"
  by (induction n arbitrary: off) auto

lemma dx_entries_checked_Ok: "dx_entries_checked block off n = Ok es \<Longrightarrow> off + 8 * n \<le> length block \<or> n = 0"
proof (induction n arbitrary: off es)
  case (Suc n)
  then obtain es' where "off + 8 \<le> length block" "dx_entries_checked block (off + 8) n = Ok es'" by (auto simp: outcome_simps split: if_splits)
  then show ?case using Suc.IH [of "off + 8" es'] by auto
qed simp

text \<open>Writing entries from an offset: what they read as, and that nothing else changes.\<close>

lemma put_dx_entries_correct:
  "off + 8 * length es \<le> length out \<Longrightarrow> 0 < i \<Longrightarrow>
   \<exists>out'. put_dx_entries off i es out = Ok out' \<and> length out' = length out \<and> take off out' = take off out \<and>
     (\<forall>j < length es. entry_at out' (off + 8 * j) = es ! j)"
proof (induction es arbitrary: off i out)
  case (Cons e es)
  let ?o = "put (off + 4) (u32_to_le (dx_block e)) (put off (u32_to_le (dx_hash e)) out)"
  have fit: "off + 8 \<le> length out" using Cons.prems(1) by simp
  have lo: "length ?o = length out" using fit by simp
  obtain out' where o: "put_dx_entries (off + 8) (Suc i) es ?o = Ok out'" "length out' = length ?o" "take (off + 8) out' = take (off + 8) ?o"
    "\<forall>j < length es. entry_at out' (off + 8 + 8 * j) = es ! j"
    using Cons.IH [of "off + 8" ?o "Suc i"] Cons.prems(1) lo by auto
  have t: "take off out' = take off out"
  proof -
    have "take off out' = take off (take (off + 8) out')" by simp
    also have "\<dots> = take off ?o" unfolding o(3) by simp
    also have "\<dots> = take off out" using fit by (simp add: put_def)
    finally show ?thesis .
  qed
  have e: "entry_at out' off = e"
  proof -
    have "get_le32 off out' = get_le32 off ?o" "get_le32 (off + 4) out' = get_le32 (off + 4) ?o"
      unfolding get_field_defs using slice_take_cong [OF o(3), of "off + 4" off] slice_take_cong [OF o(3), of "off + 8" "off + 4"] by (simp_all add: add.commute [of off])
    then show ?thesis using fit by (simp add: entry_at_def codec_simps)
  qed
  have "entry_at out' (off + 8 * j) = (e # es) ! j" if "j < length (e # es)" for j
    using that e o(4) by (cases j) (auto simp: add_ac)
  then show ?case using o(1,2) lo t fit Cons.prems(2) by (auto simp: put_checked_def)
qed simp


text \<open>What a successful insertion leaves: the same block but for the index, which reads as the entries with the new one in place.\<close>

lemma insert_index:
  assumes "plan_insert_dx_entry_generic block off nh nb = Ok out"
  obtains cl es cl' where "index_at block off = Ok (cl, es)" "es \<noteq> []" "\<forall>e \<in> set (tl es). dx_hash e \<noteq> nh" "length out = length block"
    "take off out = take off block" "off + 8 \<le> length block" "index_at out off = Ok (cl', insert_dx nh nb es)"
proof -
  obtain cl es0 out1 where fit: "off + 8 \<le> length block" and cl: "DxCountLimit_parse (slice off (off + 4) block) = Ok cl"
    and room: "cl_count cl < cl_limit cl" "cl_count cl \<noteq> 0" and es0: "dx_entries_checked block off (unat (cl_count cl)) = Ok es0"
    and dup: "\<forall>e \<in> set (drop 1 (first_hash_zero es0)). dx_hash e \<noteq> nh"
    and ser: "off + length (insert_dx nh nb (first_hash_zero es0)) * 8 \<le> length block"
      "put_dx_entries off 0 (insert_dx nh nb (first_hash_zero es0)) block = Ok out1" "put_checked (off + 2) (u16_to_le (cl_count cl + 1)) out1 = Ok out"
    using assms by (auto simp: plan_insert_dx_entry_generic_def outcome_simps Let_def not_le not_less split: if_splits)
  let ?n = "unat (cl_count cl)" and ?es = "first_hash_zero es0"
  have n0: "0 < ?n" using room(2) by (simp add: unat_gt_0)
  have inb: "off + 8 * ?n \<le> length block" using dx_entries_checked_Ok [OF es0] n0 by simp
  have at: "dx_entries_at block off ?n = Ok es0" using es0 dx_entries_checked_at [OF inb] by simp
  then have e0: "es0 = map (\<lambda>i. entry_at block (off + 8 * i)) [0 ..< ?n]" using dx_entries_at_map [OF inb] by simp
  then have l0: "length es0 = ?n" by simp
  then obtain x xs where x: "es0 = x # xs" using n0 by (cases es0) auto
  have es: "?es = x\<lparr>dx_hash := 0\<rparr> # xs" by (simp add: first_hash_zero_def x)
  have idx: "index_at block off = Ok (cl, ?es)"
    using cl fit room inb at by (auto simp: index_at_def get_slice_def parse_entries_from_def word_less_nat_alt mult.commute)
  define ys where "ys = tl (insert_dx nh nb ?es)"
  have ins: "insert_dx nh nb ?es = x\<lparr>dx_hash := 0\<rparr> # ys" "length ys = ?n"
    using l0 by (auto simp: ys_def insert_dx_def first_hash_zero_def x Let_def vec_insert_def dest!: position_Some split: option.split)
  have x_blk: "dx_block x = get_le32 (off + 4) block" using e0 x n0 by (auto simp: entry_at_def upt_rec)
  let ?b1 = "put (off + 4) (u32_to_le (dx_block x)) block"
  have fit1: "off + 8 + 8 * length ys \<le> length ?b1" using ser(1) ins fit by simp
  obtain o1 where o1: "put_dx_entries (off + 8) (Suc 0) ys ?b1 = Ok o1" "length o1 = length ?b1" "take (off + 8) o1 = take (off + 8) ?b1"
    "\<forall>j < length ys. entry_at o1 (off + 8 + 8 * j) = ys ! j"
    using put_dx_entries_correct [OF fit1, of "Suc 0"] by auto
  have out1: "out1 = o1" using ser(2) o1(1) fit by (simp add: ins(1) put_checked_def)
  have out: "out = put (off + 2) (u16_to_le (cl_count cl + 1)) o1" "length out = length block"
    using ser(3) out1 o1(2) fit by (auto simp: put_checked_def split: if_splits)
  have lb: "length ?b1 = length block" using fit by simp
  have t: "take off out = take off block"
  proof -
    have "take off out = take off o1" using out(1) o1(2) lb fit by (simp add: put_def)
    also have "\<dots> = take off (take (off + 8) o1)" by simp
    also have "\<dots> = take off block" unfolding o1(3) using fit by (simp add: put_def)
    finally show ?thesis .
  qed
  have lim: "get_le16 off out = get_le16 off block"
  proof -
    have "get_le16 off out = get_le16 off o1" using out(1) o1(2) lb fit by (simp add: codec_simps)
    also have "\<dots> = get_le16 off ?b1" unfolding get_field_defs using slice_take_cong [OF o1(3), of "off + 2" off] by simp
    finally show ?thesis using fit by (simp add: codec_simps)
  qed
  have u: "unat (cl_count cl + 1) = Suc ?n" using room(1) unat_u16_bound [of "cl_limit cl"] by (subst unat_add_no_wrap) (simp_all add: word_less_nat_alt)
  define cl' where "cl' = \<lparr>cl_limit = cl_limit cl, cl_count = cl_count cl + 1\<rparr>"
  have clf: "cl_limit cl = get_le16 off block"
    using cl fit field_of_slice [of 0 4 off block] by (auto simp: DxCountLimit_parse_def split: if_splits)
  have pcl: "DxCountLimit_parse (slice off (off + 4) out) = Ok cl'"
  proof -
    have "get_le16 0 (slice off (off + 4) out) = get_le16 off out" "get_le16 2 (slice off (off + 4) out) = get_le16 (off + 2) out"
      using field_of_slice [of 0 4 off out] field_of_slice [of 2 4 off out] by simp_all
    moreover have "get_le16 (off + 2) out = cl_count cl + 1" using out(1) o1(2) lb fit by (simp add: codec_simps)
    ultimately show ?thesis using lim clf fit out(2) by (simp add: DxCountLimit_parse_def cl'_def)
  qed
  have inb': "off + 8 * Suc ?n \<le> length out" using fit1 ins(2) lb out(2) by simp
  have ent: "entry_at out (off + 8 * Suc j) = ys ! j" if "j < ?n" for j
  proof -
    have "entry_at out (off + 8 * Suc j) = entry_at o1 (off + 8 * Suc j)" unfolding out(1) using o1(2) lb fit by (simp add: entry_at_def codec_simps)
    then show ?thesis using o1(4) that ins(2) by (simp add: add_ac)
  qed
  have blk0: "dx_block (entry_at out off) = dx_block x"
  proof -
    have "get_le32 (off + 4) out = get_le32 (off + 4) o1" unfolding out(1) using o1(2) lb fit by (simp add: codec_simps)
    also have "\<dots> = get_le32 (off + 4) ?b1" unfolding get_field_defs using slice_take_cong [OF o1(3), of "off + 8" "off + 4"] by (simp add: add.commute [of off])
    finally show ?thesis using fit by (simp add: entry_at_def codec_simps)
  qed
  have "map (\<lambda>i. entry_at out (off + 8 * i)) [0 ..< Suc ?n] = entry_at out off # map (\<lambda>i. entry_at out (off + 8 * Suc i)) [0 ..< ?n]"
    by (simp add: upt_conv_Cons map_Suc_upt [symmetric] del: upt_Suc)
  also have "map (\<lambda>i. entry_at out (off + 8 * Suc i)) [0 ..< ?n] = ys" using ent ins(2) by (intro nth_equalityI) simp_all
  finally have es': "dx_entries_at out off (Suc ?n) = Ok (entry_at out off # ys)" using dx_entries_at_map [OF inb'] by simp
  have "first_hash_zero (entry_at out off # ys) = insert_dx nh nb ?es" using blk0 ins(1) by (cases x) (simp add: first_hash_zero_def entry_at_def)
  moreover have "\<not> cl_limit cl < cl_count cl + 1" using u room(1) by (simp add: word_less_nat_alt)
  moreover have "cl_count cl + 1 \<noteq> 0" using u by (metis Suc_neq_Zero unsigned_0)
  ultimately have "index_at out off = Ok (cl', insert_dx nh nb ?es)"
    using pcl es' inb' fit out(2) u by (simp add: index_at_def get_slice_def parse_entries_from_def cl'_def)
  moreover have "\<forall>e \<in> set (tl ?es). dx_hash e \<noteq> nh" using dup by (simp add: es)
  ultimately show ?thesis using that [OF idx _ _ out(2) t fit] es by simp
qed


section \<open>Leaf entries\<close>

text \<open>The bytes of one entry, packed: its header with any record length, its name, and padding to a multiple of four.\<close>

definition raw_ok :: "bool \<Rightarrow> bytes \<Rightarrow> dir_entry \<Rightarrow> bool" where
  "raw_ok hft raw e \<longleftrightarrow> length raw = entry_rec_len (length (de_name e)) \<and> de_inode e \<noteq> 0 \<and> get_le32 0 raw = de_inode e \<and>
     name_len_field hft (raw ! 6) (raw ! 7) = length (de_name e) \<and> slice 8 (8 + length (de_name e)) raw = de_name e \<and>
     de_type e = (if hft then from_u8 (raw ! 7) else Unknown)"

lemma header_of_leaf:
  assumes "off + 8 \<le> length leaf"
  defines "hdr \<equiv> slice off (off + 8) leaf"
  shows "length hdr = 8" "get_le32 0 hdr = get_le32 off leaf" "get_le16 4 hdr = get_le16 (off + 4) leaf" "hdr ! 6 = leaf ! (off + 6)" "hdr ! 7 = leaf ! (off + 7)"
proof -
  show "length hdr = 8" "hdr ! 6 = leaf ! (off + 6)" "hdr ! 7 = leaf ! (off + 7)" using assms(1) by (simp_all add: hdr_def nth_slice)
  show "get_le16 4 hdr = get_le16 (off + 4) leaf" unfolding hdr_def by (simp add: field_of_slice)
  show "get_le32 0 hdr = get_le32 off leaf" unfolding hdr_def by (simp add: get_le32_def slice_slice)
qed

lemma packed_entry:
  assumes "length hdr = 8" "length (de_name e) = n" "de_inode e \<noteq> 0" "get_le32 0 hdr = de_inode e" "name_len_field hft (hdr ! 6) (hdr ! 7) = n"
    "de_type e = (if hft then from_u8 (hdr ! 7) else Unknown)"
  shows "raw_ok hft (put 8 (de_name e) (put 0 hdr (replicate (8 + (n + 3) div 4 * 4) 0))) e"
proof -
  let ?b = "put 0 hdr (replicate (8 + (n + 3) div 4 * 4) 0)"
  have l: "length ?b = entry_rec_len n" "8 + n \<le> entry_rec_len n" using assms(1) entry_rec_len_bounds(1) [of n] by (simp_all add: entry_rec_len_def mult.commute)
  have h: "get_le32 0 ?b = get_le32 0 hdr"
    using assms(1) by (simp add: get_le32_def put_def slice_simps)
  have k: "?b ! 6 = hdr ! 6" "?b ! 7 = hdr ! 7" using assms(1) by (simp_all add: put_def nth_append)
  show ?thesis
    unfolding raw_ok_def using assms l h k by (simp add: codec_simps nth_put slice_simps)
qed

lemma leaf_entries_scan:
  assumes "scan hft leaf usable off = Some slots" "usable \<le> length leaf" "off \<le> usable"
  shows "\<exists>ps. leaf_entries_loop leaf hft v s usable off = Ok ps \<and>
    list_all2 (\<lambda>p e. fst p = name_hash (de_name e) v s \<and> raw_ok hft (snd p) e) ps (live slots) \<and> sum_list (map (\<lambda>p. length (snd p)) ps) \<le> usable - off"
  using assms
proof (induction slots arbitrary: off)
  case Nil
  then have "off = usable" by (subst (asm) scan.simps) (auto split: option.splits if_splits)
  then show ?case by (simp add: leaf_entries_loop.simps)
next
  case (Cons sl slots)
  have "off \<noteq> usable" by (rule scan_ne [OF Cons.prems(1)])
  then have sl: "slot_at hft leaf usable off = Some sl" "scan hft leaf usable (off + sl_len sl) = Some slots"
    using scan_step [OF Cons.prems(1)] by auto
  note b = slot_at_bounds [OF sl(1)] and rl = slot_at_len [OF sl(1)]
  obtain ps where ps: "leaf_entries_loop leaf hft v s usable (off + sl_len sl) = Ok ps"
    "list_all2 (\<lambda>p e. fst p = name_hash (de_name e) v s \<and> raw_ok hft (snd p) e) ps (live slots)" "sum_list (map (\<lambda>p. length (snd p)) ps) \<le> usable - (off + sl_len sl)"
    using Cons.IH [OF sl(2) Cons.prems(2)] b by auto
  have fit: "off + 8 \<le> usable" "off + 8 \<le> length leaf" using b Cons.prems(2) by linarith+
  note hd = header_of_leaf [OF fit(2)]
  show ?case
  proof (cases "sl_entry sl")
    case None
    then have "leaf_entries_loop leaf hft v s usable off = Ok ps"
      using slot_at_tombstone [OF sl(1) None] fit hd rl b ps(1) by (subst leaf_entries_loop.simps) (simp add: Let_def get_slice_def)
    then show ?thesis using None ps by auto
  next
    case (Some e)
    note lv = slot_at_live [OF sl(1) Some] and nl = slot_at_name_length [OF sl(1) Some]
    let ?n = "length (de_name e)" and ?hdr = "slice off (off + 8) leaf"
    let ?raw = "put 8 (de_name e) (put 0 ?hdr (replicate (8 + (?n + 3) div 4 * 4) 0))"
    have nm: "slice (off + 8) (off + 8 + ?n) leaf = de_name e" "8 + ?n \<le> sl_len sl" "get_le32 off leaf \<noteq> 0" using lv nl by simp_all
    have f: "off + 8 + ?n \<le> length leaf" using nm(2) b Cons.prems(2) by linarith
    have ok: "raw_ok hft ?raw e" using lv nl hd by (intro packed_entry) simp_all
    have "leaf_entries_loop leaf hft v s usable off = Ok ((name_hash (de_name e) v s, ?raw) # ps)"
      using fit hd rl b ps(1) nm f nl by (subst leaf_entries_loop.simps) (simp add: Let_def get_slice_def)
    moreover have "length ?raw \<le> sl_len sl"
    proof -
      have "length ?raw = entry_rec_len ?n" using ok unfolding raw_ok_def by blast
      then show ?thesis using entry_rec_len_le [of ?n "sl_len sl"] nm(2) b by linarith
    qed
    ultimately show ?thesis using Some ps ok b by auto
  qed
qed

lemma scan_usable_mod: "scan hft buf usable off = Some slots \<Longrightarrow> off mod 4 = 0 \<Longrightarrow> usable mod 4 = 0"
proof (induction slots arbitrary: off)
  case Nil
  then show ?case by (subst (asm) scan.simps) (auto split: option.splits if_splits)
next
  case (Cons sl slots)
  have "off \<noteq> usable" by (rule scan_ne [OF Cons.prems(1)])
  then have sl: "slot_at hft buf usable off = Some sl" "scan hft buf usable (off + sl_len sl) = Some slots" using scan_step [OF Cons.prems(1)] by auto
  show ?case using Cons.IH [OF sl(2)] slot_at_bounds [OF sl(1)] Cons.prems(2) by (simp add: mod_add_eq [symmetric])
qed

lemma slot_at_packed:
  assumes "raw_ok hft raw e" "off + n \<le> usable" "usable \<le> length out" "length raw \<le> n" "n mod 4 = 0" "n < 65536"
  shows "slot_at hft (put (off + 4) (u16_to_le (word_of_nat n)) (put off raw out)) usable off = Some \<lparr>sl_off = off, sl_len = n, sl_entry = Some e\<rparr>"
proof -
  let ?o = "put off raw out" and ?b = "put (off + 4) (u16_to_le (word_of_nat n)) (put off raw out)"
  have lr: "8 + length (de_name e) \<le> length raw" using assms(1) entry_rec_len_bounds(1) by (simp add: raw_ok_def)
  have fo: "off + length raw \<le> length out" "length ?o = length out" using assms(2-4) by simp_all
  have g: "get_le32 off ?b = get_le32 0 raw"
  proof -
    have "get_le32 off ?b = get_le32 off ?o" using fo lr by (simp add: codec_simps)
    then show ?thesis using slice_put_inside [of off raw out 4 0] fo(1) lr by (simp add: get_le32_def)
  qed
  have r: "unat (get_le16 (off + 4) ?b) = n" using fo lr assms(6) by (simp add: codec_simps unat_of_nat)
  have k: "?b ! (off + 6) = raw ! 6" "?b ! (off + 7) = raw ! 7" using fo lr by (simp_all add: nth_put)
  have sl: "slice (off + 8) (off + 8 + length (de_name e)) ?b = de_name e"
  proof -
    have "slice (off + 8) (off + 8 + length (de_name e)) ?b = slice (off + 8) (off + 8 + length (de_name e)) ?o" using fo lr by (simp add: slice_simps)
    then show ?thesis using slice_put_inside [of off raw out "8 + length (de_name e)" 8] fo(1) lr assms(1) by (simp add: raw_ok_def add.assoc)
  qed
  show ?thesis
    using assms g r k sl lr fo by (cases e) (auto simp: slot_at_def Let_def raw_ok_def)
qed


text \<open>Packing entries into a leaf: what was below stays, and the area from the offset scans as exactly these entries.\<close>

lemma pack_loop_scan:
  "list_all2 (raw_ok hft) raws es \<Longrightarrow> raws \<noteq> [] \<Longrightarrow> off + sum_list (map length raws) \<le> usable \<Longrightarrow> usable \<le> length out \<Longrightarrow>
   usable < 65536 \<Longrightarrow> off mod 4 = 0 \<Longrightarrow> usable mod 4 = 0 \<Longrightarrow>
   \<exists>out' slots. pack_loop usable raws off out = Ok out' \<and> length out' = length out \<and> take off out' = take off out \<and>
     scan hft out' usable off = Some slots \<and> live slots = es"
proof (induction raws arbitrary: es off out)
  case (Cons raw raws)
  obtain e es' where es: "es = e # es'" "raw_ok hft raw e" "list_all2 (raw_ok hft) raws es'" using Cons.prems(1) by (auto simp: list_all2_Cons1)
  define n where "n = (if raws = [] then usable - off else length raw)"
  have lr: "8 \<le> length raw" "length raw mod 4 = 0" using es(2) entry_rec_len_bounds [of "length (de_name e)"] by (simp_all add: raw_ok_def)
  have fit: "off + length raw \<le> usable" "off + sum_list (map length raws) + length raw \<le> usable" using Cons.prems(3) by simp_all
  have n: "length raw \<le> n" "off + n \<le> usable" "n mod 4 = 0" "n < 65536" "off + n + sum_list (map length raws) \<le> usable" "(off + n) mod 4 = 0"
    using fit lr Cons.prems(5-7) by (auto simp: n_def mod_add_eq [symmetric])
  let ?o = "put (off + 4) (u16_to_le (word_of_nat n)) (put off raw out)"
  have lo: "length ?o = length out" using fit lr Cons.prems(4) by simp
  have t: "take off ?o = take off out" using fit lr Cons.prems(4) by (simp add: put_def)
  have sl: "slot_at hft ?o usable off = Some \<lparr>sl_off = off, sl_len = n, sl_entry = Some e\<rparr>"
    by (rule slot_at_packed [OF es(2) n(2) Cons.prems(4) n(1,3,4)])
  have run: "pack_loop usable (raw # raws) off out = pack_loop usable raws (off + n) ?o"
    using fit lr Cons.prems(4) by (simp add: put_checked_def n_def [symmetric] Let_def)
  show ?case
  proof (cases "raws = []")
    case True
    then have "off + n = usable" using fit by (simp add: n_def)
    then have "scan hft ?o usable off = Some [\<lparr>sl_off = off, sl_len = n, sl_entry = Some e\<rparr>]" by (intro scan_Cons [OF sl]) simp
    then show ?thesis using run True lo t es by simp
  next
    case False
    then obtain out' slots where o: "pack_loop usable raws (off + n) ?o = Ok out'" "length out' = length ?o" "take (off + n) out' = take (off + n) ?o"
      "scan hft out' usable (off + n) = Some slots" "live slots = es'"
      using Cons.IH [OF es(3) False n(5), of ?o] Cons.prems(4,5,7) n(6) lo by auto
    have "slot_at hft out' usable off = Some \<lparr>sl_off = off, sl_len = n, sl_entry = Some e\<rparr>" by (rule slot_at_below [OF sl o(3,2)]) simp
    then have sc: "scan hft out' usable off = Some (\<lparr>sl_off = off, sl_len = n, sl_entry = Some e\<rparr> # slots)" using o(4) by (intro scan_Cons) simp_all
    have "take off out' = take off (take (off + n) out')" by simp
    also have "\<dots> = take off out" unfolding o(3) using t by simp
    finally show ?thesis using run o(1,2,5) sc lo es(1) by auto
  qed
qed simp

lemma write_packed_leaf_scan:
  assumes "list_all2 (raw_ok hft) raws es" "raws \<noteq> []" "sum_list (map length raws) \<le> block_size - tail" "tail \<le> block_size" "block_size < 65536" "(block_size - tail) mod 4 = 0"
  obtains out slots where "write_packed_leaf raws block_size tail = Ok out" "length out = block_size" "scan hft out (block_size - tail) 0 = Some slots" "live slots = es"
proof -
  have "\<exists>out slots. pack_loop (block_size - tail) raws 0 (replicate block_size 0) = Ok out \<and> length out = length (replicate block_size (0 :: u8)) \<and>
    take 0 out = take 0 (replicate block_size 0) \<and> scan hft out (block_size - tail) 0 = Some slots \<and> live slots = es"
    using assms(3-6) by (intro pack_loop_scan [OF assms(1,2)]) auto
  then show ?thesis using assms(4) that by (auto simp: write_packed_leaf_def)
qed

section \<open>The split point\<close>

lemma split_point_Some:
  "split_point ps = Some m \<Longrightarrow> 0 < m \<and> m < length ps \<and> major (fst (ps ! (m - 1))) \<noteq> major (fst (ps ! m))"
  unfolding split_point_def Let_def by (auto simp: find_Some_iff)

lemma split_candidates:
  assumes "0 < m" "m < n"
  shows "m \<in> set (concat (map (\<lambda>d. [n div 2 + d, wrapping_sub_usize (n div 2) d]) [0 ..< n]))"
proof (cases "n div 2 \<le> m")
  case True
  then have "m = n div 2 + (m - n div 2)" "m - n div 2 < n" using assms by linarith+
  then show ?thesis by auto
next
  case False
  then have "m = wrapping_sub_usize (n div 2) (n div 2 - m)" "n div 2 - m < n" using assms by (auto simp: wrapping_sub_usize_def)
  then show ?thesis by auto
qed

lemma split_point_None:
  assumes "split_point ps = None" "p \<in> set ps" "q \<in> set ps"
  shows "major (fst p) = major (fst q)"
proof -
  have adj: "major (fst (ps ! (m - 1))) = major (fst (ps ! m))" if "0 < m" "m < length ps" for m
    using assms(1) split_candidates [OF that] that by (auto simp: split_point_def Let_def find_None_iff)
  have "major (fst (ps ! i)) = major (fst (ps ! 0))" if "i < length ps" for i
    using that
  proof (induction i)
    case (Suc i)
    then show ?case using adj [of "Suc i"] by simp
  qed simp
  then show ?thesis using assms(2,3) by (metis in_set_conv_nth)
qed

section \<open>A split keeps every name and separates the hashes\<close>

definition leaf_names :: "bool \<Rightarrow> nat \<Rightarrow> bytes \<Rightarrow> dir_entry list option" where
  "leaf_names hft tail block = (if tail \<le> length block then map_option live (scan hft block (length block - tail) 0) else None)"

lemma sorted_halves:
  assumes "sorted (map f xs)" "0 < m" "m < length xs" "f (xs ! (m - 1)) \<noteq> f (xs ! m)"
  shows "x \<in> set (take m xs) \<Longrightarrow> f x < f (xs ! m)" "y \<in> set (drop m xs) \<Longrightarrow> f (xs ! m) \<le> f y"
proof -
  have mono: "f (xs ! i) \<le> f (xs ! j)" if "i \<le> j" "j < length xs" for i j
    using sorted_nth_mono [OF assms(1), of i j] that by simp
  show "f x < f (xs ! m)" if "x \<in> set (take m xs)"
  proof -
    have "\<exists>i < length (take m xs). take m xs ! i = x" using that unfolding in_set_conv_nth .
    then obtain i where "i < m" "x = xs ! i" using assms(3) by auto
    then have "f x \<le> f (xs ! (m - 1))" using mono [of i "m - 1"] assms(2,3) by simp
    also have "\<dots> < f (xs ! m)" using mono [of "m - 1" m] assms by simp
    finally show ?thesis .
  qed
  show "f (xs ! m) \<le> f y" if "y \<in> set (drop m xs)"
  proof -
    have "\<exists>i < length (drop m xs). drop m xs ! i = y" using that unfolding in_set_conv_nth .
    then obtain i where "i < length xs - m" "y = xs ! (m + i)" by auto
    then show ?thesis using mono [of m "m + i"] by simp
  qed
qed

lemma sum_list_part:
  fixes f :: "'a \<Rightarrow> nat"
  shows "sum_list (map f (take m xs)) \<le> sum_list (map f xs)" "sum_list (map f (drop m xs)) \<le> sum_list (map f xs)"
proof -
  have "sum_list (map f (take m xs)) + sum_list (map f (drop m xs)) = sum_list (map f xs)"
    by (metis append_take_drop_id map_append sum_list_append)
  then show "sum_list (map f (take m xs)) \<le> sum_list (map f xs)" "sum_list (map f (drop m xs)) \<le> sum_list (map f xs)" by linarith+
qed

definition dirent_hash :: "hash_version \<Rightarrow> u32 list \<Rightarrow> dir_entry \<Rightarrow> u32" where
  "dirent_hash v hseed e = major (name_hash (de_name e) v hseed)"

text \<open>The plan in terms of the sorted entries: the packed bytes, each with the directory entry it stands for.\<close>

lemma plan_leaf_split_sorted:
  assumes "leaf_names hft tail leaf = Some es"
  obtains qs es' where
    "plan_leaf_split leaf v hseed hft (length leaf) tail =
     (if length es < 2 then Err (Corrupt ''htree leaf split needs >=2 entries; caller's overflow may be spurious'')
      else and_then (ok_or (split_point qs) (Corrupt ''htree leaf split: every name in the leaf has the same hash'')) (\<lambda>mid.
       and_then (write_packed_leaf (map snd (take mid qs)) (length leaf) tail) (\<lambda>l.
       and_then (write_packed_leaf (map snd (drop mid qs)) (length leaf) tail) (\<lambda>r.
       Ok \<lparr>left_bytes = l, right_bytes = r, split_out_hash = major (fst (qs ! mid))\<rparr>))))"
    "list_all2 (raw_ok hft) (map snd qs) es'" "mset es' = mset es" "map (dirent_hash v hseed) es' = map (\<lambda>p. major (fst p)) qs"
    "sorted (map (dirent_hash v hseed) es')" "sum_list (map length (map snd qs)) \<le> length leaf - tail" "(length leaf - tail) mod 4 = 0" "tail \<le> length leaf"
proof -
  let ?u = "length leaf - tail" and ?f = "\<lambda>p. major (fst p)"
  let ?R = "\<lambda>p e. fst p = name_hash (de_name e) v hseed \<and> raw_ok hft (snd p) e"
  obtain slots where sc: "scan hft leaf ?u 0 = Some slots" "live slots = es" "tail \<le> length leaf" using assms(1) by (auto simp: leaf_names_def split: if_splits)
  obtain ps where ps: "leaf_entries_loop leaf hft v hseed ?u 0 = Ok ps" "list_all2 ?R ps es" "sum_list (map (\<lambda>p. length (snd p)) ps) \<le> ?u"
    using leaf_entries_scan [OF sc(1), of v hseed] sc(2) by auto
  define qs where "qs = sort_key ?f ps"
  obtain es' where es': "list_all2 ?R qs es'" "mset es' = mset es" using list_all2_reorder_left_invariance [OF ps(2), of qs] by (auto simp: qs_def)
  have sumq: "sum_list (map length (map snd qs)) \<le> ?u"
  proof -
    have "mset (map (\<lambda>p. length (snd p)) qs) = mset (map (\<lambda>p. length (snd p)) ps)" by (simp add: qs_def)
    then have "sum_list (map (\<lambda>p. length (snd p)) qs) = sum_list (map (\<lambda>p. length (snd p)) ps)" by (metis sum_mset_sum_list)
    then show ?thesis using ps(3) by (simp add: comp_def)
  qed
  have "length ps = length es" using ps(2) by (rule list_all2_lengthD)
  then have run: "plan_leaf_split leaf v hseed hft (length leaf) tail =
     (if length es < 2 then Err (Corrupt ''htree leaf split needs >=2 entries; caller's overflow may be spurious'')
      else and_then (ok_or (split_point qs) (Corrupt ''htree leaf split: every name in the leaf has the same hash'')) (\<lambda>mid.
       and_then (write_packed_leaf (map snd (take mid qs)) (length leaf) tail) (\<lambda>l.
       and_then (write_packed_leaf (map snd (drop mid qs)) (length leaf) tail) (\<lambda>r.
       Ok \<lparr>left_bytes = l, right_bytes = r, split_out_hash = ?f (qs ! mid)\<rparr>))))"
    using ps(1) sc(3) by (simp add: plan_leaf_split_def htree_leaf_entries_def Let_def qs_def)
  have raws: "list_all2 (raw_ok hft) (map snd qs) es'" using es'(1) by (auto simp: list_all2_map1 elim: list_all2_mono)
  have hs: "map (dirent_hash v hseed) es' = map ?f qs"
    using es'(1) by (induction rule: list_all2_induct) (simp_all add: dirent_hash_def)
  moreover have "sorted (map ?f qs)" by (simp add: qs_def)
  ultimately show ?thesis using that [OF run raws es'(2) hs _ sumq scan_usable_mod [OF sc(1)] sc(3)] by simp
qed

lemma plan_leaf_split_parts:
  assumes "leaf_names hft tail leaf = Some es" "length leaf < 65536"
  shows "case plan_leaf_split leaf v hseed hft (length leaf) tail of
      Ok sp \<Rightarrow> \<exists>ls rs. leaf_names hft tail (left_bytes sp) = Some ls \<and> leaf_names hft tail (right_bytes sp) = Some rs \<and>
        length (left_bytes sp) = length leaf \<and> length (right_bytes sp) = length leaf \<and>
        mset (ls @ rs) = mset es \<and> ls \<noteq> [] \<and> (\<forall>e \<in> set ls. dirent_hash v hseed e < split_out_hash sp) \<and>
        (\<forall>e \<in> set rs. split_out_hash sp \<le> dirent_hash v hseed e) \<and> (\<exists>e \<in> set rs. dirent_hash v hseed e = split_out_hash sp)
    | Err _ \<Rightarrow> length es < 2 \<or> (\<forall>a \<in> set es. \<forall>b \<in> set es. dirent_hash v hseed a = dirent_hash v hseed b)
    | Panic \<Rightarrow> False"
proof -
  let ?u = "length leaf - tail" and ?h = "dirent_hash v hseed"
  obtain qs es' where q: "plan_leaf_split leaf v hseed hft (length leaf) tail =
     (if length es < 2 then Err (Corrupt ''htree leaf split needs >=2 entries; caller's overflow may be spurious'')
      else and_then (ok_or (split_point qs) (Corrupt ''htree leaf split: every name in the leaf has the same hash'')) (\<lambda>mid.
       and_then (write_packed_leaf (map snd (take mid qs)) (length leaf) tail) (\<lambda>l.
       and_then (write_packed_leaf (map snd (drop mid qs)) (length leaf) tail) (\<lambda>r.
       Ok \<lparr>left_bytes = l, right_bytes = r, split_out_hash = major (fst (qs ! mid))\<rparr>))))"
    "list_all2 (raw_ok hft) (map snd qs) es'" "mset es' = mset es" "map ?h es' = map (\<lambda>p. major (fst p)) qs"
    "sorted (map ?h es')" "sum_list (map length (map snd qs)) \<le> ?u" "?u mod 4 = 0" "tail \<le> length leaf"
    by (rule plan_leaf_split_sorted [OF assms(1), of v hseed])
  have lq: "length qs = length es'" using q(4) by (metis length_map)
  have hq: "major (fst (qs ! i)) = ?h (es' ! i)" if "i < length es'" for i using arg_cong [OF q(4), of "\<lambda>l. l ! i"] that lq by simp
  show ?thesis
  proof (cases "length es < 2 \<or> split_point qs = None")
    case True
    have "?h a = ?h b" if "split_point qs = None" "a \<in> set es" "b \<in> set es" for a b
    proof -
      have "a \<in> set es'" "b \<in> set es'" using that(2,3) q(3) by (metis set_mset_mset)+
      then obtain i j where "i < length es'" "a = es' ! i" "j < length es'" "b = es' ! j" by (auto simp: in_set_conv_nth)
      then show ?thesis using split_point_None [OF that(1), of "qs ! i" "qs ! j"] hq lq by simp
    qed
    then have all: "split_point qs = None \<Longrightarrow> \<forall>a \<in> set es. \<forall>b \<in> set es. ?h a = ?h b" by blast
    show ?thesis
    proof (cases "length es < 2")
      case False
      then have sp: "split_point qs = None" using True by simp
      then have "plan_leaf_split leaf v hseed hft (length leaf) tail = Err (Corrupt ''htree leaf split: every name in the leaf has the same hash'')"
        unfolding q(1) using False by simp
      then show ?thesis using all [OF sp] by (simp only: outcome.case) blast
    qed (simp add: q(1))
  next
    case False
    then obtain m where m: "split_point qs = Some m" "\<not> length es < 2" by auto
    have mh: "0 < m" "m < length es'" "?h (es' ! (m - 1)) \<noteq> ?h (es' ! m)" "major (fst (qs ! m)) = ?h (es' ! m)" using split_point_Some [OF m(1)] hq lq by auto
    note halves = list_all2_takeI [OF q(2), of m] list_all2_dropI [OF q(2), of m]
    obtain l ls where l: "write_packed_leaf (take m (map snd qs)) (length leaf) tail = Ok l" "length l = length leaf" "scan hft l ?u 0 = Some ls" "live ls = take m es'"
      by (rule write_packed_leaf_scan [OF halves(1) _ _ q(8) assms(2) q(7)]) (use mh lq q(6) sum_list_part(1) [of length m "map snd qs"] in \<open>auto simp: take_map\<close>)
    obtain r rs where r: "write_packed_leaf (drop m (map snd qs)) (length leaf) tail = Ok r" "length r = length leaf" "scan hft r ?u 0 = Some rs" "live rs = drop m es'"
      by (rule write_packed_leaf_scan [OF halves(2) _ _ q(8) assms(2) q(7)]) (use mh lq q(6) sum_list_part(2) [of length m "map snd qs"] in \<open>auto simp: drop_map\<close>)
    have res: "plan_leaf_split leaf v hseed hft (length leaf) tail = Ok \<lparr>left_bytes = l, right_bytes = r, split_out_hash = ?h (es' ! m)\<rparr>"
      unfolding q(1) using m l(1) r(1) mh(4) by (simp add: take_map drop_map)
    have "\<forall>e \<in> set (take m es'). ?h e < ?h (es' ! m)" "\<forall>e \<in> set (drop m es'). ?h (es' ! m) \<le> ?h e"
      using sorted_halves [OF q(5) mh(1-3)] by auto
    moreover have "es' ! m \<in> set (drop m es')" using mh(2) by (metis Cons_nth_drop_Suc list.set_intros(1))
    moreover have "mset (take m es' @ drop m es') = mset es" "take m es' \<noteq> []" using q(3) mh(1,2) by auto
    moreover have "leaf_names hft tail l = Some (take m es')" "leaf_names hft tail r = Some (drop m es')" using l r q(8) by (simp_all add: leaf_names_def)
    ultimately show ?thesis unfolding res using l(2) r(2) by (simp del: append_take_drop_id mset_append) blast
  qed
qed

text \<open>
  C22. Splitting a full leaf of an indexed directory (\<open>plan_leaf_split\<close>). For a leaf whose records tile its usable area, the two new
  blocks have the leaf's size, their records tile their usable areas, together they hold exactly the entries of the leaf (names, inodes and
  types), neither is empty, and the hash reported for the parent is above every hash on the left and the least hash on the right; so no hash is on both sides.
  The plan is refused only when the leaf holds fewer than two entries or all its names have one hash, and never panics.
\<close>

theorem plan_leaf_split_correct:
  assumes "leaf_names hft tail leaf = Some es" "length leaf < 65536"
  shows "case plan_leaf_split leaf v hseed hft (length leaf) tail of
      Ok sp \<Rightarrow> \<exists>ls rs. leaf_names hft tail (left_bytes sp) = Some ls \<and> leaf_names hft tail (right_bytes sp) = Some rs \<and>
        length (left_bytes sp) = length leaf \<and> length (right_bytes sp) = length leaf \<and>
        mset (ls @ rs) = mset es \<and> ls \<noteq> [] \<and> (\<forall>e \<in> set ls. dirent_hash v hseed e < split_out_hash sp) \<and>
        (\<forall>e \<in> set rs. split_out_hash sp \<le> dirent_hash v hseed e) \<and> (\<exists>e \<in> set rs. dirent_hash v hseed e = split_out_hash sp)
    | Err _ \<Rightarrow> length es < 2 \<or> (\<forall>a \<in> set es. \<forall>b \<in> set es. dirent_hash v hseed a = dirent_hash v hseed b)
    | Panic \<Rightarrow> False"
  using plan_leaf_split_parts [OF assms, of v hseed] .

section \<open>After the split every name is routed to its half\<close>

lemma route_in: "es \<noteq> [] \<Longrightarrow> route es h \<in> set es"
proof -
  assume "es \<noteq> []"
  moreover have "route es h \<in> set (hd es # filter (\<lambda>e. dx_hash e \<le> h) (tl es))" unfolding route_def by (rule last_in_set) simp
  ultimately show ?thesis by (cases es) auto
qed

text \<open>Between two hashes with no entry in between the route is the same; with one in between it is a later entry.\<close>

lemma route_same:
  assumes "a \<le> b" "\<forall>e \<in> set (tl es). a < dx_hash e \<longrightarrow> b < dx_hash e"
  shows "route es b = route es a"
proof -
  have "filter (\<lambda>e. dx_hash e \<le> b) (tl es) = filter (\<lambda>e. dx_hash e \<le> a) (tl es)"
    using assms by (intro filter_cong) (auto simp: not_le not_less intro: order_trans)
  then show ?thesis by (simp add: route_def)
qed

lemma route_above:
  assumes "dx_sorted es" "e \<in> set (tl es)" "a < dx_hash e" "dx_hash e \<le> b"
  shows "route es b \<in> set (tl es)" "a < dx_hash (route es b)"
proof -
  let ?l = "filter (\<lambda>e. dx_hash e \<le> b) (tl es)"
  have in_l: "e \<in> set ?l" using assms by simp
  then have ne: "?l \<noteq> []" by (metis empty_iff list.set(1))
  then have r: "route es b = last ?l" by (simp add: route_def)
  have "sorted_wrt (\<lambda>x y. dx_hash x < dx_hash y) ?l" using assms(1) by (simp add: dx_sorted_def sorted_wrt_filter)
  then have "\<forall>x \<in> set (butlast ?l). dx_hash x < dx_hash (last ?l)" using ne by (metis append_butlast_last_id sorted_wrt_append list.set_intros(1))
  moreover have "set ?l = insert (last ?l) (set (butlast ?l))" using ne by (metis append_butlast_last_id list.simps(15) set_append Un_insert_right list.set(1) sup_bot.right_neutral)
  ultimately have "dx_hash e \<le> dx_hash (last ?l)" using in_l by auto
  then show "a < dx_hash (route es b)" using assms(3) r by simp
  show "route es b \<in> set (tl es)" using ne last_in_set [OF ne] r by simp
qed

lemma route_not_above:
  assumes "es \<noteq> []" "route es a \<in> set (tl es)" "distinct (map dx_block es)"
  shows "dx_hash (route es a) \<le> a"
proof -
  let ?l = "filter (\<lambda>e. dx_hash e \<le> a) (tl es)"
  have "?l \<noteq> []"
  proof
    assume "?l = []"
    then have "hd es \<in> set (tl es)" using assms(2) by (simp add: route_def)
    then show False using assms(1,3) by (cases es) auto
  qed
  then have "route es a \<in> set ?l" by (auto simp: route_def dest: last_in_set)
  then show ?thesis by simp
qed

lemma route_split:
  assumes "dx_sorted es" "\<forall>e \<in> set (tl es). dx_hash e \<noteq> nh" "distinct (map dx_block es)" "dx_block (route es nh) = lb"
  shows "dx_block (route (insert_dx nh nb es) h) = (if dx_block (route es h) = lb then if nh \<le> h then nb else lb else dx_block (route es h))"
proof -
  have ne: "es \<noteq> []" using assms(1) by (simp add: dx_sorted_def)
  have inj: "x = y" if "x \<in> set es" "y \<in> set es" "dx_block x = dx_block y" for x y
    using assms(3) that by (auto simp: distinct_map dest: inj_onD)
  have iff: "(\<forall>e \<in> set (tl es). nh < dx_hash e \<longrightarrow> h < dx_hash e) \<longleftrightarrow> dx_block (route es h) = lb" if "nh \<le> h"
  proof
    assume "\<forall>e \<in> set (tl es). nh < dx_hash e \<longrightarrow> h < dx_hash e"
    then show "dx_block (route es h) = lb" using route_same [OF that] assms(4) by simp
  next
    assume "dx_block (route es h) = lb"
    then have eq: "route es h = route es nh" using assms(4) route_in [OF ne] by (intro inj) simp_all
    show "\<forall>e \<in> set (tl es). nh < dx_hash e \<longrightarrow> h < dx_hash e"
    proof (intro ballI impI, rule ccontr)
      fix e assume e: "e \<in> set (tl es)" "nh < dx_hash e" "\<not> h < dx_hash e"
      then have "route es h \<in> set (tl es)" "nh < dx_hash (route es h)" using route_above [OF assms(1), of e nh h] by (simp_all add: not_less)
      then show False using route_not_above [OF ne _ assms(3), of nh] eq by (simp add: not_le [symmetric])
    qed
  qed
  show ?thesis unfolding route_insert(2) [OF assms(1,2)] using iff by (auto split: if_splits)
qed

lemma insert_node:
  assumes "plan_insert_dx_entry_node node nh nb = Ok node'" "parse_node_entries node = Ok (cl, es)" "dx_sorted es"
  shows "\<forall>e \<in> set (tl es). dx_hash e \<noteq> nh" "length node' = length node" "take 8 node' = take 8 node"
    "\<exists>cl'. parse_node_entries node' = Ok (cl', insert_dx nh nb es)"
proof -
  obtain icl ies cl' where i: "index_at node 8 = Ok (icl, ies)" "ies \<noteq> []" "\<forall>e \<in> set (tl ies). dx_hash e \<noteq> nh" "length node' = length node"
    "take 8 node' = take 8 node" "8 + 8 \<le> length node" "index_at node' 8 = Ok (cl', insert_dx nh nb ies)"
    using assms(1) unfolding plan_insert_dx_entry_node_def by (rule insert_index)
  have "ies = es" using i(1,6) assms(2) by (simp add: parse_node_index)
  then show "\<forall>e \<in> set (tl es). dx_hash e \<noteq> nh" "length node' = length node" "take 8 node' = take 8 node" "\<exists>cl'. parse_node_entries node' = Ok (cl', insert_dx nh nb es)"
    using i by (auto simp: parse_node_index)
qed

lemma root_info_take:
  assumes "take n root' = take n root" "32 \<le> n" "length root' = length root"
  shows "parse_root_info root' = parse_root_info root"
proof -
  have "get_le32 24 root' = get_le32 24 root" unfolding get_field_defs using slice_take_cong [OF assms(1), of 28 24] assms(2) by simp
  moreover have at: "root' ! i = root ! i" if "i < 32" for i using that assms(2) arg_cong [OF assms(1), of "\<lambda>l. l ! i"] by simp
  then have "root' ! 28 = root ! 28" "root' ! 29 = root ! 29" "root' ! 30 = root ! 30" "root' ! 31 = root ! 31" by simp_all
  ultimately show ?thesis using assms(3) by (simp add: parse_root_info_def Let_def)
qed

lemma insert_root:
  assumes "plan_insert_dx_entry_root root (24 + unat (info_length info)) nh nb = Ok root'" "parse_root_info root = Ok info" "8 \<le> info_length info"
    "parse_root_entries root = Ok (cl, es)" "dx_sorted es"
  shows "\<forall>e \<in> set (tl es). dx_hash e \<noteq> nh" "length root' = length root" "parse_root_info root' = Ok info"
    "\<exists>cl'. parse_root_entries root' = Ok (cl', insert_dx nh nb es)"
proof -
  let ?off = "24 + unat (info_length info)"
  have off: "32 \<le> ?off" using assms(3) by (simp add: word_le_nat_alt)
  obtain icl ies cl' where i: "index_at root ?off = Ok (icl, ies)" "ies \<noteq> []" "\<forall>e \<in> set (tl ies). dx_hash e \<noteq> nh" "length root' = length root"
    "take ?off root' = take ?off root" "?off + 8 \<le> length root" "index_at root' ?off = Ok (cl', insert_dx nh nb ies)"
    using assms(1) unfolding plan_insert_dx_entry_root_def by (rule insert_index)
  have info: "parse_root_info root' = Ok info" using root_info_take [OF i(5) off i(4)] assms(2) by simp
  have "ies = es" using i(1,6) assms(2,4) by (simp add: parse_root_index)
  then show "\<forall>e \<in> set (tl es). dx_hash e \<noteq> nh" "length root' = length root" "parse_root_info root' = Ok info"
    "\<exists>cl'. parse_root_entries root' = Ok (cl', insert_dx nh nb es)"
    using i info by (auto simp: parse_root_index)
qed

text \<open>
  C23. Inserting a routing entry into a node of the index (\<open>plan_insert_dx_entry_node\<close>): when it succeeds, the new bytes parse, by the
  reader the lookups use, to the old entries with the new one in its place in hash order; the order is kept, the block keeps its
  length and everything before the index. A hash is then routed to the new block exactly when it is at least the new entry's hash and below every greater
  hash of the node, and every other hash is routed as before.
\<close>

theorem plan_insert_dx_entry_correct:
  assumes "plan_insert_dx_entry_node node nh nb = Ok node'" "parse_node_entries node = Ok (cl, es)" "dx_sorted es"
  shows "\<exists>cl' es'. parse_node_entries node' = Ok (cl', es') \<and> dx_sorted es' \<and> mset es' = mset es + {#\<lparr>dx_hash = nh, dx_block = nb\<rparr>#} \<and>
    length node' = length node \<and> take 8 node' = take 8 node \<and>
    (\<forall>h. find_entry_for_hash es' h =
       (if nh \<le> h \<and> (\<forall>e \<in> set (tl es). nh < dx_hash e \<longrightarrow> h < dx_hash e) then Ok \<lparr>dx_hash = nh, dx_block = nb\<rparr> else find_entry_for_hash es h))"
proof -
  note i = insert_node [OF assms]
  obtain pre post where "tl es = pre @ post" "insert_dx nh nb es = hd es # pre @ \<lparr>dx_hash = nh, dx_block = nb\<rparr> # post"
    by (rule insert_dx_split [OF assms(3) i(1)])
  moreover have "es = hd es # tl es" using assms(3) by (simp add: dx_sorted_def)
  ultimately have "mset (insert_dx nh nb es) = mset es + {#\<lparr>dx_hash = nh, dx_block = nb\<rparr>#}" by (metis add_mset_add_single mset.simps(2) mset_append union_mset_add_mset_right add_mset_commute)
  then show ?thesis using i(2-4) route_insert [OF assms(3) i(1)] find_entry_route [OF assms(3)] find_entry_route [OF route_insert(1) [OF assms(3) i(1)]] by auto
qed

text \<open>
  C10. Split and insertion together, for an index with no intermediate levels. Let every name of a leaf be one that a lookup finds in that leaf, let the leaf be split and
  the reported hash be inserted into the root with the new block. Then a lookup of any name of the leaf reaches the block that now holds its entry:
  the old block for the names packed on the left, the new block for those on the right; and a lookup that led to another leaf still does.
\<close>

theorem split_lookup_correct:
  assumes "leaf_names hft tail leaf = Some es" "length leaf < 65536"
    and "parse_root_info root = Ok info" "indirect_levels info = 0" "8 \<le> info_length info" "parse_root_entries root = Ok (cl, dxs)" "dx_sorted dxs" "distinct (map dx_block dxs)"
    and "\<forall>e \<in> set es. lookup_leaf_with (de_name e) root hseed u rd = Ok (Some lb)"
    and "plan_leaf_split leaf (effective_version (hash_version info) u) hseed hft (length leaf) tail = Ok sp"
    and "plan_insert_dx_entry_root root (24 + unat (info_length info)) (split_out_hash sp) nb = Ok root'"
  shows "\<exists>ls rs. leaf_names hft tail (left_bytes sp) = Some ls \<and> leaf_names hft tail (right_bytes sp) = Some rs \<and> mset (ls @ rs) = mset es \<and>
    (\<forall>e \<in> set ls. lookup_leaf_with (de_name e) root' hseed u rd = Ok (Some lb)) \<and>
    (\<forall>e \<in> set rs. lookup_leaf_with (de_name e) root' hseed u rd = Ok (Some nb)) \<and>
    (\<forall>name b. lookup_leaf_with name root hseed u rd = Ok (Some b) \<and> b \<noteq> lb \<longrightarrow> lookup_leaf_with name root' hseed u rd = Ok (Some b))"
proof -
  let ?v = "effective_version (hash_version info) u" and ?nh = "split_out_hash sp"
  let ?h = "\<lambda>name. major (name_hash name ?v hseed)"
  obtain ls rs where sp: "leaf_names hft tail (left_bytes sp) = Some ls" "leaf_names hft tail (right_bytes sp) = Some rs" "mset (ls @ rs) = mset es"
    "\<forall>e \<in> set ls. ?h (de_name e) < ?nh" "\<forall>e \<in> set rs. ?nh \<le> ?h (de_name e)" "\<exists>e \<in> set rs. ?h (de_name e) = ?nh"
    using plan_leaf_split_parts [OF assms(1,2), of ?v hseed] assms(10) by (auto simp: dirent_hash_def)
  have mem: "set es = set ls \<union> set rs" using sp(3) by (metis set_append set_mset_mset)
  note i = insert_root [OF assms(11,3,5-7)]
  obtain cl' where root': "parse_root_entries root' = Ok (cl', insert_dx ?nh nb dxs)" using i(4) by blast
  note srt' = route_insert(1) [OF assms(7) i(1), of nb]
  have old: "lookup_leaf_with name root hseed u rd = Ok (Some (dx_block (route dxs (?h name))))" for name
    using assms(3,4,6,7) find_entry_route [OF assms(7)] by (simp add: lookup_leaf_with_def Let_def dx_sorted_def)
  have new: "lookup_leaf_with name root' hseed u rd = Ok (Some (dx_block (route (insert_dx ?nh nb dxs) (?h name))))" for name
    using i(3) assms(4) root' srt' find_entry_route [OF srt'] by (simp add: lookup_leaf_with_def Let_def dx_sorted_def)
  have here: "dx_block (route dxs (?h (de_name e))) = lb" if "e \<in> set es" for e using assms(9) that old by simp
  obtain em where "em \<in> set rs" "?h (de_name em) = ?nh" using sp(6) by blast
  then have nh: "dx_block (route dxs ?nh) = lb" using here [of em] mem by simp
  note rt = route_split [OF assms(7) i(1) assms(8) nh, of nb]
  have "\<forall>e \<in> set ls. lookup_leaf_with (de_name e) root' hseed u rd = Ok (Some lb)" using sp(4) here mem unfolding new rt by (auto simp: not_le)
  moreover have "\<forall>e \<in> set rs. lookup_leaf_with (de_name e) root' hseed u rd = Ok (Some nb)" using sp(5) here mem unfolding new rt by auto
  moreover have "\<forall>name b. lookup_leaf_with name root hseed u rd = Ok (Some b) \<and> b \<noteq> lb \<longrightarrow> lookup_leaf_with name root' hseed u rd = Ok (Some b)"
    unfolding new old rt by auto
  ultimately show ?thesis using sp(1-3) by blast
qed

section \<open>A small directory\<close>

text \<open>A leaf with the names \<open>a\<close> and \<open>b\<close> that fill it, and a root with room for one more entry.\<close>

definition sample_leaf :: bytes where
  "sample_leaf = [11, 0, 0, 0, 12, 0, 1, 1, 97, 0, 0, 0, 12, 0, 0, 0, 12, 0, 1, 2, 98, 0, 0, 0]"

definition sample_root :: bytes where
  "sample_root = [0, 0, 0, 0, 0, 0, 0, 0, 0, 0, 0, 0, 0, 0, 0, 0, 0, 0, 0, 0, 0, 0, 0, 0, 0, 0, 0, 0, 0, 8, 0, 0,
     2, 0, 1, 0, 1, 0, 0, 0, 0, 0, 0, 0, 0, 0, 0, 0]"

definition sample_split :: leaf_split where
  "sample_split = \<lparr>left_bytes = [12, 0, 0, 0, 24, 0, 1, 2, 98, 0, 0, 0, 0, 0, 0, 0, 0, 0, 0, 0, 0, 0, 0, 0],
     right_bytes = [11, 0, 0, 0, 24, 0, 1, 1, 97, 0, 0, 0, 0, 0, 0, 0, 0, 0, 0, 0, 0, 0, 0, 0], split_out_hash = 3880473570\<rparr>"

definition sample_root_after :: bytes where
  "sample_root_after = [0, 0, 0, 0, 0, 0, 0, 0, 0, 0, 0, 0, 0, 0, 0, 0, 0, 0, 0, 0, 0, 0, 0, 0, 0, 0, 0, 0, 0, 8, 0, 0,
     2, 0, 2, 0, 1, 0, 0, 0] @ u32_to_le 3880473570 @ [2, 0, 0, 0]"

lemma sample_names: "leaf_names True 0 sample_leaf = Some [\<lparr>de_inode = 11, de_name = [97], de_type = RegFile\<rparr>, \<lparr>de_inode = 12, de_name = [98], de_type = Directory\<rparr>]"
  by code_simp
lemma sample_split_run: "plan_leaf_split sample_leaf Legacy [0, 0, 0, 0] True 24 0 = Ok sample_split"
  by code_simp
lemma le_bytes_eval: "u16_to_le 2 = [2, 0]" "u32_to_le 1 = [1, 0, 0, 0]" "u32_to_le 2 = [2, 0, 0, 0]" "\<not> (2 :: u16) \<le> 1"
  subgoal by code_simp
  subgoal by code_simp
  subgoal by code_simp
  subgoal by (simp add: word_le_nat_alt)
  done

lemmas insert_eval = plan_insert_dx_entry_generic_def DxCountLimit_parse_def DxEntry_parse_def get_slice_def put_checked_def put_def insert_dx_def
  first_hash_zero_def vec_insert_def get_field_defs slice_def u16_from_le_def u32_from_le_def le_bytes_eval Let_def parse_entries_from_def

lemma sample_root_facts: "parse_root_info sample_root = Ok \<lparr>reserved_zero = 0, hash_version = Legacy, info_length = 8, indirect_levels = 0, unused_flags = 0\<rparr>"
  "parse_root_entries sample_root = Ok (\<lparr>cl_limit = 2, cl_count = 1\<rparr>, [\<lparr>dx_hash = 0, dx_block = 1\<rparr>])"
  subgoal by code_simp
  subgoal by (simp add: parse_root_entries_def parse_root_info_def HashVersion_from_u8_def sample_root_def insert_eval)
  done

lemma sample_root_insert: "plan_insert_dx_entry_root sample_root 32 3880473570 2 = Ok sample_root_after"
  by (simp add: plan_insert_dx_entry_root_def sample_root_def sample_root_after_def insert_eval)

theorem plan_leaf_split_correct_witness:
  "plan_leaf_split sample_leaf Legacy [0, 0, 0, 0] True 24 0 = Ok sample_split \<and>
   (\<exists>ls rs. leaf_names True 0 (left_bytes sample_split) = Some ls \<and> leaf_names True 0 (right_bytes sample_split) = Some rs \<and> length (ls @ rs) = 2)"
proof -
  have l: "length sample_leaf = 24" by (simp add: sample_leaf_def)
  obtain ls rs where r: "leaf_names True 0 (left_bytes sample_split) = Some ls" "leaf_names True 0 (right_bytes sample_split) = Some rs"
    "mset (ls @ rs) = mset [\<lparr>de_inode = 11, de_name = [97], de_type = RegFile\<rparr>, \<lparr>de_inode = 12, de_name = [98], de_type = Directory\<rparr>]"
    using plan_leaf_split_correct [OF sample_names, of Legacy "[0, 0, 0, 0]"] unfolding l sample_split_run by auto
  then have "length (ls @ rs) = 2" using mset_eq_length [OF r(3)] by simp
  then show ?thesis using r sample_split_run by blast
qed

theorem split_lookup_correct_witness:
  "\<exists>ls rs. leaf_names True 0 (left_bytes sample_split) = Some ls \<and> leaf_names True 0 (right_bytes sample_split) = Some rs \<and>
    mset (ls @ rs) = mset [\<lparr>de_inode = 11, de_name = [97], de_type = RegFile\<rparr>, \<lparr>de_inode = 12, de_name = [98], de_type = Directory\<rparr>] \<and>
    (\<forall>e \<in> set ls. lookup_leaf (de_name e) sample_root_after [0, 0, 0, 0] (\<lambda>_. Panic) = Ok (Some 1)) \<and>
    (\<forall>e \<in> set rs. lookup_leaf (de_name e) sample_root_after [0, 0, 0, 0] (\<lambda>_. Panic) = Ok (Some 2))"
proof -
  have l: "length sample_leaf = 24" by (simp add: sample_leaf_def)
  have lk: "\<forall>e \<in> set [\<lparr>de_inode = 11, de_name = [97], de_type = RegFile\<rparr>, \<lparr>de_inode = 12, de_name = [98], de_type = Directory\<rparr>].
    lookup_leaf_with (de_name e) sample_root [0, 0, 0, 0] False (\<lambda>_. Panic) = Ok (Some 1)"
    by (simp add: lookup_leaf_with_def sample_root_facts find_entry_for_hash_def Let_def)
  have v: "effective_version Legacy False = Legacy" by simp
  have ins: "plan_insert_dx_entry_root sample_root (24 + unat (8 :: u8)) (split_out_hash sample_split) 2 = Ok sample_root_after"
    using sample_root_insert by (simp add: sample_split_def)
  have run: "plan_leaf_split sample_leaf (effective_version Legacy False) [0, 0, 0, 0] True (length sample_leaf) 0 = Ok sample_split"
    using sample_split_run by (simp only: v l)
  show ?thesis
    using split_lookup_correct [OF sample_names _ sample_root_facts(1) _ _ sample_root_facts(2) _ _ lk, of sample_split 2 sample_root_after] run ins
    unfolding lookup_leaf_def l by (simp only: dx_root_info.simps) (auto simp: dx_sorted_def)
qed

theorem plan_insert_dx_entry_correct_witness:
  "parse_node_entries (drop 24 sample_root) = Ok (\<lparr>cl_limit = 2, cl_count = 1\<rparr>, [\<lparr>dx_hash = 0, dx_block = 1\<rparr>]) \<and>
   (\<exists>cl' es'. parse_node_entries (drop 24 sample_root_after) = Ok (cl', es') \<and> dx_sorted es' \<and>
     find_entry_for_hash es' 3880473569 = Ok \<lparr>dx_hash = 0, dx_block = 1\<rparr> \<and> find_entry_for_hash es' 3880473570 = Ok \<lparr>dx_hash = 3880473570, dx_block = 2\<rparr>)"
proof -
  have a: "plan_insert_dx_entry_node (drop 24 sample_root) 3880473570 2 = Ok (drop 24 sample_root_after)"
    by (simp add: plan_insert_dx_entry_node_def sample_root_def sample_root_after_def insert_eval)
  have b: "parse_node_entries (drop 24 sample_root) = Ok (\<lparr>cl_limit = 2, cl_count = 1\<rparr>, [\<lparr>dx_hash = 0, dx_block = 1\<rparr>])"
    by (simp add: parse_node_entries_def sample_root_def insert_eval)
  obtain cl' es' where r: "parse_node_entries (drop 24 sample_root_after) = Ok (cl', es')" "dx_sorted es'"
    "\<forall>h. find_entry_for_hash es' h = (if 3880473570 \<le> h then Ok \<lparr>dx_hash = 3880473570, dx_block = 2\<rparr> else find_entry_for_hash [\<lparr>dx_hash = 0, dx_block = 1\<rparr>] h)"
    using plan_insert_dx_entry_correct [OF a b] by (auto simp: dx_sorted_def)
  have "find_entry_for_hash es' 3880473569 = Ok \<lparr>dx_hash = 0, dx_block = 1\<rparr>" "find_entry_for_hash es' 3880473570 = Ok \<lparr>dx_hash = 3880473570, dx_block = 2\<rparr>"
    using r(3) by (simp_all add: find_entry_for_hash_def)
  then show ?thesis using r(1,2) b by blast
qed

end
