(* ===== verification/Path.thy ===== *)
theory Path
  imports Htree Inline
begin

unbundle bit_operations_syntax

text \<open>
  Path resolution (\<open>src/path.rs\<close>): finding a name in one directory, through its index first where it has one, in its blocks in order, or
  inside its inode; and the walk from the root along the components of a path. The closure that reads an inode is the parameter
  \<open>read_inode\<close>; it is a function of the inode number, since nothing is written while a path is resolved.
\<close>

section \<open>Finding a name in a directory\<close>

definition EXT4_ROOT_INODE :: u32 where "EXT4_ROOT_INODE = 2"

definition has_filetype :: "superblock \<Rightarrow> bool" where
  "has_filetype sb \<longleftrightarrow> feature_incompat sb AND 0x2 \<noteq> 0"

definition unsigned_hash :: "superblock \<Rightarrow> bool" where
  "unsigned_hash sb \<longleftrightarrow> 0x164 \<le> length (sb_raw sb) \<and> get_le32 0x160 (sb_raw sb) AND 0x2 \<noteq> 0"

text \<open>
  Iterating over a block (\<open>DirBlockIter\<close>) until the name is met: what comes after the entry found is not read, so an error there is not seen.
\<close>

function dir_search :: "bytes \<Rightarrow> bool \<Rightarrow> bytes \<Rightarrow> nat \<Rightarrow> u32 option result" where
  "dir_search buf has_file_type name offset =
     (if offset + 8 > length buf then Ok None
      else let inode = get_le32 offset buf; rec_len = unat (get_le16 (offset + 4) buf) in
        if rec_len < 8 \<or> rec_len > length buf - offset \<or> rec_len mod 4 \<noteq> 0
        then Err (CorruptDirEntry ''bad rec_len'')
        else let name_len_lo = buf ! (offset + 6); type_or_namehi = buf ! (offset + 7);
                 is_csum_tail = (inode = 0 \<and> rec_len = 12 \<and> name_len_lo = 0 \<and> type_or_namehi = 0xDE);
                 entry_end = offset + rec_len in
          if is_csum_tail then Ok None
          else if inode = 0 then dir_search buf has_file_type name entry_end
          else let name_len = name_len_field has_file_type name_len_lo type_or_namehi in
            if 8 + name_len > rec_len then Err (CorruptDirEntry ''name overflows rec_len'')
            else if slice (offset + 8) (offset + 8 + name_len) buf = name then Ok (Some inode)
            else dir_search buf has_file_type name entry_end)"
  by pat_completeness auto
termination
  by (relation "measure (\<lambda>(buf, has_file_type, name, offset). length buf - offset)") auto

declare dir_search.simps [simp del]

definition map_dir :: "crc_fn \<Rightarrow> reader \<Rightarrow> superblock \<Rightarrow> inode \<Rightarrow> u64 \<Rightarrow> u64 option result" where
  "map_dir crc rd sb dir logical = map_logical_any crc (i_block_area dir) (i_flags dir) rd (block_size sb) logical"

definition read_phys :: "reader \<Rightarrow> superblock \<Rightarrow> u64 \<Rightarrow> bytes result" where
  "read_phys rd sb phys = rd (phys * ucast (block_size sb)) (unat (block_size sb))"

definition is_indexed :: "inode \<Rightarrow> bool" where
  "is_indexed dir \<longleftrightarrow> i_flags dir AND INDEX_FL \<noteq> 0"

text \<open>The loop of the linear scan, with \<open>n\<close> blocks left from \<open>logical\<close> on.\<close>

fun linear_loop :: "crc_fn \<Rightarrow> reader \<Rightarrow> superblock \<Rightarrow> u32 \<Rightarrow> inode \<Rightarrow> bytes \<Rightarrow> checksummer \<Rightarrow> nat \<Rightarrow> u64 \<Rightarrow> u32 result" where
  "linear_loop crc rd sb dir_ino dir name cs 0 logical = Err NotFound"
| "linear_loop crc rd sb dir_ino dir name cs (Suc n) logical =
     and_then (map_dir crc rd sb dir logical) (\<lambda>p.
     case p of
       None \<Rightarrow> linear_loop crc rd sb dir_ino dir name cs n (logical + 1)
     | Some phys \<Rightarrow>
         and_then (read_phys rd sb phys) (\<lambda>block.
         case parse_block_verified crc block (has_filetype sb) dir_ino (i_generation dir) cs of
           Ok entries \<Rightarrow>
             (case find (\<lambda>e. de_name e = name) entries of
                Some e \<Rightarrow> Ok (de_inode e)
              | None \<Rightarrow> linear_loop crc rd sb dir_ino dir name cs n (logical + 1))
         | Err e \<Rightarrow> if logical = 0 \<and> is_indexed dir then linear_loop crc rd sb dir_ino dir name cs n (logical + 1) else Err e
         | Panic \<Rightarrow> Panic))"

definition total_blocks :: "superblock \<Rightarrow> inode \<Rightarrow> nat" where
  "total_blocks sb dir = unat (div_ceil (i_size dir) (ucast (block_size sb)))"

definition find_entry_linear :: "crc_fn \<Rightarrow> reader \<Rightarrow> superblock \<Rightarrow> u32 \<Rightarrow> inode \<Rightarrow> bytes \<Rightarrow> checksummer \<Rightarrow> u32 result" where
  "find_entry_linear crc rd sb dir_ino dir name cs =
     (if block_size sb = 0 then Panic else linear_loop crc rd sb dir_ino dir name cs (total_blocks sb dir) 0)"

definition read_dx_block :: "crc_fn \<Rightarrow> reader \<Rightarrow> superblock \<Rightarrow> inode \<Rightarrow> u32 \<Rightarrow> bytes result" where
  "read_dx_block crc rd sb dir logical =
     and_then (and_then (map_dir crc rd sb dir (ucast logical)) (\<lambda>p. ok_or p (CorruptDirEntry ''htree pointed at sparse block''))) (read_phys rd sb)"

text \<open>The leaf the index names for a name; none when the directory has no first block or the index no entries.\<close>

definition htree_leaf :: "crc_fn \<Rightarrow> reader \<Rightarrow> superblock \<Rightarrow> inode \<Rightarrow> bytes \<Rightarrow> u32 option result" where
  "htree_leaf crc rd sb dir name =
     and_then (map_dir crc rd sb dir 0) (\<lambda>p.
     case p of
       None \<Rightarrow> Ok None
     | Some phys0 \<Rightarrow>
         and_then (read_phys rd sb phys0) (\<lambda>root_block.
         lookup_leaf_with name root_block (hash_seed sb) (unsigned_hash sb) (read_dx_block crc rd sb dir)))"

definition find_entry_htree :: "crc_fn \<Rightarrow> reader \<Rightarrow> superblock \<Rightarrow> u32 \<Rightarrow> inode \<Rightarrow> bytes \<Rightarrow> checksummer \<Rightarrow> u32 option result" where
  "find_entry_htree crc rd sb dir_ino dir name cs =
     and_then (htree_leaf crc rd sb dir name) (\<lambda>l.
     case l of
       None \<Rightarrow> Ok None
     | Some leaf_logical \<Rightarrow>
         and_then (and_then (map_dir crc rd sb dir (ucast leaf_logical)) (\<lambda>p. ok_or p (CorruptDirEntry ''htree leaf at sparse block''))) (\<lambda>phys.
         and_then (read_phys rd sb phys) (\<lambda>leaf.
         if enabled cs \<and> has_csum_tail leaf \<and> \<not> verify_dir_entry_tail crc cs dir_ino (i_generation dir) leaf
         then Err (BadChecksum ''directory block'')
         else dir_search leaf (has_filetype sb) name 0)))"

definition read_raw_inode :: "crc_fn \<Rightarrow> reader \<Rightarrow> superblock \<Rightarrow> u32 \<Rightarrow> inode \<Rightarrow> checksummer \<Rightarrow> bytes result" where
  "read_raw_inode crc rd sb ino expected cs =
     (if ino = 0 \<or> ino > inodes_count sb \<or> inodes_per_group sb = 0 then Err (InvalidInode ino)
      else let grp = ucast ((ino - 1) div inodes_per_group sb) :: u64 in
        if grp \<ge> block_group_count sb then Err (InvalidInode ino)
        else let bs = ucast (block_size sb) :: u64; (desc_block, desc_off) = descriptor_location sb grp in
          and_then (and_then (ok_or (checked_mul desc_block bs) (Corrupt ''group descriptor block number overflow'')) (\<lambda>pos. rd pos (unat bs))) (\<lambda>table.
          if desc_off + unat (desc_size sb) > length table then Err (Corrupt ''group descriptor outside its block'')
          else and_then (bgd_parse (slice desc_off (desc_off + unat (desc_size sb)) table) (desc_size sb)) (\<lambda>g.
            let isize = ucast (inode_size sb) :: u64; local = ucast ((ino - 1) mod inodes_per_group sb) :: u64 in
            and_then (ok_or (Option.bind (checked_mul (inode_table g) bs) (\<lambda>b. checked_add b (local * isize))) (Corrupt ''inode table offset overflow'')) (\<lambda>off.
            and_then (rd off (unat isize)) (\<lambda>raw.
            and_then (Inode_parse raw) (\<lambda>parsed.
            if enabled cs \<and> \<not> verify_inode crc cs ino (i_generation parsed) raw then Err (BadChecksum ''inode'')
            else if i_block_area parsed \<noteq> i_block_area expected \<or> i_size parsed \<noteq> i_size expected \<or> i_generation parsed \<noteq> i_generation expected
            then Err (Corrupt ''inline directory: the inode table disagrees with the inode being looked up'')
            else Ok raw))))))"

definition find_inline :: "crc_fn \<Rightarrow> reader \<Rightarrow> superblock \<Rightarrow> u32 \<Rightarrow> inode \<Rightarrow> bytes \<Rightarrow> checksummer \<Rightarrow> u32 result" where
  "find_inline crc rd sb dir_ino dir name cs =
     and_then (inline_dir_entries dir_ino dir [] (has_filetype sb)) (\<lambda>in_block.
     case find (\<lambda>e. de_name e = name) in_block of
       Some e \<Rightarrow> Ok (de_inode e)
     | None \<Rightarrow>
         if unat (i_size dir) \<le> INLINE_BLOCK_SIZE then Err NotFound
         else and_then (read_raw_inode crc rd sb dir_ino dir cs) (\<lambda>raw.
           and_then (dir_continuation rd dir raw (inode_size sb) (block_size sb)) (\<lambda>continuation.
           and_then (dir_search continuation (has_filetype sb) name 0) (\<lambda>r. ok_or r NotFound))))"

definition find_entry :: "crc_fn \<Rightarrow> reader \<Rightarrow> superblock \<Rightarrow> u32 \<Rightarrow> inode \<Rightarrow> bytes \<Rightarrow> checksummer \<Rightarrow> u32 result" where
  "find_entry crc rd sb dir_ino dir name cs =
     and_then (refuse_encrypted_names dir) (\<lambda>_.
     if has_inline_data dir then find_inline crc rd sb dir_ino dir name cs
     else and_then (if is_indexed dir then find_entry_htree crc rd sb dir_ino dir name cs else Ok None) (\<lambda>found.
       case found of Some ino \<Rightarrow> Ok ino | None \<Rightarrow> find_entry_linear crc rd sb dir_ino dir name cs))"

section \<open>Walking a path\<close>

text \<open>\<open>slice::split\<close>: one more piece than there are separators.\<close>

fun split_slash :: "bytes \<Rightarrow> bytes list" where
  "split_slash [] = [[]]"
| "split_slash (b # bs) = (if b = 47 then [] # split_slash bs else case split_slash bs of [] \<Rightarrow> [[b]] | p # ps \<Rightarrow> (b # p) # ps)"

definition split_path :: "bytes \<Rightarrow> bytes list" where
  "split_path path = filter (\<lambda>s. s \<noteq> []) (split_slash path)"

fun path_walk :: "crc_fn \<Rightarrow> reader \<Rightarrow> superblock \<Rightarrow> (u32 \<Rightarrow> inode result) \<Rightarrow> checksummer \<Rightarrow> u32 \<Rightarrow> bytes list \<Rightarrow> u32 result" where
  "path_walk crc rd sb read_inode cs current_ino [] = Ok current_ino"
| "path_walk crc rd sb read_inode cs current_ino (name # names) =
     and_then (read_inode current_ino) (\<lambda>inode.
     if \<not> is_dir inode then Err NotADirectory
     else and_then (find_entry crc rd sb current_ino inode name cs) (\<lambda>ino. path_walk crc rd sb read_inode cs ino names))"

definition lookup_bytes_with_csum :: "crc_fn \<Rightarrow> reader \<Rightarrow> superblock \<Rightarrow> (u32 \<Rightarrow> inode result) \<Rightarrow> bytes \<Rightarrow> checksummer \<Rightarrow> u32 result" where
  "lookup_bytes_with_csum crc rd sb read_inode path cs = path_walk crc rd sb read_inode cs EXT4_ROOT_INODE (split_path path)"

text \<open>A path given as a string is its UTF-8 bytes.\<close>

definition lookup_with_csum :: "crc_fn \<Rightarrow> reader \<Rightarrow> superblock \<Rightarrow> (u32 \<Rightarrow> inode result) \<Rightarrow> bytes \<Rightarrow> checksummer \<Rightarrow> u32 result" where
  "lookup_with_csum crc rd sb read_inode path cs = lookup_bytes_with_csum crc rd sb read_inode path cs"

definition path_lookup :: "crc_fn \<Rightarrow> reader \<Rightarrow> superblock \<Rightarrow> (u32 \<Rightarrow> inode result) \<Rightarrow> bytes \<Rightarrow> u32 result" where
  "path_lookup crc rd sb read_inode path = lookup_with_csum crc rd sb read_inode path \<lparr>seed = 0, enabled = False\<rparr>"

section \<open>The names of a directory\<close>

text \<open>
  What a directory holds, as a list: the entries of its blocks in order (a first block of an indexed directory that does not parse counts as
  empty), or those in its inode and its attribute. A name is looked up in that list.
\<close>

definition block_entries :: "crc_fn \<Rightarrow> reader \<Rightarrow> superblock \<Rightarrow> u32 \<Rightarrow> inode \<Rightarrow> checksummer \<Rightarrow> u64 \<Rightarrow> dir_entry list result" where
  "block_entries crc rd sb dir_ino dir cs logical =
     and_then (map_dir crc rd sb dir logical) (\<lambda>p.
     case p of
       None \<Rightarrow> Ok []
     | Some phys \<Rightarrow>
         and_then (read_phys rd sb phys) (\<lambda>block.
         case parse_block_verified crc block (has_filetype sb) dir_ino (i_generation dir) cs of
           Ok es \<Rightarrow> Ok es
         | Err e \<Rightarrow> if logical = 0 \<and> is_indexed dir then Ok [] else Err e
         | Panic \<Rightarrow> Panic))"

fun list_blocks :: "crc_fn \<Rightarrow> reader \<Rightarrow> superblock \<Rightarrow> u32 \<Rightarrow> inode \<Rightarrow> checksummer \<Rightarrow> nat \<Rightarrow> u64 \<Rightarrow> dir_entry list result" where
  "list_blocks crc rd sb dir_ino dir cs 0 logical = Ok []"
| "list_blocks crc rd sb dir_ino dir cs (Suc n) logical =
     and_then (block_entries crc rd sb dir_ino dir cs logical) (\<lambda>es.
     and_then (list_blocks crc rd sb dir_ino dir cs n (logical + 1)) (\<lambda>rest. Ok (es @ rest)))"

definition dir_listing :: "crc_fn \<Rightarrow> reader \<Rightarrow> superblock \<Rightarrow> u32 \<Rightarrow> inode \<Rightarrow> checksummer \<Rightarrow> dir_entry list result" where
  "dir_listing crc rd sb dir_ino dir cs =
     (if has_inline_data dir
      then and_then (if unat (i_size dir) \<le> INLINE_BLOCK_SIZE then Ok []
                     else and_then (read_raw_inode crc rd sb dir_ino dir cs) (\<lambda>raw. dir_continuation rd dir raw (inode_size sb) (block_size sb)))
             (\<lambda>c. inline_dir_entries dir_ino dir c (has_filetype sb))
      else list_blocks crc rd sb dir_ino dir cs (total_blocks sb dir) 0)"

definition name_lookup :: "dir_entry list \<Rightarrow> bytes \<Rightarrow> u32 result" where
  "name_lookup es name = (case find (\<lambda>e. de_name e = name) es of Some e \<Rightarrow> Ok (de_inode e) | None \<Rightarrow> Err NotFound)"

text \<open>An index is no obstacle when the leaf it names, if any, is a block of the directory after the first.\<close>

definition index_leads_inside :: "crc_fn \<Rightarrow> reader \<Rightarrow> superblock \<Rightarrow> inode \<Rightarrow> bytes \<Rightarrow> bool" where
  "index_leads_inside crc rd sb dir name \<longleftrightarrow>
     (case htree_leaf crc rd sb dir name of
        Ok None \<Rightarrow> True
      | Ok (Some l) \<Rightarrow> l \<noteq> 0 \<and> unat l < total_blocks sb dir \<and> (\<exists>p. map_dir crc rd sb dir (ucast l) = Ok (Some p))
      | _ \<Rightarrow> False)"

definition unique_names :: "dir_entry list \<Rightarrow> bool" where
  "unique_names es \<longleftrightarrow> distinct (map de_name es)"

lemma unique_names_inode: "unique_names es \<Longrightarrow> a \<in> set es \<Longrightarrow> b \<in> set es \<Longrightarrow> de_name a = de_name b \<Longrightarrow> a = b"
  by (auto simp: unique_names_def distinct_map dest: inj_onD)

lemma name_lookup_append:
  "name_lookup (es @ rest) name = (case find (\<lambda>e. de_name e = name) es of Some e \<Rightarrow> Ok (de_inode e) | None \<Rightarrow> name_lookup rest name)"
  by (induction es) (auto simp: name_lookup_def)

lemma name_lookup_in:
  "unique_names es \<Longrightarrow> e \<in> set es \<Longrightarrow> de_name e = name \<Longrightarrow> name_lookup es name = Ok (de_inode e)"
  by (auto simp: name_lookup_def find_None_iff find_Some_iff split: option.split dest: unique_names_inode)
    (metis nth_mem unique_names_inode)

lemma dir_search_iter:
  "dir_iter buf hft off = Ok es \<Longrightarrow> dir_search buf hft name off = Ok (map_option de_inode (find (\<lambda>e. de_name e = name) es))"
proof (induction buf hft off arbitrary: es rule: dir_iter.induct)
  case (1 buf hft off)
  show ?case
    using 1 by (subst dir_search.simps, subst (asm) (3) dir_iter.simps) (auto simp: Let_def outcome_simps split: if_splits)
qed

lemma block_entries_cases:
  assumes "block_entries crc rd sb dir_ino dir cs logical = Ok b"
  obtains (hole) "map_dir crc rd sb dir logical = Ok None" "b = []"
  | (parsed) p blk where "map_dir crc rd sb dir logical = Ok (Some p)" "read_phys rd sb p = Ok blk"
      "parse_block_verified crc blk (has_filetype sb) dir_ino (i_generation dir) cs = Ok b"
  | (skipped) p blk e where "map_dir crc rd sb dir logical = Ok (Some p)" "read_phys rd sb p = Ok blk"
      "parse_block_verified crc blk (has_filetype sb) dir_ino (i_generation dir) cs = Err e" "logical = 0" "is_indexed dir" "b = []"
proof -
  obtain p where m: "map_dir crc rd sb dir logical = Ok p" using assms by (auto simp: block_entries_def outcome_simps)
  show ?thesis
  proof (cases p)
    case None
    then show ?thesis using m assms hole by (simp add: block_entries_def)
  next
    case (Some q)
    then obtain blk where r: "read_phys rd sb q = Ok blk" using m assms by (auto simp: block_entries_def outcome_simps)
    show ?thesis
      using m Some r assms parsed [of q blk] skipped [of q blk]
      by (cases "parse_block_verified crc blk (has_filetype sb) dir_ino (i_generation dir) cs") (auto simp: block_entries_def split: if_splits)
  qed
qed

lemma linear_loop_listing:
  "list_blocks crc rd sb dir_ino dir cs n logical = Ok es \<Longrightarrow> linear_loop crc rd sb dir_ino dir name cs n logical = name_lookup es name"
proof (induction n arbitrary: logical es)
  case 0
  then show ?case by (simp add: name_lookup_def)
next
  case (Suc n)
  then obtain b rest where b: "block_entries crc rd sb dir_ino dir cs logical = Ok b" "list_blocks crc rd sb dir_ino dir cs n (logical + 1) = Ok rest" "es = b @ rest"
    by (auto simp: outcome_simps)
  note ih = Suc.IH [OF b(2)]
  show ?case unfolding b(3) name_lookup_append ih [symmetric] using b(1) by (cases rule: block_entries_cases) simp_all
qed

lemma list_blocks_part:
  "list_blocks crc rd sb dir_ino dir cs n logical = Ok es \<Longrightarrow> i < n \<Longrightarrow>
   \<exists>b. block_entries crc rd sb dir_ino dir cs (logical + of_nat i) = Ok b \<and> set b \<subseteq> set es"
proof (induction n arbitrary: logical es i)
  case (Suc n)
  then obtain b rest where b: "block_entries crc rd sb dir_ino dir cs logical = Ok b" "list_blocks crc rd sb dir_ino dir cs n (logical + 1) = Ok rest" "es = b @ rest"
    by (auto simp: outcome_simps)
  show ?case
  proof (cases i)
    case (Suc j)
    then show ?thesis using Suc.IH [OF b(2), of j] Suc.prems(2) b(3) by (auto simp: add_ac)
  qed (use b in auto)
qed simp

lemma find_entry_htree_listing:
  assumes "list_blocks crc rd sb dir_ino dir cs (total_blocks sb dir) 0 = Ok es" "unique_names es" "index_leads_inside crc rd sb dir name"
  obtains r where "find_entry_htree crc rd sb dir_ino dir name cs = Ok r" "\<And>ino. r = Some ino \<Longrightarrow> name_lookup es name = Ok ino"
proof (cases "htree_leaf crc rd sb dir name = Ok None")
  case True
  then show ?thesis by (intro that [of None]) (simp_all add: find_entry_htree_def)
next
  case False
  then obtain l p where l: "htree_leaf crc rd sb dir name = Ok (Some l)" "l \<noteq> 0" "unat l < total_blocks sb dir" "map_dir crc rd sb dir (ucast l) = Ok (Some p)"
    using assms(3) by (auto simp: index_leads_inside_def split: outcome.splits option.splits)
  have u: "(0 :: u64) + of_nat (unat l) = ucast l" by (simp add: unsigned_ucast_eq word_eq_iff_unsigned)
  have nz: "(ucast l :: u64) \<noteq> 0" 
  proof
    assume "(ucast l :: u64) = 0"
    moreover have "unat (ucast l :: u64) = unat l" by simp
    ultimately show False using l(2) by (simp add: unat_eq_zero)
  qed
  obtain b where b: "block_entries crc rd sb dir_ino dir cs (ucast l) = Ok b" "set b \<subseteq> set es"
    using list_blocks_part [OF assms(1) l(3)] unfolding u by blast
  then obtain blk where blk: "read_phys rd sb p = Ok blk" "parse_block_verified crc blk (has_filetype sb) dir_ino (i_generation dir) cs = Ok b"
    by (cases rule: block_entries_cases) (use l(4) nz in auto)
  then have "find_entry_htree crc rd sb dir_ino dir name cs = Ok (map_option de_inode (find (\<lambda>e. de_name e = name) b))"
    using l(1,4) dir_search_iter [of blk "has_filetype sb" 0 b name] by (auto simp: find_entry_htree_def parse_block_verified_def parse_block_def ok_or_def split: if_splits)
  moreover have "name_lookup es name = Ok ino" if "map_option de_inode (find (\<lambda>e. de_name e = name) b) = Some ino" for ino
    using that b(2) name_lookup_in [OF assms(2)] by (auto simp: find_Some_iff) (metis nth_mem subsetD)
  ultimately show ?thesis using that by blast
qed

lemma find_inline_listing:
  assumes "has_inline_data dir" "dir_listing crc rd sb dir_ino dir cs = Ok es"
  shows "find_inline crc rd sb dir_ino dir name cs = name_lookup es name"
proof -
  obtain c where c: "(if unat (i_size dir) \<le> INLINE_BLOCK_SIZE then Ok []
      else and_then (read_raw_inode crc rd sb dir_ino dir cs) (\<lambda>raw. dir_continuation rd dir raw (inode_size sb) (block_size sb))) = Ok c"
    "inline_dir_entries dir_ino dir c (has_filetype sb) = Ok es"
    using assms by (auto simp: dir_listing_def and_then_eq_Ok)
  have nil: "parse_block [] (has_filetype sb) = Ok []" by (simp add: parse_block_def dir_iter.simps)
  obtain b pre where b: "parse_block c (has_filetype sb) = Ok b" "es = pre @ b" "inline_dir_entries dir_ino dir [] (has_filetype sb) = Ok pre"
    using c(2) nil by (auto simp: inline_dir_entries_def outcome_simps Let_def split: if_splits)
  have tl: "dir_search c (has_filetype sb) name 0 = Ok (map_option de_inode (find (\<lambda>e. de_name e = name) b))"
    using b(1) by (intro dir_search_iter) (simp add: parse_block_def)
  show ?thesis
  proof (cases "find (\<lambda>e. de_name e = name) pre")
    case None
    show ?thesis
    proof (cases "unat (i_size dir) \<le> INLINE_BLOCK_SIZE")
      case True
      then have "b = []" using c(1) b(1) nil by simp
      then show ?thesis using None True b by (simp add: find_inline_def name_lookup_def)
    next
      case False
      then obtain raw where "read_raw_inode crc rd sb dir_ino dir cs = Ok raw" "dir_continuation rd dir raw (inode_size sb) (block_size sb) = Ok c"
        using c(1) by (auto simp: and_then_eq_Ok)
      then show ?thesis using None False b(2,3) tl
        by (auto simp: find_inline_def name_lookup_append ok_or_def) (auto simp: name_lookup_def split: option.split)
    qed
  qed (simp add: find_inline_def name_lookup_append b(2,3))
qed

lemma find_entry_listing:
  assumes "refuse_encrypted_names dir = Ok ()" "block_size sb \<noteq> 0" "dir_listing crc rd sb dir_ino dir cs = Ok es"
    "is_indexed dir \<and> \<not> has_inline_data dir \<longrightarrow> unique_names es \<and> index_leads_inside crc rd sb dir name"
  shows "find_entry crc rd sb dir_ino dir name cs = name_lookup es name"
proof (cases "has_inline_data dir")
  case True
  then show ?thesis using find_inline_listing [OF True assms(3)] assms(1) by (simp add: find_entry_def)
next
  case False
  then have lb: "list_blocks crc rd sb dir_ino dir cs (total_blocks sb dir) 0 = Ok es" using assms(3) by (simp add: dir_listing_def)
  have lin: "find_entry_linear crc rd sb dir_ino dir name cs = name_lookup es name"
    using assms(2) linear_loop_listing [OF lb] by (simp add: find_entry_linear_def)
  show ?thesis
  proof (cases "is_indexed dir")
    case True
    then have i: "unique_names es" "index_leads_inside crc rd sb dir name" using assms(4) False by auto
    obtain r where "find_entry_htree crc rd sb dir_ino dir name cs = Ok r" "\<And>ino. r = Some ino \<Longrightarrow> name_lookup es name = Ok ino"
      by (rule find_entry_htree_listing [OF lb i]) blast
    then show ?thesis using False True assms(1) lin by (cases r) (simp_all add: find_entry_def)
  qed (use False assms(1) lin in \<open>simp add: find_entry_def\<close>)
qed

text \<open>
  C9. Finding a name in a directory (\<open>find_entry\<close>) is a lookup in the list of the directory's entries, whichever way the directory is stored: in its
  blocks, in its blocks with an index, or inside its inode. The index is only a shortcut: whatever leaf it names, a name that is in the
  directory is found with its inode and a name that is not gives \<open>NotFound\<close>, as long as the leaf named is a block of the directory and names are unique.
\<close>

theorem find_entry_correct:
  assumes "refuse_encrypted_names dir = Ok ()" "block_size sb \<noteq> 0" "dir_listing crc rd sb dir_ino dir cs = Ok es"
    "is_indexed dir \<and> \<not> has_inline_data dir \<longrightarrow> unique_names es \<and> index_leads_inside crc rd sb dir name"
  shows "find_entry crc rd sb dir_ino dir name cs = (case find (\<lambda>e. de_name e = name) es of Some e \<Rightarrow> Ok (de_inode e) | None \<Rightarrow> Err NotFound)"
  using find_entry_listing [OF assms] by (simp add: name_lookup_def)

section \<open>Paths\<close>

definition component :: "bytes \<Rightarrow> bool" where
  "component c \<longleftrightarrow> c \<noteq> [] \<and> 47 \<notin> set c"

lemma split_slash_nonempty [simp]: "split_slash p \<noteq> []"
  by (cases p) (auto split: list.split)

lemma split_slash_free: "c \<in> set (split_slash p) \<Longrightarrow> 47 \<notin> set c"
  by (induction p arbitrary: c) (auto split: list.splits if_splits)

lemma split_slash_join: "split_slash (p @ 47 # q) = split_slash p @ split_slash q"
  by (induction p) (auto simp: append_eq_Cons_conv split: list.split)

lemma split_slash_single: "47 \<notin> set c \<Longrightarrow> split_slash c = [c]"
  by (induction c) auto

lemma split_path_join: "split_path (p @ 47 # q) = split_path p @ split_path q"
  by (simp add: split_path_def split_slash_join)

lemma split_path_components: "\<forall>c \<in> set cs. component c \<Longrightarrow> split_path (concat (map (\<lambda>c. 47 # c) cs)) = cs"
proof (induction cs)
  case (Cons c cs)
  then have c: "component c" by simp
  have "split_path (concat (map (\<lambda>c. 47 # c) cs)) = cs" using Cons by simp
  moreover have "split_slash (c @ concat (map (\<lambda>c. 47 # c) cs)) = c # tl (split_slash (concat (map (\<lambda>c. 47 # c) cs))) \<and>
    (cs \<noteq> [] \<longrightarrow> hd (split_slash (concat (map (\<lambda>c. 47 # c) cs))) = [])"
    using c split_slash_join [of c] by (cases cs) (auto simp: component_def split_slash_single)
  ultimately show ?case using c by (cases cs) (auto simp: split_path_def component_def)
qed (simp add: split_path_def)

lemma path_walk_append: "path_walk crc rd sb read_inode cs ino (xs @ ys) = and_then (path_walk crc rd sb read_inode cs ino xs) (\<lambda>i. path_walk crc rd sb read_inode cs i ys)"
proof (induction xs arbitrary: ino)
  case (Cons x xs)
  show ?case
    by (cases "read_inode ino") (auto simp: Cons and_then_assoc)
qed simp

text \<open>The namespace a set of inodes shows: what each directory maps its names to; a file has no map.\<close>

fun resolve :: "(u32 \<Rightarrow> (bytes \<Rightarrow> u32 option) option) \<Rightarrow> u32 \<Rightarrow> bytes list \<Rightarrow> u32 result" where
  "resolve ns ino [] = Ok ino"
| "resolve ns ino (c # cs) =
     (case ns ino of None \<Rightarrow> Err NotADirectory | Some m \<Rightarrow> (case m c of None \<Rightarrow> Err NotFound | Some i \<Rightarrow> resolve ns i cs))"

definition shows_directory :: "crc_fn \<Rightarrow> reader \<Rightarrow> superblock \<Rightarrow> u32 \<Rightarrow> inode \<Rightarrow> checksummer \<Rightarrow> (bytes \<Rightarrow> u32 option) \<Rightarrow> bool" where
  "shows_directory crc rd sb ino dir cs m \<longleftrightarrow>
     is_dir dir \<and> refuse_encrypted_names dir = Ok () \<and>
     (\<exists>es. dir_listing crc rd sb ino dir cs = Ok es \<and> unique_names es \<and> m = map_of (map (\<lambda>e. (de_name e, de_inode e)) es) \<and>
        (is_indexed dir \<and> \<not> has_inline_data dir \<longrightarrow> (\<forall>name. index_leads_inside crc rd sb dir name)))"

definition shows_namespace :: "crc_fn \<Rightarrow> reader \<Rightarrow> superblock \<Rightarrow> (u32 \<Rightarrow> inode result) \<Rightarrow> checksummer \<Rightarrow> u32 set \<Rightarrow> (u32 \<Rightarrow> (bytes \<Rightarrow> u32 option) option) \<Rightarrow> bool" where
  "shows_namespace crc rd sb read_inode cs inodes ns \<longleftrightarrow>
     block_size sb \<noteq> 0 \<and> EXT4_ROOT_INODE \<in> inodes \<and>
     (\<forall>ino \<in> inodes. \<exists>dir. read_inode ino = Ok dir \<and>
        (case ns ino of None \<Rightarrow> \<not> is_dir dir | Some m \<Rightarrow> shows_directory crc rd sb ino dir cs m \<and> ran m \<subseteq> inodes))"

lemma name_lookup_map: "name_lookup es name = (case map_of (map (\<lambda>e. (de_name e, de_inode e)) es) name of Some ino \<Rightarrow> Ok ino | None \<Rightarrow> Err NotFound)"
  by (induction es) (auto simp: name_lookup_def)

lemma path_walk_resolve:
  assumes "shows_namespace crc rd sb read_inode cs inodes ns"
  shows "ino \<in> inodes \<Longrightarrow> path_walk crc rd sb read_inode cs ino names = resolve ns ino names"
proof (induction names arbitrary: ino)
  case (Cons name names)
  obtain dir where dir: "read_inode ino = Ok dir"
    "case ns ino of None \<Rightarrow> \<not> is_dir dir | Some m \<Rightarrow> shows_directory crc rd sb ino dir cs m \<and> ran m \<subseteq> inodes"
    using assms Cons.prems by (auto simp: shows_namespace_def)
  show ?case
  proof (cases "ns ino")
    case (Some m)
    then obtain es where es: "dir_listing crc rd sb ino dir cs = Ok es" "unique_names es" "m = map_of (map (\<lambda>e. (de_name e, de_inode e)) es)"
      "is_indexed dir \<and> \<not> has_inline_data dir \<longrightarrow> (\<forall>name. index_leads_inside crc rd sb dir name)"
      and d: "is_dir dir" "refuse_encrypted_names dir = Ok ()" "ran m \<subseteq> inodes"
      using dir(2) by (auto simp: shows_directory_def)
    have bs: "block_size sb \<noteq> 0" using assms by (simp add: shows_namespace_def)
    have f: "find_entry crc rd sb ino dir name cs = (case m name of Some i \<Rightarrow> Ok i | None \<Rightarrow> Err NotFound)"
      using find_entry_listing [OF d(2) bs es(1)] es(2,4) unfolding es(3) name_lookup_map by simp
    show ?thesis
    proof (cases "m name")
      case (Some i)
      then have "i \<in> inodes" using d(3) by (auto intro: ranI)
      then show ?thesis using Cons.IH [of i] Some f dir(1) d(1) \<open>ns ino = Some m\<close> by simp
    qed (use f dir(1) d(1) Some in simp)
  qed (use dir in simp)
qed simp

text \<open>
  Splitting a path (\<open>split_path\<close>): every component is non-empty and free of slashes, joining two paths with a slash joins their
  components, however many slashes stand at either end, and a path built from components splits back into exactly them.
\<close>

theorem split_path_correct:
  "(\<forall>c \<in> set (split_path p). c \<noteq> [] \<and> 47 \<notin> set c) \<and> split_path (p @ 47 # q) = split_path p @ split_path q \<and>
   ((\<forall>c \<in> set cs. c \<noteq> [] \<and> 47 \<notin> set c) \<longrightarrow> split_path (concat (map (\<lambda>c. 47 # c) cs)) = cs)"
proof -
  have "c \<noteq> [] \<and> 47 \<notin> set c" if "c \<in> set (split_path p)" for c using that split_slash_free [of c p] by (auto simp: split_path_def)
  then show ?thesis using split_path_join split_path_components [of cs] by (auto simp: component_def)
qed

text \<open>
  C24. Resolving a path (\<open>lookup_bytes_with_csum\<close>) refines the walk through the namespace the disk shows: from the root inode on, each component is looked up
  in the map of the current directory; a component that is missing gives \<open>NotFound\<close>, one below a file \<open>NotADirectory\<close>. The path \<open>p/q\<close> leads where \<open>q\<close> leads from the inode of \<open>p\<close>.
\<close>

theorem lookup_refines_namespace:
  assumes "shows_namespace crc rd sb read_inode cs inodes ns"
  shows "lookup_bytes_with_csum crc rd sb read_inode path cs = resolve ns EXT4_ROOT_INODE (split_path path) \<and>
    lookup_bytes_with_csum crc rd sb read_inode (path @ 47 # q) cs =
      and_then (lookup_bytes_with_csum crc rd sb read_inode path cs) (\<lambda>ino. path_walk crc rd sb read_inode cs ino (split_path q))"
proof -
  have "EXT4_ROOT_INODE \<in> inodes" using assms by (simp add: shows_namespace_def)
  then show ?thesis using path_walk_resolve [OF assms] by (simp add: lookup_bytes_with_csum_def split_path_join path_walk_append)
qed

section \<open>An indexed root directory with one file\<close>

definition root_dir :: inode where
  "root_dir = sample_file\<lparr>i_mode := 0x41ED, i_size := 2048, i_flags := 0x1000, i_block_area := [10, 0, 0, 0, 11, 0, 0, 0] @ replicate 52 0\<rparr>"

definition root_block :: bytes where
  "root_block = [2, 0, 0, 0, 12, 0, 1, 2, 46, 0, 0, 0, 2, 0, 0, 0, 244, 3, 2, 2, 46, 46, 0, 0, 0, 0, 0, 0, 0, 8, 0, 0, 124, 0, 1, 0, 1, 0, 0, 0] @ replicate 984 0"

definition leaf_block_a :: bytes where
  "leaf_block_a = [12, 0, 0, 0, 0, 4, 1, 1, 97, 0, 0, 0] @ replicate 1012 0"

definition root_disk :: reader where
  "root_disk pos n = Ok (if pos = 10240 then root_block else leaf_block_a)"

definition typed_sb :: superblock where
  "typed_sb = example_sb\<lparr>feature_incompat := 2\<rparr>"

definition root_names :: "dir_entry list" where
  "root_names = [\<lparr>de_inode = 2, de_name = [46], de_type = Directory\<rparr>, \<lparr>de_inode = 2, de_name = [46, 46], de_type = Directory\<rparr>,
     \<lparr>de_inode = 12, de_name = [97], de_type = RegFile\<rparr>]"

lemma typed_sb_fields: "block_size typed_sb = 1024" "has_filetype typed_sb"
  by (simp_all add: typed_sb_def block_size_def has_filetype_def)

lemma root_dir_fields: "i_flags root_dir = 0x1000" "i_size root_dir = 2048" "is_dir root_dir" "is_indexed root_dir" "\<not> has_inline_data root_dir"
    "refuse_encrypted_names root_dir = Ok ()"
  by (simp_all add: root_dir_def is_dir_def inode_file_type_def S_IFMT_def S_IFDIR_def is_indexed_def INDEX_FL_def has_inline_data_def INLINE_DATA_FL_def
      refuse_encrypted_names_def ENCRYPT_FL_def)

lemma root_dir_map: "map_dir crc root_disk typed_sb root_dir 0 = Ok (Some 10)" "map_dir crc root_disk typed_sb root_dir 1 = Ok (Some 11)"
proof -
  have "ptr_at (i_block_area root_dir) 0 = Ok 10" "ptr_at (i_block_area root_dir) (Suc 0) = Ok 11" by code_simp+
  moreover have "power_of_two32 1024" by code_simp
  ultimately show "map_dir crc root_disk typed_sb root_dir 0 = Ok (Some 10)" "map_dir crc root_disk typed_sb root_dir 1 = Ok (Some 11)"
    by (simp_all add: map_dir_def map_logical_any_def root_dir_fields EXTENTS_FL_def typed_sb_fields ind_lookup_def DIRECT_COUNT_def hole_def)
qed

lemma root_disk_blocks: "read_phys root_disk typed_sb 10 = Ok root_block" "read_phys root_disk typed_sb 11 = Ok leaf_block_a"
  by (simp_all add: read_phys_def root_disk_def typed_sb_fields)

lemma root_fields:
  "length root_block = 1024" "get_le32 0 root_block = 2" "get_le16 4 root_block = 12" "get_le32 12 root_block = 2" "get_le16 16 root_block = 1012"
  "get_le32 24 root_block = 0" "get_le16 32 root_block = 124" "get_le16 34 root_block = 1" "get_le32 36 root_block = 1"
  "length leaf_block_a = 1024" "get_le32 0 leaf_block_a = 12" "get_le16 4 leaf_block_a = 1024"
  by (simp_all add: root_block_def leaf_block_a_def get_field_defs slice_def u32_from_le_def u16_from_le_def)

lemma root_parses: "parse_block root_block True = Ok [\<lparr>de_inode = 2, de_name = [46], de_type = Directory\<rparr>, \<lparr>de_inode = 2, de_name = [46, 46], de_type = Directory\<rparr>]"
    "parse_block leaf_block_a True = Ok [\<lparr>de_inode = 12, de_name = [97], de_type = RegFile\<rparr>]"
proof -
  have e: "dir_iter root_block True 1024 = Ok []" "dir_iter leaf_block_a True 1024 = Ok []" by (simp_all add: dir_iter.simps root_fields)
  have n: "root_block ! 6 = 1" "root_block ! 7 = 2" "root_block ! 18 = 2" "root_block ! 19 = 2" "slice 8 9 root_block = [46]" "slice 20 22 root_block = [46, 46]"
    "leaf_block_a ! 6 = 1" "leaf_block_a ! 7 = 1" "slice 8 9 leaf_block_a = [97]"
    by (simp_all add: root_block_def leaf_block_a_def slice_def)
  have "dir_iter root_block True 12 = Ok [\<lparr>de_inode = 2, de_name = [46, 46], de_type = Directory\<rparr>]"
    using e n by (subst dir_iter.simps) (simp add: root_fields name_len_field_def from_u8_def)
  then show "parse_block root_block True = Ok [\<lparr>de_inode = 2, de_name = [46], de_type = Directory\<rparr>, \<lparr>de_inode = 2, de_name = [46, 46], de_type = Directory\<rparr>]"
    using n unfolding parse_block_def by (subst dir_iter.simps) (simp add: root_fields name_len_field_def from_u8_def)
  show "parse_block leaf_block_a True = Ok [\<lparr>de_inode = 12, de_name = [97], de_type = RegFile\<rparr>]"
    using e n unfolding parse_block_def by (subst dir_iter.simps) (simp add: root_fields name_len_field_def from_u8_def)
qed

lemma root_listing: "dir_listing crc root_disk typed_sb 2 root_dir \<lparr>seed = 0, enabled = False\<rparr> = Ok root_names"
proof -
  have t: "total_blocks typed_sb root_dir = Suc (Suc 0)" by (simp add: total_blocks_def div_ceil_def root_dir_fields typed_sb_fields)
  show ?thesis using root_parses unfolding dir_listing_def t
    by (simp add: root_dir_fields block_entries_def root_dir_map root_disk_blocks parse_block_verified_def typed_sb_fields root_names_def)
qed

lemma root_index: "index_leads_inside crc root_disk typed_sb root_dir name"
proof -
  have t: "total_blocks typed_sb root_dir = 2" by (simp add: total_blocks_def div_ceil_def root_dir_fields typed_sb_fields)
  have n: "root_block ! 28 = 0" "root_block ! 29 = 8" "root_block ! 30 = 0" "root_block ! 31 = 0" by (simp_all add: root_block_def)
  have i: "parse_root_info root_block = Ok \<lparr>reserved_zero = 0, hash_version = Legacy, info_length = 8, indirect_levels = 0, unused_flags = 0\<rparr>"
    using n by (simp add: parse_root_info_def root_fields HashVersion_from_u8_def)
  have c: "DxCountLimit_parse (slice 32 36 root_block) = Ok \<lparr>cl_limit = 124, cl_count = 1\<rparr>"
    using root_fields field_of_slice [of 0 4 32 root_block] field_of_slice [of 2 4 32 root_block] by (simp add: DxCountLimit_parse_def)
  have e: "DxEntry_parse (slice 32 40 root_block) = Ok (entry_at root_block 32)" using dx_entry_slice [of 32 root_block] root_fields by simp
  have "parse_root_entries root_block = Ok (\<lparr>cl_limit = 124, cl_count = 1\<rparr>, [\<lparr>dx_hash = 0, dx_block = 1\<rparr>])"
    using i c e by (simp add: parse_root_entries_def root_fields parse_entries_from_def get_slice_def first_hash_zero_def entry_at_def word_less_nat_alt)
  then have "htree_leaf crc root_disk typed_sb root_dir name = Ok (Some 1)"
    using i by (simp add: htree_leaf_def root_dir_map root_disk_blocks lookup_leaf_with_def find_entry_for_hash_def Let_def)
  then show ?thesis using root_dir_map by (simp add: index_leads_inside_def t)
qed

theorem find_entry_correct_witness:
  "\<forall>crc. find_entry crc root_disk typed_sb 2 root_dir [97] \<lparr>seed = 0, enabled = False\<rparr> = Ok 12 \<and>
     find_entry crc root_disk typed_sb 2 root_dir [98] \<lparr>seed = 0, enabled = False\<rparr> = Err NotFound"
proof
  fix crc
  have "unique_names root_names" "block_size typed_sb \<noteq> 0" by (simp_all add: unique_names_def root_names_def typed_sb_fields)
  then show "find_entry crc root_disk typed_sb 2 root_dir [97] \<lparr>seed = 0, enabled = False\<rparr> = Ok 12 \<and>
     find_entry crc root_disk typed_sb 2 root_dir [98] \<lparr>seed = 0, enabled = False\<rparr> = Err NotFound"
    using find_entry_correct [OF root_dir_fields(6) _ root_listing, of crc "[97]"] find_entry_correct [OF root_dir_fields(6) _ root_listing, of crc "[98]"] root_index
    by (simp add: root_names_def)
qed

theorem split_path_correct_witness: "split_path [47, 97, 47, 98, 99] = [[97], [98, 99]]"
  using split_path_correct [of "[]" "[]" "[[97], [98, 99]]"] by simp

definition root_namespace :: "u32 \<Rightarrow> (bytes \<Rightarrow> u32 option) option" where
  "root_namespace ino = (if ino = 2 then Some (map_of [([46], 2), ([46, 46], 2), ([97], 12)]) else None)"

theorem lookup_refines_namespace_witness:
  "\<forall>crc. let lookup = (\<lambda>path. lookup_bytes_with_csum crc root_disk typed_sb (\<lambda>ino. Ok (if ino = 2 then root_dir else sample_file)) path \<lparr>seed = 0, enabled = False\<rparr>) in
     lookup [47, 97] = Ok 12 \<and> lookup [47, 98] = Err NotFound \<and> lookup [47, 97, 47, 98] = Err NotADirectory"
proof
  fix crc
  let ?ri = "\<lambda>ino. Ok (if ino = (2 :: u32) then root_dir else sample_file) :: inode result" and ?cs = "\<lparr>seed = 0, enabled = False\<rparr>"
  have d: "shows_directory crc root_disk typed_sb 2 root_dir ?cs (map_of [([46], 2), ([46, 46], 2), ([97], 12)])"
    using root_listing root_index root_dir_fields by (simp add: shows_directory_def root_names_def unique_names_def)
  have f: "\<not> is_dir sample_file" by (simp add: sample_file_def is_dir_def inode_file_type_def S_IFMT_def S_IFDIR_def)
  have "ran (map_of [([46], 2), ([46, 46], 2), ([97 :: u8], 12 :: u32)]) \<subseteq> {2, 12}" by (auto simp: ran_def split: if_splits)
  then have ns: "shows_namespace crc root_disk typed_sb ?ri ?cs {2, 12} root_namespace"
    using d f by (simp add: shows_namespace_def typed_sb_fields EXT4_ROOT_INODE_def root_namespace_def)
  have sp: "split_path [47, 97] = [[97]]" "split_path [47, 98] = [[98]]" "split_path [47, 97, 47, 98] = [[97], [98]]" by code_simp+
  show "let lookup = (\<lambda>path. lookup_bytes_with_csum crc root_disk typed_sb ?ri path ?cs) in
     lookup [47, 97] = Ok 12 \<and> lookup [47, 98] = Err NotFound \<and> lookup [47, 97, 47, 98] = Err NotADirectory"
    using lookup_refines_namespace [OF ns] by (simp add: sp EXT4_ROOT_INODE_def root_namespace_def)
qed

end
