(* ===== verification/Extent_Mut.thy ===== *)
theory Extent_Mut
  imports Extent
begin

unbundle bit_operations_syntax

text \<open>
  Extent tree mutation (\<open>src/extent_mut.rs\<close>): the planners that compute the new bytes of
  the inline root, of promoted and split nodes and of repacked trees. They read and
  allocate only through their parameters: \<open>rb\<close> is \<open>DeepReader::read_block\<close> and \<open>alloc\<close>
  the allocator closure with its captured state of type \<open>'s\<close>.
\<close>

section \<open>Encoding nodes\<close>

definition extent_entry_offset :: "nat \<Rightarrow> nat" where
  "extent_entry_offset i = EXT4_EXT_NODE_SIZE * (1 + i)"

definition split_phys_block :: "u64 \<Rightarrow> u16 \<times> u32" where
  "split_phys_block block = (ucast (drop_bit 32 block AND 0xFFFF), ucast (block AND 0xFFFFFFFF))"

datatype extent_mutation =
    WriteRoot bytes
  | WriteTreeBlock u64 bytes
  | AllocLeafBlock bytes
  | FreeLeafBlock u64
  | FreePhysicalRun u64 u32

definition encode_extent :: "extent \<Rightarrow> bytes" where
  "encode_extent e =
     (let ee_len = (if uninitialized e then len e + EXT_INIT_MAX_LEN else len e);
          (phys_hi, phys_lo) = split_phys_block (physical_block e)
      in u32_to_le (logical_block e) @ u16_to_le ee_len @ u16_to_le phys_hi @ u32_to_le phys_lo)"

definition encode_index :: "u32 \<Rightarrow> u64 \<Rightarrow> bytes" where
  "encode_index logical child_phys =
     (let (leaf_hi, leaf_lo) = split_phys_block child_phys
      in u32_to_le logical @ u32_to_le leaf_lo @ u16_to_le leaf_hi @ [0, 0])"

text \<open>The five header writes at the head of every node builder, and the entry loop.\<close>

definition put_header :: "u16 \<Rightarrow> u16 \<Rightarrow> u16 \<Rightarrow> u32 \<Rightarrow> bytes \<Rightarrow> bytes result" where
  "put_header entries mx depth generation buf =
     (if length buf < EXT4_EXT_NODE_SIZE then Panic
      else Ok (put 8 (u32_to_le generation) (put 6 (u16_to_le depth) (put 4 (u16_to_le mx)
             (put 2 (u16_to_le entries) (put 0 (u16_to_le EXT4_EXT_MAGIC) buf))))))"

fun put_entries :: "('e \<Rightarrow> bytes) \<Rightarrow> nat \<Rightarrow> 'e list \<Rightarrow> bytes \<Rightarrow> bytes result" where
  "put_entries enc i [] buf = Ok buf"
| "put_entries enc i (e # es) buf =
     and_then (put_checked (extent_entry_offset i) (enc e) buf) (put_entries enc (Suc i) es)"

definition build_root :: "extent_header \<Rightarrow> extent list \<Rightarrow> nat \<Rightarrow> bytes result" where
  "build_root header extents root_len =
     and_then (put_header (word_of_nat (length extents)) (eh_max header) (eh_depth header)
                 (eh_generation header) (replicate root_len 0))
       (put_entries encode_extent 0 extents)"

definition read_leaf_entries :: "bytes \<Rightarrow> (extent_header \<times> extent list) result" where
  "read_leaf_entries root =
     and_then (ExtentHeader_parse root) (\<lambda>header.
       if \<not> is_leaf header
       then Err (CorruptExtentTree ''extent_mut: multi-level tree mutation not yet supported'')
       else and_then (parse_entries Extent_parse ''leaf entry out of range'' root 0
                        (unat (eh_entries header))) (\<lambda>es. Ok (header, es)))"

section \<open>Merging and inserting into a leaf\<close>

definition max_extent_len :: "bool \<Rightarrow> nat" where
  "max_extent_len uninit = (if uninit then unat EXT_INIT_MAX_LEN - 1 else unat EXT_INIT_MAX_LEN)"

definition are_contiguous :: "extent \<Rightarrow> extent \<Rightarrow> bool" where
  "are_contiguous a b =
     (if uninitialized a \<noteq> uninitialized b then False
      else if unat (len a) + unat (len b) > max_extent_len (uninitialized a) then False
      else ext_end a = ext_start b \<and> physical_block a + ucast (len a) = physical_block b)"

definition check_no_overlap :: "extent list \<Rightarrow> extent \<Rightarrow> unit result" where
  "check_no_overlap entries new =
     (if \<exists>e \<in> set entries. \<not> (ext_end new \<le> ext_start e \<or> ext_start new \<ge> ext_end e)
      then Err (CorruptExtentTree ''extent overlaps existing'') else Ok ())"

text \<open>\<open>let right = entries.remove(i + 1); entries[i].length += right.length\<close>\<close>

definition merge_at :: "nat \<Rightarrow> extent list \<Rightarrow> extent list" where
  "merge_at i entries =
     (let right = entries ! Suc i; left = entries ! i
      in (vec_remove (Suc i) entries)[i := left\<lparr>len := len left + len right\<rparr>])"

definition insert_pos :: "extent list \<Rightarrow> extent \<Rightarrow> nat" where
  "insert_pos entries new =
     (case position (\<lambda>e. ext_start e > ext_start new) entries of
        Some p \<Rightarrow> p | None \<Rightarrow> length entries)"

definition insert_into_leaf_sorted :: "extent list \<Rightarrow> extent \<Rightarrow> extent list" where
  "insert_into_leaf_sorted entries new =
     (let pos = insert_pos entries new;
          entries = vec_insert pos new entries;
          entries = (if 0 < pos \<and> are_contiguous (entries ! (pos - 1)) (entries ! pos)
                     then merge_at (pos - 1) entries else entries);
          merged_pos = (case position (\<lambda>e. logical_block e = logical_block new \<or>
                            (ext_start e < ext_start new \<and> ext_end e > ext_start new)) entries of
                          Some p \<Rightarrow> p | None \<Rightarrow> length entries - 1)
      in if Suc merged_pos < length entries \<and>
            are_contiguous (entries ! merged_pos) (entries ! Suc merged_pos)
         then merge_at merged_pos entries else entries)"

text \<open>
  \<open>plan_insert_extent\<close> and \<open>plan_promote_leaf\<close> spell the overlap check and the sorted
  insert out inline, statement for statement those of \<open>check_no_overlap\<close> and
  \<open>insert_into_leaf_sorted\<close>.
\<close>

definition plan_insert_extent :: "bytes \<Rightarrow> extent \<Rightarrow> extent_mutation list result" where
  "plan_insert_extent root new =
     and_then (read_leaf_entries root) (\<lambda>(header, entries).
       and_then (check_no_overlap entries new) (\<lambda>_.
         let entries = insert_into_leaf_sorted entries new in
         if (word_of_nat (length entries) :: u16) > eh_max header
         then Err (CorruptExtentTree ''LEAF_FULL_NEEDS_PROMOTION: root has no slot for new extent'')
         else and_then (build_root header entries (length root)) (\<lambda>new_root.
                Ok [WriteRoot new_root])))"

section \<open>Promotion to depth one\<close>

record promotion_plan =
  leaf_bytes :: bytes
  new_root_bytes :: bytes

definition leaf_capacity :: "nat \<Rightarrow> bool \<Rightarrow> u16" where
  "leaf_capacity block_size reserved_tail_csum =
     (let body = (word_of_nat (block_size - (if reserved_tail_csum then 4 else 0)) :: u64)
      in ucast ((body - word_of_nat EXT4_EXT_NODE_SIZE) div word_of_nat EXT4_EXT_NODE_SIZE))"

definition build_leaf_block :: "u32 \<Rightarrow> extent list \<Rightarrow> nat \<Rightarrow> bool \<Rightarrow> bytes result" where
  "build_leaf_block generation extents block_size reserved_tail_csum =
     and_then (put_header (word_of_nat (length extents)) (leaf_capacity block_size reserved_tail_csum)
                 0 generation (replicate block_size 0))
       (put_entries encode_extent 0 extents)"

definition build_depth1_index_root :: "u32 \<Rightarrow> u64 \<Rightarrow> bytes result" where
  "build_depth1_index_root generation leaf_phys =
     and_then (put_header 1 4 1 generation (replicate 60 0)) (\<lambda>out.
       let (ei_leaf_hi, ei_leaf_lo) = split_phys_block leaf_phys
       in Ok (put 20 (u16_to_le ei_leaf_hi) (put 16 (u32_to_le ei_leaf_lo)
               (put 12 (u32_to_le 0) out))))"

definition plan_promote_leaf ::
    "bytes \<Rightarrow> extent \<Rightarrow> nat \<Rightarrow> u64 \<Rightarrow> bool \<Rightarrow> promotion_plan result" where
  "plan_promote_leaf root new block_size new_leaf_phys reserved_tail_csum =
     and_then (read_leaf_entries root) (\<lambda>(header, entries).
       and_then (check_no_overlap entries new) (\<lambda>_.
         let entries = insert_into_leaf_sorted entries new in
         if (word_of_nat (length entries) :: u16) > leaf_capacity block_size reserved_tail_csum
         then Err (CorruptExtentTree ''plan_promote_leaf: entry count exceeds leaf capacity'')
         else and_then (build_leaf_block (eh_generation header) entries block_size
                          reserved_tail_csum) (\<lambda>leaf.
                and_then (build_depth1_index_root (eh_generation header) new_leaf_phys) (\<lambda>nr.
                  Ok \<lparr>leaf_bytes = leaf, new_root_bytes = nr\<rparr>))))"

section \<open>Split, merge, free and initialize in the inline root\<close>

definition plan_split_extent :: "bytes \<Rightarrow> nat \<Rightarrow> u32 \<Rightarrow> extent_mutation list result" where
  "plan_split_extent root idx split_at =
     and_then (read_leaf_entries root) (\<lambda>(header, entries).
       if idx \<ge> length entries then Err (CorruptExtentTree ''split idx out of range'')
       else let e = entries ! idx; start = logical_block e; fin = start + ucast (len e) in
         if split_at \<le> start \<or> split_at \<ge> fin
         then Err (CorruptExtentTree ''split point outside extent'')
         else let left = \<lparr>logical_block = start, len = ucast (split_at - start),
                          physical_block = physical_block e, uninitialized = uninitialized e\<rparr>;
                  right = \<lparr>logical_block = split_at, len = ucast (fin - split_at),
                           physical_block = physical_block e + ucast (split_at - start),
                           uninitialized = uninitialized e\<rparr>;
                  entries = vec_insert (Suc idx) right (entries[idx := left])
              in if (word_of_nat (length entries) :: u16) > eh_max header
                 then Err (CorruptExtentTree ''LEAF_FULL_NEEDS_PROMOTION: split exceeds root capacity'')
                 else and_then (build_root header entries (length root)) (\<lambda>new_root.
                        Ok [WriteRoot new_root]))"

definition plan_merge_adjacent :: "bytes \<Rightarrow> nat \<Rightarrow> extent_mutation list result" where
  "plan_merge_adjacent root i =
     and_then (read_leaf_entries root) (\<lambda>(header, entries).
       if Suc i \<ge> length entries then Err (CorruptExtentTree ''merge idx out of range'')
       else if \<not> are_contiguous (entries ! i) (entries ! Suc i) then Ok []
       else and_then (build_root header (merge_at i entries) (length root)) (\<lambda>new_root.
              Ok [WriteRoot new_root]))"

definition plan_free_extent :: "bytes \<Rightarrow> nat \<Rightarrow> extent_mutation list result" where
  "plan_free_extent root idx =
     and_then (read_leaf_entries root) (\<lambda>(header, entries).
       if idx \<ge> length entries then Err (CorruptExtentTree ''free idx out of range'')
       else let removed = entries ! idx in
         and_then (build_root header (vec_remove idx entries) (length root)) (\<lambda>new_root.
           Ok [WriteRoot new_root,
               FreePhysicalRun (physical_block removed) (ucast (len removed))]))"

text \<open>
  The two loops of \<open>plan_initialize_range\<close>: the first cuts every uninitialized extent the
  range touches, the second merges a piece into its predecessor. \<open>u32\<close> ranges are
  expanded by \<open>u32_range\<close>.
\<close>

definition u32_range :: "u32 \<Rightarrow> u32 \<Rightarrow> u32 list" where
  "u32_range lo hi = map word_of_nat [unat lo ..< unat hi]"

definition init_piece :: "extent \<Rightarrow> u32 \<Rightarrow> u32 \<Rightarrow> bool \<Rightarrow> extent" where
  "init_piece e from to u =
     \<lparr>logical_block = from, len = ucast (to - from),
      physical_block = physical_block e + ucast (from - logical_block e), uninitialized = u\<rparr>"

definition init_cut :: "u32 \<Rightarrow> u32 \<Rightarrow> extent \<Rightarrow> extent list \<times> u32 list" where
  "init_cut first fin e =
     (let el = logical_block e; er = el + ucast (len e) in
      if \<not> uninitialized e \<or> er \<le> first \<or> el \<ge> fin then ([e], [])
      else let lo = max el first; hi = min er fin
           in ((if el < lo then [init_piece e el lo True] else []) @ [init_piece e lo hi False] @
               (if hi < er then [init_piece e hi er True] else []), u32_range lo hi))"

fun merge_push :: "extent list \<Rightarrow> extent \<Rightarrow> extent list" where
  "merge_push merged e =
     (if merged \<noteq> [] \<and> are_contiguous (last merged) e
      then butlast merged @ [(last merged)\<lparr>len := len (last merged) + len e\<rparr>]
      else merged @ [e])"

definition plan_initialize_range :: "bytes \<Rightarrow> u32 \<Rightarrow> u32 \<Rightarrow> (bytes \<times> u32 list) result" where
  "plan_initialize_range root first fin =
     and_then (read_leaf_entries root) (\<lambda>(header, entries).
       let cuts = map (init_cut first fin) entries;
           out = concat (map fst cuts); converted = concat (map snd cuts);
           merged = foldl merge_push [] out
       in if (word_of_nat (length merged) :: u16) > eh_max header
          then Err (CorruptExtentTree
                 ''LEAF_FULL_NEEDS_PROMOTION: initializing part of an extent exceeds root capacity'')
          else and_then (build_root (header\<lparr>eh_entries := word_of_nat (length merged)\<rparr>) merged
                           (length root)) (\<lambda>new_root. Ok (new_root, converted)))"

section \<open>Entry codecs\<close>

text \<open>
  What the node builders and the entry loops rely on of an entry format: twelve bytes,
  and parsing what was encoded gives the entry back when the format can express it.
\<close>

locale entry_codec =
  fixes enc :: "'e \<Rightarrow> bytes" and parse :: "bytes \<Rightarrow> 'e result" and valid :: "'e \<Rightarrow> bool"
  assumes enc_size: "length (enc e) = 12"
    and parse_enc: "valid e \<Longrightarrow> parse (enc e) = Ok e"
begin

lemma put_entries_length:
  "put_entries enc i es buf = Ok out \<Longrightarrow> length out = length buf"
  by (induction es arbitrary: i buf) (auto simp: outcome_simps enc_size)

lemma put_entries_frame:
  "put_entries enc i es buf = Ok out \<Longrightarrow> b \<le> extent_entry_offset i \<Longrightarrow> slice a b out = slice a b buf"
proof (induction es arbitrary: i buf)
  case Nil
  then show ?case by simp
next
  case (Cons e es)
  then obtain buf' where "extent_entry_offset i + 12 \<le> length buf"
    "buf' = put (extent_entry_offset i) (enc e) buf" "put_entries enc (Suc i) es buf' = Ok out"
    by (auto simp: outcome_simps enc_size)
  moreover have "b \<le> extent_entry_offset (Suc i)"
    using Cons.prems(2) by (simp add: extent_entry_offset_def)
  ultimately show ?case
    using Cons.IH [of "Suc i" buf'] Cons.prems(2) by (simp add: slice_simps enc_size)
qed

lemma put_entries_Ok_iff:
  "(\<exists>out. put_entries enc i es buf = Ok out) \<longleftrightarrow> es = [] \<or> 12 * (1 + i + length es) \<le> length buf"
proof (induction es arbitrary: i buf)
  case Nil
  then show ?case by simp
next
  case (Cons e es)
  show ?case
  proof (cases "extent_entry_offset i + 12 \<le> length buf")
    case True
    then have "length (put (extent_entry_offset i) (enc e) buf) = length buf"
      by (simp add: enc_size)
    with True Cons.IH [of "Suc i" "put (extent_entry_offset i) (enc e) buf"] show ?thesis
      by (auto simp: put_checked_def enc_size extent_entry_offset_def)
  next
    case False
    then show ?thesis by (auto simp: put_checked_def enc_size extent_entry_offset_def)
  qed
qed

lemma put_entries_never_err: "put_entries enc i es buf \<noteq> Err x"
  by (induction es arbitrary: i buf) (auto simp: outcome_simps put_checked_def)

text \<open>The entry loop of the readers returns the entries the builder wrote.\<close>

lemma parse_put_entries:
  "put_entries enc i es buf = Ok out \<Longrightarrow> \<forall>e \<in> set es. valid e \<Longrightarrow>
   parse_entries parse msg out i (length es) = Ok es"
proof (induction es arbitrary: i buf)
  case Nil
  then show ?case by simp
next
  case (Cons e es)
  let ?off = "extent_entry_offset i"
  from Cons.prems obtain buf' where fit: "?off + 12 \<le> length buf"
    and buf': "buf' = put ?off (enc e) buf" and rest: "put_entries enc (Suc i) es buf' = Ok out"
    by (auto simp: outcome_simps enc_size)
  have len: "length out = length buf"
    using put_entries_length [OF rest] fit by (simp add: buf' enc_size)
  have "slice ?off (?off + 12) out = slice ?off (?off + 12) buf'"
    using rest by (rule put_entries_frame) (simp add: extent_entry_offset_def)
  also have "\<dots> = enc e" using fit by (simp add: buf' slice_simps enc_size)
  finally have "slice ?off (?off + 12) out = enc e" .
  moreover have "parse_entries parse msg out (Suc i) (length es) = Ok es"
    using Cons.IH [OF rest] Cons.prems(2) by simp
  ultimately show ?case
    using fit len Cons.prems(2) parse_enc
    by (simp add: Let_def get_slice_def entry_off_def extent_entry_offset_def)
qed

end

context entry_codec
begin

lemma header_of_built:
  assumes "put_header n mx d g buf = Ok b" and "put_entries enc 0 es b = Ok out" and "n \<le> mx"
  shows "ExtentHeader_parse out = Ok \<lparr>eh_magic = EXT4_EXT_MAGIC, eh_entries = n, eh_max = mx,
    eh_depth = d, eh_generation = g\<rparr>"
proof -
  have len: "12 \<le> length buf" and b: "b = put 8 (u32_to_le g) (put 6 (u16_to_le d) (put 4 (u16_to_le mx)
      (put 2 (u16_to_le n) (put 0 (u16_to_le EXT4_EXT_MAGIC) buf))))"
    using assms(1) by (auto simp: put_header_def split: if_splits)
  have out: "length out = length buf" using put_entries_length [OF assms(2)] len b by simp
  have fr: "slice a c out = slice a c b" if "c \<le> 12" for a c
    using put_entries_frame [OF assms(2)] that by (simp add: extent_entry_offset_def)
  have "get_le16 0 out = get_le16 0 b" "get_le16 2 out = get_le16 2 b" "get_le16 4 out = get_le16 4 b"
    "get_le16 6 out = get_le16 6 b" "get_le32 8 out = get_le32 8 b"
    by (simp_all add: get_field_defs fr)
  moreover have "get_le16 0 b = EXT4_EXT_MAGIC" "get_le16 2 b = n" "get_le16 4 b = mx"
    "get_le16 6 b = d" "get_le32 8 b = g"
    using len by (simp_all add: b codec_simps)
  ultimately show ?thesis
    using len out assms(3) by (simp add: ExtentHeader_parse_def Let_def not_less)
qed

text \<open>Every builder is \<open>put_header\<close> and then \<open>put_entries\<close>; this is when it succeeds.\<close>

lemma build_Ok_iff:
  "(\<exists>out. and_then (put_header n mx d g (replicate k 0)) (put_entries enc 0 es) = Ok out)
   \<longleftrightarrow> 12 * (1 + length es) \<le> k"
  using put_entries_Ok_iff [of 0 es] by (auto simp: put_header_def outcome_simps)

end

text \<open>Physical block numbers have 48 bits on disk; splitting them loses nothing below that.\<close>

lemma join_split_phys:
  assumes "unat block < 2 ^ 48"
  shows "push_bit 32 (ucast (fst (split_phys_block block))) OR ucast (snd (split_phys_block block)) = block"
proof -
  have "unat (take_bit 48 block) = unat block"
    using assms by (simp add: unsigned_take_bit_eq take_bit_nat_eq_self)
  then have "take_bit 48 block = block" by (simp add: word_unat_eq_iff)
  then have high: "\<not> bit block n" if "48 \<le> n" for n
    using that by (metis bit_take_bit_iff not_le)
  have masks: "block AND 0xFFFFFFFF = take_bit 32 block"
    "drop_bit 32 block AND 0xFFFF = take_bit 16 (drop_bit 32 block)"
    by (simp_all add: take_bit_eq_mask mask_eq_exp_minus_1)
  have near: "n - 32 < 16" if "bit block n" for n
    using high [of n] that by (cases "48 \<le> n") auto
  show ?thesis
    unfolding split_phys_block_def masks
    by (rule bit_word_eqI) (auto simp: bit_simps not_less dest: near)
qed

definition valid_extent :: "extent \<Rightarrow> bool" where
  "valid_extent e \<longleftrightarrow> unat (physical_block e) + unat (len e) \<le> 2 ^ 48 \<and> 0 < len e \<and>
     unat (len e) \<le> max_extent_len (uninitialized e)"

definition valid_idx :: "u32 \<times> u64 \<Rightarrow> bool" where
  "valid_idx x \<longleftrightarrow> unat (snd x) < 2 ^ 48"

lemma valid_extent_phys: "valid_extent e \<Longrightarrow> unat (physical_block e) < 2 ^ 48"
  unfolding valid_extent_def word_less_nat_alt by auto

lemma length_encode_extent [simp]: "length (encode_extent e) = 12"
  by (simp add: encode_extent_def Let_def split: prod.split)

lemma length_encode_index [simp]: "length (encode_index l c) = 12"
  by (simp add: encode_index_def Let_def split: prod.split)

lemma parse_encode_extent:
  assumes "valid_extent e"
  shows "Extent_parse (encode_extent e) = Ok e"
proof -
  define ee where "ee = (if uninitialized e then len e + EXT_INIT_MAX_LEN else len e)"
  define hi where "hi = fst (split_phys_block (physical_block e))"
  define lo where "lo = snd (split_phys_block (physical_block e))"
  have enc: "encode_extent e = u32_to_le (logical_block e) @ u16_to_le ee @ u16_to_le hi @ u32_to_le lo"
    by (simp add: encode_extent_def ee_def hi_def lo_def case_prod_beta)
  have phys: "push_bit 32 (ucast hi) OR ucast lo = physical_block e"
    using join_split_phys [OF valid_extent_phys [OF assms]] by (simp add: hi_def lo_def)
  have "(if ee > EXT_INIT_MAX_LEN then (ee - EXT_INIT_MAX_LEN, True) else (ee, False))
        = (len e, uninitialized e)"
  proof (cases "uninitialized e")
    case True
    then have l: "0 < unat (len e)" "unat (len e) \<le> 32767"
      using assms by (auto simp: valid_extent_def max_extent_len_def EXT_INIT_MAX_LEN_def word_gt_0
          unat_gt_0)
    then have "unat (len e + 32768) = unat (len e) + 32768"
      by (simp add: unat_add_no_wrap)
    with l True show ?thesis by (simp add: ee_def EXT_INIT_MAX_LEN_def word_less_nat_alt)
  next
    case False
    then have "unat (len e) \<le> 32768"
      using assms by (simp add: valid_extent_def max_extent_len_def EXT_INIT_MAX_LEN_def)
    with False show ?thesis by (simp add: ee_def EXT_INIT_MAX_LEN_def word_less_nat_alt)
  qed
  then show ?thesis
    using phys by (simp add: Extent_parse_def enc get_field_defs slice_simps slice_def Let_def)
qed

lemma parse_encode_index:
  assumes "unat c < 2 ^ 48"
  shows "ExtentIdx_parse (encode_index l c) = Ok \<lparr>ei_block = l, leaf_block = c\<rparr>"
  using join_split_phys [OF assms]
  by (simp add: ExtentIdx_parse_def encode_index_def get_field_defs slice_def Let_def case_prod_beta)

definition idx_of :: "u32 \<times> u64 \<Rightarrow> extent_idx" where
  "idx_of x = \<lparr>ei_block = fst x, leaf_block = snd x\<rparr>"

definition idx_pair :: "extent_idx \<Rightarrow> u32 \<times> u64" where
  "idx_pair i = (ei_block i, leaf_block i)"

interpretation leaf_entry: entry_codec encode_extent Extent_parse valid_extent
  by unfold_locales (simp_all add: parse_encode_extent)

interpretation index_entry: entry_codec "\<lambda>i. encode_index (ei_block i) (leaf_block i)"
  ExtentIdx_parse "\<lambda>i. unat (leaf_block i) < 2 ^ 48"
  by unfold_locales (simp_all add: parse_encode_index)

section \<open>The inline root round trip\<close>

lemma read_build_root:
  assumes b: "build_root h es n = Ok out" and v: "\<forall>e \<in> set es. valid_extent e"
    and leaf: "is_leaf h" and fits: "length es \<le> unat (eh_max h)"
  shows "read_leaf_entries out = Ok (\<lparr>eh_magic = EXT4_EXT_MAGIC, eh_entries = word_of_nat (length es),
    eh_max = eh_max h, eh_depth = 0, eh_generation = eh_generation h\<rparr>, es) \<and> length out = n"
proof -
  let ?n = "word_of_nat (length es) :: u16"
  have u: "unat ?n = length es"
    using fits unat_u16_bound [of "eh_max h"] by (simp add: unat_of_nat)
  from b obtain hb where hb: "put_header ?n (eh_max h) (eh_depth h) (eh_generation h) (replicate n 0) = Ok hb"
    and pe: "put_entries encode_extent 0 es hb = Ok out"
    by (auto simp: build_root_def outcome_simps)
  have "?n \<le> eh_max h" using fits u by (simp add: word_le_nat_alt)
  then have "ExtentHeader_parse out = Ok \<lparr>eh_magic = EXT4_EXT_MAGIC, eh_entries = ?n,
    eh_max = eh_max h, eh_depth = 0, eh_generation = eh_generation h\<rparr>"
    using leaf_entry.header_of_built [OF hb pe] leaf by (simp add: is_leaf_def)
  moreover have "length out = n"
    using leaf_entry.put_entries_length [OF pe] hb by (auto simp: put_header_def split: if_splits)
  ultimately show ?thesis
    using leaf_entry.parse_put_entries [OF pe v] u by (simp add: read_leaf_entries_def is_leaf_def)
qed

section \<open>The map a leaf stands for\<close>

definition covers :: "extent \<Rightarrow> nat \<Rightarrow> bool" where
  "covers e n \<longleftrightarrow> ext_start e \<le> n \<and> n < ext_end e"

definition ext_image :: "extent \<Rightarrow> nat \<Rightarrow> u64 \<times> bool" where
  "ext_image e n = (physical_block e + word_of_nat (n - ext_start e), uninitialized e)"

text \<open>Logical block to physical block and initialization state.\<close>

definition block_at :: "extent list \<Rightarrow> nat \<Rightarrow> (u64 \<times> bool) option" where
  "block_at es n = map_option (\<lambda>e. ext_image e n) (find (\<lambda>e. covers e n) es)"

definition leaf_wf :: "extent list \<Rightarrow> bool" where
  "leaf_wf es \<longleftrightarrow> extents_in 0 0xFFFFFFFF es \<and> (\<forall>e \<in> set es. valid_extent e)"

lemma covers_find_extent: "covers e (unat l) \<longleftrightarrow> contains e l"
  by (simp add: covers_def contains_iff)

lemma block_at_None: "block_at es n = None \<longleftrightarrow> (\<forall>e \<in> set es. \<not> covers e n)"
  by (auto simp: block_at_def find_None_iff)

lemma block_at_unique:
  assumes "sorted_wrt (\<lambda>a b. ext_end a \<le> ext_start b) es" "e \<in> set es" "covers e n"
  shows "block_at es n = Some (ext_image e n)"
  using assms
proof (induction es)
  case Nil
  then show ?case by simp
next
  case (Cons x es)
  show ?case
  proof (cases "covers x n")
    case False
    with Cons show ?thesis by (auto simp: block_at_def)
  next
    case True
    have "x = e"
    proof (rule ccontr)
      assume "x \<noteq> e"
      with Cons.prems have "ext_end x \<le> ext_start e" by auto
      with True Cons.prems(3) show False by (simp add: covers_def)
    qed
    with True show ?thesis by (simp add: block_at_def)
  qed
qed

lemma block_at_Some_iff:
  assumes "sorted_wrt (\<lambda>a b. ext_end a \<le> ext_start b) es"
  shows "block_at es n = Some v \<longleftrightarrow> (\<exists>e \<in> set es. covers e n \<and> v = ext_image e n)"
proof
  assume "block_at es n = Some v"
  then show "\<exists>e \<in> set es. covers e n \<and> v = ext_image e n"
    by (auto simp: block_at_def find_Some_iff)
next
  assume "\<exists>e \<in> set es. covers e n \<and> v = ext_image e n"
  with block_at_unique [OF assms] show "block_at es n = Some v" by auto
qed

lemma option_eq_iffI: "(\<And>v. x = Some v \<longleftrightarrow> y = Some v) \<Longrightarrow> x = y"
  by (cases x; cases y) auto

lemma leaf_wf_sorted: "leaf_wf es \<Longrightarrow> sorted_wrt (\<lambda>a b. ext_end a \<le> ext_start b) es"
  by (simp add: leaf_wf_def extents_in_def)

lemma leaf_wf_append_iff:
  "leaf_wf (xs @ ys) \<longleftrightarrow> leaf_wf xs \<and> leaf_wf ys \<and>
     (\<forall>x \<in> set xs. \<forall>y \<in> set ys. ext_end x \<le> ext_start y)"
  by (auto simp: leaf_wf_def extents_in_def sorted_wrt_append)

lemma leaf_wf_Cons_iff:
  "leaf_wf (x # ys) \<longleftrightarrow> valid_extent x \<and> ext_end x \<le> 0xFFFFFFFF \<and> leaf_wf ys \<and>
     (\<forall>y \<in> set ys. ext_end x \<le> ext_start y)"
  by (auto simp: leaf_wf_def extents_in_def)

lemmas leaf_wf_simps = leaf_wf_append_iff leaf_wf_Cons_iff

lemma leaf_wf_Nil [simp]: "leaf_wf []"
  by (simp add: leaf_wf_def)

section \<open>Merging preserves the map\<close>

lemma merge_at_append:
  "merge_at (length xs) (xs @ a # b # ys) = xs @ a\<lparr>len := len a + len b\<rparr> # ys"
  by (simp add: merge_at_def vec_remove_def nth_append)

lemma split_two:
  "Suc i < length es \<Longrightarrow> \<exists>xs a b ys. es = xs @ a # b # ys \<and> length xs = i \<and> es ! i = a \<and> es ! Suc i = b"
  by (metis Cons_nth_drop_Suc Suc_lessD append_take_drop_id length_take min.absorb4)

lemma contiguous_merged:
  assumes "are_contiguous a b" "valid_extent a" "valid_extent b"
  defines "c \<equiv> a\<lparr>len := len a + len b\<rparr>"
  shows "ext_start c = ext_start a" "ext_end c = ext_end b" "ext_end a = ext_start b"
    "valid_extent c" "covers c n \<longleftrightarrow> covers a n \<or> covers b n"
    "covers a n \<Longrightarrow> ext_image c n = ext_image a n" "covers b n \<Longrightarrow> ext_image c n = ext_image b n"
proof -
  have cap: "unat (len a) + unat (len b) \<le> max_extent_len (uninitialized a)"
    and st: "uninitialized a = uninitialized b" and adj: "ext_end a = ext_start b"
    and ph: "physical_block b = physical_block a + ucast (len a)"
    using assms(1) by (auto simp: are_contiguous_def split: if_splits)
  then have l: "unat (len a + len b) = unat (len a) + unat (len b)"
    by (intro unat_add_no_wrap) (auto simp: max_extent_len_def EXT_INIT_MAX_LEN_def split: if_splits)
  show adj': "ext_end a = ext_start b" by (rule adj)
  show s: "ext_start c = ext_start a" by (simp add: c_def ext_start_def)
  show e: "ext_end c = ext_end b" using adj l by (simp add: c_def ext_end_def ext_start_def)
  have "unat (physical_block b) = unat (physical_block a) + unat (len a)"
    using assms(2) ph by (simp add: valid_extent_def unat_add_no_wrap)
  then show "valid_extent c" using assms(2,3) cap l
    by (auto simp: c_def valid_extent_def word_gt_0 unat_gt_0 word_less_nat_alt)
  show "covers c n \<longleftrightarrow> covers a n \<or> covers b n"
    unfolding covers_def s e adj
    using ext_start_le_end [of a, unfolded adj] ext_start_le_end [of b] by linarith
  show "covers a n \<Longrightarrow> ext_image c n = ext_image a n" by (simp add: ext_image_def s, simp add: c_def)
  show "ext_image c n = ext_image b n" if "covers b n"
  proof -
    have "n - ext_start a = unat (len a) + (n - ext_start b)"
      using that adj by (auto simp: covers_def ext_end_def ext_start_def)
    then show ?thesis using ph st by (simp add: ext_image_def s, simp add: c_def)
  qed
qed

lemma merge_at_correct:
  assumes "leaf_wf es" "Suc i < length es" "are_contiguous (es ! i) (es ! Suc i)"
  shows "leaf_wf (merge_at i es)" and "block_at (merge_at i es) n = block_at es n"
proof -
  from assms(2) obtain xs a b ys where es: "es = xs @ a # b # ys" and i: "length xs = i"
    and ab: "es ! i = a" "es ! Suc i = b" using split_two by blast
  define c where "c = a\<lparr>len := len a + len b\<rparr>"
  have v: "valid_extent a" "valid_extent b" using assms(1) by (auto simp: es leaf_wf_simps)
  note m = contiguous_merged [OF assms(3) [unfolded ab] v, folded c_def]
  have merged: "merge_at i es = xs @ c # ys" by (simp add: es i [symmetric] merge_at_append c_def)
  show wf: "leaf_wf (merge_at i es)"
    using assms(1) [unfolded es] m(1,2,4) unfolding merged
    by (auto simp: leaf_wf_simps order_trans [OF ext_start_le_end [of a]])
  show "block_at (merge_at i es) n = block_at es n"
  proof (rule option_eq_iffI)
    fix v
    have "(\<exists>e \<in> set (xs @ c # ys). covers e n \<and> v = ext_image e n) \<longleftrightarrow>
          (\<exists>e \<in> set (xs @ a # b # ys). covers e n \<and> v = ext_image e n)"
      using m(5-7) [of n] by auto
    then show "block_at (merge_at i es) n = Some v \<longleftrightarrow> block_at es n = Some v"
      using block_at_Some_iff [OF leaf_wf_sorted [OF wf], of n v]
        block_at_Some_iff [OF leaf_wf_sorted [OF assms(1)], of n v]
      by (simp only: merged [unfolded es] es)
  qed
qed

section \<open>Inserting into a leaf\<close>

lemma split_at_insert_pos:
  assumes "sorted_wrt (\<lambda>a b. ext_end a \<le> ext_start b) es"
  obtains xs ys where "es = xs @ ys" "length xs = insert_pos es new"
    "\<forall>x \<in> set xs. ext_start x \<le> ext_start new" "\<forall>y \<in> set ys. ext_start new < ext_start y"
proof (cases "position (\<lambda>e. ext_start e > ext_start new) es")
  case None
  then have "\<forall>x \<in> set es. ext_start x \<le> ext_start new" by (auto simp: position_None not_less)
  with None show ?thesis by (intro that [of es "[]"]) (auto simp: insert_pos_def)
next
  case (Some p)
  note p = position_Some [OF Some]
  show ?thesis
  proof (rule that [of "take p es" "drop p es"])
    show "\<forall>x \<in> set (take p es). ext_start x \<le> ext_start new"
      using p by (auto simp: in_set_conv_nth not_less)
    show "\<forall>y \<in> set (drop p es). ext_start new < ext_start y"
    proof
      fix y assume "y \<in> set (drop p es)"
      then obtain k where k: "y = es ! (p + k)" "p + k < length es" by (auto simp: in_set_conv_nth)
      then have "ext_start (es ! p) \<le> ext_start y"
        using sorted_wrt_nth_less [OF assms, of p "p + k"] order_trans [OF ext_start_le_end]
        by (cases "k = 0") auto
      with p show "ext_start new < ext_start y" by simp
    qed
  qed (use p Some in \<open>auto simp: insert_pos_def\<close>)
qed

lemma vec_insert_append: "length xs = i \<Longrightarrow> vec_insert i x (xs @ ys) = xs @ x # ys"
  by (simp add: vec_insert_def)

lemma check_no_overlap_Ok:
  "check_no_overlap es new = Ok () \<longleftrightarrow>
     (\<forall>e \<in> set es. ext_end new \<le> ext_start e \<or> ext_end e \<le> ext_start new)"
  by (auto simp: check_no_overlap_def)

lemma valid_extent_nonempty: "valid_extent e \<Longrightarrow> ext_start e < ext_end e"
  by (simp add: valid_extent_def ext_start_def ext_end_def word_gt_0 unat_gt_0)

lemma insert_sorted_correct:
  assumes wf: "leaf_wf es" and v: "valid_extent new" and top: "ext_end new \<le> 0xFFFFFFFF"
    and free: "check_no_overlap es new = Ok ()"
  shows "leaf_wf (vec_insert (insert_pos es new) new es)"
    and "block_at (vec_insert (insert_pos es new) new es) n =
         (if covers new n then Some (ext_image new n) else block_at es n)"
proof -
  obtain xs ys where es: "es = xs @ ys" and pos: "length xs = insert_pos es new"
    and le: "\<forall>x \<in> set xs. ext_start x \<le> ext_start new" and gt: "\<forall>y \<in> set ys. ext_start new < ext_start y"
    using split_at_insert_pos [OF leaf_wf_sorted [OF wf]] by blast
  note ov = free [unfolded check_no_overlap_Ok]
  have ne: "ext_start new < ext_end new" using v by (rule valid_extent_nonempty)
  have below: "\<forall>x \<in> set xs. ext_end x \<le> ext_start new"
  proof
    fix x assume x: "x \<in> set xs"
    then have "ext_start x \<le> ext_start new" "ext_end new \<le> ext_start x \<or> ext_end x \<le> ext_start new"
      using le ov es by auto
    with ne show "ext_end x \<le> ext_start new" by linarith
  qed
  have above: "\<forall>y \<in> set ys. ext_end new \<le> ext_start y"
  proof
    fix y assume y: "y \<in> set ys"
    then have "ext_start new < ext_start y" "ext_end new \<le> ext_start y \<or> ext_end y \<le> ext_start new"
      using gt ov es by auto
    with ext_start_le_end [of y] show "ext_end new \<le> ext_start y" by linarith
  qed
  have ins: "vec_insert (insert_pos es new) new es = xs @ new # ys"
    using vec_insert_append [OF pos, of new ys] es by simp
  show wf': "leaf_wf (vec_insert (insert_pos es new) new es)"
    using wf [unfolded es] v top below above ne unfolding ins
    by (fastforce simp: leaf_wf_simps)
  have disj: "\<not> covers e n" if "e \<in> set es" "covers new n" for e
    using that ov by (fastforce simp: covers_def)
  show "block_at (vec_insert (insert_pos es new) new es) n =
         (if covers new n then Some (ext_image new n) else block_at es n)"
  proof (rule option_eq_iffI)
    fix v
    have "(\<exists>e \<in> set (xs @ new # ys). covers e n \<and> v = ext_image e n) \<longleftrightarrow>
        (if covers new n then v = ext_image new n else (\<exists>e \<in> set (xs @ ys). covers e n \<and> v = ext_image e n))"
      using disj by (auto simp: es)
    then show "block_at (vec_insert (insert_pos es new) new es) n = Some v \<longleftrightarrow>
        (if covers new n then Some (ext_image new n) else block_at es n) = Some v"
      unfolding block_at_Some_iff [OF leaf_wf_sorted [OF wf']]
      using block_at_Some_iff [OF leaf_wf_sorted [OF wf], of n v] unfolding ins es [symmetric]
      by auto
  qed
qed

lemma insert_into_leaf_sorted_correct:
  assumes "leaf_wf es" "valid_extent new" "ext_end new \<le> 0xFFFFFFFF" "check_no_overlap es new = Ok ()"
  shows "leaf_wf (insert_into_leaf_sorted es new)"
    and "block_at (insert_into_leaf_sorted es new) n =
         (if covers new n then Some (ext_image new n) else block_at es n)"
proof -
  define pos where "pos = insert_pos es new"
  define e1 where "e1 = vec_insert pos new es"
  define e2 where "e2 = (if 0 < pos \<and> are_contiguous (e1 ! (pos - 1)) (e1 ! pos)
                         then merge_at (pos - 1) e1 else e1)"
  define mp where "mp = (case position (\<lambda>e. logical_block e = logical_block new \<or>
      (ext_start e < ext_start new \<and> ext_end e > ext_start new)) e2 of Some p \<Rightarrow> p | None \<Rightarrow> length e2 - 1)"
  have res: "insert_into_leaf_sorted es new =
      (if Suc mp < length e2 \<and> are_contiguous (e2 ! mp) (e2 ! Suc mp) then merge_at mp e2 else e2)"
    by (simp only: insert_into_leaf_sorted_def Let_def mp_def e2_def e1_def pos_def)
  have "pos \<le> length es"
    by (auto simp: pos_def insert_pos_def dest!: position_Some split: option.split)
  then have len: "length e1 = Suc (length es)" "pos < length e1" by (simp_all add: e1_def)
  note ins = insert_sorted_correct [OF assms, folded pos_def, folded e1_def]
  have e2: "leaf_wf e2 \<and> block_at e2 n = block_at e1 n" for n
    using ins(1) merge_at_correct [of e1 "pos - 1"] len by (auto simp: e2_def)
  then show "leaf_wf (insert_into_leaf_sorted es new)"
    using merge_at_correct(1) [of e2 mp] by (simp add: res)
  show "block_at (insert_into_leaf_sorted es new) n =
         (if covers new n then Some (ext_image new n) else block_at es n)"
    using e2 merge_at_correct(2) [of e2 mp n] ins(2) [of n] by (simp add: res)
qed

section \<open>The inline root as a map\<close>

text \<open>
  A root is well formed when it parses as a leaf whose extents are sorted, disjoint and
  expressible on disk, and when it is the 60-byte \<open>i_block\<close> with room for the four
  entries its header may claim.
  Its meaning is the map from logical blocks to physical blocks and their state.
\<close>

definition root_wf :: "bytes \<Rightarrow> bool" where
  "root_wf root = (case read_leaf_entries root of
     Ok (h, es) \<Rightarrow> leaf_wf es \<and> eh_max h \<le> 4 \<and> length root = 60
   | _ \<Rightarrow> False)"

definition root_map :: "bytes \<Rightarrow> nat \<Rightarrow> (u64 \<times> bool) option" where
  "root_map root = (case read_leaf_entries root of Ok (h, es) \<Rightarrow> block_at es | _ \<Rightarrow> (\<lambda>_. None))"

lemma root_wfE:
  assumes "root_wf root"
  obtains h es where "read_leaf_entries root = Ok (h, es)" "leaf_wf es" "root_map root = block_at es"
    "is_leaf h" "length es \<le> unat (eh_max h)" "unat (eh_max h) \<le> 4" "length root = 60"
proof -
  from assms obtain h es where r: "read_leaf_entries root = Ok (h, es)" and wf: "leaf_wf es"
    and c: "eh_max h \<le> 4" "length root = 60"
    by (auto simp: root_wf_def split: outcome.splits)
  have l: "is_leaf h" "length es = unat (eh_entries h)" "eh_entries h \<le> eh_max h"
    using r by (auto simp: read_leaf_entries_def outcome_simps length_parse_entries
        ExtentHeader_parse_def Let_def not_less split: if_splits)
  with r wf c show ?thesis
    by (intro that) (auto simp: root_map_def word_le_nat_alt)
qed

lemma rebuilt_root:
  assumes "leaf_wf es" "is_leaf h" "length es \<le> unat (eh_max h)" "unat (eh_max h) \<le> 4"
  obtains r where "build_root h es 60 = Ok r" "length r = 60" "root_wf r" "root_map r = block_at es"
proof -
  have "12 * (1 + length es) \<le> 60" using assms(3,4) by simp
  then obtain r where r: "build_root h es 60 = Ok r"
    using leaf_entry.build_Ok_iff [of "word_of_nat (length es)" "eh_max h" "eh_depth h" "eh_generation h" 60 es]
    by (auto simp: build_root_def)
  have v: "\<forall>e \<in> set es. valid_extent e" using assms(1) by (simp add: leaf_wf_def)
  note rd = read_build_root [OF r v assms(2,3)]
  then have "root_wf r" "root_map r = block_at es"
    using assms by (simp_all add: root_wf_def root_map_def word_le_nat_alt)
  with r rd show ?thesis by (intro that) auto
qed

lemma full_check:
  "k < 0x10000 \<Longrightarrow> (word_of_nat k :: u16) > mx \<longleftrightarrow> unat mx < k"
  by (simp add: word_less_nat_alt unat_of_nat)

lemma length_merge_at: "Suc i < length es \<Longrightarrow> length (merge_at i es) = length es - 1"
  by (simp add: merge_at_def Let_def)

lemma length_insert_into_leaf_sorted:
  "length (insert_into_leaf_sorted es new) \<le> Suc (length es)"
proof -
  have "insert_pos es new \<le> length es"
    by (auto simp: insert_pos_def dest!: position_Some split: option.split)
  then show ?thesis
    by (auto simp: insert_into_leaf_sorted_def Let_def length_merge_at)
qed

lemma disjoint_iff_covers:
  assumes "valid_extent a" "valid_extent b"
  shows "ext_end a \<le> ext_start b \<or> ext_end b \<le> ext_start a \<longleftrightarrow> (\<forall>n. \<not> (covers a n \<and> covers b n))"
proof
  assume "\<forall>n. \<not> (covers a n \<and> covers b n)"
  then have "\<not> (covers a (max (ext_start a) (ext_start b)) \<and> covers b (max (ext_start a) (ext_start b)))" ..
  with valid_extent_nonempty [OF assms(1)] valid_extent_nonempty [OF assms(2)]
  show "ext_end a \<le> ext_start b \<or> ext_end b \<le> ext_start a" by (auto simp: covers_def max_def split: if_splits)
qed (auto simp: covers_def)

lemma overlap_iff_covers:
  assumes "leaf_wf es" "valid_extent new"
  shows "check_no_overlap es new = Ok () \<longleftrightarrow> (\<forall>n. covers new n \<longrightarrow> block_at es n = None)"
proof -
  have "\<forall>e \<in> set es. valid_extent e" using assms(1) by (simp add: leaf_wf_def)
  then show ?thesis
    unfolding check_no_overlap_Ok block_at_None using disjoint_iff_covers [OF assms(2)] by blast
qed

definition is_root_update :: "bytes \<Rightarrow> extent_mutation list \<Rightarrow> (nat \<Rightarrow> (u64 \<times> bool) option) \<Rightarrow> bool" where
  "is_root_update root ms m = (case ms of
     WriteRoot r # _ \<Rightarrow> root_wf r \<and> length r = length root \<and> root_map r = m | _ \<Rightarrow> False)"

text \<open>
  C33. Inserting an extent into a well-formed inline root either gives a root that is
  well formed again, has the same size and maps exactly the old blocks plus the new
  extent's, none of which was mapped before; or it reports an overlap, when some block of
  the new extent is already mapped; or it reports that the root is full, when the sorted
  entries with the new one merged in exceed the capacity of the header. It never panics.
\<close>

theorem plan_insert_extent_correct:
  assumes "root_wf root" "valid_extent new" "ext_end new \<le> 0xFFFFFFFF"
  shows "case plan_insert_extent root new of
     Ok ms \<Rightarrow> length ms = 1 \<and> (\<forall>n. covers new n \<longrightarrow> root_map root n = None) \<and>
       is_root_update root ms (\<lambda>n. if covers new n then Some (ext_image new n) else root_map root n)
   | Err e \<Rightarrow> e = CorruptExtentTree ''extent overlaps existing'' \<and>
         (\<exists>n. covers new n \<and> root_map root n \<noteq> None)
       \<or> e = CorruptExtentTree ''LEAF_FULL_NEEDS_PROMOTION: root has no slot for new extent'' \<and>
         (\<exists>h es. read_leaf_entries root = Ok (h, es) \<and>
            length (insert_into_leaf_sorted es new) > unat (eh_max h))
   | Panic \<Rightarrow> False"
proof -
  from assms(1) obtain h es where r: "read_leaf_entries root = Ok (h, es)" and wf: "leaf_wf es"
    and m: "root_map root = block_at es" and h: "is_leaf h" "length es \<le> unat (eh_max h)"
      "unat (eh_max h) \<le> 4" and l60: "length root = 60"
    by (rule root_wfE)
  show ?thesis
  proof (cases "check_no_overlap es new = Ok ()")
    case False
    then have "check_no_overlap es new = Err (CorruptExtentTree ''extent overlaps existing'')"
      by (auto simp: check_no_overlap_def split: if_splits)
    moreover have "\<exists>n. covers new n \<and> root_map root n \<noteq> None"
      using False overlap_iff_covers [OF wf assms(2)] m by auto
    ultimately show ?thesis by (simp add: plan_insert_extent_def r)
  next
    case True
    let ?es = "insert_into_leaf_sorted es new"
    note ins = insert_into_leaf_sorted_correct [OF wf assms(2,3) True]
    have full: "(word_of_nat (length ?es) :: u16) > eh_max h \<longleftrightarrow> unat (eh_max h) < length ?es"
      using length_insert_into_leaf_sorted [of es new] h(2,3) by (intro full_check) simp
    show ?thesis
    proof (cases "unat (eh_max h) < length ?es")
      case True
      with \<open>check_no_overlap es new = Ok ()\<close> full show ?thesis by (simp add: plan_insert_extent_def r)
    next
      case False
      then obtain r' where "build_root h ?es 60 = Ok r'" "length r' = 60" "root_wf r'" "root_map r' = block_at ?es"
        using rebuilt_root [OF ins(1) h(1) _ h(3)] by (auto simp: not_less)
      moreover have "block_at ?es = (\<lambda>n. if covers new n then Some (ext_image new n) else block_at es n)"
        using ins(2) by auto
      ultimately show ?thesis
        using False True full overlap_iff_covers [OF wf assms(2)]
        by (simp add: plan_insert_extent_def r is_root_update_def m l60 cong: if_cong)
    qed
  qed
qed

section \<open>Cutting extents\<close>

lemma unat_diff_u16:
  assumes "from < (to :: u32)" "unat to - unat from < 0x10000"
  shows "unat (ucast (to - from) :: u16) = unat to - unat from"
proof -
  have "unat (to - from) = unat to - unat from"
    using assms(1) by (simp add: unat_sub word_le_nat_alt word_less_nat_alt)
  with assms(2) show ?thesis by (simp add: unsigned_ucast_eq take_bit_nat_eq_self)
qed

lemma piece_correct:
  assumes v: "valid_extent e" and lo: "ext_start e \<le> unat from" and lt: "from < to"
    and hi: "unat to \<le> ext_end e" and u: "u \<Longrightarrow> uninitialized e"
  defines "p \<equiv> init_piece e from to u"
  shows "ext_start p = unat from" "ext_end p = unat to" "valid_extent p"
    "covers p n \<longleftrightarrow> unat from \<le> n \<and> n < unat to" "ext_image e n = (b, w) \<Longrightarrow> covers p n \<Longrightarrow> ext_image p n = (b, u)"
proof -
  have w: "unat to - unat from \<le> unat (len e)" "unat from < unat to"
    using lo hi lt by (auto simp: ext_start_def ext_end_def word_less_nat_alt)
  have l: "unat (len p) = unat to - unat from"
    using unat_diff_u16 [OF lt] w unat_u16_bound [of "len e"] by (simp add: p_def init_piece_def)
  have off: "unat (from - logical_block e) = unat from - ext_start e"
    using lo by (simp add: unat_sub word_le_nat_alt ext_start_def)
  have small: "unat from - ext_start e + unat (len p) \<le> unat (len e)"
    using lo hi w l by (auto simp: ext_start_def ext_end_def)
  have "unat (physical_block p) = unat (physical_block e) + (unat from - ext_start e)"
    using v off small by (simp add: p_def init_piece_def valid_extent_def unat_add_no_wrap)
  then show "valid_extent p"
    using v small l w(2) u
    by (auto simp: valid_extent_def word_less_nat_alt max_extent_len_def p_def init_piece_def
        EXT_INIT_MAX_LEN_def split: if_splits)
  show s: "ext_start p = unat from" by (simp add: p_def init_piece_def ext_start_def)
  show f: "ext_end p = unat to" using l w by (simp add: p_def init_piece_def ext_end_def)
  show "covers p n \<longleftrightarrow> unat from \<le> n \<and> n < unat to" by (simp add: covers_def s f)
  have "physical_block p = physical_block e + word_of_nat (unat from - ext_start e)"
    using off by (simp add: p_def init_piece_def flip: off)
  moreover have pu: "uninitialized p = u" by (simp add: p_def init_piece_def)
  moreover have "n - ext_start e = (unat from - ext_start e) + (n - unat from)" if "covers p n"
    using that lo by (simp add: covers_def s)
  ultimately show "ext_image e n = (b, w) \<Longrightarrow> covers p n \<Longrightarrow> ext_image p n = (b, u)"
    using pu by (auto simp: ext_image_def s)
qed

text \<open>Replacing one extent by pieces inside its range changes the map there only.\<close>

lemma leaf_wf_replace:
  assumes "leaf_wf (xs @ e # ys)" "leaf_wf ps"
    and inside: "\<forall>p \<in> set ps. ext_start e \<le> ext_start p \<and> ext_end p \<le> ext_end e"
  shows "leaf_wf (xs @ ps @ ys)"
    and "block_at (xs @ ps @ ys) n = (if covers e n then block_at ps n else block_at (xs @ e # ys) n)"
proof -
  have a: "ext_end x \<le> ext_start p" if "x \<in> set xs" "p \<in> set ps" for x p
  proof -
    have "ext_end x \<le> ext_start e" "ext_start e \<le> ext_start p"
      using assms(1) inside that by (auto simp: leaf_wf_simps)
    then show ?thesis by (rule order_trans)
  qed
  have b: "ext_end p \<le> ext_start y" if "y \<in> set ys" "p \<in> set ps" for y p
  proof -
    have "ext_end p \<le> ext_end e" "ext_end e \<le> ext_start y"
      using assms(1) inside that by (auto simp: leaf_wf_simps)
    then show ?thesis by (rule order_trans)
  qed
  show wf: "leaf_wf (xs @ ps @ ys)"
    using assms(1,2) a b by (auto simp: leaf_wf_simps)
  have out: "\<not> covers x n" if "x \<in> set xs \<union> set ys" "covers e n" for x
    using that assms(1) by (fastforce simp: covers_def leaf_wf_simps)
  have ins: "covers e n" if "p \<in> set ps" "covers p n" for p
    using that inside by (fastforce simp: covers_def)
  show "block_at (xs @ ps @ ys) n = (if covers e n then block_at ps n else block_at (xs @ e # ys) n)"
  proof (rule option_eq_iffI)
    fix v
    note iff = block_at_Some_iff [OF leaf_wf_sorted]
    show "block_at (xs @ ps @ ys) n = Some v \<longleftrightarrow>
        (if covers e n then block_at ps n else block_at (xs @ e # ys) n) = Some v"
      using out ins by (auto simp: iff [OF wf] iff [OF assms(1)] iff [OF assms(2)])
  qed
qed

lemma split_one: "i < length es \<Longrightarrow> es = take i es @ es ! i # drop (Suc i) es"
  by (rule id_take_nth_drop)

lemma block_at_Cons:
  "block_at (e # es) n = (if covers e n then Some (ext_image e n) else block_at es n)"
  by (simp add: block_at_def)

lemma block_at_Nil [simp]: "block_at [] n = None"
  by (simp add: block_at_def)

lemma ext_image_state: "snd (ext_image e n) = uninitialized e"
  by (simp add: ext_image_def)

text \<open>The end of an extent as the \<open>u32\<close> sum the planners compute.\<close>

lemma unat_ext_end:
  "ext_end e \<le> 0xFFFFFFFF \<Longrightarrow> unat (logical_block e + ucast (len e)) = ext_end e"
  by (simp add: ext_end_def unat_add_no_wrap)

lemma split_pieces:
  assumes "valid_extent e" "ext_end e \<le> 0xFFFFFFFF" "logical_block e < at"
    "at < logical_block e + ucast (len e)"
  defines "fin \<equiv> logical_block e + ucast (len e)"
  defines "ps \<equiv> [init_piece e (logical_block e) at (uninitialized e), init_piece e at fin (uninitialized e)]"
  shows "leaf_wf ps" "\<forall>p \<in> set ps. ext_start e \<le> ext_start p \<and> ext_end p \<le> ext_end e"
    "covers e n \<Longrightarrow> block_at ps n = Some (ext_image e n)"
proof -
  let ?l = "init_piece e (logical_block e) at (uninitialized e)"
  let ?r = "init_piece e at fin (uninitialized e)"
  have fin: "unat fin = ext_end e" using unat_ext_end [OF assms(2)] by (simp add: fin_def)
  have ord: "ext_start e < unat at" "unat at < ext_end e" "at < fin"
    using assms(3,4) fin by (auto simp: word_less_nat_alt fin_def ext_start_def)
  note l = piece_correct [of e "logical_block e" at "uninitialized e"]
  note r = piece_correct [of e at fin "uninitialized e"]
  have l': "ext_start ?l = ext_start e" "ext_end ?l = unat at" "valid_extent ?l"
    using l assms(1,3) ord by (simp_all add: ext_start_def)
  have r': "ext_start ?r = unat at" "ext_end ?r = ext_end e" "valid_extent ?r"
    using r assms(1) ord fin by (simp_all)
  show "leaf_wf ps" using l' r' assms(2) ord by (simp add: ps_def leaf_wf_simps)
  show "\<forall>p \<in> set ps. ext_start e \<le> ext_start p \<and> ext_end p \<le> ext_end e"
    using l' r' ord by (simp add: ps_def)
  obtain b w where im: "ext_image e n = (b, w)" by (cases "ext_image e n")
  have w: "w = uninitialized e" using ext_image_state [of e n] im by simp
  have "covers ?l n \<Longrightarrow> ext_image ?l n = (b, uninitialized e)"
    using l(5) [OF assms(1) _ assms(3) _ _ im] ord by (simp add: ext_start_def)
  moreover have "covers ?r n \<Longrightarrow> ext_image ?r n = (b, uninitialized e)"
    using r(5) [OF assms(1) _ ord(3) _ _ im] ord fin by simp
  moreover have "covers ?l n \<or> covers ?r n" if "covers e n"
    using that l' r' by (auto simp: covers_def)
  ultimately show "block_at ps n = Some (ext_image e n)" if "covers e n"
    using that im w by (auto simp: ps_def block_at_Cons)
qed

lemma split_entries:
  assumes wf: "leaf_wf es" and idx: "idx < length es"
    and at: "ext_start (es ! idx) < unat at" "unat at < ext_end (es ! idx)"
  defines "e \<equiv> es ! idx"
  defines "es' \<equiv> vec_insert (Suc idx)
     (init_piece e at (logical_block e + ucast (len e)) (uninitialized e))
     (es[idx := init_piece e (logical_block e) at (uninitialized e)])"
  shows "leaf_wf es'" "block_at es' = block_at es" "length es' = Suc (length es)"
    "logical_block (es' ! Suc idx) = at" "block_at es (unat at) \<noteq> None"
proof -
  define xs where "xs = take idx es"
  define ys where "ys = drop (Suc idx) es"
  have es: "es = xs @ e # ys" and lx: "length xs = idx"
    using split_one [OF idx] idx by (auto simp: e_def xs_def ys_def)
  have ve: "valid_extent e" "ext_end e \<le> 0xFFFFFFFF" using wf by (auto simp: es leaf_wf_simps)
  have lt: "logical_block e < at" "at < logical_block e + ucast (len e)"
    using at unat_ext_end [OF ve(2)] by (auto simp: word_less_nat_alt ext_start_def e_def)
  define ps where "ps = [init_piece e (logical_block e) at (uninitialized e),
    init_piece e at (logical_block e + ucast (len e)) (uninitialized e)]"
  note sp = split_pieces [OF ve lt, folded ps_def]
  have es': "es' = xs @ ps @ ys"
    using lx unfolding es'_def by (simp add: es list_update_append vec_insert_def ps_def)
  note rep = leaf_wf_replace [OF wf [unfolded es] sp(1,2)]
  have mapped: "block_at es n = Some (ext_image e n)" if "covers e n" for n
    using block_at_unique [OF leaf_wf_sorted [OF wf], of e n] that by (simp add: es)
  show "leaf_wf es'" using rep(1) es' by simp
  show "block_at es' = block_at es"
    using rep(2) sp(3) mapped by (auto simp: es' es fun_eq_iff)
  show "length es' = Suc (length es)" by (simp add: es' es ps_def)
  show "logical_block (es' ! Suc idx) = at"
    using lx by (simp add: es' nth_append ps_def init_piece_def)
  show "block_at es (unat at) \<noteq> None" using mapped [of "unat at"] at by (simp add: covers_def e_def)
qed

text \<open>
  Splitting an extent of a well-formed inline root rewrites the root with one more entry,
  of which one starts at the split point, and leaves the mapping of every block as it was;
  the three refusals (no such entry, split point not strictly inside the extent, no free
  slot) are reported as errors and the planner never panics.
\<close>

theorem plan_split_extent_correct:
  assumes "root_wf root"
  shows "case plan_split_extent root idx split_at of
     Ok ms \<Rightarrow> length ms = 1 \<and> is_root_update root ms (root_map root) \<and>
       root_map root (unat split_at) \<noteq> None \<and>
       (\<exists>h es r h' es'. read_leaf_entries root = Ok (h, es) \<and> ms = [WriteRoot r] \<and>
          read_leaf_entries r = Ok (h', es') \<and> length es' = Suc (length es) \<and>
          logical_block (es' ! Suc idx) = split_at)
   | Err e \<Rightarrow> (\<exists>h es. read_leaf_entries root = Ok (h, es) \<and>
        (e = CorruptExtentTree ''split idx out of range'' \<and> length es \<le> idx
         \<or> e = CorruptExtentTree ''split point outside extent'' \<and> idx < length es \<and>
           \<not> (ext_start (es ! idx) < unat split_at \<and> unat split_at < ext_end (es ! idx))
         \<or> e = CorruptExtentTree ''LEAF_FULL_NEEDS_PROMOTION: split exceeds root capacity'' \<and>
           length es = unat (eh_max h)))
   | Panic \<Rightarrow> False"
proof -
  from assms(1) obtain h es where r: "read_leaf_entries root = Ok (h, es)" and wf: "leaf_wf es"
    and m: "root_map root = block_at es" and h: "is_leaf h" "length es \<le> unat (eh_max h)"
      "unat (eh_max h) \<le> 4" and l60: "length root = 60"
    by (rule root_wfE)
  show ?thesis
  proof (cases "idx < length es \<and> ext_start (es ! idx) < unat split_at \<and> unat split_at < ext_end (es ! idx)")
    case False
    have "ext_end (es ! idx) \<le> 0xFFFFFFFF" if "idx < length es"
      using wf nth_mem [OF that] by (auto simp: leaf_wf_def extents_in_def)
    with False r show ?thesis
      using unat_ext_end [of "es ! idx"]
      by (auto simp: plan_split_extent_def Let_def word_le_nat_alt ext_start_def)
  next
    case True
    define e where "e = es ! idx"
    define es' where "es' = vec_insert (Suc idx)
       (init_piece e split_at (logical_block e + ucast (len e)) (uninitialized e))
       (es[idx := init_piece e (logical_block e) split_at (uninitialized e)])"
    have sp: "leaf_wf es'" "block_at es' = block_at es" "length es' = Suc (length es)"
      "logical_block (es' ! Suc idx) = split_at" "block_at es (unat split_at) \<noteq> None"
      using split_entries [OF wf, of idx split_at] True by (simp_all add: es'_def e_def)
    have ve: "ext_end e \<le> 0xFFFFFFFF"
      using wf nth_mem [of idx es] True by (auto simp: leaf_wf_def extents_in_def e_def)
    have full: "(word_of_nat (Suc (length es)) :: u16) > eh_max h \<longleftrightarrow> unat (eh_max h) < Suc (length es)"
      using h(2,3) by (intro full_check) simp
    have plan: "plan_split_extent root idx split_at =
      (if (word_of_nat (length es') :: u16) > eh_max h
       then Err (CorruptExtentTree ''LEAF_FULL_NEEDS_PROMOTION: split exceeds root capacity'')
       else and_then (build_root h es' 60) (\<lambda>new_root. Ok [WriteRoot new_root]))"
      using True r l60 unat_ext_end [OF ve]
      by (simp add: plan_split_extent_def e_def Let_def es'_def init_piece_def word_le_nat_alt ext_start_def)
    show ?thesis
    proof (cases "unat (eh_max h) < Suc (length es)")
      case True
      with plan full sp(3) h r show ?thesis by simp
    next
      case False
      then obtain r' where b: "build_root h es' 60 = Ok r'" "length r' = 60" "root_wf r'"
        "root_map r' = block_at es'"
        using rebuilt_root [OF sp(1) h(1) _ h(3)] sp(3) by (auto simp: not_less)
      have "\<exists>h'. read_leaf_entries r' = Ok (h', es')"
        using read_build_root [OF b(1) _ h(1)] sp(1,3) False by (auto simp: leaf_wf_def)
      with b plan full False r l60 sp m show ?thesis by (auto simp: is_root_update_def)
    qed
  qed
qed

lemma remove_entry:
  assumes wf: "leaf_wf es" and idx: "idx < length es"
  shows "leaf_wf (vec_remove idx es)"
    and "block_at (vec_remove idx es) n = (if covers (es ! idx) n then None else block_at es n)"
  using leaf_wf_replace [of "take idx es" "es ! idx" "drop (Suc idx) es" "[]"] wf split_one [OF idx]
  by (simp_all add: vec_remove_def)

text \<open>
  Freeing an entry of a well-formed inline root unmaps exactly the blocks of that
  entry, keeps every other mapping, and asks for the release of exactly the physical run
  those blocks were mapped to. Merging two entries keeps every mapping, and is skipped
  only when the two are not contiguous. An index out of range is an error, and neither
  planner panics.
\<close>

theorem plan_free_and_merge_correct:
  assumes "root_wf root" and "read_leaf_entries root = Ok (h, es)"
  shows "(case plan_free_extent root idx of
       Ok ms \<Rightarrow> idx < length es \<and>
         is_root_update root ms (\<lambda>n. if covers (es ! idx) n then None else root_map root n) \<and>
         tl ms = [FreePhysicalRun (physical_block (es ! idx)) (ucast (len (es ! idx)))] \<and>
         (\<forall>k < unat (len (es ! idx)). root_map root (ext_start (es ! idx) + k) =
            Some (physical_block (es ! idx) + word_of_nat k, uninitialized (es ! idx)))
     | Err e \<Rightarrow> length es \<le> idx \<and> e = CorruptExtentTree ''free idx out of range''
     | Panic \<Rightarrow> False) \<and>
   (case plan_merge_adjacent root i of
       Ok ms \<Rightarrow> Suc i < length es \<and>
         (if are_contiguous (es ! i) (es ! Suc i) then length ms = 1 \<and> is_root_update root ms (root_map root)
          else ms = [])
     | Err e \<Rightarrow> length es \<le> Suc i \<and> e = CorruptExtentTree ''merge idx out of range''
     | Panic \<Rightarrow> False)"
proof -
  from assms have wf: "leaf_wf es" and m: "root_map root = block_at es"
    and h: "is_leaf h" "length es \<le> unat (eh_max h)" "unat (eh_max h) \<le> 4" and l60: "length root = 60"
    by (auto elim!: root_wfE)
  note rebuilt = rebuilt_root [OF _ h(1) _ h(3)]
  have fr: "\<exists>r. plan_free_extent root idx = Ok [WriteRoot r,
      FreePhysicalRun (physical_block (es ! idx)) (ucast (len (es ! idx)))] \<and> length r = 60 \<and> root_wf r \<and>
      root_map r = block_at (vec_remove idx es)" if idx: "idx < length es"
  proof -
    have "length (vec_remove idx es) \<le> unat (eh_max h)" using idx h(2) by simp
    from rebuilt [OF remove_entry(1) [OF wf idx] this] obtain r where
      "build_root h (vec_remove idx es) 60 = Ok r" "length r = 60" "root_wf r"
      "root_map r = block_at (vec_remove idx es)" .
    with idx l60 assms(2) show ?thesis by (simp add: plan_free_extent_def Let_def)
  qed
  have run: "block_at es (ext_start e + k) = Some (physical_block e + word_of_nat k, uninitialized e)"
    if "e \<in> set es" "k < unat (len e)" for e k
    using block_at_unique [OF leaf_wf_sorted [OF wf] that(1), of "ext_start e + k"] that(2)
    by (simp add: covers_def ext_start_def ext_end_def ext_image_def)
  have mg: "\<exists>r. plan_merge_adjacent root i = Ok [WriteRoot r] \<and> length r = 60 \<and> root_wf r \<and>
      root_map r = block_at es" if i: "Suc i < length es" and c: "are_contiguous (es ! i) (es ! Suc i)"
  proof -
    have "length (merge_at i es) \<le> unat (eh_max h)" using i h(2) by (simp add: length_merge_at)
    from rebuilt [OF merge_at_correct(1) [OF wf i c] this] obtain r where
      "build_root h (merge_at i es) 60 = Ok r" "length r = 60" "root_wf r"
      "root_map r = block_at (merge_at i es)" .
    moreover have "block_at (merge_at i es) = block_at es" using merge_at_correct(2) [OF wf i c] ..
    ultimately show ?thesis using i c l60 assms(2) by (simp add: plan_merge_adjacent_def)
  qed
  show ?thesis
  proof (rule conjI, goal_cases)
    case 1
    show ?case
    proof (cases "idx < length es")
      case True
      have "block_at (vec_remove idx es) = (\<lambda>n. if covers (es ! idx) n then None else root_map root n)"
        using remove_entry(2) [OF wf True] m by auto
      with fr [OF True] run [OF nth_mem [OF True]] True l60 m show ?thesis
        by (auto simp: is_root_update_def)
    qed (simp add: plan_free_extent_def assms(2))
  next
    case 2
    show ?case
      using mg m l60 assms(2) by (cases "Suc i < length es") (auto simp: is_root_update_def plan_merge_adjacent_def)
  qed
qed

section \<open>Initializing a range\<close>

lemma map_unat_u32_range: "map unat (u32_range lo hi) = [unat lo ..< unat hi]"
proof -
  have "unat (word_of_nat n :: u32) = n" if "n < unat hi" for n
    using that unat_u32_bound [of hi] by (simp add: unat_of_nat)
  then show ?thesis by (auto simp: u32_range_def intro!: map_idI)
qed

lemma filter_upt_range: "filter (\<lambda>n. a \<le> n \<and> n < b) [c ..< d] = [max a c ..< min b d]"
  by (rule sorted_distinct_set_unique) (auto simp: sorted_wrt_filter)

lemma filter_disj_sorted:
  assumes "sorted_wrt (<) xs" "\<And>x y. P x \<Longrightarrow> Q y \<Longrightarrow> x < y"
  shows "filter (\<lambda>x. P x \<or> Q x) xs = filter P xs @ filter (Q :: nat \<Rightarrow> bool) xs"
  using assms(1)
proof (induction xs)
  case Nil
  then show ?case by simp
next
  case (Cons x xs)
  have "filter P xs = []" if "Q x"
    using Cons.prems assms(2) that by (fastforce simp: filter_empty_conv)
  moreover have "\<not> (P x \<and> Q x)" using assms(2) [of x x] by auto
  ultimately show ?case using Cons by auto
qed

text \<open>The three pieces of an uninitialized extent that the range touches.\<close>

lemma cut_touched:
  assumes v: "valid_extent e" "uninitialized e" "ext_end e \<le> 0xFFFFFFFF"
    and u: "unat el = ext_start e" "unat er = ext_end e"
    and ord: "ext_start e \<le> unat lo" "lo < hi" "unat hi \<le> ext_end e"
  defines "ps \<equiv> (if el < lo then [init_piece e el lo True] else []) @ [init_piece e lo hi False] @
        (if hi < er then [init_piece e hi er True] else [])"
  shows "leaf_wf ps" "\<forall>p \<in> set ps. ext_start e \<le> ext_start p \<and> ext_end p \<le> ext_end e"
    "covers e n \<Longrightarrow> block_at ps n = Some (fst (ext_image e n), \<not> (unat lo \<le> n \<and> n < unat hi))"
proof -
  obtain b w where im: "ext_image e n = (b, w)" by (cases "ext_image e n")
  have ords: "unat lo < unat hi" "el < lo \<longleftrightarrow> ext_start e < unat lo" "hi < er \<longleftrightarrow> unat hi < ext_end e"
    using ord u by (simp_all add: word_less_nat_alt)
  note pc = piece_correct [OF v(1)]
  have m: "ext_start (init_piece e lo hi False) = unat lo" "ext_end (init_piece e lo hi False) = unat hi"
    "valid_extent (init_piece e lo hi False)"
    "covers (init_piece e lo hi False) n \<Longrightarrow> ext_image (init_piece e lo hi False) n = (b, False)"
    using pc [of lo hi False] ord im by simp_all
  have l: "ext_start (init_piece e el lo True) = ext_start e" "ext_end (init_piece e el lo True) = unat lo"
    "valid_extent (init_piece e el lo True)"
    "covers (init_piece e el lo True) n \<Longrightarrow> ext_image (init_piece e el lo True) n = (b, True)" if "el < lo"
    using pc [of el lo True] that ord ords u im v(2) by simp_all
  have r: "ext_start (init_piece e hi er True) = unat hi" "ext_end (init_piece e hi er True) = ext_end e"
    "valid_extent (init_piece e hi er True)"
    "covers (init_piece e hi er True) n \<Longrightarrow> ext_image (init_piece e hi er True) n = (b, True)" if "hi < er"
    using pc [of hi er True] that ord ords u im v(2) by simp_all
  show wf: "leaf_wf ps"
    using m l r ord ords v(3) unfolding ps_def by (auto simp: leaf_wf_simps)
  show "\<forall>p \<in> set ps. ext_start e \<le> ext_start p \<and> ext_end p \<le> ext_end e"
    using m l r ord ords unfolding ps_def by auto
  show "block_at ps n = Some (fst (ext_image e n), \<not> (unat lo \<le> n \<and> n < unat hi))" if c: "covers e n"
    using c m l r ords im unfolding block_at_Some_iff [OF leaf_wf_sorted [OF wf]] unfolding ps_def
    by (auto simp: covers_def)
qed

lemma init_cut_correct:
  assumes v: "valid_extent e" and top: "ext_end e \<le> 0xFFFFFFFF" and range: "first < fin"
  defines "ps \<equiv> fst (init_cut first fin e)"
  shows "leaf_wf ps" "\<forall>p \<in> set ps. ext_start e \<le> ext_start p \<and> ext_end p \<le> ext_end e"
    "covers e n \<Longrightarrow> block_at ps n =
       Some (fst (ext_image e n), uninitialized e \<and> \<not> (unat first \<le> n \<and> n < unat fin))"
    "map unat (snd (init_cut first fin e)) =
       filter (\<lambda>n. covers e n \<and> uninitialized e) [unat first ..< unat fin]"
proof -
  define el where "el = logical_block e"
  define er where "er = el + ucast (len e)"
  define lo where "lo = max el first"
  define hi where "hi = min er fin"
  have u: "unat el = ext_start e" "unat er = ext_end e"
    using unat_ext_end [OF top] by (simp_all add: el_def er_def ext_start_def)
  have ne: "ext_start e < ext_end e" using v by (rule valid_extent_nonempty)
  have "leaf_wf ps \<and> (\<forall>p \<in> set ps. ext_start e \<le> ext_start p \<and> ext_end p \<le> ext_end e) \<and>
    (covers e n \<longrightarrow> block_at ps n =
       Some (fst (ext_image e n), uninitialized e \<and> \<not> (unat first \<le> n \<and> n < unat fin))) \<and>
    map unat (snd (init_cut first fin e)) = filter (\<lambda>n. covers e n \<and> uninitialized e) [unat first ..< unat fin]"
  proof (cases "\<not> uninitialized e \<or> er \<le> first \<or> el \<ge> fin")
    case True
    then have cut: "init_cut first fin e = ([e], [])" by (simp add: init_cut_def Let_def el_def er_def)
    have "\<not> (unat first \<le> n \<and> n < unat fin)" if "uninitialized e" "covers e n" for n
      using True that u by (auto simp: covers_def word_le_nat_alt)
    moreover from this have "filter (\<lambda>n. covers e n \<and> uninitialized e) [unat first ..< unat fin] = []"
      by (auto simp: filter_empty_conv)
    ultimately show ?thesis
      using v top ext_image_state [of e n]
      by (auto simp: ps_def cut leaf_wf_simps block_at_Cons prod_eq_iff)
  next
    case False
    have lo: "unat lo = max (ext_start e) (unat first)" and hi: "unat hi = min (ext_end e) (unat fin)"
      using u by (auto simp: lo_def hi_def max_def min_def word_le_nat_alt)
    have ord: "ext_start e \<le> unat lo" "lo < hi" "unat hi \<le> ext_end e"
      using False range ne u lo hi by (auto simp: word_le_nat_alt word_less_nat_alt)
    have ps: "ps = (if el < lo then [init_piece e el lo True] else []) @ [init_piece e lo hi False] @
        (if hi < er then [init_piece e hi er True] else [])"
      using False by (simp add: ps_def init_cut_def Let_def el_def er_def lo_def hi_def)
    have conv: "map unat (snd (init_cut first fin e)) = [unat lo ..< unat hi]"
      using False map_unat_u32_range by (simp add: init_cut_def Let_def el_def er_def lo_def hi_def)
    have "filter (\<lambda>n. covers e n \<and> uninitialized e) [unat first ..< unat fin] = [unat lo ..< unat hi]"
      using False lo hi by (simp add: covers_def filter_upt_range)
    moreover have un: "uninitialized e" using False by simp
    note ct = cut_touched [OF v un top u ord, folded ps]
    ultimately show ?thesis
      using ct(1,2) ct(3) [of n] un lo hi conv by (auto simp: covers_def)
  qed
  then show "leaf_wf ps" "\<forall>p \<in> set ps. ext_start e \<le> ext_start p \<and> ext_end p \<le> ext_end e"
    "covers e n \<Longrightarrow> block_at ps n =
       Some (fst (ext_image e n), uninitialized e \<and> \<not> (unat first \<le> n \<and> n < unat fin))"
    "map unat (snd (init_cut first fin e)) =
       filter (\<lambda>n. covers e n \<and> uninitialized e) [unat first ..< unat fin]"
    by auto
qed

lemma block_at_append:
  "block_at (xs @ ys) n = (case block_at xs n of None \<Rightarrow> block_at ys n | Some v \<Rightarrow> Some v)"
  by (induction xs) (auto simp: block_at_Cons)

lemma concat_pieces:
  assumes "leaf_wf es"
    and "\<And>e. e \<in> set es \<Longrightarrow> leaf_wf (f e) \<and>
      (\<forall>p \<in> set (f e). ext_start e \<le> ext_start p \<and> ext_end p \<le> ext_end e)"
    and "\<And>e. e \<in> set es \<Longrightarrow> covers e n \<Longrightarrow> block_at (f e) n = Some (g e)"
  shows "leaf_wf (concat (map f es))"
    and "block_at (concat (map f es)) n = map_option g (find (\<lambda>e. covers e n) es)"
proof -
  have "leaf_wf (concat (map f es)) \<and>
    block_at (concat (map f es)) n = map_option g (find (\<lambda>e. covers e n) es)"
    using assms
  proof (induction es)
    case Nil
    then show ?case by simp
  next
    case (Cons e es)
    have IH: "leaf_wf (concat (map f es))"
      "block_at (concat (map f es)) n = map_option g (find (\<lambda>e. covers e n) es)"
      using Cons.IH Cons.prems by (simp_all add: leaf_wf_Cons_iff)
    have "ext_end p \<le> ext_start q" if "p \<in> set (f e)" "y \<in> set es" "q \<in> set (f y)" for p y q
    proof -
      have "ext_end p \<le> ext_end e" "ext_end e \<le> ext_start y" "ext_start y \<le> ext_start q"
        using that Cons.prems(1) Cons.prems(2) [of e] Cons.prems(2) [of y] by (auto simp: leaf_wf_Cons_iff)
      then show ?thesis by linarith
    qed
    with IH(1) Cons.prems(2) [of e] have wf: "leaf_wf (concat (map f (e # es)))"
      by (auto simp: leaf_wf_append_iff)
    have "covers e n" if "p \<in> set (f e)" "covers p n" for p
      using Cons.prems(2) [of e] that by (fastforce simp: covers_def)
    then have "block_at (f e) n = (if covers e n then Some (g e) else None)"
      using Cons.prems(3) [of e] by (auto simp: block_at_None)
    with wf IH(2) show ?case by (simp add: block_at_append)
  qed
  then show "leaf_wf (concat (map f es))"
    "block_at (concat (map f es)) n = map_option g (find (\<lambda>e. covers e n) es)" by simp_all
qed

lemma merge_push_correct:
  assumes "leaf_wf (acc @ out)"
  shows "leaf_wf (foldl merge_push acc out) \<and>
    block_at (foldl merge_push acc out) n = block_at (acc @ out) n"
  using assms
proof (induction out arbitrary: acc)
  case Nil
  then show ?case by simp
next
  case (Cons e out)
  show ?case
  proof (cases "acc \<noteq> [] \<and> are_contiguous (last acc) e")
    case False
    then have "merge_push acc e = acc @ [e]" by auto
    with Cons.IH [of "acc @ [e]"] Cons.prems show ?thesis by simp
  next
    case True
    define xs where "xs = butlast acc"
    define a where "a = last acc"
    have acc: "acc = xs @ [a]" using True by (simp add: xs_def a_def)
    have m: "merge_push acc e = xs @ [a\<lparr>len := len a + len e\<rparr>]" using True by (simp add: xs_def a_def)
    have "merge_at (length xs) (acc @ e # out) = merge_push acc e @ out"
      unfolding m by (simp add: acc merge_at_append)
    moreover have "are_contiguous a e" using True by (simp add: a_def)
    ultimately have "leaf_wf (merge_push acc e @ out)"
      "block_at (merge_push acc e @ out) n = block_at (acc @ e # out) n"
      using merge_at_correct [of "acc @ e # out" "length xs"] Cons.prems
      by (simp_all add: acc nth_append)
    with Cons.IH show ?thesis by simp
  qed
qed

lemma length_merge_push: "length (foldl merge_push acc out) \<le> length acc + length out"
proof (induction out arbitrary: acc)
  case (Cons e out)
  have "length (merge_push acc e) \<le> Suc (length acc)" by simp
  with Cons [of "merge_push acc e"] show ?case by (simp del: merge_push.simps)
qed simp

lemma converted_blocks:
  assumes "leaf_wf es" "first < fin"
  shows "map unat (concat (map (snd \<circ> init_cut first fin) es)) =
    filter (\<lambda>n. \<exists>p. block_at es n = Some (p, True)) [unat first ..< unat fin]"
  using assms(1)
proof (induction es)
  case Nil
  then show ?case by simp
next
  case (Cons e es)
  let ?P = "\<lambda>n. covers e n \<and> uninitialized e" and ?Q = "\<lambda>n. \<exists>p. block_at es n = Some (p, True)"
  have later: "ext_end e \<le> n" if "block_at es n = Some v" for n v
  proof -
    from that obtain x where "x \<in> set es" "covers x n"
      by (metis block_at_None option.distinct(1))
    with Cons.prems show ?thesis by (fastforce simp: covers_def leaf_wf_Cons_iff)
  qed
  have "(\<exists>p. block_at (e # es) n = Some (p, True)) \<longleftrightarrow> ?P n \<or> ?Q n" for n
    using later [of n] ext_image_state [of e n] by (auto simp: block_at_Cons covers_def prod_eq_iff)
  moreover have "filter (\<lambda>n. ?P n \<or> ?Q n) [unat first ..< unat fin] =
      filter ?P [unat first ..< unat fin] @ filter ?Q [unat first ..< unat fin]"
    using later by (intro filter_disj_sorted) (fastforce simp: covers_def)+
  moreover have "map unat (snd (init_cut first fin e)) = filter ?P [unat first ..< unat fin]"
    using init_cut_correct(4) [OF _ _ assms(2)] Cons.prems by (simp add: leaf_wf_Cons_iff)
  ultimately show ?case using Cons by (simp add: leaf_wf_Cons_iff)
qed

lemma initialized_entries:
  assumes "leaf_wf es" "first < fin"
  defines "out \<equiv> concat (map (fst \<circ> init_cut first fin) es)"
  shows "leaf_wf (foldl merge_push [] out)"
    and "block_at (foldl merge_push [] out) n = map_option
      (\<lambda>(p, u). (p, u \<and> \<not> (unat first \<le> n \<and> n < unat fin))) (block_at es n)"
proof -
  have each: "valid_extent e \<and> ext_end e \<le> 0xFFFFFFFF" if "e \<in> set es" for e
    using assms(1) that by (auto simp: leaf_wf_def extents_in_def)
  note cut = init_cut_correct [OF _ _ assms(2)]
  let ?g = "\<lambda>e. (fst (ext_image e n), uninitialized e \<and> \<not> (unat first \<le> n \<and> n < unat fin))"
  have "leaf_wf out"
    "block_at out n = map_option ?g (find (\<lambda>e. covers e n) es)"
    unfolding out_def
    using concat_pieces [OF assms(1), of "fst \<circ> init_cut first fin" n ?g] each cut by simp_all
  then show "leaf_wf (foldl merge_push [] out)"
    "block_at (foldl merge_push [] out) n = map_option
      (\<lambda>(p, u). (p, u \<and> \<not> (unat first \<le> n \<and> n < unat fin))) (block_at es n)"
    using merge_push_correct [of "[]" out n] ext_image_state
    by (auto simp: block_at_def option.map_comp o_def case_prod_beta)
qed

text \<open>The entries a range leaves: every uninitialized extent cut at the range's ends, then neighbours joined. And the ends that lie inside an uninitialized extent.\<close>

definition init_entries :: "u32 \<Rightarrow> u32 \<Rightarrow> extent list \<Rightarrow> extent list" where
  "init_entries first fin es = foldl merge_push [] (concat (map (fst \<circ> init_cut first fin) es))"

definition inner_cuts :: "u32 \<Rightarrow> extent list \<Rightarrow> nat" where
  "inner_cuts b es = length (filter (\<lambda>e. uninitialized e \<and> ext_start e < unat b \<and> unat b < ext_end e) es)"

lemma init_cut_pieces:
  assumes "ext_end e \<le> 0xFFFFFFFF" "first < fin"
  shows "length (fst (init_cut first fin e)) \<le> 1 + inner_cuts first [e] + inner_cuts fin [e]"
  using unat_ext_end [OF assms(1)] assms(2)
  by (auto simp: init_cut_def Let_def inner_cuts_def ext_start_def word_less_nat_alt word_le_nat_alt max_def min_def)

lemma init_entries_bound:
  assumes "leaf_wf es" "first < fin"
  shows "length (init_entries first fin es) \<le> length es + inner_cuts first es + inner_cuts fin es"
proof -
  have "length (concat (map (fst \<circ> init_cut first fin) es)) \<le> length es + inner_cuts first es + inner_cuts fin es"
    using assms(1)
  proof (induction es)
    case (Cons e es)
    then have "length (fst (init_cut first fin e)) \<le> 1 + inner_cuts first [e] + inner_cuts fin [e]"
      by (intro init_cut_pieces [OF _ assms(2)]) (simp add: leaf_wf_Cons_iff)
    moreover have "inner_cuts b (e # es) = inner_cuts b [e] + inner_cuts b es" for b by (simp add: inner_cuts_def)
    ultimately show ?case using Cons by (simp add: leaf_wf_Cons_iff)
  qed (simp add: inner_cuts_def)
  then show ?thesis using length_merge_push [of "[]" "concat (map (fst \<circ> init_cut first fin) es)"] by (simp add: init_entries_def)
qed

text \<open>
  C34. Marking a block range initialized in a well-formed inline root keeps every mapping and
  clears the uninitialized state of exactly the mapped blocks inside the range; the list of
  converted blocks it returns is, in ascending order, exactly the blocks of the range that
  were mapped and uninitialized before. It is refused exactly when the entries this leaves, neighbours joined, are more than
  the root's slots, and they are at most one more than before for each end of the range that lies inside an uninitialized
  extent: a root with two free slots is never refused. The planner never panics.
\<close>

theorem plan_initialize_range_correct:
  assumes "root_wf root" "first < fin" "read_leaf_entries root = Ok (h, es)"
  shows "(case plan_initialize_range root first fin of
     Ok (r, converted) \<Rightarrow> root_wf r \<and> length r = length root \<and>
       (\<forall>n. root_map r n = map_option (\<lambda>(p, u). (p, u \<and> \<not> (unat first \<le> n \<and> n < unat fin))) (root_map root n)) \<and>
       map unat converted = filter (\<lambda>n. \<exists>p. root_map root n = Some (p, True)) [unat first ..< unat fin] \<and>
       length (init_entries first fin es) \<le> unat (eh_max h)
   | Err e \<Rightarrow> e = CorruptExtentTree
       ''LEAF_FULL_NEEDS_PROMOTION: initializing part of an extent exceeds root capacity'' \<and>
       unat (eh_max h) < length (init_entries first fin es)
   | Panic \<Rightarrow> False) \<and>
   length (init_entries first fin es) \<le> length es + inner_cuts first es + inner_cuts fin es"
proof -
  have wf: "leaf_wf es" and m: "root_map root = block_at es" and h: "is_leaf h" "length es \<le> unat (eh_max h)"
      "unat (eh_max h) \<le> 4" and l60: "length root = 60"
    using root_wfE [OF assms(1)] assms(3) by (metis outcome.inject(1) prod.inject)+
  define out where "out = concat (map (fst \<circ> init_cut first fin) es)"
  define merged where "merged = foldl merge_push [] out"
  have me: "merged = init_entries first fin es" by (simp add: merged_def out_def init_entries_def)
  define h' where "h' = h\<lparr>eh_entries := word_of_nat (length merged)\<rparr>"
  note ini = initialized_entries [OF wf assms(2), folded out_def, folded merged_def]
  have "length (fst (init_cut first fin e)) \<le> 3" for e by (simp add: init_cut_def Let_def)
  then have "length out \<le> 3 * length es"
    unfolding out_def by (induction es) (auto simp: algebra_simps intro: add_mono)
  then have full: "(word_of_nat (length merged) :: u16) > eh_max h \<longleftrightarrow> unat (eh_max h) < length merged"
    using length_merge_push [of "[]" out] h(2,3) by (intro full_check) (simp add: merged_def)
  have plan: "plan_initialize_range root first fin =
    (if (word_of_nat (length merged) :: u16) > eh_max h
     then Err (CorruptExtentTree ''LEAF_FULL_NEEDS_PROMOTION: initializing part of an extent exceeds root capacity'')
     else and_then (build_root h' merged 60) (\<lambda>new_root.
            Ok (new_root, concat (map (snd \<circ> init_cut first fin) es))))"
    by (simp add: plan_initialize_range_def assms(3) Let_def l60 merged_def out_def h'_def o_def)
  have "case plan_initialize_range root first fin of
     Ok (r, converted) \<Rightarrow> root_wf r \<and> length r = length root \<and>
       (\<forall>n. root_map r n = map_option (\<lambda>(p, u). (p, u \<and> \<not> (unat first \<le> n \<and> n < unat fin))) (root_map root n)) \<and>
       map unat converted = filter (\<lambda>n. \<exists>p. root_map root n = Some (p, True)) [unat first ..< unat fin] \<and>
       length merged \<le> unat (eh_max h)
   | Err e \<Rightarrow> e = CorruptExtentTree
       ''LEAF_FULL_NEEDS_PROMOTION: initializing part of an extent exceeds root capacity'' \<and> unat (eh_max h) < length merged
   | Panic \<Rightarrow> False"
  proof (cases "unat (eh_max h) < length merged")
    case True
    with plan full show ?thesis by simp
  next
    case False
    with ini(1) h obtain r' where "build_root h' merged 60 = Ok r'" "length r' = 60" "root_wf r'"
      "root_map r' = block_at merged"
      by (auto simp: h'_def is_leaf_def not_less intro: rebuilt_root [of merged h'])
    with plan full False ini(2) m l60 converted_blocks [OF wf assms(2)] show ?thesis by simp
  qed
  then show ?thesis using init_entries_bound [OF wf assms(2)] unfolding me by (rule conjI)
qed

section \<open>A concrete root for the witnesses\<close>

definition example_inline :: bytes where
  "example_inline = example_leaf 2 100 @ replicate 36 0"

definition example_inline_header :: extent_header where
  "example_inline_header = \<lparr>eh_magic = 0xF30A, eh_entries = 1, eh_max = 4, eh_depth = 0, eh_generation = 0\<rparr>"

definition example_extent :: extent where
  "example_extent = \<lparr>logical_block = 2, len = 4, physical_block = 100, uninitialized = False\<rparr>"

definition example_new :: extent where
  "example_new = \<lparr>logical_block = 6, len = 3, physical_block = 104, uninitialized = False\<rparr>"

lemma example_inline_reads: "read_leaf_entries example_inline = Ok (example_inline_header, [example_extent])"
  by (simp add: read_leaf_entries_def example_inline_def example_inline_header_def example_extent_def
      example_leaf_def ExtentHeader_parse_def Extent_parse_def EXT4_EXT_MAGIC_def EXT_INIT_MAX_LEN_def
      is_leaf_def entry_off_def get_slice_def get_field_defs slice_def u16_from_le_def u32_from_le_def)

lemma example_inline_wf: "root_wf example_inline"
  by (simp add: root_wf_def example_inline_reads leaf_wf_simps valid_extent_def max_extent_len_def
      example_extent_def ext_end_def EXT_INIT_MAX_LEN_def example_inline_header_def)
    (simp add: example_inline_def example_leaf_def)

lemma example_new_ok: "valid_extent example_new \<and> ext_end example_new \<le> 0xFFFFFFFF"
  by (simp add: example_new_def valid_extent_def max_extent_len_def ext_end_def EXT_INIT_MAX_LEN_def)

lemma example_inline_map:
  "root_map example_inline n = (if 2 \<le> n \<and> n < 6 then Some (100 + word_of_nat (n - 2), False) else None)"
  by (simp add: root_map_def example_inline_reads block_at_Cons covers_def example_extent_def
      ext_start_def ext_end_def ext_image_def)

theorem plan_insert_extent_correct_witness:
  "root_wf example_inline \<and> valid_extent example_new \<and> ext_end example_new \<le> 0xFFFFFFFF \<and>
   (\<exists>ms. plan_insert_extent example_inline example_new = Ok ms \<and> length ms = 1 \<and>
      is_root_update example_inline ms
        (\<lambda>n. if covers example_new n then Some (ext_image example_new n) else root_map example_inline n))"
proof -
  have free: "\<not> (\<exists>n. covers example_new n \<and> root_map example_inline n \<noteq> None)"
    by (auto simp: example_inline_map covers_def example_new_def ext_start_def ext_end_def)
  have "length (insert_into_leaf_sorted [example_extent] example_new) \<le> 2"
    using length_insert_into_leaf_sorted [of "[example_extent]" example_new] by simp
  then have room: "\<not> (\<exists>h es. read_leaf_entries example_inline = Ok (h, es) \<and>
      length (insert_into_leaf_sorted es example_new) > unat (eh_max h))"
    by (simp add: example_inline_reads example_inline_header_def)
  show ?thesis
    using plan_insert_extent_correct [OF example_inline_wf, of example_new] example_new_ok
      example_inline_wf free room
    by (auto split: outcome.splits)
qed

theorem plan_split_extent_correct_witness:
  "root_wf example_inline \<and>
   (\<exists>ms. plan_split_extent example_inline 0 4 = Ok ms \<and> length ms = 1 \<and>
      is_root_update example_inline ms (root_map example_inline))"
  using plan_split_extent_correct [OF example_inline_wf, where idx = 0 and split_at = 4] example_inline_wf
  by (auto simp: example_inline_reads example_inline_header_def example_extent_def ext_start_def
      ext_end_def split: outcome.splits)

theorem plan_free_and_merge_correct_witness:
  "root_wf example_inline \<and>
   (\<exists>ms. plan_free_extent example_inline 0 = Ok ms \<and> tl ms = [FreePhysicalRun 100 4] \<and>
      is_root_update example_inline ms (\<lambda>_. None)) \<and>
   plan_merge_adjacent example_inline 0 = Err (CorruptExtentTree ''merge idx out of range'')"
proof -
  have "(\<lambda>n. if covers example_extent n then None else root_map example_inline n) = (\<lambda>_. None)"
    by (auto simp: fun_eq_iff example_inline_map covers_def example_extent_def ext_start_def ext_end_def)
  then show ?thesis
    using plan_free_and_merge_correct [OF example_inline_wf example_inline_reads, of 0 0] example_inline_wf
    by (auto simp: example_extent_def split: outcome.splits)
qed

text \<open>A root that maps blocks 0 to 9 to 100 to 109, none of them initialized; blocks 4 and 5 are written.\<close>

definition example_uninit :: bytes where
  "example_uninit = [0x0A, 0xF3, 1, 0, 4, 0, 0, 0, 0, 0, 0, 0, 0, 0, 0, 0, 10, 0x80, 0, 0, 100, 0, 0, 0] @ replicate 36 0"

lemma example_uninit_reads:
  "read_leaf_entries example_uninit = Ok (example_inline_header, [\<lparr>logical_block = 0, len = 10, physical_block = 100, uninitialized = True\<rparr>])"
  by (simp add: read_leaf_entries_def example_uninit_def example_inline_header_def ExtentHeader_parse_def Extent_parse_def EXT4_EXT_MAGIC_def
      EXT_INIT_MAX_LEN_def is_leaf_def entry_off_def get_slice_def get_field_defs slice_def u16_from_le_def u32_from_le_def)

lemma example_uninit_wf: "root_wf example_uninit"
  by (simp add: root_wf_def example_uninit_reads leaf_wf_simps valid_extent_def max_extent_len_def ext_end_def EXT_INIT_MAX_LEN_def example_inline_header_def)
    (simp add: example_uninit_def)

lemma example_uninit_map: "root_map example_uninit n = (if n < 10 then Some (100 + word_of_nat n, True) else None)"
  by (simp add: root_map_def example_uninit_reads block_at_Cons covers_def ext_start_def ext_end_def ext_image_def)

theorem plan_initialize_range_correct_witness:
  "\<exists>r. plan_initialize_range example_uninit 4 6 = Ok (r, [4, 5]) \<and> root_map r 3 = Some (103, True) \<and>
     root_map r 4 = Some (104, False) \<and> root_map r 5 = Some (105, False) \<and> root_map r 6 = Some (106, True)"
proof -
  have cuts: "inner_cuts b [\<lparr>logical_block = 0, len = 10, physical_block = 100, uninitialized = True\<rparr>] \<le> 1" for b by (simp add: inner_cuts_def)
  have "[4 ..< 6] = [4, Suc 4]" by (simp add: upt_rec)
  then have conv: "c = [4, 5]" if "map unat c = [4 ..< 6]" for c :: "u32 list" using that by (auto simp: word_unat_eq_iff)
  show ?thesis
    using plan_initialize_range_correct [OF example_uninit_wf _ example_uninit_reads, of 4 6] cuts [of 4] cuts [of 6] conv
    by (auto simp: example_uninit_map example_inline_header_def simp del: upt_rec_numeral split: outcome.splits)
qed

end
