(* ===== verification/Extent_Deep.thy ===== *)
theory Extent_Deep
  imports Extent_Mut
begin

unbundle bit_operations_syntax

text \<open>
  Extent trees of more than one level (\<open>src/extent_mut.rs\<close>): \<open>plan_repack_tree\<close>, which
  lays a sorted list of extents out again over the blocks a file owns, and
  \<open>plan_insert_extent_deep\<close>, which descends, splits full nodes and promotes the root.

  The allocator closure \<open>alloc\<close> is a function on its captured state of type \<open>'s\<close>. Loops that
  an image or a block size can keep running carry fuel, with \<open>None\<close> for a run cut short.
\<close>

section \<open>Node builders\<close>

definition node_max_entries :: "nat \<Rightarrow> u16" where
  "node_max_entries block_size =
     ucast ((word_of_nat block_size - word_of_nat EXT4_EXT_NODE_SIZE - 4 :: u64) div
            word_of_nat EXT4_EXT_NODE_SIZE)"

definition build_full_leaf_block :: "u32 \<Rightarrow> extent list \<Rightarrow> nat \<Rightarrow> bytes result" where
  "build_full_leaf_block generation extents block_size =
     and_then (put_header (word_of_nat (length extents)) (node_max_entries block_size) 0 generation
                 (replicate block_size 0))
       (put_entries encode_extent 0 extents)"

definition put_index :: "u32 \<times> u64 \<Rightarrow> bytes" where
  "put_index x = encode_index (fst x) (snd x)"

definition build_full_index_block ::
    "u32 \<Rightarrow> u16 \<Rightarrow> (u32 \<times> u64) list \<Rightarrow> nat \<Rightarrow> bytes result" where
  "build_full_index_block generation depth indices block_size =
     and_then (put_header (word_of_nat (length indices)) (node_max_entries block_size) depth generation
                 (replicate block_size 0))
       (put_entries put_index 0 indices)"

definition build_inline_index_root :: "u32 \<Rightarrow> u16 \<Rightarrow> (u32 \<times> u64) list \<Rightarrow> bytes result" where
  "build_inline_index_root generation depth indices =
     and_then (put_header (word_of_nat (length indices)) 4 depth generation (replicate 60 0))
       (put_entries put_index 0 indices)"

definition build_inline_leaf_root :: "u32 \<Rightarrow> extent list \<Rightarrow> bytes result" where
  "build_inline_leaf_root generation extents =
     build_root \<lparr>eh_magic = EXT4_EXT_MAGIC, eh_entries = word_of_nat (length extents), eh_max = 4,
       eh_depth = 0, eh_generation = generation\<rparr> extents 60"

section \<open>Repacking\<close>

record repacked_tree =
  new_root :: bytes
  block_writes :: "(u64 \<times> bytes) list"
  used_nodes :: "u64 list"
  allocated_blocks :: "u64 list"

text \<open>What the closure \<open>take\<close> and the loops of \<open>plan_repack_tree\<close> mutate.\<close>

record 's packer =
  pk_supply :: "u64 list"
  pk_used :: "u64 list"
  pk_fresh :: "u64 list"
  pk_writes :: "(u64 \<times> bytes) list"
  pk_alloc :: 's

definition take_node :: "('s \<Rightarrow> (u64 \<times> 's) result) \<Rightarrow> 's packer \<Rightarrow> (u64 \<times> 's packer) result" where
  "take_node alloc p = (case pk_supply p of
     block # rest \<Rightarrow> Ok (block, p\<lparr>pk_supply := rest, pk_used := pk_used p @ [block]\<rparr>)
   | [] \<Rightarrow> and_then (alloc (pk_alloc p)) (\<lambda>(block, s).
       Ok (block, p\<lparr>pk_fresh := pk_fresh p @ [block], pk_alloc := s\<rparr>)))"

text \<open>One loop \<open>for chunk in xs.chunks(cap)\<close>: a node per chunk, and its index entry.\<close>

fun pack_chunks :: "('s \<Rightarrow> (u64 \<times> 's) result) \<Rightarrow> ('e \<Rightarrow> u32) \<Rightarrow> ('e list \<Rightarrow> bytes result)
    \<Rightarrow> 'e list list \<Rightarrow> 's packer \<Rightarrow> ((u32 \<times> u64) list \<times> 's packer) result" where
  "pack_chunks alloc key build [] p = Ok ([], p)"
| "pack_chunks alloc key build (c # cs) p =
     and_then (take_node alloc p) (\<lambda>(block, p).
       and_then (build c) (\<lambda>node.
         and_then (pack_chunks alloc key build cs (p\<lparr>pk_writes := pk_writes p @ [(block, node)]\<rparr>))
           (\<lambda>(indices, p). Ok ((key (hd c), block) # indices, p))))"

definition pack_level :: "('s \<Rightarrow> (u64 \<times> 's) result) \<Rightarrow> nat \<Rightarrow> ('e \<Rightarrow> u32) \<Rightarrow> ('e list \<Rightarrow> bytes result)
    \<Rightarrow> 'e list \<Rightarrow> 's packer \<Rightarrow> ((u32 \<times> u64) list \<times> 's packer) result" where
  "pack_level alloc cap key build xs p =
     (if cap = 0 then Panic else pack_chunks alloc key build (chunks cap xs) p)"

text \<open>The loop \<open>while indices.len() > 4\<close>.\<close>

fun pack_levels :: "nat \<Rightarrow> ('s \<Rightarrow> (u64 \<times> 's) result) \<Rightarrow> u32 \<Rightarrow> nat \<Rightarrow> u16 \<Rightarrow> (u32 \<times> u64) list
    \<Rightarrow> 's packer \<Rightarrow> (u16 \<times> (u32 \<times> u64) list \<times> 's packer) result option" where
  "pack_levels fuel alloc generation bs depth indices p =
     (if length indices \<le> 4 then Some (Ok (depth, indices, p))
      else case fuel of
        0 \<Rightarrow> None
      | Suc fuel' \<Rightarrow>
          (case pack_level alloc (unat (node_max_entries bs)) fst
                  (\<lambda>chunk. build_full_index_block generation depth chunk bs) indices p of
             Ok (upper, p') \<Rightarrow> pack_levels fuel' alloc generation bs (depth + 1) upper p'
           | Err e \<Rightarrow> Some (Err e)
           | Panic \<Rightarrow> Some Panic))"

declare pack_levels.simps [simp del]

definition plan_repack_tree :: "nat \<Rightarrow> u32 \<Rightarrow> extent list \<Rightarrow> u32 \<Rightarrow> u64 list
    \<Rightarrow> ('s \<Rightarrow> (u64 \<times> 's) result) \<Rightarrow> 's \<Rightarrow> (repacked_tree \<times> 's) result option" where
  "plan_repack_tree fuel generation entries block_size nodes alloc s =
     (let bs = unat block_size in
      if length entries \<le> 4
      then Some (and_then (build_inline_leaf_root generation entries) (\<lambda>root.
             Ok (\<lparr>new_root = root, block_writes = [], used_nodes = [], allocated_blocks = []\<rparr>, s)))
      else case pack_level alloc (unat (node_max_entries bs)) logical_block
                  (\<lambda>chunk. build_full_leaf_block generation chunk bs) entries
                  \<lparr>pk_supply = nodes, pk_used = [], pk_fresh = [], pk_writes = [], pk_alloc = s\<rparr> of
          Err e \<Rightarrow> Some (Err e)
        | Panic \<Rightarrow> Some Panic
        | Ok (indices, p) \<Rightarrow>
            map_option (\<lambda>r. and_then r (\<lambda>(depth, indices, p).
                and_then (build_inline_index_root generation depth indices) (\<lambda>root.
                  Ok (\<lparr>new_root = root, block_writes = pk_writes p, used_nodes = pk_used p,
                       allocated_blocks = pk_fresh p\<rparr>, pk_alloc p))))
              (pack_levels fuel alloc generation bs 1 indices p))"

section \<open>Insertion into a tree of any depth\<close>

definition insert_into_index_sorted :: "(u32 \<times> u64) list \<Rightarrow> u32 \<Rightarrow> u64 \<Rightarrow> (u32 \<times> u64) list" where
  "insert_into_index_sorted entries new_logical new_child =
     (let pos = (case position (\<lambda>(l, _). l > new_logical) entries of
                   Some p \<Rightarrow> p | None \<Rightarrow> length entries)
      in vec_insert pos (new_logical, new_child) entries)"

record path_frame =
  pf_block :: u64
  pf_bytes :: bytes

definition parse_leaf_entries :: "bytes \<Rightarrow> extent_header \<Rightarrow> extent list result" where
  "parse_leaf_entries node header =
     parse_entries Extent_parse ''leaf entry out of range'' node 0 (unat (eh_entries header))"

definition parse_index_entries :: "bytes \<Rightarrow> extent_header \<Rightarrow> extent_idx list result" where
  "parse_index_entries node header =
     parse_entries ExtentIdx_parse ''index entry out of range'' node 0 (unat (eh_entries header))"

text \<open>
  The loop of \<open>descend_to_leaf\<close>; \<open>path\<close> is kept leaf first, so its head is \<open>path.last()\<close> and
  popping it is \<open>path.pop()\<close>. Nothing in the code bounds the number of turns.
\<close>

fun descend_loop :: "nat \<Rightarrow> u32 \<Rightarrow> u32 \<Rightarrow> (u64 \<Rightarrow> nat \<Rightarrow> bytes result) \<Rightarrow> path_frame list
    \<Rightarrow> path_frame list result option" where
  "descend_loop fuel target block_size rb path =
     (case ExtentHeader_parse (pf_bytes (hd path)) of
        Err e \<Rightarrow> Some (Err e)
      | Panic \<Rightarrow> Some Panic
      | Ok header \<Rightarrow>
          if is_leaf header then Some (Ok path)
          else if eh_entries header = 0
          then Some (Err (CorruptExtentTree ''internal node with zero index entries''))
          else case parse_index_entries (pf_bytes (hd path)) header of
              Err e \<Rightarrow> Some (Err e)
            | Panic \<Rightarrow> Some Panic
            | Ok entries \<Rightarrow>
                let below = takeWhile (\<lambda>i. ei_block i \<le> target) entries;
                    idx = (if below = [] then hd entries else last below)
                in case rb (leaf_block idx) (unat block_size) of
                     Err e \<Rightarrow> Some (Err e)
                   | Panic \<Rightarrow> Some Panic
                   | Ok child \<Rightarrow>
                       (case fuel of 0 \<Rightarrow> None
                        | Suc fuel' \<Rightarrow> descend_loop fuel' target block_size rb
                            (\<lparr>pf_block = leaf_block idx, pf_bytes = child\<rparr> # path)))"

declare descend_loop.simps [simp del]

definition descend_to_leaf :: "nat \<Rightarrow> bytes \<Rightarrow> u32 \<Rightarrow> u32 \<Rightarrow> (u64 \<Rightarrow> nat \<Rightarrow> bytes result)
    \<Rightarrow> path_frame list result option" where
  "descend_to_leaf fuel root_bytes target block_size rb =
     (case ExtentHeader_parse root_bytes of
        Err e \<Rightarrow> Some (Err e)
      | Panic \<Rightarrow> Some Panic
      | Ok root_header \<Rightarrow>
          if eh_depth root_header > EXT4_EXT_MAX_DEPTH
          then Some (Err (CorruptExtentTree ''extent tree depth exceeds spec maximum''))
          else descend_loop fuel target block_size rb [\<lparr>pf_block = 0, pf_bytes = root_bytes\<rparr>])"

record deep_insert_plan =
  dip_new_root :: bytes
  dip_block_writes :: "(u64 \<times> bytes) list"
  dip_allocated_blocks :: "u64 list"

text \<open>What the loop that walks up carries: the plan so far, the split to absorb and the key to correct.\<close>

record 's absorb_state =
  ab_writes :: "(u64 \<times> bytes) list"
  ab_allocated :: "u64 list"
  ab_alloc :: 's
  propagated :: "(u32 \<times> u64) option"
  correction :: "(u64 \<times> u32) option"

definition apply_correction :: "u64 \<Rightarrow> (u32 \<times> u64) list \<Rightarrow> (u64 \<times> u32) option
    \<Rightarrow> ((u32 \<times> u64) list \<times> (u64 \<times> u32) option) result" where
  "apply_correction frame_block indices corr = (case corr of
     None \<Rightarrow> Ok (indices, None)
   | Some (child, key) \<Rightarrow>
       and_then (ok_or (position (\<lambda>(_, block). block = child) indices)
           (CorruptExtentTree ''the index entry naming a child this insert changed is missing''))
         (\<lambda>at. Ok (indices[at := (key, snd (indices ! at))],
                   if at = 0 \<and> frame_block \<noteq> 0 then Some (frame_block, key) else None)))"

fun absorb :: "('s \<Rightarrow> (u64 \<times> 's) result) \<Rightarrow> bytes \<Rightarrow> u32 \<Rightarrow> nat \<Rightarrow> path_frame list \<Rightarrow> 's absorb_state
    \<Rightarrow> (deep_insert_plan \<times> 's) result" where
  "absorb alloc root_bytes generation bs [] st =
     Err (CorruptExtentTree ''deep insert: unexpected path exhaustion'')"
| "absorb alloc root_bytes generation bs (frame # path) st =
     and_then (ExtentHeader_parse (pf_bytes frame)) (\<lambda>header.
     and_then (parse_index_entries (pf_bytes frame) header) (\<lambda>parsed.
     and_then (apply_correction (pf_block frame) (map idx_pair parsed) (correction st)) (\<lambda>(indices, corr).
       let indices = (case propagated st of None \<Rightarrow> indices
                      | Some (l, c) \<Rightarrow> insert_into_index_sorted indices l c);
           is_root_here = (path = []);
           cap = (if is_root_here then 4 else node_max_entries bs)
       in if (word_of_nat (length indices) :: u16) \<le> cap
          then if is_root_here
            then and_then (build_inline_index_root generation (eh_depth header) indices) (\<lambda>root.
                   Ok (\<lparr>dip_new_root = root, dip_block_writes = ab_writes st,
                        dip_allocated_blocks = ab_allocated st\<rparr>, ab_alloc st))
            else and_then (build_full_index_block generation (eh_depth header) indices bs) (\<lambda>node.
                   let writes = ab_writes st @ [(pf_block frame, node)] in
                   if corr \<noteq> None
                   then absorb alloc root_bytes generation bs path
                          (st\<lparr>ab_writes := writes, propagated := None, correction := corr\<rparr>)
                   else Ok (\<lparr>dip_new_root = root_bytes, dip_block_writes = writes,
                             dip_allocated_blocks = ab_allocated st\<rparr>, ab_alloc st))
          else let mid = length indices div 2; left = take mid indices; right = drop mid indices in
            if is_root_here
            then let new_depth = eh_depth header + 1 in
              if new_depth > EXT4_EXT_MAX_DEPTH
              then Err (CorruptExtentTree ''extent tree depth would exceed spec maximum'')
              else if left = [] \<or> right = [] then Panic
              else and_then (alloc (ab_alloc st)) (\<lambda>(left_block, s).
                   and_then (alloc s) (\<lambda>(right_block, s).
                   and_then (build_full_index_block generation (eh_depth header) left bs) (\<lambda>left_bytes.
                   and_then (build_full_index_block generation (eh_depth header) right bs) (\<lambda>right_bytes.
                   and_then (build_inline_index_root generation new_depth
                       [(fst (hd left), left_block), (fst (hd right), right_block)]) (\<lambda>root.
                     Ok (\<lparr>dip_new_root = root,
                          dip_block_writes = ab_writes st @ [(left_block, left_bytes), (right_block, right_bytes)],
                          dip_allocated_blocks = ab_allocated st @ [left_block, right_block]\<rparr>, s))))))
            else if right = [] then Panic
            else and_then (alloc (ab_alloc st)) (\<lambda>(new_right_block, s).
                 and_then (build_full_index_block generation (eh_depth header) left bs) (\<lambda>left_bytes.
                 and_then (build_full_index_block generation (eh_depth header) right bs) (\<lambda>right_bytes.
                   absorb alloc root_bytes generation bs path
                     \<lparr>ab_writes = ab_writes st @ [(pf_block frame, left_bytes), (new_right_block, right_bytes)],
                      ab_allocated = ab_allocated st @ [new_right_block], ab_alloc = s,
                      propagated = Some (fst (hd right), new_right_block), correction = corr\<rparr>))))))"

definition plan_insert_extent_deep :: "nat \<Rightarrow> bytes \<Rightarrow> extent \<Rightarrow> u32 \<Rightarrow> (u64 \<Rightarrow> nat \<Rightarrow> bytes result)
    \<Rightarrow> ('s \<Rightarrow> (u64 \<times> 's) result) \<Rightarrow> 's \<Rightarrow> (deep_insert_plan \<times> 's) result option" where
  "plan_insert_extent_deep fuel root_bytes new block_size rb alloc s =
     (if length root_bytes < 12 then Some (Err (CorruptExtentTree ''root buffer too small''))
      else case ExtentHeader_parse root_bytes of
        Err e \<Rightarrow> Some (Err e)
      | Panic \<Rightarrow> Some Panic
      | Ok root_header \<Rightarrow>
        let bs = unat block_size; generation = eh_generation root_header in
        map_option (\<lambda>r. and_then r (\<lambda>path.
          let leaf_frame = hd path; path = tl path; is_root_leaf = (path = []) in
          and_then (ExtentHeader_parse (pf_bytes leaf_frame)) (\<lambda>leaf_header.
          and_then (parse_leaf_entries (pf_bytes leaf_frame) leaf_header) (\<lambda>leaf_entries.
          and_then (check_no_overlap leaf_entries new) (\<lambda>_.
            let first_key_before = (case leaf_entries of [] \<Rightarrow> None | e # _ \<Rightarrow> Some (logical_block e));
                leaf_entries = insert_into_leaf_sorted leaf_entries new;
                leaf_cap = (if is_root_leaf then 4 else node_max_entries bs)
            in if (word_of_nat (length leaf_entries) :: u16) \<le> leaf_cap
               then if is_root_leaf
                 then and_then (build_inline_leaf_root generation leaf_entries) (\<lambda>root.
                        Ok (\<lparr>dip_new_root = root, dip_block_writes = [], dip_allocated_blocks = []\<rparr>, s))
                 else and_then (build_full_leaf_block generation leaf_entries bs) (\<lambda>new_leaf.
                        let first_key = logical_block (hd leaf_entries);
                            writes = [(pf_block leaf_frame, new_leaf)] in
                        if first_key_before = Some first_key
                        then Ok (\<lparr>dip_new_root = root_bytes, dip_block_writes = writes,
                                  dip_allocated_blocks = []\<rparr>, s)
                        else absorb alloc root_bytes generation bs path
                               \<lparr>ab_writes = writes, ab_allocated = [], ab_alloc = s, propagated = None,
                                correction = Some (pf_block leaf_frame, first_key)\<rparr>)
               else if is_root_leaf
                 then and_then (alloc s) (\<lambda>(new_leaf_block, s).
                      and_then (build_full_leaf_block generation leaf_entries bs) (\<lambda>new_leaf_bytes.
                      and_then (build_inline_index_root generation 1
                          [(logical_block (hd leaf_entries), new_leaf_block)]) (\<lambda>root.
                        Ok (\<lparr>dip_new_root = root, dip_block_writes = [(new_leaf_block, new_leaf_bytes)],
                             dip_allocated_blocks = [new_leaf_block]\<rparr>, s))))
                 else let mid = length leaf_entries div 2; left = take mid leaf_entries;
                          right = drop mid leaf_entries in
                   if right = [] then Panic
                   else and_then (alloc s) (\<lambda>(new_right_block, s).
                        and_then (build_full_leaf_block generation left bs) (\<lambda>left_bytes.
                        and_then (build_full_leaf_block generation right bs) (\<lambda>right_bytes.
                          if left = [] then Panic
                          else absorb alloc root_bytes generation bs path
                            \<lparr>ab_writes = [(pf_block leaf_frame, left_bytes), (new_right_block, right_bytes)],
                             ab_allocated = [new_right_block], ab_alloc = s,
                             propagated = Some (logical_block (hd right), new_right_block),
                             correction = (if first_key_before \<noteq> Some (logical_block (hd left))
                                           then Some (pf_block leaf_frame, logical_block (hd left))
                                           else None)\<rparr>))))))))
          (descend_to_leaf fuel root_bytes (logical_block new) block_size rb))"

section \<open>Nodes on disk\<close>

text \<open>
  The caller stamps a node's tail checksum before the block is written, when the volume has
  them; \<open>stored\<close> says that a device holds the stamped bytes of every block write of a plan.
\<close>

definition stamp :: "crc_fn \<Rightarrow> verify_ctx option \<Rightarrow> bytes \<Rightarrow> bytes" where
  "stamp crc ctx node = (case ctx of None \<Rightarrow> node
     | Some c \<Rightarrow> fst (patch_extent_tail crc (ctx_csum c) (ctx_ino c) (ctx_generation c) node))"

definition stored :: "crc_fn \<Rightarrow> verify_ctx option \<Rightarrow> reader \<Rightarrow> u32 \<Rightarrow> (u64 \<times> bytes) list \<Rightarrow> bool" where
  "stored crc ctx rd bs ws \<longleftrightarrow> (\<forall>(b, node) \<in> set ws. length node = unat bs \<and>
     (\<exists>off. child_offset b bs = Some off \<and> rd off (unat bs) = Ok (stamp crc ctx node)))"

lemma stamp_cases:
  obtains "stamp crc ctx node = node"
  | c where "4 \<le> length node" "stamp crc ctx node = put (length node - 4) (u32_to_le c) node"
proof (cases "\<exists>c. ctx = Some c \<and> enabled (ctx_csum c) \<and> 4 \<le> length node")
  case True
  then show ?thesis by (auto simp: stamp_def patch_extent_tail_def Let_def intro: that(2))
next
  case False
  then show ?thesis
    by (intro that(1)) (auto simp: stamp_def patch_extent_tail_def not_le split: option.split)
qed

lemma length_stamp [simp]: "length (stamp crc ctx node) = length node"
  by (rule stamp_cases [of crc ctx node]) auto

lemma read_child_stored:
  assumes "stored crc ctx rd bs ws" "(b, node) \<in> set ws" "4 \<le> unat bs"
  shows "read_child crc rd bs ctx msg b = Ok (stamp crc ctx node)"
proof -
  from assms obtain off where "child_offset b bs = Some off" "rd off (unat bs) = Ok (stamp crc ctx node)"
    and "length node = unat bs" by (auto simp: stored_def)
  with assms(3) show ?thesis
    by (auto simp: read_child_def stamp_def extent_tail.patch_verifies split: option.split)
qed

lemma header_parse_put:
  "12 \<le> off \<Longrightarrow> off + length ys \<le> length node \<Longrightarrow> ExtentHeader_parse (put off ys node) = ExtentHeader_parse node"
  by (simp add: ExtentHeader_parse_def codec_simps)

lemma parse_entries_put:
  "12 * (1 + i + n) \<le> off \<Longrightarrow> off + length ys \<le> length node \<Longrightarrow>
   parse_entries q msg (put off ys node) i n = parse_entries q msg node i n"
proof (induction n arbitrary: i)
  case (Suc n)
  have "slice (entry_off i) (entry_off i + 12) (put off ys node) = slice (entry_off i) (entry_off i + 12) node"
    using Suc.prems by (intro slice_put_before) (simp_all add: entry_off_def)
  with Suc show ?case by (simp add: Let_def get_slice_def)
qed simp

context entry_codec
begin

lemma built_node:
  assumes fit: "12 * (1 + length es) + 4 \<le> k" and cap: "length es \<le> unat mx" and v: "\<forall>e \<in> set es. valid e"
  obtains out where "and_then (put_header (word_of_nat (length es)) mx d g (replicate k 0)) (put_entries enc 0 es) = Ok out"
    "length out = k"
    "\<And>crc ctx. ExtentHeader_parse (stamp crc ctx out) = Ok \<lparr>eh_magic = EXT4_EXT_MAGIC,
        eh_entries = word_of_nat (length es), eh_max = mx, eh_depth = d, eh_generation = g\<rparr>"
    "\<And>crc ctx msg. parse_entries parse msg (stamp crc ctx out) 0 (length es) = Ok es"
proof -
  let ?n = "word_of_nat (length es) :: u16"
  have u: "unat ?n = length es" using cap unat_u16_bound [of mx] by (simp add: unat_of_nat)
  have "\<exists>out. and_then (put_header ?n mx d g (replicate k 0)) (put_entries enc 0 es) = Ok out"
    using build_Ok_iff [of ?n mx d g k es] fit by simp
  then obtain b out where b: "put_header ?n mx d g (replicate k 0) = Ok b"
    and out: "put_entries enc 0 es b = Ok out" by (auto simp: outcome_simps)
  have len: "length out = k"
    using put_entries_length [OF out] b by (auto simp: put_header_def split: if_splits)
  have h: "ExtentHeader_parse out = Ok \<lparr>eh_magic = EXT4_EXT_MAGIC, eh_entries = ?n, eh_max = mx,
      eh_depth = d, eh_generation = g\<rparr>"
    using header_of_built [OF b out] cap u by (simp add: word_le_nat_alt)
  have e: "parse_entries parse msg out 0 (length es) = Ok es" for msg
    using parse_put_entries [OF out v] .
  show ?thesis
  proof (rule that [of out])
    fix crc ctx msg
    show "ExtentHeader_parse (stamp crc ctx out) = Ok \<lparr>eh_magic = EXT4_EXT_MAGIC,
        eh_entries = ?n, eh_max = mx, eh_depth = d, eh_generation = g\<rparr>"
      by (rule stamp_cases [of crc ctx out]) (use h fit len in \<open>simp_all add: header_parse_put\<close>)
    show "parse_entries parse msg (stamp crc ctx out) 0 (length es) = Ok es"
      by (rule stamp_cases [of crc ctx out]) (use e fit len in \<open>simp_all add: parse_entries_put\<close>)
  qed (use b out len in \<open>simp_all add: outcome_simps\<close>)
qed

end

lemma put_index_entries:
  "put_entries put_index i xs buf =
     put_entries (\<lambda>i. encode_index (ei_block i) (leaf_block i)) i (map idx_of xs) buf"
proof (induction xs arbitrary: i buf)
  case (Cons x xs)
  then show ?case by (cases "put_checked (extent_entry_offset i) (put_index x) buf :: bytes result")
      (simp_all add: put_index_def idx_of_def)
qed simp

lemma node_capacity:
  assumes "1024 \<le> bs" "bs \<le> 65536"
  shows "unat (node_max_entries bs) = (bs - 16) div 12"
proof -
  have "unat (word_of_nat bs - 12 - 4 :: u64) = bs - 16"
  proof -
    have "(word_of_nat bs - 12 - 4 :: u64) = word_of_nat (bs - 16)"
      using assms by (simp add: of_nat_diff)
    moreover have "unat (word_of_nat k :: u64) = k" if "k \<le> 65536" for k
      using that by (simp add: unat_of_nat)
    ultimately show ?thesis using assms(2) by (metis diff_le_self le_trans)
  qed
  then have "unat ((word_of_nat bs - 12 - 4 :: u64) div 12) = (bs - 16) div 12"
    by (simp add: unat_div)
  moreover have "(bs - 16) div 12 < 65536" using assms by simp
  ultimately show ?thesis
    by (simp add: node_max_entries_def unsigned_ucast_eq take_bit_nat_eq_self)
qed

lemma capacity_bounds:
  assumes "1024 \<le> bs" "bs \<le> 65536" "n \<le> unat (node_max_entries bs)"
  shows "12 * (1 + n) + 4 \<le> bs" "84 \<le> unat (node_max_entries bs)"
proof -
  note c = node_capacity [OF assms(1,2)]
  show "84 \<le> unat (node_max_entries bs)" using assms(1) by (simp add: c)
  have "12 * n \<le> 12 * ((bs - 16) div 12)" using assms(3) by (simp add: c)
  also have "\<dots> \<le> bs - 16" by simp
  finally show "12 * (1 + n) + 4 \<le> bs" using assms(1) by simp
qed

section \<open>Subtrees of a repacked tree\<close>

text \<open>
  The node at \<open>block\<close> is the root of a well-formed subtree of \<open>d\<close> further levels that holds exactly
  the extents \<open>seg\<close>, and \<open>key\<close> is its first logical block.
\<close>

definition subtree :: "crc_fn \<Rightarrow> verify_ctx option \<Rightarrow> reader \<Rightarrow> u32 \<Rightarrow> nat \<Rightarrow> u32 \<times> u64 \<Rightarrow> extent list \<Rightarrow> bool" where
  "subtree crc ctx rd bs d kb seg \<longleftrightarrow> seg \<noteq> [] \<and> fst kb = logical_block (hd seg) \<and> unat (snd kb) < 2 ^ 48 \<and>
     (\<exists>buf h ns. (\<forall>msg. read_child crc rd bs ctx msg (snd kb) = Ok buf) \<and> ExtentHeader_parse buf = Ok h \<and>
        walk rd bs d buf h = Ok (seg, ns) \<and>
        (\<forall>hi. (\<forall>e \<in> set seg. ext_end e \<le> hi) \<longrightarrow> node_ok crc rd bs ctx d buf h (unat (fst kb)) hi))"

abbreviation level where
  "level crc ctx rd bs d ixs segs \<equiv> list_all2 (subtree crc ctx rd bs d) ixs segs"

lemma leaf_wf_bounds:
  assumes "leaf_wf seg" "e \<in> set seg"
  shows "ext_start (hd seg) \<le> ext_start e"
  using assms by (cases seg) (auto simp: leaf_wf_Cons_iff intro: order_trans [OF ext_start_le_end])

lemma leaf_subtree:
  assumes "1024 \<le> unat bs" "unat bs \<le> 65536" and seg: "leaf_wf seg" "seg \<noteq> []"
    and cap: "length seg \<le> unat (node_max_entries (unat bs))" and b: "unat block < 2 ^ 48"
  shows "\<exists>node. build_full_leaf_block g seg (unat bs) = Ok node \<and>
    (\<forall>ws. stored crc ctx rd bs ws \<longrightarrow> (block, node) \<in> set ws \<longrightarrow>
       subtree crc ctx rd bs 0 (logical_block (hd seg), block) seg)"
proof -
  have v: "\<forall>e \<in> set seg. valid_extent e" using seg(1) by (simp add: leaf_wf_def)
  have u: "unat (word_of_nat (length seg) :: u16) = length seg"
    using cap unat_u16_bound [of "node_max_entries (unat bs)"] by (simp add: unat_of_nat)
  have ext: "extents_in (unat (logical_block (hd seg))) hi seg" if "\<forall>e \<in> set seg. ext_end e \<le> hi" for hi
    using that seg leaf_wf_bounds [OF seg(1)] by (auto simp: leaf_wf_def extents_in_def ext_start_def)
  show ?thesis
  proof (rule leaf_entry.built_node [OF capacity_bounds(1) [OF assms(1,2) cap] cap v, of 0 g])
    fix node
    assume node: "and_then (put_header (word_of_nat (length seg)) (node_max_entries (unat bs)) 0 g
        (replicate (unat bs) 0)) (put_entries encode_extent 0 seg) = Ok node"
      and h: "\<And>crc ctx. ExtentHeader_parse (stamp crc ctx node) = Ok \<lparr>eh_magic = EXT4_EXT_MAGIC,
        eh_entries = word_of_nat (length seg), eh_max = node_max_entries (unat bs), eh_depth = 0, eh_generation = g\<rparr>"
      and es: "\<And>crc ctx msg. parse_entries Extent_parse msg (stamp crc ctx node) 0 (length seg) = Ok seg"
    show ?thesis
    proof (intro exI conjI allI impI)
      show "build_full_leaf_block g seg (unat bs) = Ok node" using node by (simp add: build_full_leaf_block_def)
      fix ws assume st: "stored crc ctx rd bs ws" "(block, node) \<in> set ws"
      then show "subtree crc ctx rd bs 0 (logical_block (hd seg), block) seg"
        using read_child_stored [OF st] assms(1) seg(2) b ext
        by (simp add: subtree_def h es u walk.simps node_ok.simps is_leaf_def)
    qed
  qed
qed

lemma idx_of_sel [simp]: "ei_block (idx_of x) = fst x" "leaf_block (idx_of x) = snd x"
  by (simp_all add: idx_of_def)

lemma level_children:
  assumes "level crc ctx rd bs d ixs segs" "leaf_wf (concat segs)" "ixs \<noteq> []"
    and "\<forall>e \<in> set (concat segs). ext_end e \<le> hi" "lo \<le> unat (fst (hd ixs))"
  shows "children_ok crc rd bs ctx d (map idx_of ixs) lo hi"
  using assms
proof (induction ixs segs arbitrary: lo rule: list_all2_induct)
  case Nil
  then show ?case by simp
next
  case (Cons x ixs seg segs)
  from Cons.hyps(1) obtain buf h where seg: "seg \<noteq> []" "fst x = logical_block (hd seg)"
    and rc: "\<And>msg. read_child crc rd bs ctx msg (snd x) = Ok buf" and h: "ExtentHeader_parse buf = Ok h"
    and ok: "\<And>hi. (\<forall>e \<in> set seg. ext_end e \<le> hi) \<Longrightarrow> node_ok crc rd bs ctx d buf h (unat (fst x)) hi"
    by (auto simp: subtree_def)
  have k: "unat (fst x) \<le> ext_end (hd seg)"
    using seg(2) ext_start_le_end [of "hd seg"] by (simp add: ext_start_def)
  show ?case
  proof (cases ixs)
    case Nil
    with Cons.hyps(2) have "segs = []" by simp
    with Cons.prems seg(1) have "\<forall>e \<in> set seg. ext_end e \<le> hi" "ext_end (hd seg) \<le> hi" by auto
    moreover from this k have "unat (fst x) \<le> hi" by linarith
    moreover note \<open>segs = []\<close>
    ultimately show ?thesis using Cons.prems(4) rc h ok Nil by simp
  next
    case (Cons y ixs')
    with Cons.hyps(2) obtain seg' segs' where segs: "segs = seg' # segs'"
      and y: "seg' \<noteq> []" "fst y = logical_block (hd seg')"
      by (auto simp: list_all2_Cons1 subtree_def)
    have "ext_end e \<le> unat (fst y)" if "e \<in> set seg" for e
      using Cons.prems(1) that y by (auto simp: segs leaf_wf_append_iff ext_start_def)
    moreover from this k seg(1) have "unat (fst x) \<le> unat (fst y)"
      by (meson hd_in_set le_trans)
    moreover have "children_ok crc rd bs ctx d (map idx_of ixs) (unat (fst y)) hi"
      using Cons.IH [of "unat (fst y)"] Cons.prems \<open>ixs = y # ixs'\<close> by (auto simp: leaf_wf_append_iff)
    ultimately show ?thesis using Cons.prems(4) rc h ok \<open>ixs = y # ixs'\<close>
      by (simp add: Let_def)
  qed
qed

lemma level_walk:
  assumes "level crc ctx rd bs d ixs segs"
    and "parse_entries ExtentIdx_parse msg node i (length ixs) = Ok (map idx_of ixs)"
  shows "\<exists>ns. walk_children rd bs d node i (length ixs) = Ok (concat segs, ns)"
  using assms
proof (induction ixs segs arbitrary: i rule: list_all2_induct)
  case Nil
  then show ?case by simp
next
  case (Cons x ixs seg segs)
  from Cons.hyps(1) obtain buf h ns where rc: "\<And>msg. read_child crc rd bs ctx msg (snd x) = Ok buf"
    and h: "ExtentHeader_parse buf = Ok h" and w: "walk rd bs d buf h = Ok (seg, ns)"
    by (auto simp: subtree_def)
  from read_child_reads [OF rc] obtain off where off: "child_offset (snd x) bs = Some off" "rd off (unat bs) = Ok buf"
    by auto
  from Cons.prems have range: "entry_off i + 12 \<le> length node"
    and idx: "ExtentIdx_parse (slice (entry_off i) (entry_off i + 12) node) = Ok (idx_of x)"
    and rest: "parse_entries ExtentIdx_parse msg node (Suc i) (length ixs) = Ok (map idx_of ixs)"
    by (auto simp: Let_def outcome_simps split: if_splits)
  from Cons.IH [OF rest] obtain ns' where "walk_children rd bs d node (Suc i) (length ixs) = Ok (concat segs, ns')" ..
  with range idx off h w show ?case by (simp add: Let_def get_slice_def)
qed

lemma index_subtree:
  assumes "1024 \<le> unat bs" "unat bs \<le> 65536" and wf: "leaf_wf (concat segs)" and ne: "ixs \<noteq> []"
    and cap: "length ixs \<le> unat (node_max_entries (unat bs))" and b: "unat block < 2 ^ 48"
    and vi: "\<forall>x \<in> set ixs. unat (snd x) < 2 ^ 48" and dep: "unat depth = Suc d"
  shows "\<exists>node. build_full_index_block g depth ixs (unat bs) = Ok node \<and>
    (\<forall>ws. stored crc ctx rd bs ws \<longrightarrow> (block, node) \<in> set ws \<longrightarrow> level crc ctx rd bs d ixs segs \<longrightarrow>
       subtree crc ctx rd bs (Suc d) (fst (hd ixs), block) (concat segs))"
proof -
  have nl: "depth \<noteq> 0" using dep by auto
  have v: "\<forall>i \<in> set (map idx_of ixs). unat (leaf_block i) < 2 ^ 48" using vi by simp
  have u: "unat (word_of_nat (length ixs) :: u16) = length ixs"
    using cap unat_u16_bound [of "node_max_entries (unat bs)"] by (simp add: unat_of_nat)
  have cap': "length (map idx_of ixs) \<le> unat (node_max_entries (unat bs))" using cap by simp
  show ?thesis
  proof (rule index_entry.built_node [OF capacity_bounds(1) [OF assms(1,2) cap'] cap' v, of depth g])
    fix node
    assume "and_then (put_header (word_of_nat (length (map idx_of ixs))) (node_max_entries (unat bs)) depth g
        (replicate (unat bs) 0)) (put_entries (\<lambda>i. encode_index (ei_block i) (leaf_block i)) 0 (map idx_of ixs)) = Ok node"
      and h: "\<And>crc ctx. ExtentHeader_parse (stamp crc ctx node) = Ok \<lparr>eh_magic = EXT4_EXT_MAGIC,
        eh_entries = word_of_nat (length (map idx_of ixs)), eh_max = node_max_entries (unat bs),
        eh_depth = depth, eh_generation = g\<rparr>"
      and es: "\<And>crc ctx msg. parse_entries ExtentIdx_parse msg (stamp crc ctx node) 0 (length (map idx_of ixs))
        = Ok (map idx_of ixs)"
    then have node: "build_full_index_block g depth ixs (unat bs) = Ok node"
      by (simp add: build_full_index_block_def put_index_entries [abs_def])
    show ?thesis
    proof (intro exI conjI allI impI, rule node)
      fix ws assume st: "stored crc ctx rd bs ws" "(block, node) \<in> set ws"
        and lv: "level crc ctx rd bs d ixs segs"
      have hd: "concat segs \<noteq> []" "fst (hd ixs) = logical_block (hd (concat segs))"
        using lv ne by (cases ixs; cases segs; auto simp: subtree_def)+
      from level_walk [OF lv] es obtain ns where
        "walk_children rd bs d (stamp crc ctx node) 0 (length ixs) = Ok (concat segs, ns)" by fastforce
      moreover have "children_ok crc rd bs ctx d (map idx_of ixs) (unat (fst (hd ixs))) hi"
        if "\<forall>e \<in> set (concat segs). ext_end e \<le> hi" for hi
        using level_children [OF lv wf ne that] by simp
      ultimately show "subtree crc ctx rd bs (Suc d) (fst (hd ixs), block) (concat segs)"
        using read_child_stored [OF st] assms(1) hd b h es u nl ne
        by (simp add: subtree_def walk.simps node_ok.simps is_leaf_def)
    qed
  qed
qed

section \<open>Taking blocks\<close>

text \<open>
  \<open>taken p p' ws\<close>: going from \<open>p\<close> to \<open>p'\<close> the packer wrote \<open>ws\<close>, to blocks of the supply first
  and to allocated ones only once the supply was exhausted.
\<close>

definition taken :: "'s packer \<Rightarrow> 's packer \<Rightarrow> (u64 \<times> bytes) list \<Rightarrow> bool" where
  "taken p p' ws \<longleftrightarrow> (\<exists>u f. map fst ws = u @ f \<and> pk_supply p = u @ pk_supply p' \<and>
     pk_used p' = pk_used p @ u \<and> pk_fresh p' = pk_fresh p @ f \<and> (f \<noteq> [] \<longrightarrow> pk_supply p' = []) \<and>
     pk_writes p' = pk_writes p @ ws)"

definition good_alloc :: "('s \<Rightarrow> (u64 \<times> 's) result) \<Rightarrow> bool" where
  "good_alloc alloc \<longleftrightarrow> (\<forall>s. alloc s \<noteq> Panic \<and> (\<forall>b s'. alloc s = Ok (b, s') \<longrightarrow> unat b < 2 ^ 48))"

definition good_supply :: "'s packer \<Rightarrow> bool" where
  "good_supply p \<longleftrightarrow> (\<forall>b \<in> set (pk_supply p). unat b < 2 ^ 48)"

lemma taken_refl: "taken p p []"
  by (simp add: taken_def)

lemma taken_trans:
  assumes "taken p p' ws" "taken p' p'' vs"
  shows "taken p p'' (ws @ vs)"
proof -
  from assms(1) obtain u f where a: "map fst ws = u @ f" "pk_supply p = u @ pk_supply p'"
    "pk_used p' = pk_used p @ u" "pk_fresh p' = pk_fresh p @ f" "f \<noteq> [] \<longrightarrow> pk_supply p' = []"
    "pk_writes p' = pk_writes p @ ws"
    unfolding taken_def by blast
  from assms(2) obtain u' f' where b: "map fst vs = u' @ f'" "pk_supply p' = u' @ pk_supply p''"
    "pk_used p'' = pk_used p' @ u'" "pk_fresh p'' = pk_fresh p' @ f'" "f' \<noteq> [] \<longrightarrow> pk_supply p'' = []"
    "pk_writes p'' = pk_writes p' @ vs"
    unfolding taken_def by blast
  have "f = [] \<or> u' = []" using a(5) b(2) by auto
  then have "map fst (ws @ vs) = (u @ u') @ (f @ f')" using a(1) b(1) by auto
  then show ?thesis unfolding taken_def using a b
    by (intro exI [of _ "u @ u'"] exI [of _ "f @ f'"]) auto
qed

lemma taken_good_supply: "taken p p' ws \<Longrightarrow> good_supply p \<Longrightarrow> good_supply p'"
  by (auto simp: taken_def good_supply_def)

lemma take_node_cases:
  assumes "good_alloc alloc" "good_supply p"
  shows "case take_node alloc p of
     Ok (b, p') \<Rightarrow> unat b < 2 ^ 48 \<and> taken p (p'\<lparr>pk_writes := pk_writes p' @ [(b, node)]\<rparr>) [(b, node)]
   | Err e \<Rightarrow> (\<exists>s. alloc s = Err e) | Panic \<Rightarrow> False"
proof (cases "pk_supply p")
  case Nil
  then show ?thesis
    using assms(1) [unfolded good_alloc_def, rule_format, of "pk_alloc p"]
    by (cases "alloc (pk_alloc p)") (auto simp: take_node_def taken_def)
next
  case (Cons b rest)
  then show ?thesis using assms(2) by (simp add: take_node_def taken_def good_supply_def)
qed

definition packed :: "('e \<Rightarrow> u32) \<Rightarrow> ('e list \<Rightarrow> bytes result) \<Rightarrow> 'e list list \<Rightarrow> (u64 \<times> bytes) list
    \<Rightarrow> (u32 \<times> u64) list \<Rightarrow> bool" where
  "packed key build cs ws ixs \<longleftrightarrow> list_all2 (\<lambda>c w. build c = Ok (snd w) \<and> unat (fst w) < 2 ^ 48) cs ws \<and>
     ixs = map2 (\<lambda>c w. (key (hd c), fst w)) cs ws"

lemma pack_chunks_cases:
  assumes "good_alloc alloc" "good_supply p" "\<forall>c \<in> set cs. \<exists>node. build c = Ok node"
  shows "case pack_chunks alloc key build cs p of
     Ok (ixs, p') \<Rightarrow> (\<exists>ws. taken p p' ws \<and> packed key build cs ws ixs)
   | Err e \<Rightarrow> (\<exists>s. alloc s = Err e) | Panic \<Rightarrow> False"
  using assms(2,3)
proof (induction cs arbitrary: p)
  case Nil
  then show ?case by (auto simp: taken_refl packed_def)
next
  case (Cons c cs)
  then obtain node where node: "build c = Ok node" by auto
  note tk = take_node_cases [OF assms(1) Cons.prems(1), of node]
  show ?case
  proof (cases "take_node alloc p")
    case (Ok bp)
    obtain b p1 where bp: "bp = (b, p1)" by (cases bp)
    let ?p = "p1\<lparr>pk_writes := pk_writes p1 @ [(b, node)]\<rparr>"
    have t: "unat b < 2 ^ 48" "taken p ?p [(b, node)]" using tk by (auto simp: Ok bp)
    note IH = Cons.IH [OF taken_good_supply [OF t(2) Cons.prems(1)]] 
    show ?thesis
    proof (cases "pack_chunks alloc key build cs ?p")
      case (Ok r)
      then obtain ixs p' ws where r: "r = (ixs, p')" and ws: "taken ?p p' ws" "packed key build cs ws ixs"
        using IH Cons.prems(2) by (cases r) auto
      have "taken p p' ((b, node) # ws)" using taken_trans [OF t(2) ws(1)] by simp
      moreover have "packed key build (c # cs) ((b, node) # ws) ((key (hd c), b) # ixs)"
        using ws(2) node t(1) by (simp add: packed_def)
      ultimately show ?thesis using Ok \<open>take_node alloc p = Ok bp\<close> node by (auto simp: bp r)
    qed (use IH Cons.prems(2) \<open>take_node alloc p = Ok bp\<close> node in \<open>auto simp: bp\<close>)
  qed (use tk in auto)
qed

lemma pack_level_cases:
  assumes "good_alloc alloc" "good_supply p" "0 < cap"
    "\<forall>c \<in> set (chunks cap xs). \<exists>node. build c = Ok node"
  shows "case pack_level alloc cap key build xs p of
     Ok (ixs, p') \<Rightarrow> (\<exists>ws. taken p p' ws \<and> packed key build (chunks cap xs) ws ixs)
   | Err e \<Rightarrow> (\<exists>s. alloc s = Err e) | Panic \<Rightarrow> False"
  using pack_chunks_cases [OF assms(1,2,4)] assms(3) by (simp add: pack_level_def)

section \<open>Chunks\<close>

lemma chunks_list_all2:
  "list_all2 P xs ys \<Longrightarrow> list_all2 (list_all2 P) (chunks n xs) (chunks n ys)"
proof (induction n xs arbitrary: ys rule: chunks.induct)
  case (1 n xs)
  show ?case
  proof (cases "xs = [] \<or> n = 0")
    case True
    with "1.prems" show ?thesis by (auto simp: chunks.simps [of n xs] chunks.simps [of n ys])
  next
    case False
    with "1.prems" have ne: "ys \<noteq> []" by auto
    have "list_all2 (list_all2 P) (chunks n (drop n xs)) (chunks n (drop n ys))"
      using "1.IH" False "1.prems" by (simp add: list_all2_dropI)
    with False ne "1.prems" show ?thesis
      by (simp add: chunks.simps [of n xs] chunks.simps [of n ys] list_all2_takeI)
  qed
qed

lemma length_chunks_le: "0 < n \<Longrightarrow> length xs \<le> k * n \<Longrightarrow> length (chunks n xs) \<le> k"
proof (induction n xs arbitrary: k rule: chunks.induct)
  case (1 n xs)
  show ?case
  proof (cases "xs = []")
    case True
    then show ?thesis by (simp add: chunks.simps)
  next
    case False
    with "1.prems" obtain k' where k: "k = Suc k'" by (cases k) auto
    have "length (chunks n (drop n xs)) \<le> k'" using "1.IH" [of k'] False "1.prems" k by simp
    with False "1.prems" k show ?thesis by (simp add: chunks.simps [of n xs])
  qed
qed

lemma concat_map_concat: "concat (map concat xsss) = concat (concat xsss)"
  by (induction xsss) simp_all

lemma chunks_ne: "0 < n \<Longrightarrow> xs \<noteq> [] \<Longrightarrow> chunks n xs \<noteq> []"
  by (simp add: chunks.simps [of n xs])

section \<open>Levels of a repacked tree\<close>

lemma leaf_wf_concat: "leaf_wf (concat cs) \<Longrightarrow> c \<in> set cs \<Longrightarrow> leaf_wf c"
  by (induction cs) (auto simp: leaf_wf_append_iff)

lemma packed_valid: "packed key build cs ws ixs \<Longrightarrow> \<forall>x \<in> set ixs. unat (snd x) < 2 ^ 48"
  by (force simp: packed_def list_all2_conv_all_nth in_set_conv_nth)

lemma packed_length: "packed key build cs ws ixs \<Longrightarrow> length ixs = length cs"
  by (auto simp: packed_def list_all2_lengthD)

lemma packed_level:
  assumes "packed key build cs ws ixs" "list_all2 R cs segs"
    and "\<And>c seg node block. R c seg \<Longrightarrow> c \<in> set cs \<Longrightarrow> build c = Ok node \<Longrightarrow> unat block < 2 ^ 48 \<Longrightarrow>
      (block, node) \<in> set ws \<Longrightarrow> subtree crc ctx rd bs d (key (hd c), block) seg"
  shows "level crc ctx rd bs d ixs segs"
proof -
  have l: "length ws = length cs" "length segs = length cs"
    using assms(1,2) by (auto simp: packed_def dest: list_all2_lengthD)
  have "subtree crc ctx rd bs d (key (hd (cs ! i)), fst (ws ! i)) (segs ! i)" if "i < length cs" for i
    using assms(1,2) that l nth_mem [of i ws] nth_mem [of i cs]
    by (intro assms(3) [where node = "snd (ws ! i)"]) (auto simp: packed_def list_all2_conv_all_nth)
  with assms(1) l show ?thesis by (auto simp: packed_def list_all2_conv_all_nth)
qed

definition fs_block_size :: "u32 \<Rightarrow> bool" where
  "fs_block_size bs \<longleftrightarrow> 1024 \<le> unat bs \<and> unat bs \<le> 65536"

lemma capacity_pos: "fs_block_size bs \<Longrightarrow> 0 < unat (node_max_entries (unat bs))"
  using capacity_bounds(2) [of "unat bs" 0] by (simp add: fs_block_size_def)

lemma leaf_level:
  assumes bs: "fs_block_size bs" and wf: "leaf_wf es"
  defines "cs \<equiv> chunks (unat (node_max_entries (unat bs))) es"
  shows "\<forall>c \<in> set cs. \<exists>node. build_full_leaf_block g c (unat bs) = Ok node"
    and "packed logical_block (\<lambda>c. build_full_leaf_block g c (unat bs)) cs ws ixs \<Longrightarrow>
      set ws \<subseteq> set vs \<Longrightarrow> stored crc ctx rd bs vs \<Longrightarrow> level crc ctx rd bs 0 ixs cs"
proof -
  have c: "leaf_wf c \<and> c \<noteq> [] \<and> length c \<le> unat (node_max_entries (unat bs))" if "c \<in> set cs" for c
    using that wf leaf_wf_concat [of cs c] chunks_member [of c] concat_chunks [OF capacity_pos [OF bs], of es]
    by (auto simp: cs_def)
  note sub = leaf_subtree [OF bs [unfolded fs_block_size_def, THEN conjunct1] bs [unfolded fs_block_size_def, THEN conjunct2]]
  show "\<forall>c \<in> set cs. \<exists>node. build_full_leaf_block g c (unat bs) = Ok node"
  proof
    fix x assume "x \<in> set cs"
    with c [of x] sub [of x 0 g "\<lambda>s d. s" None "\<lambda>_ _. Panic"] show "\<exists>node. build_full_leaf_block g x (unat bs) = Ok node" by auto
  qed
  assume pk: "packed logical_block (\<lambda>c. build_full_leaf_block g c (unat bs)) cs ws ixs"
    and st: "set ws \<subseteq> set vs" "stored crc ctx rd bs vs"
  show "level crc ctx rd bs 0 ixs cs"
  proof (rule packed_level [OF pk list.rel_refl [of "(=)"]])
    fix x seg node block
    assume a: "x = seg" "x \<in> set cs" "build_full_leaf_block g x (unat bs) = Ok node"
      "unat block < 2 ^ 48" "(block, node) \<in> set ws"
    from c [OF a(2)] obtain node' where "build_full_leaf_block g x (unat bs) = Ok node'"
      "(block, node') \<in> set vs \<Longrightarrow> subtree crc ctx rd bs 0 (logical_block (hd x), block) x"
      using sub [of x block g crc ctx rd] a(4) st(2) by auto
    with a st(1) show "subtree crc ctx rd bs 0 (logical_block (hd x), block) seg" by auto
  qed simp
qed

lemma index_level:
  assumes bs: "fs_block_size bs" and dep: "unat depth = Suc d" and vi: "\<forall>x \<in> set ixs. unat (snd x) < 2 ^ 48"
  defines "cap \<equiv> unat (node_max_entries (unat bs))"
  shows "\<forall>c \<in> set (chunks cap ixs). \<exists>node. build_full_index_block g depth c (unat bs) = Ok node"
    and "packed fst (\<lambda>c. build_full_index_block g depth c (unat bs)) (chunks cap ixs) ws ixs' \<Longrightarrow>
      set ws \<subseteq> set vs \<Longrightarrow> stored crc ctx rd bs vs \<Longrightarrow> level crc ctx rd bs d ixs segs \<Longrightarrow>
      leaf_wf (concat segs) \<Longrightarrow> level crc ctx rd bs (Suc d) ixs' (map concat (chunks cap segs))"
proof -
  have cp: "0 < cap" using capacity_pos [OF bs] by (simp add: cap_def)
  have c: "c \<noteq> [] \<and> length c \<le> unat (node_max_entries (unat bs)) \<and> (\<forall>x \<in> set c. unat (snd x) < 2 ^ 48)"
    if "c \<in> set (chunks cap ixs)" for c
  proof -
    have "set c \<subseteq> set ixs" using that concat_chunks [OF cp, of ixs] by (metis UN_upper set_concat)
    with vi chunks_member [OF that] show ?thesis by (auto simp: cap_def)
  qed
  note sub = index_subtree [OF bs [unfolded fs_block_size_def, THEN conjunct1]
      bs [unfolded fs_block_size_def, THEN conjunct2] _ _ _ _ _ dep]
  show "\<forall>c \<in> set (chunks cap ixs). \<exists>node. build_full_index_block g depth c (unat bs) = Ok node"
  proof
    fix x assume "x \<in> set (chunks cap ixs)"
    with c [of x] sub [of "[]" x 0 g "\<lambda>s d. s" None "\<lambda>_ _. Panic"]
    show "\<exists>node. build_full_index_block g depth x (unat bs) = Ok node"
      by auto
  qed
  assume pk: "packed fst (\<lambda>c. build_full_index_block g depth c (unat bs)) (chunks cap ixs) ws ixs'"
    and st: "set ws \<subseteq> set vs" "stored crc ctx rd bs vs"
    and lv: "level crc ctx rd bs d ixs segs" and wf: "leaf_wf (concat segs)"
  let ?R = "\<lambda>c seg. \<exists>sc. level crc ctx rd bs d c sc \<and> seg = concat sc \<and> leaf_wf seg"
  have "concat (map concat (chunks cap segs)) = concat segs"
    using concat_chunks [OF cp, of segs] by (metis concat_map_concat)
  with wf have each: "leaf_wf (concat sc)" if "sc \<in> set (chunks cap segs)" for sc
    using leaf_wf_concat [of "map concat (chunks cap segs)" "concat sc"] that by auto
  have R: "list_all2 ?R (chunks cap ixs) (map concat (chunks cap segs))"
    using chunks_list_all2 [OF lv, of cap] each
    by (auto simp: list_all2_conv_all_nth list_all2_map2)
  show "level crc ctx rd bs (Suc d) ixs' (map concat (chunks cap segs))"
  proof (rule packed_level [OF pk R])
    fix x seg node block
    assume a: "?R x seg" "x \<in> set (chunks cap ixs)" "build_full_index_block g depth x (unat bs) = Ok node"
      "unat block < 2 ^ 48" "(block, node) \<in> set ws"
    then obtain sc where sc: "level crc ctx rd bs d x sc" "seg = concat sc" "leaf_wf (concat sc)" by auto
    from c [OF a(2)] obtain node' where "build_full_index_block g depth x (unat bs) = Ok node'"
      "(block, node') \<in> set vs \<Longrightarrow> subtree crc ctx rd bs (Suc d) (fst (hd x), block) (concat sc)"
      using sub [OF sc(3), of x block g crc ctx rd] a(4) st(2) sc(1) by auto
    with a st(1) sc(2) show "subtree crc ctx rd bs (Suc d) (fst (hd x), block) seg" by auto
  qed
qed

text \<open>
  What a run of the loop from \<open>(ixs, p)\<close> to \<open>(ixs', p')\<close> guarantees: at most four index entries,
  and, on any device that holds what was written, the subtrees they name hold together the extents
  that the subtrees named by \<open>ixs\<close> held, in the same order.
\<close>

definition climbs :: "crc_fn \<Rightarrow> verify_ctx option \<Rightarrow> reader \<Rightarrow> u32 \<Rightarrow> nat \<Rightarrow> (u32 \<times> u64) list \<Rightarrow> 's packer
    \<Rightarrow> nat \<Rightarrow> u16 \<Rightarrow> (u32 \<times> u64) list \<Rightarrow> 's packer \<Rightarrow> bool" where
  "climbs crc ctx rd bs d ixs p k depth' ixs' p' \<longleftrightarrow>
     (\<exists>ws d'. taken p p' ws \<and> unat depth' = Suc d' \<and> d' \<le> d + k \<and>
       length ixs' \<le> 4 \<and> ixs' \<noteq> [] \<and> (\<forall>x \<in> set ixs'. unat (snd x) < 2 ^ 48) \<and>
       (\<forall>segs vs. set ws \<subseteq> set vs \<longrightarrow> stored crc ctx rd bs vs \<longrightarrow> leaf_wf (concat segs) \<longrightarrow>
          level crc ctx rd bs d ixs segs \<longrightarrow>
          (\<exists>segs'. concat segs' = concat segs \<and> level crc ctx rd bs d' ixs' segs')))"

lemma climbs_here:
  "unat depth = Suc d \<Longrightarrow> length ixs \<le> 4 \<Longrightarrow> ixs \<noteq> [] \<Longrightarrow> \<forall>x \<in> set ixs. unat (snd x) < 2 ^ 48 \<Longrightarrow>
   climbs crc ctx rd bs d ixs p k depth ixs p"
  unfolding climbs_def using taken_refl [of p] by (intro exI [of _ "[]"] exI [of _ d]) auto

lemma climbs_step:
  assumes c: "climbs crc ctx rd bs (Suc d) up p1 k depth' ixs' p'" and t: "taken p p1 ws"
    and step: "\<And>segs vs. set ws \<subseteq> set vs \<Longrightarrow> stored crc ctx rd bs vs \<Longrightarrow> leaf_wf (concat segs) \<Longrightarrow>
      level crc ctx rd bs d ixs segs \<Longrightarrow>
      \<exists>segs'. concat segs' = concat segs \<and> level crc ctx rd bs (Suc d) up segs'"
  shows "climbs crc ctx rd bs d ixs p (Suc k) depth' ixs' p'"
proof -
  from c obtain ws' d' where w: "taken p1 p' ws'" "unat depth' = Suc d'" "d' \<le> Suc d + k"
      "length ixs' \<le> 4" "ixs' \<noteq> []" "\<forall>x \<in> set ixs'. unat (snd x) < 2 ^ 48"
    and up: "\<And>segs vs. set ws' \<subseteq> set vs \<Longrightarrow> stored crc ctx rd bs vs \<Longrightarrow> leaf_wf (concat segs) \<Longrightarrow>
      level crc ctx rd bs (Suc d) up segs \<Longrightarrow>
      \<exists>segs'. concat segs' = concat segs \<and> level crc ctx rd bs d' ixs' segs'"
    unfolding climbs_def by blast
  have "\<exists>segs'. concat segs' = concat segs \<and> level crc ctx rd bs d' ixs' segs'"
    if "set (ws @ ws') \<subseteq> set vs" "stored crc ctx rd bs vs" "leaf_wf (concat segs)" "level crc ctx rd bs d ixs segs"
    for segs vs
    using step [of vs segs] up [of vs] that by (metis Un_subset_iff set_append)
  with w taken_trans [OF t w(1)] show ?thesis
    unfolding climbs_def by (intro exI [of _ "ws @ ws'"] exI [of _ d']) auto
qed

lemma pack_levels_correct:
  assumes bs: "fs_block_size bs" and alloc: "good_alloc alloc"
  defines "cap \<equiv> unat (node_max_entries (unat bs))"
  assumes "good_supply p" "\<forall>x \<in> set ixs. unat (snd x) < 2 ^ 48" "ixs \<noteq> []" "length ixs \<le> 4 * cap ^ k"
    "k \<le> fuel" "unat depth = Suc d" "d + k < 65000"
  shows "case pack_levels fuel alloc g (unat bs) depth ixs p of
     None \<Rightarrow> False | Some Panic \<Rightarrow> False | Some (Err e) \<Rightarrow> (\<exists>s. alloc s = Err e)
   | Some (Ok (depth', ixs', p')) \<Rightarrow> climbs crc ctx rd bs d ixs p k depth' ixs' p'"
  using assms(4-)
proof (induction fuel arbitrary: p ixs k depth d)
  case 0
  then show ?case by (simp add: pack_levels.simps climbs_here)
next
  case (Suc fuel)
  show ?case
  proof (cases "length ixs \<le> 4")
    case True
    with Suc.prems show ?thesis by (simp add: pack_levels.simps climbs_here)
  next
    case False
    then obtain k' where k: "k = Suc k'" using Suc.prems(4) by (cases k) auto
    have cp: "0 < cap" using capacity_pos [OF bs] by (simp add: cap_def)
    note lv = index_level [OF bs Suc.prems(6,2), folded cap_def]
    let ?r = "pack_level alloc cap fst (\<lambda>c. build_full_index_block g depth c (unat bs)) ixs p"
    note pl = pack_level_cases [OF alloc Suc.prems(1) cp lv(1) [of g], of fst]
    show ?thesis
    proof (cases ?r)
      case (Ok r)
      obtain up p1 where r: "r = (up, p1)" by (cases r)
      from pl obtain ws where ws: "taken p p1 ws"
        "packed fst (\<lambda>c. build_full_index_block g depth c (unat bs)) (chunks cap ixs) ws up"
        by (auto simp: Ok r)
      have d: "unat (depth + 1) = Suc (Suc d)"
        using Suc.prems(6,7) by (simp add: unat_add_no_wrap)
      have "length (chunks cap ixs) \<le> 4 * cap ^ k'"
        using Suc.prems(4) k by (intro length_chunks_le [OF cp]) (simp add: ac_simps)
      then have len: "length up \<le> 4 * cap ^ k'" "up \<noteq> []"
        using packed_length [OF ws(2)] chunks_ne [OF cp Suc.prems(3)] by auto
      have eq: "pack_levels (Suc fuel) alloc g (unat bs) depth ixs p =
          pack_levels fuel alloc g (unat bs) (depth + 1) up p1"
        using False Ok by (simp add: pack_levels.simps [of "Suc fuel"] r cap_def)
      have "\<exists>segs'. concat segs' = concat segs \<and> level crc ctx rd bs (Suc d) up segs'"
        if "set ws \<subseteq> set vs" "stored crc ctx rd bs vs" "leaf_wf (concat segs)" "level crc ctx rd bs d ixs segs"
        for segs vs
        using lv(2) [OF ws(2) that(1,2,4,3)] concat_chunks [OF cp, of segs] by (metis concat_map_concat)
      note climb = climbs_step [OF _ ws(1) this]
      have "k' \<le> fuel" "Suc d + k' < 65000" using Suc.prems(5,7) k by simp_all
      note Suc.IH [OF taken_good_supply [OF ws(1) Suc.prems(1)] packed_valid [OF ws(2)] len(2,1) this(1) d this(2)]
      then show ?thesis
        unfolding eq k by (auto split: option.splits outcome.splits intro: climb)
    qed (use pl False in \<open>auto simp: pack_levels.simps [of "Suc fuel"] cap_def\<close>)
  qed
qed

section \<open>The repacked tree\<close>

lemma index_root:
  assumes "length ixs \<le> 4" "\<forall>x \<in> set ixs. unat (snd x) < 2 ^ 48"
  obtains root where "build_inline_index_root g depth ixs = Ok root"
    "ExtentHeader_parse root = Ok \<lparr>eh_magic = EXT4_EXT_MAGIC, eh_entries = word_of_nat (length ixs),
       eh_max = 4, eh_depth = depth, eh_generation = g\<rparr>"
    "\<And>msg. parse_entries ExtentIdx_parse msg root 0 (length ixs) = Ok (map idx_of ixs)"
proof -
  let ?enc = "\<lambda>i. encode_index (ei_block i) (leaf_block i)" and ?n = "word_of_nat (length ixs) :: u16"
  have "12 * (1 + length (map idx_of ixs)) \<le> 60" using assms(1) by simp
  then obtain b root where b: "put_header ?n 4 depth g (replicate 60 0) = Ok b"
    and out: "put_entries ?enc 0 (map idx_of ixs) b = Ok root"
    using index_entry.build_Ok_iff [of ?n 4 depth g 60 "map idx_of ixs"] by (auto simp: outcome_simps)
  have "?n \<le> 4" using assms(1) by (simp add: word_le_nat_alt unat_of_nat)
  moreover have "\<forall>i \<in> set (map idx_of ixs). unat (leaf_block i) < 2 ^ 48" using assms(2) by simp
  ultimately show ?thesis
    using that b out index_entry.header_of_built [OF b out] index_entry.parse_put_entries [OF out]
    by (simp add: build_inline_index_root_def put_index_entries [abs_def])
qed

lemma leaf_wf_length:
  "leaf_wf es \<Longrightarrow> lo \<le> 0xFFFFFFFF \<Longrightarrow> \<forall>e \<in> set es. lo \<le> ext_start e \<Longrightarrow> lo + length es \<le> 0xFFFFFFFF"
proof (induction es arbitrary: lo)
  case (Cons e es)
  have "ext_start e < ext_end e" "lo \<le> ext_start e" "ext_end e \<le> 0xFFFFFFFF"
    using Cons.prems valid_extent_nonempty by (auto simp: leaf_wf_Cons_iff)
  moreover from this have "ext_end e + length es \<le> 0xFFFFFFFF"
    using Cons.prems by (intro Cons.IH) (auto simp: leaf_wf_Cons_iff)
  ultimately show ?case by simp
qed simp

text \<open>Both readers on a root whose index entries name the subtrees of a level.\<close>

lemma level_reads:
  assumes lv: "level crc ctx rd bs d ixs segs" and wf: "leaf_wf (concat segs)" and ne: "ixs \<noteq> []"
    and h: "ExtentHeader_parse root = Ok \<lparr>eh_magic = EXT4_EXT_MAGIC, eh_entries = word_of_nat (length ixs),
       eh_max = 4, eh_depth = depth, eh_generation = g\<rparr>"
    and es: "\<And>msg. parse_entries ExtentIdx_parse msg root 0 (length ixs) = Ok (map idx_of ixs)"
    and len: "length ixs \<le> 4" and dep: "unat depth = Suc d" "d < 5"
  shows "collect_all root rd bs = Ok (concat segs) \<and>
    (\<forall>l. lookup_verified crc root rd bs l ctx = Ok (find_extent (concat segs) l))"
proof -
  let ?h = "\<lparr>eh_magic = EXT4_EXT_MAGIC, eh_entries = word_of_nat (length ixs),
       eh_max = 4, eh_depth = depth, eh_generation = g\<rparr>"
  have u: "unat (word_of_nat (length ixs) :: u16) = length ixs" using len by (simp add: unat_of_nat)
  have nl: "depth \<noteq> 0" "\<not> EXT4_EXT_MAX_DEPTH < depth"
    using dep by (auto simp: EXT4_EXT_MAX_DEPTH_def word_less_nat_alt)
  from level_walk [OF lv es] obtain ns where w: "walk rd bs (Suc d) root ?h = Ok (concat segs, ns)"
    using nl u by (auto simp: walk.simps is_leaf_def)
  have "\<forall>e \<in> set (concat segs). ext_end e \<le> 0xFFFFFFFF"
    using wf by (auto simp: leaf_wf_def extents_in_def)
  from level_children [OF lv wf ne this, of 0]
  have "node_ok crc rd bs ctx (Suc d) root ?h 0 0xFFFFFFFF"
    using nl u es ne by (simp add: node_ok.simps is_leaf_def)
  from node_ok_spec [OF this] w have "lookup_loop crc rd bs l ctx root ?h (Suc d) = Ok (find_extent (concat segs) l)" for l
    by (auto simp: node_spec_def)
  with w h nl dep show ?thesis
    by (simp add: collect_all_def collect_all_with_nodes_def lookup_verified_def)
qed

text \<open>Both readers on an inline leaf root.\<close>

lemma inline_reads:
  assumes "read_leaf_entries root = Ok (h, es)" "leaf_wf es"
  shows "collect_all root rd bs = Ok es \<and>
    (\<forall>l. lookup_verified crc root rd bs l ctx = Ok (find_extent es l))"
proof -
  have h: "ExtentHeader_parse root = Ok h" "is_leaf h"
    "parse_entries Extent_parse ''leaf entry out of range'' root 0 (unat (eh_entries h)) = Ok es"
    using assms(1) by (auto simp: read_leaf_entries_def outcome_simps split: if_splits)
  moreover have "eh_depth h = 0" using h(2) by (simp add: is_leaf_def)
  ultimately show ?thesis
    using leaf_scan_find [OF h(3) leaf_wf_sorted [OF assms(2)]]
    by (simp add: collect_all_def collect_all_with_nodes_def lookup_verified_def walk.simps
        lookup_loop.simps EXT4_EXT_MAX_DEPTH_def)
qed

lemma inline_leaf_root:
  assumes "leaf_wf es" "length es \<le> 4"
  shows "\<exists>root h. build_inline_leaf_root g es = Ok root \<and> read_leaf_entries root = Ok (h, es)"
proof -
  let ?h = "\<lparr>eh_magic = EXT4_EXT_MAGIC, eh_entries = word_of_nat (length es), eh_max = 4,
     eh_depth = 0, eh_generation = g\<rparr>"
  obtain r where r: "build_root ?h es 60 = Ok r"
    using rebuilt_root [of es ?h] assms by (auto simp: is_leaf_def)
  moreover have "\<exists>h. read_leaf_entries r = Ok (h, es)"
    using read_build_root [OF r] assms by (auto simp: leaf_wf_def is_leaf_def)
  ultimately show ?thesis by (auto simp: build_inline_leaf_root_def)
qed

text \<open>The index loop ends with a root that reads back, for any number of extents a file can have.\<close>

lemma climbed_root:
  assumes "climbs crc ctx rd bs 0 ixs p 4 depth ixs' p'" and p: "pk_writes p = ws0"
    and lvl: "set ws0 \<subseteq> set (pk_writes p') \<Longrightarrow> stored crc ctx rd bs (pk_writes p') \<Longrightarrow>
      level crc ctx rd bs 0 ixs segs"
    and wf: "leaf_wf (concat segs)"
  shows "\<exists>root. build_inline_index_root g depth ixs' = Ok root \<and>
    (stored crc ctx rd bs (pk_writes p') \<longrightarrow> collect_all root rd bs = Ok (concat segs) \<and>
      (\<forall>l. lookup_verified crc root rd bs l ctx = Ok (find_extent (concat segs) l)))"
proof -
  from assms(1) obtain ws d where w: "taken p p' ws" "unat depth = Suc d" "d \<le> 4" "length ixs' \<le> 4" "ixs' \<noteq> []"
      "\<forall>x \<in> set ixs'. unat (snd x) < 2 ^ 48"
    and up: "\<And>segs vs. set ws \<subseteq> set vs \<Longrightarrow> stored crc ctx rd bs vs \<Longrightarrow> leaf_wf (concat segs) \<Longrightarrow>
      level crc ctx rd bs 0 ixs segs \<Longrightarrow>
      \<exists>segs'. concat segs' = concat segs \<and> level crc ctx rd bs d ixs' segs'"
    unfolding climbs_def by (metis add_0)
  obtain root where root: "build_inline_index_root g depth ixs' = Ok root"
    and h: "ExtentHeader_parse root = Ok \<lparr>eh_magic = EXT4_EXT_MAGIC, eh_entries = word_of_nat (length ixs'),
       eh_max = 4, eh_depth = depth, eh_generation = g\<rparr>"
    and es: "\<And>msg. parse_entries ExtentIdx_parse msg root 0 (length ixs') = Ok (map idx_of ixs')"
    using index_root [OF w(4,6)] by blast
  have "collect_all root rd bs = Ok (concat segs) \<and>
      (\<forall>l. lookup_verified crc root rd bs l ctx = Ok (find_extent (concat segs) l))"
    if st: "stored crc ctx rd bs (pk_writes p')"
  proof -
    have sub: "set ws \<subseteq> set (pk_writes p')" "set ws0 \<subseteq> set (pk_writes p')"
      using w(1) p by (auto simp: taken_def)
    obtain segs' where s: "concat segs' = concat segs" "level crc ctx rd bs d ixs' segs'"
      using up [OF sub(1) st wf lvl [OF sub(2) st]] by auto
    show ?thesis
      using level_reads [OF s(2) _ w(5) h es w(4,2)] w(3) wf s(1) by simp
  qed
  with root show ?thesis by blast
qed

lemma enough_room:
  assumes "fs_block_size bs" "leaf_wf es"
  shows "length es \<le> 4 * unat (node_max_entries (unat bs)) ^ 4 * unat (node_max_entries (unat bs))"
proof -
  have "length es \<le> 0xFFFFFFFF" using leaf_wf_length [OF assms(2), of 0] by simp
  also have "\<dots> \<le> 4 * 84 ^ 4 * (84 :: nat)" by simp
  also have "\<dots> \<le> 4 * unat (node_max_entries (unat bs)) ^ 4 * unat (node_max_entries (unat bs))"
    using capacity_bounds(2) [of "unat bs" 0] assms(1)
    by (intro mult_mono power_mono) (auto simp: fs_block_size_def)
  finally show ?thesis .
qed

lemma repacked_reads:
  assumes wf: "leaf_wf entries" and bs: "fs_block_size bs"
    and ws: "taken \<lparr>pk_supply = nodes, pk_used = [], pk_fresh = [], pk_writes = [], pk_alloc = s\<rparr> p1 ws"
      "packed logical_block (\<lambda>c. build_full_leaf_block g c (unat bs))
         (chunks (unat (node_max_entries (unat bs))) entries) ws ixs"
    and cl: "\<And>crc ctx rd. climbs crc ctx rd bs 0 ixs p1 4 depth ixs' p2"
  shows "\<exists>root. build_inline_index_root g depth ixs' = Ok root \<and>
    map fst (pk_writes p2) = pk_used p2 @ pk_fresh p2 \<and>
    (\<exists>rest. nodes = pk_used p2 @ rest \<and> (pk_fresh p2 \<noteq> [] \<longrightarrow> rest = [])) \<and>
    (\<forall>crc ctx rd. stored crc ctx rd bs (pk_writes p2) \<longrightarrow> collect_all root rd bs = Ok entries \<and>
      (\<forall>l. lookup_verified crc root rd bs l ctx = Ok (find_extent entries l)))"
proof -
  define segs where "segs = chunks (unat (node_max_entries (unat bs))) entries"
  have cc: "concat segs = entries" by (simp add: segs_def concat_chunks capacity_pos [OF bs])
  have w1: "pk_writes p1 = ws" using ws(1) by (auto simp: taken_def)
  have rt: "\<exists>root. build_inline_index_root g depth ixs' = Ok root \<and>
    (stored crc ctx rd bs (pk_writes p2) \<longrightarrow> collect_all root rd bs = Ok entries \<and>
      (\<forall>l. lookup_verified crc root rd bs l ctx = Ok (find_extent entries l)))" for crc ctx rd
    using climbed_root [OF cl w1, where segs = segs and g = g]
      leaf_level(2) [OF bs wf ws(2), folded segs_def] wf by (simp add: cc)
  from cl obtain ws' where "taken p1 p2 ws'" unfolding climbs_def by blast
  from taken_trans [OF ws(1) this] have acct: "map fst (pk_writes p2) = pk_used p2 @ pk_fresh p2"
    "\<exists>rest. nodes = pk_used p2 @ rest \<and> (pk_fresh p2 \<noteq> [] \<longrightarrow> rest = [])"
    by (auto simp: taken_def)
  obtain root where "build_inline_index_root g depth ixs' = Ok root" using rt by blast
  with rt acct show ?thesis by auto
qed

text \<open>
  C5. Repacking: for a sorted list of disjoint extents the planner returns, with no more than
  four rounds of its index loop, a root and a list of block writes such that on every device
  holding those blocks (each stamped with its tail checksum where the volume has them) the walk
  collects exactly the given extents and a lookup of any block finds exactly the extent that
  holds it. The writes go to a prefix of the blocks the file owned and to allocated ones only
  once those ran out. It fails only when the allocator does, and never panics.
\<close>

theorem plan_repack_tree_correct:
  assumes wf: "leaf_wf entries" and bs: "fs_block_size bs" and alloc: "good_alloc alloc"
    and nodes: "\<forall>b \<in> set nodes. unat b < 2 ^ 48" and fuel: "4 \<le> fuel"
  shows "case plan_repack_tree fuel g entries bs nodes alloc s of
     None \<Rightarrow> False | Some Panic \<Rightarrow> False | Some (Err e) \<Rightarrow> (\<exists>s. alloc s = Err e)
   | Some (Ok (t, s')) \<Rightarrow>
       map fst (block_writes t) = used_nodes t @ allocated_blocks t \<and>
       (\<exists>rest. nodes = used_nodes t @ rest \<and> (allocated_blocks t \<noteq> [] \<longrightarrow> rest = [])) \<and>
       (\<forall>crc ctx rd. stored crc ctx rd bs (block_writes t) \<longrightarrow>
          collect_all (new_root t) rd bs = Ok entries \<and>
          (\<forall>l. lookup_verified crc (new_root t) rd bs l ctx = Ok (find_extent entries l)))"
proof (cases "length entries \<le> 4")
  case True
  then show ?thesis
    using inline_leaf_root [OF wf True, of g] inline_reads [OF _ wf] by (auto simp: plan_repack_tree_def)
next
  case False
  define cap where "cap = unat (node_max_entries (unat bs))"
  let ?p = "\<lparr>pk_supply = nodes, pk_used = [], pk_fresh = [], pk_writes = [], pk_alloc = s\<rparr>"
  let ?build = "\<lambda>c. build_full_leaf_block g c (unat bs)"
  have cp: "0 < cap" using capacity_pos [OF bs] by (simp add: cap_def)
  have sup: "good_supply ?p" using nodes by (simp add: good_supply_def)
  note lv = leaf_level [OF bs wf, folded cap_def]
  note pl = pack_level_cases [OF alloc sup cp lv(1) [of g], of logical_block]
  show ?thesis
  proof (cases "pack_level alloc cap logical_block ?build entries ?p")
    case (Ok r)
    obtain ixs p1 where r: "r = (ixs, p1)" by (cases r)
    from pl obtain ws where ws: "taken ?p p1 ws" "packed logical_block ?build (chunks cap entries) ws ixs"
      by (auto simp: Ok r)
    have len: "length ixs \<le> 4 * cap ^ 4" "ixs \<noteq> []"
      using length_chunks_le [OF cp enough_room [OF bs wf, folded cap_def]] chunks_ne [OF cp, of entries] False
        packed_length [OF ws(2)] by fastforce+
    note climb = pack_levels_correct [OF bs alloc, folded cap_def, OF taken_good_supply [OF ws(1) sup]
        packed_valid [OF ws(2)] len(2,1) fuel, where depth = 1 and d = 0 and g = g]
    show ?thesis
    proof (cases "pack_levels fuel alloc g (unat bs) 1 ixs p1")
      case None
      with climb show ?thesis by simp
    next
      case (Some res)
      show ?thesis
      proof (cases res)
        case (Ok q)
        obtain depth ixs' p2 where q: "q = (depth, ixs', p2)" by (cases q)
        have cl: "climbs crc ctx rd bs 0 ixs p1 4 depth ixs' p2" for crc ctx rd
          using climb Some Ok q by simp
        from repacked_reads [OF wf bs ws [unfolded cap_def] cl] obtain root where
          root: "build_inline_index_root g depth ixs' = Ok root"
          and facts: "map fst (pk_writes p2) = pk_used p2 @ pk_fresh p2"
            "\<exists>rest. nodes = pk_used p2 @ rest \<and> (pk_fresh p2 \<noteq> [] \<longrightarrow> rest = [])"
            "\<forall>crc ctx rd. stored crc ctx rd bs (pk_writes p2) \<longrightarrow> collect_all root rd bs = Ok entries \<and>
              (\<forall>l. lookup_verified crc root rd bs l ctx = Ok (find_extent entries l))" by blast
        have "plan_repack_tree fuel g entries bs nodes alloc s =
          Some (Ok (\<lparr>new_root = root, block_writes = pk_writes p2, used_nodes = pk_used p2,
                     allocated_blocks = pk_fresh p2\<rparr>, pk_alloc p2))"
          using False \<open>pack_level _ _ _ _ _ _ = Ok r\<close> Some Ok root
          by (simp add: plan_repack_tree_def cap_def r q)
        with facts show ?thesis by simp
      qed (use climb Some False \<open>pack_level _ _ _ _ _ _ = Ok r\<close> in \<open>auto simp: plan_repack_tree_def cap_def r\<close>)
    qed
  qed (use pl False in \<open>auto simp: plan_repack_tree_def cap_def\<close>)
qed

text \<open>Five single-block extents and a counting allocator.\<close>

definition example_entries :: "extent list" where
  "example_entries = map (\<lambda>i. \<lparr>logical_block = 2 * i, len = 1, physical_block = 1000 + ucast i,
     uninitialized = False\<rparr>) [0, 1, 2, 3, 4]"

definition example_alloc :: "nat \<Rightarrow> (u64 \<times> nat) result" where
  "example_alloc n = (if n < 1000 then Ok (word_of_nat n, Suc n) else Err NoSpaceLeftOnDevice)"

lemma example_entries_wf: "leaf_wf example_entries"
  by (simp add: example_entries_def leaf_wf_simps valid_extent_def max_extent_len_def EXT_INIT_MAX_LEN_def
      ext_start_def ext_end_def)

lemma example_alloc_good: "good_alloc example_alloc"
  by (auto simp: good_alloc_def example_alloc_def unat_of_nat split: if_splits)

theorem plan_repack_tree_correct_witness:
  "leaf_wf example_entries \<and> fs_block_size 1024 \<and> good_alloc example_alloc \<and>
   (case plan_repack_tree 4 1 example_entries 1024 [7] example_alloc 8 of
      None \<Rightarrow> False | Some Panic \<Rightarrow> False | Some (Err e) \<Rightarrow> e = NoSpaceLeftOnDevice
    | Some (Ok (t, s')) \<Rightarrow> (\<forall>crc ctx rd. stored crc ctx rd 1024 (block_writes t) \<longrightarrow>
        collect_all (new_root t) rd 1024 = Ok example_entries))"
proof -
  have bs: "fs_block_size 1024" by (simp add: fs_block_size_def)
  have "\<forall>b \<in> set [7 :: u64]. unat b < 2 ^ 48" by simp
  note th = plan_repack_tree_correct [OF example_entries_wf bs example_alloc_good this, of 4 1 8]
  have err: "e = NoSpaceLeftOnDevice" if "example_alloc n = Err e" for n e
    using that by (simp add: example_alloc_def split: if_splits)
  show ?thesis
    using th example_entries_wf bs example_alloc_good
    by (auto split: option.splits outcome.splits dest: err)
qed

section \<open>Insertion through the deep planner\<close>

lemma descend_inline:
  assumes "ExtentHeader_parse root = Ok h" "is_leaf h"
  shows "descend_to_leaf fuel root target bs rb = Some (Ok [\<lparr>pf_block = 0, pf_bytes = root\<rparr>])"
proof -
  have "eh_depth h = 0" using assms(2) by (simp add: is_leaf_def)
  then show ?thesis
    using assms by (simp add: descend_to_leaf_def descend_loop.simps EXT4_EXT_MAX_DEPTH_def)
qed

text \<open>One leaf block under a one-entry root.\<close>

lemma promoted_reads:
  assumes bs: "fs_block_size bs" and wf: "leaf_wf es" "es \<noteq> []" "length es \<le> 84" and b: "unat block < 2 ^ 48"
  shows "\<exists>node root. build_full_leaf_block g es (unat bs) = Ok node \<and>
    build_inline_index_root g 1 [(logical_block (hd es), block)] = Ok root \<and>
    (\<forall>crc ctx rd. stored crc ctx rd bs [(block, node)] \<longrightarrow> collect_all root rd bs = Ok es \<and>
       (\<forall>l. lookup_verified crc root rd bs l ctx = Ok (find_extent es l)))"
proof -
  let ?ix = "[(logical_block (hd es), block)]"
  have bs': "1024 \<le> unat bs" "unat bs \<le> 65536" using bs by (auto simp: fs_block_size_def)
  have cap: "length es \<le> unat (node_max_entries (unat bs))"
    using wf(3) capacity_bounds(2) [OF bs', of 0] by simp
  note sub = leaf_subtree [OF bs' wf(1,2) cap b, of g]
  obtain root where root: "build_inline_index_root g 1 ?ix = Ok root"
    and h: "ExtentHeader_parse root = Ok \<lparr>eh_magic = EXT4_EXT_MAGIC, eh_entries = word_of_nat (length ?ix),
       eh_max = 4, eh_depth = 1, eh_generation = g\<rparr>"
    and es: "\<And>msg. parse_entries ExtentIdx_parse msg root 0 (length ?ix) = Ok (map idx_of ?ix)"
    using index_root [of ?ix g 1] b by auto
  obtain node where node: "build_full_leaf_block g es (unat bs) = Ok node"
    using sub [of "\<lambda>s d. s" None "\<lambda>_ _. Panic"] by auto
  have "collect_all root rd bs = Ok es \<and> (\<forall>l. lookup_verified crc root rd bs l ctx = Ok (find_extent es l))"
    if "stored crc ctx rd bs [(block, node)]" for crc ctx rd
  proof -
    have "level crc ctx rd bs 0 ?ix [es]" using sub [of crc ctx rd] node that by auto
    from level_reads [OF this _ _ h es] wf(1) show ?thesis by simp
  qed
  with root node show ?thesis by blast
qed

text \<open>
  C35. Inserting through the deep planner into an inode whose root is still a leaf: the new root,
  together with the one block it allocates when the four inline slots overflow, reads back as
  the old extents with the new one sorted and merged in, so exactly the new extent's blocks
  change their mapping. It refuses an overlap, fails when the allocator does, and otherwise
  neither fails, panics nor keeps running.
\<close>

theorem deep_insert_inline_correct:
  assumes wf: "root_wf root" and r: "read_leaf_entries root = Ok (h, es)"
    and new: "valid_extent new" "ext_end new \<le> 0xFFFFFFFF"
    and bs: "fs_block_size bs" and alloc: "good_alloc alloc"
  defines "es' \<equiv> insert_into_leaf_sorted es new"
  shows "case plan_insert_extent_deep fuel root new bs rb alloc s of
     None \<Rightarrow> False | Some Panic \<Rightarrow> False
   | Some (Err e) \<Rightarrow> (\<exists>n. covers new n \<and> root_map root n \<noteq> None) \<or> (\<exists>s. alloc s = Err e)
   | Some (Ok (plan, s')) \<Rightarrow>
       (\<forall>n. block_at es' n = (if covers new n then Some (ext_image new n) else root_map root n)) \<and>
       map fst (dip_block_writes plan) = dip_allocated_blocks plan \<and>
       (\<forall>crc ctx rd. stored crc ctx rd bs (dip_block_writes plan) \<longrightarrow>
          collect_all (dip_new_root plan) rd bs = Ok es' \<and>
          (\<forall>l. lookup_verified crc (dip_new_root plan) rd bs l ctx = Ok (find_extent es' l)))"
proof -
  from wf r have les: "leaf_wf es" and m: "root_map root = block_at es" and h: "is_leaf h"
      "length es \<le> unat (eh_max h)" "unat (eh_max h) \<le> 4" and l60: "length root = 60"
    by (auto elim!: root_wfE)
  have hp: "ExtentHeader_parse root = Ok h" "parse_leaf_entries root h = Ok es"
    using r by (auto simp: read_leaf_entries_def parse_leaf_entries_def outcome_simps split: if_splits)
  note ds = descend_inline [OF hp(1) h(1)]
  show ?thesis
  proof (cases "check_no_overlap es new = Ok ()")
    case False
    then obtain e where "check_no_overlap es new = Err e"
      by (cases "check_no_overlap es new") (auto simp: check_no_overlap_def split: if_splits)
    then have "plan_insert_extent_deep fuel root new bs rb alloc s = Some (Err e)"
      using l60 hp ds by (simp add: plan_insert_extent_deep_def Let_def)
    moreover have "\<exists>n. covers new n \<and> root_map root n \<noteq> None"
      using False overlap_iff_covers [OF les new(1)] m by auto
    ultimately show ?thesis by simp
  next
    case True
    note ins = insert_into_leaf_sorted_correct [OF les new True, folded es'_def]
    have blk: "\<forall>n. block_at es' n = (if covers new n then Some (ext_image new n) else root_map root n)"
      using ins(2) m by auto
    have "covers new (ext_start new)" using valid_extent_nonempty [OF new(1)] by (simp add: covers_def)
    then have ne: "es' \<noteq> []" using ins(2) [of "ext_start new"] by auto
    have len: "length es' \<le> 5" using length_insert_into_leaf_sorted [of es new] h(2,3) by (simp add: es'_def)
    then have fits: "(word_of_nat (length es') :: u16) \<le> 4 \<longleftrightarrow> length es' \<le> 4"
      by (simp add: word_le_nat_alt unat_of_nat)
    show ?thesis
    proof (cases "length es' \<le> 4")
      case small: True
      obtain root' h' where "build_inline_leaf_root (eh_generation h) es' = Ok root'"
        "read_leaf_entries root' = Ok (h', es')"
        using inline_leaf_root [OF ins(1) small] by blast
      with inline_reads [OF _ ins(1)] True small fits blk l60 hp ds show ?thesis
        by (auto simp: plan_insert_extent_deep_def Let_def es'_def [symmetric])
    next
      case big: False
      have plan: "plan_insert_extent_deep fuel root new bs rb alloc s = Some (and_then (alloc s) (\<lambda>(b, s).
          and_then (build_full_leaf_block (eh_generation h) es' (unat bs)) (\<lambda>node.
          and_then (build_inline_index_root (eh_generation h) 1 [(logical_block (hd es'), b)]) (\<lambda>root.
            Ok (\<lparr>dip_new_root = root, dip_block_writes = [(b, node)], dip_allocated_blocks = [b]\<rparr>, s)))))"
        using True big fits l60 hp ds by (simp add: plan_insert_extent_deep_def Let_def es'_def [symmetric])
      show ?thesis
      proof (cases "alloc s")
        case (Ok bt)
        obtain b t where bt: "bt = (b, t)" by (cases bt)
        with Ok alloc have "unat b < 2 ^ 48" by (auto simp: good_alloc_def)
        with promoted_reads [OF bs ins(1) ne] len obtain node root' where
          "build_full_leaf_block (eh_generation h) es' (unat bs) = Ok node"
          "build_inline_index_root (eh_generation h) 1 [(logical_block (hd es'), b)] = Ok root'"
          "\<forall>crc ctx rd. stored crc ctx rd bs [(b, node)] \<longrightarrow> collect_all root' rd bs = Ok es' \<and>
             (\<forall>l. lookup_verified crc root' rd bs l ctx = Ok (find_extent es' l))" by fastforce
        with plan Ok bt blk show ?thesis by simp
      next
        case (Err e)
        with plan show ?thesis by auto
      next
        case Panic
        with alloc show ?thesis by (simp add: good_alloc_def)
      qed
    qed
  qed
qed

theorem deep_insert_inline_correct_witness:
  "root_wf example_inline \<and> valid_extent example_new \<and> fs_block_size 1024 \<and> good_alloc example_alloc \<and>
   (case plan_insert_extent_deep 0 example_inline example_new 1024 (\<lambda>_ _. Err OutOfBounds) example_alloc 7 of
      None \<Rightarrow> False | Some Panic \<Rightarrow> False | Some (Err e) \<Rightarrow> (\<exists>n. example_alloc n = Err e)
    | Some (Ok (plan, s')) \<Rightarrow> (\<forall>crc ctx rd. stored crc ctx rd 1024 (dip_block_writes plan) \<longrightarrow>
        collect_all (dip_new_root plan) rd 1024 = Ok (insert_into_leaf_sorted [example_extent] example_new)))"
proof -
  have bs: "fs_block_size 1024" by (simp add: fs_block_size_def)
  have free: "\<not> (\<exists>n. covers example_new n \<and> root_map example_inline n \<noteq> None)"
    by (auto simp: example_inline_map covers_def example_new_def ext_start_def ext_end_def)
  show ?thesis
    using deep_insert_inline_correct [OF example_inline_wf example_inline_reads _ _ bs example_alloc_good,
        of example_new 0 "\<lambda>_ _. Err OutOfBounds" 7]
      example_new_ok free example_inline_wf bs example_alloc_good
    by (auto split: option.splits outcome.splits)
qed

text \<open>The child a node of the tree routes a logical block to: the last entry at or below it, or the first entry.\<close>

definition routed :: "u32 \<Rightarrow> extent_idx list \<Rightarrow> u64" where
  "routed target entries =
     (let below = takeWhile (\<lambda>i. ei_block i \<le> target) entries in leaf_block (if below = [] then hd entries else last below))"

definition leads_to :: "u32 \<Rightarrow> bytes \<Rightarrow> u64 \<Rightarrow> bool" where
  "leads_to target node b \<longleftrightarrow> (\<exists>h entries. ExtentHeader_parse node = Ok h \<and> \<not> is_leaf h \<and> eh_entries h \<noteq> 0 \<and>
     parse_index_entries node h = Ok entries \<and> routed target entries = b)"

lemma descend_loop_turn:
  assumes "leads_to target (pf_bytes (hd path)) b" "rb b (unat bs) = Ok child"
  shows "descend_loop fuel target bs rb path =
    (case fuel of 0 \<Rightarrow> None | Suc f \<Rightarrow> descend_loop f target bs rb (\<lparr>pf_block = b, pf_bytes = child\<rparr> # path))"
  using assms by (auto simp: leads_to_def descend_loop.simps [of fuel] routed_def Let_def)

lemma descend_loop_cyclic:
  assumes "leads_to target (pf_bytes (hd path)) b" "b \<in> S"
    "\<forall>b \<in> S. \<exists>node c. rb b (unat bs) = Ok node \<and> leads_to target node c \<and> c \<in> S"
  shows "descend_loop fuel target bs rb path = None"
  using assms(1,2)
proof (induction fuel arbitrary: path b)
  case 0
  then obtain node where "rb b (unat bs) = Ok node" using assms(3) by blast
  then show ?case using descend_loop_turn [OF 0(1)] by simp
next
  case (Suc fuel)
  then obtain node c where "rb b (unat bs) = Ok node" "leads_to target node c" "c \<in> S" using assms(3) by blast
  then show ?case using descend_loop_turn [OF Suc.prems(1)] Suc.IH by simp
qed


text \<open>
  A file whose 60-byte root of depth one names block 10, an index node of 1024 bytes that names block 11, one that names block 10 again.
\<close>

definition index_to :: "u8 \<Rightarrow> nat \<Rightarrow> bytes" where
  "index_to b n = [0x0A, 0xF3, 1, 0, 4, 0, 1, 0, 0, 0, 0, 0, 0, 0, 0, 0, b, 0, 0, 0, 0, 0, 0, 0] @ replicate (n - 24) 0"

definition cyclic_blocks :: "u64 \<Rightarrow> nat \<Rightarrow> bytes result" where
  "cyclic_blocks b n = Ok (index_to (if b = 10 then 11 else 10) n)"

definition index_header :: extent_header where
  "index_header = \<lparr>eh_magic = 0xF30A, eh_entries = 1, eh_max = 4, eh_depth = 1, eh_generation = 0\<rparr>"

lemma index_to_parses: "ExtentHeader_parse (index_to b n) = Ok index_header"
  by (simp add: ExtentHeader_parse_def index_to_def index_header_def EXT4_EXT_MAGIC_def get_field_defs slice_def u16_from_le_def u32_from_le_def)

lemma index_to_entries: "parse_entries ExtentIdx_parse msg (index_to b n) 0 (Suc 0) = Ok [\<lparr>ei_block = 0, leaf_block = ucast b\<rparr>]"
proof -
  have "ucast (ucast b :: u32) = (ucast b :: u64)" by (rule bit_word_eqI) (auto simp: bit_simps dest: bit_imp_le_length)
  then show ?thesis
    by (simp add: entry_off_def index_to_def ExtentIdx_parse_def get_slice_def get_field_defs slice_def u16_from_le_def u32_from_le_def)
qed

lemma index_to_leads: "leads_to target (index_to b n) (ucast b)"
  using index_to_entries [of "''index entry out of range''" b n] index_to_parses [of b n]
  by (auto simp: leads_to_def parse_index_entries_def index_header_def is_leaf_def routed_def simp del: parse_entries.simps)


end
