(* ===== verification/File_Mut.thy ===== *)
theory File_Mut
  imports Indirect Extent_Deep "HOL-Library.Multiset" "HOL-Library.Product_Lexorder"
begin

unbundle bit_operations_syntax

text \<open>
  File-level write and truncate planning (\<open>src/file_mut.rs\<close>): cutting a byte range into block writes, the block range it
  touches, and the two shrink planners, for inline roots and for trees of every depth. The closure that reads and checks a
  tree block is the parameter \<open>read\<close>.
\<close>

section \<open>Block writes\<close>

record block_write =
  bw_logical_block :: u64
  bw_offset_in_block :: u32
  bw_payload :: bytes

lemma ucast_nonzero: "block_size \<noteq> 0 \<Longrightarrow> (ucast (block_size :: u32) :: u64) \<noteq> 0"
proof
  assume "block_size \<noteq> 0" "(ucast block_size :: u64) = 0"
  moreover have "unat (ucast block_size :: u64) = unat block_size" by simp
  ultimately show False by (simp add: unat_eq_zero)
qed

lemma split_step:
  fixes cur fin :: u64 and block_size :: u32
  assumes "cur < fin" "block_size \<noteq> 0"
  defines "bs \<equiv> (ucast block_size :: u64)"
  defines "n \<equiv> min (unat (bs - ucast (ucast (cur mod bs) :: u32))) (unat (saturating_sub fin cur))"
  shows "ucast (ucast (cur mod bs) :: u32) = cur mod bs" "unat (ucast (cur mod bs) :: u32) = unat cur mod unat block_size"
    "n = min (unat block_size - unat cur mod unat block_size) (unat fin - unat cur)" "0 < n" "unat (cur + word_of_nat n) = unat cur + n"
    "unat cur + n \<le> unat fin"
proof -
  have bs: "unat bs = unat block_size" by (simp add: bs_def)
  have pos: "0 < unat block_size" using assms(2) by (simp add: unat_gt_0)
  have m: "unat (cur mod bs) = unat cur mod unat block_size" by (simp add: unat_mod bs)
  then have lt: "unat (cur mod bs) < unat block_size" using pos by simp
  have small: "unat cur mod unat block_size < 2 ^ 32" using lt m unat_u32_bound [of block_size] by simp
  show u: "unat (ucast (cur mod bs) :: u32) = unat cur mod unat block_size"
    using small m by (simp add: unsigned_ucast_eq unsigned_take_bit_eq take_bit_nat_eq_self)
  then show uu: "ucast (ucast (cur mod bs) :: u32) = cur mod bs" using m by (simp add: word_unat_eq_iff)
  have d: "unat (bs - cur mod bs) = unat block_size - unat cur mod unat block_size"
    using lt m bs by (simp add: unat_sub word_le_nat_alt)
  show n: "n = min (unat block_size - unat cur mod unat block_size) (unat fin - unat cur)"
    unfolding n_def uu using d by (simp add: unat_saturating_sub)
  have c: "unat cur < unat fin" using assms(1) by (simp add: word_less_nat_alt)
  then show "0 < n" using n lt m by simp
  show le: "unat cur + n \<le> unat fin" using n c by simp
  have "unat cur + n < 2 ^ 64" using le unat_lt2p [of fin] by simp
  then show "unat (cur + word_of_nat n) = unat cur + n" by (simp add: unat_add_no_wrap unat_of_nat)
qed

function split_loop :: "u32 \<Rightarrow> bytes \<Rightarrow> u64 \<Rightarrow> u64 \<Rightarrow> nat \<Rightarrow> block_write list result" where
  "split_loop block_size data fin cur src =
     (let bs = (ucast block_size :: u64) in
      if cur < fin then
        if bs = 0 then Panic
        else let off_in_block = (ucast (cur mod bs) :: u32);
                 block_remaining = unat (bs - ucast off_in_block);
                 n = min block_remaining (unat (saturating_sub fin cur))
             in and_then (get_slice src (src + n) data) (\<lambda>payload.
                and_then (split_loop block_size data fin (cur + word_of_nat n) (src + n)) (\<lambda>rest.
                Ok (\<lparr>bw_logical_block = cur div bs, bw_offset_in_block = off_in_block, bw_payload = payload\<rparr> # rest)))
      else Ok [])"
  by pat_completeness auto

termination
proof (relation "measure (\<lambda>(block_size, data, fin, cur, src). unat fin - unat cur)", goal_cases)
  case (2 block_size data fin cur src bs off rem n payload)
  then have "block_size \<noteq> 0" by auto
  note st = split_step(4-6) [OF 2(2) this]
  have n: "n = min (unat (ucast block_size - ucast (ucast (cur mod ucast block_size :: u64) :: u32) :: u64)) (unat (saturating_sub fin cur))"
    by (simp only: 2)
  have "0 < n \<and> unat (cur + word_of_nat n) = unat cur + n \<and> unat cur + n \<le> unat fin" unfolding n by (intro conjI st)
  then show ?case by (simp, linarith)
qed simp

declare split_loop.simps [simp del]

definition split_into_block_writes :: "u64 \<Rightarrow> bytes \<Rightarrow> u32 \<Rightarrow> block_write list result" where
  "split_into_block_writes offset data block_size =
     (if data = [] then Ok [] else split_loop block_size data (offset + word_of_nat (length data)) offset 0)"

record write_block_range =
  wr_first :: u64
  wr_last :: u64
  wr_full_blocks :: bool

definition is_multiple_of :: "u64 \<Rightarrow> u64 \<Rightarrow> bool" where
  "is_multiple_of a b = (if b = 0 then a = 0 else a mod b = 0)"

definition compute_write_range :: "u64 \<Rightarrow> u64 \<Rightarrow> u32 \<Rightarrow> write_block_range option result" where
  "compute_write_range offset n block_size =
     (if n = 0 then Ok None
      else let bs = (ucast block_size :: u64) in
        if bs = 0 then Panic
        else Ok (Some \<lparr>wr_first = offset div bs, wr_last = (offset + n - 1) div bs,
               wr_full_blocks = (is_multiple_of offset bs \<and> is_multiple_of (offset + n) bs)\<rparr>))"

section \<open>Size changes of an inline root\<close>

record size_change =
  old_size :: u64
  new_size :: u64

definition plan_truncate_grow :: "u64 \<Rightarrow> u64 \<Rightarrow> size_change result" where
  "plan_truncate_grow old new =
     (if new < old then Err (Corrupt ''plan_truncate_grow: new_size < old_size'') else Ok \<lparr>old_size = old, new_size = new\<rparr>)"

text \<open>The loop that reads the entries indexes the root directly: an entry past its end panics.\<close>

fun index_entries :: "(bytes \<Rightarrow> 'e result) \<Rightarrow> bytes \<Rightarrow> nat \<Rightarrow> nat \<Rightarrow> 'e list result" where
  "index_entries p node i 0 = Ok []"
| "index_entries p node i (Suc n) =
     and_then (and_then (get_slice (entry_off i) (entry_off i + EXT4_EXT_NODE_SIZE) node) p) (\<lambda>e.
     and_then (index_entries p node (Suc i) n) (\<lambda>es. Ok (e # es)))"

definition shrink_entry :: "u64 \<Rightarrow> extent \<Rightarrow> extent list \<times> extent_mutation list" where
  "shrink_entry new_logical_end e =
     (let e_start = (ucast (logical_block e) :: u64); e_end = e_start + ucast (len e) in
      if e_end \<le> new_logical_end then ([e], [])
      else if e_start \<ge> new_logical_end then ([], [FreePhysicalRun (physical_block e) (ucast (len e))])
      else let keep_len = (ucast (new_logical_end - e_start) :: u16); free_len = len e - keep_len in
        ([e\<lparr>len := keep_len\<rparr>], [FreePhysicalRun (physical_block e + ucast keep_len) (ucast free_len)]))"

definition plan_truncate_shrink :: "u64 \<Rightarrow> u64 \<Rightarrow> bytes \<Rightarrow> u32 \<Rightarrow> (size_change \<times> extent_mutation list) result" where
  "plan_truncate_shrink old new root block_size =
     (if new > old then Err (Corrupt ''plan_truncate_shrink: new_size > old_size'')
      else and_then (ExtentHeader_parse root) (\<lambda>header.
        if \<not> is_leaf header then Err (Unsupported ''inline truncate planner requires an inline extent root'')
        else let bs = (ucast block_size :: u64) in
          if bs = 0 then Panic
          else let new_logical_end = div_ceil new bs in
            and_then (index_entries Extent_parse root 0 (unat (eh_entries header))) (\<lambda>entries.
            let parts = map (shrink_entry new_logical_end) entries in
            and_then (build_root header (concat (map fst parts)) (length root)) (\<lambda>new_root.
            Ok (\<lparr>old_size = old, new_size = new\<rparr>, WriteRoot new_root # concat (map snd parts))))))"

section \<open>Shrinking a tree of any depth\<close>

record shrink_params =
  sp_end :: u64
  sp_block_size :: u32
  sp_blocks_count :: u64

record shrink_walk =
  sw_visited :: "u64 set"
  sw_physical :: "(u64 \<times> u64) list"
  sw_logical_end :: u64
  sw_mutations :: "extent_mutation list"

text \<open>The locals of \<open>ShrinkWalk::node\<close> and the loop over its entries; an entry step returns the entry to keep, if any.\<close>

record shrink_node_state =
  sn_bytes :: bytes
  sn_kept :: nat
  sn_first :: "u32 option"
  sn_previous_index :: "u32 option"
  sn_walk :: shrink_walk

definition get_or_insert :: "'a option \<Rightarrow> 'a \<Rightarrow> 'a option" where
  "get_or_insert o' x = (case o' of None \<Rightarrow> Some x | Some y \<Rightarrow> Some y)"

definition keep_entry :: "bytes \<Rightarrow> shrink_node_state \<Rightarrow> shrink_node_state result" where
  "keep_entry encoded st =
     and_then (put_checked (EXT4_EXT_NODE_SIZE * (sn_kept st + 1)) encoded (sn_bytes st)) (\<lambda>b.
     Ok (st\<lparr>sn_bytes := b, sn_kept := sn_kept st + 1\<rparr>))"

definition push_mutation :: "extent_mutation \<Rightarrow> shrink_walk \<Rightarrow> shrink_walk" where
  "push_mutation m w = w\<lparr>sw_mutations := sw_mutations w @ [m]\<rparr>"

definition shrink_leaf_entry :: "shrink_params \<Rightarrow> bytes \<Rightarrow> shrink_node_state \<Rightarrow> shrink_node_state result" where
  "shrink_leaf_entry P encoded st =
     and_then (Extent_parse encoded) (\<lambda>extent.
     let w = sn_walk st; beg = (ucast (logical_block extent) :: u64); fin = beg + ucast (len extent);
         physical_end = physical_block extent + ucast (len extent)
     in if len extent = 0 \<or> beg < sw_logical_end w \<or> fin > 0xFFFFFFFF + 1 \<or> physical_block extent = 0 \<or> physical_end > sp_blocks_count P
        then Err (CorruptExtentTree ''invalid or overlapping leaf extent'')
        else let w = w\<lparr>sw_logical_end := fin, sw_physical := sw_physical w @ [(physical_block extent, physical_end)]\<rparr>;
                 keep = min (saturating_sub (sp_end P) beg) (ucast (len extent));
                 w = (if keep < ucast (len extent)
                      then push_mutation (FreePhysicalRun (physical_block extent + keep) (ucast (len extent) - ucast keep)) w else w)
             in if keep = 0 then Ok (st\<lparr>sn_walk := w\<rparr>)
                else let encoded_len = ucast keep + (if uninitialized extent then EXT_INIT_MAX_LEN else 0) in
                  keep_entry (put 4 (u16_to_le encoded_len) encoded)
                    (st\<lparr>sn_walk := w, sn_first := get_or_insert (sn_first st) (logical_block extent)\<rparr>))"

definition shrink_index_entry :: "shrink_params \<Rightarrow> (u64 \<Rightarrow> bytes result) \<Rightarrow> (bytes \<Rightarrow> shrink_walk \<Rightarrow> (bytes \<times> u32 option \<times> shrink_walk) result)
    \<Rightarrow> bytes \<Rightarrow> shrink_node_state \<Rightarrow> shrink_node_state result" where
  "shrink_index_entry P read visit encoded st =
     and_then (ExtentIdx_parse encoded) (\<lambda>child.
     let w = sn_walk st in
     if (case sn_previous_index st of None \<Rightarrow> False | Some prior \<Rightarrow> prior \<ge> ei_block child) \<or> leaf_block child = 0 \<or>
        leaf_block child \<ge> sp_blocks_count P \<or> leaf_block child \<in> sw_visited w
     then Err (CorruptExtentTree ''invalid or repeated extent index'')
     else let st = st\<lparr>sn_previous_index := Some (ei_block child)\<rparr>;
              w = w\<lparr>sw_visited := insert (leaf_block child) (sw_visited w), sw_physical := sw_physical w @ [(leaf_block child, leaf_block child + 1)]\<rparr>
     in and_then (read (leaf_block child)) (\<lambda>node.
        if length node \<noteq> unat (sp_block_size P) then Err (CorruptExtentTree ''short extent node read'')
        else and_then (ExtentHeader_parse node) (\<lambda>child_header.
          if eh_entries child_header = 0 \<or> get_le32 12 node \<noteq> ei_block child
          then Err (CorruptExtentTree ''extent index does not match its child'')
          else and_then (visit node w) (\<lambda>(updated, child_first, w).
            case child_first of
              None \<Rightarrow> Ok (st\<lparr>sn_walk := push_mutation (FreePhysicalRun (leaf_block child) 1) w\<rparr>)
            | Some child_first \<Rightarrow>
                let w = (if updated \<noteq> node then push_mutation (WriteTreeBlock (leaf_block child) updated) w else w) in
                keep_entry (put 0 (u32_to_le child_first) encoded)
                  (st\<lparr>sn_walk := w, sn_first := get_or_insert (sn_first st) child_first\<rparr>)))))"

fun shrink_entries :: "(bytes \<Rightarrow> shrink_node_state \<Rightarrow> shrink_node_state result) \<Rightarrow> bytes \<Rightarrow> nat \<Rightarrow> nat \<Rightarrow> shrink_node_state \<Rightarrow> shrink_node_state result" where
  "shrink_entries step original i 0 st = Ok st"
| "shrink_entries step original i (Suc n) st =
     and_then (get_slice (entry_off i) (entry_off i + EXT4_EXT_NODE_SIZE) original) (\<lambda>encoded.
     and_then (step encoded st) (shrink_entries step original (Suc i) n))"

definition shrink_node_with :: "(bytes \<Rightarrow> shrink_node_state \<Rightarrow> shrink_node_state result) \<Rightarrow> nat \<Rightarrow> bytes \<Rightarrow> bool \<Rightarrow> shrink_walk
    \<Rightarrow> (bytes \<times> u32 option \<times> shrink_walk) result" where
  "shrink_node_with step depth original inline w =
     and_then (ExtentHeader_parse original) (\<lambda>header.
     let body = length original - (if inline then 0 else 4) in
     if eh_depth header \<noteq> word_of_nat depth \<or> eh_max header = 0 \<or> EXT4_EXT_NODE_SIZE * (1 + unat (eh_max header)) > body
     then Err (CorruptExtentTree ''invalid extent node depth or capacity'')
     else and_then (shrink_entries step original 0 (unat (eh_entries header))
            \<lparr>sn_bytes = original, sn_kept = 0, sn_first = None, sn_previous_index = None, sn_walk = w\<rparr>) (\<lambda>st.
          and_then (put_checked 2 (u16_to_le (word_of_nat (sn_kept st))) (sn_bytes st)) (\<lambda>b.
          Ok (b, sn_first st, sn_walk st))))"

fun shrink_node :: "shrink_params \<Rightarrow> (u64 \<Rightarrow> bytes result) \<Rightarrow> nat \<Rightarrow> bytes \<Rightarrow> bool \<Rightarrow> shrink_walk \<Rightarrow> (bytes \<times> u32 option \<times> shrink_walk) result" where
  "shrink_node P read 0 original inline w = shrink_node_with (shrink_leaf_entry P) 0 original inline w"
| "shrink_node P read (Suc d) original inline w =
     shrink_node_with (shrink_index_entry P read (\<lambda>node w. shrink_node P read d node False w)) (Suc d) original inline w"

fun overlapping_pair :: "(u64 \<times> u64) list \<Rightarrow> bool" where
  "overlapping_pair (a # b # xs) = (snd a > fst b \<or> overlapping_pair (b # xs))"
| "overlapping_pair _ = False"

definition plan_truncate_shrink_deep :: "u64 \<Rightarrow> u64 \<Rightarrow> bytes \<Rightarrow> u32 \<Rightarrow> u64 \<Rightarrow> (u64 \<Rightarrow> bytes result)
    \<Rightarrow> (size_change \<times> extent_mutation list) result" where
  "plan_truncate_shrink_deep old new root block_size blocks_count read =
     (if new > old \<or> \<not> (1024 \<le> block_size \<and> block_size \<le> 65536) \<or> \<not> power_of_two32 block_size
      then Err (InvalidArgument ''invalid truncate size or block size'')
      else and_then (ExtentHeader_parse root) (\<lambda>header.
        if length root \<noteq> 60 \<or> eh_depth header > EXT4_EXT_MAX_DEPTH then Err (CorruptExtentTree ''invalid inline extent root'')
        else let P = \<lparr>sp_end = div_ceil new (ucast block_size), sp_block_size = block_size, sp_blocks_count = blocks_count\<rparr> in
          and_then (shrink_node P read (unat (eh_depth header)) root True
              \<lparr>sw_visited = {}, sw_physical = [], sw_logical_end = 0, sw_mutations = []\<rparr>) (\<lambda>(b, first, w).
          and_then (if first = None then put_checked 6 (u16_to_le 0) b else Ok b) (\<lambda>b.
          if overlapping_pair (sort (sw_physical w)) then Err (CorruptExtentTree ''overlapping physical extent ranges'')
          else Ok (\<lparr>old_size = old, new_size = new\<rparr>, WriteRoot b # sw_mutations w)))))"


section \<open>Cutting a write\<close>

definition apply_write :: "u32 \<Rightarrow> bytes \<Rightarrow> block_write \<Rightarrow> bytes" where
  "apply_write block_size img w = put (unat (bw_logical_block w) * unat block_size + unat (bw_offset_in_block w)) (bw_payload w) img"

definition in_block :: "u32 \<Rightarrow> block_write \<Rightarrow> bool" where
  "in_block block_size w \<longleftrightarrow> bw_payload w \<noteq> [] \<and> unat (bw_offset_in_block w) + length (bw_payload w) \<le> unat block_size"

lemma put_put_append:
  assumes "off + length xs + length ys \<le> length img"
  shows "put (off + length xs) ys (put off xs img) = put off (xs @ ys) img"
proof -
  have "off \<le> length img" "off + length xs \<le> length img" using assms by linarith+
  then show ?thesis by (simp add: put_def min_absorb2 add_ac)
qed

text \<open>Where one piece ends: at the end of its block or of the data.\<close>

lemma piece_end:
  fixes cur b fin n :: nat
  assumes "0 < b" "cur < fin" "n = min (b - cur mod b) (fin - cur)"
  shows "cur + n = fin \<and> (fin - 1) div b = cur div b \<and> (n = b \<longleftrightarrow> cur mod b = 0 \<and> fin mod b = 0) \<or>
    cur + n < fin \<and> (cur + n) div b = Suc (cur div b) \<and> (cur + n) mod b = 0 \<and> (n = b \<longleftrightarrow> cur mod b = 0)"
proof -
  define q r where "q = cur div b" and "r = cur mod b"
  have c: "cur = q * b + r" "r < b" using assms(1) by (simp_all add: q_def r_def)
  show ?thesis
  proof (cases "fin - cur \<le> b - r")
    case True
    then have n: "n = fin - cur" using assms(3) by (simp add: r_def)
    have "fin - 1 = q * b + (r + (n - 1))" "r + (n - 1) < b" using True c assms(2) n by simp_all
    then have d: "(fin - 1) div b = q" by (metis assms(1) add.commute div_mult_self3 less_not_refl2 div_less add.right_neutral mult.commute)
    have f: "fin = q * b + (r + n)" "r + n \<le> b" using c n assms(2) True by simp_all
    have "n = b \<longleftrightarrow> r = 0 \<and> fin mod b = 0"
    proof
      assume "n = b" then show "r = 0 \<and> fin mod b = 0" using f by simp
    next
      assume a: "r = 0 \<and> fin mod b = 0"
      then have "n mod b = 0" using f by (metis add_0 mod_mult_self3)
      then show "n = b" using f(2) a n assms(2) by (metis mod_less le_neq_implies_less add_0 zero_less_diff less_numeral_extra(3))
    qed
    then show ?thesis using n d assms(2) by (simp add: q_def r_def)
  next
    case False
    then have n: "n = b - r" using assms(3) by (simp add: r_def)
    then have "cur + n = Suc q * b" using c by simp
    moreover have "cur + n < fin" using n False by linarith
    moreover have "n = b \<longleftrightarrow> r = 0" using n c(2) by auto
    ultimately show ?thesis using assms(1) by (simp add: q_def r_def)
  qed
qed

lemma split_loop_correct:
  assumes "block_size \<noteq> 0" "cur < fin" "src + (unat fin - unat cur) = length data"
  shows "\<exists>ws. split_loop block_size data fin cur src = Ok ws \<and>
    (\<forall>img. unat fin \<le> length img \<longrightarrow> foldl (apply_write block_size) img ws = put (unat cur) (drop src data) img) \<and>
    (\<forall>w \<in> set ws. in_block block_size w) \<and>
    map (\<lambda>w. unat (bw_logical_block w)) ws = [unat cur div unat block_size ..< Suc ((unat fin - 1) div unat block_size)] \<and>
    ((\<forall>w \<in> set ws. length (bw_payload w) = unat block_size) \<longleftrightarrow> unat cur mod unat block_size = 0 \<and> unat fin mod unat block_size = 0)"
  using assms
proof (induction "unat fin - unat cur" arbitrary: cur src rule: less_induct)
  case less
  let ?bs = "ucast block_size :: u64" and ?b = "unat block_size"
  define n where "n = min (unat (?bs - ucast (ucast (cur mod ?bs) :: u32))) (unat (saturating_sub fin cur))"
  note st = split_step [OF less.prems(2,1), folded n_def]
  have b1: "0 < ?b" using less.prems(1) by (simp add: unat_gt_0)
  note b = b1 ucast_nonzero [OF less.prems(1)]
  have c: "unat cur < unat fin" using less.prems(2) by (simp add: word_less_nat_alt)
  let ?w = "\<lparr>bw_logical_block = cur div ?bs, bw_offset_in_block = ucast (cur mod ?bs), bw_payload = slice src (src + n) data\<rparr>"
  have fit: "src + n \<le> length data" using st(6) less.prems(3) c by linarith
  have lp: "length (slice src (src + n) data) = n" using fit by simp
  have pos: "unat (cur div ?bs) * ?b + unat (ucast (cur mod ?bs) :: u32) = unat cur" using st(2) by (simp add: unat_div)
  have "unat cur mod ?b < ?b" using b(1) by simp
  then have "unat cur mod ?b + n \<le> ?b" using st(3) by linarith
  then have blk: "in_block block_size ?w" using st(2,4) lp by (auto simp: in_block_def simp flip: length_greater_0_conv)
  have unf: "split_loop block_size data fin cur src =
    and_then (split_loop block_size data fin (cur + word_of_nat n) (src + n)) (\<lambda>rest. Ok (?w # rest))"
    using less.prems(2) b fit by (subst split_loop.simps) (simp add: Let_def get_slice_def n_def [symmetric])
  have app: "apply_write block_size img ?w = put (unat cur) (slice src (src + n) data) img" for img
    using pos by (simp add: apply_write_def)
  from piece_end [OF b(1) c st(3)] show ?case
  proof (elim disjE conjE)
    assume e: "unat cur + n = unat fin" "(unat fin - 1) div ?b = unat cur div ?b" "n = ?b \<longleftrightarrow> unat cur mod ?b = 0 \<and> unat fin mod ?b = 0"
    then have "\<not> cur + word_of_nat n < fin" using st(5) by (simp add: word_less_nat_alt)
    then have "split_loop block_size data fin (cur + word_of_nat n) (src + n) = Ok []" by (subst split_loop.simps) simp
    moreover have "slice src (src + n) data = drop src data" using e(1) less.prems(3) by (simp add: slice_def)
    ultimately show ?thesis using unf app blk e lp by (simp add: unat_div)
  next
    assume e: "unat cur + n < unat fin" "(unat cur + n) div ?b = Suc (unat cur div ?b)" "(unat cur + n) mod ?b = 0" "n = ?b \<longleftrightarrow> unat cur mod ?b = 0"
    have "unat fin - unat (cur + word_of_nat n) < unat fin - unat cur" "cur + word_of_nat n < fin"
      "src + n + (unat fin - unat (cur + word_of_nat n)) = length data"
      using e(1) st(4,5) less.prems(3) by (simp_all add: word_less_nat_alt)
    from less.hyps [OF this(1) less.prems(1) this(2,3)] obtain ws where
      ws: "split_loop block_size data fin (cur + word_of_nat n) (src + n) = Ok ws"
      "\<forall>img. unat fin \<le> length img \<longrightarrow> foldl (apply_write block_size) img ws = put (unat cur + n) (drop (src + n) data) img"
      "\<forall>w \<in> set ws. in_block block_size w"
      "map (\<lambda>w. unat (bw_logical_block w)) ws = [Suc (unat cur div ?b) ..< Suc ((unat fin - 1) div ?b)]"
      "(\<forall>w \<in> set ws. length (bw_payload w) = ?b) \<longleftrightarrow> (0 :: nat) = 0 \<and> unat fin mod ?b = 0"
      unfolding st(5) e(2,3) by (elim exE conjE) assumption
    have "foldl (apply_write block_size) img (?w # ws) = put (unat cur) (drop src data) img" if "unat fin \<le> length img" for img
    proof -
      have "foldl (apply_write block_size) img (?w # ws) = put (unat cur + n) (drop (src + n) data) (put (unat cur) (slice src (src + n) data) img)"
        using ws(2) app that e(1) lp by simp
      also have "\<dots> = put (unat cur) (slice src (src + n) data @ drop (src + n) data) img"
        using put_put_append [of "unat cur" "slice src (src + n) data" "drop (src + n) data" img] lp that less.prems(3) c e(1) by simp
      also have "slice src (src + n) data @ drop (src + n) data = drop src data"
        by (simp add: slice_def) (metis add.commute append_take_drop_id drop_drop)
      finally show ?thesis .
    qed
    moreover have "unat cur div ?b \<le> (unat fin - 1) div ?b" using c by (intro div_le_mono) simp
    ultimately show ?thesis
      using unf ws blk e lp by (auto simp: unat_div upt_conv_Cons)
  qed
qed

text \<open>
  C28. A byte-range write is cut into block writes that together store exactly the data: applied in turn to a file image they
  write the data at the offset and nothing else, each stays inside its block, the blocks are consecutive from the first to the last
  that the range computation names, and they are all whole blocks exactly when that computation says so.
\<close>

theorem split_into_block_writes_correct:
  assumes "block_size \<noteq> 0" "data \<noteq> []" "unat offset + length data < 2 ^ 64"
  shows "\<exists>ws r. split_into_block_writes offset data block_size = Ok ws \<and>
    compute_write_range offset (word_of_nat (length data)) block_size = Ok (Some r) \<and>
    (\<forall>img. unat offset + length data \<le> length img \<longrightarrow> foldl (apply_write block_size) img ws = put (unat offset) data img) \<and>
    (\<forall>w \<in> set ws. in_block block_size w) \<and>
    map (\<lambda>w. unat (bw_logical_block w)) ws = [unat (wr_first r) ..< Suc (unat (wr_last r))] \<and>
    (wr_full_blocks r \<longleftrightarrow> (\<forall>w \<in> set ws. length (bw_payload w) = unat block_size))"
proof -
  let ?n = "word_of_nat (length data) :: u64" and ?bs = "ucast block_size :: u64"
  have n: "unat ?n = length data" using assms(3) by (simp add: unat_of_nat)
  have l: "0 < length data" using assms(2) by simp
  have f: "unat (offset + ?n) = unat offset + length data" using n assms(3) by (simp add: unat_add_no_wrap)
  then have lt: "offset < offset + ?n" using l by (simp add: word_less_nat_alt)
  from split_loop_correct [OF assms(1) lt, of 0 data] obtain ws where
    ws: "split_loop block_size data (offset + ?n) offset 0 = Ok ws"
    "\<forall>img. unat offset + length data \<le> length img \<longrightarrow> foldl (apply_write block_size) img ws = put (unat offset) data img"
    "\<forall>w \<in> set ws. in_block block_size w"
    "map (\<lambda>w. unat (bw_logical_block w)) ws = [unat offset div unat block_size ..< Suc ((unat (offset + ?n) - 1) div unat block_size)]"
    "(\<forall>w \<in> set ws. length (bw_payload w) = unat block_size) \<longleftrightarrow> unat offset mod unat block_size = 0 \<and> unat (offset + ?n) mod unat block_size = 0"
    using f by auto
  have bs: "?bs \<noteq> 0" "?n \<noteq> 0" "unat ?bs = unat block_size" using assms(1) n l by (auto simp: word_unat_eq_iff)
  have "unat (offset + ?n - 1) = unat (offset + ?n) - 1" using lt by (subst unat_sub) (use l f in \<open>simp_all add: word_le_nat_alt Suc_leI trans_le_add2\<close>)
  then have last: "unat ((offset + ?n - 1) div ?bs) = (unat (offset + ?n) - 1) div unat block_size" by (simp add: unat_div)
  have mult: "is_multiple_of a ?bs \<longleftrightarrow> unat a mod unat block_size = 0" for a
    using bs by (simp add: is_multiple_of_def word_unat_eq_iff unat_mod)
  show ?thesis
    using ws assms(2) bs(1,2) last mult by (auto simp: split_into_block_writes_def compute_write_range_def Let_def unat_div)
qed


section \<open>Cutting extents at the end of the file\<close>

definition cut_at :: "nat \<Rightarrow> extent \<Rightarrow> extent list" where
  "cut_at k e = (if ext_end e \<le> k then [e] else if k \<le> ext_start e then [] else [e\<lparr>len := word_of_nat (k - ext_start e)\<rparr>])"

definition cut_all :: "nat \<Rightarrow> extent list \<Rightarrow> extent list" where
  "cut_all k es = concat (map (cut_at k) es)"

text \<open>The physical blocks of extents and those a list of mutations frees.\<close>

definition data_blocks :: "extent list \<Rightarrow> nat list" where
  "data_blocks es = concat (map (\<lambda>e. [unat (physical_block e) ..< unat (physical_block e) + unat (len e)]) es)"

definition freed_blocks :: "extent_mutation list \<Rightarrow> nat list" where
  "freed_blocks ms = concat (map (\<lambda>m. case m of FreePhysicalRun s n \<Rightarrow> [unat s ..< unat s + unat n] | _ \<Rightarrow> []) ms)"

lemma cut_all_simps [simp]: "cut_all k [] = []" "cut_all k (e # es) = cut_at k e @ cut_all k es" "cut_all k (xs @ ys) = cut_all k xs @ cut_all k ys"
  by (simp_all add: cut_all_def)

lemma block_lists [simp]: "data_blocks [] = []" "data_blocks (e # es) = [unat (physical_block e) ..< unat (physical_block e) + unat (len e)] @ data_blocks es"
  "data_blocks (xs @ ys) = data_blocks xs @ data_blocks ys" "freed_blocks [] = []" "freed_blocks (ms @ ms') = freed_blocks ms @ freed_blocks ms'"
  "freed_blocks (m # ms) = (case m of FreePhysicalRun s n \<Rightarrow> [unat s ..< unat s + unat n] | _ \<Rightarrow> []) @ freed_blocks ms"
  by (simp_all add: data_blocks_def freed_blocks_def)

lemma cut_len:
  assumes "ext_start e < k" "k < ext_end e"
  shows "unat (word_of_nat (k - ext_start e) :: u16) = k - ext_start e"
proof -
  have "k - ext_start e < 2 ^ 16" using assms unat_u16_bound [of "len e"] by (simp add: ext_start_def ext_end_def)
  then show ?thesis by (simp add: unat_of_nat)
qed

lemma covers_cut: "(\<exists>p \<in> set (cut_at k e). covers p n) \<longleftrightarrow> covers e n \<and> n < k"
  using cut_len [of e k] by (auto simp: cut_at_def covers_def ext_start_def ext_end_def)

lemma block_at_cut: "block_at (cut_at k e) n = (if n < k then block_at [e] n else None)"
  using covers_cut [of k e n] by (auto simp: cut_at_def block_at_def ext_image_def ext_start_def covers_def split: if_splits)

lemma block_at_cut_all: "block_at (cut_all k es) n = (if n < k then block_at es n else None)"
proof (induction es)
  case (Cons e es)
  have "block_at (e # es) n = (case block_at [e] n of None \<Rightarrow> block_at es n | Some v \<Rightarrow> Some v)" using block_at_append [of "[e]" es n] by simp
  then show ?case using Cons by (auto simp: block_at_append block_at_cut split: option.split)
qed simp

lemma cut_inside: "p \<in> set (cut_at k e) \<Longrightarrow> ext_start p = ext_start e \<and> ext_end p \<le> ext_end e"
  using cut_len [of e k] by (auto simp: cut_at_def ext_start_def ext_end_def split: if_splits)

lemma cut_valid: "valid_extent e \<Longrightarrow> p \<in> set (cut_at k e) \<Longrightarrow> valid_extent p"
  using cut_len [of e k] by (auto simp: cut_at_def valid_extent_def ext_start_def ext_end_def word_gt_0 word_unat_eq_iff max_extent_len_def split: if_splits)

lemma leaf_wf_cut_all: "leaf_wf es \<Longrightarrow> leaf_wf (cut_all k es)"
proof (induction es)
  case (Cons e es)
  have e: "valid_extent e" "ext_end e \<le> 0xFFFFFFFF" "leaf_wf es" "\<forall>y \<in> set es. ext_end e \<le> ext_start y" using Cons.prems by (auto simp: leaf_wf_Cons_iff)
  have "leaf_wf (cut_at k e)"
  proof (cases "cut_at k e")
    case (Cons p ps)
    then have "p \<in> set (cut_at k e)" "ps = []" by (auto simp: cut_at_def split: if_splits)
    then show ?thesis using cut_inside [of p k e] cut_valid [OF e(1), of p k] e(2) Cons by (simp add: leaf_wf_Cons_iff)
  qed simp
  moreover have "ext_end p \<le> ext_start q" if "p \<in> set (cut_at k e)" "q \<in> set (cut_all k es)" for p q
    using cut_inside [OF that(1)] that(2) e(4) cut_inside [of q k] by (fastforce simp: cut_all_def)
  ultimately show ?case using Cons.IH [OF e(3)] by (simp add: leaf_wf_append_iff)
qed simp

lemma length_cut_all: "length (cut_all k es) \<le> length es"
  by (induction es) (auto simp: cut_at_def)

text \<open>One entry of the inline planner: the cut, and the run that the cut leaves free.\<close>

lemma shrink_entry_correct:
  assumes "valid_extent e"
  shows "fst (shrink_entry k e) = cut_at (unat k) e"
    "[unat (physical_block e) ..< unat (physical_block e) + unat (len e)] = data_blocks (cut_at (unat k) e) @ freed_blocks (snd (shrink_entry k e))"
proof -
  let ?s = "ucast (logical_block e) :: u64"
  have s: "unat ?s = ext_start e" by (simp add: ext_start_def)
  have "unat ?s + unat (ucast (len e) :: u64) < 2 ^ 64" using unat_u32_bound [of "logical_block e"] unat_u16_bound [of "len e"] by simp
  then have f: "unat (?s + ucast (len e)) = ext_end e" using s by (simp add: unat_add_no_wrap ext_start_def ext_end_def)
  have p: "unat (physical_block e) + unat (len e) \<le> 2 ^ 48" using assms by (simp add: valid_extent_def)
  have "fst (shrink_entry k e) = cut_at (unat k) e \<and>
    [unat (physical_block e) ..< unat (physical_block e) + unat (len e)] = data_blocks (cut_at (unat k) e) @ freed_blocks (snd (shrink_entry k e))"
  proof (cases "ext_start e < unat k \<and> unat k < ext_end e")
    case True
    define n where "n = unat k - ext_start e"
    have n: "0 < n" "n < unat (len e)" using True by (auto simp: n_def ext_start_def ext_end_def)
    have d: "unat (k - ?s) = n" using True s by (simp add: n_def unat_sub word_le_nat_alt)
    have c: "(ucast (k - ?s) :: u16) = word_of_nat n"
      using d by (simp add: word_unat_eq_iff unsigned_ucast_eq unsigned_take_bit_eq unat_of_nat take_bit_eq_mod)
    have u: "unat (word_of_nat n :: u16) = n" using cut_len [of e "unat k"] True by (simp add: n_def)
    have l: "unat (len e - word_of_nat n) = unat (len e) - n" using n u by (simp add: unat_sub word_le_nat_alt)
    have "unat (physical_block e + ucast (word_of_nat n :: u16)) = unat (physical_block e) + n"
      using p n u by (subst unat_add_no_wrap) simp_all
    then show ?thesis
      using True s f n u l c upt_add_eq_append [of "unat (physical_block e)" "unat (physical_block e) + n" "unat (len e) - n"]
      by (simp add: shrink_entry_def cut_at_def word_le_nat_alt Let_def n_def [symmetric])
  next
    case False
    then show ?thesis using s f by (auto simp: shrink_entry_def cut_at_def word_le_nat_alt Let_def)
  qed
  then show "fst (shrink_entry k e) = cut_at (unat k) e"
    "[unat (physical_block e) ..< unat (physical_block e) + unat (len e)] = data_blocks (cut_at (unat k) e) @ freed_blocks (snd (shrink_entry k e))"
    by blast+
qed

lemma shrink_entries_parts:
  assumes "\<forall>e \<in> set es. valid_extent e"
  shows "concat (map fst (map (shrink_entry k) es)) = cut_all (unat k) es"
    "mset (data_blocks es) = mset (data_blocks (cut_all (unat k) es)) + mset (freed_blocks (concat (map snd (map (shrink_entry k) es))))"
proof -
  show "concat (map fst (map (shrink_entry k) es)) = cut_all (unat k) es"
    using assms by (induction es) (simp_all add: shrink_entry_correct(1))
  show "mset (data_blocks es) = mset (data_blocks (cut_all (unat k) es)) + mset (freed_blocks (concat (map snd (map (shrink_entry k) es))))"
    using assms by (induction es) (simp_all add: shrink_entry_correct(2) [of _ k] add_ac)
qed

lemma index_entries_parse:
  "parse_entries p msg node i n = Ok es \<Longrightarrow> index_entries p node i n = Ok es"
  by (induction n arbitrary: i es) (auto simp: outcome_simps Let_def split: if_splits)

definition new_end :: "u64 \<Rightarrow> u32 \<Rightarrow> nat" where
  "new_end sz block_size = (unat sz + unat block_size - 1) div unat block_size"

lemma unat_new_end:
  assumes "block_size \<noteq> 0"
  shows "unat (div_ceil sz (ucast block_size :: u64)) = new_end sz block_size"
proof -
  define s b where "s = unat sz" and "b = unat block_size"
  have b: "0 < b" using assms by (simp add: b_def unat_gt_0)
  have q: "s div b * b + s mod b = s" by simp
  have dm: "(x + y * b) div b = y + x div b" for x y using b by simp
  have ce: "(s + b - 1) div b = s div b + (if s mod b = 0 then 0 else 1)"
  proof (cases "s mod b = 0")
    case True
    then have e: "s + b - 1 = (b - 1) + s div b * b" using q b by linarith
    show ?thesis unfolding e dm using True b by simp
  next
    case False
    then have e: "s + b - 1 = (s mod b - 1) + Suc (s div b) * b" using q b by simp
    show ?thesis unfolding e dm using False b by (simp add: less_imp_diff_less)
  qed
  have d: "unat (sz div ucast block_size) = s div b" "unat (sz mod ucast block_size) = s mod b" by (simp_all add: unat_div unat_mod s_def b_def)
  have "s div b + (if s mod b = 0 then 0 else 1) < 2 ^ 64"
  proof (cases "s mod b = 0")
    case True
    have "s div b < 2 ^ 64" using le_less_trans [OF div_le_dividend [of s b], of "2 ^ 64"] unat_lt2p [of sz] by (simp add: s_def)
    then show ?thesis using True by simp
  next
    case False
    then have "1 < b" using b by (metis mod_by_1 less_one linorder_neqE_nat not_less_iff_gr_or_eq Suc_lessI One_nat_def)
    moreover have "0 < s" using False by (metis mod_0 neq0_conv)
    ultimately have "s div b < s" by simp
    then show ?thesis using unat_lt2p [of sz] by (simp add: s_def)
  qed
  then show ?thesis
    unfolding div_ceil_def new_end_def s_def [symmetric] b_def [symmetric] ce
    using d by (subst unat_add_no_wrap) (auto simp: word_unat_eq_iff)
qed

text \<open>
  Shrinking a file with an inline extent root: the new root is well formed and maps exactly the blocks below the new end, as
  before, and the runs to free are exactly the blocks that are no longer mapped, each once. A growing size is refused; a
  well-formed root never panics.
\<close>

theorem plan_truncate_shrink_correct:
  assumes "root_wf root" "read_leaf_entries root = Ok (h, es)" "block_size \<noteq> 0"
  shows "case plan_truncate_shrink old new root block_size of
     Ok (sc, ms) \<Rightarrow> new \<le> old \<and> sc = \<lparr>old_size = old, new_size = new\<rparr> \<and>
       is_root_update root ms (\<lambda>n. if n < new_end new block_size then root_map root n else None) \<and>
       mset (data_blocks es) = mset (data_blocks (cut_all (new_end new block_size) es)) + mset (freed_blocks ms)
   | Err e \<Rightarrow> old < new \<and> e = Corrupt ''plan_truncate_shrink: new_size > old_size''
   | Panic \<Rightarrow> False"
proof (cases "new > old")
  case False
  from assms(1,2) have wf: "leaf_wf es" and m: "root_map root = block_at es"
    and h: "is_leaf h" "length es \<le> unat (eh_max h)" "unat (eh_max h) \<le> 4" and l60: "length root = 60"
    by (auto elim!: root_wfE)
  let ?k = "div_ceil new (ucast block_size)"
  note bs = ucast_nonzero [OF assms(3)]
  have hp: "ExtentHeader_parse root = Ok h" and pe: "parse_entries Extent_parse ''leaf entry out of range'' root 0 (unat (eh_entries h)) = Ok es"
    using assms(2) by (auto simp: read_leaf_entries_def outcome_simps split: if_splits)
  have parts: "concat (map fst (map (shrink_entry ?k) es)) = cut_all (unat ?k) es"
    "mset (data_blocks es) = mset (data_blocks (cut_all (unat ?k) es)) + mset (freed_blocks (concat (map snd (map (shrink_entry ?k) es))))"
    using shrink_entries_parts [of es ?k] wf by (auto simp: leaf_wf_def)
  have fit: "length (cut_all (unat ?k) es) \<le> unat (eh_max h)" using length_cut_all [of "unat ?k" es] h(2) by (rule order_trans)
  obtain r where r: "build_root h (cut_all (unat ?k) es) 60 = Ok r" "length r = 60" "root_wf r" "root_map r = block_at (cut_all (unat ?k) es)"
    by (rule rebuilt_root [OF leaf_wf_cut_all [OF wf] h(1) fit h(3)])
  have plan: "plan_truncate_shrink old new root block_size =
    Ok (\<lparr>old_size = old, new_size = new\<rparr>, WriteRoot r # concat (map snd (map (shrink_entry ?k) es)))"
    unfolding plan_truncate_shrink_def Let_def hp and_then.simps index_entries_parse [OF pe] parts(1) l60 r(1)
    using False h(1) bs by simp
  have "root_map r = (\<lambda>n. if n < unat ?k then root_map root n else None)" using r(4) m block_at_cut_all by auto
  then show ?thesis
    unfolding plan using False parts(2) r(2,3) l60 unat_new_end [OF assms(3), of new] by (simp add: is_root_update_def)
qed (simp add: plan_truncate_shrink_def)


theorem split_into_block_writes_correct_witness:
  "\<exists>ws r. split_into_block_writes 2 [1, 2, 3] 4 = Ok ws \<and> compute_write_range 2 3 4 = Ok (Some r) \<and>
     foldl (apply_write 4) (replicate 8 0) ws = [0, 0, 1, 2, 3, 0, 0, 0] \<and> map (\<lambda>w. unat (bw_logical_block w)) ws = [unat (wr_first r) ..< Suc (unat (wr_last r))]"
proof -
  have "put 2 [1, 2, 3] (replicate 8 0) = [0, 0, 1, 2, 3, 0, 0, 0 :: u8]" by (simp add: put_def numeral_eq_Suc)
  then show ?thesis using split_into_block_writes_correct [of 4 "[1, 2, 3]" 2] by fastforce
qed

theorem plan_truncate_shrink_correct_witness:
  "\<exists>sc ms. plan_truncate_shrink 8192 4096 example_inline 1024 = Ok (sc, ms) \<and>
     is_root_update example_inline ms (\<lambda>n. if n < new_end 4096 1024 then root_map example_inline n else None)"
  using plan_truncate_shrink_correct [OF example_inline_wf example_inline_reads, where block_size = 1024 and old = 8192 and new = 4096]
  by (cases "plan_truncate_shrink 8192 4096 example_inline 1024") auto

end
