(* ===== verification/Truncate.thy ===== *)
theory Truncate
  imports File_Mut
begin

unbundle bit_operations_syntax

text \<open>
  The deep shrink planner is correct (\<open>plan_truncate_shrink_deep\<close> of \<open>src/file_mut.rs\<close>): the tree it leaves reads back as the old
  extents cut at the new end, and what it frees is exactly what that tree no longer refers to.
\<close>

section \<open>Nodes as lists of entries\<close>

text \<open>The loops over the entries of a node, restated over the list of its twelve-byte entries.\<close>

definition node_entries :: "bytes \<Rightarrow> nat \<Rightarrow> nat \<Rightarrow> bytes list" where
  "node_entries node i n = map (\<lambda>j. slice (entry_off j) (entry_off j + 12) node) [i ..< i + n]"

fun all_ok :: "('a \<Rightarrow> ('e, 'b) outcome) \<Rightarrow> 'a list \<Rightarrow> ('e, 'b list) outcome" where
  "all_ok f [] = Ok []"
| "all_ok f (x # xs) = and_then (f x) (\<lambda>y. and_then (all_ok f xs) (\<lambda>ys. Ok (y # ys)))"

fun walk_list :: "reader \<Rightarrow> u32 \<Rightarrow> nat \<Rightarrow> bytes list \<Rightarrow> (extent list \<times> u64 list) result" where
  "walk_list rd bs d [] = Ok ([], [])"
| "walk_list rd bs d (x # xs) =
     and_then (ExtentIdx_parse x) (\<lambda>idx.
     and_then (ok_or (child_offset (leaf_block idx) bs) (CorruptExtentTree ''extent walk: child block offset overflow'')) (\<lambda>coff.
     and_then (rd coff (unat bs)) (\<lambda>buf.
     and_then (ExtentHeader_parse buf) (\<lambda>h.
     and_then (walk rd bs d buf h) (\<lambda>(es, ns).
     and_then (walk_list rd bs d xs) (\<lambda>(es', ns').
     Ok (es @ es', leaf_block idx # ns @ ns')))))))"

fun shrink_list :: "(bytes \<Rightarrow> shrink_node_state \<Rightarrow> shrink_node_state result) \<Rightarrow> bytes list \<Rightarrow> shrink_node_state \<Rightarrow> shrink_node_state result" where
  "shrink_list step [] st = Ok st"
| "shrink_list step (x # xs) st = and_then (step x st) (shrink_list step xs)"

lemma node_entries_Suc: "node_entries node i (Suc n) = slice (entry_off i) (entry_off i + 12) node # node_entries node (Suc i) n"
  by (simp add: node_entries_def upt_conv_Cons del: upt_Suc)

lemma node_entries_0 [simp]: "node_entries node i 0 = []"
  by (simp add: node_entries_def)

lemma node_entries_snoc: "node_entries node i (Suc n) = node_entries node i n @ [slice (entry_off (i + n)) (entry_off (i + n) + 12) node]"
  by (simp add: node_entries_def)

lemma length_node_entries [simp]: "length (node_entries node i n) = n"
  by (simp add: node_entries_def)

lemma entry_in_range: "entry_off (i + n) \<le> l \<Longrightarrow> j < i + n \<Longrightarrow> entry_off j + 12 \<le> l"
  by (simp add: entry_off_def)

lemma node_entries_size: "x \<in> set (node_entries node i n) \<Longrightarrow> entry_off (i + n) \<le> length node \<Longrightarrow> length x = 12"
proof -
  assume "x \<in> set (node_entries node i n)" "entry_off (i + n) \<le> length node"
  moreover from this obtain j where "j < i + n" "x = slice (entry_off j) (entry_off j + 12) node" by (auto simp: node_entries_def)
  moreover from this have "entry_off j + 12 \<le> length node" using entry_in_range [of i n "length node"] calculation by blast
  ultimately show "length x = 12" by simp
qed

lemma parse_entries_list:
  "entry_off (i + n) \<le> length node \<Longrightarrow> parse_entries p msg node i n = all_ok p (node_entries node i n)"
  by (induction n arbitrary: i)
     (simp_all add: node_entries_Suc Let_def get_slice_def entry_off_def outcome_simps)

lemma walk_children_list:
  "entry_off (i + n) \<le> length node \<Longrightarrow> walk_children rd bs d node i n = walk_list rd bs d (node_entries node i n)"
  by (induction n arbitrary: i) (simp_all add: node_entries_Suc Let_def get_slice_def entry_off_def)

lemma shrink_entries_list:
  "entry_off (i + n) \<le> length original \<Longrightarrow> shrink_entries step original i n st = shrink_list step (node_entries original i n) st"
proof (induction n arbitrary: i st)
  case (Suc n)
  then have "entry_off i + 12 \<le> length original" "entry_off (Suc i + n) \<le> length original" by (simp_all add: entry_off_def)
  moreover from this have "shrink_entries step original (Suc i) n = shrink_list step (node_entries original (Suc i) n)" by (intro ext Suc.IH)
  ultimately show ?case by (simp add: node_entries_Suc get_slice_def)
qed simp

lemma all_ok_append: "all_ok f (xs @ ys) = and_then (all_ok f xs) (\<lambda>a. and_then (all_ok f ys) (\<lambda>b. Ok (a @ b)))"
proof (induction xs)
  case Nil
  then show ?case by (cases "all_ok f ys") simp_all
next
  case (Cons x xs)
  then show ?case by (cases "f x"; cases "all_ok f xs"; cases "all_ok f ys") simp_all
qed

lemma walk_list_append:
  "walk_list rd bs d xs = Ok (a, na) \<Longrightarrow> walk_list rd bs d ys = Ok (b, nb) \<Longrightarrow> walk_list rd bs d (xs @ ys) = Ok (a @ b, na @ nb)"
  by (induction xs arbitrary: a na) (auto simp: outcome_simps split: prod.splits)

text \<open>A node that agrees with another up to its checksum has the same header and the same entries.\<close>

lemma slice_take_eq:
  assumes "take n a = take n b" "j \<le> n"
  shows "slice i j a = slice i j b"
proof -
  have "slice i j xs = drop i (take j (take n xs))" for xs :: "'a list" using assms(2) by (simp add: slice_def drop_take min_absorb1)
  then show ?thesis by (simp only: assms(1))
qed

lemma node_entries_take:
  assumes "take n a = take n b" "entry_off (i + k) \<le> n"
  shows "node_entries a i k = node_entries b i k"
  using slice_take_eq [OF assms(1)] entry_in_range [OF assms(2)] by (simp add: node_entries_def)

lemma header_take:
  assumes "take n a = take n b" "12 \<le> n" "length a = length b"
  shows "ExtentHeader_parse a = ExtentHeader_parse b"
  using slice_take_eq [OF assms(1)] assms(2,3) by (simp add: ExtentHeader_parse_def get_field_defs)

section \<open>Entries of a cut node\<close>

lemma join_bound: "unat (push_bit 32 (ucast (h :: u16)) OR ucast (l :: u32) :: u64) < 2 ^ 48"
proof -
  define x where "x = (push_bit 32 (ucast h) OR ucast l :: u64)"
  have "take_bit 48 x = x" unfolding x_def by (rule bit_word_eqI) (auto simp: bit_simps dest: bit_imp_le_length)
  then have "take_bit 48 (unat x) = unat x" by (metis unsigned_take_bit_eq)
  then show ?thesis using take_bit_nat_less_exp [of 48 "unat x"] by (simp add: x_def)
qed

lemma Extent_parse_fields:
  assumes "Extent_parse raw = Ok e"
  shows "unat (physical_block e) < 2 ^ 48" "logical_block e = get_le32 0 raw" "unat (len e) \<le> max_extent_len (uninitialized e)"
proof -
  show "unat (physical_block e) < 2 ^ 48" "logical_block e = get_le32 0 raw"
    using assms join_bound by (auto simp: Extent_parse_def Let_def split: if_splits)
  have "unat (w - 32768 :: u16) \<le> 32767" if "w > 32768" for w
    using that unat_u16_bound [of w] by (simp add: unat_sub word_less_nat_alt word_le_nat_alt)
  then show "unat (len e) \<le> max_extent_len (uninitialized e)"
    using assms by (auto simp: Extent_parse_def Let_def max_extent_len_def EXT_INIT_MAX_LEN_def word_less_nat_alt split: if_splits)
qed

lemma ExtentIdx_parse_fields:
  assumes "ExtentIdx_parse raw = Ok c"
  shows "unat (leaf_block c) < 2 ^ 48"
  using assms join_bound by (auto simp: ExtentIdx_parse_def Let_def split: if_splits)

lemma parse_cut_entry:
  assumes "Extent_parse raw = Ok e" "length raw = 12" "0 < n" "n \<le> unat (len e)"
  shows "Extent_parse (put 4 (u16_to_le (word_of_nat n + (if uninitialized e then EXT_INIT_MAX_LEN else 0))) raw) = Ok (e\<lparr>len := word_of_nat n\<rparr>)"
proof -
  have b: "n \<le> max_extent_len (uninitialized e)" using Extent_parse_fields(3) [OF assms(1)] assms(4) by simp
  have u: "unat (word_of_nat n :: u16) = n" using assms(4) unat_u16_bound [of "len e"] by (simp add: unat_of_nat)
  have "unat (word_of_nat n + 32768 :: u16) = n + 32768" if "uninitialized e"
    using b that u by (simp add: max_extent_len_def EXT_INIT_MAX_LEN_def unat_add_no_wrap)
  then have "(if word_of_nat n + (if uninitialized e then EXT_INIT_MAX_LEN else 0) > EXT_INIT_MAX_LEN
      then (word_of_nat n + (if uninitialized e then EXT_INIT_MAX_LEN else 0) - EXT_INIT_MAX_LEN, True)
      else (word_of_nat n + (if uninitialized e then EXT_INIT_MAX_LEN else 0), False)) = (word_of_nat n :: u16, uninitialized e)"
    using b u assms(3) by (auto simp: EXT_INIT_MAX_LEN_def max_extent_len_def word_less_nat_alt)
  then show ?thesis using assms(1,2)
    by (auto simp: Extent_parse_def Let_def codec_simps split: if_splits prod.splits)
qed

lemma parse_moved_index:
  assumes "ExtentIdx_parse raw = Ok c" "length raw = 12"
  shows "ExtentIdx_parse (put 0 (u32_to_le l) raw) = Ok (c\<lparr>ei_block := l\<rparr>)"
  using assms by (auto simp: ExtentIdx_parse_def Let_def codec_simps split: if_splits)


section \<open>What a walk over part of a tree does\<close>

definition tree_writes :: "extent_mutation list \<Rightarrow> (u64 \<times> bytes) list" where
  "tree_writes ms = concat (map (\<lambda>m. case m of WriteTreeBlock b x \<Rightarrow> [(b, x)] | _ \<Rightarrow> []) ms)"

lemma tree_writes_simps [simp]: "tree_writes [] = []" "tree_writes (ms @ ms') = tree_writes ms @ tree_writes ms'"
  "tree_writes (m # ms) = (case m of WriteTreeBlock b x \<Rightarrow> [(b, x)] | _ \<Rightarrow> []) @ tree_writes ms"
  by (simp_all add: tree_writes_def)

text \<open>The physical runs of the extents and of the tree blocks, as the planner records them.\<close>

definition data_run :: "extent \<Rightarrow> u64 \<times> u64" where
  "data_run e = (physical_block e, physical_block e + ucast (len e))"

definition node_run :: "u64 \<Rightarrow> u64 \<times> u64" where
  "node_run b = (b, b + 1)"

definition sound_extent :: "extent \<Rightarrow> bool" where
  "sound_extent e \<longleftrightarrow> 0 < unat (len e) \<and> unat (len e) \<le> max_extent_len (uninitialized e) \<and> unat (physical_block e) < 2 ^ 48 \<and> physical_block e \<noteq> 0"

text \<open>
  From walk \<open>w\<close> to \<open>w'\<close> the planner met the extents \<open>es\<close> and the tree blocks \<open>ns\<close>, keeps the tree blocks \<open>ns'\<close> and asks for the
  mutations \<open>ms\<close>; \<open>k\<close> is the first block past the new end.
\<close>

definition effect :: "nat \<Rightarrow> shrink_walk \<Rightarrow> shrink_walk \<Rightarrow> extent list \<Rightarrow> u64 list \<Rightarrow> u64 list \<Rightarrow> extent_mutation list \<Rightarrow> bool" where
  "effect k w w' es ns ns' ms \<longleftrightarrow>
     sw_mutations w' = sw_mutations w @ ms \<and> sw_visited w' = sw_visited w \<union> set ns \<and> distinct ns \<and> set ns \<inter> sw_visited w = {} \<and>
     mset (sw_physical w') = mset (sw_physical w) + mset (map data_run es) + mset (map node_run ns) \<and>
     extents_in (unat (sw_logical_end w)) (unat (sw_logical_end w')) es \<and> unat (sw_logical_end w) \<le> unat (sw_logical_end w') \<and>
     (\<forall>e \<in> set es. sound_extent e) \<and> (\<forall>b \<in> set ns. unat b < 2 ^ 48) \<and> fst ` set (tree_writes ms) \<subseteq> set ns \<and>
     mset (data_blocks es @ map unat ns) = mset (data_blocks (cut_all k es) @ map unat ns') + mset (freed_blocks ms)"

lemma effect_refl: "effect k w w [] [] [] []"
  by (simp add: effect_def)

lemma effect_trans:
  assumes "effect k w w1 es1 ns1 ns1' ms1" "effect k w1 w2 es2 ns2 ns2' ms2"
  shows "effect k w w2 (es1 @ es2) (ns1 @ ns2) (ns1' @ ns2') (ms1 @ ms2)"
proof -
  have "extents_in (unat (sw_logical_end w)) (unat (sw_logical_end w2)) (es1 @ es2)"
    using assms by (fastforce simp: effect_def extents_in_def sorted_wrt_append)
  moreover have "mset (sw_physical w2) = mset (sw_physical w) + mset (map data_run (es1 @ es2)) + mset (map node_run (ns1 @ ns2))"
    using assms by (simp add: effect_def add_ac)
  moreover have "mset (data_blocks (es1 @ es2) @ map unat (ns1 @ ns2)) = mset (data_blocks (cut_all k (es1 @ es2)) @ map unat (ns1' @ ns2')) + mset (freed_blocks (ms1 @ ms2))"
  proof -
    have "mset (data_blocks (es1 @ es2) @ map unat (ns1 @ ns2)) = mset (data_blocks es1 @ map unat ns1) + mset (data_blocks es2 @ map unat ns2)"
      by (simp add: add_ac)
    also have "\<dots> = (mset (data_blocks (cut_all k es1) @ map unat ns1') + mset (freed_blocks ms1)) + (mset (data_blocks (cut_all k es2) @ map unat ns2') + mset (freed_blocks ms2))"
      using assms unfolding effect_def by argo
    finally show ?thesis by (simp add: add_ac)
  qed
  ultimately show ?thesis using assms unfolding effect_def by auto
qed

text \<open>The device after the writes: the tree blocks of \<open>ns\<close> hold what \<open>ms\<close> writes, stamped, or what they held.\<close>

definition written :: "crc_fn \<Rightarrow> verify_ctx option \<Rightarrow> u32 \<Rightarrow> reader \<Rightarrow> reader \<Rightarrow> u64 list \<Rightarrow> extent_mutation list \<Rightarrow> bool" where
  "written crc ctx bs rd rd2 ns ms \<longleftrightarrow> (\<forall>b \<in> set ns. rd2 (b * ucast bs) (unat bs) =
     (case map_of (tree_writes ms) b of Some node \<Rightarrow> Ok (stamp crc ctx node) | None \<Rightarrow> rd (b * ucast bs) (unat bs)))"

lemma written_append:
  assumes "written crc ctx bs rd rd2 (ns1 @ ns2) (ms1 @ ms2)" "effect k w w1 es1 ns1 ns1' ms1" "effect k w1 w2 es2 ns2 ns2' ms2"
  shows "written crc ctx bs rd rd2 ns1 ms1" "written crc ctx bs rd rd2 ns2 ms2"
proof -
  have dom: "fst ` set (tree_writes ms1) \<subseteq> set ns1" "fst ` set (tree_writes ms2) \<subseteq> set ns2" "set ns1 \<inter> set ns2 = {}"
    using assms(2,3) by (auto simp: effect_def)
  have "map_of (tree_writes (ms1 @ ms2)) b = map_of (tree_writes ms1) b" if "b \<in> set ns1" for b
  proof -
    have "map_of (tree_writes ms2) b = None" using dom that by (auto simp: map_of_eq_None_iff)
    then show ?thesis by (simp add: map_add_def split: option.split)
  qed
  moreover have "map_of (tree_writes (ms1 @ ms2)) b = map_of (tree_writes ms2) b" if "b \<in> set ns2" for b
  proof -
    have "map_of (tree_writes ms1) b = None" using dom that by (auto simp: map_of_eq_None_iff)
    then show ?thesis by (simp add: map_add_def split: option.split)
  qed
  ultimately show "written crc ctx bs rd rd2 ns1 ms1" "written crc ctx bs rd rd2 ns2 ms2"
    using assms(1) by (simp_all add: written_def)
qed

section \<open>Keeping entries\<close>

definition kept_entries :: "shrink_node_state \<Rightarrow> bytes list" where
  "kept_entries st = node_entries (sn_bytes st) 0 (sn_kept st)"

text \<open>Keeping an entry appends it, and touches neither the header nor the size of the node.\<close>

lemma keep_entry_correct:
  assumes "keep_entry encoded st = Ok st'" "length encoded = 12"
  shows "kept_entries st' = kept_entries st @ [encoded]" "take 12 (sn_bytes st') = take 12 (sn_bytes st)" "length (sn_bytes st') = length (sn_bytes st)"
    "sn_kept st' = Suc (sn_kept st)" "sn_walk st' = sn_walk st" "sn_first st' = sn_first st"
proof -
  let ?off = "12 * (sn_kept st + 1)"
  have fit: "?off + 12 \<le> length (sn_bytes st)" and st': "st' = st\<lparr>sn_bytes := put ?off encoded (sn_bytes st), sn_kept := sn_kept st + 1\<rparr>"
    using assms by (auto simp: keep_entry_def outcome_simps)
  have "node_entries (put ?off encoded (sn_bytes st)) 0 (sn_kept st) = node_entries (sn_bytes st) 0 (sn_kept st)"
    using fit assms(2) by (intro node_entries_take [of ?off]) (auto simp: put_def entry_off_def)
  moreover have "slice (entry_off (sn_kept st)) (entry_off (sn_kept st) + 12) (put ?off encoded (sn_bytes st)) = encoded"
    using fit assms(2) by (simp add: entry_off_def slice_simps)
  ultimately show "kept_entries st' = kept_entries st @ [encoded]" by (simp add: kept_entries_def st' node_entries_snoc)
  show "take 12 (sn_bytes st') = take 12 (sn_bytes st)" using fit by (simp add: st' put_def)
qed (use assms in \<open>auto simp: keep_entry_def outcome_simps\<close>)


text \<open>Going through part of the entries of a node: the walk's effect, and the entries \<open>zs\<close> kept.\<close>

definition advance :: "nat \<Rightarrow> shrink_node_state \<Rightarrow> shrink_node_state \<Rightarrow> extent list \<Rightarrow> u64 list \<Rightarrow> u64 list \<Rightarrow> extent_mutation list \<Rightarrow> bytes list \<Rightarrow> bool" where
  "advance k st st' es ns ns' ms zs \<longleftrightarrow> effect k (sn_walk st) (sn_walk st') es ns ns' ms \<and> kept_entries st' = kept_entries st @ zs \<and>
     take 12 (sn_bytes st') = take 12 (sn_bytes st) \<and> length (sn_bytes st') = length (sn_bytes st) \<and> sn_kept st' = sn_kept st + length zs \<and>
     ((sn_first st = None \<longleftrightarrow> sn_kept st = 0) \<longrightarrow> (sn_first st' = None \<longleftrightarrow> sn_kept st' = 0))"

lemma advance_refl: "advance k st st [] [] [] [] []"
  by (simp add: advance_def effect_refl)

lemma advance_trans:
  "advance k st st1 es1 ns1 ns1' ms1 zs1 \<Longrightarrow> advance k st1 st2 es2 ns2 ns2' ms2 zs2 \<Longrightarrow>
   advance k st st2 (es1 @ es2) (ns1 @ ns2) (ns1' @ ns2') (ms1 @ ms2) (zs1 @ zs2)"
  unfolding advance_def by (auto intro: effect_trans)

lemma advance_keep:
  assumes "effect k (sn_walk st) w es ns ns' ms" "length encoded = 12"
    "keep_entry encoded (st\<lparr>sn_previous_index := pr, sn_walk := w, sn_first := get_or_insert (sn_first st) l\<rparr>) = Ok st'"
  shows "advance k st st' es ns ns' ms [encoded]"
  using keep_entry_correct [OF assms(3,2)] assms(1)
  by (simp add: advance_def kept_entries_def get_or_insert_def split: option.split)

lemma advance_drop:
  "effect k (sn_walk st) w es ns ns' ms \<Longrightarrow> advance k st (st\<lparr>sn_previous_index := pr, sn_walk := w\<rparr>) es ns ns' ms []"
  by (simp add: advance_def kept_entries_def)

lemma min_keep:
  assumes "unat beg = ext_start e" "unat fin = k"
  shows "unat (min (saturating_sub fin beg) (ucast (len e)) :: u64) = min (k - ext_start e) (unat (len e))"
  using assms by (simp add: unat_min unat_saturating_sub)

text \<open>The cut of an extent, by how many of its blocks stay.\<close>

lemma cut_at_keep:
  assumes "0 < unat (len e)" "m = min (k - ext_start e) (unat (len e))"
  shows "cut_at k e = (if m = 0 then [] else [e\<lparr>len := word_of_nat m\<rparr>])"
proof -
  consider "ext_end e \<le> k" | "k \<le> ext_start e" "k < ext_end e" | "ext_start e < k" "k < ext_end e" by linarith
  then show ?thesis
  proof cases
    case 1
    then have "m = unat (len e)" using assms(2) by (simp add: ext_start_def ext_end_def)
    then show ?thesis using 1 assms(1) by (simp add: cut_at_def)
  next
    case 2
    then show ?thesis using assms(2) by (simp add: cut_at_def)
  next
    case 3
    then have "m = k - ext_start e" "0 < m" using assms(2) by (simp_all add: ext_start_def ext_end_def)
    then show ?thesis using 3 by (simp add: cut_at_def)
  qed
qed

lemma leaf_step:
  assumes step: "shrink_leaf_entry P encoded st = Ok st'" and l: "length encoded = 12"
  shows "\<exists>e ms zs. Extent_parse encoded = Ok e \<and> advance (unat (sp_end P)) st st' [e] [] [] ms zs \<and> length zs \<le> 1 \<and>
    all_ok Extent_parse zs = Ok (cut_at (unat (sp_end P)) e)"
proof -
  let ?k = "unat (sp_end P)" and ?w = "sn_walk st"
  obtain e where e: "Extent_parse encoded = Ok e" using step by (auto simp: shrink_leaf_entry_def outcome_simps)
  note f = Extent_parse_fields [OF e]
  define beg fin pend where d: "beg = (ucast (logical_block e) :: u64)" "fin = beg + ucast (len e)" "pend = physical_block e + ucast (len e)"
  define keep where "keep = min (saturating_sub (sp_end P) beg) (ucast (len e) :: u64)"
  define w1 where "w1 = ?w\<lparr>sw_logical_end := fin, sw_physical := sw_physical ?w @ [(physical_block e, pend)]\<rparr>"
  define ms where "ms = (if keep < ucast (len e) then [FreePhysicalRun (physical_block e + keep) (ucast (len e) - ucast keep)] else [])"
  define w2 where "w2 = w1\<lparr>sw_mutations := sw_mutations w1 @ ms\<rparr>"
  have ok: "len e \<noteq> 0" "\<not> beg < sw_logical_end ?w" "physical_block e \<noteq> 0"
    and st': "(if keep = 0 then Ok (st\<lparr>sn_walk := w2\<rparr>)
      else keep_entry (put 4 (u16_to_le (ucast keep + (if uninitialized e then EXT_INIT_MAX_LEN else 0))) encoded)
        (st\<lparr>sn_walk := w2, sn_first := get_or_insert (sn_first st) (logical_block e)\<rparr>)) = Ok st'"
    using step e unfolding shrink_leaf_entry_def Let_def d keep_def w1_def w2_def ms_def push_mutation_def
    by (simp_all split: if_splits)
  have len: "0 < unat (len e)" using ok(1) by (simp add: unat_gt_0)
  have b: "unat beg = ext_start e" by (simp add: d ext_start_def)
  have "unat beg + unat (ucast (len e) :: u64) < 2 ^ 64" using unat_u32_bound [of "logical_block e"] unat_u16_bound [of "len e"] by (simp add: d)
  then have fn: "unat fin = ext_end e" using b unfolding d by (simp add: unat_add_no_wrap ext_start_def ext_end_def)
  have m: "unat keep = min (?k - ext_start e) (unat (len e))" unfolding keep_def by (rule min_keep [OF b refl])
  have kb: "unat keep \<le> unat (len e)" using m by simp
  have uk: "(ucast keep :: u16) = word_of_nat (unat keep)" by (simp add: word_unat_eq_iff unsigned_ucast_eq unsigned_take_bit_eq unat_of_nat take_bit_eq_mod)
  have lt: "keep < ucast (len e) \<longleftrightarrow> unat keep < unat (len e)" by (simp add: word_less_nat_alt)
  have ck: "cut_at ?k e = (if keep = 0 then [] else [e\<lparr>len := word_of_nat (unat keep)\<rparr>])"
    using cut_at_keep [OF len m] by (simp add: unat_eq_zero)
  have "unat keep < 2 ^ 16" using kb unat_u16_bound [of "len e"] by simp
  then have ul: "unat (word_of_nat (unat keep) :: u16) = unat keep" by (simp only: unsigned_of_nat) (simp add: take_bit_nat_eq_self)
  have blocks: "[unat (physical_block e) ..< unat (physical_block e) + unat (len e)] = data_blocks (cut_at ?k e) @ freed_blocks ms"
  proof -
    have p: "unat (physical_block e + keep) = unat (physical_block e) + unat keep"
      using f(1) kb unat_u16_bound [of "len e"] by (subst unat_add_no_wrap) simp_all
    have "unat keep < 2 ^ 32" using kb unat_u16_bound [of "len e"] by simp
    then have "unat (ucast keep :: u32) = unat keep" by (simp add: unsigned_ucast_eq unsigned_take_bit_eq take_bit_nat_eq_self)
    then have q: "unat (ucast (len e) - ucast keep :: u32) = unat (len e) - unat keep" using kb by (simp add: unat_sub word_le_nat_alt)
    have "[unat (physical_block e) ..< unat (physical_block e) + unat (len e)] =
      [unat (physical_block e) ..< unat (physical_block e) + unat keep] @ [unat (physical_block e) + unat keep ..< unat (physical_block e) + unat (len e)]"
      using kb upt_add_eq_append [of "unat (physical_block e)" "unat (physical_block e) + unat keep" "unat (len e) - unat keep"] by simp
    also have "\<dots> = data_blocks (cut_at ?k e) @ freed_blocks ms"
      using p q ul kb lt by (auto simp: ck ms_def unat_eq_zero)
    finally show ?thesis .
  qed
  have "unat (sw_logical_end ?w) \<le> ext_start e" using ok(2) b by (simp add: not_less word_le_nat_alt)
  then have "unat (sw_logical_end ?w) \<le> ext_end e" by (rule order_trans) simp
  then have eff: "effect ?k ?w w2 [e] [] [] ms"
    using ok len f b fn blocks
    by (auto simp: effect_def w2_def w1_def data_run_def d(3) [symmetric] extents_in_def sound_extent_def not_less word_le_nat_alt tree_writes_def ms_def)
  show ?thesis
  proof (cases "keep = 0")
    case True
    then have "st' = st\<lparr>sn_previous_index := sn_previous_index st, sn_walk := w2\<rparr>" using st' by simp
    then have "advance ?k st st' [e] [] [] ms []" using advance_drop [OF eff, of "sn_previous_index st"] by simp
    then show ?thesis using e ck True by (intro exI [of _ e] exI [of _ ms] exI [of _ "[]"]) simp
  next
    case False
    let ?x = "put 4 (u16_to_le (ucast keep + (if uninitialized e then EXT_INIT_MAX_LEN else 0))) encoded"
    have ke: "keep_entry ?x (st\<lparr>sn_previous_index := sn_previous_index st, sn_walk := w2, sn_first := get_or_insert (sn_first st) (logical_block e)\<rparr>) = Ok st'"
      using st' False by simp
    have "advance ?k st st' [e] [] [] ms [?x]" using l by (intro advance_keep [OF eff _ ke]) simp
    moreover have "Extent_parse ?x = Ok (e\<lparr>len := word_of_nat (unat keep)\<rparr>)"
      unfolding uk using False kb by (intro parse_cut_entry [OF e l]) (simp_all add: unat_gt_0)
    ultimately show ?thesis using e ck False by (intro exI [of _ e] exI [of _ ms] exI [of _ "[?x]"]) simp
  qed
qed


lemma leaf_loop:
  "shrink_list (shrink_leaf_entry P) xs st = Ok st' \<Longrightarrow> \<forall>x \<in> set xs. length x = 12 \<Longrightarrow>
   \<exists>es ms zs. all_ok Extent_parse xs = Ok es \<and> advance (unat (sp_end P)) st st' es [] [] ms zs \<and> length zs \<le> length xs \<and>
     all_ok Extent_parse zs = Ok (cut_all (unat (sp_end P)) es)"
proof (induction xs arbitrary: st)
  case Nil
  then have "advance (unat (sp_end P)) st st' [] [] [] [] []" using advance_refl by simp
  then show ?case by (intro exI [of _ "[]"]) simp
next
  case (Cons x xs)
  then obtain st1 where s: "shrink_leaf_entry P x st = Ok st1" "shrink_list (shrink_leaf_entry P) xs st1 = Ok st'" by (auto simp: outcome_simps)
  obtain e ms zs where a: "Extent_parse x = Ok e" "advance (unat (sp_end P)) st st1 [e] [] [] ms zs" "length zs \<le> 1" "all_ok Extent_parse zs = Ok (cut_at (unat (sp_end P)) e)"
    using leaf_step [OF s(1)] Cons.prems(2) by auto
  obtain es ms' zs' where b: "all_ok Extent_parse xs = Ok es" "advance (unat (sp_end P)) st1 st' es [] [] ms' zs'" "length zs' \<le> length xs" "all_ok Extent_parse zs' = Ok (cut_all (unat (sp_end P)) es)"
    using Cons.IH [OF s(2)] Cons.prems(2) by auto
  have "advance (unat (sp_end P)) st st' (e # es) [] [] (ms @ ms') (zs @ zs')" using advance_trans [OF a(2) b(2)] by simp
  then show ?case using a b by (intro exI [of _ "e # es"] exI [of _ "ms @ ms'"] exI [of _ "zs @ zs'"]) (simp add: all_ok_append)
qed

section \<open>Whole nodes\<close>

text \<open>
  What the planner makes of a node at depth \<open>d\<close>: the node and its subtrees read as extents and tree blocks, the rewritten node
  reads, once the writes are on the device, as the extents cut at the new end, and the mutations account for the difference.
  The entries end before \<open>body\<close>, which leaves out the checksum of a tree block.
\<close>

definition reads_cut :: "reader \<Rightarrow> u32 \<Rightarrow> nat \<Rightarrow> bytes list \<Rightarrow> extent list \<Rightarrow> u64 list \<Rightarrow> bool" where
  "reads_cut rd bs d zs es ns \<longleftrightarrow> (case d of 0 \<Rightarrow> all_ok Extent_parse zs = Ok es \<and> ns = [] | Suc d' \<Rightarrow> walk_list rd bs d' zs = Ok (es, ns))"

definition shrunk :: "crc_fn \<Rightarrow> verify_ctx option \<Rightarrow> reader \<Rightarrow> shrink_params \<Rightarrow> nat \<Rightarrow> nat \<Rightarrow> bytes \<Rightarrow> shrink_walk \<Rightarrow> bytes \<Rightarrow> u32 option \<Rightarrow> shrink_walk \<Rightarrow> bool" where
  "shrunk crc ctx rd P d body original w out first w' \<longleftrightarrow> (\<exists>h n es ns ns' ms.
     ExtentHeader_parse original = Ok h \<and> eh_depth h = word_of_nat d \<and> walk rd (sp_block_size P) d original h = Ok (es, ns) \<and>
     effect (unat (sp_end P)) w w' es ns ns' ms \<and> length out = length original \<and> ExtentHeader_parse out = Ok (h\<lparr>eh_entries := n\<rparr>) \<and>
     entry_off (unat n) \<le> body \<and> (first = None \<longrightarrow> n = 0 \<and> cut_all (unat (sp_end P)) es = [] \<and> ns' = []) \<and>
     (\<forall>rd2. written crc ctx (sp_block_size P) rd rd2 ns ms \<longrightarrow>
        reads_cut rd2 (sp_block_size P) d (node_entries out 0 (unat n)) (cut_all (unat (sp_end P)) es) ns'))"

text \<open>A loop over the entries that advances the state as the readers read them gives a shrunk node.\<close>

lemma walk_entries:
  assumes "eh_depth h = word_of_nat d" "d < 65536" "entry_off (unat (eh_entries h)) \<le> length node"
  shows "walk rd bs d node h = Ok (es, ns) \<longleftrightarrow> reads_cut rd bs d (node_entries node 0 (unat (eh_entries h))) es ns"
proof -
  have leaf: "is_leaf h \<longleftrightarrow> d = 0" using assms(1,2) by (simp add: is_leaf_def word_unat_eq_iff unat_of_nat)
  have "entry_off (0 + unat (eh_entries h)) \<le> length node" using assms(3) by simp
  note lists = parse_entries_list [OF this] walk_children_list [OF this]
  show ?thesis
    using leaf by (cases d) (auto simp: walk.simps reads_cut_def outcome_simps lists)
qed

lemma header_fields:
  assumes "ExtentHeader_parse node = Ok h"
  shows "unat (eh_entries h) \<le> unat (eh_max h)" "12 \<le> length node"
  using assms by (auto simp: ExtentHeader_parse_def Let_def not_less word_le_nat_alt split: if_splits)

lemma shrunk_node:
  assumes node: "shrink_node_with step d original inline w = Ok (out, first, w')" and d: "d < 65536"
    and loop: "\<And>xs st st'. shrink_list step xs st = Ok st' \<Longrightarrow> \<forall>x \<in> set xs. length x = 12 \<Longrightarrow>
      \<exists>es ns ns' ms zs. reads_cut rd (sp_block_size P) d xs es ns \<and> advance (unat (sp_end P)) st st' es ns ns' ms zs \<and> length zs \<le> length xs \<and>
        (\<forall>rd2. written crc ctx (sp_block_size P) rd rd2 ns ms \<longrightarrow> reads_cut rd2 (sp_block_size P) d zs (cut_all (unat (sp_end P)) es) ns') \<and>
        (zs = [] \<longrightarrow> cut_all (unat (sp_end P)) es = [] \<and> ns' = [])"
  shows "shrunk crc ctx rd P d (length original - (if inline then 0 else 4)) original w out first w'"
proof -
  let ?body = "length original - (if inline then 0 else 4)"
  let ?st = "\<lparr>sn_bytes = original, sn_kept = 0, sn_first = None, sn_previous_index = None, sn_walk = w\<rparr>"
  obtain h st where h: "ExtentHeader_parse original = Ok h" "eh_depth h = word_of_nat d" "12 * (1 + unat (eh_max h)) \<le> ?body"
    and lp: "shrink_entries step original 0 (unat (eh_entries h)) ?st = Ok st" and fit: "4 \<le> length (sn_bytes st)"
    and res: "out = put 2 (u16_to_le (word_of_nat (sn_kept st))) (sn_bytes st)" "first = sn_first st" "w' = sn_walk st"
    using node by (auto simp: shrink_node_with_def Let_def outcome_simps split: if_splits)
  note hf = header_fields [OF h(1)]
  have room: "entry_off (unat (eh_entries h)) \<le> ?body" using h(3) hf(1) by (simp add: entry_off_def)
  have inb: "entry_off (0 + unat (eh_entries h)) \<le> length original" using order_trans [OF room, of "length original"] by simp
  let ?xs = "node_entries original 0 (unat (eh_entries h))"
  have sl: "shrink_list step ?xs ?st = Ok st" using lp shrink_entries_list [OF inb] by simp
  obtain es ns ns' ms zs where L: "reads_cut rd (sp_block_size P) d ?xs es ns" "advance (unat (sp_end P)) ?st st es ns ns' ms zs" "length zs \<le> length ?xs"
    "\<forall>rd2. written crc ctx (sp_block_size P) rd rd2 ns ms \<longrightarrow> reads_cut rd2 (sp_block_size P) d zs (cut_all (unat (sp_end P)) es) ns'"
    "zs = [] \<longrightarrow> cut_all (unat (sp_end P)) es = [] \<and> ns' = []"
    using loop [OF sl] node_entries_size [OF _ inb] by blast
  have A: "effect (unat (sp_end P)) w w' es ns ns' ms" "kept_entries st = zs" "take 12 (sn_bytes st) = take 12 original" "length (sn_bytes st) = length original"
    "sn_kept st = length zs" "sn_first st = None \<longleftrightarrow> length zs = 0"
    using L(2) by (auto simp: advance_def kept_entries_def res(3))
  let ?n = "word_of_nat (length zs) :: u16"
  have kle: "length zs \<le> unat (eh_entries h)" using L(3) by simp
  then have n: "unat ?n = length zs" using unat_u16_bound [of "eh_entries h"] by (simp add: unat_of_nat)
  have out: "out = put 2 (u16_to_le ?n) (sn_bytes st)" "length out = length original" using res(1) A(4,5) fit by simp_all
  have pre: "slice i j (sn_bytes st) = slice i j original" if "j \<le> 12" for i j using slice_take_eq [OF A(3) that] .
  have "?n \<le> eh_max h" using n kle hf(1) by (simp add: word_le_nat_alt)
  then have hp: "ExtentHeader_parse out = Ok (h\<lparr>eh_entries := ?n\<rparr>)"
    using h(1) hf(2) A(4) fit unfolding out(1)
    by (auto simp: ExtentHeader_parse_def Let_def codec_simps get_field_defs slice_simps pre not_less split: if_splits)
  have "node_entries out 0 (length zs) = zs"
  proof -
    have "slice (entry_off j) (entry_off j + 12) out = slice (entry_off j) (entry_off j + 12) (sn_bytes st)" for j
      unfolding out(1) using fit by (intro slice_put_after) (simp_all add: entry_off_def)
    then show ?thesis using A(2,5) by (simp add: node_entries_def kept_entries_def)
  qed
  moreover have "entry_off (length zs) \<le> ?body" using order_trans [OF _ room, of "entry_off (length zs)"] kle by (simp add: entry_off_def)
  moreover have "walk rd (sp_block_size P) d original h = Ok (es, ns)" using L(1) walk_entries [OF h(2) d] inb by simp
  moreover have "first = None \<longrightarrow> ?n = 0 \<and> cut_all (unat (sp_end P)) es = [] \<and> ns' = []" using A(6) L(5) res(2) by simp
  ultimately show ?thesis
    unfolding shrunk_def using h(1,2) A(1) out(2) hp L(4) n
    by (intro exI [of _ h] exI [of _ ?n] exI [of _ es] exI [of _ ns] exI [of _ ns'] exI [of _ ms]) simp
qed


lemma stamp_prefix: "take (length node - 4) (stamp crc ctx node) = take (length node - 4) node"
  by (rule stamp_cases [of crc ctx node]) (auto simp: put_def)

lemma leaf_cut_loop:
  assumes "shrink_list (shrink_leaf_entry P) xs st = Ok st'" "\<forall>x \<in> set xs. length x = 12"
  shows "\<exists>es ns ns' ms zs. reads_cut rd (sp_block_size P) 0 xs es ns \<and> advance (unat (sp_end P)) st st' es ns ns' ms zs \<and> length zs \<le> length xs \<and>
    (\<forall>rd2. written crc ctx (sp_block_size P) rd rd2 ns ms \<longrightarrow> reads_cut rd2 (sp_block_size P) 0 zs (cut_all (unat (sp_end P)) es) ns') \<and>
    (zs = [] \<longrightarrow> cut_all (unat (sp_end P)) es = [] \<and> ns' = [])"
proof -
  obtain es ms zs where "all_ok Extent_parse xs = Ok es" "advance (unat (sp_end P)) st st' es [] [] ms zs" "length zs \<le> length xs"
    "all_ok Extent_parse zs = Ok (cut_all (unat (sp_end P)) es)"
    using leaf_loop [OF assms] by blast
  then show ?thesis by (intro exI [of _ es] exI [of _ "[]"] exI [of _ ms] exI [of _ zs]) (auto simp: reads_cut_def)
qed

text \<open>Tree blocks have 48-bit numbers and blocks at most 65536 bytes, so their offsets do not wrap.\<close>

lemma child_offset_ok:
  assumes "unat b < 2 ^ 48" "bs \<le> 65536"
  shows "child_offset b bs = Some (b * ucast bs)"
proof -
  have "unat bs \<le> 2 ^ 16" using assms(2) by (simp add: word_le_nat_alt)
  then have "unat b * unat bs \<le> unat b * 2 ^ 16" by simp
  also have "\<dots> < 2 ^ 48 * 2 ^ 16" using assms(1) by simp
  finally have "unat b * unat bs < 2 ^ 64" by (simp add: power_add [symmetric])
  then show ?thesis by (simp add: child_offset_def checked_mul_def)
qed

text \<open>The closure that reads tree blocks returns what the device holds.\<close>

definition reads_device :: "(u64 \<Rightarrow> bytes result) \<Rightarrow> reader \<Rightarrow> u32 \<Rightarrow> bool" where
  "reads_device read rd bs \<longleftrightarrow> (\<forall>b node. read b = Ok node \<and> length node = unat bs \<longrightarrow> rd (b * ucast bs) (unat bs) = Ok node)"

lemma index_step:
  assumes step: "shrink_index_entry P read visit encoded st = Ok st'" and l: "length encoded = 12" and d: "d < 65535"
    and dev: "reads_device read rd (sp_block_size P)" and bs: "sp_block_size P \<le> 65536"
    and visit: "\<And>node w out first w'. visit node w = Ok (out, first, w') \<Longrightarrow> shrunk crc ctx rd P d (length node - 4) node w out first w'"
  shows "\<exists>es ns ns' ms zs. walk_list rd (sp_block_size P) d [encoded] = Ok (es, ns) \<and> advance (unat (sp_end P)) st st' es ns ns' ms zs \<and> length zs \<le> 1 \<and>
    (\<forall>rd2. written crc ctx (sp_block_size P) rd rd2 ns ms \<longrightarrow> walk_list rd2 (sp_block_size P) d zs = Ok (cut_all (unat (sp_end P)) es, ns')) \<and>
    (zs = [] \<longrightarrow> cut_all (unat (sp_end P)) es = [] \<and> ns' = [])"
proof -
  let ?k = "unat (sp_end P)" and ?bs = "sp_block_size P" and ?w = "sn_walk st"
  obtain c where c: "ExtentIdx_parse encoded = Ok c" using step by (auto simp: shrink_index_entry_def outcome_simps)
  let ?b = "leaf_block c"
  define w1 where "w1 = ?w\<lparr>sw_visited := insert ?b (sw_visited ?w), sw_physical := sw_physical ?w @ [(?b, ?b + 1)]\<rparr>"
  define fin where "fin = (\<lambda>node (out, first, w2). case first of
      None \<Rightarrow> (Ok (st\<lparr>sn_previous_index := Some (ei_block c), sn_walk := push_mutation (FreePhysicalRun ?b 1) w2\<rparr>) :: shrink_node_state result)
    | Some cf \<Rightarrow> keep_entry (put 0 (u32_to_le cf) encoded) (st\<lparr>sn_previous_index := Some (ei_block c),
        sn_walk := (if out \<noteq> node then push_mutation (WriteTreeBlock ?b out) w2 else w2), sn_first := get_or_insert (sn_first (st\<lparr>sn_previous_index := Some (ei_block c)\<rparr>)) cf\<rparr>))"
  have "and_then (read ?b) (\<lambda>node. if length node \<noteq> unat ?bs then Err (CorruptExtentTree ''short extent node read'')
      else and_then (ExtentHeader_parse node) (\<lambda>hc. if eh_entries hc = 0 \<or> get_le32 12 node \<noteq> ei_block c
        then Err (CorruptExtentTree ''extent index does not match its child'') else and_then (visit node w1) (fin node))) = Ok st'"
    and fresh: "?b \<notin> sw_visited ?w"
    using step c unfolding shrink_index_entry_def Let_def w1_def fin_def by (simp_all split: if_splits)
  then obtain node hc out first w2 where rd: "read ?b = Ok node" "length node = unat ?bs" "ExtentHeader_parse node = Ok hc"
    and v: "visit node w1 = Ok (out, first, w2)" and f: "fin node (out, first, w2) = Ok st'"
    by (auto simp: outcome_simps split: if_splits)
  note st' = f [unfolded fin_def prod.case]
  obtain h n es ns ns' ms where S: "ExtentHeader_parse node = Ok h" "eh_depth h = word_of_nat d" "walk rd ?bs d node h = Ok (es, ns)"
    "effect ?k w1 w2 es ns ns' ms" "length out = length node" "ExtentHeader_parse out = Ok (h\<lparr>eh_entries := n\<rparr>)" "entry_off (unat n) \<le> length node - 4"
    "first = None \<longrightarrow> n = 0 \<and> cut_all ?k es = [] \<and> ns' = []"
    "\<forall>rd2. written crc ctx ?bs rd rd2 ns ms \<longrightarrow> reads_cut rd2 ?bs d (node_entries out 0 (unat n)) (cut_all ?k es) ns'"
    using visit [OF v] unfolding shrunk_def by blast
  have b48: "unat ?b < 2 ^ 48" by (rule ExtentIdx_parse_fields [OF c])
  have co: "child_offset ?b ?bs = Some (?b * ucast ?bs)" by (rule child_offset_ok [OF b48 bs])
  have dr: "rd (?b * ucast ?bs) (unat ?bs) = Ok node" using dev rd(1,2) by (simp add: reads_device_def)
  have walk: "walk_list rd ?bs d [encoded] = Ok (es, ?b # ns)" using c co dr S(1,3) by simp
  have fr: "?b \<notin> set ns" using S(4) by (auto simp: effect_def w1_def)
  show ?thesis
  proof (cases first)
    case None
    let ?ms = "ms @ [FreePhysicalRun ?b 1]"
    have z: "cut_all ?k es = []" "ns' = []" using S(8) None by auto
    have eff: "effect ?k ?w (push_mutation (FreePhysicalRun ?b 1) w2) es (?b # ns) [] ?ms"
      using S(4) fresh fr b48 z by (auto simp: effect_def w1_def push_mutation_def node_run_def add_ac)
    have "st' = st\<lparr>sn_previous_index := Some (ei_block c), sn_walk := push_mutation (FreePhysicalRun ?b 1) w2\<rparr>" using st' None by simp
    then have "advance ?k st st' es (?b # ns) [] ?ms []" using advance_drop [OF eff] by simp
    then show ?thesis using walk z by (intro exI [of _ es] exI [of _ "?b # ns"] exI [of _ "[]"] exI [of _ ?ms]) simp
  next
    case (Some cf)
    let ?own = "if out \<noteq> node then [WriteTreeBlock ?b out] else []" and ?x = "put 0 (u32_to_le cf) encoded"
    let ?w3 = "if out \<noteq> node then push_mutation (WriteTreeBlock ?b out) w2 else w2"
    have eff: "effect ?k ?w ?w3 es (?b # ns) (?b # ns') (ms @ ?own)"
      using S(4) fresh fr b48 by (auto simp: effect_def w1_def push_mutation_def node_run_def add_ac)
    have ke: "keep_entry ?x (st\<lparr>sn_previous_index := Some (ei_block c), sn_walk := ?w3, sn_first := get_or_insert (sn_first st) cf\<rparr>) = Ok st'"
      using st' Some by simp
    have adv: "advance ?k st st' es (?b # ns) (?b # ns') (ms @ ?own) [?x]" using l by (intro advance_keep [OF eff _ ke]) simp
    have px: "ExtentIdx_parse ?x = Ok (c\<lparr>ei_block := cf\<rparr>)" by (rule parse_moved_index [OF c l])
    have "walk_list rd2 ?bs d [?x] = Ok (cut_all ?k es, ?b # ns')" if wr: "written crc ctx ?bs rd rd2 (?b # ns) (ms @ ?own)" for rd2
    proof -
      have dom: "fst ` set (tree_writes ms) \<subseteq> set ns" using S(4) by (simp add: effect_def)
      have m1: "map_of (tree_writes (ms @ ?own)) b = map_of (tree_writes ms) b" if "b \<in> set ns" for b
        using that fr by (auto simp: map_add_def split: option.split)
      have m2: "map_of (tree_writes ms) ?b = None" using dom fr by (auto simp: map_of_eq_None_iff)
      have "written crc ctx ?bs rd rd2 ns ms" using wr m1 by (simp add: written_def)
      then have cut: "reads_cut rd2 ?bs d (node_entries out 0 (unat n)) (cut_all ?k es) ns'" using S(9) by blast
      obtain buf where buf: "rd2 (?b * ucast ?bs) (unat ?bs) = Ok buf" "buf = stamp crc ctx out \<or> buf = out"
        using wr m2 dr by (auto simp: written_def map_add_def split: if_splits)
      have same: "take (length node - 4) buf = take (length node - 4) out" "length buf = length out" using buf(2) stamp_prefix [of out crc ctx] S(5) by auto
      have "12 \<le> length node - 4" using S(7) by (simp add: entry_off_def)
      then have hb: "ExtentHeader_parse buf = Ok (h\<lparr>eh_entries := n\<rparr>)" using header_take [OF same(1) _ same(2)] S(6) by simp
      have "node_entries buf 0 (unat n) = node_entries out 0 (unat n)" using S(7) by (intro node_entries_take [OF same(1)]) simp
      moreover have "entry_off (unat n) \<le> length buf" using S(5,7) same(2) by simp
      ultimately have "walk rd2 ?bs d buf (h\<lparr>eh_entries := n\<rparr>) = Ok (cut_all ?k es, ns')"
        using walk_entries [of "h\<lparr>eh_entries := n\<rparr>" d buf] S(2) d cut by simp
      then show ?thesis using px co buf(1) hb by simp
    qed
    then show ?thesis using walk adv by (intro exI [of _ es] exI [of _ "?b # ns"] exI [of _ "?b # ns'"] exI [of _ "ms @ ?own"] exI [of _ "[?x]"]) simp
  qed
qed


lemma index_loop:
  assumes d: "d < 65535" and dev: "reads_device read rd (sp_block_size P)" and bs: "sp_block_size P \<le> 65536"
    and visit: "\<And>node w out first w'. visit node w = Ok (out, first, w') \<Longrightarrow> shrunk crc ctx rd P d (length node - 4) node w out first w'"
  shows "shrink_list (shrink_index_entry P read visit) xs st = Ok st' \<Longrightarrow> \<forall>x \<in> set xs. length x = 12 \<Longrightarrow>
    \<exists>es ns ns' ms zs. walk_list rd (sp_block_size P) d xs = Ok (es, ns) \<and> advance (unat (sp_end P)) st st' es ns ns' ms zs \<and> length zs \<le> length xs \<and>
    (\<forall>rd2. written crc ctx (sp_block_size P) rd rd2 ns ms \<longrightarrow> walk_list rd2 (sp_block_size P) d zs = Ok (cut_all (unat (sp_end P)) es, ns')) \<and>
    (zs = [] \<longrightarrow> cut_all (unat (sp_end P)) es = [] \<and> ns' = [])"
proof (induction xs arbitrary: st)
  case Nil
  then have "advance (unat (sp_end P)) st st' [] [] [] [] []" using advance_refl by simp
  then show ?case by (intro exI [of _ "[]"]) simp
next
  case (Cons x xs)
  let ?k = "unat (sp_end P)" and ?bs = "sp_block_size P"
  obtain st1 where s: "shrink_index_entry P read visit x st = Ok st1" "shrink_list (shrink_index_entry P read visit) xs st1 = Ok st'"
    using Cons.prems(1) by (auto simp: outcome_simps)
  have l: "length x = 12" using Cons.prems(2) by simp
  obtain es ns ns' ms zs where a: "walk_list rd ?bs d [x] = Ok (es, ns)" "advance ?k st st1 es ns ns' ms zs" "length zs \<le> 1"
    "\<forall>rd2. written crc ctx ?bs rd rd2 ns ms \<longrightarrow> walk_list rd2 ?bs d zs = Ok (cut_all ?k es, ns')" "zs = [] \<longrightarrow> cut_all ?k es = [] \<and> ns' = []"
    using index_step [OF s(1) l d dev bs visit] by blast
  obtain fs ls ls' ms' zs' where b: "walk_list rd ?bs d xs = Ok (fs, ls)" "advance ?k st1 st' fs ls ls' ms' zs'" "length zs' \<le> length xs"
    "\<forall>rd2. written crc ctx ?bs rd rd2 ls ms' \<longrightarrow> walk_list rd2 ?bs d zs' = Ok (cut_all ?k fs, ls')" "zs' = [] \<longrightarrow> cut_all ?k fs = [] \<and> ls' = []"
    using Cons.IH [OF s(2)] Cons.prems(2) by auto
  have adv: "advance ?k st st' (es @ fs) (ns @ ls) (ns' @ ls') (ms @ ms') (zs @ zs')" by (rule advance_trans [OF a(2) b(2)])
  have walk: "walk_list rd ?bs d (x # xs) = Ok (es @ fs, ns @ ls)" using walk_list_append [OF a(1) b(1)] by simp
  have eff: "effect ?k (sn_walk st) (sn_walk st1) es ns ns' ms" "effect ?k (sn_walk st1) (sn_walk st') fs ls ls' ms'"
    using a(2) b(2) by (simp_all add: advance_def)
  have "walk_list rd2 ?bs d (zs @ zs') = Ok (cut_all ?k (es @ fs), ns' @ ls')" if "written crc ctx ?bs rd rd2 (ns @ ls) (ms @ ms')" for rd2
    using walk_list_append [of rd2 ?bs d zs "cut_all ?k es" ns' zs' "cut_all ?k fs" ls'] a(4) b(4) written_append [OF that eff] by simp
  then show ?case using walk adv a(3,5) b(3,5)
    by (intro exI [of _ "es @ fs"] exI [of _ "ns @ ls"] exI [of _ "ns' @ ls'"] exI [of _ "ms @ ms'"] exI [of _ "zs @ zs'"]) simp
qed

lemma shrink_node_shrunk:
  assumes "reads_device read rd (sp_block_size P)" "sp_block_size P \<le> 65536"
  shows "shrink_node P read d original inline w = Ok (out, first, w') \<Longrightarrow> d < 65535 \<Longrightarrow>
    shrunk crc ctx rd P d (length original - (if inline then 0 else 4)) original w out first w'"
proof (induction d arbitrary: original inline w out first w')
  case 0
  show ?case
    by (rule shrunk_node [OF 0(1) [unfolded shrink_node.simps] _ leaf_cut_loop]) simp_all
next
  case (Suc d)
  have visit: "shrunk crc ctx rd P d (length node - 4) node w out first w'" if "shrink_node P read d node False w = Ok (out, first, w')" for node w out first w'
    using Suc.IH [OF that] Suc.prems(2) by simp
  show ?case
  proof (rule shrunk_node [OF Suc.prems(1) [unfolded shrink_node.simps]])
    show "Suc d < 65536" using Suc.prems(2) by simp
  next
    fix xs st st'
    assume "shrink_list (shrink_index_entry P read (\<lambda>node w. shrink_node P read d node False w)) xs st = Ok st'" "\<forall>x \<in> set xs. length x = 12"
    from index_loop [OF _ assms visit this] Suc.prems(2)
    show "\<exists>es ns ns' ms zs. reads_cut rd (sp_block_size P) (Suc d) xs es ns \<and> advance (unat (sp_end P)) st st' es ns ns' ms zs \<and> length zs \<le> length xs \<and>
        (\<forall>rd2. written crc ctx (sp_block_size P) rd rd2 ns ms \<longrightarrow> reads_cut rd2 (sp_block_size P) (Suc d) zs (cut_all (unat (sp_end P)) es) ns') \<and>
        (zs = [] \<longrightarrow> cut_all (unat (sp_end P)) es = [] \<and> ns' = [])"
      by (simp add: reads_cut_def)
  qed
qed

section \<open>Disjoint runs\<close>

definition range_blocks :: "u64 \<times> u64 \<Rightarrow> nat list" where
  "range_blocks r = [unat (fst r) ..< unat (snd r)]"

lemma sorted_runs_distinct:
  assumes "sorted rs" "\<not> overlapping_pair rs" "\<forall>r \<in> set rs. fst r < snd r"
  shows "distinct (concat (map range_blocks rs)) \<and> (\<forall>r \<in> set (tl rs). unat (snd (hd rs)) \<le> unat (fst r))"
  using assms
proof (induction rs rule: overlapping_pair.induct)
  case (1 a b rs)
  then have IH: "distinct (concat (map range_blocks (b # rs)))" "\<forall>r \<in> set rs. unat (snd b) \<le> unat (fst r)"
    and ab: "unat (snd a) \<le> unat (fst b)" "unat (fst b) < unat (snd b)" by (auto simp: not_less word_le_nat_alt word_less_nat_alt)
  have far: "unat (snd a) \<le> unat (fst r)" if "r \<in> set (b # rs)" for r
    using that IH(2) ab by (auto intro: order_trans)
  have "set (range_blocks a) \<inter> set (concat (map range_blocks (b # rs))) = {}"
  proof (rule equals0I)
    fix x assume x: "x \<in> set (range_blocks a) \<inter> set (concat (map range_blocks (b # rs)))"
    then obtain r where r: "r \<in> set (b # rs)" "x \<in> set (range_blocks r)" unfolding set_concat set_map by blast
    then have "unat (fst r) \<le> x" "x < unat (snd a)" using x by (auto simp: range_blocks_def)
    then show False using far [OF r(1)] by linarith
  qed
  moreover have "distinct (range_blocks a)" by (simp add: range_blocks_def)
  ultimately show ?case using IH(1) far by simp
qed (simp_all add: range_blocks_def)

lemma runs_distinct:
  assumes "mset rs = mset qs" "\<not> overlapping_pair (sort qs)" "\<forall>r \<in> set rs. fst r < snd r"
  shows "distinct (concat (map range_blocks rs))"
proof -
  have m: "mset (sort qs) = mset rs" using assms(1) by simp
  then have "\<forall>r \<in> set (sort qs). fst r < snd r" using assms(3) mset_eq_setD by metis
  then have "distinct (concat (map range_blocks (sort qs)))" using sorted_runs_distinct [of "sort qs"] assms(2) by simp
  moreover have "mset (concat (map range_blocks (sort qs))) = mset (concat (map range_blocks rs))"
  proof -
    have "image_mset (\<lambda>r. mset (range_blocks r)) (mset (sort qs)) = image_mset (\<lambda>r. mset (range_blocks r)) (mset rs)" using m by simp
    then have "sum_mset (mset (map (\<lambda>r. mset (range_blocks r)) (sort qs))) = sum_mset (mset (map (\<lambda>r. mset (range_blocks r)) rs))" by simp
    then show ?thesis by (simp only: mset_concat map_map comp_def sum_mset_sum_list)
  qed
  ultimately show ?thesis using mset_eq_imp_distinct_iff by blast
qed


section \<open>The planner never panics\<close>

text \<open>With room for the entries still to come, no step of the loop writes outside the node.\<close>

definition room :: "nat \<Rightarrow> shrink_node_state \<Rightarrow> bool" where
  "room n st \<longleftrightarrow> 12 * (1 + sn_kept st + n) \<le> length (sn_bytes st)"

definition fine :: "nat \<Rightarrow> shrink_node_state result \<Rightarrow> bool" where
  "fine n r \<longleftrightarrow> r \<noteq> Panic \<and> (\<forall>st. r = Ok st \<longrightarrow> room n st)"

definition steady :: "(bytes \<Rightarrow> shrink_node_state \<Rightarrow> shrink_node_state result) \<Rightarrow> bool" where
  "steady step \<longleftrightarrow> (\<forall>x st n. length x = 12 \<longrightarrow> room (Suc n) st \<longrightarrow> fine n (step x st))"

lemma fine_intros:
  "fine n (Err e)" "room n st \<Longrightarrow> fine n (Ok st)" "fine n a \<Longrightarrow> fine n b \<Longrightarrow> fine n (if c then a else b)"
  "m \<noteq> Panic \<Longrightarrow> (\<And>v. fine n (f v)) \<Longrightarrow> fine n (and_then m f)" "fine n a \<Longrightarrow> (\<And>v. fine n (g v)) \<Longrightarrow> fine n (case z of None \<Rightarrow> a | Some v \<Rightarrow> g v)"
  "length x = 12 \<Longrightarrow> room (Suc n) st \<Longrightarrow> fine n (keep_entry x st)"
  by (auto simp: fine_def keep_entry_def room_def put_checked_def outcome_simps split: option.split)

lemma leaf_steady: "steady (shrink_leaf_entry P)"
  unfolding steady_def shrink_leaf_entry_def Let_def
  by (intro allI impI fine_intros) (simp_all add: room_def)

lemma index_steady:
  assumes "\<And>b. read b \<noteq> Panic" "\<And>node w. visit node w \<noteq> Panic"
  shows "steady (shrink_index_entry P read visit)"
  unfolding steady_def shrink_index_entry_def Let_def case_prod_beta
  by (intro allI impI fine_intros assms) (simp_all add: room_def)

lemma steady_loop:
  "steady step \<Longrightarrow> \<forall>x \<in> set xs. length x = 12 \<Longrightarrow> room (length xs) st \<Longrightarrow>
   shrink_list step xs st \<noteq> Panic \<and> (\<forall>st'. shrink_list step xs st = Ok st' \<longrightarrow> room 0 st')"
proof (induction xs arbitrary: st)
  case (Cons x xs)
  then have s: "step x st \<noteq> Panic" "\<And>st1. step x st = Ok st1 \<Longrightarrow> room (length xs) st1" by (auto simp: steady_def fine_def)
  show ?case
  proof (cases "step x st")
    case (Ok st1)
    then show ?thesis using Cons.IH [OF Cons.prems(1) _ s(2) [OF Ok]] Cons.prems(2) by simp
  qed (use s in simp_all)
qed simp

lemma steady_node: "steady step \<Longrightarrow> shrink_node_with step d original inline w \<noteq> Panic"
proof
  assume st: "steady step" and p: "shrink_node_with step d original inline w = Panic"
  let ?st = "\<lparr>sn_bytes = original, sn_kept = 0, sn_first = None, sn_previous_index = None, sn_walk = w\<rparr>"
  obtain h where h: "ExtentHeader_parse original = Ok h" "12 * (1 + unat (eh_max h)) \<le> length original - (if inline then 0 else 4)"
    and bad: "shrink_entries step original 0 (unat (eh_entries h)) ?st = Panic \<or>
      (\<exists>st'. shrink_entries step original 0 (unat (eh_entries h)) ?st = Ok st' \<and> length (sn_bytes st') < 4)"
    using p by (auto simp: shrink_node_with_def Let_def outcome_simps put_checked_def not_le split: if_splits)
  have "12 * (1 + unat (eh_entries h)) \<le> 12 * (1 + unat (eh_max h))" using header_fields(1) [OF h(1)] by simp
  also have "\<dots> \<le> length original" using h(2) by (rule order_trans) simp
  finally have "12 * (1 + unat (eh_entries h)) \<le> length original" .
  then have inb: "entry_off (0 + unat (eh_entries h)) \<le> length original" and r: "room (unat (eh_entries h)) ?st" by (simp_all add: entry_off_def room_def)
  let ?xs = "node_entries original 0 (unat (eh_entries h))"
  have "shrink_list step ?xs ?st \<noteq> Panic \<and> (\<forall>st'. shrink_list step ?xs ?st = Ok st' \<longrightarrow> room 0 st')"
    using node_entries_size [OF _ inb] r by (intro steady_loop [OF st]) simp_all
  then show False using bad shrink_entries_list [OF inb] by (auto simp: room_def)
qed

lemma shrink_node_no_panic: "(\<And>b. read b \<noteq> Panic) \<Longrightarrow> shrink_node P read d original inline w \<noteq> Panic"
proof (induction d arbitrary: original inline w)
  case 0
  show ?case using steady_node [OF leaf_steady] by simp
next
  case (Suc d)
  show ?case unfolding shrink_node.simps by (intro steady_node index_steady Suc)
qed


section \<open>Shrinking a tree\<close>

lemma ranges_as_blocks:
  assumes "\<forall>e \<in> set es. sound_extent e" "\<forall>b \<in> set ns. unat b < 2 ^ 48"
  shows "concat (map range_blocks (map data_run es @ map node_run ns)) = data_blocks es @ map unat ns"
    "\<forall>r \<in> set (map data_run es @ map node_run ns). fst r < snd r"
proof -
  have e: "unat (physical_block e + ucast (len e)) = unat (physical_block e) + unat (len e)" if "sound_extent e" for e
    using that unat_u16_bound [of "len e"] by (subst unat_add_no_wrap) (simp_all add: sound_extent_def)
  have n: "unat (b + 1) = Suc (unat b)" if "unat b < 2 ^ 48" for b :: u64 using that by (subst unat_add_no_wrap) simp_all
  have "concat (map range_blocks (map data_run es)) = data_blocks es" using assms(1) e by (induction es) (simp_all add: range_blocks_def data_run_def)
  moreover have "concat (map range_blocks (map node_run ns)) = map unat ns" using assms(2) n by (induction ns) (simp_all add: range_blocks_def node_run_def)
  ultimately show "concat (map range_blocks (map data_run es @ map node_run ns)) = data_blocks es @ map unat ns" by simp
  show "\<forall>r \<in> set (map data_run es @ map node_run ns). fst r < snd r"
    using assms e n by (auto simp: data_run_def node_run_def word_less_nat_alt sound_extent_def)
qed

text \<open>
  C4. Shrinking a file whatever the depth of its extent tree: a plan that is accepted starts with the new root, and for the tree it
  starts from and the one it leaves on the device it holds that the old extents are sorted and disjoint and no block, of data or
  of the tree, is referred to twice; once the planned tree writes are on the device the new tree reads as exactly the old extents
  cut at the new end; and the freed blocks are exactly those the new tree no longer refers to, each freed once. The planner
  never panics when its reader does not.
\<close>

theorem plan_truncate_shrink_deep_correct:
  assumes "reads_device read rd block_size" "\<And>b. read b \<noteq> Panic"
  shows "case plan_truncate_shrink_deep old new root block_size blocks_count read of
     Ok (sc, ms) \<Rightarrow> new \<le> old \<and> sc = \<lparr>old_size = old, new_size = new\<rparr> \<and>
       (\<exists>root' ms' es ns ns'. ms = WriteRoot root' # ms' \<and> length root' = 60 \<and>
          collect_all_with_nodes root rd block_size = Ok (es, ns) \<and>
          sorted_wrt (\<lambda>a b. ext_end a \<le> ext_start b) es \<and> distinct (data_blocks es @ map unat ns) \<and>
          mset (data_blocks es @ map unat ns) = mset (data_blocks (cut_all (new_end new block_size) es) @ map unat ns') + mset (freed_blocks ms') \<and>
          (\<forall>rd2. written crc ctx block_size rd rd2 ns ms' \<longrightarrow>
             collect_all_with_nodes root' rd2 block_size = Ok (cut_all (new_end new block_size) es, ns')))
   | Err e \<Rightarrow> True
   | Panic \<Rightarrow> False"
proof (cases "plan_truncate_shrink_deep old new root block_size blocks_count read")
  case Panic
  have np: "shrink_node P read d root True w \<noteq> Panic" for P d w by (rule shrink_node_no_panic [OF assms(2)])
  from Panic obtain h P b w where "ExtentHeader_parse root = Ok h" "length root = 60"
    "shrink_node P read (unat (eh_depth h)) root True \<lparr>sw_visited = {}, sw_physical = [], sw_logical_end = 0, sw_mutations = []\<rparr> = Ok (b, None, w)" "length b < 8"
    "sp_block_size P = block_size" "block_size \<le> 65536" "eh_depth h \<le> EXT4_EXT_MAX_DEPTH"
    using np by (auto simp: plan_truncate_shrink_deep_def Let_def outcome_simps put_checked_def not_less not_le split: if_splits)
  moreover from this have "unat (eh_depth h) < 65535" by (simp add: EXT4_EXT_MAX_DEPTH_def word_le_nat_alt)
  ultimately have "length b = 60" using shrink_node_shrunk [of read rd P "unat (eh_depth h)" root True _ b None w] assms(1) unfolding shrunk_def by metis
  then show ?thesis using \<open>length b < 8\<close> by simp
next
  case (Ok r)
  obtain sc ms where r: "r = (sc, ms)" by force
  define P where "P = \<lparr>sp_end = div_ceil new (ucast block_size), sp_block_size = block_size, sp_blocks_count = blocks_count\<rparr>"
  let ?w0 = "\<lparr>sw_visited = {}, sw_physical = [], sw_logical_end = 0, sw_mutations = []\<rparr>"
  obtain h b first w root' where g: "new \<le> old" "1024 \<le> block_size" "block_size \<le> 65536" "ExtentHeader_parse root = Ok h" "length root = 60" "eh_depth h \<le> EXT4_EXT_MAX_DEPTH"
    and nd: "shrink_node P read (unat (eh_depth h)) root True ?w0 = Ok (b, first, w)"
    and rt: "(if first = None then put_checked 6 (u16_to_le 0) b else Ok b :: bytes result) = Ok root'" and ov: "\<not> overlapping_pair (sort (sw_physical w))"
    and res: "sc = \<lparr>old_size = old, new_size = new\<rparr>" "ms = WriteRoot root' # sw_mutations w"
    using Ok r unfolding plan_truncate_shrink_deep_def Let_def P_def [symmetric] by (auto simp: outcome_simps not_less split: if_splits)
  have bs0: "block_size \<noteq> 0" using g(2) by auto
  have k: "unat (sp_end P) = new_end new block_size" "sp_block_size P = block_size" using unat_new_end [OF bs0] by (simp_all add: P_def)
  have d: "unat (eh_depth h) < 65535" using g(6) by (simp add: EXT4_EXT_MAX_DEPTH_def word_le_nat_alt)
  have "shrunk crc ctx rd P (unat (eh_depth h)) (length root) root ?w0 b first w"
    using shrink_node_shrunk [OF _ _ nd d, of rd crc ctx] assms(1) g(3) k(2) by simp
  then obtain n es ns ns' ms' where S: "walk rd block_size (unat (eh_depth h)) root h = Ok (es, ns)"
    "effect (new_end new block_size) ?w0 w es ns ns' ms'" "length b = length root" "ExtentHeader_parse b = Ok (h\<lparr>eh_entries := n\<rparr>)" "entry_off (unat n) \<le> length root"
    "first = None \<longrightarrow> n = 0 \<and> cut_all (new_end new block_size) es = [] \<and> ns' = []"
    "\<forall>rd2. written crc ctx block_size rd rd2 ns ms' \<longrightarrow>
       reads_cut rd2 block_size (unat (eh_depth h)) (node_entries b 0 (unat n)) (cut_all (new_end new block_size) es) ns'"
    using g(4) unfolding shrunk_def k by auto
  have E: "sw_mutations w = ms'" "mset (map data_run es @ map node_run ns) = mset (sw_physical w)" "\<forall>e \<in> set es. sound_extent e" "\<forall>b \<in> set ns. unat b < 2 ^ 48"
    "sorted_wrt (\<lambda>a b. ext_end a \<le> ext_start b) es"
    using S(2) by (auto simp: effect_def extents_in_def)
  note runs = ranges_as_blocks [OF E(3,4)]
  have dis: "distinct (data_blocks es @ map unat ns)" using runs_distinct [OF E(2) ov runs(2)] unfolding runs(1) .
  have len: "length root' = 60" using rt S(3) g(5) by (auto simp: put_checked_def split: if_splits)
  have "collect_all_with_nodes root' rd2 block_size = Ok (cut_all (new_end new block_size) es, ns')" if "written crc ctx block_size rd rd2 ns ms'" for rd2
  proof (cases first)
    case None
    then have root': "root' = put 6 (u16_to_le 0) b" and z: "n = 0" "cut_all (new_end new block_size) es = []" "ns' = []"
      using rt S(6) by (auto simp: put_checked_def split: if_splits)
    have "ExtentHeader_parse root' = Ok (h\<lparr>eh_entries := n, eh_depth := 0\<rparr>)"
      using S(3,4) g(5) unfolding root' by (cases h) (auto simp: ExtentHeader_parse_def Let_def codec_simps split: if_splits)
    then show ?thesis using z by (simp add: collect_all_with_nodes_def walk.simps is_leaf_def EXT4_EXT_MAX_DEPTH_def)
  next
    case (Some f)
    then have root': "root' = b" using rt by simp
    have "walk rd2 block_size (unat (eh_depth h)) b (h\<lparr>eh_entries := n\<rparr>) = Ok (cut_all (new_end new block_size) es, ns')"
      using S(3,5,7) that d by (subst walk_entries) simp_all
    then show ?thesis using S(4) g(6) root' by (simp add: collect_all_with_nodes_def not_less)
  qed
  moreover have "collect_all_with_nodes root rd block_size = Ok (es, ns)" using S(1) g(4,6) by (simp add: collect_all_with_nodes_def not_less)
  moreover have "mset (data_blocks es @ map unat ns) = mset (data_blocks (cut_all (new_end new block_size) es) @ map unat ns') + mset (freed_blocks ms')"
    using S(2) unfolding effect_def by blast
  ultimately show ?thesis
    using Ok r res g(1) dis len E(1,5) by auto
qed simp


definition no_tree_blocks :: "u64 \<Rightarrow> bytes result" where
  "no_tree_blocks b = Err NotFound"

lemma example_shrinks: "is_ok (plan_truncate_shrink_deep 8192 4096 example_inline 1024 4096 no_tree_blocks)"
proof -
  have hp: "ExtentHeader_parse example_inline = Ok example_inline_header"
    and pe: "parse_entries Extent_parse ''leaf entry out of range'' example_inline 0 (Suc 0) = Ok [example_extent]"
    using example_inline_reads by (auto simp: read_leaf_entries_def outcome_simps example_inline_header_def split: if_splits)
  have l: "length example_inline = 60" by (simp add: example_inline_def example_leaf_def)
  have ex: "Extent_parse (slice (entry_off 0) (entry_off 0 + 12) example_inline) = Ok example_extent"
    using pe l by (simp add: Let_def entry_off_def get_slice_def outcome_simps)
  have dc: "div_ceil 4096 (ucast (1024 :: u32) :: u64) = 4" by (simp add: div_ceil_def)
  have p2: "power_of_two32 1024" by code_simp
  show ?thesis
    using hp ex l p2
    by (simp add: plan_truncate_shrink_deep_def dc shrink_node_with_def example_inline_header_def example_extent_def EXT4_EXT_MAX_DEPTH_def
        shrink_leaf_entry_def Let_def get_slice_def entry_off_def saturating_sub_def keep_entry_def put_checked_def get_or_insert_def push_mutation_def)
qed

theorem plan_truncate_shrink_deep_correct_witness:
  "\<exists>sc root' ms' es ns. plan_truncate_shrink_deep 8192 4096 example_inline 1024 4096 no_tree_blocks = Ok (sc, WriteRoot root' # ms') \<and>
     collect_all_with_nodes example_inline (\<lambda>off n. Err NotFound) 1024 = Ok (es, ns) \<and> distinct (data_blocks es @ map unat ns) \<and> length root' = 60"
proof -
  have d: "reads_device no_tree_blocks (\<lambda>off n. Err NotFound) 1024" by (simp add: reads_device_def no_tree_blocks_def)
  have p: "no_tree_blocks b \<noteq> Panic" for b by (simp add: no_tree_blocks_def)
  obtain sc ms where "plan_truncate_shrink_deep 8192 4096 example_inline 1024 4096 no_tree_blocks = Ok (sc, ms)"
    using example_shrinks by (cases "plan_truncate_shrink_deep 8192 4096 example_inline 1024 4096 no_tree_blocks") auto
  then show ?thesis using plan_truncate_shrink_deep_correct [OF d p, where crc = "\<lambda>s d. s" and ctx = None and old = 8192 and new = 4096 and root = example_inline and blocks_count = 4096] by auto
qed

end
