(* ===== verification/Fs_Inode.thy ===== *)
theory Fs_Inode
  imports Fs_Alloc Path Truncate
begin

unbundle bit_operations_syntax

text \<open>
  Inode writes of \<open>src/fs.rs\<close>: names and paths of the mutating calls, handles, the guard every write passes, and the operations that change one inode's attributes
  (mode, owner, flags, times), staged in a buffer and committed.
\<close>

section \<open>Names and paths\<close>

definition check_entry_name :: "bytes \<Rightarrow> unit result" where
  "check_entry_name name =
     (if name = [] then Err (InvalidArgument ''empty name'')
      else if 47 \<in> set name then Err (InvalidArgument (''a name cannot contain '' @ [CHR 0x27, CHR 0x2F, CHR 0x27]))
      else if 0 \<in> set name then Err (InvalidArgument ''a name cannot contain a NUL byte'')
      else Ok ())"

definition check_new_entry_name :: "bytes \<Rightarrow> unit result" where
  "check_new_entry_name name = and_then (check_entry_name name) (\<lambda>_. if length name > 255 then Err NameTooLong else Ok ())"

definition is_dot_or_dotdot :: "bytes \<Rightarrow> bool" where
  "is_dot_or_dotdot name \<longleftrightarrow> name = [46] \<or> name = [46, 46]"

text \<open>\<open>rposition\<close>: the index of the last element that satisfies the predicate.\<close>

fun rposition :: "('a \<Rightarrow> bool) \<Rightarrow> 'a list \<Rightarrow> nat option" where
  "rposition P [] = None"
| "rposition P (x # xs) = (case rposition P xs of Some i \<Rightarrow> Some (Suc i) | None \<Rightarrow> if P x then Some 0 else None)"

definition split_parent_and_base :: "bytes \<Rightarrow> (bytes \<times> bytes) result" where
  "split_parent_and_base path =
     (let fin = (case rposition (\<lambda>b. b \<noteq> 47) path of None \<Rightarrow> 0 | Some i \<Rightarrow> i + 1); trimmed = take fin path in
      if trimmed = [] then Err (InvalidArgument ''empty path'')
      else and_then (ok_or (rposition (\<lambda>b. b = 47) trimmed) (InvalidArgument ''relative path'')) (\<lambda>last_slash.
        let base = drop (last_slash + 1) trimmed; parent = (if last_slash = 0 then [47] else take last_slash trimmed) in
        if base = [] then Err NotADirectory
        else if 0 \<in> set base then Err (InvalidArgument ''a name cannot contain a NUL byte'')
        else Ok (parent, base)))"

section \<open>The state of a mount\<close>

text \<open>
  The parts of a mounted volume the writers change: the state the commit keeps, and the flags of the write guard. The view of the volume is read through the
  device as it stands; the cache in front of it shows the same bytes.
\<close>

record mount_state =
  ms_live :: live_state
  replay_pending :: bool
  marked_not_clean :: bool
  state_found :: u16

definition fs_at :: "'s dev_ops \<Rightarrow> fs_view \<Rightarrow> 's \<Rightarrow> fs_view" where
  "fs_at dev fs s = fs\<lparr>fv_dev := \<lambda>off n. fst (dv_read dev s off n), fv_dev_size := dv_size dev s\<rparr>"

definition write_superblock_state :: "crc_fn \<Rightarrow> 's dev_ops \<Rightarrow> fs_view \<Rightarrow> u16 \<Rightarrow> 's \<Rightarrow> ('s, unit) dev_result" where
  "write_superblock_state crc dev fs state s =
     st_bind (dv_read dev s SUPERBLOCK_OFFSET 1024) (\<lambda>sb s.
     let sb = put 0x3A (u16_to_le state) sb;
         sb = (if enabled (fv_csum fs) then put 0x3FC (u32_to_le (linux_crc32c crc (NOT 0) (take 0x3FC sb))) sb else sb)
     in st_bind (dv_write dev s SUPERBLOCK_OFFSET sb) (\<lambda>_ s. dv_flush dev s))"

definition write_refusal :: "'s dev_ops \<Rightarrow> fs_view \<Rightarrow> mount_state \<Rightarrow> 's \<Rightarrow> unit result" where
  "write_refusal dev fs ms s =
     (if \<not> dv_writable dev s then Err ReadOnly
      else if direct_commit_failed (ms_live ms) then Err ReadOnly
      else if replay_pending ms then Err JournalNotReplayed
      else let unmaintained = unmaintained_ro_compat (feature_ro_compat (fv_sb fs)) in
        if unmaintained \<noteq> 0 then Err (UnsupportedRoCompat unmaintained)
        else let write_breaking = write_breaking_incompat (feature_incompat (fv_sb fs)) in
          if write_breaking \<noteq> 0 then Err (UnsupportedIncompat write_breaking) else Ok ())"

definition mark_not_clean_once :: "crc_fn \<Rightarrow> 's dev_ops \<Rightarrow> fs_view \<Rightarrow> mount_state \<times> 's \<Rightarrow> (mount_state \<times> 's, unit) dev_result" where
  "mark_not_clean_once crc dev fs = (\<lambda>(ms, s).
     if marked_not_clean ms then (Ok (), (ms, s))
     else let ms = ms\<lparr>state_found := sb_state (fv_sb fs)\<rparr>;
              (r, s) = write_superblock_state crc dev fs (sb_state (fv_sb fs) AND NOT EXT4_VALID_FS) s
          in case r of Ok _ \<Rightarrow> (Ok (), (ms\<lparr>marked_not_clean := True\<rparr>, s)) | Err e \<Rightarrow> (Err e, (ms, s)) | Panic \<Rightarrow> (Panic, (ms, s)))"

definition refuse_write :: "crc_fn \<Rightarrow> 's dev_ops \<Rightarrow> fs_view \<Rightarrow> mount_state \<times> 's \<Rightarrow> (mount_state \<times> 's, unit) dev_result" where
  "refuse_write crc dev fs st = st_bind (write_refusal dev fs (fst st) (snd st), st) (\<lambda>_ st. mark_not_clean_once crc dev fs st)"

section \<open>Handles\<close>

record inode_ref =
  ir_ino :: u32
  ir_generation :: "u32 option"

definition inode_ref_any :: "u32 \<Rightarrow> inode_ref" where
  "inode_ref_any num = \<lparr>ir_ino = num, ir_generation = None\<rparr>"

text \<open>Reading the flags builds the cached descriptors, so the state is threaded through.\<close>

definition inode_bit_is_set :: "fs_view \<Rightarrow> u32 \<Rightarrow> allocation_state \<Rightarrow> bool result \<times> allocation_state" where
  "inode_bit_is_set fs num st =
     (let sb = fv_sb fs; ipg = inodes_per_group sb in
      if num = 0 \<or> num > inodes_count sb \<or> ipg = 0 then (Ok False, st)
      else let (groups, st) = allocation_groups (fv_groups fs) st; gi = unat ((num - 1) div ipg) in
        (and_then groups (\<lambda>groups.
          if gi \<ge> length groups then Ok False
          else if bgd_has_flag (groups ! gi) INODE_UNINIT then Ok False
          else and_then (fs_read_block fs (inode_bitmap (groups ! gi))) (\<lambda>bitmap. Ok (bit_is_set bitmap (unat ((num - 1) mod ipg))))), st))"

definition live_inode :: "crc_fn \<Rightarrow> fs_view \<Rightarrow> inode_ref \<Rightarrow> allocation_state \<Rightarrow> (inode \<times> bytes) result \<times> allocation_state" where
  "live_inode crc fs r st =
     (let num = ir_ino r; sb = fv_sb fs; reserved = (num < first_inode sb \<and> num \<noteq> EXT4_ROOT_INODE) in
      if num = 0 \<or> num > inodes_count sb \<or> reserved then (Err Stale, st)
      else let (bit, st) = inode_bit_is_set fs num st in
        (and_then bit (\<lambda>bit.
          if \<not> bit then Err Stale
          else and_then (read_inode_verified crc fs num) (\<lambda>(ino, raw).
            if i_links_count ino = 0 \<or> i_mode ino = 0 then Err Stale
            else if ir_generation r \<noteq> None \<and> ir_generation r \<noteq> Some (i_generation ino) then Err Stale
            else Ok (ino, raw))), st))"

definition live_dir :: "crc_fn \<Rightarrow> fs_view \<Rightarrow> inode_ref \<Rightarrow> allocation_state \<Rightarrow> (inode \<times> bytes) result \<times> allocation_state" where
  "live_dir crc fs r st =
     (let (res, st) = live_inode crc fs r st in (and_then res (\<lambda>(ino, raw). if \<not> is_dir ino then Err NotADirectory else Ok (ino, raw)), st))"

definition stat_ino :: "crc_fn \<Rightarrow> fs_view \<Rightarrow> inode_ref \<Rightarrow> allocation_state \<Rightarrow> inode result \<times> allocation_state" where
  "stat_ino crc fs r st = (let (res, st) = live_inode crc fs r st in (map_ok fst res, st))"

text \<open>A read of the mount inside an operation.\<close>

definition reading :: "'s dev_ops \<Rightarrow> fs_view \<Rightarrow> (fs_view \<Rightarrow> allocation_state \<Rightarrow> 'a result \<times> allocation_state) \<Rightarrow> mount_state \<times> 's \<Rightarrow> (mount_state \<times> 's, 'a) dev_result" where
  "reading dev fs f = (\<lambda>(ms, s).
     let (r, a) = f (fs_at dev fs s) (ls_alloc (ms_live ms)) in (r, (ms\<lparr>ms_live := (ms_live ms)\<lparr>ls_alloc := a\<rparr>\<rparr>, s)))"

section \<open>Writing one inode\<close>

definition finalize_inode_raw :: "crc_fn \<Rightarrow> fs_view \<Rightarrow> u32 \<Rightarrow> u32 \<Rightarrow> bytes \<Rightarrow> bytes" where
  "finalize_inode_raw crc fs num generation raw = (if enabled (fv_csum fs) then patch_inode_checksum crc (fv_csum fs) num generation raw else raw)"

definition buffer_write_inode :: "fs_view \<Rightarrow> u32 \<Rightarrow> bytes \<Rightarrow> block_buffer \<Rightarrow> block_buffer result" where
  "buffer_write_inode fs num inode_raw buf =
     and_then (locate_inode (fv_sb fs) (fv_groups fs) num) (\<lambda>(block, offset).
     buffer_edit fs block (\<lambda>it_buf. put_checked (unat offset) inode_raw it_buf) buf)"

definition committing :: "crc_fn \<Rightarrow> 's dev_ops \<Rightarrow> fs_view \<Rightarrow> block_buffer \<Rightarrow> mount_state \<times> 's \<Rightarrow> (mount_state \<times> 's, unit) dev_result" where
  "committing crc dev fs buf = (\<lambda>(ms, s).
     let (r, (ls, s)) = commit_block_buffer crc dev (fv_sb fs) buf (ms_live ms) s in (r, (ms\<lparr>ms_live := ls\<rparr>, s)))"

definition commit_inode_write :: "crc_fn \<Rightarrow> 's dev_ops \<Rightarrow> fs_view \<Rightarrow> u32 \<Rightarrow> bytes \<Rightarrow> mount_state \<times> 's \<Rightarrow> (mount_state \<times> 's, unit) dev_result" where
  "commit_inode_write crc dev fs num raw st =
     st_bind (buffer_write_inode (fs_at dev fs (snd st)) num raw BlockBuffer_new, st) (\<lambda>buf st. committing crc dev fs buf st)"

definition chmod_raw :: "u16 \<Rightarrow> int \<Rightarrow> inode \<Rightarrow> bytes \<Rightarrow> bytes result" where
  "chmod_raw mode now ino raw =
     (let new_mode = (i_mode ino AND S_IFMT) OR (mode AND 0x0FFF) in
      and_then (put_checked 0x00 (u16_to_le new_mode) raw) (\<lambda>raw. set_inode_time raw Ctime now))"

definition chown_raw :: "u32 \<Rightarrow> u32 \<Rightarrow> int \<Rightarrow> inode \<Rightarrow> bytes \<Rightarrow> bytes result" where
  "chown_raw uid gid now ino raw =
     (let halves = (\<lambda>v lo hi raw. and_then (put_checked lo (u16_to_le (ucast v)) raw) (put_checked hi (u16_to_le (ucast (drop_bit 16 v))))) in
      and_then (if uid \<noteq> NOT 0 then halves uid 0x02 0x78 raw else Ok raw) (\<lambda>raw.
      and_then (if gid \<noteq> NOT 0 then halves gid 0x18 0x7A raw else Ok raw) (\<lambda>raw.
      set_inode_time raw Ctime now)))"

definition apply_chmod_ino :: "crc_fn \<Rightarrow> 's dev_ops \<Rightarrow> fs_view \<Rightarrow> int \<Rightarrow> inode_ref \<Rightarrow> u16 \<Rightarrow> mount_state \<times> 's \<Rightarrow> (mount_state \<times> 's, unit) dev_result" where
  "apply_chmod_ino crc dev fs now r mode st =
     st_bind (refuse_write crc dev fs st) (\<lambda>_ st.
     st_bind (reading dev fs (\<lambda>fs. live_inode crc fs r) st) (\<lambda>(ino, raw) st.
     st_bind (chmod_raw mode now ino raw, st) (\<lambda>raw st.
     commit_inode_write crc dev fs (ir_ino r) (finalize_inode_raw crc fs (ir_ino r) (i_generation ino) raw) st)))"

definition apply_chown_ino :: "crc_fn \<Rightarrow> 's dev_ops \<Rightarrow> fs_view \<Rightarrow> int \<Rightarrow> inode_ref \<Rightarrow> u32 \<Rightarrow> u32 \<Rightarrow> mount_state \<times> 's \<Rightarrow> (mount_state \<times> 's, unit) dev_result" where
  "apply_chown_ino crc dev fs now r uid gid st =
     st_bind (refuse_write crc dev fs st) (\<lambda>_ st.
     st_bind (reading dev fs (\<lambda>fs. live_inode crc fs r) st) (\<lambda>(ino, raw) st.
     st_bind (chown_raw uid gid now ino raw, st) (\<lambda>raw st.
     commit_inode_write crc dev fs (ir_ino r) (finalize_inode_raw crc fs (ir_ino r) (i_generation ino) raw) st)))"

text \<open>The times of \<open>utimensat\<close>.\<close>

definition TIME_OMIT :: int where "TIME_OMIT = - (2 ^ 63)"
definition UTIME_NOW :: u32 where "UTIME_NOW = 0x3FFFFFFF"
definition UTIME_OMIT :: u32 where "UTIME_OMIT = 0x3FFFFFFE"
definition NSEC_PER_SEC :: u32 where "NSEC_PER_SEC = 1000000000"

datatype time_update = Omit | SetTime int u32

definition time_resolve :: "int \<Rightarrow> u32 \<Rightarrow> int \<Rightarrow> time_update result" where
  "time_resolve sec nsec now =
     (if sec = TIME_OMIT \<or> nsec = UTIME_OMIT then Ok Omit
      else if nsec = UTIME_NOW then Ok (SetTime now 0)
      else if nsec \<ge> NSEC_PER_SEC then Err (InvalidArgument ''nanoseconds must be below 1e9 (or UTIME_NOW / UTIME_OMIT)'')
      else if sec < MIN_ENCODABLE_TIME \<or> sec > MAX_ENCODABLE_TIME then Err (InvalidArgument ''timestamp outside the range ext4 can store (1901..2446)'')
      else Ok (SetTime sec nsec))"

definition time_check :: "int \<Rightarrow> u32 \<Rightarrow> unit result" where
  "time_check sec nsec = map_ok (\<lambda>_. ()) (time_resolve sec nsec 0)"

definition pack_nsec_lo :: "u32 \<Rightarrow> u32" where
  "pack_nsec_lo nsec = push_bit 2 (nsec AND 0x3FFFFFFF)"

definition time_fits :: "time_update \<Rightarrow> bool \<Rightarrow> unit result" where
  "time_fits upd has_extra =
     (case upd of Omit \<Rightarrow> Ok ()
      | SetTime sec _ \<Rightarrow> if snd (pack_seconds sec) \<noteq> 0 \<and> \<not> has_extra
          then Err (InvalidArgument ''timestamp past 2038 needs an *_extra field this inode is too small to hold'') else Ok ())"

definition write_time :: "time_update \<Rightarrow> nat \<Rightarrow> nat option \<Rightarrow> bytes \<Rightarrow> bytes result" where
  "write_time upd base_off extra raw =
     (case upd of Omit \<Rightarrow> Ok raw
      | SetTime sec nsec \<Rightarrow>
          (let (base, epoch) = pack_seconds sec in
           and_then (put_checked base_off (u32_to_le base) raw) (\<lambda>raw.
           case extra of None \<Rightarrow> Ok raw | Some off \<Rightarrow> put_checked off (u32_to_le (pack_nsec_lo nsec OR epoch)) raw)))"

definition utimens_raw :: "time_update \<Rightarrow> time_update \<Rightarrow> int \<Rightarrow> bytes \<Rightarrow> bytes result" where
  "utimens_raw atime mtime now raw =
     (let i_extra_isize = (if length raw \<ge> 0x82 then get_le16 0x80 raw else 0);
          has_mtime_extra = (i_extra_isize \<ge> 12 \<and> length raw \<ge> 0x8C); has_atime_extra = (i_extra_isize \<ge> 16 \<and> length raw \<ge> 0x90) in
      and_then (time_fits atime has_atime_extra) (\<lambda>_.
      and_then (time_fits mtime has_mtime_extra) (\<lambda>_.
      and_then (write_time atime 0x08 (if has_atime_extra then Some 0x8C else None) raw) (\<lambda>raw.
      and_then (write_time mtime 0x10 (if has_mtime_extra then Some 0x88 else None) raw) (\<lambda>raw.
      set_inode_time raw Ctime now)))))"

definition apply_utimens_ino :: "crc_fn \<Rightarrow> 's dev_ops \<Rightarrow> fs_view \<Rightarrow> int \<Rightarrow> inode_ref \<Rightarrow> int \<Rightarrow> u32 \<Rightarrow> int \<Rightarrow> u32 \<Rightarrow> mount_state \<times> 's \<Rightarrow> (mount_state \<times> 's, unit) dev_result" where
  "apply_utimens_ino crc dev fs now r asec ansec msec mnsec st =
     st_bind (refuse_write crc dev fs st) (\<lambda>_ st.
     st_bind (time_resolve asec ansec now, st) (\<lambda>atime st.
     st_bind (time_resolve msec mnsec now, st) (\<lambda>mtime st.
     st_bind (reading dev fs (\<lambda>fs. live_inode crc fs r) st) (\<lambda>(ino, raw) st.
     if atime = Omit \<and> mtime = Omit then (Ok (), st)
     else st_bind (utimens_raw atime mtime now raw, st) (\<lambda>raw st.
       commit_inode_write crc dev fs (ir_ino r) (finalize_inode_raw crc fs (ir_ino r) (i_generation ino) raw) st)))))"

section \<open>By path\<close>

definition lookup_path_bytes :: "crc_fn \<Rightarrow> fs_view \<Rightarrow> bytes \<Rightarrow> u32 result" where
  "lookup_path_bytes crc fs path =
     lookup_bytes_with_csum crc (fv_dev fs) (fv_sb fs) (\<lambda>num. map_ok fst (read_inode_verified crc fs num)) path (fv_csum fs)"

definition resolve_parent :: "crc_fn \<Rightarrow> fs_view \<Rightarrow> bytes \<Rightarrow> (u32 \<times> bytes) result" where
  "resolve_parent crc fs path =
     and_then (split_parent_and_base path) (\<lambda>(parent, base). and_then (lookup_path_bytes crc fs parent) (\<lambda>dir. Ok (dir, base)))"

definition resolve_new_parent :: "crc_fn \<Rightarrow> fs_view \<Rightarrow> bytes \<Rightarrow> (u32 \<times> bytes) result" where
  "resolve_new_parent crc fs path =
     and_then (split_parent_and_base path) (\<lambda>(parent, base).
     if length base > 255 then Err NameTooLong else and_then (lookup_path_bytes crc fs parent) (\<lambda>dir. Ok (dir, base)))"

definition lookup_at :: "crc_fn \<Rightarrow> fs_view \<Rightarrow> inode_ref \<Rightarrow> bytes \<Rightarrow> allocation_state \<Rightarrow> u32 result \<times> allocation_state" where
  "lookup_at crc fs dir name st =
     (case check_entry_name name of
        Ok _ \<Rightarrow> (let (res, st) = live_dir crc fs dir st in
          (and_then res (\<lambda>(ino, _). find_entry crc (fv_dev fs) (fv_sb fs) (ir_ino dir) ino name (fv_csum fs)), st))
      | Err e \<Rightarrow> (Err e, st)
      | Panic \<Rightarrow> (Panic, st))"

definition resolving :: "crc_fn \<Rightarrow> 's dev_ops \<Rightarrow> fs_view \<Rightarrow> bytes \<Rightarrow> mount_state \<times> 's \<Rightarrow> (mount_state \<times> 's, u32) dev_result" where
  "resolving crc dev fs path st = (lookup_path_bytes crc (fs_at dev fs (snd st)) path, st)"

definition apply_chmod_bytes :: "crc_fn \<Rightarrow> 's dev_ops \<Rightarrow> fs_view \<Rightarrow> int \<Rightarrow> bytes \<Rightarrow> u16 \<Rightarrow> mount_state \<times> 's \<Rightarrow> (mount_state \<times> 's, unit) dev_result" where
  "apply_chmod_bytes crc dev fs now path mode st =
     st_bind (refuse_write crc dev fs st) (\<lambda>_ st. st_bind (resolving crc dev fs path st) (\<lambda>num st. apply_chmod_ino crc dev fs now (inode_ref_any num) mode st))"

definition apply_chown_bytes :: "crc_fn \<Rightarrow> 's dev_ops \<Rightarrow> fs_view \<Rightarrow> int \<Rightarrow> bytes \<Rightarrow> u32 \<Rightarrow> u32 \<Rightarrow> mount_state \<times> 's \<Rightarrow> (mount_state \<times> 's, unit) dev_result" where
  "apply_chown_bytes crc dev fs now path uid gid st =
     st_bind (refuse_write crc dev fs st) (\<lambda>_ st. st_bind (resolving crc dev fs path st) (\<lambda>num st. apply_chown_ino crc dev fs now (inode_ref_any num) uid gid st))"

definition apply_utimens_bytes :: "crc_fn \<Rightarrow> 's dev_ops \<Rightarrow> fs_view \<Rightarrow> int \<Rightarrow> bytes \<Rightarrow> int \<Rightarrow> u32 \<Rightarrow> int \<Rightarrow> u32 \<Rightarrow> mount_state \<times> 's \<Rightarrow> (mount_state \<times> 's, unit) dev_result" where
  "apply_utimens_bytes crc dev fs now path asec ansec msec mnsec st =
     st_bind (refuse_write crc dev fs st) (\<lambda>_ st.
     st_bind (time_check asec ansec, st) (\<lambda>_ st.
     st_bind (time_check msec mnsec, st) (\<lambda>_ st.
     st_bind (resolving crc dev fs path st) (\<lambda>num st. apply_utimens_ino crc dev fs now (inode_ref_any num) asec ansec msec mnsec st))))"

text \<open>SECRM, UNRM, COMPR, SYNC, IMMUTABLE, APPEND, NODUMP, NOATIME, JOURNAL\_DATA, NOTAIL, DIRSYNC, TOPDIR and PROJINHERIT.\<close>

definition USER_MODIFIABLE_FLAGS :: u32 where
  "USER_MODIFIABLE_FLAGS = 0x1 OR 0x2 OR 0x4 OR 0x8 OR 0x10 OR 0x20 OR 0x40 OR 0x80 OR 0x4000 OR 0x8000 OR 0x10000 OR 0x20000 OR 0x20000000"

definition set_flags_raw :: "u32 \<Rightarrow> int \<Rightarrow> inode \<Rightarrow> bytes \<Rightarrow> bytes result" where
  "set_flags_raw flags now ino raw =
     (if (flags XOR i_flags ino) AND NOT USER_MODIFIABLE_FLAGS \<noteq> 0
      then Err (InvalidArgument ''set_flags: only the user-modifiable inode flags may change (INDEX, EXTENTS, INLINE_DATA, HUGE_FILE, ENCRYPT, VERITY, CASEFOLD and the like are managed)'')
      else and_then (put_checked 0x20 (u32_to_le flags) raw) (\<lambda>raw. set_inode_time raw Ctime now))"

definition apply_set_flags_bytes :: "crc_fn \<Rightarrow> 's dev_ops \<Rightarrow> fs_view \<Rightarrow> int \<Rightarrow> bytes \<Rightarrow> u32 \<Rightarrow> mount_state \<times> 's \<Rightarrow> (mount_state \<times> 's, unit) dev_result" where
  "apply_set_flags_bytes crc dev fs now path flags st =
     st_bind (refuse_write crc dev fs st) (\<lambda>_ st.
     st_bind (resolving crc dev fs path st) (\<lambda>num st.
     st_bind (read_inode_verified crc (fs_at dev fs (snd st)) num, st) (\<lambda>(ino, raw) st.
     st_bind (set_flags_raw flags now ino raw, st) (\<lambda>raw st.
     commit_inode_write crc dev fs num (finalize_inode_raw crc fs num (i_generation ino) raw) st))))"

section \<open>Fields of the image\<close>

definition write_file_acl :: "bytes \<Rightarrow> u64 \<Rightarrow> bytes result" where
  "write_file_acl raw block_nr =
     (if length raw < 0x6C then Err (Corrupt ''write_file_acl: inode buffer too small for i_file_acl_lo'')
      else let (hi, lo) = split_phys_block block_nr in
        if length raw < 0x78 \<and> hi \<noteq> 0
        then Err (Corrupt ''write_file_acl: this inode is too small to hold i_file_acl_hi and the external xattr block needs it'')
        else let raw = put 0x68 (u32_to_le lo) raw in Ok (if length raw \<ge> 0x78 then put 0x76 (u16_to_le hi) raw else raw))"

definition patch_inode_size_and_blocks :: "bytes \<Rightarrow> u64 \<Rightarrow> u64 \<Rightarrow> bytes result" where
  "patch_inode_size_and_blocks raw sz nblocks =
     (if length raw < 128 then Err (Corrupt ''patch_inode: buffer too small'')
      else let raw = put 0x04 (u32_to_le (ucast (sz AND 0xFFFFFFFF))) raw;
               raw = put 0x6C (u32_to_le (ucast (drop_bit 32 sz))) raw;
               raw = put 0x1C (u32_to_le (ucast (nblocks AND 0xFFFFFFFF))) raw
           in Ok (put 0x74 (u16_to_le (ucast (drop_bit 32 nblocks AND 0xFFFF))) raw))"

definition patch_inode_block_area :: "bytes \<Rightarrow> bytes \<Rightarrow> bytes result" where
  "patch_inode_block_area raw root =
     (if length raw < 128 then Err (Corrupt ''patch_inode_block_area: buffer too small'')
      else if length root \<noteq> 60 then Err (Corrupt ''patch_inode_block_area: new_root != 60 bytes'')
      else Ok (put 0x28 root raw))"

definition MAX_LINKS :: u16 where "MAX_LINKS = 65000"
definition DIR_NLINK :: u32 where "DIR_NLINK = 0x20"

definition add_link :: "bool \<Rightarrow> bool \<Rightarrow> u16 \<Rightarrow> u16 result" where
  "add_link isdir dir_nlink n =
     (if isdir \<and> n = 1 then Ok 1
      else if n \<ge> MAX_LINKS then (if isdir \<and> dir_nlink then Ok 1 else Err TooManyLinks)
      else Ok (n + 1))"

definition drop_link :: "bool \<Rightarrow> u16 \<Rightarrow> u16" where
  "drop_link isdir n = (if isdir then (if n > 2 then n - 1 else n) else saturating_sub n 1)"

fun links_loop :: "nat \<Rightarrow> bool \<Rightarrow> bool \<Rightarrow> bool \<Rightarrow> u16 \<Rightarrow> u16 result" where
  "links_loop 0 adding isdir dir_nlink n = Ok n"
| "links_loop (Suc k) adding isdir dir_nlink n =
     and_then (if adding then add_link isdir dir_nlink n else Ok (drop_link isdir n)) (links_loop k adding isdir dir_nlink)"

definition next_links_count :: "bool \<Rightarrow> u16 \<Rightarrow> int \<Rightarrow> bool \<Rightarrow> u16 result" where
  "next_links_count isdir n delta dir_nlink = links_loop (nat \<bar>delta\<bar>) (delta > 0) isdir dir_nlink n"

definition has_dir_nlink :: "fs_view \<Rightarrow> bool" where
  "has_dir_nlink fs \<longleftrightarrow> feature_ro_compat (fv_sb fs) AND DIR_NLINK \<noteq> 0"

definition check_link_room :: "fs_view \<Rightarrow> inode \<Rightarrow> unit result" where
  "check_link_room fs ino = map_ok (\<lambda>_. ()) (next_links_count (is_dir ino) (i_links_count ino) 1 (has_dir_nlink fs))"

definition patch_inode_nlink :: "crc_fn \<Rightarrow> fs_view \<Rightarrow> u32 \<Rightarrow> bytes \<Rightarrow> inode \<Rightarrow> int \<Rightarrow> bytes result" where
  "patch_inode_nlink crc fs num raw ino delta =
     and_then (next_links_count (is_dir ino) (i_links_count ino) delta (has_dir_nlink fs)) (\<lambda>n.
     and_then (put_checked 0x1A (u16_to_le n) raw) (\<lambda>raw.
     Ok (if enabled (fv_csum fs) then patch_inode_checksum crc (fv_csum fs) num (i_generation ino) raw else raw)))"

section \<open>Splitting a path\<close>

lemma rposition_None: "rposition P xs = None \<longleftrightarrow> (\<forall>x \<in> set xs. \<not> P x)"
  by (induction xs) (auto split: option.splits)

lemma rposition_Some:
  "rposition P xs = Some i \<Longrightarrow> i < length xs \<and> P (xs ! i) \<and> (\<forall>x \<in> set (drop (Suc i) xs). \<not> P x)"
proof (induction xs arbitrary: i)
  case (Cons x xs)
  show ?case
  proof (cases "rposition P xs")
    case None
    then show ?thesis using Cons.prems rposition_None [THEN iffD1, OF None] by (simp split: if_splits)
  next
    case (Some j)
    then show ?thesis using Cons by auto
  qed
qed simp

lemma split_path_trailing: "split_path (p @ replicate n 47) = split_path p"
proof (induction n)
  case (Suc n)
  have "split_path ((p @ replicate n 47) @ 47 # []) = split_path (p @ replicate n 47) @ split_path []" by (rule split_path_join)
  then show ?case using Suc by (simp add: split_path_def replicate_append_same flip: replicate_Suc)
qed simp

lemma split_path_single: "47 \<notin> set c \<Longrightarrow> c \<noteq> [] \<Longrightarrow> split_path c = [c]"
  by (simp add: split_path_def split_slash_single)

lemma trimmed_path:
  fixes path :: bytes
  defines "trimmed \<equiv> take (case rposition (\<lambda>b. b \<noteq> 47) path of None \<Rightarrow> 0 | Some i \<Rightarrow> i + 1) path"
  shows "\<exists>n. path = trimmed @ replicate n 47" "trimmed \<noteq> [] \<Longrightarrow> last trimmed \<noteq> 47"
proof -
  have all: "xs = replicate (length xs) 47" if "\<forall>x \<in> set xs. x = (47 :: u8)" for xs using that by (metis replicate_length_same)
  show "\<exists>n. path = trimmed @ replicate n 47"
  proof (cases "rposition (\<lambda>b. b \<noteq> 47) path")
    case None
    then have "\<forall>x \<in> set path. x = 47" by (simp add: rposition_None)
    then have "path = replicate (length path) 47" by (rule all)
    then show ?thesis using None by (auto simp: trimmed_def)
  next
    case (Some i)
    then have "\<forall>x \<in> set (drop (Suc i) path). x = 47" using rposition_Some by fastforce
    then have "drop (Suc i) path = replicate (length (drop (Suc i) path)) 47" by (rule all)
    then show ?thesis using Some by (metis trimmed_def append_take_drop_id option.simps(5) Suc_eq_plus1)
  qed
  show "last trimmed \<noteq> 47" if "trimmed \<noteq> []"
  proof (cases "rposition (\<lambda>b. b \<noteq> 47) path")
    case (Some i)
    then have "i < length path" "path ! i \<noteq> 47" using rposition_Some by fastforce+
    then show ?thesis using Some by (simp add: trimmed_def take_Suc_conv_app_nth)
  qed (use that trimmed_def in simp)
qed

text \<open>
  C40. Splitting a path into the directory and the name a mutating call acts on (\<open>split_parent_and_base\<close>): it never unwinds; the parent it returns has the components of the path but the last, and the
  name is that last component, which is neither empty nor holds a slash or a NUL, so that resolving the parent and looking the name up is resolving the path. It is refused
  only when there is no component, when the path has a single component and no leading slash, or when the name holds a NUL; trailing slashes are
  dropped, so the refusal as not a directory never occurs.
\<close>

theorem split_parent_and_base_correct:
  "case split_parent_and_base path of
     Ok (parent, base) \<Rightarrow> split_path path = split_path parent @ [base] \<and> base \<noteq> [] \<and> 47 \<notin> set base \<and> 0 \<notin> set base \<and> parent \<noteq> []
   | Err e \<Rightarrow> e \<noteq> NotADirectory \<and> (split_path path = [] \<or> length (split_path path) = 1 \<and> hd path \<noteq> 47 \<or> 0 \<in> set (last (split_path path)))
   | Panic \<Rightarrow> False"
proof -
  define trimmed where "trimmed = take (case rposition (\<lambda>b. b \<noteq> 47) path of None \<Rightarrow> 0 | Some i \<Rightarrow> i + 1) path"
  obtain n where n: "path = trimmed @ replicate n 47" using trimmed_path(1) trimmed_def by blast
  have sp: "split_path path = split_path trimmed" by (subst n) (rule split_path_trailing)
  show ?thesis
  proof (cases "trimmed = []")
    case True
    then show ?thesis using sp by (simp add: split_parent_and_base_def Let_def split_path_def flip: trimmed_def)
  next
    case False
    then have lt: "last trimmed \<noteq> 47" using trimmed_path(2) trimmed_def by blast
    show ?thesis
    proof (cases "rposition (\<lambda>b. b = 47) trimmed")
      case None
      then have "47 \<notin> set trimmed" by (simp add: rposition_None) blast
      then have "split_path path = [trimmed]" "hd path \<noteq> 47" using sp split_path_single False n by (auto simp: hd_append dest: hd_in_set)
      then show ?thesis using None False by (simp add: split_parent_and_base_def Let_def ok_or_def flip: trimmed_def)
    next
      case (Some i)
      then have i: "i < length trimmed" "trimmed ! i = 47" "47 \<notin> set (drop (Suc i) trimmed)" using rposition_Some by fastforce+
      let ?base = "drop (Suc i) trimmed"
      have eq: "trimmed = take i trimmed @ 47 # ?base" using i id_take_nth_drop [of i trimmed] by simp
      have base: "?base \<noteq> []"
      proof
        assume "?base = []"
        then have "last trimmed = 47" using eq by (metis last_snoc)
        then show False using lt by simp
      qed
      have "split_path trimmed = split_path (take i trimmed) @ split_path ?base" by (subst eq) (rule split_path_join)
      then have path: "split_path path = split_path (take i trimmed) @ [?base]" using sp split_path_single [OF i(3) base] by simp
      have "split_path [47] = []" by (simp add: split_path_def)
      moreover have "split_path [] = []" by (simp add: split_path_def)
      ultimately have par: "split_path (if i = 0 then [47] else take i trimmed) = split_path (take i trimmed)" by simp
      have run: "split_parent_and_base path = (if 0 \<in> set ?base then Err (InvalidArgument ''a name cannot contain a NUL byte'')
          else Ok (if i = 0 then [47] else take i trimmed, ?base))"
        unfolding split_parent_and_base_def Let_def trimmed_def [symmetric] using False Some base by (simp add: ok_or_def)
      have ne: "(if i = 0 then [47] else take i trimmed) \<noteq> []" using i(1) by auto
      show ?thesis using path par i(3) base ne unfolding run by (cases "0 \<in> set ?base") simp_all
    qed
  qed
qed

end
