(* ===== verification/Fs_Attr.thy ===== *)
theory Fs_Attr
  imports Fs_Inode
begin

unbundle bit_operations_syntax

text \<open>
  What the attribute writes of \<open>src/fs.rs\<close> do to a volume without a journal: the record of the inode changes in place, reads back verified with exactly the attributes asked for, nothing
  else on the device moves, and a crash leaves the record old or new.
\<close>

section \<open>One block, committed directly\<close>

lemma traced_view [simp]:
  "fv_sb (fs_at dev fs t) = fv_sb fs" "fv_groups (fs_at dev fs t) = fv_groups fs" "fv_csum (fs_at dev fs t) = fv_csum fs" "fv_dev_size (fs_at dev fs t) = dv_size dev t"
  by (simp_all add: fs_at_def)

lemma traced_read_block:
  assumes "unat b * bs_nat (fv_sb fs) + bs_nat (fv_sb fs) \<le> length (tr_image t)" "length (tr_image t) < 2 ^ 63"
  shows "fs_read_block (fs_at traced_ops fs t) b = Ok (Block_Cache.block_of (bs_nat (fv_sb fs)) b (tr_image t))"
proof -
  let ?bs = "block_size (fv_sb fs)"
  have "unat b * unat ?bs < 2 ^ 64" using assms by simp
  then have m: "checked_mul b (ucast ?bs) = Some (b * ucast ?bs)" "unat (b * ucast ?bs) = unat b * unat ?bs"
    by (simp_all add: checked_mul_def unat_mult_no_wrap)
  then show ?thesis using assms by (simp add: fs_read_block_def ok_or_def fs_at_def traced_ops_def traced_read_def Block_Cache.block_of_def)
qed

definition one_write :: "u32 \<Rightarrow> u64 \<Rightarrow> bytes \<Rightarrow> traced \<Rightarrow> traced" where
  "one_write bsw b x t = \<lparr>tr_image = put (unat b * unat bsw) x (tr_image t), tr_events = tr_events t @ [EWrite (b * ucast bsw) x, EFlush]\<rparr>"

lemma commit_one_block:
  assumes "unat b * bs_nat sb + bs_nat sb \<le> length (tr_image t)" "length (tr_image t) < 2 ^ 63" "length x = bs_nat sb" "block_size sb \<noteq> 0" "ls_journal ls = None"
  shows "commit_block_buffer crc traced_ops sb \<lparr>dirty = [(b, x)], uninit_cleared = []\<rparr> ls t = (Ok (), (ls, one_write (block_size sb) b x t))"
proof -
  have off: "unat (b * ucast (block_size sb) :: u64) = unat b * bs_nat sb" by (rule block_offset [OF assms(1,2)])
  then have w: "dv_write traced_ops t (b * ucast (block_size sb)) x =
      (Ok (), t\<lparr>tr_image := put (unat b * bs_nat sb) x (tr_image t), tr_events := tr_events t @ [EWrite (b * ucast (block_size sb)) x]\<rparr>)"
    using assms(1,3) by (simp add: traced_ops_def traced_write_def)
  have fl: "dv_flush traced_ops t' = (Ok (), t'\<lparr>tr_events := tr_events t' @ [EFlush]\<rparr>)" for t' by (simp add: traced_ops_def)
  have st: "write_stages traced_ops (ucast (block_size sb)) [[], [], [(b, x)]] t = (Ok (), one_write (block_size sb) b x t)"
    "write_stages traced_ops (ucast (block_size sb)) [[(b, x)], [], []] t = (Ok (), one_write (block_size sb) b x t)"
    using w fl by (simp_all add: one_write_def)
  have "direct_stages sb [(b, x)] {} = (if b = SUPERBLOCK_OFFSET div ucast (block_size sb) then [[], [], [(b, x)]] else [[(b, x)], [], []])"
    by (simp add: direct_stages_def Let_def)
  then have "direct_stages sb [(b, x)] {} = [[], [], [(b, x)]] \<or> direct_stages sb [(b, x)] {} = [[(b, x)], [], []]" by argo
  then have "write_direct traced_ops sb [(b, x)] {} t = (Ok (), one_write (block_size sb) b x t)"
    unfolding write_direct_def using assms(4) st by (elim disjE) (simp_all only: if_False)
  then show ?thesis using assms(5) by (simp add: commit_block_buffer_def allocation_publish_def)
qed

lemma one_write_crash:
  assumes "crashed (tr_image t) [] [EWrite (b * ucast bsw) x, EFlush] img'" "unat (b * ucast bsw :: u64) = unat b * unat bsw"
  shows "img' = tr_image t \<or> img' = tr_image (one_write bsw b x t)"
  using assms by (auto elim!: crashed_ConsE crashed_NilE simp: apply_all_def one_write_def)

section \<open>One inode, written through the buffer\<close>

text \<open>Where the record of an inode lies, and that it lies inside one block of the device.\<close>

definition inode_slot :: "fs_view \<Rightarrow> u32 \<Rightarrow> nat \<Rightarrow> u64 \<Rightarrow> nat \<Rightarrow> bool" where
  "inode_slot fs num n b off \<longleftrightarrow> (\<exists>o32. locate_inode (fv_sb fs) (fv_groups fs) num = Ok (b, o32) \<and> unat o32 = off) \<and>
     off + unat (inode_size (fv_sb fs)) \<le> bs_nat (fv_sb fs) \<and> unat b * bs_nat (fv_sb fs) + bs_nat (fv_sb fs) \<le> n \<and> n < 2 ^ 63 \<and> block_size (fv_sb fs) \<noteq> 0"

lemma read_slot:
  assumes "inode_slot fs num (length (tr_image t)) b off"
  shows "read_inode_raw (fs_at traced_ops fs t) num =
    Ok (slice (unat b * bs_nat (fv_sb fs) + off) (unat b * bs_nat (fv_sb fs) + off + unat (inode_size (fv_sb fs))) (tr_image t))"
proof -
  let ?bs = "bs_nat (fv_sb fs)"
  obtain o32 where l: "locate_inode (fv_sb fs) (fv_groups fs) num = Ok (b, o32)" "unat o32 = off" "off + unat (inode_size (fv_sb fs)) \<le> ?bs"
    "unat b * ?bs + ?bs \<le> length (tr_image t)" "length (tr_image t) < 2 ^ 63"
    using assms by (auto simp: inode_slot_def)
  have "slice off (off + unat (inode_size (fv_sb fs))) (Block_Cache.block_of ?bs b (tr_image t)) =
      slice (unat b * ?bs + off) (unat b * ?bs + off + unat (inode_size (fv_sb fs))) (tr_image t)"
    using l(3) by (simp add: Block_Cache.block_of_def slice_slice add.assoc)
  then show ?thesis using l traced_read_block [OF l(4,5)] by (simp add: read_inode_raw_def Let_def length_block_of)
qed

lemma commit_inode_write_direct:
  assumes "inode_slot fs num (length (tr_image t)) b off" "length raw = unat (inode_size (fv_sb fs))" "ls_journal (ms_live ms) = None"
  shows "\<exists>x. length x = bs_nat (fv_sb fs) \<and> commit_inode_write crc traced_ops fs num raw (ms, t) = (Ok (), (ms, one_write (block_size (fv_sb fs)) b x t)) \<and>
    tr_image (one_write (block_size (fv_sb fs)) b x t) = put (unat b * bs_nat (fv_sb fs) + off) raw (tr_image t)"
proof -
  let ?bs = "bs_nat (fv_sb fs)"
  obtain o32 where l: "locate_inode (fv_sb fs) (fv_groups fs) num = Ok (b, o32)" "unat o32 = off" "off + unat (inode_size (fv_sb fs)) \<le> ?bs"
    "unat b * ?bs + ?bs \<le> length (tr_image t)" "length (tr_image t) < 2 ^ 63" "block_size (fv_sb fs) \<noteq> 0"
    using assms(1) by (auto simp: inode_slot_def)
  let ?blk = "Block_Cache.block_of ?bs b (tr_image t)"
  let ?x = "put off raw ?blk"
  have lb: "length ?blk = ?bs" by (rule length_block_of [OF l(4)])
  have x: "length ?x = ?bs" using lb l(3) assms(2) by simp
  have "buffer_write_inode (fs_at traced_ops fs t) num raw BlockBuffer_new = Ok \<lparr>dirty = [(b, ?x)], uninit_cleared = []\<rparr>"
    using l traced_read_block [OF l(4,5)] lb assms(2)
    by (simp add: buffer_write_inode_def buffer_edit_def buffer_get_def BlockBuffer_new_def buffer_put_def put_checked_def)
  then have "commit_inode_write crc traced_ops fs num raw (ms, t) = (Ok (), (ms, one_write (block_size (fv_sb fs)) b ?x t))"
    using commit_one_block [OF l(4,5) x l(6) assms(3)] by (simp add: commit_inode_write_def committing_def)
  moreover have "put (unat b * ?bs) ?x (tr_image t) = put (unat b * ?bs + off) raw (tr_image t)"
    using l(3,4) assms(2) by (intro nth_equalityI) (auto simp: nth_put nth_slice Block_Cache.block_of_def)
  ultimately show ?thesis using x by (auto simp: one_write_def)
qed

lemma parse_put_hi:
  assumes "Inode_parse raw = Ok ino" "4 \<le> declared_extra raw" "132 \<le> length raw"
  shows "Inode_parse (put 0x82 (u16_to_le hi) raw) = Ok (ino\<lparr>i_checksum := join16 hi (get_le16 0x7C raw)\<rparr>)"
  using assms by (auto simp: Inode_parse_def Let_def extra32_def declared_extra_def inode_consts codec_simps slice_simps split: if_splits)

lemma parse_patch_checksum:
  assumes "Inode_parse raw = Ok ino"
  shows "\<exists>c. Inode_parse (patch_inode_checksum crc cs num g raw) = Ok (ino\<lparr>i_checksum := c\<rparr>) \<and> length (patch_inode_checksum crc cs num g raw) = length raw"
proof (cases "compute_inode_checksum crc cs num g raw")
  case None
  then show ?thesis using assms by (intro exI [of _ "i_checksum ino"]) (simp add: patch_inode_checksum_def)
next
  case (Some lohi)
  obtain lo hi where lh: "lohi = (lo, hi)" by (cases lohi)
  have l: "128 \<le> length raw" by (rule parse_len [OF assms])
  have p: "patch_inode_checksum crc cs num g raw = (let raw' = put 0x7C (u16_to_le lo) raw in if checksum_hi_fits raw then put 0x82 (u16_to_le hi) raw' else raw')"
    using Some lh l by (simp add: patch_inode_checksum_def Let_def)
  have lf: "checksum_hi_fits raw \<Longrightarrow> 132 \<le> length raw" by (simp add: checksum_hi_fits_def)
  have ino: "Inode_parse (put 0x7C (u16_to_le lo) raw) = Ok (ino\<lparr>i_checksum := join16 (if declared_extra raw \<ge> 4 then get_le16 0x82 raw else 0) lo\<rparr>)"
    using assms l by (auto simp: Inode_parse_def Let_def extra32_def declared_extra_def inode_consts codec_simps slice_simps split: if_splits)
  have both: "Inode_parse (put 0x82 (u16_to_le hi) (put 0x7C (u16_to_le lo) raw)) = Ok (ino\<lparr>i_checksum := join16 hi lo\<rparr>)" if "checksum_hi_fits raw"
  proof -
    have "declared_extra raw \<ge> 4" using that by (simp add: checksum_hi_fits_def declared_extra_def inode_consts word_le_nat_alt)
    then have "declared_extra (put 0x7C (u16_to_le lo) raw) \<ge> 4" using l by (simp add: declared_extra_def inode_consts codec_simps split: if_splits)
    then show ?thesis using parse_put_hi [OF ino] lf [OF that] by (simp add: codec_simps)
  qed
  have "\<exists>c. Inode_parse (patch_inode_checksum crc cs num g raw) = Ok (ino\<lparr>i_checksum := c\<rparr>)"
  proof (cases "checksum_hi_fits raw")
    case True
    then have "patch_inode_checksum crc cs num g raw = put 0x82 (u16_to_le hi) (put 0x7C (u16_to_le lo) raw)" by (simp only: p Let_def if_True)
    then show ?thesis using both [OF True] by (intro exI [of _ "join16 hi lo"]) (simp only:)
  next
    case False
    then have "patch_inode_checksum crc cs num g raw = put 0x7C (u16_to_le lo) raw" by (simp only: p Let_def if_False)
    then show ?thesis using ino by (intro exI [of _ "join16 (if declared_extra raw \<ge> 4 then get_le16 0x82 raw else 0) lo"]) (simp only:)
  qed
  moreover have "length (patch_inode_checksum crc cs num g raw) = length raw" unfolding p Let_def using l lf by simp
  ultimately show ?thesis by blast
qed

lemma finalize_ok:
  assumes "Inode_parse raw = Ok ino"
  obtains c where "Inode_parse (finalize_inode_raw crc fs num (i_generation ino) raw) = Ok (ino\<lparr>i_checksum := c\<rparr>)"
    "length (finalize_inode_raw crc fs num (i_generation ino) raw) = length raw"
    "enabled (fv_csum fs) \<Longrightarrow> verify_inode crc (fv_csum fs) num (i_generation ino) (finalize_inode_raw crc fs num (i_generation ino) raw)"
proof (cases "enabled (fv_csum fs)")
  case False
  have "Inode_parse raw = Ok (ino\<lparr>i_checksum := i_checksum ino\<rparr>)" using assms by simp
  then show ?thesis using False by (intro that [of "i_checksum ino"]) (simp_all add: finalize_inode_raw_def)
next
  case True
  have "verify_inode crc (fv_csum fs) num (i_generation ino) (patch_inode_checksum crc (fv_csum fs) num (i_generation ino) raw)"
    using parse_len [OF assms] by (intro patch_inode_checksum_verifies) (simp add: GOOD_OLD_INODE_SIZE_def)
  moreover obtain c where "Inode_parse (patch_inode_checksum crc (fv_csum fs) num (i_generation ino) raw) = Ok (ino\<lparr>i_checksum := c\<rparr>)"
    "length (patch_inode_checksum crc (fv_csum fs) num (i_generation ino) raw) = length raw" using parse_patch_checksum [OF assms] by blast
  ultimately show ?thesis using True by (intro that [of c]) (simp_all add: finalize_inode_raw_def)
qed

section \<open>The contract of an attribute edit\<close>

text \<open>
  The record of an inode was replaced in place and reads back, verified, as the given inode up to its checksum; no other byte moved; a crash during the write leaves the
  device as before or as after.
\<close>

definition attr_written :: "crc_fn \<Rightarrow> fs_view \<Rightarrow> u32 \<Rightarrow> nat \<Rightarrow> inode \<Rightarrow> traced \<Rightarrow> traced \<Rightarrow> bool" where
  "attr_written crc fs num pos ino' t t' \<longleftrightarrow>
     (\<exists>raw' c. length raw' = unat (inode_size (fv_sb fs)) \<and> tr_image t' = put pos raw' (tr_image t) \<and>
        read_inode_verified crc (fs_at traced_ops fs t') num = Ok (ino'\<lparr>i_checksum := c\<rparr>, raw')) \<and>
     (\<exists>evs. tr_events t' = tr_events t @ evs \<and> (\<forall>img'. crashed (tr_image t) [] evs img' \<longrightarrow> img' = tr_image t \<or> img' = tr_image t'))"

lemma read_verified_parts:
  assumes "read_inode_verified crc fs num = Ok (ino, raw)"
  shows "read_inode_raw fs num = Ok raw" "Inode_parse raw = Ok ino" "is_dir ino \<Longrightarrow> \<exists>c. byte_ceiling fs = Ok c \<and> \<not> i_size ino > c"
  using assms by (cases "byte_ceiling fs"; auto simp: read_inode_verified_def outcome_simps split: if_splits)+

locale attribute_edit =
  fixes edit :: "inode \<Rightarrow> bytes \<Rightarrow> bytes result" and upd :: "bytes \<Rightarrow> inode \<Rightarrow> inode"
  assumes edit_parse: "Inode_parse raw = Ok ino \<Longrightarrow> edit ino raw = Ok raw' \<Longrightarrow> length raw' = length raw \<and> Inode_parse raw' = Ok (upd raw ino)"
    and edit_keeps: "i_generation (upd raw ino) = i_generation ino" "i_size (upd raw ino) = i_size ino" "is_dir (upd raw ino) = is_dir ino"
begin

lemma write_ok:
  assumes "inode_slot fs num (length (tr_image t)) b off" "ls_journal (ms_live ms) = None"
    "read_inode_verified crc (fs_at traced_ops fs t) num = Ok (ino, raw)" "edit ino raw = Ok raw'"
  shows "\<exists>t'. commit_inode_write crc traced_ops fs num (finalize_inode_raw crc fs num (i_generation ino) raw') (ms, t) = (Ok (), (ms, t')) \<and>
    attr_written crc fs num (unat b * bs_nat (fv_sb fs) + off) (upd raw ino) t t'"
proof -
  let ?bs = "bs_nat (fv_sb fs)" and ?z = "unat (inode_size (fv_sb fs))"
  let ?pos = "unat b * ?bs + off" and ?f = "finalize_inode_raw crc fs num (i_generation ino) raw'"
  note v = read_verified_parts [OF assms(3)]
  have slot: "off + ?z \<le> ?bs" "unat b * ?bs + ?bs \<le> length (tr_image t)" "length (tr_image t) < 2 ^ 63" using assms(1) by (auto simp: inode_slot_def)
  have raw: "raw = slice ?pos (?pos + ?z) (tr_image t)" using v(1) read_slot [OF assms(1)] by simp
  then have lr: "length raw = ?z" using slot by simp
  have e: "length raw' = length raw" "Inode_parse raw' = Ok (upd raw ino)" using edit_parse [OF v(2) assms(4)] by auto
  obtain c where c: "Inode_parse ?f = Ok ((upd raw ino)\<lparr>i_checksum := c\<rparr>)" "length ?f = length raw'" "enabled (fv_csum fs) \<Longrightarrow> verify_inode crc (fv_csum fs) num (i_generation ino) ?f"
    using finalize_ok [OF e(2), of crc fs num] unfolding edit_keeps(1) by blast
  have lf: "length ?f = ?z" using c(2) e(1) lr by simp
  obtain x where x: "commit_inode_write crc traced_ops fs num ?f (ms, t) = (Ok (), (ms, one_write (block_size (fv_sb fs)) b x t))"
    "tr_image (one_write (block_size (fv_sb fs)) b x t) = put ?pos ?f (tr_image t)"
    using commit_inode_write_direct [OF assms(1) lf assms(2)] by blast
  let ?t = "one_write (block_size (fv_sb fs)) b x t"
  have len: "length (tr_image ?t) = length (tr_image t)" using x(2) slot lf by simp
  have slot': "inode_slot fs num (length (tr_image ?t)) b off" using assms(1) len by simp
  have rd: "read_inode_raw (fs_at traced_ops fs ?t) num = Ok ?f" using read_slot [OF slot'] lf slot unfolding x(2) by (simp add: slice_simps)
  have ceil: "byte_ceiling (fs_at traced_ops fs ?t) = byte_ceiling (fs_at traced_ops fs t)" using len by (simp add: byte_ceiling_def traced_ops_def)
  have "read_inode_verified crc (fs_at traced_ops fs ?t) num = Ok ((upd raw ino)\<lparr>i_checksum := c\<rparr>, ?f)"
    using rd c(1,3) v(3) edit_keeps(2,3) ceil by (auto simp: read_inode_verified_def edit_keeps(1) map_ok.simps is_dir_def inode_file_type_def)
  moreover have "img' = tr_image t \<or> img' = tr_image ?t" if "crashed (tr_image t) [] [EWrite (b * ucast (block_size (fv_sb fs))) x, EFlush] img'" for img'
    using one_write_crash [OF that block_offset [OF slot(2,3)]] .
  ultimately show ?thesis using x lf unfolding attr_written_def
    by (intro exI [of _ ?t] conjI) (auto simp: one_write_def)
qed

end

section \<open>The edits\<close>

lemma fits_put:
  assumes "k + length x \<le> 0x80" "0x80 \<le> length raw"
  shows "extra_field_fits (put k x raw) = extra_field_fits raw"
proof -
  have "slice 0x80 (0x80 + 2) (put k x raw) = slice 0x80 (0x80 + 2) raw" using assms by (intro slice_drop_cong [of "0x80"]) (simp_all add: put_def)
  then have "get_le16 OFF_EXTRA_ISIZE (put k x raw) = get_le16 OFF_EXTRA_ISIZE raw" by (simp add: get_le16_def OFF_EXTRA_ISIZE_def)
  moreover have "length (put k x raw) = length raw" using assms by (simp add: put_def)
  ultimately show ?thesis by (simp add: extra_field_fits_def fun_eq_iff)
qed

lemma stamped_put: "k + length x \<le> 0x80 \<Longrightarrow> 0x80 \<le> length raw \<Longrightarrow> stamped (put k x raw) f now ino = stamped raw f now ino"
  unfolding stamped_def by (simp only: fits_put)

lemma ctime_keeps [simp]:
  "i_generation (stamped raw Ctime now ino) = i_generation ino" "i_size (stamped raw Ctime now ino) = i_size ino" "i_mode (stamped raw Ctime now ino) = i_mode ino"
  by (simp_all add: stamped_def)

lemma ctime_after:
  assumes "Inode_parse raw1 = Ok ino1" "set_inode_time raw1 Ctime now = Ok raw'"
  shows "length raw' = length raw1" "Inode_parse raw' = Ok (stamped raw1 Ctime now ino1)"
  using set_inode_time_ok [OF assms(1), of Ctime now] assms(2) by auto

definition chmodded :: "u16 \<Rightarrow> int \<Rightarrow> bytes \<Rightarrow> inode \<Rightarrow> inode" where
  "chmodded mode now raw ino = stamped raw Ctime now (ino\<lparr>i_mode := (i_mode ino AND S_IFMT) OR (mode AND 0x0FFF)\<rparr>)"

definition chowned :: "u32 \<Rightarrow> u32 \<Rightarrow> int \<Rightarrow> bytes \<Rightarrow> inode \<Rightarrow> inode" where
  "chowned uid gid now raw ino =
     stamped raw Ctime now (ino\<lparr>i_uid := if uid = NOT 0 then i_uid ino else uid, i_gid := if gid = NOT 0 then i_gid ino else gid\<rparr>)"

definition flagged :: "u32 \<Rightarrow> int \<Rightarrow> bytes \<Rightarrow> inode \<Rightarrow> inode" where
  "flagged flags now raw ino = stamped raw Ctime now (ino\<lparr>i_flags := flags\<rparr>)"

lemma parse_put_mode: "Inode_parse raw = Ok ino \<Longrightarrow> Inode_parse (put 0 (u16_to_le m) raw) = Ok (ino\<lparr>i_mode := m\<rparr>)"
  using parse_len [of raw ino] by (auto simp: Inode_parse_def Let_def extra32_def declared_extra_def inode_consts codec_simps slice_simps split: if_splits)

lemma parse_put_flags: "Inode_parse raw = Ok ino \<Longrightarrow> Inode_parse (put 0x20 (u32_to_le m) raw) = Ok (ino\<lparr>i_flags := m\<rparr>)"
  using parse_len [of raw ino] by (auto simp: Inode_parse_def Let_def extra32_def declared_extra_def inode_consts codec_simps slice_simps split: if_splits)

lemma inode_halves: "Inode.join16 (ucast (drop_bit 16 w)) (ucast w) = w"
  using join_halves by (simp add: Inode.join16_def Bgd.join16_def)

lemma parse_put_uid: "Inode_parse raw = Ok ino \<Longrightarrow> Inode_parse (put 0x78 (u16_to_le (ucast (drop_bit 16 v))) (put 0x02 (u16_to_le (ucast v)) raw)) = Ok (ino\<lparr>i_uid := v\<rparr>)"
  using parse_len [of raw ino] by (auto simp: Inode_parse_def Let_def extra32_def declared_extra_def inode_consts codec_simps slice_simps inode_halves split: if_splits)

lemma parse_put_gid: "Inode_parse raw = Ok ino \<Longrightarrow> Inode_parse (put 0x7A (u16_to_le (ucast (drop_bit 16 v))) (put 0x18 (u16_to_le (ucast v)) raw)) = Ok (ino\<lparr>i_gid := v\<rparr>)"
  using parse_len [of raw ino] by (auto simp: Inode_parse_def Let_def extra32_def declared_extra_def inode_consts codec_simps slice_simps inode_halves split: if_splits)

lemma mode_type_kept: "((w AND S_IFMT) OR (m AND 0x0FFF)) AND S_IFMT = w AND S_IFMT"
proof -
  have "(m AND 0x0FFF) AND S_IFMT = m AND (0x0FFF AND S_IFMT)" by (simp only: and.assoc)
  also have "(0x0FFF :: u16) AND S_IFMT = 0" by (simp add: S_IFMT_def)
  finally show ?thesis by (simp add: bit.conj_disj_distrib2 and.assoc)
qed

interpretation chmod: attribute_edit "chmod_raw mode now" "chmodded mode now"
proof
  show "i_generation (chmodded mode now raw ino) = i_generation ino" "i_size (chmodded mode now raw ino) = i_size ino" "is_dir (chmodded mode now raw ino) = is_dir ino" for raw ino
    by (simp_all add: chmodded_def is_dir_def inode_file_type_def mode_type_kept)
  fix raw ino raw' assume a: "Inode_parse raw = Ok ino" "chmod_raw mode now ino raw = Ok raw'"
  let ?m = "(i_mode ino AND S_IFMT) OR (mode AND 0x0FFF)"
  have l: "128 \<le> length raw" by (rule parse_len [OF a(1)])
  have "set_inode_time (put 0 (u16_to_le ?m) raw) Ctime now = Ok raw'" using a(2) l by (simp add: chmod_raw_def put_checked_def)
  from ctime_after [OF parse_put_mode [OF a(1)] this] show "length raw' = length raw \<and> Inode_parse raw' = Ok (chmodded mode now raw ino)"
    using l stamped_put [of 0 "u16_to_le ?m" raw] by (simp add: chmodded_def)
qed

interpretation set_flags: attribute_edit "set_flags_raw flags now" "flagged flags now"
proof
  show "i_generation (flagged flags now raw ino) = i_generation ino" "i_size (flagged flags now raw ino) = i_size ino" "is_dir (flagged flags now raw ino) = is_dir ino" for raw ino
    by (simp_all add: flagged_def is_dir_def inode_file_type_def)
  fix raw ino raw' assume a: "Inode_parse raw = Ok ino" "set_flags_raw flags now ino raw = Ok raw'"
  have l: "128 \<le> length raw" by (rule parse_len [OF a(1)])
  have "set_inode_time (put 0x20 (u32_to_le flags) raw) Ctime now = Ok raw'" using a(2) l by (simp add: set_flags_raw_def put_checked_def split: if_splits)
  from ctime_after [OF parse_put_flags [OF a(1)] this] show "length raw' = length raw \<and> Inode_parse raw' = Ok (flagged flags now raw ino)"
    using l stamped_put [of "0x20" "u32_to_le flags" raw] by (simp add: flagged_def)
qed

interpretation chown: attribute_edit "chown_raw uid gid now" "chowned uid gid now"
proof
  show "i_generation (chowned uid gid now raw ino) = i_generation ino" "i_size (chowned uid gid now raw ino) = i_size ino" "is_dir (chowned uid gid now raw ino) = is_dir ino" for raw ino
    by (simp_all add: chowned_def is_dir_def inode_file_type_def)
  fix raw ino raw' assume a: "Inode_parse raw = Ok ino" "chown_raw uid gid now ino raw = Ok raw'"
  have l: "128 \<le> length raw" by (rule parse_len [OF a(1)])
  define r1 where "r1 = (if uid \<noteq> NOT 0 then put 0x78 (u16_to_le (ucast (drop_bit 16 uid))) (put 0x02 (u16_to_le (ucast uid)) raw) else raw)"
  define r2 where "r2 = (if gid \<noteq> NOT 0 then put 0x7A (u16_to_le (ucast (drop_bit 16 gid))) (put 0x18 (u16_to_le (ucast gid)) r1) else r1)"
  let ?i1 = "ino\<lparr>i_uid := if uid = NOT 0 then i_uid ino else uid\<rparr>"
  let ?i2 = "?i1\<lparr>i_gid := if gid = NOT 0 then i_gid ino else gid\<rparr>"
  have p1: "Inode_parse r1 = Ok ?i1" using parse_put_uid [OF a(1)] a(1) by (simp add: r1_def)
  have p2: "Inode_parse r2 = Ok ?i2" using parse_put_gid [OF p1] p1 by (simp add: r2_def)
  have len: "length r1 = length raw" "length r2 = length raw" using l by (simp_all add: r1_def r2_def)
  have st: "stamped r2 Ctime now i = stamped raw Ctime now i" for i using l by (simp add: r1_def r2_def stamped_put)
  have "set_inode_time r2 Ctime now = Ok raw'" using a(2) l by (simp add: chown_raw_def put_checked_def r1_def r2_def split: if_splits)
  from ctime_after [OF p2 this] show "length raw' = length raw \<and> Inode_parse raw' = Ok (chowned uid gid now raw ino)"
    using len st by (simp add: chowned_def)
qed

section \<open>Setting the times\<close>

fun with_nsec :: "inode_time \<Rightarrow> u32 \<Rightarrow> inode \<Rightarrow> inode" where
  "with_nsec Atime n ino = ino\<lparr>i_atime_nsec := n\<rparr>"
| "with_nsec Ctime n ino = ino\<lparr>i_ctime_nsec := n\<rparr>"
| "with_nsec Mtime n ino = ino\<lparr>i_mtime_nsec := n\<rparr>"
| "with_nsec Crtime n ino = ino\<lparr>i_crtime_nsec := n\<rparr>"

text \<open>What an update makes of a time: the second asked for, and the nanoseconds where the inode has a field for them.\<close>

fun timed :: "inode_time \<Rightarrow> time_update \<Rightarrow> bytes \<Rightarrow> inode \<Rightarrow> inode" where
  "timed f Omit raw ino = ino"
| "timed f (SetTime sec nsec) raw ino =
     (if extra_field_fits raw (extra_offset f) then with_nsec f nsec (with_time f sec ino) else with_time f sec ino)"

definition storable :: "time_update \<Rightarrow> bool" where
  "storable upd \<longleftrightarrow> (case upd of Omit \<Rightarrow> True | SetTime sec nsec \<Rightarrow> MIN_ENCODABLE_TIME \<le> sec \<and> sec \<le> MAX_ENCODABLE_TIME \<and> nsec < NSEC_PER_SEC)"

lemma fits_put_after:
  assumes "0x82 \<le> k" "k + length x \<le> length raw"
  shows "extra_field_fits (put k x raw) = extra_field_fits raw"
proof -
  have "slice 0x80 (0x80 + 2) (put k x raw) = slice 0x80 (0x80 + 2) raw" using assms by (intro slice_take_cong [of "0x82"]) (simp_all add: put_def)
  then have "get_le16 OFF_EXTRA_ISIZE (put k x raw) = get_le16 OFF_EXTRA_ISIZE raw" by (simp add: get_le16_def OFF_EXTRA_ISIZE_def)
  moreover have "length (put k x raw) = length raw" using assms by (simp add: put_def)
  ultimately show ?thesis by (simp add: extra_field_fits_def fun_eq_iff)
qed

lemma packed_time:
  assumes "MIN_ENCODABLE_TIME \<le> sec" "sec \<le> MAX_ENCODABLE_TIME" "nsec < NSEC_PER_SEC"
  shows "unpack_seconds (fst (pack_seconds sec)) (pack_nsec_lo nsec OR snd (pack_seconds sec)) = sec" "drop_bit 2 (pack_nsec_lo nsec OR snd (pack_seconds sec)) = nsec"
proof -
  have "unat nsec < 2 ^ 30" using assms(3) by (simp add: NSEC_PER_SEC_def word_less_nat_alt)
  then have "unat (take_bit 30 nsec) = unat nsec" by (simp add: unsigned_take_bit_eq take_bit_nat_eq_self)
  then have tb: "take_bit 30 nsec = nsec" by (rule unsigned_word_eqI)
  have "nsec AND 0x3FFFFFFF = take_bit 30 nsec" by (simp add: take_bit_eq_mask mask_eq_exp_minus_1)
  then have pn: "pack_nsec_lo nsec = push_bit 2 nsec" using tb by (simp add: pack_nsec_lo_def)
  have era: "snd (pack_seconds sec) AND 3 = snd (pack_seconds sec)" by (simp add: pack_seconds_def ERA_FIELD_def Let_def and.assoc)
  have "(3 :: u32) = mask 2" by (simp add: mask_eq_exp_minus_1)
  then have "push_bit 2 nsec AND 3 = take_bit 2 (push_bit 2 nsec)" by (simp only: take_bit_eq_mask)
  then have low: "pack_nsec_lo nsec AND 3 = 0" unfolding pn by (simp add: take_bit_push_bit)
  have "(pack_nsec_lo nsec OR snd (pack_seconds sec)) AND 3 = snd (pack_seconds sec)" using era low by (simp add: bit.conj_disj_distrib2)
  then show "unpack_seconds (fst (pack_seconds sec)) (pack_nsec_lo nsec OR snd (pack_seconds sec)) = sec"
    using pack_unpack [OF assms(1,2)] era by (simp add: unpack_seconds_def ERA_FIELD_def)
  have "drop_bit 2 (snd (pack_seconds sec)) = 0" by (rule era_small)
  moreover have "drop_bit 2 (pack_nsec_lo nsec) = nsec"
  proof (rule bit_word_eqI)
    fix i assume "i < LENGTH(32)"
    show "bit (drop_bit 2 (pack_nsec_lo nsec)) i = bit nsec i" unfolding pn by (subst (2) tb [symmetric]) (auto simp: bit_simps)
  qed
  ultimately show "drop_bit 2 (pack_nsec_lo nsec OR snd (pack_seconds sec)) = nsec" by simp
qed

lemma parse_time_extra:
  assumes "Inode_parse raw = Ok ino" "extra_field_fits raw (extra_offset f)"
  shows "Inode_parse (put (extra_offset f) (u32_to_le e) (put (base_offset f) (u32_to_le b) raw)) = Ok (with_nsec f (drop_bit 2 e) (with_time f (unpack_seconds b e) ino))"
proof -
  have fit: "extra_offset f + 4 \<le> 128 + declared_extra raw" using fits_declared [OF assms(1), of "extra_offset f"] assms(2) by (cases f) auto
  have l: "extra_offset f + 4 \<le> length raw" "136 \<le> length raw" using assms(2) by (cases f; simp add: extra_field_fits_def Let_def)+
  show ?thesis using assms(1) fit l
    by (cases f) (auto simp: Inode_parse_def Let_def extra32_def declared_extra_def inode_consts codec_simps slice_simps split: if_splits)
qed

text \<open>The test the operation makes for the companion word is the one of the parser.\<close>

lemma has_extra_iff:
  assumes "Inode_parse raw = Ok ino"
  shows "(if length raw \<ge> 0x82 then get_le16 0x80 raw else 0) \<ge> 12 \<and> length raw \<ge> 0x8C \<longleftrightarrow> extra_field_fits raw (extra_offset Mtime)"
    "(if length raw \<ge> 0x82 then get_le16 0x80 raw else 0) \<ge> 16 \<and> length raw \<ge> 0x90 \<longleftrightarrow> extra_field_fits raw (extra_offset Atime)"
  by (auto simp: extra_field_fits_def inode_consts Let_def word_le_nat_alt)

lemma write_time_ok:
  assumes "Inode_parse raw = Ok ino" "storable upd" "f \<in> {Atime, Mtime}" "time_fits upd (extra_field_fits raw (extra_offset f)) = Ok ()"
  shows "\<exists>raw'. write_time upd (base_offset f) (if extra_field_fits raw (extra_offset f) then Some (extra_offset f) else None) raw = Ok raw' \<and>
    length raw' = length raw \<and> extra_field_fits raw' = extra_field_fits raw \<and> Inode_parse raw' = Ok (timed f upd raw ino)"
proof (cases upd)
  case Omit
  then show ?thesis using assms(1) by (simp add: write_time_def)
next
  case (SetTime sec nsec)
  have l: "128 \<le> length raw" by (rule parse_len [OF assms(1)])
  have r: "MIN_ENCODABLE_TIME \<le> sec" "sec \<le> MAX_ENCODABLE_TIME" "nsec < NSEC_PER_SEC" using assms(2) SetTime by (auto simp: storable_def)
  obtain b e where be: "pack_seconds sec = (b, e)" by (cases "pack_seconds sec")
  note pt = packed_time [OF r, unfolded be fst_conv snd_conv]
  have base: "base_offset f + 4 \<le> 0x80" using assms(3) by auto
  let ?r1 = "put (base_offset f) (u32_to_le b) raw"
  have f1: "extra_field_fits ?r1 = extra_field_fits raw" using base l by (intro fits_put) auto
  show ?thesis
  proof (cases "extra_field_fits raw (extra_offset f)")
    case True
    let ?r2 = "put (extra_offset f) (u32_to_le (pack_nsec_lo nsec OR e)) ?r1"
    have fit: "extra_offset f + 4 \<le> length raw" "0x82 \<le> extra_offset f" using True assms(3) by (auto simp: extra_field_fits_def Let_def)
    have "extra_field_fits ?r2 = extra_field_fits raw" using fits_put_after [of "extra_offset f" "u32_to_le (pack_nsec_lo nsec OR e)" ?r1] fit f1 base l by simp
    moreover have "Inode_parse ?r2 = Ok (timed f upd raw ino)" using parse_time_extra [OF assms(1) True] True SetTime pt by simp
    moreover have "write_time upd (base_offset f) (Some (extra_offset f)) raw = Ok ?r2" using SetTime be fit base l by (simp add: write_time_def put_checked_def)
    ultimately show ?thesis using True fit base l by simp
  next
    case False
    then have "e = 0" using assms(4) SetTime be by (simp add: time_fits_def split: if_splits)
    then have "unpack_seconds b 0 = sec" using pack_unpack [OF r(1,2)] be by simp
    then have "Inode_parse ?r1 = Ok (timed f upd raw ino)" using parse_put_base [OF assms(1) False _ refl, of b] False SetTime assms(3) by auto
    moreover have "write_time upd (base_offset f) None raw = Ok ?r1" using SetTime be base l by (simp add: write_time_def put_checked_def)
    ultimately show ?thesis using False f1 base l by simp
  qed
qed

definition timed_both :: "time_update \<Rightarrow> time_update \<Rightarrow> int \<Rightarrow> bytes \<Rightarrow> inode \<Rightarrow> inode" where
  "timed_both atime mtime now raw ino = stamped raw Ctime now (timed Mtime mtime raw (timed Atime atime raw ino))"

lemma timed_fits: "extra_field_fits raw1 = extra_field_fits raw \<Longrightarrow> timed f upd raw1 = timed f upd raw \<and> stamped raw1 f now = stamped raw f now"
  by (cases upd) (auto simp: fun_eq_iff stamped_def)

lemma utimens_parse:
  assumes "storable atime" "storable mtime" "Inode_parse raw = Ok ino" "utimens_raw atime mtime now raw = Ok raw'"
  shows "length raw' = length raw \<and> Inode_parse raw' = Ok (timed_both atime mtime now raw ino)"
proof -
  let ?fa = "extra_field_fits raw (extra_offset Atime)" and ?fm = "extra_field_fits raw (extra_offset Mtime)"
  have u: "and_then (time_fits atime ?fa) (\<lambda>_. and_then (time_fits mtime ?fm) (\<lambda>_.
      and_then (write_time atime 0x08 (if ?fa then Some 0x8C else None) raw) (\<lambda>raw. and_then (write_time mtime 0x10 (if ?fm then Some 0x88 else None) raw) (\<lambda>raw.
      set_inode_time raw Ctime now)))) = Ok raw'"
    using assms(4) unfolding utimens_raw_def Let_def has_extra_iff [OF assms(3)] .
  then have tf: "time_fits atime ?fa = Ok ()" "time_fits mtime ?fm = Ok ()" by (auto simp: outcome_simps)
  obtain r1 where r1: "write_time atime 0x08 (if ?fa then Some 0x8C else None) raw = Ok r1" "length r1 = length raw" "extra_field_fits r1 = extra_field_fits raw"
    "Inode_parse r1 = Ok (timed Atime atime raw ino)"
    using write_time_ok [OF assms(3,1) insertI1 tf(1), unfolded base_offset.simps extra_offset.simps] unfolding extra_offset.simps by blast
  have "time_fits mtime (extra_field_fits r1 (extra_offset Mtime)) = Ok ()" using tf(2) r1(3) by simp
  from write_time_ok [OF r1(4) assms(2) insertI2 [OF insertI1] this, unfolded base_offset.simps extra_offset.simps r1(3)] obtain r2 where r2: "write_time mtime 0x10 (if ?fm then Some 0x88 else None) r1 = Ok r2" "length r2 = length r1"
    "extra_field_fits r2 = extra_field_fits r1" "Inode_parse r2 = Ok (timed Mtime mtime r1 (timed Atime atime raw ino))" unfolding extra_offset.simps r1(3) by blast
  have "set_inode_time r2 Ctime now = Ok raw'" using u tf r1(1) r2(1) by simp
  from ctime_after [OF r2(4) this] show ?thesis
    using r1(2,3) r2(2,3) timed_fits [of r1 raw] timed_fits [of r2 raw] by (simp add: timed_both_def)
qed

lemma timed_keeps [simp]:
  "i_generation (timed f upd raw ino) = i_generation ino" "i_size (timed f upd raw ino) = i_size ino" "i_mode (timed f upd raw ino) = i_mode ino"
  by (cases upd; cases f; simp)+

lemma utimens_edit:
  "storable atime \<Longrightarrow> storable mtime \<Longrightarrow> attribute_edit (\<lambda>_. utimens_raw atime mtime now) (timed_both atime mtime now)"
  by unfold_locales (use utimens_parse in blast, simp_all add: timed_both_def is_dir_def inode_file_type_def)

section \<open>The operations\<close>

lemma live_inode_reads:
  "live_inode crc fs r st = (Ok (ino, raw), a) \<Longrightarrow> read_inode_verified crc fs (ir_ino r) = Ok (ino, raw)"
  by (auto simp: live_inode_def Let_def split_beta outcome_simps split: if_splits)

lemma chmod_total:
  assumes "Inode_parse raw = Ok ino"
  shows "\<exists>raw'. chmod_raw mode now ino raw = Ok raw'"
  using set_inode_time_ok [OF parse_put_mode [OF assms], where f = Ctime and secs = now] parse_len [OF assms] by (auto simp: chmod_raw_def put_checked_def)

lemma chown_total:
  assumes "Inode_parse raw = Ok ino"
  shows "\<exists>raw'. chown_raw uid gid now ino raw = Ok raw'"
proof -
  have l: "128 \<le> length raw" by (rule parse_len [OF assms])
  obtain i1 where p1: "Inode_parse (if uid \<noteq> NOT 0 then put 0x78 (u16_to_le (ucast (drop_bit 16 uid))) (put 0x02 (u16_to_le (ucast uid)) raw) else raw) = Ok i1" (is "Inode_parse ?r1 = _")
    using parse_put_uid [OF assms, of uid] assms by (cases "uid \<noteq> NOT 0") auto
  obtain i2 where p2: "Inode_parse (if gid \<noteq> NOT 0 then put 0x7A (u16_to_le (ucast (drop_bit 16 gid))) (put 0x18 (u16_to_le (ucast gid)) ?r1) else ?r1) = Ok i2"
    using parse_put_gid [OF p1, of gid] p1 by (cases "gid \<noteq> NOT 0") auto
  show ?thesis using set_inode_time_ok [OF p2, of Ctime now] l by (auto simp: chown_raw_def put_checked_def split: if_splits)
qed

text \<open>What a write guarded and addressed by a handle needs of the mount: the guard passed, the handle is live, and there is no journal.\<close>

definition ready_for :: "crc_fn \<Rightarrow> fs_view \<Rightarrow> inode_ref \<Rightarrow> mount_state \<times> traced \<Rightarrow> mount_state \<times> traced \<Rightarrow> inode \<Rightarrow> bytes \<Rightarrow> bool" where
  "ready_for crc fs r st st1 ino raw \<longleftrightarrow> refuse_write crc traced_ops fs st = (Ok (), st1) \<and> ls_journal (ms_live (fst st1)) = None \<and>
     fst (live_inode crc (fs_at traced_ops fs (snd st1)) r (ls_alloc (ms_live (fst st1)))) = Ok (ino, raw)"

lemma readyE:
  assumes "ready_for crc fs r st (ms1, t1) ino raw"
  obtains ms2 where "refuse_write crc traced_ops fs st = (Ok (), (ms1, t1))" "reading traced_ops fs (\<lambda>fs. live_inode crc fs r) (ms1, t1) = (Ok (ino, raw), (ms2, t1))"
    "ls_journal (ms_live ms2) = None" "read_inode_verified crc (fs_at traced_ops fs t1) (ir_ino r) = Ok (ino, raw)" "Inode_parse raw = Ok ino"
proof -
  obtain a where l: "live_inode crc (fs_at traced_ops fs t1) r (ls_alloc (ms_live ms1)) = (Ok (ino, raw), a)" using assms by (cases "live_inode crc (fs_at traced_ops fs t1) r (ls_alloc (ms_live ms1))") (auto simp: ready_for_def)
  note v = live_inode_reads [OF l]
  show ?thesis
    by (rule that [of "ms1\<lparr>ms_live := (ms_live ms1)\<lparr>ls_alloc := a\<rparr>\<rparr>"]) (use assms l v read_verified_parts(2) [OF v] in \<open>simp_all add: ready_for_def reading_def\<close>)
qed

text \<open>
  C8. Changing mode or owner of an inode on a volume without a journal (\<open>apply_chmod_ino\<close>, \<open>apply_chown_ino\<close>): once the write guard has passed and the handle is live, the operation succeeds; the inode reads back,
  checksum verified, with the permission bits or the owner asked for (the file type kept, an owner of all ones left as it was) and the change time stamped, and every other field as before; no
  byte of the device outside its record changes; and a crash leaves the device as before or as after.
\<close>

theorem mode_and_owner_writes_correct:
  assumes "ready_for crc fs r st (ms1, t1) ino raw" "inode_slot fs (ir_ino r) (length (tr_image t1)) b off"
  defines "pos \<equiv> unat b * bs_nat (fv_sb fs) + off"
  shows "(\<exists>ms' t'. apply_chmod_ino crc traced_ops fs now r mode st = (Ok (), (ms', t')) \<and> attr_written crc fs (ir_ino r) pos (chmodded mode now raw ino) t1 t') \<and>
    (\<exists>ms' t'. apply_chown_ino crc traced_ops fs now r uid gid st = (Ok (), (ms', t')) \<and> attr_written crc fs (ir_ino r) pos (chowned uid gid now raw ino) t1 t')"
proof -
  obtain ms2 where g: "refuse_write crc traced_ops fs st = (Ok (), (ms1, t1))" "reading traced_ops fs (\<lambda>fs. live_inode crc fs r) (ms1, t1) = (Ok (ino, raw), (ms2, t1))"
    "ls_journal (ms_live ms2) = None" "read_inode_verified crc (fs_at traced_ops fs t1) (ir_ino r) = Ok (ino, raw)" "Inode_parse raw = Ok ino"
    by (rule readyE [OF assms(1)])
  obtain r1 where r1: "chmod_raw mode now ino raw = Ok r1" using chmod_total [OF g(5)] by blast
  obtain r2 where r2: "chown_raw uid gid now ino raw = Ok r2" using chown_total [OF g(5)] by blast
  have "\<exists>ms' t'. apply_chmod_ino crc traced_ops fs now r mode st = (Ok (), (ms', t')) \<and> attr_written crc fs (ir_ino r) pos (chmodded mode now raw ino) t1 t'"
    using chmod.write_ok [OF assms(2) g(3,4) r1] g(1,2) r1 by (auto simp: apply_chmod_ino_def pos_def)
  moreover have "\<exists>ms' t'. apply_chown_ino crc traced_ops fs now r uid gid st = (Ok (), (ms', t')) \<and> attr_written crc fs (ir_ino r) pos (chowned uid gid now raw ino) t1 t'"
    using chown.write_ok [OF assms(2) g(3,4) r2] g(1,2) r2 by (auto simp: apply_chown_ino_def pos_def)
  ultimately show ?thesis by blast
qed

lemma era_zero:
  assumes "MIN_ENCODABLE_TIME \<le> sec" "sec \<le> MAX_ENCODABLE_TIME"
  shows "snd (pack_seconds sec) = 0 \<longleftrightarrow> sec < 2 ^ 31"
proof
  assume "snd (pack_seconds sec) = 0"
  then have "sec = sint (fst (pack_seconds sec))" using pack_unpack [OF assms] by (simp add: unpack_seconds_def)
  then show "sec < 2 ^ 31" using sint_lt [of "fst (pack_seconds sec)"] by simp
next
  assume "sec < 2 ^ 31"
  then have "(sec + 2 ^ 31) div 2 ^ 32 = 0" using assms(1) by (simp add: MIN_ENCODABLE_TIME_def I32_MIN_def)
  moreover have "drop_bit 1 (drop_bit 31 sec + 1) = (sec + 2 ^ 31) div 2 ^ 32" by (simp add: drop_bit_eq_div)
  ultimately show "snd (pack_seconds sec) = 0" by (simp add: pack_seconds_def Let_def)
qed

definition time_room :: "inode_time \<Rightarrow> time_update \<Rightarrow> bytes \<Rightarrow> bool" where
  "time_room f upd raw \<longleftrightarrow> (case upd of Omit \<Rightarrow> True | SetTime sec _ \<Rightarrow> sec < 2 ^ 31 \<or> extra_field_fits raw (extra_offset f))"

lemma time_fits_room:
  "storable upd \<Longrightarrow> time_fits upd (extra_field_fits raw (extra_offset f)) =
     (if time_room f upd raw then Ok () else Err (InvalidArgument ''timestamp past 2038 needs an *_extra field this inode is too small to hold''))"
  using era_zero by (auto simp: time_fits_def time_room_def storable_def split: time_update.splits)

lemma resolved_storable:
  "time_resolve sec nsec now = Ok upd \<Longrightarrow> MIN_ENCODABLE_TIME \<le> now \<Longrightarrow> now \<le> MAX_ENCODABLE_TIME \<Longrightarrow> storable upd"
  by (auto simp: time_resolve_def storable_def NSEC_PER_SEC_def word_less_nat_alt not_le split: if_splits)

lemma utimens_total:
  assumes "storable atime" "storable mtime" "Inode_parse raw = Ok ino"
  shows "if time_room Atime atime raw \<and> time_room Mtime mtime raw then \<exists>raw'. utimens_raw atime mtime now raw = Ok raw'
    else \<exists>e. utimens_raw atime mtime now raw = Err (InvalidArgument e)"
proof -
  let ?fa = "extra_field_fits raw (extra_offset Atime)" and ?fm = "extra_field_fits raw (extra_offset Mtime)"
  have u: "utimens_raw atime mtime now raw = and_then (time_fits atime ?fa) (\<lambda>_. and_then (time_fits mtime ?fm) (\<lambda>_.
      and_then (write_time atime 0x08 (if ?fa then Some 0x8C else None) raw) (\<lambda>raw. and_then (write_time mtime 0x10 (if ?fm then Some 0x88 else None) raw) (\<lambda>raw.
      set_inode_time raw Ctime now))))"
    unfolding utimens_raw_def Let_def has_extra_iff [OF assms(3)] ..
  show ?thesis
  proof (cases "time_room Atime atime raw \<and> time_room Mtime mtime raw")
    case False
    then show ?thesis unfolding u time_fits_room [OF assms(1)] time_fits_room [OF assms(2)] by (auto split: if_splits)
  next
    case True
    then have tf: "time_fits atime ?fa = Ok ()" "time_fits mtime ?fm = Ok ()" using time_fits_room [OF assms(1), of raw Atime] time_fits_room [OF assms(2), of raw Mtime] by auto
    obtain r1 where r1: "write_time atime 0x08 (if ?fa then Some 0x8C else None) raw = Ok r1" "extra_field_fits r1 = extra_field_fits raw" "Inode_parse r1 = Ok (timed Atime atime raw ino)"
      using write_time_ok [OF assms(3,1) insertI1 tf(1), unfolded base_offset.simps extra_offset.simps] unfolding extra_offset.simps by blast
    have "time_fits mtime (extra_field_fits r1 (extra_offset Mtime)) = Ok ()" using tf(2) r1(2) by simp
    from write_time_ok [OF r1(3) assms(2) insertI2 [OF insertI1] this, unfolded base_offset.simps extra_offset.simps r1(2)]
    obtain r2 where r2: "write_time mtime 0x10 (if ?fm then Some 0x88 else None) r1 = Ok r2" "Inode_parse r2 = Ok (timed Mtime mtime r1 (timed Atime atime raw ino))"
      unfolding extra_offset.simps by blast
    obtain raw' where "set_inode_time r2 Ctime now = Ok raw'" using set_inode_time_ok [OF r2(2)] by blast
    then have "utimens_raw atime mtime now raw = Ok raw'" unfolding u tf and_then.simps r1(1) r2(1) .
    then show ?thesis using True by simp
  qed
qed

text \<open>
  C14. Setting access and modification time (\<open>apply_utimens_ino\<close>) on a volume without a journal, behind the guard and on a live handle: with both times omitted nothing is written; where the inode has no field for a
  time past 2038 the call is refused and nothing is written; otherwise the inode reads back, verified, with exactly the second asked for and, where it has the field, the
  nanoseconds, an omitted time as before, the change time stamped and every other field as before; no byte outside its record changes, and a crash leaves the device as before or as after.
\<close>

theorem apply_utimens_correct:
  assumes "ready_for crc fs r st (ms1, t1) ino raw" "inode_slot fs (ir_ino r) (length (tr_image t1)) b off" "MIN_ENCODABLE_TIME \<le> now" "now \<le> MAX_ENCODABLE_TIME"
    "time_resolve asec ansec now = Ok atime" "time_resolve msec mnsec now = Ok mtime"
  shows "let res = apply_utimens_ino crc traced_ops fs now r asec ansec msec mnsec st in
    if atime = Omit \<and> mtime = Omit then \<exists>ms'. res = (Ok (), (ms', t1))
    else if time_room Atime atime raw \<and> time_room Mtime mtime raw
    then \<exists>ms' t'. res = (Ok (), (ms', t')) \<and> attr_written crc fs (ir_ino r) (unat b * bs_nat (fv_sb fs) + off) (timed_both atime mtime now raw ino) t1 t'
    else \<exists>ms' e. res = (Err (InvalidArgument e), (ms', t1))"
proof -
  obtain ms2 where g: "refuse_write crc traced_ops fs st = (Ok (), (ms1, t1))" "reading traced_ops fs (\<lambda>fs. live_inode crc fs r) (ms1, t1) = (Ok (ino, raw), (ms2, t1))"
    "ls_journal (ms_live ms2) = None" "read_inode_verified crc (fs_at traced_ops fs t1) (ir_ino r) = Ok (ino, raw)" "Inode_parse raw = Ok ino"
    by (rule readyE [OF assms(1)])
  have s: "storable atime" "storable mtime" using resolved_storable assms(3-6) by blast+
  have run: "apply_utimens_ino crc traced_ops fs now r asec ansec msec mnsec st =
      (if atime = Omit \<and> mtime = Omit then (Ok (), (ms2, t1))
       else st_bind (utimens_raw atime mtime now raw, (ms2, t1)) (\<lambda>raw st. commit_inode_write crc traced_ops fs (ir_ino r) (finalize_inode_raw crc fs (ir_ino r) (i_generation ino) raw) st))"
    using g(1,2) assms(5,6) by (simp add: apply_utimens_ino_def)
  show ?thesis
  proof (cases "time_room Atime atime raw \<and> time_room Mtime mtime raw")
    case True
    then obtain raw' where r: "utimens_raw atime mtime now raw = Ok raw'" using utimens_total [OF s g(5), of now] by auto
    show ?thesis using attribute_edit.write_ok [OF utimens_edit [OF s] assms(2) g(3,4) r] True r unfolding run by (auto simp: Let_def)
  next
    case False
    then obtain e where "utimens_raw atime mtime now raw = Err (InvalidArgument e)" using utimens_total [OF s g(5), of now] by presburger
    then show ?thesis using False unfolding run by (auto simp: Let_def)
  qed
qed

section \<open>The write guard\<close>

text \<open>
  C21. The guard every write passes (\<open>refuse_write\<close>). On any device that is not writable it refuses, and nothing changes. On a writable one a mount after a failed direct commit, one whose journal awaits replay and a volume with features this driver does not maintain are refused
  with their errors, and a refused call leaves device and mount as they were. A write that passes leaves the volume marked not clean on disk: the first one clears the valid bit, with the state found
  kept for the unmount, and changes nothing outside the superblock; later ones write nothing.
\<close>

theorem refuse_write_correct:
  assumes "2048 \<le> length (tr_image t)"
  shows "(\<not> dv_writable dev s \<longrightarrow> refuse_write crc dev fs (ms, s) = (Err ReadOnly, (ms, s))) \<and>
    (\<exists>r ms' t'. refuse_write crc traced_ops fs (ms, t) = (r, (ms', t')) \<and>
    (if direct_commit_failed (ms_live ms) then r = Err ReadOnly
     else if replay_pending ms then r = Err JournalNotReplayed
     else if unmaintained_ro_compat (feature_ro_compat (fv_sb fs)) \<noteq> 0 then r = Err (UnsupportedRoCompat (unmaintained_ro_compat (feature_ro_compat (fv_sb fs))))
     else if write_breaking_incompat (feature_incompat (fv_sb fs)) \<noteq> 0 then r = Err (UnsupportedIncompat (write_breaking_incompat (feature_incompat (fv_sb fs))))
     else r = Ok ()) \<and>
    ms_live ms' = ms_live ms \<and> length (tr_image t') = length (tr_image t) \<and>
    take 1024 (tr_image t') = take 1024 (tr_image t) \<and> drop 2048 (tr_image t') = drop 2048 (tr_image t) \<and>
    (r \<noteq> Ok () \<or> marked_not_clean ms \<longrightarrow> ms' = ms \<and> t' = t) \<and>
    (r = Ok () \<and> \<not> marked_not_clean ms \<longrightarrow> marked_not_clean ms' \<and> state_found ms' = sb_state (fv_sb fs) \<and>
       get_le16 (1024 + 0x3A) (tr_image t') = sb_state (fv_sb fs) AND NOT EXT4_VALID_FS))" (is "?closed \<and> ?open")
proof
  show ?closed by (simp add: refuse_write_def write_refusal_def)
  show ?open
  proof (cases "write_refusal traced_ops fs ms t = Ok () \<and> \<not> marked_not_clean ms")
    case False
    have w: "write_refusal traced_ops fs ms t \<noteq> Panic" by (simp add: write_refusal_def Let_def)
    have "refuse_write crc traced_ops fs (ms, t) = (write_refusal traced_ops fs ms t, (ms, t))"
      using False w by (cases "write_refusal traced_ops fs ms t") (auto simp: refuse_write_def mark_not_clean_once_def)
    then show ?thesis using False by (auto simp: write_refusal_def Let_def traced_ops_def)
  next
    case True
    let ?sb0 = "slice 1024 2048 (tr_image t)" and ?v = "sb_state (fv_sb fs) AND NOT EXT4_VALID_FS"
    define sb where "sb = (let s = put 0x3A (u16_to_le ?v) ?sb0 in if enabled (fv_csum fs) then put 0x3FC (u32_to_le (linux_crc32c crc (NOT 0) (take 0x3FC s))) s else s)"
    have l: "length sb = 1024" using assms by (simp add: sb_def Let_def)
    have st: "get_le16 0x3A sb = ?v" using assms by (simp add: sb_def Let_def codec_simps)
    let ?t = "\<lparr>tr_image = put 1024 sb (tr_image t), tr_events = tr_events t @ [EWrite SUPERBLOCK_OFFSET sb, EFlush]\<rparr>"
    have off: "unat SUPERBLOCK_OFFSET = 1024" by (simp add: SUPERBLOCK_OFFSET_def)
    have "write_superblock_state crc traced_ops fs ?v t = (Ok (), ?t)"
      using assms l off unfolding write_superblock_state_def
      by (simp add: traced_ops_def traced_read_def traced_write_def Let_def flip: sb_def [unfolded Let_def])
    then have r: "refuse_write crc traced_ops fs (ms, t) = (Ok (), (ms\<lparr>state_found := sb_state (fv_sb fs), marked_not_clean := True\<rparr>, ?t))"
      using True by (simp add: refuse_write_def mark_not_clean_once_def Let_def)
    have "slice 1024 2048 (put 1024 sb (tr_image t)) = sb" using assms l by (intro slice_put_same) simp_all
    then have "slice 58 60 sb = slice (1024 + 58) (1024 + 60) (put 1024 sb (tr_image t))" using slice_slice [of 60 2048 1024 58 "put 1024 sb (tr_image t)"] by (simp only:)
    then have "get_le16 (1024 + 0x3A) (put 1024 sb (tr_image t)) = get_le16 0x3A sb" by (simp add: get_le16_def)
    then show ?thesis using True st assms l unfolding r by (auto simp: write_refusal_def Let_def slice_simps split: if_splits)
  qed
qed

section \<open>A volume with one file\<close>

text \<open>Inode 11, a regular file of mode 0644, in block 14 of a volume of sixteen blocks; its bit is set in block 11.\<close>

definition sample_file :: bytes where
  "sample_file = put 0x80 [32, 0] (put 0x1A [1, 0] (put 0 [0xA4, 0x81] (replicate 256 0)))"

definition sample_inode_map :: bytes where
  "sample_inode_map = [0, 4] @ replicate 1022 0"

definition sample_traced :: traced where
  "sample_traced = \<lparr>tr_image = put 14848 sample_file (put 11264 sample_inode_map (replicate 16384 0)), tr_events = []\<rparr>"

definition sample_view :: fs_view where
  "sample_view = \<lparr>fv_sb = sized 256, fv_groups = example_groups, fv_csum = \<lparr>seed = 0, enabled = False\<rparr>, fv_dev = \<lambda>_ _. Panic, fv_dev_size = 0\<rparr>"

definition sample_mount :: mount_state where
  "sample_mount = \<lparr>ms_live = \<lparr>ls_journal = None, ls_alloc = \<lparr>cleared = [], overridden = None\<rparr>, direct_commit_failed = False\<rparr>,
     replay_pending = False, marked_not_clean = True, state_found = 0\<rparr>"

lemma sample_lengths [simp]: "length sample_file = 256" "length sample_inode_map = 1024" "length (tr_image sample_traced) = 16384"
  by (simp_all add: sample_file_def sample_inode_map_def sample_traced_def)

lemma sample_view_fields [simp]:
  "fv_sb sample_view = sized 256" "fv_groups sample_view = example_groups" "enabled (fv_csum sample_view) = False"
  by (simp_all add: sample_view_def)

lemma sample_slot: "inode_slot sample_view 11 (length (tr_image sample_traced)) 14 512"
proof -
  have "locate_inode (sized 256) example_groups 11 = Ok (14, 512)"
    by (simp add: locate_inode_def Let_def checked_add_def word_less_nat_alt word_le_nat_alt example_groups_def example_bgd_def)
  then show ?thesis by (simp add: inode_slot_def)
qed

lemma sample_volume_blocks:
  "Block_Cache.block_of 1024 11 (tr_image sample_traced) = sample_inode_map"
  "slice 14848 15104 (tr_image sample_traced) = sample_file"
  by (simp_all add: sample_traced_def Block_Cache.block_of_def slice_simps)

lemma sample_parse:
  obtains ino where "Inode_parse sample_file = Ok ino" "i_mode ino = 0x81A4" "i_links_count ino = 1" "i_mtime ino = 0" "i_mtime_nsec ino = 0" "i_uid ino = 0"
proof -
  have "get_le16 0x80 sample_file = 32" "get_le16 0 sample_file = 0x81A4" "get_le16 0x1A sample_file = 1" "get_le32 0x10 sample_file = 0" "get_le32 0x88 sample_file = 0"
     "get_le16 2 sample_file = 0" "get_le16 0x78 sample_file = 0" by code_simp+
  then have "\<exists>ino. Inode_parse sample_file = Ok ino \<and> i_mode ino = 0x81A4 \<and> i_links_count ino = 1 \<and> i_mtime ino = 0 \<and> i_mtime_nsec ino = 0 \<and> i_uid ino = 0"
    by (simp add: Inode_parse_def Let_def extra32_def declared_extra_def inode_consts unpack_seconds_def join16_def)
  then show ?thesis using that by blast
qed

lemma sample_ready:
  assumes "Inode_parse sample_file = Ok ino" "i_mode ino = 0x81A4" "i_links_count ino = 1"
  shows "ready_for crc sample_view (inode_ref_any 11) (sample_mount, sample_traced) (sample_mount, sample_traced) ino sample_file"
proof -
  let ?fs = "fs_at traced_ops sample_view sample_traced"
  have raw: "read_inode_raw ?fs 11 = Ok sample_file" using read_slot [OF sample_slot] sample_volume_blocks(2) by simp
  have "\<not> is_dir ino" using assms(2) by (simp add: is_dir_def inode_file_type_def S_IFMT_def S_IFDIR_def)
  then have v: "read_inode_verified crc ?fs 11 = Ok (ino, sample_file)" using raw assms(1) by (simp add: read_inode_verified_def)
  have "fs_read_block ?fs 11 = Ok sample_inode_map" using traced_read_block [of 11 sample_view sample_traced] sample_volume_blocks(1) by simp
  moreover have "bit_is_set sample_inode_map 10" by code_simp
  ultimately have bit: "inode_bit_is_set ?fs 11 \<lparr>cleared = [], overridden = None\<rparr> = (Ok True, \<lparr>cleared = [], overridden = None\<rparr>)"
    by (simp add: inode_bit_is_set_def Let_def allocation_groups_def example_groups_def example_bgd_def bgd_has_flag_def)
  have "live_inode crc ?fs (inode_ref_any 11) \<lparr>cleared = [], overridden = None\<rparr> = (Ok (ino, sample_file), \<lparr>cleared = [], overridden = None\<rparr>)"
    using v bit assms(2,3) by (simp add: live_inode_def Let_def inode_ref_any_def)
  moreover have "refuse_write crc traced_ops sample_view (sample_mount, sample_traced) = (Ok (), (sample_mount, sample_traced))"
    by (simp add: refuse_write_def write_refusal_def mark_not_clean_once_def sample_mount_def traced_ops_def unmaintained_ro_compat_def write_breaking_incompat_def)
  ultimately show ?thesis by (simp add: ready_for_def sample_mount_def)
qed

theorem mode_and_owner_writes_correct_witness:
  "\<exists>ino ms' t'. Inode_parse sample_file = Ok ino \<and>
     apply_chmod_ino (\<lambda>s bs. s) traced_ops sample_view 1700000000 (inode_ref_any 11) 0xF180 (sample_mount, sample_traced) = (Ok (), (ms', t')) \<and>
     attr_written (\<lambda>s bs. s) sample_view 11 14848 (stamped sample_file Ctime 1700000000 (ino\<lparr>i_mode := 0x8180\<rparr>)) sample_traced t'"
proof -
  obtain ino where i: "Inode_parse sample_file = Ok ino" "i_mode ino = 0x81A4" "i_links_count ino = 1" by (rule sample_parse)
  have c: "chmodded 0xF180 1700000000 sample_file ino = stamped sample_file Ctime 1700000000 (ino\<lparr>i_mode := 0x8180\<rparr>)"
    using i(2) by (simp add: chmodded_def S_IFMT_def)
  show ?thesis
    using mode_and_owner_writes_correct [OF sample_ready [OF i, of "\<lambda>s bs. s"], where b = 14 and off = 512 and now = 1700000000 and mode = "0xF180"] sample_slot i(1) c by (auto simp: inode_ref_any_def)
qed

theorem apply_utimens_correct_witness:
  "\<exists>ino ms' t'. Inode_parse sample_file = Ok ino \<and> i_mtime ino = 0 \<and>
     apply_utimens_ino (\<lambda>s bs. s) traced_ops sample_view 1700000000 (inode_ref_any 11) TIME_OMIT 0 4102444800 5 (sample_mount, sample_traced) = (Ok (), (ms', t')) \<and>
     attr_written (\<lambda>s bs. s) sample_view 11 14848 (stamped sample_file Ctime 1700000000 (ino\<lparr>i_mtime := 4102444800, i_mtime_nsec := 5\<rparr>)) sample_traced t'"
proof -
  obtain ino where i: "Inode_parse sample_file = Ok ino" "i_mode ino = 0x81A4" "i_links_count ino = 1" "i_mtime ino = 0" by (rule sample_parse)
  have t: "time_resolve TIME_OMIT 0 1700000000 = Ok Omit" "time_resolve 4102444800 5 1700000000 = Ok (SetTime 4102444800 5)"
    by (simp_all add: time_resolve_def TIME_OMIT_def UTIME_OMIT_def UTIME_NOW_def NSEC_PER_SEC_def MIN_ENCODABLE_TIME_def MAX_ENCODABLE_TIME_def I32_MIN_def I32_MAX_def ERA_SECONDS_def)
  have "get_le16 0x80 sample_file = 32" by code_simp
  then have f: "extra_field_fits sample_file 0x88" by (simp add: extra_field_fits_def inode_consts)
  have c: "timed_both Omit (SetTime 4102444800 5) 1700000000 sample_file ino = stamped sample_file Ctime 1700000000 (ino\<lparr>i_mtime := 4102444800, i_mtime_nsec := 5\<rparr>)"
    using f by (simp add: timed_both_def)
  have now: "MIN_ENCODABLE_TIME \<le> 1700000000" "1700000000 \<le> MAX_ENCODABLE_TIME" by (simp_all add: MIN_ENCODABLE_TIME_def MAX_ENCODABLE_TIME_def I32_MIN_def I32_MAX_def ERA_SECONDS_def)
  show ?thesis
    using apply_utimens_correct [OF sample_ready [OF i(1-3), of "\<lambda>s bs. s"] _ now t, of 14 512] sample_slot i(1,4) c f by (auto simp: inode_ref_any_def time_room_def)
qed

theorem refuse_write_correct_witness:
  "refuse_write (\<lambda>s bs. s) file_ops sample_view (sample_mount, \<lparr>fd_bytes = [], fd_size = 0, fd_writable = False\<rparr>) =
     (Err ReadOnly, (sample_mount, \<lparr>fd_bytes = [], fd_size = 0, fd_writable = False\<rparr>)) \<and>
   (\<exists>ms' t'. refuse_write (\<lambda>s bs. s) traced_ops sample_view (sample_mount\<lparr>marked_not_clean := False\<rparr>, sample_traced) = (Ok (), (ms', t')) \<and> marked_not_clean ms' \<and>
     drop 2048 (tr_image t') = drop 2048 (tr_image sample_traced) \<and> get_le16 (1024 + 0x3A) (tr_image t') = sb_state (sized 256) AND NOT EXT4_VALID_FS)"
  using refuse_write_correct [of sample_traced file_ops "\<lparr>fd_bytes = [], fd_size = 0, fd_writable = False\<rparr>" "\<lambda>s bs. s" sample_view sample_mount]
    refuse_write_correct [of sample_traced traced_ops sample_traced "\<lambda>s bs. s" sample_view "sample_mount\<lparr>marked_not_clean := False\<rparr>"]
  by (auto simp: file_ops_def sample_mount_def unmaintained_ro_compat_def write_breaking_incompat_def)

end
