(* ===== verification/Fs_Journal.thy ===== *)
theory Fs_Journal
  imports Fs_Attr
begin

unbundle bit_operations_syntax

text \<open>
  The journal of a mounted volume: the file that replay reads (\<open>journal_file\<close>) is the journal inode of the superblock, read and parsed on the volume's device, with the block map of
  \<open>journal_block_to_physical\<close> (\<open>src/jbd2.rs\<close>). A crash during a commit is then recovered from the bytes of the device alone.
\<close>

definition journal_block_to_physical :: "crc_fn \<Rightarrow> fs_view \<Rightarrow> inode \<Rightarrow> u64 \<Rightarrow> u64 option result" where
  "journal_block_to_physical crc fs jinode journal_block =
     map_logical_any crc (i_block_area jinode) (i_flags jinode) (fv_dev fs) (block_size (fv_sb fs)) journal_block"

definition volume_journal :: "crc_fn \<Rightarrow> 's dev_ops \<Rightarrow> fs_view \<Rightarrow> ('s, inode) journal_file" where
  "volume_journal crc dev fs =
     \<lparr>jf_inode = \<lambda>s. and_then (read_inode_raw (fs_at dev fs s) (journal_inode (fv_sb fs))) Inode_parse,
      jf_map = \<lambda>s. journal_block_to_physical crc (fs_at dev fs s)\<rparr>"

text \<open>
  The journal of a volume whose image is given: its inode is in block \<open>b\<close> at \<open>off\<close>, and its block map, for which the blocks \<open>M\<close> are read at most, is \<open>m\<close>.
\<close>

definition journal_on :: "crc_fn \<Rightarrow> fs_view \<Rightarrow> bytes \<Rightarrow> u64 \<Rightarrow> u32 \<Rightarrow> u64 set \<Rightarrow> inode \<Rightarrow> u64 list \<Rightarrow> bool" where
  "journal_on crc fs img b off M ino m \<longleftrightarrow>
     locate_inode (fv_sb fs) (fv_groups fs) (journal_inode (fv_sb fs)) = Ok (b, off) \<and> unat off + unat (inode_size (fv_sb fs)) \<le> bs_nat (fv_sb fs) \<and>
     Inode_parse (slice (unat off) (unat off + unat (inode_size (fv_sb fs))) (Block_Cache.block_of (bs_nat (fv_sb fs)) b img)) = Ok ino \<and>
     (\<forall>q \<in> insert b M. unat q * bs_nat (fv_sb fs) + bs_nat (fv_sb fs) \<le> length img) \<and>
     (\<forall>rd k. (\<forall>q \<in> M. rd (q * ucast (block_size (fv_sb fs))) (bs_nat (fv_sb fs)) = Ok (Block_Cache.block_of (bs_nat (fv_sb fs)) q img)) \<and> unat k < length m \<longrightarrow>
        map_logical_any crc (i_block_area ino) (i_flags ino) rd (block_size (fv_sb fs)) k = Ok (Some (m ! unat k)))"

lemma volume_journal_reads:
  fixes fs :: fs_view
  defines "bs \<equiv> bs_nat (fv_sb fs)" and "z \<equiv> unat (inode_size (fv_sb fs))"
  assumes "full_device dv ok contents" "ok s" "journal_on crc fs img b off M ino m" "0 < bs" "half_written bs S F img (contents s)" "insert b M \<inter> S = {}" "M \<inter> fst ` set F = {}"
    "\<forall>x. (b, x) \<in> set F \<longrightarrow> length x = bs \<and> slice (unat off) (unat off + z) x = slice (unat off) (unat off + z) (Block_Cache.block_of bs b img)"
  shows "journal_reads (volume_journal crc dv fs) ino m s"
proof -
  let ?fs = "fs_at dv fs s" and ?rd = "\<lambda>off n. fst (dv_read dv s off n)"
  note j = assms(5) [unfolded journal_on_def, folded bs_def z_def]
  have len: "length (contents s) = length img" using assms(7) by (simp add: half_written_def)
  have n: "length img < 2 ^ 63" using len full_device.axioms(1) [OF assms(3)] assms(4) block_device.image_bound by metis
  have rd: "?rd (q * ucast (block_size (fv_sb fs))) bs = Ok (Block_Cache.block_of bs q (contents s))" if "q \<in> insert b M" for q
  proof -
    have "unat q * bs + bs \<le> length (contents s)" using j that unfolding len by blast
    then obtain s' where "dv_read dv s (q * ucast (block_size (fv_sb fs))) bs = (Ok (Block_Cache.block_of bs q (contents s)), s')"
      using full_device.read_block [OF assms(3,4), of "block_size (fv_sb fs)" q] assms(6) unfolding bs_def by blast
    then show ?thesis by simp
  qed
  have same: "Block_Cache.block_of bs q (contents s) = Block_Cache.block_of bs q img" if "q \<in> M" for q
  proof -
    have "unat q * bs + bs \<le> length img" using j that by blast
    moreover have "q \<notin> S" "(q, x) \<notin> set F" for x using assms(8,9) that by (blast, force)
    ultimately show ?thesis using assms(7) unfolding half_written_def by blast
  qed
  have br: "unat b * bs + bs \<le> length img" using j by simp
  have blk: "slice (unat off) (unat off + z) (Block_Cache.block_of bs b (contents s)) = slice (unat off) (unat off + z) (Block_Cache.block_of bs b img)"
    using assms(7,8,10) br by (auto simp: half_written_def)
  have mul: "checked_mul b (ucast (block_size (fv_sb fs))) = Some (b * ucast (block_size (fv_sb fs)))"
    using br n by (simp add: checked_mul_def bs_def)
  have "length (Block_Cache.block_of bs b (contents s)) = bs" using br len by (simp add: length_block_of)
  then have "read_inode_raw ?fs (journal_inode (fv_sb fs)) = Ok (slice (unat off) (unat off + z) (Block_Cache.block_of bs b (contents s)))"
    using j rd [of b] mul by (simp add: read_inode_raw_def fs_read_block_def fs_at_def ok_or_def Let_def bs_def z_def)
  then have "jf_inode (volume_journal crc dv fs) s = Ok ino" using j blk by (simp add: volume_journal_def)
  moreover have "jf_map (volume_journal crc dv fs) s ino k = Ok (Some (m ! unat k))" if "unat k < length m" for k
  proof -
    have "\<forall>q \<in> M. ?rd (q * ucast (block_size (fv_sb fs))) bs = Ok (Block_Cache.block_of bs q img)" using rd same by simp
    then show ?thesis using j that by (simp add: volume_journal_def journal_block_to_physical_def fs_at_def)
  qed
  ultimately show ?thesis by (simp add: journal_reads_def)
qed

text \<open>
  The crash guarantee on a volume: recovery that finds the journal through its inode and block map on the crashed device restores the image before the transaction or the one after it, provided the transaction leaves the
  journal's inode and the blocks of its map as they are (it may write the block that holds the inode).
\<close>

theorem volume_crash_atomic:
  assumes "commit_ready w tx img" "commit_replayable w tx img"
    "crashed img [] (tr_events (snd (snd (jw_commit crc traced_ops tx w (recording img))))) img'"
    "full_device dv ok contents" "ok s" "dv_writable dv s" "contents s = img'" "same_volume (fv_sb fs) w"
    "journal_on crc fs img b off M ino (jw_map w)" "insert b M \<inter> (set (jw_map w) \<union> {sb_block w}) = {}"
    "\<forall>x \<in> set (tx_writes tx). jb_fs_block x \<notin> M \<and> (jb_fs_block x = b \<longrightarrow> length (jb_bytes x) = bs_nat (fv_sb fs) \<and>
       slice (unat off) (unat off + unat (inode_size (fv_sb fs))) (jb_bytes x) =
       slice (unat off) (unat off + unat (inode_size (fv_sb fs))) (Block_Cache.block_of (bs_nat (fv_sb fs)) b img))"
  shows "\<exists>n s'. replay_if_dirty crc dv (volume_journal crc dv fs) (fv_sb fs) s = (Ok n, s') \<and>
      (agrees (unat (jw_block_size w)) (set (jw_map w) \<union> {sb_block w}) img (contents s') \<or>
       agrees (unat (jw_block_size w)) (set (jw_map w) \<union> {sb_block w}) (Journal_Crash.block_writes (unat (jw_block_size w)) (final_writes tx) img) (contents s'))"
proof -
  have bs: "unat (jw_block_size w) = bs_nat (fv_sb fs)" using assms(8) by (simp add: same_volume_def)
  have "0 < bs_nat (fv_sb fs)" using assms(1) bs unfolding commit_ready_def by auto
  then have "journal_reads (volume_journal crc dv fs) ino (jw_map w) s'"
    if "ok s'" "half_written (unat (jw_block_size w)) (set (jw_map w) \<union> {sb_block w}) (final_writes tx) img (contents s')" for s'
    using that assms(11) unfolding bs by (intro volume_journal_reads [OF assms(4) _ assms(9) _ _ assms(10)]) (auto simp: final_writes_def)
  from commit_crash_recovers [OF assms(1-8) this] show ?thesis by blast
qed

section \<open>A volume with a journal\<close>

text \<open>
  Sixteen blocks of 1 KiB: the journal in blocks 2 to 6, its inode 8 in block 13 with direct pointers to them. The transaction writes block 7 and rewrites the block of the journal's inode, with another inode in it changed.
\<close>

definition journal_inode_bytes :: bytes where
  "journal_inode_bytes = put 0x28 [2, 0, 0, 0, 3, 0, 0, 0, 4, 0, 0, 0, 5, 0, 0, 0, 6, 0, 0, 0] (replicate 256 0)"

definition journaled_image :: bytes where
  "journaled_image = put 14080 journal_inode_bytes (put 2048 example_journal (replicate 16384 0))"

definition journaled_sb :: superblock where
  "journaled_sb = (sized 256)\<lparr>blocks_count := 16, journal_inode := 8\<rparr>"

definition journaled_view :: fs_view where
  "journaled_view = sample_view\<lparr>fv_sb := journaled_sb\<rparr>"

definition journaled_writer :: journal_writer where
  "journaled_writer = example_writer\<lparr>jw_blocks_count := 16\<rparr>"

definition journaled_commit :: transaction where
  "journaled_commit = (jw_begin journaled_writer)\<lparr>tx_writes :=
     [\<lparr>jb_fs_block = 7, jb_bytes = replicate 1024 9\<rparr>, \<lparr>jb_fs_block = 13, jb_bytes = put 0 [1] (put 768 journal_inode_bytes (replicate 1024 0))\<rparr>]\<rparr>"

lemma journaled_fields [simp]:
  "length journal_inode_bytes = 256" "length journaled_image = 16384" "inode_size journaled_sb = 256" "bs_nat journaled_sb = 1024" "block_size journaled_sb = 1024" "journal_inode journaled_sb = 8"
  "blocks_count journaled_sb = 16" "fv_sb journaled_view = journaled_sb" "fv_groups journaled_view = example_groups"
  "jw_block_size journaled_writer = 1024" "jw_map journaled_writer = [2, 3, 4, 5, 6]" "jw_jsb journaled_writer = jsb_fields example_journal" "jw_blocks_count journaled_writer = 16"
  by (simp_all add: journal_inode_bytes_def journaled_image_def example_journal_fields journaled_sb_def journaled_view_def journaled_writer_def example_writer_def block_size_def)

lemma journaled_blocks:
  "Block_Cache.block_of 1024 2 journaled_image = example_journal"
  "b \<in> {3, 4, 5, 6} \<Longrightarrow> Block_Cache.block_of 1024 b journaled_image = replicate 1024 0"
  "slice 768 1024 (Block_Cache.block_of 1024 13 journaled_image) = journal_inode_bytes"
  by (auto simp: journaled_image_def Block_Cache.block_of_def slice_simps slice_slice example_journal_fields(8)) (simp_all add: slice_def)

lemma journaled_ready: "commit_ready journaled_writer journaled_commit journaled_image" "commit_replayable journaled_writer journaled_commit journaled_image"
proof -
  have acc: "jsb_accepts example_journal" by (simp add: jsb_accepts_def example_journal_fields JBD2_SUPERBLOCK_V1_def JBD2_SUPERBLOCK_V2_def)
  have fields: "j_block_size (jsb_fields example_journal) = 1024" "j_first (jsb_fields example_journal) = 1" "j_start (jsb_fields example_journal) = 0"
    "j_max_len (jsb_fields example_journal) = 5" "j_sequence (jsb_fields example_journal) = 7"
    by (simp_all add: jsb_fields_def example_journal_fields Let_def)
  have sbb: "sb_block journaled_writer = 1" by (simp add: sb_block_def)
  have tx: "tx_writes journaled_commit = [\<lparr>jb_fs_block = 7, jb_bytes = replicate 1024 9\<rparr>, \<lparr>jb_fs_block = 13, jb_bytes = put 0 [1] (put 768 journal_inode_bytes (replicate 1024 0))\<rparr>]"
    "tx_revokes journaled_commit = []" "tx_sequence journaled_commit = 7"
    by (simp_all add: journaled_commit_def jw_begin_def tx_begin_def fields)
  have "jsb_parse (Block_Cache.block_of 1024 2 journaled_image) = Ok (jsb_fields example_journal)" using acc by (simp add: journaled_blocks jsb_parse_iff)
  then show "commit_ready journaled_writer journaled_commit journaled_image"
    unfolding commit_ready_def tx fields sbb by (simp add: jsb_same_def fits_tag_def fields)
  have z: "try_parse_header (replicate 1024 0) = None" by (simp add: try_parse_header_def JBD2_MAGIC_NUMBER_def)
  have "get_be32 8 example_journal = 0" by (simp add: example_journal_def codec_simps)
  then have "\<forall>h. try_parse_header example_journal = Some h \<longrightarrow> h_sequence h \<noteq> 8" by (auto simp: try_parse_header_def split: if_splits)
  then have "\<forall>p \<in> set [2, 3, 4, 5, 6 :: u64]. \<forall>h. try_parse_header (Block_Cache.block_of 1024 p journaled_image) = Some h \<longrightarrow> h_sequence h \<noteq> 7 + 1"
    by (simp add: journaled_blocks z)
  then show "commit_replayable journaled_writer journaled_commit journaled_image"
    unfolding commit_replayable_def tx all_set_conv_all_nth by simp
qed

lemma journaled_on: "\<exists>ino. journal_on crc journaled_view journaled_image 13 768 {} ino [2, 3, 4, 5, 6]"
proof -
  have loc: "locate_inode journaled_sb example_groups 8 = Ok (13, 768)"
    by (simp add: locate_inode_def Let_def checked_add_def word_less_nat_alt word_le_nat_alt example_groups_def example_bgd_def journaled_sb_def block_size_def)
  have "get_le16 0x80 journal_inode_bytes = 0" "get_le32 0x20 journal_inode_bytes = 0" by code_simp+
  then obtain ino where ino: "Inode_parse journal_inode_bytes = Ok ino" "i_flags ino = 0" "i_block_area ino = slice 0x28 (0x28 + 60) journal_inode_bytes"
    by (simp add: Inode_parse_def Let_def inode_consts)
  have p: "ptr_at (i_block_area ino) k = Ok (word_of_nat ([2, 3, 4, 5, 6] ! k))" if "k < 5" for k
  proof -
    have "k \<in> {0, 1, 2, 3, 4}" using that by auto
    moreover have "map (ptr_at (slice 0x28 (0x28 + 60) journal_inode_bytes)) [0, 1, 2, 3, 4] = [Ok 2, Ok 3, Ok 4, Ok 5, Ok 6]" by code_simp
    ultimately show ?thesis unfolding ino(3) by auto
  qed
  have "map_logical_any crc (i_block_area ino) (i_flags ino) rd 1024 k = Ok (Some ([2, 3, 4, 5, 6] ! unat k))" if "unat k < 5" for rd k
  proof -
    have "power_of_two32 1024" by code_simp
    moreover have "k < word_of_nat DIRECT_COUNT" using that by (simp add: word_less_nat_alt DIRECT_COUNT_def)
    moreover have "unat k \<in> {0, 1, 2, 3, 4}" using that by auto
    ultimately show ?thesis using p [OF that] by (auto simp: map_logical_any_def ino(2) ind_lookup_def Let_def hole_def)
  qed
  then have "journal_on crc journaled_view journaled_image 13 768 {} ino [2, 3, 4, 5, 6]" using loc ino(1) journaled_blocks(3) by (simp add: journal_on_def)
  then show ?thesis by blast
qed

theorem volume_crash_atomic_witness:
  "\<exists>n s'. replay_if_dirty (\<lambda>_ _. 0) file_ops (volume_journal (\<lambda>_ _. 0) file_ops journaled_view) journaled_sb \<lparr>fd_bytes = journaled_image, fd_size = 16384, fd_writable = True\<rparr> = (Ok n, s')"
proof -
  let ?d = "\<lparr>fd_bytes = journaled_image, fd_size = 16384, fd_writable = True\<rparr>"
  have cr: "crashed journaled_image [] evs journaled_image" for evs using crash_now [of "[]" "[]" journaled_image evs] by (simp add: apply_all_def)
  have d: "sized_file ?d" "dv_writable file_ops ?d" "fd_bytes ?d = journaled_image"
    by (simp_all add: sized_file_def file_inv_def file_ops_def)
  have v: "same_volume (fv_sb journaled_view) journaled_writer" by (simp add: same_volume_def) (simp add: journaled_sb_def write_breaking_incompat_def)
  obtain ino where on: "journal_on (\<lambda>_ _. 0) journaled_view journaled_image 13 768 {} ino (jw_map journaled_writer)" using journaled_on by auto
  have "insert 13 {} \<inter> (set (jw_map journaled_writer) \<union> {sb_block journaled_writer}) = {}" by (simp add: sb_block_def)
  from volume_crash_atomic [OF journaled_ready cr file_full.full_device_axioms d v on this] show ?thesis
    using journaled_blocks(3) by (auto simp: journaled_commit_def slice_simps)
qed

end
