(* ===== verification/Acl.thy ===== *)
theory Acl
  imports Xattr
begin

unbundle bit_operations_syntax

text \<open>
  POSIX access control lists in their compact on-disk form (\<open>src/acl.rs\<close>): a version word and entries of four bytes, or of eight for the
  tags that carry an id.
\<close>

section \<open>Decoding\<close>

definition EXT4_ACL_VERSION :: u32 where "EXT4_ACL_VERSION = 1"

datatype acl_kind = Access | Default

fun xattr_name :: "acl_kind \<Rightarrow> bytes" where
  "xattr_name Access = bstr ''system.posix_acl_access''"
| "xattr_name Default = bstr ''system.posix_acl_default''"

datatype acl_tag = UserObj | User | GroupObj | Group | Mask | Other

text \<open>The discriminants of the enum, and the tag a field holds.\<close>

fun tag_word :: "acl_tag \<Rightarrow> u16" where
  "tag_word UserObj = 0x01"
| "tag_word User = 0x02"
| "tag_word GroupObj = 0x04"
| "tag_word Group = 0x08"
| "tag_word Mask = 0x10"
| "tag_word Other = 0x20"

definition AclTag_from_u16 :: "u16 \<Rightarrow> acl_tag option" where
  "AclTag_from_u16 v =
     (if v = 0x01 then Some UserObj else if v = 0x02 then Some User else if v = 0x04 then Some GroupObj
      else if v = 0x08 then Some Group else if v = 0x10 then Some Mask else if v = 0x20 then Some Other else None)"

fun has_id :: "acl_tag \<Rightarrow> bool" where
  "has_id User = True"
| "has_id Group = True"
| "has_id _ = False"

record acl_entry =
  acl_tag :: acl_tag
  acl_perm :: u16
  acl_id :: "u32 option"

function acl_loop :: "bytes \<Rightarrow> nat \<Rightarrow> acl_entry list result" where
  "acl_loop buf pos =
     (if pos < length buf then
        if pos + 4 > length buf then Err (Corrupt ''acl entry truncated'')
        else and_then (ok_or (AclTag_from_u16 (get_le16 pos buf)) (Corrupt ''acl entry has unknown tag'')) (\<lambda>tag.
          if has_id tag
          then if pos + 8 > length buf then Err (Corrupt ''acl full entry truncated'')
               else and_then (acl_loop buf (pos + 8)) (\<lambda>es.
                 Ok (\<lparr>acl_tag = tag, acl_perm = get_le16 (pos + 2) buf, acl_id = Some (get_le32 (pos + 4) buf)\<rparr> # es))
          else and_then (acl_loop buf (pos + 4)) (\<lambda>es. Ok (\<lparr>acl_tag = tag, acl_perm = get_le16 (pos + 2) buf, acl_id = None\<rparr> # es)))
      else Ok [])"
  by pat_completeness auto
termination
  by (relation "measure (\<lambda>(buf, pos). length buf - pos)") auto

declare acl_loop.simps [simp del]

definition acl_decode :: "bytes \<Rightarrow> acl_entry list result" where
  "acl_decode buf =
     (if length buf < 4 then Err (Corrupt ''acl too short for version header'')
      else if get_le32 0 buf \<noteq> EXT4_ACL_VERSION then Err (Corrupt ''acl version mismatch'')
      else acl_loop buf 4)"

definition acl_read :: "reader \<Rightarrow> inode \<Rightarrow> bytes \<Rightarrow> u16 \<Rightarrow> u32 \<Rightarrow> acl_kind \<Rightarrow> acl_entry list option result" where
  "acl_read rd ino inode_raw isize bs kind =
     and_then (xattr_get rd ino inode_raw isize bs (xattr_name kind)) (\<lambda>value.
     case value of None \<Rightarrow> Ok None | Some b \<Rightarrow> map_ok Some (acl_decode b))"

section \<open>The format\<close>

text \<open>The bytes of a list of entries, and the entries that have a form: an id exactly where the tag carries one.\<close>

definition acl_entry_bytes :: "acl_entry \<Rightarrow> bytes" where
  "acl_entry_bytes e = u16_to_le (tag_word (acl_tag e)) @ u16_to_le (acl_perm e) @ (case acl_id e of None \<Rightarrow> [] | Some i \<Rightarrow> u32_to_le i)"

definition acl_encode :: "acl_entry list \<Rightarrow> bytes" where
  "acl_encode es = u32_to_le EXT4_ACL_VERSION @ concat (map acl_entry_bytes es)"

definition acl_wf :: "acl_entry list \<Rightarrow> bool" where
  "acl_wf es \<longleftrightarrow> (\<forall>e \<in> set es. has_id (acl_tag e) \<longleftrightarrow> acl_id e \<noteq> None)"

lemma tag_word_Some [simp]: "AclTag_from_u16 (tag_word t) = Some t"
  by (cases t) (simp_all add: AclTag_from_u16_def)

lemma AclTag_from_u16_Some: "AclTag_from_u16 v = Some t \<longleftrightarrow> v = tag_word t"
proof
  show "AclTag_from_u16 v = Some t \<Longrightarrow> v = tag_word t" by (auto simp: AclTag_from_u16_def split: if_splits)
qed simp

lemma le16_at: "j \<le> length buf \<Longrightarrow> j = pos + 2 \<Longrightarrow> drop pos buf = u16_to_le (get_le16 pos buf) @ drop j buf"
proof -
  assume j: "j \<le> length buf" "j = pos + 2"
  then have "u16_to_le (get_le16 pos buf) = slice pos (pos + 2) buf" unfolding get_le16_def by (intro le16.enc_dec) simp
  moreover have "drop pos buf = take 2 (drop pos buf) @ drop 2 (drop pos buf)" by (rule append_take_drop_id [symmetric])
  moreover have "drop 2 (drop pos buf) = drop j buf" using j(2) by (simp add: add.commute)
  ultimately show ?thesis by (simp add: slice_def)
qed

lemma le16_head:
  "drop pos buf = u16_to_le v @ rest \<Longrightarrow> pos \<le> length buf \<Longrightarrow> j = pos + 2 \<Longrightarrow> get_le16 pos buf = v \<and> j \<le> length buf \<and> drop j buf = rest"
proof -
  assume d: "drop pos buf = u16_to_le v @ rest" and p: "pos \<le> length buf" "j = pos + 2"
  have "length (drop pos buf) = 2 + length rest" using d by simp
  then have l: "j \<le> length buf" using p by simp
  have "slice pos (pos + 2) buf = u16_to_le v" using d by (simp add: slice_def)
  moreover have "drop j buf = rest" using arg_cong [OF d, of "drop 2"] p(2) by (simp add: add.commute)
  ultimately show ?thesis using l by (simp add: get_le16_def)
qed

lemma le32_at: "j \<le> length buf \<Longrightarrow> j = pos + 4 \<Longrightarrow> drop pos buf = u32_to_le (get_le32 pos buf) @ drop j buf"
proof -
  assume j: "j \<le> length buf" "j = pos + 4"
  then have "u32_to_le (get_le32 pos buf) = slice pos (pos + 4) buf" unfolding get_le32_def by (intro le32.enc_dec) simp
  moreover have "drop pos buf = take 4 (drop pos buf) @ drop 4 (drop pos buf)" by (rule append_take_drop_id [symmetric])
  moreover have "drop 4 (drop pos buf) = drop j buf" using j(2) by (simp add: add.commute)
  ultimately show ?thesis by (simp add: slice_def)
qed

lemma le32_head:
  "drop pos buf = u32_to_le v @ rest \<Longrightarrow> pos \<le> length buf \<Longrightarrow> j = pos + 4 \<Longrightarrow> get_le32 pos buf = v \<and> j \<le> length buf \<and> drop j buf = rest"
proof -
  assume d: "drop pos buf = u32_to_le v @ rest" and p: "pos \<le> length buf" "j = pos + 4"
  have "length (drop pos buf) = 4 + length rest" using d by simp
  then have l: "j \<le> length buf" using p by simp
  have "slice pos (pos + 4) buf = u32_to_le v" using d by (simp add: slice_def)
  moreover have "drop j buf = rest" using arg_cong [OF d, of "drop 4"] p(2) by (simp add: add.commute)
  ultimately show ?thesis using l by (simp add: get_le32_def)
qed

lemma acl_entry_bytes_simps [simp]:
  "acl_entry_bytes \<lparr>acl_tag = t, acl_perm = p, acl_id = None\<rparr> = u16_to_le (tag_word t) @ u16_to_le p"
  "acl_entry_bytes \<lparr>acl_tag = t, acl_perm = p, acl_id = Some i\<rparr> = u16_to_le (tag_word t) @ u16_to_le p @ u32_to_le i"
  by (simp_all add: acl_entry_bytes_def)

lemma acl_loop_sound:
  "acl_loop buf pos = Ok es \<Longrightarrow> pos \<le> length buf \<Longrightarrow> drop pos buf = concat (map acl_entry_bytes es) \<and> acl_wf es"
proof (induction buf pos arbitrary: es rule: acl_loop.induct)
  case (1 buf pos)
  show ?case
  proof (cases "pos < length buf")
    case False
    then show ?thesis using 1(3,4) by (subst (asm) acl_loop.simps) (simp add: acl_wf_def)
  next
    case True
    then obtain t where t: "pos + 4 \<le> length buf" "AclTag_from_u16 (get_le16 pos buf) = Some t"
      using 1(3) by (subst (asm) acl_loop.simps) (auto simp: outcome_simps split: if_splits)
    have w: "get_le16 pos buf = tag_word t" using t(2) by (simp add: AclTag_from_u16_Some)
    have hd: "drop pos buf = u16_to_le (tag_word t) @ u16_to_le (get_le16 (pos + 2) buf) @ drop (pos + 4) buf"
      using le16_at [of "pos + 2" buf pos] le16_at [of "pos + 4" buf "pos + 2"] t(1) w by simp
    show ?thesis
    proof (cases "has_id t")
      case True
      then obtain es' where es': "pos + 8 \<le> length buf" "acl_loop buf (pos + 8) = Ok es'"
        "es = \<lparr>acl_tag = t, acl_perm = get_le16 (pos + 2) buf, acl_id = Some (get_le32 (pos + 4) buf)\<rparr> # es'"
        using 1(3) \<open>pos < length buf\<close> t by (subst (asm) acl_loop.simps) (auto simp: outcome_simps split: if_splits)
      have "drop (pos + 8) buf = concat (map acl_entry_bytes es') \<and> acl_wf es'"
        using 1(1) [OF \<open>pos < length buf\<close> _ True _ es'(2) es'(1)] t es'(1) by simp
      moreover have "drop (pos + 4) buf = u32_to_le (get_le32 (pos + 4) buf) @ drop (pos + 8) buf" using le32_at [of "pos + 8" buf "pos + 4"] es'(1) by simp
      ultimately show ?thesis using hd es'(3) True by (simp add: acl_wf_def)
    next
      case False
      then obtain es' where es': "acl_loop buf (pos + 4) = Ok es'" "es = \<lparr>acl_tag = t, acl_perm = get_le16 (pos + 2) buf, acl_id = None\<rparr> # es'"
        using 1(3) \<open>pos < length buf\<close> t by (subst (asm) acl_loop.simps) (auto simp: outcome_simps split: if_splits)
      have "drop (pos + 4) buf = concat (map acl_entry_bytes es') \<and> acl_wf es'"
        using 1(2) [OF \<open>pos < length buf\<close> _ False es'(1) t(1)] t by simp
      then show ?thesis using hd es'(2) False by (simp add: acl_wf_def)
    qed
  qed
qed

lemma acl_loop_complete:
  "drop pos buf = concat (map acl_entry_bytes es) \<Longrightarrow> pos \<le> length buf \<Longrightarrow> acl_wf es \<Longrightarrow> acl_loop buf pos = Ok es"
proof (induction es arbitrary: pos)
  case Nil
  then show ?case by (simp add: acl_loop.simps)
next
  case (Cons e es)
  have hd: "drop pos buf = u16_to_le (tag_word (acl_tag e)) @ u16_to_le (acl_perm e) @ (case acl_id e of None \<Rightarrow> [] | Some i \<Rightarrow> u32_to_le i) @ concat (map acl_entry_bytes es)"
    using Cons.prems(1) by (simp add: acl_entry_bytes_def [of e])
  have t: "get_le16 pos buf = tag_word (acl_tag e)" "pos + 2 \<le> length buf"
      "drop (pos + 2) buf = u16_to_le (acl_perm e) @ (case acl_id e of None \<Rightarrow> [] | Some i \<Rightarrow> u32_to_le i) @ concat (map acl_entry_bytes es)"
    using le16_head [OF hd Cons.prems(2) refl] by blast+
  have p: "get_le16 (pos + 2) buf = acl_perm e" "pos + 4 \<le> length buf" "drop (pos + 4) buf = (case acl_id e of None \<Rightarrow> [] | Some i \<Rightarrow> u32_to_le i) @ concat (map acl_entry_bytes es)"
    using le16_head [OF t(3,2), of "pos + 4"] by simp_all
  have wf: "acl_wf es" "has_id (acl_tag e) \<longleftrightarrow> acl_id e \<noteq> None" using Cons.prems(3) by (auto simp: acl_wf_def)
  show ?case
  proof (cases "acl_id e")
    case None
    then have "acl_loop buf (pos + 4) = Ok es" using Cons.IH [of "pos + 4"] p(2,3) wf(1) by simp
    then show ?thesis using None t(1) p wf(2) by (subst acl_loop.simps) (cases e, simp)
  next
    case (Some i)
    then have d: "drop (pos + 4) buf = u32_to_le i @ concat (map acl_entry_bytes es)" using p(3) by simp
    have i: "get_le32 (pos + 4) buf = i" "pos + 8 \<le> length buf" "drop (pos + 8) buf = concat (map acl_entry_bytes es)"
      using le32_head [OF d p(2), of "pos + 8"] by simp_all
    then have "acl_loop buf (pos + 8) = Ok es" using Cons.IH [of "pos + 8"] wf(1) by simp
    then show ?thesis using Some t(1) p i wf(2) by (subst acl_loop.simps) (cases e, simp)
  qed
qed

lemma acl_loop_no_panic: "acl_loop buf pos \<noteq> Panic"
proof (induction buf pos rule: acl_loop.induct)
  case (1 buf pos)
  then show ?case by (subst acl_loop.simps) (auto simp: outcome_simps ok_or_def split: option.splits)
qed

text \<open>
  C39. Decoding an access control list (\<open>acl_decode\<close>) accepts exactly the encodings: it returns a list of entries if and only if the bytes are the
  version word followed by these entries, each with an id exactly where its tag carries one. Every other input is an error, and none unwinds.
\<close>

theorem acl_decode_correct:
  "(acl_decode buf = Ok es \<longleftrightarrow> buf = acl_encode es \<and> acl_wf es) \<and> acl_decode buf \<noteq> Panic"
proof
  show "acl_decode buf = Ok es \<longleftrightarrow> buf = acl_encode es \<and> acl_wf es"
  proof
    assume d: "acl_decode buf = Ok es"
    then have h: "4 \<le> length buf" "get_le32 0 buf = EXT4_ACL_VERSION" "acl_loop buf 4 = Ok es" by (auto simp: acl_decode_def split: if_splits)
    then have "drop 4 buf = concat (map acl_entry_bytes es)" "acl_wf es" using acl_loop_sound [OF h(3)] by simp_all
    then show "buf = acl_encode es \<and> acl_wf es" using le32_at [of 4 buf 0] h(1,2) by (simp add: acl_encode_def)
  next
    assume e: "buf = acl_encode es \<and> acl_wf es"
    then have "drop 0 buf = u32_to_le EXT4_ACL_VERSION @ concat (map acl_entry_bytes es)" by (simp add: acl_encode_def)
    from le32_head [OF this, of 4] have "get_le32 0 buf = EXT4_ACL_VERSION" "4 \<le> length buf" "drop 4 buf = concat (map acl_entry_bytes es)" by simp_all
    then show "acl_decode buf = Ok es" using acl_loop_complete [of 4 buf es] e by (simp add: acl_decode_def)
  qed
  show "acl_decode buf \<noteq> Panic" using acl_loop_no_panic by (simp add: acl_decode_def)
qed

end
