(* ===== verification/Spec2Isabelle.thy ===== *)
theory Spec2Isabelle
  imports Fs_Journal Acl
begin

text \<open>
  A verification development for the ext2, ext3 and ext4 driver of this repository (pure Rust; the modules named below are the files of the crate's \<open>src/\<close> directory).

  \<^bold>\<open>The program.\<close> A mounted volume is a block device seen through a buffer cache. On it lie the superblock, the group descriptors with their bitmaps and inode tables, the inodes, the trees
  that map a file's blocks, the directories, the extended attributes, and the journal. Reads parse these formats and refuse what does not check. A mutating operation passes a guard, reads what it needs, lets pure planners
  compute new bytes, stages the blocks in a buffer, and commits the buffer: through the journal in four fenced steps, or directly in three flushed stages where there is none. After a crash the journal is walked
  and replayed. The theories follow that order; each definition keeps the name the code has and stands in the order of its module.

  \<^bold>\<open>Ground.\<close>
  \<^item> \<open>Prelude\<close>: outcomes of Rust calls (\<open>Ok\<close>, \<open>Err\<close>, \<open>Panic\<close> for an unwinding call), words with their wrapping and checked arithmetic, slices and in-place writes, integer codecs (the locale \<open>fixed_codec\<close>, interpreted for each width and order).
  \<^item> \<open>Ext4_Error\<close>: the error type and its errno values (\<open>error.rs\<close>).
  \<^item> \<open>Checksum\<close>: every metadata checksum with its verifier and its patcher (\<open>checksum.rs\<close>); the CRC function of the external crate is a parameter. A block that any of the five patchers stamps verifies and keeps its body, and one it cannot stamp is left alone.

  \<^bold>\<open>Devices.\<close>
  \<^item> \<open>Block_IO\<close>: the file, callback and sector-aligned devices (\<open>block_io.rs\<close>) behind the locale \<open>block_device\<close>, whose laws say that a read returns the contents and a write changes exactly its range; the aligned device turns any device that only
    takes whole sectors into one that keeps them.
  \<^item> \<open>Block_Cache\<close>: the cache (\<open>block_cache.rs\<close>) with clean and pinned entries and eviction. Every sequence of operations behaves as one on the plain image, and the cache is itself a \<open>block_device\<close>.

  \<^bold>\<open>On-disk structures.\<close>
  \<^item> \<open>Superblock\<close>, \<open>Bgd\<close>: parsing with all geometry checks, mount gates, the group layout and the descriptor table (\<open>superblock.rs\<close>, \<open>features.rs\<close>, \<open>bgd.rs\<close>). Reading the table never unwinds and every pointer it accepts is inside the volume. The bound
    it puts on an inode table is characterised: it covers the records where the inode size divides the block size, and is too small for other sizes, which the parser accepts.
  \<^item> \<open>Inode\<close>: the inode record and its timestamps with eras (\<open>inode.rs\<close>).
  \<^item> \<open>Extent\<close>, \<open>Extent_Mut\<close>, \<open>Extent_Deep\<close>: extent trees (\<open>extent.rs\<close>, \<open>extent_mut.rs\<close>). A lookup agrees with the whole walk; the planners on the inline root change the mapping exactly as asked; repacking over several levels reads back as the entries it
    was given, over blocks that are disjoint; an image whose index nodes lead into one another makes the descent of an insertion run for ever.
  \<^item> \<open>Indirect\<close>: block pointers of ext2 and ext3 (\<open>indirect.rs\<close>, \<open>indirect_mut.rs\<close>): the layout of a contiguous file reads back, and the walk that frees a range collects exactly its blocks.
  \<^item> \<open>Dir\<close>, \<open>Hash\<close>, \<open>Htree\<close>, \<open>Path\<close>: directory blocks, name hashes, the index and its splits, and path resolution (\<open>dir.rs\<close>, \<open>hash.rs\<close>, \<open>htree.rs\<close>, \<open>htree_mut.rs\<close>, \<open>path.rs\<close>). Adding and removing change exactly one name; a split keeps every name reachable; finding
    a name is a lookup in the list of entries however the directory is stored, and resolving a path refines the walk through the namespace of maps.
  \<^item> \<open>Xattr\<close>, \<open>Acl\<close>: extended attributes in the inode and in their block, against a map from names to values, and access control lists (\<open>xattr.rs\<close>, \<open>acl.rs\<close>).
  \<^item> \<open>File_IO\<close>, \<open>Inline\<close>, \<open>File_Mut\<close>, \<open>Truncate\<close>: range reads over every mapping, data kept in inodes, cutting a write into blocks, and the shrink planners (\<open>file_io.rs\<close>, \<open>inline_data.rs\<close>, \<open>inline_mut.rs\<close>, \<open>ea_inode.rs\<close>, \<open>file_mut.rs\<close>, readers of \<open>fs.rs\<close>).
    A read returns the bytes of the file's contents; a shrink leaves the old mapping below the new end, and frees exactly the blocks the new tree no longer reaches.

  \<^bold>\<open>Allocation and the journal.\<close>
  \<^item> \<open>Bitmap\<close>, \<open>Alloc\<close>: bit search and the planners for blocks and inodes (\<open>alloc.rs\<close>): the three-phase scan is the plain one as long as its \<open>u32\<close> index cannot wrap, which the geometry of a parsed superblock ensures for blocks, and a plan takes only free, unreserved bits of its group.
  \<^item> \<open>Jbd2\<close>, \<open>Transaction\<close>, \<open>Journal\<close>, \<open>Journal_Apply\<close>, \<open>Journal_Writer\<close>: the journal superblock, building and serialising a transaction, the recovery walk, replay, and the fenced commit (\<open>jbd2.rs\<close>, \<open>transaction.rs\<close>, \<open>journal.rs\<close>, \<open>journal_apply.rs\<close>, \<open>journal_writer.rs\<close>).
    What is serialised is what the walk decodes; a replay that refuses one entry has written none.
  \<^item> \<open>Journal_Crash\<close>: a device that records writes and flushes, and the images a crash may leave of it (everything before the last flush, any subset of the writes after it; a write of one block is atomic). A crash anywhere in a commit, followed by
    recovery, gives the filesystem before the transaction or after it.

  \<^bold>\<open>Operations of a mount\<close> (\<open>fs.rs\<close>).
  \<^item> \<open>Fs_Buffer\<close>, \<open>Fs_Space\<close>, \<open>Fs_Alloc\<close>: the buffer a mutation stages its blocks in, the helpers that keep bitmaps, descriptors and counters in step, planning against staged state, and the commit. Freeing runs keeps every descriptor's count equal to the clear bits
    of its bitmap; runs allocated in one transaction are disjoint, also in groups whose bitmap was never written; a crash in a direct commit leaves the superblock and the descriptors no newer than what they vouch for.
  \<^item> \<open>Fs_Inode\<close>, \<open>Fs_Attr\<close>: the write guard, handles, names, and the attribute writes. The locale \<open>attribute_edit\<close> states what an edit of one inode image must keep, and proves once that writing it reads back verified, changes nothing else and
    is atomic under a crash; mode, owner, flags and times are its instances.
  \<^item> \<open>Fs_Journal\<close>: the journal of a volume as replay finds it, through the journal's inode and its block map (\<open>jbd2.rs\<close>). \<open>Journal_Apply\<close> takes that file as a record of two functions; here they are the inode reader and the
    block map of the model, and the crash guarantee of \<open>Journal_Crash\<close> is carried over to them.

  \<^bold>\<open>Locales.\<close> \<open>fixed_codec\<close>, \<open>tail_checksum\<close>, \<open>entry_codec\<close>, \<open>xattr_area\<close> and \<open>attribute_edit\<close> hold a proof shared by several formats or operations; \<open>block_device\<close>, \<open>sector_device\<close> and \<open>full_device\<close> are the interfaces of the layers above a device. Each
  is interpreted on the definitions of the model.

  \<^bold>\<open>Bounds and fuel.\<close> Words keep the width they have in the code, and wrap as the release build does. Loops are structural or have a termination proof, with two exceptions. The word scan of \<open>Bitmap\<close> and the run search over it can
  go round for ever on a bitmap of 512 MiB, and are partial functions with \<open>None\<close> for not returning; below that size, or with a bound below $2^{32} - 64$, they are shown to return, and the planners of \<open>Alloc\<close> are total there. The two loops of \<open>Extent_Deep\<close> that an image can keep running carry fuel, \<open>None\<close> being a
  run cut short: four levels are enough for any tree that a repack builds, which is a hypothesis of that theorem and gives \<open>Some\<close>, and no amount is enough for a descent that an image leads round in a circle. Images are below $2^{63}$ bytes, as every device offset of the code is.

  \<^bold>\<open>Not modelled.\<close> The sequences of \<open>fs.rs\<close> that string these parts together (mounting, orphan recovery, creating, unlinking, renaming, writing and truncating files); the checker (\<open>fsck.rs\<close>, \<open>verify.rs\<close>) and the formatter (\<open>mkfs.rs\<close>), which stand beside the
  driver; the C interface, the command line, the host bindings and the Unicode tables (\<open>capi.rs\<close>, \<open>cli/\<close>, \<open>runtime.rs\<close>, \<open>fs_core_bridge.rs\<close>, \<open>casefold.rs\<close>), which are glue. Mutexes are left out: operations run one at a time. The clock, the random source, the CRC function and the
  closures a caller passes in are parameters.
\<close>

end
